(* ===== verification/Kernel_Prelude.thy ===== *)
theory Kernel_Prelude
  imports Main "HOL-Library.Word"
begin

text \<open>
  Shared vocabulary of the development.  A kernel function that can fail an \<open>assert\<close>, index
  an array out of its bounds or follow a null pointer returns \<open>Inl\<close> of a \<open>fault\<close>; every other
  outcome, including the negative error numbers that system calls return, is an ordinary value
  under \<open>Inr\<close>.  The theory fixes the type of such results, their sequential composition
  \<open>rbind\<close>, the widths of the machine integers, and generic facts about lists and arithmetic
  that several components use.
\<close>

section \<open>Machine integers\<close>

unbundle bit_operations_syntax

type_synonym u8 = "8 word"
type_synonym u16 = "16 word"
type_synonym u32 = "32 word"
type_synonym u64 = "64 word"

lemma u64_bound: "unat (x :: u64) < 2 ^ 64"
  using unsigned_less[of x] by simp

lemma u32_bound: "unat (x :: u32) < 2 ^ 32"
  using unsigned_less[of x] by simp

text \<open>The size of a disk block, \<open>chickadeefs.hh\<close>.\<close>

abbreviation blocksize :: nat where "blocksize \<equiv> 4096"
abbreviation E_AGAIN :: int where "E_AGAIN \<equiv> - 11"

text \<open>The sign of a \<open>long\<close> and the size of its magnitude.\<close>

lemma shift_mod: "0 \<le> n \<Longrightarrow> n < 2 ^ 64 \<Longrightarrow> (n + 2 ^ 63) mod 2 ^ 64 - 2 ^ 63 = (if 2 ^ 63 \<le> n then n - 2 ^ 64 else n)" for n :: int
  by (auto simp: mod_pos_geq)

lemma sint_neg_iff: "sint (x::u64) < 0 \<longleftrightarrow> 2 ^ 63 \<le> unat x"
proof -
  have u: "uint x < 2 ^ 64" using unsigned_less[of x] by simp
  have "sint x = signed_take_bit 63 (uint x)" by (simp add: sint_uint)
  also have "\<dots> = (uint x + 2 ^ 63) mod 2 ^ 64 - 2 ^ 63" by (simp add: signed_take_bit_eq_take_bit_shift take_bit_eq_mod)
  finally have "sint x < 0 \<longleftrightarrow> 2 ^ 63 \<le> uint x" using u shift_mod[of "uint x"] by auto
  moreover have "2 ^ 63 \<le> uint x \<longleftrightarrow> 2 ^ 63 \<le> unat x" using of_nat_le_iff[where 'a = int, of "2 ^ 63" "unat x"] by simp
  ultimately show ?thesis by simp
qed

lemma u64_neg_bound: "sint (x::u64) < 0 \<Longrightarrow> \<not> - x > 2 ^ 63"
proof -
  assume "sint x < 0"
  then have "2 ^ 63 \<le> unat x" by (simp add: sint_neg_iff)
  then have "x \<noteq> 0" by auto
  moreover have "unat (- x) = (if x = 0 then 0 else 2 ^ 64 - unat x)"
    using unat_sub_if'[of 0 x] by (auto simp: unat_eq_0)
  ultimately show ?thesis using \<open>2 ^ 63 \<le> unat x\<close> by (simp add: word_less_nat_alt)
qed

lemma u64_nonneg_bound: "\<not> sint (x::u64) < 0 \<Longrightarrow> \<not> x > 2 ^ 63 - 1"
  by (simp add: sint_neg_iff word_less_nat_alt)

section \<open>Faults and results\<close>

text \<open>
  \<open>Assert_Fail\<close> is a failed \<open>assert\<close> (\<open>assert_fail\<close> in \<open>lib.hh\<close> never returns);
  \<open>No_Return\<close> is the result of a loop whose turn bound ran out; the other constructors stand
  for undefined behaviour that the C++ code does not test for.
\<close>

datatype fault = Assert_Fail | Out_Of_Bounds | Null_Deref | Use_After_Free | Uninit_Read | Panic | Int_Overflow | No_Return

type_synonym 'a res = "fault + 'a"

text \<open>Error numbers of \<open>lib.hh\<close> that several system calls return.\<close>

abbreviation E_BADF :: int where "E_BADF \<equiv> - 9"
abbreviation E_FAULT :: int where "E_FAULT \<equiv> - 14"
abbreviation E_INVAL :: int where "E_INVAL \<equiv> - 22"
abbreviation E_NFILE :: int where "E_NFILE \<equiv> - 23"
abbreviation E_NOMEM :: int where "E_NOMEM \<equiv> - 12"
abbreviation E_SPIPE :: int where "E_SPIPE \<equiv> - 29"

definition rbind :: "'a res \<Rightarrow> ('a \<Rightarrow> 'b res) \<Rightarrow> 'b res" where
  "rbind m f = (case m of Inl e \<Rightarrow> Inl e | Inr x \<Rightarrow> f x)"

definition assert_then :: "bool \<Rightarrow> 'a res \<Rightarrow> 'a res" where
  "assert_then b m = (if b then m else Inl Assert_Fail)"

named_theorems res_simps \<open>equations that run the result monad\<close>

lemma rbind_simps [simp, res_simps]:
  "rbind (Inr x) f = f x"
  "rbind (Inl e) f = Inl e"
  by (simp_all add: rbind_def)

lemma assert_then_simps [simp, res_simps]:
  "assert_then True m = m"
  "assert_then False m = Inl Assert_Fail"
  by (simp_all add: assert_then_def)

lemma rbind_eq_Inr: "rbind m f = Inr y \<longleftrightarrow> (\<exists>x. m = Inr x \<and> f x = Inr y)"
  by (cases m) auto

lemma assert_then_eq_Inr: "assert_then b m = Inr y \<longleftrightarrow> b \<and> m = Inr y"
  by (cases b) auto

lemma rbind_assoc: "rbind (rbind m f) g = rbind m (\<lambda>x. rbind (f x) g)"
  by (cases m) auto

section \<open>Lists\<close>

named_theorems list_arith \<open>facts on take, drop and update used by the array models\<close>

lemma drop_eq_Cons_nth: "i < length xs \<Longrightarrow> drop i xs = xs ! i # drop (Suc i) xs"
  by (simp add: Cons_nth_drop_Suc)

text \<open>
  \<open>memmove\<close> inside one array, on whole elements: \<open>cnt\<close> elements from index \<open>src\<close> are copied to
  index \<open>dst\<close>, with the source read before anything is written.
\<close>

definition arr_move :: "'a list \<Rightarrow> nat \<Rightarrow> nat \<Rightarrow> nat \<Rightarrow> 'a list" where
  "arr_move r dst src cnt = take dst r @ take cnt (drop src r) @ drop (dst + cnt) r"

lemma length_arr_move [simp]:
  "dst + cnt \<le> length r \<Longrightarrow> src + cnt \<le> length r \<Longrightarrow> length (arr_move r dst src cnt) = length r"
  by (simp add: arr_move_def)

lemma take_Suc_app_nth: "i < length xs \<Longrightarrow> take (Suc i) xs = take i xs @ [xs ! i]"
  by (simp add: take_Suc_conv_app_nth)

lemma in_set_dropE:
  assumes "y \<in> set (drop k xs)"
  obtains q where "k \<le> q" "q < length xs" "y = xs ! q"
proof -
  obtain p where "p < length xs - k" "drop k xs ! p = y"
    using assms by (auto simp: in_set_conv_nth)
  then show ?thesis using that[of "k + p"] by (simp add: add.commute less_diff_conv)
qed

lemma in_set_takeE:
  assumes "y \<in> set (take k xs)"
  obtains q where "q < k" "q < length xs" "y = xs ! q"
  using assms by (auto simp: in_set_conv_nth)

lemma in_set_drop_conv: "x \<in> set (drop m xs) \<longleftrightarrow> (\<exists>i \<ge> m. i < length xs \<and> x = xs ! i)"
proof
  assume "\<exists>i \<ge> m. i < length xs \<and> x = xs ! i"
  then obtain i where "m \<le> i" "i < length xs" "x = xs ! i" by blast
  then have "x = drop m xs ! (i - m)" "i - m < length (drop m xs)" by auto
  then show "x \<in> set (drop m xs)" using nth_mem by blast
qed (auto elim: in_set_dropE)

lemma in_set_take_conv: "n \<le> length xs \<Longrightarrow> x \<in> set (take n xs) \<longleftrightarrow> (\<exists>i < n. x = xs ! i)"
  by (force simp: in_set_conv_nth)

end
