(* ===== verification/KList.thy ===== *)
theory KList
  imports Kernel_Prelude
begin

text \<open>
  The intrusive doubly linked list of \<open>k-list.hh\<close>.  A \<open>list_links\<close> object is a pair of nullable
  pointers; the objects live in a store that maps an address to its current value, so that two
  lists can alias and every pointer assignment of the C++ code is one update of the store.  A
  list is the address of its \<open>head_\<close>; an element \<open>T*\<close> is the address of its link member, since
  \<open>from_links\<close> and \<open>\<rightarrow>*member\<close> only add and subtract a constant offset.  The refinement lemmas
  say which HOL list a head represents after each operation, and that every other list in the
  store still represents what it did.
\<close>

section \<open>Links\<close>

type_synonym addr = nat

record list_links =
  ll_next :: "addr option"
  ll_prev :: "addr option"

type_synonym store = "addr \<Rightarrow> list_links"

definition set_next :: "store \<Rightarrow> addr \<Rightarrow> addr option \<Rightarrow> store" where
  "set_next s a v = s(a := (s a)\<lparr>ll_next := v\<rparr>)"

definition set_prev :: "store \<Rightarrow> addr \<Rightarrow> addr option \<Rightarrow> store" where
  "set_prev s a v = s(a := (s a)\<lparr>ll_prev := v\<rparr>)"

definition links_reset :: "store \<Rightarrow> addr \<Rightarrow> store" where
  "links_reset s a = set_next (set_prev s a None) a None"

definition is_linked :: "store \<Rightarrow> addr \<Rightarrow> bool" where
  "is_linked s a \<longleftrightarrow> ll_next (s a) \<noteq> None"

definition links_empty :: "store \<Rightarrow> addr \<Rightarrow> bool" where
  "links_empty s a \<longleftrightarrow> \<not> is_linked s a"

definition links_erase :: "store \<Rightarrow> addr \<Rightarrow> store res" where
  "links_erase s a =
     (case (ll_next (s a), ll_prev (s a)) of
        (Some n, Some p) \<Rightarrow>
          (let s1 = set_next s p (Some n);
               s2 = set_prev s1 n (Some p)
           in Inr (links_reset s2 a))
      | _ \<Rightarrow> Inl Assert_Fail)"

definition insert_before :: "store \<Rightarrow> addr \<Rightarrow> addr \<Rightarrow> store res" where
  "insert_before s x position =
     (case (ll_next (s position), ll_prev (s position)) of
        (Some _, Some p) \<Rightarrow>
          assert_then (ll_next (s x) = None \<and> ll_prev (s x) = None)
            (let s1 = set_prev s x (Some p);
                 s2 = set_next s1 x (Some position);
                 s3 = set_next s2 p (Some x);
                 s4 = set_prev s3 position (Some x)
             in Inr s4)
      | _ \<Rightarrow> Inl Assert_Fail)"

section \<open>Lists\<close>

definition list_reset :: "store \<Rightarrow> addr \<Rightarrow> store" where
  "list_reset s h = set_next (set_prev s h (Some h)) h (Some h)"

definition list_empty :: "store \<Rightarrow> addr \<Rightarrow> bool" where
  "list_empty s h \<longleftrightarrow> ll_next (s h) = Some h"

definition list_front :: "store \<Rightarrow> addr \<Rightarrow> addr option" where
  "list_front s h = (if list_empty s h then None else ll_next (s h))"

definition list_back :: "store \<Rightarrow> addr \<Rightarrow> addr option" where
  "list_back s h = (if list_empty s h then None else ll_prev (s h))"

definition list_next :: "store \<Rightarrow> addr \<Rightarrow> addr \<Rightarrow> addr option" where
  "list_next s h x = (if ll_next (s x) = Some h then None else ll_next (s x))"

definition list_prev :: "store \<Rightarrow> addr \<Rightarrow> addr \<Rightarrow> addr option" where
  "list_prev s h x = (if ll_prev (s x) = Some h then None else ll_prev (s x))"

definition list_erase :: "store \<Rightarrow> addr \<Rightarrow> store res" where
  "list_erase s x = links_erase s x"

definition push_front :: "store \<Rightarrow> addr \<Rightarrow> addr \<Rightarrow> store res" where
  "push_front s h x =
     (case ll_next (s h) of
        None \<Rightarrow> Inl Null_Deref
      | Some n \<Rightarrow> insert_before s x n)"

definition pop_front :: "store \<Rightarrow> addr \<Rightarrow> (store \<times> addr option) res" where
  "pop_front s h =
     (case list_front s h of
        None \<Rightarrow> Inr (s, None)
      | Some x \<Rightarrow> rbind (list_erase s x) (\<lambda>s'. Inr (s', Some x)))"

definition push_back :: "store \<Rightarrow> addr \<Rightarrow> addr \<Rightarrow> store res" where
  "push_back s h x = insert_before s x h"

definition pop_back :: "store \<Rightarrow> addr \<Rightarrow> (store \<times> addr option) res" where
  "pop_back s h =
     (case list_back s h of
        None \<Rightarrow> Inr (s, None)
      | Some x \<Rightarrow> rbind (list_erase s x) (\<lambda>s'. Inr (s', Some x)))"

text \<open>
  \<open>insert\<close> keeps the source's conditional as it is written: a non-null \<open>position\<close> selects
  \<open>&head_\<close>, and a null one selects the member of the null pointer.
\<close>

definition list_insert :: "store \<Rightarrow> addr \<Rightarrow> addr option \<Rightarrow> addr \<Rightarrow> store res" where
  "list_insert s h position x =
     (case position of
        Some _ \<Rightarrow> insert_before s x h
      | None \<Rightarrow> Inl Null_Deref)"

definition list_swap :: "store \<Rightarrow> addr \<Rightarrow> addr \<Rightarrow> store res" where
  "list_swap s h other =
     (case (ll_next (s h), ll_prev (s h)) of
        (Some p1, Some p2) \<Rightarrow>
          (let s1 = set_prev (set_next s p2 (Some other)) p1 (Some other)
           in case (ll_next (s1 other), ll_prev (s1 other)) of
                (Some q1, Some q2) \<Rightarrow>
                  (let s2 = set_prev (set_next s1 q2 (Some h)) q1 (Some h);
                       x = s2 h
                   in Inr (s2(h := s2 other, other := x)))
              | _ \<Rightarrow> Inl Null_Deref)
      | _ \<Rightarrow> Inl Null_Deref)"

text \<open>
  The loop \<open>for (p = l.front(); p; p = l.next(p))\<close> that the kernel writes over its lists, with
  the number of turns bounded by the first argument; \<open>None\<close> means the bound was too small.
\<close>

fun list_walk :: "nat \<Rightarrow> store \<Rightarrow> addr \<Rightarrow> addr option \<Rightarrow> addr list option" where
  "list_walk _ s h None = Some []"
| "list_walk 0 s h (Some x) = None"
| "list_walk (Suc n) s h (Some x) =
     map_option (\<lambda>xs. x # xs) (list_walk n s h (list_next s h x))"

section \<open>Which list a head represents\<close>

fun chain :: "store \<Rightarrow> addr \<Rightarrow> addr list \<Rightarrow> addr \<Rightarrow> bool" where
  "chain s a [] b \<longleftrightarrow> ll_next (s a) = Some b \<and> ll_prev (s b) = Some a"
| "chain s a (x # xs) b \<longleftrightarrow> ll_next (s a) = Some x \<and> ll_prev (s x) = Some a \<and> chain s x xs b"

definition is_list :: "store \<Rightarrow> addr \<Rightarrow> addr list \<Rightarrow> bool" where
  "is_list s h xs \<longleftrightarrow> distinct (h # xs) \<and> chain s h xs h"

definition unlinked :: "store \<Rightarrow> addr \<Rightarrow> bool" where
  "unlinked s x \<longleftrightarrow> ll_next (s x) = None \<and> ll_prev (s x) = None"

text \<open>
  \<open>keeps_other_lists A s s'\<close>: every list none of whose objects is in \<open>A\<close> is represented in \<open>s'\<close>
  as it was in \<open>s\<close>, and so is every unlinked object outside \<open>A\<close>.
\<close>

definition keeps_other_lists :: "addr set \<Rightarrow> store \<Rightarrow> store \<Rightarrow> bool" where
  "keeps_other_lists A s s' \<longleftrightarrow>
     (\<forall>h xs. set (h # xs) \<inter> A = {} \<longrightarrow> is_list s h xs \<longrightarrow> is_list s' h xs)
     \<and> (\<forall>x. x \<notin> A \<longrightarrow> unlinked s x \<longrightarrow> unlinked s' x)"

lemma set_next_sel [simp]:
  "ll_next (set_next s a v b) = (if b = a then v else ll_next (s b))"
  "ll_prev (set_next s a v b) = ll_prev (s b)"
  by (simp_all add: set_next_def)

lemma set_prev_sel [simp]:
  "ll_next (set_prev s a v b) = ll_next (s b)"
  "ll_prev (set_prev s a v b) = (if b = a then v else ll_prev (s b))"
  by (simp_all add: set_prev_def)

lemma links_reset_sel [simp]:
  "ll_next (links_reset s a b) = (if b = a then None else ll_next (s b))"
  "ll_prev (links_reset s a b) = (if b = a then None else ll_prev (s b))"
  by (simp_all add: links_reset_def)

lemma chain_cong:
  assumes "\<And>y. y \<in> set (a # xs) \<Longrightarrow> ll_next (s' y) = ll_next (s y)"
    and "\<And>y. y \<in> set (b # xs) \<Longrightarrow> ll_prev (s' y) = ll_prev (s y)"
  shows "chain s' a xs b = chain s a xs b"
  using assms by (induction xs arbitrary: a) auto

lemma chain_append [simp]:
  "chain s a (xs @ y # ys) b \<longleftrightarrow> chain s a xs y \<and> chain s y ys b"
  by (induction xs arbitrary: a) auto

lemma chain_first: "chain s a xs b \<Longrightarrow> ll_next (s a) = Some (case xs of [] \<Rightarrow> b | x # _ \<Rightarrow> x)"
  by (cases xs) auto

lemma chain_last: "chain s a xs b \<Longrightarrow> ll_prev (s b) = Some (if xs = [] then a else last xs)"
  by (induction xs arbitrary: a) auto

lemma chain_linked: "chain s a xs b \<Longrightarrow> y \<in> set (a # xs) \<Longrightarrow> ll_next (s y) \<noteq> None"
  by (induction xs arbitrary: a) auto

lemma is_list_linked: "is_list s h xs \<Longrightarrow> y \<in> set (h # xs) \<Longrightarrow> is_linked s y"
  using chain_linked by (auto simp: is_list_def is_linked_def)

lemma keeps_other_listsI:
  assumes "\<And>y. y \<notin> A \<Longrightarrow> ll_next (s' y) = ll_next (s y) \<and> ll_prev (s' y) = ll_prev (s y)"
  shows "keeps_other_lists A s s'"
proof -
  have "is_list s' h xs" if "set (h # xs) \<inter> A = {}" "is_list s h xs" for h xs
  proof -
    have out: "y \<notin> A" if "y \<in> set (h # xs)" for y
      using that \<open>set (h # xs) \<inter> A = {}\<close> by auto
    have "chain s' h xs h = chain s h xs h"
      by (rule chain_cong) (use assms out in auto)
    with that show ?thesis by (simp add: is_list_def)
  qed
  then show ?thesis
    using assms by (auto simp: keeps_other_lists_def unlinked_def)
qed

section \<open>Insertion and removal in the middle of a list\<close>

lemma is_list_split_neighbours:
  assumes "is_list s h (xs @ y # ys)"
  shows "ll_prev (s y) = Some (if xs = [] then h else last xs)"
    and "ll_next (s y) = Some (case ys of [] \<Rightarrow> h | z # _ \<Rightarrow> z)"
  using assms by (auto simp: is_list_def dest: chain_first chain_last)

lemma chain_snoc_swap:
  assumes "chain s a xs b" "distinct (a # xs)" "b \<notin> set xs"
    and "p = (if xs = [] then a else last xs)"
    and "ll_next (s' p) = Some x" "ll_prev (s' x) = Some p"
    and "\<And>y. y \<in> set (a # xs) \<Longrightarrow> y \<noteq> p \<Longrightarrow> ll_next (s' y) = ll_next (s y)"
    and "\<And>y. y \<in> set xs \<Longrightarrow> ll_prev (s' y) = ll_prev (s y)"
  shows "chain s' a xs x"
  using assms
proof (induction xs arbitrary: a)
  case Nil
  then show ?case by simp
next
  case (Cons z zs)
  have pa: "p \<noteq> a" using Cons.prems(2,4) by (auto split: if_splits)
  have "chain s' z zs x"
    by (rule Cons.IH) (use Cons.prems in \<open>auto split: if_splits\<close>)
  then show ?case using Cons.prems pa by auto
qed

lemma insert_before_refines:
  assumes l: "is_list s h (xs @ ys)" and x: "unlinked s x" "x \<notin> set (h # xs @ ys)"
    and q: "q = (case ys of [] \<Rightarrow> h | z # _ \<Rightarrow> z)"
  shows "\<exists>s'. insert_before s x q = Inr s' \<and> is_list s' h (xs @ x # ys)
    \<and> keeps_other_lists (set (h # x # xs @ ys)) s s'"
proof -
  define p where "p = (if xs = [] then h else last xs)"
  have prevq: "ll_prev (s q) = Some p" and nextq: "ll_next (s q) \<noteq> None"
  proof -
    show "ll_prev (s q) = Some p"
    proof (cases ys)
      case Nil
      then show ?thesis using l q chain_last p_def by (fastforce simp: is_list_def)
    next
      case (Cons z zs)
      then show ?thesis using l q is_list_split_neighbours(1)[of s h xs z zs] p_def by simp
    qed
    show "ll_next (s q) \<noteq> None"
      using is_list_linked[OF l, of q] q by (auto simp: is_linked_def split: list.splits)
  qed
  define s' where "s' = set_prev (set_next (set_next (set_prev s x (Some p)) x (Some q)) p (Some x)) q (Some x)"
  have run: "insert_before s x q = Inr s'"
    using prevq nextq x(1) by (auto simp: insert_before_def s'_def Let_def unlinked_def)
  have pq: "p \<in> set (h # xs)" "q \<in> set (h # ys)" "x \<noteq> p" "x \<noteq> q"
    using x(2) q by (auto simp: p_def split: list.splits)
  have d: "distinct (h # xs @ ys)" using l by (simp add: is_list_def)
  have ch: "chain s h xs q" and ch2: "ys \<noteq> [] \<Longrightarrow> chain s (hd ys) (tl ys) h"
    using l q by (cases ys; simp add: is_list_def)+
  have qxs: "q \<notin> set xs"
    using d q by (auto split: list.splits)
  have c1: "chain s' h xs x"
    by (rule chain_snoc_swap[OF ch _ qxs p_def]) (use d x(2) pq qxs in \<open>auto simp: s'_def\<close>)
  have c2: "chain s' x ys h"
  proof (cases ys)
    case Nil
    then show ?thesis using q pq by (auto simp: s'_def)
  next
    case (Cons z zs)
    have "chain s' z zs h = chain s z zs h"
      by (rule chain_cong) (use d x(2) pq q Cons in \<open>auto simp: s'_def p_def\<close>)
    then show ?thesis using ch2 Cons q pq by (auto simp: s'_def)
  qed
  have "is_list s' h (xs @ x # ys)"
    using c1 c2 d x(2) by (auto simp: is_list_def)
  moreover have "keeps_other_lists (set (h # x # xs @ ys)) s s'"
    by (rule keeps_other_listsI) (use pq in \<open>auto simp: s'_def\<close>)
  ultimately show ?thesis using run by blast
qed

lemma erase_refines:
  assumes l: "is_list s h (xs @ x # ys)"
  shows "\<exists>s'. list_erase s x = Inr s' \<and> is_list s' h (xs @ ys) \<and> unlinked s' x
    \<and> keeps_other_lists (set (h # x # xs @ ys)) s s'"
proof -
  define p where "p = (if xs = [] then h else last xs)"
  define q where "q = (case ys of [] \<Rightarrow> h | z # _ \<Rightarrow> z)"
  have nb: "ll_prev (s x) = Some p" "ll_next (s x) = Some q"
    using is_list_split_neighbours[OF l] by (simp_all add: p_def q_def)
  define s' where "s' = links_reset (set_prev (set_next s p (Some q)) q (Some p)) x"
  have run: "list_erase s x = Inr s'"
    using nb by (simp add: list_erase_def links_erase_def s'_def Let_def)
  have d: "distinct (h # xs @ x # ys)" and ch: "chain s h xs x" and ch2: "chain s x ys h"
    using l by (simp_all add: is_list_def)
  have pq: "p \<in> set (h # xs)" "q \<in> set (h # ys)" "x \<noteq> p" "x \<noteq> q"
    using d by (auto simp: p_def q_def split: list.splits)
  have c1: "chain s' h xs q"
    by (rule chain_snoc_swap[OF ch _ _ p_def]) (use d pq in \<open>auto simp: s'_def q_def split: list.splits\<close>)
  have "chain s' h (xs @ ys) h"
  proof (cases ys)
    case Nil
    then show ?thesis using c1 by (simp add: q_def)
  next
    case (Cons z zs)
    have "chain s' z zs h = chain s z zs h"
      by (rule chain_cong) (use d pq Cons in \<open>auto simp: s'_def p_def q_def\<close>)
    then show ?thesis using ch2 c1 Cons by (simp add: q_def)
  qed
  then have "is_list s' h (xs @ ys)" using d by (auto simp: is_list_def)
  moreover have "unlinked s' x" using pq by (simp add: unlinked_def s'_def)
  moreover have "keeps_other_lists (set (h # x # xs @ ys)) s s'"
    by (rule keeps_other_listsI) (use pq in \<open>auto simp: s'_def\<close>)
  ultimately show ?thesis using run by blast
qed

section \<open>The list operations as operations on HOL lists\<close>

lemma list_empty_iff: "is_list s h xs \<Longrightarrow> list_empty s h \<longleftrightarrow> xs = []"
  by (cases xs) (auto simp: is_list_def list_empty_def)

lemma is_list_ends:
  assumes "is_list s h xs"
  shows "ll_next (s h) = Some (if xs = [] then h else hd xs)"
    and "ll_prev (s h) = Some (if xs = [] then h else last xs)"
  using assms chain_first[of s h xs h] chain_last[of s h xs h]
  by (auto simp: is_list_def split: list.splits)

lemma list_front_eq: "is_list s h xs \<Longrightarrow> list_front s h = (case xs of [] \<Rightarrow> None | x # _ \<Rightarrow> Some x)"
  using list_empty_iff[of s h xs] is_list_ends(1)[of s h xs]
  by (auto simp: list_front_def split: list.splits)

lemma list_back_eq: "is_list s h xs \<Longrightarrow> list_back s h = (if xs = [] then None else Some (last xs))"
  using list_empty_iff[of s h xs] is_list_ends(2)[of s h xs] by (auto simp: list_back_def)

lemma list_next_eq:
  "is_list s h (xs @ x # ys) \<Longrightarrow> list_next s h x = (case ys of [] \<Rightarrow> None | y # _ \<Rightarrow> Some y)"
  using is_list_split_neighbours(2)[of s h xs x ys]
  by (auto simp: list_next_def is_list_def split: list.splits)

lemma list_reset_refines: "is_list (list_reset s h) h []"
  by (simp add: is_list_def list_reset_def)

lemma pop_front_refines:
  assumes "is_list s h (x # xs)"
  shows "\<exists>s'. pop_front s h = Inr (s', Some x) \<and> is_list s' h xs \<and> unlinked s' x
    \<and> keeps_other_lists (set (h # x # xs)) s s'"
proof -
  obtain s' where "list_erase s x = Inr s'" "is_list s' h xs" "unlinked s' x"
    "keeps_other_lists (set (h # x # xs)) s s'"
    using erase_refines[of s h "[]" x xs] assms by auto
  then show ?thesis using list_front_eq[OF assms] by (simp add: pop_front_def)
qed

lemma pop_front_Nil: "is_list s h [] \<Longrightarrow> pop_front s h = Inr (s, None)"
  by (simp add: pop_front_def list_front_eq)

lemma pop_back_refines:
  assumes "is_list s h (xs @ [x])"
  shows "\<exists>s'. pop_back s h = Inr (s', Some x) \<and> is_list s' h xs \<and> unlinked s' x
    \<and> keeps_other_lists (set (h # x # xs)) s s'"
proof -
  obtain s' where "list_erase s x = Inr s'" "is_list s' h xs" "unlinked s' x"
    "keeps_other_lists (set (h # x # xs)) s s'"
    using erase_refines[of s h xs x "[]"] assms by auto
  then show ?thesis using list_back_eq[OF assms] by (simp add: pop_back_def)
qed

lemma push_back_refines:
  assumes "is_list s h xs" "unlinked s x" "x \<notin> set (h # xs)"
  shows "\<exists>s'. push_back s h x = Inr s' \<and> is_list s' h (xs @ [x])
    \<and> keeps_other_lists (set (h # x # xs)) s s'"
  using insert_before_refines[of s h xs "[]" x h] assms by (auto simp: push_back_def)

lemma push_front_refines:
  assumes "is_list s h xs" "unlinked s x" "x \<notin> set (h # xs)"
  shows "\<exists>s'. push_front s h x = Inr s' \<and> is_list s' h (x # xs)
    \<and> keeps_other_lists (set (h # x # xs)) s s'"
proof -
  have "ll_next (s h) = Some (case xs of [] \<Rightarrow> h | z # _ \<Rightarrow> z)"
    using assms(1) chain_first by (auto simp: is_list_def)
  then show ?thesis
    using insert_before_refines[of s h "[]" xs x] assms by (auto simp: push_front_def)
qed

lemma list_walk_refines:
  assumes "is_list s h (xs @ ys)" "length ys \<le> n"
  shows "list_walk n s h (case ys of [] \<Rightarrow> None | y # _ \<Rightarrow> Some y) = Some ys"
  using assms
proof (induction ys arbitrary: xs n)
  case Nil
  then show ?case by simp
next
  case (Cons y ys)
  then obtain m where n: "n = Suc m" by (cases n) auto
  have "list_walk m s h (case ys of [] \<Rightarrow> None | y # _ \<Rightarrow> Some y) = Some ys"
    using Cons.IH[of "xs @ [y]" m] Cons.prems n by simp
  then show ?case using list_next_eq[of s h xs y ys] Cons.prems n by simp
qed

lemma chain_rehead:
  assumes "chain s k xs k" "distinct (k # xs)" "h \<notin> set xs" "h \<noteq> k"
    and head: "s' h = \<lparr>ll_next = (if xs = [] then Some h else ll_next (s k)),
                       ll_prev = (if xs = [] then Some h else ll_prev (s k))\<rparr>"
    and fst: "xs \<noteq> [] \<Longrightarrow> ll_prev (s' (hd xs)) = Some h"
    and lst: "xs \<noteq> [] \<Longrightarrow> ll_next (s' (last xs)) = Some h"
    and inner_next: "\<And>y. y \<in> set xs \<Longrightarrow> y \<noteq> last xs \<Longrightarrow> ll_next (s' y) = ll_next (s y)"
    and inner_prev: "\<And>y. y \<in> set xs \<Longrightarrow> y \<noteq> hd xs \<Longrightarrow> ll_prev (s' y) = ll_prev (s y)"
  shows "chain s' h xs h"
proof (cases xs)
  case Nil
  then show ?thesis using head by simp
next
  case (Cons y zs)
  have c: "chain s y zs k" and n: "ll_next (s k) = Some y"
    using assms(1) Cons by auto
  have pk: "ll_prev (s k) = Some (last xs)" using chain_last[OF assms(1)] Cons by simp
  have "chain s' y zs h"
    by (rule chain_snoc_swap[OF c, where p = "last xs"])
      (use assms(2-4) head lst inner_next inner_prev pk Cons in auto)
  then show ?thesis using head fst n Cons by simp
qed

lemma list_swap_refines:
  assumes h: "is_list s h xs" and k: "is_list s k ys"
    and disj: "set (h # xs) \<inter> set (k # ys) = {}"
  shows "\<exists>s'. list_swap s h k = Inr s' \<and> is_list s' h ys \<and> is_list s' k xs
    \<and> keeps_other_lists (set (h # k # xs @ ys)) s s'"
proof -
  define p1 p2 where "p1 = (if xs = [] then h else hd xs)" and "p2 = (if xs = [] then h else last xs)"
  define q1 q2 where "q1 = (if ys = [] then k else hd ys)" and "q2 = (if ys = [] then k else last ys)"
  have ends: "ll_next (s h) = Some p1" "ll_prev (s h) = Some p2"
    "ll_next (s k) = Some q1" "ll_prev (s k) = Some q2"
    using is_list_ends[OF h] is_list_ends[OF k] by (simp_all add: p1_def p2_def q1_def q2_def)
  have loc: "p1 \<in> set (h # xs)" "p2 \<in> set (h # xs)" "q1 \<in> set (k # ys)" "q2 \<in> set (k # ys)"
    by (auto simp: p1_def p2_def q1_def q2_def)
  define s2 where "s2 = set_prev (set_next (set_prev (set_next s p2 (Some k)) p1 (Some k)) q2 (Some h)) q1 (Some h)"
  define s' where "s' = s2(h := s2 k, k := s2 h)"
  have run: "list_swap s h k = Inr s'"
    using ends loc disj by (auto simp: list_swap_def Let_def s2_def s'_def)
  have dx: "distinct (h # xs)" and dy: "distinct (k # ys)" and cx: "chain s h xs h" and cy: "chain s k ys k"
    using h k by (simp_all add: is_list_def)
  have upd: "s' y = s2 y" if "y \<noteq> h" "y \<noteq> k" for y using that by (simp add: s'_def)
  have hk: "s' h = s2 k" "s' k = s2 h" using disj by (auto simp: s'_def)
  have out: "\<And>y. y \<in> set ys \<Longrightarrow> y \<noteq> h \<and> y \<noteq> k \<and> y \<noteq> p1 \<and> y \<noteq> p2"
    "\<And>y. y \<in> set xs \<Longrightarrow> y \<noteq> h \<and> y \<noteq> k \<and> y \<noteq> q1 \<and> y \<noteq> q2"
    using disj loc dx dy by auto
  have "chain s' h ys h"
  proof (rule chain_rehead[OF cy dy])
    show "s' h = \<lparr>ll_next = (if ys = [] then Some h else ll_next (s k)),
                  ll_prev = (if ys = [] then Some h else ll_prev (s k))\<rparr>"
      using disj loc dy by (auto simp: hk s2_def q1_def q2_def intro!: list_links.equality)
  qed (use disj dy out in \<open>auto simp: upd s2_def q1_def q2_def\<close>)
  moreover have "chain s' k xs k"
  proof (rule chain_rehead[OF cx dx])
    show "s' k = \<lparr>ll_next = (if xs = [] then Some k else ll_next (s h)),
                  ll_prev = (if xs = [] then Some k else ll_prev (s h))\<rparr>"
      using disj loc dx by (auto simp: hk s2_def p1_def p2_def intro!: list_links.equality)
  qed (use disj dx out in \<open>auto simp: upd s2_def p1_def p2_def\<close>)
  moreover have "keeps_other_lists (set (h # k # xs @ ys)) s s'"
    by (rule keeps_other_listsI) (use loc upd in \<open>auto simp: s2_def\<close>)
  ultimately show ?thesis using run dx dy disj by (auto simp: is_list_def)
qed

section \<open>The interface the rest of the kernel relies on\<close>

text \<open>
  What the wait queues, the run queues, the children lists and the dirty list of the buffer
  cache use of a list: appending an unlinked object, and taking the first object off.  \<open>rep\<close>
  reads a list out of a store; the frame laws let a client work with two lists at once.
\<close>

fun drain :: "('s \<Rightarrow> 'h \<Rightarrow> ('s \<times> 'x option) res) \<Rightarrow> nat \<Rightarrow> 's \<Rightarrow> 'h \<Rightarrow> ('s \<times> 'x list) res option" where
  "drain popf 0 s h = None"
| "drain popf (Suc n) s h =
     (case popf s h of
        Inl e \<Rightarrow> Some (Inl e)
      | Inr (s', None) \<Rightarrow> Some (Inr (s', []))
      | Inr (s', Some x) \<Rightarrow>
          (case drain popf n s' h of
             Some (Inr (t, xs)) \<Rightarrow> Some (Inr (t, x # xs))
           | r \<Rightarrow> r))"

fun move_all ::
  "('s \<Rightarrow> 'h \<Rightarrow> ('s \<times> 'x option) res) \<Rightarrow> ('s \<Rightarrow> 'h \<Rightarrow> 'x \<Rightarrow> 's res)
   \<Rightarrow> nat \<Rightarrow> 's \<Rightarrow> 'h \<Rightarrow> 'h \<Rightarrow> 's res option" where
  "move_all popf pushb 0 s h k = None"
| "move_all popf pushb (Suc n) s h k =
     (case popf s h of
        Inl e \<Rightarrow> Some (Inl e)
      | Inr (s', None) \<Rightarrow> Some (Inr s')
      | Inr (s', Some x) \<Rightarrow>
          (case pushb s' k x of
             Inl e \<Rightarrow> Some (Inl e)
           | Inr s'' \<Rightarrow> move_all popf pushb n s'' h k))"

locale intrusive_list =
  fixes rep :: "'s \<Rightarrow> 'a \<Rightarrow> 'a list \<Rightarrow> bool"
    and loose :: "'s \<Rightarrow> 'a \<Rightarrow> bool"
    and pushb :: "'s \<Rightarrow> 'a \<Rightarrow> 'a \<Rightarrow> 's res"
    and popf :: "'s \<Rightarrow> 'a \<Rightarrow> ('s \<times> 'a option) res"
  assumes rep_distinct: "rep s h xs \<Longrightarrow> distinct (h # xs)"
    and popf_Nil: "rep s h [] \<Longrightarrow> popf s h = Inr (s, None)"
    and popf_Cons: "rep s h (x # xs) \<Longrightarrow>
      \<exists>s'. popf s h = Inr (s', Some x) \<and> rep s' h xs \<and> loose s' x
        \<and> (\<forall>k ys. rep s k ys \<and> set (k # ys) \<inter> set (h # x # xs) = {} \<longrightarrow> rep s' k ys)"
    and pushb_snoc: "rep s h xs \<Longrightarrow> loose s x \<Longrightarrow> x \<notin> set (h # xs) \<Longrightarrow>
      \<exists>s'. pushb s h x = Inr s' \<and> rep s' h (xs @ [x])
        \<and> (\<forall>k ys. rep s k ys \<and> set (k # ys) \<inter> set (h # x # xs) = {} \<longrightarrow> rep s' k ys)"
begin

lemma drain_rep:
  assumes "rep s h xs" "length xs < n"
  shows "\<exists>s'. drain popf n s h = Some (Inr (s', xs)) \<and> rep s' h []"
  using assms
proof (induction xs arbitrary: s n)
  case Nil
  then show ?case using popf_Nil[of s h] by (cases n) auto
next
  case (Cons x xs)
  then obtain m where n: "n = Suc m" "length xs < m" by (cases n) auto
  obtain s' where p: "popf s h = Inr (s', Some x)" "rep s' h xs"
    using popf_Cons[OF Cons.prems(1)] by blast
  then obtain t where "drain popf m s' h = Some (Inr (t, xs))" "rep t h []"
    using Cons.IH n(2) by blast
  then show ?case using p n by auto
qed

lemma move_all_rep:
  assumes "rep s h xs" "rep s k ys" "set (h # xs) \<inter> set (k # ys) = {}" "length xs < n"
  shows "\<exists>s'. move_all popf pushb n s h k = Some (Inr s') \<and> rep s' h [] \<and> rep s' k (ys @ xs)"
  using assms
proof (induction xs arbitrary: s n ys)
  case Nil
  then show ?case using popf_Nil[of s h] by (cases n) auto
next
  case (Cons x xs)
  then obtain m where n: "n = Suc m" "length xs < m" by (cases n) auto
  obtain s1 where s1: "popf s h = Inr (s1, Some x)" "rep s1 h xs" "loose s1 x"
    and fr1: "\<And>k ys. rep s k ys \<Longrightarrow> set (k # ys) \<inter> set (h # x # xs) = {} \<Longrightarrow> rep s1 k ys"
    using popf_Cons[OF Cons.prems(1)] by blast
  have k1: "rep s1 k ys" by (rule fr1) (use Cons.prems in auto)
  have "x \<notin> set (k # ys)" using Cons.prems(3) by auto
  then obtain s2 where s2: "pushb s1 k x = Inr s2" "rep s2 k (ys @ [x])"
    and fr2: "\<And>h zs. rep s1 h zs \<Longrightarrow> set (h # zs) \<inter> set (k # x # ys) = {} \<Longrightarrow> rep s2 h zs"
    using pushb_snoc[OF k1 s1(3)] by blast
  have "rep s2 h xs"
    by (rule fr2) (use s1 Cons.prems(3) rep_distinct[OF Cons.prems(1)] in auto)
  then obtain t where "move_all popf pushb m s2 h k = Some (Inr t)" "rep t h []" "rep t k ((ys @ [x]) @ xs)"
    using Cons.IH[of s2 "ys @ [x]" m] s2(2) n(2) Cons.prems(3) rep_distinct[OF Cons.prems(1)] by auto
  then show ?case using s1 s2 n by auto
qed

end

interpretation klist: intrusive_list is_list unlinked push_back pop_front
proof (unfold_locales, goal_cases)
  case (1 s h xs)
  then show ?case by (simp add: is_list_def)
next
  case (2 s h)
  then show ?case by (rule pop_front_Nil)
next
  case (3 s h x xs)
  then show ?case using pop_front_refines[of s h x xs] by (auto simp: keeps_other_lists_def)
next
  case (4 s h xs x)
  then show ?case using push_back_refines[of s h xs x] by (auto simp: keeps_other_lists_def)
qed

section \<open>Properties\<close>

definition nulls :: store where
  "nulls = (\<lambda>_. \<lparr>ll_next = None, ll_prev = None\<rparr>)"

text \<open>A store in which the head at address 0 holds the objects 1, 2 and 3, and the head at
  address 9 is empty: the witnesses start here.\<close>

definition store123 :: store where
  "store123 = list_reset (nulls(0 := \<lparr>ll_next = Some 1, ll_prev = Some 3\<rparr>,
     1 := \<lparr>ll_next = Some 2, ll_prev = Some 0\<rparr>, 2 := \<lparr>ll_next = Some 3, ll_prev = Some 1\<rparr>,
     3 := \<lparr>ll_next = Some 0, ll_prev = Some 2\<rparr>)) 9"

lemma store123_lists: "is_list store123 0 [1, 2, 3]" "is_list store123 9 []" "unlinked store123 7"
  by (simp_all add: is_list_def store123_def list_reset_def nulls_def unlinked_def)

text \<open>pushing an unlinked object onto either end of a list appends it at that end: no
  assertion fails, the head then represents the extended list, and every list that shares no
  object with it is untouched.\<close>

theorem klist_push_refines:
  assumes "is_list s h xs" "unlinked s x" "x \<notin> set (h # xs)"
  shows "(\<exists>s'. push_back s h x = Inr s' \<and> is_list s' h (xs @ [x])
           \<and> keeps_other_lists (set (h # x # xs)) s s')
       \<and> (\<exists>s'. push_front s h x = Inr s' \<and> is_list s' h (x # xs)
           \<and> keeps_other_lists (set (h # x # xs)) s s')"
  using push_back_refines[OF assms] push_front_refines[OF assms] by blast

theorem klist_push_refines_witness:
  "\<exists>s'. push_back store123 0 7 = Inr s' \<and> is_list s' 0 [1, 2, 3, 7]"
  using klist_push_refines[of store123 0 "[1, 2, 3]" 7] store123_lists by auto



text \<open>\<open>swap\<close> exchanges the contents of two disjoint lists, also when one or both of them are
  empty, which is how \<open>bufcache::sync\<close> takes the dirty list over.\<close>

theorem klist_swap_refines:
  assumes "is_list s h xs" "is_list s k ys" "set (h # xs) \<inter> set (k # ys) = {}"
  shows "\<exists>s'. list_swap s h k = Inr s' \<and> is_list s' h ys \<and> is_list s' k xs
    \<and> keeps_other_lists (set (h # k # xs @ ys)) s s'"
  by (rule list_swap_refines[OF assms])

theorem klist_swap_refines_witness:
  "\<exists>s'. list_swap store123 0 9 = Inr s' \<and> is_list s' 0 [] \<and> is_list s' 9 [1, 2, 3]"
  using klist_swap_refines[of store123 0 "[1, 2, 3]" 9 "[]"] store123_lists by auto

text \<open>\<open>insert(position, x)\<close> does not insert before \<open>position\<close>: for every non-null position
  the object lands at the tail, whatever the position is, and for a null position (documented as
  the way to insert at the tail) the code follows a null pointer.\<close>

theorem klist_insert_ignores_position:
  assumes "is_list s h xs" "unlinked s x" "x \<notin> set (h # xs)" "p \<in> set xs"
  shows "(\<exists>s'. list_insert s h (Some p) x = Inr s' \<and> is_list s' h (xs @ [x]))
       \<and> list_insert s h None x = Inl Null_Deref"
  using push_back_refines[OF assms(1-3)] by (auto simp: list_insert_def push_back_def)

theorem klist_insert_ignores_position_witness:
  "\<exists>s'. list_insert store123 0 (Some 1) 7 = Inr s' \<and> is_list s' 0 [1, 2, 3, 7]"
  using klist_insert_ignores_position[of store123 0 "[1, 2, 3]" 7 1] store123_lists by auto

end
