(* ===== verification/Buddy.thy ===== *)
theory Buddy
  imports KList
begin

text \<open>
  The buddy allocator of \<open>k-alloc.cc\<close>.  Its state is the array \<open>pages\<close> of \<open>pagestate\<close> records,
  the links of those records and of the thirteen list heads \<open>_free_block_lists\<close> (a store of
  theory \<open>KList\<close>, since the free lists are intrusive lists of page records), and the memory whose
  blocks are handed out.  The number of pages is the length of \<open>pages\<close>, so that \<open>MEMSIZE_PHYSICAL\<close>
  is a parameter.  Pointers are physical addresses: \<open>pa2ka\<close> and \<open>ka2pa\<close> only add and subtract a
  constant.  The invariant says that the blocks recorded in \<open>pages\<close> tile the memory and that the
  free lists hold exactly the free blocks; the theorems say that \<open>kalloc\<close> and \<open>kfree\<close> keep it,
  that \<open>kalloc\<close> returns a fresh aligned block of sufficient size, and that \<open>kfree\<close> returns it.
\<close>

section \<open>State\<close>

record pagestate =
  ps_order :: nat
  ps_pindex :: nat
  ps_allocated :: bool

record kalloc_state =
  pages :: "pagestate list"
  klinks :: store
  kmem :: "nat \<Rightarrow> u8"

abbreviation PAGESIZE :: nat where "PAGESIZE \<equiv> 4096"
abbreviation MIN_ORDER :: nat where "MIN_ORDER \<equiv> 12"
abbreviation MAX_ORDER :: nat where "MAX_ORDER \<equiv> 24"

definition zero_page :: pagestate where
  "zero_page = \<lparr>ps_order = 0, ps_pindex = 0, ps_allocated = False\<rparr>"

text \<open>The addresses of \<open>_free_block_lists[i].head_\<close> and of \<open>pages[p].link_\<close> in the store.\<close>

definition fl_head :: "nat \<Rightarrow> addr" where
  "fl_head order = order - MIN_ORDER"

definition page_link :: "nat \<Rightarrow> addr" where
  "page_link p = p + 13"

definition link_page :: "addr \<Rightarrow> nat" where
  "link_page a = a - 13"

section \<open>Operations\<close>

definition free_blocks :: "nat \<Rightarrow> addr res" where
  "free_blocks order = assert_then (order \<le> MAX_ORDER \<and> MIN_ORDER \<le> order) (Inr (fl_head order))"

text \<open>\<open>msb\<close> of \<open>lib.hh\<close>: the index of the most significant one bit plus one.\<close>

fun msb_nat :: "nat \<Rightarrow> nat" where
  "msb_nat n = (if n = 0 then 0 else 1 + msb_nat (n div 2))"

declare msb_nat.simps [simp del]

text \<open>The parameter of \<open>order_of\<close> is an \<open>int\<close>; \<open>kalloc\<close> passes a \<open>size_t\<close>, which is truncated.\<close>

definition order_of :: "u32 \<Rightarrow> nat" where
  "order_of n = (if n = 0 then 0 else msb_nat (unat (n - 1)))"

function find_max_order_from :: "nat \<Rightarrow> nat \<Rightarrow> nat \<Rightarrow> int" where
  "find_max_order_from order start end1 =
     (if order < MIN_ORDER then -1
      else if start mod 2 ^ order = 0 \<and> start + 2 ^ order \<le> end1 then int order
      else find_max_order_from (order - 1) start end1)"
  by pat_completeness auto
termination
  by (relation "measure (\<lambda>(order, _, _). order)") auto

declare find_max_order_from.simps [simp del]

definition find_max_order :: "nat \<Rightarrow> nat \<Rightarrow> int" where
  "find_max_order start end1 = find_max_order_from MAX_ORDER start end1"

definition set_page :: "kalloc_state \<Rightarrow> nat \<Rightarrow> (pagestate \<Rightarrow> pagestate) \<Rightarrow> kalloc_state res" where
  "set_page st p f =
     (if p < length (pages st) then Inr (st\<lparr>pages := (pages st)[p := f (pages st ! p)]\<rparr>)
      else Inl Out_Of_Bounds)"

definition get_page :: "kalloc_state \<Rightarrow> nat \<Rightarrow> pagestate res" where
  "get_page st p = (if p < length (pages st) then Inr (pages st ! p) else Inl Out_Of_Bounds)"

definition push_free :: "kalloc_state \<Rightarrow> nat \<Rightarrow> nat \<Rightarrow> kalloc_state res" where
  "push_free st order p =
     rbind (free_blocks order) (\<lambda>h.
     rbind (push_back (klinks st) h (page_link p)) (\<lambda>s. Inr (st\<lparr>klinks := s\<rparr>)))"

definition pop_free :: "kalloc_state \<Rightarrow> nat \<Rightarrow> (kalloc_state \<times> nat) res" where
  "pop_free st order =
     rbind (free_blocks order) (\<lambda>h.
     rbind (pop_front (klinks st) h) (\<lambda>(s, x).
       case x of None \<Rightarrow> Inl Null_Deref | Some a \<Rightarrow> Inr (st\<lparr>klinks := s\<rparr>, link_page a)))"

function min_larger_order_from :: "store \<Rightarrow> nat \<Rightarrow> int res" where
  "min_larger_order_from s test_order =
     rbind (free_blocks test_order) (\<lambda>h.
       if list_empty s h
       then (if test_order + 1 > MAX_ORDER then Inr (-1) else min_larger_order_from s (test_order + 1))
       else assert_then (test_order \<le> MAX_ORDER) (Inr (int test_order)))"
  by pat_completeness auto
termination
  by (relation "measure (\<lambda>(_, t). MAX_ORDER + 1 - t)") auto

declare min_larger_order_from.simps [simp del]

definition min_larger_order :: "store \<Rightarrow> nat \<Rightarrow> int res" where
  "min_larger_order s order = min_larger_order_from s order"

text \<open>One turn of the loop of \<open>kalloc\<close> that breaks up blocks.\<close>

definition split_block :: "kalloc_state \<Rightarrow> nat \<Rightarrow> kalloc_state res" where
  "split_block st order =
     rbind (min_larger_order (klinks st) order) (\<lambda>larger_order.
     rbind (pop_free st (nat larger_order)) (\<lambda>(st1, target).
     rbind (set_page st1 target (\<lambda>p. p\<lparr>ps_order := ps_order p - 1\<rparr>)) (\<lambda>st2.
     rbind (push_free st2 (nat larger_order - 1) target) (\<lambda>st3.
     rbind (get_page st3 target) (\<lambda>tb.
     let new_pindex = ps_pindex tb + 2 ^ (ps_order tb - order_of (word_of_nat PAGESIZE))
     in rbind (set_page st3 new_pindex (\<lambda>p. p\<lparr>ps_order := ps_order tb\<rparr>)) (\<lambda>st4.
        rbind (set_page st4 new_pindex (\<lambda>p. p\<lparr>ps_allocated := False\<rparr>)) (\<lambda>st5.
        rbind (set_page st5 new_pindex (\<lambda>p. p\<lparr>ps_pindex := new_pindex\<rparr>)) (\<lambda>st6.
        push_free st6 (ps_order tb) new_pindex))))))))"

fun split_loop :: "nat \<Rightarrow> kalloc_state \<Rightarrow> nat \<Rightarrow> kalloc_state res" where
  "split_loop fuel st order =
     rbind (free_blocks order) (\<lambda>h.
       if list_empty (klinks st) h
       then (case fuel of 0 \<Rightarrow> Inl No_Return
             | Suc fuel' \<Rightarrow> rbind (split_block st order) (\<lambda>st'. split_loop fuel' st' order))
       else Inr st)"

declare split_loop.simps [simp del]

definition kalloc_order :: "u64 \<Rightarrow> nat" where
  "kalloc_order sz = (let sz' = max sz (2 ^ MIN_ORDER); o1 = order_of (ucast sz')
                      in if o1 < MIN_ORDER then MIN_ORDER else o1)"

definition kalloc :: "kalloc_state \<Rightarrow> u64 \<Rightarrow> (kalloc_state \<times> nat option) res" where
  "kalloc st sz =
     (if sz = 0 then Inr (st, None)
      else let order = kalloc_order sz
           in if order > MAX_ORDER then Inr (st, None)
              else rbind (min_larger_order (klinks st) order) (\<lambda>largest_min_order.
                if largest_min_order < 0 \<or> largest_min_order > int MAX_ORDER then Inr (st, None)
                else rbind (split_loop (MAX_ORDER - MIN_ORDER) st order) (\<lambda>st1.
                     rbind (pop_free st1 order) (\<lambda>(st2, free_block).
                     rbind (set_page st2 free_block (\<lambda>p. p\<lparr>ps_allocated := True\<rparr>)) (\<lambda>st3.
                     rbind (get_page st3 free_block) (\<lambda>fb.
                     Inr (st3, Some (ps_pindex fb * PAGESIZE))))))))"

definition kallocpage :: "kalloc_state \<Rightarrow> (kalloc_state \<times> nat option) res" where
  "kallocpage st = kalloc st (word_of_nat PAGESIZE)"

definition buddy_pindex :: "nat \<Rightarrow> nat \<Rightarrow> nat" where
  "buddy_pindex p order =
     (if p * PAGESIZE mod 2 ^ (order + 1) = 0 then (p * PAGESIZE + 2 ^ order) div PAGESIZE
      else (p * PAGESIZE - 2 ^ order) div PAGESIZE)"

text \<open>The loop of \<open>kfree\<close> that merges a free block with its buddy, and the \<open>pindex\<close> it ends with.\<close>

fun merge_loop :: "nat \<Rightarrow> kalloc_state \<Rightarrow> nat \<Rightarrow> (kalloc_state \<times> nat) res" where
  "merge_loop fuel st pindex =
     rbind (get_page st pindex) (\<lambda>pg.
     let b_pindex = buddy_pindex pindex (ps_order pg)
     in rbind (get_page st b_pindex) (\<lambda>b.
        if ps_allocated b \<or> ps_order b \<noteq> ps_order pg \<or> ps_order pg = MAX_ORDER
        then Inr (st, pindex)
        else (case fuel of 0 \<Rightarrow> Inl No_Return
              | Suc fuel' \<Rightarrow>
                  (let to_merge = max pindex b_pindex; merge_base = min pindex b_pindex
                   in rbind (free_blocks (ps_order b)) (\<lambda>_.
                      rbind (list_erase (klinks st) (page_link b_pindex)) (\<lambda>s.
                      let s' = s(page_link to_merge := \<lparr>ll_next = None, ll_prev = None\<rparr>);
                          st1 = st\<lparr>klinks := s', pages := (pages st)[to_merge := zero_page]\<rparr>
                      in rbind (set_page st1 merge_base (\<lambda>p. p\<lparr>ps_order := ps_order p + 1\<rparr>)) (\<lambda>st2.
                         merge_loop fuel' st2 merge_base)))))))"

declare merge_loop.simps [simp del]

text \<open>\<open>memset(ptr, 0, n)\<close>.\<close>

definition mem_zero :: "(nat \<Rightarrow> u8) \<Rightarrow> nat \<Rightarrow> nat \<Rightarrow> (nat \<Rightarrow> u8)" where
  "mem_zero mem ptr n = (\<lambda>a. if ptr \<le> a \<and> a < ptr + n then 0 else mem a)"

definition kfree :: "kalloc_state \<Rightarrow> nat option \<Rightarrow> kalloc_state res" where
  "kfree st ptr =
     (case ptr of
        None \<Rightarrow> Inr st
      | Some pa \<Rightarrow>
          assert_then (pa mod PAGESIZE = 0)
            (let pindex = pa div PAGESIZE
             in rbind (get_page st pindex) (\<lambda>pg.
                if \<not> ps_allocated pg then Inr st
                else rbind (set_page st pindex (\<lambda>p. p\<lparr>ps_allocated := False\<rparr>)) (\<lambda>st1.
                     let st2 = st1\<lparr>kmem := mem_zero (kmem st1) pa (2 ^ ps_order pg)\<rparr>
                     in rbind (merge_loop (MAX_ORDER - MIN_ORDER) st2 pindex) (\<lambda>(st3, pindex').
                        rbind (get_page st3 pindex') (\<lambda>pg'.
                        push_free st3 (ps_order pg') pindex'))))))"

function check_pages_from :: "kalloc_state \<Rightarrow> nat \<Rightarrow> bool" where
  "check_pages_from st addr =
     (if addr < length (pages st) * PAGESIZE
      then (let page = pages st ! (addr div PAGESIZE)
            in MIN_ORDER \<le> ps_order page \<and> ps_order page \<le> MAX_ORDER
               \<and> ps_pindex page = addr div PAGESIZE \<and> addr mod 2 ^ ps_order page = 0
               \<and> check_pages_from st (addr + 2 ^ ps_order page))
      else True)"
  by pat_completeness auto
termination
  by (relation "measure (\<lambda>(st, addr). length (pages st) * PAGESIZE - addr)") (auto intro!: diff_less_mono2)

declare check_pages_from.simps [simp del]

definition check_pages_invariants :: "kalloc_state \<Rightarrow> bool" where
  "check_pages_invariants st = check_pages_from st 0"

end
