(* ===== verification/Buddy_Inv.thy ===== *)
theory Buddy_Inv
  imports Buddy
begin

text \<open>
  The invariant of the allocator and the steps that keep it: what the page array looks like, which
  pages the free lists hold, and the effect of splitting a block and of merging two buddies.
\<close>

section \<open>Blocks\<close>

definition bsz :: "nat \<Rightarrow> nat" where
  "bsz order = 2 ^ (order - MIN_ORDER)"

abbreviation orders :: "nat set" where "orders \<equiv> {MIN_ORDER..MAX_ORDER}"

text \<open>
  Every page record is either a block head (order between the limits, its own index, aligned to
  its size, inside the array, and the records it spans are zero), or is spanned by a head.
\<close>

definition head_ok :: "pagestate list \<Rightarrow> nat \<Rightarrow> bool" where
  "head_ok ps p \<longleftrightarrow> ps_order (ps ! p) \<in> orders \<and> ps_pindex (ps ! p) = p
     \<and> bsz (ps_order (ps ! p)) dvd p \<and> p + bsz (ps_order (ps ! p)) \<le> length ps
     \<and> (\<forall>q. p < q \<and> q < p + bsz (ps_order (ps ! p)) \<longrightarrow> ps_order (ps ! q) = 0)"

definition inner_ok :: "pagestate list \<Rightarrow> nat \<Rightarrow> bool" where
  "inner_ok ps p \<longleftrightarrow> \<not> ps_allocated (ps ! p)
     \<and> (\<exists>h < p. ps_order (ps ! h) \<noteq> 0 \<and> p < h + bsz (ps_order (ps ! h)))"

definition blocks_ok :: "pagestate list \<Rightarrow> bool" where
  "blocks_ok ps \<longleftrightarrow> (\<forall>p < length ps. if ps_order (ps ! p) = 0 then inner_ok ps p else head_ok ps p)"

lemma blocks_okD:
  assumes "blocks_ok ps" "p < length ps"
  shows "ps_order (ps ! p) \<noteq> 0 \<Longrightarrow> head_ok ps p" and "ps_order (ps ! p) = 0 \<Longrightarrow> inner_ok ps p"
  using assms by (auto simp: blocks_ok_def)

lemma bsz_pos [simp]: "0 < bsz m" "bsz m \<noteq> 0" by (simp_all add: bsz_def)

lemma bsz_pred: "MIN_ORDER < m \<Longrightarrow> bsz m = 2 * bsz (m - 1)"
  by (simp add: bsz_def power_eq_if[of 2 "m - 12"] diff_commute)

lemma bsz_Suc: "MIN_ORDER \<le> m \<Longrightarrow> bsz (m + 1) = 2 * bsz m"
  using bsz_pred[of "m + 1"] by simp

lemma bsz_page: "MIN_ORDER \<le> m \<Longrightarrow> bsz m * PAGESIZE = 2 ^ m"
proof -
  assume "MIN_ORDER \<le> m"
  then have "(2::nat) ^ m = 2 ^ (m - 12) * 2 ^ 12" by (metis le_add_diff_inverse2 power_add)
  then show ?thesis by (simp add: bsz_def)
qed

lemma head_inner:
  "head_ok ps p \<Longrightarrow> p < q \<Longrightarrow> q < p + bsz (ps_order (ps ! p)) \<Longrightarrow> ps_order (ps ! q) = 0"
  by (simp add: head_ok_def)

lemma head_okD:
  assumes "head_ok ps p"
  shows "ps_order (ps ! p) \<in> orders" "ps_pindex (ps ! p) = p" "bsz (ps_order (ps ! p)) dvd p"
    "p + bsz (ps_order (ps ! p)) \<le> length ps"
  using assms by (simp_all add: head_ok_def)

lemma head_ok_cong:
  assumes r: "head_ok ps r" and len: "length ps' = length ps"
    and at: "ps_order (ps' ! r) = ps_order (ps ! r)" "ps_pindex (ps' ! r) = ps_pindex (ps ! r)"
    and inn: "\<And>s. r < s \<Longrightarrow> s < r + bsz (ps_order (ps ! r)) \<Longrightarrow> ps_order (ps' ! s) = ps_order (ps ! s)"
  shows "head_ok ps' r"
  unfolding head_ok_def len at
  using head_okD[OF r] head_inner[OF r] inn by (intro conjI allI impI) simp_all

lemma inner_okI:
  "\<not> ps_allocated (ps ! p) \<Longrightarrow> h < p \<Longrightarrow> ps_order (ps ! h) \<noteq> 0 \<Longrightarrow> p < h + bsz (ps_order (ps ! h))
    \<Longrightarrow> inner_ok ps p"
  unfolding inner_ok_def by blast

lemma inner_okE:
  assumes "inner_ok ps p"
  obtains h where "h < p" "ps_order (ps ! h) \<noteq> 0" "p < h + bsz (ps_order (ps ! h))" "\<not> ps_allocated (ps ! p)"
  using assms unfolding inner_ok_def by blast

text \<open>Two heads never span the same page.\<close>

lemma heads_disjoint:
  assumes ok: "blocks_ok ps" and h: "h < length ps" "ps_order (ps ! h) \<noteq> 0"
    and k: "k < length ps" "ps_order (ps ! k) \<noteq> 0"
    and q: "h \<le> q" "q < h + bsz (ps_order (ps ! h))" "k \<le> q" "q < k + bsz (ps_order (ps ! k))"
  shows "h = k"
proof (rule ccontr)
  assume "h \<noteq> k"
  then consider "h < k" | "k < h" by linarith
  then show False
    using head_inner[OF blocks_okD(1)[OF ok h], of k] head_inner[OF blocks_okD(1)[OF ok k], of h] h(2) k(2) q
    by cases linarith+
qed

lemma blocks_ok_alloc:
  assumes "blocks_ok ps" "p < length ps" "ps_order (ps ! p) \<noteq> 0"
  shows "blocks_ok (ps[p := (ps ! p)\<lparr>ps_allocated := b\<rparr>])"
proof -
  let ?ps = "ps[p := (ps ! p)\<lparr>ps_allocated := b\<rparr>]"
  have o: "ps_order (?ps ! q) = ps_order (ps ! q)" "ps_pindex (?ps ! q) = ps_pindex (ps ! q)" for q
    using assms(2) by (cases "q = p", simp_all)+
  have a: "ps_allocated (?ps ! q) = ps_allocated (ps ! q)" if "ps_order (ps ! q) = 0" for q
    using that assms(3) by (cases "q = p"; simp)
  have "if ps_order (?ps ! r) = 0 then inner_ok ?ps r else head_ok ?ps r" if r: "r < length ps" for r
  proof (cases "ps_order (ps ! r) = 0")
    case True
    obtain h where h: "h < r" "ps_order (ps ! h) \<noteq> 0" "r < h + bsz (ps_order (ps ! h))" "\<not> ps_allocated (ps ! r)"
      using blocks_okD(2)[OF assms(1) r True] by (rule inner_okE)
    have "inner_ok ?ps r" by (rule inner_okI[of _ _ h]) (simp_all only: o a[OF True] h not_False_eq_True)
    then show ?thesis using True by (simp add: o)
  next
    case False
    have "head_ok ?ps r" by (rule head_ok_cong[OF blocks_okD(1)[OF assms(1) r False]]) (simp_all add: o)
    then show ?thesis using False by (simp add: o)
  qed
  then show ?thesis by (simp add: blocks_ok_def)
qed

lemma split_blocks_ok:
  assumes ok: "blocks_ok ps" and p: "p < length ps" "ps_order (ps ! p) = m" "MIN_ORDER < m"
    and q: "q = p + bsz (m - 1)"
  defines "ps' \<equiv> ps[p := (ps ! p)\<lparr>ps_order := m - 1\<rparr>, q := \<lparr>ps_order = m - 1, ps_pindex = q, ps_allocated = False\<rparr>]"
  shows "blocks_ok ps'" and "q < length ps" and "ps_order (ps ! q) = 0"
proof -
  note b = bsz_pred[OF p(3)] bsz_pos(1)[of "m - 1"]
  have hp: "head_ok ps p" using blocks_okD(1)[OF ok p(1)] p by simp
  then have q0: "ps_order (ps ! q) = 0" "q < length ps" "m \<le> MAX_ORDER" "bsz m dvd p"
      "p + bsz m \<le> length ps" "ps_pindex (ps ! p) = p"
    and inp: "\<And>r. p < r \<Longrightarrow> r < p + bsz m \<Longrightarrow> ps_order (ps ! r) = 0"
    using p q b by (auto simp: head_ok_def)
  show "q < length ps" "ps_order (ps ! q) = 0" by fact+
  have pq: "p < q" using q b by simp
  have at: "ps' ! r = (if r = q then \<lparr>ps_order = m - 1, ps_pindex = q, ps_allocated = False\<rparr>
      else if r = p then (ps ! p)\<lparr>ps_order := m - 1\<rparr> else ps ! r)" for r
    using q0 p by (cases "r < length ps") (auto simp: ps'_def nth_list_update)
  have len: "length ps' = length ps" by (simp add: ps'_def)
  have m1: "m - 1 \<in> orders" "m - 1 \<noteq> 0" using p(3) q0(3) by auto
  have ends: "p + bsz (m - 1) \<le> length ps" "q + bsz (m - 1) \<le> length ps" using q0(5) b(1) q by simp_all
  have dv: "bsz (m - 1) dvd p" "bsz (m - 1) dvd q" using q0(4) b q by (auto intro: dvd_trans)
  have "if ps_order (ps' ! r) = 0 then inner_ok ps' r else head_ok ps' r" if r: "r < length ps" for r
  proof -
    consider "r = p" | "r = q" | "r \<noteq> p" "r \<noteq> q" "ps_order (ps ! r) = 0" | "r \<noteq> p" "r \<noteq> q" "ps_order (ps ! r) \<noteq> 0"
      by blast
    then show ?thesis
    proof cases
      case 1
      have "ps_order (ps' ! s) = 0" if "p < s" "s < p + bsz (m - 1)" for s
        using that inp[of s] b(1) q by (simp add: at)
      moreover have "ps' ! p = (ps ! p)\<lparr>ps_order := m - 1\<rparr>" using pq by (simp add: at)
      ultimately show ?thesis using 1 m1 q0(6) dv(1) ends(1) by (simp add: head_ok_def len)
    next
      case 2
      have "ps_order (ps' ! s) = 0" if "q < s" "s < q + bsz (m - 1)" for s
        using that inp[of s] b(1) q pq by (simp add: at)
      moreover have "ps' ! q = \<lparr>ps_order = m - 1, ps_pindex = q, ps_allocated = False\<rparr>" by (simp add: at)
      ultimately show ?thesis using 2 m1 dv(2) ends(2) by (simp add: head_ok_def len)
    next
      case 3
      obtain h where h: "h < r" "ps_order (ps ! h) \<noteq> 0" "r < h + bsz (ps_order (ps ! h))" "\<not> ps_allocated (ps ! r)"
        using blocks_okD(2)[OF ok r 3(3)] by (rule inner_okE)
      have hq: "h \<noteq> q" using h(2) q0(1) by metis
      let ?h = "if h = p then (if r < q then p else q) else h"
      have "?h < r \<and> ps_order (ps' ! ?h) \<noteq> 0 \<and> r < ?h + bsz (ps_order (ps' ! ?h))"
        using h 3 p(2) q m1 b(1) pq hq by (cases "h = p") (simp_all add: at)
      then have "inner_ok ps' r" by (intro inner_okI[of ps' r ?h]) (use 3 h(4) in \<open>simp_all add: at\<close>)
      then show ?thesis using 3 by (simp add: at)
    next
      case 4
      have hr: "head_ok ps r" using blocks_okD(1)[OF ok r 4(3)] .
      have "q \<notin> {r..<r + bsz (ps_order (ps ! r))}"
        using heads_disjoint[OF ok r 4(3) p(1), of q] 4 p q q0 b pq by auto
      moreover have "p \<notin> {r<..<r + bsz (ps_order (ps ! r))}"
        using head_inner[OF hr, of p] p(2,3) by auto
      ultimately have "head_ok ps' r" by (intro head_ok_cong[OF hr len]) (use 4 in \<open>auto simp: at\<close>)
      then show ?thesis using 4 by (simp add: at)
    qed
  qed
  then show "blocks_ok ps'" by (simp add: blocks_ok_def len)
qed

lemma merge_blocks_ok:
  assumes ok: "blocks_ok ps" and p: "p < length ps" "ps_order (ps ! p) = m" "bsz (m + 1) dvd p"
    and q: "q = p + bsz m" "q < length ps" "ps_order (ps ! q) = m" and m: "m \<in> orders" "m \<noteq> MAX_ORDER"
  defines "ps' \<equiv> ps[q := zero_page, p := (ps ! p)\<lparr>ps_order := m + 1\<rparr>]"
  shows "blocks_ok ps'"
proof -
  have b: "bsz (m + 1) = 2 * bsz m" "0 < bsz m" using m bsz_Suc by auto
  have m0: "m \<noteq> 0" and pq: "p < q" using m q b by simp_all
  have hp: "head_ok ps p" and hq: "head_ok ps q"
    using blocks_okD(1)[OF ok] p q m0 by auto
  then have inn: "\<And>r. p < r \<Longrightarrow> r < q \<Longrightarrow> ps_order (ps ! r) = 0"
      "\<And>r. q < r \<Longrightarrow> r < q + bsz m \<Longrightarrow> ps_order (ps ! r) = 0"
    and rng: "q + bsz m \<le> length ps" "ps_pindex (ps ! p) = p" "m + 1 \<in> orders"
    using p q m by (auto simp: head_ok_def)
  have at: "ps' ! r = (if r = q then zero_page else if r = p then (ps ! p)\<lparr>ps_order := m + 1\<rparr> else ps ! r)" for r
    using p(1) q(2) pq by (cases "r < length ps") (simp_all add: nth_list_update ps'_def)
  have len: "length ps' = length ps" by (simp add: ps'_def)
  have "if ps_order (ps' ! r) = 0 then inner_ok ps' r else head_ok ps' r" if r: "r < length ps" for r
  proof -
    consider "r = p" | "r = q" | "r \<noteq> p" "r \<noteq> q" "ps_order (ps ! r) = 0" | "r \<noteq> p" "r \<noteq> q" "ps_order (ps ! r) \<noteq> 0"
      by blast
    then show ?thesis
    proof cases
      case 1
      have "ps_order (ps' ! s) = 0" if "p < s" "s < p + bsz (m + 1)" for s
        using that inn[of s] b(1) q(1) by (cases "s < q"; cases "s = q") (simp_all add: at zero_page_def)
      moreover have "ps' ! p = (ps ! p)\<lparr>ps_order := m + 1\<rparr>" using pq by (simp add: at)
      ultimately show ?thesis using 1 p(3) q(1) b(1) rng by (simp add: head_ok_def len)
    next
      case 2
      have "p < q \<and> ps_order (ps' ! p) \<noteq> 0 \<and> q < p + bsz (ps_order (ps' ! p))"
        using q(1) b pq by (simp add: at)
      then show ?thesis using 2 by (auto simp: inner_ok_def at zero_page_def)
    next
      case 3
      obtain h where h: "h < r" "ps_order (ps ! h) \<noteq> 0" "r < h + bsz (ps_order (ps ! h))" "\<not> ps_allocated (ps ! r)"
        using blocks_okD(2)[OF ok r 3(3)] by (rule inner_okE)
      let ?h = "if h = q then p else h"
      have "?h < r \<and> ps_order (ps' ! ?h) \<noteq> 0 \<and> r < ?h + bsz (ps_order (ps' ! ?h))"
        using h p(2) q(1,3) b(1) pq by (cases "h = p"; cases "h = q") (simp_all add: at)
      then have "inner_ok ps' r" by (intro inner_okI[of ps' r ?h]) (use 3 h(4) in \<open>simp_all add: at\<close>)
      then show ?thesis using 3 by (simp add: at)
    next
      case 4
      have hr: "head_ok ps r" using blocks_okD(1)[OF ok r 4(3)] .
      have "p \<notin> {r<..<r + bsz (ps_order (ps ! r))}" "q \<notin> {r<..<r + bsz (ps_order (ps ! r))}"
        using head_inner[OF hr, of p] head_inner[OF hr, of q] p(2) q(3) m0 by auto
      then have "head_ok ps' r" by (intro head_ok_cong[OF hr len]) (use 4 in \<open>auto simp: at\<close>)
      then show ?thesis using 4 by (simp add: at)
    qed
  qed
  then show ?thesis by (simp add: blocks_ok_def len)
qed

section \<open>Free lists\<close>

text \<open>
  \<open>fl_rep s n L\<close>: in the store \<open>s\<close> the head of order \<open>m\<close> represents the list of page records
  \<open>L m\<close>, no record is on two lists, and the records on none are unlinked.
\<close>

definition on_no_list :: "(nat \<Rightarrow> nat list) \<Rightarrow> nat \<Rightarrow> bool" where
  "on_no_list L p \<longleftrightarrow> (\<forall>m \<in> orders. p \<notin> set (L m))"

definition fl_rep :: "store \<Rightarrow> nat \<Rightarrow> (nat \<Rightarrow> nat list) \<Rightarrow> bool" where
  "fl_rep s n L \<longleftrightarrow>
     (\<forall>m \<in> orders. is_list s (fl_head m) (map page_link (L m)) \<and> set (L m) \<subseteq> {..<n})
     \<and> (\<forall>m \<in> orders. \<forall>k \<in> orders. m \<noteq> k \<longrightarrow> set (L m) \<inter> set (L k) = {})
     \<and> (\<forall>p < n. on_no_list L p \<longrightarrow> unlinked s (page_link p))"

lemma on_no_listD: "on_no_list L p \<Longrightarrow> m \<in> orders \<Longrightarrow> p \<notin> set (L m)"
  by (simp add: on_no_list_def)

lemma page_link_inj [simp]: "page_link p = page_link q \<longleftrightarrow> p = q"
  by (simp add: page_link_def)

lemma page_link_head [simp]: "m \<in> orders \<Longrightarrow> page_link p \<noteq> fl_head m" "m \<in> orders \<Longrightarrow> fl_head m \<noteq> page_link p"
  by (auto simp: page_link_def fl_head_def)

lemma fl_head_inj [simp]: "m \<in> orders \<Longrightarrow> k \<in> orders \<Longrightarrow> fl_head m = fl_head k \<longleftrightarrow> m = k"
  by (auto simp: fl_head_def)

lemma link_page_link [simp]: "link_page (page_link p) = p"
  by (simp add: link_page_def page_link_def)

lemma page_link_in [simp]: "page_link p \<in> page_link ` A \<longleftrightarrow> p \<in> A"
  by auto

lemma free_blocks_ok [simp]: "m \<in> orders \<Longrightarrow> free_blocks m = Inr (fl_head m)"
  by (simp add: free_blocks_def)

lemma disjoint_mono_right: "A \<subseteq> B \<Longrightarrow> X \<inter> B = {} \<Longrightarrow> X \<inter> A = {}"
  by blast

lemma fl_repD:
  assumes "fl_rep s n L" "m \<in> orders"
  shows "is_list s (fl_head m) (map page_link (L m))" "set (L m) \<subseteq> {..<n}" "distinct (L m)"
proof -
  show l: "is_list s (fl_head m) (map page_link (L m))" and "set (L m) \<subseteq> {..<n}"
    using assms by (auto simp: fl_rep_def)
  show "distinct (L m)" using l by (simp add: is_list_def distinct_map)
qed

lemma fl_rep_other:
  assumes "fl_rep s n L" "m \<in> orders" "k \<in> orders" "m \<noteq> k"
  shows "set (L m) \<inter> set (L k) = {}"
  using assms by (simp add: fl_rep_def)

text \<open>The frame step all three operations share: one list and one record change.\<close>

lemma fl_rep_update:
  assumes r: "fl_rep s n L" and m: "m \<in> orders" and p: "p < n"
    and A: "A \<subseteq> insert (fl_head m) (page_link ` insert p (set (L m)))"
    and k: "keeps_other_lists A s s'"
    and l: "is_list s' (fl_head m) (map page_link xs)"
    and xs: "set xs \<subseteq> insert p (set (L m))" "set (L m) \<subseteq> insert p (set xs)"
    and free: "p \<in> set xs \<Longrightarrow> p \<notin> set (L m) \<Longrightarrow> on_no_list L p"
    and loose: "p \<notin> set xs \<Longrightarrow> p \<in> set (L m) \<and> unlinked s' (page_link p)"
  shows "fl_rep s' n (L(m := xs))"
proof -
  have pk: "p \<notin> set (L j)" if "j \<in> orders" "j \<noteq> m" for j
  proof (cases "p \<in> set (L m)")
    case True
    then show ?thesis using fl_rep_other[OF r m that(1)] that(2) by auto
  next
    case False
    then have "on_no_list L p" using free loose by blast
    then show ?thesis using that(1) by (simp add: on_no_list_def)
  qed
  have "is_list s' (fl_head j) (map page_link (L j))" if j: "j \<in> orders" "j \<noteq> m" for j
  proof -
    have "set (fl_head j # map page_link (L j)) \<inter> A = {}"
      by (rule disjoint_mono_right[OF A]) (use pk[OF j] j m fl_rep_other[OF r m j(1)] in auto)
    then show ?thesis using k fl_repD(1)[OF r j(1)] by (auto simp: keeps_other_lists_def)
  qed
  moreover have "unlinked s' (page_link q)" if q: "q < n" "on_no_list (L(m := xs)) q" for q
  proof (cases "q = p")
    case True
    have "q \<notin> set ((L(m := xs)) m)" by (rule on_no_listD[OF q(2) m])
    then show ?thesis using True loose by simp
  next
    case False
    have out: "q \<notin> set (L j)" if "j \<in> orders" for j
      using on_no_listD[OF q(2) that] xs(2) False by (cases "j = m") auto
    then have "unlinked s (page_link q)" using r q(1) unfolding fl_rep_def on_no_list_def by blast
    moreover have "page_link q \<notin> A"
      by (rule contra_subsetD[OF A]) (use out[OF m] False m in simp)
    ultimately show ?thesis using k by (auto simp: keeps_other_lists_def)
  qed
  moreover have "set xs \<subseteq> {..<n}" using xs(1) p fl_repD(2)[OF r m] by auto
  moreover have dis: "set (L j) \<inter> set xs = {}" "set xs \<inter> set (L j) = {}" if "j \<in> orders" "j \<noteq> m" for j
    using xs(1) pk[OF that] fl_rep_other[OF r m that(1)] that(2) by auto
  ultimately show ?thesis
    using l fl_repD(2)[OF r] fl_rep_other[OF r] by (simp add: fl_rep_def)
qed

lemma fl_push:
  assumes r: "fl_rep (klinks st) n L" and m: "m \<in> orders" and p: "p < n" "on_no_list L p"
  obtains s' where "push_free st m p = Inr (st\<lparr>klinks := s'\<rparr>)" "fl_rep s' n (L(m := L m @ [p]))"
proof -
  have "unlinked (klinks st) (page_link p)" using r p by (simp add: fl_rep_def)
  then obtain s' where s': "push_back (klinks st) (fl_head m) (page_link p) = Inr s'"
    "is_list s' (fl_head m) (map page_link (L m) @ [page_link p])"
    "keeps_other_lists (set (fl_head m # page_link p # map page_link (L m))) (klinks st) s'"
    using push_back_refines[OF fl_repD(1)[OF r m], of "page_link p"] on_no_listD[OF p(2) m] m by auto
  have "fl_rep s' n (L(m := L m @ [p]))"
    by (rule fl_rep_update[OF r m p(1) _ s'(3)]) (use s'(2) p(2) in auto)
  then show thesis using that s'(1) m by (simp add: push_free_def)
qed

lemma fl_pop:
  assumes r: "fl_rep (klinks st) n L" and m: "m \<in> orders" and L: "L m = p # ps"
  obtains s' where "pop_free st m = Inr (st\<lparr>klinks := s'\<rparr>, p)" "fl_rep s' n (L(m := ps))"
proof -
  have l: "is_list (klinks st) (fl_head m) (page_link p # map page_link ps)" and d: "p \<notin> set ps" "p < n"
    using fl_repD[OF r m] L by auto
  obtain s' where s': "pop_front (klinks st) (fl_head m) = Inr (s', Some (page_link p))"
    "is_list s' (fl_head m) (map page_link ps)" "unlinked s' (page_link p)"
    "keeps_other_lists (set (fl_head m # page_link p # map page_link ps)) (klinks st) s'"
    using pop_front_refines[OF l] by auto
  have "fl_rep s' n (L(m := ps))"
    by (rule fl_rep_update[OF r m d(2) _ s'(4)]) (use s'(2,3) L d in auto)
  then show thesis using that s'(1) m by (simp add: pop_free_def)
qed

lemma fl_erase:
  assumes r: "fl_rep s n L" and m: "m \<in> orders" and p: "p \<in> set (L m)"
  obtains s' xs where "list_erase s (page_link p) = Inr s'" "fl_rep s' n (L(m := xs))"
    "set xs = set (L m) - {p}" "unlinked s' (page_link p)"
proof -
  obtain ys zs where L: "L m = ys @ p # zs" using p by (meson split_list)
  have l: "is_list s (fl_head m) (map page_link ys @ page_link p # map page_link zs)"
    and d: "distinct (ys @ p # zs)" "p < n"
    using fl_repD[OF r m] L by auto
  obtain s' where s': "list_erase s (page_link p) = Inr s'"
    "is_list s' (fl_head m) (map page_link ys @ map page_link zs)" "unlinked s' (page_link p)"
    "keeps_other_lists (set (fl_head m # page_link p # map page_link ys @ map page_link zs)) s s'"
    using erase_refines[OF l] by auto
  have "fl_rep s' n (L(m := ys @ zs))"
    by (rule fl_rep_update[OF r m d(2) _ s'(4)]) (use s'(2,3) L d in auto)
  then show thesis using that[of s' "ys @ zs"] s' L d by auto
qed

lemma fl_empty:
  assumes "fl_rep s n L" "m \<in> orders"
  shows "list_empty s (fl_head m) \<longleftrightarrow> L m = []"
  using is_list_ends(1)[OF fl_repD(1)[OF assms]] assms(2)
  by (cases "L m") (auto simp: list_empty_def)

end
