(* ===== verification/Buddy_Correct.thy ===== *)
theory Buddy_Correct
  imports Buddy_Inv
begin

text \<open>
  Correctness of \<open>kalloc\<close> and \<open>kfree\<close>: the invariant, its preservation by splitting and merging,
  the contract of an allocator as a locale, and its interpretation on the code's functions.
\<close>

section \<open>The invariant\<close>

definition free_pages :: "pagestate list \<Rightarrow> nat \<Rightarrow> nat set" where
  "free_pages ps m = {p. p < length ps \<and> ps_order (ps ! p) = m \<and> \<not> ps_allocated (ps ! p)}"

text \<open>\<open>X\<close> holds the free blocks that are on no list, as the block is that \<open>kfree\<close> is merging.\<close>

definition lists_hold :: "kalloc_state \<Rightarrow> (nat \<Rightarrow> nat list) \<Rightarrow> nat set \<Rightarrow> bool" where
  "lists_hold st L X \<longleftrightarrow> fl_rep (klinks st) (length (pages st)) L
     \<and> (\<forall>m \<in> orders. set (L m) = free_pages (pages st) m - X)"

definition kalloc_inv :: "kalloc_state \<Rightarrow> bool" where
  "kalloc_inv st \<longleftrightarrow> blocks_ok (pages st) \<and> (\<exists>L. lists_hold st L {})"

text \<open>The regions handed out: address and size of every allocated block.\<close>

definition live_blocks :: "kalloc_state \<Rightarrow> (nat \<times> nat) set" where
  "live_blocks st = (\<lambda>p. (p * PAGESIZE, 2 ^ ps_order (pages st ! p)))
     ` {p. p < length (pages st) \<and> ps_allocated (pages st ! p)}"

lemma free_pages_update:
  assumes "p < length ps"
  shows "free_pages (ps[p := x]) k =
    (free_pages ps k - {p}) \<union> (if ps_order x = k \<and> \<not> ps_allocated x then {p} else {})"
proof (rule set_eqI)
  fix q
  show "q \<in> free_pages (ps[p := x]) k \<longleftrightarrow>
      q \<in> (free_pages ps k - {p}) \<union> (if ps_order x = k \<and> \<not> ps_allocated x then {p} else {})"
    using assms by (cases "q = p") (simp_all add: free_pages_def)
qed

lemma live_blocks_update:
  assumes "p < length (pages st)" "ps_allocated x \<longleftrightarrow> ps_allocated (pages st ! p)"
    "ps_allocated x \<Longrightarrow> ps_order x = ps_order (pages st ! p)"
  shows "live_blocks (st\<lparr>pages := (pages st)[p := x]\<rparr>) = live_blocks st"
proof -
  have a: "ps_allocated ((pages st)[p := x] ! q) = ps_allocated (pages st ! q)" for q
    using assms by (cases "q = p") simp_all
  have o: "ps_order ((pages st)[p := x] ! q) = ps_order (pages st ! q)" if "ps_allocated (pages st ! q)" for q
    using assms that by (cases "q = p") simp_all
  show ?thesis unfolding live_blocks_def by (rule image_cong) (simp_all add: a o)
qed

lemma live_blocks_links [simp]:
  "live_blocks (st\<lparr>klinks := s\<rparr>) = live_blocks st" "live_blocks (st\<lparr>kmem := mm\<rparr>) = live_blocks st"
  by (simp_all add: live_blocks_def)

lemma set_page_ok [simp]:
  "p < length (pages st) \<Longrightarrow> set_page st p f = Inr (st\<lparr>pages := (pages st)[p := f (pages st ! p)]\<rparr>)"
  by (simp add: set_page_def)

lemma get_page_ok [simp]: "p < length (pages st) \<Longrightarrow> get_page st p = Inr (pages st ! p)"
  by (simp add: get_page_def)

lemma page_overwrite:
  "(p :: pagestate)\<lparr>ps_order := a, ps_allocated := b, ps_pindex := c\<rparr> =
     \<lparr>ps_order = a, ps_pindex = c, ps_allocated = b\<rparr>"
  by simp

lemma order_of_page: "order_of (word_of_nat PAGESIZE) = 12"
  by (simp add: order_of_def msb_nat.simps)

lemma lists_holdD:
  assumes "lists_hold st L X"
  shows "fl_rep (klinks st) (length (pages st)) L"
    and "m \<in> orders \<Longrightarrow> set (L m) = free_pages (pages st) m - X"
  using assms by (simp_all add: lists_hold_def)

section \<open>Splitting\<close>

lemma min_larger_order_cases:
  assumes r: "fl_rep s n L" and t: "t \<in> orders"
  obtains (found) m where "min_larger_order s t = Inr (int m)" "m \<in> orders" "t \<le> m" "L m \<noteq> []"
      "\<And>k. t \<le> k \<Longrightarrow> k < m \<Longrightarrow> L k = []"
  | (none) "min_larger_order s t = Inr (-1)" "\<And>k. t \<le> k \<Longrightarrow> k \<le> MAX_ORDER \<Longrightarrow> L k = []"
proof -
  have "(\<exists>m. min_larger_order_from s t = Inr (int m) \<and> m \<in> orders \<and> t \<le> m \<and> L m \<noteq> []
           \<and> (\<forall>k. t \<le> k \<and> k < m \<longrightarrow> L k = []))
      \<or> (min_larger_order_from s t = Inr (-1) \<and> (\<forall>k. t \<le> k \<and> k \<le> MAX_ORDER \<longrightarrow> L k = []))"
    using t
  proof (induction "MAX_ORDER - t" arbitrary: t)
    case 0
    then have "t = MAX_ORDER" by simp
    then show ?case using fl_empty[OF r 0(2)] by (subst (1 2) min_larger_order_from.simps) auto
  next
    case (Suc d)
    then have t1: "d = MAX_ORDER - (t + 1)" "t + 1 \<in> orders" by auto
    show ?case
    proof (cases "L t = []")
      case False
      then show ?thesis
        using fl_empty[OF r Suc(3)] Suc(3) by (subst (1 2) min_larger_order_from.simps) auto
    next
      case True
      have step: "min_larger_order_from s t = min_larger_order_from s (t + 1)"
        using fl_empty[OF r Suc(3)] Suc(3) t1(2) True by (subst min_larger_order_from.simps) auto
      have ext: "L k = []" if "t \<le> k" "t + 1 \<le> k \<Longrightarrow> L k = []" for k
        using that True by (cases "k = t") auto
      from Suc(1)[OF t1] show ?thesis
      proof (elim disjE exE conjE)
        fix m assume m: "min_larger_order_from s (t + 1) = Inr (int m)" "m \<in> orders" "t + 1 \<le> m" "L m \<noteq> []"
          and e: "\<forall>k. t + 1 \<le> k \<and> k < m \<longrightarrow> L k = []"
        have "L k = []" if "t \<le> k" "k < m" for k by (rule ext) (use that e in auto)
        then show ?thesis using m step by (intro disjI1 exI[of _ m]) simp
      next
        assume n: "min_larger_order_from s (t + 1) = Inr (- 1)" and e: "\<forall>k. t + 1 \<le> k \<and> k \<le> MAX_ORDER \<longrightarrow> L k = []"
        have "L k = []" if "t \<le> k" "k \<le> MAX_ORDER" for k by (rule ext) (use that e in auto)
        then show ?thesis using n step by (intro disjI2) simp
      qed
    qed
  qed
  then show thesis using found none by (auto simp: min_larger_order_def)
qed

lemma not_on_list:
  assumes "lists_hold st L X" "ps_order (pages st ! p) \<notin> orders \<or> p \<in> X"
  shows "on_no_list L p"
  unfolding on_no_list_def
proof
  fix m assume m: "m \<in> orders"
  show "p \<notin> set (L m)" using lists_holdD(2)[OF assms(1) m] assms(2) m by (auto simp: free_pages_def)
qed

lemma on_no_list_upd: "on_no_list L p \<Longrightarrow> p \<notin> set xs \<Longrightarrow> on_no_list (L(m := xs)) p"
  by (simp add: on_no_list_def)

lemma split_block_ok:
  assumes ok: "blocks_ok (pages st)" and L: "lists_hold st L {}" and o: "order \<in> orders" "L order = []"
    and m: "order \<le> m" "m \<in> orders" "L m \<noteq> []"
  obtains st' L' k where "split_block st order = Inr st'" "blocks_ok (pages st')" "lists_hold st' L' {}"
    "order \<le> k" "k < m" "k \<in> orders" "L' k \<noteq> []" "kmem st' = kmem st" "length (pages st') = length (pages st)"
    "live_blocks st' = live_blocks st"
proof -
  let ?n = "length (pages st)" and ?ps = "pages st"
  note fr = lists_holdD(1)[OF L] and fs = lists_holdD(2)[OF L]
  obtain M where M: "min_larger_order (klinks st) order = Inr (int M)" "M \<in> orders" "order \<le> M" "L M \<noteq> []"
      "M \<le> m"
    using m by (cases rule: min_larger_order_cases[OF fr o(1)]) (force simp: not_le[symmetric])+
  obtain t ts where t: "L M = t # ts" using M(4) by (cases "L M") auto
  have oM: "order < M" using M(3,4) o(2) by (cases "order = M") auto
  have k: "M - 1 \<in> orders" "MIN_ORDER < M" using oM o(1) M(2) by auto
  obtain s1 where s1: "pop_free st M = Inr (st\<lparr>klinks := s1\<rparr>, t)" "fl_rep s1 ?n (L(M := ts))"
    using fl_pop[OF fr M(2) t] .
  have tf: "t < ?n" "ps_order (?ps ! t) = M" "\<not> ps_allocated (?ps ! t)"
    using fs[OF M(2)] t by (auto simp: free_pages_def)
  have hd: "ps_pindex (?ps ! t) = t" using blocks_okD(1)[OF ok tf(1)] tf(2) k(2) by (simp add: head_ok_def)
  have tno: "on_no_list (L(M := ts)) t"
    using t fl_repD(3)[OF fr M(2)] fl_rep_other[OF fr M(2)] by (auto simp: on_no_list_def)
  let ?st2 = "st\<lparr>klinks := s1, pages := ?ps[t := (?ps ! t)\<lparr>ps_order := M - 1\<rparr>]\<rparr>"
  obtain s2 where s2: "push_free ?st2 (M - 1) t = Inr (?st2\<lparr>klinks := s2\<rparr>)"
      "fl_rep s2 ?n ((L(M := ts))(M - 1 := (L(M := ts)) (M - 1) @ [t]))"
    using fl_push[of ?st2 ?n "L(M := ts)" "M - 1" t] s1(2) k(1) tf(1) tno by auto
  define q where "q = t + bsz (M - 1)"
  note sp = split_blocks_ok[OF ok tf(1,2) k(2) q_def]
  have qt: "q \<noteq> t" by (simp add: q_def)
  have qno: "on_no_list ((L(M := ts))(M - 1 := (L(M := ts)) (M - 1) @ [t])) q"
  proof -
    have "on_no_list L q" using not_on_list[OF L, of q] sp(3) by simp
    moreover from this have "q \<notin> set ts" "q \<notin> set (L (M - 1))"
      using on_no_listD[OF _ M(2), of L q] on_no_listD[OF _ k(1), of L q] t by auto
    ultimately show ?thesis using qt k(2) by (intro on_no_list_upd) simp_all
  qed
  let ?new = "\<lparr>ps_order = M - 1, ps_pindex = q, ps_allocated = False\<rparr>"
  let ?ps' = "?ps[t := (?ps ! t)\<lparr>ps_order := M - 1\<rparr>, q := ?new]"
  let ?st6 = "st\<lparr>klinks := s2, pages := ?ps'\<rparr>"
  let ?L = "(L(M := ts))(M - 1 := (L(M := ts)) (M - 1) @ [t] @ [q])"
  obtain s3 where s3: "push_free ?st6 (M - 1) q = Inr (?st6\<lparr>klinks := s3\<rparr>)" "fl_rep s3 ?n ?L"
    using fl_push[of ?st6 ?n "(L(M := ts))(M - 1 := (L(M := ts)) (M - 1) @ [t])" "M - 1" q]
      s2(2) k(1) sp(2) qno by auto
  show thesis
  proof (rule that[of "?st6\<lparr>klinks := s3\<rparr>" ?L "M - 1"])
    have "ps_pindex (?ps ! t) + 2 ^ (M - 1 - order_of (word_of_nat PAGESIZE)) = q"
      unfolding order_of_page hd by (simp add: q_def bsz_def)
    then show "split_block st order = Inr (?st6\<lparr>klinks := s3\<rparr>)"
      using M(1) s1(1) tf s2(1) sp(2) qt s3(1) by (simp add: split_block_def Let_def page_overwrite)
    show "blocks_ok (pages (?st6\<lparr>klinks := s3\<rparr>))" using sp(1) by simp
    have ts: "set ts = free_pages ?ps M - {t}"
      using fs[OF M(2)] t fl_repD(3)[OF fr M(2)] by auto
    have "set (?L j) = free_pages ?ps' j" if j: "j \<in> orders" for j
    proof -
      have q0: "q \<notin> free_pages ?ps j" using sp(3) j by (auto simp: free_pages_def)
      have t0: "j \<noteq> M \<Longrightarrow> t \<notin> free_pages ?ps j" using tf by (auto simp: free_pages_def)
      have "free_pages ?ps' j = free_pages ?ps j - {t} \<union> (if j = M - 1 then {t, q} else {})"
        using q0 tf sp(2) qt by (auto simp: free_pages_update)
      then show ?thesis using fs[OF j] ts t0 k(2) by auto
    qed
    then show "lists_hold (?st6\<lparr>klinks := s3\<rparr>) ?L {}" using s3(2) by (simp add: lists_hold_def)
    have "\<not> ps_allocated (?ps ! q)" using blocks_okD(2)[OF ok sp(2,3)] by (simp add: inner_ok_def)
    then have "live_blocks (st\<lparr>pages := ?ps'\<rparr>) = live_blocks (st\<lparr>pages := ?ps[t := (?ps ! t)\<lparr>ps_order := M - 1\<rparr>]\<rparr>)"
      using live_blocks_update[of q "st\<lparr>pages := ?ps[t := (?ps ! t)\<lparr>ps_order := M - 1\<rparr>]\<rparr>" ?new] sp(2) qt by simp
    also have "\<dots> = live_blocks st" using tf by (intro live_blocks_update) simp_all
    finally show "live_blocks (?st6\<lparr>klinks := s3\<rparr>) = live_blocks st" by (simp add: live_blocks_def)
  qed (use oM M(5) k(1) in auto)
qed

lemma split_loop_ok:
  assumes "blocks_ok (pages st)" "lists_hold st L {}" "order \<in> orders" "order \<le> m" "m \<in> orders" "L m \<noteq> []"
    "m - order \<le> fuel"
  shows "\<exists>st' L'. split_loop fuel st order = Inr st' \<and> blocks_ok (pages st') \<and> lists_hold st' L' {}
     \<and> L' order \<noteq> [] \<and> kmem st' = kmem st \<and> length (pages st') = length (pages st)
     \<and> live_blocks st' = live_blocks st"
  using assms
proof (induction fuel arbitrary: st L m)
  case 0
  then have "m = order" by simp
  then have "split_loop 0 st order = Inr st"
    using 0 fl_empty[OF lists_holdD(1)[OF 0(2)] 0(3)] by (simp add: split_loop.simps)
  then show ?case using 0 \<open>m = order\<close> by blast
next
  case (Suc fuel)
  note e = fl_empty[OF lists_holdD(1)[OF Suc.prems(2)] Suc.prems(3)]
  show ?case
  proof (cases "L order = []")
    case False
    then have "split_loop (Suc fuel) st order = Inr st" using e Suc.prems(3) by (simp add: split_loop.simps)
    then show ?thesis using Suc.prems False by blast
  next
    case True
    obtain st' L' k where s: "split_block st order = Inr st'" "blocks_ok (pages st')" "lists_hold st' L' {}"
      "order \<le> k" "k < m" "k \<in> orders" "L' k \<noteq> []" "kmem st' = kmem st" "length (pages st') = length (pages st)"
      "live_blocks st' = live_blocks st"
      using split_block_ok[OF Suc.prems(1-3) True Suc.prems(4-6)] .
    have "split_loop (Suc fuel) st order = split_loop fuel st' order"
      using s(1) e True Suc.prems(3) by (subst split_loop.simps) simp
    then show ?thesis using Suc.IH[OF s(2,3) Suc.prems(3) s(4,6,7)] Suc.prems(7) s(5,8-10) by simp
  qed
qed

section \<open>Allocation\<close>

lemma lists_hold_alloc:
  assumes L: "lists_hold st L {}" and m: "m \<in> orders" and p: "L m = p # ps" and fr: "fl_rep s' (length (pages st)) (L(m := ps))"
  shows "lists_hold (st\<lparr>klinks := s', pages := (pages st)[p := (pages st ! p)\<lparr>ps_allocated := True\<rparr>]\<rparr>) (L(m := ps)) {}"
proof -
  have pf: "p \<in> free_pages (pages st) m" "set ps = free_pages (pages st) m - {p}"
    using lists_holdD(2)[OF L m] p fl_repD(3)[OF lists_holdD(1)[OF L] m] by auto
  have "free_pages ((pages st)[p := (pages st ! p)\<lparr>ps_allocated := True\<rparr>]) k = free_pages (pages st) k - {p}" for k
    using free_pages_update[of p "pages st"] pf(1) by (simp add: free_pages_def[of _ m])
  moreover have "p \<notin> free_pages (pages st) k" if "k \<noteq> m" for k using that pf(1) by (auto simp: free_pages_def)
  ultimately show ?thesis using fr pf lists_holdD(2)[OF L] by (simp add: lists_hold_def)
qed

lemma live_blocks_alloc:
  assumes "p < length (pages st)"
  shows "live_blocks (st\<lparr>pages := (pages st)[p := (pages st ! p)\<lparr>ps_allocated := True\<rparr>]\<rparr>) =
    insert (p * PAGESIZE, 2 ^ ps_order (pages st ! p)) (live_blocks st)"
proof -
  let ?ps = "(pages st)[p := (pages st ! p)\<lparr>ps_allocated := True\<rparr>]"
  have o: "ps_order (?ps ! q) = ps_order (pages st ! q)" for q using assms by (cases "q = p") simp_all
  have "{q. q < length (pages st) \<and> ps_allocated (?ps ! q)} = insert p {q. q < length (pages st) \<and> ps_allocated (pages st ! q)}"
    using assms by (auto simp: nth_list_update)
  then show ?thesis by (simp add: live_blocks_def o)
qed

text \<open>The regions of \<open>live_blocks\<close> are pairwise disjoint, and inside the memory.\<close>

definition region :: "nat \<times> nat \<Rightarrow> nat set" where
  "region r = {fst r..<fst r + snd r}"

lemma div_in_block:
  fixes p a b :: nat
  assumes "p * PAGESIZE \<le> a" "a < p * PAGESIZE + b * PAGESIZE"
  shows "p \<le> a div PAGESIZE" "a div PAGESIZE < p + b"
proof -
  have "p * PAGESIZE div PAGESIZE \<le> a div PAGESIZE" by (rule div_le_mono[OF assms(1)])
  then show "p \<le> a div PAGESIZE" by simp
  show "a div PAGESIZE < p + b"
    by (rule less_mult_imp_div_less) (use assms(2) in \<open>simp add: distrib_right\<close>)
qed

lemma block_region_pages:
  assumes "blocks_ok (pages st)" "p < length (pages st)" "ps_order (pages st ! p) \<noteq> 0"
    and a: "a \<in> region (p * PAGESIZE, 2 ^ ps_order (pages st ! p))"
  shows "p \<le> a div PAGESIZE" "a div PAGESIZE < p + bsz (ps_order (pages st ! p))"
proof -
  have "2 ^ ps_order (pages st ! p) = bsz (ps_order (pages st ! p)) * PAGESIZE"
    using bsz_page head_okD(1)[OF blocks_okD(1)[OF assms(1-3)]] by simp
  with a have "p * PAGESIZE \<le> a" "a < p * PAGESIZE + bsz (ps_order (pages st ! p)) * PAGESIZE"
    by (simp_all add: region_def)
  from div_in_block[OF this] show "p \<le> a div PAGESIZE" "a div PAGESIZE < p + bsz (ps_order (pages st ! p))" .
qed

lemma regions_disjoint:
  assumes ok: "blocks_ok (pages st)"
    and p: "p < length (pages st)" "ps_order (pages st ! p) \<noteq> 0" and q: "q < length (pages st)" "ps_order (pages st ! q) \<noteq> 0"
    and pq: "p \<noteq> q"
  shows "region (p * PAGESIZE, 2 ^ ps_order (pages st ! p)) \<inter> region (q * PAGESIZE, 2 ^ ps_order (pages st ! q)) = {}"
  using block_region_pages[OF ok p] block_region_pages[OF ok q] heads_disjoint[OF ok p q] pq by blast

lemma kalloc_order_range: "kalloc_order sz \<ge> MIN_ORDER"
  by (simp add: kalloc_order_def Let_def)

lemma kalloc_ok:
  assumes inv: "kalloc_inv st" and sz: "sz \<noteq> 0" "kalloc_order sz \<le> MAX_ORDER"
  obtains (none) "kalloc st sz = Inr (st, None)"
      "\<And>p. p < length (pages st) \<Longrightarrow> kalloc_order sz \<le> ps_order (pages st ! p) \<Longrightarrow> ps_allocated (pages st ! p)"
  | (some) st' p where "kalloc st sz = Inr (st', Some (p * PAGESIZE))" "kalloc_inv st'"
      "live_blocks st' = insert (p * PAGESIZE, 2 ^ kalloc_order sz) (live_blocks st)"
      "p < length (pages st')" "ps_order (pages st' ! p) = kalloc_order sz" "ps_allocated (pages st' ! p)"
      "(p * PAGESIZE, 2 ^ kalloc_order sz) \<notin> live_blocks st"
      "kmem st' = kmem st" "length (pages st') = length (pages st)"
proof -
  obtain L where ok: "blocks_ok (pages st)" and L: "lists_hold st L {}" using inv by (auto simp: kalloc_inv_def)
  define m where "m = kalloc_order sz"
  have m: "m \<in> orders" using sz kalloc_order_range by (simp add: m_def)
  note run = kalloc_def[of st sz, unfolded Let_def, folded m_def]
  from lists_holdD(1)[OF L] m show thesis
  proof (cases rule: min_larger_order_cases)
    case none
    have "ps_allocated (pages st ! p)" if p: "p < length (pages st)" "m \<le> ps_order (pages st ! p)" for p
    proof (rule ccontr)
      assume "\<not> ps_allocated (pages st ! p)"
      then have "p \<in> free_pages (pages st) (ps_order (pages st ! p))" using p by (simp add: free_pages_def)
      moreover have o: "ps_order (pages st ! p) \<in> orders"
        using head_okD(1)[OF blocks_okD(1)[OF ok p(1)]] p(2) m by auto
      ultimately show False using lists_holdD(2)[OF L o] none(2)[of "ps_order (pages st ! p)"] p(2) by auto
    qed
    then show thesis using that(1) run none(1) sz m by (simp add: m_def[symmetric])
  next
    case (found k)
    have fu: "k - m \<le> MAX_ORDER - MIN_ORDER" using found(2) m by auto
    obtain st1 L1 where s1: "split_loop (MAX_ORDER - MIN_ORDER) st m = Inr st1" "blocks_ok (pages st1)" "lists_hold st1 L1 {}"
      "L1 m \<noteq> []" "kmem st1 = kmem st" "length (pages st1) = length (pages st)" "live_blocks st1 = live_blocks st"
      using split_loop_ok[OF ok L m found(3,2,4) fu] by blast
    obtain p ps where p: "L1 m = p # ps" using s1(4) by (cases "L1 m") auto
    obtain s' where s': "pop_free st1 m = Inr (st1\<lparr>klinks := s'\<rparr>, p)" "fl_rep s' (length (pages st1)) (L1(m := ps))"
      using fl_pop[OF lists_holdD(1)[OF s1(3)] m p] .
    have pf: "p < length (pages st1)" "ps_order (pages st1 ! p) = m" "\<not> ps_allocated (pages st1 ! p)"
      using lists_holdD(2)[OF s1(3) m] p by (auto simp: free_pages_def)
    have hd: "ps_pindex (pages st1 ! p) = p" "ps_order (pages st1 ! p) \<noteq> 0"
      using head_okD(2)[OF blocks_okD(1)[OF s1(2) pf(1)]] pf(2) m by auto
    define ps1 where "ps1 = (pages st1)[p := (pages st1 ! p)\<lparr>ps_allocated := True\<rparr>]"
    define st' where "st' = st1\<lparr>klinks := s', pages := ps1\<rparr>"
    have "kalloc st sz = Inr (st', Some (p * PAGESIZE))"
      using run sz m found(1,2) s1(1) s'(1) pf hd by (simp add: m_def[symmetric] st'_def ps1_def)
    moreover have "kalloc_inv st'"
      using lists_hold_alloc[OF s1(3) m p s'(2)] blocks_ok_alloc[OF s1(2) pf(1) hd(2), of True]
      by (auto simp: kalloc_inv_def st'_def ps1_def)
    moreover have "live_blocks st' = insert (p * PAGESIZE, 2 ^ m) (live_blocks st)"
      using live_blocks_alloc[OF pf(1)] pf(2) s1(7) by (simp add: st'_def ps1_def live_blocks_def)
    moreover have "(p * PAGESIZE, 2 ^ m) \<notin> live_blocks st"
      using pf(3) unfolding s1(7)[symmetric] by (auto simp: live_blocks_def)
    ultimately show thesis
      using that(2)[of st' p] pf s1(5,6) by (simp add: m_def[symmetric] st'_def ps1_def)
  qed
qed

section \<open>Merging\<close>

lemma buddy_cases:
  assumes m: "m \<in> orders" and d: "bsz m dvd p"
  obtains (left) "bsz (m + 1) dvd p" "buddy_pindex p m = p + bsz m"
  | (right) "p = buddy_pindex p m + bsz m" "bsz (m + 1) dvd buddy_pindex p m"
proof -
  have b: "bsz m * PAGESIZE = 2 ^ m" "bsz (m + 1) * PAGESIZE = 2 ^ (m + 1)" "bsz (m + 1) = 2 * bsz m"
    using m bsz_page[of m] bsz_page[of "m + 1"] bsz_Suc[of m] by simp_all
  obtain k where k: "p = bsz m * k" using d by (elim dvdE)
  have "p * PAGESIZE mod 2 ^ (m + 1) = k * (bsz m * PAGESIZE) mod (2 * (bsz m * PAGESIZE))"
    unfolding b(2)[symmetric] b(3) k by (simp only: mult_ac)
  also have "\<dots> = k mod 2 * (bsz m * PAGESIZE)" by (rule mod_mult_mult2)
  finally have even_iff: "p * PAGESIZE mod 2 ^ (m + 1) = 0 \<longleftrightarrow> even k" by (simp add: even_iff_mod_2_eq_zero)
  show thesis
  proof (cases "even k")
    case True
    then have "buddy_pindex p m = (p + bsz m) * PAGESIZE div PAGESIZE"
      using even_iff b(1) by (simp add: buddy_pindex_def distrib_right)
    then have "buddy_pindex p m = p + bsz m" by simp
    moreover have "bsz (m + 1) dvd p" using True unfolding b(3) k by simp
    ultimately show thesis by (intro left)
  next
    case False
    then obtain j where j: "k = 2 * j + 1" by (elim oddE)
    have "buddy_pindex p m = (p - bsz m) * PAGESIZE div PAGESIZE"
      using False even_iff b(1) by (simp add: buddy_pindex_def diff_mult_distrib)
    then have "buddy_pindex p m = bsz m * (2 * j)" using k j by simp
    moreover have "p = bsz m * (2 * j) + bsz m" using k j by simp
    ultimately show thesis by (intro right) (simp_all add: b(3)[unfolded Suc_eq_plus1[symmetric]])
  qed
qed

text \<open>The state in which \<open>kfree\<close> merges: block \<open>p\<close> is free and on no list.\<close>

definition merging :: "kalloc_state \<Rightarrow> (nat \<Rightarrow> nat list) \<Rightarrow> nat \<Rightarrow> bool" where
  "merging st L p \<longleftrightarrow> blocks_ok (pages st) \<and> lists_hold st L {p} \<and> p < length (pages st)
     \<and> ps_order (pages st ! p) \<in> orders \<and> \<not> ps_allocated (pages st ! p)"

lemma allocated_order: "blocks_ok ps \<Longrightarrow> p < length ps \<Longrightarrow> ps_allocated (ps ! p) \<Longrightarrow> ps_order (ps ! p) \<noteq> 0"
  using blocks_okD(2)[of ps p] by (auto simp: inner_ok_def)

lemma merging_apart:
  assumes mg: "merging st L p" and r: "r \<in> live_blocks st"
  shows "region r \<inter> region (p * PAGESIZE, 2 ^ ps_order (pages st ! p)) = {}"
proof -
  obtain q where q: "q < length (pages st)" "ps_allocated (pages st ! q)" "r = (q * PAGESIZE, 2 ^ ps_order (pages st ! q))"
    using r by (auto simp: live_blocks_def)
  moreover have "blocks_ok (pages st)" "p < length (pages st)" "ps_order (pages st ! p) \<noteq> 0" "q \<noteq> p"
    using mg q(2) by (auto simp: merging_def)
  ultimately show ?thesis using regions_disjoint[of st q p] allocated_order[of "pages st" q] by simp
qed

lemma merge_step:
  assumes mg: "merging st L p" and m: "ps_order (pages st ! p) = m" "m \<noteq> MAX_ORDER"
    and b: "b = buddy_pindex p m" "b < length (pages st)" "\<not> ps_allocated (pages st ! b)" "ps_order (pages st ! b) = m"
  obtains s' L' where "list_erase (klinks st) (page_link b) = Inr s'"
    "s'(page_link (max p b) := \<lparr>ll_next = None, ll_prev = None\<rparr>) = s'"
    "merging (st\<lparr>klinks := s', pages := (pages st)[max p b := zero_page,
        min p b := (pages st ! min p b)\<lparr>ps_order := m + 1\<rparr>]\<rparr>) L' (min p b)"
    "live_blocks (st\<lparr>klinks := s', pages := (pages st)[max p b := zero_page,
        min p b := (pages st ! min p b)\<lparr>ps_order := m + 1\<rparr>]\<rparr>) = live_blocks st"
proof -
  have ok: "blocks_ok (pages st)" and L: "lists_hold st L {p}" and p: "p < length (pages st)" "\<not> ps_allocated (pages st ! p)"
    and mo: "m \<in> orders" using mg m by (auto simp: merging_def)
  have d: "bsz m dvd p" using head_okD(3)[OF blocks_okD(1)[OF ok p(1)]] m mo by simp
  define lo hi where "lo = min p b" and "hi = max p b"
  have lh: "bsz (m + 1) dvd lo \<and> hi = lo + bsz m"
    using mo d
  proof (cases rule: buddy_cases)
    case left
    then show ?thesis using b(1) by (simp add: lo_def hi_def)
  next
    case right
    then show ?thesis unfolding b(1)[symmetric] lo_def hi_def by (simp add: min_def max_def)
  qed
  note lh = conjunct1[OF lh] conjunct2[OF lh]
  have ne: "lo < hi" "lo < length (pages st)" "hi < length (pages st)" using lh(2) p b(2) by (auto simp: lo_def hi_def)
  have st0: "\<not> ps_allocated (pages st ! lo)" "ps_order (pages st ! lo) = m"
      "\<not> ps_allocated (pages st ! hi)" "ps_order (pages st ! hi) = m"
    using p(2) b(3,4) m(1) by (simp_all add: lo_def hi_def min_def max_def)
  let ?ps = "(pages st)[hi := zero_page, lo := (pages st ! lo)\<lparr>ps_order := m + 1\<rparr>]"
  have bp: "b \<noteq> p" "{lo, hi} = {p, b}" using ne(1) by (auto simp: lo_def hi_def)
  have "b \<in> set (L m)" using lists_holdD(2)[OF L mo] b bp by (simp add: free_pages_def)
  then obtain s' xs where e: "list_erase (klinks st) (page_link b) = Inr s'" "fl_rep s' (length (pages st)) (L(m := xs))"
    "set xs = set (L m) - {b}" "unlinked s' (page_link b)"
    using fl_erase[OF lists_holdD(1)[OF L] mo] by metis
  have "on_no_list L p" using not_on_list[OF L, of p] by simp
  then have "on_no_list (L(m := xs)) p" using on_no_listD[OF _ mo, of L p] e(3) by (intro on_no_list_upd) auto
  then have "unlinked s' (page_link p)" using e(2) p(1) by (simp add: fl_rep_def)
  then have same: "s'(page_link hi := \<lparr>ll_next = None, ll_prev = None\<rparr>) = s'"
    using e(4) by (auto simp: hi_def max_def unlinked_def fun_upd_idem_iff)
  have blk: "blocks_ok ?ps"
    by (rule merge_blocks_ok[OF ok ne(2) st0(2) lh ne(3) st0(4) mo m(2)])
  have "set ((L(m := xs)) j) = free_pages ?ps j - {lo}" if j: "j \<in> orders" for j
  proof -
    have "free_pages ?ps j - {lo} = free_pages (pages st) j - {p, b}"
      using ne st0 j bp(2) by (auto simp: free_pages_update zero_page_def)
    moreover have "j \<noteq> m \<Longrightarrow> b \<notin> free_pages (pages st) j" using b(4) by (auto simp: free_pages_def)
    ultimately show ?thesis using lists_holdD(2)[OF L j] e(3) by auto
  qed
  then have "merging (st\<lparr>klinks := s', pages := ?ps\<rparr>) (L(m := xs)) lo"
    using blk e(2) ne st0 mo m(2) by (auto simp: merging_def lists_hold_def)
  moreover have "live_blocks (st\<lparr>klinks := s', pages := ?ps\<rparr>) = live_blocks st"
  proof -
    have "live_blocks (st\<lparr>pages := ?ps\<rparr>) = live_blocks (st\<lparr>pages := (pages st)[hi := zero_page]\<rparr>)"
      using live_blocks_update[of lo "st\<lparr>pages := (pages st)[hi := zero_page]\<rparr>" "(pages st ! lo)\<lparr>ps_order := m + 1\<rparr>"] ne st0 by simp
    also have "\<dots> = live_blocks st" using ne st0 by (intro live_blocks_update) (simp_all add: zero_page_def)
    finally show ?thesis by (simp add: live_blocks_def)
  qed
  ultimately show thesis using that e(1) same unfolding lo_def hi_def by blast
qed

text \<open>
  The loop ends in a state whose block \<open>p'\<close> cannot be merged further, unless it reads the record of
  a buddy that starts just behind the last page: then the block reaches the end of the memory and
  is aligned to twice its size.
\<close>

lemma merge_loop_ok:
  assumes "merging st L p" "MAX_ORDER - ps_order (pages st ! p) \<le> fuel"
  shows "(\<exists>st' L' p'. merge_loop fuel st p = Inr (st', p') \<and> merging st' L' p' \<and> kmem st' = kmem st
            \<and> length (pages st') = length (pages st) \<and> live_blocks st' = live_blocks st)
       \<or> merge_loop fuel st p = Inl Out_Of_Bounds
         \<and> (\<exists>q m. m \<in> orders \<and> bsz (m + 1) dvd q \<and> q + bsz m = length (pages st)
              \<and> (\<forall>r \<in> live_blocks st. region r \<inter> region (q * PAGESIZE, 2 ^ m) = {}))"
  using assms
proof (induction fuel arbitrary: st L p)
  case 0
  have m: "ps_order (pages st ! p) = MAX_ORDER" and p: "p < length (pages st)"
    using 0 by (auto simp: merging_def)
  have d: "bsz MAX_ORDER dvd p" "p + bsz MAX_ORDER \<le> length (pages st)"
    using head_okD[OF blocks_okD(1)[of "pages st" p]] 0 m by (auto simp: merging_def)
  show ?case
  proof (cases "buddy_pindex p MAX_ORDER < length (pages st)")
    case True
    then have "merge_loop 0 st p = Inr (st, p)" using m p by (simp add: merge_loop.simps Let_def)
    then show ?thesis using 0(1) by blast
  next
    case False
    then have "merge_loop 0 st p = Inl Out_Of_Bounds"
      using m p by (simp add: merge_loop.simps Let_def get_page_def)
    moreover have "bsz (MAX_ORDER + 1) dvd p \<and> p + bsz MAX_ORDER = length (pages st)"
      using d(1) by (rule buddy_cases[rotated]) (use False d(2) p in auto)
    ultimately show ?thesis using merging_apart[OF 0(1)] m
      by (intro disjI2 conjI exI[of _ p] exI[of _ MAX_ORDER]) simp_all
  qed
next
  case (Suc fuel)
  define m where "m = ps_order (pages st ! p)"
  have m: "m \<in> orders" and p: "p < length (pages st)" and ok: "blocks_ok (pages st)"
    using Suc.prems by (auto simp: merging_def m_def)
  have d: "bsz m dvd p" "p + bsz m \<le> length (pages st)"
    using head_okD[OF blocks_okD(1)[OF ok p]] m by (auto simp: m_def)
  define b where "b = buddy_pindex p m"
  note run = merge_loop.simps[of "Suc fuel" st p, unfolded Let_def]
  show ?case
  proof (cases "b < length (pages st)")
    case False
    then have "merge_loop (Suc fuel) st p = Inl Out_Of_Bounds"
      using p by (simp add: run get_page_def m_def[symmetric] b_def)
    moreover have "bsz (m + 1) dvd p \<and> p + bsz m = length (pages st)"
      using m d(1) by (rule buddy_cases) (use False d(2) p b_def in auto)
    ultimately show ?thesis using m merging_apart[OF Suc.prems(1)]
      by (intro disjI2 conjI exI[of _ p] exI[of _ m]) (simp_all add: m_def[symmetric])
  next
    case True
    show ?thesis
    proof (cases "ps_allocated (pages st ! b) \<or> ps_order (pages st ! b) \<noteq> m \<or> m = MAX_ORDER")
      case stop: True
      then have "merge_loop (Suc fuel) st p = Inr (st, p)"
        using p True by (simp add: run m_def[symmetric] b_def[symmetric])
      then show ?thesis using Suc.prems(1) by blast
    next
      case False
      let ?ps = "(pages st)[max p b := zero_page, min p b := (pages st ! min p b)\<lparr>ps_order := m + 1\<rparr>]"
      obtain s' L' where s: "list_erase (klinks st) (page_link b) = Inr s'"
        "s'(page_link (max p b) := \<lparr>ll_next = None, ll_prev = None\<rparr>) = s'"
        "merging (st\<lparr>klinks := s', pages := ?ps\<rparr>) L' (min p b)"
        "live_blocks (st\<lparr>klinks := s', pages := ?ps\<rparr>) = live_blocks st"
        using merge_step[OF Suc.prems(1) m_def[symmetric] _ b_def True] False by metis
      have bp: "b \<noteq> p" using m d(1) by (rule buddy_cases) (use b_def in \<open>auto intro: less_imp_neq\<close>)
      have lo: "min p b < length (pages st)" "min p b \<noteq> max p b" "ps_order (pages st ! min p b) = m"
        using True p bp False by (auto simp: min_def max_def m_def)
      have "merge_loop (Suc fuel) st p = merge_loop fuel (st\<lparr>klinks := s', pages := ?ps\<rparr>) (min p b)"
        using p True False m s(1,2) lo by (simp add: run m_def[symmetric] b_def[symmetric])
      moreover have "MAX_ORDER - ps_order (?ps ! min p b) \<le> fuel"
        using Suc.prems(2) lo m by (simp add: m_def[symmetric])
      ultimately show ?thesis using Suc.IH[of "st\<lparr>klinks := s', pages := ?ps\<rparr>" L' "min p b"] s(3,4) by simp
    qed
  qed
qed

lemma live_blocks_free:
  assumes "p < length (pages st)" "ps_allocated (pages st ! p)"
  shows "live_blocks (st\<lparr>pages := (pages st)[p := (pages st ! p)\<lparr>ps_allocated := False\<rparr>]\<rparr>) =
    live_blocks st - {(p * PAGESIZE, 2 ^ ps_order (pages st ! p))}"
proof -
  let ?ps = "(pages st)[p := (pages st ! p)\<lparr>ps_allocated := False\<rparr>]"
  have o: "ps_order (?ps ! q) = ps_order (pages st ! q)" for q using assms by (cases "q = p") simp_all
  have "{q. q < length (pages st) \<and> ps_allocated (?ps ! q)} = {q. q < length (pages st) \<and> ps_allocated (pages st ! q)} - {p}"
    using assms by (auto simp: nth_list_update)
  moreover have "inj (\<lambda>q. (q * PAGESIZE, (2::nat) ^ ps_order (pages st ! q)))" by (rule injI) simp
  ultimately show ?thesis by (simp add: live_blocks_def o image_set_diff)
qed

lemma push_merged:
  assumes mg: "merging st L p"
  obtains s' where "push_free st (ps_order (pages st ! p)) p = Inr (st\<lparr>klinks := s'\<rparr>)" "kalloc_inv (st\<lparr>klinks := s'\<rparr>)"
proof -
  define m where "m = ps_order (pages st ! p)"
  have ok: "blocks_ok (pages st)" and L: "lists_hold st L {p}" and p: "p \<in> free_pages (pages st) m" and mo: "m \<in> orders"
    using mg by (auto simp: merging_def free_pages_def m_def)
  have "on_no_list L p" using not_on_list[OF L, of p] by simp
  then obtain s' where s': "push_free st m p = Inr (st\<lparr>klinks := s'\<rparr>)" "fl_rep s' (length (pages st)) (L(m := L m @ [p]))"
    using fl_push[OF lists_holdD(1)[OF L] mo] p by (auto simp: free_pages_def)
  have "set ((L(m := L m @ [p])) j) = free_pages (pages st) j" if "j \<in> orders" for j
    using lists_holdD(2)[OF L that] p by (cases "j = m") (auto simp: free_pages_def)
  then have "kalloc_inv (st\<lparr>klinks := s'\<rparr>)"
    using ok s'(2) by (auto simp: kalloc_inv_def lists_hold_def)
  then show thesis using that s'(1) by (simp add: m_def)
qed

lemma kfree_ok:
  assumes inv: "kalloc_inv st" and p: "p < length (pages st)" "ps_allocated (pages st ! p)"
  shows "(\<exists>st'. kfree st (Some (p * PAGESIZE)) = Inr st' \<and> kalloc_inv st' \<and> length (pages st') = length (pages st)
            \<and> live_blocks st' = live_blocks st - {(p * PAGESIZE, 2 ^ ps_order (pages st ! p))}
            \<and> kmem st' = mem_zero (kmem st) (p * PAGESIZE) (2 ^ ps_order (pages st ! p)))
       \<or> kfree st (Some (p * PAGESIZE)) = Inl Out_Of_Bounds
         \<and> (\<exists>q m. m \<in> orders \<and> bsz (m + 1) dvd q \<and> q + bsz m = length (pages st)
              \<and> (\<forall>r \<in> live_blocks st - {(p * PAGESIZE, 2 ^ ps_order (pages st ! p))}.
                    region r \<inter> region (q * PAGESIZE, 2 ^ m) = {}))"
proof -
  obtain L where ok: "blocks_ok (pages st)" and L: "lists_hold st L {}" using inv by (auto simp: kalloc_inv_def)
  have o: "ps_order (pages st ! p) \<noteq> 0" using allocated_order[OF ok p] .
  then have oo: "ps_order (pages st ! p) \<in> orders" using head_okD(1)[OF blocks_okD(1)[OF ok p(1)]] by simp
  let ?ps = "(pages st)[p := (pages st ! p)\<lparr>ps_allocated := False\<rparr>]"
  let ?mem = "mem_zero (kmem st) (p * PAGESIZE) (2 ^ ps_order (pages st ! p))"
  define st2 where "st2 = st\<lparr>pages := ?ps, kmem := ?mem\<rparr>"
  have pf: "p \<notin> free_pages (pages st) j" for j using p(2) by (simp add: free_pages_def)
  have "free_pages ?ps j - {p} = free_pages (pages st) j" for j
    using p pf[of j] by (auto simp: free_pages_update)
  then have mg: "merging st2 L p"
    using ok L p oo blocks_ok_alloc[OF ok p(1) o, of False] by (simp add: merging_def lists_hold_def st2_def)
  have fu: "MAX_ORDER - ps_order (pages st2 ! p) \<le> MAX_ORDER - MIN_ORDER" using oo p(1) by (auto simp: st2_def)
  have run: "kfree st (Some (p * PAGESIZE)) = rbind (merge_loop (MAX_ORDER - MIN_ORDER) st2 p) (\<lambda>(st3, q).
      rbind (get_page st3 q) (\<lambda>pg. push_free st3 (ps_order pg) q))"
    using p by (simp add: kfree_def Let_def st2_def region_def)
  have live: "live_blocks st2 = live_blocks st - {(p * PAGESIZE, 2 ^ ps_order (pages st ! p))}"
    using live_blocks_free[OF p] by (simp add: st2_def live_blocks_def)
  from merge_loop_ok[OF mg fu] show ?thesis
  proof (elim disjE exE conjE)
    fix st3 L' q
    assume m: "merge_loop (MAX_ORDER - MIN_ORDER) st2 p = Inr (st3, q)" "merging st3 L' q" "kmem st3 = kmem st2"
      "length (pages st3) = length (pages st2)" "live_blocks st3 = live_blocks st2"
    obtain s' where s': "push_free st3 (ps_order (pages st3 ! q)) q = Inr (st3\<lparr>klinks := s'\<rparr>)" "kalloc_inv (st3\<lparr>klinks := s'\<rparr>)"
      using push_merged[OF m(2)] .
    have "q < length (pages st3)" using m(2) by (simp add: merging_def)
    then have "kfree st (Some (p * PAGESIZE)) = Inr (st3\<lparr>klinks := s'\<rparr>)" using run m(1) s'(1) by simp
    then show ?thesis using s'(2) m(3-5) live by (intro disjI1 exI[of _ "st3\<lparr>klinks := s'\<rparr>"]) (simp add: st2_def)
  next
    fix q m
    assume "merge_loop (MAX_ORDER - MIN_ORDER) st2 p = Inl Out_Of_Bounds" "m \<in> orders" "bsz (m + 1) dvd q"
      "q + bsz m = length (pages st2)" "\<forall>r \<in> live_blocks st2. region r \<inter> region (q * PAGESIZE, 2 ^ m) = {}"
    then show ?thesis using run unfolding live by (intro disjI2 conjI exI[of _ q] exI[of _ m]) (simp_all add: st2_def)
  qed
qed

section \<open>Sizes\<close>

lemma msb_nat_bounds: "n < 2 ^ msb_nat n \<and> (0 < n \<longrightarrow> 2 ^ (msb_nat n - 1) \<le> n)"
proof (induction n rule: msb_nat.induct)
  case (1 n)
  show ?case
  proof (cases "n = 0")
    case True
    then show ?thesis by simp
  next
    case False
    then have s: "msb_nat n = Suc (msb_nat (n div 2))" by (subst msb_nat.simps) simp
    have ih: "n div 2 < 2 ^ msb_nat (n div 2)" "0 < n div 2 \<longrightarrow> 2 ^ (msb_nat (n div 2) - 1) \<le> n div 2"
      using 1 False by auto
    have "2 ^ msb_nat (n div 2) \<le> n"
    proof (cases "n div 2 = 0")
      case True
      then show ?thesis using False by (simp add: msb_nat.simps)
    next
      case f: False
      then have "msb_nat (n div 2) \<noteq> 0" by (simp add: msb_nat.simps[of "n div 2"])
      then have "(2::nat) ^ msb_nat (n div 2) = 2 * 2 ^ (msb_nat (n div 2) - 1)" by (simp add: power_eq_if)
      also have "\<dots> \<le> 2 * (n div 2)" using ih(2) f by simp
      finally show ?thesis by simp
    qed
    then show ?thesis using ih(1) s by simp
  qed
qed

text \<open>A request below 4 GiB gets the smallest order that fits it.\<close>

lemma kalloc_order_fits:
  assumes "unat sz < 2 ^ 32" "0 < sz"
  shows "unat sz \<le> 2 ^ kalloc_order sz"
    and "kalloc_order sz = MIN_ORDER \<or> 2 ^ (kalloc_order sz - 1) < unat sz"
proof -
  define n where "n = unat (max sz (2 ^ MIN_ORDER :: u64))"
  have n: "n = max (unat sz) 4096" "n < 2 ^ 32"
    using assms(1) by (auto simp: n_def max_def word_le_nat_alt)
  define o1 where "o1 = order_of (ucast (max sz (2 ^ MIN_ORDER :: u64)))"
  have uc: "unat (ucast (max sz (2 ^ MIN_ORDER :: u64)) :: u32) = n"
    using n(2) by (simp add: unsigned_ucast_eq n_def take_bit_nat_eq_self_iff)
  then have "o1 = msb_nat (n - 1)"
    using n(1) by (auto simp: o1_def order_of_def unat_minus_one)
  moreover have "4096 \<le> n" using n(1) by simp
  ultimately have b: "n \<le> 2 ^ o1" "2 ^ (o1 - 1) < n" using msb_nat_bounds[of "n - 1"] by auto
  have k: "kalloc_order sz = (if o1 < MIN_ORDER then MIN_ORDER else o1)"
    by (simp add: kalloc_order_def o1_def Let_def)
  show "unat sz \<le> 2 ^ kalloc_order sz"
  proof (cases "o1 < MIN_ORDER")
    case True
    then have "(2::nat) ^ o1 \<le> 2 ^ MIN_ORDER" by (intro power_increasing) simp_all
    then show ?thesis using k True b(1) n(1) by simp
  next
    case False
    then show ?thesis using k b(1) n(1) by simp
  qed
  show "kalloc_order sz = MIN_ORDER \<or> 2 ^ (kalloc_order sz - 1) < unat sz"
  proof (cases "kalloc_order sz = MIN_ORDER")
    case False
    then have "MIN_ORDER < o1" using k by (auto split: if_splits)
    then have "(2::nat) ^ MIN_ORDER \<le> 2 ^ (o1 - 1)" by (intro power_increasing) simp_all
    then show ?thesis using k \<open>MIN_ORDER < o1\<close> b(2) n(1) by simp
  qed simp
qed

section \<open>The runtime check\<close>

lemma next_block_head:
  assumes ok: "blocks_ok ps" and p: "p < length ps" "ps_order (ps ! p) \<noteq> 0"
    and q: "q = p + bsz (ps_order (ps ! p))" "q < length ps"
  shows "ps_order (ps ! q) \<noteq> 0"
proof
  assume "ps_order (ps ! q) = 0"
  then obtain h where h: "h < q" "ps_order (ps ! h) \<noteq> 0" "q < h + bsz (ps_order (ps ! h))"
    using blocks_okD(2)[OF ok q(2)] by (auto elim: inner_okE)
  have hp: "head_ok ps p" and hh: "head_ok ps h" using blocks_okD(1)[OF ok] p h q(2) by simp_all
  consider "h < p" | "h = p" | "p < h" by linarith
  then show False
  proof cases
    case 1
    then show ?thesis using head_inner[OF hh, of p] p h q(1) by simp
  next
    case 2
    then show ?thesis using h(3) q(1) by simp
  next
    case 3
    then show ?thesis using head_inner[OF hp, of h] h q(1) by simp
  qed
qed

lemma check_pages_ok:
  assumes ok: "blocks_ok (pages st)" and p: "p < length (pages st) \<Longrightarrow> ps_order (pages st ! p) \<noteq> 0"
  shows "check_pages_from st (p * PAGESIZE)"
  using p
proof (induction "length (pages st) - p" arbitrary: p rule: less_induct)
  case less
  show ?case
  proof (cases "p < length (pages st)")
    case False
    then show ?thesis by (simp add: check_pages_from.simps)
  next
    case True
    have o: "ps_order (pages st ! p) \<noteq> 0" using less True by simp
    define m where "m = ps_order (pages st ! p)"
    note hd = head_okD[OF blocks_okD(1)[OF ok True o], folded m_def]
    have sz: "(2::nat) ^ m = bsz m * PAGESIZE" using bsz_page[of m] hd(1) by simp
    have "check_pages_from st ((p + bsz m) * PAGESIZE)"
      by (rule less(1)) (use True next_block_head[OF ok True o] in \<open>simp_all add: m_def diff_less_mono2\<close>)
    then have "check_pages_from st (p * PAGESIZE + 2 ^ m)" by (simp add: sz distrib_right)
    moreover have "p * PAGESIZE mod 2 ^ m = 0" using hd(3) by (auto simp: sz)
    ultimately show ?thesis
      using hd(1,2) True by (subst check_pages_from.simps) (simp add: Let_def m_def[symmetric])
  qed
qed

section \<open>The contract of an allocator\<close>

text \<open>
  What the rest of the kernel relies on: regions handed out are fresh and disjoint from every live
  region, and a region stays live until it is freed.  The client lemmas are about arbitrary
  sequences of calls.
\<close>

datatype 'z alloc_call = Alloc 'z | Free "nat option"

fun run_calls :: "('s \<Rightarrow> 'z \<Rightarrow> ('s \<times> nat option) res) \<Rightarrow> ('s \<Rightarrow> nat option \<Rightarrow> 's res)
    \<Rightarrow> 's \<Rightarrow> 'z alloc_call list \<Rightarrow> 's res" where
  "run_calls al fr s [] = Inr s"
| "run_calls al fr s (Alloc z # cs) = rbind (al s z) (\<lambda>(s', _). run_calls al fr s' cs)"
| "run_calls al fr s (Free p # cs) = rbind (fr s p) (\<lambda>s'. run_calls al fr s' cs)"

locale region_allocator =
  fixes inv :: "'s \<Rightarrow> bool" and live :: "'s \<Rightarrow> (nat \<times> nat) set"
    and al :: "'s \<Rightarrow> 'z \<Rightarrow> ('s \<times> nat option) res" and fr :: "'s \<Rightarrow> nat option \<Rightarrow> 's res"
  assumes live_disjoint: "inv s \<Longrightarrow> r \<in> live s \<Longrightarrow> r' \<in> live s \<Longrightarrow> r \<noteq> r' \<Longrightarrow> region r \<inter> region r' = {}"
    and al_ok: "inv s \<Longrightarrow> \<exists>s' p. al s z = Inr (s', p) \<and> inv s'
      \<and> (case p of None \<Rightarrow> s' = s | Some a \<Rightarrow> \<exists>n. (a, n) \<notin> live s \<and> live s' = insert (a, n) (live s))"
    and fr_ok: "inv s \<Longrightarrow> fr s p = Inr s' \<Longrightarrow> inv s' \<and> (live s' = live s \<or> (\<exists>r \<in> live s. p = Some (fst r) \<and> live s' = live s - {r}))"
begin

lemma al_disjoint:
  assumes "inv s" "al s z = Inr (s', Some a)"
  shows "\<exists>n. (a, n) \<in> live s' \<and> (\<forall>r \<in> live s. region r \<inter> region (a, n) = {})"
proof -
  obtain n where n: "(a, n) \<notin> live s" "live s' = insert (a, n) (live s)" "inv s'"
    using al_ok[OF assms(1), of z] assms(2) by auto
  then have "region r \<inter> region (a, n) = {}" if "r \<in> live s" for r
    using live_disjoint[OF n(3), of r "(a, n)"] that by auto
  then show ?thesis using n(2) by blast
qed

lemma run_keeps:
  assumes "inv s" "run_calls al fr s cs = Inr s'"
  shows "inv s' \<and> {r \<in> live s. Free (Some (fst r)) \<notin> set cs} \<subseteq> live s'"
  using assms
proof (induction cs arbitrary: s)
  case Nil
  then show ?case by auto
next
  case (Cons c cs)
  show ?case
  proof (cases c)
    case (Alloc z)
    obtain s1 p where s1: "al s z = Inr (s1, p)" "inv s1" "live s \<subseteq> live s1"
      using al_ok[OF Cons.prems(1), of z] by (auto split: option.splits)
    then have "inv s' \<and> {r \<in> live s1. Free (Some (fst r)) \<notin> set cs} \<subseteq> live s'"
      using Cons.IH[of s1] Cons.prems(2) Alloc by simp
    then show ?thesis using s1(3) by auto
  next
    case (Free p)
    obtain s1 where s1: "fr s p = Inr s1" "run_calls al fr s1 cs = Inr s'"
      using Cons.prems(2) Free by (auto simp: rbind_eq_Inr)
    note f = fr_ok[OF Cons.prems(1) s1(1)]
    then have "inv s' \<and> {r \<in> live s1. Free (Some (fst r)) \<notin> set cs} \<subseteq> live s'"
      using Cons.IH[of s1] s1(2) by simp
    then show ?thesis using f Free by auto
  qed
qed

end

lemma kalloc_live_disjoint:
  assumes inv: "kalloc_inv st" and r: "r \<in> live_blocks st" "r' \<in> live_blocks st" "r \<noteq> r'"
  shows "region r \<inter> region r' = {}"
proof -
  have ok: "blocks_ok (pages st)" using inv by (auto simp: kalloc_inv_def)
  obtain p q where p: "p < length (pages st)" "ps_allocated (pages st ! p)" "r = (p * PAGESIZE, 2 ^ ps_order (pages st ! p))"
    and q: "q < length (pages st)" "ps_allocated (pages st ! q)" "r' = (q * PAGESIZE, 2 ^ ps_order (pages st ! q))"
    using r(1,2) by (auto simp: live_blocks_def)
  have "ps_order (pages st ! p) \<noteq> 0" "ps_order (pages st ! q) \<noteq> 0"
    using allocated_order[OF ok] p q by simp_all
  then show ?thesis using regions_disjoint[OF ok] p q r(3) by auto
qed

lemma kalloc_total:
  assumes "kalloc_inv st"
  shows "\<exists>st' p. kalloc st sz = Inr (st', p) \<and> kalloc_inv st'
    \<and> (case p of None \<Rightarrow> st' = st | Some a \<Rightarrow> \<exists>n. (a, n) \<notin> live_blocks st \<and> live_blocks st' = insert (a, n) (live_blocks st))"
proof (cases "sz = 0 \<or> kalloc_order sz > MAX_ORDER")
  case True
  then have "kalloc st sz = Inr (st, None)" by (auto simp: kalloc_def Let_def)
  then show ?thesis using assms by auto
next
  case False
  then have "sz \<noteq> 0" "kalloc_order sz \<le> MAX_ORDER" by auto
  with assms show ?thesis
  proof (cases rule: kalloc_ok)
    case none
    then show ?thesis using assms by auto
  next
    case (some st' p)
    then show ?thesis by (intro exI[of _ st'] exI[of _ "Some (p * PAGESIZE)"]) auto
  qed
qed

lemma kfree_law:
  assumes inv: "kalloc_inv st" and r: "kfree st ptr = Inr st'"
  shows "kalloc_inv st' \<and> (live_blocks st' = live_blocks st
    \<or> (\<exists>r \<in> live_blocks st. ptr = Some (fst r) \<and> live_blocks st' = live_blocks st - {r}))"
proof (cases ptr)
  case None
  then show ?thesis using assms by (simp add: kfree_def)
next
  case (Some pa)
  then obtain p where pa: "pa = p * PAGESIZE" and p: "p < length (pages st)"
    using r by (auto simp: kfree_def Let_def assert_then_eq_Inr rbind_eq_Inr get_page_def split: if_splits)
  show ?thesis
  proof (cases "ps_allocated (pages st ! p)")
    case False
    then have "st' = st" using r Some pa p by (simp add: kfree_def Let_def)
    then show ?thesis using inv by simp
  next
    case True
    then have "(p * PAGESIZE, 2 ^ ps_order (pages st ! p)) \<in> live_blocks st" using p by (auto simp: live_blocks_def)
    moreover have "kalloc_inv st' \<and> live_blocks st' = live_blocks st - {(p * PAGESIZE, 2 ^ ps_order (pages st ! p))}"
      using kfree_ok[OF inv p True] r Some pa by auto
    ultimately show ?thesis using Some pa by fastforce
  qed
qed

interpretation kernel_heap: region_allocator kalloc_inv live_blocks kalloc kfree
  by unfold_locales (simp_all add: kalloc_live_disjoint kalloc_total kfree_law)

section \<open>Properties\<close>

text \<open>
  A memory of four pages: page 0 is allocated, page 1 is free, and pages 2 and 3 form an allocated
  block of order 13.
\<close>

definition heap4 :: kalloc_state where
  "heap4 = \<lparr>pages = [\<lparr>ps_order = 12, ps_pindex = 0, ps_allocated = True\<rparr>,
                     \<lparr>ps_order = 12, ps_pindex = 1, ps_allocated = False\<rparr>,
                     \<lparr>ps_order = 13, ps_pindex = 2, ps_allocated = True\<rparr>, zero_page],
            klinks = (\<lambda>a. if a = 0 then \<lparr>ll_next = Some 14, ll_prev = Some 14\<rparr>
                      else if a = 14 then \<lparr>ll_next = Some 0, ll_prev = Some 0\<rparr>
                      else if a < 13 then \<lparr>ll_next = Some a, ll_prev = Some a\<rparr>
                      else \<lparr>ll_next = None, ll_prev = None\<rparr>),
            kmem = (\<lambda>_. 7)\<rparr>"

lemma heap4_pages:
  "length (pages heap4) = 4" "pages heap4 ! 0 = \<lparr>ps_order = 12, ps_pindex = 0, ps_allocated = True\<rparr>"
  "pages heap4 ! Suc 0 = \<lparr>ps_order = 12, ps_pindex = 1, ps_allocated = False\<rparr>"
  "pages heap4 ! 2 = \<lparr>ps_order = 13, ps_pindex = 2, ps_allocated = True\<rparr>" "pages heap4 ! 3 = zero_page"
  by (simp_all add: heap4_def)

lemma less_4_cases: "(p::nat) < 4 \<longleftrightarrow> p = 0 \<or> p = Suc 0 \<or> p = 2 \<or> p = 3"
  by auto

lemma heap4_inv: "kalloc_inv heap4"
proof -
  have b: "bsz 12 = 1" "bsz 13 = 2" by (simp_all add: bsz_def)
  have "ps_order (pages heap4 ! q) = 0" if "2 < q" "q < 4" for q
    using that by (cases "q = 3") (simp_all add: heap4_pages zero_page_def)
  then have "head_ok (pages heap4) 0" "head_ok (pages heap4) (Suc 0)" "head_ok (pages heap4) 2"
    by (auto simp: head_ok_def heap4_pages b zero_page_def)
  moreover have "inner_ok (pages heap4) 3"
    by (rule inner_okI[of _ _ 2]) (simp_all add: heap4_pages b zero_page_def)
  ultimately have "blocks_ok (pages heap4)"
    by (auto simp: blocks_ok_def heap4_pages less_4_cases zero_page_def)
  moreover have "lists_hold heap4 (\<lambda>m. if m = 12 then [1] else []) {}"
  proof -
    have f: "free_pages (pages heap4) m = (if m = 12 then {1} else if m = 0 then {3} else {})" for m
      unfolding free_pages_def heap4_pages(1) less_4_cases conj_disj_distribR Collect_disj_eq Collect_conv_if
      by (auto simp: heap4_pages zero_page_def)
    have l: "is_list (klinks heap4) (fl_head m) (map page_link (if m = 12 then [1] else []))" if "m \<in> orders" for m
      using that by (auto simp: is_list_def heap4_def fl_head_def page_link_def)
    have "unlinked (klinks heap4) (page_link p)" if "p \<noteq> Suc 0" for p
      using that by (auto simp: unlinked_def heap4_def page_link_def)
    then have "fl_rep (klinks heap4) 4 (\<lambda>m. if m = 12 then [1] else [])"
      using l by (auto simp: fl_rep_def on_no_list_def)
    then show ?thesis by (auto simp: lists_hold_def f heap4_pages(1))
  qed
  ultimately show ?thesis by (auto simp: kalloc_inv_def)
qed

lemma kalloc_order_big:
  assumes "unat sz < 2 ^ 32" "0 < sz" "kalloc_order sz > MAX_ORDER"
  shows "2 ^ MAX_ORDER < unat sz"
proof -
  have "(2::nat) ^ MAX_ORDER \<le> 2 ^ (kalloc_order sz - 1)" using assms(3) by (intro power_increasing) simp_all
  then show ?thesis using kalloc_order_fits(2)[OF assms(1,2)] assms(3) by simp
qed

lemma fitting_block_order:
  assumes sz: "unat sz < 2 ^ 32" "0 < sz" and inv: "kalloc_inv st"
    and p: "p < length (pages st)" "unat sz \<le> 2 ^ ps_order (pages st ! p)" "ps_order (pages st ! p) \<noteq> 0"
  shows "kalloc_order sz \<le> ps_order (pages st ! p)"
proof (rule ccontr)
  assume f: "\<not> kalloc_order sz \<le> ps_order (pages st ! p)"
  have "MIN_ORDER \<le> ps_order (pages st ! p)"
    using head_okD(1)[OF blocks_okD(1)[OF _ p(1,3)]] inv by (auto simp: kalloc_inv_def)
  then have "2 ^ (kalloc_order sz - 1) < unat sz" using f kalloc_order_fits(2)[OF sz] by auto
  moreover have "(2::nat) ^ ps_order (pages st ! p) \<le> 2 ^ (kalloc_order sz - 1)"
    using f by (intro power_increasing) simp_all
  ultimately show False using p(2) by linarith
qed

lemma live_block_placed:
  assumes ok: "blocks_ok (pages st)" and p: "p < length (pages st)" "ps_allocated (pages st ! p)"
  shows "2 ^ ps_order (pages st ! p) dvd p * PAGESIZE"
    and "p * PAGESIZE + 2 ^ ps_order (pages st ! p) \<le> length (pages st) * PAGESIZE"
proof -
  note hd = head_okD[OF blocks_okD(1)[OF ok p(1) allocated_order[OF ok p]]]
  have sz: "(2::nat) ^ ps_order (pages st ! p) = bsz (ps_order (pages st ! p)) * PAGESIZE" using bsz_page hd(1) by simp
  show "2 ^ ps_order (pages st ! p) dvd p * PAGESIZE" using hd(3) by (simp add: sz)
  show "p * PAGESIZE + 2 ^ ps_order (pages st ! p) \<le> length (pages st) * PAGESIZE"
    unfolding sz distrib_right[symmetric] by (rule mult_le_mono1[OF hd(4)])
qed

text \<open>
  C1: \<open>kalloc(sz)\<close> always returns and keeps the invariant.  For \<open>0 < sz < 2^32\<close>: if it returns a
  pointer, the pointer names a new block inside the memory, of at least \<open>sz\<close> bytes, aligned to its
  own size and disjoint from every block handed out before, and all other blocks and the memory
  contents are as they were; it returns null, changing nothing, only when the request exceeds the
  largest order or no free block is large enough.
\<close>

theorem kalloc_correct:
  assumes "kalloc_inv st" "0 < sz" "unat sz < 2 ^ 32"
  shows "\<exists>st' ptr. kalloc st sz = Inr (st', ptr) \<and> kalloc_inv st' \<and> kmem st' = kmem st
    \<and> (case ptr of
         None \<Rightarrow> st' = st \<and> (2 ^ MAX_ORDER < unat sz \<or>
           (\<forall>p < length (pages st). unat sz \<le> 2 ^ ps_order (pages st ! p) \<longrightarrow> ps_allocated (pages st ! p) \<or> ps_order (pages st ! p) = 0))
       | Some a \<Rightarrow> \<exists>n. unat sz \<le> n \<and> n dvd a \<and> a + n \<le> length (pages st) * PAGESIZE
           \<and> live_blocks st' = insert (a, n) (live_blocks st)
           \<and> (\<forall>r \<in> live_blocks st. region r \<inter> region (a, n) = {}))"
proof (cases "kalloc_order sz > MAX_ORDER")
  case True
  then have "kalloc st sz = Inr (st, None)" by (simp add: kalloc_def Let_def)
  then show ?thesis using assms(1) kalloc_order_big[OF assms(3,2) True] by simp
next
  case False
  then have "sz \<noteq> 0" "kalloc_order sz \<le> MAX_ORDER" using assms(2) by auto
  with assms(1) show ?thesis
  proof (cases rule: kalloc_ok[of st sz])
    case none
    then show ?thesis using fitting_block_order[OF assms(3,2,1)] assms(1) by auto
  next
    case (some st' p)
    have ok: "blocks_ok (pages st')" using some(2) by (auto simp: kalloc_inv_def)
    note pl = live_block_placed[OF ok some(4,6), unfolded some(5,9)]
    have "region r \<inter> region (p * PAGESIZE, 2 ^ kalloc_order sz) = {}" if "r \<in> live_blocks st" for r
      using kalloc_live_disjoint[OF some(2), of r "(p * PAGESIZE, 2 ^ kalloc_order sz)"] some(3,7) that by auto
    then show ?thesis
      using some(1-3,8) pl kalloc_order_fits(1)[OF assms(3,2)]
      by (intro exI[of _ st'] exI[of _ "Some (p * PAGESIZE)"]) (auto intro!: exI[of _ "2 ^ kalloc_order sz"])
  qed
qed

theorem kalloc_correct_witness:
  "\<exists>st' ptr. kalloc heap4 100 = Inr (st', ptr) \<and> kalloc_inv st'"
  using kalloc_correct[OF heap4_inv, of 100] by (auto simp: word_less_nat_alt)





text \<open>in every state that satisfies the invariant the assertions of \<open>check_pages_invariants\<close>,
  which \<open>test_kalloc\<close> runs after each operation, all hold.\<close>

theorem check_pages_invariants_holds:
  assumes "kalloc_inv st"
  shows "check_pages_invariants st"
proof -
  have ok: "blocks_ok (pages st)" using assms by (auto simp: kalloc_inv_def)
  have "ps_order (pages st ! 0) \<noteq> 0" if "0 < length (pages st)"
    using blocks_okD(2)[OF ok that] by (auto simp: inner_ok_def)
  then show ?thesis using check_pages_ok[OF ok, of 0] by (simp add: check_pages_invariants_def)
qed

theorem check_pages_invariants_holds_witness: "kalloc_inv heap4 \<and> check_pages_invariants heap4"
  using check_pages_invariants_holds[OF heap4_inv] heap4_inv by simp

text \<open>
  requests of 4 GiB and above are truncated to 32 bits when the order is computed: a request
  of exactly \<open>2^32 * k\<close> bytes is served from the same order as one page, so whenever a free block
  exists the pointer returned names far less memory than was asked for.
\<close>

theorem kalloc_truncates_size:
  assumes "kalloc_inv st" "unat sz = 2 ^ 32 * k" "0 < k"
    and "p < length (pages st)" "ps_order (pages st ! p) \<noteq> 0" "\<not> ps_allocated (pages st ! p)"
  shows "\<exists>st' a. kalloc st sz = Inr (st', Some a) \<and> live_blocks st' = insert (a, 2 ^ MIN_ORDER) (live_blocks st)"
proof -
  have gt: "max sz (2 ^ MIN_ORDER) = sz" using assms(2,3) by (simp add: max_def word_le_nat_alt)
  have "unat (ucast sz :: u32) = 0" by (simp add: unsigned_ucast_eq assms(2) take_bit_eq_mod)
  then have "ucast sz = (0 :: u32)" by (simp only: unsigned_eq_0_iff)
  then have m: "kalloc_order sz = MIN_ORDER"
    unfolding kalloc_order_def gt Let_def by (simp add: order_of_def)
  have nz: "sz \<noteq> 0" using assms(2,3) by auto
  have "MIN_ORDER \<le> ps_order (pages st ! p)"
    using head_okD(1)[OF blocks_okD(1)[OF _ assms(4,5)]] assms(1) by (auto simp: kalloc_inv_def)
  with assms(1) nz m show ?thesis
    by (elim kalloc_ok[of st sz]) (use assms(4,6) m in auto)
qed

theorem kalloc_truncates_size_witness:
  "\<exists>st' a. kalloc heap4 (2 ^ 32) = Inr (st', Some a) \<and> live_blocks st' = insert (a, 4096) (live_blocks heap4)"
  using kalloc_truncates_size[OF heap4_inv, of "2 ^ 32" 1 1] by (simp add: heap4_pages)

text \<open>
  with the configured 30 MiB of memory (7680 pages) the block of order 21 at page 7168 is the
  last one; freeing it makes \<open>kfree\<close> read \<open>pages[7680]\<close>, one past the end of the array, whatever
  the rest of the state is.
\<close>

theorem kfree_reads_past_pages:
  assumes "length (pages st) = 30 * 1024 * 1024 div PAGESIZE"
    and "pages st ! 7168 = \<lparr>ps_order = 21, ps_pindex = 7168, ps_allocated = True\<rparr>"
  shows "buddy_pindex 7168 21 = length (pages st)
    \<and> kfree st (Some (7168 * PAGESIZE)) = Inl Out_Of_Bounds"
proof -
  have "buddy_pindex 7168 21 = 7680" by (simp add: buddy_pindex_def)
  then show ?thesis
    using assms by (simp add: kfree_def Let_def merge_loop.simps get_page_def)
qed

theorem kfree_reads_past_pages_witness:
  "kfree \<lparr>pages = (replicate 7680 zero_page)[7168 := \<lparr>ps_order = 21, ps_pindex = 7168, ps_allocated = True\<rparr>],
     klinks = nulls, kmem = (\<lambda>_. 0)\<rparr> (Some 29360128) = Inl Out_Of_Bounds"
  using kfree_reads_past_pages[of "\<lparr>pages = (replicate 7680 zero_page)[7168 := \<lparr>ps_order = 21, ps_pindex = 7168, ps_allocated = True\<rparr>],
     klinks = nulls, kmem = (\<lambda>_. 0)\<rparr>"] by simp

end
