(* ===== verification/Memrange.thy ===== *)
theory Memrange
  imports Kernel_Prelude
begin

text \<open>
  The \<open>memrangeset\<close> template of \<open>k-memrange.hh\<close>, which records the type of every physical
  address range and from which the page allocator is initialised.  A set is an array \<open>r_\<close> of
  \<open>maxsize + 1\<close> entries of which the first \<open>n_\<close> are ranges; entry \<open>n_\<close> holds the limit.  The
  main result is that \<open>set\<close> implements the update of a function from addresses to types.
\<close>

section \<open>Data\<close>

record memrange =
  mr_addr :: nat
  mr_type :: int

record memrangeset =
  mrs_n :: nat
  mrs_r :: "memrange list"

text \<open>The constructor writes three fields; the rest of the array \<open>r0\<close> stays as it was.\<close>

definition mrs_init :: "memrange list \<Rightarrow> nat \<Rightarrow> memrangeset" where
  "mrs_init r0 lim =
     \<lparr>mrs_n = 1,
      mrs_r = r0[0 := \<lparr>mr_addr = 0, mr_type = 0\<rparr>, 1 := (r0 ! 1)\<lparr>mr_addr := lim\<rparr>]\<rparr>"

definition mrs_limit :: "memrangeset \<Rightarrow> nat" where
  "mrs_limit m = mr_addr (mrs_r m ! mrs_n m)"

definition mrs_first :: "memrangeset \<Rightarrow> nat \<Rightarrow> nat" where
  "mrs_first m i = mr_addr (mrs_r m ! i)"

definition mrs_last :: "memrangeset \<Rightarrow> nat \<Rightarrow> nat" where
  "mrs_last m i = mr_addr (mrs_r m ! (i + 1))"

section \<open>Operations\<close>

function mrs_find_from :: "memrangeset \<Rightarrow> nat \<Rightarrow> nat \<Rightarrow> nat" where
  "mrs_find_from m a i =
     (if i < mrs_n m \<and> mr_addr (mrs_r m ! (i + 1)) \<le> a then mrs_find_from m a (i + 1) else i)"
  by pat_completeness auto
termination
  by (relation "measure (\<lambda>(m, a, i). mrs_n m - i)") auto

definition mrs_find :: "memrangeset \<Rightarrow> nat \<Rightarrow> nat" where
  "mrs_find m a = mrs_find_from m a 0"

definition mrs_type :: "memrangeset \<Rightarrow> nat \<Rightarrow> int res" where
  "mrs_type m a =
     (let i = mrs_find m a
      in assert_then (i \<noteq> mrs_n m) (Inr (mr_type (mrs_r m ! i))))"

definition mrs_split :: "nat \<Rightarrow> memrangeset \<Rightarrow> nat \<Rightarrow> nat \<Rightarrow> memrangeset res" where
  "mrs_split maxsize m i a =
     (let r = mrs_r m; n = mrs_n m
      in assert_then (i < n \<and> n + 1 \<le> maxsize)
           (assert_then (mr_addr (r ! i) < a \<and> a < mr_addr (r ! (i + 1)))
             (Inr \<lparr>mrs_n = n + 1,
                   mrs_r = (arr_move r (i + 2) (i + 1) (n - i))
                     [i + 1 := \<lparr>mr_addr = a, mr_type = mr_type (r ! i)\<rparr>]\<rparr>)))"

text \<open>The two search loops of \<open>set\<close>; the first has no bound on its index in the source.\<close>

function mrs_lower :: "memrange list \<Rightarrow> nat \<Rightarrow> nat \<Rightarrow> nat res" where
  "mrs_lower r first1 i =
     (if i + 1 < length r
      then (if mr_addr (r ! (i + 1)) \<le> first1 then mrs_lower r first1 (i + 1) else Inr i)
      else Inl Out_Of_Bounds)"
  by pat_completeness auto
termination
  by (relation "measure (\<lambda>(r, first1, i). length r - i)") auto

function mrs_upper :: "memrange list \<Rightarrow> nat \<Rightarrow> nat \<Rightarrow> nat \<Rightarrow> nat" where
  "mrs_upper r n last1 j =
     (if j < n \<and> mr_addr (r ! (j + 1)) \<le> last1 then mrs_upper r n last1 (j + 1) else j)"
  by pat_completeness auto
termination
  by (relation "measure (\<lambda>(r, n, last1, j). n - j)") auto

declare mrs_find_from.simps [simp del] mrs_lower.simps [simp del] mrs_upper.simps [simp del]

text \<open>The last part of \<open>set\<close>: split at both ends where needed, then overwrite the type and close
  the gap.\<close>

definition mrs_assign ::
  "nat \<Rightarrow> memrangeset \<Rightarrow> nat \<Rightarrow> nat \<Rightarrow> nat \<Rightarrow> nat \<Rightarrow> int \<Rightarrow> memrangeset res" where
  "mrs_assign maxsize m i j first1 last1 t =
     rbind (if first1 \<noteq> mr_addr (mrs_r m ! i)
            then rbind (mrs_split maxsize m i first1) (\<lambda>m1. Inr (m1, i + 1, j + 1))
            else Inr (m, i, j))
       (\<lambda>(m1, i1, j1).
         rbind (if last1 \<noteq> mr_addr (mrs_r m1 ! j1)
                then rbind (mrs_split maxsize m1 j1 last1) (\<lambda>m2. Inr (m2, j1 + 1))
                else Inr (m1, j1))
           (\<lambda>(m2, j2).
             assert_then (mr_addr (mrs_r m2 ! i1) = first1 \<and> mr_addr (mrs_r m2 ! j2) = last1)
               (let r = (mrs_r m2)[i1 := (mrs_r m2 ! i1)\<lparr>mr_type := t\<rparr>]; n = mrs_n m2
                in if i1 + 1 < j2
                   then Inr \<lparr>mrs_n = n - (j2 - (i1 + 1)),
                             mrs_r = arr_move r (i1 + 1) j2 (n + 1 - j2)\<rparr>
                   else Inr \<lparr>mrs_n = n, mrs_r = r\<rparr>)))"

definition mrs_set :: "nat \<Rightarrow> memrangeset \<Rightarrow> nat \<Rightarrow> nat \<Rightarrow> int \<Rightarrow> (bool \<times> memrangeset) res" where
  "mrs_set maxsize m first0 last0 t =
     (let r = mrs_r m; n = mrs_n m
      in assert_then (first0 \<le> last0 \<and> last0 \<le> mr_addr (r ! n))
          (if first0 = last0 then Inr (True, m)
           else rbind (mrs_lower r first0 0) (\<lambda>i0.
             assert_then (i0 < n \<and> mr_addr (r ! i0) \<le> first0 \<and> first0 < mr_addr (r ! (i0 + 1)))
              (let i = (if first0 = mr_addr (r ! i0) \<and> 0 < i0 \<and> mr_type (r ! (i0 - 1)) = t
                        then i0 - 1 else i0);
                   first1 = (if mr_type (r ! i) = t then mr_addr (r ! i) else first0);
                   j0 = mrs_upper r n last0 i
               in assert_then (j0 \<le> n \<and> mr_addr (r ! j0) \<le> last0
                               \<and> (j0 = n \<or> last0 < mr_addr (r ! (j0 + 1))))
                   (let (j, last1, r1) =
                          (if j0 < n \<and> mr_type (r ! j0) = t
                           then (j0 + 1, mr_addr (r ! (j0 + 1)), r)
                           else if i < j0 \<and> first1 = mr_addr (r ! i)
                           then (j0, last0, r[j0 := (r ! j0)\<lparr>mr_addr := last0\<rparr>])
                           else (j0, last0, r));
                        m1 = m\<lparr>mrs_r := r1\<rparr>
                    in if n + (if first1 \<noteq> mr_addr (r1 ! i) then 1 else 0)
                            + (if last1 \<noteq> mr_addr (r1 ! j) then 1 else 0) > maxsize
                       then Inr (False, m1)
                       else rbind (mrs_assign maxsize m1 i j first1 last1 t) (\<lambda>m2. Inr (True, m2)))))))"

text \<open>\<open>validate()\<close> of the source, as a predicate.\<close>

definition mrs_valid :: "nat \<Rightarrow> memrangeset \<Rightarrow> bool" where
  "mrs_valid maxsize m \<longleftrightarrow>
     length (mrs_r m) = maxsize + 1
     \<and> 0 < mrs_n m \<and> mrs_n m \<le> maxsize
     \<and> mr_addr (mrs_r m ! 0) = 0
     \<and> (\<forall>i < mrs_n m. mr_addr (mrs_r m ! i) < mr_addr (mrs_r m ! (i + 1))
          \<and> (i = 0 \<or> mr_type (mrs_r m ! i) \<noteq> mr_type (mrs_r m ! (i - 1))))"

section \<open>Segments\<close>

text \<open>
  The live part of the array: the ranges followed by the entry that holds the limit.  An address
  has the type of the last entry at or below it.
\<close>

definition segs :: "memrangeset \<Rightarrow> memrange list" where
  "segs m = take (mrs_n m + 1) (mrs_r m)"

definition seg_type :: "memrange list \<Rightarrow> nat \<Rightarrow> int" where
  "seg_type S a = mr_type (last (takeWhile (\<lambda>x. mr_addr x \<le> a) S))"

definition segs_ok :: "memrange list \<Rightarrow> bool" where
  "segs_ok S \<longleftrightarrow> sorted_wrt (\<lambda>x y. mr_addr x < mr_addr y) S
     \<and> successively (\<lambda>x y. mr_type x \<noteq> mr_type y) (butlast S)"

lemma seg_type_hit:
  assumes "sorted_wrt (\<lambda>x y. mr_addr x < mr_addr y) (xs @ x # ys)" "mr_addr x \<le> a"
    "\<And>y. y \<in> set ys \<Longrightarrow> a < mr_addr y"
  shows "seg_type (xs @ x # ys) a = mr_type x"
proof -
  have "takeWhile (\<lambda>z. mr_addr z \<le> a) (xs @ x # ys) = xs @ [x]"
  proof -
    have "\<forall>z \<in> set xs. mr_addr z \<le> a"
      using assms(1,2) by (fastforce simp: sorted_wrt_append)
    moreover have "takeWhile (\<lambda>z. mr_addr z \<le> a) ys = []"
      using assms(3) by (cases ys) (auto simp: not_le)
    ultimately show ?thesis using assms(2) by (simp add: takeWhile_append2)
  qed
  then show ?thesis by (simp add: seg_type_def)
qed

lemma seg_type_left:
  assumes "\<And>y. y \<in> set ys \<Longrightarrow> a < mr_addr y"
  shows "seg_type (xs @ ys) a = seg_type xs a"
proof -
  have "takeWhile (\<lambda>z. mr_addr z \<le> a) ys = []"
    using assms by (cases ys) (auto simp: not_le)
  then have "takeWhile (\<lambda>z. mr_addr z \<le> a) (xs @ ys) = takeWhile (\<lambda>z. mr_addr z \<le> a) xs"
    by (induction xs) auto
  then show ?thesis by (simp add: seg_type_def)
qed

lemma seg_type_right:
  assumes "sorted_wrt (\<lambda>x y. mr_addr x < mr_addr y) (xs @ y # ys)" "mr_addr y \<le> a"
  shows "seg_type (xs @ y # ys) a
    = (case takeWhile (\<lambda>z. mr_addr z \<le> a) ys of [] \<Rightarrow> mr_type y | z # zs \<Rightarrow> mr_type (last (z # zs)))"
proof -
  have "\<forall>z \<in> set xs. mr_addr z \<le> a"
    using assms by (fastforce simp: sorted_wrt_append)
  then have "takeWhile (\<lambda>z. mr_addr z \<le> a) (xs @ y # ys) = xs @ y # takeWhile (\<lambda>z. mr_addr z \<le> a) ys"
    using assms(2) by (simp add: takeWhile_append2)
  then show ?thesis by (auto simp: seg_type_def split: list.splits)
qed

lemma nth_segs: "i \<le> mrs_n m \<Longrightarrow> segs m ! i = mrs_r m ! i"
  by (simp add: segs_def)

lemma length_segs: "mrs_n m < length (mrs_r m) \<Longrightarrow> length (segs m) = mrs_n m + 1"
  by (simp add: segs_def)

lemma mrs_valid_segs:
  "mrs_valid maxsize m \<longleftrightarrow> length (mrs_r m) = maxsize + 1 \<and> 0 < mrs_n m \<and> mrs_n m \<le> maxsize
     \<and> mr_addr (hd (segs m)) = 0 \<and> segs_ok (segs m)"
proof (cases "length (mrs_r m) = maxsize + 1 \<and> 0 < mrs_n m \<and> mrs_n m \<le> maxsize")
  case True
  then have len: "length (segs m) = mrs_n m + 1" by (simp add: length_segs)
  have hd0: "hd (segs m) = mrs_r m ! 0"
    using len by (metis add_gr_0 gr_implies_not0 hd_conv_nth length_0_conv nth_segs zero_le zero_less_one)
  have srt: "sorted_wrt (\<lambda>x y. mr_addr x < mr_addr y) (segs m)
      \<longleftrightarrow> (\<forall>i < mrs_n m. mr_addr (mrs_r m ! i) < mr_addr (mrs_r m ! (i + 1)))"
    by (subst sorted_wrt_iff_nth_Suc_transp) (auto simp: len nth_segs transp_def)
  have "successively (\<lambda>x y. mr_type x \<noteq> mr_type y) (butlast (segs m))
      \<longleftrightarrow> (\<forall>i. Suc i < mrs_n m \<longrightarrow> mr_type (mrs_r m ! i) \<noteq> mr_type (mrs_r m ! Suc i))"
    by (auto simp: successively_conv_nth len nth_butlast nth_segs)
  also have "\<dots> \<longleftrightarrow> (\<forall>i < mrs_n m. i = 0 \<or> mr_type (mrs_r m ! i) \<noteq> mr_type (mrs_r m ! (i - 1)))"
    by (metis Suc_pred' diff_Suc_1 gr0I less_Suc_eq_0_disj nat.distinct(1))
  finally show ?thesis using True hd0 srt by (auto simp: mrs_valid_def segs_ok_def)
next
  case False
  then show ?thesis by (auto simp: mrs_valid_def)
qed

section \<open>Shape of the array after each step of \<open>set\<close>\<close>

lemma memrange_eta: "mr_addr x = a \<Longrightarrow> \<lparr>mr_addr = a, mr_type = mr_type x\<rparr> = x"
  by (cases x) simp

lemma mrs_split_segs:
  assumes "i < mrs_n m" "mrs_n m + 1 \<le> maxsize" "length (mrs_r m) = maxsize + 1"
    and "mr_addr (segs m ! i) < a" "a < mr_addr (segs m ! (i + 1))"
  obtains m' where "mrs_split maxsize m i a = Inr m'" "mrs_n m' = mrs_n m + 1"
    "length (mrs_r m') = maxsize + 1"
    "segs m' = take (i + 1) (segs m) @ \<lparr>mr_addr = a, mr_type = mr_type (segs m ! i)\<rparr> # drop (i + 1) (segs m)"
proof -
  let ?r = "mrs_r m" and ?n = "mrs_n m"
  let ?r' = "(arr_move ?r (i + 2) (i + 1) (?n - i))[i + 1 := \<lparr>mr_addr = a, mr_type = mr_type (?r ! i)\<rparr>]"
  have "mrs_split maxsize m i a = Inr \<lparr>mrs_n = ?n + 1, mrs_r = ?r'\<rparr>"
    using assms by (simp add: mrs_split_def Let_def nth_segs)
  moreover have "length ?r' = maxsize + 1" using assms by simp
  moreover have "take (?n + 2) ?r'
      = take (i + 1) (segs m) @ \<lparr>mr_addr = a, mr_type = mr_type (segs m ! i)\<rparr> # drop (i + 1) (segs m)"
  proof -
    have "take (i + 2) ?r = take (i + 1) ?r @ [?r ! (i + 1)]"
      using assms take_Suc_app_nth[of "i + 1" ?r] by simp
    then have "?r' = (take (i + 1) ?r @ \<lparr>mr_addr = a, mr_type = mr_type (?r ! i)\<rparr> # take (?n - i) (drop (i + 1) ?r))
        @ drop (i + 2 + (?n - i)) ?r"
      using assms by (simp add: arr_move_def list_update_append)
    then show ?thesis
      using assms by (simp add: segs_def drop_take Suc_diff_le)
  qed
  ultimately show ?thesis
    using that[of "\<lparr>mrs_n = ?n + 1, mrs_r = ?r'\<rparr>"] by (simp add: segs_def)
qed

lemma close_gap_segs:
  assumes "i < j" "j \<le> n" "n < length r"
  shows "take (n - (j - (i + 1)) + 1) (arr_move r (i + 1) j (n + 1 - j))
    = take (i + 1) r @ drop j (take (n + 1) r)"
  using assms by (auto simp: arr_move_def min_def drop_take)

text \<open>The last part of \<open>mrs_assign\<close>, from the second assertion on.\<close>

lemma assign_tail_segs:
  assumes "i < j" "j \<le> mrs_n m" "mrs_n m \<le> maxsize" "length (mrs_r m) = maxsize + 1"
    "mr_addr (segs m ! i) = f" "mr_addr (segs m ! j) = l"
  obtains m' where
    "assert_then (mr_addr (mrs_r m ! i) = f \<and> mr_addr (mrs_r m ! j) = l)
       (let r = (mrs_r m)[i := (mrs_r m ! i)\<lparr>mr_type := t\<rparr>]; n = mrs_n m
        in if i + 1 < j
           then Inr \<lparr>mrs_n = n - (j - (i + 1)), mrs_r = arr_move r (i + 1) j (n + 1 - j)\<rparr>
           else Inr \<lparr>mrs_n = n, mrs_r = r\<rparr>) = Inr m'"
    "length (mrs_r m') = maxsize + 1" "0 < mrs_n m'" "mrs_n m' \<le> maxsize"
    "segs m' = take i (segs m) @ \<lparr>mr_addr = f, mr_type = t\<rparr> # drop j (segs m)"
proof -
  let ?r = "(mrs_r m)[i := (mrs_r m ! i)\<lparr>mr_type := t\<rparr>]" and ?n = "mrs_n m"
  let ?m = "if i + 1 < j then \<lparr>mrs_n = ?n - (j - (i + 1)), mrs_r = arr_move ?r (i + 1) j (?n + 1 - j)\<rparr>
            else \<lparr>mrs_n = ?n, mrs_r = ?r\<rparr>"
  have entry: "(mrs_r m ! i)\<lparr>mr_type := t\<rparr> = \<lparr>mr_addr = f, mr_type = t\<rparr>"
    using assms by (cases "mrs_r m ! i") (simp add: nth_segs)
  have tk: "take (i + 1) ?r = take i (segs m) @ [\<lparr>mr_addr = f, mr_type = t\<rparr>]"
    using assms entry take_Suc_app_nth[of i ?r] by (simp add: segs_def)
  have dr: "drop j (take (?n + 1) ?r) = drop j (segs m)"
    using assms by (simp add: segs_def drop_take)
  have "segs ?m = take (i + 1) ?r @ drop j (take (?n + 1) ?r)"
  proof (cases "i + 1 < j")
    case True
    then show ?thesis using close_gap_segs[of i j ?n ?r] assms by (simp add: segs_def)
  next
    case False
    then have "j = i + 1" using assms by simp
    moreover have "take (i + 1) (take (?n + 1) ?r) = take (i + 1) ?r"
      using assms calculation by (simp add: min_def)
    ultimately show ?thesis
      using append_take_drop_id[of "i + 1" "take (?n + 1) ?r"] by (simp add: segs_def)
  qed
  then have "segs ?m = take i (segs m) @ \<lparr>mr_addr = f, mr_type = t\<rparr> # drop j (segs m)"
    using tk dr by simp
  then show ?thesis
    using assms by (intro that[of ?m]) (auto simp: Let_def nth_segs)
qed

lemma split_left_segs:
  assumes n: "length (mrs_r m) = maxsize + 1" "mrs_n m \<le> maxsize" and S: "S = segs m"
    and ij: "i < mrs_n m" "i \<le> j" "j \<le> mrs_n m"
    and f: "mr_addr (S ! i) \<le> f" "f < mr_addr (S ! (i + 1))"
    and cap: "f \<noteq> mr_addr (S ! i) \<Longrightarrow> mrs_n m + 1 \<le> maxsize"
  defines "A \<equiv> f \<noteq> mr_addr (S ! i)"
  obtains m1 where
    "(if f \<noteq> mr_addr (mrs_r m ! i)
      then rbind (mrs_split maxsize m i f) (\<lambda>m1. Inr (m1, i + 1, j + 1)) else Inr (m, i, j))
     = Inr (m1, if A then i + 1 else i, if A then j + 1 else j)"
    "length (mrs_r m1) = maxsize + 1" "mrs_n m1 = (if A then mrs_n m + 1 else mrs_n m)"
    "segs m1 = (if A then take (i + 1) S @ \<lparr>mr_addr = f, mr_type = mr_type (S ! i)\<rparr> # drop (i + 1) S else S)"
proof (cases A)
  case True
  then have "mr_addr (S ! i) < f" "mrs_n m + 1 \<le> maxsize" using f cap by (auto simp: A_def)
  then obtain m1 where "mrs_split maxsize m i f = Inr m1" "mrs_n m1 = mrs_n m + 1"
    "length (mrs_r m1) = maxsize + 1"
    "segs m1 = take (i + 1) S @ \<lparr>mr_addr = f, mr_type = mr_type (S ! i)\<rparr> # drop (i + 1) S"
    using mrs_split_segs[of i m maxsize f] n ij f S by metis
  with True show ?thesis
    by (intro that[of m1]) (use ij S in \<open>auto simp: A_def nth_segs\<close>)
next
  case False
  then show ?thesis
    by (intro that[of m]) (use n ij S in \<open>auto simp: A_def nth_segs\<close>)
qed

lemma split_right_segs:
  assumes n: "length (mrs_r m) = maxsize + 1" "mrs_n m \<le> maxsize" and S: "S = segs m"
    and j: "j \<le> mrs_n m"
    and l: "mr_addr (S ! j) \<le> l" "j < mrs_n m \<Longrightarrow> l < mr_addr (S ! (j + 1))"
      "j = mrs_n m \<Longrightarrow> mr_addr (S ! j) = l"
    and cap: "l \<noteq> mr_addr (S ! j) \<Longrightarrow> mrs_n m + 1 \<le> maxsize"
  obtains m1 j1 where
    "(if l \<noteq> mr_addr (mrs_r m ! j)
      then rbind (mrs_split maxsize m j l) (\<lambda>m2. Inr (m2, j + 1)) else Inr (m, j)) = Inr (m1, j1)"
    "length (mrs_r m1) = maxsize + 1" "mrs_n m1 \<le> maxsize" "j \<le> j1" "l = mr_addr (S ! j) \<or> j < j1"
    "j1 \<le> mrs_n m1"
    "\<And>i. i \<le> j \<Longrightarrow> segs m1 ! i = S ! i" "take j (segs m1) = take j S"
    "drop j1 (segs m1) = \<lparr>mr_addr = l, mr_type = mr_type (S ! j)\<rparr> # drop (j + 1) S"
proof (cases "l = mr_addr (S ! j)")
  case True
  have "drop j S = S ! j # drop (j + 1) S"
    using drop_eq_Cons_nth[of j S] j n S by (simp add: length_segs)
  then show ?thesis
    by (intro that[of m j]) (use n j S True memrange_eta[of "S ! j"] in \<open>auto simp: nth_segs\<close>)
next
  case False
  then have b: "j < mrs_n m" "mr_addr (S ! j) < l" "mrs_n m + 1 \<le> maxsize" "l < mr_addr (S ! (j + 1))"
    using l j cap by (auto simp: le_less)
  then obtain m1 where m1: "mrs_split maxsize m j l = Inr m1" "mrs_n m1 = mrs_n m + 1"
    "length (mrs_r m1) = maxsize + 1"
    "segs m1 = take (j + 1) S @ \<lparr>mr_addr = l, mr_type = mr_type (S ! j)\<rparr> # drop (j + 1) S"
    using mrs_split_segs[of j m maxsize l] n S by metis
  have "length S = mrs_n m + 1" using n S by (simp add: length_segs)
  with b m1 False show ?thesis
    by (intro that[of m1 "j + 1"]) (use n S j in \<open>auto simp: nth_segs nth_append min_def\<close>)
qed

lemma mrs_assign_segs:
  assumes n: "length (mrs_r m) = maxsize + 1" "mrs_n m \<le> maxsize" and S: "S = segs m"
    and ij: "i < mrs_n m" "i \<le> j" "j \<le> mrs_n m"
    and f: "mr_addr (S ! i) \<le> f" "f < mr_addr (S ! (i + 1))" "f < l"
    and l: "mr_addr (S ! j) \<le> l" "j < mrs_n m \<Longrightarrow> l < mr_addr (S ! (j + 1))"
      "j = mrs_n m \<Longrightarrow> mr_addr (S ! j) = l"
    and cap: "mrs_n m + (if f \<noteq> mr_addr (S ! i) then 1 else 0) + (if l \<noteq> mr_addr (S ! j) then 1 else 0) \<le> maxsize"
  obtains m' where "mrs_assign maxsize m i j f l t = Inr m'" "length (mrs_r m') = maxsize + 1"
    "0 < mrs_n m'" "mrs_n m' \<le> maxsize"
    "segs m' = take i S @ (if f \<noteq> mr_addr (S ! i) then [S ! i] else [])
       @ \<lparr>mr_addr = f, mr_type = t\<rparr> # \<lparr>mr_addr = l, mr_type = mr_type (S ! j)\<rparr> # drop (j + 1) S"
proof -
  let ?A = "f \<noteq> mr_addr (S ! i)"
  let ?i = "if ?A then i + 1 else i" and ?j = "if ?A then j + 1 else j"
  have len: "length S = mrs_n m + 1" using n S by (simp add: length_segs)
  obtain m1 where r1: "(if f \<noteq> mr_addr (mrs_r m ! i)
      then rbind (mrs_split maxsize m i f) (\<lambda>m1. Inr (m1, i + 1, j + 1)) else Inr (m, i, j)) = Inr (m1, ?i, ?j)"
    and m1: "length (mrs_r m1) = maxsize + 1" "mrs_n m1 = (if ?A then mrs_n m + 1 else mrs_n m)"
    "segs m1 = (if ?A then take (i + 1) S @ \<lparr>mr_addr = f, mr_type = mr_type (S ! i)\<rparr> # drop (i + 1) S else S)"
    using split_left_segs[OF n S ij f(1,2)] cap by (auto split: if_splits)
  have Sj: "segs m1 ! ?j = (if ?A \<and> i = j then \<lparr>mr_addr = f, mr_type = mr_type (S ! i)\<rparr> else S ! j)"
    using m1(3) ij len by (auto simp: nth_append nth_Cons' min_def)
  have Sj1: "segs m1 ! (?j + 1) = S ! (j + 1)" if "j < mrs_n m"
    using m1(3) ij len that by (auto simp: nth_append nth_Cons' min_def)
  have drj: "drop (?j + 1) (segs m1) = drop (j + 1) S"
    using m1(3) ij len by (simp add: min_def Suc_diff_le)
  have ltj: "mr_addr (segs m1 ! ?j) \<le> l" unfolding Sj using f l by simp
  obtain m2 j2 where r2: "(if l \<noteq> mr_addr (mrs_r m1 ! ?j)
      then rbind (mrs_split maxsize m1 ?j l) (\<lambda>m2. Inr (m2, ?j + 1)) else Inr (m1, ?j)) = Inr (m2, j2)"
    and m2: "length (mrs_r m2) = maxsize + 1" "mrs_n m2 \<le> maxsize" "?j \<le> j2"
      "l = mr_addr (segs m1 ! ?j) \<or> ?j < j2" "j2 \<le> mrs_n m2"
    and m2nth: "\<And>k. k \<le> ?j \<Longrightarrow> segs m2 ! k = segs m1 ! k"
    and m2tk: "take ?j (segs m2) = take ?j (segs m1)"
    and m2dr: "drop j2 (segs m2) = \<lparr>mr_addr = l, mr_type = mr_type (segs m1 ! ?j)\<rparr> # drop (?j + 1) (segs m1)"
  proof (rule split_right_segs[of m1 maxsize "segs m1" ?j l])
    show "mrs_n m1 \<le> maxsize" using m1(2) n(2) cap by (simp split: if_splits)
    show "?j \<le> mrs_n m1" using m1(2) ij by simp
    show "mrs_n m1 + 1 \<le> maxsize" if "l \<noteq> mr_addr (segs m1 ! ?j)"
      using that m1(2) cap f l(1) unfolding Sj by (cases ?A; cases "i = j") (simp_all split: if_splits)
    show "l < mr_addr (segs m1 ! (?j + 1))" if "?j < mrs_n m1"
    proof -
      have "j < mrs_n m" using that m1(2) by (simp split: if_splits)
      then show ?thesis using Sj1 l(2) by simp
    qed
    show "mr_addr (segs m1 ! ?j) = l" if "?j = mrs_n m1"
    proof -
      have "j = mrs_n m" using that m1(2) by (simp split: if_splits)
      then show ?thesis using Sj l(3) ij by simp
    qed
  qed (use m1(1) ltj in simp_all)
  have ij2: "?i < j2"
    using m2(3,4) f ij unfolding Sj by (cases ?A; cases "i = j") simp_all
  have nthi: "mr_addr (segs m2 ! ?i) = f"
  proof -
    have "segs m2 ! ?i = segs m1 ! ?i" by (rule m2nth) (use ij in simp)
    moreover have "mr_addr (segs m1 ! ?i) = f"
      unfolding m1(3) using ij len by (simp add: nth_append min_def)
    ultimately show ?thesis by simp
  qed
  have nthj: "mr_addr (segs m2 ! j2) = l"
    using m2dr by (metis memrange.select_convs(1) nth_via_drop)
  have tki: "take ?i (segs m2) = take i S @ (if ?A then [S ! i] else [])"
  proof -
    have "take ?i (segs m2) = take ?i (take ?j (segs m2))" using ij by (simp add: min_def)
    also have "\<dots> = take ?i (take ?j (segs m1))" by (simp only: m2tk)
    also have "\<dots> = take ?i (segs m1)" using ij by (simp add: min_def)
    also have "\<dots> = take i S @ (if ?A then [S ! i] else [])"
      unfolding m1(3) using ij len take_Suc_app_nth[of i S] by (simp add: min_def)
    finally show ?thesis .
  qed
  obtain m3 where r3: "assert_then (mr_addr (mrs_r m2 ! ?i) = f \<and> mr_addr (mrs_r m2 ! j2) = l)
       (let r = (mrs_r m2)[?i := (mrs_r m2 ! ?i)\<lparr>mr_type := t\<rparr>]; n = mrs_n m2
        in if ?i + 1 < j2
           then Inr \<lparr>mrs_n = n - (j2 - (?i + 1)), mrs_r = arr_move r (?i + 1) j2 (n + 1 - j2)\<rparr>
           else Inr \<lparr>mrs_n = n, mrs_r = r\<rparr>) = Inr m3"
    and m3: "length (mrs_r m3) = maxsize + 1" "0 < mrs_n m3" "mrs_n m3 \<le> maxsize"
      "segs m3 = take ?i (segs m2) @ \<lparr>mr_addr = f, mr_type = t\<rparr> # drop j2 (segs m2)"
    by (rule assign_tail_segs[OF ij2 m2(5) m2(2) m2(1) nthi nthj])
  have "mr_type (segs m1 ! ?j) = mr_type (S ! j)" unfolding Sj by simp
  then have "segs m3 = take i S @ (if ?A then [S ! i] else [])
       @ \<lparr>mr_addr = f, mr_type = t\<rparr> # \<lparr>mr_addr = l, mr_type = mr_type (S ! j)\<rparr> # drop (j + 1) S"
    using m3(4) tki m2dr drj by simp
  moreover have "mrs_assign maxsize m i j f l t = Inr m3"
    unfolding mrs_assign_def r1 using r2 r3 by simp
  ultimately show ?thesis using that m3 by blast
qed

section \<open>The search loops\<close>

lemma mrs_lower_spec:
  assumes "i \<le> n" "n < length r" "mr_addr (r ! i) \<le> first1" "first1 < mr_addr (r ! n)"
  shows "\<exists>k. mrs_lower r first1 i = Inr k \<and> i \<le> k \<and> k < n
    \<and> mr_addr (r ! k) \<le> first1 \<and> first1 < mr_addr (r ! (k + 1))"
  using assms
proof (induction r first1 i rule: mrs_lower.induct)
  case (1 r first1 i)
  have i: "i < n" using "1.prems" by (cases "i = n") auto
  show ?case
  proof (cases "mr_addr (r ! (i + 1)) \<le> first1")
    case True
    then have "\<exists>k. mrs_lower r first1 (i + 1) = Inr k \<and> i + 1 \<le> k \<and> k < n
        \<and> mr_addr (r ! k) \<le> first1 \<and> first1 < mr_addr (r ! (k + 1))"
      using "1.IH" "1.prems" i by auto
    then show ?thesis using True i "1.prems" by (auto simp: mrs_lower.simps[of r first1 i])
  next
    case False
    then show ?thesis using i "1.prems" by (auto simp: mrs_lower.simps[of r first1 i])
  qed
qed

lemma mrs_upper_spec:
  assumes "i \<le> n" "mr_addr (r ! i) \<le> last1"
  shows "i \<le> mrs_upper r n last1 i \<and> mrs_upper r n last1 i \<le> n
    \<and> mr_addr (r ! mrs_upper r n last1 i) \<le> last1
    \<and> (mrs_upper r n last1 i = n \<or> last1 < mr_addr (r ! (mrs_upper r n last1 i + 1)))"
  using assms
proof (induction r n last1 i rule: mrs_upper.induct)
  case (1 r n last1 j)
  show ?case
  proof (cases "j < n \<and> mr_addr (r ! (j + 1)) \<le> last1")
    case True
    with "1.IH" show ?thesis by (auto simp: mrs_upper.simps[of r n last1 j])
  next
    case False
    with "1.prems" show ?thesis by (auto simp: mrs_upper.simps[of r n last1 j])
  qed
qed

lemma mrs_find_from_spec:
  assumes "i \<le> mrs_n m" "mr_addr (mrs_r m ! i) \<le> a" "a < mrs_limit m"
  shows "mrs_find_from m a i < mrs_n m
    \<and> mr_addr (mrs_r m ! mrs_find_from m a i) \<le> a \<and> a < mr_addr (mrs_r m ! (mrs_find_from m a i + 1))"
  using assms
proof (induction m a i rule: mrs_find_from.induct)
  case (1 m a i)
  have i: "i < mrs_n m" using "1.prems" by (cases "i = mrs_n m") (auto simp: mrs_limit_def)
  show ?case
  proof (cases "mr_addr (mrs_r m ! (i + 1)) \<le> a")
    case True
    with "1.IH" "1.prems" i show ?thesis by (auto simp: mrs_find_from.simps[of m a i])
  next
    case False
    with "1.prems" i show ?thesis by (auto simp: mrs_find_from.simps[of m a i])
  qed
qed

section \<open>The segment list after \<open>set\<close>\<close>

lemma sorted_nth_mono:
  assumes "sorted_wrt (\<lambda>x y. mr_addr x < mr_addr y) S" "i \<le> j" "j < length S"
  shows "mr_addr (S ! i) \<le> mr_addr (S ! j)"
  using assms by (cases "i = j") (auto dest: sorted_wrt_nth_less[of _ _ i j])

lemma seg_type_nth:
  assumes "sorted_wrt (\<lambda>x y. mr_addr x < mr_addr y) S" "k + 1 < length S"
    "mr_addr (S ! k) \<le> a" "a < mr_addr (S ! (k + 1))"
  shows "seg_type S a = mr_type (S ! k)"
proof -
  have S: "S = take k S @ S ! k # drop (k + 1) S"
    using assms(2) id_take_nth_drop[of k S] by simp
  have "a < mr_addr y" if "y \<in> set (drop (k + 1) S)" for y
  proof -
    obtain q where "k + 1 \<le> q" "q < length S" "y = S ! q"
      using \<open>y \<in> set (drop (k + 1) S)\<close> by (rule in_set_dropE)
    then show ?thesis using sorted_nth_mono[OF assms(1), of "k + 1" q] assms(4) by simp
  qed
  then show ?thesis
    using seg_type_hit[of "take k S" "S ! k" "drop (k + 1) S" a] assms S by metis
qed

lemma mrs_type_eq:
  assumes "mrs_valid maxsize m" "a < mrs_limit m"
  shows "mrs_type m a = Inr (seg_type (segs m) a)"
proof -
  have v: "mrs_n m < length (mrs_r m)" "0 < mrs_n m" "mr_addr (mrs_r m ! 0) = 0"
    using assms(1) by (simp_all add: mrs_valid_def)
  have srt: "sorted_wrt (\<lambda>x y. mr_addr x < mr_addr y) (segs m)"
    using assms(1) by (simp add: mrs_valid_segs segs_ok_def)
  define k where "k = mrs_find m a"
  have k: "k < mrs_n m" "mr_addr (mrs_r m ! k) \<le> a" "a < mr_addr (mrs_r m ! (k + 1))"
    using mrs_find_from_spec[of 0 m a] v assms(2) by (auto simp: k_def mrs_find_def)
  have "seg_type (segs m) a = mr_type (segs m ! k)"
    by (rule seg_type_nth[OF srt]) (use v k in \<open>auto simp: length_segs nth_segs\<close>)
  then show ?thesis using k by (simp add: mrs_type_def Let_def k_def[symmetric] nth_segs)
qed

text \<open>What the searches of \<open>set\<close> establish about the two ends of the new range: \<open>f0\<close> and \<open>l0\<close> are
  the requested ends, \<open>f\<close> and \<open>l\<close> the ends after consolidation with a neighbour of the same type.\<close>

definition left_end :: "memrange list \<Rightarrow> int \<Rightarrow> nat \<Rightarrow> nat \<Rightarrow> nat \<Rightarrow> bool" where
  "left_end S t f0 i f \<longleftrightarrow> mr_addr (S ! i) \<le> f \<and> f < mr_addr (S ! (i + 1)) \<and> f \<le> f0
     \<and> (f = f0 \<and> mr_type (S ! i) \<noteq> t \<and> (f = mr_addr (S ! i) \<and> 0 < i \<longrightarrow> mr_type (S ! (i - 1)) \<noteq> t)
        \<or> f = mr_addr (S ! i) \<and> mr_type (S ! i) = t \<and> f0 \<le> mr_addr (S ! (i + 1)))"

definition right_end :: "memrange list \<Rightarrow> int \<Rightarrow> nat \<Rightarrow> nat \<Rightarrow> nat \<Rightarrow> nat \<Rightarrow> bool" where
  "right_end S t l0 i j l \<longleftrightarrow> i \<le> j \<and> j + 1 \<le> length S \<and> mr_addr (S ! j) \<le> l \<and> l0 \<le> l
     \<and> (j + 1 < length S \<longrightarrow> l < mr_addr (S ! (j + 1)))
     \<and> (j + 1 = length S \<longrightarrow> l = mr_addr (S ! j))
     \<and> (l = l0 \<and> (j + 1 < length S \<longrightarrow> mr_type (S ! j) \<noteq> t)
        \<or> l = mr_addr (S ! j) \<and> i < j \<and> mr_type (S ! (j - 1)) = t \<and> mr_addr (S ! (j - 1)) \<le> l0)"

definition set_segs :: "memrange list \<Rightarrow> int \<Rightarrow> nat \<Rightarrow> nat \<Rightarrow> nat \<Rightarrow> nat \<Rightarrow> memrange list" where
  "set_segs S t i f j l = take i S @ (if f \<noteq> mr_addr (S ! i) then [S ! i] else [])
     @ \<lparr>mr_addr = f, mr_type = t\<rparr> # \<lparr>mr_addr = l, mr_type = mr_type (S ! j)\<rparr> # drop (j + 1) S"

lemma set_segs_sorted:
  assumes S: "sorted_wrt (\<lambda>x y. mr_addr x < mr_addr y) S"
    and i: "i + 1 < length S" and f: "left_end S t f0 i f" and l: "right_end S t l0 i j l" and fl: "f0 < l0"
  shows "sorted_wrt (\<lambda>x y. mr_addr x < mr_addr y) (set_segs S t i f j l)"
proof -
  have lo: "mr_addr x < mr_addr (S ! i)" if x: "x \<in> set (take i S)" for x
  proof -
    obtain q where "q < i" "x = S ! q" using x by (rule in_set_takeE)
    then show ?thesis using sorted_wrt_nth_less[OF S, of q i] i by simp
  qed
  have hi: "l < mr_addr y" if y: "y \<in> set (drop (j + 1) S)" for y
  proof -
    obtain q where q: "j + 1 \<le> q" "q < length S" "y = S ! q" using y by (rule in_set_dropE)
    then show ?thesis
      using sorted_nth_mono[OF S, of "j + 1" q] l by (auto simp: right_end_def)
  qed
  have fl': "mr_addr (S ! i) \<le> f" "f < l" using f l fl by (auto simp: left_end_def right_end_def)
  have below: "\<forall>x \<in> set (take i S). mr_addr x < mr_addr (S ! i) \<and> mr_addr x < f \<and> mr_addr x < l
      \<and> (\<forall>y \<in> set (drop (j + 1) S). mr_addr x < mr_addr y)"
    using lo hi fl' by (meson dual_order.strict_trans dual_order.strict_trans1 less_le_trans)
  have above: "\<forall>y \<in> set (drop (j + 1) S). l < mr_addr y \<and> f < mr_addr y \<and> mr_addr (S ! i) < mr_addr y"
    using hi fl' by (meson dual_order.strict_trans le_less_trans)
  have "sorted_wrt (\<lambda>x y. mr_addr x < mr_addr y) (take i S)"
    "sorted_wrt (\<lambda>x y. mr_addr x < mr_addr y) (drop (j + 1) S)"
    by (rule sorted_wrt_take[OF S], rule sorted_wrt_drop[OF S])
  then show ?thesis
    using below above fl' by (simp add: set_segs_def sorted_wrt_append)
qed

lemma set_segs_types:
  assumes S: "segs_ok S" and i: "i + 1 < length S"
    and f: "left_end S t f0 i f" and l: "right_end S t l0 i j l"
  shows "successively (\<lambda>x y. mr_type x \<noteq> mr_type y) (butlast (set_segs S t i f j l))"
proof -
  let ?P = "\<lambda>x y. mr_type x \<noteq> mr_type y" and ?T = "butlast S"
  let ?u = "\<lparr>mr_addr = l, mr_type = mr_type (S ! j)\<rparr>"
  have T: "successively ?P ?T" using S by (simp add: segs_ok_def)
  have adj: "mr_type (S ! k) \<noteq> mr_type (S ! (k + 1))" if "k + 2 < length S" for k
    using T that by (auto simp: successively_conv_nth nth_butlast dest: spec[of _ k])
  have left: "successively ?P (take i S @ (if f \<noteq> mr_addr (S ! i) then [S ! i] else []) @ [\<lparr>mr_addr = f, mr_type = t\<rparr>])"
  proof -
    have tk: "successively ?P (take k S)" if "k < length S" for k
      using that adj by (auto simp: successively_conv_nth)
    have lst: "last (take k S) = S ! (k - 1)" if "0 < k" "k < length S" for k
      using that take_Suc_app_nth[of "k - 1" S] by simp
    have f': "f = mr_addr (S ! i) \<and> 0 < i \<Longrightarrow> mr_type (S ! (i - 1)) \<noteq> t"
      using f adj[of "i - 1"] i by (auto simp: left_end_def)
    show ?thesis
    proof (cases "f = mr_addr (S ! i)")
      case True
      then show ?thesis using tk[of i] lst[of i] f' i
        by (cases "i = 0") (auto simp: successively_append_iff)
    next
      case False
      then have "mr_type (S ! i) \<noteq> t" using f by (auto simp: left_end_def)
      then show ?thesis using False tk[of "i + 1"] lst[of "i + 1"] i take_Suc_app_nth[of i S]
        by (auto simp: successively_append_iff)
    qed
  qed
  show ?thesis
  proof (cases "j + 1 = length S")
    case True
    then show ?thesis using left by (simp add: set_segs_def butlast_append)
  next
    case False
    then have j: "j + 1 < length S" using l by (auto simp: right_end_def)
    have ut: "mr_type (S ! j) \<noteq> t"
      using l adj[of "j - 1"] j by (auto simp: right_end_def)
    have "successively ?P (?u # butlast (drop (j + 1) S))"
      using adj j by (auto simp: successively_Cons successively_conv_nth hd_conv_nth nth_butlast
          nth_Cons' add.commute)
    moreover have "butlast (set_segs S t i f j l)
        = (take i S @ (if f \<noteq> mr_addr (S ! i) then [S ! i] else []) @ [\<lparr>mr_addr = f, mr_type = t\<rparr>])
          @ ?u # butlast (drop (j + 1) S)"
      using j by (simp add: set_segs_def butlast_append)
    ultimately show ?thesis
      using left ut by (simp add: successively_append_iff del: append.simps append_assoc)
  qed
qed

lemma set_segs_lookup:
  assumes S: "sorted_wrt (\<lambda>x y. mr_addr x < mr_addr y) S"
    and i: "i + 1 < length S" and f: "left_end S t f0 i f" and l: "right_end S t l0 i j l" and fl: "f0 < l0"
  shows "seg_type (set_segs S t i f j l) a = (if f0 \<le> a \<and> a < l0 then t else seg_type S a)"
proof -
  let ?N = "set_segs S t i f j l" and ?u = "\<lparr>mr_addr = l, mr_type = mr_type (S ! j)\<rparr>"
  have N: "sorted_wrt (\<lambda>x y. mr_addr x < mr_addr y) ?N" by (rule set_segs_sorted[OF assms])
  let ?L = "take i S @ (if f \<noteq> mr_addr (S ! i) then [S ! i] else [])"
  have N_eq: "?N = ?L @ \<lparr>mr_addr = f, mr_type = t\<rparr> # ?u # drop (j + 1) S" by (simp add: set_segs_def)
  have ff: "f \<le> f0" and ll: "l0 \<le> l" using f l by (auto simp: left_end_def right_end_def)
  consider "a < f" | "f \<le> a" "a < l" | "l \<le> a" by linarith
  then show ?thesis
  proof cases
    case 1
    let ?k = "if f \<noteq> mr_addr (S ! i) then i + 1 else i"
    have "seg_type ?N a = seg_type ?L a"
      unfolding N_eq by (rule seg_type_left) (use N 1 in \<open>auto simp: N_eq sorted_wrt_append\<close>)
    also have "?L = take ?k S" using i take_Suc_app_nth[of i S] by simp
    also have "seg_type (take ?k S) a = seg_type (take ?k S @ drop ?k S) a"
    proof (rule seg_type_left[symmetric])
      fix y assume "y \<in> set (drop ?k S)"
      then obtain q where "?k \<le> q" "q < length S" "y = S ! q" by (rule in_set_dropE)
      then have "mr_addr (S ! ?k) \<le> mr_addr y" using sorted_nth_mono[OF S] by simp
      then show "a < mr_addr y" using 1 f by (auto simp: left_end_def split: if_splits)
    qed
    finally show ?thesis using 1 ff fl by simp
  next
    case 2
    have "seg_type ?N a = t"
      unfolding N_eq by (subst seg_type_hit) (use N 2 in \<open>auto simp: N_eq sorted_wrt_append\<close>)
    moreover have "seg_type S a = t" if "a < f0"
      using seg_type_nth[OF S, of i a] that f i 2 by (auto simp: left_end_def)
    moreover have "seg_type S a = t" if "l0 \<le> a"
      using seg_type_nth[OF S, of "j - 1" a] that l 2 by (auto simp: right_end_def)
    ultimately show ?thesis by auto
  next
    case 3
    have j: "j < length S" "mr_addr (S ! j) \<le> a" using l 3 by (auto simp: right_end_def)
    have S_eq: "S = take j S @ S ! j # drop (j + 1) S" using j id_take_nth_drop[of j S] by simp
    have "seg_type ?N a = seg_type ((?L @ [\<lparr>mr_addr = f, mr_type = t\<rparr>]) @ ?u # drop (j + 1) S) a"
      by (simp add: N_eq)
    also have "\<dots> = seg_type (take j S @ S ! j # drop (j + 1) S) a"
      using N 3 j S S_eq by (subst (1 2) seg_type_right) (simp_all add: N_eq split: list.split)
    finally show ?thesis using 3 ff ll S_eq by simp
  qed
qed

lemma set_segs_ends:
  assumes "i + 1 < length S" "left_end S t f0 i f" "right_end S t l0 i j l"
  shows "mr_addr (hd (set_segs S t i f j l)) = mr_addr (hd S)"
    and "mr_addr (last (set_segs S t i f j l)) = mr_addr (last S)"
proof -
  show "mr_addr (hd (set_segs S t i f j l)) = mr_addr (hd S)"
    using assms by (cases i; cases S) (auto simp: set_segs_def left_end_def)
  show "mr_addr (last (set_segs S t i f j l)) = mr_addr (last S)"
  proof (cases "j + 1 = length S")
    case True
    then have "last S = S ! j" by (metis add_diff_cancel_right' last_conv_nth length_0_conv add_is_0 one_neq_zero)
    then show ?thesis using assms True by (simp add: set_segs_def right_end_def)
  next
    case False
    then show ?thesis using assms by (simp add: set_segs_def right_end_def)
  qed
qed

section \<open>Correctness of \<open>set\<close>\<close>

lemma last_segs: "mrs_n m < length (mrs_r m) \<Longrightarrow> mr_addr (last (segs m)) = mrs_limit m"
  by (simp add: segs_def take_Suc_conv_app_nth mrs_limit_def)

text \<open>The left search, with the consolidation that follows it.\<close>

lemma left_end_search:
  fixes t :: int
  assumes v: "mrs_valid maxsize m" and S: "S = segs m" and i0: "i0 < mrs_n m"
    and b: "mr_addr (S ! i0) \<le> f0" "f0 < mr_addr (S ! (i0 + 1))"
  defines "i \<equiv> (if f0 = mr_addr (S ! i0) \<and> 0 < i0 \<and> mr_type (S ! (i0 - 1)) = t then i0 - 1 else i0)"
  shows "left_end S t f0 i (if mr_type (S ! i) = t then mr_addr (S ! i) else f0)" and "i \<le> i0"
proof -
  have len: "length S = mrs_n m + 1" and srt: "sorted_wrt (\<lambda>x y. mr_addr x < mr_addr y) S"
    using v S by (auto simp: mrs_valid_segs length_segs segs_ok_def)
  have "mr_addr (S ! (i0 - 1)) < mr_addr (S ! i0)" if "0 < i0"
    using sorted_wrt_nth_less[OF srt, of "i0 - 1" i0] that len i0 by simp
  then show "left_end S t f0 i (if mr_type (S ! i) = t then mr_addr (S ! i) else f0)" and "i \<le> i0"
    using b by (auto simp: i_def left_end_def)
qed

lemma mrs_set_cases:
  assumes v: "mrs_valid maxsize m" and S: "S = segs m" and fl: "f0 < l0" "l0 \<le> mrs_limit m"
  obtains i f j l where "i + 1 < length S" "left_end S t f0 i f" "right_end S t l0 i j l"
    and "(\<exists>m'. mrs_set maxsize m f0 l0 t = Inr (True, m') \<and> length (mrs_r m') = maxsize + 1
            \<and> 0 < mrs_n m' \<and> mrs_n m' \<le> maxsize \<and> segs m' = set_segs S t i f j l)
       \<or> mrs_set maxsize m f0 l0 t = Inr (False, m) \<and> mrs_n m + 2 > maxsize"
proof -
  note goal = that
  let ?r = "mrs_r m" and ?n = "mrs_n m"
  have len: "length ?r = maxsize + 1" "0 < ?n" "?n \<le> maxsize" "mr_addr (?r ! 0) = 0"
    using v by (auto simp: mrs_valid_def)
  have lenS: "length S = ?n + 1" and srt: "sorted_wrt (\<lambda>x y. mr_addr x < mr_addr y) S"
    using v S by (auto simp: mrs_valid_segs length_segs segs_ok_def)
  have nth: "S ! k = ?r ! k" if "k \<le> ?n" for k using that S by (simp add: nth_segs)
  obtain i0 where i0: "mrs_lower ?r f0 0 = Inr i0" "i0 < ?n"
    "mr_addr (?r ! i0) \<le> f0" "f0 < mr_addr (?r ! (i0 + 1))"
    using mrs_lower_spec[of 0 ?n ?r f0] len fl by (auto simp: mrs_limit_def)
  define i where "i = (if f0 = mr_addr (?r ! i0) \<and> 0 < i0 \<and> mr_type (?r ! (i0 - 1)) = t then i0 - 1 else i0)"
  define f where "f = (if mr_type (?r ! i) = t then mr_addr (?r ! i) else f0)"
  have L: "left_end S t f0 i f" and i: "i \<le> i0"
    using left_end_search[OF v S i0(2), of f0 t] i0 nth by (auto simp: i_def f_def)
  define j0 where "j0 = mrs_upper ?r ?n l0 i"
  have "mr_addr (?r ! i) \<le> l0" using L fl i i0 nth by (auto simp: left_end_def)
  then have j0: "i \<le> j0" "j0 \<le> ?n" "mr_addr (?r ! j0) \<le> l0" "j0 = ?n \<or> l0 < mr_addr (?r ! (j0 + 1))"
    using mrs_upper_spec[of i ?n ?r l0] i i0 by (auto simp: j0_def)
  have pre: "f0 \<le> l0" "l0 \<le> mr_addr (?r ! ?n)" "f0 \<noteq> l0" using fl by (auto simp: mrs_limit_def)
  have step: "mrs_set maxsize m f0 l0 t =
      (if ?n + (if f \<noteq> mr_addr (r1 ! i) then 1 else 0) + (if l \<noteq> mr_addr (r1 ! j) then 1 else 0) > maxsize
       then Inr (False, m\<lparr>mrs_r := r1\<rparr>)
       else rbind (mrs_assign maxsize (m\<lparr>mrs_r := r1\<rparr>) i j f l t) (\<lambda>m2. Inr (True, m2)))"
    if "(if j0 < ?n \<and> mr_type (?r ! j0) = t then (j0 + 1, mr_addr (?r ! (j0 + 1)), ?r)
         else if i < j0 \<and> f = mr_addr (?r ! i) then (j0, l0, ?r[j0 := (?r ! j0)\<lparr>mr_addr := l0\<rparr>])
         else (j0, l0, ?r)) = (j, l, r1)" for j l r1
    using pre i0 j0 unfolding mrs_set_def Let_def i0(1) rbind_simps
      i_def[symmetric] f_def[symmetric] j0_def[symmetric] that
    by simp
  have fS: "mr_addr (S ! i) \<le> f" "f < mr_addr (S ! (i + 1))" "f \<le> f0"
    using L by (auto simp: left_end_def)
  have same_array: ?thesis if R: "right_end S t l0 i j l" and s: "(if j0 < ?n \<and> mr_type (?r ! j0) = t
         then (j0 + 1, mr_addr (?r ! (j0 + 1)), ?r)
         else if i < j0 \<and> f = mr_addr (?r ! i) then (j0, l0, ?r[j0 := (?r ! j0)\<lparr>mr_addr := l0\<rparr>])
         else (j0, l0, ?r)) = (j, l, ?r)" for j l
  proof -
    have j: "j \<le> ?n" "i \<le> j" using R lenS by (auto simp: right_end_def)
    show ?thesis
    proof (cases "?n + (if f \<noteq> mr_addr (?r ! i) then 1 else 0) + (if l \<noteq> mr_addr (?r ! j) then 1 else 0) > maxsize")
      case True
      then have "?n + 2 > maxsize" by (simp split: if_splits)
      with True show ?thesis using goal[OF _ L R] step[OF s] i i0 lenS by simp
    next
      case False
      obtain m' where "mrs_assign maxsize m i j f l t = Inr m'" "length (mrs_r m') = maxsize + 1"
        "0 < mrs_n m'" "mrs_n m' \<le> maxsize" "segs m' = set_segs S t i f j l"
        by (rule mrs_assign_segs[of m maxsize S i j f l t])
          (use len S i i0 j fS fl R False nth lenS in \<open>auto simp: right_end_def set_segs_def not_less\<close>)
      with False show ?thesis using goal[OF _ L R] step[OF s] i i0 lenS by simp
    qed
  qed
  consider "j0 < ?n" "mr_type (?r ! j0) = t"
    | "\<not> (j0 < ?n \<and> mr_type (?r ! j0) = t)" "i < j0" "f = mr_addr (?r ! i)"
    | "\<not> (j0 < ?n \<and> mr_type (?r ! j0) = t)" "\<not> (i < j0 \<and> f = mr_addr (?r ! i))"
    by blast
  then show ?thesis
  proof cases
    case 1
    have "right_end S t l0 i (j0 + 1) (mr_addr (?r ! (j0 + 1)))"
      using 1 j0 nth lenS sorted_wrt_nth_less[OF srt, of "j0 + 1" "j0 + 2"] by (auto simp: right_end_def)
    then show ?thesis by (rule same_array) (use 1 in simp)
  next
    case 2
    let ?x = "(?r ! j0)\<lparr>mr_addr := l0\<rparr>"
    let ?m1 = "m\<lparr>mrs_r := ?r[j0 := ?x]\<rparr>" and ?S1 = "S[j0 := ?x]"
    have R: "right_end S t l0 i j0 l0"
      using 2 j0 nth lenS fl by (auto simp: right_end_def mrs_limit_def)
    have S1: "?S1 = segs ?m1" using S by (simp add: segs_def take_update_swap)
    have same: "set_segs ?S1 t i f j0 l0 = set_segs S t i f j0 l0"
      using 2 j0 lenS nth by (simp add: set_segs_def)
    have at: "?S1 ! i = S ! i" "?S1 ! j0 = ?x" "?S1 ! (j0 + 1) = S ! (j0 + 1)"
      "f < mr_addr (?S1 ! (i + 1))"
      using 2 j0 lenS fS fl by (auto simp: nth_list_update)
    have fi: "f = mr_addr (S ! i)" using 2 i i0 nth by simp
    have cap: "mrs_n ?m1 + (if f \<noteq> mr_addr (?S1 ! i) then 1 else 0)
        + (if l0 \<noteq> mr_addr (?S1 ! j0) then 1 else 0) \<le> maxsize"
      using at fi len by simp
    obtain m' where "mrs_assign maxsize ?m1 i j0 f l0 t = Inr m'" "length (mrs_r m') = maxsize + 1"
      "0 < mrs_n m'" "mrs_n m' \<le> maxsize" "segs m' = set_segs ?S1 t i f j0 l0"
    proof (rule mrs_assign_segs[of ?m1 maxsize ?S1 i j0 f l0 t, OF _ _ S1 _ _ _ _ _ _ _ _ _ cap])
      show "j0 < mrs_n ?m1 \<Longrightarrow> l0 < mr_addr (?S1 ! (j0 + 1))" using at j0 nth by auto
    qed (use len i i0 j0 fS fl at set_segs_def in simp_all)
    then show ?thesis
      using goal[OF _ L R] step[of j0 l0 "?r[j0 := ?x]"] 2 i i0 j0 len lenS same by simp
  next
    case 3
    have "right_end S t l0 i j0 l0"
      using 3 j0 nth lenS fl by (auto simp: right_end_def mrs_limit_def)
    then show ?thesis by (rule same_array) (use 3 in auto)
  qed
qed

lemma mrs_init_valid:
  assumes "length r0 = maxsize + 1" "0 < maxsize" "0 < lim"
  shows "mrs_valid maxsize (mrs_init r0 lim)" and "mrs_limit (mrs_init r0 lim) = lim"
  using assms by (auto simp: mrs_valid_def mrs_init_def mrs_limit_def nth_list_update)

lemma set_segs_valid:
  assumes v: "mrs_valid maxsize m" and S: "S = segs m"
    and e: "i + 1 < length S" "left_end S t f0 i f" "right_end S t l0 i j l" and fl: "f0 < l0"
    and m': "length (mrs_r m') = maxsize + 1" "0 < mrs_n m'" "mrs_n m' \<le> maxsize"
      "segs m' = set_segs S t i f j l"
  shows "mrs_valid maxsize m'" and "mrs_limit m' = mrs_limit m"
proof -
  have ok: "segs_ok S" "mr_addr (hd S) = 0" and n: "mrs_n m < length (mrs_r m)"
    using v S by (auto simp: mrs_valid_segs)
  show "mrs_valid maxsize m'"
    using ok m' set_segs_ends(1)[OF e] set_segs_types[OF ok(1) e] set_segs_sorted[OF _ e fl]
    by (simp add: mrs_valid_segs segs_ok_def)
  show "mrs_limit m' = mrs_limit m"
    using last_segs[OF n] last_segs[of m'] m' set_segs_ends(2)[OF e] S by simp
qed

lemma mrs_set_updates:
  assumes v: "mrs_valid maxsize m" and fl: "f0 < l0" "l0 \<le> mrs_limit m"
  obtains (upd) m' where "mrs_set maxsize m f0 l0 t = Inr (True, m')" "mrs_valid maxsize m'"
      "mrs_limit m' = mrs_limit m"
      "\<And>a. a < mrs_limit m \<Longrightarrow> mrs_type m' a = (if f0 \<le> a \<and> a < l0 then Inr t else mrs_type m a)"
  | (full) "mrs_set maxsize m f0 l0 t = Inr (False, m)" "mrs_n m + 2 > maxsize"
proof -
  obtain i f j l where e: "i + 1 < length (segs m)" "left_end (segs m) t f0 i f" "right_end (segs m) t l0 i j l"
    and d: "(\<exists>m'. mrs_set maxsize m f0 l0 t = Inr (True, m') \<and> length (mrs_r m') = maxsize + 1
            \<and> 0 < mrs_n m' \<and> mrs_n m' \<le> maxsize \<and> segs m' = set_segs (segs m) t i f j l)
       \<or> mrs_set maxsize m f0 l0 t = Inr (False, m) \<and> mrs_n m + 2 > maxsize"
    by (rule mrs_set_cases[OF v refl fl])
  from d show thesis
  proof
    assume "\<exists>m'. mrs_set maxsize m f0 l0 t = Inr (True, m') \<and> length (mrs_r m') = maxsize + 1
            \<and> 0 < mrs_n m' \<and> mrs_n m' \<le> maxsize \<and> segs m' = set_segs (segs m) t i f j l"
    then obtain m' where r: "mrs_set maxsize m f0 l0 t = Inr (True, m')"
      and m': "length (mrs_r m') = maxsize + 1" "0 < mrs_n m'" "mrs_n m' \<le> maxsize"
        "segs m' = set_segs (segs m) t i f j l" by blast
    note v' = set_segs_valid[OF v refl e fl(1) m']
    have "sorted_wrt (\<lambda>x y. mr_addr x < mr_addr y) (segs m)" using v by (simp add: mrs_valid_segs segs_ok_def)
    then have "mrs_type m' a = (if f0 \<le> a \<and> a < l0 then Inr t else mrs_type m a)" if "a < mrs_limit m" for a
      using that v' m'(4) mrs_type_eq[OF v, of a] mrs_type_eq[OF v'(1), of a] set_segs_lookup[OF _ e fl(1), of a]
      by simp
    with r v' show thesis by (rule upd)
  qed (blast intro: full)
qed

lemma mrs_set_total:
  assumes "mrs_valid maxsize m" "f0 \<le> l0" "l0 \<le> mrs_limit m"
  shows "\<exists>b m'. mrs_set maxsize m f0 l0 t = Inr (b, m') \<and> mrs_valid maxsize m' \<and> mrs_limit m' = mrs_limit m
     \<and> (if b then \<forall>a < mrs_limit m. mrs_type m' a = (if f0 \<le> a \<and> a < l0 then Inr t else mrs_type m a)
        else m' = m \<and> mrs_n m + 2 > maxsize)"
proof (cases "f0 = l0")
  case True
  then have "mrs_set maxsize m f0 l0 t = Inr (True, m)"
    using assms by (simp add: mrs_set_def Let_def mrs_limit_def)
  then show ?thesis using assms True by (intro exI[of _ True] exI[of _ m]) auto
next
  case False
  then have "f0 < l0" using assms(2) by simp
  from assms(1) this assms(3) show ?thesis
  proof (cases rule: mrs_set_updates[of maxsize m f0 l0 t])
    case (upd m')
    then show ?thesis by (intro exI[of _ True] exI[of _ m']) simp
  next
    case full
    then show ?thesis using assms(1) by (intro exI[of _ False] exI[of _ m]) simp
  qed
qed

text \<open>
  C11: on a well-formed set, \<open>memrangeset::set(first, last, t)\<close> trips none of its assertions and
  stays inside its array.  When it answers true the set is again well formed (sorted, adjacent
  ranges of different type, same limit) and every address has type \<open>t\<close> inside the interval and
  its old type outside; when it answers false the set is unchanged and had no room for two more
  ranges.
\<close>

theorem mrs_set_correct:
  assumes "mrs_valid maxsize m" "f0 \<le> l0" "l0 \<le> mrs_limit m"
  shows "\<exists>b m'. mrs_set maxsize m f0 l0 t = Inr (b, m') \<and> mrs_valid maxsize m' \<and> mrs_limit m' = mrs_limit m
     \<and> (if b then \<forall>a < mrs_limit m. mrs_type m' a = (if f0 \<le> a \<and> a < l0 then Inr t else mrs_type m a)
        else m' = m \<and> mrs_n m + 2 > maxsize)"
  by (rule mrs_set_total[OF assms])

theorem mrs_set_correct_witness:
  "\<exists>b m'. mrs_set 4 (mrs_init (replicate 5 \<lparr>mr_addr = 9, mr_type = 9\<rparr>) 100) 10 20 2 = Inr (b, m')
     \<and> mrs_valid 4 m' \<and> mrs_limit m' = 100"
  using mrs_set_correct[of 4 "mrs_init (replicate 5 \<lparr>mr_addr = 9, mr_type = 9\<rparr>) 100" 10 20 2]
  by (auto simp: mrs_init_valid)

end
