(* ===== verification/Buddy_Init.thy ===== *)
theory Buddy_Init
  imports Buddy_Correct Memrange
begin

text \<open>
  How the allocator comes up: \<open>init_physical_ranges\<close> of \<open>k-init.cc\<close> records what each range of
  physical memory is used for, and \<open>init_kalloc\<close> of \<open>k-alloc.cc\<close> carves the ranges into blocks.
  The main result is that the invariant holds afterwards and that the free blocks cover exactly
  the available memory.
\<close>

section \<open>Operations\<close>

text \<open>
  \<open>init_kalloc\<close>: \<open>memset(pages, 0)\<close>, then for each range below \<open>MEMSIZE_PHYSICAL\<close> the loop that
  carves the range into maximal aligned blocks.
\<close>

function init_range :: "kalloc_state \<Rightarrow> nat \<Rightarrow> nat \<Rightarrow> int \<Rightarrow> kalloc_state res" where
  "init_range st addr last1 type =
     (if addr < last1
      then (let order = find_max_order addr last1
            in if order > 0
               then (let pindex = addr div PAGESIZE
                     in rbind (set_page st pindex (\<lambda>p. p\<lparr>ps_order := nat order\<rparr>)) (\<lambda>st1.
                        rbind (set_page st1 pindex (\<lambda>p. p\<lparr>ps_pindex := pindex\<rparr>)) (\<lambda>st2.
                        rbind (if type = 1
                               then rbind (set_page st2 pindex (\<lambda>p. p\<lparr>ps_allocated := False\<rparr>))
                                      (\<lambda>st3. push_free st3 (nat order) pindex)
                               else set_page st2 pindex (\<lambda>p. p\<lparr>ps_allocated := True\<rparr>)) (\<lambda>st4.
                        init_range st4 (addr + 2 ^ nat order) last1 type))))
               else Inr st)
      else Inr st)"
  by pat_completeness auto
termination
  by (relation "measure (\<lambda>(_, addr, last1, _). last1 - addr)") (auto intro!: diff_less_mono2)

declare init_range.simps [simp del]

function init_ranges :: "nat \<Rightarrow> memrangeset \<Rightarrow> kalloc_state \<Rightarrow> nat \<Rightarrow> kalloc_state res" where
  "init_ranges memsize ranges st i =
     (if \<not> i < length (mrs_r ranges) then Inl Out_Of_Bounds
      else if mrs_first ranges i < memsize
      then (if \<not> i + 1 < length (mrs_r ranges) then Inl Out_Of_Bounds
            else rbind (init_range st (mrs_first ranges i) (mrs_last ranges i) (mr_type (mrs_r ranges ! i)))
                   (\<lambda>st'. init_ranges memsize ranges st' (i + 1)))
      else Inr st)"
  by pat_completeness auto
termination
  by (relation "measure (\<lambda>(_, ranges, _, i). length (mrs_r ranges) - i)") auto

declare init_ranges.simps [simp del]

definition init_kalloc :: "memrangeset \<Rightarrow> kalloc_state \<Rightarrow> kalloc_state res" where
  "init_kalloc ranges st =
     init_ranges (length (pages st) * PAGESIZE) ranges
       (st\<lparr>pages := replicate (length (pages st)) zero_page,
           klinks := (\<lambda>a. if 13 \<le> a \<and> a < 13 + length (pages st)
                          then \<lparr>ll_next = None, ll_prev = None\<rparr> else klinks st a)\<rparr>) 0"

text \<open>
  The calls of \<open>init_physical_ranges\<close> in order.  The addresses that the linker and the boot loader
  choose are parameters: the console page, the screen memory, the low data and kernel segments, and
  the symbol table (absent when its size is 0).  The answers of \<open>set\<close> are ignored by the code.
\<close>

record link_map =
  lm_console :: nat
  lm_screen :: "nat \<times> nat"
  lm_low_data :: "nat \<times> nat"
  lm_kernel :: "nat \<times> nat"
  lm_symtab :: "nat \<times> nat"

definition round_down :: "nat \<Rightarrow> nat \<Rightarrow> nat" where
  "round_down x m = x - x mod m"

definition round_up :: "nat \<Rightarrow> nat \<Rightarrow> nat" where
  "round_up x m = round_down (x + m - 1) m"

definition physical_range_sets :: "nat \<Rightarrow> link_map \<Rightarrow> (nat \<times> nat \<times> int) list" where
  "physical_range_sets memsize lm =
     [(0, memsize, 1), (0, PAGESIZE, 3), (0xA0000, 0x100000, 3), (0xC0000000, 0x100000000, 3),
      (lm_console lm, lm_console lm + PAGESIZE, 4),
      (fst (lm_screen lm), fst (lm_screen lm) + snd (lm_screen lm), 4),
      (round_down (fst (lm_low_data lm)) PAGESIZE, round_up (snd (lm_low_data lm)) PAGESIZE, 2),
      (round_down (fst (lm_kernel lm)) PAGESIZE, round_up (snd (lm_kernel lm)) PAGESIZE, 2)]
     @ (if snd (lm_symtab lm) \<noteq> 0
        then [(round_down (fst (lm_symtab lm)) PAGESIZE,
               round_up (fst (lm_symtab lm) + snd (lm_symtab lm)) PAGESIZE, 2)] else [])"

fun set_ranges :: "memrangeset \<Rightarrow> (nat \<times> nat \<times> int) list \<Rightarrow> memrangeset res" where
  "set_ranges m [] = Inr m"
| "set_ranges m ((first1, last1, type) # sets) =
     rbind (mrs_set 16 m first1 last1 type) (\<lambda>(_, m'). set_ranges m' sets)"

definition init_physical_ranges :: "nat \<Rightarrow> link_map \<Rightarrow> memrangeset \<Rightarrow> memrangeset res" where
  "init_physical_ranges memsize lm m = set_ranges m (physical_range_sets memsize lm)"

section \<open>Carving\<close>

lemma blocks_ok_snoc:
  assumes ok: "blocks_ok xs" and m: "m \<in> orders" and d: "bsz m dvd length xs"
  shows "blocks_ok (xs @ \<lparr>ps_order = m, ps_pindex = length xs, ps_allocated = b\<rparr> # replicate (bsz m - 1) zero_page)"
    (is "blocks_ok ?ys")
proof -
  let ?k = "length xs"
  have len: "length ?ys = ?k + bsz m" using bsz_pos(1)[of m] by simp
  have lo: "?ys ! p = xs ! p" if "p < ?k" for p using that by (simp add: nth_append)
  have at: "?ys ! ?k = \<lparr>ps_order = m, ps_pindex = ?k, ps_allocated = b\<rparr>" by simp
  have hi: "?ys ! p = zero_page" if "?k < p" "p < ?k + bsz m" for p
    using that by (simp add: nth_append nth_Cons')
  have hd_k: "head_ok ?ys ?k" unfolding head_ok_def len at using m d hi by (auto simp: zero_page_def)
  have "if ps_order (?ys ! p) = 0 then inner_ok ?ys p else head_ok ?ys p" if p: "p < ?k + bsz m" for p
  proof -
    consider "p < ?k" "ps_order (xs ! p) = 0" | "p < ?k" "ps_order (xs ! p) \<noteq> 0" | "p = ?k" | "?k < p" by linarith
    then show ?thesis
    proof cases
      case 1
      obtain h where h: "h < p" "ps_order (xs ! h) \<noteq> 0" "p < h + bsz (ps_order (xs ! h))" "\<not> ps_allocated (xs ! p)"
        using blocks_okD(2)[OF ok 1] by (rule inner_okE)
      then have "inner_ok ?ys p" by (intro inner_okI[of _ _ h]) (use 1 lo[of h] lo[of p] in simp_all)
      then show ?thesis using lo[OF 1(1)] 1(2) by simp
    next
      case 2
      have hp: "head_ok xs p" using blocks_okD(1)[OF ok 2] .
      note hd = head_okD[OF hp]
      have "head_ok ?ys p"
        unfolding head_ok_def len lo[OF 2(1)]
        using hd head_inner[OF hp] lo by (intro conjI allI impI) (simp_all add: zero_page_def)
      then show ?thesis using lo[OF 2(1)] 2(2) by simp
    next
      case 3
      then show ?thesis using hd_k at m by auto
    next
      case 4
      have "inner_ok ?ys p"
        by (rule inner_okI[of _ _ ?k]) (use 4 p at hi[OF 4 p] m in \<open>simp_all add: zero_page_def\<close>)
      then show ?thesis using hi[OF 4 p] by (simp add: zero_page_def)
    qed
  qed
  then show ?thesis unfolding blocks_ok_def len by blast
qed

text \<open>
  \<open>carved ty st k L\<close>: the first \<open>k\<close> pages are tiled by blocks, the rest of the array is still zero,
  and below page \<open>k\<close> the allocated blocks cover exactly the addresses whose type is not available.
\<close>

definition carved :: "(nat \<Rightarrow> int) \<Rightarrow> kalloc_state \<Rightarrow> nat \<Rightarrow> (nat \<Rightarrow> nat list) \<Rightarrow> bool" where
  "carved ty st k L \<longleftrightarrow> k \<le> length (pages st) \<and> blocks_ok (take k (pages st))
     \<and> (\<forall>p. k \<le> p \<and> p < length (pages st) \<longrightarrow> pages st ! p = zero_page) \<and> lists_hold st L {}
     \<and> (\<forall>a < k * PAGESIZE. (\<exists>r \<in> live_blocks st. a \<in> region r) \<longleftrightarrow> ty a \<noteq> 1)"

definition put_block :: "kalloc_state \<Rightarrow> nat \<Rightarrow> nat \<Rightarrow> bool \<Rightarrow> kalloc_state" where
  "put_block st p m b = st\<lparr>pages := (pages st)[p := \<lparr>ps_order = m, ps_pindex = p, ps_allocated = b\<rparr>]\<rparr>"

lemma put_block_live:
  assumes "p < length (pages st)" "pages st ! p = zero_page"
  shows "live_blocks (put_block st p m b) = live_blocks st \<union> (if b then {(p * PAGESIZE, 2 ^ m)} else {})"
proof -
  have "{q. q < length (pages st) \<and> ps_allocated ((pages st)[p := \<lparr>ps_order = m, ps_pindex = p, ps_allocated = b\<rparr>] ! q)}
      = {q. q < length (pages st) \<and> ps_allocated (pages st ! q)} \<union> (if b then {p} else {})"
    using assms by (auto simp: nth_list_update zero_page_def)
  moreover have "ps_order ((pages st)[p := \<lparr>ps_order = m, ps_pindex = p, ps_allocated = b\<rparr>] ! q) = ps_order (pages st ! q)"
    if "ps_allocated (pages st ! q)" for q
    using that assms by (cases "q = p") (simp_all add: zero_page_def)
  ultimately show ?thesis
    using assms(1) by (auto simp: live_blocks_def put_block_def image_Un zero_page_def intro!: image_eqI)
qed

lemma carve_tiles:
  assumes c: "carved ty st k L" and m: "m \<in> orders" "bsz m dvd k" "k + bsz m \<le> length (pages st)"
  shows "blocks_ok (take (k + bsz m) (pages (put_block st k m b)))"
proof -
  let ?x = "\<lparr>ps_order = m, ps_pindex = k, ps_allocated = b\<rparr>"
  have k: "k < length (pages st)" using m(3) bsz_pos(1)[of m] by linarith
  have z: "\<And>p. k \<le> p \<Longrightarrow> p < length (pages st) \<Longrightarrow> pages st ! p = zero_page" and ok: "blocks_ok (take k (pages st))"
    using c by (auto simp: carved_def)
  have "take (k + bsz m) (pages (put_block st k m b)) = take k (pages st) @ ?x # replicate (bsz m - 1) zero_page"
  proof (rule nth_equalityI)
    show len: "length (take (k + bsz m) (pages (put_block st k m b))) = length (take k (pages st) @ ?x # replicate (bsz m - 1) zero_page)"
      using k m(3) bsz_pos(1)[of m] by (simp add: put_block_def)
    fix i assume "i < length (take (k + bsz m) (pages (put_block st k m b)))"
    then have i: "i < k + bsz m" by simp
    show "take (k + bsz m) (pages (put_block st k m b)) ! i = (take k (pages st) @ ?x # replicate (bsz m - 1) zero_page) ! i"
      using i k m(3) z[of i] by (auto simp: put_block_def nth_append nth_Cons' nth_list_update)
  qed
  then show ?thesis using blocks_ok_snoc[OF ok m(1), of b] m(2) k by (simp add: min_def)
qed

lemma carve_lists:
  assumes c: "carved ty st k L" and m: "m \<in> orders" and k: "k < length (pages st)"
  shows "lists_hold (put_block st k m True) L {}"
    and "\<exists>s'. push_free (put_block st k m False) m k = Inr ((put_block st k m False)\<lparr>klinks := s'\<rparr>)
          \<and> lists_hold ((put_block st k m False)\<lparr>klinks := s'\<rparr>) (L(m := L m @ [k])) {}"
proof -
  have z: "pages st ! k = zero_page" and L: "lists_hold st L {}" using c k by (auto simp: carved_def)
  have kf: "k \<notin> free_pages (pages st) j" if "j \<in> orders" for j using that z by (auto simp: free_pages_def zero_page_def)
  have fp: "free_pages (pages (put_block st k m b)) j = free_pages (pages st) j \<union> (if j = m \<and> \<not> b then {k} else {})"
    if "j \<in> orders" for j b
    using kf[OF that] k by (auto simp: put_block_def free_pages_update)
  show "lists_hold (put_block st k m True) L {}"
    using L fp[where b = True] by (auto simp: lists_hold_def put_block_def)
  have "on_no_list L k" using not_on_list[OF L, of k] z by (simp add: zero_page_def)
  then obtain s' where s': "push_free (put_block st k m False) m k = Inr ((put_block st k m False)\<lparr>klinks := s'\<rparr>)"
    "fl_rep s' (length (pages st)) (L(m := L m @ [k]))"
    using fl_push[of "put_block st k m False" "length (pages st)" L m k] lists_holdD(1)[OF L] m k
    by (auto simp: put_block_def)
  have "set ((L(m := L m @ [k])) j) = free_pages (pages (put_block st k m False)) j" if "j \<in> orders" for j
    using fp[OF that, of False] lists_holdD(2)[OF L that] by auto
  then show "\<exists>s'. push_free (put_block st k m False) m k = Inr ((put_block st k m False)\<lparr>klinks := s'\<rparr>)
          \<and> lists_hold ((put_block st k m False)\<lparr>klinks := s'\<rparr>) (L(m := L m @ [k])) {}"
    using s' by (auto simp: lists_hold_def put_block_def)
qed

lemma carved_live_below:
  assumes c: "carved ty st k L" and r: "r \<in> live_blocks st"
  shows "region r \<subseteq> {..<k * PAGESIZE}"
proof -
  obtain p where p: "p < length (pages st)" "ps_allocated (pages st ! p)" "r = (p * PAGESIZE, 2 ^ ps_order (pages st ! p))"
    using r by (auto simp: live_blocks_def)
  have k: "k \<le> length (pages st)" and ok: "blocks_ok (take k (pages st))" using c by (auto simp: carved_def)
  have "p < k"
  proof (rule ccontr)
    assume "\<not> p < k"
    then have "pages st ! p = zero_page" using c p(1) by (auto simp: carved_def)
    then show False using p(2) by (simp add: zero_page_def)
  qed
  then have pk: "p < length (take k (pages st))" "ps_allocated (take k (pages st) ! p)" using p k by simp_all
  note hd = head_okD[OF blocks_okD(1)[OF ok pk(1) allocated_order[OF ok pk]]]
  have "p + bsz (ps_order (pages st ! p)) \<le> k" using hd(4) k \<open>p < k\<close> by simp
  then have "(p + bsz (ps_order (pages st ! p))) * PAGESIZE \<le> k * PAGESIZE" by (rule mult_le_mono1)
  moreover have "bsz (ps_order (pages st ! p)) * PAGESIZE = 2 ^ ps_order (pages st ! p)"
    using hd(1) \<open>p < k\<close> bsz_page by simp
  ultimately show ?thesis unfolding region_def p(3) by (auto simp: distrib_right)
qed

lemma carve_cover:
  assumes c: "carved ty st k L" and m: "m \<in> orders" "k + bsz m \<le> length (pages st)"
    and ty: "\<And>a. k * PAGESIZE \<le> a \<Longrightarrow> a < (k + bsz m) * PAGESIZE \<Longrightarrow> ty a = t"
    and a: "a < (k + bsz m) * PAGESIZE"
  shows "(\<exists>r \<in> live_blocks (put_block st k m (t \<noteq> 1)). a \<in> region r) \<longleftrightarrow> ty a \<noteq> 1"
proof -
  have k: "k < length (pages st)" using m(2) bsz_pos(1)[of m] by linarith
  have z: "pages st ! k = zero_page" using c k by (auto simp: carved_def)
  have new: "region (k * PAGESIZE, 2 ^ m) = {k * PAGESIZE..<(k + bsz m) * PAGESIZE}"
    using bsz_page[of m] m(1) by (simp add: region_def distrib_right)
  have old: "(\<exists>r \<in> live_blocks st. a \<in> region r) \<longleftrightarrow> a < k * PAGESIZE \<and> ty a \<noteq> 1"
  proof -
    have "a < k * PAGESIZE" if "r \<in> live_blocks st" "a \<in> region r" for r
      using carved_live_below[OF c that(1)] that(2) by auto
    moreover have "a < k * PAGESIZE \<Longrightarrow> (\<exists>r \<in> live_blocks st. a \<in> region r) \<longleftrightarrow> ty a \<noteq> 1"
      using c by (simp add: carved_def)
    ultimately show ?thesis by blast
  qed
  show ?thesis unfolding put_block_live[OF k z] using old new ty[of a] a by auto
qed

lemma carve_step:
  assumes c: "carved ty st k L" and m: "m \<in> orders" "bsz m dvd k" "k + bsz m \<le> length (pages st)"
    and ty: "\<And>a. k * PAGESIZE \<le> a \<Longrightarrow> a < (k + bsz m) * PAGESIZE \<Longrightarrow> ty a = t"
    and find: "find_max_order (k * PAGESIZE) e = int m" and e: "k * PAGESIZE < e"
  obtains st' L' where "init_range st (k * PAGESIZE) e t = init_range st' ((k + bsz m) * PAGESIZE) e t"
    "carved ty st' (k + bsz m) L'" "length (pages st') = length (pages st)"
proof -
  have k: "k < length (pages st)" using m(3) bsz_pos(1)[of m] by linarith
  have sz: "(k + bsz m) * PAGESIZE = k * PAGESIZE + 2 ^ m" using bsz_page[of m] m(1) by (simp add: distrib_right)
  have z: "\<forall>p. k + bsz m \<le> p \<and> p < length (pages st) \<longrightarrow> pages (put_block st k m b) ! p = zero_page" for b
    using c bsz_pos(1)[of m] by (auto simp: carved_def put_block_def simp del: bsz_pos)
  have cov: "\<forall>a < (k + bsz m) * PAGESIZE. (\<exists>r \<in> live_blocks (put_block st k m (t \<noteq> 1)). a \<in> region r) \<longleftrightarrow> ty a \<noteq> 1"
    using carve_cover[OF c m(1,3) ty] by blast
  have rec: "(pages st ! k)\<lparr>ps_order := m, ps_pindex := k, ps_allocated := b\<rparr> = \<lparr>ps_order = m, ps_pindex = k, ps_allocated = b\<rparr>" for b
    by simp
  have m0: "0 < m" using m(1) by simp
  note run = init_range.simps[of st "k * PAGESIZE" e t, unfolded Let_def find]
  show thesis
  proof (cases "t = 1")
    case True
    obtain s' where s': "push_free (put_block st k m False) m k = Inr ((put_block st k m False)\<lparr>klinks := s'\<rparr>)"
      "lists_hold ((put_block st k m False)\<lparr>klinks := s'\<rparr>) (L(m := L m @ [k])) {}"
      using carve_lists(2)[OF c m(1) k] by blast
    show thesis
    proof (rule that)
      show "init_range st (k * PAGESIZE) e t = init_range ((put_block st k m False)\<lparr>klinks := s'\<rparr>) ((k + bsz m) * PAGESIZE) e t"
        using True e m0 k s'(1) unfolding run sz by (simp add: put_block_def rec)
      show "carved ty ((put_block st k m False)\<lparr>klinks := s'\<rparr>) (k + bsz m) (L(m := L m @ [k]))"
        using s'(2) carve_tiles[OF c m, of False] z[of False] cov True m(3) by (simp add: carved_def put_block_def)
    qed (simp add: put_block_def)
  next
    case False
    show thesis
    proof (rule that)
      show "init_range st (k * PAGESIZE) e t = init_range (put_block st k m True) ((k + bsz m) * PAGESIZE) e t"
        using False e m0 k unfolding run sz by (simp add: put_block_def rec)
      show "carved ty (put_block st k m True) (k + bsz m) L"
        using carve_lists(1)[OF c m(1) k] carve_tiles[OF c m, of True] z[of True] cov False m(3)
        by (simp add: carved_def put_block_def)
    qed (simp add: put_block_def)
  qed
qed

lemma find_max_order_ok:
  assumes "PAGESIZE dvd start" "PAGESIZE dvd e" "start < e"
  obtains m where "find_max_order start e = int m" "m \<in> orders" "2 ^ m dvd start" "start + 2 ^ m \<le> e"
proof -
  have le: "start + 2 ^ MIN_ORDER \<le> e"
  proof -
    obtain i j where "start = PAGESIZE * i" "e = PAGESIZE * j" using assms by (auto elim!: dvdE)
    then show ?thesis using assms(3) by simp
  qed
  have "\<exists>m. find_max_order_from n start e = int m \<and> m \<in> orders \<and> 2 ^ m dvd start \<and> start + 2 ^ m \<le> e"
    if "MIN_ORDER \<le> n" "n \<le> MAX_ORDER" for n
    using that
  proof (induction n rule: dec_induct)
    case base
    then show ?case using le assms(1) by (subst find_max_order_from.simps) auto
  next
    case (step n)
    then show ?case
      by (subst find_max_order_from.simps) (auto simp: mod_eq_0_iff_dvd intro!: exI[of _ "Suc n"])
  qed
  from this[of MAX_ORDER] show thesis using that by (auto simp: find_max_order_def)
qed

lemma init_range_ok:
  assumes "carved ty st k L" "k \<le> e" "e \<le> length (pages st)"
    and "\<And>a. k * PAGESIZE \<le> a \<Longrightarrow> a < e * PAGESIZE \<Longrightarrow> ty a = t"
  shows "\<exists>st' L'. init_range st (k * PAGESIZE) (e * PAGESIZE) t = Inr st' \<and> carved ty st' e L'
    \<and> length (pages st') = length (pages st)"
  using assms
proof (induction "e - k" arbitrary: st k L rule: less_induct)
  case less
  show ?case
  proof (cases "k = e")
    case True
    then show ?thesis using less.prems by (subst init_range.simps) auto
  next
    case False
    then have ke: "k * PAGESIZE < e * PAGESIZE" using less.prems(2) by simp
    obtain m where m: "find_max_order (k * PAGESIZE) (e * PAGESIZE) = int m" "m \<in> orders" "2 ^ m dvd k * PAGESIZE"
      "k * PAGESIZE + 2 ^ m \<le> e * PAGESIZE"
      using find_max_order_ok[OF _ _ ke] by auto
    have sz: "(2::nat) ^ m = bsz m * PAGESIZE" using bsz_page m(2) by simp
    have d: "bsz m dvd k" and le: "k + bsz m \<le> e"
      using m(3,4) unfolding sz distrib_right[symmetric] by simp_all
    have le2: "(k + bsz m) * PAGESIZE \<le> e * PAGESIZE" using le by (rule mult_le_mono1)
    obtain st1 L1 where s: "init_range st (k * PAGESIZE) (e * PAGESIZE) t = init_range st1 ((k + bsz m) * PAGESIZE) (e * PAGESIZE) t"
      "carved ty st1 (k + bsz m) L1" "length (pages st1) = length (pages st)"
    proof (rule carve_step[OF less.prems(1) m(2) d _ _ m(1) ke])
      show "k + bsz m \<le> length (pages st)" using le less.prems(3) by simp
      show "ty a = t" if "k * PAGESIZE \<le> a" "a < (k + bsz m) * PAGESIZE" for a
        using that le2 by (intro less.prems(4)) simp_all
    qed
    have "e - (k + bsz m) < e - k" using le bsz_pos(1)[of m] by linarith
    from less.hyps[OF this s(2) le] show ?thesis
      using s(1,3) less.prems(3,4) by simp
  qed
qed

lemma init_ranges_ok:
  assumes v: "mrs_valid maxsize ranges" and al: "\<And>i. i \<le> mrs_n ranges \<Longrightarrow> PAGESIZE dvd mr_addr (mrs_r ranges ! i)"
    and j: "j \<le> mrs_n ranges" "mr_addr (mrs_r ranges ! j) = length (pages st) * PAGESIZE"
    and i: "i \<le> j" and c: "carved (seg_type (segs ranges)) st (mr_addr (mrs_r ranges ! i) div PAGESIZE) L"
  shows "\<exists>st' L'. init_ranges (length (pages st) * PAGESIZE) ranges st i = Inr st'
    \<and> carved (seg_type (segs ranges)) st' (length (pages st)) L' \<and> length (pages st') = length (pages st)"
  using i c j(2)
proof (induction "j - i" arbitrary: i st L rule: less_induct)
  case less
  let ?A = "\<lambda>i. mr_addr (mrs_r ranges ! i)"
  have len: "mrs_n ranges < length (mrs_r ranges)" using v by (simp add: mrs_valid_def)
  note run = init_ranges.simps[of "length (pages st) * PAGESIZE" ranges st i]
  show ?case
  proof (cases "i = j")
    case True
    then have "init_ranges (length (pages st) * PAGESIZE) ranges st i = Inr st"
      unfolding run using len j(1) less.prems(3) by (simp add: mrs_first_def)
    then show ?thesis using less.prems True by auto
  next
    case False
    then have ij: "i < j" "i + 1 \<le> mrs_n ranges" using less.prems(1) j(1) by auto
    obtain a b where ab: "?A i = a * PAGESIZE" "?A (i + 1) = b * PAGESIZE"
      using al[of i] al[of "i + 1"] ij(2) by (auto elim!: dvdE simp: mult.commute)
    have srt: "sorted_wrt (\<lambda>x y. mr_addr x < mr_addr y) (segs ranges)" using v by (simp add: mrs_valid_segs segs_ok_def)
    have mono: "?A x < ?A y" if "x < y" "y \<le> mrs_n ranges" for x y
      using sorted_wrt_nth_less[OF srt that(1)] that len by (simp add: length_segs nth_segs)
    have b: "b \<le> length (pages st)" "a < b"
      using mono[of "i + 1" j] mono[of i "i + 1"] ij j(1) ab less.prems(3) by (cases "i + 1 = j"; simp)+
    have ty: "seg_type (segs ranges) x = mr_type (mrs_r ranges ! i)" if "a * PAGESIZE \<le> x" "x < b * PAGESIZE" for x
      using seg_type_nth[OF srt, of i x] that ab ij(2) len by (simp add: length_segs nth_segs)
    have ca: "carved (seg_type (segs ranges)) st a L" using less.prems(2) ab(1) by simp
    obtain st1 L1 where s: "init_range st (a * PAGESIZE) (b * PAGESIZE) (mr_type (mrs_r ranges ! i)) = Inr st1"
      "carved (seg_type (segs ranges)) st1 b L1" "length (pages st1) = length (pages st)"
      using init_range_ok[OF ca _ b(1) ty] b(2) by auto
    have "init_ranges (length (pages st) * PAGESIZE) ranges st i = init_ranges (length (pages st) * PAGESIZE) ranges st1 (i + 1)"
      unfolding run using len ij mono[of i j] less.prems(3) j(1) s(1) ab by (simp add: mrs_first_def mrs_last_def)
    then show ?thesis
      using less.hyps[of "i + 1" st1 L1] ij(1) s(2,3) ab(2) less.prems(3) by simp
  qed
qed

lemma start_carved:
  assumes "\<forall>m \<in> orders. klinks st (fl_head m) = \<lparr>ll_next = Some (fl_head m), ll_prev = Some (fl_head m)\<rparr>"
  shows "carved ty (st\<lparr>pages := replicate (length (pages st)) zero_page,
           klinks := (\<lambda>a. if 13 \<le> a \<and> a < 13 + length (pages st)
                          then \<lparr>ll_next = None, ll_prev = None\<rparr> else klinks st a)\<rparr>) 0 (\<lambda>_. [])"
  using assms
  by (auto simp: carved_def blocks_ok_def lists_hold_def fl_rep_def is_list_def free_pages_def zero_page_def
      unlinked_def page_link_def fl_head_def)

lemma mrs_valid_first: "mrs_valid maxsize m \<Longrightarrow> mr_addr (mrs_r m ! 0) = 0"
  by (simp add: mrs_valid_def)

text \<open>
  C9: \<open>init_kalloc\<close> returns with the invariant established, for every well-formed set of
  page-aligned ranges with a boundary at the end of memory and empty list heads: afterwards an
  address is inside an allocated block exactly when its range is not available memory.
\<close>

theorem init_kalloc_correct:
  assumes v: "mrs_valid maxsize ranges" and al: "\<forall>i \<le> mrs_n ranges. PAGESIZE dvd mr_addr (mrs_r ranges ! i)"
    and j: "j \<le> mrs_n ranges" "mr_addr (mrs_r ranges ! j) = length (pages st) * PAGESIZE"
    and hd: "\<forall>m \<in> orders. klinks st (fl_head m) = \<lparr>ll_next = Some (fl_head m), ll_prev = Some (fl_head m)\<rparr>"
  shows "\<exists>st'. init_kalloc ranges st = Inr st' \<and> kalloc_inv st' \<and> length (pages st') = length (pages st)
    \<and> (\<forall>a < length (pages st) * PAGESIZE. (\<exists>r \<in> live_blocks st'. a \<in> region r) \<longleftrightarrow> mrs_type ranges a \<noteq> Inr 1)"
proof -
  define st0 where "st0 = st\<lparr>pages := replicate (length (pages st)) zero_page,
           klinks := (\<lambda>a. if 13 \<le> a \<and> a < 13 + length (pages st)
                          then \<lparr>ll_next = None, ll_prev = None\<rparr> else klinks st a)\<rparr>"
  have len: "length (pages st0) = length (pages st)" by (simp add: st0_def)
  have c: "carved (seg_type (segs ranges)) st0 (mr_addr (mrs_r ranges ! 0) div PAGESIZE) (\<lambda>_. [])"
    unfolding mrs_valid_first[OF v] using start_carved[OF hd] by (simp add: st0_def)
  obtain st' L' where s: "init_kalloc ranges st = Inr st'" "carved (seg_type (segs ranges)) st' (length (pages st)) L'"
    "length (pages st') = length (pages st)"
    using init_ranges_ok[OF v _ j(1) _ _ c] al j(2) len by (auto simp: init_kalloc_def st0_def)
  have lim: "length (pages st) * PAGESIZE \<le> mrs_limit ranges"
  proof (cases "j = mrs_n ranges")
    case True
    then show ?thesis using j(2) by (simp add: mrs_limit_def)
  next
    case False
    have "sorted_wrt (\<lambda>x y. mr_addr x < mr_addr y) (segs ranges)" using v by (simp add: mrs_valid_segs segs_ok_def)
    from sorted_wrt_nth_less[OF this, of j "mrs_n ranges"] show ?thesis
      using False j v by (simp add: mrs_limit_def length_segs nth_segs mrs_valid_def)
  qed
  have "kalloc_inv st'" using s(2,3) by (auto simp: carved_def kalloc_inv_def)
  moreover have "(\<exists>r \<in> live_blocks st'. a \<in> region r) \<longleftrightarrow> mrs_type ranges a \<noteq> Inr 1" if "a < length (pages st) * PAGESIZE" for a
    using s(2) that lim mrs_type_eq[OF v, of a] by (simp add: carved_def)
  ultimately show ?thesis using s(1,3) by blast
qed

definition ranges2 :: memrangeset where
  "ranges2 = \<lparr>mrs_n = 2, mrs_r = [\<lparr>mr_addr = 0, mr_type = 3\<rparr>, \<lparr>mr_addr = 4096, mr_type = 1\<rparr>,
     \<lparr>mr_addr = 16384, mr_type = 0\<rparr>]\<rparr>"

definition blank4 :: kalloc_state where
  "blank4 = \<lparr>pages = replicate 4 zero_page,
     klinks = (\<lambda>a. if a < 13 then \<lparr>ll_next = Some a, ll_prev = Some a\<rparr> else \<lparr>ll_next = None, ll_prev = None\<rparr>),
     kmem = (\<lambda>_. 0)\<rparr>"

theorem init_kalloc_correct_witness:
  "\<exists>st'. init_kalloc ranges2 blank4 = Inr st' \<and> kalloc_inv st'"
proof -
  have "mrs_valid 2 ranges2" by (auto simp: mrs_valid_def ranges2_def nth_Cons' less_2_cases_iff)
  moreover have "\<forall>i \<le> mrs_n ranges2. PAGESIZE dvd mr_addr (mrs_r ranges2 ! i)"
    by (auto simp: ranges2_def nth_Cons' numeral_2_eq_2 le_Suc_eq)
  moreover have "\<forall>m \<in> orders. klinks blank4 (fl_head m) = \<lparr>ll_next = Some (fl_head m), ll_prev = Some (fl_head m)\<rparr>"
    by (auto simp: blank4_def fl_head_def)
  moreover have "2 \<le> mrs_n ranges2" "mr_addr (mrs_r ranges2 ! 2) = length (pages blank4) * PAGESIZE"
    by (simp_all add: ranges2_def blank4_def)
  ultimately show ?thesis using init_kalloc_correct[of 2 ranges2 2 blank4] by blast
qed

lemma set_ranges_valid:
  assumes "mrs_valid 16 m" "\<forall>(f, l, t) \<in> set sets. f \<le> l \<and> l \<le> mrs_limit m"
  shows "\<exists>m'. set_ranges m sets = Inr m' \<and> mrs_valid 16 m' \<and> mrs_limit m' = mrs_limit m"
  using assms
proof (induction sets arbitrary: m)
  case Nil
  then show ?case by simp
next
  case (Cons x sets)
  obtain f l t where x: "x = (f, l, t)" by (cases x) auto
  have fl: "f \<le> l" "l \<le> mrs_limit m" using Cons.prems(2) x by auto
  obtain b m1 where m1: "mrs_set 16 m f l t = Inr (b, m1)" "mrs_valid 16 m1" "mrs_limit m1 = mrs_limit m"
    using mrs_set_total[OF Cons.prems(1) fl] by blast
  show ?case using Cons.IH[OF m1(2)] m1 x Cons.prems(2) by simp
qed

end
