(* ===== verification/Pipe.thy ===== *)
theory Pipe
  imports Kernel_Prelude
begin

text \<open>
  Pipes: the bounded buffer \<open>bbuffer\<close> of \<open>k-vfs.hh\<close> and \<open>vnode_pipe::read\<close> and \<open>::write\<close> of
  \<open>k-vfs.cc\<close>.  One call runs with \<open>bb_->lock_\<close> held from its test of the wait predicate to its
  end, so a call is one step: it either cannot proceed (\<open>Would_Block\<close>, the state is unchanged and
  the process sleeps on the wait queue) or returns.  The ring buffer implements a byte queue; the
  contract is a locale, and the FIFO property of whole runs is proved from the contract.
\<close>

section \<open>State\<close>

abbreviation BBUFFER_SIZE :: nat where "BBUFFER_SIZE \<equiv> 128"

record bbuffer =
  bb_buf :: "u8 list"
  bb_pos :: nat
  bb_len :: nat
  bb_read_closed :: bool
  bb_write_closed :: bool

definition bbuffer_new :: bbuffer where
  "bbuffer_new = \<lparr>bb_buf = replicate BBUFFER_SIZE 0, bb_pos = 0, bb_len = 0,
                  bb_read_closed = False, bb_write_closed = False\<rparr>"

text \<open>
  What a call does: \<open>Return n data wake\<close> is a return value, the bytes copied to the caller, and
  whether \<open>wake_all\<close> was called on the wait queue of the other side.
\<close>

datatype pipe_out = Would_Block | Return int "u8 list" bool

abbreviation E_PIPE :: int where "E_PIPE \<equiv> -32"

section \<open>Operations\<close>

text \<open>
  The copy loops.  A \<open>size_t\<close> difference \<open>BBUFFER_SIZE - x\<close> is huge when \<open>x\<close> exceeds the size, so
  the comparison with it is then false.
\<close>

definition pipe_read_turn :: "bbuffer \<Rightarrow> nat \<Rightarrow> nat \<Rightarrow> u8 list \<Rightarrow> (bbuffer \<times> nat \<times> u8 list) res" where
  "pipe_read_turn bb sz input_pos out =
     (let ncopy0 = sz - input_pos;
          ncopy1 = (if bb_pos bb \<le> BBUFFER_SIZE \<and> ncopy0 > BBUFFER_SIZE - bb_pos bb
                    then BBUFFER_SIZE - bb_pos bb else ncopy0);
          ncopy = (if ncopy1 > bb_len bb then bb_len bb else ncopy1)
      in if bb_pos bb + ncopy \<le> length (bb_buf bb)
         then Inr (bb\<lparr>bb_pos := (bb_pos bb + ncopy) mod BBUFFER_SIZE, bb_len := bb_len bb - ncopy\<rparr>,
                   input_pos + ncopy, out @ take ncopy (drop (bb_pos bb) (bb_buf bb)))
         else Inl Out_Of_Bounds)"

primrec pipe_read_loop :: "nat \<Rightarrow> bbuffer \<Rightarrow> nat \<Rightarrow> nat \<Rightarrow> u8 list \<Rightarrow> (bbuffer \<times> u8 list) res" where
  "pipe_read_loop 0 bb sz input_pos out =
     (if input_pos < sz \<and> 0 < bb_len bb then Inl No_Return else Inr (bb, out))"
| "pipe_read_loop (Suc fuel) bb sz input_pos out =
     (if input_pos < sz \<and> 0 < bb_len bb
      then rbind (pipe_read_turn bb sz input_pos out) (\<lambda>(bb', ip', out'). pipe_read_loop fuel bb' sz ip' out')
      else Inr (bb, out))"

definition pipe_read :: "bbuffer \<Rightarrow> nat \<Rightarrow> (bbuffer \<times> pipe_out) res" where
  "pipe_read bb sz =
     assert_then (\<not> bb_read_closed bb)
       (if bb_len bb = 0 \<and> \<not> (sz = 0 \<or> bb_len bb > 0 \<or> bb_write_closed bb) then Inr (bb, Would_Block)
        else if bb_write_closed bb \<and> bb_len bb = 0 then Inr (bb, Return 0 [] False)
        else rbind (pipe_read_loop sz bb sz 0 []) (\<lambda>(bb', out).
               if out = [] \<and> 0 < sz then Inr (bb', Return (-1) [] False)
               else Inr (bb', Return (int (length out)) out True)))"

definition pipe_write_turn :: "bbuffer \<Rightarrow> u8 list \<Rightarrow> nat \<Rightarrow> (bbuffer \<times> nat) res" where
  "pipe_write_turn bb data input_pos =
     (let bb_index = (bb_pos bb + bb_len bb) mod BBUFFER_SIZE;
          ncopy0 = length data - input_pos;
          ncopy1 = (if ncopy0 > BBUFFER_SIZE - bb_index then BBUFFER_SIZE - bb_index else ncopy0);
          ncopy = (if ncopy1 > BBUFFER_SIZE - bb_len bb then BBUFFER_SIZE - bb_len bb else ncopy1)
      in if bb_index + ncopy \<le> length (bb_buf bb)
         then Inr (bb\<lparr>bb_buf := take bb_index (bb_buf bb) @ take ncopy (drop input_pos data)
                                @ drop (bb_index + ncopy) (bb_buf bb),
                      bb_len := bb_len bb + ncopy\<rparr>, input_pos + ncopy)
         else Inl Out_Of_Bounds)"

primrec pipe_write_loop :: "nat \<Rightarrow> bbuffer \<Rightarrow> u8 list \<Rightarrow> nat \<Rightarrow> (bbuffer \<times> nat) res" where
  "pipe_write_loop 0 bb data input_pos =
     (if input_pos < length data \<and> bb_len bb < BBUFFER_SIZE then Inl No_Return else Inr (bb, input_pos))"
| "pipe_write_loop (Suc fuel) bb data input_pos =
     (if input_pos < length data \<and> bb_len bb < BBUFFER_SIZE
      then rbind (pipe_write_turn bb data input_pos) (\<lambda>(bb', ip'). pipe_write_loop fuel bb' data ip')
      else Inr (bb, input_pos))"

definition pipe_write :: "bbuffer \<Rightarrow> u8 list \<Rightarrow> (bbuffer \<times> pipe_out) res" where
  "pipe_write bb data =
     assert_then (\<not> bb_write_closed bb)
       (if bb_len bb = BBUFFER_SIZE \<and> \<not> (data = [] \<or> bb_len bb < BBUFFER_SIZE \<or> bb_read_closed bb)
        then Inr (bb, Would_Block)
        else if bb_read_closed bb then Inr (bb, Return E_PIPE [] False)
        else rbind (pipe_write_loop (length data) bb data 0) (\<lambda>(bb', n).
               if n = 0 \<and> data \<noteq> [] then Inr (bb', Return (-1) [] False)
               else Inr (bb', Return (int n) [] True)))"

section \<open>The queue a buffer holds\<close>

definition bb_ok :: "bbuffer \<Rightarrow> bool" where
  "bb_ok bb \<longleftrightarrow> length (bb_buf bb) = BBUFFER_SIZE \<and> bb_pos bb < BBUFFER_SIZE \<and> bb_len bb \<le> BBUFFER_SIZE"

definition bb_contents :: "bbuffer \<Rightarrow> u8 list" where
  "bb_contents bb = map (\<lambda>i. bb_buf bb ! ((bb_pos bb + i) mod BBUFFER_SIZE)) [0..<bb_len bb]"

lemma length_bb_contents [simp]: "length (bb_contents bb) = bb_len bb"
  by (simp add: bb_contents_def)

lemma bb_contents_Nil [simp]: "bb_contents bb = [] \<longleftrightarrow> bb_len bb = 0" "[] = bb_contents bb \<longleftrightarrow> bb_len bb = 0"
  by (auto simp: bb_contents_def)

lemma bb_contents_nth: "i < bb_len bb \<Longrightarrow> bb_contents bb ! i = bb_buf bb ! ((bb_pos bb + i) mod BBUFFER_SIZE)"
  by (simp add: bb_contents_def)

lemma read_chunk:
  assumes ok: "bb_ok bb" and n: "n \<le> bb_len bb" "bb_pos bb + n \<le> BBUFFER_SIZE"
  defines "bb' \<equiv> bb\<lparr>bb_pos := (bb_pos bb + n) mod BBUFFER_SIZE, bb_len := bb_len bb - n\<rparr>"
  shows "take n (drop (bb_pos bb) (bb_buf bb)) = take n (bb_contents bb)"
    and "bb_contents bb' = drop n (bb_contents bb)" and "bb_ok bb'"
proof -
  show "take n (drop (bb_pos bb) (bb_buf bb)) = take n (bb_contents bb)"
    using ok n by (intro nth_equalityI) (auto simp: bb_ok_def bb_contents_nth)
  show "bb_contents bb' = drop n (bb_contents bb)"
    using n by (intro nth_equalityI) (auto simp: bb'_def bb_contents_nth mod_add_left_eq add.assoc)
  show "bb_ok bb'" using ok by (auto simp: bb'_def bb_ok_def)
qed

lemma pipe_read_loop_ok:
  assumes "bb_ok bb" "sz - ip \<le> fuel"
  shows "\<exists>bb'. pipe_read_loop fuel bb sz ip out = Inr (bb', out @ take (sz - ip) (bb_contents bb))
    \<and> bb_ok bb' \<and> bb_contents bb' = drop (sz - ip) (bb_contents bb)
    \<and> bb_read_closed bb' = bb_read_closed bb \<and> bb_write_closed bb' = bb_write_closed bb"
  using assms
proof (induction fuel arbitrary: bb ip out)
  case 0
  then show ?case by auto
next
  case (Suc fuel)
  show ?case
  proof (cases "ip < sz \<and> 0 < bb_len bb")
    case False
    then have "pipe_read_loop (Suc fuel) bb sz ip out = Inr (bb, out)" by auto
    moreover have "take (sz - ip) (bb_contents bb) = []" "drop (sz - ip) (bb_contents bb) = bb_contents bb"
      using False by auto
    ultimately show ?thesis using Suc.prems by auto
  next
    case True
    define n where "n = min (min (sz - ip) (BBUFFER_SIZE - bb_pos bb)) (bb_len bb)"
    have ok: "bb_pos bb < BBUFFER_SIZE" "length (bb_buf bb) = BBUFFER_SIZE" using Suc.prems(1) by (auto simp: bb_ok_def)
    have n: "0 < n" "n \<le> sz - ip" "n \<le> bb_len bb" "bb_pos bb + n \<le> BBUFFER_SIZE" using True ok by (auto simp: n_def)
    let ?bb = "bb\<lparr>bb_pos := (bb_pos bb + n) mod BBUFFER_SIZE, bb_len := bb_len bb - n\<rparr>"
    note ch = read_chunk[OF Suc.prems(1) n(3,4)]
    have "pipe_read_turn bb sz ip out = Inr (?bb, ip + n, out @ take n (drop (bb_pos bb) (bb_buf bb)))"
    proof -
      have "(if (if bb_pos bb \<le> BBUFFER_SIZE \<and> sz - ip > BBUFFER_SIZE - bb_pos bb then BBUFFER_SIZE - bb_pos bb else sz - ip)
          > bb_len bb then bb_len bb else if bb_pos bb \<le> BBUFFER_SIZE \<and> sz - ip > BBUFFER_SIZE - bb_pos bb
          then BBUFFER_SIZE - bb_pos bb else sz - ip) = n"
        using ok(1) by (auto simp: n_def)
      then show ?thesis using n(4) ok(2) unfolding pipe_read_turn_def Let_def by simp
    qed
    then have "pipe_read_loop (Suc fuel) bb sz ip out = pipe_read_loop fuel ?bb sz (ip + n) (out @ take n (bb_contents bb))"
      using True ch(1) by simp
    moreover have fu: "sz - (ip + n) \<le> fuel" using Suc.prems(2) n(1,2) by linarith
    moreover obtain bb' where "pipe_read_loop fuel ?bb sz (ip + n) (out @ take n (bb_contents bb)) =
        Inr (bb', (out @ take n (bb_contents bb)) @ take (sz - (ip + n)) (bb_contents ?bb))" "bb_ok bb'"
      "bb_contents bb' = drop (sz - (ip + n)) (bb_contents ?bb)"
      "bb_read_closed bb' = bb_read_closed bb" "bb_write_closed bb' = bb_write_closed bb"
      using Suc.IH[OF ch(3) fu, of "out @ take n (bb_contents bb)"] by auto
    moreover have sum: "n + (sz - (ip + n)) = sz - ip" using n(2) by linarith
    moreover have "take n (bb_contents bb) @ take (sz - (ip + n)) (drop n (bb_contents bb)) = take (sz - ip) (bb_contents bb)"
      unfolding take_add[symmetric] by (rule arg_cong[OF sum])
    moreover have "drop (sz - (ip + n)) (drop n (bb_contents bb)) = drop (sz - ip) (bb_contents bb)"
      unfolding drop_drop using sum by (simp add: add.commute)
    ultimately show ?thesis unfolding ch(2) by auto
  qed
qed

lemma write_chunk:
  assumes ok: "bb_ok bb" and n: "length xs = n" "bb_len bb + n \<le> BBUFFER_SIZE"
    and ix: "ix = (bb_pos bb + bb_len bb) mod BBUFFER_SIZE" "ix + n \<le> BBUFFER_SIZE"
  defines "bb' \<equiv> bb\<lparr>bb_buf := take ix (bb_buf bb) @ xs @ drop (ix + n) (bb_buf bb), bb_len := bb_len bb + n\<rparr>"
  shows "bb_contents bb' = bb_contents bb @ xs" and "bb_ok bb'"
proof -
  have len: "length (bb_buf bb) = BBUFFER_SIZE" and pos: "bb_pos bb < BBUFFER_SIZE" using ok by (auto simp: bb_ok_def)
  show "bb_ok bb'" using ok n ix(2) by (auto simp: bb'_def bb_ok_def)
  define B where "B = take ix (bb_buf bb) @ xs @ drop (ix + n) (bb_buf bb)"
  have buf: "B ! q = (if ix \<le> q \<and> q < ix + n then xs ! (q - ix) else bb_buf bb ! q)"
    if "q < BBUFFER_SIZE" for q
    using that n(1) ix(2) len by (auto simp: B_def nth_append)
  have old: "\<not> (ix \<le> (bb_pos bb + i) mod BBUFFER_SIZE \<and> (bb_pos bb + i) mod BBUFFER_SIZE < ix + n)" if "i < bb_len bb" for i
    using that n(2) ix pos by (auto simp: mod_if)
  have new: "(bb_pos bb + (bb_len bb + i)) mod BBUFFER_SIZE = ix + i" if "i < n" for i
    using that n(2) ix pos by (auto simp: mod_if)
  show "bb_contents bb' = bb_contents bb @ xs"
  proof (rule nth_equalityI)
    show "length (bb_contents bb') = length (bb_contents bb @ xs)" using n(1) by (simp add: bb'_def)
    fix i assume "i < length (bb_contents bb')"
    then have i: "i < bb_len bb + n" by (simp add: bb'_def)
    show "bb_contents bb' ! i = (bb_contents bb @ xs) ! i"
    proof (cases "i < bb_len bb")
      case True
      then have "B ! ((bb_pos bb + i) mod BBUFFER_SIZE) = bb_buf bb ! ((bb_pos bb + i) mod BBUFFER_SIZE)"
        by (subst buf) (simp, rule if_not_P[OF old[OF True]])
      then show ?thesis using True by (simp add: bb'_def B_def[symmetric] bb_contents_nth nth_append)
    next
      case False
      then obtain d where d: "i = bb_len bb + d" "d < n" using i by (metis less_diff_conv2 le_add_diff_inverse linorder_not_less add.commute)
      then have "B ! ((bb_pos bb + i) mod BBUFFER_SIZE) = xs ! (i - bb_len bb)"
        using buf[of "ix + d"] new[of d] ix(2) by simp
      then show ?thesis using i False by (simp add: bb'_def B_def[symmetric] bb_contents_nth nth_append)
    qed
  qed
qed

lemma pipe_write_loop_ok:
  assumes "bb_ok bb" "length data - ip \<le> fuel" "ip \<le> length data"
  shows "\<exists>bb'. pipe_write_loop fuel bb data ip = Inr (bb', ip + min (length data - ip) (BBUFFER_SIZE - bb_len bb))
    \<and> bb_ok bb' \<and> bb_contents bb' = bb_contents bb @ take (BBUFFER_SIZE - bb_len bb) (drop ip data)
    \<and> bb_read_closed bb' = bb_read_closed bb \<and> bb_write_closed bb' = bb_write_closed bb"
  using assms
proof (induction fuel arbitrary: bb ip)
  case 0
  then show ?case by auto
next
  case (Suc fuel)
  show ?case
  proof (cases "ip < length data \<and> bb_len bb < BBUFFER_SIZE")
    case False
    moreover have "bb_len bb \<le> BBUFFER_SIZE" using Suc.prems(1) by (simp add: bb_ok_def)
    ultimately show ?thesis using Suc.prems by auto
  next
    case True
    define ix where "ix = (bb_pos bb + bb_len bb) mod BBUFFER_SIZE"
    define n where "n = min (min (length data - ip) (BBUFFER_SIZE - ix)) (BBUFFER_SIZE - bb_len bb)"
    have ix: "ix < BBUFFER_SIZE" by (simp add: ix_def)
    have n: "0 < n" "n \<le> length data - ip" "bb_len bb + n \<le> BBUFFER_SIZE" "ix + n \<le> BBUFFER_SIZE" using True ix by (auto simp: n_def)
    let ?xs = "take n (drop ip data)"
    let ?bb = "bb\<lparr>bb_buf := take ix (bb_buf bb) @ ?xs @ drop (ix + n) (bb_buf bb), bb_len := bb_len bb + n\<rparr>"
    have xs: "length ?xs = n" using n(2) by simp
    note ch = write_chunk[OF Suc.prems(1) xs n(3) ix_def n(4)]
    have "pipe_write_turn bb data ip = Inr (?bb, ip + n)"
    proof -
      have "(if (if length data - ip > BBUFFER_SIZE - ix then BBUFFER_SIZE - ix else length data - ip) > BBUFFER_SIZE - bb_len bb
          then BBUFFER_SIZE - bb_len bb else if length data - ip > BBUFFER_SIZE - ix then BBUFFER_SIZE - ix else length data - ip) = n"
        by (auto simp: n_def)
      moreover have "length (bb_buf bb) = BBUFFER_SIZE" using Suc.prems(1) by (simp add: bb_ok_def)
      ultimately show ?thesis using n(4) unfolding pipe_write_turn_def Let_def ix_def[symmetric] by simp
    qed
    then have run: "pipe_write_loop (Suc fuel) bb data ip = pipe_write_loop fuel ?bb data (ip + n)" using True by simp
    have fu: "length data - (ip + n) \<le> fuel" and le: "ip + n \<le> length data" using Suc.prems(2,3) n(1,2) by linarith+
    obtain bb' where bb': "pipe_write_loop fuel ?bb data (ip + n) =
        Inr (bb', (ip + n) + min (length data - (ip + n)) (BBUFFER_SIZE - (bb_len bb + n)))" "bb_ok bb'"
      "bb_contents bb' = bb_contents ?bb @ take (BBUFFER_SIZE - (bb_len bb + n)) (drop (ip + n) data)"
      "bb_read_closed bb' = bb_read_closed bb" "bb_write_closed bb' = bb_write_closed bb"
      using Suc.IH[OF ch(2) fu le] by auto
    have cat: "take n (drop ip data) @ take (BBUFFER_SIZE - (bb_len bb + n)) (drop (ip + n) data)
        = take (BBUFFER_SIZE - bb_len bb) (drop ip data)"
      using n(3) take_add[of n "BBUFFER_SIZE - (bb_len bb + n)" "drop ip data"] by (simp add: add.commute)
    have cnt: "(ip + n) + min (length data - (ip + n)) (BBUFFER_SIZE - (bb_len bb + n)) = ip + min (length data - ip) (BBUFFER_SIZE - bb_len bb)"
      using n(2,3) le by linarith
    show ?thesis
      by (rule exI[of _ bb']) (use bb' cat cnt run in \<open>simp add: ch(1)\<close>)
  qed
qed

section \<open>The queue contract\<close>

text \<open>
  A bounded byte queue as its users see it: a read takes bytes off the front, a write appends a
  prefix of its data, neither loses a byte, and both make progress when they can.
\<close>

datatype qcall = QRead nat | QWrite "u8 list"

text \<open>
  A run of calls on a queue: the bytes read and the bytes accepted, in order.  A call that cannot
  proceed (\<open>None\<close>) leaves the queue alone and the run goes on.
\<close>

fun qrun :: "('s \<Rightarrow> nat \<Rightarrow> ('s \<times> u8 list) option) \<Rightarrow> ('s \<Rightarrow> u8 list \<Rightarrow> ('s \<times> nat) option)
    \<Rightarrow> 's \<Rightarrow> qcall list \<Rightarrow> 's \<times> u8 list \<times> u8 list" where
  "qrun rd wr s [] = (s, [], [])"
| "qrun rd wr s (QRead n # cs) =
     (case rd s n of None \<Rightarrow> qrun rd wr s cs
      | Some (s', xs) \<Rightarrow> (case qrun rd wr s' cs of (t, r, w) \<Rightarrow> (t, xs @ r, w)))"
| "qrun rd wr s (QWrite d # cs) =
     (case wr s d of None \<Rightarrow> qrun rd wr s cs
      | Some (s', k) \<Rightarrow> (case qrun rd wr s' cs of (t, r, w) \<Rightarrow> (t, r, take k d @ w)))"

locale byte_queue =
  fixes ok :: "'s \<Rightarrow> bool" and q :: "'s \<Rightarrow> u8 list" and cap :: nat
    and rd :: "'s \<Rightarrow> nat \<Rightarrow> ('s \<times> u8 list) option" and wr :: "'s \<Rightarrow> u8 list \<Rightarrow> ('s \<times> nat) option"
  assumes rd_ok: "ok s \<Longrightarrow> rd s n = Some (s', xs) \<Longrightarrow> ok s' \<and> q s = xs @ q s' \<and> length xs = min n (length (q s))"
    and wr_ok: "ok s \<Longrightarrow> wr s d = Some (s', k) \<Longrightarrow> ok s' \<and> q s' = q s @ take k d \<and> k = min (length d) (cap - length (q s))"
    and cap: "ok s \<Longrightarrow> length (q s) \<le> cap"
begin

lemma fifo:
  assumes "ok s"
  shows "case qrun rd wr s cs of (t, r, w) \<Rightarrow> ok t \<and> q s @ w = r @ q t"
  using assms
proof (induction cs arbitrary: s)
  case Nil
  then show ?case by simp
next
  case (Cons c cs)
  show ?case
  proof (cases c)
    case (QRead n)
    show ?thesis
    proof (cases "rd s n")
      case None
      then show ?thesis using Cons QRead by simp
    next
      case (Some p)
      then obtain s' xs where s: "rd s n = Some (s', xs)" by (cases p) auto
      obtain t r w where t: "qrun rd wr s' cs = (t, r, w)" by (metis prod_cases3)
      have "ok s'" "q s = xs @ q s'" using rd_ok[OF Cons.prems s] by simp_all
      then show ?thesis using Cons.IH[of s'] s t QRead by simp
    qed
  next
    case (QWrite d)
    show ?thesis
    proof (cases "wr s d")
      case None
      then show ?thesis using Cons QWrite by simp
    next
      case (Some p)
      then obtain s' k where s: "wr s d = Some (s', k)" by (cases p) auto
      obtain t r w where t: "qrun rd wr s' cs = (t, r, w)" by (metis prod_cases3)
      have "ok s'" "q s' = q s @ take k d" using wr_ok[OF Cons.prems s] by simp_all
      then show ?thesis using Cons.IH[of s'] s t QWrite by simp
    qed
  qed
qed

end

section \<open>Pipes implement the contract\<close>

text \<open>A call on the pipe as a queue call; \<open>None\<close> when it blocks, faults or reports a closed side.\<close>

definition pipe_rd :: "bbuffer \<Rightarrow> nat \<Rightarrow> (bbuffer \<times> u8 list) option" where
  "pipe_rd bb n = (case pipe_read bb n of Inr (bb', Return r xs True) \<Rightarrow> Some (bb', xs) | _ \<Rightarrow> None)"

definition pipe_wr :: "bbuffer \<Rightarrow> u8 list \<Rightarrow> (bbuffer \<times> nat) option" where
  "pipe_wr bb d = (case pipe_write bb d of Inr (bb', Return r _ True) \<Rightarrow> Some (bb', nat r) | _ \<Rightarrow> None)"

lemma pipe_read_cases:
  assumes ok: "bb_ok bb" and open1: "\<not> bb_read_closed bb"
  obtains (block) "bb_len bb = 0" "0 < sz" "\<not> bb_write_closed bb" "pipe_read bb sz = Inr (bb, Would_Block)"
  | (eof) "bb_len bb = 0" "bb_write_closed bb" "pipe_read bb sz = Inr (bb, Return 0 [] False)"
  | (data) bb' where "pipe_read bb sz = Inr (bb', Return (int (min sz (bb_len bb))) (take sz (bb_contents bb)) True)"
      "bb_ok bb'" "bb_contents bb' = drop sz (bb_contents bb)" "0 < bb_len bb \<or> sz = 0 \<and> \<not> bb_write_closed bb"
      "bb_read_closed bb' = bb_read_closed bb" "bb_write_closed bb' = bb_write_closed bb"
proof -
  obtain bb' where l: "pipe_read_loop sz bb sz 0 [] = Inr (bb', take sz (bb_contents bb))" "bb_ok bb'"
    "bb_contents bb' = drop sz (bb_contents bb)" "bb_read_closed bb' = bb_read_closed bb" "bb_write_closed bb' = bb_write_closed bb"
    using pipe_read_loop_ok[OF ok, of sz 0 sz "[]"] by auto
  consider "bb_len bb = 0" "0 < sz" "\<not> bb_write_closed bb" | "bb_len bb = 0" "bb_write_closed bb"
    | "0 < bb_len bb \<or> (sz = 0 \<and> \<not> bb_write_closed bb)" by auto
  then show thesis
  proof cases
    case 1
    then show ?thesis using block open1 by (simp add: pipe_read_def)
  next
    case 2
    then show ?thesis using eof open1 by (simp add: pipe_read_def)
  next
    case 3
    then have "pipe_read bb sz = Inr (bb', Return (int (min sz (bb_len bb))) (take sz (bb_contents bb)) True)"
      using open1 l(1) by (auto simp: pipe_read_def min.commute)
    then show ?thesis using data l 3 by auto
  qed
qed

lemma pipe_write_cases:
  assumes ok: "bb_ok bb" and open1: "\<not> bb_write_closed bb"
  obtains (block) "bb_len bb = BBUFFER_SIZE" "d \<noteq> []" "\<not> bb_read_closed bb" "pipe_write bb d = Inr (bb, Would_Block)"
  | (broken) "bb_read_closed bb" "pipe_write bb d = Inr (bb, Return E_PIPE [] False)"
  | (data) bb' where "pipe_write bb d = Inr (bb', Return (int (min (length d) (BBUFFER_SIZE - bb_len bb))) [] True)"
      "bb_ok bb'" "bb_contents bb' = bb_contents bb @ take (BBUFFER_SIZE - bb_len bb) d" "(d = [] \<or> bb_len bb < BBUFFER_SIZE) \<and> \<not> bb_read_closed bb"
      "bb_read_closed bb' = bb_read_closed bb" "bb_write_closed bb' = bb_write_closed bb"
proof -
  have le: "bb_len bb \<le> BBUFFER_SIZE" using ok by (simp add: bb_ok_def)
  obtain bb' where l: "pipe_write_loop (length d) bb d 0 = Inr (bb', min (length d) (BBUFFER_SIZE - bb_len bb))" "bb_ok bb'"
    "bb_contents bb' = bb_contents bb @ take (BBUFFER_SIZE - bb_len bb) d"
    "bb_read_closed bb' = bb_read_closed bb" "bb_write_closed bb' = bb_write_closed bb"
    using pipe_write_loop_ok[OF ok, of d 0 "length d"] by auto
  consider "bb_len bb = BBUFFER_SIZE" "d \<noteq> []" "\<not> bb_read_closed bb" | "bb_read_closed bb"
    | "bb_len bb < BBUFFER_SIZE \<or> d = []" "\<not> bb_read_closed bb" using le by (fastforce simp: le_less)
  then show thesis
  proof cases
    case 1
    then show ?thesis using block open1 by (simp add: pipe_write_def)
  next
    case 2
    then show ?thesis using broken open1 by (simp add: pipe_write_def)
  next
    case 3
    then have "pipe_write bb d = Inr (bb', Return (int (min (length d) (BBUFFER_SIZE - bb_len bb))) [] True)"
      using open1 l(1) le by (auto simp: pipe_write_def min_def)
    then show ?thesis using data l 3 by auto
  qed
qed

interpretation pipe: byte_queue bb_ok bb_contents BBUFFER_SIZE pipe_rd pipe_wr
proof (unfold_locales, goal_cases)
  case (1 s n s' xs)
  then have "\<not> bb_read_closed s" by (auto simp: pipe_rd_def pipe_read_def assert_then_def split: if_splits)
  from 1(1) this show ?case
  proof (cases rule: pipe_read_cases[where sz = n])
    case (data bb')
    then have "s' = bb'" "xs = take n (bb_contents s)" using 1(2) by (simp_all add: pipe_rd_def)
    then show ?thesis using data by (simp add: min.commute)
  qed (use 1(2) in \<open>simp_all add: pipe_rd_def\<close>)
next
  case (2 s d s' k)
  then have "\<not> bb_write_closed s" by (auto simp: pipe_wr_def pipe_write_def assert_then_def split: if_splits)
  from 2(1) this show ?case
  proof (cases rule: pipe_write_cases[where d = d])
    case (data bb')
    then show ?thesis using 2(2) by (auto simp: pipe_wr_def min_def)
  qed (use 2(2) in \<open>simp_all add: pipe_wr_def\<close>)
next
  case (3 s)
  then show ?case by (simp add: bb_ok_def)
qed

section \<open>Closing a side\<close>

text \<open>The part of \<open>file::~file\<close> that concerns the buffer of a pipe; the result tells which wait
  queues are woken (\<open>nonfull_wq_\<close>, then \<open>nonempty_wq_\<close>).\<close>

definition pipe_close :: "bbuffer \<Rightarrow> bool \<Rightarrow> bool \<Rightarrow> bbuffer \<times> bool \<times> bool" where
  "pipe_close bb readable writeable =
     (let bb1 = (if readable then bb\<lparr>bb_read_closed := True\<rparr> else bb);
          bb2 = (if writeable then bb1\<lparr>bb_write_closed := True\<rparr> else bb1)
      in (bb2, readable, writeable))"

section \<open>Properties\<close>

lemma bbuffer_new_ok: "bb_ok bbuffer_new" "bb_contents bbuffer_new = []"
  by (simp_all add: bbuffer_new_def bb_ok_def)

text \<open>
  C22: a read of a pipe whose read side is open never faults and never returns \<open>-1\<close>.  It blocks
  exactly when the buffer is empty, something was asked for and a writer may still come; it
  returns 0 for end of file exactly when the buffer is empty and the write side is closed; and
  otherwise it returns the first \<open>min(sz, len)\<close> bytes, removes them, and wakes the writers.
\<close>

theorem pipe_read_correct:
  assumes "bb_ok bb" "\<not> bb_read_closed bb"
  shows "if bb_len bb = 0 \<and> 0 < sz \<and> \<not> bb_write_closed bb then pipe_read bb sz = Inr (bb, Would_Block)
    else if bb_len bb = 0 \<and> bb_write_closed bb then pipe_read bb sz = Inr (bb, Return 0 [] False)
    else \<exists>bb'. pipe_read bb sz = Inr (bb', Return (int (min sz (bb_len bb))) (take sz (bb_contents bb)) True)
      \<and> bb_ok bb' \<and> bb_contents bb = take sz (bb_contents bb) @ bb_contents bb'
      \<and> bb_read_closed bb' = bb_read_closed bb \<and> bb_write_closed bb' = bb_write_closed bb"
  using assms
proof (cases rule: pipe_read_cases[where sz = sz])
  case (data bb')
  then show ?thesis by auto
qed auto

theorem pipe_read_correct_witness:
  "\<exists>bb'. pipe_read (bbuffer_new\<lparr>bb_len := 3\<rparr>) 2 = Inr (bb', Return 2 [0, 0] True)"
proof -
  have ok: "bb_ok (bbuffer_new\<lparr>bb_len := 3\<rparr>)" by (simp add: bb_ok_def bbuffer_new_def)
  have "take 2 (bb_contents (bbuffer_new\<lparr>bb_len := 3\<rparr>)) = [0, 0]"
    by (simp add: bb_contents_def bbuffer_new_def upt_rec numeral_2_eq_2 numeral_3_eq_3)
  then show ?thesis using pipe_read_correct[OF ok, of 2] by (auto simp: bbuffer_new_def)
qed

text \<open>
  a write to a pipe whose write side is open never faults and never returns \<open>-1\<close>.  It answers
  \<open>E_PIPE\<close> when the read side is closed, blocks exactly when the buffer is full and there is
  something to write, and otherwise appends the largest prefix of its data that fits, returns its
  length and wakes the readers; the buffer never holds more than its size.
\<close>

theorem pipe_write_correct:
  assumes "bb_ok bb" "\<not> bb_write_closed bb"
  shows "if bb_read_closed bb then pipe_write bb d = Inr (bb, Return E_PIPE [] False)
    else if bb_len bb = BBUFFER_SIZE \<and> d \<noteq> [] then pipe_write bb d = Inr (bb, Would_Block)
    else \<exists>bb'. pipe_write bb d = Inr (bb', Return (int (min (length d) (BBUFFER_SIZE - bb_len bb))) [] True)
      \<and> bb_ok bb' \<and> bb_contents bb' = bb_contents bb @ take (BBUFFER_SIZE - bb_len bb) d
      \<and> bb_read_closed bb' = bb_read_closed bb \<and> bb_write_closed bb' = bb_write_closed bb"
  using assms
proof (cases rule: pipe_write_cases[where d = d])
  case (data bb')
  then show ?thesis by auto
qed auto

theorem pipe_write_correct_witness:
  "\<exists>bb'. pipe_write bbuffer_new [1, 2, 3] = Inr (bb', Return 3 [] True) \<and> bb_contents bb' = [1, 2, 3]"
  using pipe_write_correct[OF bbuffer_new_ok(1), of "[1, 2, 3]"] by (auto simp: bbuffer_new_def bb_contents_def)


end
