(* ===== verification/Klib.thy ===== *)
theory Klib
  imports Kernel_Prelude
begin

text \<open>
  The memory and string functions of \<open>lib.cc\<close> and the integer parsers.  The memory functions work
  on a byte store indexed by address and write one byte per loop turn, so that overlapping
  arguments behave as in the code.  Strings that are only read are HOL lists of characters that
  stand for the bytes before the terminating NUL; reading at their end yields the NUL.
\<close>

section \<open>Memory\<close>

type_synonym memory = "nat \<Rightarrow> u8"

text \<open>\<open>memcpy\<close>: the loop copies upwards.\<close>

primrec memcpy :: "memory \<Rightarrow> nat \<Rightarrow> nat \<Rightarrow> nat \<Rightarrow> memory" where
  "memcpy m d s 0 = m"
| "memcpy m d s (Suc n) = memcpy (m(d := m s)) (d + 1) (s + 1) n"

primrec memcpy_down :: "memory \<Rightarrow> nat \<Rightarrow> nat \<Rightarrow> nat \<Rightarrow> memory" where
  "memcpy_down m d s 0 = m"
| "memcpy_down m d s (Suc n) = memcpy_down (m(d - 1 := m (s - 1))) (d - 1) (s - 1) n"

definition memmove :: "memory \<Rightarrow> nat \<Rightarrow> nat \<Rightarrow> nat \<Rightarrow> memory" where
  "memmove m dst src n =
     (if src < dst \<and> src + n > dst then memcpy_down m (dst + n) (src + n) n else memcpy m dst src n)"

primrec memset :: "memory \<Rightarrow> nat \<Rightarrow> u8 \<Rightarrow> nat \<Rightarrow> memory" where
  "memset m v c 0 = m"
| "memset m v c (Suc n) = memset (m(v := c)) (v + 1) c n"

primrec memcmp :: "memory \<Rightarrow> nat \<Rightarrow> nat \<Rightarrow> nat \<Rightarrow> int" where
  "memcmp m a b 0 = 0"
| "memcmp m a b (Suc n) =
     (if m a \<noteq> m b then of_bool (m a > m b) - of_bool (m a < m b) else memcmp m (a + 1) (b + 1) n)"

text \<open>\<open>strcpy\<close> with a bound on the turns of its loop.\<close>

primrec strcpy_loop :: "nat \<Rightarrow> memory \<Rightarrow> nat \<Rightarrow> nat \<Rightarrow> memory option" where
  "strcpy_loop 0 m d s = None"
| "strcpy_loop (Suc fuel) m d s =
     (let m' = m(d := m s) in if m' d \<noteq> 0 then strcpy_loop fuel m' (d + 1) (s + 1) else Some m')"

section \<open>Strings\<close>

text \<open>The character a pointer reads, and its value as a (signed) \<open>char\<close>.\<close>

definition hd0 :: "string \<Rightarrow> nat" where
  "hd0 s = (case s of [] \<Rightarrow> 0 | c # _ \<Rightarrow> of_char c)"

definition schar :: "nat \<Rightarrow> int" where
  "schar c = (if c < 128 then int c else int c - 256)"

primrec strlen :: "string \<Rightarrow> nat" where
  "strlen [] = 0"
| "strlen (c # s) = 1 + strlen s"

fun strnlen :: "string \<Rightarrow> nat \<Rightarrow> nat" where
  "strnlen s 0 = 0"
| "strnlen [] (Suc n) = 0"
| "strnlen (c # s) (Suc n) = 1 + strnlen s n"

definition cmp_uchar :: "nat \<Rightarrow> nat \<Rightarrow> int" where
  "cmp_uchar a b = of_bool (a > b) - of_bool (a < b)"

fun strcmp :: "string \<Rightarrow> string \<Rightarrow> int" where
  "strcmp (a # as) (b # bs) = (if a = b then strcmp as bs else cmp_uchar (of_char a) (of_char b))"
| "strcmp as bs = cmp_uchar (hd0 as) (hd0 bs)"

fun strncmp :: "string \<Rightarrow> string \<Rightarrow> nat \<Rightarrow> int" where
  "strncmp as bs 0 = 0"
| "strncmp (a # as) (b # bs) (Suc n) = (if a = b then strncmp as bs n else cmp_uchar (of_char a) (of_char b))"
| "strncmp as bs (Suc n) = cmp_uchar (hd0 as) (hd0 bs)"

text \<open>\<open>strchr\<close> returns the position; the terminating NUL is found when it is asked for.\<close>

fun strchr_from :: "nat \<Rightarrow> string \<Rightarrow> nat \<Rightarrow> nat option" where
  "strchr_from i [] c = (if c mod 256 = 0 then Some i else None)"
| "strchr_from i (x # s) c = (if of_char x = c mod 256 then Some i else strchr_from (i + 1) s c)"

definition strchr :: "string \<Rightarrow> nat \<Rightarrow> nat option" where
  "strchr s c = strchr_from 0 s c"

definition isspace :: "nat \<Rightarrow> bool" where
  "isspace ch \<longleftrightarrow> (9 \<le> ch \<and> ch \<le> 13) \<or> ch = 32"

definition skip_space :: "string \<Rightarrow> string" where
  "skip_space s = dropWhile (\<lambda>c. isspace (of_char c)) s"

definition digit_of :: "int \<Rightarrow> nat \<Rightarrow> nat option" where
  "digit_of base c =
     (let ch = schar c
      in if 48 \<le> ch \<and> ch < 48 + base then Some (nat (ch - 48))
         else if base > 10 \<and> 97 \<le> ch \<and> ch < 97 + base - 10 then Some (nat (ch - 97 + 10))
         else if base > 10 \<and> 65 \<le> ch \<and> ch < 65 + base - 10 then Some (nat (ch - 65 + 10))
         else None)"

text \<open>The digit loop of \<open>strtoul\<close>: the value, the overflow flag and the rest of the string.\<close>

fun strtoul_digits :: "string \<Rightarrow> int \<Rightarrow> u64 \<Rightarrow> bool \<Rightarrow> u64 \<times> bool \<times> string" where
  "strtoul_digits s base x overflow =
     (case digit_of base (hd0 s) of
        None \<Rightarrow> (x, overflow, s)
      | Some digit \<Rightarrow>
          if s = [] then (x, overflow, s)
          else if x > (- 1 - of_nat digit) div of_int base
          then strtoul_digits (tl s) base x True
          else strtoul_digits (tl s) base (x * of_int base + of_nat digit) overflow)"

declare strtoul_digits.simps [simp del]

definition strtoul :: "string \<Rightarrow> int \<Rightarrow> u64 \<times> string" where
  "strtoul s0 base0 =
     (let s1 = skip_space s0;
          negative = (hd0 s1 = 45);
          s2 = (if negative \<or> hd0 s1 = 43 then tl s1 else s1);
          hex = (hd0 s2 = 48 \<and> (hd0 (tl s2) = 120 \<or> hd0 (tl s2) = 88));
          (base, s3) = (if base0 = 0
                        then (if hex then (16, tl (tl s2)) else if hd0 s2 = 48 then (8, s2) else (10, s2))
                        else if base0 = 16 \<and> hex then (base0, tl (tl s2)) else (base0, s2));
          (x, overflow, rest) = strtoul_digits s3 base 0 False;
          x1 = (if overflow then - 1 else x)
      in ((if negative then - x1 else x1), rest))"

definition strtol :: "string \<Rightarrow> int \<Rightarrow> u64 \<times> string" where
  "strtol s0 base =
     (let s1 = skip_space s0;
          negative = (hd0 s1 = 45);
          s2 = (if negative then tl s1 else s1);
          (u, rest) = strtoul s2 base;
          bound = 2 ^ 63 - (if negative then 0 else 1);
          u1 = (if u > bound then bound else u)
      in ((if negative then - u1 else u1), rest))"

section \<open>Random numbers\<close>

record rand_state =
  rand_seed_set :: bool
  rand_seed :: u64

definition srand :: "rand_state \<Rightarrow> u32 \<Rightarrow> rand_state" where
  "srand st seed = st\<lparr>rand_seed := ucast seed, rand_seed_set := True\<rparr>"

abbreviation RAND_MAX :: nat where "RAND_MAX \<equiv> 0x7FFFFFFF"

definition rand :: "rand_state \<Rightarrow> rand_state \<times> nat" where
  "rand st =
     (let st1 = (if rand_seed_set st then st else srand st 819234718);
          st2 = st1\<lparr>rand_seed := rand_seed st1 * 6364136223846793005 + 1\<rparr>
      in (st2, unat (drop_bit 32 (rand_seed st2) AND of_nat RAND_MAX)))"

text \<open>\<open>rand(min, max)\<close>: \<open>max - min\<close> and \<open>max - min + 1\<close> are computed in 32-bit \<open>int\<close>, and the rest
  in \<open>unsigned long\<close>.\<close>

definition rand_range :: "rand_state \<Rightarrow> int \<Rightarrow> int \<Rightarrow> (rand_state \<times> int) res" where
  "rand_range st mn mx =
     assert_then (mn \<le> mx)
       (if mx - mn > 2 ^ 31 - 1 then Inl Int_Overflow
        else assert_then (mx - mn \<le> int RAND_MAX)
               (let (st', r) = rand st
                in if mx - mn + 1 > 2 ^ 31 - 1 then Inl Int_Overflow
                   else Inr (st', mn + (int r * (mx - mn + 1)) div (int RAND_MAX + 1))))"

section \<open>Printing a number\<close>

abbreviation NUMBUFSIZ :: nat where "NUMBUFSIZ \<equiv> 24"

text \<open>
  \<open>fill_numbuf\<close> writes downwards from the end of \<open>numbuf\<close>; the first argument of the loop is the
  number of bytes left below the pointer.
\<close>

primrec fill_numbuf_loop :: "nat \<Rightarrow> nat \<Rightarrow> nat \<Rightarrow> string \<Rightarrow> string \<Rightarrow> string res" where
  "fill_numbuf_loop 0 val base digits acc = Inl Out_Of_Bounds"
| "fill_numbuf_loop (Suc space) val base digits acc =
     (let acc' = digits ! (val mod base) # acc; val' = val div base
      in if val' \<noteq> 0 then fill_numbuf_loop space val' base digits acc' else Inr acc')"

definition upper_digits :: string where "upper_digits = ''0123456789ABCDEF''"
definition lower_digits :: string where "lower_digits = ''0123456789abcdef''"

definition fill_numbuf :: "u64 \<Rightarrow> int \<Rightarrow> string res" where
  "fill_numbuf val base =
     (if base < 0 then fill_numbuf_loop (NUMBUFSIZ - 1) (unat val) (nat (- base)) lower_digits []
      else fill_numbuf_loop (NUMBUFSIZ - 1) (unat val) (nat base) upper_digits [])"

section \<open>Copying\<close>

lemma memcpy_spec:
  assumes "d \<le> s \<or> s + n \<le> d"
  shows "memcpy m d s n a = (if d \<le> a \<and> a < d + n then m (s + (a - d)) else m a)"
  using assms
proof (induction n arbitrary: m d s)
  case 0
  then show ?case by auto
next
  case (Suc n)
  have "memcpy m d s (Suc n) a = (if d + 1 \<le> a \<and> a < d + 1 + n then (m(d := m s)) (s + 1 + (a - (d + 1))) else (m(d := m s)) a)"
    unfolding memcpy.simps by (rule Suc.IH) (use Suc.prems in linarith)
  also have "\<dots> = (if d \<le> a \<and> a < d + Suc n then m (s + (a - d)) else m a)"
    using Suc.prems by (auto intro!: arg_cong[of _ _ m])
  finally show ?case .
qed

lemma memcpy_down_spec:
  assumes "s \<le> d" "n \<le> s"
  shows "memcpy_down m d s n a = (if d - n \<le> a \<and> a < d then m (s - (d - a)) else m a)"
  using assms
proof (induction n arbitrary: m d s)
  case 0
  then show ?case by auto
next
  case (Suc n)
  have "memcpy_down m d s (Suc n) a =
      (if d - 1 - n \<le> a \<and> a < d - 1 then (m(d - 1 := m (s - 1))) (s - 1 - (d - 1 - a)) else (m(d - 1 := m (s - 1))) a)"
    unfolding memcpy_down.simps by (rule Suc.IH) (use Suc.prems in linarith)+
  also have "\<dots> = (if d - Suc n \<le> a \<and> a < d then m (s - (d - a)) else m a)"
    using Suc.prems by auto
  finally show ?case .
qed

lemma memset_spec: "memset m v c n a = (if v \<le> a \<and> a < v + n then c else m a)"
  by (induction n arbitrary: m v) auto

text \<open>
  C23: \<open>memmove\<close> leaves at the destination the bytes the source had before the call, however the
  two ranges overlap, and changes no other byte; \<open>memcpy\<close> does the same when the destination
  does not start inside the source range.
\<close>

theorem memmove_correct:
  "memmove m dst src n = (\<lambda>a. if dst \<le> a \<and> a < dst + n then m (src + (a - dst)) else m a)
   \<and> (\<not> (src < dst \<and> dst < src + n) \<longrightarrow>
        memcpy m dst src n = (\<lambda>a. if dst \<le> a \<and> a < dst + n then m (src + (a - dst)) else m a))"
proof -
  have down: "memcpy_down m (dst + n) (src + n) n a = (if dst \<le> a \<and> a < dst + n then m (src + (a - dst)) else m a)"
    if "src < dst" for a
    using memcpy_down_spec[of "src + n" "dst + n" n m a] that by auto
  have up: "memcpy m dst src n a = (if dst \<le> a \<and> a < dst + n then m (src + (a - dst)) else m a)"
    if "\<not> (src < dst \<and> dst < src + n)" for a
    using memcpy_spec[of dst src n m a] that by auto
  show ?thesis using down up by (auto simp: memmove_def fun_eq_iff)
qed

theorem memmove_correct_witness:
  "memmove (\<lambda>a. of_nat a) 2 0 4 5 = 3 \<and> memcpy (\<lambda>a. of_nat a) 10 0 4 13 = 3"
  using memmove_correct[of "\<lambda>a. of_nat a" 2 0 4] memmove_correct[of "\<lambda>a. of_nat a" 10 0 4] by simp

section \<open>Digits\<close>

text \<open>The value of a digit string, most significant digit first.\<close>

definition digits_val :: "nat \<Rightarrow> nat list \<Rightarrow> nat \<Rightarrow> nat" where
  "digits_val b ds x = foldl (\<lambda>x d. x * b + d) x ds"

lemma digits_val_simps [simp]:
  "digits_val b [] x = x" "digits_val b (d # ds) x = digits_val b ds (x * b + d)"
  by (simp_all add: digits_val_def)

lemma digits_val_ge: "1 \<le> b \<Longrightarrow> x \<le> digits_val b ds x"
proof (induction ds arbitrary: x)
  case (Cons d ds)
  have "x \<le> x * b + d" using Cons.prems by (simp add: trans_le_add1)
  also have "\<dots> \<le> digits_val b ds (x * b + d)" by (rule Cons.IH[OF Cons.prems])
  finally show ?case by simp
qed simp

lemma strtoul_digits_stop:
  "digit_of base (hd0 s) = None \<Longrightarrow> strtoul_digits s base x ov = (x, ov, s)"
  by (subst strtoul_digits.simps) simp

lemma strtoul_digits_step:
  assumes "digit_of base (of_char c) = Some d"
  shows "strtoul_digits (c # s) base x ov =
    (if x > (- 1 - of_nat d) div of_int base then strtoul_digits s base x True
     else strtoul_digits s base (x * of_int base + of_nat d) ov)"
  using assms by (subst strtoul_digits.simps) (simp add: hd0_def)

lemma overflow_test:
  fixes x :: u64
  assumes b: "2 \<le> b" "b \<le> 36" and d: "d < nat b"
  shows "x > (- 1 - of_nat d) div of_int b \<longleftrightarrow> unat x * nat b + d \<ge> 2 ^ 64"
    and "unat x * nat b + d < 2 ^ 64 \<Longrightarrow> unat (x * of_int b + of_nat d) = unat x * nat b + d"
proof -
  define B where "B = nat b"
  have B: "2 \<le> B" "B \<le> 36" "d < B" "(of_int b :: u64) = of_nat B" using b d by (auto simp: B_def)
  have ub: "unat (of_nat B :: u64) = B" and ud: "unat (of_nat d :: u64) = d"
    using B(2,3) by (auto simp: unat_of_nat intro!: mod_less)
  have "unat (- 1 :: u64) = 2 ^ 64 - 1" by (simp add: unsigned_minus_1_eq_mask mask_eq_exp_minus_1)
  moreover have "(of_nat d :: u64) \<le> - 1" by simp
  ultimately have um: "unat (- 1 - of_nat d :: u64) = 2 ^ 64 - 1 - d"
    using unat_sub[of "of_nat d :: u64" "- 1"] ud by simp
  have "x > (- 1 - of_nat d) div of_nat B \<longleftrightarrow> (2 ^ 64 - 1 - d) div B < unat x"
    unfolding word_less_nat_alt unat_div um ub ..
  also have "\<dots> \<longleftrightarrow> 2 ^ 64 - 1 - d < unat x * B" using B(1) by (intro div_less_iff_less_mult) simp
  also have "\<dots> \<longleftrightarrow> unat x * B + d \<ge> 2 ^ 64" using B(2,3) by auto
  finally show "x > (- 1 - of_nat d) div of_int b \<longleftrightarrow> unat x * nat b + d \<ge> 2 ^ 64"
    by (simp add: B(4) B_def)
  show "unat (x * of_int b + of_nat d) = unat x * nat b + d" if "unat x * nat b + d < 2 ^ 64"
  proof -
    have "unat (x * of_nat B + of_nat d) = (unat x * B + d) mod 2 ^ 64"
      using ub ud by (simp add: unat_word_ariths mod_simps)
    then show ?thesis using that by (simp add: B(4) B_def)
  qed
qed

lemma strtoul_digits_spec:
  assumes b: "2 \<le> b" "b \<le> 36" and cs: "map (\<lambda>c. digit_of b (of_char c)) cs = map Some ds"
    and rest: "digit_of b (hd0 rest) = None"
  shows "\<exists>x' ov'. strtoul_digits (cs @ rest) b x ov = (x', ov', rest)
    \<and> (ov \<longrightarrow> ov')
    \<and> (\<not> ov \<longrightarrow> (if digits_val (nat b) ds (unat x) < 2 ^ 64 then \<not> ov' \<and> unat x' = digits_val (nat b) ds (unat x) else ov'))"
  using cs
proof (induction cs arbitrary: ds x ov)
  case Nil
  then show ?case using strtoul_digits_stop[OF rest] u64_bound[of x] by simp
next
  case (Cons c cs)
  then obtain d ds' where ds: "ds = d # ds'" "digit_of b (of_char c) = Some d" "map (\<lambda>c. digit_of b (of_char c)) cs = map Some ds'"
    by (cases ds) auto
  have d: "d < nat b" using ds(2) by (auto simp: digit_of_def Let_def split: if_splits)
  note step = strtoul_digits_step[OF ds(2), of "cs @ rest" x ov] and t = overflow_test[OF b d, of x]
  show ?case
  proof (cases "unat x * nat b + d < 2 ^ 64")
    case True
    then have run: "strtoul_digits ((c # cs) @ rest) b x ov = strtoul_digits (cs @ rest) b (x * of_int b + of_nat d) ov"
      using step t(1) by simp
    show ?thesis unfolding run ds(1) digits_val_simps
      using Cons.IH[OF ds(3), of "x * of_int b + of_nat d" ov] unfolding t(2)[OF True] .
  next
    case False
    then have "strtoul_digits ((c # cs) @ rest) b x ov = strtoul_digits (cs @ rest) b x True"
      using step t(1) by simp
    moreover have "1 \<le> nat b" using b by simp
    then have "\<not> digits_val (nat b) ds (unat x) < 2 ^ 64"
      using False digits_val_ge[of "nat b" "unat x * nat b + d" ds'] ds(1) by simp
    ultimately show ?thesis using Cons.IH[OF ds(3), of x True] by simp
  qed
qed

text \<open>The digits of a number, most significant first.\<close>

function digs_of :: "nat \<Rightarrow> nat \<Rightarrow> nat list" where
  "digs_of b n = (if n < b \<or> b < 2 then [n] else digs_of b (n div b) @ [n mod b])"
  by pat_completeness auto
termination
  by (relation "measure snd") auto

declare digs_of.simps [simp del]

lemma digits_val_append: "digits_val b (xs @ ys) x = digits_val b ys (digits_val b xs x)"
  by (simp add: digits_val_def)

lemma digs_of_val: "digits_val b (digs_of b n) 0 = n"
proof (induction b n rule: digs_of.induct)
  case (1 b n)
  then show ?case
    by (cases "n < b \<or> b < 2") (simp_all add: digs_of.simps[of b n] digits_val_append)
qed

lemma digs_of_less: "2 \<le> b \<Longrightarrow> d \<in> set (digs_of b n) \<Longrightarrow> d < b"
proof (induction b n rule: digs_of.induct)
  case (1 b n)
  then show ?case by (cases "n < b") (auto simp: digs_of.simps[of b n])
qed

lemma digs_of_length: "2 \<le> b \<Longrightarrow> n < b ^ Suc k \<Longrightarrow> length (digs_of b n) \<le> Suc k"
proof (induction k arbitrary: n)
  case 0
  then show ?case by (simp add: digs_of.simps[of b n])
next
  case (Suc k)
  show ?case
  proof (cases "n < b")
    case False
    have "n div b < b ^ Suc k" using Suc.prems by (intro less_mult_imp_div_less) (simp add: mult.commute)
    then show ?thesis using Suc.IH[of "n div b"] Suc.prems(1) False by (simp add: digs_of.simps[of b n])
  qed (simp add: digs_of.simps[of b n])
qed

lemma fill_numbuf_loop_ok:
  assumes "2 \<le> b" "length (digs_of b val) \<le> space"
  shows "fill_numbuf_loop space val b dg acc = Inr (map ((!) dg) (digs_of b val) @ acc)"
  using assms
proof (induction space arbitrary: val acc)
  case 0
  then show ?case by (simp add: digs_of.simps[of b val] split: if_splits)
next
  case (Suc space)
  show ?case
  proof (cases "val < b")
    case True
    then show ?thesis by (simp add: digs_of.simps[of b val])
  next
    case False
    then have "val div b \<noteq> 0" using Suc.prems(1) by (simp add: div_eq_0_iff)
    moreover have "length (digs_of b (val div b)) \<le> space"
      using Suc.prems False by (simp add: digs_of.simps[of b val])
    ultimately show ?thesis
      using Suc.IH[of "val div b" "dg ! (val mod b) # acc"] Suc.prems(1) False by (simp add: digs_of.simps[of b val])
  qed
qed

text \<open>The buffer of 24 bytes holds every 64-bit number in bases 10 and 16.\<close>

lemma fill_numbuf_eq:
  assumes "base = 10 \<or> base = 16 \<or> base = -16"
  shows "fill_numbuf val base =
    Inr (map ((!) (if base < 0 then lower_digits else upper_digits)) (digs_of (nat \<bar>base\<bar>) (unat val)))"
proof -
  have v: "unat val < 2 ^ 64" using unsigned_less[of val] by simp
  have "length (digs_of 10 (unat val)) \<le> Suc 19" by (rule digs_of_length) (use v in simp_all)
  moreover have "length (digs_of 16 (unat val)) \<le> Suc 15" by (rule digs_of_length) (use v in simp_all)
  ultimately show ?thesis using assms fill_numbuf_loop_ok by (auto simp: fill_numbuf_def)
qed

lemma digit_chars:
  assumes "d < 16"
  shows "of_char (upper_digits ! d) = (if d < 10 then 48 + d else 55 + d)"
    and "of_char (lower_digits ! d) = (if d < 10 then 48 + d else 87 + d)"
proof -
  have "list_all (\<lambda>d. of_char (upper_digits ! d) = (if d < 10 then 48 + d else 55 + d)) [0..<16]"
    "list_all (\<lambda>d. of_char (lower_digits ! d) = (if d < 10 then 48 + d else 87 + d)) [0..<16]"
    by code_simp+
  then show "of_char (upper_digits ! d) = (if d < 10 then 48 + d else 55 + d)"
    "of_char (lower_digits ! d) = (if d < 10 then 48 + d else 87 + d)"
    using assms unfolding list_all_iff by simp_all
qed

lemma digit_of_codes:
  "d < 10 \<Longrightarrow> 10 \<le> base \<Longrightarrow> digit_of base (48 + d) = Some d"
  "10 \<le> d \<Longrightarrow> int d < base \<Longrightarrow> base \<le> 16 \<Longrightarrow> digit_of base (55 + d) = Some d"
  "10 \<le> d \<Longrightarrow> int d < base \<Longrightarrow> base \<le> 16 \<Longrightarrow> digit_of base (87 + d) = Some d"
  by (simp_all add: digit_of_def schar_def nat_diff_distrib nat_add_distrib)

lemma digit_of_digit:
  assumes "d < nat \<bar>base\<bar>" "base = 10 \<or> base = 16 \<or> base = -16"
  shows "digit_of \<bar>base\<bar> (of_char ((if base < 0 then lower_digits else upper_digits) ! d)) = Some d"
proof -
  have d: "d < 16" "int d < \<bar>base\<bar>" "10 \<le> \<bar>base\<bar>" "\<bar>base\<bar> \<le> 16" using assms by auto
  show ?thesis
  proof (cases "d < 10")
    case True
    then have "of_char ((if base < 0 then lower_digits else upper_digits) ! d) = 48 + d"
      using digit_chars[OF d(1)] by simp
    then show ?thesis using digit_of_codes(1)[OF True d(3)] by (simp only:)
  next
    case False
    then have "of_char ((if base < 0 then lower_digits else upper_digits) ! d) = (if base < 0 then 87 + d else 55 + d)" "10 \<le> d"
      using digit_chars[OF d(1)] by simp_all
    then show ?thesis using digit_of_codes(2,3)[OF _ d(2,4)] by (simp only: split: if_split) simp
  qed
qed

lemma digit_of_nul: "base \<le> 36 \<Longrightarrow> digit_of base 0 = None"
  by (simp add: digit_of_def schar_def)

text \<open>A string of digits starts with no blank, sign or \<open>0x\<close>, so \<open>strtoul\<close> reads it as digits.\<close>

lemma strtoul_plain:
  assumes s: "s \<noteq> []" "\<forall>c \<in> set s. \<not> isspace (of_char c) \<and> of_char c \<notin> {43, 45, 88, 120 :: nat}"
    and b: "base \<noteq> 0"
  shows "strtoul s base = (case strtoul_digits s base 0 False of (x, ov, rest) \<Rightarrow> (if ov then - 1 else x, rest))"
proof -
  obtain c t where ct: "s = c # t" using s(1) by (cases s) auto
  have "skip_space s = s" using s(2) ct by (simp add: skip_space_def)
  moreover have "hd0 s \<noteq> 45" "hd0 s \<noteq> 43" using s(2) ct by (auto simp: hd0_def)
  moreover have "hd0 (tl s) \<noteq> 120" "hd0 (tl s) \<noteq> 88" using s(2) ct by (auto simp: hd0_def split: list.splits)
  ultimately show ?thesis using b by (simp add: strtoul_def Let_def split: prod.splits)
qed

lemma digit_chars_plain:
  assumes "\<forall>d \<in> set ds. d < 16" "c \<in> set (map ((!) (if l then lower_digits else upper_digits)) ds)"
  shows "\<not> isspace (of_char c) \<and> of_char c \<notin> {43, 45, 88, 120 :: nat}"
proof -
  obtain d where "d < 16" "c = (if l then lower_digits else upper_digits) ! d" using assms by auto
  then show ?thesis using digit_chars[of d] by (auto simp: isspace_def)
qed

lemma strtoul_digs:
  assumes base: "base = 10 \<or> base = 16 \<or> base = -16" and n: "n < 2 ^ 64"
  shows "strtoul (map ((!) (if base < 0 then lower_digits else upper_digits)) (digs_of (nat \<bar>base\<bar>) n)) \<bar>base\<bar> = (of_nat n, [])"
proof -
  let ?b = "nat \<bar>base\<bar>" and ?dg = "if base < 0 then lower_digits else upper_digits"
  let ?ds = "digs_of ?b n" and ?s = "map ((!) ?dg) (digs_of ?b n)"
  have b2: "2 \<le> ?b" "?b \<le> 16" "int ?b = \<bar>base\<bar>" using base by auto
  have lt: "\<forall>d \<in> set ?ds. d < ?b" using digs_of_less[OF b2(1)] by blast
  have ne: "?ds \<noteq> []" by (simp add: digs_of.simps[of ?b n])
  have "map (\<lambda>c. digit_of \<bar>base\<bar> (of_char c)) ?s = map Some ?ds"
    using lt digit_of_digit[OF _ base] by simp
  then obtain x ov where x: "strtoul_digits (?s @ []) \<bar>base\<bar> 0 False = (x, ov, [])"
    "if digits_val ?b ?ds 0 < 2 ^ 64 then \<not> ov \<and> unat x = digits_val ?b ?ds 0 else ov"
    using strtoul_digits_spec[of "\<bar>base\<bar>" ?s ?ds "[]" 0 False] base digit_of_nul[of "\<bar>base\<bar>"] by (auto simp: hd0_def)
  have xv: "\<not> ov" "unat x = n" using x(2) n by (simp_all add: digs_of_val)
  have "strtoul ?s \<bar>base\<bar> = (case strtoul_digits ?s \<bar>base\<bar> 0 False of (x, ov, rest) \<Rightarrow> (if ov then - 1 else x, rest))"
  proof (rule strtoul_plain)
    show "?s \<noteq> []" using ne by simp
    have "\<forall>d \<in> set ?ds. d < 16" using lt b2(2) by auto
    then show "\<forall>c \<in> set ?s. \<not> isspace (of_char c) \<and> of_char c \<notin> {43, 45, 88, 120 :: nat}"
      using digit_chars_plain[of ?ds _ "base < 0"] by blast
    show "\<bar>base\<bar> \<noteq> 0" using base by auto
  qed
  also have "\<dots> = (of_nat n, [])" using x(1) xv by auto
  finally show ?thesis .
qed

lemma digit_char_plain:
  assumes "digit_of base (of_char c) = Some d" "base \<le> 16"
  shows "\<not> isspace (of_char c) \<and> of_char c \<notin> {43, 45, 88, 120 :: nat}"
  using assms by (auto simp: digit_of_def schar_def isspace_def Let_def split: if_splits)

section \<open>Properties\<close>

text \<open>
  \<open>strtoul\<close> on a non-empty string of digits of a base from 2 to 16 consumes all of it and
  returns its value, or \<open>2^64 - 1\<close> when the value does not fit in an \<open>unsigned long\<close>, also when the
  overflow happens before the last digit.
\<close>

theorem strtoul_saturates:
  assumes "s \<noteq> []" "map (\<lambda>c. digit_of base (of_char c)) s = map Some ds" "2 \<le> base" "base \<le> 16"
  shows "strtoul s base = (of_nat (min (digits_val (nat base) ds 0) (2 ^ 64 - 1)), [])"
proof -
  have "\<not> isspace (of_char c) \<and> of_char c \<notin> {43, 45, 88, 120 :: nat}" if c: "c \<in> set s" for c
  proof -
    obtain i where "i < length s" "c = s ! i" using c by (auto simp: in_set_conv_nth)
    then have "digit_of base (of_char c) = Some (ds ! i)"
      using arg_cong[OF assms(2), of "\<lambda>l. l ! i"] arg_cong[OF assms(2), of length] by simp
    then show ?thesis using digit_char_plain assms(4) by blast
  qed
  then have run: "strtoul s base = (case strtoul_digits s base 0 False of (x, ov, rest) \<Rightarrow> (if ov then - 1 else x, rest))"
    using assms(1,3) by (intro strtoul_plain) auto
  obtain x ov where x: "strtoul_digits s base 0 False = (x, ov, [])"
    "if digits_val (nat base) ds 0 < 2 ^ 64 then \<not> ov \<and> unat x = digits_val (nat base) ds 0 else ov"
    using strtoul_digits_spec[of base s ds "[]" 0 False] assms digit_of_nul[of base] by (auto simp: hd0_def)
  show ?thesis
  proof (cases "digits_val (nat base) ds 0 < 2 ^ 64")
    case True
    then have xv: "unat x = digits_val (nat base) ds 0" "\<not> ov" using x(2) by auto
    then have "x = of_nat (digits_val (nat base) ds 0)" using xv(1)[symmetric] by simp
    then show ?thesis using run x(1) xv(2) True by (simp add: min_def)
  next
    case False
    have "(- 1 :: u64) = of_nat (2 ^ 64 - 1)" by simp
    then show ?thesis using run x False by (simp add: min_def)
  qed
qed

theorem strtoul_saturates_witness: "strtoul ''101'' 2 = (5, [])"
proof -
  have "map (\<lambda>c. digit_of 2 (of_char c)) ''101'' = map Some [1, 0, 1]" by (simp add: digit_of_def schar_def)
  from strtoul_saturates[OF _ this] show ?thesis by simp
qed

text \<open>
  printing a 64-bit number into the 24-byte buffer never overruns it, in decimal and in
  upper- and lower-case hexadecimal, and \<open>strtoul\<close> reads the number back from the digits.
\<close>

theorem number_roundtrip:
  assumes "base = 10 \<or> base = 16 \<or> base = -16"
  shows "\<exists>s. fill_numbuf val base = Inr s \<and> strtoul s \<bar>base\<bar> = (val, [])"
  using fill_numbuf_eq[OF assms] strtoul_digs[OF assms u64_bound[of val]] by auto

theorem number_roundtrip_witness: "\<exists>s. fill_numbuf 48879 (-16) = Inr s \<and> strtoul s 16 = (48879, [])"
  using number_roundtrip[of "-16" 48879] by simp

lemma div_bound: "(a::int) < n * 2147483648 \<Longrightarrow> a div 2147483648 < n"
  by linarith

lemma scaled_bounds:
  assumes "0 < n" "r \<le> RAND_MAX"
  shows "0 \<le> int r * n div (int RAND_MAX + 1)" "int r * n div (int RAND_MAX + 1) < n"
proof -
  have "int r * n < (int RAND_MAX + 1) * n" by (rule mult_strict_right_mono) (use assms in simp_all)
  then have lt: "int r * n < n * (int RAND_MAX + 1)" by (simp only: mult.commute)
  have nn: "0 \<le> int r * n" using assms(1) by simp
  show "0 \<le> int r * n div (int RAND_MAX + 1)" by (rule div_int_pos_iff[THEN iffD2]) (use nn in simp)
  show "int r * n div (int RAND_MAX + 1) < n" using div_bound[OF lt[simplified]] by simp
qed

text \<open>
  \<open>rand(min, max)\<close> stays within its bounds for every state when \<open>max - min < RAND_MAX\<close>; for
  \<open>max - min = RAND_MAX\<close>, which its assertion and its comment admit, \<open>max - min + 1\<close> overflows.
\<close>

theorem rand_range_bounds:
  assumes "mn \<le> mx"
  shows "(mx - mn < int RAND_MAX \<longrightarrow> (\<exists>st' r. rand_range st mn mx = Inr (st', r) \<and> mn \<le> r \<and> r \<le> mx))
    \<and> (mx - mn = int RAND_MAX \<longrightarrow> rand_range st mn mx = Inl Int_Overflow)"
proof -
  obtain st' r where r: "rand st = (st', r)" by fastforce
  have "unat (x AND of_nat RAND_MAX :: u64) \<le> RAND_MAX" for x
    using word_and_le1[of x "of_nat RAND_MAX"] by (simp add: word_le_nat_alt)
  then have rm: "r \<le> RAND_MAX" using r by (auto simp: rand_def Let_def)
  have "0 < mx - mn + 1" using assms by simp
  from scaled_bounds[OF this rm] show ?thesis using assms r by (simp add: rand_range_def)
qed

theorem rand_range_bounds_witness:
  "\<exists>st' r. rand_range \<lparr>rand_seed_set = False, rand_seed = 0\<rparr> 1 6 = Inr (st', r) \<and> 1 \<le> r \<and> r \<le> 6"
  using rand_range_bounds[of 1 6] by simp

end
