(* ===== verification/Printf.thy ===== *)
theory Printf
  imports Klib
begin

text \<open>
  \<open>printer_vprintf\<close> of \<open>lib.cc\<close> and the two printers built on it: \<open>vsnprintf\<close>, which formats into a
  buffer, and \<open>console_vprintf\<close>, which writes to the text console.  The formatter produces the
  sequence of \<open>putc\<close> calls, each a character and a colour; a printer folds its \<open>putc\<close> over them.
  Arguments are the \<open>va_list\<close>: 64-bit words and strings, read in order.
\<close>

section \<open>Arguments\<close>

datatype va = VA_word u64 | VA_ptr string

text \<open>Reading past the list, or as the wrong kind, is undefined in C.\<close>

fun va_word :: "va list \<Rightarrow> (u64 \<times> va list) res" where
  "va_word (VA_word w # val) = Inr (w, val)"
| "va_word _ = Inl Out_Of_Bounds"

fun va_str :: "va list \<Rightarrow> (string \<times> va list) res" where
  "va_str (VA_ptr s # val) = Inr (s, val)"
| "va_str _ = Inl Out_Of_Bounds"

definition as_int :: "u64 \<Rightarrow> int" where
  "as_int w = sint (ucast w :: u32)"

section \<open>Parsing a conversion\<close>

record pf_flags =
  f_alt :: bool
  f_zero :: bool
  f_leftjustify :: bool
  f_spacepositive :: bool
  f_pluspositive :: bool
  f_numeric :: bool
  f_signed :: bool
  f_negative :: bool
  f_alt2 :: bool

definition no_flags :: pf_flags where
  "no_flags = \<lparr>f_alt = False, f_zero = False, f_leftjustify = False, f_spacepositive = False,
     f_pluspositive = False, f_numeric = False, f_signed = False, f_negative = False, f_alt2 = False\<rparr>"

definition set_flag :: "nat \<Rightarrow> pf_flags \<Rightarrow> pf_flags" where
  "set_flag i fl = (if i = 0 then fl\<lparr>f_alt := True\<rparr> else if i = 1 then fl\<lparr>f_zero := True\<rparr>
     else if i = 2 then fl\<lparr>f_leftjustify := True\<rparr> else if i = 3 then fl\<lparr>f_spacepositive := True\<rparr>
     else fl\<lparr>f_pluspositive := True\<rparr>)"

primrec parse_flags :: "string \<Rightarrow> pf_flags \<Rightarrow> pf_flags \<times> string" where
  "parse_flags [] fl = (fl, [])"
| "parse_flags (c # format) fl =
     (case strchr ''#0- +'' (of_char c) of
        Some i \<Rightarrow> parse_flags format (set_flag i fl)
      | None \<Rightarrow> (fl, c # format))"

definition is_digit :: "nat \<Rightarrow> bool" where
  "is_digit c \<longleftrightarrow> 48 \<le> c \<and> c \<le> 57"

primrec parse_number :: "string \<Rightarrow> int \<Rightarrow> int \<times> string" where
  "parse_number [] n = (n, [])"
| "parse_number (c # format) n =
     (if is_digit (of_char c) then parse_number format (10 * n + of_char c - 48) else (n, c # format))"

definition parse_width :: "string \<Rightarrow> va list \<Rightarrow> (int \<times> string \<times> va list) res" where
  "parse_width format val =
     (if 49 \<le> hd0 format \<and> hd0 format \<le> 57
      then (let (w, f) = parse_number format 0 in Inr (w, f, val))
      else if hd0 format = 42
      then rbind (va_word val) (\<lambda>(w, val'). Inr (as_int w, tl format, val'))
      else Inr (- 1, format, val))"

definition parse_precision :: "string \<Rightarrow> va list \<Rightarrow> (int \<times> string \<times> va list) res" where
  "parse_precision format val =
     (if hd0 format = 46
      then (let f1 = tl format
            in rbind (if is_digit (hd0 f1) then (let (p, f) = parse_number f1 0 in Inr (p, f, val))
                      else if hd0 f1 = 42 then rbind (va_word val) (\<lambda>(w, val'). Inr (as_int w, tl f1, val'))
                      else Inr (- 1, f1, val))
                 (\<lambda>(p, f, val'). Inr (if p < 0 then 0 else p, f, val')))
      else Inr (- 1, format, val))"

text \<open>
  The \<open>switch\<close> on the conversion character.  \<open>Conv num base data flags format val\<close> continues with
  the output of one item, \<open>Recolor\<close> is the \<open>continue\<close> of \<open>\<open>%C\<close>\<close>.
\<close>

datatype conversion =
    Conv u64 int string pf_flags string "va list"
  | Recolor int string "va list"

definition conv_signed :: "string \<Rightarrow> bool \<Rightarrow> pf_flags \<Rightarrow> va list \<Rightarrow> conversion res" where
  "conv_signed format len fl val =
     rbind (va_word val) (\<lambda>(w, val').
       let x = (if len then w else scast (ucast w :: u32));
           negative = (sint x < 0)
       in Inr (Conv (if negative then - x else x) 10 []
             (fl\<lparr>f_numeric := True, f_signed := True, f_negative := negative\<rparr>) format val'))"

definition conv_unsigned :: "int \<Rightarrow> string \<Rightarrow> bool \<Rightarrow> pf_flags \<Rightarrow> va list \<Rightarrow> conversion res" where
  "conv_unsigned base format len fl val =
     rbind (va_word val) (\<lambda>(w, val').
       Inr (Conv (if len then w else ucast (ucast w :: u32)) base [] (fl\<lparr>f_numeric := True\<rparr>) format val'))"

primrec convert :: "string \<Rightarrow> bool \<Rightarrow> pf_flags \<Rightarrow> va list \<Rightarrow> conversion res" where
  "convert [] len fl val = Inr (Conv 0 10 ''%'' fl [] val)"
| "convert (c # format) len fl val =
     (if c = CHR ''l'' \<or> c = CHR ''z'' then convert format True fl val
      else if c = CHR ''d'' \<or> c = CHR ''i'' then conv_signed format len fl val
      else if c = CHR ''u'' then conv_unsigned 10 format len fl val
      else if c = CHR ''x'' then conv_unsigned (- 16) format len fl val
      else if c = CHR ''X'' then conv_unsigned 16 format len fl val
      else if c = CHR ''p'' then
        rbind (va_word val) (\<lambda>(w, val').
          Inr (Conv w (- 16) [] (fl\<lparr>f_alt := True, f_alt2 := True, f_numeric := True\<rparr>) format val'))
      else if c = CHR ''s'' then rbind (va_str val) (\<lambda>(s, val'). Inr (Conv 0 10 s fl format val'))
      else if c = CHR ''C'' then rbind (va_word val) (\<lambda>(w, val'). Inr (Recolor (as_int w) format val'))
      else if c = CHR ''c'' then
        rbind (va_word val) (\<lambda>(w, val').
          let ch = unat (ucast w :: u8)
          in Inr (Conv 0 10 (if ch = 0 then [] else [char_of ch]) fl format val'))
      else Inr (Conv 0 10 [c] fl format val))"

section \<open>Output of one item\<close>

definition item_prefix :: "pf_flags \<Rightarrow> u64 \<Rightarrow> int \<Rightarrow> string" where
  "item_prefix fl num base =
     (if f_numeric fl \<and> f_signed fl
      then (if f_negative fl then ''-'' else if f_pluspositive fl then ''+''
            else if f_spacepositive fl then '' '' else [])
      else if f_numeric fl \<and> f_alt fl \<and> (base = 16 \<or> base = - 16) \<and> (num \<noteq> 0 \<or> f_alt2 fl)
      then (if base = - 16 then ''0x'' else ''0X'') else [])"

definition item_zeros :: "pf_flags \<Rightarrow> int \<Rightarrow> int \<Rightarrow> int \<Rightarrow> string \<Rightarrow> int" where
  "item_zeros fl width precision datalen prefix =
     (if f_numeric fl \<and> precision \<ge> 0 then (if precision > datalen then precision - datalen else 0)
      else if f_numeric fl \<and> f_zero fl \<and> \<not> f_leftjustify fl \<and> datalen + int (strlen prefix) < width
      then width - datalen - int (strlen prefix) else 0)"

definition item_output :: "pf_flags \<Rightarrow> int \<Rightarrow> int \<Rightarrow> u64 \<Rightarrow> int \<Rightarrow> string \<Rightarrow> string res" where
  "item_output fl width precision num base data0 =
     rbind (if f_numeric fl then fill_numbuf num base else Inr data0) (\<lambda>data.
       let prefix = item_prefix fl num base;
           datalen = (if precision \<ge> 0 \<and> \<not> f_numeric fl then strnlen data (nat precision) else strlen data);
           zeros = item_zeros fl width precision (int datalen) prefix;
           pad = replicate (nat (width - (int datalen + zeros + int (strlen prefix)))) CHR '' ''
       in Inr ((if f_leftjustify fl then [] else pad) @ prefix @ replicate (nat zeros) CHR ''0''
               @ take datalen data @ (if f_leftjustify fl then pad else [])))"

section \<open>The formatter\<close>

lemma parse_flags_length: "parse_flags format fl = (fl', f') \<Longrightarrow> length f' \<le> length format"
  by (induction format arbitrary: fl) (auto split: option.splits intro: le_SucI)

lemma parse_number_length: "parse_number format n = (n', f') \<Longrightarrow> length f' \<le> length format"
  by (induction format arbitrary: n) (auto split: if_splits intro: le_SucI)

lemma parse_width_length: "parse_width format val = Inr (w, f', val') \<Longrightarrow> length f' \<le> length format"
  by (auto simp: parse_width_def rbind_eq_Inr split: if_splits prod.splits dest: parse_number_length)

lemma parse_precision_length: "parse_precision format val = Inr (w, f', val') \<Longrightarrow> length f' \<le> length format"
  by (auto simp: parse_precision_def rbind_eq_Inr Let_def split: if_splits prod.splits
      dest!: parse_number_length)

lemma convert_length:
  "convert format len fl val = Inr (Conv num base data fl' f' val') \<Longrightarrow> length f' \<le> length format"
  "convert format len fl val = Inr (Recolor col f' val') \<Longrightarrow> length f' \<le> length format"
  by (induction format arbitrary: len)
    (auto simp: rbind_eq_Inr conv_signed_def conv_unsigned_def Let_def split: if_splits intro: le_SucI)

function (sequential) printer_vprintf :: "int \<Rightarrow> string \<Rightarrow> va list \<Rightarrow> (char \<times> int) list res" where
  "printer_vprintf color [] val = Inr []"
| "printer_vprintf color (c # format) val =
     (if c \<noteq> CHR ''%''
      then rbind (printer_vprintf color format val) (\<lambda>out. Inr ((c, color) # out))
      else case parse_flags format no_flags of (fl, f1) \<Rightarrow>
        (case parse_width f1 val of Inl e \<Rightarrow> Inl e | Inr (width, f2, val2) \<Rightarrow>
        (case parse_precision f2 val2 of Inl e \<Rightarrow> Inl e | Inr (precision, f3, val3) \<Rightarrow>
        (case convert f3 False fl val3 of
           Inl e \<Rightarrow> Inl e
         | Inr (Recolor col f4 val4) \<Rightarrow> printer_vprintf col f4 val4
         | Inr (Conv num base data fl' f4 val4) \<Rightarrow>
             rbind (item_output fl' width precision num base data) (\<lambda>item.
             rbind (printer_vprintf color f4 val4) (\<lambda>out. Inr (map (\<lambda>ch. (ch, color)) item @ out)))))))"
  by pat_completeness auto
termination
  by (relation "measure (\<lambda>(_, format, _). length format)")
    (auto simp: eq_commute[where ?b = "parse_flags _ _"] split_pairs
      dest!: parse_flags_length parse_width_length parse_precision_length convert_length)

section \<open>Printers\<close>

text \<open>A printer is its state and \<open>putc\<close>; the formatter's output is fed to it in order.\<close>

primrec putc_all :: "('s \<Rightarrow> char \<Rightarrow> int \<Rightarrow> 's res) \<Rightarrow> 's \<Rightarrow> (char \<times> int) list \<Rightarrow> 's res" where
  "putc_all putc p [] = Inr p"
| "putc_all putc p (x # out) = rbind (putc p (fst x) (snd x)) (\<lambda>p'. putc_all putc p' out)"

record string_printer =
  sp_mem :: string
  sp_s :: nat
  sp_end :: nat
  sp_n :: nat

definition sp_store :: "string_printer \<Rightarrow> nat \<Rightarrow> char \<Rightarrow> string_printer res" where
  "sp_store sp i c = (if i < length (sp_mem sp) then Inr (sp\<lparr>sp_mem := (sp_mem sp)[i := c]\<rparr>) else Inl Out_Of_Bounds)"

definition string_putc :: "string_printer \<Rightarrow> char \<Rightarrow> int \<Rightarrow> string_printer res" where
  "string_putc sp c color =
     rbind (if sp_s sp < sp_end sp
            then rbind (sp_store sp (sp_s sp) c) (\<lambda>sp'. Inr (sp'\<lparr>sp_s := sp_s sp + 1\<rparr>))
            else Inr sp)
       (\<lambda>sp'. Inr (sp'\<lparr>sp_n := sp_n sp + 1\<rparr>))"

text \<open>\<open>vsnprintf\<close> on the array \<open>s\<close>; \<open>sz\<close> is what the caller claims its sz to be.\<close>

definition vsnprintf :: "string \<Rightarrow> nat \<Rightarrow> string \<Rightarrow> va list \<Rightarrow> (string \<times> nat) res" where
  "vsnprintf s sz format val =
     rbind (printer_vprintf 0 format val) (\<lambda>out.
     rbind (putc_all string_putc \<lparr>sp_mem = s, sp_s = 0, sp_end = sz, sp_n = 0\<rparr> out) (\<lambda>sp.
     rbind (if sz \<noteq> 0 \<and> sp_s sp < sp_end sp then sp_store sp (sp_s sp) (CHR 0x00)
            else if sz \<noteq> 0 then sp_store sp (sp_end sp - 1) (CHR 0x00)
            else Inr sp)
       (\<lambda>sp'. Inr (sp_mem sp', sp_n sp'))))"

section \<open>The console\<close>

abbreviation CONSOLE_COLUMNS :: nat where "CONSOLE_COLUMNS \<equiv> 80"
abbreviation CONSOLE_ROWS :: nat where "CONSOLE_ROWS \<equiv> 25"
abbreviation CONSOLE_SIZE :: nat where "CONSOLE_SIZE \<equiv> 2000"

text \<open>The globals \<open>console\<close> and \<open>cursorpos\<close>, and the printer's cursor as an index into the console.\<close>

record console_state =
  console :: "u16 list"
  cursorpos :: nat

record console_printer =
  cp_console :: "u16 list"
  cp_cursor :: nat
  cp_scroll :: bool

definition console_cell :: "char \<Rightarrow> int \<Rightarrow> u16" where
  "console_cell c color = of_nat (of_char c) OR of_int color"

definition scroll_once :: "u16 list \<Rightarrow> u16 list" where
  "scroll_once con =
     (let moved = arr_move con 0 CONSOLE_COLUMNS ((CONSOLE_ROWS - 1) * CONSOLE_COLUMNS)
      in take ((CONSOLE_ROWS - 1) * CONSOLE_COLUMNS) moved @ replicate CONSOLE_COLUMNS 0 @ drop CONSOLE_SIZE moved)"

text \<open>The \<open>while\<close> loop that brings the cursor back onto the screen.\<close>

function cursor_onscreen :: "console_printer \<Rightarrow> console_printer" where
  "cursor_onscreen cp =
     (if cp_cursor cp \<ge> CONSOLE_SIZE
      then cursor_onscreen
        (if cp_scroll cp
         then cp\<lparr>cp_console := scroll_once (cp_console cp), cp_cursor := cp_cursor cp - CONSOLE_COLUMNS\<rparr>
         else cp\<lparr>cp_cursor := 0\<rparr>)
      else cp)"
  by pat_completeness auto
termination by (relation "measure cp_cursor") auto

declare cursor_onscreen.simps [simp del]

definition put_cell :: "console_printer \<Rightarrow> u16 \<Rightarrow> console_printer res" where
  "put_cell cp x =
     (if cp_cursor cp < length (cp_console cp)
      then Inr (cp\<lparr>cp_console := (cp_console cp)[cp_cursor cp := x], cp_cursor := cp_cursor cp + 1\<rparr>)
      else Inl Out_Of_Bounds)"

primrec put_blanks :: "nat \<Rightarrow> console_printer \<Rightarrow> int \<Rightarrow> console_printer res" where
  "put_blanks 0 cp color = Inr cp"
| "put_blanks (Suc n) cp color = rbind (put_cell cp (console_cell CHR '' '' color)) (\<lambda>cp'. put_blanks n cp' color)"

definition console_putc :: "console_printer \<Rightarrow> char \<Rightarrow> int \<Rightarrow> console_printer res" where
  "console_putc cp0 c color =
     (let cp = cursor_onscreen cp0
      in if c = CHR 0x0A then put_blanks (80 - cp_cursor cp mod 80) cp color
         else put_cell cp (console_cell c color))"

definition console_vprintf :: "console_state \<Rightarrow> int \<Rightarrow> int \<Rightarrow> string \<Rightarrow> va list \<Rightarrow> (console_state \<times> nat) res" where
  "console_vprintf st cpos color format val =
     rbind (printer_vprintf color format val) (\<lambda>out.
     rbind (putc_all console_putc
             \<lparr>cp_console = console st,
              cp_cursor = (if cpos < 0 then cursorpos st else if cpos \<le> int CONSOLE_SIZE then nat cpos else 0),
              cp_scroll = (cpos < 0)\<rparr> out) (\<lambda>cp.
     Inr (\<lparr>console = cp_console cp, cursorpos = (if cpos < 0 then cp_cursor cp else cursorpos st)\<rparr>,
          cp_cursor cp)))"

primrec console_clear_loop :: "nat \<Rightarrow> u16 list \<Rightarrow> u16 list" where
  "console_clear_loop 0 con = con"
| "console_clear_loop (Suc n) con = (console_clear_loop n con)[n := console_cell CHR '' '' 0x0700]"

definition console_clear :: "console_state \<Rightarrow> console_state" where
  "console_clear st = \<lparr>console = console_clear_loop CONSOLE_SIZE (console st), cursorpos = 0\<rparr>"

section \<open>Formatting into a buffer\<close>

text \<open>The buffer after \<open>out\<close> was fed to the string printer: the part that fits, then what was there.\<close>

lemma string_putc_all:
  assumes "sp_end sp \<le> length (sp_mem sp)" "sp_s sp \<le> sp_end sp"
  shows "putc_all string_putc sp out = Inr (sp
     \<lparr>sp_mem := take (sp_s sp) (sp_mem sp) @ take (sp_end sp - sp_s sp) (map fst out)
                @ drop (sp_s sp + min (length out) (sp_end sp - sp_s sp)) (sp_mem sp),
      sp_s := sp_s sp + min (length out) (sp_end sp - sp_s sp),
      sp_n := sp_n sp + length out\<rparr>)"
  using assms
proof (induction out arbitrary: sp)
  case Nil
  then show ?case by simp
next
  case (Cons x out)
  show ?case
  proof (cases "sp_s sp < sp_end sp")
    case True
    define sp' where "sp' = sp\<lparr>sp_mem := (sp_mem sp)[sp_s sp := fst x], sp_s := sp_s sp + 1, sp_n := sp_n sp + 1\<rparr>"
    obtain k where k: "sp_end sp - sp_s sp = Suc k" "sp_end sp - (sp_s sp + 1) = k" using True by (cases "sp_end sp - sp_s sp") auto
    have put: "string_putc sp (fst x) (snd x) = Inr sp'"
      using True Cons.prems by (simp add: string_putc_def sp_store_def sp'_def)
    have len: "sp_s sp < length (sp_mem sp)" using True Cons.prems by simp
    have "putc_all string_putc sp' out = Inr (sp'
     \<lparr>sp_mem := take (sp_s sp') (sp_mem sp') @ take (sp_end sp' - sp_s sp') (map fst out)
                @ drop (sp_s sp' + min (length out) (sp_end sp' - sp_s sp')) (sp_mem sp'),
      sp_s := sp_s sp' + min (length out) (sp_end sp' - sp_s sp'),
      sp_n := sp_n sp' + length out\<rparr>)"
      by (rule Cons.IH) (use True Cons.prems in \<open>auto simp: sp'_def\<close>)
    then show ?thesis using put len k by (simp add: sp'_def take_Suc_conv_app_nth)
  next
    case False
    then have "string_putc sp (fst x) (snd x) = Inr (sp\<lparr>sp_n := sp_n sp + 1\<rparr>)" by (simp add: string_putc_def)
    then show ?thesis using False Cons.prems Cons.IH[of "sp\<lparr>sp_n := sp_n sp + 1\<rparr>"] by simp
  qed
qed

text \<open>
  C25: \<open>vsnprintf\<close> into a buffer of at least \<open>sz\<close> bytes never writes past it: it returns the length
  of the whole formatted text, leaves every byte from \<open>sz\<close> on alone, and when \<open>sz\<close> is not zero
  the buffer starts with the longest prefix of the text that leaves room for the terminating NUL,
  followed by that NUL.
\<close>

theorem vsnprintf_correct:
  assumes "sz \<le> length s" "printer_vprintf 0 format val = Inr out"
  shows "\<exists>s'. vsnprintf s sz format val = Inr (s', length out) \<and> length s' = length s
     \<and> drop sz s' = drop sz s
     \<and> (0 < sz \<longrightarrow> take (min (length out) (sz - 1) + 1) s'
                    = take (sz - 1) (map fst out) @ [CHR 0x00])"
proof -
  let ?sp0 = "\<lparr>sp_mem = s, sp_s = 0, sp_end = sz, sp_n = 0\<rparr>"
  define k where "k = min (length out) sz"
  define mem where "mem = take sz (map fst out) @ drop k s"
  have run: "putc_all string_putc ?sp0 out = Inr \<lparr>sp_mem = mem, sp_s = k, sp_end = sz, sp_n = length out\<rparr>"
    using assms(1) string_putc_all[of ?sp0 out] by (simp add: mem_def k_def)
  have k: "k \<le> sz" "length mem = length s" "drop sz mem = drop sz s" and tk: "k < sz \<Longrightarrow> k = length out"
    using assms(1) by (auto simp: mem_def k_def min_def split: if_splits)
  define i where "i = (if k < sz then k else sz - 1)"
  have vs: "vsnprintf s sz format val = Inr (if sz = 0 then mem else mem[i := CHR 0x00], length out)"
    using assms run k unfolding vsnprintf_def by (auto simp: sp_store_def i_def)
  have i: "i = min (length out) (sz - 1)" if "0 < sz" using that tk k(1) unfolding i_def k_def by auto
  have "take (i + 1) (mem[i := CHR 0x00]) = take (sz - 1) (map fst out) @ [CHR 0x00]" if "0 < sz"
  proof -
    have il: "i < length mem" using i[OF that] k(2) assms(1) that by simp
    have "take i mem = take (sz - 1) (map fst out)"
    proof -
      have "i \<le> k" "i \<le> sz" using i[OF that] by (auto simp: k_def)
      then have "take i mem = take i (map fst out)" by (simp add: mem_def k_def)
      then show ?thesis using i[OF that] by (simp add: min_def)
    qed
    then show ?thesis using il by (simp add: take_Suc_conv_app_nth)
  qed
  moreover have "drop sz (mem[i := CHR 0x00]) = drop sz s" if "0 < sz"
    using i[OF that] k(3) that by simp
  ultimately show ?thesis using vs k i by (cases "sz = 0") auto
qed

theorem vsnprintf_correct_witness:
  "\<exists>s'. vsnprintf ''xxxxxxxx'' 4 ''%d!'' [VA_word 1234] = Inr (s', 5) \<and> take 4 s' = ''123'' @ [CHR 0x00] \<and> drop 4 s' = ''xxxx''"
proof -
  have run: "printer_vprintf 0 ''%d!'' [VA_word 1234] = Inr [(CHR ''1'', 0), (CHR ''2'', 0), (CHR ''3'', 0), (CHR ''4'', 0), (CHR ''!'', 0)]"
    by code_simp
  show ?thesis using vsnprintf_correct[OF _ run, of 4 "''xxxxxxxx''"] by (auto simp: eval_nat_numeral)
qed

section \<open>The console stays in its bounds\<close>

definition cp_ok :: "console_printer \<Rightarrow> bool" where
  "cp_ok cp \<longleftrightarrow> length (cp_console cp) = CONSOLE_SIZE \<and> cp_cursor cp \<le> CONSOLE_SIZE"

definition console_ok :: "console_state \<Rightarrow> bool" where
  "console_ok st \<longleftrightarrow> length (console st) = CONSOLE_SIZE \<and> cursorpos st \<le> CONSOLE_SIZE"

lemma length_scroll_once [simp]: "length con = CONSOLE_SIZE \<Longrightarrow> length (scroll_once con) = CONSOLE_SIZE"
  by (simp add: scroll_once_def Let_def)

lemma cursor_onscreen_ok:
  "length (cp_console cp) = CONSOLE_SIZE \<Longrightarrow>
     length (cp_console (cursor_onscreen cp)) = CONSOLE_SIZE \<and> cp_cursor (cursor_onscreen cp) < CONSOLE_SIZE
     \<and> cp_scroll (cursor_onscreen cp) = cp_scroll cp"
proof (induction cp rule: cursor_onscreen.induct)
  case (1 cp)
  then show ?case by (subst (1 2 3) cursor_onscreen.simps) (auto split: if_splits)
qed

lemma cursor_onscreen_id: "cp_cursor cp < CONSOLE_SIZE \<Longrightarrow> cursor_onscreen cp = cp"
  by (subst cursor_onscreen.simps) simp

lemma put_blanks_run:
  "cp_cursor cp + n \<le> length (cp_console cp) \<Longrightarrow>
     \<exists>cp'. put_blanks n cp color = Inr cp' \<and> length (cp_console cp') = length (cp_console cp)
       \<and> cp_cursor cp' = cp_cursor cp + n \<and> cp_scroll cp' = cp_scroll cp"
proof (induction n arbitrary: cp)
  case (Suc n)
  let ?cp = "cp\<lparr>cp_console := (cp_console cp)[cp_cursor cp := console_cell CHR '' '' color], cp_cursor := Suc (cp_cursor cp)\<rparr>"
  have "put_blanks (Suc n) cp color = put_blanks n ?cp color" using Suc.prems by (simp add: put_cell_def)
  then show ?case using Suc.IH[of ?cp] Suc.prems by auto
qed simp

lemma console_putc_ok:
  assumes "cp_ok cp"
  shows "\<exists>cp'. console_putc cp c color = Inr cp' \<and> cp_ok cp' \<and> 0 < cp_cursor cp' \<and> cp_scroll cp' = cp_scroll cp
    \<and> (c = CHR 0x0A \<longrightarrow> cp_cursor cp' mod CONSOLE_COLUMNS = 0)"
proof -
  define q where "q = cursor_onscreen cp"
  have q: "length (cp_console q) = CONSOLE_SIZE" "cp_cursor q < CONSOLE_SIZE" "cp_scroll q = cp_scroll cp"
    using cursor_onscreen_ok[of cp] assms by (simp_all add: cp_ok_def q_def)
  show ?thesis
  proof (cases "c = CHR 0x0A")
    case True
    have "cp_cursor q + (80 - cp_cursor q mod 80) = 80 * (cp_cursor q div 80 + 1)"
      by presburger
    moreover have "cp_cursor q div 80 + 1 \<le> 25" using q(2) by (simp add: less_mult_imp_div_less Suc_leI)
    ultimately have pos: "cp_cursor q + (80 - cp_cursor q mod 80) \<le> 2000"
      "(cp_cursor q + (80 - cp_cursor q mod 80)) mod 80 = 0" "0 < cp_cursor q + (80 - cp_cursor q mod 80)"
      by simp_all
    obtain cp' where "put_blanks (80 - cp_cursor q mod 80) q color = Inr cp'" "length (cp_console cp') = length (cp_console q)"
      "cp_cursor cp' = cp_cursor q + (80 - cp_cursor q mod 80)" "cp_scroll cp' = cp_scroll q"
      using put_blanks_run[of q "80 - cp_cursor q mod 80" color] pos(1) q(1) by auto
    then show ?thesis using True pos q by (simp add: console_putc_def Let_def q_def[symmetric] cp_ok_def)
  next
    case False
    then show ?thesis using q by (simp add: console_putc_def Let_def q_def[symmetric] cp_ok_def put_cell_def)
  qed
qed

lemma console_putc_all_ok:
  "cp_ok cp \<Longrightarrow> \<exists>cp'. putc_all console_putc cp out = Inr cp' \<and> cp_ok cp'"
proof (induction out arbitrary: cp)
  case (Cons x out)
  then show ?case using console_putc_ok[OF Cons.prems, of "fst x" "snd x"] by auto
qed simp

text \<open>On a line that fits, the console printer writes one cell per character.\<close>

lemma console_putc_all_plain:
  assumes "\<forall>x\<in>set out. fst x \<noteq> CHR 0x0A" "length (cp_console cp) = CONSOLE_SIZE" "cp_cursor cp + length out \<le> CONSOLE_SIZE"
  shows "putc_all console_putc cp out = Inr (cp
    \<lparr>cp_console := take (cp_cursor cp) (cp_console cp) @ map (\<lambda>(c, col). console_cell c col) out
        @ drop (cp_cursor cp + length out) (cp_console cp),
     cp_cursor := cp_cursor cp + length out\<rparr>)"
  using assms
proof (induction out arbitrary: cp)
  case (Cons x out)
  let ?cell = "console_cell (fst x) (snd x)"
  define cp' where "cp' = cp\<lparr>cp_console := (cp_console cp)[cp_cursor cp := ?cell], cp_cursor := cp_cursor cp + 1\<rparr>"
  have lt: "cp_cursor cp < CONSOLE_SIZE" using Cons.prems by simp
  have "console_putc cp (fst x) (snd x) = Inr cp'"
    using Cons.prems lt by (simp add: console_putc_def cursor_onscreen_id put_cell_def cp'_def)
  moreover have "putc_all console_putc cp' out = Inr (cp'
    \<lparr>cp_console := take (cp_cursor cp') (cp_console cp') @ map (\<lambda>(c, col). console_cell c col) out
        @ drop (cp_cursor cp' + length out) (cp_console cp'),
     cp_cursor := cp_cursor cp' + length out\<rparr>)"
    by (rule Cons.IH) (use Cons.prems in \<open>auto simp: cp'_def\<close>)
  ultimately show ?case using lt Cons.prems(2) by (simp add: cp'_def take_Suc_conv_app_nth case_prod_beta)
qed simp

text \<open>
  C26: whatever is printed, the console printer never writes outside the 25 by 80 cells, keeps the cursor
  on or just past the last cell, and moves the kernel's own cursor only when it was asked to print
  there.  Text without newlines that fits from position \<open>cpos\<close> on is stored one cell per character
  and changes no other cell.
\<close>

theorem console_vprintf_correct:
  assumes "console_ok st" "printer_vprintf color format val = Inr out"
  shows "\<exists>st' pos. console_vprintf st cpos color format val = Inr (st', pos)
      \<and> console_ok st' \<and> pos \<le> CONSOLE_SIZE
      \<and> cursorpos st' = (if cpos < 0 then pos else cursorpos st)
      \<and> (0 \<le> cpos \<and> cpos + int (length out) \<le> int CONSOLE_SIZE \<and> (\<forall>x\<in>set out. fst x \<noteq> CHR 0x0A) \<longrightarrow>
          pos = nat cpos + length out
          \<and> console st' = take (nat cpos) (console st) @ map (\<lambda>(c, col). console_cell c col) out @ drop pos (console st))"
proof -
  define cp where "cp = \<lparr>cp_console = console st,
     cp_cursor = (if cpos < 0 then cursorpos st else if cpos \<le> int CONSOLE_SIZE then nat cpos else 0), cp_scroll = (cpos < 0)\<rparr>"
  have ok: "cp_ok cp" using assms(1) by (auto simp: cp_ok_def console_ok_def cp_def)
  then obtain cp' where cp': "putc_all console_putc cp out = Inr cp'" "cp_ok cp'" using console_putc_all_ok by blast
  have run: "console_vprintf st cpos color format val =
      Inr (\<lparr>console = cp_console cp', cursorpos = (if cpos < 0 then cp_cursor cp' else cursorpos st)\<rparr>, cp_cursor cp')"
    unfolding console_vprintf_def assms(2) rbind_simps cp_def[symmetric] cp'(1) by simp
  have plain: "cp_cursor cp' = nat cpos + length out"
    "cp_console cp' = take (nat cpos) (console st) @ map (\<lambda>(c, col). console_cell c col) out @ drop (nat cpos + length out) (console st)"
    if "0 \<le> cpos" "cpos + int (length out) \<le> int CONSOLE_SIZE" "\<forall>x\<in>set out. fst x \<noteq> CHR 0x0A"
    using console_putc_all_plain[OF that(3), of cp] that(1,2) ok cp'(1) by (auto simp: cp_ok_def cp_def)
  show ?thesis unfolding run using cp'(2) assms(1) plain by (auto simp: console_ok_def cp_ok_def)
qed

theorem console_vprintf_correct_witness:
  "\<exists>st' pos. console_vprintf \<lparr>console = replicate CONSOLE_SIZE 0, cursorpos = 5\<rparr> 81 0x700 ''ok'' [] = Inr (st', pos)
     \<and> console_ok st' \<and> pos = 83 \<and> cursorpos st' = 5"
proof -
  have run: "printer_vprintf 0x700 ''ok'' [] = Inr [(CHR ''o'', 0x700), (CHR ''k'', 0x700)]" by code_simp
  show ?thesis
    using console_vprintf_correct[OF _ run, of "\<lparr>console = replicate CONSOLE_SIZE 0, cursorpos = 5\<rparr>" 81]
    by (auto simp: console_ok_def)
qed

section \<open>Printing and reading numbers\<close>

text \<open>The text of \<open>\<open>%ld\<close>\<close>: the sign, then the decimal digits of the magnitude.\<close>

lemma printf_ld:
  assumes "fill_numbuf (if sint x < 0 then - x else x) 10 = Inr ds"
  shows "printer_vprintf color ''%ld'' [VA_word x] =
     Inr (map (\<lambda>ch. (ch, color)) ((if sint x < 0 then ''-'' else []) @ ds))"
proof -
  have flags: "parse_flags ''ld'' no_flags = (no_flags, ''ld'')" by code_simp
  have strlen: "strlen ds = length ds" by (induction ds) auto
  have conv: "convert ''ld'' False no_flags [VA_word x] =
      Inr (Conv (if sint x < 0 then - x else x) 10 [] (no_flags\<lparr>f_numeric := True, f_signed := True, f_negative := sint x < 0\<rparr>) [] [])"
    by (simp add: conv_signed_def Let_def)
  have item: "item_output (no_flags\<lparr>f_numeric := True, f_signed := True, f_negative := sint x < 0\<rparr>) (- 1) (- 1)
      (if sint x < 0 then - x else x) 10 [] = Inr ((if sint x < 0 then ''-'' else []) @ ds)"
    by (simp add: item_output_def assms strlen item_prefix_def item_zeros_def no_flags_def Let_def)
  have width: "parse_width ''ld'' [VA_word x] = Inr (- 1, ''ld'', [VA_word x])"
    and prec: "parse_precision ''ld'' [VA_word x] = Inr (- 1, ''ld'', [VA_word x])"
    by (simp_all add: parse_width_def parse_precision_def hd0_def)
  show ?thesis
    by (simp add: flags width prec conv item del: convert.simps parse_flags.simps)
qed

lemma skip_space_digs: "skip_space (map ((!) upper_digits) (digs_of 10 n)) = map ((!) upper_digits) (digs_of 10 n)"
  and digs_no_sign: "hd0 (map ((!) upper_digits) (digs_of 10 n)) \<noteq> 45"
proof -
  let ?s = "map ((!) upper_digits) (digs_of 10 n)"
  have lt: "\<forall>d\<in>set (digs_of 10 n). d < 16" using digs_of_less[of 10 _ n] by force
  then have "\<forall>c\<in>set ?s. \<not> isspace (of_char c) \<and> of_char c \<notin> {43, 45, 88, 120 :: nat}"
    using digit_chars_plain[of "digs_of 10 n" _ False] by (simp only: if_False) blast
  then show "skip_space ?s = ?s" "hd0 ?s \<noteq> 45" by (cases ?s; auto simp: skip_space_def hd0_def)+
qed

lemma strtol_signed:
  fixes x :: u64
  assumes u: "strtoul ds 10 = (if sint x < 0 then - x else x, [])" and sp: "skip_space ds = ds" and h: "hd0 ds \<noteq> 45"
  shows "strtol ((if sint x < 0 then ''-'' else []) @ ds) 10 = (x, [])"
proof (cases "sint x < 0")
  case True
  then show ?thesis using u64_neg_bound[OF True] u by (simp add: strtol_def skip_space_def hd0_def isspace_def Let_def)
next
  case False
  then show ?thesis using u64_nonneg_bound[OF False] u sp h by (simp add: strtol_def Let_def)
qed


end
