(* ===== verification/Keyboard.thy ===== *)
theory Keyboard
  imports Printf
begin

text \<open>
  The keyboard driver of \<open>k-devices.cc\<close> and the console device \<open>vnode_kbc\<close> of \<open>k-vfs.cc\<close>: decoding of
  scan codes, the line buffer filled by the interrupt handler, its echo on the console, and the
  read and write of file descriptors 0 to 2.  The bytes the controller has ready are a list; the
  handler runs with the keyboard lock held, so one interrupt and one read are each one step.
  \<open>poweroff\<close> does not return: its outcome is \<open>None\<close>.
\<close>

section \<open>Scan codes\<close>

abbreviation KEY_UP :: int where "KEY_UP \<equiv> 0xC0"
abbreviation KEY_RIGHT :: int where "KEY_RIGHT \<equiv> 0xC1"
abbreviation KEY_DOWN :: int where "KEY_DOWN \<equiv> 0xC2"
abbreviation KEY_LEFT :: int where "KEY_LEFT \<equiv> 0xC3"
abbreviation KEY_HOME :: int where "KEY_HOME \<equiv> 0xC4"
abbreviation KEY_END :: int where "KEY_END \<equiv> 0xC5"
abbreviation KEY_PAGEUP :: int where "KEY_PAGEUP \<equiv> 0xC6"
abbreviation KEY_PAGEDOWN :: int where "KEY_PAGEDOWN \<equiv> 0xC7"
abbreviation KEY_INSERT :: int where "KEY_INSERT \<equiv> 0xC8"
abbreviation KEY_DELETE :: int where "KEY_DELETE \<equiv> 0xC9"
abbreviation KEY_SHIFT :: int where "KEY_SHIFT \<equiv> 0xFA"
abbreviation KEY_CONTROL :: int where "KEY_CONTROL \<equiv> 0xFB"
abbreviation KEY_ALT :: int where "KEY_ALT \<equiv> 0xFC"
abbreviation KEY_CAPSLOCK :: int where "KEY_CAPSLOCK \<equiv> 0xFD"
abbreviation KEY_NUMLOCK :: int where "KEY_NUMLOCK \<equiv> 0xFE"
abbreviation KEY_SCROLLLOCK :: int where "KEY_SCROLLLOCK \<equiv> 0xFF"

definition keymap :: "int list" where
  "keymap = [
     0, 27, 0x80, 0x81, 0x82, 0x83, 0x84, 0x85, 0x86, 0x87, 0x88, 0x89, 0x8A, 0x8B, 8, 9,
     113, 119, 101, 114, 116, 121, 117, 105, 111, 112, 0x8C, 0x8D, 0x8E, KEY_CONTROL, 97, 115,
     100, 102, 103, 104, 106, 107, 108, 0x8F, 0x90, 0x91, KEY_SHIFT, 0x92, 122, 120, 99, 118,
     98, 110, 109, 0x93, 0x94, 0x95, KEY_SHIFT, 42, KEY_ALT, 32, KEY_CAPSLOCK, 0, 0, 0, 0, 0,
     0, 0, 0, 0, 0, KEY_NUMLOCK, KEY_SCROLLLOCK, 55, 56, 57, 45, 52, 53, 54, 43, 49,
     50, 51, 48, 46, 0, 0, 0, 0, 0, 0, 0, 0, 0, 0, 0, 0,
     0, 0, 0, 0, 0, 0, 0, 0, 0, 0, 0, 0, 0, 0, 0, 0,
     0, 0, 0, 0, 0, 0, 0, 0, 0, 0, 0, 0, 0, 0, 0, 0,
     0, 0, 0, 0, 0, 0, 0, 0, 0, 0, 0, 0, 0, 0, 0, 0,
     0, 0, 0, 0, 0, 0, 0, 0, 0, 0, 0, 0, 0x8E, KEY_CONTROL, 0, 0,
     0, 0, 0, 0, 0, 0, 0, 0, 0, 0, 0, 0, 0, 0, 0, 0,
     0, 0, 0, 0, 0, 47, 0, 0, KEY_ALT, 0, 0, 0, 0, 0, 0, 0,
     0, 0, 0, 0, 0, 0, 0, KEY_HOME, KEY_UP, KEY_PAGEUP, 0, KEY_LEFT, 0, KEY_RIGHT, 0, KEY_END,
     KEY_DOWN, KEY_PAGEDOWN, KEY_INSERT, KEY_DELETE, 0, 0, 0, 0, 0, 0, 0, 0, 0, 0, 0, 0,
     0, 0, 0, 0, 0, 0, 0, 0, 0, 0, 0, 0, 0, 0, 0, 0,
     0, 0, 0, 0, 0, 0, 0, 0, 0, 0, 0, 0, 0, 0, 0, 0]"

definition complex_keymap :: "int list list" where
  "complex_keymap = [
     [49, 33, 0, 0], [50, 64, 0, 0], [51, 35, 0, 0], [52, 36, 0, 0],
     [53, 37, 0, 0], [54, 94, 0, 30], [55, 38, 0, 0], [56, 42, 0, 0],
     [57, 40, 0, 0], [48, 41, 0, 0], [45, 95, 0, 31], [61, 43, 0, 0],
     [91, 123, 27, 0], [93, 125, 29, 0], [10, 10, 13, 13], [59, 58, 0, 0],
     [39, 34, 0, 0], [96, 126, 0, 0], [92, 124, 28, 0], [44, 60, 0, 0],
     [46, 62, 0, 0], [47, 63, 0, 0]]"

text \<open>The static variables of \<open>keyboard_readc\<close>.\<close>

record kbd_hw =
  modifiers :: u8
  last_escape :: u8

abbreviation MOD_SHIFT :: u8 where "MOD_SHIFT \<equiv> 1"
abbreviation MOD_CONTROL :: u8 where "MOD_CONTROL \<equiv> 2"
abbreviation MOD_CAPSLOCK :: u8 where "MOD_CAPSLOCK \<equiv> 8"

definition decode_key :: "u8 \<Rightarrow> int \<Rightarrow> u8 \<times> int" where
  "decode_key mods ch =
     (if 97 \<le> ch \<and> ch \<le> 122 then
        (mods, if mods AND MOD_CONTROL \<noteq> 0 then ch - 0x60
               else if (mods AND MOD_SHIFT = 0) \<noteq> (mods AND MOD_CAPSLOCK = 0) then ch - 0x20 else ch)
      else if ch \<ge> KEY_CAPSLOCK then (mods XOR push_bit (nat (ch - KEY_SHIFT)) 1, 0)
      else if ch \<ge> KEY_SHIFT then (mods OR push_bit (nat (ch - KEY_SHIFT)) 1, 0)
      else if 0x80 \<le> ch \<and> ch \<le> 0x80 + 21 then (mods, complex_keymap ! nat (ch - 0x80) ! unat (mods AND 3))
      else if ch < 0x80 \<and> mods AND MOD_CONTROL \<noteq> 0 then (mods, 0)
      else (mods, ch))"

fun keyboard_readc :: "kbd_hw \<Rightarrow> u8 list \<Rightarrow> kbd_hw \<times> u8 list \<times> int" where
  "keyboard_readc hw [] = (hw, [], - 1)"
| "keyboard_readc hw (data # inp) =
     (let escape = last_escape hw; hw1 = hw\<lparr>last_escape := 0\<rparr>
      in if data = 0xE0 then (hw1\<lparr>last_escape := 0x80\<rparr>, inp, 0)
         else (let released = (data AND 0x80 \<noteq> 0);
                   code = (if released then data AND 0x7F else data);
                   (mods, ch) = decode_key (modifiers hw1) (keymap ! unat (code OR escape))
               in (hw1\<lparr>modifiers := mods\<rparr>, inp, if released \<and> ch \<noteq> - 1 then ch + 256 else ch)))"

section \<open>The line buffer\<close>

datatype kbd_mode = boot | input | fail

text \<open>\<open>buf_\<close> has 256 elements; the code's bound \<open>sizeof(buf_)\<close> counts bytes.\<close>

abbreviation KBD_SIZEOF :: nat where "KBD_SIZEOF \<equiv> 1024"

record keyboardstate =
  kb_buf :: "int list"
  kb_pos :: nat
  kb_len :: nat
  kb_eol :: u32
  kb_state :: kbd_mode

definition keyboard_init :: keyboardstate where
  "keyboard_init = \<lparr>kb_buf = replicate 256 0, kb_pos = 0, kb_len = 0, kb_eol = 0, kb_state = boot\<rparr>"

definition kb_check_invariants :: "keyboardstate \<Rightarrow> bool" where
  "kb_check_invariants kb \<longleftrightarrow> kb_pos kb < KBD_SIZEOF \<and> kb_len kb \<le> KBD_SIZEOF \<and> unat (kb_eol kb) \<le> kb_len kb"

definition consume :: "keyboardstate \<Rightarrow> nat \<Rightarrow> keyboardstate res" where
  "consume kb n = assert_then (n \<le> kb_len kb)
     (Inr (kb\<lparr>kb_pos := (kb_pos kb + n) mod KBD_SIZEOF, kb_len := kb_len kb - n, kb_eol := kb_eol kb - of_nat n\<rparr>))"

definition console_putch :: "console_state \<Rightarrow> int \<Rightarrow> int \<Rightarrow> console_state res" where
  "console_putch con color ch =
     rbind (console_vprintf con (- 1) color ''%c'' [VA_word (of_int ch)]) (\<lambda>(con', _). Inr con')"

definition maybe_echo :: "keyboardstate \<Rightarrow> console_state \<Rightarrow> int \<Rightarrow> console_state res" where
  "maybe_echo kb con ch =
     (if kb_state kb = input
      then (if ch = 0x08
            then (if cursorpos con > 0
                  then rbind (console_vprintf (con\<lparr>cursorpos := cursorpos con - 1\<rparr>) (- 1) 0x700 '' '' [])
                         (\<lambda>(con', _). Inr (con'\<lparr>cursorpos := cursorpos con' - 1\<rparr>))
                  else Inr con)
            else if ch \<noteq> 0x04 then console_putch con 0x0300 ch else Inr con)
      else Inr con)"

text \<open>The label \<open>normal_char\<close>; \<open>want_eol\<close> is true from the start of the loop body.\<close>

definition normal_char :: "keyboardstate \<Rightarrow> console_state \<Rightarrow> int \<Rightarrow> (keyboardstate \<times> console_state) option res" where
  "normal_char kb con ch =
     (if kb_len kb < KBD_SIZEOF
      then (let slot = (kb_pos kb + kb_len kb) mod KBD_SIZEOF
            in if slot < length (kb_buf kb)
               then (let kb' = kb\<lparr>kb_buf := (kb_buf kb)[slot := ch], kb_len := kb_len kb + 1, kb_eol := of_nat (kb_len kb + 1)\<rparr>
                     in rbind (maybe_echo kb' con ch) (\<lambda>con'. Inr (Some (kb', con'))))
               else Inl Out_Of_Bounds)
      else Inr (Some (kb, con)))"

definition handle_char :: "keyboardstate \<Rightarrow> console_state \<Rightarrow> int \<Rightarrow> (keyboardstate \<times> console_state) option res" where
  "handle_char kb con ch =
     (if ch = 0 then Inr (Some (kb, con))
      else if ch = 0x08 then
        (if unat (kb_eol kb) < kb_len kb
         then (let kb' = kb\<lparr>kb_len := kb_len kb - 1\<rparr>
               in rbind (maybe_echo kb' con ch) (\<lambda>con'. Inr (Some (kb', con'))))
         else Inr (Some (kb, con)))
      else if ch = 0x11 then Inr None
      else if ch = 0x03 \<or> ch = 113 then (if kb_state kb \<noteq> input then Inr None else normal_char kb con ch)
      else if ch = 13 then normal_char kb con 10
      else normal_char kb con ch)"

primrec handle_loop :: "u8 list \<Rightarrow> kbd_hw \<Rightarrow> keyboardstate \<Rightarrow> console_state \<Rightarrow> (kbd_hw \<times> keyboardstate \<times> console_state) option res" where
  "handle_loop [] hw kb con = Inr (Some (fst (keyboard_readc hw []), kb, con))"
| "handle_loop (data # inp) hw kb con =
     (let (hw', inp', ch) = keyboard_readc hw (data # inp)
      in if ch \<ge> 0
         then rbind (handle_char kb con ch) (\<lambda>out.
                case out of None \<Rightarrow> Inr None | Some (kb', con') \<Rightarrow> handle_loop inp hw' kb' con')
         else Inr (Some (hw', kb, con)))"

text \<open>The interrupt handler; the last component is whether sleeping readers are woken.\<close>

definition handle_interrupt :: "kbd_hw \<Rightarrow> keyboardstate \<Rightarrow> console_state \<Rightarrow> u8 list \<Rightarrow>
    (kbd_hw \<times> keyboardstate \<times> console_state \<times> bool) option res" where
  "handle_interrupt hw kb con inp =
     rbind (handle_loop inp hw kb con) (\<lambda>out.
       Inr (map_option (\<lambda>(hw', kb', con'). (hw', kb', con', kb_eol kb' \<noteq> 0)) out))"

section \<open>Reading and writing the console device\<close>

text \<open>A store of an \<open>int\<close>: four bytes, little-endian.\<close>

definition store_int :: "memory \<Rightarrow> nat \<Rightarrow> int \<Rightarrow> memory" where
  "store_int m a v = m(a := of_int v, a + 1 := of_int (v div 256), a + 2 := of_int (v div 65536), a + 3 := of_int (v div 16777216))"

text \<open>The loop of \<open>vnode_kbc::read\<close>, with the turns left; \<open>n\<close> counts the characters delivered.\<close>

primrec kbc_read_loop :: "nat \<Rightarrow> keyboardstate \<Rightarrow> memory \<Rightarrow> nat \<Rightarrow> nat \<Rightarrow> (keyboardstate \<times> memory \<times> nat) res" where
  "kbc_read_loop 0 kb m buf n = Inr (kb, m, n)"
| "kbc_read_loop (Suc k) kb m buf n =
     (if kb_eol kb \<noteq> 0
      then (if kb_pos kb < length (kb_buf kb)
            then (if kb_buf kb ! kb_pos kb = 0x04
                  then (if n = 0 then rbind (consume kb 1) (\<lambda>kb'. Inr (kb', m, n)) else Inr (kb, m, n))
                  else rbind (consume kb 1) (\<lambda>kb'.
                         kbc_read_loop k kb' (store_int m (buf + n) (kb_buf kb ! kb_pos kb)) buf (n + 1)))
            else Inl Out_Of_Bounds)
      else Inr (kb, m, n))"

definition kbc_read :: "keyboardstate \<Rightarrow> memory \<Rightarrow> nat \<Rightarrow> nat \<Rightarrow> (keyboardstate \<times> memory \<times> nat) res" where
  "kbc_read kb m buf sz =
     kbc_read_loop sz (if kb_state kb = boot then kb\<lparr>kb_state := input\<rparr> else kb) m buf 0"

text \<open>\<open>vnode_kbc::write\<close>: each byte is read as a signed \<open>char\<close> and printed.\<close>

primrec kbc_write :: "nat \<Rightarrow> console_state \<Rightarrow> memory \<Rightarrow> nat \<Rightarrow> console_state res" where
  "kbc_write 0 con m buf = Inr con"
| "kbc_write (Suc n) con m buf = rbind (console_putch con 0x0F00 (sint (m buf))) (\<lambda>con'. kbc_write n con' m (buf + 1))"

section \<open>The console is never left in a bad state\<close>

lemma console_vprintf_safe:
  assumes "console_ok st" "printer_vprintf color format val = Inr out"
  shows "\<exists>st' pos. console_vprintf st cpos color format val = Inr (st', pos) \<and> console_ok st'"
proof -
  define cp where "cp = \<lparr>cp_console = console st,
     cp_cursor = (if cpos < 0 then cursorpos st else if cpos \<le> int CONSOLE_SIZE then nat cpos else 0), cp_scroll = (cpos < 0)\<rparr>"
  have "cp_ok cp" using assms(1) by (auto simp: cp_ok_def console_ok_def cp_def)
  then obtain cp' where "putc_all console_putc cp out = Inr cp'" "cp_ok cp'" using console_putc_all_ok by blast
  then show ?thesis using assms unfolding console_vprintf_def cp_def[symmetric] by (simp add: console_ok_def cp_ok_def)
qed

lemma printf_c: "\<exists>out. printer_vprintf color ''%c'' [VA_word w] = Inr out"
proof -
  have flags: "parse_flags ''c'' no_flags = (no_flags, ''c'')" by code_simp
  have width: "parse_width ''c'' [VA_word w] = Inr (- 1, ''c'', [VA_word w])"
    and prec: "parse_precision ''c'' [VA_word w] = Inr (- 1, ''c'', [VA_word w])"
    by (simp_all add: parse_width_def parse_precision_def hd0_def)
  obtain s where conv: "convert ''c'' False no_flags [VA_word w] = Inr (Conv 0 10 s no_flags [] [])"
    by (simp add: Let_def)
  obtain out where "item_output no_flags (- 1) (- 1) 0 10 s = Inr out"
    by (simp add: item_output_def no_flags_def Let_def)
  then show ?thesis by (simp add: flags width prec conv del: convert.simps parse_flags.simps)
qed

lemma console_putch_ok: "console_ok con \<Longrightarrow> \<exists>con'. console_putch con color ch = Inr con' \<and> console_ok con'"
proof -
  assume con: "console_ok con"
  obtain out where "printer_vprintf color ''%c'' [VA_word (of_int ch)] = Inr out" using printf_c by blast
  from console_vprintf_safe[OF con this, of "- 1"] show ?thesis by (auto simp: console_putch_def)
qed

lemma maybe_echo_ok:
  assumes "console_ok con"
  shows "\<exists>con'. maybe_echo kb con ch = Inr con' \<and> console_ok con'"
proof -
  have sp: "printer_vprintf 0x700 '' '' [] = Inr [(CHR '' '', 0x700)]" by code_simp
  have "console_ok (con\<lparr>cursorpos := cursorpos con - 1\<rparr>)" using assms by (auto simp: console_ok_def)
  from console_vprintf_safe[OF this sp, of "- 1"] obtain con1 pos where
    c1: "console_vprintf (con\<lparr>cursorpos := cursorpos con - 1\<rparr>) (- 1) 0x700 '' '' [] = Inr (con1, pos)" "console_ok con1" by blast
  then have "console_ok (con1\<lparr>cursorpos := cursorpos con1 - 1\<rparr>)" by (auto simp: console_ok_def)
  then show ?thesis using assms c1(1) console_putch_ok[OF assms] by (auto simp: maybe_echo_def)
qed

section \<open>The line buffer\<close>

text \<open>
  \<open>kb_inv n kb\<close>: \<open>n\<close> characters were stored since the start, none of them past the 256 elements; every
  stored character moved \<open>eol_\<close> along.
\<close>

definition kb_inv :: "nat \<Rightarrow> keyboardstate \<Rightarrow> bool" where
  "kb_inv n kb \<longleftrightarrow> length (kb_buf kb) = 256 \<and> kb_pos kb + kb_len kb = n \<and> n \<le> 256 \<and> kb_eol kb = of_nat (kb_len kb)"

lemma kb_inv_eol: "kb_inv n kb \<Longrightarrow> unat (kb_eol kb) = kb_len kb" "kb_inv n kb \<Longrightarrow> kb_eol kb \<noteq> 0 \<longleftrightarrow> 0 < kb_len kb"
proof -
  assume "kb_inv n kb"
  then show *: "unat (kb_eol kb) = kb_len kb" by (simp add: kb_inv_def unat_of_nat)
  show "kb_eol kb \<noteq> 0 \<longleftrightarrow> 0 < kb_len kb" unfolding *[symmetric] by (simp add: unat_eq_0 word_neq_0_conv unat_gt_0)
qed

lemma normal_char_inv:
  assumes inv: "kb_inv n kb" and con: "console_ok con"
  shows "if n < 256 then \<exists>kb' con'. normal_char kb con ch = Inr (Some (kb', con')) \<and> kb_inv (Suc n) kb' \<and> console_ok con'
      \<and> kb_state kb' = kb_state kb
    else normal_char kb con ch = Inl Out_Of_Bounds"
proof -
  have "kb_pos kb + kb_len kb = n" "n \<le> 256" using inv by (auto simp: kb_inv_def)
  then have slot: "(kb_pos kb + kb_len kb) mod KBD_SIZEOF = n" "kb_len kb < KBD_SIZEOF" by auto
  show ?thesis
  proof (cases "n < 256")
    case True
    define kb' where "kb' = kb\<lparr>kb_buf := (kb_buf kb)[n := ch], kb_len := kb_len kb + 1, kb_eol := of_nat (kb_len kb + 1)\<rparr>"
    obtain con' where "maybe_echo kb' con ch = Inr con'" "console_ok con'" using maybe_echo_ok[OF con] by blast
    then show ?thesis using True slot inv by (simp add: normal_char_def kb_inv_def kb'_def)
  next
    case False
    then show ?thesis using slot inv by (simp add: normal_char_def kb_inv_def)
  qed
qed

text \<open>Whether the handler stores a character for \<open>ch\<close>.\<close>

definition stores_char :: "kbd_mode \<Rightarrow> int \<Rightarrow> bool" where
  "stores_char mode ch \<longleftrightarrow> ch \<noteq> 0 \<and> ch \<noteq> 0x08 \<and> ch \<noteq> 0x11 \<and> ((ch = 0x03 \<or> ch = 113) \<longrightarrow> mode = input)"

lemma handle_char_inv:
  assumes inv: "kb_inv n kb" and con: "console_ok con"
  shows "if stores_char (kb_state kb) ch
    then (if n < 256 then \<exists>kb' con'. handle_char kb con ch = Inr (Some (kb', con')) \<and> kb_inv (Suc n) kb' \<and> console_ok con'
            \<and> kb_state kb' = kb_state kb
          else handle_char kb con ch = Inl Out_Of_Bounds)
    else handle_char kb con ch = Inr None \<or> handle_char kb con ch = Inr (Some (kb, con))"
  using normal_char_inv[OF inv con, of ch] normal_char_inv[OF inv con, of 10] kb_inv_eol(1)[OF inv]
  by (auto simp: handle_char_def stores_char_def)

text \<open>The characters that a list of scan codes stores.\<close>

primrec stored :: "kbd_mode \<Rightarrow> kbd_hw \<Rightarrow> u8 list \<Rightarrow> nat" where
  "stored mode hw [] = 0"
| "stored mode hw (data # inp) =
     (let (hw', inp', ch) = keyboard_readc hw (data # inp)
      in (if stores_char mode ch then 1 else 0) + stored mode hw' inp)"

lemma keymap_range: "i < 256 \<Longrightarrow> 0 \<le> keymap ! i \<and> keymap ! i < 256"
proof -
  have "list_all (\<lambda>x. 0 \<le> x \<and> x < 256) keymap" "length keymap = 256" by (simp_all add: keymap_def)
  then show "i < 256 \<Longrightarrow> ?thesis" by (simp add: list_all_length)
qed

lemma complex_range: "i < 22 \<Longrightarrow> j < 4 \<Longrightarrow> 0 \<le> complex_keymap ! i ! j"
proof -
  have "list_all (\<lambda>r. length r = 4 \<and> list_all (\<lambda>x. 0 \<le> x) r) complex_keymap" "length complex_keymap = 22"
    by (simp_all add: complex_keymap_def)
  then show "i < 22 \<Longrightarrow> j < 4 \<Longrightarrow> ?thesis" by (simp add: list_all_length)
qed

lemma decode_key_nonneg: "0 \<le> ch \<Longrightarrow> 0 \<le> snd (decode_key mods ch)"
proof -
  have "unat (mods AND 3) < 4" using word_and_le1[of mods 3] by (simp add: word_le_nat_alt)
  then show "0 \<le> ch \<Longrightarrow> ?thesis" using complex_range[of "nat (ch - 0x80)" "unat (mods AND 3)"] by (simp add: decode_key_def)
qed

lemma readc_nonneg: "keyboard_readc hw (data # inp) = (hw', inp', ch) \<Longrightarrow> 0 \<le> ch"
proof -
  have "0 \<le> keymap ! unat x" for x :: u8 
  proof -
    have "unat x < 2 ^ LENGTH(8)" by (rule unsigned_less)
    then show ?thesis using keymap_range[of "unat x"] by simp
  qed
  then have nn: "0 \<le> snd (decode_key mods (keymap ! unat x))" for mods and x :: u8 by (rule decode_key_nonneg)
  then have "snd (decode_key mods (keymap ! unat x)) \<noteq> - 1" for mods and x :: u8 by (metis neg_0_le_iff_le not_one_le_zero)
  with nn show "keyboard_readc hw (data # inp) = (hw', inp', ch) \<Longrightarrow> 0 \<le> ch"
    by (auto simp: Let_def case_prod_beta split: if_splits intro: add_nonneg_nonneg)
qed

lemma handle_loop_inv:
  assumes "kb_inv n kb" "console_ok con"
  shows "handle_loop inp hw kb con = Inr None
    \<or> n + stored (kb_state kb) hw inp \<le> 256 \<and> (\<exists>hw' kb' con'. handle_loop inp hw kb con = Inr (Some (hw', kb', con'))
         \<and> kb_inv (n + stored (kb_state kb) hw inp) kb' \<and> console_ok con' \<and> kb_state kb' = kb_state kb)
    \<or> n + stored (kb_state kb) hw inp > 256 \<and> handle_loop inp hw kb con = Inl Out_Of_Bounds"
  using assms
proof (induction inp arbitrary: n kb con hw)
  case Nil
  then show ?case by (simp add: kb_inv_def)
next
  case (Cons data inp)
  obtain hw' inp' ch where r: "keyboard_readc hw (data # inp) = (hw', inp', ch)" by (metis prod_cases3)
  have ch: "0 \<le> ch" by (rule readc_nonneg[OF r])
  have st: "stored mode hw (data # inp) = (if stores_char mode ch then 1 else 0) + stored mode hw' inp" for mode
    using r by simp
  have loop: "handle_loop (data # inp) hw kb con = rbind (handle_char kb con ch) (\<lambda>out.
      case out of None \<Rightarrow> Inr None | Some (kb', con') \<Rightarrow> handle_loop inp hw' kb' con')"
    using r ch by simp
  note hc = handle_char_inv[OF Cons.prems, of ch]
  show ?case
  proof (cases "stores_char (kb_state kb) ch")
    case False
    then have "handle_char kb con ch = Inr None \<or> handle_char kb con ch = Inr (Some (kb, con))" using hc by simp
    then show ?thesis using loop st False Cons.IH[OF Cons.prems, of hw'] by auto
  next
    case True
    show ?thesis
    proof (cases "n < 256")
      case lt: True
      obtain kb' con' where "handle_char kb con ch = Inr (Some (kb', con'))" "kb_inv (Suc n) kb'" "console_ok con'" "kb_state kb' = kb_state kb"
        using hc True lt by auto
      then show ?thesis using loop st True Cons.IH[of "Suc n" kb' con' hw'] by auto
    next
      case False
      then show ?thesis using hc True loop st by simp
    qed
  qed
qed


lemma decode_key_sticky: "i < 2 \<Longrightarrow> bit mods i \<Longrightarrow> bit (fst (decode_key mods ch)) i"
  by (auto simp: decode_key_def bit_simps)

primrec readc_all :: "u8 list \<Rightarrow> kbd_hw \<Rightarrow> kbd_hw" where
  "readc_all [] hw = hw"
| "readc_all (data # inp) hw = readc_all inp (fst (keyboard_readc hw (data # inp)))"

text \<open>
  no sequence of scan codes clears the shift or control modifier once it is set: the code for key
  releases that would do so is commented out, so the keyboard stays shifted after the first shift.
\<close>

theorem keyboard_modifiers_stick:
  "i < 2 \<Longrightarrow> bit (modifiers hw) i \<Longrightarrow> bit (modifiers (readc_all inp hw)) i"
proof (induction inp arbitrary: hw)
  case (Cons data inp)
  have "bit (modifiers (fst (keyboard_readc hw (data # inp)))) i"
    using Cons.prems decode_key_sticky[OF Cons.prems] by (simp add: Let_def case_prod_beta)
  then show ?case using Cons.IH Cons.prems(1) by simp
qed simp

theorem keyboard_modifiers_stick_witness:
  "bit (modifiers (readc_all [0x2A, 0xAA, 0x1E] \<lparr>modifiers = 1, last_escape = 0\<rparr>)) 0"
  by (rule keyboard_modifiers_stick) simp_all


section \<open>Reading the console device\<close>

definition kb_contents :: "keyboardstate \<Rightarrow> int list" where
  "kb_contents kb = take (kb_len kb) (drop (kb_pos kb) (kb_buf kb))"

primrec put_ints :: "memory \<Rightarrow> nat \<Rightarrow> int list \<Rightarrow> memory" where
  "put_ints m a [] = m"
| "put_ints m a (c # cs) = put_ints (store_int m a c) (a + 1) cs"

lemma consume_one:
  assumes "kb_inv n kb" "0 < kb_len kb"
  shows "\<exists>kb'. consume kb 1 = Inr kb' \<and> kb_inv n kb' \<and> kb_contents kb = kb_buf kb ! kb_pos kb # kb_contents kb'
     \<and> kb_pos kb < length (kb_buf kb)"
proof -
  have p: "kb_pos kb + kb_len kb \<le> 256" "length (kb_buf kb) = 256" using assms by (auto simp: kb_inv_def)
  let ?kb' = "kb\<lparr>kb_pos := kb_pos kb + 1, kb_len := kb_len kb - 1, kb_eol := kb_eol kb - of_nat 1\<rparr>"
  have "consume kb 1 = Inr ?kb'" using assms(2) p by (simp add: consume_def)
  moreover have "kb_inv n ?kb'" using assms by (simp add: kb_inv_def)
  moreover have "drop (kb_pos kb) (kb_buf kb) = kb_buf kb ! kb_pos kb # drop (kb_pos kb + 1) (kb_buf kb)"
    using p assms(2) by (simp add: drop_eq_Cons_nth)
  then have "kb_contents kb = kb_buf kb ! kb_pos kb # kb_contents ?kb'"
    using assms(2) by (cases "kb_len kb") (simp_all add: kb_contents_def)
  ultimately show ?thesis using p assms(2) by auto
qed

lemma kb_contents_empty: "kb_inv n kb \<Longrightarrow> kb_len kb = 0 \<longleftrightarrow> kb_contents kb = []"
  by (auto simp: kb_contents_def kb_inv_def)

lemma kbc_read_loop_spec:
  assumes "kb_inv n kb"
  shows "\<exists>kb'. kbc_read_loop k kb m buf i =
     Inr (kb', put_ints m (buf + i) (takeWhile (\<lambda>c. c \<noteq> 4) (take k (kb_contents kb))), i + length (takeWhile (\<lambda>c. c \<noteq> 4) (take k (kb_contents kb))))
   \<and> kb_inv n kb'
   \<and> kb_contents kb' = (if i = 0 \<and> k \<noteq> 0 \<and> kb_contents kb \<noteq> [] \<and> hd (kb_contents kb) = 4 then tl (kb_contents kb)
        else drop (length (takeWhile (\<lambda>c. c \<noteq> 4) (take k (kb_contents kb)))) (kb_contents kb))"
  using assms
proof (induction k arbitrary: kb m i)
  case (Suc k)
  show ?case
  proof (cases "kb_len kb = 0")
    case True
    then have "kb_contents kb = []" using kb_contents_empty[OF Suc.prems] by simp
    then show ?thesis using True Suc.prems kb_inv_eol(2)[OF Suc.prems] by simp
  next
    case False
    then obtain kb1 where c: "consume kb 1 = Inr kb1" "kb_inv n kb1" "kb_contents kb = kb_buf kb ! kb_pos kb # kb_contents kb1"
      "kb_pos kb < length (kb_buf kb)" using consume_one[OF Suc.prems] by auto
    have e: "kb_eol kb \<noteq> 0" using kb_inv_eol(2)[OF Suc.prems] False by simp
    show ?thesis
    proof (cases "kb_buf kb ! kb_pos kb = 4")
      case True
      then show ?thesis using c e Suc.prems by auto
    next
      case False
      then show ?thesis using c e Suc.IH[OF c(2), of "store_int m (buf + i) (kb_buf kb ! kb_pos kb)" "i + 1"]
        by simp
    qed
  qed
qed simp

lemma store_int_at:
  "store_int m a c x = (if x = a then of_int c else if x = a + 1 then of_int (c div 256)
     else if x = a + 2 then of_int (c div 65536) else if x = a + 3 then of_int (c div 16777216) else m x)"
  by (simp add: store_int_def)

lemma put_ints_at:
  "put_ints m a cs x =
     (if a \<le> x \<and> x < a + length cs then of_int (cs ! (x - a))
      else if cs \<noteq> [] \<and> a + length cs \<le> x \<and> x < a + length cs + 3 then of_int (last cs div 256 ^ (x - (a + length cs) + 1))
      else m x)"
proof (induction cs arbitrary: m a)
  case (Cons c cs)
  show ?case
  proof (cases "cs = []")
    case True
    have "x - Suc a = 0 \<or> x - Suc a = 1 \<or> x - Suc a = 2" if "Suc a \<le> x" "x < a + 4" using that by arith
    then show ?thesis using True by (auto simp: store_int_at)
  next
    case False
    define m1 where "m1 = store_int m a c"
    have m1: "m1 y = (if y = a then of_int c else if y = a + 1 then of_int (c div 256)
      else if y = a + 2 then of_int (c div 65536) else if y = a + 3 then of_int (c div 16777216) else m y)" for y
      by (simp add: m1_def store_int_at)
    have "put_ints m a (c # cs) x = put_ints m1 (a + 1) cs x" by (simp add: m1_def)
    then show ?thesis using False unfolding Cons.IH[of m1 "a + 1"] m1 by (cases cs) (auto simp: nth_Cons')
  qed
qed auto

text \<open>
  C29: a read of the console delivers the oldest characters of the buffer, in order, up to the requested
  number and up to a Ctrl-D, without waiting; a Ctrl-D at the front is consumed and reads as end of
  file.  Each character is stored as a four-byte \<open>int\<close> one byte after the previous one, so the three
  bytes after the last character, which lie outside the caller's range when all of it is filled,
  are overwritten too; no other byte changes.
\<close>

theorem kbc_read_correct:
  assumes "kb_inv n kb"
  shows "let cs = takeWhile (\<lambda>c. c \<noteq> 4) (take sz (kb_contents kb)) in
    \<exists>kb' m'. kbc_read kb m buf sz = Inr (kb', m', length cs) \<and> kb_inv n kb'
    \<and> kb_contents kb' = (if sz \<noteq> 0 \<and> kb_contents kb \<noteq> [] \<and> hd (kb_contents kb) = 4 then tl (kb_contents kb) else drop (length cs) (kb_contents kb))
    \<and> (\<forall>i < length cs. m' (buf + i) = of_int (cs ! i))
    \<and> (\<forall>i < 3. cs \<noteq> [] \<longrightarrow> m' (buf + length cs + i) = of_int (last cs div 256 ^ (i + 1)))
    \<and> (\<forall>x. x < buf \<or> buf + length cs + 3 \<le> x \<longrightarrow> m' x = m x)"
proof -
  let ?kb = "if kb_state kb = boot then kb\<lparr>kb_state := input\<rparr> else kb"
  have inv: "kb_inv n ?kb" and con: "kb_contents ?kb = kb_contents kb" using assms(1) by (auto simp: kb_inv_def kb_contents_def)
  show ?thesis using kbc_read_loop_spec[OF inv, of sz m buf 0] unfolding kbc_read_def con Let_def
    by (auto simp: put_ints_at)
qed

theorem kbc_read_correct_witness:
  "\<exists>kb' m'. kbc_read (keyboard_init\<lparr>kb_buf := [104, 105, 4] @ replicate 253 0, kb_len := 3, kb_eol := 3\<rparr>) (\<lambda>a. 7) 100 2 = Inr (kb', m', 2)
     \<and> m' 100 = 104 \<and> m' 101 = 105 \<and> m' 102 = 0 \<and> m' 104 = 0 \<and> m' 105 = 7"
proof -
  let ?kb = "keyboard_init\<lparr>kb_buf := [104, 105, 4] @ replicate 253 0, kb_len := 3, kb_eol := 3\<rparr>"
  have "kb_inv 3 ?kb" by (simp add: kb_inv_def keyboard_init_def)
  moreover have "kb_contents ?kb = [104, 105, 4]" by (simp add: kb_contents_def keyboard_init_def numeral_3_eq_3)
  then have "takeWhile (\<lambda>c. c \<noteq> 4) (take 2 (kb_contents ?kb)) = [104, 105]" by (simp add: numeral_2_eq_2)
  ultimately obtain kb' m' where r: "kbc_read ?kb (\<lambda>a. 7) 100 2 = Inr (kb', m', 2)" "\<forall>i < 2. m' (100 + i) = of_int ([104, 105] ! i)"
    "\<forall>i < 3. m' (102 + i) = of_int (105 div 256 ^ (i + 1))" "\<forall>x. x < 100 \<or> 105 \<le> x \<longrightarrow> m' x = 7"
    using kbc_read_correct[of 3 ?kb 2 "\<lambda>a. 7" 100] by (auto simp: Let_def)
  show ?thesis using r(1) r(2)[rule_format, of 0] r(2)[rule_format, of 1] r(3)[rule_format, of 0] r(3)[rule_format, of 2] r(4)[rule_format, of 105]
    by auto
qed

end
