(* ===== verification/Journal.thy ===== *)
theory Journal
  imports Crc32c
begin

text \<open>
  The journal replayer of \<open>journalreplayer.cc\<close> and the on-disk journal format of \<open>chickadeefs.hh\<close>.
  A journal block is 4096 bytes; read as a \<open>jmetablock\<close> it is exactly its fields, so a block is the
  record of those fields (paddings included), and \<open>block_bytes\<close> lists its bytes for the checksum.
  The machine is little-endian, so \<open>from_le\<close> and \<open>to_le\<close> are the identity.  The pointer \<open>b\<close> of a
  \<open>metaref\<close> always points at block \<open>bi\<close>, so \<open>mr_\<close> is the list of the \<open>bi\<close>.  The progress and error
  messages are left out; \<open>write_block\<close> calls are collected in a list.
\<close>

section \<open>Format\<close>

type_synonym tid = u16

definition tid_lt :: "tid \<Rightarrow> tid \<Rightarrow> bool" where "tid_lt x y \<longleftrightarrow> sint (x - y) < 0"
definition tid_le :: "tid \<Rightarrow> tid \<Rightarrow> bool" where "tid_le x y \<longleftrightarrow> sint (x - y) \<le> 0"
definition tid_ge :: "tid \<Rightarrow> tid \<Rightarrow> bool" where "tid_ge x y \<longleftrightarrow> sint (x - y) \<ge> 0"
definition tid_gt :: "tid \<Rightarrow> tid \<Rightarrow> bool" where "tid_gt x y \<longleftrightarrow> sint (x - y) > 0"


definition journalmagic :: u64 where "journalmagic = 0xFBBFBB009EEBCEED"
definition nochecksum :: u32 where "nochecksum = 0x82600A5F"
definition ref_size :: nat where "ref_size = (blocksize div 4 - 7) div 3"

record jblockref =
  ref_bn :: u32
  ref_bchecksum :: u32
  ref_bflags :: u16
  ref_pad :: u16

record jmetablock =
  jm_magic :: u64
  jm_checksum :: u32
  jm_padding :: u32
  jm_seq :: tid
  jm_tid :: tid
  jm_commit_boundary :: tid
  jm_complete_boundary :: tid
  jm_flags :: u16
  jm_nref :: u16
  jm_ref :: "jblockref list"

definition jf_meta :: u16 where "jf_meta = 0x01"
definition jf_error :: u16 where "jf_error = 0x02"
definition jf_corrupt :: u16 where "jf_corrupt = 0x04"
definition jf_start :: u16 where "jf_start = 0x10"
definition jf_commit :: u16 where "jf_commit = 0x20"
definition jf_complete :: u16 where "jf_complete = 0x40"
definition jbf_escaped :: u16 where "jbf_escaped = 0x100"
definition jbf_nonjournaled :: u16 where "jbf_nonjournaled = 0x200"
definition jbf_overwritten :: u16 where "jbf_overwritten = 0x400"

lemmas journal_flags = jf_meta_def jf_error_def jf_corrupt_def jf_start_def jf_commit_def jf_complete_def
  jbf_escaped_def jbf_nonjournaled_def jbf_overwritten_def

definition has :: "u16 \<Rightarrow> u16 \<Rightarrow> bool" where "has flags f \<longleftrightarrow> flags AND f \<noteq> 0"

definition le16 :: "u16 \<Rightarrow> u8 list" where "le16 w = [ucast w, ucast (drop_bit 8 w)]"
definition le32 :: "u32 \<Rightarrow> u8 list" where "le32 w = map (\<lambda>i. ucast (drop_bit (8 * i) w)) [0..<4]"
definition le64 :: "u64 \<Rightarrow> u8 list" where "le64 w = map (\<lambda>i. ucast (drop_bit (8 * i) w)) [0..<8]"

definition ref_bytes :: "jblockref \<Rightarrow> u8 list" where
  "ref_bytes r = le32 (ref_bn r) @ le32 (ref_bchecksum r) @ le16 (ref_bflags r) @ le16 (ref_pad r)"

definition block_bytes :: "jmetablock \<Rightarrow> u8 list" where
  "block_bytes b = le64 (jm_magic b) @ le32 (jm_checksum b) @ le32 (jm_padding b) @ le16 (jm_seq b) @ le16 (jm_tid b)
     @ le16 (jm_commit_boundary b) @ le16 (jm_complete_boundary b) @ le16 (jm_flags b) @ le16 (jm_nref b)
     @ concat (map ref_bytes (jm_ref b))"

section \<open>The replayer\<close>

record journalreplayer =
  jr_jd :: "jmetablock list"
  jr_addr :: nat
  jr_mr :: "nat list"
  jr_ok :: bool

abbreviation nb :: "journalreplayer \<Rightarrow> nat" where "nb st \<equiv> length (jr_jd st)"

definition block_addr :: "journalreplayer \<Rightarrow> nat \<Rightarrow> nat" where
  "block_addr st bi = jr_addr st + bi * blocksize"

definition journalreplayer_new :: "jmetablock list \<Rightarrow> nat \<Rightarrow> journalreplayer" where
  "journalreplayer_new jd addr = \<lparr>jr_jd = jd, jr_addr = addr, jr_mr = [], jr_ok = True\<rparr>"

definition looks_meta :: "jmetablock \<Rightarrow> nat \<Rightarrow> bool" where
  "looks_meta b addr \<longleftrightarrow> jm_magic b = journalmagic \<and>
     (jm_checksum b = nochecksum \<or> jm_checksum b = crc32c 0 (addr + 16) (drop 16 (block_bytes b)))"

definition is_potential_metablock :: "journalreplayer \<Rightarrow> nat \<Rightarrow> bool res" where
  "is_potential_metablock st bi =
     assert_then (block_addr st bi mod 8 = 0) (Inr (looks_meta (jr_jd st ! bi) (block_addr st bi)))"

definition flag_error :: "journalreplayer \<Rightarrow> nat \<Rightarrow> journalreplayer" where
  "flag_error st bi = st\<lparr>jr_jd := (jr_jd st)[bi := (jr_jd st ! bi)\<lparr>jm_flags := jm_flags (jr_jd st ! bi) OR jf_error\<rparr>]\<rparr>"

definition analyze_block_reference :: "journalreplayer \<Rightarrow> nat \<Rightarrow> jblockref \<Rightarrow> nat \<Rightarrow> (journalreplayer \<times> nat) res" where
  "analyze_block_reference st bi ref delta =
     (if \<not> has (ref_bflags ref) jbf_nonjournaled
      then (let st1 = (if delta \<ge> nb st then st\<lparr>jr_ok := False\<rparr> else st);
                dbi = (bi + delta) mod nb st1
            in rbind (is_potential_metablock st1 dbi) (\<lambda>p.
                 if p then Inr (flag_error st1 bi, delta + 1)
                 else if ref_bchecksum ref \<noteq> nochecksum
                    \<and> ref_bchecksum ref \<noteq> crc32c 0 (block_addr st1 dbi) (block_bytes (jr_jd st1 ! dbi))
                 then Inr (flag_error st1 bi, delta + 1)
                 else Inr (st1, delta + 1)))
      else Inr (st, delta))"

text \<open>The loop over the references, from \<open>refi\<close> on, with \<open>n\<close> turns to go.\<close>

primrec analyze_refs :: "nat \<Rightarrow> journalreplayer \<Rightarrow> nat \<Rightarrow> nat \<Rightarrow> nat \<Rightarrow> journalreplayer res" where
  "analyze_refs 0 st bi refi delta = Inr st"
| "analyze_refs (Suc n) st bi refi delta =
     (if refi < length (jm_ref (jr_jd st ! bi))
      then rbind (analyze_block_reference st bi (jm_ref (jr_jd st ! bi) ! refi) delta)
             (\<lambda>(st', delta'). analyze_refs n st' bi (refi + 1) delta')
      else Inl Out_Of_Bounds)"

definition check_flags :: "journalreplayer \<Rightarrow> nat \<Rightarrow> journalreplayer" where
  "check_flags st bi =
     (let st1 = (if has (jm_flags (jr_jd st ! bi)) (jf_error OR jf_corrupt) then flag_error st bi else st);
          st2 = (if \<not> has (jm_flags (jr_jd st1 ! bi)) jf_meta then flag_error st1 bi else st1)
      in if unat (jm_nref (jr_jd st2 ! bi)) > ref_size then flag_error st2 bi else st2)"

text \<open>The insertion loop: sequence numbers are compared as \<open>int\<close>, without wrap-around.\<close>

primrec seq_position :: "jmetablock list \<Rightarrow> tid \<Rightarrow> nat list \<Rightarrow> nat" where
  "seq_position jd seq [] = 0"
| "seq_position jd seq (x # mr) = (if int (unat seq) - int (unat (jm_seq (jd ! x))) \<ge> 0 then 1 + seq_position jd seq mr else 0)"

definition insert_meta :: "journalreplayer \<Rightarrow> nat \<Rightarrow> journalreplayer" where
  "insert_meta st bi =
     (if \<not> has (jm_flags (jr_jd st ! bi)) jf_error
      then (let x = seq_position (jr_jd st) (jm_seq (jr_jd st ! bi)) (jr_mr st)
            in st\<lparr>jr_mr := take x (jr_mr st) @ bi # drop x (jr_mr st)\<rparr>)
      else st)"

definition analyze_block :: "journalreplayer \<Rightarrow> nat \<Rightarrow> journalreplayer res" where
  "analyze_block st bi =
     assert_then (bi < nb st)
       (rbind (is_potential_metablock st bi) (\<lambda>p.
          if p
          then (let st1 = check_flags st bi
                in rbind (analyze_refs (unat (jm_nref (jr_jd st1 ! bi))) st1 bi 0 1) (\<lambda>st2. Inr (insert_meta st2 bi)))
          else Inr st))"

primrec analyze_blocks :: "nat list \<Rightarrow> journalreplayer \<Rightarrow> journalreplayer res" where
  "analyze_blocks [] st = Inr st"
| "analyze_blocks (bi # bis) st = rbind (analyze_block st bi) (analyze_blocks bis)"

text \<open>The metablocks in sequence order, and the checks of one against its predecessor.\<close>

definition metas :: "journalreplayer \<Rightarrow> jmetablock list" where
  "metas st = map (\<lambda>bi. jr_jd st ! bi) (jr_mr st)"

definition check_meta :: "jmetablock option \<Rightarrow> jmetablock \<Rightarrow> bool" where
  "check_meta lst cur \<longleftrightarrow>
     (case lst of None \<Rightarrow> True
      | Some b \<Rightarrow> jm_seq cur \<noteq> jm_seq b
          \<and> \<not> tid_lt (jm_commit_boundary cur) (jm_commit_boundary b)
          \<and> \<not> tid_lt (jm_complete_boundary cur) (jm_complete_boundary b))
     \<and> \<not> tid_gt (jm_complete_boundary cur) (jm_commit_boundary cur)
     \<and> \<not> (jm_nref cur \<noteq> 0 \<and> (case lst of None \<Rightarrow> False | Some b \<Rightarrow> tid_lt (jm_tid cur) (jm_commit_boundary b)))
     \<and> \<not> (jm_nref cur \<noteq> 0 \<and> tid_lt (jm_tid cur) (jm_complete_boundary cur))
     \<and> \<not> (has (jm_flags cur) jf_complete \<and> tid_ge (jm_tid cur) (jm_complete_boundary cur))
     \<and> \<not> (has (jm_flags cur) jf_commit \<and> tid_ge (jm_tid cur) (jm_commit_boundary cur))"

primrec check_metas :: "jmetablock option \<Rightarrow> jmetablock list \<Rightarrow> bool" where
  "check_metas lst [] = True"
| "check_metas lst (cur # ms) = (check_meta lst cur \<and> check_metas (Some cur) ms)"

definition boundary_flags :: "tid \<Rightarrow> jmetablock \<Rightarrow> u16" where
  "boundary_flags t b = (if tid_gt (jm_commit_boundary b) t then jf_commit else 0)
                     OR (if tid_gt (jm_complete_boundary b) t then jf_complete else 0)"

text \<open>
  \<open>analyze_tid\<close>: one turn computes the new \<open>flags\<close> and whether an error was reported.  The first
  test needs the sequence number \<open>pseq\<close> of the metablock before; \<open>flags\<close> is zero on the first turn.
  The flags collected when \<open>jmb\<close> belongs to another transaction are not used.
\<close>

definition analyze_tid_turn :: "tid \<Rightarrow> tid \<Rightarrow> u16 \<Rightarrow> jmetablock \<Rightarrow> u16 \<times> bool" where
  "analyze_tid_turn t pseq flags jmb =
     (let ok1 = \<not> (flags \<noteq> 0 \<and> jm_seq jmb \<noteq> pseq + 1 \<and> \<not> has flags jf_commit)
      in if jm_tid jmb = t
         then (let tid_flags = jm_flags jmb OR boundary_flags t jmb
               in (flags OR tid_flags,
                   ok1 \<and> has tid_flags jf_start = (flags = 0)
                   \<and> \<not> (has flags jf_commit \<and> jm_nref jmb \<noteq> 0)
                   \<and> \<not> has flags jf_complete \<and> \<not> has tid_flags jf_complete))
         else (flags, ok1))"

primrec analyze_tid_loop :: "tid \<Rightarrow> tid \<Rightarrow> u16 \<Rightarrow> jmetablock list \<Rightarrow> bool" where
  "analyze_tid_loop t pseq flags [] = has flags jf_commit"
| "analyze_tid_loop t pseq flags (b # ms) =
     (snd (analyze_tid_turn t pseq flags b) \<and> analyze_tid_loop t (jm_seq b) (fst (analyze_tid_turn t pseq flags b)) ms)"

definition analyze_tid :: "jmetablock list \<Rightarrow> tid \<Rightarrow> bool" where
  "analyze_tid ms t = analyze_tid_loop t 0 0 ms"

section \<open>Overwritten blocks\<close>

definition set_bflags :: "jblockref \<Rightarrow> jblockref" where
  "set_bflags r = r\<lparr>ref_bflags := ref_bflags r OR jbf_overwritten\<rparr>"

primrec mark_refs :: "u32 \<Rightarrow> nat \<Rightarrow> jblockref list \<Rightarrow> jblockref list" where
  "mark_refs bn 0 refs = refs"
| "mark_refs bn (Suc r) refs =
     mark_refs bn r (if ref_bn (refs ! r) = bn then refs[r := set_bflags (refs ! r)] else refs)"

definition update_refs :: "(jblockref list \<Rightarrow> jblockref list) \<Rightarrow> jmetablock \<Rightarrow> jmetablock" where
  "update_refs f b = b\<lparr>jm_ref := f (jm_ref b)\<rparr>"

text \<open>\<open>refx\<close> is \<open>None\<close> for \<open>unsigned(-1)\<close>.\<close>

primrec mark_overwritten_block :: "nat \<Rightarrow> u32 \<Rightarrow> nat option \<Rightarrow> jmetablock list \<Rightarrow> nat list \<Rightarrow> jmetablock list" where
  "mark_overwritten_block 0 bn refx jd mr = jd"
| "mark_overwritten_block (Suc mx) bn refx jd mr =
     (let bi = mr ! mx; nref = unat (jm_nref (jd ! bi));
          k = (case refx of None \<Rightarrow> nref | Some r \<Rightarrow> if r > nref then nref else r)
      in mark_overwritten_block mx bn None (jd[bi := update_refs (mark_refs bn k) (jd ! bi)]) mr)"

primrec overwritten_refs :: "nat \<Rightarrow> nat \<Rightarrow> jmetablock list \<Rightarrow> nat list \<Rightarrow> jmetablock list" where
  "overwritten_refs 0 mx jd mr = jd"
| "overwritten_refs (Suc refx) mx jd mr =
     (let ref = jm_ref (jd ! (mr ! (mx - 1))) ! refx
      in overwritten_refs refx mx
           (if \<not> has (ref_bflags ref) jbf_overwritten then mark_overwritten_block mx (ref_bn ref) (Some refx) jd mr else jd) mr)"

definition analyze_overwritten_blocks :: "nat \<Rightarrow> jmetablock list \<Rightarrow> nat list \<Rightarrow> jmetablock list" where
  "analyze_overwritten_blocks mx jd mr = overwritten_refs (unat (jm_nref (jd ! (mr ! (mx - 1))))) mx jd mr"

definition in_region :: "tid \<Rightarrow> tid \<Rightarrow> jmetablock \<Rightarrow> bool" where
  "in_region complete commit b \<longleftrightarrow> tid_ge (jm_tid b) complete \<and> tid_lt (jm_tid b) commit"

primrec overwritten_loop :: "nat \<Rightarrow> tid \<Rightarrow> tid \<Rightarrow> jmetablock list \<Rightarrow> nat list \<Rightarrow> jmetablock list" where
  "overwritten_loop 0 complete commit jd mr = jd"
| "overwritten_loop (Suc mx) complete commit jd mr =
     overwritten_loop mx complete commit
       (if in_region complete commit (jd ! (mr ! mx)) then analyze_overwritten_blocks (Suc mx) jd mr else jd) mr"

section \<open>Analysis and replay\<close>

definition analyze :: "jmetablock list \<Rightarrow> nat \<Rightarrow> (journalreplayer \<times> bool) res" where
  "analyze jd addr =
     rbind (analyze_blocks [0..<length jd] (journalreplayer_new jd addr)) (\<lambda>st.
       if \<not> jr_ok st then Inr (st, False)
       else if jr_mr st = [] then Inr (st, False)
       else if \<not> check_metas None (metas st) then Inr (st\<lparr>jr_ok := False\<rparr>, False)
       else (let complete = jm_complete_boundary (last (metas st));
                 commit = jm_commit_boundary (last (metas st));
                 ok = list_all (\<lambda>k. analyze_tid (metas st) (complete + of_nat k)) [0..<unat (commit - complete)];
                 jd' = overwritten_loop (length (jr_mr st)) complete commit (jr_jd st) (jr_mr st)
             in Inr (st\<lparr>jr_ok := ok, jr_jd := jd'\<rparr>, ok)))"

text \<open>One \<open>write_block\<close> call: the transaction, the block number and the block's contents.\<close>

type_synonym write_call = "tid \<times> u32 \<times> jmetablock"

definition run_ref :: "jmetablock list \<Rightarrow> nat \<Rightarrow> tid \<Rightarrow> jblockref \<Rightarrow> nat \<Rightarrow> jmetablock list \<times> write_call list \<times> nat" where
  "run_ref jd bi t ref delta =
     (let bflags = ref_bflags ref; dbi = (bi + delta) mod length jd;
          wr = (\<not> has bflags jbf_overwritten \<and> \<not> has bflags jbf_nonjournaled);
          jd' = (if wr \<and> has bflags jbf_escaped then jd[dbi := (jd ! dbi)\<lparr>jm_magic := journalmagic\<rparr>] else jd)
      in (jd', if wr then [(t, ref_bn ref, jd' ! dbi)] else [],
          if has bflags jbf_nonjournaled then delta else delta + 1))"

primrec run_refs :: "nat \<Rightarrow> jmetablock list \<Rightarrow> nat \<Rightarrow> nat \<Rightarrow> nat \<Rightarrow> jmetablock list \<times> write_call list" where
  "run_refs 0 jd bi refi delta = (jd, [])"
| "run_refs (Suc n) jd bi refi delta =
     (let (jd1, ws, delta') = run_ref jd bi (jm_tid (jd ! bi)) (jm_ref (jd ! bi) ! refi) delta;
          (jd2, ws') = run_refs n jd1 bi (refi + 1) delta'
      in (jd2, ws @ ws'))"

primrec run_metas :: "nat list \<Rightarrow> tid \<Rightarrow> tid \<Rightarrow> jmetablock list \<Rightarrow> jmetablock list \<times> write_call list" where
  "run_metas [] complete commit jd = (jd, [])"
| "run_metas (bi # mr) complete commit jd =
     (let (jd1, ws) = (if in_region complete commit (jd ! bi) then run_refs (unat (jm_nref (jd ! bi))) jd bi 0 1 else (jd, []));
          (jd2, ws') = run_metas mr complete commit jd1
      in (jd2, ws @ ws'))"

definition run :: "journalreplayer \<Rightarrow> (journalreplayer \<times> write_call list) res" where
  "run st =
     assert_then (jr_ok st)
       (if jr_mr st = [] then Inl Out_Of_Bounds
        else (let b = last (metas st);
                  (jd, ws) = run_metas (jr_mr st) (jm_complete_boundary b) (jm_commit_boundary b) (jr_jd st)
              in Inr (st\<lparr>jr_jd := jd\<rparr>, ws)))"

end
