(* ===== verification/Journal_Correct.thy ===== *)
theory Journal_Correct
  imports Journal
begin

text \<open>
  Correctness of the journal replayer: what the analysis keeps and establishes, that the marking of
  overwritten blocks marks exactly the references a later one overwrites, and that a replay writes
  the last journaled version of every block of the committed region.
\<close>

section \<open>What the analysis keeps\<close>

lemma flag_error_simps [simp]:
  "length (jr_jd (flag_error st bi)) = length (jr_jd st)" "jr_addr (flag_error st bi) = jr_addr st"
  "jr_mr (flag_error st bi) = jr_mr st" "block_addr (flag_error st bi) = block_addr st"
  "i \<noteq> bi \<Longrightarrow> jr_jd (flag_error st bi) ! i = jr_jd st ! i"
  by (auto simp: flag_error_def block_addr_def)

lemma block_addr_ok [simp]: "block_addr (st\<lparr>jr_ok := x\<rparr>) = block_addr st"
  by (auto simp: block_addr_def)

lemma has_or: "has (a OR b) f \<longleftrightarrow> has a f \<or> has b f"
  by (auto simp: has_def bit.conj_disj_distrib2 or_eq_0_iff)

text \<open>
  \<open>kept bi st st'\<close>: a step of the analysis of block \<open>bi\<close> changes no other block, no reference and no
  sequence number; either block \<open>bi\<close> is as before or it carries \<open>jf_error\<close>.
\<close>

definition kept :: "nat \<Rightarrow> journalreplayer \<Rightarrow> journalreplayer \<Rightarrow> bool" where
  "kept bi st st' \<longleftrightarrow> length (jr_jd st') = length (jr_jd st) \<and> jr_addr st' = jr_addr st \<and> jr_mr st' = jr_mr st
     \<and> (\<forall>i. i \<noteq> bi \<longrightarrow> jr_jd st' ! i = jr_jd st ! i)
     \<and> jm_ref (jr_jd st' ! bi) = jm_ref (jr_jd st ! bi) \<and> jm_nref (jr_jd st' ! bi) = jm_nref (jr_jd st ! bi)
     \<and> (jr_jd st' ! bi = jr_jd st ! bi \<or> has (jm_flags (jr_jd st' ! bi)) jf_error)
     \<and> (has (jm_flags (jr_jd st ! bi)) jf_error \<longrightarrow> has (jm_flags (jr_jd st' ! bi)) jf_error)"

lemma kept_refl [simp]: "kept bi st st" and kept_ok [simp]: "kept bi st (st\<lparr>jr_ok := x\<rparr>)"
  by (simp_all add: kept_def)

lemma kept_trans: "kept bi st st' \<Longrightarrow> kept bi st' st'' \<Longrightarrow> kept bi st st''"
  by (auto simp: kept_def)

lemma kept_flag_error: "bi < nb st \<Longrightarrow> kept bi st (flag_error st bi)"
  and flag_error_has: "bi < nb st \<Longrightarrow> has (jm_flags (jr_jd (flag_error st bi) ! bi)) jf_error"
  by (auto simp: kept_def has_or flag_error_def) (simp_all add: has_def jf_error_def)

lemma kept_length: "kept bi st st' \<Longrightarrow> nb st' = nb st" by (simp add: kept_def)

lemma kept_check_flags: "bi < nb st \<Longrightarrow> kept bi st (check_flags st bi)"
  by (auto simp: check_flags_def Let_def intro!: kept_trans[OF _ kept_flag_error] kept_flag_error)

lemma analyze_block_reference_kept:
  assumes run: "analyze_block_reference st bi ref delta = Inr (st', delta')" and bi: "bi < nb st"
  shows "kept bi st st'" "delta' = (if has (ref_bflags ref) jbf_nonjournaled then delta else delta + 1)"
    and "\<not> has (jm_flags (jr_jd st' ! bi)) jf_error \<Longrightarrow> \<not> has (ref_bflags ref) jbf_nonjournaled \<Longrightarrow>
       \<not> looks_meta (jr_jd st ! ((bi + delta) mod nb st)) (block_addr st ((bi + delta) mod nb st))"
proof -
  define st1 where "st1 = (if delta \<ge> nb st then st\<lparr>jr_ok := False\<rparr> else st)"
  have st1: "kept bi st st1" "jr_jd st1 = jr_jd st" "block_addr st1 = block_addr st" by (auto simp: st1_def)
  then have err: "kept bi st (flag_error st1 bi)" "has (jm_flags (jr_jd (flag_error st1 bi) ! bi)) jf_error"
    using bi kept_flag_error[of bi st1] flag_error_has[of bi st1] kept_trans by auto
  show "kept bi st st'" "delta' = (if has (ref_bflags ref) jbf_nonjournaled then delta else delta + 1)"
    "\<not> has (jm_flags (jr_jd st' ! bi)) jf_error \<Longrightarrow> \<not> has (ref_bflags ref) jbf_nonjournaled \<Longrightarrow>
       \<not> looks_meta (jr_jd st ! ((bi + delta) mod nb st)) (block_addr st ((bi + delta) mod nb st))"
    using run st1 err unfolding analyze_block_reference_def st1_def[symmetric]
    by (auto simp: is_potential_metablock_def Let_def rbind_eq_Inr assert_then_eq_Inr split: if_splits)
qed

text \<open>The data blocks that the references from \<open>delta\<close> on stand for.\<close>

primrec data_blocks :: "nat \<Rightarrow> nat \<Rightarrow> jblockref list \<Rightarrow> nat \<Rightarrow> nat list" where
  "data_blocks n bi [] delta = []"
| "data_blocks n bi (r # rs) delta =
     (if has (ref_bflags r) jbf_nonjournaled then data_blocks n bi rs delta
      else (bi + delta) mod n # data_blocks n bi rs (delta + 1))"

lemma analyze_refs_run:
  assumes "analyze_refs n st bi refi delta = Inr st'" "bi < nb st"
  shows "kept bi st st' \<and> (n = 0 \<or> refi + n \<le> length (jm_ref (jr_jd st ! bi)))
    \<and> (\<not> has (jm_flags (jr_jd st' ! bi)) jf_error \<longrightarrow>
        (\<forall>d \<in> set (data_blocks (nb st) bi (take n (drop refi (jm_ref (jr_jd st ! bi)))) delta).
           \<not> looks_meta (jr_jd st ! d) (block_addr st d)))"
  using assms
proof (induction n arbitrary: st refi delta)
  case (Suc n)
  let ?refs = "jm_ref (jr_jd st ! bi)"
  obtain st1 delta1 where r: "refi < length ?refs" "analyze_block_reference st bi (?refs ! refi) delta = Inr (st1, delta1)"
    "analyze_refs n st1 bi (refi + 1) delta1 = Inr st'"
    using Suc.prems(1) by (auto simp: rbind_eq_Inr split: if_splits)
  note ref = analyze_block_reference_kept[OF r(2) Suc.prems(2)]
  have bi1: "bi < nb st1" and k: "jm_ref (jr_jd st1 ! bi) = ?refs" "nb st1 = nb st" "block_addr st1 = block_addr st"
    using ref(1) Suc.prems(2) by (auto simp: kept_def block_addr_def)
  note IH = Suc.IH[OF r(3) bi1, unfolded k]
  have kept: "kept bi st st'" using kept_trans ref(1) IH by blast
  have "take (Suc n) (drop refi ?refs) = ?refs ! refi # take n (drop (refi + 1) ?refs)"
    using r(1) by (simp add: drop_eq_Cons_nth)
  moreover have "jr_jd st1 ! i = jr_jd st ! i \<and> \<not> has (jm_flags (jr_jd st1 ! bi)) jf_error"
    if "\<not> has (jm_flags (jr_jd st' ! bi)) jf_error" for i
    using that IH ref(1) by (cases "i = bi") (auto simp: kept_def)
  ultimately show ?case using kept IH r(1) ref(2,3) by auto
qed simp

text \<open>The order of the metablocks and what is known of them after the blocks below \<open>k\<close>.\<close>

definition meta_ok :: "journalreplayer \<Rightarrow> nat \<Rightarrow> bool" where
  "meta_ok st bi \<longleftrightarrow> bi < nb st \<and> looks_meta (jr_jd st ! bi) (block_addr st bi)
     \<and> \<not> has (jm_flags (jr_jd st ! bi)) jf_error \<and> has (jm_flags (jr_jd st ! bi)) jf_meta
     \<and> unat (jm_nref (jr_jd st ! bi)) \<le> ref_size
     \<and> unat (jm_nref (jr_jd st ! bi)) \<le> length (jm_ref (jr_jd st ! bi))"

definition meta_data :: "journalreplayer \<Rightarrow> nat \<Rightarrow> nat list" where
  "meta_data st bi = data_blocks (nb st) bi (take (unat (jm_nref (jr_jd st ! bi))) (jm_ref (jr_jd st ! bi))) 1"

definition analyzed :: "jmetablock list \<Rightarrow> nat \<Rightarrow> nat \<Rightarrow> journalreplayer \<Rightarrow> bool" where
  "analyzed jd addr k st \<longleftrightarrow> nb st = length jd \<and> jr_addr st = addr
     \<and> (\<forall>i. k \<le> i \<longrightarrow> jr_jd st ! i = jd ! i)
     \<and> (\<forall>i < k. jr_jd st ! i = jd ! i \<or> has (jm_flags (jr_jd st ! i)) jf_error)
     \<and> distinct (jr_mr st) \<and> (\<forall>bi \<in> set (jr_mr st). bi < k \<and> meta_ok st bi)
     \<and> sorted (map (\<lambda>bi. unat (jm_seq (jr_jd st ! bi))) (jr_mr st))
     \<and> (\<forall>bi \<in> set (jr_mr st). \<forall>d \<in> set (meta_data st bi).
          d \<notin> set (jr_mr st) \<and> \<not> (k \<le> d \<and> looks_meta (jd ! d) (addr + d * blocksize)))"

lemma seq_position_le: "seq_position jd seq mr \<le> length mr"
  by (induction mr) auto

lemma sorted_insert_at:
  "sorted (map (\<lambda>bi. unat (jm_seq (jd ! bi))) mr) \<Longrightarrow> x = seq_position jd (jm_seq (jd ! bi)) mr \<Longrightarrow>
   sorted (map (\<lambda>bi. unat (jm_seq (jd ! bi))) (take x mr @ bi # drop x mr))"
proof (induction mr arbitrary: x)
  case (Cons y mr)
  show ?case
  proof (cases "unat (jm_seq (jd ! y)) \<le> unat (jm_seq (jd ! bi))")
    case True
    define x' where "x' = seq_position jd (jm_seq (jd ! bi)) mr"
    have x: "x = Suc x'" using True Cons.prems(2) by (simp add: x'_def word_le_def[symmetric] word_le_nat_alt)
    have "sorted (map (\<lambda>bi. unat (jm_seq (jd ! bi))) (take x' mr @ bi # drop x' mr))"
      using Cons.IH[OF _ x'_def] Cons.prems(1) by simp
    moreover have "set (take x' mr) \<union> set (drop x' mr) = set mr" by (metis append_take_drop_id set_append)
    ultimately show ?thesis using Cons.prems(1) True x by auto
  next
    case False
    then have "x = 0" using Cons.prems(2) by (simp add: word_le_def[symmetric] word_le_nat_alt)
    then show ?thesis using False Cons.prems(1) by force
  qed
qed simp

lemma insert_meta_cases:
  obtains "has (jm_flags (jr_jd st ! bi)) jf_error" "insert_meta st bi = st"
  | x where "\<not> has (jm_flags (jr_jd st ! bi)) jf_error" "x = seq_position (jr_jd st) (jm_seq (jr_jd st ! bi)) (jr_mr st)"
     "insert_meta st bi = st\<lparr>jr_mr := take x (jr_mr st) @ bi # drop x (jr_mr st)\<rparr>"
  by (cases "has (jm_flags (jr_jd st ! bi)) jf_error") (auto simp: insert_meta_def Let_def)

lemma check_flags_clean:
  assumes "bi < nb st" "\<not> has (jm_flags (jr_jd (check_flags st bi) ! bi)) jf_error"
  shows "has (jm_flags (jr_jd st ! bi)) jf_meta \<and> unat (jm_nref (jr_jd st ! bi)) \<le> ref_size"
  using assms flag_error_has by (auto simp: check_flags_def Let_def split: if_splits)

lemma analyze_block_cases:
  assumes run: "analyze_block st bi = Inr st'"
  obtains "bi < nb st" "\<not> looks_meta (jr_jd st ! bi) (block_addr st bi)" "st' = st"
  | st2 where "bi < nb st" "kept bi st st2" "looks_meta (jr_jd st ! bi) (block_addr st bi)" "st' = insert_meta st2 bi"
     "\<not> has (jm_flags (jr_jd st2 ! bi)) jf_error \<Longrightarrow>
        jr_jd st2 = jr_jd st \<and> meta_ok st bi \<and> (\<forall>d \<in> set (meta_data st bi). \<not> looks_meta (jr_jd st ! d) (block_addr st d))"
proof -
  note goal = that
  have bi: "bi < nb st" using run by (simp add: analyze_block_def assert_then_eq_Inr)
  show thesis
  proof (cases "looks_meta (jr_jd st ! bi) (block_addr st bi)")
    case False
    then show ?thesis using goal(1) run bi
      by (auto simp: analyze_block_def assert_then_eq_Inr rbind_eq_Inr is_potential_metablock_def split: if_splits)
  next
    case True
    define st1 where "st1 = check_flags st bi"
    obtain st2 where st2: "analyze_refs (unat (jm_nref (jr_jd st1 ! bi))) st1 bi 0 1 = Inr st2" "st' = insert_meta st2 bi"
      using run True
      by (auto simp: analyze_block_def assert_then_eq_Inr rbind_eq_Inr is_potential_metablock_def Let_def st1_def split: if_splits)
    have k1: "kept bi st st1" using kept_check_flags[OF bi] by (simp add: st1_def)
    then have bi1: "bi < nb st1" using bi by (simp add: kept_def)
    note refs = analyze_refs_run[OF st2(1) bi1]
    have k2: "kept bi st st2" using kept_trans k1 refs by blast
    have clean: "jr_jd st2 = jr_jd st \<and> meta_ok st bi \<and> (\<forall>d \<in> set (meta_data st bi). \<not> looks_meta (jr_jd st ! d) (block_addr st d))"
      if ne: "\<not> has (jm_flags (jr_jd st2 ! bi)) jf_error"
    proof -
      have ne1: "\<not> has (jm_flags (jr_jd st1 ! bi)) jf_error" using ne refs by (auto simp: kept_def)
      have e1: "jr_jd st1 ! bi = jr_jd st ! bi" and e2: "jr_jd st2 ! bi = jr_jd st ! bi"
        using k1 k2 ne ne1 by (auto simp: kept_def)
      have jd: "jr_jd st1 = jr_jd st" "jr_jd st2 = jr_jd st"
        by (rule nth_equalityI; use k1 k2 e1 e2 in \<open>metis kept_def\<close>)+
      have ad: "block_addr st1 = block_addr st" using k1 by (auto simp: block_addr_def kept_def)
      show ?thesis using ne ne1 refs jd ad True bi check_flags_clean[OF bi]
        unfolding meta_ok_def meta_data_def st1_def[symmetric] by auto
    qed
    show ?thesis using goal(2)[OF bi k2 True st2(2) clean] .
  qed
qed

lemma analyzed_block:
  assumes inv: "analyzed jd addr k st" and run: "analyze_block st k = Inr st'"
  shows "analyzed jd addr (Suc k) st'"
  using run
proof (cases rule: analyze_block_cases)
  case 1
  then have "\<not> looks_meta (jd ! k) (addr + k * blocksize)" using inv by (simp add: analyzed_def block_addr_def)
  then show ?thesis using inv 1 by (auto simp: analyzed_def less_Suc_eq Suc_le_eq order_less_imp_le)
next
  case (2 st2)
  note lmeta = 2(3)
  have below: "bi < k" "meta_ok st bi" if "bi \<in> set (jr_mr st)" for bi using inv that by (auto simp: analyzed_def)
  have ad: "block_addr st i = addr + i * blocksize" for i using inv by (simp add: analyzed_def block_addr_def)
  have k2: "nb st2 = nb st" "jr_mr st2 = jr_mr st" "jr_addr st2 = jr_addr st" "block_addr st2 = block_addr st"
    "\<And>i. i \<noteq> k \<Longrightarrow> jr_jd st2 ! i = jr_jd st ! i" using 2(2) by (auto simp: kept_def block_addr_def)
  show ?thesis
  proof (cases rule: insert_meta_cases[of st2 k])
    case 1
    have same: "meta_ok st2 bi = meta_ok st bi" "meta_data st2 bi = meta_data st bi" "jr_jd st2 ! bi = jr_jd st ! bi"
      if "bi \<in> set (jr_mr st)" for bi
      using below(1)[OF that] k2 by (simp_all add: meta_ok_def meta_data_def)
    have seqs: "map (\<lambda>bi. unat (jm_seq (jr_jd st2 ! bi))) (jr_mr st) = map (\<lambda>bi. unat (jm_seq (jr_jd st ! bi))) (jr_mr st)"
      using same(3) by simp
    show ?thesis unfolding \<open>st' = _\<close> 1(2) analyzed_def k2 seqs using inv 1(1) k2(5) same
      by (auto simp: analyzed_def less_Suc_eq Suc_le_eq)
  next
    case (2 x)
    note clean = \<open>\<not> has _ _ \<Longrightarrow> _\<close>[OF 2(1)]
    have jd2: "jr_jd st2 = jr_jd st" using clean by blast
    have st': "jr_jd st' = jr_jd st" "jr_addr st' = jr_addr st" "jr_mr st' = take x (jr_mr st) @ k # drop x (jr_mr st)"
      using 2(3) \<open>st' = _\<close> jd2 k2 by simp_all
    then have same: "meta_ok st' = meta_ok st" "meta_data st' = meta_data st"
      by (simp_all add: meta_ok_def meta_data_def block_addr_def fun_eq_iff)
    have set': "set (jr_mr st') = insert k (set (jr_mr st))"
      unfolding st'(3) by (metis append_take_drop_id list.simps(15) set_append Un_insert_right)
    have "distinct (jr_mr st)" "k \<notin> set (jr_mr st)" using inv below(1) by (auto simp: analyzed_def)
    then have dist: "distinct (jr_mr st')"
      unfolding st'(3) using set_take_disj_set_drop_if_distinct[of "jr_mr st" x x] by (auto dest: in_set_takeD in_set_dropD)
    have sorted: "sorted (map (\<lambda>bi. unat (jm_seq (jr_jd st ! bi))) (jr_mr st'))"
      unfolding st'(3) by (rule sorted_insert_at) (use inv 2(2) jd2 k2(2) in \<open>auto simp: analyzed_def\<close>)
    have lk: "looks_meta (jd ! k) (addr + k * blocksize)" using lmeta inv by (simp add: analyzed_def block_addr_def)
    have new: "d \<notin> set (jr_mr st') \<and> \<not> (Suc k \<le> d \<and> looks_meta (jd ! d) (addr + d * blocksize))"
      if d: "d \<in> set (meta_data st k)" for d
    proof -
      have nl: "\<not> looks_meta (jr_jd st ! d) (block_addr st d)" using clean d by blast
      then have "d \<noteq> k" "d \<notin> set (jr_mr st)" using lmeta below(2) by (auto simp: meta_ok_def)
      moreover have "\<not> looks_meta (jd ! d) (addr + d * blocksize)" if "Suc k \<le> d"
        using nl that inv unfolding ad by (simp add: analyzed_def)
      ultimately show ?thesis unfolding set' by blast
    qed
    have old: "d \<notin> set (jr_mr st') \<and> \<not> (Suc k \<le> d \<and> looks_meta (jd ! d) (addr + d * blocksize))"
      if "bi \<in> set (jr_mr st)" "d \<in> set (meta_data st bi)" for bi d
      using inv that lk unfolding set' analyzed_def by (metis Suc_leD insert_iff le_refl)
    have metas: "bi < Suc k \<and> meta_ok st bi" if "bi \<in> set (jr_mr st')" for bi
      using that below clean unfolding set' by (auto intro: less_SucI)
    show ?thesis unfolding analyzed_def st'(1,2) same
      using inv dist sorted new old metas unfolding set'
      by (auto simp: analyzed_def less_Suc_eq)
  qed
qed

lemma analyzed_blocks:
  "analyzed jd addr k st \<Longrightarrow> analyze_blocks [k..<n] st = Inr st' \<Longrightarrow> k \<le> n \<Longrightarrow> analyzed jd addr n st'"
proof (induction "n - k" arbitrary: k st)
  case (Suc d)
  then have "[k..<n] = k # [Suc k..<n]" by (simp add: upt_conv_Cons)
  then obtain st1 where "analyze_block st k = Inr st1" "analyze_blocks [Suc k..<n] st1 = Inr st'"
    using Suc.prems(2) by (auto simp: rbind_eq_Inr)
  then show ?case using Suc.hyps(1)[of "Suc k" st1] Suc.hyps(2) analyzed_block[OF Suc.prems(1)] by simp
qed simp

lemma analyzed_new: "analyzed jd addr 0 (journalreplayer_new jd addr)"
  by (simp add: analyzed_def journalreplayer_new_def)

section \<open>What the marking of overwritten blocks does\<close>

text \<open>\<open>marked S jd\<close>: reference \<open>r\<close> of block \<open>i\<close> has gained \<open>jbf_overwritten\<close> where \<open>S i r\<close> holds.\<close>

definition marked :: "(nat \<Rightarrow> nat \<Rightarrow> bool) \<Rightarrow> jmetablock list \<Rightarrow> jmetablock list" where
  "marked S jd = map (\<lambda>i. (jd ! i)\<lparr>jm_ref := map (\<lambda>r. if S i r then set_bflags (jm_ref (jd ! i) ! r) else jm_ref (jd ! i) ! r)
        [0..<length (jm_ref (jd ! i))]\<rparr>) [0..<length jd]"

lemma length_marked [simp]: "length (marked S jd) = length jd"
  by (simp add: marked_def)

lemma marked_nth:
  assumes "i < length jd"
  shows "jm_tid (marked S jd ! i) = jm_tid (jd ! i)" "jm_nref (marked S jd ! i) = jm_nref (jd ! i)"
    "jm_commit_boundary (marked S jd ! i) = jm_commit_boundary (jd ! i)"
    "jm_complete_boundary (marked S jd ! i) = jm_complete_boundary (jd ! i)"
    "length (jm_ref (marked S jd ! i)) = length (jm_ref (jd ! i))"
    "r < length (jm_ref (jd ! i)) \<Longrightarrow>
       jm_ref (marked S jd ! i) ! r = (if S i r then set_bflags (jm_ref (jd ! i) ! r) else jm_ref (jd ! i) ! r)"
  using assms by (simp_all add: marked_def)

lemma set_bflags_simps [simp]:
  "ref_bn (set_bflags r) = ref_bn r" "set_bflags (set_bflags r) = set_bflags r"
  "has (ref_bflags (set_bflags r)) jbf_overwritten"
  "has (ref_bflags (set_bflags r)) jbf_nonjournaled = has (ref_bflags r) jbf_nonjournaled"
  "has (ref_bflags (set_bflags r)) jbf_escaped = has (ref_bflags r) jbf_escaped"
  by (simp_all add: set_bflags_def has_or or.assoc) (simp_all add: has_def journal_flags)

lemma marked_False [simp]: "marked (\<lambda>i r. False) jd = jd"
  by (rule nth_equalityI) (auto simp: marked_def map_nth)

lemma marked_eqI:
  assumes "length jd' = length jd"
    "\<And>i. i < length jd \<Longrightarrow> jd' ! i = (jd ! i)\<lparr>jm_ref := jm_ref (jd' ! i)\<rparr> \<and> length (jm_ref (jd' ! i)) = length (jm_ref (jd ! i))"
    "\<And>i r. i < length jd \<Longrightarrow> r < length (jm_ref (jd ! i)) \<Longrightarrow>
       jm_ref (jd' ! i) ! r = (if S i r then set_bflags (jm_ref (jd ! i) ! r) else jm_ref (jd ! i) ! r)"
  shows "jd' = marked S jd"
proof (rule nth_equalityI)
  fix i assume i: "i < length jd'"
  have "jm_ref (jd' ! i) = jm_ref (marked S jd ! i)"
    by (rule nth_equalityI) (use assms i in \<open>auto simp: marked_nth\<close>)
  moreover have "marked S jd ! i = (jd ! i)\<lparr>jm_ref := jm_ref (marked S jd ! i)\<rparr>"
    using i assms(1) by (simp add: marked_def)
  ultimately show "jd' ! i = marked S jd ! i" using assms(1,2) i by metis
qed (simp add: assms)

lemma marked_marked: "marked S (marked T jd) = marked (\<lambda>i r. S i r \<or> T i r) jd"
  by (rule marked_eqI) (auto simp: marked_def)

lemma marked_cong:
  "(\<And>i r. i < length jd \<Longrightarrow> r < length (jm_ref (jd ! i)) \<Longrightarrow> S i r = T i r) \<Longrightarrow> marked S jd = marked T jd"
  by (rule marked_eqI) (auto simp: marked_def)

lemma mark_refs_spec:
  "k \<le> length refs \<Longrightarrow> mark_refs bn k refs =
     map (\<lambda>r. if r < k \<and> ref_bn (refs ! r) = bn then set_bflags (refs ! r) else refs ! r) [0..<length refs]"
proof (induction k arbitrary: refs)
  case 0
  then show ?case by (simp add: map_nth)
next
  case (Suc k)
  define refs' where "refs' = (if ref_bn (refs ! k) = bn then refs[k := set_bflags (refs ! k)] else refs)"
  have l: "length refs' = length refs" and n: "\<And>r. r < length refs \<Longrightarrow>
      refs' ! r = (if r = k \<and> ref_bn (refs ! k) = bn then set_bflags (refs ! k) else refs ! r)"
    by (auto simp: refs'_def)
  have "mark_refs bn (Suc k) refs = mark_refs bn k refs'" by (simp add: refs'_def)
  also have "\<dots> = map (\<lambda>r. if r < k \<and> ref_bn (refs' ! r) = bn then set_bflags (refs' ! r) else refs' ! r) [0..<length refs']"
    using Suc l by simp
  also have "\<dots> = map (\<lambda>r. if r < Suc k \<and> ref_bn (refs ! r) = bn then set_bflags (refs ! r) else refs ! r) [0..<length refs]"
    unfolding l by (rule map_cong) (auto simp: n less_Suc_eq)
  finally show ?case .
qed

text \<open>A list of metablocks in the journal, each with its references in place.\<close>

definition mr_ok :: "jmetablock list \<Rightarrow> nat list \<Rightarrow> bool" where
  "mr_ok jd mr \<longleftrightarrow> distinct mr \<and> (\<forall>bi \<in> set mr. bi < length jd \<and> unat (jm_nref (jd ! bi)) \<le> length (jm_ref (jd ! bi)))"

lemma mr_ok_nth: "mr_ok jd mr \<Longrightarrow> m < length mr \<Longrightarrow> mr ! m < length jd \<and> unat (jm_nref (jd ! (mr ! m))) \<le> length (jm_ref (jd ! (mr ! m)))"
  by (simp add: mr_ok_def)

lemma mr_ok_marked [simp]: "mr_ok (marked S jd) mr = mr_ok jd mr"
  by (auto simp: mr_ok_def marked_nth)

lemma mark_one:
  assumes "bi < length jd" "k \<le> length (jm_ref (jd ! bi))"
  shows "jd[bi := update_refs (mark_refs bn k) (jd ! bi)] = marked (\<lambda>i r. i = bi \<and> r < k \<and> ref_bn (jm_ref (jd ! i) ! r) = bn) jd"
proof (rule marked_eqI)
  fix i assume i: "i < length jd"
  let ?b = "jd[bi := update_refs (mark_refs bn k) (jd ! bi)] ! i"
  show "?b = (jd ! i)\<lparr>jm_ref := jm_ref ?b\<rparr> \<and> length (jm_ref ?b) = length (jm_ref (jd ! i))"
    using assms i by (cases "i = bi") (auto simp: update_refs_def mark_refs_spec)
  fix r assume "r < length (jm_ref (jd ! i))"
  then show "jm_ref ?b ! r = (if i = bi \<and> r < k \<and> ref_bn (jm_ref (jd ! i) ! r) = bn
      then set_bflags (jm_ref (jd ! i) ! r) else jm_ref (jd ! i) ! r)"
    using assms i by (cases "i = bi") (auto simp: update_refs_def mark_refs_spec)
qed simp

definition mark_bound :: "nat option \<Rightarrow> nat \<Rightarrow> nat" where
  "mark_bound refx nref = (case refx of None \<Rightarrow> nref | Some r \<Rightarrow> if r > nref then nref else r)"

lemma mark_bound_le: "mark_bound refx nref \<le> nref" and mark_bound_None [simp]: "mark_bound None nref = nref"
  by (auto simp: mark_bound_def split: option.splits)

lemma marked_bn: "i < length jd \<Longrightarrow> r < length (jm_ref (jd ! i)) \<Longrightarrow> ref_bn (jm_ref (marked S jd ! i) ! r) = ref_bn (jm_ref (jd ! i) ! r)"
  by (simp add: marked_nth)

lemma mark_overwritten_block_spec:
  assumes "mr_ok jd mr" "mx \<le> length mr"
  shows "mark_overwritten_block mx bn refx jd mr =
    marked (\<lambda>i r. \<exists>m < mx. mr ! m = i \<and> ref_bn (jm_ref (jd ! i) ! r) = bn
       \<and> r < mark_bound (if Suc m = mx then refx else None) (unat (jm_nref (jd ! i)))) jd"
  using assms
proof (induction mx arbitrary: jd refx)
  case 0
  then show ?case by simp
next
  case (Suc mx)
  let ?bi = "mr ! mx" and ?k = "mark_bound refx (unat (jm_nref (jd ! (mr ! mx))))"
  have bi: "?bi < length jd" "?k \<le> length (jm_ref (jd ! ?bi))"
    using mr_ok_nth[OF Suc.prems(1), of mx] Suc.prems(2) mark_bound_le[of refx "unat (jm_nref (jd ! ?bi))"] by auto
  define S where "S = (\<lambda>i r. i = ?bi \<and> r < ?k \<and> ref_bn (jm_ref (jd ! i) ! r) = bn)"
  have "mark_overwritten_block (Suc mx) bn refx jd mr = mark_overwritten_block mx bn None (marked S jd) mr"
    using mark_one[OF bi] by (simp add: Let_def S_def mark_bound_def)
  also have "\<dots> = marked (\<lambda>i r. \<exists>m < mx. mr ! m = i \<and> ref_bn (jm_ref (marked S jd ! i) ! r) = bn
       \<and> r < unat (jm_nref (marked S jd ! i))) (marked S jd)"
    using Suc.IH[of "marked S jd" None] Suc.prems by simp
  also have "\<dots> = marked (\<lambda>i r. \<exists>m < Suc mx. mr ! m = i \<and> ref_bn (jm_ref (jd ! i) ! r) = bn
       \<and> r < mark_bound (if Suc m = Suc mx then refx else None) (unat (jm_nref (jd ! i)))) jd"
    unfolding marked_marked by (rule marked_cong) (auto simp: less_Suc_eq marked_nth S_def)
  finally show ?case .
qed

text \<open>
  Positions of references: metablock \<open>m\<close> of the sequence order, reference \<open>r\<close>.  A source is a
  reference of the committed region that does not carry \<open>jbf_overwritten\<close>; it overwrites every
  earlier reference to its block.
\<close>

definition overwrites :: "tid \<Rightarrow> tid \<Rightarrow> jmetablock list \<Rightarrow> nat list \<Rightarrow> nat \<Rightarrow> nat \<Rightarrow> nat \<Rightarrow> nat \<Rightarrow> bool" where
  "overwrites complete commit jd mr m' r' m r \<longleftrightarrow> m' < length mr \<and> in_region complete commit (jd ! (mr ! m'))
     \<and> r' < unat (jm_nref (jd ! (mr ! m'))) \<and> \<not> has (ref_bflags (jm_ref (jd ! (mr ! m')) ! r')) jbf_overwritten
     \<and> (m < m' \<or> m = m' \<and> r < r') \<and> r < unat (jm_nref (jd ! (mr ! m)))
     \<and> ref_bn (jm_ref (jd ! (mr ! m)) ! r) = ref_bn (jm_ref (jd ! (mr ! m')) ! r')"

definition from_pos :: "nat \<Rightarrow> nat \<Rightarrow> nat \<Rightarrow> nat \<Rightarrow> bool" where
  "from_pos M R m' r' \<longleftrightarrow> M < m' \<or> m' = M \<and> R \<le> r'"

definition over_from :: "tid \<Rightarrow> tid \<Rightarrow> jmetablock list \<Rightarrow> nat list \<Rightarrow> nat \<Rightarrow> nat \<Rightarrow> nat \<Rightarrow> nat \<Rightarrow> bool" where
  "over_from complete commit jd mr M R i r \<longleftrightarrow>
     (\<exists>m m' r'. m < length mr \<and> mr ! m = i \<and> from_pos M R m' r' \<and> overwrites complete commit jd mr m' r' m r)"

lemma over_from_trans:
  assumes "distinct mr" "over_from c d jd mr M (Suc R) (mr ! M) R" "M < length mr" "overwrites c d jd mr M R m r"
  obtains m' r' where "from_pos M (Suc R) m' r'" "overwrites c d jd mr m' r' m r"
proof -
  obtain m0 m' r' where "m0 < length mr" "mr ! m0 = mr ! M" and o: "from_pos M (Suc R) m' r'" "overwrites c d jd mr m' r' m0 R"
    using assms(2) by (auto simp: over_from_def)
  then have "m0 = M" using assms(1,3) nth_eq_iff_index_eq by blast
  then have "overwrites c d jd mr m' r' m r" using o assms(4) by (auto simp: overwrites_def)
  with o(1) show thesis by (rule that)
qed

lemma from_pos_Suc: "from_pos M R m' r' \<longleftrightarrow> from_pos M (Suc R) m' r' \<or> m' = M \<and> r' = R"
  by (auto simp: from_pos_def)

lemma over_from_cong:
  assumes "\<And>m' r' m r. overwrites c d jd mr m' r' m r \<Longrightarrow> from_pos A B m' r' = from_pos A' B' m' r'"
  shows "over_from c d jd mr A B = over_from c d jd mr A' B'"
  unfolding over_from_def fun_eq_iff by (intro allI iffI; elim exE conjE; intro exI conjI) (use assms in auto)

lemma overwritten_refs_spec:
  assumes ok: "mr_ok jd mr" and M: "M < length mr" "in_region c d (jd ! (mr ! M))"
  shows "R \<le> unat (jm_nref (jd ! (mr ! M))) \<Longrightarrow>
    overwritten_refs R (Suc M) (marked (over_from c d jd mr M R) jd) mr = marked (over_from c d jd mr M 0) jd"
proof (induction R)
  case (Suc R)
  let ?i = "mr ! M" and ?T = "over_from c d jd mr M (Suc R)"
  have i: "?i < length jd" "R < length (jm_ref (jd ! ?i))" "R < unat (jm_nref (jd ! ?i))"
    using mr_ok_nth[OF ok M(1)] Suc.prems by auto
  have dist: "distinct mr" using ok by (simp add: mr_ok_def)
  define ref where "ref = jm_ref (marked ?T jd ! ?i) ! R"
  have ov: "has (ref_bflags ref) jbf_overwritten \<longleftrightarrow> has (ref_bflags (jm_ref (jd ! ?i) ! R)) jbf_overwritten \<or> ?T ?i R"
    and bn: "ref_bn ref = ref_bn (jm_ref (jd ! ?i) ! R)"
    using i by (auto simp: ref_def marked_nth)
  have step: "(if \<not> has (ref_bflags ref) jbf_overwritten then mark_overwritten_block (Suc M) (ref_bn ref) (Some R) (marked ?T jd) mr
      else marked ?T jd) = marked (over_from c d jd mr M R) jd"
  proof (cases "has (ref_bflags ref) jbf_overwritten")
    case True
    have "over_from c d jd mr M R i' r = ?T i' r" for i' r
    proof
      assume "over_from c d jd mr M R i' r"
      then obtain m m' r' where m: "m < length mr" "mr ! m = i'" "from_pos M R m' r'" "overwrites c d jd mr m' r' m r"
        by (auto simp: over_from_def)
      show "?T i' r"
      proof (cases "from_pos M (Suc R) m' r'")
        case False
        then have mr': "overwrites c d jd mr M R m r" using m(3,4) from_pos_Suc by blast
        then have "?T ?i R" using True ov by (auto simp: overwrites_def)
        from over_from_trans[OF dist this M(1) mr'] show ?thesis using m(1,2) unfolding over_from_def by blast
      qed (use m in \<open>auto simp: over_from_def\<close>)
    qed (auto simp: over_from_def from_pos_Suc[of M R])
    then show ?thesis using True by (auto intro!: marked_cong)
  next
    case False
    have nref: "unat (jm_nref (marked ?T jd ! i')) = unat (jm_nref (jd ! i'))" if "i' < length jd" for i' using that by (simp add: marked_nth)
    define U where "U = (\<lambda>i' r. \<exists>m < Suc M. mr ! m = i' \<and> ref_bn (jm_ref (marked ?T jd ! i') ! r) = ref_bn ref
       \<and> r < mark_bound (if Suc m = Suc M then Some R else None) (unat (jm_nref (marked ?T jd ! i'))))"
    have "mark_overwritten_block (Suc M) (ref_bn ref) (Some R) (marked ?T jd) mr = marked U (marked ?T jd)"
      unfolding U_def by (rule mark_overwritten_block_spec) (use ok M(1) in simp_all)
    also have "\<dots> = marked (over_from c d jd mr M R) jd"
      unfolding marked_marked
    proof (rule marked_cong)
      fix i' r assume i': "i' < length jd" "r < length (jm_ref (jd ! i'))"
      have "U i' r \<longleftrightarrow> (\<exists>m < length mr. mr ! m = i' \<and> overwrites c d jd mr M R m r)" (is "_ \<longleftrightarrow> ?R")
        using M False i i' ov unfolding U_def marked_bn[OF i'] bn nref[OF i'(1)]
        by (intro ex_cong1) (auto simp: overwrites_def mark_bound_def less_Suc_eq split: if_splits)
      moreover have "over_from c d jd mr M R i' r \<longleftrightarrow> ?R \<or> ?T i' r"
        unfolding over_from_def from_pos_Suc[of M R] by blast
      ultimately show "(U i' r \<or> ?T i' r) = over_from c d jd mr M R i' r" by blast
    qed
    finally show ?thesis using False by simp
  qed
  show ?case using Suc.IH Suc.prems step by (simp add: Let_def ref_def[symmetric])
qed simp

lemma in_region_marked [simp]: "i < length jd \<Longrightarrow> in_region c d (marked S jd ! i) = in_region c d (jd ! i)"
  by (simp add: in_region_def marked_nth)

lemma overwritten_loop_spec:
  assumes ok: "mr_ok jd mr"
  shows "M \<le> length mr \<Longrightarrow>
    overwritten_loop M c d (marked (over_from c d jd mr M 0) jd) mr = marked (over_from c d jd mr 0 0) jd"
proof (induction M)
  case (Suc M)
  let ?i = "mr ! M" and ?n = "unat (jm_nref (jd ! (mr ! M)))"
  have i: "M < length mr" "?i < length jd" using mr_ok_nth[OF ok] Suc.prems by auto
  have same: "over_from c d jd mr (Suc M) 0 = over_from c d jd mr M ?n"
    if "in_region c d (jd ! ?i)"
    by (rule over_from_cong) (auto simp: from_pos_def overwrites_def)
  have same': "over_from c d jd mr (Suc M) 0 = over_from c d jd mr M 0"
    if "\<not> in_region c d (jd ! ?i)"
    by (rule over_from_cong) (use that in \<open>auto simp: from_pos_def overwrites_def\<close>)
  show ?case
  proof (cases "in_region c d (jd ! ?i)")
    case True
    have "analyze_overwritten_blocks (Suc M) (marked (over_from c d jd mr (Suc M) 0) jd) mr = marked (over_from c d jd mr M 0) jd"
      using overwritten_refs_spec[OF ok i(1) True order_refl] i(2) unfolding same[OF True]
      by (simp add: analyze_overwritten_blocks_def marked_nth)
    then show ?thesis using Suc True i by simp
  next
    case False
    then show ?thesis using Suc i same'[OF False] by simp
  qed
qed simp

section \<open>What a replay writes\<close>

text \<open>
  The references of the committed region in sequence order, each with its transaction and the index
  of its data block in the journal; and the writes that count: the journaled references that no
  later reference to the same block overwrites.
\<close>

type_synonym ref_item = "tid \<times> jblockref \<times> nat"

primrec ref_items :: "nat \<Rightarrow> nat \<Rightarrow> tid \<Rightarrow> jblockref list \<Rightarrow> nat \<Rightarrow> ref_item list" where
  "ref_items n bi t [] delta = []"
| "ref_items n bi t (r # rs) delta =
     (t, r, (bi + delta) mod n) # ref_items n bi t rs (if has (ref_bflags r) jbf_nonjournaled then delta else delta + 1)"

definition meta_items :: "tid \<Rightarrow> tid \<Rightarrow> jmetablock list \<Rightarrow> nat \<Rightarrow> ref_item list" where
  "meta_items complete commit jd bi =
     (if in_region complete commit (jd ! bi)
      then ref_items (length jd) bi (jm_tid (jd ! bi)) (take (unat (jm_nref (jd ! bi))) (jm_ref (jd ! bi))) 1 else [])"

definition committed_refs :: "tid \<Rightarrow> tid \<Rightarrow> jmetablock list \<Rightarrow> nat list \<Rightarrow> ref_item list" where
  "committed_refs complete commit jd mr = concat (map (meta_items complete commit jd) mr)"

definition live :: "ref_item \<Rightarrow> bool" where
  "live x \<longleftrightarrow> \<not> has (ref_bflags (fst (snd x))) jbf_overwritten \<and> \<not> has (ref_bflags (fst (snd x))) jbf_nonjournaled"

definition shadows :: "jblockref \<Rightarrow> jblockref \<Rightarrow> bool" where
  "shadows y x \<longleftrightarrow> ref_bn y = ref_bn x \<and> \<not> has (ref_bflags y) jbf_overwritten"

primrec last_writes :: "ref_item list \<Rightarrow> ref_item list" where
  "last_writes [] = []"
| "last_writes (x # xs) =
     (if live x \<and> \<not> (\<exists>y \<in> set xs. shadows (fst (snd y)) (fst (snd x))) then [x] else []) @ last_writes xs"

lemma last_writes_subset: "y \<in> set (last_writes xs) \<Longrightarrow> y \<in> set xs \<and> live y"
  by (induction xs) (auto split: if_splits)

lemma last_writes_distinct: "distinct (map (\<lambda>x. ref_bn (fst (snd x))) (last_writes xs))"
  by (induction xs) (auto simp: shadows_def live_def dest!: last_writes_subset)

text \<open>The marking of one metablock, with the references of the later ones in \<open>W\<close>.\<close>

primrec mark_list :: "jblockref set \<Rightarrow> jblockref list \<Rightarrow> jblockref list" where
  "mark_list W [] = []"
| "mark_list W (r # rs) = (if \<exists>y \<in> set rs \<union> W. shadows y r then set_bflags r else r) # mark_list W rs"

lemma length_mark_list [simp]: "length (mark_list W rs) = length rs"
  by (induction rs) auto

lemma mark_list_nth:
  "j < length rs \<Longrightarrow> mark_list W rs ! j = (if \<exists>y \<in> set (drop (Suc j) rs) \<union> W. shadows y (rs ! j) then set_bflags (rs ! j) else rs ! j)"
  by (induction rs arbitrary: j) (auto simp: nth_Cons split: nat.splits)

lemma set_ref_items: "(\<lambda>x. fst (snd x)) ` set (ref_items n bi t rs delta) = set rs"
  by (induction rs arbitrary: delta) auto

lemma live_mark_list:
  assumes "filter live X = last_writes Z" "W = (\<lambda>x. fst (snd x)) ` set Z"
  shows "filter live (ref_items n bi t (mark_list W rs) delta @ X) = last_writes (ref_items n bi t rs delta @ Z)"
proof (induction rs arbitrary: delta)
  case (Cons r rs)
  have "(\<exists>y \<in> set (ref_items n bi t rs delta' @ Z). shadows (fst (snd y)) r) \<longleftrightarrow> (\<exists>y \<in> set rs \<union> W. shadows y r)" for delta'
    using set_ref_items[of n bi t rs delta'] assms(2) by (metis (no_types, lifting) image_Un image_iff set_append)
  then show ?case using Cons.IH by (auto simp: live_def)
qed (simp add: assms)

lemma committed_refs_Cons: "committed_refs c d jd (bi # mr) = meta_items c d jd bi @ committed_refs c d jd mr"
  by (simp add: committed_refs_def)

lemma set_meta_items: "(\<lambda>x. fst (snd x)) ` set (meta_items c d jd bi) =
    (if in_region c d (jd ! bi) then set (take (unat (jm_nref (jd ! bi))) (jm_ref (jd ! bi))) else {})"
  by (simp add: meta_items_def set_ref_items)

lemma later_refs:
  assumes "mr_ok jd mr" "m \<le> length mr"
  shows "y \<in> (\<lambda>x. fst (snd x)) ` set (committed_refs c d jd (drop m mr)) \<longleftrightarrow>
    (\<exists>m' r'. m \<le> m' \<and> m' < length mr \<and> in_region c d (jd ! (mr ! m')) \<and> r' < unat (jm_nref (jd ! (mr ! m')))
       \<and> y = jm_ref (jd ! (mr ! m')) ! r')"
proof -
  have "(\<lambda>x. fst (snd x)) ` set (committed_refs c d jd (drop m mr)) = (\<Union>bi \<in> set (drop m mr). (\<lambda>x. fst (snd x)) ` set (meta_items c d jd bi))"
    by (auto simp: committed_refs_def)
  then have "y \<in> (\<lambda>x. fst (snd x)) ` set (committed_refs c d jd (drop m mr)) \<longleftrightarrow>
    (\<exists>bi \<in> set (drop m mr). in_region c d (jd ! bi) \<and> y \<in> set (take (unat (jm_nref (jd ! bi))) (jm_ref (jd ! bi))))"
    by (auto simp: set_meta_items split: if_splits)
  also have "\<dots> \<longleftrightarrow> (\<exists>m' \<ge> m. m' < length mr \<and> in_region c d (jd ! (mr ! m'))
      \<and> y \<in> set (take (unat (jm_nref (jd ! (mr ! m')))) (jm_ref (jd ! (mr ! m')))))"
    unfolding Bex_def in_set_drop_conv by blast
  also have "\<dots> \<longleftrightarrow> (\<exists>m' r'. m \<le> m' \<and> m' < length mr \<and> in_region c d (jd ! (mr ! m')) \<and> r' < unat (jm_nref (jd ! (mr ! m')))
       \<and> y = jm_ref (jd ! (mr ! m')) ! r')"
  proof -
    have "y \<in> set (take (unat (jm_nref (jd ! (mr ! m')))) (jm_ref (jd ! (mr ! m')))) \<longleftrightarrow>
       (\<exists>r' < unat (jm_nref (jd ! (mr ! m'))). y = jm_ref (jd ! (mr ! m')) ! r')" if "m' < length mr" for m'
      by (rule in_set_take_conv) (use mr_ok_nth[OF assms(1) that] in simp)
    then show ?thesis by (intro ex_cong1) auto
  qed
  finally show ?thesis .
qed

lemma live_committed:
  assumes ok: "mr_ok jd mr"
  shows "m \<le> length mr \<Longrightarrow>
    filter live (committed_refs c d (marked (over_from c d jd mr 0 0) jd) (drop m mr)) = last_writes (committed_refs c d jd (drop m mr))"
proof (induction "length mr - m" arbitrary: m)
  case 0
  then show ?case by (simp add: committed_refs_def)
next
  case (Suc k)
  let ?S = "over_from c d jd mr 0 0" and ?i = "mr ! m" and ?n = "unat (jm_nref (jd ! (mr ! m)))"
  let ?W = "(\<lambda>x. fst (snd x)) ` set (committed_refs c d jd (drop (Suc m) mr))"
  have m: "m < length mr" "drop m mr = ?i # drop (Suc m) mr" using Suc.hyps(2) by (auto simp: Cons_nth_drop_Suc)
  have i: "?i < length jd" "?n \<le> length (jm_ref (jd ! ?i))" using mr_ok_nth[OF ok m(1)] by auto
  have dist: "distinct mr" using ok by (simp add: mr_ok_def)
  have IH: "filter live (committed_refs c d (marked ?S jd) (drop (Suc m) mr)) = last_writes (committed_refs c d jd (drop (Suc m) mr))"
    by (rule Suc.hyps(1)) (use Suc.hyps(2) m(1) in auto)
  show ?case
  proof (cases "in_region c d (jd ! ?i)")
    case False
    then show ?thesis using IH i m(2) by (simp add: committed_refs_Cons meta_items_def)
  next
    case True
    have mk: "?S ?i r \<longleftrightarrow> (\<exists>y \<in> set (drop (Suc r) (take ?n (jm_ref (jd ! ?i)))) \<union> ?W. shadows y (jm_ref (jd ! ?i) ! r))"
      if r: "r < ?n" for r
    proof -
      have "?S ?i r \<longleftrightarrow> (\<exists>m' r'. overwrites c d jd mr m' r' m r)"
        using m(1) dist nth_eq_iff_index_eq[OF dist] unfolding over_from_def from_pos_def by (metis le0 not_gr_zero)
      also have "\<dots> \<longleftrightarrow> (\<exists>r'. Suc r \<le> r' \<and> r' < ?n \<and> shadows (jm_ref (jd ! ?i) ! r') (jm_ref (jd ! ?i) ! r))
         \<or> (\<exists>m' r'. Suc m \<le> m' \<and> m' < length mr \<and> in_region c d (jd ! (mr ! m')) \<and> r' < unat (jm_nref (jd ! (mr ! m')))
             \<and> shadows (jm_ref (jd ! (mr ! m')) ! r') (jm_ref (jd ! ?i) ! r))"
      proof -
        have "overwrites c d jd mr m' r' m r \<longleftrightarrow> m' = m \<and> Suc r \<le> r' \<and> r' < ?n \<and> shadows (jm_ref (jd ! ?i) ! r') (jm_ref (jd ! ?i) ! r)
           \<or> Suc m \<le> m' \<and> m' < length mr \<and> in_region c d (jd ! (mr ! m')) \<and> r' < unat (jm_nref (jd ! (mr ! m')))
             \<and> shadows (jm_ref (jd ! (mr ! m')) ! r') (jm_ref (jd ! ?i) ! r)" for m' r'
          using True r m(1) by (auto simp: overwrites_def shadows_def Suc_le_eq)
        then show ?thesis by blast
      qed
      also have "\<dots> \<longleftrightarrow> (\<exists>y \<in> set (drop (Suc r) (take ?n (jm_ref (jd ! ?i)))). shadows y (jm_ref (jd ! ?i) ! r))
         \<or> (\<exists>y \<in> ?W. shadows y (jm_ref (jd ! ?i) ! r))"
      proof (intro arg_cong2[where f = "(\<or>)"])
        show "(\<exists>r'. Suc r \<le> r' \<and> r' < ?n \<and> shadows (jm_ref (jd ! ?i) ! r') (jm_ref (jd ! ?i) ! r)) \<longleftrightarrow>
            (\<exists>y \<in> set (drop (Suc r) (take ?n (jm_ref (jd ! ?i)))). shadows y (jm_ref (jd ! ?i) ! r))"
          using i(2) unfolding Bex_def in_set_drop_conv by force
      qed (unfold Bex_def later_refs[OF ok Suc_leI[OF m(1)]], blast)
      finally show ?thesis by blast
    qed
    have "take ?n (jm_ref (marked ?S jd ! ?i)) = mark_list ?W (take ?n (jm_ref (jd ! ?i)))"
      using i by (intro nth_equalityI) (auto simp: marked_nth mark_list_nth mk)
    then have "meta_items c d (marked ?S jd) ?i = ref_items (length jd) ?i (jm_tid (jd ! ?i)) (mark_list ?W (take ?n (jm_ref (jd ! ?i)))) 1"
      using True i by (simp add: meta_items_def marked_nth)
    moreover have "meta_items c d jd ?i = ref_items (length jd) ?i (jm_tid (jd ! ?i)) (take ?n (jm_ref (jd ! ?i))) 1"
      using True by (simp add: meta_items_def)
    ultimately show ?thesis unfolding m(2) committed_refs_Cons using live_mark_list[OF IH refl] by simp
  qed
qed

text \<open>A replay changes nothing of the journal but magic numbers, which it does not read.\<close>

definition same_but_magic :: "jmetablock list \<Rightarrow> jmetablock list \<Rightarrow> bool" where
  "same_but_magic jd' jd \<longleftrightarrow> length jd' = length jd \<and> (\<forall>i. (jd' ! i)\<lparr>jm_magic := 0\<rparr> = (jd ! i)\<lparr>jm_magic := 0\<rparr>)"

definition writes_item :: "jmetablock list \<Rightarrow> ref_item \<Rightarrow> write_call \<Rightarrow> bool" where
  "writes_item jd x w \<longleftrightarrow> (case x of (t, r, dbi) \<Rightarrow> case w of (t', bn, b) \<Rightarrow>
     t' = t \<and> bn = ref_bn r \<and> b\<lparr>jm_magic := 0\<rparr> = (jd ! dbi)\<lparr>jm_magic := 0\<rparr>
     \<and> (has (ref_bflags r) jbf_escaped \<longrightarrow> jm_magic b = journalmagic))"

lemma same_fields:
  assumes "same_but_magic jd' jd"
  shows "jm_ref (jd' ! i) = jm_ref (jd ! i)" "jm_tid (jd' ! i) = jm_tid (jd ! i)" "jm_nref (jd' ! i) = jm_nref (jd ! i)"
    "in_region c d (jd' ! i) = in_region c d (jd ! i)" "length jd' = length jd"
proof -
  have "(jd' ! i)\<lparr>jm_magic := 0\<rparr> = (jd ! i)\<lparr>jm_magic := 0\<rparr>" using assms by (simp add: same_but_magic_def)
  then show "jm_ref (jd' ! i) = jm_ref (jd ! i)" "jm_tid (jd' ! i) = jm_tid (jd ! i)" "jm_nref (jd' ! i) = jm_nref (jd ! i)"
    "in_region c d (jd' ! i) = in_region c d (jd ! i)"
    by (cases "jd' ! i"; cases "jd ! i"; simp add: in_region_def)+
  show "length jd' = length jd" using assms by (simp add: same_but_magic_def)
qed

lemma run_ref_spec:
  assumes run: "run_ref jd' bi t r delta = (jd2, ws, delta')" and same: "same_but_magic jd' jd" and n: "0 < length jd"
  shows "same_but_magic jd2 jd" "delta' = (if has (ref_bflags r) jbf_nonjournaled then delta else delta + 1)"
    "list_all2 (writes_item jd) (filter live [(t, r, (bi + delta) mod length jd)]) ws"
proof -
  have d: "(bi + delta) mod length jd < length jd'" using same n by (simp add: same_fields(5))
  show "same_but_magic jd2 jd" "delta' = (if has (ref_bflags r) jbf_nonjournaled then delta else delta + 1)"
    "list_all2 (writes_item jd) (filter live [(t, r, (bi + delta) mod length jd)]) ws"
    using run same d unfolding run_ref_def Let_def same_fields(5)[OF same]
    by (auto simp: same_but_magic_def writes_item_def live_def nth_list_update split: if_splits)
qed

lemma run_refs_spec:
  assumes "same_but_magic jd' jd" "0 < length jd" "refi + n \<le> length (jm_ref (jd ! bi))" "run_refs n jd' bi refi delta = (jd2, ws)"
  shows "same_but_magic jd2 jd \<and> list_all2 (writes_item jd)
      (filter live (ref_items (length jd) bi (jm_tid (jd ! bi)) (take n (drop refi (jm_ref (jd ! bi)))) delta)) ws"
  using assms
proof (induction n arbitrary: jd' refi delta ws)
  case (Suc n)
  let ?r = "jm_ref (jd ! bi) ! refi"
  obtain jd1 ws1 delta1 ws2 where r: "run_ref jd' bi (jm_tid (jd ! bi)) ?r delta = (jd1, ws1, delta1)"
    "run_refs n jd1 bi (refi + 1) delta1 = (jd2, ws2)" "ws = ws1 @ ws2"
    using Suc.prems(4) same_fields[OF Suc.prems(1)] by (auto split: prod.splits)
  note one = run_ref_spec[OF r(1) Suc.prems(1,2)]
  have IH: "same_but_magic jd2 jd \<and> list_all2 (writes_item jd)
      (filter live (ref_items (length jd) bi (jm_tid (jd ! bi)) (take n (drop (refi + 1) (jm_ref (jd ! bi)))) delta1)) ws2"
    by (rule Suc.IH[OF one(1) Suc.prems(2) _ r(2)]) (use Suc.prems(3) in simp)
  have "take (Suc n) (drop refi (jm_ref (jd ! bi))) = ?r # take n (drop (refi + 1) (jm_ref (jd ! bi)))"
    using Suc.prems(3) by (simp add: drop_eq_Cons_nth)
  then have "filter live (ref_items (length jd) bi (jm_tid (jd ! bi)) (take (Suc n) (drop refi (jm_ref (jd ! bi)))) delta) =
      filter live [(jm_tid (jd ! bi), ?r, (bi + delta) mod length jd)]
      @ filter live (ref_items (length jd) bi (jm_tid (jd ! bi)) (take n (drop (refi + 1) (jm_ref (jd ! bi)))) delta1)"
    using one(2) by simp
  then show ?case using IH list_all2_appendI[OF one(3)] unfolding r(3) by metis
qed simp

lemma run_metas_spec:
  assumes "same_but_magic jd' jd" "mr_ok jd mr" "run_metas mr c d jd' = (jd2, ws)"
  shows "list_all2 (writes_item jd) (filter live (committed_refs c d jd mr)) ws"
  using assms
proof (induction mr arbitrary: jd' ws)
  case (Cons bi mr)
  have bi: "bi < length jd" "unat (jm_nref (jd ! bi)) \<le> length (jm_ref (jd ! bi))" "mr_ok jd mr"
    using Cons.prems(2) by (auto simp: mr_ok_def)
  obtain jd1 ws1 ws2 where r: "(if in_region c d (jd ! bi) then run_refs (unat (jm_nref (jd ! bi))) jd' bi 0 1 else (jd', [])) = (jd1, ws1)"
    "run_metas mr c d jd1 = (jd2, ws2)" "ws = ws1 @ ws2"
    using Cons.prems(3) unfolding run_metas.simps same_fields[OF Cons.prems(1)] by (auto split: prod.splits)
  have one: "same_but_magic jd1 jd \<and> list_all2 (writes_item jd) (filter live (meta_items c d jd bi)) ws1"
    using run_refs_spec[OF Cons.prems(1), of 0 "unat (jm_nref (jd ! bi))" bi 1 jd1 ws1] r(1) Cons.prems(1) bi
      gr_implies_not_zero[OF bi(1)]
    by (auto simp: meta_items_def split: if_splits)
  then show ?case using Cons.IH[OF _ bi(3) r(2)] r(3) by (simp add: committed_refs_Cons list_all2_appendI)
qed (simp add: committed_refs_def)

section \<open>Properties\<close>

text \<open>What a successful analysis is made of.\<close>

lemma analyze_ok_cases:
  assumes "analyze jd addr = Inr (st, True)"
  obtains st0 complete commit where "analyzed jd addr (length jd) st0" "jr_mr st = jr_mr st0" "jr_mr st \<noteq> []" "jr_ok st"
    "complete = jm_complete_boundary (jd ! last (jr_mr st))" "commit = jm_commit_boundary (jd ! last (jr_mr st))"
    "jr_jd st = marked (over_from complete commit (jr_jd st0) (jr_mr st0) 0 0) (jr_jd st0)" "mr_ok (jr_jd st0) (jr_mr st0)"
    "\<And>bi. bi \<in> set (jr_mr st0) \<Longrightarrow> jr_jd st0 ! bi = jd ! bi" "check_metas None (metas st0)"
    "\<And>k. k < unat (commit - complete) \<Longrightarrow> analyze_tid (metas st0) (complete + of_nat k)"
proof -
  obtain st0 where st0: "analyze_blocks [0..<length jd] (journalreplayer_new jd addr) = Inr st0"
    using assms by (auto simp: analyze_def rbind_eq_Inr)
  have inv: "analyzed jd addr (length jd) st0" by (rule analyzed_blocks[OF analyzed_new st0]) simp
  define complete where "complete = jm_complete_boundary (last (metas st0))"
  define commit where "commit = jm_commit_boundary (last (metas st0))"
  have ne: "jr_mr st0 \<noteq> []" and chk: "check_metas None (metas st0)"
    and tids: "list_all (\<lambda>k. analyze_tid (metas st0) (complete + of_nat k)) [0..<unat (commit - complete)]"
    and st: "st = st0\<lparr>jr_ok := True, jr_jd := overwritten_loop (length (jr_mr st0)) complete commit (jr_jd st0) (jr_mr st0)\<rparr>"
    using assms st0 by (auto simp: analyze_def Let_def complete_def commit_def split: if_splits)
  have ok: "mr_ok (jr_jd st0) (jr_mr st0)" using inv by (auto simp: analyzed_def mr_ok_def meta_ok_def)
  have same: "jr_jd st0 ! bi = jd ! bi" if "bi \<in> set (jr_mr st0)" for bi
    using inv that by (auto simp: analyzed_def meta_ok_def)
  have "last (metas st0) = jd ! last (jr_mr st0)" using ne same by (simp add: metas_def last_map)
  then have bnd: "complete = jm_complete_boundary (jd ! last (jr_mr st))" "commit = jm_commit_boundary (jd ! last (jr_mr st))"
    by (simp_all add: complete_def commit_def st)
  have "over_from complete commit (jr_jd st0) (jr_mr st0) (length (jr_mr st0)) 0 = (\<lambda>i r. False)"
    by (auto simp: over_from_def from_pos_def overwrites_def fun_eq_iff)
  then have jdm: "jr_jd st = marked (over_from complete commit (jr_jd st0) (jr_mr st0) 0 0) (jr_jd st0)"
    using overwritten_loop_spec[OF ok order_refl, of complete commit] by (simp add: st)
  show thesis
    by (rule that[OF inv _ _ _ bnd jdm ok same chk]) (use ne st tids in \<open>simp_all add: list_all_iff\<close>)
qed

lemma committed_refs_cong:
  "length jd' = length jd \<Longrightarrow> (\<And>bi. bi \<in> set mr \<Longrightarrow> jd' ! bi = jd ! bi) \<Longrightarrow> committed_refs c d jd' mr = committed_refs c d jd mr"
  by (auto simp: committed_refs_def meta_items_def intro!: arg_cong[of _ _ concat])


text \<open>A small journal: one metablock that starts and commits transaction 0, and its two data blocks.\<close>

definition null_refs :: "nat \<Rightarrow> jblockref list" where
  "null_refs n = replicate n \<lparr>ref_bn = 0, ref_bchecksum = 0, ref_bflags = 0, ref_pad = 0\<rparr>"

definition demo_meta :: "u16 \<Rightarrow> jmetablock" where
  "demo_meta nref = \<lparr>jm_magic = journalmagic, jm_checksum = nochecksum, jm_padding = 0, jm_seq = 0, jm_tid = 0, jm_commit_boundary = 1,
       jm_complete_boundary = 0, jm_flags = 0x31, jm_nref = nref,
       jm_ref = \<lparr>ref_bn = 77, ref_bchecksum = nochecksum, ref_bflags = 0, ref_pad = 0\<rparr> #
                \<lparr>ref_bn = 77, ref_bchecksum = nochecksum, ref_bflags = 0x100, ref_pad = 0\<rparr> # null_refs 337\<rparr>"

definition demo_data :: jmetablock where
  "demo_data = \<lparr>jm_magic = 0, jm_checksum = 5, jm_padding = 0, jm_seq = 0, jm_tid = 0, jm_commit_boundary = 0,
       jm_complete_boundary = 0, jm_flags = 0, jm_nref = 0, jm_ref = null_refs 339\<rparr>"

lemma length_null_refs [simp]: "length (null_refs n) = n"
  by (simp add: null_refs_def)

lemma demo_fields [simp]:
  "\<not> looks_meta demo_data a" "looks_meta (demo_meta n) a" "jm_flags (demo_meta n) = 0x31" "jm_nref (demo_meta n) = n"
  "jm_ref (demo_meta n) = \<lparr>ref_bn = 77, ref_bchecksum = nochecksum, ref_bflags = 0, ref_pad = 0\<rparr> #
     \<lparr>ref_bn = 77, ref_bchecksum = nochecksum, ref_bflags = 0x100, ref_pad = 0\<rparr> # null_refs 337"
  "jm_tid (demo_meta n) = 0" "jm_commit_boundary (demo_meta n) = 1" "jm_complete_boundary (demo_meta n) = 0"
  by (simp_all add: looks_meta_def demo_data_def demo_meta_def journalmagic_def)

lemma demo_analyze: "\<exists>st. analyze [demo_meta 2, demo_data, demo_data] 0 = Inr (st, True) \<and> jr_mr st = [0]"
proof -
  let ?jd = "[demo_meta 2, demo_data, demo_data]"
  let ?st = "\<lambda>mr. \<lparr>jr_jd = ?jd, jr_addr = 0, jr_mr = mr, jr_ok = True\<rparr>"
  have refs: "analyze_refs 2 (?st []) 0 0 1 = Inr (?st [])"
    unfolding numeral_2_eq_2
    by (simp add: analyze_block_reference_def is_potential_metablock_def block_addr_def has_def jbf_nonjournaled_def)
  have 0: "analyze_block (?st []) 0 = Inr (?st [0])"
    using refs
    by (simp add: analyze_block_def is_potential_metablock_def block_addr_def check_flags_def has_def journal_flags ref_size_def
        insert_meta_def)
  have other: "analyze_block (?st [0]) bi = Inr (?st [0])" if "bi = 1 \<or> bi = 2" for bi
    using that by (auto simp: analyze_block_def is_potential_metablock_def block_addr_def)
  have "[0..<length ?jd] = [0, 1, 2]" by (simp add: upt_rec)
  then have run: "analyze_blocks [0..<length ?jd] (journalreplayer_new ?jd 0) = Inr (?st [0])"
    by (simp only: journalreplayer_new_def analyze_blocks.simps 0 other rbind_simps simp_thms)
  have tid: "analyze_tid [demo_meta 2] 0"
    by (simp add: analyze_tid_def analyze_tid_turn_def boundary_flags_def has_def journal_flags tid_gt_def)
  have chk: "check_metas None [demo_meta 2]"
    by (simp add: check_meta_def has_def journal_flags tid_gt_def tid_ge_def tid_lt_def)
  show ?thesis unfolding analyze_def run using tid chk by (simp add: metas_def Let_def)
qed


text \<open>Outcomes of the loops over references and blocks.\<close>

lemma analyze_block_reference_total:
  assumes "jr_addr st mod 8 = 0"
  shows "\<exists>st' delta'. analyze_block_reference st bi ref delta = Inr (st', delta')"
proof -
  have al: "block_addr st' d mod 8 = 0" if "jr_addr st' = jr_addr st" for st' d
    using that assms by (simp add: block_addr_def mod_add_eq[symmetric])
  show ?thesis by (auto simp: analyze_block_reference_def is_potential_metablock_def al Let_def)
qed

lemma analyze_refs_total:
  assumes "jr_addr st mod 8 = 0" "bi < nb st"
  shows "if refi + n \<le> length (jm_ref (jr_jd st ! bi)) then \<exists>st'. analyze_refs n st bi refi delta = Inr st'
     else 0 < n \<longrightarrow> refi \<le> length (jm_ref (jr_jd st ! bi)) \<longrightarrow> analyze_refs n st bi refi delta = Inl Out_Of_Bounds"
  using assms
proof (induction n arbitrary: st refi delta)
  case (Suc n)
  let ?refs = "jm_ref (jr_jd st ! bi)"
  obtain st1 delta1 where r: "analyze_block_reference st bi (?refs ! refi) delta = Inr (st1, delta1)"
    using analyze_block_reference_total[OF Suc.prems(1)] by blast
  note k = analyze_block_reference_kept(1)[OF r Suc.prems(2)]
  have e: "jm_ref (jr_jd st1 ! bi) = ?refs" "jr_addr st1 mod 8 = 0" "bi < nb st1" using k Suc.prems by (auto simp: kept_def)
  have IH: "if refi + 1 + n \<le> length ?refs then \<exists>st'. analyze_refs n st1 bi (refi + 1) delta1 = Inr st'
     else 0 < n \<longrightarrow> refi + 1 \<le> length ?refs \<longrightarrow> analyze_refs n st1 bi (refi + 1) delta1 = Inl Out_Of_Bounds"
    using Suc.IH[OF e(2,3), of "refi + 1" delta1] unfolding e(1) .
  show ?case using IH r by (cases "n = 0") auto
qed simp

definition oversized :: "jmetablock list \<Rightarrow> nat \<Rightarrow> nat \<Rightarrow> bool" where
  "oversized jd addr bi \<longleftrightarrow> looks_meta (jd ! bi) (addr + bi * blocksize) \<and> unat (jm_nref (jd ! bi)) > ref_size"

lemma analyze_block_total:
  assumes inv: "analyzed jd addr k st" and k: "k < length jd" "addr mod 8 = 0" "length (jm_ref (jd ! k)) = ref_size"
  shows "if oversized jd addr k then analyze_block st k = Inl Out_Of_Bounds else \<exists>st'. analyze_block st k = Inr st'"
proof -
  have st: "k < nb st" "jr_addr st mod 8 = 0" "jr_jd st ! k = jd ! k" "block_addr st k = addr + k * blocksize" "block_addr st k mod 8 = 0"
    using inv k by (auto simp: analyzed_def block_addr_def mod_add_eq[symmetric])
  define st1 where "st1 = check_flags st k"
  have k1: "kept k st st1" using kept_check_flags[OF st(1)] by (simp add: st1_def)
  then have s1: "jr_addr st1 mod 8 = 0" "k < nb st1" "jm_ref (jr_jd st1 ! k) = jm_ref (jd ! k)" "jm_nref (jr_jd st1 ! k) = jm_nref (jd ! k)"
    using st by (auto simp: kept_def)
  show ?thesis
    using analyze_refs_total[OF s1(1,2), of 0 "unat (jm_nref (jd ! k))" 1] st k(3) s1(3,4)
    unfolding analyze_block_def is_potential_metablock_def st1_def[symmetric]
    by (auto simp: oversized_def Let_def)
qed

lemma analyze_blocks_total:
  assumes "addr mod 8 = 0" "\<And>bi. bi < length jd \<Longrightarrow> length (jm_ref (jd ! bi)) = ref_size"
  shows "analyzed jd addr k st \<Longrightarrow> k \<le> length jd \<Longrightarrow>
    if \<exists>bi < length jd. k \<le> bi \<and> oversized jd addr bi then analyze_blocks [k..<length jd] st = Inl Out_Of_Bounds
    else \<exists>st'. analyze_blocks [k..<length jd] st = Inr st'"
proof (induction "length jd - k" arbitrary: k st)
  case (Suc n)
  then have k: "k < length jd" "[k..<length jd] = k # [Suc k..<length jd]" by (auto simp: upt_conv_Cons)
  note one = analyze_block_total[OF Suc.prems(1) k(1) assms(1) assms(2)[OF k(1)]]
  show ?case
  proof (cases "oversized jd addr k")
    case True
    then show ?thesis using one k by auto
  next
    case False
    then obtain st1 where st1: "analyze_block st k = Inr st1" using one by auto
    have "(\<exists>bi < length jd. k \<le> bi \<and> oversized jd addr bi) = (\<exists>bi < length jd. Suc k \<le> bi \<and> oversized jd addr bi)"
      using False by (metis Suc_leD Suc_leI le_neq_implies_less)
    then show ?thesis
      using Suc.hyps(1)[of "Suc k" st1] Suc.hyps(2) analyzed_block[OF Suc.prems(1) st1] k st1 by simp
  qed
qed auto

text \<open>
  on a journal in aligned memory the analysis always finishes, and the only way it can go wrong is
  to read past the reference array: it does so exactly when some block that looks like a metablock
  claims more than \<open>ref_size\<close> references, although the code reports that as a recoverable error.
\<close>

theorem journal_analyze_outcome:
  assumes "addr mod 8 = 0" "\<forall>b \<in> set jd. length (jm_ref b) = ref_size"
  shows "if \<exists>bi < length jd. oversized jd addr bi then analyze jd addr = Inl Out_Of_Bounds
    else \<exists>st ok. analyze jd addr = Inr (st, ok)"
proof -
  have blocks: "if \<exists>bi < length jd. 0 \<le> bi \<and> oversized jd addr bi
      then analyze_blocks [0..<length jd] (journalreplayer_new jd addr) = Inl Out_Of_Bounds
      else \<exists>st'. analyze_blocks [0..<length jd] (journalreplayer_new jd addr) = Inr st'"
    by (rule analyze_blocks_total[OF assms(1) _ analyzed_new]) (use assms(2) in auto)
  show ?thesis
  proof (cases "\<exists>bi < length jd. oversized jd addr bi")
    case True
    then show ?thesis using blocks by (auto simp: analyze_def)
  next
    case False
    then obtain st where "analyze_blocks [0..<length jd] (journalreplayer_new jd addr) = Inr st"
      using blocks by (simp only: le0 simp_thms if_False) blast
    moreover have "\<exists>x. \<not> x" by (rule exI[of _ False]) simp
    ultimately show ?thesis using False by (simp add: analyze_def Let_def)
  qed
qed

theorem journal_analyze_outcome_witness:
  "analyze [demo_meta 400, demo_data] 0 = Inl Out_Of_Bounds"
proof -
  have "oversized [demo_meta 400, demo_data] 0 0" by (simp add: oversized_def ref_size_def)
  then have "\<exists>bi < length [demo_meta 400, demo_data]. oversized [demo_meta 400, demo_data] 0 bi" by (metis length_greater_0_conv list.distinct(1))
  moreover have "\<forall>b \<in> set [demo_meta 400, demo_data]. length (jm_ref b) = ref_size" by (simp add: ref_size_def demo_data_def)
  ultimately show ?thesis using journal_analyze_outcome[of 0 "[demo_meta 400, demo_data]"] by simp
qed

lemma analyze_tid_commit:
  "analyze_tid_loop t pseq flags ms \<Longrightarrow>
     has flags jf_commit \<or> (\<exists>b \<in> set ms. jm_tid b = t \<and> (has (jm_flags b) jf_commit \<or> tid_gt (jm_commit_boundary b) t))"
proof (induction ms arbitrary: pseq flags)
  case (Cons b ms)
  let ?f = "fst (analyze_tid_turn t pseq flags b)"
  have "has ?f jf_commit \<longrightarrow> has flags jf_commit \<or> jm_tid b = t \<and> (has (jm_flags b) jf_commit \<or> tid_gt (jm_commit_boundary b) t)"
    by (auto simp: analyze_tid_turn_def Let_def has_or boundary_flags_def) (auto simp: has_def journal_flags)
  then show ?case using Cons by auto
qed simp

text \<open>
  a transaction of the committable region passes the analysis only when one of its own metablocks
  carries the commit flag or a commit boundary above it; a commit boundary advanced by a later
  metablock of another transaction is not taken into account.
\<close>

theorem journal_commit_needs_own_metablock:
  assumes "analyze jd addr = Inr (st, True)"
    and "k < unat (jm_commit_boundary (jd ! last (jr_mr st)) - jm_complete_boundary (jd ! last (jr_mr st)))"
  shows "\<exists>bi \<in> set (jr_mr st). jm_tid (jd ! bi) = jm_complete_boundary (jd ! last (jr_mr st)) + of_nat k
    \<and> (has (jm_flags (jd ! bi)) jf_commit \<or> tid_gt (jm_commit_boundary (jd ! bi)) (jm_complete_boundary (jd ! last (jr_mr st)) + of_nat k))"
  using assms(1)
proof (cases rule: analyze_ok_cases)
  case (1 st0 complete commit)
  then have "analyze_tid (metas st0) (complete + of_nat k)" using assms(2) by blast
  then have "\<exists>b \<in> set (metas st0). jm_tid b = complete + of_nat k
      \<and> (has (jm_flags b) jf_commit \<or> tid_gt (jm_commit_boundary b) (complete + of_nat k))"
    unfolding analyze_tid_def by (auto simp: has_def dest!: analyze_tid_commit)
  then show ?thesis using 1(2,5,9) by (auto simp: metas_def)
qed

theorem journal_commit_needs_own_metablock_witness:
  "\<exists>st. analyze [demo_meta 2, demo_data, demo_data] 0 = Inr (st, True) \<and> (\<exists>bi \<in> set (jr_mr st). jm_tid ([demo_meta 2, demo_data, demo_data] ! bi) = 0)"
proof -
  obtain st where st: "analyze [demo_meta 2, demo_data, demo_data] 0 = Inr (st, True)" "jr_mr st = [0]" using demo_analyze by blast
  then show ?thesis using journal_commit_needs_own_metablock[OF st(1), of 0] by auto
qed

lemma strict_seqs:
  "sorted (map (\<lambda>b. unat (jm_seq b)) ms) \<Longrightarrow> check_metas lst ms \<Longrightarrow>
   (\<forall>b. lst = Some b \<longrightarrow> (\<forall>c \<in> set ms. unat (jm_seq b) \<le> unat (jm_seq c))) \<Longrightarrow>
   sorted_wrt (<) (map (\<lambda>b. unat (jm_seq b)) ms) \<and> (\<forall>b. lst = Some b \<longrightarrow> (\<forall>c \<in> set ms. unat (jm_seq b) < unat (jm_seq c)))"
proof (induction ms arbitrary: lst)
  case (Cons c ms)
  have IH: "sorted_wrt (<) (map (\<lambda>b. unat (jm_seq b)) ms) \<and> (\<forall>c' \<in> set ms. unat (jm_seq c) < unat (jm_seq c'))"
    using Cons.IH[of "Some c"] Cons.prems by auto
  have "unat (jm_seq b) < unat (jm_seq c)" if "lst = Some b" for b
  proof -
    have "jm_seq c \<noteq> jm_seq b" "unat (jm_seq b) \<le> unat (jm_seq c)" using Cons.prems that by (auto simp: check_meta_def)
    then show ?thesis using unsigned_word_eqI le_neq_implies_less by metis
  qed
  then show ?case using IH by force
qed simp

text \<open>
  after a successful analysis the metablocks are in strictly increasing sequence order, each is an
  unmodified block that looks like a metablock and holds its references, and no data block it refers
  to is itself one of them.
\<close>

theorem journal_analyze_invariant:
  assumes "analyze jd addr = Inr (st, True)"
  shows "sorted_wrt (<) (map (\<lambda>bi. unat (jm_seq (jd ! bi))) (jr_mr st))
    \<and> (\<forall>bi \<in> set (jr_mr st). bi < length jd \<and> looks_meta (jd ! bi) (addr + bi * blocksize) \<and> unat (jm_nref (jd ! bi)) \<le> ref_size
        \<and> set (data_blocks (length jd) bi (take (unat (jm_nref (jd ! bi))) (jm_ref (jd ! bi))) 1) \<inter> set (jr_mr st) = {})"
  using assms
proof (cases rule: analyze_ok_cases)
  case (1 st0 complete commit)
  have seqs: "map (\<lambda>b. unat (jm_seq b)) (metas st0) = map (\<lambda>bi. unat (jm_seq (jd ! bi))) (jr_mr st)"
    using 1(2,9) by (simp add: metas_def)
  have "sorted (map (\<lambda>b. unat (jm_seq b)) (metas st0))" using 1(1) by (simp add: metas_def analyzed_def comp_def)
  then have "sorted_wrt (<) (map (\<lambda>b. unat (jm_seq b)) (metas st0))" using strict_seqs 1(10) by blast
  then have srt: "sorted_wrt (<) (map (\<lambda>bi. unat (jm_seq (jd ! bi))) (jr_mr st))" unfolding seqs .
  have "meta_ok st0 bi" "set (meta_data st0 bi) \<inter> set (jr_mr st) = {}" if "bi \<in> set (jr_mr st)" for bi
    using 1(1,2) that by (auto simp: analyzed_def)
  then show ?thesis using srt 1(1,2,9) by (simp add: meta_ok_def meta_data_def analyzed_def block_addr_def)
qed

theorem journal_analyze_invariant_witness:
  "\<exists>st. analyze [demo_meta 2, demo_data, demo_data] 0 = Inr (st, True)
     \<and> (\<forall>bi \<in> set (jr_mr st). looks_meta ([demo_meta 2, demo_data, demo_data] ! bi) (bi * blocksize))"
proof -
  obtain st where st: "analyze [demo_meta 2, demo_data, demo_data] 0 = Inr (st, True)" using demo_analyze by blast
  then show ?thesis using journal_analyze_invariant[OF st] by auto
qed

end
