(* ===== verification/Vmiter.thy ===== *)
theory Vmiter
  imports Kernel_Prelude
begin

text \<open>
  Page tables: the iterator \<open>vmiter\<close> of \<open>k-vmiter.hh\<close> and \<open>k-vmiter.cc\<close> over four-level x86-64 page
  tables.  Physical memory is seen as page-table pages: \<open>m pa i\<close> is entry \<open>i\<close> of the page at physical
  address \<open>pa\<close>, which the kernel reads through its mapping of all physical memory.  The pointer
  \<open>pep_\<close> is a page and an index.  The pages that \<open>kallocpage\<close> returns are an argument of \<open>map\<close>.
\<close>

section \<open>Addresses\<close>

abbreviation PTE_P :: u64 where "PTE_P \<equiv> 1"
abbreviation PTE_W :: u64 where "PTE_W \<equiv> 2"
abbreviation PTE_U :: u64 where "PTE_U \<equiv> 4"
abbreviation PTE_PS :: u64 where "PTE_PS \<equiv> 0x80"
abbreviation PTE_PAMASK :: u64 where "PTE_PAMASK \<equiv> 0x0007FFFFFFFFF000"
abbreviation VA_LOWMAX :: u64 where "VA_LOWMAX \<equiv> 0x00007FFFFFFFFFFF"
abbreviation VA_LOWEND :: u64 where "VA_LOWEND \<equiv> 0x0000800000000000"
abbreviation VA_HIGHMAX :: u64 where "VA_HIGHMAX \<equiv> 0xFFFFFFFFFFFFFFFF"

definition pageindex :: "u64 \<Rightarrow> nat \<Rightarrow> nat" where
  "pageindex addr level = unat (drop_bit (12 + level * 9) addr AND 0x1FF)"

definition pageoffmask :: "nat \<Rightarrow> u64" where
  "pageoffmask level = push_bit (12 + level * 9) 1 - 1"

section \<open>The iterator\<close>

type_synonym ptmem = "u64 \<Rightarrow> nat \<Rightarrow> u64"

record vmiter =
  vi_pt :: u64
  vi_page :: u64
  vi_index :: nat
  vi_level :: nat
  vi_perm :: u64
  vi_va :: u64

abbreviation initial_perm :: u64 where "initial_perm \<equiv> 0xFFF"

definition vm_entry :: "ptmem \<Rightarrow> vmiter \<Rightarrow> u64" where
  "vm_entry m it = m (vi_page it) (vi_index it)"

definition vm_table :: "u64 \<Rightarrow> bool" where
  "vm_table pe \<longleftrightarrow> pe AND (PTE_P OR PTE_PS) = PTE_P"

function vm_down :: "ptmem \<Rightarrow> vmiter \<Rightarrow> vmiter" where
  "vm_down m it =
     (if vi_level it > 0 \<and> vm_table (vm_entry m it)
      then let level = vi_level it - 1
           in vm_down m (it\<lparr>vi_perm := vi_perm it AND vm_entry m it, vi_level := level,
                            vi_page := vm_entry m it AND PTE_PAMASK, vi_index := pageindex (vi_va it) level\<rparr>)
      else it)"
  by pat_completeness auto
termination by (relation "measure (vi_level \<circ> snd)") (auto simp: Let_def)

declare vm_down.simps [simp del]

definition vm_real_find :: "ptmem \<Rightarrow> vmiter \<Rightarrow> u64 \<Rightarrow> vmiter" where
  "vm_real_find m it va =
     (let it1 = (if (vi_va it XOR va) AND NOT (pageoffmask (vi_level it + 1)) \<noteq> 0
                 then it\<lparr>vi_level := 3, vi_page := vi_pt it, vi_index := pageindex va 3, vi_perm := initial_perm\<rparr>
                 else let curidx = vi_index it
                      in it\<lparr>vi_index := nat (int (vi_index it) + (int (pageindex va (vi_level it)) - int curidx))\<rparr>)
      in vm_down m (it1\<lparr>vi_va := va\<rparr>))"

definition vmiter_new :: "ptmem \<Rightarrow> u64 \<Rightarrow> u64 \<Rightarrow> vmiter" where
  "vmiter_new m pt va = vm_real_find m \<lparr>vi_pt = pt, vi_page = pt, vi_index = 0, vi_level = 3, vi_perm = initial_perm, vi_va = 0\<rparr> va"

definition vm_last_va :: "vmiter \<Rightarrow> u64" where
  "vm_last_va it = (vi_va it OR pageoffmask (vi_level it)) + 1"

definition vm_low :: "vmiter \<Rightarrow> bool" where
  "vm_low it \<longleftrightarrow> vi_va it \<le> VA_LOWMAX"

definition vm_pa :: "ptmem \<Rightarrow> vmiter \<Rightarrow> u64" where
  "vm_pa m it =
     (if vm_entry m it AND PTE_P \<noteq> 0
      then let pa = vm_entry m it AND PTE_PAMASK;
               pa' = (if vi_level it > 0 then pa AND NOT 0x1000 else pa)
           in pa' + (vi_va it AND pageoffmask (vi_level it))
      else - 1)"

definition vm_perm :: "ptmem \<Rightarrow> vmiter \<Rightarrow> u64" where
  "vm_perm m it = (if vm_entry m it AND PTE_P \<noteq> 0 then vm_entry m it AND vi_perm it else 0)"

definition vm_has_perm :: "ptmem \<Rightarrow> vmiter \<Rightarrow> u64 \<Rightarrow> bool" where
  "vm_has_perm m it p \<longleftrightarrow> vm_entry m it AND vi_perm it AND p = p"

definition vm_present :: "ptmem \<Rightarrow> vmiter \<Rightarrow> bool" where
  "vm_present m it \<longleftrightarrow> vm_entry m it AND PTE_P \<noteq> 0"

definition vm_writable :: "ptmem \<Rightarrow> vmiter \<Rightarrow> bool" where
  "vm_writable m it \<longleftrightarrow> vm_has_perm m it (PTE_P OR PTE_W)"

definition vm_user :: "ptmem \<Rightarrow> vmiter \<Rightarrow> bool" where
  "vm_user m it \<longleftrightarrow> vm_has_perm m it (PTE_P OR PTE_U)"

definition vm_step :: "ptmem \<Rightarrow> vmiter \<Rightarrow> vmiter" where
  "vm_step m it = vm_real_find m it (vm_last_va it)"

definition vm_next :: "ptmem \<Rightarrow> vmiter \<Rightarrow> vmiter" where
  "vm_next m it =
     (let level = (if vi_level it > 0 \<and> vm_perm m it = 0 then vi_level it else 0)
      in vm_real_find m it ((vi_va it OR pageoffmask level) + 1))"

text \<open>\<open>check_range\<close>: the loop is bounded by fuel; \<open>None\<close> when it has not ended by then.\<close>

primrec check_range_loop :: "nat \<Rightarrow> ptmem \<Rightarrow> vmiter \<Rightarrow> u64 \<Rightarrow> u64 \<Rightarrow> bool option" where
  "check_range_loop 0 m it end1 perms = None"
| "check_range_loop (Suc fuel) m it end1 perms =
     (if vi_va it < end1
      then if vm_has_perm m it perms then check_range_loop fuel m (vm_step m it) end1 perms else Some False
      else Some True)"

definition check_range :: "nat \<Rightarrow> ptmem \<Rightarrow> vmiter \<Rightarrow> u64 \<Rightarrow> u64 \<Rightarrow> bool option" where
  "check_range fuel m it sz perms = check_range_loop fuel m it (vi_va it + sz) perms"

text \<open>
  \<open>map\<close>: the loop that adds page-table pages takes the results of \<open>kallocpage\<close>, as physical
  addresses, from a list (\<open>None\<close>, and the end of the list, is a failed allocation).
\<close>

definition vm_set :: "ptmem \<Rightarrow> vmiter \<Rightarrow> u64 \<Rightarrow> ptmem" where
  "vm_set m it pe = m(vi_page it := (m (vi_page it))(vi_index it := pe))"

primrec vm_map_loop :: "u64 option list \<Rightarrow> ptmem \<Rightarrow> vmiter \<Rightarrow> u64 \<Rightarrow> (ptmem \<times> vmiter \<times> bool) res" where
  "vm_map_loop [] m it perm =
     (if vi_level it > 0 \<and> perm \<noteq> 0
      then assert_then (vm_entry m it AND PTE_P = 0) (Inr (m, it, False)) else Inr (m, it, True))"
| "vm_map_loop (a # allocs) m it perm =
     (if vi_level it > 0 \<and> perm \<noteq> 0
      then assert_then (vm_entry m it AND PTE_P = 0)
        (case a of
           None \<Rightarrow> Inr (m, it, False)
         | Some pt \<Rightarrow>
             let m1 = m(pt := (\<lambda>_. 0));
                 m2 = vm_set m1 it (pt OR PTE_P OR PTE_W OR PTE_U)
             in vm_map_loop allocs m2 (vm_down m2 it) perm)
      else Inr (m, it, True))"

definition vm_map :: "u64 option list \<Rightarrow> ptmem \<Rightarrow> vmiter \<Rightarrow> u64 \<Rightarrow> u64 \<Rightarrow> (ptmem \<times> vmiter \<times> int) res" where
  "vm_map allocs m it pa perm =
     assert_then (vi_va it AND 0xFFF = 0)
      (assert_then (if perm AND PTE_P \<noteq> 0 then pa AND PTE_PAMASK = pa else pa AND PTE_P = 0)
      (assert_then (perm AND NOT (vi_perm it) AND (PTE_P OR PTE_W OR PTE_U) = 0)
      (rbind (vm_map_loop allocs m it perm) (\<lambda>(m1, it1, ok).
         if \<not> ok then Inr (m1, it1, - 1)
         else if vi_level it1 = 0 then Inr (vm_set m1 it1 (pa OR perm), it1, 0)
         else Inr (m1, it1, 0)))))"

section \<open>Where an iterator stands\<close>

text \<open>The position that a walk from the root reaches for an address.\<close>

definition vm_top :: "u64 \<Rightarrow> u64 \<Rightarrow> vmiter" where
  "vm_top pt va = \<lparr>vi_pt = pt, vi_page = pt, vi_index = pageindex va 3, vi_level = 3, vi_perm = initial_perm, vi_va = va\<rparr>"

definition vm_walk :: "ptmem \<Rightarrow> u64 \<Rightarrow> u64 \<Rightarrow> vmiter" where
  "vm_walk m pt va = vm_down m (vm_top pt va)"

text \<open>Moving a position to another address with the same indices above it.\<close>

definition vm_at :: "vmiter \<Rightarrow> u64 \<Rightarrow> vmiter" where
  "vm_at it va = it\<lparr>vi_index := pageindex va (vi_level it), vi_va := va\<rparr>"

definition same_above :: "nat \<Rightarrow> u64 \<Rightarrow> u64 \<Rightarrow> bool" where
  "same_above l va va' \<longleftrightarrow> (\<forall>j. l < j \<longrightarrow> j \<le> 3 \<longrightarrow> pageindex va j = pageindex va' j)"

lemma pageoffmask_mask: "pageoffmask l = mask (12 + l * 9)"
  by (simp add: pageoffmask_def mask_eq_decr_exp push_bit_eq_mult)

lemma pageindex_take: "pageindex va l = unat (take_bit 9 (drop_bit (12 + l * 9) va))"
proof -
  have "(0x1FF :: u64) = mask 9" by (simp add: mask_eq_exp_minus_1)
  then show ?thesis by (simp add: pageindex_def take_bit_eq_mask)
qed

lemma all_below_iff: "a \<le> b \<Longrightarrow> (\<forall>n. n < b \<longrightarrow> (n < a \<and> P n) = (n < a \<and> Q n)) \<longleftrightarrow> (\<forall>k < a. P k = Q k)" for a b :: nat
  by (meson less_le_trans)

lemma pageindex_eq_iff:
  assumes "l \<le> 3"
  shows "pageindex va l = pageindex va' l \<longleftrightarrow> (\<forall>n. 12 + l * 9 \<le> n \<and> n < 21 + l * 9 \<longrightarrow> bit va n = bit va' n)"
proof -
  have "pageindex va l = pageindex va' l \<longleftrightarrow> take_bit 9 (drop_bit (12 + l * 9) va) = take_bit 9 (drop_bit (12 + l * 9) va')"
    by (simp add: pageindex_take word_unat_eq_iff)
  also have "\<dots> \<longleftrightarrow> (\<forall>k < 9. bit va (12 + l * 9 + k) = bit va' (12 + l * 9 + k))"
    unfolding bit_eq_iff bit_take_bit_iff bit_drop_bit_eq possible_bit_word comp_def
    by (rule all_below_iff) simp
  also have "\<dots> \<longleftrightarrow> (\<forall>n. 12 + l * 9 \<le> n \<and> n < 21 + l * 9 \<longrightarrow> bit va n = bit va' n)"
  proof safe
    fix n assume "\<forall>k<9. bit va (12 + l * 9 + k) = bit va' (12 + l * 9 + k)" "12 + l * 9 \<le> n" "n < 21 + l * 9"
    from this(1)[rule_format, of "n - (12 + l * 9)"] this(2,3) show "bit va n \<Longrightarrow> bit va' n" "bit va' n \<Longrightarrow> bit va n" by simp_all
  qed auto
  finally show ?thesis .
qed

lemma xor_mask_zero:
  "(va XOR va') AND NOT (pageoffmask l) = 0 \<longleftrightarrow> (\<forall>n. 12 + l * 9 \<le> n \<longrightarrow> n < 64 \<longrightarrow> bit va n = bit (va' :: u64) n)"
  by (auto simp: pageoffmask_mask bit_eq_iff bit_and_iff bit_xor_iff bit_not_iff bit_mask_iff possible_bit_word)

lemma same_above_xor:
  assumes "(va XOR va') AND NOT (pageoffmask (Suc l)) = 0"
  shows "same_above l va va'"
  unfolding same_above_def
proof (intro allI impI)
  fix j assume j: "l < j" "j \<le> 3"
  have "bit va n = bit va' n" if "12 + j * 9 \<le> n" "n < 21 + j * 9" for n
    using assms j that unfolding xor_mask_zero by auto
  then show "pageindex va j = pageindex va' j" by (simp add: pageindex_eq_iff[OF j(2)])
qed

lemma vm_down_vi [simp]: "vi_va (vm_down m it) = vi_va it" "vi_pt (vm_down m it) = vi_pt it"
  by (induction m it rule: vm_down.induct; subst vm_down.simps; simp add: Let_def)+

lemma vm_down_level: "vi_level (vm_down m it) \<le> vi_level it"
proof (induction m it rule: vm_down.induct)
  case (1 m it)
  then show ?case by (subst vm_down.simps) (auto simp: Let_def)
qed

lemma vm_down_stop: "vi_level (vm_down m it) = 0 \<or> \<not> vm_table (vm_entry m (vm_down m it))"
proof (induction m it rule: vm_down.induct)
  case (1 m it)
  show ?case
  proof (cases "vi_level it > 0 \<and> vm_table (vm_entry m it)")
    case True
    then show ?thesis using 1[OF True refl] by (subst (1 2) vm_down.simps) (simp add: Let_def)
  next
    case False
    then show ?thesis by (subst (1 2) vm_down.simps) auto
  qed
qed

lemma vm_down_final: "vi_level it = 0 \<or> \<not> vm_table (vm_entry m it) \<Longrightarrow> vm_down m it = it"
  by (subst vm_down.simps) auto

lemma vm_down_at:
  assumes "same_above (vi_level (vm_down m it)) (vi_va it) va'" "vi_index it = pageindex (vi_va it) (vi_level it)" "vi_level it \<le> 3"
  shows "vm_down m (vm_at it va') = vm_down m (vm_at (vm_down m it) va')"
  using assms
proof (induction m it rule: vm_down.induct)
  case (1 m it)
  show ?case
  proof (cases "vi_level it > 0 \<and> vm_table (vm_entry m it)")
    case True
    let ?it = "it\<lparr>vi_perm := vi_perm it AND vm_entry m it, vi_level := vi_level it - 1,
        vi_page := vm_entry m it AND PTE_PAMASK, vi_index := pageindex (vi_va it) (vi_level it - 1)\<rparr>"
    have d: "vm_down m it = vm_down m ?it" using True by (subst vm_down.simps) (simp add: Let_def)
    have "vi_level (vm_down m it) < vi_level it" using True vm_down_level[of m ?it] d by auto
    then have idx: "pageindex va' (vi_level it) = vi_index it" using "1.prems" by (simp add: same_above_def)
    have e: "vm_entry m (vm_at it va') = vm_entry m it" by (simp add: vm_entry_def vm_at_def idx)
    have "vm_down m (vm_at it va') = vm_down m (vm_at ?it va')"
    proof -
      have "(vm_at it va')\<lparr>vi_perm := vi_perm it AND vm_entry m it, vi_level := vi_level it - 1,
        vi_page := vm_entry m it AND PTE_PAMASK, vi_index := pageindex va' (vi_level it - 1)\<rparr> = vm_at ?it va'"
        by (cases it) (simp add: vm_at_def)
      moreover have "vi_level (vm_at it va') = vi_level it" "vi_perm (vm_at it va') = vi_perm it" "vi_va (vm_at it va') = va'"
        by (simp_all add: vm_at_def)
      ultimately show ?thesis using True by (subst vm_down.simps) (simp add: Let_def e)
    qed
    also have "\<dots> = vm_down m (vm_at (vm_down m ?it) va')"
      by (rule "1.IH"[OF True refl]) (use "1.prems" d in auto)
    finally show ?thesis using d by simp
  next
    case False
    then show ?thesis by (simp add: vm_down_final[of it m])
  qed
qed

lemma vm_down_index:
  "vi_index it = pageindex (vi_va it) (vi_level it) \<Longrightarrow> vi_index (vm_down m it) = pageindex (vi_va it) (vi_level (vm_down m it))"
proof (induction m it rule: vm_down.induct)
  case (1 m it)
  show ?case
  proof (cases "vi_level it > 0 \<and> vm_table (vm_entry m it)")
    case True
    then show ?thesis using "1.IH"[OF True refl] by (subst (1 2) vm_down.simps) (simp add: Let_def)
  next
    case False
    then show ?thesis using "1.prems" by (subst (1 2) vm_down.simps) auto
  qed
qed

lemma vm_walk_index: "vi_index (vm_walk m pt va) = pageindex va (vi_level (vm_walk m pt va))"
  using vm_down_index[of "vm_top pt va" m] by (simp add: vm_walk_def vm_top_def)

lemma vm_walk_fields [simp]: "vi_va (vm_walk m pt va) = va" "vi_pt (vm_walk m pt va) = pt"
  by (simp_all add: vm_walk_def vm_top_def)

lemma vm_walk_level: "vi_level (vm_walk m pt va) \<le> 3"
  using vm_down_level[of m "vm_top pt va"] by (simp add: vm_walk_def vm_top_def)

lemma vm_walk_stop: "vi_level (vm_walk m pt va) = 0 \<or> \<not> vm_table (vm_entry m (vm_walk m pt va))"
  unfolding vm_walk_def by (rule vm_down_stop)

lemma vm_walk_at:
  assumes "same_above (vi_level (vm_walk m pt va)) va va'"
  shows "vm_walk m pt va' = vm_down m (vm_at (vm_walk m pt va) va')"
proof -
  have "vm_top pt va' = vm_at (vm_top pt va) va'" by (simp add: vm_top_def vm_at_def)
  then show ?thesis using assms unfolding vm_walk_def by (simp only:) (rule vm_down_at; simp add: vm_top_def)
qed

lemma vm_real_find_walk: "vm_real_find m (vm_walk m pt va) va' = vm_walk m pt va'"
proof (cases "(va XOR va') AND NOT (pageoffmask (vi_level (vm_walk m pt va) + 1)) = 0")
  case True
  then have "vm_walk m pt va' = vm_down m (vm_at (vm_walk m pt va) va')" by (intro vm_walk_at same_above_xor) simp
  then show ?thesis using True by (simp add: vm_real_find_def Let_def vm_at_def)
next
  case False
  have "(vm_walk m pt va)\<lparr>vi_level := 3, vi_page := pt, vi_index := pageindex va' 3, vi_perm := initial_perm, vi_va := va'\<rparr> = vm_top pt va'"
    by (rule vmiter.equality) (simp_all add: vm_top_def)
  then show ?thesis using False by (simp add: vm_real_find_def Let_def vm_walk_def[of m pt va'])
qed

lemma vmiter_new_walk: "vmiter_new m pt va = vm_walk m pt va"
proof (cases "(0 XOR va) AND NOT (pageoffmask 4) = 0")
  case True
  then show ?thesis by (simp add: vmiter_new_def vm_real_find_def Let_def vm_walk_def vm_top_def)
next
  case False
  then show ?thesis by (simp add: vmiter_new_def vm_real_find_def Let_def vm_walk_def vm_top_def)
qed

section \<open>Ranges\<close>

text \<open>Within the region of a position every address has the same entry and permissions.\<close>

lemma vm_walk_region:
  assumes "(va XOR va') AND NOT (pageoffmask (vi_level (vm_walk m pt va))) = 0"
  shows "vm_walk m pt va' = (vm_walk m pt va)\<lparr>vi_va := va'\<rparr>"
proof -
  let ?it = "vm_walk m pt va"
  have bits: "bit va n = bit va' n" if "12 + vi_level ?it * 9 \<le> n" "n < 64" for n using assms that unfolding xor_mask_zero by blast
  have "same_above (vi_level ?it) va va'"
    unfolding same_above_def
  proof (intro allI impI)
    fix j assume j: "vi_level ?it < j" "j \<le> 3"
    show "pageindex va j = pageindex va' j" unfolding pageindex_eq_iff[OF j(2)] using bits j by auto
  qed
  then have w: "vm_walk m pt va' = vm_down m (vm_at ?it va')" by (rule vm_walk_at)
  have "pageindex va (vi_level ?it) = pageindex va' (vi_level ?it)"
    unfolding pageindex_eq_iff[OF vm_walk_level] using bits vm_walk_level[of m pt va] by auto
  then have "vm_at ?it va' = ?it\<lparr>vi_va := va'\<rparr>" using vm_walk_index[of m pt va] by (simp add: vm_at_def)
  moreover have "vm_down m (?it\<lparr>vi_va := va'\<rparr>) = ?it\<lparr>vi_va := va'\<rparr>"
    by (rule vm_down_final) (use vm_walk_stop[of m pt va] in \<open>simp add: vm_entry_def\<close>)
  ultimately show ?thesis using w by simp
qed

lemma or_mask_div_mod: "(x OR mask k) div 2 ^ k = x div 2 ^ k" "(x OR mask k) mod 2 ^ k = 2 ^ k - 1" for x :: nat
proof -
  have "drop_bit k (x OR mask k) = drop_bit k x" by (simp add: drop_bit_or) (simp add: bit_eq_iff bit_or_iff bit_drop_bit_eq bit_mask_iff)
  then show "(x OR mask k) div 2 ^ k = x div 2 ^ k" by (simp add: drop_bit_eq_div)
  have "take_bit k (x OR mask k) = mask k" by (simp add: bit_eq_iff bit_or_iff bit_take_bit_iff bit_mask_iff) auto
  then show "(x OR mask k) mod 2 ^ k = 2 ^ k - 1" by (simp add: take_bit_eq_mod mask_eq_exp_minus_1)
qed

lemma unat_or_mask: "unat (va OR pageoffmask l) = unat va div 2 ^ (12 + l * 9) * 2 ^ (12 + l * 9) + (2 ^ (12 + l * 9) - 1)" if "l \<le> 3"
proof -
  have "unat (pageoffmask l) = mask (12 + l * 9)"
    using that by (simp add: pageoffmask_mask bit_eq_iff bit_unsigned_iff bit_mask_iff possible_bit_word) auto
  then have "unat (va OR pageoffmask l) = unat va OR mask (12 + l * 9)" by (simp add: unsigned_or_eq)
  then show ?thesis using or_mask_div_mod[of "unat va" "12 + l * 9"] div_mult_mod_eq[of "unat va OR mask (12 + l * 9)" "2 ^ (12 + l * 9)"] by simp
qed

lemma xor_mask_div: "unat va div 2 ^ (12 + l * 9) = unat va' div 2 ^ (12 + l * 9) \<Longrightarrow> (va XOR va') AND NOT (pageoffmask l) = 0"
  unfolding xor_mask_zero
proof (intro allI impI)
  fix n assume e: "unat va div 2 ^ (12 + l * 9) = unat va' div 2 ^ (12 + l * 9)" "12 + l * 9 \<le> n"
  have "bit x n = bit (unat x div 2 ^ (12 + l * 9)) (n - (12 + l * 9))" for x :: u64
    using e(2) by (simp add: drop_bit_eq_div[symmetric] bit_drop_bit_eq bit_unsigned_iff)
  then show "bit va n = bit va' n" using e(1) by metis
qed

text \<open>Below \<open>VA_LOWEND\<close> the next region starts above and not beyond \<open>VA_LOWEND\<close>, and everything before it is in this one.\<close>

lemma region_end:
  assumes va: "unat va < 2 ^ 47" and l: "l \<le> 3"
  defines "K \<equiv> 2 ^ (12 + l * 9)"
  shows "unat ((va OR pageoffmask l) + 1) = (unat va div K + 1) * K" "unat va < (unat va div K + 1) * K" "(unat va div K + 1) * K \<le> 2 ^ 47"
proof -
  have K: "K > 0" "K dvd 2 ^ 47" unfolding K_def by (simp, rule le_imp_power_dvd, use l in simp)
  then obtain c where c: "2 ^ 47 = K * c" by (auto elim: dvdE)
  have "unat va div K < c" using va c K by (simp add: less_mult_imp_div_less mult.commute)
  then have "(unat va div K + 1) * K \<le> c * K" by (intro mult_le_mono1) simp
  then show le: "(unat va div K + 1) * K \<le> 2 ^ 47" using c by (simp add: mult.commute)
  show "unat va < (unat va div K + 1) * K" using K(1) by (simp add: dividend_less_div_times)
  have u: "unat (va OR pageoffmask l) + 1 = (unat va div K + 1) * K" using unat_or_mask[OF l, of va] K(1) by (simp add: K_def)
  then show "unat ((va OR pageoffmask l) + 1) = (unat va div K + 1) * K" using le by (simp add: unat_word_ariths(1) mod_less)
qed

lemma check_range_loop_ok:
  assumes "unat e \<le> 2 ^ 47" "unat e - unat va < fuel"
  shows "check_range_loop fuel m (vm_walk m pt va) e perms = Some (\<forall>a. va \<le> a \<and> a < e \<longrightarrow> vm_has_perm m (vm_walk m pt a) perms)"
  using assms
proof (induction fuel arbitrary: va)
  case (Suc fuel)
  let ?it = "vm_walk m pt va" and ?l = "vi_level (vm_walk m pt va)"
  let ?K = "2 ^ (12 + ?l * 9) :: nat"
  show ?case
  proof (cases "va < e")
    case True
    then have v: "unat va < 2 ^ 47" using Suc.prems(1) by (simp add: word_less_nat_alt)
    note r = region_end[OF v vm_walk_level[of m pt va]]
    let ?n = "vm_last_va ?it"
    have n: "unat ?n = (unat va div ?K + 1) * ?K" using r(1) by (simp add: vm_last_va_def)
    have same: "vm_has_perm m (vm_walk m pt a) perms = vm_has_perm m ?it perms" if "va \<le> a" "a < ?n" for a
    proof -
      have "unat va div ?K = unat a div ?K"
      proof (rule antisym)
        show "unat va div ?K \<le> unat a div ?K" using that by (intro div_le_mono) (simp add: word_le_nat_alt)
        have "unat a < (unat va div ?K + 1) * ?K" using that n by (simp add: word_less_nat_alt)
        then have "unat a div ?K < unat va div ?K + 1" by (rule less_mult_imp_div_less)
        then show "unat a div ?K \<le> unat va div ?K" by simp
      qed
      then have "vm_walk m pt a = ?it\<lparr>vi_va := a\<rparr>" by (intro vm_walk_region xor_mask_div)
      then show ?thesis by (simp add: vm_has_perm_def vm_entry_def)
    qed
    show ?thesis
    proof (cases "vm_has_perm m ?it perms")
      case perm: True
      have step: "vm_step m ?it = vm_walk m pt ?n" by (simp add: vm_step_def vm_real_find_walk)
      have "unat e - unat ?n < fuel" using Suc.prems(2) r(2) n True by (simp add: word_less_nat_alt)
      note IH = Suc.IH[OF Suc.prems(1) this]
      have "va \<le> ?n" using r(2) n by (simp add: word_le_nat_alt)
      then have "(\<forall>a. va \<le> a \<and> a < e \<longrightarrow> vm_has_perm m (vm_walk m pt a) perms) \<longleftrightarrow> (\<forall>a. ?n \<le> a \<and> a < e \<longrightarrow> vm_has_perm m (vm_walk m pt a) perms)"
        using perm same by (meson le_less_linear order_trans)
      then show ?thesis using True perm step IH by simp
    next
      case False
      then show ?thesis using True by auto
    qed
  qed auto
qed simp

section \<open>Validation of user memory\<close>

text \<open>
  \<open>validate_memory\<close> of \<open>kernel.cc\<close> for the page table \<open>pt\<close> of the current process.  The range is
  only looked at when it ends at or below \<open>VA_LOWEND\<close>, where one turn per byte is enough.
\<close>

definition validate_memory :: "ptmem \<Rightarrow> u64 \<Rightarrow> u64 \<Rightarrow> u64 \<Rightarrow> u64 \<Rightarrow> bool" where
  "validate_memory m pt addr sz perms \<longleftrightarrow>
     \<not> (addr = 0 \<or> addr + sz > VA_LOWEND \<or> addr > VA_HIGHMAX - sz
        \<or> (if sz > 0 then check_range (unat sz + 1) m (vmiter_new m pt addr) sz perms \<noteq> Some True else False))"

text \<open>The bytes of the process's memory are an argument.\<close>

function check_string_loop :: "ptmem \<Rightarrow> u64 \<Rightarrow> (u64 \<Rightarrow> u8) \<Rightarrow> u64 \<Rightarrow> nat \<Rightarrow> nat \<Rightarrow> int" where
  "check_string_loop m pt mem str i max_len =
     (if i < max_len
      then if \<not> validate_memory m pt (str + of_nat i) 1 (PTE_P OR PTE_U) then E_FAULT
           else if mem (str + of_nat i) = 0 then int i
           else check_string_loop m pt mem str (i + 1) max_len
      else E_INVAL)"
  by pat_completeness auto
termination by (relation "measure (\<lambda>(m, pt, mem, str, i, max_len). max_len - i)") auto

declare check_string_loop.simps [simp del]

definition check_string_termination :: "ptmem \<Rightarrow> u64 \<Rightarrow> (u64 \<Rightarrow> u8) \<Rightarrow> u64 \<Rightarrow> nat \<Rightarrow> int" where
  "check_string_termination m pt mem str max_len = (if str = 0 then E_FAULT else check_string_loop m pt mem str 0 max_len)"

lemma range_no_wrap: "\<not> (addr + sz > VA_LOWEND \<or> addr > VA_HIGHMAX - sz) \<longleftrightarrow> unat addr + unat sz \<le> 2 ^ 47"
proof -
  have s: "unat (VA_HIGHMAX - sz) = 2 ^ 64 - 1 - unat sz"
    using unat_sub_if'[of VA_HIGHMAX sz] u64_bound[of sz] by (simp add: word_le_nat_alt)
  have a: "unat (addr + sz) = (unat addr + unat sz) mod 2 ^ 64" by (simp add: unat_word_ariths(1))
  have "addr > VA_HIGHMAX - sz \<longleftrightarrow> 2 ^ 64 \<le> unat addr + unat sz"
    unfolding word_less_nat_alt s using u64_bound[of addr] u64_bound[of sz] by auto
  moreover have "addr + sz > VA_LOWEND \<longleftrightarrow> 2 ^ 47 < (unat addr + unat sz) mod 2 ^ 64" unfolding word_less_nat_alt a by simp
  ultimately show ?thesis by (cases "unat addr + unat sz < 2 ^ 64") auto
qed

lemma validate_memory_iff:
  "validate_memory m pt addr sz perms \<longleftrightarrow>
     addr \<noteq> 0 \<and> unat addr + unat sz \<le> 2 ^ 47 \<and> (\<forall>i < unat sz. vm_has_perm m (vm_walk m pt (addr + of_nat i)) perms)"
proof (cases "unat addr + unat sz \<le> 2 ^ 47")
  case True
  have e: "unat (addr + sz) = unat addr + unat sz" using True by (simp add: unat_word_ariths(1))
  have "check_range (unat sz + 1) m (vmiter_new m pt addr) sz perms =
      Some (\<forall>a. addr \<le> a \<and> a < addr + sz \<longrightarrow> vm_has_perm m (vm_walk m pt a) perms)"
    unfolding check_range_def vmiter_new_walk vm_walk_fields by (rule check_range_loop_ok) (use True e in simp_all)
  moreover have "(\<forall>a. addr \<le> a \<and> a < addr + sz \<longrightarrow> vm_has_perm m (vm_walk m pt a) perms) \<longleftrightarrow>
      (\<forall>i < unat sz. vm_has_perm m (vm_walk m pt (addr + of_nat i)) perms)"
  proof (intro iffI allI impI)
    fix i assume h: "\<forall>a. addr \<le> a \<and> a < addr + sz \<longrightarrow> vm_has_perm m (vm_walk m pt a) perms" and i: "i < unat sz"
    have "i < 2 ^ 64" using i u64_bound[of sz] by simp
    then have "unat (addr + of_nat i) = unat addr + i" using i True by (simp add: unat_word_ariths(1) unsigned_of_nat take_bit_nat_eq_self)
    then show "vm_has_perm m (vm_walk m pt (addr + of_nat i)) perms" using h i e by (simp add: word_le_nat_alt word_less_nat_alt)
  next
    fix a assume h: "\<forall>i < unat sz. vm_has_perm m (vm_walk m pt (addr + of_nat i)) perms" and a: "addr \<le> a \<and> a < addr + sz"
    then have "unat a - unat addr < unat sz" using e by (auto simp: word_le_nat_alt word_less_nat_alt)
    moreover have "addr + of_nat (unat a - unat addr) = a" using a by (simp add: word_le_nat_alt of_nat_diff)
    ultimately show "vm_has_perm m (vm_walk m pt a) perms" using h by metis
  qed
  moreover have "unat sz = 0" if "\<not> sz > 0" using that by (simp add: word_less_nat_alt)
  ultimately show ?thesis using True range_no_wrap[of addr sz] by (auto simp: validate_memory_def)
next
  case False
  then show ?thesis using range_no_wrap[of addr sz] by (auto simp: validate_memory_def)
qed

end
