(* ===== verification/Vfs.thy ===== *)
theory Vfs
  imports Pipe Vmiter
begin

text \<open>
  Open files: the \<open>file\<close>, \<open>vnode\<close> and \<open>fdtable\<close> objects of \<open>k-vfs.hh\<close> with their reference counts, and
  the system calls of \<open>kernel.cc\<close> that work on descriptors.  Objects live in stores indexed by their
  address; reading an address that holds no object is \<open>Use_After_Free\<close>.  A call holds the locks of the
  table and of the file while it works on them, so each of the steps below is atomic; \<open>read\<close> and
  \<open>write\<close> are split where the code lets go of the table and only keeps a reference to the file.
  The results of \<open>knew\<close> are arguments: an address, or \<open>None\<close> when memory is short.
\<close>

section \<open>State\<close>

abbreviation NFDS :: nat where "NFDS \<equiv> 256"

datatype file_type = normie | pipe_file | directory | stream

record kfile =
  f_type :: file_type
  f_readable :: bool
  f_writeable :: bool
  f_vnode :: nat
  f_refs :: int
  f_off :: u64

datatype vnode_class = VN_kbc | VN_pipe | VN_memfile nat | VN_inode nat

record vnode =
  v_class :: vnode_class
  v_bb :: "bbuffer option"
  v_refs :: int

type_synonym fdtable = "nat option list"

text \<open>\<open>vf_calls\<close> lists the files that a \<open>read\<close> or \<open>write\<close> in progress holds a reference to.\<close>

record vfs =
  vf_files :: "nat \<Rightarrow> kfile option"
  vf_nodes :: "nat \<Rightarrow> vnode option"
  vf_tables :: "fdtable list"
  vf_calls :: "nat list"

definition with_file :: "vfs \<Rightarrow> nat \<Rightarrow> (kfile \<Rightarrow> 'a res) \<Rightarrow> 'a res" where
  "with_file st f k = (case vf_files st f of None \<Rightarrow> Inl Use_After_Free | Some fl \<Rightarrow> k fl)"

definition set_file :: "vfs \<Rightarrow> nat \<Rightarrow> kfile \<Rightarrow> vfs" where
  "set_file st f fl = st\<lparr>vf_files := (vf_files st)(f \<mapsto> fl)\<rparr>"

definition set_fd :: "vfs \<Rightarrow> nat \<Rightarrow> nat \<Rightarrow> nat option \<Rightarrow> vfs" where
  "set_fd st t fd x = st\<lparr>vf_tables := (vf_tables st)[t := (vf_tables st ! t)[fd := x]]\<rparr>"

section \<open>Reference counts\<close>

text \<open>\<open>file::~file\<close> and the \<open>kfree\<close> of the file.\<close>

definition close_bb :: "kfile \<Rightarrow> vnode \<Rightarrow> bbuffer option" where
  "close_bb fl vn = (if f_type fl = pipe_file
     then map_option (\<lambda>bb. fst (pipe_close bb (f_readable fl) (f_writeable fl))) (v_bb vn) else v_bb vn)"

definition file_delete :: "vfs \<Rightarrow> nat \<Rightarrow> kfile \<Rightarrow> vfs res" where
  "file_delete st f fl =
     (case vf_nodes st (f_vnode fl) of
        None \<Rightarrow> Inl Use_After_Free
      | Some vn \<Rightarrow>
          assert_then (v_refs vn - 1 \<ge> 0)
            (let vn' = vn\<lparr>v_refs := v_refs vn - 1, v_bb := close_bb fl vn\<rparr>
             in Inr (st\<lparr>vf_nodes := (vf_nodes st)(f_vnode fl := (if v_refs vn' = 0 then None else Some vn')),
                        vf_files := (vf_files st)(f := None)\<rparr>)))"

definition file_deref :: "vfs \<Rightarrow> nat \<Rightarrow> vfs res" where
  "file_deref st f =
     with_file st f (\<lambda>fl.
       assert_then (f_refs fl - 1 \<ge> 0)
         (if f_refs fl - 1 = 0 then file_delete st f fl
          else Inr (set_file st f (fl\<lparr>f_refs := f_refs fl - 1\<rparr>))))"

section \<open>System calls on descriptors\<close>

definition bad_fd :: "vfs \<Rightarrow> nat \<Rightarrow> int \<Rightarrow> bool" where
  "bad_fd st t fd \<longleftrightarrow> fd < 0 \<or> fd \<ge> int NFDS \<or> vf_tables st ! t ! nat fd = None"

definition validate_fd :: "vfs \<Rightarrow> nat \<Rightarrow> int \<Rightarrow> int" where
  "validate_fd st t fd = (if bad_fd st t fd then E_BADF else 0)"

definition sys_close :: "vfs \<Rightarrow> nat \<Rightarrow> int \<Rightarrow> (vfs \<times> int) res" where
  "sys_close st t fd =
     (if bad_fd st t fd then Inr (st, E_BADF)
      else rbind (file_deref st (the (vf_tables st ! t ! nat fd))) (\<lambda>st'. Inr (set_fd st' t (nat fd) None, 0)))"

definition sys_dup2 :: "vfs \<Rightarrow> nat \<Rightarrow> int \<Rightarrow> int \<Rightarrow> (vfs \<times> int) res" where
  "sys_dup2 st t oldfd newfd =
     (if oldfd < 0 \<or> newfd < 0 \<or> oldfd \<ge> int NFDS \<or> newfd \<ge> int NFDS \<or> vf_tables st ! t ! nat oldfd = None
      then Inr (st, E_BADF)
      else rbind (case vf_tables st ! t ! nat newfd of None \<Rightarrow> Inr st | Some f \<Rightarrow> file_deref st f) (\<lambda>st1.
           let st2 = set_fd st1 t (nat newfd) (vf_tables st1 ! t ! nat oldfd);
               f = the (vf_tables st2 ! t ! nat oldfd)
           in with_file st2 f (\<lambda>fl. Inr (set_file st2 f (fl\<lparr>f_refs := f_refs fl + 1\<rparr>), 0))))"

text \<open>The search loop of \<open>SYSCALL_PIPE\<close>: the first free descriptor, then the next one.\<close>

fun pipe_fds :: "fdtable \<Rightarrow> nat \<Rightarrow> nat option \<Rightarrow> nat option \<times> nat option" where
  "pipe_fds [] i rfd = (rfd, None)"
| "pipe_fds (x # fds) i rfd =
     (if x = None then (case rfd of None \<Rightarrow> pipe_fds fds (i + 1) (Some i) | Some r \<Rightarrow> (Some r, Some i))
      else pipe_fds fds (i + 1) rfd)"

text \<open>The members that the constructors \<open>file()\<close>, \<open>vnode()\<close> set.\<close>

definition new_file :: "file_type \<Rightarrow> bool \<Rightarrow> bool \<Rightarrow> nat \<Rightarrow> kfile" where
  "new_file ty r w v = \<lparr>f_type = ty, f_readable = r, f_writeable = w, f_vnode = v, f_refs = 1, f_off = 0\<rparr>"

text \<open>
  When an allocation fails, \<open>kdelete\<close> runs the destructor of a file that was allocated, and the
  destructor reads \<open>vnode_\<close>, which no constructor has set.
\<close>

definition sys_pipe :: "vfs \<Rightarrow> nat \<Rightarrow> nat option \<Rightarrow> nat option \<Rightarrow> nat option \<Rightarrow> nat option \<Rightarrow> (vfs \<times> u64) res" where
  "sys_pipe st t rfile wfile pipe_vnode bb =
     (case pipe_fds (vf_tables st ! t) 0 None of
        (Some rfd, Some wfd) \<Rightarrow>
          (case (rfile, wfile, pipe_vnode, bb) of
             (Some r1, Some w1, Some v, Some _) \<Rightarrow>
               (let st1 = set_fd (set_fd st t rfd (Some r1)) t wfd (Some w1);
                    st2 = set_file (set_file st1 r1 (new_file pipe_file True False v)) w1 (new_file pipe_file False True v)
                in Inr (st2\<lparr>vf_nodes := (vf_nodes st2)(v \<mapsto> \<lparr>v_class = VN_pipe, v_bb = Some bbuffer_new, v_refs = 2\<rparr>)\<rparr>,
                        of_nat rfd OR push_bit 32 (of_nat wfd)))
           | _ \<Rightarrow> if rfile \<noteq> None \<or> wfile \<noteq> None then Inl Uninit_Read
                  else Inr (set_fd (set_fd st t rfd None) t wfd None, of_int E_NOMEM))
      | _ \<Rightarrow> Inr (st, of_int E_NFILE))"

text \<open>
  \<open>SYSCALL_LSEEK\<close>; \<open>isize\<close> is the file system's size of an inode.  The base class's \<open>vnode::size\<close>
  returns \<open>E_PERM\<close> as a size.
\<close>

definition vnode_size :: "(nat \<Rightarrow> u32) \<Rightarrow> vnode \<Rightarrow> u64" where
  "vnode_size isize vn = (case v_class vn of VN_inode i \<Rightarrow> ucast (isize i) | _ \<Rightarrow> - 1)"

definition seek_to :: "vfs \<Rightarrow> nat \<Rightarrow> kfile \<Rightarrow> u64 \<Rightarrow> vfs \<times> u64" where
  "seek_to st f fl new_off = (let off = (if sint new_off < 0 then 0 else new_off) in (set_file st f (fl\<lparr>f_off := off\<rparr>), off))"

definition sys_lseek :: "(nat \<Rightarrow> u32) \<Rightarrow> vfs \<Rightarrow> nat \<Rightarrow> int \<Rightarrow> u64 \<Rightarrow> int \<Rightarrow> (vfs \<times> u64) res" where
  "sys_lseek isize st t fd off origin =
     (if validate_fd st t fd < 0 then Inr (st, of_int (validate_fd st t fd))
      else (let f = the (vf_tables st ! t ! nat fd)
            in with_file st f (\<lambda>fl.
                 if f_type fl \<noteq> normie then Inr (st, of_int E_SPIPE)
                 else if origin = 0 then Inr (seek_to st f fl off)
                 else if origin = 1 then Inr (seek_to st f fl (f_off fl + off))
                 else if origin = 2 \<or> origin = 3 then
                   (case vf_nodes st (f_vnode fl) of
                      None \<Rightarrow> Inl Use_After_Free
                    | Some vn \<Rightarrow> if origin = 2 then Inr (seek_to st f fl (vnode_size isize vn + off))
                                 else Inr (st, vnode_size isize vn))
                 else Inr (st, of_int E_INVAL))))"

section \<open>Reading and writing\<close>

text \<open>
  The checks before the transfer: \<open>Rw_error\<close> is returned at once, \<open>Rw_go\<close> continues with the file,
  whose reference count has been raised.  \<open>check\<close> is \<open>vmiter::check_range\<close> of the caller's page table.
\<close>

datatype rw_begin_out = Rw_error int | Rw_go nat

definition rw_begin :: "(u64 \<Rightarrow> u64 \<Rightarrow> bool \<Rightarrow> bool) \<Rightarrow> vfs \<Rightarrow> nat \<Rightarrow> bool \<Rightarrow> int \<Rightarrow> u64 \<Rightarrow> u64 \<Rightarrow> (vfs \<times> rw_begin_out) res" where
  "rw_begin check st t rd fd addr sz =
     (if bad_fd st t fd then Inr (st, Rw_error E_BADF)
      else (let f = the (vf_tables st ! t ! nat fd)
            in with_file st f (\<lambda>fl.
                 if rd \<and> \<not> f_readable fl \<or> \<not> rd \<and> \<not> f_writeable fl then Inr (st, Rw_error E_BADF)
                 else if sz = 0 then Inr (st, Rw_error 0)
                 else if addr + sz > VA_LOWEND \<or> addr > VA_HIGHMAX - sz \<or> \<not> check addr sz rd then Inr (st, Rw_error E_FAULT)
                 else Inr ((set_file st f (fl\<lparr>f_refs := f_refs fl + 1\<rparr>))\<lparr>vf_calls := f # vf_calls st\<rparr>, Rw_go f))))"

definition rw_end :: "vfs \<Rightarrow> nat \<Rightarrow> vfs res" where
  "rw_end st f = file_deref (st\<lparr>vf_calls := remove1 f (vf_calls st)\<rparr>) f"

text \<open>The virtual call for a pipe: the transfer between the buffer of the vnode and \<open>data\<close>.\<close>

definition pipe_transfer :: "vfs \<Rightarrow> nat \<Rightarrow> (bbuffer \<Rightarrow> (bbuffer \<times> pipe_out) res) \<Rightarrow> (vfs \<times> pipe_out) res" where
  "pipe_transfer st f op =
     with_file st f (\<lambda>fl.
       case vf_nodes st (f_vnode fl) of
         None \<Rightarrow> Inl Use_After_Free
       | Some vn \<Rightarrow> (case v_bb vn of
            None \<Rightarrow> Inl Null_Deref
          | Some bb \<Rightarrow> rbind (op bb) (\<lambda>(bb', out).
              Inr (st\<lparr>vf_nodes := (vf_nodes st)(f_vnode fl \<mapsto> vn\<lparr>v_bb := Some bb'\<rparr>)\<rparr>, out))))"

section \<open>Tables of whole processes\<close>

text \<open>\<open>process_exit\<close> drops the reference of every descriptor and leaves the pointers in the table.\<close>

primrec deref_all :: "nat list \<Rightarrow> vfs \<Rightarrow> vfs res" where
  "deref_all [] st = Inr st"
| "deref_all (f # fs) st = rbind (file_deref st f) (deref_all fs)"

definition exit_fds :: "vfs \<Rightarrow> nat \<Rightarrow> vfs res" where
  "exit_fds st t = deref_all (map the (filter (\<lambda>x. x \<noteq> None) (vf_tables st ! t))) st"

text \<open>\<open>process_fork\<close> clones the descriptors up to the first unused one; it also raises the count of each vnode.\<close>

definition clone_fd :: "vfs \<Rightarrow> nat \<Rightarrow> vfs res" where
  "clone_fd st f =
     with_file st f (\<lambda>fl.
       case vf_nodes st (f_vnode fl) of
         None \<Rightarrow> Inl Use_After_Free
       | Some vn \<Rightarrow> Inr ((set_file st f (fl\<lparr>f_refs := f_refs fl + 1\<rparr>))
                            \<lparr>vf_nodes := (vf_nodes st)(f_vnode fl \<mapsto> vn\<lparr>v_refs := v_refs vn + 1\<rparr>)\<rparr>))"

primrec clone_all :: "nat list \<Rightarrow> vfs \<Rightarrow> vfs res" where
  "clone_all [] st = Inr st"
| "clone_all (f # fs) st = rbind (clone_fd st f) (clone_all fs)"

definition fork_fds :: "vfs \<Rightarrow> nat \<Rightarrow> (vfs \<times> nat) res" where
  "fork_fds st t =
     (let shared = takeWhile (\<lambda>x. x \<noteq> None) (vf_tables st ! t)
      in rbind (clone_all (map the shared) st) (\<lambda>st'.
           Inr (st'\<lparr>vf_tables := vf_tables st' @ [shared @ replicate (NFDS - length shared) None]\<rparr>, length (vf_tables st'))))"

text \<open>\<open>process_setup\<close>: descriptors 0 to 2 share one file on the keyboard and console.\<close>

definition setup_fds :: "vfs \<Rightarrow> nat \<Rightarrow> nat \<Rightarrow> vfs \<times> nat" where
  "setup_fds st f v =
     (st\<lparr>vf_files := (vf_files st)(f \<mapsto> (new_file stream True True v)\<lparr>f_refs := 3\<rparr>),
         vf_nodes := (vf_nodes st)(v \<mapsto> \<lparr>v_class = VN_kbc, v_bb = None, v_refs = 1\<rparr>),
         vf_tables := vf_tables st @ [[Some f, Some f, Some f] @ replicate (NFDS - 3) None]\<rparr>,
      length (vf_tables st))"

end
