(* ===== verification/Vfs_Correct.thy ===== *)
theory Vfs_Correct
  imports Vfs
begin

text \<open>
  The reference counts of open files.  The invariant says that every file counts exactly the descriptors and
  the calls in progress that refer to it and that every vnode outlives the files on it; every operation of
  \<open>Vfs\<close> keeps it, and from it no call on a descriptor can touch a freed object.  The transition relation
  \<open>vfs_step\<close> interleaves the calls of all processes.
\<close>

section \<open>The invariant\<close>

text \<open>
  \<open>vfs_inv R\<close>: every file that exists has as many references as \<open>R\<close> says, at least one, and an existing
  vnode; every vnode counts at least the files that refer to it.
\<close>

definition node_files :: "vfs \<Rightarrow> nat \<Rightarrow> nat set" where
  "node_files st v = {f. \<exists>fl. vf_files st f = Some fl \<and> f_vnode fl = v}"

definition vfs_inv :: "(nat \<Rightarrow> nat) \<Rightarrow> vfs \<Rightarrow> bool" where
  "vfs_inv R st \<longleftrightarrow> finite (dom (vf_files st))
     \<and> (\<forall>f. vf_files st f = None \<longrightarrow> R f = 0)
     \<and> (\<forall>f fl. vf_files st f = Some fl \<longrightarrow> f_refs fl = int (R f) \<and> 0 < R f \<and> vf_nodes st (f_vnode fl) \<noteq> None)
     \<and> (\<forall>v vn. vf_nodes st v = Some vn \<longrightarrow> 0 < v_refs vn \<and> int (card (node_files st v)) \<le> v_refs vn)"

lemma vfs_invD:
  assumes "vfs_inv R st"
  shows "finite (dom (vf_files st))" "vf_files st f = None \<Longrightarrow> R f = 0"
    "vf_files st f = Some fl \<Longrightarrow> f_refs fl = int (R f) \<and> 0 < R f \<and> (\<exists>vn. vf_nodes st (f_vnode fl) = Some vn)"
    "vf_nodes st v = Some vn \<Longrightarrow> 0 < v_refs vn \<and> int (card (node_files st v)) \<le> v_refs vn"
    "finite (node_files st v)"
proof -
  have "node_files st v \<subseteq> dom (vf_files st)" by (auto simp: node_files_def)
  then show "finite (node_files st v)" using assms finite_subset by (auto simp: vfs_inv_def)
qed (use assms in \<open>auto simp: vfs_inv_def\<close>)

lemma vfs_inv_file: "vfs_inv R st \<Longrightarrow> 0 < R f \<Longrightarrow> \<exists>fl. vf_files st f = Some fl"
  by (cases "vf_files st f") (auto dest: vfs_invD(2))

text \<open>Changing the fields of a file other than its vnode leaves the files of every vnode alone.\<close>

lemma node_files_set_file:
  "vf_files st f = Some fl \<Longrightarrow> f_vnode fl' = f_vnode fl \<Longrightarrow> node_files (set_file st f fl') v = node_files st v"
  by (auto simp: node_files_def set_file_def split: if_splits)

lemma set_refs_inv:
  assumes inv: "vfs_inv R st" and f: "vf_files st f = Some fl" and k: "0 < k"
  shows "vfs_inv (R(f := k)) (set_file st f (fl\<lparr>f_refs := int k\<rparr>))"
proof -
  have nf: "node_files (set_file st f (fl\<lparr>f_refs := int k\<rparr>)) v = node_files st v" for v
    using f by (rule node_files_set_file) simp
  show ?thesis using inv f k unfolding vfs_inv_def nf by (auto simp: set_file_def)
qed

lemma file_delete_inv:
  assumes inv: "vfs_inv R st" and f: "vf_files st f = Some fl"
  shows "\<exists>st'. file_delete st f fl = Inr st' \<and> vfs_inv (R(f := 0)) st' \<and> vf_tables st' = vf_tables st \<and> vf_calls st' = vf_calls st"
proof -
  let ?v = "f_vnode fl"
  obtain vn where vn: "vf_nodes st ?v = Some vn" using vfs_invD(3)[OF inv f] by blast
  note n = vfs_invD(4)[OF inv vn]
  define st' where "st' = st\<lparr>vf_nodes := (vf_nodes st)(?v := (if v_refs vn - 1 = 0 then None else Some (vn\<lparr>v_refs := v_refs vn - 1, v_bb := close_bb fl vn\<rparr>))),
      vf_files := (vf_files st)(f := None)\<rparr>"
  have run: "file_delete st f fl = Inr st'" using n vn by (simp add: file_delete_def st'_def Let_def)
  have fin: "f \<in> node_files st ?v" using f by (simp add: node_files_def)
  have nf: "node_files st' v = node_files st v - {f}" for v by (auto simp: node_files_def st'_def)
  have "0 < card (node_files st ?v)" using fin vfs_invD(5)[OF inv, of ?v] by (auto simp: card_gt_0_iff)
  then have card: "int (card (node_files st' ?v)) \<le> v_refs vn - 1"
    using n fin vfs_invD(5)[OF inv, of ?v] by (simp add: nf card_Diff_singleton of_nat_diff)
  have "f' \<notin> node_files st ?v" if "v_refs vn - 1 = 0" "f' \<noteq> f" for f'
    using card that vfs_invD(5)[OF inv, of ?v] by (auto simp: nf)
  then have alive: "\<exists>vn'. vf_nodes st' (f_vnode fl') = Some vn'" if "vf_files st' f' = Some fl'" for f' fl'
    using that vfs_invD(3)[OF inv, of f' fl'] by (auto simp: st'_def node_files_def split: if_splits)
  have nodes: "0 < v_refs vn' \<and> int (card (node_files st' v)) \<le> v_refs vn'" if "vf_nodes st' v = Some vn'" for v vn'
  proof (cases "v = ?v")
    case True
    then show ?thesis using that card n by (auto simp: st'_def split: if_splits)
  next
    case False
    then have "vf_nodes st v = Some vn'" using that by (simp add: st'_def)
    then have o: "0 < v_refs vn' \<and> int (card (node_files st v)) \<le> v_refs vn'" by (rule vfs_invD(4)[OF inv])
    have "card (node_files st' v) \<le> card (node_files st v)" unfolding nf by (rule card_mono) (use vfs_invD(5)[OF inv] in auto)
    then show ?thesis using o by linarith
  qed
  have "vfs_inv (R(f := 0)) st'"
    unfolding vfs_inv_def using alive nodes vfs_invD(1-3)[OF inv] by (auto simp: st'_def)
  then show ?thesis using run by (auto simp: st'_def)
qed

lemma file_deref_inv:
  assumes inv: "vfs_inv R st" and f: "0 < R f"
  shows "\<exists>st'. file_deref st f = Inr st' \<and> vfs_inv (R(f := R f - 1)) st' \<and> vf_tables st' = vf_tables st \<and> vf_calls st' = vf_calls st"
proof -
  obtain fl where fl: "vf_files st f = Some fl" using vfs_inv_file[OF inv f] by blast
  have r: "f_refs fl = int (R f)" using vfs_invD(3)[OF inv fl] by blast
  show ?thesis
  proof (cases "R f = 1")
    case True
    then show ?thesis using file_delete_inv[OF inv fl] fl r by (simp add: file_deref_def with_file_def)
  next
    case False
    then have "vfs_inv (R(f := R f - 1)) (set_file st f (fl\<lparr>f_refs := int (R f - 1)\<rparr>))" using f by (intro set_refs_inv[OF inv fl]) simp
    then show ?thesis using fl r f False by (simp add: file_deref_def with_file_def set_file_def of_nat_diff)
  qed
qed

lemma file_ref_inv:
  assumes inv: "vfs_inv R st" and fl: "vf_files st f = Some fl"
  shows "vfs_inv (R(f := R f + 1)) (set_file st f (fl\<lparr>f_refs := f_refs fl + 1\<rparr>))"
  using set_refs_inv[OF inv fl, of "R f + 1"] vfs_invD(3)[OF inv fl] by (simp add: add.commute)

lemma deref_all_inv:
  "vfs_inv R st \<Longrightarrow> (\<And>f. count_list fs f \<le> R f) \<Longrightarrow>
   \<exists>st'. deref_all fs st = Inr st' \<and> vfs_inv (\<lambda>f. R f - count_list fs f) st' \<and> vf_tables st' = vf_tables st \<and> vf_calls st' = vf_calls st"
proof (induction fs arbitrary: R st)
  case (Cons f fs)
  have "0 < R f" using Cons.prems(2)[of f] by simp
  then obtain st1 where st1: "file_deref st f = Inr st1" "vfs_inv (R(f := R f - 1)) st1" "vf_tables st1 = vf_tables st" "vf_calls st1 = vf_calls st"
    using file_deref_inv[OF Cons.prems(1)] by blast
  have "count_list fs f' \<le> (R(f := R f - 1)) f'" for f' using Cons.prems(2)[of f'] by (auto split: if_splits)
  moreover have "(\<lambda>f'. (R(f := R f - 1)) f' - count_list fs f') = (\<lambda>f'. R f' - count_list (f # fs) f')" by auto
  ultimately show ?case using Cons.IH[OF st1(2)] st1 by simp
qed simp

lemma vfs_inv_fields [simp]:
  "vfs_inv R (st\<lparr>vf_tables := ts\<rparr>) = vfs_inv R st" "vfs_inv R (st\<lparr>vf_calls := cs\<rparr>) = vfs_inv R st"
  by (simp_all add: vfs_inv_def node_files_def)

lemma node_update_inv:
  assumes inv: "vfs_inv R st" and v: "vf_nodes st v = Some vn" and le: "v_refs vn \<le> v_refs vn'"
  shows "vfs_inv R (st\<lparr>vf_nodes := (vf_nodes st)(v \<mapsto> vn')\<rparr>)"
proof -
  let ?st = "st\<lparr>vf_nodes := (vf_nodes st)(v \<mapsto> vn')\<rparr>"
  have nf: "node_files ?st w = node_files st w" for w by (simp add: node_files_def)
  have "0 < v_refs x \<and> int (card (node_files st w)) \<le> v_refs x" if "vf_nodes ?st w = Some x" for w x
    using that le vfs_invD(4)[OF inv, of w] v by (cases "w = v") force+
  then show ?thesis using inv unfolding vfs_inv_def nf by auto
qed

lemma clone_fd_inv:
  assumes inv: "vfs_inv R st" and f: "0 < R f"
  shows "\<exists>st'. clone_fd st f = Inr st' \<and> vfs_inv (R(f := R f + 1)) st' \<and> vf_tables st' = vf_tables st \<and> vf_calls st' = vf_calls st"
proof -
  obtain fl where fl: "vf_files st f = Some fl" using vfs_inv_file[OF inv f] by blast
  obtain vn where vn: "vf_nodes st (f_vnode fl) = Some vn" using vfs_invD(3)[OF inv fl] by blast
  define st1 where "st1 = set_file st f (fl\<lparr>f_refs := f_refs fl + 1\<rparr>)"
  have i1: "vfs_inv (R(f := R f + 1)) st1" unfolding st1_def by (rule file_ref_inv[OF inv fl])
  define st' where "st' = st1\<lparr>vf_nodes := (vf_nodes st)(f_vnode fl \<mapsto> vn\<lparr>v_refs := v_refs vn + 1\<rparr>)\<rparr>"
  have n1: "vf_nodes st1 = vf_nodes st" by (simp add: st1_def set_file_def)
  have "vfs_inv (R(f := R f + 1)) st'"
    unfolding st'_def n1[symmetric] by (rule node_update_inv[OF i1]) (use vn n1 in auto)
  moreover have "clone_fd st f = Inr st'" using fl vn by (simp add: clone_fd_def with_file_def st'_def st1_def)
  ultimately show ?thesis by (auto simp: st'_def st1_def set_file_def)
qed

lemma clone_all_inv:
  "vfs_inv R st \<Longrightarrow> (\<And>f. f \<in> set fs \<Longrightarrow> 0 < R f) \<Longrightarrow>
   \<exists>st'. clone_all fs st = Inr st' \<and> vfs_inv (\<lambda>f. R f + count_list fs f) st' \<and> vf_tables st' = vf_tables st \<and> vf_calls st' = vf_calls st"
proof (induction fs arbitrary: R st)
  case (Cons f fs)
  obtain st1 where st1: "clone_fd st f = Inr st1" "vfs_inv (R(f := R f + 1)) st1" "vf_tables st1 = vf_tables st" "vf_calls st1 = vf_calls st"
    using clone_fd_inv[OF Cons.prems(1), of f] Cons.prems(2) by auto
  have "0 < (R(f := R f + 1)) f'" if "f' \<in> set fs" for f' using Cons.prems(2) that by simp
  moreover have "(\<lambda>f'. (R(f := R f + 1)) f' + count_list fs f') = (\<lambda>f'. R f' + count_list (f # fs) f')" by auto
  ultimately show ?case using Cons.IH[OF st1(2)] st1 by simp
qed simp

section \<open>References from tables and calls\<close>

definition refs_of :: "nat set \<Rightarrow> vfs \<Rightarrow> nat \<Rightarrow> nat" where
  "refs_of L st f = (\<Sum>t\<in>L. count_list (vf_tables st ! t) (Some f)) + count_list (vf_calls st) f"

definition vfs_ok :: "nat set \<Rightarrow> vfs \<Rightarrow> bool" where
  "vfs_ok L st \<longleftrightarrow> finite L \<and> (\<forall>t\<in>L. t < length (vf_tables st) \<and> length (vf_tables st ! t) = NFDS) \<and> vfs_inv (refs_of L st) st"

lemma vfs_okD:
  assumes "vfs_ok L st"
  shows "finite L" "t \<in> L \<Longrightarrow> t < length (vf_tables st)" "t \<in> L \<Longrightarrow> length (vf_tables st ! t) = NFDS" "vfs_inv (refs_of L st) st"
  using assms by (auto simp: vfs_ok_def)

lemma count_list_pos: "i < length xs \<Longrightarrow> 0 < count_list xs (xs ! i)"
  using count_list_0_iff[of xs "xs ! i"] by simp

lemma count_list_update:
  "i < length xs \<Longrightarrow> count_list (xs[i := y]) z = count_list xs z - (if xs ! i = z then 1 else 0) + (if y = z then 1 else 0)"
proof (induction xs arbitrary: i)
  case (Cons x xs)
  have "0 < count_list xs z" if "i = Suc j" "xs ! j = z" for j using that Cons.prems count_list_pos[of j xs] by auto
  then show ?case using Cons by (cases i) auto
qed simp

lemma refs_of_set_fd:
  assumes "finite L" "t \<in> L" "t < length (vf_tables st)" "fd < length (vf_tables st ! t)"
  shows "refs_of L (set_fd st t fd x) f =
    refs_of L st f - (if vf_tables st ! t ! fd = Some f then 1 else 0) + (if x = Some f then 1 else 0)"
proof -
  let ?c = "\<lambda>s t. count_list (vf_tables s ! t) (Some f)"
  have split: "(\<Sum>u\<in>L. ?c s u) = ?c s t + (\<Sum>u\<in>L - {t}. ?c s u)" for s using sum.remove[OF assms(1,2)] by simp
  have rest: "(\<Sum>u\<in>L - {t}. ?c (set_fd st t fd x) u) = (\<Sum>u\<in>L - {t}. ?c st u)"
    by (rule sum.cong) (auto simp: set_fd_def)
  have "?c (set_fd st t fd x) t = ?c st t - (if vf_tables st ! t ! fd = Some f then 1 else 0) + (if x = Some f then 1 else 0)"
    using assms(3,4) by (simp add: set_fd_def count_list_update)
  moreover have "0 < ?c st t" if "vf_tables st ! t ! fd = Some f" using that count_list_pos[OF assms(4)] by simp
  ultimately show ?thesis unfolding refs_of_def split rest by (auto simp: set_fd_def)
qed

lemma refs_of_pos:
  assumes "finite L" "t \<in> L" "fd < length (vf_tables st ! t)" "vf_tables st ! t ! fd = Some f"
  shows "0 < refs_of L st f"
proof -
  have "0 < count_list (vf_tables st ! t) (Some f)" using count_list_pos[OF assms(3)] assms(4) by simp
  then have "0 < (\<Sum>t\<in>L. count_list (vf_tables st ! t) (Some f))" using assms(1,2) by (metis sum_eq_0_iff gr0I not_gr_zero)
  then show ?thesis by (simp add: refs_of_def)
qed

lemma vfs_inv_cong: "vfs_inv R st \<Longrightarrow> (\<And>f. R f = R' f) \<Longrightarrow> vfs_inv R' st"
  by (simp add: vfs_inv_def)

lemma refs_of_cong: "vf_tables st' = vf_tables st \<Longrightarrow> vf_calls st' = vf_calls st \<Longrightarrow> refs_of L st' = refs_of L st"
  by (simp add: refs_of_def fun_eq_iff)

lemma set_fd_simps [simp]:
  "vf_files (set_fd st t fd x) = vf_files st" "vf_nodes (set_fd st t fd x) = vf_nodes st" "vf_calls (set_fd st t fd x) = vf_calls st"
  "length (vf_tables (set_fd st t fd x)) = length (vf_tables st)" "vfs_inv R (set_fd st t fd x) = vfs_inv R st"
  by (simp_all add: set_fd_def)

lemma set_file_simps [simp]:
  "vf_tables (set_file st f fl) = vf_tables st" "vf_calls (set_file st f fl) = vf_calls st" "vf_nodes (set_file st f fl) = vf_nodes st"
  "vf_files (set_file st f fl) f = Some fl"
  by (simp_all add: set_file_def)

lemma set_fd_ok:
  assumes ok: "vfs_ok L st" and t: "t \<in> L" "fd < NFDS"
    and R: "vfs_inv (\<lambda>f. refs_of L st f - (if vf_tables st ! t ! fd = Some f then 1 else 0) + (if x = Some f then 1 else 0)) st'"
    and same: "vf_tables st' = vf_tables st" "vf_calls st' = vf_calls st"
  shows "vfs_ok L (set_fd st' t fd x)"
proof -
  have len: "t < length (vf_tables st')" "fd < length (vf_tables st' ! t)" using vfs_okD[OF ok] t same by auto
  have "refs_of L (set_fd st' t fd x) f = refs_of L st f - (if vf_tables st ! t ! fd = Some f then 1 else 0) + (if x = Some f then 1 else 0)" for f
    using refs_of_set_fd[OF vfs_okD(1)[OF ok] t(1) len] refs_of_cong[OF same] same by simp
  then have "vfs_inv (refs_of L (set_fd st' t fd x)) st'" by (intro vfs_inv_cong[OF R]) simp
  moreover have "length (vf_tables (set_fd st' t fd x) ! t') = NFDS" if "t' \<in> L" for t'
    using vfs_okD(2,3)[OF ok] that t same by (cases "t' = t") (auto simp: set_fd_def)
  ultimately show ?thesis using vfs_okD(1,2)[OF ok] same by (simp add: vfs_ok_def)
qed

lemma sys_close_ok:
  assumes ok: "vfs_ok L st" and t: "t \<in> L"
  shows "\<exists>st' r. sys_close st t fd = Inr (st', r) \<and> vfs_ok L st'"
proof (cases "bad_fd st t fd")
  case True
  then show ?thesis using ok by (simp add: sys_close_def)
next
  case False
  then obtain f where f: "vf_tables st ! t ! nat fd = Some f" "nat fd < NFDS" by (auto simp: bad_fd_def)
  have "0 < refs_of L st f" using refs_of_pos[OF vfs_okD(1)[OF ok] t _ f(1)] vfs_okD(3)[OF ok t] f(2) by simp
  from file_deref_inv[OF vfs_okD(4)[OF ok] this] obtain st1 where st1: "file_deref st f = Inr st1"
    "vfs_inv ((refs_of L st)(f := refs_of L st f - 1)) st1" "vf_tables st1 = vf_tables st" "vf_calls st1 = vf_calls st" by blast
  have "vfs_ok L (set_fd st1 t (nat fd) None)"
    by (rule set_fd_ok[OF ok t f(2) _ st1(3,4)]) (rule vfs_inv_cong[OF st1(2)], use f(1) in auto)
  then show ?thesis using False f st1(1) by (simp add: sys_close_def)
qed

lemma set_file_set_fd: "set_file (set_fd st t fd x) f fl = set_fd (set_file st f fl) t fd x"
  by (simp add: set_file_def set_fd_def)

lemma sys_dup2_ok:
  assumes ok: "vfs_ok L st" and t: "t \<in> L" and ne: "oldfd \<noteq> newfd"
  shows "\<exists>st' r. sys_dup2 st t oldfd newfd = Inr (st', r) \<and> vfs_ok L st'"
proof (cases "oldfd < 0 \<or> newfd < 0 \<or> oldfd \<ge> int NFDS \<or> newfd \<ge> int NFDS \<or> vf_tables st ! t ! nat oldfd = None")
  case True
  then show ?thesis using ok by (simp add: sys_dup2_def)
next
  case False
  let ?o = "nat oldfd" and ?n = "nat newfd" and ?R = "refs_of L st"
  obtain f where f: "vf_tables st ! t ! ?o = Some f" and lt: "?o < NFDS" "?n < NFDS" and no: "?o \<noteq> ?n" using False ne by auto
  note fin = vfs_okD(1)[OF ok] and tl = vfs_okD(2)[OF ok t] and tn = vfs_okD(3)[OF ok t] and inv = vfs_okD(4)[OF ok]
  let ?g = "vf_tables st ! t ! ?n"
  define R1 where "R1 = (\<lambda>h. ?R h - (if ?g = Some h then 1 else 0))"
  have "0 < refs_of L (set_fd st t ?n None) f"
    by (rule refs_of_pos[OF fin t, of ?o]) (use f lt no tl tn in \<open>simp_all add: set_fd_def\<close>)
  then have R1f: "0 < R1 f" using refs_of_set_fd[OF fin t tl, of ?n None f] lt tn by (simp add: R1_def)
  have "\<exists>st1. (case ?g of None \<Rightarrow> Inr st | Some g \<Rightarrow> file_deref st g) = Inr st1 \<and> vfs_inv R1 st1
      \<and> vf_tables st1 = vf_tables st \<and> vf_calls st1 = vf_calls st"
  proof (cases ?g)
    case None
    then show ?thesis using inv by (simp add: R1_def vfs_inv_def)
  next
    case (Some g)
    have "0 < ?R g" using refs_of_pos[OF fin t _ Some] lt tn by simp
    moreover have "R1 = ?R(g := ?R g - 1)" by (auto simp: R1_def Some fun_eq_iff)
    ultimately show ?thesis using file_deref_inv[OF inv, of g] Some by auto
  qed
  then obtain st1 where st1: "(case ?g of None \<Rightarrow> Inr st | Some g \<Rightarrow> file_deref st g) = Inr st1" "vfs_inv R1 st1"
    "vf_tables st1 = vf_tables st" "vf_calls st1 = vf_calls st" by blast
  obtain fl where fl: "vf_files st1 f = Some fl" using vfs_inv_file[OF st1(2) R1f] by blast
  let ?st2 = "set_file st1 f (fl\<lparr>f_refs := f_refs fl + 1\<rparr>)"
  have "vfs_ok L (set_fd ?st2 t ?n (Some f))"
  proof (rule set_fd_ok[OF ok t lt(2)])
    show "vfs_inv (\<lambda>h. ?R h - (if ?g = Some h then 1 else 0) + (if Some f = Some h then 1 else 0)) ?st2"
      by (rule vfs_inv_cong[OF file_ref_inv[OF st1(2) fl]]) (auto simp: R1_def)
  qed (use st1 in simp_all)
  moreover have "sys_dup2 st t oldfd newfd = Inr (set_fd ?st2 t ?n (Some f), 0)"
    using False f fl no tl tn lt st1(1,3) by (simp add: sys_dup2_def Let_def with_file_def set_fd_def set_file_def)
  ultimately show ?thesis by blast
qed

lemma bad_fd_file:
  assumes ok: "vfs_ok L st" and t: "t \<in> L" and fd: "\<not> bad_fd st t fd"
  obtains f fl where "vf_tables st ! t ! nat fd = Some f" "nat fd < NFDS" "vf_files st f = Some fl" "0 < refs_of L st f"
proof -
  obtain f where f: "vf_tables st ! t ! nat fd = Some f" "nat fd < NFDS" using fd by (auto simp: bad_fd_def)
  have "0 < refs_of L st f" using refs_of_pos[OF vfs_okD(1)[OF ok] t _ f(1)] vfs_okD(3)[OF ok t] f(2) by simp
  then show thesis using that[OF f] vfs_inv_file[OF vfs_okD(4)[OF ok]] by blast
qed

lemma vfs_ok_same:
  assumes "vfs_ok L st" "vfs_inv (refs_of L st) st'" "vf_tables st' = vf_tables st" "vf_calls st' = vf_calls st"
  shows "vfs_ok L st'"
  using assms refs_of_cong[OF assms(3,4)] by (simp add: vfs_ok_def)

lemma seek_to_ok:
  assumes ok: "vfs_ok L st" and f: "vf_files st f = Some fl"
  shows "vfs_ok L (fst (seek_to st f fl off))"
proof -
  let ?fl = "fl\<lparr>f_off := if sint off < 0 then 0 else off\<rparr>"
  have nf: "node_files (set_file st f ?fl) v = node_files st v" for v using f by (rule node_files_set_file) simp
  have "vfs_inv (refs_of L st) (set_file st f ?fl)"
    using vfs_okD(4)[OF ok] f unfolding vfs_inv_def nf by (auto simp: set_file_def)
  then show ?thesis unfolding seek_to_def Let_def fst_conv by (rule vfs_ok_same[OF ok]) simp_all
qed

lemma sys_lseek_ok:
  assumes ok: "vfs_ok L st" and t: "t \<in> L"
  shows "\<exists>st' r. sys_lseek isize st t fd off origin = Inr (st', r) \<and> vfs_ok L st'"
proof (cases "bad_fd st t fd")
  case True
  then show ?thesis using ok by (simp add: sys_lseek_def validate_fd_def)
next
  case False
  obtain f fl where f: "vf_tables st ! t ! nat fd = Some f" "vf_files st f = Some fl" using bad_fd_file[OF ok t False] by blast
  obtain vn where vn: "vf_nodes st (f_vnode fl) = Some vn" using vfs_invD(3)[OF vfs_okD(4)[OF ok] f(2)] by blast
  have "\<exists>st' r. seek_to st f fl x = (st', r) \<and> vfs_ok L st'" for x using seek_to_ok[OF ok f(2), of x] by (metis surjective_pairing)
  then show ?thesis using False f vn ok by (simp add: sys_lseek_def validate_fd_def with_file_def Let_def)
qed

lemma rw_begin_ok:
  assumes ok: "vfs_ok L st" and t: "t \<in> L"
  shows "\<exists>st' out. rw_begin check st t rd fd addr sz = Inr (st', out) \<and> vfs_ok L st'
    \<and> (case out of Rw_error _ \<Rightarrow> st' = st | Rw_go f \<Rightarrow> f \<in> set (vf_calls st') \<and> vf_tables st ! t ! nat fd = Some f)"
proof (cases "bad_fd st t fd")
  case True
  then show ?thesis using ok by (simp add: rw_begin_def)
next
  case False
  obtain f fl where f: "vf_tables st ! t ! nat fd = Some f" "vf_files st f = Some fl" using bad_fd_file[OF ok t False] by blast
  let ?st = "(set_file st f (fl\<lparr>f_refs := f_refs fl + 1\<rparr>))\<lparr>vf_calls := f # vf_calls st\<rparr>"
  have "refs_of L ?st = (refs_of L st)(f := refs_of L st f + 1)" by (simp add: refs_of_def fun_eq_iff)
  then have "vfs_inv (refs_of L ?st) ?st"
    using file_ref_inv[OF vfs_okD(4)[OF ok] f(2)] by (simp only: vfs_inv_fields)
  then have "vfs_ok L ?st" using ok by (simp add: vfs_ok_def)
  then show ?thesis using False f ok by (simp add: rw_begin_def with_file_def Let_def)
qed

lemma rw_end_ok:
  assumes ok: "vfs_ok L st" and f: "f \<in> set (vf_calls st)"
  shows "\<exists>st'. rw_end st f = Inr st' \<and> vfs_ok L st' \<and> vf_tables st' = vf_tables st"
proof -
  let ?st = "st\<lparr>vf_calls := remove1 f (vf_calls st)\<rparr>"
  have c: "0 < count_list (vf_calls st) f" using f count_list_0_iff[of "vf_calls st" f] by auto
  then have pos: "0 < refs_of L st f" by (simp add: refs_of_def)
  have inv: "vfs_inv (refs_of L st) ?st" using vfs_okD(4)[OF ok] by simp
  obtain st1 where st1: "file_deref ?st f = Inr st1" "vfs_inv ((refs_of L st)(f := refs_of L st f - 1)) st1"
    "vf_tables st1 = vf_tables st" "vf_calls st1 = remove1 f (vf_calls st)" using file_deref_inv[OF inv pos] by auto
  have "refs_of L st1 g = ((refs_of L st)(f := refs_of L st f - 1)) g" for g
    using c by (simp add: refs_of_def st1(3,4))
  then have "vfs_inv (refs_of L st1) st1" by (intro vfs_inv_cong[OF st1(2)]) simp
  then show ?thesis using st1 ok by (simp add: rw_end_def vfs_ok_def)
qed

lemma pipe_transfer_ok:
  assumes ok: "vfs_ok L st" and run: "pipe_transfer st f op = Inr (st', out)"
  shows "vfs_ok L st'"
proof -
  obtain fl vn bb bb' where s: "vf_files st f = Some fl" "vf_nodes st (f_vnode fl) = Some vn" "v_bb vn = Some bb"
    "st' = st\<lparr>vf_nodes := (vf_nodes st)(f_vnode fl \<mapsto> vn\<lparr>v_bb := Some bb'\<rparr>)\<rparr>"
    using run by (auto simp: pipe_transfer_def with_file_def rbind_eq_Inr split: option.splits)
  have "vfs_inv (refs_of L st) st'" unfolding s(4) by (rule node_update_inv[OF vfs_okD(4)[OF ok] s(2)]) simp
  then show ?thesis by (rule vfs_ok_same[OF ok]) (simp_all add: s(4))
qed

lemma pipe_fds_second:
  "pipe_fds fds i (Some r) = (x, Some b) \<Longrightarrow> x = Some r \<and> i \<le> b \<and> b < i + length fds \<and> fds ! (b - i) = None"
proof (induction fds arbitrary: i)
  case (Cons y fds)
  then show ?case
  proof (cases y)
    case (Some z)
    then have "x = Some r \<and> Suc i \<le> b \<and> b < Suc i + length fds \<and> fds ! (b - Suc i) = None"
      using Cons.IH[of "Suc i"] Cons.prems by simp
    then show ?thesis by (simp add: nth_Cons')
  qed auto
qed simp

lemma pipe_fds_found:
  "pipe_fds fds i None = (Some a, Some b) \<Longrightarrow> i \<le> a \<and> a < b \<and> b < i + length fds \<and> fds ! (a - i) = None \<and> fds ! (b - i) = None"
proof (induction fds arbitrary: i)
  case (Cons y fds)
  then show ?case
  proof (cases y)
    case None
    then show ?thesis using Cons.prems pipe_fds_second[of fds "Suc i" i "Some a" b] by (auto simp: nth_Cons')
  next
    case (Some z)
    then have "Suc i \<le> a \<and> a < b \<and> b < Suc i + length fds \<and> fds ! (a - Suc i) = None \<and> fds ! (b - Suc i) = None"
      using Cons.IH[of "Suc i"] Cons.prems by simp
    then show ?thesis by (simp add: nth_Cons')
  qed
qed simp

lemma set_fd_free_ok:
  assumes ok: "vfs_ok L st" and t: "t \<in> L" "fd < NFDS" and free: "vf_tables st ! t ! fd = None"
    and R: "vfs_inv (\<lambda>f. refs_of L st f + (if x = Some f then 1 else 0)) st'"
    and same: "vf_tables st' = vf_tables st" "vf_calls st' = vf_calls st"
  shows "vfs_ok L (set_fd st' t fd x)"
  by (rule set_fd_ok[OF ok t _ same]) (rule vfs_inv_cong[OF R], use free in auto)

text \<open>A new file, on a vnode that counts it.\<close>

lemma new_file_inv:
  assumes inv: "vfs_inv R st" and f: "vf_files st f = None" and v: "vf_nodes st v = Some vn" "int (card (node_files st v)) < v_refs vn"
    and fl: "f_vnode fl = v" "f_refs fl = int k" "0 < k"
  shows "vfs_inv (R(f := k)) (set_file st f fl)"
proof -
  let ?st = "set_file st f fl"
  have nf: "node_files ?st w = (if w = v then insert f (node_files st w) else node_files st w)" for w
    using f fl(1) by (auto simp: node_files_def set_file_def)
  have "0 < v_refs x \<and> int (card (node_files ?st w)) \<le> v_refs x" if "vf_nodes ?st w = Some x" for w x
    using that v vfs_invD(4,5)[OF inv, of w] by (cases "w = v") (auto simp: nf card_insert_if)
  then show ?thesis using inv v fl unfolding vfs_inv_def by (auto simp: set_file_def)
qed

lemma new_node_inv:
  assumes inv: "vfs_inv R st" and v: "vf_nodes st v = None" "0 < v_refs vn"
  shows "vfs_inv R (st\<lparr>vf_nodes := (vf_nodes st)(v \<mapsto> vn)\<rparr>)" "node_files (st\<lparr>vf_nodes := (vf_nodes st)(v \<mapsto> vn)\<rparr>) v = {}"
proof -
  let ?st = "st\<lparr>vf_nodes := (vf_nodes st)(v \<mapsto> vn)\<rparr>"
  have nf: "node_files ?st w = node_files st w" for w by (simp add: node_files_def)
  have "f \<notin> node_files st v" for f using v(1) vfs_invD(3)[OF inv, of f] by (auto simp: node_files_def)
  then have e: "node_files st v = {}" by blast
  then show "node_files ?st v = {}" using nf by simp
  show "vfs_inv R ?st" using inv v e unfolding vfs_inv_def nf by auto
qed

lemma sys_pipe_new:
  assumes ok: "vfs_ok L st" and t: "t \<in> L"
    and fresh: "vf_files st r1 = None" "vf_files st w1 = None" "r1 \<noteq> w1" "vf_nodes st v = None"
    and fds: "pipe_fds (vf_tables st ! t) 0 None = (Some rfd, Some wfd)"
  shows "\<exists>st'. sys_pipe st t (Some r1) (Some w1) (Some v) (Some bb) = Inr (st', of_nat rfd OR push_bit 32 (of_nat wfd)) \<and> vfs_ok L st'
    \<and> vf_tables st' = (vf_tables st)[t := (vf_tables st ! t)[rfd := Some r1, wfd := Some w1]] \<and> vf_calls st' = vf_calls st
    \<and> vf_files st' = (vf_files st)(r1 \<mapsto> new_file pipe_file True False v, w1 \<mapsto> new_file pipe_file False True v)
    \<and> vf_nodes st' = (vf_nodes st)(v \<mapsto> \<lparr>v_class = VN_pipe, v_bb = Some bbuffer_new, v_refs = 2\<rparr>)"
proof -
  let ?vn = "\<lparr>v_class = VN_pipe, v_bb = Some bbuffer_new, v_refs = 2\<rparr>" and ?rf = "new_file pipe_file True False v" and ?wf = "new_file pipe_file False True v"
  have p: "rfd < wfd" "wfd < NFDS" "vf_tables st ! t ! rfd = None" "vf_tables st ! t ! wfd = None"
    using pipe_fds_found[OF fds] vfs_okD(3)[OF ok t] by auto
  note tl = vfs_okD(2)[OF ok t]
  define s1 where "s1 = st\<lparr>vf_nodes := (vf_nodes st)(v \<mapsto> ?vn)\<rparr>"
  have i1: "vfs_inv (refs_of L st) s1" "node_files s1 v = {}" using new_node_inv[OF vfs_okD(4)[OF ok] fresh(4), of ?vn] by (simp_all add: s1_def)
  define s2 where "s2 = set_file s1 r1 ?rf"
  have z: "refs_of L st r1 = 0" "refs_of L st w1 = 0" using vfs_invD(2)[OF vfs_okD(4)[OF ok]] fresh by auto
  have i2: "vfs_inv ((refs_of L st)(r1 := 1)) s2"
    unfolding s2_def by (rule new_file_inv[OF i1(1)]) (use fresh i1(2) in \<open>auto simp: s1_def new_file_def\<close>)
  have o1: "vfs_ok L (set_fd s2 t rfd (Some r1))"
  proof (rule set_fd_free_ok[OF ok t _ p(3)])
    show "vfs_inv (\<lambda>f. refs_of L st f + (if Some r1 = Some f then 1 else 0)) s2" by (rule vfs_inv_cong[OF i2]) (use z in auto)
  qed (use p in \<open>simp_all add: s2_def s1_def\<close>)
  define s3 where "s3 = set_fd s2 t rfd (Some r1)"
  have nf: "node_files s3 v = {r1}" using i1(2) by (auto simp: s3_def s2_def node_files_def set_file_def set_fd_def new_file_def split: if_splits)
  have w3: "refs_of L s3 w1 = 0" by (rule vfs_invD(2)[OF vfs_okD(4)[OF o1[folded s3_def]]]) (use fresh in \<open>auto simp: s3_def s2_def s1_def set_file_def\<close>)
  have i3: "vfs_inv ((refs_of L s3)(w1 := 1)) (set_file s3 w1 ?wf)"
    by (rule new_file_inv[OF vfs_okD(4)[OF o1[folded s3_def]], where vn = ?vn])
      (use fresh nf in \<open>auto simp: s3_def s2_def s1_def set_file_def new_file_def\<close>)
  have "vfs_ok L (set_fd (set_file s3 w1 ?wf) t wfd (Some w1))"
  proof (rule set_fd_free_ok[OF o1[folded s3_def] t p(2)])
    show "vfs_inv (\<lambda>f. refs_of L s3 f + (if Some w1 = Some f then 1 else 0)) (set_file s3 w1 ?wf)"
      by (rule vfs_inv_cong[OF i3]) (use w3 in auto)
  qed (use p tl in \<open>simp_all add: s3_def s2_def s1_def set_fd_def\<close>)
  moreover have "sys_pipe st t (Some r1) (Some w1) (Some v) (Some bb) =
      Inr (set_fd (set_file s3 w1 ?wf) t wfd (Some w1), of_nat rfd OR push_bit 32 (of_nat wfd))"
    by (simp add: sys_pipe_def fds Let_def s3_def s2_def s1_def set_fd_def set_file_def)
  moreover have "vf_tables (set_fd (set_file s3 w1 ?wf) t wfd (Some w1)) = (vf_tables st)[t := (vf_tables st ! t)[rfd := Some r1, wfd := Some w1]]"
    using tl by (simp add: s3_def s2_def s1_def set_fd_def set_file_def)
  ultimately show ?thesis by (auto simp: s3_def s2_def s1_def set_file_def)
qed

lemma sys_pipe_ok:
  assumes ok: "vfs_ok L st" and t: "t \<in> L"
    and fresh: "vf_files st r1 = None" "vf_files st w1 = None" "r1 \<noteq> w1" "vf_nodes st v = None"
  shows "\<exists>st' r. sys_pipe st t (Some r1) (Some w1) (Some v) (Some bb) = Inr (st', r) \<and> vfs_ok L st'"
proof (cases "\<exists>rfd wfd. pipe_fds (vf_tables st ! t) 0 None = (Some rfd, Some wfd)")
  case True
  then show ?thesis using sys_pipe_new[OF ok t fresh] by blast
next
  case False
  then show ?thesis using ok by (auto simp: sys_pipe_def split: prod.split option.split)
qed

lemma count_list_map_the: "count_list (map the (filter (\<lambda>x. x \<noteq> None) xs)) f = count_list xs (Some f)"
  by (induction xs) auto

lemma exit_fds_ok:
  assumes ok: "vfs_ok L st" and t: "t \<in> L"
  shows "\<exists>st'. exit_fds st t = Inr st' \<and> vfs_ok (L - {t}) st'"
proof -
  note fin = vfs_okD(1)[OF ok]
  have split: "refs_of L st f = count_list (vf_tables st ! t) (Some f) + refs_of (L - {t}) st f" for f
    using sum.remove[OF fin t, of "\<lambda>t. count_list (vf_tables st ! t) (Some f)"] by (simp add: refs_of_def)
  obtain st' where st': "exit_fds st t = Inr st'" "vfs_inv (\<lambda>f. refs_of L st f - count_list (vf_tables st ! t) (Some f)) st'"
    "vf_tables st' = vf_tables st" "vf_calls st' = vf_calls st"
    using deref_all_inv[OF vfs_okD(4)[OF ok], of "map the (filter (\<lambda>x. x \<noteq> None) (vf_tables st ! t))"]
    unfolding exit_fds_def count_list_map_the using split by auto
  have "vfs_inv (refs_of (L - {t}) st') st'"
    by (rule vfs_inv_cong[OF st'(2)]) (simp add: split refs_of_cong[OF st'(3,4)])
  then show ?thesis using st' ok by (auto simp: vfs_ok_def)
qed

lemma refs_of_new_table:
  assumes "finite L" "\<And>t. t \<in> L \<Longrightarrow> t < length (vf_tables st)"
  shows "refs_of (insert (length (vf_tables st)) L) (st\<lparr>vf_tables := vf_tables st @ [tab]\<rparr>) f = refs_of L st f + count_list tab (Some f)"
proof -
  have "length (vf_tables st) \<notin> L" using assms(2) by blast
  moreover have "(\<Sum>t\<in>L. count_list ((vf_tables st @ [tab]) ! t) (Some f)) = (\<Sum>t\<in>L. count_list (vf_tables st ! t) (Some f))"
    by (rule sum.cong) (use assms(2) in \<open>auto simp: nth_append\<close>)
  ultimately show ?thesis using assms(1) by (simp add: refs_of_def nth_append)
qed

lemma new_table_ok:
  assumes ok: "vfs_ok L st" and inv: "vfs_inv (\<lambda>f. refs_of L st f + count_list tab (Some f)) st'"
    and same: "vf_tables st' = vf_tables st" "vf_calls st' = vf_calls st" and len: "length tab = NFDS"
  shows "vfs_ok (insert (length (vf_tables st)) L) (st'\<lparr>vf_tables := vf_tables st @ [tab]\<rparr>)"
proof -
  have lt: "t < length (vf_tables st')" if "t \<in> L" for t using vfs_okD(2)[OF ok that] same by simp
  have "vfs_inv (refs_of (insert (length (vf_tables st)) L) (st'\<lparr>vf_tables := vf_tables st @ [tab]\<rparr>)) st'"
    by (rule vfs_inv_cong[OF inv])
      (simp add: refs_of_new_table[OF vfs_okD(1)[OF ok] lt, unfolded same] refs_of_cong[OF same])
  then show ?thesis using vfs_okD(1-3)[OF ok] same len by (auto simp: vfs_ok_def nth_append less_SucI)
qed

lemma count_list_replicate_None [simp]: "count_list (replicate n None) (Some f) = 0"
  by (induction n) auto

lemma count_list_the: "(\<And>x. x \<in> set xs \<Longrightarrow> x \<noteq> None) \<Longrightarrow> count_list (map the xs) f = count_list xs (Some f)"
  by (induction xs) fastforce+

lemma fork_fds_ok:
  assumes ok: "vfs_ok L st" and t: "t \<in> L"
  shows "\<exists>st'. fork_fds st t = Inr (st', length (vf_tables st)) \<and> vfs_ok (insert (length (vf_tables st)) L) st'"
proof -
  let ?sh = "takeWhile (\<lambda>x. x \<noteq> None) (vf_tables st ! t)"
  have some: "x \<noteq> None" if "x \<in> set ?sh" for x using that by (auto dest: set_takeWhileD)
  have "0 < refs_of L st f" if "f \<in> set (map the ?sh)" for f
  proof -
    have "Some f \<in> set (vf_tables st ! t)" using that by (auto dest: set_takeWhileD)
    then show ?thesis using refs_of_pos[OF vfs_okD(1)[OF ok] t] by (metis in_set_conv_nth)
  qed
  from clone_all_inv[OF vfs_okD(4)[OF ok] this] obtain st1 where st1: "clone_all (map the ?sh) st = Inr st1"
    "vfs_inv (\<lambda>f. refs_of L st f + count_list (map the ?sh) f) st1" "vf_tables st1 = vf_tables st" "vf_calls st1 = vf_calls st" by blast
  let ?tab = "?sh @ replicate (NFDS - length ?sh) None"
  have len: "length ?tab = NFDS" using length_takeWhile_le[of "\<lambda>x. x \<noteq> None" "vf_tables st ! t"] vfs_okD(3)[OF ok t] by simp
  have "vfs_ok (insert (length (vf_tables st)) L) (st1\<lparr>vf_tables := vf_tables st @ [?tab]\<rparr>)"
    by (rule new_table_ok[OF ok vfs_inv_cong[OF st1(2)] st1(3,4) len]) (simp add: count_list_the[OF some])
  then show ?thesis using st1 by (simp add: fork_fds_def Let_def)
qed

lemma setup_fds_ok:
  assumes ok: "vfs_ok L st" and fresh: "vf_files st f = None" "vf_nodes st v = None"
  shows "vfs_ok (insert (length (vf_tables st)) L) (fst (setup_fds st f v))"
proof -
  let ?vn = "\<lparr>v_class = VN_kbc, v_bb = None, v_refs = 1\<rparr>" and ?fl = "(new_file stream True True v)\<lparr>f_refs := 3\<rparr>"
    and ?tab = "[Some f, Some f, Some f] @ replicate (NFDS - 3) None"
  let ?s1 = "st\<lparr>vf_nodes := (vf_nodes st)(v \<mapsto> ?vn)\<rparr>"
  have i1: "vfs_inv (refs_of L st) ?s1" "node_files ?s1 v = {}" using new_node_inv[OF vfs_okD(4)[OF ok] fresh(2), of ?vn] by simp_all
  have i2: "vfs_inv ((refs_of L st)(f := 3)) (set_file ?s1 f ?fl)"
    by (rule new_file_inv[OF i1(1), where v = v and vn = ?vn]) (use fresh i1(2) in \<open>auto simp: new_file_def\<close>)
  have z: "refs_of L st f = 0" by (rule vfs_invD(2)[OF vfs_okD(4)[OF ok] fresh(1)])
  have "vfs_ok (insert (length (vf_tables st)) L) ((set_file ?s1 f ?fl)\<lparr>vf_tables := vf_tables st @ [?tab]\<rparr>)"
    by (rule new_table_ok[OF ok vfs_inv_cong[OF i2]]) (use z in auto)
  moreover have "fst (setup_fds st f v) = (set_file ?s1 f ?fl)\<lparr>vf_tables := vf_tables st @ [?tab]\<rparr>"
    by (simp add: setup_fds_def set_file_def)
  ultimately show ?thesis by metis
qed

section \<open>The ends of a pipe\<close>

text \<open>
  A pipe's buffer is marked closed on a side exactly when the file of that side is deleted: every pipe
  file finds its buffer open on its own side, and no pipe has two files for one side.
\<close>

definition pipe_open :: "vfs \<Rightarrow> kfile \<Rightarrow> bool" where
  "pipe_open st fl \<longleftrightarrow> (case vf_nodes st (f_vnode fl) of None \<Rightarrow> False
     | Some vn \<Rightarrow> (case v_bb vn of None \<Rightarrow> False
         | Some bb \<Rightarrow> bb_ok bb \<and> (f_readable fl \<longrightarrow> \<not> bb_read_closed bb) \<and> (f_writeable fl \<longrightarrow> \<not> bb_write_closed bb)))"

definition pipe_inv :: "vfs \<Rightarrow> bool" where
  "pipe_inv st \<longleftrightarrow>
     (\<forall>f fl. vf_files st f = Some fl \<longrightarrow> f_type fl = pipe_file \<longrightarrow> pipe_open st fl)
   \<and> (\<forall>f g fl gl. vf_files st f = Some fl \<longrightarrow> vf_files st g = Some gl \<longrightarrow> f \<noteq> g \<longrightarrow> f_type fl = pipe_file \<longrightarrow>
        f_vnode fl = f_vnode gl \<longrightarrow> f_type gl = pipe_file \<and> \<not> (f_readable fl \<and> f_readable gl) \<and> \<not> (f_writeable fl \<and> f_writeable gl))"

lemma pipe_invD:
  assumes "pipe_inv st" "vf_files st f = Some fl"
  shows "f_type fl = pipe_file \<Longrightarrow> pipe_open st fl"
    "vf_files st g = Some gl \<Longrightarrow> f \<noteq> g \<Longrightarrow> f_type fl = pipe_file \<Longrightarrow> f_vnode fl = f_vnode gl \<Longrightarrow>
      f_type gl = pipe_file \<and> \<not> (f_readable fl \<and> f_readable gl) \<and> \<not> (f_writeable fl \<and> f_writeable gl)"
  using assms unfolding pipe_inv_def by blast+

lemma pipe_invI:
  assumes "\<And>f fl. vf_files st f = Some fl \<Longrightarrow> f_type fl = pipe_file \<Longrightarrow> pipe_open st fl"
    "\<And>f g fl gl. vf_files st f = Some fl \<Longrightarrow> vf_files st g = Some gl \<Longrightarrow> f \<noteq> g \<Longrightarrow> f_type fl = pipe_file \<Longrightarrow>
       f_vnode fl = f_vnode gl \<Longrightarrow> f_type gl = pipe_file \<and> \<not> (f_readable fl \<and> f_readable gl) \<and> \<not> (f_writeable fl \<and> f_writeable gl)"
  shows "pipe_inv st"
  using assms unfolding pipe_inv_def by blast

text \<open>What \<open>pipe_inv\<close> depends on.\<close>

definition f_core :: "kfile \<Rightarrow> file_type \<times> bool \<times> bool \<times> nat" where
  "f_core fl = (f_type fl, f_readable fl, f_writeable fl, f_vnode fl)"

lemma pipe_inv_frame:
  assumes inv: "pipe_inv st"
    and files: "\<And>f. map_option f_core (vf_files st' f) = map_option f_core (vf_files st f)"
    and nodes: "\<And>v. map_option v_bb (vf_nodes st' v) = map_option v_bb (vf_nodes st v)"
  shows "pipe_inv st'"
proof -
  have core: "\<exists>fl. vf_files st f = Some fl \<and> f_core fl = f_core fl'" if "vf_files st' f = Some fl'" for f fl'
    using files[of f] that by (cases "vf_files st f") auto
  have op: "pipe_open st' fl' = pipe_open st fl" if "f_core fl' = f_core fl" for fl fl'
    using nodes[of "f_vnode fl"] that
    by (cases "vf_nodes st (f_vnode fl)"; cases "vf_nodes st' (f_vnode fl)") (auto simp: pipe_open_def f_core_def split: option.splits)
  show ?thesis
  proof (rule pipe_invI, goal_cases)
    case (1 f fl)
    then show ?case using core[of f fl] op[of fl] pipe_invD(1)[OF inv, of f] by (metis f_core_def prod.inject)
  next
    case (2 f g fl gl)
    obtain fl' gl' where "vf_files st f = Some fl'" "f_core fl' = f_core fl" "vf_files st g = Some gl'" "f_core gl' = f_core gl"
      using core 2(1,2) by blast
    then show ?case using pipe_invD(2)[OF inv, of f fl' g gl'] 2 by (simp add: f_core_def)
  qed
qed

lemma file_delete_pipe:
  assumes vi: "vfs_inv R st" and inv: "pipe_inv st" and f: "vf_files st f = Some fl" and run: "file_delete st f fl = Inr st'"
  shows "pipe_inv st'"
proof -
  obtain vn where vn: "vf_nodes st (f_vnode fl) = Some vn" using vfs_invD(3)[OF vi f] by blast
  have fs: "vf_files st' g = Some gl \<longleftrightarrow> vf_files st g = Some gl \<and> g \<noteq> f" for g gl
    using run vn by (auto simp: file_delete_def assert_then_def Let_def split: if_splits)
  obtain st2 where st2: "st' = st2" "vfs_inv (R(f := 0)) st2" using file_delete_inv[OF vi f] run by auto
  have nd: "vf_nodes st' v = (if v = f_vnode fl then (if v_refs vn - 1 = 0 then None else Some (vn\<lparr>v_refs := v_refs vn - 1, v_bb := close_bb fl vn\<rparr>)) else vf_nodes st v)" for v
    using run vn by (auto simp: file_delete_def assert_then_def Let_def split: if_splits)
  show ?thesis
  proof (rule pipe_invI, goal_cases)
    case (1 g gl)
    then have g: "vf_files st g = Some gl" "g \<noteq> f" "f_type gl = pipe_file" using fs by auto
    have op: "pipe_open st gl" by (rule pipe_invD(1)[OF inv g(1,3)])
    have alive: "vf_nodes st' (f_vnode gl) \<noteq> None" using vfs_invD(3)[OF st2(2), of g gl] 1 st2(1) by auto
    show ?case
    proof (cases "f_vnode gl = f_vnode fl")
      case True
      then have "f_type fl = pipe_file \<and> \<not> (f_readable gl \<and> f_readable fl) \<and> \<not> (f_writeable gl \<and> f_writeable fl)"
        using pipe_invD(2)[OF inv g(1) f g(2,3)] by simp
      then show ?thesis using op alive True vn
        by (auto simp: pipe_open_def nd close_bb_def pipe_close_def bb_ok_def split: if_splits option.splits)
    next
      case False
      then show ?thesis using op by (simp add: pipe_open_def nd)
    qed
  next
    case (2 g h gl hl)
    then show ?case using pipe_invD(2)[OF inv, of g gl h hl] by (simp add: fs)
  qed
qed

lemma file_deref_pipe:
  assumes vi: "vfs_inv R st" and inv: "pipe_inv st" and run: "file_deref st f = Inr st'"
  shows "pipe_inv st'"
proof -
  obtain fl where fl: "vf_files st f = Some fl" using run by (auto simp: file_deref_def with_file_def split: option.splits)
  show ?thesis
  proof (cases "f_refs fl - 1 = 0")
    case True
    then show ?thesis using file_delete_pipe[OF vi inv fl] run fl by (auto simp: file_deref_def with_file_def)
  next
    case False
    then have "st' = set_file st f (fl\<lparr>f_refs := f_refs fl - 1\<rparr>)"
      using run fl by (auto simp: file_deref_def with_file_def assert_then_def split: if_splits)
    then show ?thesis using fl by (intro pipe_inv_frame[OF inv]) (auto simp: set_file_def f_core_def)
  qed
qed

lemma deref_all_pipe:
  "vfs_inv R st \<Longrightarrow> (\<And>f. count_list fs f \<le> R f) \<Longrightarrow> pipe_inv st \<Longrightarrow> deref_all fs st = Inr st' \<Longrightarrow> pipe_inv st'"
proof (induction fs arbitrary: R st)
  case (Cons f fs)
  have "0 < R f" using Cons.prems(2)[of f] by simp
  then obtain st1 where st1: "file_deref st f = Inr st1" "vfs_inv (R(f := R f - 1)) st1"
    using file_deref_inv[OF Cons.prems(1)] by blast
  have "count_list fs f' \<le> (R(f := R f - 1)) f'" for f' using Cons.prems(2)[of f'] by (auto split: if_splits)
  moreover have "pipe_inv st1" by (rule file_deref_pipe[OF Cons.prems(1,3) st1(1)])
  ultimately show ?case using Cons.IH[OF st1(2)] Cons.prems(4) st1(1) by simp
qed simp

lemma pipe_inv_tables [simp]: "pipe_inv (st\<lparr>vf_tables := ts\<rparr>) = pipe_inv st" "pipe_inv (st\<lparr>vf_calls := cs\<rparr>) = pipe_inv st"
  "pipe_inv (set_fd st t fd x) = pipe_inv st"
  by (simp_all add: pipe_inv_def pipe_open_def set_fd_def)

lemma clone_all_pipe: "pipe_inv st \<Longrightarrow> clone_all fs st = Inr st' \<Longrightarrow> pipe_inv st'"
proof (induction fs arbitrary: st)
  case (Cons f fs)
  then obtain st1 where st1: "clone_fd st f = Inr st1" "clone_all fs st1 = Inr st'" by (auto simp: rbind_eq_Inr)
  have "pipe_inv st1" using st1(1)
    by (intro pipe_inv_frame[OF Cons.prems(1)]) (auto simp: clone_fd_def with_file_def set_file_def f_core_def split: option.splits)
  then show ?case using Cons.IH st1(2) by blast
qed simp

lemma clone_all_tables: "clone_all fs st = Inr st' \<Longrightarrow> vf_tables st' = vf_tables st"
proof (induction fs arbitrary: st)
  case (Cons f fs)
  then obtain st1 where st1: "clone_fd st f = Inr st1" "clone_all fs st1 = Inr st'" by (auto simp: rbind_eq_Inr)
  have "vf_tables st1 = vf_tables st" using st1(1) by (auto simp: clone_fd_def with_file_def set_file_def split: option.splits)
  then show ?case using Cons.IH st1(2) by simp
qed simp

text \<open>The two files that \<open>SYSCALL_PIPE\<close> makes, and a file on a vnode of its own.\<close>

lemma new_pipe_inv:
  assumes vi: "vfs_inv R st" and inv: "pipe_inv st" and fresh: "r1 \<noteq> w1" "vf_nodes st v = None"
    and st': "vf_files st' = (vf_files st)(r1 \<mapsto> new_file pipe_file True False v, w1 \<mapsto> new_file pipe_file False True v)"
      "vf_nodes st' = (vf_nodes st)(v \<mapsto> \<lparr>v_class = VN_pipe, v_bb = Some bbuffer_new, v_refs = 2\<rparr>)"
  shows "pipe_inv st'"
proof -
  have old: "f_vnode fl \<noteq> v" if "vf_files st f = Some fl" for f fl using vfs_invD(3)[OF vi that] fresh(2) by auto
  have op: "pipe_open st' fl = pipe_open st fl" if "f_vnode fl \<noteq> v" for fl using that by (simp add: pipe_open_def st')
  have new: "pipe_open st' (new_file pipe_file True False v)" "pipe_open st' (new_file pipe_file False True v)"
    by (simp_all add: pipe_open_def st' new_file_def bbuffer_new_ok) (simp_all add: bbuffer_new_def)
  have nv: "f_vnode (new_file ty r w v) = v" "f_type (new_file ty r w v) = ty" "f_readable (new_file ty r w v) = r"
    "f_writeable (new_file ty r w v) = w" for ty r w by (simp_all add: new_file_def)
  show ?thesis
  proof (rule pipe_invI, goal_cases)
    case (1 f fl)
    then show ?case using pipe_invD(1)[OF inv, of f fl] op old new by (auto simp: st' split: if_splits)
  next
    case (2 f g fl gl)
    have "f_vnode gl \<noteq> v" if "vf_files st g = Some gl" using old that .
    moreover have "f_vnode fl \<noteq> v" if "vf_files st f = Some fl" using old that .
    ultimately show ?case using pipe_invD(2)[OF inv, of f fl g gl] 2 fresh(1) by (simp add: st' split: if_splits) (auto simp: nv)
  qed
qed

lemma setup_pipe_inv:
  assumes vi: "vfs_inv R st" and inv: "pipe_inv st" and fresh: "vf_nodes st v = None"
  shows "pipe_inv (fst (setup_fds st f v))"
proof -
  have old: "f_vnode fl \<noteq> v" if "vf_files st f = Some fl" for f fl using vfs_invD(3)[OF vi that] fresh by auto
  have op: "pipe_open (fst (setup_fds st f v)) fl = pipe_open st fl" if "f_vnode fl \<noteq> v" for fl
    using that by (simp add: pipe_open_def setup_fds_def)
  show ?thesis
  proof (rule pipe_invI, goal_cases)
    case (1 f fl)
    then show ?case using pipe_invD(1)[OF inv, of f fl] op old by (auto simp: setup_fds_def new_file_def split: if_splits)
  next
    case (2 f g fl gl)
    have "f_vnode gl \<noteq> v" if "vf_files st g = Some gl" using old that .
    then show ?case using pipe_invD(2)[OF inv, of f fl g gl] old[of f fl] 2 by (auto simp: setup_fds_def new_file_def split: if_splits)
  qed
qed

text \<open>A transfer on an open side of a pipe is one call of \<open>vnode_pipe::read\<close> or \<open>::write\<close>.\<close>

definition rw_ok :: "(bbuffer \<Rightarrow> (bbuffer \<times> pipe_out) res) \<Rightarrow> kfile \<Rightarrow> bool" where
  "rw_ok op fl \<longleftrightarrow> (\<forall>bb. bb_ok bb \<longrightarrow> (f_readable fl \<longrightarrow> \<not> bb_read_closed bb) \<longrightarrow> (f_writeable fl \<longrightarrow> \<not> bb_write_closed bb) \<longrightarrow>
     (\<exists>bb' out. op bb = Inr (bb', out) \<and> bb_ok bb' \<and> bb_read_closed bb' = bb_read_closed bb \<and> bb_write_closed bb' = bb_write_closed bb))"

lemma rw_ok_read: "f_readable fl \<Longrightarrow> rw_ok (\<lambda>bb. pipe_read bb n) fl"
  unfolding rw_ok_def
proof (intro allI impI)
  fix bb assume "f_readable fl" "bb_ok bb" "f_readable fl \<longrightarrow> \<not> bb_read_closed bb"
  then have o: "bb_ok bb" "\<not> bb_read_closed bb" by auto
  then show "\<exists>bb' out. pipe_read bb n = Inr (bb', out) \<and> bb_ok bb' \<and> bb_read_closed bb' = bb_read_closed bb \<and> bb_write_closed bb' = bb_write_closed bb"
    by (cases rule: pipe_read_cases[where sz = n]) (auto simp: o)
qed

lemma rw_ok_write: "f_writeable fl \<Longrightarrow> rw_ok (\<lambda>bb. pipe_write bb d) fl"
  unfolding rw_ok_def
proof (intro allI impI)
  fix bb assume "f_writeable fl" "bb_ok bb" "f_writeable fl \<longrightarrow> \<not> bb_write_closed bb"
  then have o: "bb_ok bb" "\<not> bb_write_closed bb" by auto
  then show "\<exists>bb' out. pipe_write bb d = Inr (bb', out) \<and> bb_ok bb' \<and> bb_read_closed bb' = bb_read_closed bb \<and> bb_write_closed bb' = bb_write_closed bb"
    by (cases rule: pipe_write_cases[where d = d]) (auto simp: o)
qed

lemma pipe_transfer_total:
  assumes inv: "pipe_inv st" and f: "vf_files st f = Some fl" "f_type fl = pipe_file" and op: "rw_ok op fl"
  shows "\<exists>st' out. pipe_transfer st f op = Inr (st', out) \<and> pipe_inv st'"
proof -
  obtain vn bb where vn: "vf_nodes st (f_vnode fl) = Some vn" "v_bb vn = Some bb" "bb_ok bb"
    "f_readable fl \<longrightarrow> \<not> bb_read_closed bb" "f_writeable fl \<longrightarrow> \<not> bb_write_closed bb"
    using pipe_invD(1)[OF inv f] by (auto simp: pipe_open_def split: option.splits)
  then obtain bb' out where r: "op bb = Inr (bb', out)" "bb_ok bb'" "bb_read_closed bb' = bb_read_closed bb" "bb_write_closed bb' = bb_write_closed bb"
    using op unfolding rw_ok_def by blast
  let ?st = "st\<lparr>vf_nodes := (vf_nodes st)(f_vnode fl \<mapsto> vn\<lparr>v_bb := Some bb'\<rparr>)\<rparr>"
  have op': "pipe_open ?st gl" if "pipe_open st gl" for gl
    using that vn(1,2) r(2-4) by (auto simp: pipe_open_def split: option.splits)
  have "pipe_inv ?st"
  proof (rule pipe_invI, goal_cases)
    case (1 g gl)
    then show ?case using pipe_invD(1)[OF inv, of g gl] op' by simp
  next
    case (2 g h gl hl)
    then show ?case using pipe_invD(2)[OF inv, of g gl h hl] by simp
  qed
  then show ?thesis using vn r(1) f by (simp add: pipe_transfer_def with_file_def)
qed

section \<open>Steps\<close>

inductive vfs_step :: "nat set \<times> vfs \<Rightarrow> nat set \<times> vfs \<Rightarrow> bool" where
  close: "t \<in> L \<Longrightarrow> sys_close st t fd = Inr (st', r) \<Longrightarrow> vfs_step (L, st) (L, st')"
| dup2: "t \<in> L \<Longrightarrow> oldfd \<noteq> newfd \<Longrightarrow> sys_dup2 st t oldfd newfd = Inr (st', r) \<Longrightarrow> vfs_step (L, st) (L, st')"
| pipe: "t \<in> L \<Longrightarrow> vf_files st r1 = None \<Longrightarrow> vf_files st w1 = None \<Longrightarrow> r1 \<noteq> w1 \<Longrightarrow> vf_nodes st v = None
    \<Longrightarrow> sys_pipe st t (Some r1) (Some w1) (Some v) (Some bb) = Inr (st', r) \<Longrightarrow> vfs_step (L, st) (L, st')"
| lseek: "t \<in> L \<Longrightarrow> sys_lseek isize st t fd off origin = Inr (st', q) \<Longrightarrow> vfs_step (L, st) (L, st')"
| rw_start: "t \<in> L \<Longrightarrow> rw_begin check st t rd fd addr sz = Inr (st', out) \<Longrightarrow> vfs_step (L, st) (L, st')"
| pread: "f \<in> set (vf_calls st) \<Longrightarrow> vf_files st f = Some fl \<Longrightarrow> f_type fl = pipe_file \<Longrightarrow> f_readable fl
    \<Longrightarrow> pipe_transfer st f (\<lambda>bb. pipe_read bb n) = Inr (st', pout) \<Longrightarrow> vfs_step (L, st) (L, st')"
| pwrite: "f \<in> set (vf_calls st) \<Longrightarrow> vf_files st f = Some fl \<Longrightarrow> f_type fl = pipe_file \<Longrightarrow> f_writeable fl
    \<Longrightarrow> pipe_transfer st f (\<lambda>bb. pipe_write bb data) = Inr (st', pout) \<Longrightarrow> vfs_step (L, st) (L, st')"
| rw_stop: "f \<in> set (vf_calls st) \<Longrightarrow> rw_end st f = Inr st' \<Longrightarrow> vfs_step (L, st) (L, st')"
| exit: "t \<in> L \<Longrightarrow> exit_fds st t = Inr st' \<Longrightarrow> vfs_step (L, st) (L - {t}, st')"
| fork: "t \<in> L \<Longrightarrow> fork_fds st t = Inr (st', t') \<Longrightarrow> vfs_step (L, st) (insert t' L, st')"
| proc_setup: "vf_files st f = None \<Longrightarrow> vf_nodes st v = None \<Longrightarrow> setup_fds st f v = (st', t') \<Longrightarrow> vfs_step (L, st) (insert t' L, st')"

definition vfs_empty :: vfs where
  "vfs_empty = \<lparr>vf_files = Map.empty, vf_nodes = Map.empty, vf_tables = [], vf_calls = []\<rparr>"

definition vfs_reachable :: "nat set \<Rightarrow> vfs \<Rightarrow> bool" where
  "vfs_reachable L st \<longleftrightarrow> vfs_step\<^sup>*\<^sup>* ({}, vfs_empty) (L, st)"

lemma vfs_empty_ok: "vfs_ok {} vfs_empty"
  by (simp add: vfs_ok_def vfs_empty_def vfs_inv_def refs_of_def)

lemma vfs_step_ok: "vfs_step p q \<Longrightarrow> vfs_ok (fst p) (snd p) \<Longrightarrow> vfs_ok (fst q) (snd q)"
proof (induction rule: vfs_step.induct)
  case (close t L st fd st' r) then show ?case using sys_close_ok[of L st t fd] by auto
next
  case (dup2 t L oldfd newfd st st' r) then show ?case using sys_dup2_ok[of L st t oldfd newfd] by auto
next
  case (pipe t L st r1 w1 v bb st' r) then show ?case using sys_pipe_ok[of L st t r1 w1 v bb] by auto
next
  case (lseek t L isize st fd off origin st' q) then show ?case using sys_lseek_ok[of L st t isize fd off origin] by auto
next
  case (rw_start t L check st rd fd addr sz st' out) then show ?case using rw_begin_ok[of L st t check rd fd addr sz] by auto
next
  case (pread f st fl n st' pout L) then show ?case using pipe_transfer_ok by auto
next
  case (pwrite f st fl data st' pout L) then show ?case using pipe_transfer_ok by auto
next
  case (rw_stop f st st' L) then show ?case using rw_end_ok[of L st f] by auto
next
  case (exit t L st st') then show ?case using exit_fds_ok[of L st t] by auto
next
  case (fork t L st st' t') then show ?case using fork_fds_ok[of L st t] by auto
next
  case (proc_setup st f v st' t' L) then show ?case using setup_fds_ok[of L st f v] by (auto simp: setup_fds_def)
qed

lemma sys_pipe_pipe:
  assumes ok: "vfs_ok L st" and t: "t \<in> L" and inv: "pipe_inv st"
    and fresh: "vf_files st r1 = None" "vf_files st w1 = None" "r1 \<noteq> w1" "vf_nodes st v = None"
    and run: "sys_pipe st t (Some r1) (Some w1) (Some v) (Some bb) = Inr (st', r)"
  shows "pipe_inv st'"
proof (cases "\<exists>rfd wfd. pipe_fds (vf_tables st ! t) 0 None = (Some rfd, Some wfd)")
  case True
  then obtain rfd wfd where "pipe_fds (vf_tables st ! t) 0 None = (Some rfd, Some wfd)" by blast
  from sys_pipe_new[OF ok t fresh this, of bb] show ?thesis
    using run by (intro new_pipe_inv[OF vfs_okD(4)[OF ok] inv fresh(3,4)]) auto
next
  case False
  then show ?thesis using inv run by (auto simp: sys_pipe_def split: prod.splits option.splits)
qed

lemma sys_close_pipe:
  assumes "vfs_inv R st" "pipe_inv st" "sys_close st t fd = Inr (st', r)"
  shows "pipe_inv st'"
  using assms file_deref_pipe[OF assms(1,2)] by (auto simp: sys_close_def rbind_eq_Inr split: if_splits)

lemma sys_dup2_pipe:
  assumes "vfs_inv R st" "pipe_inv st" "sys_dup2 st t oldfd newfd = Inr (st', r)"
  shows "pipe_inv st'"
proof -
  have d: "pipe_inv st1" if "(case vf_tables st ! t ! nat newfd of None \<Rightarrow> Inr st | Some f \<Rightarrow> file_deref st f) = Inr st1" for st1
    using that assms(2) file_deref_pipe[OF assms(1,2)] by (auto split: option.splits)
  have s: "pipe_inv (set_file st2 f (fl\<lparr>f_refs := x\<rparr>))" if "pipe_inv st2" "vf_files st2 f = Some fl" for st2 f fl x
    using that by (intro pipe_inv_frame[OF that(1)]) (auto simp: set_file_def f_core_def)
  have w: "pipe_inv st2 \<Longrightarrow> with_file st2 f (\<lambda>fl. Inr (set_file st2 f (fl\<lparr>f_refs := f_refs fl + 1\<rparr>), 0)) = Inr (st', r) \<Longrightarrow> pipe_inv st'" for st2 f
    using s[of st2 f] by (auto simp: with_file_def split: option.splits)
  show ?thesis
  proof (cases "oldfd < 0 \<or> newfd < 0 \<or> oldfd \<ge> int NFDS \<or> newfd \<ge> int NFDS \<or> vf_tables st ! t ! nat oldfd = None")
    case True
    then show ?thesis using assms(2,3) by (simp add: sys_dup2_def)
  next
    case False
    then obtain st1 where st1: "(case vf_tables st ! t ! nat newfd of None \<Rightarrow> Inr st | Some f \<Rightarrow> file_deref st f) = Inr st1"
      "let st2 = set_fd st1 t (nat newfd) (vf_tables st1 ! t ! nat oldfd); f = the (vf_tables st2 ! t ! nat oldfd)
       in with_file st2 f (\<lambda>fl. Inr (set_file st2 f (fl\<lparr>f_refs := f_refs fl + 1\<rparr>), 0)) = Inr (st', r)"
      using assms(3) by (auto simp: sys_dup2_def rbind_eq_Inr Let_def)
    then have "pipe_inv (set_fd st1 t (nat newfd) x)" for x using d[of st1] by simp
    then show ?thesis by (rule w) (use st1(2) in \<open>simp only: Let_def\<close>)
  qed
qed

lemma sys_lseek_pipe:
  assumes "pipe_inv st" "sys_lseek isize st t fd off origin = Inr (st', r)"
  shows "pipe_inv st'"
proof -
  have s: "pipe_inv (fst (seek_to st f fl x))" if "vf_files st f = Some fl" for f fl x
    using that by (intro pipe_inv_frame[OF assms(1)]) (auto simp: seek_to_def Let_def set_file_def f_core_def)
  have "pipe_inv st'" if "seek_to st f fl x = (st', r)" "vf_files st f = Some fl" for f fl x using s[OF that(2), of x] that(1) by simp
  then show ?thesis using assms by (auto simp: sys_lseek_def with_file_def Let_def split: if_splits option.splits)
qed

lemma rw_begin_pipe: "pipe_inv st \<Longrightarrow> rw_begin check st t rd fd addr sz = Inr (st', out) \<Longrightarrow> pipe_inv st'"
  by (rule pipe_inv_frame, assumption)
    (auto simp: rw_begin_def with_file_def Let_def set_file_def f_core_def split: if_splits option.splits)

lemma vfs_step_pipe: "vfs_step p q \<Longrightarrow> vfs_ok (fst p) (snd p) \<Longrightarrow> pipe_inv (snd p) \<Longrightarrow> pipe_inv (snd q)"
proof (induction rule: vfs_step.induct)
  case (close t L st fd st' r) then show ?case using sys_close_pipe[of _ st t fd st' r] vfs_okD(4) by auto
next
  case (dup2 t L oldfd newfd st st' r) then show ?case using sys_dup2_pipe[of _ st t oldfd newfd st' r] vfs_okD(4) by auto
next
  case (pipe t L st r1 w1 v bb st' r) then show ?case using sys_pipe_pipe[of L st t r1 w1 v bb] by auto
next
  case (lseek t L isize st fd off origin st' q) then show ?case using sys_lseek_pipe by auto
next
  case (rw_start t L check st rd fd addr sz st' out) then show ?case using rw_begin_pipe by auto
next
  case (pread f st fl n st' pout L) then show ?case using pipe_transfer_total[OF _ _ _ rw_ok_read, of st f fl n] by auto
next
  case (pwrite f st fl data st' pout L) then show ?case using pipe_transfer_total[OF _ _ _ rw_ok_write, of st f fl data] by auto
next
  case (rw_stop f st st' L)
  let ?st = "st\<lparr>vf_calls := remove1 f (vf_calls st)\<rparr>"
  have "vfs_inv (refs_of L st) ?st" "pipe_inv ?st" using rw_stop.prems vfs_okD(4)[of L st] by auto
  from file_deref_pipe[OF this] show ?case using rw_stop.hyps by (simp add: rw_end_def)
next
  case (exit t L st st')
  have "count_list (vf_tables st ! t) (Some f) \<le> refs_of L st f" for f
    using sum.remove[OF vfs_okD(1)[OF exit.prems(1)], of t "\<lambda>t. count_list (vf_tables st ! t) (Some f)"] exit.hyps
    by (simp add: refs_of_def)
  then show ?case using exit deref_all_pipe[OF vfs_okD(4), of L st "map the (filter (\<lambda>x. x \<noteq> None) (vf_tables st ! t))" st']
    unfolding exit_fds_def count_list_map_the by simp
next
  case (fork t L st st' t') then show ?case using clone_all_pipe by (auto simp: fork_fds_def Let_def rbind_eq_Inr)
next
  case (proc_setup st f v st' t' L) then show ?case using setup_pipe_inv[of _ st v f] vfs_okD(4) by fastforce
qed

lemma vfs_reachable_inv:
  assumes "vfs_reachable L st"
  shows "vfs_ok L st" "pipe_inv st"
proof -
  have "vfs_ok (fst q) (snd q) \<and> pipe_inv (snd q)" if "vfs_step\<^sup>*\<^sup>* ({}, vfs_empty) q" for q
    using that
  proof (induction rule: rtranclp_induct)
    case base
    then show ?case by (simp add: vfs_empty_ok) (simp add: pipe_inv_def vfs_empty_def)
  next
    case (step y z)
    then show ?case using vfs_step_ok vfs_step_pipe by blast
  qed
  from this[of "(L, st)"] show "vfs_ok L st" "pipe_inv st" using assms by (auto simp: vfs_reachable_def)
qed

section \<open>Properties\<close>


definition demo_vfs :: vfs where
  "demo_vfs = fst (setup_fds vfs_empty 7 9)"

lemma demo_reachable: "vfs_reachable {0} demo_vfs"
proof -
  have "vfs_step ({}, vfs_empty) (insert 0 {}, demo_vfs)"
    by (rule vfs_step.proc_setup[where f = 7 and v = 9]) (simp_all add: vfs_empty_def demo_vfs_def setup_fds_def)
  then show ?thesis by (auto simp: vfs_reachable_def)
qed




text \<open>
  C31: \<open>dup2\<close> of a descriptor onto itself drops the reference before it takes the new one: when the
  file has other references the state is unchanged and 0 is returned, and when it has no other the
  file is freed and the call then uses it after that.
\<close>
theorem dup2_same_fd:
  assumes r: "vfs_reachable L st" and t: "t \<in> L" and fd: "\<not> bad_fd st t fd"
  shows "sys_dup2 st t fd fd = (if refs_of L st (the (vf_tables st ! t ! nat fd)) = 1 then Inl Use_After_Free else Inr (st, 0))"
proof -
  note ok = vfs_reachable_inv(1)[OF r]
  obtain f fl where f: "vf_tables st ! t ! nat fd = Some f" "nat fd < NFDS" "vf_files st f = Some fl" "0 < refs_of L st f"
    using bad_fd_file[OF ok t fd] by blast
  have rf: "f_refs fl = int (refs_of L st f)" using vfs_invD(3)[OF vfs_okD(4)[OF ok] f(3)] by blast
  have nb: "\<not> fd < 0" "\<not> fd \<ge> int NFDS" using fd by (auto simp: bad_fd_def)
  have tl: "t < length (vf_tables st)" "nat fd < length (vf_tables st ! t)" using vfs_okD(2,3)[OF ok t] f(2) by auto
  show ?thesis
  proof (cases "refs_of L st f = 1")
    case True
    obtain st1 where st1: "file_delete st f fl = Inr st1" "vf_tables st1 = vf_tables st" using file_delete_inv[OF vfs_okD(4)[OF ok] f(3)] by blast
    have "vf_files st1 f = None" using st1(1) by (auto simp: file_delete_def assert_then_def Let_def split: option.splits if_splits)
    then show ?thesis using True rf f nb tl st1 by (simp add: sys_dup2_def file_deref_def with_file_def set_fd_def Let_def)
  next
    case False
    let ?st1 = "set_file st f (fl\<lparr>f_refs := f_refs fl - 1\<rparr>)"
    have d: "file_deref st f = Inr ?st1" using False rf f(3,4) by (simp add: file_deref_def with_file_def)
    have "set_fd ?st1 t (nat fd) (Some f) = ?st1"
      using f(1) list_update_id[of "vf_tables st ! t" "nat fd"] by (simp add: set_fd_def set_file_def)
    moreover have "set_file ?st1 f (fl\<lparr>f_refs := int (refs_of L st f)\<rparr>) = st"
    proof -
      have "fl\<lparr>f_refs := int (refs_of L st f)\<rparr> = fl" using rf by (cases fl) simp
      then show ?thesis using f(3) by (simp add: set_file_def fun_upd_idem)
    qed
    ultimately show ?thesis using False rf f nb d by (simp add: sys_dup2_def with_file_def Let_def)
  qed
qed

theorem dup2_same_fd_witness:
  "\<not> bad_fd demo_vfs 0 1 \<and> sys_dup2 demo_vfs 0 1 1 = Inr (demo_vfs, 0)"
proof -
  have b: "\<not> bad_fd demo_vfs 0 1" by (simp add: bad_fd_def demo_vfs_def setup_fds_def vfs_empty_def)
  have r: "refs_of {0} demo_vfs (the (vf_tables demo_vfs ! 0 ! nat 1)) = 3" by (simp add: refs_of_def demo_vfs_def setup_fds_def vfs_empty_def)
  show ?thesis using b dup2_same_fd[OF demo_reachable _ b] r by simp
qed

lemma rw_ok_pipe_read:
  assumes "bb_ok bb" "\<not> bb_read_closed bb" "0 < bb_len bb"
  shows "\<exists>bb'. pipe_read bb n = Inr (bb', Return (int (min n (bb_len bb))) (take n (bb_contents bb)) True)"
  using assms(1,2) by (cases rule: pipe_read_cases[where sz = n]) (use assms(3) in auto)

lemma new_pipe_write:
  assumes "d \<noteq> []" "length d \<le> BBUFFER_SIZE"
  shows "\<exists>bb'. pipe_write bbuffer_new d = Inr (bb', Return (int (length d)) [] True) \<and> bb_ok bb' \<and> bb_contents bb' = d
    \<and> \<not> bb_read_closed bb' \<and> 0 < bb_len bb'"
proof -
  have c: "\<not> bb_write_closed bbuffer_new" "\<not> bb_read_closed bbuffer_new" "bb_len bbuffer_new = 0" by (simp_all add: bbuffer_new_def)
  show ?thesis using bbuffer_new_ok(1) c(1)
  proof (cases rule: pipe_write_cases[where d = d])
    case (data bb')
    then have "bb_contents bb' = d" using assms c bbuffer_new_ok(2) by simp
    then have "bb_len bb' = length d" using length_bb_contents[of bb'] by simp
    then show ?thesis using data assms c bbuffer_new_ok(2) by auto
  qed (use c in simp_all)
qed

lemma take_bit_of_unat_64: "take_bit 64 (unat (w :: u64)) = unat w"
  by (rule take_bit_nat_eq_self) (use unsigned_less[of w] in simp)

lemma fd_pair_word:
  assumes "a < NFDS" "b < NFDS"
  shows "unat (take_bit 32 (of_nat a OR push_bit 32 (of_nat b) :: u64)) = a" "unat (drop_bit 32 (of_nat a OR push_bit 32 (of_nat b) :: u64)) = b"
proof -
  have u: "unat (of_nat a OR push_bit 32 (of_nat b) :: u64) = a OR push_bit 32 b"
  proof -
    have "take_bit 64 a = a" "take_bit 64 b = b" "take_bit 64 (push_bit 32 b) = push_bit 32 b"
      using assms by (simp_all add: take_bit_nat_eq_self push_bit_eq_mult)
    then show ?thesis by (simp only: unsigned_or_eq unsigned_push_bit_eq unsigned_of_nat) simp
  qed
  have a: "take_bit 32 a = a" "drop_bit 32 a = 0" using assms(1) by (simp_all add: take_bit_nat_eq_self drop_bit_eq_div)
  show "unat (take_bit 32 (of_nat a OR push_bit 32 (of_nat b) :: u64)) = a"
    unfolding unsigned_take_bit_eq u by (simp only: take_bit_or a take_bit_push_bit) simp
  have "take_bit 64 (a OR push_bit 32 b) = a OR push_bit 32 b" using u by (metis take_bit_of_unat_64)
  then show "unat (drop_bit 32 (of_nat a OR push_bit 32 (of_nat b) :: u64)) = b"
    unfolding unsigned_drop_bit_eq u by (simp add: drop_bit_or a drop_bit_push_bit)
qed

text \<open>
  \<open>SYSCALL_PIPE\<close> returns two descriptors of the process, packed into the two halves of the result, which
  name the read end and the write end of one new pipe: what is then written to the write end, up to
  the capacity of the buffer, is what a read of the read end returns.
\<close>
theorem sys_pipe_roundtrip:
  assumes r: "vfs_reachable L st" and t: "t \<in> L"
    and fresh: "vf_files st r1 = None" "vf_files st w1 = None" "r1 \<noteq> w1" "vf_nodes st v = None"
    and fds: "pipe_fds (vf_tables st ! t) 0 None = (Some rfd, Some wfd)"
    and d: "d \<noteq> []" "length d \<le> BBUFFER_SIZE"
  shows "\<exists>st1 ret st2 st3. sys_pipe st t (Some r1) (Some w1) (Some v) (Some bb) = Inr (st1, ret)
    \<and> vf_tables st1 ! t ! unat (take_bit 32 ret) = Some r1 \<and> vf_tables st1 ! t ! unat (drop_bit 32 ret) = Some w1
    \<and> pipe_transfer st1 w1 (\<lambda>bb. pipe_write bb d) = Inr (st2, Return (int (length d)) [] True)
    \<and> pipe_transfer st2 r1 (\<lambda>bb. pipe_read bb n) = Inr (st3, Return (int (min n (length d))) (take n d) True)"
proof -
  note ok = vfs_reachable_inv(1)[OF r]
  have p: "rfd < wfd" "wfd < NFDS" using pipe_fds_found[OF fds] vfs_okD(3)[OF ok t] by auto
  have tl: "t < length (vf_tables st)" "length (vf_tables st ! t) = NFDS" using vfs_okD(2,3)[OF ok t] by auto
  obtain st1 where st1: "sys_pipe st t (Some r1) (Some w1) (Some v) (Some bb) = Inr (st1, of_nat rfd OR push_bit 32 (of_nat wfd))"
    "vf_tables st1 = (vf_tables st)[t := (vf_tables st ! t)[rfd := Some r1, wfd := Some w1]]"
    "vf_files st1 = (vf_files st)(r1 \<mapsto> new_file pipe_file True False v, w1 \<mapsto> new_file pipe_file False True v)"
    "vf_nodes st1 = (vf_nodes st)(v \<mapsto> \<lparr>v_class = VN_pipe, v_bb = Some bbuffer_new, v_refs = 2\<rparr>)"
    using sys_pipe_new[OF ok t fresh fds] by blast
  obtain bb1 where w: "pipe_write bbuffer_new d = Inr (bb1, Return (int (length d)) [] True)" "bb_ok bb1" "bb_contents bb1 = d"
    "\<not> bb_read_closed bb1" "0 < bb_len bb1" using new_pipe_write[OF d] by blast
  have len: "bb_len bb1 = length d" using length_bb_contents[of bb1] w(3) by simp
  obtain bb2 where rd: "pipe_read bb1 n = Inr (bb2, Return (int (min n (length d))) (take n d) True)"
    using rw_ok_pipe_read[OF w(2,4,5), of n] w(3) len by auto
  let ?st2 = "st1\<lparr>vf_nodes := (vf_nodes st1)(v \<mapsto> \<lparr>v_class = VN_pipe, v_bb = Some bb1, v_refs = 2\<rparr>)\<rparr>"
  have "pipe_transfer st1 w1 (\<lambda>bb. pipe_write bb d) = Inr (?st2, Return (int (length d)) [] True)"
    using w(1) by (simp add: pipe_transfer_def with_file_def st1 new_file_def)
  moreover have "\<exists>st3. pipe_transfer ?st2 r1 (\<lambda>bb. pipe_read bb n) = Inr (st3, Return (int (min n (length d))) (take n d) True)"
    using rd fresh(3) by (simp add: pipe_transfer_def with_file_def st1 new_file_def)
  moreover have "vf_tables st1 ! t ! rfd = Some r1" "vf_tables st1 ! t ! wfd = Some w1" using p tl by (auto simp: st1(2))
  moreover have "unat (take_bit 32 (of_nat rfd OR push_bit 32 (of_nat wfd) :: u64)) = rfd" "unat (drop_bit 32 (of_nat rfd OR push_bit 32 (of_nat wfd) :: u64)) = wfd"
    using fd_pair_word[of rfd wfd] p by simp_all
  ultimately show ?thesis using st1(1) by auto
qed

lemma demo_table: "vf_tables demo_vfs ! 0 = [Some 7, Some 7, Some 7] @ replicate 253 None"
  by (simp add: demo_vfs_def setup_fds_def vfs_empty_def)

theorem sys_pipe_roundtrip_witness:
  "pipe_fds (vf_tables demo_vfs ! 0) 0 None = (Some 3, Some 4)
   \<and> (\<exists>st1 ret st2 st3. sys_pipe demo_vfs 0 (Some 20) (Some 21) (Some 22) (Some 23) = Inr (st1, ret)
     \<and> vf_tables st1 ! 0 ! unat (take_bit 32 ret) = Some 20 \<and> vf_tables st1 ! 0 ! unat (drop_bit 32 ret) = Some 21
     \<and> pipe_transfer st1 21 (\<lambda>bb. pipe_write bb [104, 105]) = Inr (st2, Return 2 [] True)
     \<and> pipe_transfer st2 20 (\<lambda>bb. pipe_read bb 1) = Inr (st3, Return 1 [104] True))"
proof -
  have f: "pipe_fds (vf_tables demo_vfs ! 0) 0 None = (Some 3, Some 4)" by (simp add: demo_table numeral_eq_Suc)
  have "vf_files demo_vfs 20 = None" "vf_files demo_vfs 21 = None" "vf_nodes demo_vfs 22 = None"
    by (simp_all add: demo_vfs_def setup_fds_def vfs_empty_def)
  from sys_pipe_roundtrip[OF demo_reachable _ this(1,2) _ this(3) f, of "[104, 105]" 23 1] f show ?thesis by simp
qed

text \<open>
  \<open>process_fork\<close> gives the child exactly the descriptors below the first unused one of the parent,
  each with one more reference to its file, and leaves the parent's table alone.
\<close>
theorem fork_shares_prefix:
  assumes r: "vfs_reachable L st" and t: "t \<in> L"
  shows "\<exists>st' t'. fork_fds st t = Inr (st', t') \<and> t' \<notin> L \<and> vf_tables st' ! t = vf_tables st ! t
    \<and> (\<forall>fd < NFDS. vf_tables st' ! t' ! fd = (if \<forall>i\<le>fd. vf_tables st ! t ! i \<noteq> None then vf_tables st ! t ! fd else None))
    \<and> vfs_reachable (insert t' L) st'"
proof -
  note ok = vfs_reachable_inv(1)[OF r]
  let ?tab = "vf_tables st ! t"
  let ?sh = "takeWhile (\<lambda>x. x \<noteq> None) ?tab"
  have tl: "t < length (vf_tables st)" "length ?tab = NFDS" using vfs_okD(2,3)[OF ok t] by auto
  obtain st' where st': "fork_fds st t = Inr (st', length (vf_tables st))" using fork_fds_ok[OF ok t] by blast
  have "vf_tables st' = vf_tables st @ [?sh @ replicate (NFDS - length ?sh) None]"
  proof -
    obtain st1 where c: "clone_all (map the ?sh) st = Inr st1" "st' = st1\<lparr>vf_tables := vf_tables st1 @ [?sh @ replicate (NFDS - length ?sh) None]\<rparr>"
      using st' by (auto simp: fork_fds_def Let_def rbind_eq_Inr)
    have "vf_tables st1 = vf_tables st" using c(1) clone_all_tables by blast
    then show ?thesis using c(2) by simp
  qed
  moreover have "(?sh @ replicate (NFDS - length ?sh) None) ! fd = (if \<forall>i\<le>fd. ?tab ! i \<noteq> None then ?tab ! fd else None)" if "fd < NFDS" for fd
  proof (cases "fd < length ?sh")
    case True
    then have "\<forall>i\<le>fd. ?tab ! i \<noteq> None" using nth_mem[of _ ?sh] takeWhile_nth[of _ "\<lambda>x. x \<noteq> None" ?tab] set_takeWhileD
      by (metis (mono_tags, lifting) le_less_trans)
    then show ?thesis using True by (simp add: nth_append takeWhile_nth)
  next
    case False
    then have "?tab ! length ?sh = None" "length ?sh \<le> fd" using nth_length_takeWhile[of "\<lambda>x. x \<noteq> None" ?tab] that tl by auto
    then show ?thesis using False that by (auto simp: nth_append)
  qed
  moreover have "length (vf_tables st) \<notin> L" using vfs_okD(2)[OF ok] by blast
  moreover have "vfs_reachable (insert (length (vf_tables st)) L) st'"
    using r vfs_step.fork[OF t st'] unfolding vfs_reachable_def by (rule rtranclp.rtrancl_into_rtrancl)
  ultimately show ?thesis using st' tl by (intro exI[of _ st'] exI[of _ "length (vf_tables st)"]) (auto simp: nth_append)
qed

theorem fork_shares_prefix_witness:
  "\<exists>st' t'. fork_fds demo_vfs 0 = Inr (st', t') \<and> vf_tables st' ! t' ! 2 = Some 7 \<and> vf_tables st' ! t' ! 3 = None"
proof -
  obtain st' t' where s: "fork_fds demo_vfs 0 = Inr (st', t')"
    and c: "\<forall>fd < NFDS. vf_tables st' ! t' ! fd = (if \<forall>i\<le>fd. vf_tables demo_vfs ! 0 ! i \<noteq> None then vf_tables demo_vfs ! 0 ! fd else None)"
    using fork_shares_prefix[OF demo_reachable, of 0] by auto
  have t2: "\<forall>i\<le>2. vf_tables demo_vfs ! 0 ! i \<noteq> None" unfolding demo_table by (auto simp: le_Suc_eq numeral_2_eq_2)
  have t3: "vf_tables demo_vfs ! 0 ! 3 = None" unfolding demo_table by (simp add: nth_append)
  have "vf_tables st' ! t' ! 2 = Some 7" using c[rule_format, of 2] t2 by (simp add: demo_table)
  moreover have "vf_tables st' ! t' ! 3 = None" using c[rule_format, of 3] t3 by auto
  ultimately show ?thesis using s by blast
qed

end
