(* ===== verification/Vmiter_Correct.thy ===== *)
theory Vmiter_Correct
  imports Vmiter
begin

text \<open>
  Correctness of the page-table iterator: a repositioned iterator stands where the hardware walk ends,
  \<open>check_range\<close> decides whether a whole range is accessible, and \<open>map\<close> changes the mapping of one page only.
\<close>

section \<open>Mapping\<close>

text \<open>
  \<open>table_at m pt va d\<close> is the page-table page at depth \<open>d\<close> (level \<open>3 - d\<close>) of the walk for \<open>va\<close>.
\<close>

fun table_at :: "ptmem \<Rightarrow> u64 \<Rightarrow> u64 \<Rightarrow> nat \<Rightarrow> u64 option" where
  "table_at m pt va 0 = Some pt"
| "table_at m pt va (Suc d) =
     (case table_at m pt va d of
        None \<Rightarrow> None
      | Some t \<Rightarrow> if vm_table (m t (pageindex va (3 - d))) then Some (m t (pageindex va (3 - d)) AND PTE_PAMASK) else None)"

text \<open>Page tables are trees: a page is reached at one depth only, and through one entry.\<close>

definition pt_tree :: "ptmem \<Rightarrow> u64 \<Rightarrow> bool" where
  "pt_tree m pt \<longleftrightarrow> (\<forall>va va' d d' t. d \<le> 3 \<longrightarrow> d' \<le> 3 \<longrightarrow> table_at m pt va d = Some t \<longrightarrow> table_at m pt va' d' = Some t \<longrightarrow>
     d = d' \<and> same_above (3 - d) va va')"

lemma pt_treeD:
  assumes "pt_tree m pt" "d \<le> 3" "d' \<le> 3" "table_at m pt va d = Some t" "table_at m pt va' d' = Some t"
  shows "d = d'" "same_above (3 - d) va va'"
  using assms unfolding pt_tree_def by blast+

lemma table_at_mono: "table_at m pt va d = Some t \<Longrightarrow> e \<le> d \<Longrightarrow> \<exists>t'. table_at m pt va e = Some t'"
proof (induction d arbitrary: t)
  case (Suc d)
  then show ?case by (cases "e = Suc d") (auto split: option.splits if_splits)
qed auto

lemma table_at_same:
  "same_above (3 - d) va va' \<Longrightarrow> d \<le> 3 \<Longrightarrow> table_at m pt va d = table_at m pt va' d"
proof (induction d)
  case (Suc d)
  have "same_above (3 - d) va va'" using Suc.prems(1) unfolding same_above_def by auto
  moreover have "pageindex va (3 - d) = pageindex va' (3 - d)" using Suc.prems by (simp add: same_above_def)
  ultimately show ?case using Suc by (simp split: option.split)
qed simp

text \<open>Memory that agrees on the entries a walk reads gives the same tables.\<close>

lemma table_at_cong:
  assumes "\<And>e t. e < d \<Longrightarrow> table_at m pt va e = Some t \<Longrightarrow> m' t (pageindex va (3 - e)) = m t (pageindex va (3 - e))"
  shows "table_at m' pt va d = table_at m pt va d"
  using assms
proof (induction d)
  case (Suc d)
  have "table_at m' pt va d = table_at m pt va d" using Suc.IH Suc.prems by simp
  moreover have "m' t (pageindex va (3 - d)) = m t (pageindex va (3 - d))" if "table_at m pt va d = Some t" for t
    using Suc.prems[of d t] that by simp
  ultimately show ?case by (auto split: option.split)
qed simp

text \<open>The position of a walk, by depth.\<close>

primrec perm_at :: "ptmem \<Rightarrow> u64 \<Rightarrow> u64 \<Rightarrow> nat \<Rightarrow> u64" where
  "perm_at m pt va 0 = initial_perm"
| "perm_at m pt va (Suc d) = perm_at m pt va d AND m (the (table_at m pt va d)) (pageindex va (3 - d))"

definition pos_at :: "ptmem \<Rightarrow> u64 \<Rightarrow> u64 \<Rightarrow> nat \<Rightarrow> vmiter" where
  "pos_at m pt va d = \<lparr>vi_pt = pt, vi_page = the (table_at m pt va d), vi_index = pageindex va (3 - d), vi_level = 3 - d,
     vi_perm = perm_at m pt va d, vi_va = va\<rparr>"

lemma vm_down_pos:
  assumes "table_at m pt va (Suc d) \<noteq> None" "d < 3"
  shows "vm_down m (pos_at m pt va d) = vm_down m (pos_at m pt va (Suc d))"
proof -
  obtain t where t: "table_at m pt va d = Some t" "vm_table (m t (pageindex va (3 - d)))"
    using assms(1) by (auto split: option.splits if_splits)
  have "pos_at m pt va (Suc d) = (pos_at m pt va d)\<lparr>vi_perm := perm_at m pt va d AND m t (pageindex va (3 - d)), vi_level := 3 - Suc d,
      vi_page := m t (pageindex va (3 - d)) AND PTE_PAMASK, vi_index := pageindex va (3 - Suc d)\<rparr>"
    using t by (simp add: pos_at_def)
  moreover have "vm_entry m (pos_at m pt va d) = m t (pageindex va (3 - d))" using t by (simp add: pos_at_def vm_entry_def)
  ultimately show ?thesis using t assms(2) by (subst vm_down.simps) (simp add: Let_def pos_at_def)
qed

lemma vm_walk_down_pos: "table_at m pt va d \<noteq> None \<Longrightarrow> d \<le> 3 \<Longrightarrow> vm_walk m pt va = vm_down m (pos_at m pt va d)"
proof (induction d)
  case 0
  show ?case by (simp add: vm_walk_def vm_top_def pos_at_def)
next
  case (Suc d)
  have "table_at m pt va d \<noteq> None" using Suc.prems(1) by (auto split: option.splits)
  then show ?case using Suc vm_down_pos[of m pt va d] by simp
qed

lemma vm_walk_pos:
  assumes "table_at m pt va d \<noteq> None" "d \<le> 3" "d = 3 \<or> table_at m pt va (Suc d) = None"
  shows "vm_walk m pt va = pos_at m pt va d"
proof -
  obtain t where t: "table_at m pt va d = Some t" using assms(1) by blast
  have "vm_down m (pos_at m pt va d) = pos_at m pt va d"
    by (rule vm_down_final) (use assms t in \<open>auto simp: pos_at_def vm_entry_def split: if_splits\<close>)
  then show ?thesis using vm_walk_down_pos[OF assms(1,2)] by simp
qed

lemma walk_depth:
  obtains d where "d \<le> 3" "table_at m pt va d \<noteq> None" "d = 3 \<or> table_at m pt va (Suc d) = None" "vm_walk m pt va = pos_at m pt va d"
    "\<And>e. e \<le> 3 \<Longrightarrow> table_at m pt va e \<noteq> None \<longleftrightarrow> e \<le> d"
proof -
  define P where "P = (\<lambda>e. e \<le> 3 \<and> table_at m pt va e \<noteq> None)"
  define d where "d = (GREATEST e. P e)"
  have b: "P e \<Longrightarrow> e \<le> 3" for e by (simp add: P_def)
  have "P 0" by (simp add: P_def)
  then have d: "P d" unfolding d_def by (rule GreatestI_nat[where P = P and b = 3]) (rule b)
  have mx: "e \<le> d" if "P e" for e using that unfolding d_def by (rule Greatest_le_nat[where P = P and b = 3]) (rule b)
  have p: "d \<le> 3" "table_at m pt va d \<noteq> None" using d unfolding P_def by blast+
  have "\<not> P (Suc d)" using mx[of "Suc d"] by auto
  then have nx: "d = 3 \<or> table_at m pt va (Suc d) = None" using p(1) unfolding P_def by (metis Suc_leI le_neq_implies_less)
  have iff: "table_at m pt va e \<noteq> None \<longleftrightarrow> e \<le> d" if "e \<le> 3" for e
  proof
    assume "table_at m pt va e \<noteq> None"
    then show "e \<le> d" using mx[of e] that unfolding P_def by blast
  qed (use p(2) table_at_mono[of m pt va d _ e] in auto)
  show thesis by (rule that[OF p nx vm_walk_pos[OF p(2,1) nx] iff])
qed

text \<open>What an address is mapped to.\<close>

definition vm_lookup :: "ptmem \<Rightarrow> u64 \<Rightarrow> u64 \<Rightarrow> (u64 \<times> u64) option" where
  "vm_lookup m pt va = (let it = vm_walk m pt va in if vm_present m it then Some (vm_pa m it, vm_perm m it) else None)"

lemma vm_lookup_cong:
  assumes "\<And>e t. e \<le> 3 \<Longrightarrow> table_at m pt va e = Some t \<Longrightarrow> m' t (pageindex va (3 - e)) = m t (pageindex va (3 - e))"
  shows "vm_lookup m' pt va = vm_lookup m pt va"
proof -
  obtain d where d: "d \<le> 3" "table_at m pt va d \<noteq> None" "d = 3 \<or> table_at m pt va (Suc d) = None" "vm_walk m pt va = pos_at m pt va d"
    by (rule walk_depth)
  have t: "table_at m' pt va e = table_at m pt va e" if "e \<le> Suc d" "e \<le> 4" for e by (rule table_at_cong) (use assms that in auto)
  have p: "perm_at m' pt va e = perm_at m pt va e" if "e \<le> d" for e using that
  proof (induction e)
    case (Suc e)
    then obtain u where "table_at m pt va e = Some u" using table_at_mono[of m pt va d _ e] d(2) by auto
    then show ?case using Suc d(1) t[of e] assms[of e u] by simp
  qed simp
  have e: "pos_at m' pt va d = pos_at m pt va d" using t[of d] p[of d] d(1) by (simp add: pos_at_def)
  have "vm_walk m' pt va = pos_at m' pt va d" by (rule vm_walk_pos) (use d t[of d] t[of "Suc d"] in auto)
  then have w: "vm_walk m' pt va = vm_walk m pt va" using e d(4) by simp
  obtain u where u: "table_at m pt va d = Some u" using d(2) by blast
  have "vm_entry m' (vm_walk m pt va) = vm_entry m (vm_walk m pt va)" unfolding d(4) using u assms[OF d(1) u] by (simp add: vm_entry_def pos_at_def)
  then show ?thesis by (simp add: vm_lookup_def w Let_def vm_present_def vm_pa_def vm_perm_def)
qed

section \<open>Adding a page-table page\<close>

definition pt_fresh :: "ptmem \<Rightarrow> u64 \<Rightarrow> u64 \<Rightarrow> bool" where
  "pt_fresh m pt n \<longleftrightarrow> n AND PTE_PAMASK = n \<and> (\<forall>va d. d \<le> 3 \<longrightarrow> table_at m pt va d \<noteq> Some n)"

definition pt_link :: "ptmem \<Rightarrow> u64 \<Rightarrow> nat \<Rightarrow> u64 \<Rightarrow> ptmem" where
  "pt_link m t i n = (\<lambda>u j. if u = n then 0 else if u = t \<and> j = i then n OR 7 else m u j)"

lemma pamask_link:
  assumes "n AND PTE_PAMASK = n"
  shows "vm_table (n OR 7)" "(n OR 7) AND PTE_PAMASK = n" "(x AND (n OR 7)) AND 7 = x AND 7"
proof -
  have z: "n AND 0x81 = 0" by (subst assms[symmetric]) (simp add: and.assoc)
  show "vm_table (n OR 7)" using z by (simp add: vm_table_def bit.conj_disj_distrib2)
  show "(n OR 7) AND PTE_PAMASK = n" using assms by (simp add: bit.conj_disj_distrib2)
  show "(x AND (n OR 7)) AND 7 = x AND 7" by (simp add: bit_eq_iff bit_and_iff bit_or_iff) blast
qed

lemma same_above_trans: "same_above l a b \<Longrightarrow> same_above l a c \<Longrightarrow> same_above l b c"
  by (simp add: same_above_def)

lemma same_above_Suc: "d < 3 \<Longrightarrow> same_above (2 - d) va va' \<longleftrightarrow> same_above (3 - d) va va' \<and> pageindex va (3 - d) = pageindex va' (3 - d)"
proof -
  assume d: "d < 3"
  have "2 - d < j \<longleftrightarrow> 3 - d < j \<or> j = 3 - d" for j using d by auto
  then show ?thesis using d by (auto simp: same_above_def)
qed

text \<open>One turn of the loop of \<open>map\<close>: a position at depth \<open>d\<close> with an empty entry, and a fresh page.\<close>

definition pt_insert :: "ptmem \<Rightarrow> u64 \<Rightarrow> u64 \<Rightarrow> nat \<Rightarrow> u64 \<Rightarrow> u64 \<Rightarrow> bool" where
  "pt_insert m pt va d t n \<longleftrightarrow> pt_tree m pt \<and> pt_fresh m pt n \<and> d < 3 \<and> table_at m pt va d = Some t
     \<and> m t (pageindex va (3 - d)) AND PTE_P = 0"

abbreviation pt_new :: "ptmem \<Rightarrow> u64 \<Rightarrow> nat \<Rightarrow> u64 \<Rightarrow> u64 \<Rightarrow> ptmem" where
  "pt_new m va d t n \<equiv> pt_link m t (pageindex va (3 - d)) n"

lemma pt_insertD:
  assumes "pt_insert m pt va d t n"
  shows "pt_tree m pt" "n AND PTE_PAMASK = n" "d < 3" "table_at m pt va d = Some t" "m t (pageindex va (3 - d)) AND PTE_P = 0"
    "\<not> vm_table (m t (pageindex va (3 - d)))" "e \<le> 3 \<Longrightarrow> table_at m pt va' e = Some u \<Longrightarrow> u \<noteq> n"
proof -
  show e: "m t (pageindex va (3 - d)) AND PTE_P = 0" using assms by (simp add: pt_insert_def)
  show "\<not> vm_table (m t (pageindex va (3 - d)))"
  proof
    assume "vm_table (m t (pageindex va (3 - d)))"
    then have "m t (pageindex va (3 - d)) AND 0x81 = 1" by (simp add: vm_table_def)
    from arg_cong[OF this, of "\<lambda>x. x AND 1"] show False using e by (simp add: and.assoc)
  qed
qed (use assms in \<open>auto simp: pt_insert_def pt_fresh_def\<close>)

lemma insert_entry:
  assumes ins: "pt_insert m pt va d t n" and u: "e \<le> 3" "table_at m pt va' e = Some u" "e = d \<Longrightarrow> \<not> same_above (2 - d) va va'"
  shows "pt_new m va d t n u (pageindex va' (3 - e)) = m u (pageindex va' (3 - e))"
proof -
  note D = pt_insertD[OF ins]
  have "\<not> (u = t \<and> pageindex va' (3 - e) = pageindex va (3 - d))"
  proof
    assume a: "u = t \<and> pageindex va' (3 - e) = pageindex va (3 - d)"
    have "d = e" "same_above (3 - d) va va'" using pt_treeD[OF D(1) _ u(1) D(4), of va'] D(3) a u(2) by auto
    then show False using u(3) a D(3) by (simp add: same_above_Suc)
  qed
  then show ?thesis using D(7)[OF u(1,2)] by (auto simp: pt_link_def)
qed

lemma insert_table_other:
  assumes "pt_insert m pt va d t n" "\<not> same_above (2 - d) va va'" "e \<le> 4"
  shows "table_at (pt_new m va d t n) pt va' e = table_at m pt va' e"
  by (rule table_at_cong, rule insert_entry[OF assms(1)]) (use assms in auto)

lemma insert_table_below:
  assumes "pt_insert m pt va d t n" "e \<le> d"
  shows "table_at (pt_new m va d t n) pt va' e = table_at m pt va' e"
  by (rule table_at_cong, rule insert_entry[OF assms(1)]) (use assms pt_insertD(3)[OF assms(1)] in auto)

lemma insert_table_path:
  assumes ins: "pt_insert m pt va d t n" and a: "same_above (2 - d) va va'"
  shows "table_at m pt va' d = Some t" "table_at m pt va' (Suc d) = None" "table_at (pt_new m va d t n) pt va' d = Some t"
    "table_at (pt_new m va d t n) pt va' (Suc d) = Some n" "table_at (pt_new m va d t n) pt va' (Suc (Suc d)) = None"
proof -
  note D = pt_insertD[OF ins]
  have s: "same_above (3 - d) va va'" "pageindex va (3 - d) = pageindex va' (3 - d)" using a D(3) same_above_Suc by auto
  show o: "table_at m pt va' d = Some t" using table_at_same[OF s(1), of m pt] D(3,4) by simp
  show "table_at m pt va' (Suc d) = None" using o s(2) D(6) by simp
  show o2: "table_at (pt_new m va d t n) pt va' d = Some t" using o insert_table_below[OF ins] by simp
  have "t \<noteq> n" using D(7)[of d va t] D(3,4) by simp
  then show o3: "table_at (pt_new m va d t n) pt va' (Suc d) = Some n"
    using o2 s(2) pamask_link[OF D(2)] by (simp add: pt_link_def)
  have "\<not> vm_table (pt_new m va d t n n j)" for j by (simp add: pt_link_def vm_table_def)
  then show "table_at (pt_new m va d t n) pt va' (Suc (Suc d)) = None" using o3 by (simp only: table_at.simps(2)[of _ _ _ "Suc d"]) simp
qed

lemma insert_table_cases:
  assumes ins: "pt_insert m pt va d t n" and e: "e \<le> 3" "table_at (pt_new m va d t n) pt va' e = Some u"
  obtains "u = n" "e = Suc d" "same_above (2 - d) va va'" | "u \<noteq> n" "table_at m pt va' e = Some u"
proof (cases "same_above (2 - d) va va'")
  case True
  note p = insert_table_path[OF ins True]
  have "e \<le> Suc d" using table_at_mono[OF e(2), of "Suc (Suc d)"] p(5) by (cases "e \<le> Suc d") auto
  then consider "e = Suc d" | "e \<le> d" by fastforce
  then show thesis
  proof cases
    case 1
    then show ?thesis using p(4) e(2) that(1) True by auto
  next
    case 2
    then have "table_at m pt va' e = Some u" using e(2) insert_table_below[OF ins] by simp
    then show ?thesis using that(2) pt_insertD(7)[OF ins e(1)] by blast
  qed
next
  case False
  then have "table_at m pt va' e = Some u" using insert_table_other[OF ins False] e by simp
  then show ?thesis using that(2) pt_insertD(7)[OF ins e(1)] by blast
qed

lemma insert_tree:
  assumes ins: "pt_insert m pt va d t n"
  shows "pt_tree (pt_new m va d t n) pt"
  unfolding pt_tree_def
proof (intro allI impI)
  fix v1 v2 e1 e2 u
  assume e: "e1 \<le> 3" "e2 \<le> 3" and u: "table_at (pt_new m va d t n) pt v1 e1 = Some u" "table_at (pt_new m va d t n) pt v2 e2 = Some u"
  show "e1 = e2 \<and> same_above (3 - e1) v1 v2"
  proof (rule insert_table_cases[OF ins e(1) u(1)]; rule insert_table_cases[OF ins e(2) u(2)])
    assume "e1 = Suc d" "e2 = Suc d" "same_above (2 - d) va v1" "same_above (2 - d) va v2"
    then show ?thesis using same_above_trans[of "2 - d" va v1 v2] by simp
  next
    assume "table_at m pt v1 e1 = Some u" "table_at m pt v2 e2 = Some u"
    then show ?thesis using pt_treeD[OF pt_insertD(1)[OF ins] e] by blast
  qed auto
qed

lemma insert_fresh:
  assumes ins: "pt_insert m pt va d t n" and f: "pt_fresh m pt n'" "n' \<noteq> n"
  shows "pt_fresh (pt_new m va d t n) pt n'"
proof -
  have "table_at (pt_new m va d t n) pt va' e \<noteq> Some n'" if "e \<le> 3" for va' e
  proof
    assume "table_at (pt_new m va d t n) pt va' e = Some n'"
    then show False by (rule insert_table_cases[OF ins that]) (use f that in \<open>auto simp: pt_fresh_def\<close>)
  qed
  then show ?thesis using f(1) by (simp add: pt_fresh_def)
qed

lemma insert_perm: "pt_insert m pt va d t n \<Longrightarrow> e \<le> d \<Longrightarrow> perm_at (pt_new m va d t n) pt va e = perm_at m pt va e"
proof (induction e)
  case (Suc e)
  note D = pt_insertD[OF Suc.prems(1)]
  obtain u where u: "table_at m pt va e = Some u" using table_at_mono[OF D(4), of e] Suc.prems by auto
  have "pt_new m va d t n u (pageindex va (3 - e)) = m u (pageindex va (3 - e))"
    by (rule insert_entry[OF Suc.prems(1)]) (use u Suc.prems D(3) in auto)
  then show ?case using Suc u insert_table_below[OF Suc.prems(1), of e va] by simp
qed simp

lemma insert_walk:
  assumes ins: "pt_insert m pt va d t n"
  defines "m2 \<equiv> pt_new m va d t n"
  shows "vm_walk m pt va = pos_at m pt va d" "vm_walk m2 pt va = pos_at m2 pt va (Suc d)"
    "vm_down m2 (vm_walk m pt va) = vm_walk m2 pt va" "vi_level (vm_walk m2 pt va) = 2 - d"
    "vi_perm (vm_walk m2 pt va) AND 7 = vi_perm (vm_walk m pt va) AND 7" "vm_entry m2 (vm_walk m2 pt va) = 0"
proof -
  note D = pt_insertD[OF ins]
  have "same_above (2 - d) va va" by (simp add: same_above_def)
  note p = insert_table_path[OF ins this, folded m2_def]
  show w: "vm_walk m pt va = pos_at m pt va d" by (rule vm_walk_pos) (use p D(3) in auto)
  show w2: "vm_walk m2 pt va = pos_at m2 pt va (Suc d)" by (rule vm_walk_pos) (use p D(3) in auto)
  have pm: "perm_at m2 pt va d = perm_at m pt va d" using insert_perm[OF ins] by (simp add: m2_def)
  then have "pos_at m2 pt va d = pos_at m pt va d" using p by (simp add: pos_at_def)
  then show "vm_down m2 (vm_walk m pt va) = vm_walk m2 pt va" using vm_walk_down_pos[of m2 pt va d] p D(3) w by simp
  show "vi_level (vm_walk m2 pt va) = 2 - d" by (simp add: w2 pos_at_def)
  have "t \<noteq> n" using D(7)[of d va t] D(3,4) by simp
  then have "m2 t (pageindex va (3 - d)) = n OR 7" by (simp add: m2_def pt_link_def)
  then show "vi_perm (vm_walk m2 pt va) AND 7 = vi_perm (vm_walk m pt va) AND 7"
    using p(3) pm pamask_link(3)[OF D(2)] by (simp add: w w2 pos_at_def)
  have "vi_page (vm_walk m2 pt va) = n" unfolding w2 pos_at_def using p(4) by (simp del: table_at.simps)
  then show "vm_entry m2 (vm_walk m2 pt va) = 0" by (simp add: vm_entry_def m2_def pt_link_def)
qed

lemma insert_lookup:
  assumes ins: "pt_insert m pt va d t n"
  shows "vm_lookup (pt_new m va d t n) pt va' = vm_lookup m pt va'"
proof (cases "same_above (2 - d) va va'")
  case True
  let ?m2 = "pt_new m va d t n"
  note p = insert_table_path[OF ins True] and D = pt_insertD[OF ins]
  have i: "pageindex va' (3 - d) = pageindex va (3 - d)" using True D(3) same_above_Suc by simp
  have "vm_walk m pt va' = pos_at m pt va' d" by (rule vm_walk_pos) (use p D(3) in auto)
  then have "vm_lookup m pt va' = None" using p(1) D(5) i by (simp add: vm_lookup_def Let_def vm_present_def vm_entry_def pos_at_def)
  moreover have w2: "vm_walk ?m2 pt va' = pos_at ?m2 pt va' (Suc d)" by (rule vm_walk_pos) (use p D(3) in auto)
  have "vi_page (vm_walk ?m2 pt va') = n" unfolding w2 pos_at_def using p(4) by (simp del: table_at.simps)
  then have "vm_entry ?m2 (vm_walk ?m2 pt va') = 0" by (simp add: vm_entry_def pt_link_def)
  then have "vm_lookup ?m2 pt va' = None" by (simp add: vm_lookup_def Let_def vm_present_def)
  ultimately show ?thesis by simp
next
  case False
  then show ?thesis by (intro vm_lookup_cong insert_entry[OF ins]) auto
qed

section \<open>The whole call\<close>

definition allocs_ok :: "ptmem \<Rightarrow> u64 \<Rightarrow> u64 option list \<Rightarrow> bool" where
  "allocs_ok m pt allocs \<longleftrightarrow> distinct (filter (\<lambda>a. a \<noteq> None) allocs) \<and> (\<forall>n. Some n \<in> set allocs \<longrightarrow> pt_fresh m pt n)"

lemma vm_map_loop_ok:
  assumes "pt_tree m pt" "allocs_ok m pt allocs" "perm \<noteq> 0" "vi_level (vm_walk m pt va) > 0 \<longrightarrow> \<not> vm_present m (vm_walk m pt va)" "I m" "set allocs \<subseteq> A"
    and step: "\<forall>m d t n. I m \<longrightarrow> pt_insert m pt va d t n \<longrightarrow> Some n \<in> A \<longrightarrow> I (pt_new m va d t n)"
  shows "\<exists>m' ok. vm_map_loop allocs m (vm_walk m pt va) perm = Inr (m', vm_walk m' pt va, ok) \<and> pt_tree m' pt
    \<and> (\<forall>va'. vm_lookup m' pt va' = vm_lookup m pt va') \<and> (ok \<longleftrightarrow> vi_level (vm_walk m' pt va) = 0)
    \<and> (ok \<longleftrightarrow> vi_level (vm_walk m pt va) \<le> length (takeWhile (\<lambda>a. a \<noteq> None) allocs))
    \<and> vi_perm (vm_walk m' pt va) AND 7 = vi_perm (vm_walk m pt va) AND 7 \<and> I m'"
  using assms(1-6)
proof (induction allocs arbitrary: m)
  case Nil
  then show ?case by (simp add: vm_present_def)
next
  case (Cons a allocs)
  let ?it = "vm_walk m pt va"
  show ?case
  proof (cases "vi_level ?it > 0 \<and> a \<noteq> None")
    case False
    then show ?thesis using Cons.prems by (cases a) (auto simp: vm_present_def)
  next
    case True
    then obtain n where n: "a = Some n" and l: "vi_level ?it > 0" by blast
    obtain d where d: "d \<le> 3" "table_at m pt va d \<noteq> None" "d = 3 \<or> table_at m pt va (Suc d) = None" "?it = pos_at m pt va d"
      by (rule walk_depth)
    obtain t where t: "table_at m pt va d = Some t" using d(2) by blast
    have lv: "vi_level ?it = 3 - d" by (simp add: d(4) pos_at_def)
    have it: "vi_page ?it = t" "vi_index ?it = pageindex va (3 - d)" using t by (simp_all add: d(4) pos_at_def)
    have fr: "pt_fresh m pt n" using Cons.prems(2) n by (auto simp: allocs_ok_def)
    have ins: "pt_insert m pt va d t n"
      using Cons.prems(1,4) fr l lv t it by (simp add: pt_insert_def vm_present_def vm_entry_def)
    define m2 where "m2 = pt_new m va d t n"
    have tn: "t \<noteq> n" using pt_insertD(7)[OF ins d(1) t] .
    have set: "vm_set (m(n := (\<lambda>_. 0))) ?it (n OR PTE_P OR PTE_W OR PTE_U) = m2"
      using tn it by (auto simp: vm_set_def m2_def pt_link_def fun_eq_iff or.assoc)
    note w = insert_walk[OF ins, folded m2_def]
    have fr2: "allocs_ok m2 pt allocs" unfolding allocs_ok_def
    proof (intro conjI allI impI)
      show "distinct (filter (\<lambda>a. a \<noteq> None) allocs)" using Cons.prems(2) n by (simp add: allocs_ok_def)
      fix n' assume n': "Some n' \<in> set allocs"
      then have "n' \<noteq> n" "pt_fresh m pt n'" using Cons.prems(2) n by (auto simp: allocs_ok_def)
      then show "pt_fresh m2 pt n'" using insert_fresh[OF ins] by (simp add: m2_def)
    qed
    have np: "vi_level (vm_walk m2 pt va) > 0 \<longrightarrow> \<not> vm_present m2 (vm_walk m2 pt va)" using w(6) by (simp add: vm_present_def)
    have I2: "I m2" and A2: "set allocs \<subseteq> A" using step Cons.prems(5,6) ins n by (simp_all add: m2_def)
    obtain m' ok where r: "vm_map_loop allocs m2 (vm_walk m2 pt va) perm = Inr (m', vm_walk m' pt va, ok)" "pt_tree m' pt"
      "\<forall>va'. vm_lookup m' pt va' = vm_lookup m2 pt va'" "ok \<longleftrightarrow> vi_level (vm_walk m' pt va) = 0"
      "ok \<longleftrightarrow> vi_level (vm_walk m2 pt va) \<le> length (takeWhile (\<lambda>a. a \<noteq> None) allocs)"
      "vi_perm (vm_walk m' pt va) AND 7 = vi_perm (vm_walk m2 pt va) AND 7" "I m'"
      using Cons.IH[OF insert_tree[OF ins, folded m2_def] fr2 Cons.prems(3) np I2 A2] by (elim exE conjE) (rule that, assumption+)
    have "vm_map_loop (a # allocs) m ?it perm = vm_map_loop allocs m2 (vm_walk m2 pt va) perm"
      using l Cons.prems(3,4) n set w(3) by (simp add: vm_present_def Let_def)
    moreover have "vm_lookup m' pt va' = vm_lookup m pt va'" for va' using r(3) insert_lookup[OF ins, folded m2_def] by simp
    moreover have "ok \<longleftrightarrow> vi_level ?it \<le> length (takeWhile (\<lambda>a. a \<noteq> None) (a # allocs))"
      using r(5) w(4) lv l n by auto
    ultimately show ?thesis using r(1,2,4,6,7) w(5) by auto
  qed
qed

text \<open>Writing the leaf entry.\<close>

lemma leaf_table:
  assumes "vi_level (vm_walk m pt va) = 0"
  shows "table_at m pt va 3 = Some (vi_page (vm_walk m pt va))"
proof -
  obtain d where d: "d \<le> 3" "table_at m pt va d \<noteq> None" "vm_walk m pt va = pos_at m pt va d"
    by (rule walk_depth)
  have "d = 3" using assms d(1) by (simp add: d(3) pos_at_def)
  then show ?thesis using d(2,3) by (auto simp: pos_at_def)
qed

lemma leaf_write:
  fixes pe :: u64
  assumes tree: "pt_tree m pt" and l0: "vi_level (vm_walk m pt va) = 0"
  defines "m' \<equiv> vm_set m (vm_walk m pt va) pe"
  shows "pt_tree m' pt" "vm_walk m' pt va = vm_walk m pt va" "vm_entry m' (vm_walk m pt va) = pe"
    "(\<exists>j\<le>3. pageindex va j \<noteq> pageindex va' j) \<Longrightarrow> vm_lookup m' pt va' = vm_lookup m pt va'"
    "e \<le> 3 \<Longrightarrow> table_at m' pt v e = table_at m pt v e"
proof -
  obtain d where d: "d \<le> 3" "table_at m pt va d \<noteq> None" "d = 3 \<or> table_at m pt va (Suc d) = None" "vm_walk m pt va = pos_at m pt va d"
    by (rule walk_depth)
  have d3: "d = 3" using l0 d(1) by (simp add: d(4) pos_at_def)
  obtain t where t: "table_at m pt va 3 = Some t" using d(2) d3 by blast
  have it: "vi_page (vm_walk m pt va) = t" "vi_index (vm_walk m pt va) = pageindex va 0" using t by (simp_all add: d(4) d3 pos_at_def)
  have m': "m' u i = (if u = t \<and> i = pageindex va 0 then pe else m u i)" for u i by (simp add: m'_def vm_set_def it)
  have ent: "m' u (pageindex v (3 - e)) = m u (pageindex v (3 - e))" if "e \<le> 3" "table_at m pt v e = Some u" "e = 3 \<Longrightarrow> \<exists>j\<le>3. pageindex va j \<noteq> pageindex v j" for v e u
  proof -
    note h = that
    have "\<not> (u = t \<and> pageindex v (3 - e) = pageindex va 0)"
    proof
      assume a: "u = t \<and> pageindex v (3 - e) = pageindex va 0"
      have e3: "3 = e" "same_above 0 va v" using pt_treeD[OF tree _ that(1) t, of v] that(2) a by auto
      then obtain j where "j \<le> 3" "pageindex va j \<noteq> pageindex v j" using h(3) by blast
      then show False using e3 a by (cases j) (auto simp: same_above_def)
    qed
    then show ?thesis by (auto simp: m')
  qed
  have tab: "table_at m' pt v e = table_at m pt v e" if "e \<le> 3" for v e
    by (rule table_at_cong, rule ent) (use that in auto)
  then show "pt_tree m' pt" using tree unfolding pt_tree_def by simp
  show "e \<le> 3 \<Longrightarrow> table_at m' pt v e = table_at m pt v e" by (rule tab)
  have pm: "perm_at m' pt va e = perm_at m pt va e" if "e \<le> 3" for e using that
  proof (induction e)
    case (Suc e)
    then obtain u where u: "table_at m pt va e = Some u" using table_at_mono[OF t, of e] by auto
    then show ?case using Suc tab[of e va] ent[of e va u] by simp
  qed simp
  have "vm_walk m' pt va = pos_at m' pt va 3" by (rule vm_walk_pos) (use tab[of 3 va] t in auto)
  then show "vm_walk m' pt va = vm_walk m pt va" using tab[of 3 va] pm[of 3] d3 by (simp add: d(4) pos_at_def)
  show "vm_entry m' (vm_walk m pt va) = pe" by (simp add: vm_entry_def m' it)
  show "(\<exists>j\<le>3. pageindex va j \<noteq> pageindex va' j) \<Longrightarrow> vm_lookup m' pt va' = vm_lookup m pt va'"
    by (rule vm_lookup_cong, rule ent) auto
qed

section \<open>The hardware's walk\<close>

text \<open>Level, entry and accumulated permissions at which the translation of an address ends.\<close>

primrec mmu_walk :: "ptmem \<Rightarrow> nat \<Rightarrow> u64 \<Rightarrow> u64 \<Rightarrow> u64 \<Rightarrow> nat \<times> u64 \<times> u64" where
  "mmu_walk m 0 t perm va = (0, m t (pageindex va 0), perm)"
| "mmu_walk m (Suc l) t perm va =
     (let pe = m t (pageindex va (Suc l))
      in if bit pe 0 \<and> \<not> bit pe 7 then mmu_walk m l (pe AND PTE_PAMASK) (perm AND pe) va else (Suc l, pe, perm))"

lemma vm_table_bits: "vm_table pe \<longleftrightarrow> bit pe 0 \<and> \<not> bit pe 7"
proof -
  have "(0x81 :: u64) = push_bit 0 1 OR push_bit 7 1" by simp
  then have b: "bit (0x81 :: u64) k \<longleftrightarrow> k = 0 \<or> k = 7" for k by (simp only: bit_or_iff bit_push_bit_iff bit_1_iff) auto
  have "vm_table pe \<longleftrightarrow> (\<forall>k. possible_bit TYPE(u64) k \<longrightarrow> (bit pe k \<and> (k = 0 \<or> k = 7)) = (k = 0))"
  proof -
    have e: "PTE_P OR PTE_PS = (0x81 :: u64)" by simp
    show ?thesis unfolding vm_table_def e by (subst bit_eq_iff) (simp only: bit_and_iff b bit_1_iff)
  qed
  also have "\<dots> \<longleftrightarrow> bit pe 0 \<and> \<not> bit pe 7"
  proof (intro iffI allI impI)
    assume h: "\<forall>k. possible_bit TYPE(u64) k \<longrightarrow> (bit pe k \<and> (k = 0 \<or> k = 7)) = (k = 0)"
    show "bit pe 0 \<and> \<not> bit pe 7" using h[rule_format, of 0] h[rule_format, of 7] by (simp add: possible_bit_word)
  qed auto
  finally show ?thesis .
qed

lemma vm_down_mmu:
  "vi_index it = pageindex (vi_va it) (vi_level it) \<Longrightarrow>
   mmu_walk m (vi_level it) (vi_page it) (vi_perm it) (vi_va it) = (vi_level (vm_down m it), vm_entry m (vm_down m it), vi_perm (vm_down m it))"
proof (induction m it rule: vm_down.induct)
  case (1 m it)
  show ?case
  proof (cases "vi_level it > 0 \<and> vm_table (vm_entry m it)")
    case True
    then obtain l where l: "vi_level it = Suc l" using gr0_implies_Suc by blast
    let ?it = "it\<lparr>vi_perm := vi_perm it AND vm_entry m it, vi_level := vi_level it - 1,
        vi_page := vm_entry m it AND PTE_PAMASK, vi_index := pageindex (vi_va it) (vi_level it - 1)\<rparr>"
    have d: "vm_down m it = vm_down m ?it" using True by (subst vm_down.simps) (simp add: Let_def)
    have "m (vi_page it) (pageindex (vi_va it) (Suc l)) = vm_entry m it" using "1.prems" l by (simp add: vm_entry_def)
    then show ?thesis using "1.IH"[OF True refl] True l d by (simp add: Let_def vm_table_bits)
  next
    case False
    then show ?thesis using "1.prems" by (cases "vi_level it") (auto simp: vm_down_final Let_def vm_table_bits vm_entry_def)
  qed
qed

lemma vm_walk_mmu:
  "mmu_walk m 3 pt initial_perm va = (vi_level (vm_walk m pt va), vm_entry m (vm_walk m pt va), vi_perm (vm_walk m pt va))"
  using vm_down_mmu[of "vm_top pt va" m] by (simp add: vm_walk_def vm_top_def)

lemma foldl_find: "foldl (vm_real_find m) (vm_walk m pt va) vas = vm_walk m pt (last (va # vas))"
  by (induction vas arbitrary: va) (auto simp: vm_real_find_walk)

section \<open>Properties\<close>

text \<open>
  C32: However an iterator was moved before, after moving it to an address it stands at the level, entry and
  permissions that the hardware's walk from the root of the page table ends at for that address: reusing the position of the
  previous address never shows.
\<close>
theorem vmiter_find_is_walk:
  "let it = foldl (vm_real_find m) (vmiter_new m pt va) vas; a = last (va # vas)
   in vi_va it = a \<and> mmu_walk m 3 pt initial_perm a = (vi_level it, vm_entry m it, vi_perm it)"
  by (simp add: vmiter_new_walk foldl_find vm_walk_mmu)

text \<open>
  For a range that ends at or below \<open>VA_LOWEND\<close> the loop of \<open>check_range\<close> ends, within one turn per byte,
  and returns whether every byte of the range is mapped with all the permissions.
\<close>
theorem check_range_total:
  assumes "unat va + unat sz \<le> 2 ^ 47"
  shows "check_range (unat sz + 1) m (vmiter_new m pt va) sz perms =
    Some (\<forall>a. va \<le> a \<and> a < va + sz \<longrightarrow> (case mmu_walk m 3 pt initial_perm a of (l, pe, p) \<Rightarrow> pe AND p AND perms = perms))"
proof -
  have e: "unat (va + sz) = unat va + unat sz" using assms by (simp add: unat_word_ariths(1))
  show ?thesis
    unfolding check_range_def vmiter_new_walk vm_walk_fields vm_walk_mmu prod.case vm_has_perm_def[symmetric]
    by (rule check_range_loop_ok) (use assms e in simp_all)
qed

definition demo_pt :: ptmem where
  "demo_pt = (\<lambda>t i. if t = 0x1000 \<and> i = 0 then 0x2007 else if t = 0x2000 \<and> i = 0 then 0x3007
     else if t = 0x3000 \<and> i = 0 then 0x4007 else if t = 0x4000 \<and> (i = 5 \<or> i = 6) then 0x8007 else 0)"

theorem check_range_total_witness:
  "unat (0x5FF0 :: u64) + unat (0x20 :: u64) \<le> 2 ^ 47
   \<and> check_range (unat (0x20 :: u64) + 1) demo_pt (vmiter_new demo_pt 0x1000 0x5FF0) 0x20 7 =
     Some (\<forall>a. 0x5FF0 \<le> a \<and> a < 0x5FF0 + 0x20 \<longrightarrow> (case mmu_walk demo_pt 3 0x1000 initial_perm a of (l, pe, p) \<Rightarrow> pe AND p AND 7 = 7))"
  using check_range_total[of "0x5FF0" "0x20" demo_pt "0x1000" 7] by simp

text \<open>
  C33: \<open>validate_memory\<close> accepts exactly the non-null ranges that end at or below \<open>VA_LOWEND\<close>, without wrapping around,
  and whose every byte the hardware would let through with the permissions.
\<close>
theorem validate_memory_correct:
  "validate_memory m pt addr sz perms \<longleftrightarrow>
     addr \<noteq> 0 \<and> unat addr + unat sz \<le> 2 ^ 47
     \<and> list_all (\<lambda>i. case mmu_walk m 3 pt initial_perm (addr + of_nat i) of (l, pe, p) \<Rightarrow> pe AND p AND perms = perms) [0..<unat sz]"
  unfolding validate_memory_iff vm_walk_mmu by (auto simp: vm_has_perm_def list_all_iff)

lemma and_absorb_not: "x AND NOT y = 0 \<Longrightarrow> x AND y = x" for x y :: u64
  by (metis and.right_neutral bit.compl_zero bit.conj_disj_distrib bit.disj_cancel_right or.right_neutral)

lemma lookup_mapped:
  assumes w: "vm_walk m' pt va = it" "vi_level it = 0" "vm_entry m' it = pa OR perm" "vi_va it = va"
    and al: "va AND 0xFFF = 0" and pa: "pa AND PTE_PAMASK = pa" and pe: "perm AND NOT 0xFFF = 0" "perm AND PTE_P \<noteq> 0"
    and q: "perm AND NOT (vi_perm it) AND 7 = 0"
  shows "\<exists>p. vm_lookup m' pt va = Some (pa, p) \<and> p AND 7 = perm AND 7"
proof -
  have one: "perm AND 1 = 1" using pe(2) by (simp add: and_one_eq split: if_splits)
  have small: "perm AND PTE_PAMASK = 0"
  proof -
    have "perm AND PTE_PAMASK = (perm AND NOT 0xFFF) AND PTE_PAMASK" by (simp add: and.assoc)
    then show ?thesis using pe(1) by simp
  qed
  have low: "pa AND 0xFFF = 0" by (subst pa[symmetric]) (simp add: and.assoc)
  have low7: "pa AND 7 = 0" "pa AND 1 = 0" by (subst pa[symmetric], simp add: and.assoc)+
  have "(pa OR perm) AND PTE_PAMASK = pa" using pa small by (simp add: bit.conj_disj_distrib2)
  moreover have "(pa OR perm) AND 1 \<noteq> 0" using low7 one by (simp add: bit.conj_disj_distrib2)
  moreover have "(pa OR perm) AND vi_perm it AND 7 = perm AND 7"
  proof -
    have "(pa OR perm) AND 7 = perm AND 7" by (simp only: bit.conj_disj_distrib2 low7 or.left_neutral)
    then have "(pa OR perm) AND vi_perm it AND 7 = (perm AND 7) AND vi_perm it" by (simp only: and.commute[of "vi_perm it" 7] and.assoc[symmetric])
    also have "\<dots> = perm AND 7" by (rule and_absorb_not) (use q in \<open>simp add: ac_simps\<close>)
    finally show ?thesis .
  qed
  moreover have "pageoffmask 0 = 0xFFF" by (simp add: pageoffmask_def)
  ultimately show ?thesis using w al by (simp add: vm_lookup_def Let_def vm_present_def vm_pa_def vm_perm_def and.assoc)
qed

text \<open>A call of \<open>map\<close>: the page tables are completed first, which keeps every mapping and whatever the addition of an empty page table keeps, and then the entry is stored.\<close>

lemma vm_map_run:
  assumes tree: "pt_tree m pt" and fresh: "allocs_ok m pt allocs"
    and al: "va AND 0xFFF = 0" and pa: "pa AND PTE_PAMASK = pa" and pe: "perm AND PTE_P \<noteq> 0"
    and q: "perm AND NOT (vi_perm (vm_walk m pt va)) AND 7 = 0"
    and nps: "vi_level (vm_walk m pt va) > 0 \<longrightarrow> \<not> vm_present m (vm_walk m pt va)"
    and I: "I m" "\<forall>m d t n. I m \<longrightarrow> pt_insert m pt va d t n \<longrightarrow> Some n \<in> set allocs \<longrightarrow> I (pt_new m va d t n)"
  obtains m1 ok where "pt_tree m1 pt" "\<forall>va'. vm_lookup m1 pt va' = vm_lookup m pt va'" "ok \<longleftrightarrow> vi_level (vm_walk m1 pt va) = 0"
    "ok \<longleftrightarrow> vi_level (vm_walk m pt va) \<le> length (takeWhile (\<lambda>a. a \<noteq> None) allocs)" "perm AND NOT (vi_perm (vm_walk m1 pt va)) AND 7 = 0" "I m1"
    "vm_map allocs m (vm_walk m pt va) pa perm =
      (if \<not> ok then Inr (m1, vm_walk m1 pt va, - 1) else Inr (vm_set m1 (vm_walk m1 pt va) (pa OR perm), vm_walk m1 pt va, 0))"
proof -
  let ?it = "vm_walk m pt va"
  have p0: "perm \<noteq> 0" using pe by auto
  obtain m1 ok where r: "vm_map_loop allocs m ?it perm = Inr (m1, vm_walk m1 pt va, ok)" "pt_tree m1 pt"
    "\<forall>va'. vm_lookup m1 pt va' = vm_lookup m pt va'" "ok \<longleftrightarrow> vi_level (vm_walk m1 pt va) = 0"
    "ok \<longleftrightarrow> vi_level ?it \<le> length (takeWhile (\<lambda>a. a \<noteq> None) allocs)" "vi_perm (vm_walk m1 pt va) AND 7 = vi_perm ?it AND 7" "I m1"
    using vm_map_loop_ok[where I = I, OF tree fresh p0 nps I(1) subset_refl I(2)] by (elim exE conjE) (rule that, assumption+)
  have run: "vm_map allocs m ?it pa perm =
      (if \<not> ok then Inr (m1, vm_walk m1 pt va, - 1)
       else Inr (vm_set m1 (vm_walk m1 pt va) (pa OR perm), vm_walk m1 pt va, 0))"
    using al pa pe q r(1,4) by (simp add: vm_map_def)
  have "perm AND NOT (vi_perm (vm_walk m1 pt va)) AND 7 = (perm AND 7) AND NOT (vi_perm (vm_walk m1 pt va) AND 7)"
    by (simp add: bit.conj_disj_distrib bit.de_Morgan_conj ac_simps)
  also have "\<dots> = perm AND NOT (vi_perm ?it) AND 7" unfolding r(6) by (simp add: bit.conj_disj_distrib bit.de_Morgan_conj ac_simps)
  finally have "perm AND NOT (vi_perm (vm_walk m1 pt va)) AND 7 = 0" using q by simp
  then show ?thesis by (rule that[OF r(2-5) _ r(7) run])
qed

text \<open>
  C8: Mapping a page into a page table that is a tree either succeeds, and then the page is mapped to the physical page
  with the requested access, or fails because \<open>kallocpage\<close> did not return enough pages, and then the page
  stays unmapped; in both cases every other page keeps its mapping and the table is a tree.
\<close>
theorem vm_map_correct:
  assumes tree: "pt_tree m pt" and fresh: "allocs_ok m pt allocs"
    and al: "va AND 0xFFF = 0" and pa: "pa AND PTE_PAMASK = pa" and pe: "perm AND NOT 0xFFF = 0" "perm AND PTE_P \<noteq> 0"
    and q: "perm AND NOT (vi_perm (vm_walk m pt va)) AND 7 = 0"
    and nps: "vi_level (vm_walk m pt va) > 0 \<longrightarrow> vm_lookup m pt va = None"
  shows "\<exists>m' it' r. vm_map allocs m (vmiter_new m pt va) pa perm = Inr (m', it', r) \<and> pt_tree m' pt
    \<and> (\<forall>va'. (\<exists>j\<le>3. pageindex va j \<noteq> pageindex va' j) \<longrightarrow> vm_lookup m' pt va' = vm_lookup m pt va')
    \<and> (if vi_level (vm_walk m pt va) \<le> length (takeWhile (\<lambda>a. a \<noteq> None) allocs)
       then r = 0 \<and> (\<exists>p. vm_lookup m' pt va = Some (pa, p) \<and> p AND 7 = perm AND 7)
       else r = - 1 \<and> vm_lookup m' pt va = None)"
proof -
  let ?it = "vm_walk m pt va"
  have np: "vi_level ?it > 0 \<longrightarrow> \<not> vm_present m ?it" using nps by (auto simp: vm_lookup_def Let_def)
  obtain m1 ok where r: "pt_tree m1 pt" "\<forall>va'. vm_lookup m1 pt va' = vm_lookup m pt va'" "ok \<longleftrightarrow> vi_level (vm_walk m1 pt va) = 0"
    "ok \<longleftrightarrow> vi_level ?it \<le> length (takeWhile (\<lambda>a. a \<noteq> None) allocs)" "perm AND NOT (vi_perm (vm_walk m1 pt va)) AND 7 = 0"
    "vm_map allocs m ?it pa perm = (if \<not> ok then Inr (m1, vm_walk m1 pt va, - 1) else Inr (vm_set m1 (vm_walk m1 pt va) (pa OR perm), vm_walk m1 pt va, 0))"
    by (rule vm_map_run[where I = "\<lambda>_. True", OF tree fresh al pa pe(2) q np]) simp_all
  show ?thesis
  proof (cases ok)
    case False
    then have "vi_level ?it > 0" using r(4) by auto
    then show ?thesis using False r nps by (simp add: vmiter_new_walk)
  next
    case True
    then have l0: "vi_level (vm_walk m1 pt va) = 0" using r(3) by simp
    note lw = leaf_write[OF r(1) l0, where pe = "pa OR perm"]
    have "\<exists>p. vm_lookup (vm_set m1 (vm_walk m1 pt va) (pa OR perm)) pt va = Some (pa, p) \<and> p AND 7 = perm AND 7"
      by (intro lookup_mapped[OF lw(2) l0 lw(3) _ al pa pe]) (simp_all add: r(5))
    then show ?thesis using True r lw(1,4) by (simp add: vmiter_new_walk)
  qed
qed

lemma table_at_empty: "table_at (\<lambda>_ _. 0) pt va d = (if d = 0 then Some pt else None)"
  by (cases d; induction d) (auto simp: vm_table_def split: option.split)

theorem vm_map_correct_witness:
  "\<exists>m' it' r. vm_map [Some 0x2000, Some 0x3000, Some 0x4000] (\<lambda>_ _. 0) (vmiter_new (\<lambda>_ _. 0) 0x1000 0x5000) 0x8000 7 = Inr (m', it', r)
     \<and> r = 0 \<and> (\<exists>p. vm_lookup m' 0x1000 0x5000 = Some (0x8000, p) \<and> p AND 7 = 7)"
proof -
  let ?m = "(\<lambda>_ _. 0) :: ptmem" and ?al = "[Some 0x2000, Some 0x3000, Some 0x4000] :: u64 option list"
  have tr: "pt_tree ?m 0x1000" by (auto simp: pt_tree_def table_at_empty same_above_def split: if_splits)
  have fr: "allocs_ok ?m 0x1000 ?al" by (auto simp: allocs_ok_def pt_fresh_def table_at_empty split: if_splits)
  have w: "vm_walk ?m 0x1000 0x5000 = vm_top 0x1000 0x5000"
    unfolding vm_walk_def by (rule vm_down_final) (simp add: vm_entry_def vm_table_def)
  have l: "vi_level (vm_walk ?m 0x1000 0x5000) = 3" "vi_perm (vm_walk ?m 0x1000 0x5000) = initial_perm" by (simp_all add: w vm_top_def)
  have lk: "vm_lookup ?m 0x1000 0x5000 = None" by (simp add: vm_lookup_def Let_def vm_present_def vm_entry_def)
  show ?thesis using vm_map_correct[OF tr fr, of "0x5000" "0x8000" 7] l lk by auto
qed

end
