(* ===== verification/Sched.thy ===== *)
theory Sched
  imports Kernel_Prelude
begin

text \<open>
  Processes, run queues and wait queues: the \<open>proc\<close> and \<open>cpustate\<close> structures of \<open>kernel.hh\<close>, the scheduler of
  \<open>k-cpu.cc\<close> and the waiters of \<open>k-wait.hh\<close>.  A \<open>proc\<close> lives in a store indexed by its address, and an
  address that holds none is \<open>Use_After_Free\<close>.  A \<open>waiter\<close> is a local variable of the process that
  sleeps, and a process sleeps on one queue at a time, so the waiters of a queue are the addresses of their
  processes.  The functions that the code runs under a lock are single steps.
\<close>

section \<open>State\<close>

abbreviation NPROC :: nat where "NPROC \<equiv> 16"
abbreviation NCPU :: nat where "NCPU \<equiv> 16"
abbreviation WHEEL_SPOKES :: nat where "WHEEL_SPOKES \<equiv> 8"

datatype pstate = blank | runnable | blocked | broken

text \<open>\<open>pr_resumable\<close>: one of \<open>regs_\<close> and \<open>yields_\<close> is set.\<close>

record proc =
  pr_pid :: int
  pr_true_pid :: int
  pr_ppid :: int
  pr_state :: pstate
  pr_resumable :: bool
  pr_children :: "nat list"
  pr_cpu :: nat
  pr_exit_status :: int
  pr_interrupted :: bool
  pr_exiting :: bool
  pr_fdtable :: nat
  pr_pagetable :: nat

text \<open>The wait queues: that of \<open>waitpid\<close>, the spokes of the timing wheel, and those of other objects.\<close>

datatype wqid = Waitpid_wq | Wheel nat | Object_wq nat

record kst =
  k_procs :: "nat \<Rightarrow> proc option"
  k_ptable :: "nat option list"
  k_true_ptable :: "nat option list"
  k_runq :: "nat \<Rightarrow> nat list"
  k_current :: "nat \<Rightarrow> nat option"
  k_idle :: "nat \<Rightarrow> nat"
  k_wq :: "wqid \<Rightarrow> nat list"
  k_ticks :: u64

definition with_proc :: "kst \<Rightarrow> nat \<Rightarrow> (proc \<Rightarrow> 'a res) \<Rightarrow> 'a res" where
  "with_proc st p k = (case k_procs st p of None \<Rightarrow> Inl Use_After_Free | Some pr \<Rightarrow> k pr)"

definition set_proc :: "kst \<Rightarrow> nat \<Rightarrow> proc \<Rightarrow> kst" where
  "set_proc st p pr = st\<lparr>k_procs := (k_procs st)(p \<mapsto> pr)\<rparr>"

section \<open>Run queues\<close>

definition runq_linked :: "kst \<Rightarrow> nat \<Rightarrow> bool" where
  "runq_linked st p \<longleftrightarrow> list_ex (\<lambda>c. p \<in> set (k_runq st c)) [0..<NCPU]"

definition enqueue :: "kst \<Rightarrow> nat \<Rightarrow> nat \<Rightarrow> kst res" where
  "enqueue st c p =
     (if k_current st c \<noteq> Some p \<and> \<not> runq_linked st p
      then with_proc st p (\<lambda>pr. assert_then (pr_resumable pr \<or> pr_state pr \<noteq> runnable)
             (Inr (st\<lparr>k_runq := (k_runq st)(c := k_runq st c @ [p])\<rparr>)))
      else Inr st)"

definition proc_wake :: "kst \<Rightarrow> nat \<Rightarrow> kst res" where
  "proc_wake st p =
     with_proc st p (\<lambda>pr.
       if pr_state pr = blocked then enqueue (set_proc st p (pr\<lparr>pr_state := runnable\<rparr>)) (pr_cpu pr) p else Inr st)"

text \<open>
  \<open>cpustate::schedule\<close>: one turn of the loop either resumes a process or loads the next one.  The idle task has been
  made before; \<open>yf\<close> is \<open>yielding_from\<close>.
\<close>

datatype sched_turn = Resume nat | Again kst

definition schedule_turn :: "kst \<Rightarrow> nat \<Rightarrow> nat option \<Rightarrow> sched_turn res" where
  "schedule_turn st c yf =
     (let resumed = (case k_current st c of
                       None \<Rightarrow> Inr None
                     | Some p \<Rightarrow> with_proc st p (\<lambda>pr. Inr (if pr_state pr = runnable \<and> k_current st c \<noteq> yf then Some p else None)))
      in rbind resumed (\<lambda>r. case r of
           Some p \<Rightarrow> Inr (Resume p)
         | None \<Rightarrow>
             rbind (case k_current st c of
                      None \<Rightarrow> Inr st
                    | Some p \<Rightarrow>
                        let st1 = st\<lparr>k_current := (k_current st)(c := None)\<rparr>
                        in with_proc st1 p (\<lambda>pr. if pr_state pr = runnable then enqueue st1 c p else Inr st1)) (\<lambda>st1.
               let st2 = (case k_runq st1 c of
                            [] \<Rightarrow> st1
                          | p # ps \<Rightarrow> st1\<lparr>k_runq := (k_runq st1)(c := ps), k_current := (k_current st1)(c := Some p)\<rparr>)
               in Inr (Again (if k_current st2 c = None then st2\<lparr>k_current := (k_current st2)(c := Some (k_idle st2 c))\<rparr> else st2)))))"

text \<open>After the first turn \<open>yielding_from\<close> is null.\<close>

primrec schedule_loop :: "nat \<Rightarrow> kst \<Rightarrow> nat \<Rightarrow> nat option \<Rightarrow> (kst \<times> nat) res" where
  "schedule_loop 0 st c yf = Inl No_Return"
| "schedule_loop (Suc fuel) st c yf =
     rbind (schedule_turn st c yf) (\<lambda>t. case t of
       Resume p \<Rightarrow> Inr (st, p)
     | Again st' \<Rightarrow> schedule_loop fuel st' c (if k_current st c = None then yf else None))"

definition schedule :: "nat \<Rightarrow> kst \<Rightarrow> nat \<Rightarrow> nat option \<Rightarrow> (kst \<times> nat) res" where
  "schedule fuel st c yielding_from =
     schedule_loop fuel st c (if k_current st c = Some (k_idle st c) then Some (k_idle st c) else yielding_from)"

section \<open>Wait queues\<close>

definition waiter_prepare :: "kst \<Rightarrow> wqid \<Rightarrow> nat \<Rightarrow> kst res" where
  "waiter_prepare st q p =
     with_proc st p (\<lambda>pr. Inr ((set_proc st p (pr\<lparr>pr_state := blocked\<rparr>))\<lparr>k_wq := (k_wq st)(q := k_wq st q @ [p])\<rparr>))"

definition waiter_clear :: "kst \<Rightarrow> wqid \<Rightarrow> nat \<Rightarrow> kst res" where
  "waiter_clear st q p =
     with_proc st p (\<lambda>pr. Inr ((set_proc st p (pr\<lparr>pr_state := runnable\<rparr>))\<lparr>k_wq := (k_wq st)(q := remove1 p (k_wq st q))\<rparr>))"

primrec wake_list :: "nat list \<Rightarrow> kst \<Rightarrow> kst res" where
  "wake_list [] st = Inr st"
| "wake_list (w # ws) st = rbind (proc_wake st w) (wake_list ws)"

definition wake_all :: "kst \<Rightarrow> wqid \<Rightarrow> kst res" where
  "wake_all st q = wake_list (k_wq st q) (st\<lparr>k_wq := (k_wq st)(q := [])\<rparr>)"

text \<open>
  One turn of \<open>block_until\<close> after \<open>prepare\<close>: the process exits when it is marked, returns when the
  predicate holds, and otherwise goes on to \<open>block\<close>.
\<close>

datatype block_turn = Block_exit kst | Block_return kst | Block_sleep

definition block_until_test :: "kst \<Rightarrow> wqid \<Rightarrow> nat \<Rightarrow> bool \<Rightarrow> block_turn res" where
  "block_until_test st q p predicate =
     with_proc st p (\<lambda>pr.
       if pr_exiting pr then
         rbind (waiter_clear st q p) (\<lambda>st1.
         rbind (with_proc st1 p (\<lambda>pr1. Inr (set_proc st1 p (pr1\<lparr>pr_state := broken\<rparr>)))) (\<lambda>st2.
         rbind (wake_all st2 Waitpid_wq) (\<lambda>st3. Inr (Block_exit st3))))
       else if predicate then rbind (waiter_clear st q p) (\<lambda>st1. Inr (Block_return st1))
       else Inr Block_sleep)"

section \<open>Timer and sleep\<close>

text \<open>The timer interrupt of CPU 0, and \<open>SYSCALL_MSLEEP\<close>.\<close>

definition wheel_spoke :: "u64 \<Rightarrow> wqid" where
  "wheel_spoke t = Wheel (unat t mod WHEEL_SPOKES)"

definition timer_tick :: "kst \<Rightarrow> kst res" where
  "timer_tick st =
     (let st1 = st\<lparr>k_ticks := k_ticks st + 1\<rparr>
      in if k_wq st1 (wheel_spoke (k_ticks st1)) \<noteq> [] then wake_all st1 (wheel_spoke (k_ticks st1)) else Inr st1)"

definition msleep_begin :: "kst \<Rightarrow> nat \<Rightarrow> u64 \<Rightarrow> (kst \<times> u64) res" where
  "msleep_begin st p ms =
     with_proc st p (\<lambda>pr. Inr (set_proc st p (pr\<lparr>pr_interrupted := False\<rparr>), k_ticks st + (ms + 9) div 10))"

definition msleep_over :: "kst \<Rightarrow> nat \<Rightarrow> u64 \<Rightarrow> bool res" where
  "msleep_over st p end1 = with_proc st p (\<lambda>pr. Inr (sint (end1 - k_ticks st) \<le> 0 \<or> pr_interrupted pr))"

abbreviation E_INTR :: int where "E_INTR \<equiv> - 4"

definition msleep_finish :: "kst \<Rightarrow> nat \<Rightarrow> u64 \<Rightarrow> (kst \<times> int) res" where
  "msleep_finish st p end1 =
     rbind (waiter_clear st (wheel_spoke end1) p) (\<lambda>st1.
       with_proc st1 p (\<lambda>pr. Inr (st1, if pr_interrupted pr then E_INTR else 0)))"

end
