(* ===== verification/Process.thy ===== *)
theory Process
  imports Sched
begin

text \<open>
  The life of a process: the process tables, fork, clone, exit, reaping and waiting of \<open>kernel.cc\<close>.  Descriptors and memory of the
  processes are modelled in \<open>Vfs\<close> and \<open>Vmiter\<close>; here a step is what the code does to the tables, the hierarchy
  and the states while it holds \<open>ptable_lock\<close>.  Entries of a table are addresses of \<open>proc\<close>s, \<open>None\<close> a null pointer.
\<close>

section \<open>Tables\<close>

definition table_get :: "nat option list \<Rightarrow> int \<Rightarrow> nat option res" where
  "table_get tab i = (if 0 \<le> i \<and> nat i < length tab then Inr (tab ! nat i) else Inl Out_Of_Bounds)"

definition with_entry :: "nat option list \<Rightarrow> int \<Rightarrow> (nat \<Rightarrow> 'a res) \<Rightarrow> 'a res" where
  "with_entry tab i k = rbind (table_get tab i) (\<lambda>e. case e of None \<Rightarrow> Inl Null_Deref | Some p \<Rightarrow> k p)"

text \<open>The processes of the thread table, in the order of the table.\<close>

definition threads :: "kst \<Rightarrow> nat list" where
  "threads st = map the (filter (\<lambda>x. x \<noteq> None) (k_ptable st))"

definition slot_free :: "kst \<Rightarrow> nat \<Rightarrow> bool" where
  "slot_free st i \<longleftrightarrow> (case k_ptable st ! i of None \<Rightarrow> True
     | Some p \<Rightarrow> (case k_procs st p of None \<Rightarrow> False | Some pr \<Rightarrow> pr_state pr = blank))"

definition get_proc_slot :: "kst \<Rightarrow> int" where
  "get_proc_slot st = (case filter (slot_free st) [1..<NPROC] of [] \<Rightarrow> - 1 | i # _ \<Rightarrow> int i)"

definition same_process :: "kst \<Rightarrow> int \<Rightarrow> nat \<Rightarrow> bool" where
  "same_process st true_pid p = (case k_procs st p of None \<Rightarrow> False | Some pr \<Rightarrow> pr_true_pid pr = true_pid)"

definition active_threads :: "kst \<Rightarrow> proc \<Rightarrow> nat" where
  "active_threads st pr =
     length (filter (\<lambda>t. same_process st (pr_true_pid pr) t
       \<and> (case k_procs st t of None \<Rightarrow> False | Some tr \<Rightarrow> pr_state tr = runnable \<or> pr_state tr = blocked)) (threads st))"

section \<open>Exit\<close>

definition other_live :: "kst \<Rightarrow> proc \<Rightarrow> nat \<Rightarrow> bool" where
  "other_live st pr t = (case k_procs st t of None \<Rightarrow> False
     | Some tr \<Rightarrow> pr_true_pid tr = pr_true_pid pr \<and> pr_state tr \<noteq> broken \<and> pr_pid tr \<noteq> pr_pid pr)"

definition set_exiting :: "kst \<Rightarrow> nat \<Rightarrow> kst" where
  "set_exiting st t = (case k_procs st t of None \<Rightarrow> st | Some tr \<Rightarrow> set_proc st t (tr\<lparr>pr_exiting := True\<rparr>))"

definition mark_exiting :: "kst \<Rightarrow> proc \<Rightarrow> kst" where
  "mark_exiting st pr = foldl (\<lambda>s t. if other_live s pr t then set_exiting s t else s) st (threads st)"

text \<open>The predicate that \<open>process_exit\<close> waits for, with its effects on the first thread it finds.\<close>

definition exit_predicate :: "kst \<Rightarrow> proc \<Rightarrow> (kst \<times> bool) res" where
  "exit_predicate st pr =
     (case filter (other_live st pr) (threads st) of
        [] \<Rightarrow> Inr (st, True)
      | t # _ \<Rightarrow>
          (let st1 = set_exiting st t
           in with_proc st1 t (\<lambda>tr.
                if pr_state tr = blocked
                then rbind (proc_wake st1 t) (\<lambda>st2. rbind (wake_all st2 Waitpid_wq) (\<lambda>st3. Inr (st3, False)))
                else Inr (st1, False))))"

text \<open>The loop that gives the children to process 1; its list grows while it runs when the process is process 1 itself.\<close>

primrec reparent_loop :: "nat \<Rightarrow> kst \<Rightarrow> nat \<Rightarrow> kst res" where
  "reparent_loop 0 st p = with_proc st p (\<lambda>pr. if pr_children pr = [] then Inr st else Inl No_Return)"
| "reparent_loop (Suc fuel) st p =
     with_proc st p (\<lambda>pr.
       case pr_children pr of
         [] \<Rightarrow> Inr st
       | child # cs \<Rightarrow>
           let st1 = set_proc st p (pr\<lparr>pr_children := cs\<rparr>)
           in with_proc st1 child (\<lambda>ch.
                let st2 = set_proc st1 child (ch\<lparr>pr_ppid := 1\<rparr>)
                in with_entry (k_ptable st2) 1 (\<lambda>init.
                     with_proc st2 init (\<lambda>ip.
                       reparent_loop fuel (set_proc st2 init (ip\<lparr>pr_children := pr_children ip @ [child]\<rparr>)) p))))"

definition interrupt_parent :: "kst \<Rightarrow> nat \<Rightarrow> kst res" where
  "interrupt_parent st p =
     with_proc st p (\<lambda>pr.
       rbind (table_get (k_ptable st) (pr_ppid pr)) (\<lambda>daddy.
         case daddy of
           None \<Rightarrow> Inr st
         | Some d \<Rightarrow> with_proc st d (\<lambda>dr.
             if pr_state dr = blocked then proc_wake (set_proc st d (dr\<lparr>pr_interrupted := True\<rparr>)) d else Inr st)))"

text \<open>\<open>process_exit\<close> up to the wait, and from its end on (the descriptors are closed in between).\<close>

definition process_exit_begin :: "kst \<Rightarrow> nat \<Rightarrow> int \<Rightarrow> kst res" where
  "process_exit_begin st p status =
     with_proc st p (\<lambda>pr.
       let pr1 = pr\<lparr>pr_exit_status := status\<rparr>; st1 = set_proc st p pr1
       in Inr (if active_threads st1 pr1 > 1 then mark_exiting st1 pr1 else st1))"

definition process_exit_end :: "nat \<Rightarrow> kst \<Rightarrow> nat \<Rightarrow> kst res" where
  "process_exit_end fuel st p =
     rbind (interrupt_parent st p) (\<lambda>st1.
     rbind (reparent_loop fuel st1 p) (\<lambda>st2.
     rbind (wake_all st2 Waitpid_wq) (\<lambda>st3.
       with_proc st3 p (\<lambda>pr. Inr (set_proc st3 p (pr\<lparr>pr_state := broken\<rparr>))))))"

section \<open>Reaping and waiting\<close>

definition counted_thread :: "kst \<Rightarrow> int \<Rightarrow> nat \<Rightarrow> bool" where
  "counted_thread st true_pid t = (case k_procs st t of None \<Rightarrow> False
     | Some tr \<Rightarrow> pr_true_pid tr = true_pid \<and> (pr_state tr = runnable \<or> pr_state tr = blocked \<or> pr_state tr = broken))"

text \<open>The result is the exit status and whether the last thread took its descriptors and memory with it.\<close>

definition process_reap :: "kst \<Rightarrow> int \<Rightarrow> (kst \<times> int \<times> bool) res" where
  "process_reap st pid =
     with_entry (k_ptable st) pid (\<lambda>p.
       with_proc st p (\<lambda>pr.
         with_entry (k_true_ptable st) (pr_ppid pr) (\<lambda>d.
           with_proc st d (\<lambda>dr.
             let st1 = set_proc st d (dr\<lparr>pr_children := remove1 p (pr_children dr)\<rparr>);
                 nthr = length (filter (counted_thread st1 (pr_true_pid pr)) (threads st1));
                 st2 = st1\<lparr>k_procs := (k_procs st1)(p := None), k_ptable := (k_ptable st1)[nat pid := None],
                           k_true_ptable := (k_true_ptable st1)[nat pid := None]\<rparr>
             in rbind (wake_all st2 Waitpid_wq) (\<lambda>st3. Inr (st3, pr_exit_status pr, nthr = 1))))))"

abbreviation E_CHILD :: int where "E_CHILD \<equiv> - 10"
abbreviation E_MFILE :: int where "E_MFILE \<equiv> - 24"
abbreviation W_NOHANG :: int where "W_NOHANG \<equiv> 1"

text \<open>The checks of \<open>SYSCALL_WAITPID\<close> before its loop: true when the caller has no such child.\<close>

definition waitpid_no_child :: "kst \<Rightarrow> nat \<Rightarrow> int \<Rightarrow> bool res" where
  "waitpid_no_child st p child_pid =
     with_proc st p (\<lambda>pr.
       assert_then (child_pid < int NPROC \<and> child_pid \<ge> 0)
         (rbind (table_get (k_ptable st) child_pid) (\<lambda>c.
            rbind (case c of None \<Rightarrow> Inr 0 | Some ch \<Rightarrow> with_proc st ch (\<lambda>cr. Inr (pr_ppid cr))) (\<lambda>parent_of_child.
              Inr (child_pid \<noteq> 0 \<and> pr_pid pr \<noteq> parent_of_child \<or> child_pid = 0 \<and> pr_children pr = [])))))"

definition is_broken :: "kst \<Rightarrow> nat \<Rightarrow> bool" where
  "is_broken st p = (case k_procs st p of None \<Rightarrow> False | Some pr \<Rightarrow> pr_state pr = broken)"

text \<open>Reaping any child: the first broken one of the list.\<close>

definition reap_any :: "kst \<Rightarrow> nat \<Rightarrow> int \<Rightarrow> int \<Rightarrow> (kst \<times> int \<times> int) res" where
  "reap_any st p to_reap exit_status =
     with_proc st p (\<lambda>pr.
       case filter (is_broken st) (pr_children pr) of
         [] \<Rightarrow> Inr (st, to_reap, exit_status)
       | c # _ \<Rightarrow> with_proc st c (\<lambda>cr.
           rbind (process_reap st (pr_pid cr)) (\<lambda>(st1, s, _). Inr (st1, pr_true_pid cr, if s \<noteq> 0 then s else exit_status))))"

text \<open>Reaping one child: every broken thread of it, in the order of the table.\<close>

primrec reap_loop :: "nat list \<Rightarrow> kst \<Rightarrow> int \<Rightarrow> int \<Rightarrow> int \<Rightarrow> (kst \<times> int \<times> int) res" where
  "reap_loop [] st child_pid to_reap exit_status = Inr (st, to_reap, exit_status)"
| "reap_loop (i # is) st child_pid to_reap exit_status =
     (case k_ptable st ! i of
        None \<Rightarrow> reap_loop is st child_pid to_reap exit_status
      | Some t \<Rightarrow> with_proc st t (\<lambda>tr.
          if pr_true_pid tr = child_pid \<and> pr_state tr = broken
          then rbind (process_reap st (int i)) (\<lambda>(st1, s, _).
                 reap_loop is st1 child_pid (pr_true_pid tr) (if s \<noteq> 0 then s else exit_status))
          else reap_loop is st child_pid to_reap exit_status))"

datatype waitpid_out = Wait_return int int | Wait_block

text \<open>
  One turn of the loop, after \<open>prepare\<close>; \<open>Wait_return r status\<close> leaves it, \<open>Wait_block\<close> goes on
  with the pair of the loop's variables.
\<close>

definition waitpid_turn :: "kst \<Rightarrow> nat \<Rightarrow> int \<Rightarrow> int \<Rightarrow> int \<Rightarrow> int \<Rightarrow> (kst \<times> int \<times> int \<times> waitpid_out) res" where
  "waitpid_turn st p child_pid options to_reap exit_status =
     rbind (waiter_prepare st Waitpid_wq p) (\<lambda>st1.
     rbind (if child_pid = 0 then reap_any st1 p to_reap exit_status
            else reap_loop [0..<NPROC] st1 child_pid to_reap exit_status) (\<lambda>(st2, to_reap2, status2).
       let no_threads_left = \<not> list_ex (same_process st2 child_pid) (threads st2)
       in if (to_reap2 \<noteq> 0 \<and> no_threads_left) \<or> options = W_NOHANG
          then rbind (waiter_clear st2 Waitpid_wq p) (\<lambda>st3.
                 Inr (st3, to_reap2, status2,
                      if to_reap2 = 0 \<and> options = W_NOHANG then Wait_return E_AGAIN 0 else Wait_return to_reap2 status2))
          else Inr (st2, to_reap2, status2, Wait_block)))"

section \<open>Fork, clone and thread exit\<close>

text \<open>
  What \<open>proc::proc\<close> and \<open>init_user\<close> set.  The constructor leaves \<open>true_pid_\<close>, \<open>ppid_\<close>, \<open>cpu_\<close>, \<open>fdtable_\<close> and \<open>exit_status_\<close>
  as they are in memory; they are 0 here, and fork, clone and setup set all but the last before a process runs.
\<close>

definition new_proc :: proc where
  "new_proc = \<lparr>pr_pid = 0, pr_true_pid = 0, pr_ppid = 0, pr_state = blank, pr_resumable = False, pr_children = [], pr_cpu = 0,
     pr_exit_status = 0, pr_interrupted = False, pr_exiting = False, pr_fdtable = 0, pr_pagetable = 0\<rparr>"

definition init_user :: "proc \<Rightarrow> int \<Rightarrow> nat \<Rightarrow> proc" where
  "init_user pr pid pt = pr\<lparr>pr_pid := pid, pr_true_pid := pid, pr_resumable := True, pr_state := runnable, pr_pagetable := pt\<rparr>"

text \<open>
  \<open>process_fork\<close>: the results of \<open>kalloc_proc\<close>, \<open>kalloc_pagetable\<close> and \<open>knew<fdtable>\<close> are arguments, and \<open>copied\<close> says whether
  the loop that copies the memory gets every page; \<open>ncpu\<close> is the number of CPUs.
\<close>

definition process_fork :: "nat \<Rightarrow> kst \<Rightarrow> nat \<Rightarrow> nat option \<Rightarrow> nat option \<Rightarrow> nat option \<Rightarrow> bool \<Rightarrow> (kst \<times> int) res" where
  "process_fork ncpu st p fproc fpt fdt copied =
     (let fpid = get_proc_slot st
      in if fpid < 1 then Inr (st, E_MFILE)
         else let st1 = st\<lparr>k_ptable := (k_ptable st)[nat fpid := fproc], k_true_ptable := (k_true_ptable st)[nat fpid := fproc]\<rparr>
              in case fproc of
                   None \<Rightarrow> Inr (st1, E_NOMEM)
                 | Some f \<Rightarrow>
                     (case fpt of
                        None \<Rightarrow> Inr (st1\<lparr>k_ptable := (k_ptable st1)[nat fpid := None], k_true_ptable := (k_true_ptable st1)[nat fpid := None]\<rparr>, E_NOMEM)
                      | Some pt \<Rightarrow>
                          (case fdt of
                             None \<Rightarrow> Inr (st1\<lparr>k_ptable := (k_ptable st1)[nat fpid := None]\<rparr>, E_NOMEM)
                           | Some fd \<Rightarrow>
                               with_proc st1 p (\<lambda>pr.
                                 let st2 = set_proc st1 f ((init_user new_proc fpid pt)\<lparr>pr_fdtable := fd, pr_ppid := pr_pid pr\<rparr>);
                                     st3 = set_proc st2 p (pr\<lparr>pr_children := pr_children pr @ [f]\<rparr>)
                                 in if \<not> copied then rbind (process_reap st3 fpid) (\<lambda>(st4, _). Inr (st4, E_NOMEM))
                                    else with_proc st3 f (\<lambda>fr.
                                           rbind (enqueue (set_proc st3 f (fr\<lparr>pr_cpu := nat fpid mod ncpu\<rparr>)) (nat fpid mod ncpu) f)
                                             (\<lambda>st4. Inr (st4, fpid)))))))"

text \<open>
  \<open>process_setup\<close>: \<open>ready\<close> says that the file and its vnode are allocated, the program is loaded and the stack and the
  console are mapped, which the code asserts.
\<close>

definition process_setup :: "nat \<Rightarrow> kst \<Rightarrow> nat \<Rightarrow> nat option \<Rightarrow> nat option \<Rightarrow> nat option \<Rightarrow> bool \<Rightarrow> kst res" where
  "process_setup ncpu st pid new_p npt fdt ready =
     rbind (table_get (k_ptable st) (int pid)) (\<lambda>e.
     rbind (table_get (k_true_ptable st) (int pid)) (\<lambda>te.
       assert_then (e = None \<and> te = None)
         (case (new_p, npt) of
            (Some n, Some pt) \<Rightarrow>
              (case fdt of
                 None \<Rightarrow> Inl Assert_Fail
               | Some fd \<Rightarrow>
                   assert_then ready
                     (let st1 = st\<lparr>k_ptable := (k_ptable st)[pid := Some n], k_true_ptable := (k_true_ptable st)[pid := Some n]\<rparr>;
                          np = (init_user (new_proc\<lparr>pr_fdtable := fd\<rparr>) (int pid) pt)\<lparr>pr_children := [], pr_ppid := 1\<rparr>;
                          st2 = set_proc st1 n np
                      in rbind (if pid \<noteq> 1
                                then with_entry (k_true_ptable st2) 1 (\<lambda>i. with_proc st2 i (\<lambda>ir.
                                       Inr (set_proc st2 i (ir\<lparr>pr_children := pr_children ir @ [n]\<rparr>))))
                                else Inr st2) (\<lambda>st3.
                           with_proc st3 n (\<lambda>nr.
                             enqueue (set_proc st3 n (nr\<lparr>pr_cpu := pid mod ncpu\<rparr>)) (pid mod ncpu) n))))
          | _ \<Rightarrow> Inl Assert_Fail)))"

text \<open>\<open>SYSCALL_CLONE\<close>: the code does not test the result of \<open>kalloc_proc\<close>.\<close>

definition sys_clone :: "nat \<Rightarrow> kst \<Rightarrow> nat \<Rightarrow> nat option \<Rightarrow> (kst \<times> int) res" where
  "sys_clone ncpu st p new_p =
     (case new_p of
        None \<Rightarrow> Inl Null_Deref
      | Some n \<Rightarrow>
          with_proc st p (\<lambda>pr.
            let pid = get_proc_slot st;
                np = new_proc\<lparr>pr_ppid := pr_ppid pr, pr_true_pid := pr_true_pid pr, pr_fdtable := pr_fdtable pr, pr_state := runnable,
                              pr_pagetable := pr_pagetable pr, pr_pid := pid\<rparr>
            in if pid < 0 then Inr (st, - 1)
               else let st1 = st\<lparr>k_ptable := (k_ptable st)[nat pid := Some n]\<rparr>
                    in with_entry (k_true_ptable st1) (pr_ppid pr) (\<lambda>d.
                         with_proc st1 d (\<lambda>dr.
                           let st2 = set_proc st1 d (dr\<lparr>pr_children := pr_children dr @ [n]\<rparr>);
                               st3 = set_proc st2 n (np\<lparr>pr_resumable := True, pr_cpu := nat pid mod ncpu\<rparr>)
                           in rbind (enqueue st3 (nat pid mod ncpu) n) (\<lambda>st4. Inr (st4, pid))))))"

text \<open>\<open>SYSCALL_TEXIT\<close> of a thread that is not the last one of its process.\<close>

definition texit_thread :: "kst \<Rightarrow> nat \<Rightarrow> int \<Rightarrow> kst res" where
  "texit_thread st p status =
     with_proc st p (\<lambda>pr. wake_all (set_proc st p (pr\<lparr>pr_exit_status := status, pr_state := broken\<rparr>)) Waitpid_wq)"

end
