(* ===== verification/Sched_Correct.thy ===== *)
theory Sched_Correct
  imports Sched
begin

text \<open>
  Scheduling and waiting: the scheduler resumes the first runnable process of the queue, waiters on a wait queue lose no
  wakeup, and sleepers wake up on time.  The last two are invariants of transition relations that interleave
  the steps of the waiting processes with wakeups and timer ticks.
\<close>

section \<open>The scheduler\<close>

definition sched_set :: "kst \<Rightarrow> nat \<Rightarrow> nat list \<Rightarrow> nat option \<Rightarrow> kst" where
  "sched_set st c q cur = st\<lparr>k_runq := (k_runq st)(c := q), k_current := (k_current st)(c := cur)\<rparr>"

lemma sched_set_simps [simp]:
  "k_procs (sched_set st c q cur) = k_procs st" "k_runq (sched_set st c q cur) c = q" "k_current (sched_set st c q cur) c = cur"
  "k_idle (sched_set st c q cur) = k_idle st" "sched_set (sched_set st c q cur) c q' cur' = sched_set st c q' cur'"
  by (simp_all add: sched_set_def)

lemma sched_set_id: "k_runq st c = q \<Longrightarrow> k_current st c = cur \<Longrightarrow> sched_set st c q cur = st"
  by (auto simp: sched_set_def)

text \<open>State of the process at an address; \<open>blank\<close> where there is none.\<close>

definition state_of :: "kst \<Rightarrow> nat \<Rightarrow> pstate" where
  "state_of st p = (case k_procs st p of None \<Rightarrow> blank | Some pr \<Rightarrow> pr_state pr)"

text \<open>What the scheduler relies on.\<close>

definition sched_ok :: "kst \<Rightarrow> nat \<Rightarrow> bool" where
  "sched_ok st c \<longleftrightarrow> c < NCPU
     \<and> (\<forall>p \<in> set (k_runq st c). k_procs st p \<noteq> None)
     \<and> (\<forall>p. k_current st c = Some p \<longrightarrow> k_procs st p \<noteq> None \<and> \<not> runq_linked st p
          \<and> (state_of st p = runnable \<longrightarrow> pr_resumable (the (k_procs st p))))
     \<and> state_of st (k_idle st c) = runnable"

text \<open>
  The first runnable process of a queue, or the idle task; and what is left of the queue.
\<close>

definition pick :: "kst \<Rightarrow> nat \<Rightarrow> nat list \<Rightarrow> nat" where
  "pick st c q = (case dropWhile (\<lambda>p. state_of st p \<noteq> runnable) q of [] \<Rightarrow> k_idle st c | p # _ \<Rightarrow> p)"

definition rest :: "kst \<Rightarrow> nat list \<Rightarrow> nat list" where
  "rest st q = tl (dropWhile (\<lambda>p. state_of st p \<noteq> runnable) q)"

lemma state_of_sched_set [simp]: "state_of (sched_set st c q cur) p = state_of st p"
  by (simp add: state_of_def)

lemma pick_sched_set [simp]: "pick (sched_set st c' q' cur) c q = pick st c q"
  by (simp add: pick_def cong: list.case_cong)

lemma pick_simps [simp]:
  "rest (sched_set st c' q' cur) q = rest st q"
  "state_of st p \<noteq> runnable \<Longrightarrow> pick st c (p # q) = pick st c q" "state_of st p \<noteq> runnable \<Longrightarrow> rest st (p # q) = rest st q"
  "state_of st p = runnable \<Longrightarrow> pick st c (p # q) = p" "state_of st p = runnable \<Longrightarrow> rest st (p # q) = q"
  "pick st c [] = k_idle st c" "rest st [] = []"
  unfolding pick_def rest_def state_of_sched_set by simp_all

lemma schedule_turn_resume:
  assumes "k_current st c = Some p" "state_of st p = runnable" "yf \<noteq> Some p"
  shows "schedule_turn st c yf = Inr (Resume p)"
  using assms by (auto simp: schedule_turn_def with_proc_def state_of_def split: option.splits)

text \<open>A turn that loads the next process.\<close>

definition load_next :: "kst \<Rightarrow> nat \<Rightarrow> nat list \<Rightarrow> kst" where
  "load_next st c q = (case q of [] \<Rightarrow> sched_set st c [] (Some (k_idle st c)) | p # ps \<Rightarrow> sched_set st c ps (Some p))"

lemma runq_linked_current [simp]: "runq_linked (st\<lparr>k_current := x\<rparr>) p = runq_linked st p"
  by (simp add: runq_linked_def)

lemma schedule_turn_load:
  assumes ok: "sched_ok st c" and cur: "k_current st c = Some p" and no: "state_of st p \<noteq> runnable \<or> yf = Some p"
  shows "schedule_turn st c yf = Inr (Again (load_next st c (k_runq st c @ (if state_of st p = runnable then [p] else []))))"
proof -
  obtain pr where pr: "k_procs st p = Some pr" using ok cur by (auto simp: sched_ok_def)
  have ps: "state_of st p = pr_state pr" using pr by (simp add: state_of_def)
  have nl: "\<not> runq_linked st p" "pr_state pr = runnable \<longrightarrow> pr_resumable pr" using ok cur pr ps by (auto simp: sched_ok_def)
  have nr: "\<not> (pr_state pr = runnable \<and> Some p \<noteq> yf)" using no ps by auto
  show ?thesis
    using cur pr ps nl nr
    by (auto simp: schedule_turn_def with_proc_def enqueue_def Let_def load_next_def sched_set_def fun_upd_idem split: list.split)
qed

lemma schedule_turn_none:
  assumes "k_current st c = None"
  shows "schedule_turn st c yf = Inr (Again (load_next st c (k_runq st c)))"
  using assms by (auto simp: schedule_turn_def Let_def load_next_def sched_set_def fun_upd_idem split: list.split)

lemma schedule_loop_pick:
  assumes "k_current st c = Some p" "k_procs st p \<noteq> None" "\<forall>x \<in> set (k_runq st c). k_procs st x \<noteq> None"
    "state_of st (k_idle st c) = runnable" "length (k_runq st c) + 1 < fuel"
  shows "schedule_loop fuel st c None =
    Inr (sched_set st c (rest st (p # k_runq st c)) (Some (pick st c (p # k_runq st c))), pick st c (p # k_runq st c))"
  using assms
proof (induction "k_runq st c" arbitrary: st p fuel)
  case Nil
  obtain pr where pr: "k_procs st p = Some pr" using Nil.prems by blast
  obtain f where f: "fuel = Suc (Suc f)" using Nil.prems(5) by (cases fuel; cases "fuel - 1") auto
  show ?case
  proof (cases "state_of st p = runnable")
    case True
    then show ?thesis using Nil schedule_turn_resume[of st c p None] f sched_set_id[of st c "[]" "Some p"] by simp
  next
    case False
    have "schedule_turn st c None = Inr (Again (load_next st c []))"
      using False Nil pr by (auto simp: schedule_turn_def with_proc_def enqueue_def Let_def load_next_def sched_set_def state_of_def fun_upd_idem)
    moreover have "load_next st c [] = sched_set st c [] (Some (k_idle st c))" by (simp add: load_next_def)
    moreover have "schedule_turn (sched_set st c [] (Some (k_idle st c))) c None = Inr (Resume (k_idle st c))"
      by (rule schedule_turn_resume) (use Nil in simp_all)
    ultimately show ?thesis using f False Nil.hyps by simp
  qed
next
  case (Cons x xs)
  obtain pr where pr: "k_procs st p = Some pr" using Cons.prems by blast
  obtain f where f: "fuel = Suc f" using Cons.prems(5) by (cases fuel) auto
  show ?case
  proof (cases "state_of st p = runnable")
    case True
    then show ?thesis using Cons.prems schedule_turn_resume[of st c p None] f sched_set_id[of st c "k_runq st c" "Some p"] by simp
  next
    case False
    let ?st = "sched_set st c xs (Some x)"
    have "schedule_turn st c None = Inr (Again ?st)"
      using False Cons.hyps(2)[symmetric] Cons.prems(1) pr
      by (auto simp: schedule_turn_def with_proc_def enqueue_def Let_def sched_set_def state_of_def)
    moreover have "schedule_loop f ?st c None = Inr (sched_set ?st c (rest ?st (x # k_runq ?st c)) (Some (pick ?st c (x # k_runq ?st c))), pick ?st c (x # k_runq ?st c))"
      by (rule Cons.hyps(1)) (use Cons.prems Cons.hyps(2)[symmetric] f in auto)
    ultimately show ?thesis using f False Cons.prems(1) Cons.hyps(2)[symmetric] by simp
  qed
qed

text \<open>
  C34: Called with a process that gives up the CPU (or cannot run), the scheduler ends within as many turns as there are
  processes in the run queue, plus three: it puts the process at the end of the queue if it is still runnable, takes processes
  from the front, drops those that are not runnable and resumes the first runnable one, or the idle task if there is none; a process that
  does not yield and is runnable is resumed at once.
\<close>
theorem schedule_correct:
  assumes ok: "sched_ok st c" and cur: "k_current st c = Some p" and yf: "yf = Some p \<or> yf = None"
  defines "q \<equiv> k_runq st c @ (if state_of st p = runnable then [p] else [])"
  shows "schedule (length (k_runq st c) + 4) st c yf =
    (if state_of st p = runnable \<and> yf = None \<and> p \<noteq> k_idle st c then Inr (st, p)
     else Inr (sched_set st c (rest st q) (Some (pick st c q)), pick st c q)) \<and> state_of st (pick st c q) = runnable"
proof -
  define yf' where "yf' = (if k_current st c = Some (k_idle st c) then Some (k_idle st c) else yf)"
  have s: "schedule fuel st c yf = schedule_loop fuel st c yf'" for fuel by (simp add: schedule_def yf'_def)
  have i: "state_of st (k_idle st c) = runnable" using ok by (simp add: sched_ok_def)
  have run: "state_of st (pick st c q) = runnable"
    using i by (auto simp: pick_def dest: dropWhile_eq_Cons_conv[THEN iffD1] split: list.split)
  show ?thesis
  proof (cases "state_of st p = runnable \<and> yf = None \<and> p \<noteq> k_idle st c")
    case True
    then have "schedule_turn st c yf' = Inr (Resume p)" using cur by (intro schedule_turn_resume) (auto simp: yf'_def)
    then show ?thesis using True run s by (simp add: numeral_eq_Suc)
  next
    case False
    then have "state_of st p \<noteq> runnable \<or> yf' = Some p" using yf cur by (auto simp: yf'_def)
    then have t: "schedule_turn st c yf' = Inr (Again (load_next st c q))" unfolding q_def by (rule schedule_turn_load[OF ok cur])
    have alive: "\<forall>x \<in> set q. k_procs st x \<noteq> None" using ok cur by (auto simp: q_def sched_ok_def)
    have len: "length q \<le> length (k_runq st c) + 1" by (simp add: q_def)
    have "schedule_loop (length (k_runq st c) + 3) (load_next st c q) c None = Inr (sched_set st c (rest st q) (Some (pick st c q)), pick st c q)"
    proof (cases q)
      case Nil
      have "schedule_turn (load_next st c q) c None = Inr (Resume (k_idle st c))"
        by (rule schedule_turn_resume) (use Nil i in \<open>simp_all add: load_next_def\<close>)
      then show ?thesis using Nil by (simp add: numeral_eq_Suc load_next_def)
    next
      case (Cons x xs)
      let ?st = "sched_set st c xs (Some x)"
      have "schedule_loop (length (k_runq st c) + 3) ?st c None =
          Inr (sched_set ?st c (rest ?st (x # k_runq ?st c)) (Some (pick ?st c (x # k_runq ?st c))), pick ?st c (x # k_runq ?st c))"
        by (rule schedule_loop_pick) (use alive Cons i len in auto)
      then show ?thesis using Cons by (simp add: load_next_def)
    qed
    then have "schedule_loop (Suc (length (k_runq st c) + 3)) st c yf' = Inr (sched_set st c (rest st q) (Some (pick st c q)), pick st c q)"
      using t cur by (subst schedule_loop.simps(2)) simp
    moreover have "length (k_runq st c) + 4 = Suc (length (k_runq st c) + 3)" by simp
    ultimately show ?thesis using False run by (simp only: s) simp
  qed
qed

text \<open>A small kernel: process 3 runs, process 4 waits in the queue of CPU 0, and 9 is the idle task.\<close>

definition demo_proc :: "int \<Rightarrow> proc" where
  "demo_proc i = \<lparr>pr_pid = i, pr_true_pid = i, pr_ppid = 1, pr_state = runnable, pr_resumable = True, pr_children = [], pr_cpu = 0,
     pr_exit_status = 0, pr_interrupted = False, pr_exiting = False, pr_fdtable = 0, pr_pagetable = 0\<rparr>"

definition demo_kst :: kst where
  "demo_kst = \<lparr>k_procs = [3 \<mapsto> demo_proc 2, 4 \<mapsto> demo_proc 3, 9 \<mapsto> demo_proc (- 1)], k_ptable = [], k_true_ptable = [],
     k_runq = (\<lambda>_. [])(0 := [4]), k_current = [0 \<mapsto> 3], k_idle = (\<lambda>_. 9), k_wq = (\<lambda>_. []), k_ticks = 0\<rparr>"

theorem schedule_correct_witness:
  "sched_ok demo_kst 0 \<and> schedule 5 demo_kst 0 (Some 3) = Inr (sched_set demo_kst 0 [3] (Some 4), 4)"
proof -
  have ok: "sched_ok demo_kst 0"
    by (simp add: sched_ok_def demo_kst_def demo_proc_def runq_linked_def list_ex_iff state_of_def)
  have s: "state_of demo_kst 3 = runnable" "state_of demo_kst 4 = runnable" "k_current demo_kst 0 = Some 3" "k_runq demo_kst 0 = [4]"
    by (simp_all add: demo_kst_def demo_proc_def state_of_def)
  show ?thesis using schedule_correct[OF ok s(3), of "Some 3"] ok s by simp
qed

section \<open>Waking\<close>

lemma enqueue_fields:
  "enqueue st c p = Inr st' \<Longrightarrow> k_procs st' = k_procs st \<and> k_wq st' = k_wq st \<and> k_ticks st' = k_ticks st"
  by (auto simp: enqueue_def with_proc_def assert_then_def split: option.splits if_splits)

lemma proc_wake_fields:
  assumes "proc_wake st p = Inr st'"
  shows "k_wq st' = k_wq st" "k_ticks st' = k_ticks st"
    "k_procs st' = (if state_of st p = blocked then (k_procs st)(p \<mapsto> (the (k_procs st p))\<lparr>pr_state := runnable\<rparr>) else k_procs st)"
proof -
  obtain pr where pr: "k_procs st p = Some pr" using assms by (auto simp: proc_wake_def with_proc_def split: option.splits)
  have "k_wq st' = k_wq st \<and> k_ticks st' = k_ticks st \<and>
    k_procs st' = (if state_of st p = blocked then (k_procs st)(p \<mapsto> (the (k_procs st p))\<lparr>pr_state := runnable\<rparr>) else k_procs st)"
  proof (cases "pr_state pr = blocked")
    case True
    then have "enqueue (set_proc st p (pr\<lparr>pr_state := runnable\<rparr>)) (pr_cpu pr) p = Inr st'" using assms pr by (simp add: proc_wake_def with_proc_def)
    from enqueue_fields[OF this] show ?thesis using True pr by (simp add: set_proc_def state_of_def)
  next
    case False
    then show ?thesis using assms pr by (simp add: proc_wake_def with_proc_def state_of_def)
  qed
  then show "k_wq st' = k_wq st" "k_ticks st' = k_ticks st"
    "k_procs st' = (if state_of st p = blocked then (k_procs st)(p \<mapsto> (the (k_procs st p))\<lparr>pr_state := runnable\<rparr>) else k_procs st)" by blast+
qed

text \<open>A process after some others, or it, were woken.\<close>

definition woken :: "nat set \<Rightarrow> kst \<Rightarrow> kst \<Rightarrow> bool" where
  "woken W st st' \<longleftrightarrow> (\<forall>p. k_procs st' p = (if p \<in> W \<and> state_of st p = blocked then Some ((the (k_procs st p))\<lparr>pr_state := runnable\<rparr>) else k_procs st p))"

lemma wake_list_woken:
  "wake_list ws st = Inr st' \<Longrightarrow> woken (set ws) st st' \<and> k_wq st' = k_wq st \<and> k_ticks st' = k_ticks st"
proof (induction ws arbitrary: st)
  case Nil
  then show ?case by (simp add: woken_def)
next
  case (Cons w ws)
  then obtain st1 where st1: "proc_wake st w = Inr st1" "wake_list ws st1 = Inr st'" by (auto simp: rbind_eq_Inr)
  note f = proc_wake_fields[OF st1(1)]
  have IH: "woken (set ws) st1 st'" "k_wq st' = k_wq st1" "k_ticks st' = k_ticks st1" using Cons.IH[OF st1(2)] by auto
  have s: "state_of st1 p = (if p = w \<and> state_of st w = blocked then runnable else state_of st p)" for p
    using f(3) by (auto simp: state_of_def split: option.splits)
  have "woken (set (w # ws)) st st'" unfolding woken_def
  proof
    fix p
    show "k_procs st' p = (if p \<in> set (w # ws) \<and> state_of st p = blocked then Some ((the (k_procs st p))\<lparr>pr_state := runnable\<rparr>) else k_procs st p)"
      using IH(1)[unfolded woken_def, rule_format, of p] s[of p] f(3) by (auto split: if_splits)
  qed
  then show ?case using IH f by simp
qed

lemma wake_all_woken:
  assumes "wake_all st q = Inr st'"
  shows "woken (set (k_wq st q)) st st'" "k_wq st' = (k_wq st)(q := [])" "k_ticks st' = k_ticks st"
  using wake_list_woken[OF assms[unfolded wake_all_def]] by (simp_all add: woken_def state_of_def)

lemma woken_state: "woken W st st' \<Longrightarrow> state_of st' p = (if p \<in> W \<and> state_of st p = blocked then runnable else state_of st p)"
  by (auto simp: woken_def state_of_def)

lemma woken_alive: "woken W st st' \<Longrightarrow> k_procs st p \<noteq> None \<Longrightarrow> k_procs st' p \<noteq> None"
  by (auto simp: woken_def)

lemma waiter_prepare_fields:
  assumes "waiter_prepare st q p = Inr st'"
  shows "k_wq st' = (k_wq st)(q := k_wq st q @ [p])" "state_of st' p' = (if p' = p then blocked else state_of st p')" "k_ticks st' = k_ticks st"
    "k_procs st p \<noteq> None" "k_procs st' p' = None \<longleftrightarrow> k_procs st p' = None"
  using assms by (auto simp: waiter_prepare_def with_proc_def set_proc_def state_of_def split: option.splits if_splits)

lemma waiter_clear_fields:
  assumes "waiter_clear st q p = Inr st'"
  shows "k_wq st' = (k_wq st)(q := remove1 p (k_wq st q))" "state_of st' p' = (if p' = p then runnable else state_of st p')" "k_ticks st' = k_ticks st"
    "k_procs st p \<noteq> None" "k_procs st' p' = None \<longleftrightarrow> k_procs st p' = None"
  using assms by (auto simp: waiter_clear_def with_proc_def set_proc_def state_of_def split: option.splits if_splits)

section \<open>No wakeup is lost\<close>

text \<open>
  Processes in \<open>block_until\<close> on one wait queue.  The predicate can change at any time; whoever makes it true goes on to call
  \<open>wake_all\<close>, and \<open>ws_pending\<close> counts those that have not yet done so.  The steps of the processes
  and of the wakers interleave; a process whose \<open>yield\<close> is to return must be runnable, since the scheduler resumes no other.
\<close>

datatype wpc = W_start | W_test | W_sleep | W_done | W_exit

record wsys =
  ws_k :: kst
  ws_pc :: "nat \<Rightarrow> wpc"
  ws_pred :: bool
  ws_pending :: nat

inductive wait_step :: "wqid \<Rightarrow> wsys \<Rightarrow> wsys \<Rightarrow> bool" for q where
  prepare: "ws_pc s p = W_start \<Longrightarrow> waiter_prepare (ws_k s) q p = Inr k \<Longrightarrow> wait_step q s (s\<lparr>ws_k := k, ws_pc := (ws_pc s)(p := W_test)\<rparr>)"
| return: "ws_pc s p = W_test \<Longrightarrow> block_until_test (ws_k s) q p (ws_pred s) = Inr (Block_return k)
    \<Longrightarrow> wait_step q s (s\<lparr>ws_k := k, ws_pc := (ws_pc s)(p := W_done)\<rparr>)"
| exit: "ws_pc s p = W_test \<Longrightarrow> block_until_test (ws_k s) q p (ws_pred s) = Inr (Block_exit k)
    \<Longrightarrow> wait_step q s (s\<lparr>ws_k := k, ws_pc := (ws_pc s)(p := W_exit)\<rparr>)"
| sleep: "ws_pc s p = W_test \<Longrightarrow> block_until_test (ws_k s) q p (ws_pred s) = Inr Block_sleep
    \<Longrightarrow> wait_step q s (s\<lparr>ws_pc := (ws_pc s)(p := W_sleep)\<rparr>)"
| resume: "ws_pc s p = W_sleep \<Longrightarrow> state_of (ws_k s) p = runnable \<Longrightarrow> waiter_clear (ws_k s) q p = Inr k
    \<Longrightarrow> wait_step q s (s\<lparr>ws_k := k, ws_pc := (ws_pc s)(p := W_start)\<rparr>)"
| pred_on: "wait_step q s (s\<lparr>ws_pred := True, ws_pending := ws_pending s + 1\<rparr>)"
| pred_off: "wait_step q s (s\<lparr>ws_pred := False\<rparr>)"
| wakeup: "0 < ws_pending s \<Longrightarrow> wake_all (ws_k s) q = Inr k \<Longrightarrow> wait_step q s (s\<lparr>ws_k := k, ws_pending := ws_pending s - 1\<rparr>)"
| spurious: "proc_wake (ws_k s) p = Inr k \<Longrightarrow> wait_step q s (s\<lparr>ws_k := k\<rparr>)"

definition in_wait :: "wpc \<Rightarrow> bool" where
  "in_wait pc \<longleftrightarrow> pc = W_test \<or> pc = W_sleep"

definition wait_inv :: "wqid \<Rightarrow> wsys \<Rightarrow> bool" where
  "wait_inv q s \<longleftrightarrow> distinct (k_wq (ws_k s) q)
     \<and> (\<forall>p \<in> set (k_wq (ws_k s) q). in_wait (ws_pc s p))
     \<and> (\<forall>p. in_wait (ws_pc s p) \<longrightarrow> (state_of (ws_k s) p = blocked \<and> p \<in> set (k_wq (ws_k s) q)) \<or> state_of (ws_k s) p = runnable)
     \<and> (\<forall>p. ws_pc s p = W_sleep \<and> state_of (ws_k s) p = blocked \<and> ws_pred s \<longrightarrow> 0 < ws_pending s)"

definition wait_init :: "wqid \<Rightarrow> wsys \<Rightarrow> bool" where
  "wait_init q s \<longleftrightarrow> k_wq (ws_k s) q = [] \<and> (\<forall>p. ws_pc s p = W_start)"

lemma block_until_testD:
  shows "block_until_test st q p b = Inr (Block_return k) \<Longrightarrow> b \<and> waiter_clear st q p = Inr k"
    "block_until_test st q p b = Inr Block_sleep \<Longrightarrow> \<not> b \<and> k_procs st p \<noteq> None"
    "block_until_test st q p b = Inr (Block_exit k) \<Longrightarrow> \<exists>st1 st2. waiter_clear st q p = Inr st1
       \<and> st2 = set_proc st1 p ((the (k_procs st1 p))\<lparr>pr_state := broken\<rparr>) \<and> wake_all st2 Waitpid_wq = Inr k"
  by (auto simp: block_until_test_def with_proc_def rbind_eq_Inr split: option.splits if_splits)

lemma wait_invD:
  assumes "wait_inv q s"
  shows "distinct (k_wq (ws_k s) q)" "p \<in> set (k_wq (ws_k s) q) \<Longrightarrow> in_wait (ws_pc s p)"
    "in_wait (ws_pc s p) \<Longrightarrow> (state_of (ws_k s) p = blocked \<and> p \<in> set (k_wq (ws_k s) q)) \<or> state_of (ws_k s) p = runnable"
    "ws_pc s p = W_sleep \<Longrightarrow> state_of (ws_k s) p = blocked \<Longrightarrow> ws_pred s \<Longrightarrow> 0 < ws_pending s"
  using assms by (auto simp: wait_inv_def)

lemma in_wait_simps [simp]: "in_wait W_test" "in_wait W_sleep" "\<not> in_wait W_start" "\<not> in_wait W_done" "\<not> in_wait W_exit"
  by (simp_all add: in_wait_def)

text \<open>Leaving the queue, and waking processes, keep the invariant.\<close>

lemma wait_inv_clear:
  assumes inv: "wait_inv q s" and c: "waiter_clear (ws_k s) q p = Inr k" and pc: "\<not> in_wait pc"
  shows "wait_inv q (s\<lparr>ws_k := k, ws_pc := (ws_pc s)(p := pc)\<rparr>)"
proof -
  note f = waiter_clear_fields[OF c] and I = wait_invD[OF inv]
  have set: "set (k_wq k q) = set (k_wq (ws_k s) q) - {p}" using f(1) I(1) by (simp add: set_remove1_eq)
  show ?thesis unfolding wait_inv_def
    using I f(2) pc set f(1) distinct_remove1[OF I(1)] by auto
qed

lemma wait_inv_woken:
  assumes inv: "wait_inv q s" and w: "woken W (ws_k s) k" and qs: "k_wq k q = k_wq (ws_k s) q \<or> (k_wq k q = [] \<and> set (k_wq (ws_k s) q) \<subseteq> W)"
  shows "wait_inv q (s\<lparr>ws_k := k\<rparr>)"
proof -
  note I = wait_invD[OF inv] and st = woken_state[OF w]
  have "in_wait (ws_pc s p) \<Longrightarrow> (state_of k p = blocked \<and> p \<in> set (k_wq k q)) \<or> state_of k p = runnable" for p
    using I(3)[of p] st[of p] qs by auto
  moreover have "ws_pc s p = W_sleep \<Longrightarrow> state_of k p = blocked \<Longrightarrow> ws_pred s \<Longrightarrow> 0 < ws_pending s" for p
    using I(4)[of p] st[of p] by (auto split: if_splits)
  ultimately show ?thesis using I(1,2) qs by (auto simp: wait_inv_def)
qed

lemma wait_inv_exit:
  assumes inv: "wait_inv q s" and c: "waiter_clear (ws_k s) q p = Inr st1"
    and w: "wake_all (set_proc st1 p ((the (k_procs st1 p))\<lparr>pr_state := broken\<rparr>)) Waitpid_wq = Inr k"
  shows "wait_inv q (s\<lparr>ws_k := k, ws_pc := (ws_pc s)(p := W_exit)\<rparr>)"
proof -
  let ?st2 = "set_proc st1 p ((the (k_procs st1 p))\<lparr>pr_state := broken\<rparr>)" and ?s1 = "s\<lparr>ws_k := st1, ws_pc := (ws_pc s)(p := W_exit)\<rparr>"
  have "wait_inv q ?s1" by (rule wait_inv_clear[OF inv c]) simp
  then have "wait_inv q (?s1\<lparr>ws_k := ?st2\<rparr>)"
    by (auto simp: wait_inv_def set_proc_def state_of_def)
  from wait_inv_woken[OF this, of "set (k_wq ?st2 Waitpid_wq)" k] wake_all_woken[OF w]
  have "wait_inv q (?s1\<lparr>ws_k := k\<rparr>)" by (cases "q = Waitpid_wq") auto
  moreover have "?s1\<lparr>ws_k := k\<rparr> = s\<lparr>ws_k := k, ws_pc := (ws_pc s)(p := W_exit)\<rparr>" by simp
  ultimately show ?thesis by metis
qed

lemma wait_step_inv: "wait_step q s s' \<Longrightarrow> wait_inv q s \<Longrightarrow> wait_inv q s'"
proof (induction rule: wait_step.induct)
  case (prepare s p k)
  note I = wait_invD[OF prepare.prems] and f = waiter_prepare_fields[OF prepare.hyps(2)]
  have "p \<notin> set (k_wq (ws_k s) q)" using I(2)[of p] prepare.hyps(1) by auto
  then show ?case using I f(1,2) unfolding wait_inv_def by auto
next
  case (return s p k)
  then show ?case using block_until_testD(1) wait_inv_clear[of q s p k W_done] by simp
next
  case (exit s p k)
  then show ?case using block_until_testD(3) wait_inv_exit by blast
next
  case (sleep s p)
  then have "\<not> ws_pred s" using block_until_testD(2) by blast
  then show ?case using wait_invD[OF sleep.prems] sleep.hyps(1) unfolding wait_inv_def by auto
next
  case (resume s p k)
  then show ?case using wait_inv_clear[of q s p k W_start] by simp
next
  case (pred_on s)
  then show ?case by (auto simp: wait_inv_def)
next
  case (pred_off s)
  then show ?case by (auto simp: wait_inv_def)
next
  case (wakeup s k)
  note w = wake_all_woken[OF wakeup.hyps(2)]
  have i: "wait_inv q (s\<lparr>ws_k := k\<rparr>)" using wait_inv_woken[OF wakeup.prems w(1)] w(2) by simp
  have "state_of k p \<noteq> blocked" if "ws_pc s p = W_sleep" for p
    using wait_invD(3)[OF wakeup.prems, of p] that woken_state[OF w(1), of p] by auto
  then show ?case using i unfolding wait_inv_def by auto
next
  case (spurious s p k)
  note f = proc_wake_fields[OF spurious.hyps]
  have "woken {p} (ws_k s) k" using f(3) by (auto simp: woken_def)
  then show ?case using wait_inv_woken[OF spurious.prems] f(1) by simp
qed

lemma wait_reachable_inv: "(wait_step q)\<^sup>*\<^sup>* s0 s \<Longrightarrow> wait_init q s0 \<Longrightarrow> wait_inv q s"
proof (induction rule: rtranclp_induct)
  case base
  then show ?case by (simp add: wait_init_def wait_inv_def)
next
  case (step s s')
  then show ?case using wait_step_inv by blast
qed

text \<open>The steps that a process takes from its sleep to its return.\<close>

lemma waiter_returns:
  assumes pc: "ws_pc s p = W_sleep" and run: "state_of (ws_k s) p = runnable" and pred: "ws_pred s"
    and ex: "\<not> pr_exiting (the (k_procs (ws_k s) p))"
  shows "\<exists>s'. (wait_step q)\<^sup>*\<^sup>* s s' \<and> ws_pc s' p = W_done \<and> state_of (ws_k s') p = runnable"
proof -
  obtain pr where pr: "k_procs (ws_k s) p = Some pr" using run by (auto simp: state_of_def split: option.splits)
  obtain k1 where k1: "waiter_clear (ws_k s) q p = Inr k1" "k_procs k1 p = Some (pr\<lparr>pr_state := runnable\<rparr>)"
    using pr by (simp add: waiter_clear_def with_proc_def set_proc_def)
  let ?s1 = "s\<lparr>ws_k := k1, ws_pc := (ws_pc s)(p := W_start)\<rparr>"
  obtain k2 where k2: "waiter_prepare k1 q p = Inr k2" "k_procs k2 p = Some (pr\<lparr>pr_state := blocked\<rparr>)"
    using k1(2) by (simp add: waiter_prepare_def with_proc_def set_proc_def)
  let ?s2 = "?s1\<lparr>ws_k := k2, ws_pc := (ws_pc ?s1)(p := W_test)\<rparr>"
  obtain k3 where k3: "waiter_clear k2 q p = Inr k3" "k_procs k3 p = Some (pr\<lparr>pr_state := runnable\<rparr>)"
    using k2(2) by (simp add: waiter_clear_def with_proc_def set_proc_def)
  have t: "block_until_test k2 q p True = Inr (Block_return k3)" using k2(2) k3(1) ex pr by (simp add: block_until_test_def with_proc_def)
  have "wait_step q s ?s1" by (rule wait_step.resume[OF pc run k1(1)])
  moreover have "wait_step q ?s1 ?s2" by (rule wait_step.prepare) (use k2 in simp_all)
  moreover have "wait_step q ?s2 (?s2\<lparr>ws_k := k3, ws_pc := (ws_pc ?s2)(p := W_done)\<rparr>)" by (rule wait_step.return) (use t pred in simp_all)
  ultimately have "(wait_step q)\<^sup>*\<^sup>* s (?s2\<lparr>ws_k := k3, ws_pc := (ws_pc ?s2)(p := W_done)\<rparr>)" by (meson converse_rtranclp_into_rtranclp rtranclp.rtrancl_refl)
  then show ?thesis using k3(2) by (intro exI[of _ "?s2\<lparr>ws_k := k3, ws_pc := (ws_pc ?s2)(p := W_done)\<rparr>"]) (simp add: state_of_def)
qed

text \<open>
  C7: No wakeup is lost.  However the steps of sleepers and wakers interleave, once the predicate holds and every process that made
  it true has called \<open>wake_all\<close>, a process that decided to sleep is no longer blocked, and its own next steps
  take it out of \<open>block_until\<close>.
\<close>
theorem no_lost_wakeup:
  assumes r: "(wait_step q)\<^sup>*\<^sup>* s0 s" and i: "wait_init q s0" and pred: "ws_pred s" and pend: "ws_pending s = 0"
    and pc: "ws_pc s p = W_sleep" and ex: "\<not> pr_exiting (the (k_procs (ws_k s) p))"
  shows "state_of (ws_k s) p = runnable \<and> (\<exists>s'. (wait_step q)\<^sup>*\<^sup>* s s' \<and> ws_pc s' p = W_done \<and> state_of (ws_k s') p = runnable)"
proof -
  note inv = wait_reachable_inv[OF r i]
  have "state_of (ws_k s) p = runnable" using wait_invD(3)[OF inv, of p] wait_invD(4)[OF inv pc] pred pend pc by auto
  then show ?thesis using waiter_returns[OF pc _ pred ex] by blast
qed

theorem no_lost_wakeup_witness:
  "\<exists>s0 s. (wait_step Waitpid_wq)\<^sup>*\<^sup>* s0 s \<and> wait_init Waitpid_wq s0 \<and> ws_pred s \<and> ws_pending s = 0 \<and> ws_pc s 3 = W_sleep
     \<and> state_of (ws_k s) 3 = runnable"
proof -
  let ?k0 = demo_kst
  let ?s0 = "\<lparr>ws_k = ?k0, ws_pc = (\<lambda>_. W_start), ws_pred = False, ws_pending = 0\<rparr>"
  obtain k1 where k1: "waiter_prepare ?k0 Waitpid_wq 3 = Inr k1" "k1 = demo_kst\<lparr>k_procs := (k_procs demo_kst)(3 \<mapsto> (demo_proc 2)\<lparr>pr_state := blocked\<rparr>),
      k_wq := (k_wq demo_kst)(Waitpid_wq := [3])\<rparr>"
    by (simp add: waiter_prepare_def with_proc_def set_proc_def demo_kst_def)
  let ?s1 = "?s0\<lparr>ws_k := k1, ws_pc := (\<lambda>_. W_start)(3 := W_test)\<rparr>"
  let ?s2 = "?s1\<lparr>ws_pc := (ws_pc ?s1)(3 := W_sleep)\<rparr>"
  let ?s3 = "?s2\<lparr>ws_pred := True, ws_pending := ws_pending ?s2 + 1\<rparr>"
  have a: "wait_step Waitpid_wq ?s0 ?s1"
    using wait_step.prepare[of ?s0 3 Waitpid_wq k1] k1(1) by simp
  have b: "wait_step Waitpid_wq ?s1 ?s2"
    by (rule wait_step.sleep) (simp_all add: block_until_test_def with_proc_def k1(2) demo_proc_def)
  have c: "wait_step Waitpid_wq ?s2 ?s3" by (rule wait_step.pred_on)
  obtain k4 where k4: "wake_all (ws_k ?s3) Waitpid_wq = Inr k4"
    by (simp add: wake_all_def proc_wake_def with_proc_def set_proc_def enqueue_def runq_linked_def list_ex_iff k1(2) demo_kst_def demo_proc_def)
  let ?s4 = "?s3\<lparr>ws_k := k4, ws_pending := ws_pending ?s3 - 1\<rparr>"
  have d: "wait_step Waitpid_wq ?s3 ?s4" by (rule wait_step.wakeup) (use k4 in simp_all)
  have r: "(wait_step Waitpid_wq)\<^sup>*\<^sup>* ?s0 ?s4" using a b c d by (meson converse_rtranclp_into_rtranclp rtranclp.rtrancl_refl)
  have i: "wait_init Waitpid_wq ?s0" by (simp add: wait_init_def demo_kst_def)
  have ex: "\<not> pr_exiting (the (k_procs (ws_k ?s4) 3))"
    using wake_all_woken(1)[OF k4] by (simp add: woken_def k1(2) demo_proc_def)
  show ?thesis using no_lost_wakeup[OF r i _ _ _ ex] r i by (intro exI[of _ ?s0] exI[of _ ?s4]) simp
qed

section \<open>Sleeping for a time\<close>

text \<open>A process in \<open>SYSCALL_MSLEEP\<close> until tick \<open>e\<close>, between the timer's ticks and other wakeups.\<close>

inductive msleep_step :: "nat \<Rightarrow> u64 \<Rightarrow> kst \<times> wpc \<Rightarrow> kst \<times> wpc \<Rightarrow> bool" for p e where
  prepare: "waiter_prepare st (wheel_spoke e) p = Inr st' \<Longrightarrow> msleep_step p e (st, W_start) (st', W_test)"
| finish: "msleep_over st p e = Inr True \<Longrightarrow> msleep_finish st p e = Inr (st', r) \<Longrightarrow> msleep_step p e (st, W_test) (st', W_done)"
| sleep: "msleep_over st p e = Inr False \<Longrightarrow> msleep_step p e (st, W_test) (st, W_sleep)"
| resume: "state_of st p = runnable \<Longrightarrow> waiter_clear st (wheel_spoke e) p = Inr st' \<Longrightarrow> msleep_step p e (st, W_sleep) (st', W_start)"
| tick: "timer_tick st = Inr st' \<Longrightarrow> msleep_step p e (st, pc) (st', pc)"
| wake: "proc_wake st p' = Inr st' \<Longrightarrow> msleep_step p e (st, pc) (st', pc)"

definition msleep_inv :: "nat \<Rightarrow> u64 \<Rightarrow> kst \<times> wpc \<Rightarrow> bool" where
  "msleep_inv p e s = (case s of (st, pc) \<Rightarrow>
     (in_wait pc \<longrightarrow> (state_of st p = blocked \<and> p \<in> set (k_wq st (wheel_spoke e))) \<or> state_of st p = runnable)
   \<and> (pc = W_sleep \<and> state_of st p = blocked \<longrightarrow> 0 < sint (e - k_ticks st)))"

lemma next_tick:
  assumes "0 < sint (e - t)" "\<not> 0 < sint (e - (t + 1))"
  shows "t + 1 = (e :: u64)"
proof -
  let ?d = "e - t"
  have d: "?d \<noteq> 0" "\<not> sint ?d < 0" using assms(1) by auto
  have pos: "unat ?d < 2 ^ 63" using d(2) sint_neg_iff[of ?d] by simp
  have e: "e - (t + 1) = ?d - 1" by simp
  have "unat (?d - 1) = unat ?d - 1" using d(1) by (rule unat_minus_one)
  then have "\<not> sint (?d - 1) < 0" using pos sint_neg_iff[of "?d - 1"] by auto
  then have "sint (?d - 1) = 0" using assms(2) e by simp
  then have "?d - 1 = 0" by (simp add: signed_eq_0_iff)
  then show ?thesis by (simp add: algebra_simps)
qed

lemma timer_tick_woken:
  assumes "timer_tick st = Inr st'"
  shows "k_ticks st' = k_ticks st + 1" "woken (set (k_wq st (wheel_spoke (k_ticks st + 1)))) st st'"
    "k_wq st' = (k_wq st)(wheel_spoke (k_ticks st + 1) := [])"
proof -
  let ?q = "wheel_spoke (k_ticks st + 1)" and ?st1 = "st\<lparr>k_ticks := k_ticks st + 1\<rparr>"
  have "k_ticks st' = k_ticks st + 1 \<and> woken (set (k_wq st ?q)) st st' \<and> k_wq st' = (k_wq st)(?q := [])"
  proof (cases "k_wq st ?q = []")
    case True
    then show ?thesis using assms by (auto simp: timer_tick_def Let_def woken_def fun_upd_idem)
  next
    case False
    then have "wake_all ?st1 ?q = Inr st'" using assms by (simp add: timer_tick_def Let_def)
    from wake_all_woken[OF this] show ?thesis by (simp add: woken_def state_of_def)
  qed
  then show "k_ticks st' = k_ticks st + 1" "woken (set (k_wq st ?q)) st st'" "k_wq st' = (k_wq st)(?q := [])" by blast+
qed

lemma msleep_step_inv: "msleep_step p e s s' \<Longrightarrow> msleep_inv p e s \<Longrightarrow> msleep_inv p e s'"
proof (induction rule: msleep_step.induct)
  case (prepare st st')
  then show ?case using waiter_prepare_fields[OF prepare.hyps] by (simp add: msleep_inv_def)
next
  case (sleep st)
  then show ?case by (auto simp: msleep_inv_def msleep_over_def with_proc_def split: option.splits)
next
  case (tick st st' pc)
  note t = timer_tick_woken[OF tick.hyps] and w = woken_state[OF timer_tick_woken(2)[OF tick.hyps], of p]
  have "0 < sint (e - k_ticks st')" if "pc = W_sleep" "state_of st' p = blocked"
  proof (rule ccontr)
    assume "\<not> ?thesis"
    moreover have b: "state_of st p = blocked" "p \<notin> set (k_wq st (wheel_spoke (k_ticks st + 1)))" using w that(2) by (auto split: if_splits)
    moreover have "0 < sint (e - k_ticks st)" "p \<in> set (k_wq st (wheel_spoke e))" using tick.prems that(1) b(1) by (auto simp: msleep_inv_def)
    ultimately show False using next_tick[of e "k_ticks st"] t(1) by simp
  qed
  moreover have "state_of st' p = runnable \<or> state_of st' p = blocked \<and> p \<in> set (k_wq st' (wheel_spoke e))" if "in_wait pc"
    using tick.prems that w t(3) by (auto simp: msleep_inv_def split: if_splits)
  ultimately show ?case by (auto simp: msleep_inv_def)
next
  case (wake st p' st' pc)
  note f = proc_wake_fields[OF wake.hyps]
  have "woken {p'} st st'" using f(3) by (auto simp: woken_def)
  from woken_state[OF this, of p] show ?case using wake.prems f(1,2) by (auto simp: msleep_inv_def split: if_splits)
qed (auto simp: msleep_inv_def)

lemma msleep_reachable_inv: "(msleep_step p e)\<^sup>*\<^sup>* (st0, W_start) s \<Longrightarrow> msleep_inv p e s"
proof (induction rule: rtranclp_induct)
  case base
  then show ?case by (simp add: msleep_inv_def)
next
  case (step s s')
  then show ?case using msleep_step_inv by blast
qed

lemma msleep_returns:
  assumes run: "state_of st p = runnable" and over: "sint (e - k_ticks st) \<le> 0"
  shows "\<exists>st'. (msleep_step p e)\<^sup>*\<^sup>* (st, W_sleep) (st', W_done)"
proof -
  obtain pr where pr: "k_procs st p = Some pr" using run by (auto simp: state_of_def split: option.splits)
  obtain st1 where 1: "waiter_clear st (wheel_spoke e) p = Inr st1" "k_procs st1 p = Some (pr\<lparr>pr_state := runnable\<rparr>)" "k_ticks st1 = k_ticks st"
    using pr by (simp add: waiter_clear_def with_proc_def set_proc_def)
  obtain st2 where 2: "waiter_prepare st1 (wheel_spoke e) p = Inr st2" "k_procs st2 p = Some (pr\<lparr>pr_state := blocked\<rparr>)" "k_ticks st2 = k_ticks st"
    using 1(2,3) by (simp add: waiter_prepare_def with_proc_def set_proc_def)
  have o: "msleep_over st2 p e = Inr True" using 2 over by (simp add: msleep_over_def with_proc_def)
  obtain st3 r where 3: "msleep_finish st2 p e = Inr (st3, r)"
    using 2(2) by (simp add: msleep_finish_def waiter_clear_def with_proc_def set_proc_def)
  have "msleep_step p e (st, W_sleep) (st1, W_start)" by (rule msleep_step.resume[OF run 1(1)])
  moreover have "msleep_step p e (st1, W_start) (st2, W_test)" by (rule msleep_step.prepare[OF 2(1)])
  moreover have "msleep_step p e (st2, W_test) (st3, W_done)" by (rule msleep_step.finish[OF o 3])
  ultimately show ?thesis by (meson converse_rtranclp_into_rtranclp rtranclp.rtrancl_refl)
qed

text \<open>
  A sleeping process is woken on time: as long as it is blocked, the tick it waits for has not come, so that after that tick it is
  runnable and its own next steps end the call.
\<close>
theorem msleep_wakes:
  assumes r: "(msleep_step p e)\<^sup>*\<^sup>* (st0, W_start) (st, W_sleep)" and over: "sint (e - k_ticks st) \<le> 0"
  shows "state_of st p = runnable \<and> (\<exists>st'. (msleep_step p e)\<^sup>*\<^sup>* (st, W_sleep) (st', W_done))"
proof -
  have "state_of st p = runnable" using msleep_reachable_inv[OF r] over by (auto simp: msleep_inv_def)
  then show ?thesis using msleep_returns[OF _ over] by blast
qed

theorem msleep_wakes_witness:
  "\<exists>st. (msleep_step 3 1)\<^sup>*\<^sup>* (demo_kst, W_start) (st, W_sleep) \<and> k_ticks st = 1 \<and> state_of st 3 = runnable"
proof -
  have sp: "wheel_spoke 1 = Wheel 1" by (simp add: wheel_spoke_def)
  define st1 where "st1 = demo_kst\<lparr>k_procs := (k_procs demo_kst)(3 \<mapsto> (demo_proc 2)\<lparr>pr_state := blocked\<rparr>), k_wq := (k_wq demo_kst)(Wheel 1 := [3])\<rparr>"
  have a: "msleep_step 3 1 (demo_kst, W_start) (st1, W_test)"
    by (rule msleep_step.prepare) (simp add: waiter_prepare_def with_proc_def set_proc_def sp st1_def demo_kst_def)
  have b: "msleep_step 3 1 (st1, W_test) (st1, W_sleep)"
    by (rule msleep_step.sleep) (simp add: msleep_over_def with_proc_def st1_def demo_kst_def demo_proc_def)
  obtain st2 where t: "timer_tick st1 = Inr st2"
    by (simp add: timer_tick_def Let_def sp wake_all_def proc_wake_def with_proc_def set_proc_def enqueue_def runq_linked_def list_ex_iff
        st1_def demo_kst_def demo_proc_def)
  have tk: "k_ticks st2 = 1" using timer_tick_woken(1)[OF t] by (simp add: st1_def demo_kst_def)
  have c: "msleep_step 3 1 (st1, W_sleep) (st2, W_sleep)" by (rule msleep_step.tick[OF t])
  have r: "(msleep_step 3 1)\<^sup>*\<^sup>* (demo_kst, W_start) (st2, W_sleep)" using a b c by (meson converse_rtranclp_into_rtranclp rtranclp.rtrancl_refl)
  show ?thesis using msleep_wakes[OF r] r tk by auto
qed

end
