(* ===== verification/Process_Tree.thy ===== *)
theory Process_Tree
  imports Process Sched_Correct
begin

text \<open>
  The abstract state of the process tables: a tree of processes, and the operations that add a process below a parent, move a child to process 1,
  mark a process as dead and remove one.  Each keeps the tree well formed.
\<close>

section \<open>The process tree\<close>

text \<open>
  An abstract view of the process tables: the two tables, and for every process in them its numbers, its children
  and whether it is dead.
\<close>

record core =
  c_pid :: int
  c_true :: int
  c_ppid :: int
  c_children :: "nat list"
  c_broken :: bool

record ptree =
  t_pt :: "nat option list"
  t_tt :: "nat option list"
  t_view :: "nat \<Rightarrow> core option"

definition main_at :: "nat option list \<Rightarrow> int \<Rightarrow> bool" where
  "main_at tt i \<longleftrightarrow> 0 \<le> i \<and> nat i < NPROC \<and> tt ! nat i \<noteq> None"

definition node_ok :: "ptree \<Rightarrow> core \<Rightarrow> bool" where
  "node_ok T c \<longleftrightarrow> distinct (c_children c) \<and> main_at (t_tt T) (c_ppid c)
     \<and> (\<forall>x. x \<in> set (c_children c) \<longleftrightarrow> (\<exists>d. t_view T x = Some d \<and> c_ppid d = c_pid c \<and> c_pid d \<noteq> 1))
     \<and> (c_pid c \<noteq> 1 \<longrightarrow> c_ppid c \<noteq> c_pid c)
     \<and> (c_broken c \<longrightarrow> c_true c = c_pid c \<longrightarrow> c_children c = [])"

definition tabs_ok :: "ptree \<Rightarrow> bool" where
  "tabs_ok T \<longleftrightarrow> length (t_pt T) = NPROC \<and> length (t_tt T) = NPROC
     \<and> (\<forall>i < NPROC. \<forall>p. t_pt T ! i = Some p \<longrightarrow> (\<exists>c. t_view T p = Some c \<and> c_pid c = int i))
     \<and> (\<forall>p c. t_view T p = Some c \<longrightarrow> 0 \<le> c_pid c \<and> nat (c_pid c) < NPROC \<and> t_pt T ! nat (c_pid c) = Some p)
     \<and> (\<forall>i < NPROC. \<forall>p. t_tt T ! i = Some p \<longleftrightarrow> t_pt T ! i = Some p \<and> (\<exists>c. t_view T p = Some c \<and> c_true c = int i))"

definition init_ok :: "ptree \<Rightarrow> bool" where
  "init_ok T \<longleftrightarrow> (\<exists>i c. t_tt T ! 1 = Some i \<and> t_view T i = Some c \<and> c_ppid c = 1 \<and> \<not> c_broken c)"

definition tree :: "ptree \<Rightarrow> bool" where
  "tree T \<longleftrightarrow> tabs_ok T \<and> init_ok T \<and> (\<forall>p c. t_view T p = Some c \<longrightarrow> node_ok T c)"

lemma tabs_okD:
  assumes "tabs_ok T"
  shows "length (t_pt T) = NPROC" "length (t_tt T) = NPROC"
    "i < NPROC \<Longrightarrow> t_pt T ! i = Some p \<Longrightarrow> \<exists>c. t_view T p = Some c \<and> c_pid c = int i"
    "t_view T p = Some c \<Longrightarrow> 0 \<le> c_pid c \<and> nat (c_pid c) < NPROC \<and> t_pt T ! nat (c_pid c) = Some p"
    "i < NPROC \<Longrightarrow> t_tt T ! i = Some p \<longleftrightarrow> t_pt T ! i = Some p \<and> (\<exists>c. t_view T p = Some c \<and> c_true c = int i)"
  using assms unfolding tabs_ok_def by blast+

lemma treeD:
  assumes "tree T"
  shows "tabs_ok T" "init_ok T" "t_view T p = Some c \<Longrightarrow> node_ok T c"
  using assms unfolding tree_def by blast+

lemma node_okD:
  assumes "node_ok T c"
  shows "distinct (c_children c)" "main_at (t_tt T) (c_ppid c)"
    "x \<in> set (c_children c) \<longleftrightarrow> (\<exists>d. t_view T x = Some d \<and> c_ppid d = c_pid c \<and> c_pid d \<noteq> 1)"
    "c_pid c \<noteq> 1 \<Longrightarrow> c_ppid c \<noteq> c_pid c" "c_broken c \<Longrightarrow> c_true c = c_pid c \<Longrightarrow> c_children c = []"
  using assms unfolding node_ok_def by blast+

text \<open>The recorded children of a process number.\<close>

definition kids :: "ptree \<Rightarrow> int \<Rightarrow> nat \<Rightarrow> bool" where
  "kids T k x \<longleftrightarrow> (\<exists>d. t_view T x = Some d \<and> c_ppid d = k \<and> c_pid d \<noteq> 1)"

lemma node_okI:
  assumes "distinct (c_children c)" "main_at (t_tt T) (c_ppid c)" "\<And>x. x \<in> set (c_children c) \<longleftrightarrow> kids T (c_pid c) x"
    "c_pid c \<noteq> 1 \<Longrightarrow> c_ppid c \<noteq> c_pid c" "c_broken c \<Longrightarrow> c_true c = c_pid c \<Longrightarrow> c_children c = []"
  shows "node_ok T c"
  using assms unfolding node_ok_def kids_def by blast

lemma node_ok_kids: "node_ok T c \<Longrightarrow> x \<in> set (c_children c) \<longleftrightarrow> kids T (c_pid c) x"
  unfolding node_ok_def kids_def by blast

lemma pid_inj: "tabs_ok T \<Longrightarrow> t_view T p = Some c \<Longrightarrow> t_view T q = Some d \<Longrightarrow> c_pid c = c_pid d \<Longrightarrow> p = q"
  using tabs_okD(4)[of T p c] tabs_okD(4)[of T q d] by simp

text \<open>The parent of a process, and process 1.\<close>

lemma parent:
  assumes t: "tree T" and c: "t_view T p = Some c"
  obtains d dc where "t_tt T ! nat (c_ppid c) = Some d" "t_view T d = Some dc" "c_pid dc = c_ppid c" "c_true dc = c_ppid c"
    "0 \<le> c_ppid c" "nat (c_ppid c) < NPROC"
proof -
  have m: "0 \<le> c_ppid c" "nat (c_ppid c) < NPROC" "t_tt T ! nat (c_ppid c) \<noteq> None" using node_okD(2)[OF treeD(3)[OF t c]] by (auto simp: main_at_def)
  then obtain d where d: "t_tt T ! nat (c_ppid c) = Some d" by blast
  then have tt: "t_pt T ! nat (c_ppid c) = Some d" "\<exists>e. t_view T d = Some e \<and> c_true e = int (nat (c_ppid c))"
    using tabs_okD(5)[OF treeD(1)[OF t] m(2)] by blast+
  obtain e where e: "t_view T d = Some e" "c_true e = int (nat (c_ppid c))" using tt(2) by blast
  obtain e' where "t_view T d = Some e'" "c_pid e' = int (nat (c_ppid c))" using tabs_okD(3)[OF treeD(1)[OF t] m(2) tt(1)] by blast
  then show thesis using that[OF d e(1)] e m by simp
qed

lemma init_proc:
  assumes t: "tree T"
  obtains i c where "t_tt T ! 1 = Some i" "t_pt T ! 1 = Some i" "t_view T i = Some c" "c_ppid c = 1" "\<not> c_broken c" "c_pid c = 1" "c_true c = 1"
proof -
  obtain i c where i: "t_tt T ! 1 = Some i" "t_view T i = Some c" "c_ppid c = 1" "\<not> c_broken c" using treeD(2)[OF t] by (auto simp: init_ok_def)
  have p: "t_pt T ! 1 = Some i" "c_true c = 1" using tabs_okD(5)[OF treeD(1)[OF t], of 1 i] i by auto
  then have "c_pid c = 1" using tabs_okD(3)[OF treeD(1)[OF t], of 1 i] i by auto
  then show thesis using that i p by blast
qed

section \<open>Operations on the tree\<close>

text \<open>A new process in an empty slot, below a main thread that is alive.\<close>

definition t_add :: "ptree \<Rightarrow> nat \<Rightarrow> nat \<Rightarrow> int \<Rightarrow> nat \<Rightarrow> ptree" where
  "t_add T i n true d =
     (let dc = the (t_view T d)
      in T\<lparr>t_pt := (t_pt T)[i := Some n], t_tt := (if true = int i then (t_tt T)[i := Some n] else t_tt T),
           t_view := (t_view T)(d \<mapsto> dc\<lparr>c_children := c_children dc @ [n]\<rparr>,
             n \<mapsto> \<lparr>c_pid = int i, c_true = true, c_ppid = c_pid dc, c_children = [], c_broken = False\<rparr>)\<rparr>)"

lemma t_add_tree:
  assumes t: "tree T" and i: "i < NPROC" "t_pt T ! i = None" and n: "t_view T n = None"
    and d: "t_view T d = Some dc" "c_true dc = c_pid dc" "\<not> c_broken dc"
  shows "tree (t_add T i n true d)"
proof -
  note ok = treeD(1)[OF t] and tl = tabs_okD(1,2)[OF treeD(1)[OF t]]
  define nc where "nc = \<lparr>c_pid = int i, c_true = true, c_ppid = c_pid dc, c_children = [], c_broken = False\<rparr>"
  define dc' where "dc' = dc\<lparr>c_children := c_children dc @ [n]\<rparr>"
  define T' where "T' = t_add T i n true d"
  have dn: "d \<noteq> n" using n d by auto
  have V: "t_view T' = (t_view T)(d \<mapsto> dc', n \<mapsto> nc)" and PT: "t_pt T' = (t_pt T)[i := Some n]"
    and TT: "t_tt T' = (if true = int i then (t_tt T)[i := Some n] else t_tt T)"
    using d by (simp_all add: T'_def t_add_def nc_def dc'_def Let_def)
  have dp: "0 \<le> c_pid dc" "nat (c_pid dc) < NPROC" "t_pt T ! nat (c_pid dc) = Some d" using tabs_okD(4)[OF ok d(1)] by auto
  have di: "nat (c_pid dc) \<noteq> i" using dp i by auto
  have tti: "t_tt T ! i = None" using tabs_okD(5)[OF ok i(1)] i(2) by (cases "t_tt T ! i") auto
  have pid_ne: "c_pid c \<noteq> int i" if "t_view T p = Some c" for p c using tabs_okD(4)[OF ok that] i by auto
  have main: "main_at (t_tt T') x" if "main_at (t_tt T) x" for x
    using that tti i(1) tl by (auto simp: main_at_def TT nth_list_update)
  have "tabs_ok T'" unfolding tabs_ok_def
  proof (intro conjI allI impI)
    show "length (t_pt T') = NPROC" "length (t_tt T') = NPROC" using tl by (simp_all add: PT TT)
  next
    fix j p assume j: "j < NPROC" "t_pt T' ! j = Some p"
    show "\<exists>c. t_view T' p = Some c \<and> c_pid c = int j"
    proof (cases "j = i")
      case True
      then show ?thesis using j tl by (auto simp: PT V nc_def)
    next
      case False
      then obtain c where "t_view T p = Some c" "c_pid c = int j" using tabs_okD(3)[OF ok j(1), of p] j(2) by (auto simp: PT)
      then show ?thesis using n d by (cases "p = d") (auto simp: V dc'_def)
    qed
  next
    fix p c assume c: "t_view T' p = Some c"
    have "c_pid c = int i \<and> p = n \<or> (\<exists>c0. t_view T p = Some c0 \<and> c_pid c0 = c_pid c)" using c d by (auto simp: V nc_def dc'_def split: if_splits)
    then show "0 \<le> c_pid c" "nat (c_pid c) < NPROC" "t_pt T' ! nat (c_pid c) = Some p"
      using tabs_okD(4)[OF ok, of p] i tl by (auto simp: PT nth_list_update)
  next
    fix j p assume j: "j < NPROC"
    show "t_tt T' ! j = Some p \<longleftrightarrow> t_pt T' ! j = Some p \<and> (\<exists>c. t_view T' p = Some c \<and> c_true c = int j)"
    proof (cases "j = i")
      case True
      then show ?thesis using tl i tti by (auto simp: TT PT V nc_def)
    next
      case False
      have "t_pt T ! j = Some p \<Longrightarrow> p \<noteq> n" using tabs_okD(3)[OF ok j, of p] n by auto
      then show ?thesis using False tabs_okD(5)[OF ok j, of p] d by (auto simp: TT PT V dc'_def)
    qed
  qed
  moreover have "init_ok T'"
  proof -
    obtain a c where a: "t_tt T ! 1 = Some a" "t_view T a = Some c" "c_ppid c = 1" "\<not> c_broken c" by (rule init_proc[OF t])
    have "i \<noteq> 1" using tti a by auto
    then have "t_tt T' ! 1 = Some a" using a by (simp add: TT)
    then show ?thesis using a n d unfolding init_ok_def V by (cases "a = d") (auto simp: dc'_def)
  qed
  moreover have "node_ok T' c" if c: "t_view T' p = Some c" for p c
  proof -
    have i1: "int i \<noteq> 1"
    proof
      assume "int i = 1"
      then have "i = 1" by simp
      then show False using init_proc[OF t] tti by (metis option.distinct(1))
    qed
    have k: "kids T' l x \<longleftrightarrow> kids T l x \<or> (x = n \<and> c_pid dc = l)" for x l
      using n d(1) dn i1 by (auto simp: kids_def V nc_def dc'_def)
    consider "p = n" "c = nc" | "p = d" "c = dc'" | "p \<noteq> n" "p \<noteq> d" "t_view T p = Some c" using c dn by (auto simp: V split: if_splits)
    then show ?thesis
    proof cases
      case 1
      have none: "\<not> kids T (int i) x" for x
      proof
        assume "kids T (int i) x"
        then obtain e where "t_view T x = Some e" "c_ppid e = int i" by (auto simp: kids_def)
        then show False using node_okD(2)[OF treeD(3)[OF t]] tti by (fastforce simp: main_at_def)
      qed
      have m: "main_at (t_tt T) (c_pid dc)" using tabs_okD(5)[OF ok dp(2), of d] dp d by (auto simp: main_at_def)
      have "c_pid dc \<noteq> int i" using di by auto
      then show ?thesis unfolding 1(2) by (intro node_okI) (use k none main[OF m] in \<open>auto simp: nc_def\<close>)
    next
      case 2
      note N = treeD(3)[OF t d(1)]
      have nn: "n \<notin> set (c_children dc)" using node_okD(3)[OF N, of n] n by auto
      show ?thesis unfolding 2(2)
      proof (rule node_okI)
        show "distinct (c_children dc')" using nn node_okD(1)[OF N] by (simp add: dc'_def)
        show "main_at (t_tt T') (c_ppid dc')" using main[OF node_okD(2)[OF N]] by (simp add: dc'_def)
        show "x \<in> set (c_children dc') \<longleftrightarrow> kids T' (c_pid dc') x" for x using node_ok_kids[OF N, of x] k by (auto simp: dc'_def)
        show "c_pid dc' \<noteq> 1 \<Longrightarrow> c_ppid dc' \<noteq> c_pid dc'" using node_okD(4)[OF N] by (simp add: dc'_def)
        show "c_broken dc' \<Longrightarrow> c_true dc' = c_pid dc' \<Longrightarrow> c_children dc' = []" using d(3) by (simp add: dc'_def)
      qed
    next
      case 3
      note N = treeD(3)[OF t 3(3)]
      have ne: "c_pid c \<noteq> c_pid dc" using pid_inj[OF ok 3(3) d(1)] 3(2) by auto
      show ?thesis
      proof (rule node_okI)
        show "distinct (c_children c)" "main_at (t_tt T') (c_ppid c)" using node_okD(1)[OF N] main[OF node_okD(2)[OF N]] .
        show "x \<in> set (c_children c) \<longleftrightarrow> kids T' (c_pid c) x" for x using node_ok_kids[OF N, of x] k ne by auto
        show "c_pid c \<noteq> 1 \<Longrightarrow> c_ppid c \<noteq> c_pid c" by (rule node_okD(4)[OF N])
        show "c_broken c \<Longrightarrow> c_true c = c_pid c \<Longrightarrow> c_children c = []" by (rule node_okD(5)[OF N])
      qed
    qed
  qed
  ultimately show ?thesis unfolding T'_def[symmetric] tree_def by blast
qed

text \<open>The first child of a process goes to process 1.\<close>

definition t_move :: "ptree \<Rightarrow> nat \<Rightarrow> nat \<Rightarrow> nat \<Rightarrow> ptree" where
  "t_move T p c i =
     (let pc = the (t_view T p); cc = the (t_view T c); ic = the (t_view T i)
      in T\<lparr>t_view := (t_view T)(p \<mapsto> pc\<lparr>c_children := tl (c_children pc)\<rparr>, c \<mapsto> cc\<lparr>c_ppid := 1\<rparr>,
           i \<mapsto> ic\<lparr>c_children := c_children ic @ [c]\<rparr>)\<rparr>)"

lemma tabs_ok_view:
  assumes ok: "tabs_ok T" and PT: "t_pt T' = t_pt T" "t_tt T' = t_tt T"
    and V: "\<And>p. map_option (\<lambda>c. (c_pid c, c_true c)) (t_view T' p) = map_option (\<lambda>c. (c_pid c, c_true c)) (t_view T p)"
  shows "tabs_ok T'"
proof -
  have a: "\<exists>c. t_view T p = Some c \<and> c_pid c = c_pid c' \<and> c_true c = c_true c'" if "t_view T' p = Some c'" for p c'
    using V[of p] that by (cases "t_view T p") auto
  have b: "\<exists>c'. t_view T' p = Some c' \<and> c_pid c = c_pid c' \<and> c_true c = c_true c'" if "t_view T p = Some c" for p c
    using V[of p] that by (cases "t_view T' p") auto
  show ?thesis unfolding tabs_ok_def PT
  proof (intro conjI allI impI)
    show "length (t_pt T) = NPROC" "length (t_tt T) = NPROC" using tabs_okD(1,2)[OF ok] .
    show "\<exists>c. t_view T' p = Some c \<and> c_pid c = int i" if "i < NPROC" "t_pt T ! i = Some p" for i p
      using tabs_okD(3)[OF ok that] b by fastforce
    show "0 \<le> c_pid c" "nat (c_pid c) < NPROC" "t_pt T ! nat (c_pid c) = Some p" if c: "t_view T' p = Some c" for p c
    proof -
      obtain c0 where "t_view T p = Some c0" "c_pid c0 = c_pid c" using a[OF c] by blast
      then show "0 \<le> c_pid c" "nat (c_pid c) < NPROC" "t_pt T ! nat (c_pid c) = Some p" using tabs_okD(4)[OF ok, of p c0] by auto
    qed
    show "t_tt T ! i = Some p \<longleftrightarrow> t_pt T ! i = Some p \<and> (\<exists>c. t_view T' p = Some c \<and> c_true c = int i)" if "i < NPROC" for i p
      using tabs_okD(5)[OF ok that, of p] a[of p] b[of p] by (metis (no_types, lifting))
  qed
qed

lemma t_move_tree:
  assumes t: "tree T" and p: "t_view T p = Some pc" "c_children pc = c # cs" "c_pid pc \<noteq> 1" and i: "t_pt T ! 1 = Some i"
  shows "tree (t_move T p c i)" "\<exists>cc ic. t_view T c = Some cc \<and> t_view T i = Some ic \<and> c \<noteq> p \<and> c \<noteq> i \<and> i \<noteq> p"
proof -
  note ok = treeD(1)[OF t] and NP = treeD(3)[OF t p(1)]
  obtain i' ic where i': "t_tt T ! 1 = Some i'" "t_pt T ! 1 = Some i'" "t_view T i' = Some ic" "c_ppid ic = 1" "\<not> c_broken ic" "c_pid ic = 1" "c_true ic = 1"
    by (rule init_proc[OF t])
  have [simp]: "i' = i" using i' i by simp
  obtain cc where cc: "t_view T c = Some cc" "c_ppid cc = c_pid pc" "c_pid cc \<noteq> 1" using node_okD(3)[OF NP, of c] p(2) by auto
  have ne: "c \<noteq> p" "c \<noteq> i" "i \<noteq> p" using node_okD(4)[OF NP] cc p i' by auto
  then show "\<exists>cc ic. t_view T c = Some cc \<and> t_view T i = Some ic \<and> c \<noteq> p \<and> c \<noteq> i \<and> i \<noteq> p" using cc i' by auto
  define T' where "T' = t_move T p c i"
  have V: "t_view T' = (t_view T)(p \<mapsto> pc\<lparr>c_children := cs\<rparr>, c \<mapsto> cc\<lparr>c_ppid := 1\<rparr>, i \<mapsto> ic\<lparr>c_children := c_children ic @ [c]\<rparr>)"
    using p i' cc by (simp add: T'_def t_move_def Let_def)
  have PT: "t_pt T' = t_pt T" "t_tt T' = t_tt T" by (simp_all add: T'_def t_move_def Let_def)
  have k: "kids T' l x \<longleftrightarrow> (if x = c then l = 1 else kids T l x)" for l x
    using ne p i' cc by (auto simp: kids_def V)
  have pk: "kids T (c_pid pc) c" using cc by (auto simp: kids_def)
  have "tabs_ok T'" by (rule tabs_ok_view[OF ok PT]) (use p i' cc ne in \<open>auto simp: V\<close>)
  moreover have "init_ok T'" using i' by (auto simp: init_ok_def PT V)
  moreover have "node_ok T' d" if d: "t_view T' x = Some d" for x d
  proof -
    consider "x = p" "d = pc\<lparr>c_children := cs\<rparr>" | "x = c" "d = cc\<lparr>c_ppid := 1\<rparr>" | "x = i" "d = ic\<lparr>c_children := c_children ic @ [c]\<rparr>"
      | "x \<noteq> p" "x \<noteq> c" "x \<noteq> i" "t_view T x = Some d" using d ne by (auto simp: V split: if_splits)
    then show ?thesis
    proof cases
      case 1
      have m: "y \<in> set cs \<longleftrightarrow> kids T' (c_pid pc) y" for y
        using node_ok_kids[OF NP, of y] node_okD(1)[OF NP] p(2,3) k by auto
      show ?thesis unfolding 1(2)
        by (intro node_okI) (use node_okD(1,2,4,5)[OF NP] p(2) m PT in \<open>auto\<close>)
    next
      case 2
      note NC = treeD(3)[OF t cc(1)]
      have m: "y \<in> set (c_children cc) \<longleftrightarrow> kids T' (c_pid cc) y" for y
        using node_ok_kids[OF NC, of y] node_okD(4)[OF NC] cc k by (auto simp: kids_def)
      have "main_at (t_tt T) 1" using i' by (simp add: main_at_def)
      then show ?thesis unfolding 2(2)
        by (intro node_okI) (use node_okD(1,5)[OF NC] cc m PT in \<open>auto\<close>)
    next
      case 3
      have vi: "t_view T i = Some ic" using i' by simp
      note NI = treeD(3)[OF t vi]
      have nc: "c \<notin> set (c_children ic)" using node_okD(3)[OF NI, of c] cc p(3) i' by auto
      have m: "y \<in> set (c_children ic @ [c]) \<longleftrightarrow> kids T' (c_pid ic) y" for y
        using node_ok_kids[OF NI, of y] nc k i' by auto
      show ?thesis unfolding 3(2)
        by (intro node_okI) (use node_okD(1,2)[OF NI] nc m i' PT in \<open>auto\<close>)
    next
      case 4
      note N = treeD(3)[OF t 4(4)]
      have "c_pid d \<noteq> 1" using pid_inj[OF ok 4(4), of i ic] i' 4(3) by auto
      moreover have "\<not> kids T (c_pid d) c" using pid_inj[OF ok 4(4) p(1)] 4(1) cc by (auto simp: kids_def)
      ultimately have m: "y \<in> set (c_children d) \<longleftrightarrow> kids T' (c_pid d) y" for y using node_ok_kids[OF N, of y] k by auto
      show ?thesis by (intro node_okI) (use node_okD(1,2,4,5)[OF N] m PT in \<open>auto\<close>)
    qed
  qed
  ultimately show "tree (t_move T p c i)" unfolding T'_def[symmetric] tree_def by blast
qed

text \<open>A process dies, and is removed.\<close>

definition t_break :: "ptree \<Rightarrow> nat \<Rightarrow> ptree" where
  "t_break T p = T\<lparr>t_view := (t_view T)(p \<mapsto> (the (t_view T p))\<lparr>c_broken := True\<rparr>)\<rparr>"

lemma t_break_tree:
  assumes t: "tree T" and p: "t_view T p = Some pc" "c_pid pc \<noteq> 1" "c_true pc = c_pid pc \<Longrightarrow> c_children pc = []"
  shows "tree (t_break T p)"
proof -
  define T' where "T' = t_break T p"
  have V: "t_view T' = (t_view T)(p \<mapsto> pc\<lparr>c_broken := True\<rparr>)" and PT: "t_pt T' = t_pt T" "t_tt T' = t_tt T"
    using p by (simp_all add: T'_def t_break_def)
  have k: "kids T' l x = kids T l x" for l x using p by (auto simp: kids_def V)
  have "tabs_ok T'" by (rule tabs_ok_view[OF treeD(1)[OF t] PT]) (use p in \<open>auto simp: V\<close>)
  moreover have "init_ok T'" using init_proc[OF t] p(1,2) unfolding init_ok_def PT V by (metis fun_upd_other option.inject)
  moreover have "node_ok T' d" if d: "t_view T' x = Some d" for x d
  proof (cases "x = p")
    case True
    note N = treeD(3)[OF t p(1)]
    have "d = pc\<lparr>c_broken := True\<rparr>" using d True by (simp add: V)
    then show ?thesis using node_okD(1,2,4)[OF N] node_ok_kids[OF N] p(3) k PT by (intro node_okI) auto
  next
    case False
    then have "t_view T x = Some d" using d by (simp add: V)
    note N = treeD(3)[OF t this]
    show ?thesis using node_okD(1,2,4,5)[OF N] node_ok_kids[OF N] k PT by (intro node_okI) auto
  qed
  ultimately show ?thesis unfolding T'_def[symmetric] tree_def by blast
qed

definition t_drop :: "ptree \<Rightarrow> nat \<Rightarrow> nat \<Rightarrow> nat \<Rightarrow> ptree" where
  "t_drop T i p d =
     (let dc = the (t_view T d)
      in T\<lparr>t_pt := (t_pt T)[i := None], t_tt := (t_tt T)[i := None],
           t_view := (t_view T)(d \<mapsto> dc\<lparr>c_children := remove1 p (c_children dc)\<rparr>, p := None)\<rparr>)"

lemma t_drop_tree:
  assumes t: "tree T" and p: "t_view T p = Some pc" "c_pid pc = int i" "i \<noteq> 1" "c_true pc = c_pid pc \<Longrightarrow> c_children pc = []" and d: "t_tt T ! nat (c_ppid pc) = Some d"
  shows "tree (t_drop T i p d)"
proof -
  note ok = treeD(1)[OF t] and tl = tabs_okD(1,2)[OF treeD(1)[OF t]] and NP = treeD(3)[OF t p(1)]
  have i: "i < NPROC" "t_pt T ! i = Some p" using tabs_okD(4)[OF ok p(1)] p(2) by auto
  obtain d' dc where d': "t_tt T ! nat (c_ppid pc) = Some d'" "t_view T d' = Some dc" "c_pid dc = c_ppid pc" "c_true dc = c_ppid pc"
    "0 \<le> c_ppid pc" "nat (c_ppid pc) < NPROC" by (rule parent[OF t p(1)])
  have [simp]: "d' = d" using d' d by simp
  have pp: "c_ppid pc \<noteq> int i" using node_okD(4)[OF NP] p by auto
  then have dp: "d \<noteq> p" using d' p by auto
  define T' where "T' = t_drop T i p d"
  have V: "t_view T' = (t_view T)(d \<mapsto> dc\<lparr>c_children := remove1 p (c_children dc)\<rparr>, p := None)"
    and PT: "t_pt T' = (t_pt T)[i := None]" "t_tt T' = (t_tt T)[i := None]" using d' by (simp_all add: T'_def t_drop_def Let_def)
  have none: "\<not> kids T (int i) x" for x
  proof (cases "c_true pc = int i")
    case True
    then have "c_children pc = []" using p by simp
    then show ?thesis using node_ok_kids[OF NP, of x] p(2) by simp
  next
    case False
    have "t_tt T ! i = None"
    proof (cases "t_tt T ! i")
      case (Some a)
      then have "t_pt T ! i = Some a" "\<exists>c. t_view T a = Some c \<and> c_true c = int i" using tabs_okD(5)[OF ok i(1), of a] by blast+
      then show ?thesis using i p(1) False by auto
    qed
    then show ?thesis using node_okD(2)[OF treeD(3)[OF t]] by (fastforce simp: kids_def main_at_def)
  qed
  have k: "kids T' l x \<longleftrightarrow> kids T l x \<and> x \<noteq> p" for l x using dp d' by (auto simp: kids_def V)
  have main: "main_at (t_tt T') l" if "main_at (t_tt T) l" "l \<noteq> int i" for l
    using that by (auto simp: main_at_def PT nth_list_update)
  have "tabs_ok T'" unfolding tabs_ok_def
  proof (intro conjI allI impI)
    show "length (t_pt T') = NPROC" "length (t_tt T') = NPROC" using tl by (simp_all add: PT)
  next
    fix j x assume j: "j < NPROC" "t_pt T' ! j = Some x"
    then have ji: "j \<noteq> i" "t_pt T ! j = Some x" using i tl by (auto simp: PT nth_list_update split: if_splits)
    then obtain c where c: "t_view T x = Some c" "c_pid c = int j" using tabs_okD(3)[OF ok j(1)] by blast
    then have "x \<noteq> p" using p ji by auto
    then show "\<exists>c. t_view T' x = Some c \<and> c_pid c = int j" using c d' by (auto simp: V)
  next
    fix x c assume c: "t_view T' x = Some c"
    then obtain c0 where "t_view T x = Some c0" "c_pid c0 = c_pid c" "x \<noteq> p" using d' by (auto simp: V split: if_splits)
    then show "0 \<le> c_pid c" "nat (c_pid c) < NPROC" "t_pt T' ! nat (c_pid c) = Some x"
      using tabs_okD(4)[OF ok, of x c0] i by (cases "nat (c_pid c) = i"; auto simp: PT)+
  next
    fix j x assume j: "j < NPROC"
    show "t_tt T' ! j = Some x \<longleftrightarrow> t_pt T' ! j = Some x \<and> (\<exists>c. t_view T' x = Some c \<and> c_true c = int j)"
    proof (cases "j = i")
      case True
      then show ?thesis using tl j by (simp add: PT)
    next
      case False
      have "t_pt T ! j = Some x \<Longrightarrow> x \<noteq> p" using tabs_okD(3)[OF ok j, of x] p False by auto
      then show ?thesis using False tabs_okD(5)[OF ok j, of x] d' by (auto simp: PT V)
    qed
  qed
  moreover have "init_ok T'"
  proof -
    obtain a c where a: "t_tt T ! 1 = Some a" "t_view T a = Some c" "c_ppid c = 1" "\<not> c_broken c" "c_pid c = 1" by (rule init_proc[OF t])
    moreover have "a \<noteq> p" using a p by auto
    ultimately show ?thesis using p(3) d' unfolding init_ok_def V PT by (cases "a = d") auto
  qed
  moreover have "node_ok T' c" if c: "t_view T' x = Some c" for x c
  proof -
    have xp: "x \<noteq> p" using c by (auto simp: V)
    consider "x = d" "c = dc\<lparr>c_children := remove1 p (c_children dc)\<rparr>" | "x \<noteq> d" "t_view T x = Some c" using c xp by (auto simp: V split: if_splits)
    then show ?thesis
    proof cases
      case 1
      have vd: "t_view T d = Some dc" using d' by simp
      note N = treeD(3)[OF t vd]
      have "c_ppid dc \<noteq> int i"
      proof
        assume "c_ppid dc = int i"
        then have "\<not> kids T (c_ppid dc) d" using none by simp
        then have "c_pid dc = 1" using vd by (auto simp: kids_def)
        then have "c_ppid dc = 1" using init_proc[OF t] pid_inj[OF ok vd] vd by (metis option.inject)
        then show False using \<open>c_ppid dc = int i\<close> p(3) by simp
      qed
      then have m: "main_at (t_tt T') (c_ppid dc)" by (rule main[OF node_okD(2)[OF N]])
      show ?thesis unfolding 1(2)
        by (intro node_okI) (use m node_okD(1,4,5)[OF N] node_ok_kids[OF N] k in \<open>auto\<close>)
    next
      case 2
      note N = treeD(3)[OF t 2(2)]
      have "c_ppid c \<noteq> int i"
      proof
        assume a: "c_ppid c = int i"
        then have "\<not> kids T (c_ppid c) x" using none by simp
        then have "c_pid c = 1" using 2 by (auto simp: kids_def)
        then have "c_ppid c = 1" using init_proc[OF t] pid_inj[OF ok 2(2)] 2 by (metis option.inject)
        then show False using a p(3) by simp
      qed
      then have m: "main_at (t_tt T') (c_ppid c)" by (rule main[OF node_okD(2)[OF N]])
      have "\<not> kids T (c_pid c) p" using pid_inj[OF ok 2(2), of d dc] 2(1) d' p by (auto simp: kids_def)
      then have "y \<in> set (c_children c) \<longleftrightarrow> kids T' (c_pid c) y" for y using node_ok_kids[OF N, of y] k by auto
      then show ?thesis by (intro node_okI) (use m node_okD(1,4,5)[OF N] in auto)
    qed
  qed
  ultimately show ?thesis unfolding T'_def[symmetric] tree_def by blast
qed

end
