(* ===== verification/Process_Correct.thy ===== *)
theory Process_Correct
  imports Process_Tree
begin

text \<open>
  The system calls that create, end and reap processes are the operations of \<open>Process_Tree\<close> on the tables of the kernel, and what the
  kernel does otherwise (waking, blocking, scheduling) does not touch the tree.  So the tree stays well formed
  from boot on, under the guards that the step relation \<open>life_step\<close> names.
\<close>

section \<open>The tables of the kernel as a tree\<close>

definition core_of :: "proc \<Rightarrow> core" where
  "core_of pr = \<lparr>c_pid = pr_pid pr, c_true = pr_true_pid pr, c_ppid = pr_ppid pr, c_children = pr_children pr, c_broken = (pr_state pr = broken)\<rparr>"

definition ptree_of :: "kst \<Rightarrow> ptree" where
  "ptree_of st = \<lparr>t_pt = k_ptable st, t_tt = k_true_ptable st,
     t_view = (\<lambda>p. if Some p \<in> set (k_ptable st) then map_option core_of (k_procs st p) else None)\<rparr>"

definition proc_tree :: "kst \<Rightarrow> bool" where
  "proc_tree st \<longleftrightarrow> tree (ptree_of st) \<and> (\<forall>p \<in> set (threads st). state_of st p \<noteq> blank)"

lemma core_of_simps [simp]:
  "c_pid (core_of pr) = pr_pid pr" "c_true (core_of pr) = pr_true_pid pr" "c_ppid (core_of pr) = pr_ppid pr"
  "c_children (core_of pr) = pr_children pr" "c_broken (core_of pr) = (pr_state pr = broken)"
  by (simp_all add: core_of_def)

lemma ptree_of_simps [simp]: "t_pt (ptree_of st) = k_ptable st" "t_tt (ptree_of st) = k_true_ptable st"
  by (simp_all add: ptree_of_def)

lemma in_threads [simp]: "p \<in> set (threads st) \<longleftrightarrow> Some p \<in> set (k_ptable st)"
  by (force simp: threads_def)

lemma view_iff: "t_view (ptree_of st) p = Some c \<longleftrightarrow> Some p \<in> set (k_ptable st) \<and> (\<exists>pr. k_procs st p = Some pr \<and> c = core_of pr)"
  by (auto simp: ptree_of_def)

lemma proc_treeD:
  assumes "proc_tree st"
  shows "tree (ptree_of st)" "Some p \<in> set (k_ptable st) \<Longrightarrow> state_of st p \<noteq> blank"
    "Some p \<in> set (k_ptable st) \<Longrightarrow> k_procs st p \<noteq> None"
proof -
  show "tree (ptree_of st)" "Some p \<in> set (k_ptable st) \<Longrightarrow> state_of st p \<noteq> blank" using assms by (auto simp: proc_tree_def)
  then show "Some p \<in> set (k_ptable st) \<Longrightarrow> k_procs st p \<noteq> None" by (cases "k_procs st p") (auto simp: state_of_def)
qed

text \<open>Steps that the tree does not see.\<close>

definition quiet :: "kst \<Rightarrow> kst \<Rightarrow> bool" where
  "quiet st st' \<longleftrightarrow> k_ptable st' = k_ptable st \<and> k_true_ptable st' = k_true_ptable st
     \<and> (\<forall>p. map_option (\<lambda>pr. (core_of pr, pr_state pr = blank)) (k_procs st' p) = map_option (\<lambda>pr. (core_of pr, pr_state pr = blank)) (k_procs st p))"

lemma quiet_refl [intro, simp]: "quiet st st"
  by (simp add: quiet_def)

lemma quiet_trans [trans]: "quiet a b \<Longrightarrow> quiet b c \<Longrightarrow> quiet a c"
  by (simp add: quiet_def)

lemma quiet_view: "quiet st st' \<Longrightarrow> map_option core_of (k_procs st' p) = map_option core_of (k_procs st p)"
  unfolding quiet_def by (metis (no_types, lifting) option.map_comp option.map_cong0 comp_apply fst_conv)

lemma quiet_state: "quiet st st' \<Longrightarrow> state_of st' p = blank \<longleftrightarrow> state_of st p = blank"
  unfolding quiet_def state_of_def by (auto split: option.splits dest!: spec[of _ p])

lemma quiet_ptree: "quiet st st' \<Longrightarrow> ptree_of st' = ptree_of st"
  using quiet_view[of st st'] by (auto simp: ptree_of_def quiet_def fun_eq_iff)

lemma quiet_tree: "proc_tree st \<Longrightarrow> quiet st st' \<Longrightarrow> proc_tree st'"
  using quiet_state[of st st'] quiet_ptree[of st st'] by (auto simp: proc_tree_def quiet_def)

lemma quiet_proc:
  assumes "quiet st st'" "k_procs st p = Some pr"
  shows "\<exists>pr'. k_procs st' p = Some pr' \<and> core_of pr' = core_of pr"
  using quiet_view[OF assms(1), of p] assms(2) by (cases "k_procs st' p") auto

lemma quiet_set_proc:
  assumes "k_procs st p = Some pr" "core_of pr' = core_of pr" "pr_state pr' = blank \<longleftrightarrow> pr_state pr = blank"
  shows "quiet st (set_proc st p pr')"
  using assms by (auto simp: quiet_def set_proc_def)

lemma quiet_queues [simp]:
  "quiet st (st\<lparr>k_wq := x\<rparr>)" "quiet st (st\<lparr>k_runq := y\<rparr>)" "quiet st (st\<lparr>k_runq := y, k_current := z\<rparr>)" "quiet st (st\<lparr>k_ticks := t\<rparr>)"
  by (auto simp: quiet_def)

lemma quiet_enqueue: "enqueue st c p = Inr st' \<Longrightarrow> quiet st st'"
  by (auto simp: enqueue_def with_proc_def assert_then_def split: option.splits if_splits)

lemma quiet_proc_wake:
  assumes "proc_wake st p = Inr st'"
  shows "quiet st st'"
proof -
  obtain pr where pr: "k_procs st p = Some pr" using assms by (auto simp: proc_wake_def with_proc_def split: option.splits)
  show ?thesis
  proof (cases "pr_state pr = blocked")
    case True
    then have "quiet st (set_proc st p (pr\<lparr>pr_state := runnable\<rparr>))" by (intro quiet_set_proc[OF pr]) (simp_all add: core_of_def)
    moreover have "enqueue (set_proc st p (pr\<lparr>pr_state := runnable\<rparr>)) (pr_cpu pr) p = Inr st'"
      using True assms pr by (simp add: proc_wake_def with_proc_def)
    ultimately show ?thesis using quiet_trans quiet_enqueue by blast
  next
    case False
    then show ?thesis using assms pr by (simp add: proc_wake_def with_proc_def)
  qed
qed

lemma quiet_wake_list: "wake_list ws st = Inr st' \<Longrightarrow> quiet st st'"
proof (induction ws arbitrary: st)
  case (Cons w ws)
  then show ?case using quiet_proc_wake quiet_trans by (fastforce simp: rbind_eq_Inr)
qed simp

lemma quiet_wake_all: "wake_all st q = Inr st' \<Longrightarrow> quiet st st'"
  unfolding wake_all_def by (rule quiet_trans[OF _ quiet_wake_list]) simp_all

lemma quiet_set_exiting: "quiet st (set_exiting st t)"
  by (auto simp: set_exiting_def core_of_def intro: quiet_set_proc split: option.splits)

lemma quiet_mark_exiting: "quiet st (mark_exiting st pr)"
proof -
  have "quiet s (foldl (\<lambda>s t. if other_live s pr t then set_exiting s t else s) s ts)" for s ts
  proof (induction ts arbitrary: s)
    case (Cons t ts)
    have "quiet s (if other_live s pr t then set_exiting s t else s)" by (simp add: quiet_set_exiting)
    from quiet_trans[OF this Cons.IH] show ?case by simp
  qed simp
  then show ?thesis by (simp add: mark_exiting_def)
qed

lemma quiet_exit_begin:
  assumes "process_exit_begin st p status = Inr st'"
  shows "quiet st st'"
proof -
  obtain pr where pr: "k_procs st p = Some pr" using assms by (auto simp: process_exit_begin_def with_proc_def split: option.splits)
  define st1 where "st1 = set_proc st p (pr\<lparr>pr_exit_status := status\<rparr>)"
  have "quiet st st1" unfolding st1_def by (rule quiet_set_proc[OF pr]) (simp_all add: core_of_def)
  moreover have "st' = st1 \<or> st' = mark_exiting st1 (pr\<lparr>pr_exit_status := status\<rparr>)"
    using assms pr by (auto simp: process_exit_begin_def with_proc_def st1_def Let_def)
  ultimately show ?thesis using quiet_trans quiet_mark_exiting by blast
qed

lemma quiet_exit_predicate:
  assumes "exit_predicate st pr = Inr (st', b)"
  shows "quiet st st'"
proof (cases "filter (other_live st pr) (threads st)")
  case Nil
  then show ?thesis using assms by (simp add: exit_predicate_def)
next
  case (Cons t ts)
  have q: "quiet st (set_exiting st t)" by (rule quiet_set_exiting)
  consider "st' = set_exiting st t" | st2 where "proc_wake (set_exiting st t) t = Inr st2" "wake_all st2 Waitpid_wq = Inr st'"
    using assms Cons by (auto simp: exit_predicate_def Let_def with_proc_def rbind_eq_Inr split: option.splits if_splits)
  then show ?thesis
  proof cases
    case 2
    show ?thesis by (rule quiet_trans[OF q quiet_trans[OF quiet_proc_wake[OF 2(1)] quiet_wake_all[OF 2(2)]]])
  qed (simp add: q)
qed

lemma quiet_interrupt_parent:
  assumes "interrupt_parent st p = Inr st'"
  shows "quiet st st'"
proof -
  consider "st' = st" | d dr where "k_procs st d = Some dr" "proc_wake (set_proc st d (dr\<lparr>pr_interrupted := True\<rparr>)) d = Inr st'"
    using assms by (auto simp: interrupt_parent_def with_proc_def rbind_eq_Inr split: option.splits if_splits)
  then show ?thesis
  proof cases
    case 2
    have "quiet st (set_proc st d (dr\<lparr>pr_interrupted := True\<rparr>))" by (rule quiet_set_proc[OF 2(1)]) (simp_all add: core_of_def)
    then show ?thesis using quiet_proc_wake[OF 2(2)] quiet_trans by blast
  qed simp
qed

lemma quiet_waiter:
  assumes "state_of st p \<noteq> broken" "state_of st p \<noteq> blank"
  shows "waiter_prepare st q p = Inr st' \<Longrightarrow> quiet st st'" "waiter_clear st q p = Inr st' \<Longrightarrow> quiet st st'"
proof -
  have "quiet st ((set_proc st p (pr\<lparr>pr_state := s\<rparr>))\<lparr>k_wq := x\<rparr>)" if "k_procs st p = Some pr" "s = blocked \<or> s = runnable" for pr s x
    by (rule quiet_trans[OF quiet_set_proc[OF that(1), of "pr\<lparr>pr_state := s\<rparr>"]]) (use that assms in \<open>auto simp: core_of_def state_of_def\<close>)
  then show "waiter_prepare st q p = Inr st' \<Longrightarrow> quiet st st'" "waiter_clear st q p = Inr st' \<Longrightarrow> quiet st st'"
    by (auto simp: waiter_prepare_def waiter_clear_def with_proc_def split: option.splits)
qed

section \<open>The operations on the tree\<close>

lemma get_proc_slot_cases:
  assumes "proc_tree st"
  obtains "get_proc_slot st = - 1" | i where "get_proc_slot st = int i" "1 \<le> i" "i < NPROC" "k_ptable st ! i = None"
proof (cases "filter (slot_free st) [1..<NPROC]")
  case Nil
  then show thesis using that(1) by (simp add: get_proc_slot_def)
next
  case (Cons i xs)
  then have "i \<in> set (filter (slot_free st) [1..<NPROC])" by simp
  then have i: "1 \<le> i" "i < NPROC" "slot_free st i" by (simp_all del: upt_rec_numeral)
  have l: "i < length (k_ptable st)" using tabs_okD(1)[OF treeD(1)[OF proc_treeD(1)[OF assms]]] i by simp
  have "k_ptable st ! i = None"
  proof (cases "k_ptable st ! i")
    case (Some p)
    then have "Some p \<in> set (k_ptable st)" using nth_mem[OF l] by simp
    then show ?thesis using i(3) Some proc_treeD(2,3)[OF assms, of p] by (auto simp: slot_free_def state_of_def split: option.splits)
  qed
  then show thesis using that(2)[of i] i Cons by (simp add: get_proc_slot_def)
qed

lemma in_set_update_None:
  assumes "i < length xs" "xs ! i = None"
  shows "Some p \<in> set (xs[i := Some n]) \<longleftrightarrow> p = n \<or> Some p \<in> set xs"
  using assms by (auto simp: set_update_memI in_set_conv_nth nth_list_update dest!: set_update_subset_insert[THEN subsetD]) (metis nth_list_update_neq option.distinct(1))+

text \<open>A new process below a living main thread.\<close>

lemma add_tree:
  assumes t: "proc_tree st" and i: "i < NPROC" "k_ptable st ! i = None" and n: "k_procs st n = None"
    and d: "Some d \<in> set (k_ptable st)" "k_procs st d = Some dr" "pr_true_pid dr = pr_pid dr" "pr_state dr \<noteq> broken"
    and np: "core_of np = \<lparr>c_pid = int i, c_true = true, c_ppid = pr_pid dr, c_children = [], c_broken = False\<rparr>" "pr_state np \<noteq> blank"
    and pt: "k_ptable st' = (k_ptable st)[i := Some n]" "k_true_ptable st' = (if true = int i then (k_true_ptable st)[i := Some n] else k_true_ptable st)"
    and pr: "k_procs st' = (k_procs st)(d \<mapsto> dr\<lparr>pr_children := pr_children dr @ [n]\<rparr>, n \<mapsto> np)"
  shows "proc_tree st'" "ptree_of st' = t_add (ptree_of st) i n true d"
proof -
  note tr = proc_treeD(1)[OF t]
  have len: "i < length (k_ptable st)" using tabs_okD(1)[OF treeD(1)[OF tr]] i by simp
  have dv: "t_view (ptree_of st) d = Some (core_of dr)" using d by (simp add: view_iff)
  have dn: "d \<noteq> n" using d n by auto
  have cd: "core_of (dr\<lparr>pr_children := pr_children dr @ [n]\<rparr>) = (core_of dr)\<lparr>c_children := pr_children dr @ [n]\<rparr>" by (simp add: core_of_def)
  have nt: "Some n \<notin> set (k_ptable st)" using proc_treeD(3)[OF t, of n] n by auto
  have inp: "Some p \<in> set (k_ptable st') \<longleftrightarrow> p = n \<or> Some p \<in> set (k_ptable st)" for p unfolding pt(1) by (rule in_set_update_None[OF len i(2)])
  have "t_view (ptree_of st') = t_view (t_add (ptree_of st) i n true d)"
  proof
    fix p
    show "t_view (ptree_of st') p = t_view (t_add (ptree_of st) i n true d) p"
      using d(1,2) dn cd np(1) unfolding t_add_def ptree_of_def inp Let_def pr by simp
  qed
  then show eq: "ptree_of st' = t_add (ptree_of st) i n true d"
    by (intro ptree.equality) (simp_all add: t_add_def pt Let_def)
  have "tree (t_add (ptree_of st) i n true d)"
    by (rule t_add_tree[OF tr i(1) _ _ dv]) (use i d nt in \<open>auto simp: ptree_of_def\<close>)
  moreover have "state_of st' p \<noteq> blank" if "Some p \<in> set (k_ptable st')" for p
    using that inp[of p] proc_treeD(2)[OF t, of p] proc_treeD(2)[OF t d(1)] d np(2) by (auto simp: state_of_def pr)
  ultimately show "proc_tree st'" by (simp add: proc_tree_def eq)
qed

text \<open>The parent that \<open>true_ptable\<close> gives for a process of the table.\<close>

lemma parent_entry:
  assumes t: "proc_tree st" and p: "Some p \<in> set (k_ptable st)" "k_procs st p = Some pr"
  obtains d dr where "k_true_ptable st ! nat (pr_ppid pr) = Some d" "0 \<le> pr_ppid pr" "nat (pr_ppid pr) < NPROC"
    "Some d \<in> set (k_ptable st)" "k_procs st d = Some dr" "pr_pid dr = pr_ppid pr" "pr_true_pid dr = pr_ppid pr" "pr_state dr \<noteq> broken"
    "pr_pid pr \<noteq> 1 \<longrightarrow> p \<in> set (pr_children dr)"
proof -
  note tr = proc_treeD(1)[OF t]
  have v: "t_view (ptree_of st) p = Some (core_of pr)" using p by (simp add: view_iff)
  obtain d dc where d: "k_true_ptable st ! nat (pr_ppid pr) = Some d" "t_view (ptree_of st) d = Some dc" "c_pid dc = pr_ppid pr"
    "c_true dc = pr_ppid pr" "0 \<le> pr_ppid pr" "nat (pr_ppid pr) < NPROC" using parent[OF tr v] by (metis core_of_simps(3) ptree_of_simps(2))
  obtain dr where dr: "Some d \<in> set (k_ptable st)" "k_procs st d = Some dr" "dc = core_of dr" using d(2) by (auto simp: view_iff)
  note N = treeD(3)[OF tr d(2)]
  have child: "p \<in> set (pr_children dr)" if "pr_pid pr \<noteq> 1" using node_okD(3)[OF N, of p] v d(3) dr(3) that by auto
  have "pr_state dr \<noteq> broken"
  proof (cases "pr_pid pr = 1")
    case True
    obtain a c where a: "t_tt (ptree_of st) ! 1 = Some a" "t_view (ptree_of st) a = Some c" "c_ppid c = 1" "\<not> c_broken c" "c_pid c = 1" by (rule init_proc[OF tr])
    have "a = p" using pid_inj[OF treeD(1)[OF tr] a(2) v] a True by simp
    then show ?thesis using a v d dr p by auto
  next
    case False
    then show ?thesis using child node_okD(5)[OF N] d(3,4) dr(3) by auto
  qed
  then show thesis using that d dr child by auto
qed

lemma sys_clone_tree:
  assumes t: "proc_tree st" and f: "sys_clone ncpu st p (Some n) = Inr (st', pid)" and n: "k_procs st n = None"
    and p: "Some p \<in> set (k_ptable st)" "k_procs st p = Some pr" and m: "main_at (k_ptable st) (pr_true_pid pr)"
  shows "proc_tree st'" "pid = - 1 \<and> st' = st \<or> (\<exists>i d. pid = int i \<and> i < NPROC \<and> k_ptable st ! i = None
    \<and> k_true_ptable st ! nat (pr_ppid pr) = Some d \<and> ptree_of st' = t_add (ptree_of st) i n (pr_true_pid pr) d)"
proof -
  have "proc_tree st' \<and> (pid = - 1 \<and> st' = st \<or> (\<exists>i d. pid = int i \<and> i < NPROC \<and> k_ptable st ! i = None
    \<and> k_true_ptable st ! nat (pr_ppid pr) = Some d \<and> ptree_of st' = t_add (ptree_of st) i n (pr_true_pid pr) d))"
  proof (rule get_proc_slot_cases[OF t])
    assume "get_proc_slot st = - 1"
    then show ?thesis using f t p by (simp add: sys_clone_def with_proc_def)
  next
    fix i assume i: "get_proc_slot st = int i" "1 \<le> i" "i < NPROC" "k_ptable st ! i = None"
    obtain d dr where d: "k_true_ptable st ! nat (pr_ppid pr) = Some d" "0 \<le> pr_ppid pr" "nat (pr_ppid pr) < NPROC"
      "Some d \<in> set (k_ptable st)" "k_procs st d = Some dr" "pr_pid dr = pr_ppid pr" "pr_true_pid dr = pr_ppid pr" "pr_state dr \<noteq> broken"
      by (rule parent_entry[OF t p])
    have len: "length (k_true_ptable st) = NPROC" using tabs_okD(2)[OF treeD(1)[OF proc_treeD(1)[OF t]]] by simp
    define np where "np = new_proc\<lparr>pr_ppid := pr_ppid pr, pr_true_pid := pr_true_pid pr, pr_fdtable := pr_fdtable pr, pr_state := runnable,
      pr_pagetable := pr_pagetable pr, pr_pid := int i, pr_resumable := True, pr_cpu := i mod ncpu\<rparr>"
    define st3 where "st3 = (st\<lparr>k_ptable := (k_ptable st)[i := Some n]\<rparr>)
      \<lparr>k_procs := (k_procs st)(d \<mapsto> dr\<lparr>pr_children := pr_children dr @ [n]\<rparr>, n \<mapsto> np)\<rparr>"
    have e: "enqueue st3 (i mod ncpu) n = Inr st'" "pid = int i"
      using f i p(2) d len by (auto simp: sys_clone_def Let_def with_proc_def with_entry_def table_get_def set_proc_def st3_def np_def rbind_eq_Inr)
    have tn: "pr_true_pid pr \<noteq> int i" using m i(4) by (auto simp: main_at_def)
    have q: "core_of np = \<lparr>c_pid = int i, c_true = pr_true_pid pr, c_ppid = pr_pid dr, c_children = [], c_broken = False\<rparr>" "pr_state np \<noteq> blank"
      using d by (simp_all add: core_of_def np_def new_proc_def)
    have dd: "pr_true_pid dr = pr_pid dr" using d by simp
    have "proc_tree st3" "ptree_of st3 = t_add (ptree_of st) i n (pr_true_pid pr) d"
      by (rule add_tree[OF t i(3,4) n d(4,5) dd d(8) q], use tn in \<open>simp_all add: st3_def\<close>)+
    then show ?thesis using quiet_tree[OF _ quiet_enqueue[OF e(1)]] quiet_ptree[OF quiet_enqueue[OF e(1)]] e(2) i d(1) by auto
  qed
  then show "proc_tree st'" "pid = - 1 \<and> st' = st \<or> (\<exists>i d. pid = int i \<and> i < NPROC \<and> k_ptable st ! i = None
    \<and> k_true_ptable st ! nat (pr_ppid pr) = Some d \<and> ptree_of st' = t_add (ptree_of st) i n (pr_true_pid pr) d)" by blast+
qed

text \<open>Giving the children to process 1.\<close>

definition reparented :: "kst \<Rightarrow> nat \<Rightarrow> nat list \<Rightarrow> nat list \<Rightarrow> nat \<Rightarrow> nat \<Rightarrow> proc option" where
  "reparented st p cs ds i x =
     (if x = p then map_option (pr_children_update (\<lambda>_. ds)) (k_procs st x)
      else if x = i then map_option (pr_children_update (\<lambda>l. l @ cs)) (k_procs st x)
      else if x \<in> set cs then map_option (pr_ppid_update (\<lambda>_. 1)) (k_procs st x) else k_procs st x)"

lemma reparented_none:
  assumes "k_procs st p = Some pr" "pr_children pr = []"
  shows "reparented st p [] [] i = k_procs st"
proof
  fix x
  have "map_option (pr_children_update (\<lambda>l. l @ [])) y = y" for y :: "proc option" by (cases y) simp_all
  then show "reparented st p [] [] i x = k_procs st x" using assms by (auto simp: reparented_def)
qed

lemma reparent_step:
  assumes t: "proc_tree st" and p: "Some p \<in> set (k_ptable st)" "k_procs st p = Some pr" "pr_pid pr \<noteq> 1" "pr_children pr = c # cs"
    and i: "k_ptable st ! 1 = Some i"
  obtains st1 where "reparent_loop (Suc fuel) st p = reparent_loop fuel st1 p" "proc_tree st1" "k_ptable st1 = k_ptable st"
    "k_procs st1 = reparented st p [c] cs i" "c \<notin> set cs" "c \<noteq> i" "i \<noteq> p" "k_procs st i \<noteq> None"
proof -
  note tr = proc_treeD(1)[OF t]
  note tl = tabs_okD(1)[OF treeD(1)[OF tr]]
  have v: "t_view (ptree_of st) p = Some (core_of pr)" "c_children (core_of pr) = c # cs" "c_pid (core_of pr) \<noteq> 1" using p by (simp_all add: view_iff)
  have i': "t_pt (ptree_of st) ! 1 = Some i" using i by simp
  obtain cc ic where "t_view (ptree_of st) c = Some cc" "t_view (ptree_of st) i = Some ic" and ne: "c \<noteq> p" "c \<noteq> i" "i \<noteq> p"
    using t_move_tree(2)[OF tr v i'] by blast
  then obtain cr ir where c: "Some c \<in> set (k_ptable st)" "k_procs st c = Some cr" and ir: "Some i \<in> set (k_ptable st)" "k_procs st i = Some ir"
    by (auto simp: view_iff)
  define st1 where "st1 = set_proc (set_proc (set_proc st p (pr\<lparr>pr_children := cs\<rparr>)) c (cr\<lparr>pr_ppid := 1\<rparr>)) i (ir\<lparr>pr_children := pr_children ir @ [c]\<rparr>)"
  have P: "k_procs st1 = (k_procs st)(p \<mapsto> pr\<lparr>pr_children := cs\<rparr>, c \<mapsto> cr\<lparr>pr_ppid := 1\<rparr>, i \<mapsto> ir\<lparr>pr_children := pr_children ir @ [c]\<rparr>)"
    and T: "k_ptable st1 = k_ptable st" "k_true_ptable st1 = k_true_ptable st" by (simp_all add: st1_def set_proc_def)
  have "reparent_loop (Suc fuel) st p = reparent_loop fuel st1 p"
    using p c ir ne i tl by (simp add: st1_def with_proc_def set_proc_def with_entry_def table_get_def Let_def)
  moreover have "proc_tree st1"
  proof -
    have "t_view (ptree_of st1) = t_view (t_move (ptree_of st) p c i)"
      using p(1,2,4) c ir ne unfolding t_move_def ptree_of_def Let_def T P by (auto simp: core_of_def fun_eq_iff)
    then have "ptree_of st1 = t_move (ptree_of st) p c i"
      by (intro ptree.equality) (simp_all add: t_move_def T Let_def)
    moreover have "state_of st1 x \<noteq> blank" if "Some x \<in> set (k_ptable st)" for x
      using that proc_treeD(2)[OF t, of x] proc_treeD(2)[OF t, of p] proc_treeD(2)[OF t, of c] proc_treeD(2)[OF t, of i] p c ir
      by (auto simp: state_of_def P)
    ultimately show ?thesis using t_move_tree(1)[OF tr v i'] by (simp add: proc_tree_def T)
  qed
  moreover have "k_procs st1 = reparented st p [c] cs i" using ne p(2) c(2) ir(2) by (auto simp: P reparented_def)
  moreover have "c \<notin> set cs" using node_okD(1)[OF treeD(3)[OF tr v(1)]] v(2) by simp
  ultimately show thesis using that T ne ir by blast
qed

lemma reparent_loop_tree:
  assumes "proc_tree st" "Some p \<in> set (k_ptable st)" "k_procs st p = Some pr" "pr_pid pr \<noteq> 1" "length (pr_children pr) \<le> fuel"
    "k_ptable st ! 1 = Some i"
  shows "\<exists>st'. reparent_loop fuel st p = Inr st' \<and> proc_tree st' \<and> k_ptable st' = k_ptable st \<and> k_procs st' = reparented st p (pr_children pr) [] i"
  using assms
proof (induction fuel arbitrary: st pr)
  case 0
  then show ?case by (auto simp: with_proc_def reparented_none)
next
  case (Suc fuel)
  show ?case
  proof (cases "pr_children pr")
    case Nil
    then show ?thesis using Suc.prems by (auto simp: with_proc_def reparented_none)
  next
    case (Cons c cs)
    obtain st1 where s: "reparent_loop (Suc fuel) st p = reparent_loop fuel st1 p" "proc_tree st1" "k_ptable st1 = k_ptable st"
      "k_procs st1 = reparented st p [c] cs i" "c \<notin> set cs" "c \<noteq> i" "i \<noteq> p" "k_procs st i \<noteq> None" by (rule reparent_step[OF Suc.prems(1-4) Cons Suc.prems(6)])
    have p1: "k_procs st1 p = Some (pr\<lparr>pr_children := cs\<rparr>)" using s(4) Suc.prems(3) by (simp add: reparented_def)
    have "\<exists>st'. reparent_loop fuel st1 p = Inr st' \<and> proc_tree st' \<and> k_ptable st' = k_ptable st1
      \<and> k_procs st' = reparented st1 p (pr_children (pr\<lparr>pr_children := cs\<rparr>)) [] i"
      by (rule Suc.IH[OF s(2) _ p1]) (use Suc.prems Cons s(3) in simp_all)
    moreover have "reparented st1 p cs [] i = reparented st p (c # cs) [] i"
      using s(4-8) by (auto simp: reparented_def fun_eq_iff option.map_comp comp_def)
    ultimately show ?thesis using s(1,3) Cons by simp
  qed
qed

text \<open>Death.\<close>

lemma break_tree:
  assumes t: "proc_tree st" and p: "Some p \<in> set (k_ptable st)" "k_procs st p = Some pr" "pr_pid pr \<noteq> 1" "pr_true_pid pr = pr_pid pr \<Longrightarrow> pr_children pr = []"
    and x: "core_of pr' = (core_of pr)\<lparr>c_broken := True\<rparr>"
  shows "proc_tree (set_proc st p pr')"
proof -
  have v: "t_view (ptree_of st) p = Some (core_of pr)" using p by (simp add: view_iff)
  have "t_view (ptree_of (set_proc st p pr')) = t_view (t_break (ptree_of st) p)"
    using p x by (auto simp: t_break_def ptree_of_def set_proc_def fun_eq_iff)
  then have "ptree_of (set_proc st p pr') = t_break (ptree_of st) p"
    by (intro ptree.equality) (simp_all add: t_break_def set_proc_def)
  moreover have "pr_state pr' = broken" using arg_cong[OF x, of c_broken] by simp
  then have "state_of (set_proc st p pr') q \<noteq> blank" if "Some q \<in> set (k_ptable st)" for q
    using that proc_treeD(2)[OF t, of q] by (auto simp: state_of_def set_proc_def)
  moreover have "tree (t_break (ptree_of st) p)" by (rule t_break_tree[OF proc_treeD(1)[OF t] v]) (use p in auto)
  ultimately show ?thesis by (simp add: proc_tree_def) (simp add: set_proc_def)
qed

lemma process_exit_end_tree:
  assumes t: "proc_tree st" and e: "process_exit_end fuel st p = Inr st'" and p: "Some p \<in> set (k_ptable st)" "k_procs st p = Some pr" "pr_pid pr \<noteq> 1"
    and l: "length (pr_children pr) \<le> fuel"
  shows "proc_tree st'"
proof -
  obtain st1 st2 st3 where s: "interrupt_parent st p = Inr st1" "reparent_loop fuel st1 p = Inr st2" "wake_all st2 Waitpid_wq = Inr st3"
    "with_proc st3 p (\<lambda>pr. Inr (set_proc st3 p (pr\<lparr>pr_state := broken\<rparr>))) = Inr st'" using e by (auto simp: process_exit_end_def rbind_eq_Inr)
  note q1 = quiet_interrupt_parent[OF s(1)]
  obtain pr1 where pr1: "k_procs st1 p = Some pr1" "core_of pr1 = core_of pr" using quiet_proc[OF q1 p(2)] by blast
  have c1: "pr_pid pr1 = pr_pid pr" "pr_children pr1 = pr_children pr" using arg_cong[OF pr1(2), of c_pid] arg_cong[OF pr1(2), of c_children] by simp_all
  have pt1: "k_ptable st1 = k_ptable st" using q1 by (simp add: quiet_def)
  obtain i where i: "t_pt (ptree_of st1) ! 1 = Some i" by (rule init_proc[OF proc_treeD(1)[OF quiet_tree[OF t q1]]])
  have "\<exists>st'. reparent_loop fuel st1 p = Inr st' \<and> proc_tree st' \<and> k_ptable st' = k_ptable st1 \<and> k_procs st' = reparented st1 p (pr_children pr1) [] i"
    by (rule reparent_loop_tree[OF quiet_tree[OF t q1] _ pr1(1)]) (use p l c1 pt1 i in simp_all)
  moreover have "reparented st1 p (pr_children pr1) [] i p = Some (pr1\<lparr>pr_children := []\<rparr>)" using pr1 by (simp add: reparented_def)
  ultimately have r: "proc_tree st2" "k_ptable st2 = k_ptable st" "k_procs st2 p = Some (pr1\<lparr>pr_children := []\<rparr>)" using s(2) pt1 by auto
  note q3 = quiet_wake_all[OF s(3)]
  obtain pr3 where pr3: "k_procs st3 p = Some pr3" "core_of pr3 = core_of (pr1\<lparr>pr_children := []\<rparr>)" using quiet_proc[OF q3 r(3)] by blast
  have c3: "pr_pid pr3 = pr_pid pr1" "pr_children pr3 = []" using arg_cong[OF pr3(2), of c_pid] arg_cong[OF pr3(2), of c_children] by simp_all
  have "proc_tree (set_proc st3 p (pr3\<lparr>pr_state := broken\<rparr>))"
    by (rule break_tree[OF quiet_tree[OF r(1) q3] _ pr3(1)]) (use p r(2) q3 c1 c3 in \<open>simp_all add: quiet_def core_of_def\<close>)
  then show ?thesis using s(4) pr3 by (simp add: with_proc_def)
qed

lemma texit_tree:
  assumes t: "proc_tree st" and e: "texit_thread st p status = Inr st'" and p: "Some p \<in> set (k_ptable st)" "k_procs st p = Some pr"
    "pr_pid pr \<noteq> 1" "pr_true_pid pr \<noteq> pr_pid pr"
  shows "proc_tree st'"
proof -
  have w: "wake_all (set_proc st p (pr\<lparr>pr_exit_status := status, pr_state := broken\<rparr>)) Waitpid_wq = Inr st'"
    using e p by (simp add: texit_thread_def with_proc_def)
  have "proc_tree (set_proc st p (pr\<lparr>pr_exit_status := status, pr_state := broken\<rparr>))"
    by (rule break_tree[OF t p(1,2,3)]) (use p in \<open>simp_all add: core_of_def\<close>)
  then show ?thesis using quiet_tree[OF _ quiet_wake_all[OF w]] by simp
qed

text \<open>Reaping.\<close>

lemma distinct_entry:
  assumes t: "proc_tree st" and i: "i < NPROC" "k_ptable st ! i = Some p"
  shows "Some q \<in> set ((k_ptable st)[i := None]) \<longleftrightarrow> q \<noteq> p \<and> Some q \<in> set (k_ptable st)"
proof -
  note ok = treeD(1)[OF proc_treeD(1)[OF t]]
  have len: "length (k_ptable st) = NPROC" using tabs_okD(1)[OF ok] by simp
  have inj: "j = i" if "j < NPROC" "k_ptable st ! j = Some p" for j
    using tabs_okD(3)[OF ok that(1), of p] tabs_okD(3)[OF ok i(1), of p] that(2) i by auto
  show ?thesis
  proof
    assume "Some q \<in> set ((k_ptable st)[i := None])"
    then obtain j where j: "j < NPROC" "(k_ptable st)[i := None] ! j = Some q" using len by (auto simp: in_set_conv_nth)
    then have "j \<noteq> i" "k_ptable st ! j = Some q" using len by (cases "j = i"; auto)+
    then show "q \<noteq> p \<and> Some q \<in> set (k_ptable st)" using inj[OF j(1)] j(1) len by (metis nth_mem)
  next
    assume q: "q \<noteq> p \<and> Some q \<in> set (k_ptable st)"
    then obtain j where j: "j < NPROC" "k_ptable st ! j = Some q" using len by (metis in_set_conv_nth)
    then have "(k_ptable st)[i := None] ! j = Some q" using q i by (cases "j = i") auto
    then show "Some q \<in> set ((k_ptable st)[i := None])" using j(1) len by (metis length_list_update nth_mem)
  qed
qed

text \<open>What reaping does before it wakes the waiters.\<close>

definition reaped :: "kst \<Rightarrow> nat \<Rightarrow> nat \<Rightarrow> nat \<Rightarrow> kst" where
  "reaped st i p d = st\<lparr>k_procs := ((k_procs st)(d \<mapsto> (the (k_procs st d))\<lparr>pr_children := remove1 p (pr_children (the (k_procs st d)))\<rparr>))(p := None),
    k_ptable := (k_ptable st)[i := None], k_true_ptable := (k_true_ptable st)[i := None]\<rparr>"

lemma process_reap_eq:
  assumes t: "proc_tree st" and p: "table_get (k_ptable st) pid = Inr (Some p)" "k_procs st p = Some pr" "pid \<noteq> 1"
  obtains i d dr where "pid = int i" "i < NPROC" "k_ptable st ! i = Some p" "pr_pid pr = int i"
    "k_true_ptable st ! nat (pr_ppid pr) = Some d" "Some d \<in> set (k_ptable st)" "k_procs st d = Some dr" "d \<noteq> p" "p \<in> set (pr_children dr)"
    "process_reap st pid = rbind (wake_all (reaped st i p d) Waitpid_wq) (\<lambda>st3. Inr (st3, pr_exit_status pr,
       length (filter (counted_thread st (pr_true_pid pr)) (threads st)) = 1))"
proof -
  note tr = proc_treeD(1)[OF t]
  note ok = treeD(1)[OF tr]
  have len: "length (k_ptable st) = NPROC" "length (k_true_ptable st) = NPROC" using tabs_okD(1,2)[OF ok] by simp_all
  define i where "i = nat pid"
  have i: "i < NPROC" "k_ptable st ! i = Some p" "pid = int i" using p(1) len by (auto simp: table_get_def i_def split: if_splits)
  have pin: "Some p \<in> set (k_ptable st)" using i len by (metis nth_mem)
  have v: "t_view (ptree_of st) p = Some (core_of pr)" using pin p by (simp add: view_iff)
  have pid: "pr_pid pr = int i" using tabs_okD(3)[OF ok i(1), of p] i(2) v by simp
  then have p1: "pr_pid pr \<noteq> 1" using p(3) i(3) by simp
  obtain d dr where d: "k_true_ptable st ! nat (pr_ppid pr) = Some d" "0 \<le> pr_ppid pr" "nat (pr_ppid pr) < NPROC"
      "Some d \<in> set (k_ptable st)" "k_procs st d = Some dr" "pr_pid dr = pr_ppid pr" "p \<in> set (pr_children dr)"
    using parent_entry[OF t pin p(2)] p1 by metis
  have dp: "d \<noteq> p" using node_okD(4)[OF treeD(3)[OF tr v]] d p(2) p1 by auto
  let ?st1 = "set_proc st d (dr\<lparr>pr_children := remove1 p (pr_children dr)\<rparr>)"
  have "counted_thread ?st1 x = counted_thread st x" for x
    using d(5) by (auto simp: counted_thread_def set_proc_def fun_eq_iff)
  moreover have "threads ?st1 = threads st" by (simp add: threads_def set_proc_def)
  ultimately have "process_reap st pid = rbind (wake_all (reaped st i p d) Waitpid_wq) (\<lambda>st3. Inr (st3, pr_exit_status pr,
       length (filter (counted_thread st (pr_true_pid pr)) (threads st)) = 1))"
    using i d p(1,2) len
    by (simp add: process_reap_def with_entry_def with_proc_def Let_def table_get_def reaped_def) (simp add: set_proc_def)
  then show thesis using that i pid d dp by blast
qed

lemma process_reap_tree:
  assumes t: "proc_tree st" and r: "process_reap st pid = Inr (st', s, l)"
    and p: "table_get (k_ptable st) pid = Inr (Some p)" "k_procs st p = Some pr" "pr_state pr = broken \<or> pr_children pr = []" "pid \<noteq> 1"
  shows "proc_tree st'"
proof -
  note tr = proc_treeD(1)[OF t]
  obtain i d dr where i: "pid = int i" "i < NPROC" "k_ptable st ! i = Some p" "pr_pid pr = int i"
    and d: "k_true_ptable st ! nat (pr_ppid pr) = Some d" "Some d \<in> set (k_ptable st)" "k_procs st d = Some dr" "d \<noteq> p"
    and e: "process_reap st pid = rbind (wake_all (reaped st i p d) Waitpid_wq) (\<lambda>st3. Inr (st3, pr_exit_status pr,
       length (filter (counted_thread st (pr_true_pid pr)) (threads st)) = 1))" by (rule process_reap_eq[OF t p(1,2,4)])
  define st2 where "st2 = reaped st i p d"
  have w: "wake_all st2 Waitpid_wq = Inr st'" using r unfolding e by (auto simp: st2_def rbind_eq_Inr)
  have "length (k_ptable st) = NPROC" using tabs_okD(1)[OF treeD(1)[OF tr]] by simp
  then have "Some p \<in> set (k_ptable st)" using i by (metis nth_mem)
  then have v: "t_view (ptree_of st) p = Some (core_of pr)" using p(2) by (simp add: view_iff)
  have nc: "c_children (core_of pr) = []" if "c_true (core_of pr) = c_pid (core_of pr)"
    using node_okD(5)[OF treeD(3)[OF tr v] _ that] p(3) by auto
  have inp: "Some q \<in> set (k_ptable st2) \<longleftrightarrow> q \<noteq> p \<and> Some q \<in> set (k_ptable st)" for q
    by (simp add: distinct_entry[OF t i(2,3)] st2_def reaped_def)
  have "t_view (ptree_of st2) q = t_view (t_drop (ptree_of st) i p d) q" for q
    using d(2-4) unfolding t_drop_def ptree_of_def inp Let_def by (simp add: st2_def reaped_def core_of_def)
  then have eq: "ptree_of st2 = t_drop (ptree_of st) i p d"
    by (intro ptree.equality ext) (simp_all add: t_drop_def st2_def reaped_def Let_def)
  have "tree (t_drop (ptree_of st) i p d)"
    by (rule t_drop_tree[OF tr v]) (use i p(4) d nc in simp_all)
  moreover have "state_of st2 q \<noteq> blank" if "Some q \<in> set (k_ptable st2)" for q
    using that inp[of q] proc_treeD(2)[OF t, of q] proc_treeD(2)[OF t d(2)] d by (auto simp: state_of_def st2_def reaped_def)
  ultimately have "proc_tree st2" by (simp add: proc_tree_def eq)
  then show ?thesis by (rule quiet_tree[OF _ quiet_wake_all[OF w]])
qed

text \<open>Fork, with the reap of a child whose memory could not be copied, and the first processes.\<close>

definition forked :: "kst \<Rightarrow> nat \<Rightarrow> nat \<Rightarrow> proc \<Rightarrow> proc \<Rightarrow> nat \<Rightarrow> kst" where
  "forked st i p pr np f = (st\<lparr>k_ptable := (k_ptable st)[i := Some f], k_true_ptable := (k_true_ptable st)[i := Some f]\<rparr>)
     \<lparr>k_procs := (k_procs st)(f \<mapsto> np, p \<mapsto> pr\<lparr>pr_children := pr_children pr @ [f]\<rparr>)\<rparr>"

lemma process_fork_eq:
  fixes pt fd :: nat
  assumes i: "get_proc_slot st = int i" "1 \<le> i" and p: "k_procs st p = Some pr" and pf: "p \<noteq> f"
  defines "np \<equiv> (init_user new_proc (int i) pt)\<lparr>pr_fdtable := fd, pr_ppid := pr_pid pr\<rparr>"
  shows "process_fork ncpu st p (Some f) (Some pt) (Some fd) copied =
      (if \<not> copied then rbind (process_reap (forked st i p pr np f) (int i)) (\<lambda>(st4, _). Inr (st4, E_NOMEM))
       else rbind (enqueue (set_proc (forked st i p pr np f) f (np\<lparr>pr_cpu := i mod ncpu\<rparr>)) (i mod ncpu) f) (\<lambda>st4. Inr (st4, int i)))"
proof -
  let ?st1 = "st\<lparr>k_ptable := (k_ptable st)[i := Some f], k_true_ptable := (k_true_ptable st)[i := Some f]\<rparr>" and ?st3 = "forked st i p pr np f"
  have wp: "with_proc ?st1 p g = g pr" for g :: "proc \<Rightarrow> (kst \<times> int) res" using p by (simp add: with_proc_def)
  have s3: "set_proc (set_proc ?st1 f np) p (pr\<lparr>pr_children := pr_children pr @ [f]\<rparr>) = ?st3" by (simp add: set_proc_def forked_def)
  have wf: "with_proc ?st3 f g = g np" for g :: "proc \<Rightarrow> (kst \<times> int) res" using pf by (simp add: with_proc_def forked_def)
  show ?thesis
    using i(2) unfolding process_fork_def Let_def i(1) option.case nat_int wp np_def[symmetric] s3 wf by simp
qed

lemma process_fork_tree:
  assumes t: "proc_tree st" and f: "process_fork ncpu st p (Some f) (Some pt) (Some fd) copied = Inr (st', pid)" and n: "k_procs st f = None"
    and p: "Some p \<in> set (k_ptable st)" "k_procs st p = Some pr" "pr_true_pid pr = pr_pid pr" "pr_state pr \<noteq> broken"
  shows "proc_tree st'"
proof (rule get_proc_slot_cases[OF t])
  assume "get_proc_slot st = - 1"
  then show ?thesis using f t by (simp add: process_fork_def)
next
  fix i assume i: "get_proc_slot st = int i" "1 \<le> i" "i < NPROC" "k_ptable st ! i = None"
  define np where "np = (init_user new_proc (int i) pt)\<lparr>pr_fdtable := fd, pr_ppid := pr_pid pr\<rparr>"
  define st3 where "st3 = forked st i p pr np f"
  have pf: "p \<noteq> f" using p(2) n by auto
  have fr: "k_procs st3 f = Some np" using pf by (simp add: st3_def forked_def)
  have q: "core_of np = \<lparr>c_pid = int i, c_true = int i, c_ppid = pr_pid pr, c_children = [], c_broken = False\<rparr>" "pr_state np \<noteq> blank"
    by (simp_all add: core_of_def np_def init_user_def new_proc_def)
  have st3: "proc_tree st3"
    by (rule add_tree[OF t i(3,4) n p q], use pf in \<open>simp_all add: st3_def forked_def fun_upd_twist\<close>)
  have len: "length (k_ptable st) = NPROC" using tabs_okD(1)[OF treeD(1)[OF proc_treeD(1)[OF t]]] by simp
  have i1: "i \<noteq> 1" using init_proc[OF proc_treeD(1)[OF t]] i(4) by (metis option.distinct(1) ptree_of_simps(1))
  note F = process_fork_eq[OF i(1,2) p(2) pf, of ncpu pt fd copied, folded np_def, folded st3_def]
  show ?thesis
  proof (cases copied)
    case True
    have e: "enqueue (set_proc st3 f (np\<lparr>pr_cpu := i mod ncpu\<rparr>)) (i mod ncpu) f = Inr st'"
      using f True unfolding F by (auto simp: rbind_eq_Inr)
    have q4: "quiet st3 st'"
      by (rule quiet_trans[OF quiet_set_proc[OF fr] quiet_enqueue[OF e]]) (simp_all add: core_of_def)
    then show ?thesis using quiet_tree[OF st3] by simp
  next
    case False
    obtain s l where e: "process_reap st3 (int i) = Inr (st', s, l)"
      using f False unfolding F by (auto simp: rbind_eq_Inr)
    show ?thesis
      by (rule process_reap_tree[OF st3 e _ fr]) (use i i1 len in \<open>auto simp: table_get_def st3_def forked_def np_def init_user_def new_proc_def\<close>)
  qed
qed

lemma process_fork_oom_tree:
  assumes t: "proc_tree st" and f: "process_fork ncpu st p fproc fpt fdt copied = Inr (st', pid)" and n: "fproc = None \<or> fpt = None"
  shows "st' = st"
proof (rule get_proc_slot_cases[OF t])
  assume "get_proc_slot st = - 1"
  then show ?thesis using f by (simp add: process_fork_def)
next
  fix i assume i: "get_proc_slot st = int i" "1 \<le> i" "i < NPROC" "k_ptable st ! i = None"
  note ok = treeD(1)[OF proc_treeD(1)[OF t]]
  have tt: "k_true_ptable st ! i = None" using tabs_okD(5)[OF ok i(3)] i(4) by (cases "k_true_ptable st ! i") auto
  have "(k_ptable st)[i := None] = k_ptable st" "(k_true_ptable st)[i := None] = k_true_ptable st"
    using i(4) tt by (metis list_update_id)+
  then show ?thesis using f n i by (auto simp: process_fork_def Let_def split: option.splits)
qed

lemma process_setup_tree:
  assumes t: "proc_tree st" and s: "process_setup ncpu st pid (Some n) npt fdt ready = Inr st'" and n: "k_procs st n = None"
  shows "proc_tree st'"
proof -
  note tr = proc_treeD(1)[OF t]
  note ok = treeD(1)[OF tr]
  have len: "length (k_ptable st) = NPROC" "length (k_true_ptable st) = NPROC" using tabs_okD(1,2)[OF ok] by simp_all
  obtain a c where "t_tt (ptree_of st) ! 1 = Some a" "t_pt (ptree_of st) ! 1 = Some a" "t_view (ptree_of st) a = Some c" "\<not> c_broken c" "c_pid c = 1" "c_true c = 1"
    by (rule init_proc[OF tr])
  then obtain ar where a: "k_true_ptable st ! 1 = Some a" "k_ptable st ! 1 = Some a" "Some a \<in> set (k_ptable st)" "k_procs st a = Some ar"
    "pr_state ar \<noteq> broken" "pr_true_pid ar = pr_pid ar" "pr_pid ar = 1" by (auto simp: view_iff)
  have an: "a \<noteq> n" using a n by auto
  obtain pt fd where "npt = Some pt" "fdt = Some fd" and ready and i: "pid < NPROC" "k_ptable st ! pid = None"
    using s len by (auto simp: process_setup_def table_get_def rbind_eq_Inr assert_then_def split: option.splits if_splits)
  have p1: "pid \<noteq> 1" using i a by auto
  have tt: "k_true_ptable st ! pid = None" using tabs_okD(5)[OF ok i(1)] i(2) by (cases "k_true_ptable st ! pid") auto
  define np where "np = (init_user (new_proc\<lparr>pr_fdtable := fd\<rparr>) (int pid) pt)\<lparr>pr_children := [], pr_ppid := 1\<rparr>"
  define st3 where "st3 = (st\<lparr>k_ptable := (k_ptable st)[pid := Some n], k_true_ptable := (k_true_ptable st)[pid := Some n]\<rparr>)
    \<lparr>k_procs := (k_procs st)(n \<mapsto> np, a \<mapsto> ar\<lparr>pr_children := pr_children ar @ [n]\<rparr>)\<rparr>"
  have fr: "k_procs st3 n = Some np" using an by (simp add: st3_def)
  have e: "enqueue (set_proc st3 n (np\<lparr>pr_cpu := pid mod ncpu\<rparr>)) (pid mod ncpu) n = Inr st'"
    using s \<open>npt = Some pt\<close> \<open>fdt = Some fd\<close> \<open>ready\<close> i tt p1 a an len fr
    by (simp add: process_setup_def table_get_def Let_def with_entry_def with_proc_def set_proc_def st3_def np_def)
  have q: "core_of np = \<lparr>c_pid = int pid, c_true = int pid, c_ppid = pr_pid ar, c_children = [], c_broken = False\<rparr>" "pr_state np \<noteq> blank"
    using a by (simp_all add: core_of_def np_def init_user_def new_proc_def)
  have st3: "proc_tree st3"
    by (rule add_tree[OF t i n a(3,4,6,5) q], use an in \<open>simp_all add: st3_def fun_upd_twist\<close>)
  have "quiet st3 st'"
    by (rule quiet_trans[OF quiet_set_proc[OF fr] quiet_enqueue[OF e]]) (simp_all add: core_of_def)
  then show ?thesis using quiet_tree[OF st3] by simp
qed

text \<open>The tables when the kernel starts, and the process that it sets up first.\<close>

definition boot_tables :: "kst \<Rightarrow> bool" where
  "boot_tables st \<longleftrightarrow> k_ptable st = replicate NPROC None \<and> k_true_ptable st = replicate NPROC None"

lemma process_setup_init_tree:
  assumes b: "boot_tables st" and s: "process_setup ncpu st 1 (Some n) npt fdt ready = Inr st'"
  shows "proc_tree st'"
proof -
  obtain pt fd where "npt = Some pt" "fdt = Some fd" and ready
    using s b by (auto simp: process_setup_def table_get_def boot_tables_def rbind_eq_Inr assert_then_def split: option.splits if_splits)
  define np where "np = (init_user (new_proc\<lparr>pr_fdtable := fd\<rparr>) 1 pt)\<lparr>pr_children := [], pr_ppid := 1\<rparr>"
  define tab where "tab = (replicate NPROC None)[1 := Some n]"
  define st3 where "st3 = (st\<lparr>k_ptable := tab, k_true_ptable := tab\<rparr>)\<lparr>k_procs := (k_procs st)(n \<mapsto> np)\<rparr>"
  have e: "enqueue (set_proc st3 n (np\<lparr>pr_cpu := 1 mod ncpu\<rparr>)) (1 mod ncpu) n = Inr st'"
    using s \<open>npt = Some pt\<close> \<open>fdt = Some fd\<close> \<open>ready\<close> b
    by (simp add: process_setup_def table_get_def Let_def with_entry_def with_proc_def set_proc_def st3_def np_def boot_tables_def tab_def)
  have nth: "tab ! i = Some p \<longleftrightarrow> i = 1 \<and> p = n" if "i < NPROC" for i p using that by (cases "i = 1") (auto simp: tab_def)
  have mem: "Some p \<in> set tab \<longleftrightarrow> p = n" for p
  proof -
    have "length tab = NPROC" by (simp add: tab_def)
    then have "Some p \<in> set tab \<longleftrightarrow> (\<exists>i < NPROC. tab ! i = Some p)" by (metis in_set_conv_nth)
    also have "\<dots> \<longleftrightarrow> p = n" using nth by (auto intro!: exI[of _ 1])
    finally show ?thesis .
  qed
  have v: "t_view (ptree_of st3) p = (if p = n then Some (core_of np) else None)" for p by (simp add: ptree_of_def st3_def mem)
  have cn: "core_of np = \<lparr>c_pid = 1, c_true = 1, c_ppid = 1, c_children = [], c_broken = False\<rparr>"
    by (simp add: np_def core_of_def init_user_def new_proc_def)
  have t: "k_ptable st3 = tab" "k_true_ptable st3 = tab" by (simp_all add: st3_def)
  have "tabs_ok (ptree_of st3)" unfolding tabs_ok_def using nth by (auto simp: t v cn) (simp_all add: tab_def)
  moreover have "init_ok (ptree_of st3)" using nth[of 1] by (simp add: init_ok_def t v cn)
  moreover have "node_ok (ptree_of st3) (core_of np)" using nth[of 1] by (simp add: node_ok_def main_at_def t v cn)
  ultimately have "tree (ptree_of st3)" unfolding tree_def by (simp add: v)
  moreover have "state_of st3 n \<noteq> blank" by (simp add: state_of_def st3_def np_def init_user_def)
  ultimately have st3: "proc_tree st3" by (simp add: proc_tree_def t mem)
  have "quiet st3 st'"
    by (rule quiet_trans[OF quiet_set_proc[of _ _ np] quiet_enqueue[OF e]]) (simp_all add: core_of_def st3_def)
  then show ?thesis using quiet_tree[OF st3] by simp
qed

section \<open>The life of processes\<close>

lemma quiet_schedule_turn:
  assumes "schedule_turn st c yf = Inr (Again st')"
  shows "quiet st st'"
proof -
  have cur: "quiet s (s\<lparr>k_current := x\<rparr>)" for s x by (simp add: quiet_def)
  obtain st1 where 1: "quiet st st1" and 2: "st' = (let st2 = (case k_runq st1 c of [] \<Rightarrow> st1
      | p # ps \<Rightarrow> st1\<lparr>k_runq := (k_runq st1)(c := ps), k_current := (k_current st1)(c := Some p)\<rparr>)
    in if k_current st2 c = None then st2\<lparr>k_current := (k_current st2)(c := Some (k_idle st2 c))\<rparr> else st2)"
  proof (cases "k_current st c")
    case None
    then show ?thesis using assms that[of st] by (simp add: schedule_turn_def Let_def)
  next
    case (Some p)
    let ?st1 = "st\<lparr>k_current := (k_current st)(c := None)\<rparr>"
    obtain pr where pr: "k_procs st p = Some pr" using assms Some by (auto simp: schedule_turn_def Let_def with_proc_def split: option.splits)
    obtain st1 where "(if pr_state pr = runnable then enqueue ?st1 c p else Inr ?st1) = Inr st1"
      and e: "st' = (let st2 = (case k_runq st1 c of [] \<Rightarrow> st1
      | p # ps \<Rightarrow> st1\<lparr>k_runq := (k_runq st1)(c := ps), k_current := (k_current st1)(c := Some p)\<rparr>)
    in if k_current st2 c = None then st2\<lparr>k_current := (k_current st2)(c := Some (k_idle st2 c))\<rparr> else st2)"
      using assms Some pr by (auto simp: schedule_turn_def Let_def with_proc_def rbind_eq_Inr split: if_splits)
    then have "quiet ?st1 st1" using quiet_enqueue by (auto split: if_splits)
    then show ?thesis using that[OF _ e] quiet_trans[OF cur] by blast
  qed
  have "quiet st1 st'" unfolding 2 Let_def by (auto split: list.split simp: quiet_def)
  then show ?thesis using 1 quiet_trans by blast
qed

lemma quiet_schedule_loop: "schedule_loop fuel st c yf = Inr (st', p) \<Longrightarrow> quiet st st'"
proof (induction fuel arbitrary: st yf)
  case (Suc fuel)
  then obtain t where t: "schedule_turn st c yf = Inr t" "(case t of Resume p \<Rightarrow> Inr (st, p)
     | Again st' \<Rightarrow> schedule_loop fuel st' c (if k_current st c = None then yf else None)) = Inr (st', p)" by (auto simp: rbind_eq_Inr)
  show ?case
  proof (cases t)
    case (Resume q)
    then show ?thesis using t by simp
  next
    case (Again st1)
    have "quiet st st1" using t(1) Again by (simp add: quiet_schedule_turn)
    then show ?thesis using Suc.IH[of st1] t(2) Again quiet_trans by fastforce
  qed
qed simp

text \<open>A process that executes code in the kernel, and the main thread of its process.\<close>

definition running :: "kst \<Rightarrow> nat \<Rightarrow> bool" where
  "running st p \<longleftrightarrow> Some p \<in> set (k_ptable st) \<and> k_procs st p \<noteq> None \<and> state_of st p \<noteq> broken"

definition main_thread :: "kst \<Rightarrow> nat \<Rightarrow> bool" where
  "main_thread st p = (case k_procs st p of None \<Rightarrow> False | Some pr \<Rightarrow> pr_true_pid pr = pr_pid pr)"

definition is_init :: "kst \<Rightarrow> nat \<Rightarrow> bool" where
  "is_init st p = (case k_procs st p of None \<Rightarrow> False | Some pr \<Rightarrow> pr_pid pr = 1)"

lemma quiet_running: "quiet st st' \<Longrightarrow> running st' p = running st p"
  unfolding quiet_def running_def state_of_def by (auto simp: core_of_def split: option.splits dest!: spec[of _ p])

lemma process_reap_running:
  assumes t: "proc_tree st" and r: "process_reap st pid = Inr (st', s, l)"
    and p: "table_get (k_ptable st) pid = Inr (Some p)" "k_procs st p = Some pr" "pr_state pr = broken" "pid \<noteq> 1" and q: "running st q"
  shows "running st' q"
proof -
  obtain i d dr where i: "i < NPROC" "k_ptable st ! i = Some p"
    and d: "Some d \<in> set (k_ptable st)" "k_procs st d = Some dr" "d \<noteq> p"
    and e: "process_reap st pid = rbind (wake_all (reaped st i p d) Waitpid_wq) (\<lambda>st3. Inr (st3, pr_exit_status pr,
       length (filter (counted_thread st (pr_true_pid pr)) (threads st)) = 1))" by (rule process_reap_eq[OF t p(1,2,4)])
  have w: "wake_all (reaped st i p d) Waitpid_wq = Inr st'" using r unfolding e by (auto simp: rbind_eq_Inr)
  have "q \<noteq> p" using q p by (auto simp: running_def state_of_def)
  then have "running (reaped st i p d) q"
    using q d distinct_entry[OF t i, of q] by (auto simp: running_def reaped_def state_of_def)
  then show ?thesis using quiet_running[OF quiet_wake_all[OF w]] by simp
qed

text \<open>Waiting for children: what one turn reaps.\<close>

lemma reap_any_tree:
  assumes t: "proc_tree st" and p: "Some p \<in> set (k_ptable st)" and r: "reap_any st p a b = Inr (st', x)"
  shows "proc_tree st' \<and> (running st q \<longrightarrow> running st' q)"
proof -
  obtain pr where pr: "k_procs st p = Some pr" using r by (auto simp: reap_any_def with_proc_def split: option.splits)
  show ?thesis
  proof (cases "filter (is_broken st) (pr_children pr)")
    case Nil
    then show ?thesis using r pr t by (simp add: reap_any_def with_proc_def)
  next
    case (Cons c cs)
    then have "c \<in> set (filter (is_broken st) (pr_children pr))" by simp
    then have c: "c \<in> set (pr_children pr)" "is_broken st c" by simp_all
    note tr = proc_treeD(1)[OF t]
    have v: "t_view (ptree_of st) p = Some (core_of pr)" using p pr by (simp add: view_iff)
    obtain d where "t_view (ptree_of st) c = Some d" "c_pid d \<noteq> 1" using node_okD(3)[OF treeD(3)[OF tr v], of c] c(1) by auto
    then obtain cr where cr: "Some c \<in> set (k_ptable st)" "k_procs st c = Some cr" "pr_pid cr \<noteq> 1" by (auto simp: view_iff)
    have vc: "t_view (ptree_of st) c = Some (core_of cr)" using cr by (simp add: view_iff)
    have tg: "table_get (k_ptable st) (pr_pid cr) = Inr (Some c)"
      using tabs_okD(4)[OF treeD(1)[OF tr] vc] tabs_okD(1)[OF treeD(1)[OF tr]] by (simp add: table_get_def)
    obtain s l where r1: "process_reap st (pr_pid cr) = Inr (st', s, l)"
      using r pr Cons cr by (auto simp: reap_any_def with_proc_def rbind_eq_Inr)
    have b: "pr_state cr = broken" using c(2) cr by (simp add: is_broken_def)
    then show ?thesis using process_reap_tree[OF t r1 tg cr(2)] process_reap_running[OF t r1 tg cr(2) b cr(3), of q] cr(3) by blast
  qed
qed

lemma reap_loop_tree:
  "proc_tree st \<Longrightarrow> set is \<subseteq> {..<NPROC} \<Longrightarrow> reap_loop is st cp a b = Inr (st', x) \<Longrightarrow> proc_tree st' \<and> (running st q \<longrightarrow> running st' q)"
proof (induction "is" arbitrary: st a b)
  case (Cons i "is")
  note tr = proc_treeD(1)[OF Cons.prems(1)]
  have len: "length (k_ptable st) = NPROC" using tabs_okD(1)[OF treeD(1)[OF tr]] by simp
  show ?case
  proof (cases "k_ptable st ! i")
    case None
    then show ?thesis using Cons.prems Cons.IH[of st] by simp
  next
    case (Some t)
    then obtain pr where pr: "k_procs st t = Some pr" using Cons.prems by (auto simp: with_proc_def split: option.splits)
    show ?thesis
    proof (cases "pr_true_pid pr = cp \<and> pr_state pr = broken")
      case False
      then show ?thesis using Cons.prems Cons.IH[of st] Some pr by (auto simp: with_proc_def)
    next
      case True
      obtain st1 s l where r: "process_reap st (int i) = Inr (st1, s, l)" "reap_loop is st1 cp (pr_true_pid pr) (if s \<noteq> 0 then s else b) = Inr (st', x)"
        using Cons.prems(3) Some pr True by (auto simp: with_proc_def rbind_eq_Inr)
      obtain j c where "t_pt (ptree_of st) ! 1 = Some j" "t_view (ptree_of st) j = Some c" "\<not> c_broken c" by (rule init_proc[OF tr])
      then have i1: "i \<noteq> 1" using Some pr True by (auto simp: view_iff)
      have tg: "table_get (k_ptable st) (int i) = Inr (Some t)" and b: "pr_state pr = broken" "int i \<noteq> 1"
        using Some Cons.prems(2) len True i1 by (auto simp: table_get_def)
      have "proc_tree st1" using process_reap_tree[OF Cons.prems(1) r(1) tg pr] b by simp
      then have "proc_tree st' \<and> (running st1 q \<longrightarrow> running st' q)" using Cons.IH[OF _ _ r(2)] Cons.prems(2) by simp
      then show ?thesis using process_reap_running[OF Cons.prems(1) r(1) tg pr b, of q] by blast
    qed
  qed
qed simp

lemma waitpid_turnD:
  assumes "waitpid_turn st p cp opt a b = Inr (st', x)"
  obtains st1 st2 y where "waiter_prepare st Waitpid_wq p = Inr st1"
    "(if cp = 0 then reap_any st1 p a b else reap_loop [0..<NPROC] st1 cp a b) = Inr (st2, y)"
    "st' = st2 \<or> waiter_clear st2 Waitpid_wq p = Inr st'"
proof -
  obtain st1 where 1: "waiter_prepare st Waitpid_wq p = Inr st1" using assms unfolding waitpid_turn_def rbind_eq_Inr by blast
  obtain st2 a2 b2 where 2: "(if cp = 0 then reap_any st1 p a b else reap_loop [0..<NPROC] st1 cp a b) = Inr (st2, a2, b2)"
    using assms unfolding waitpid_turn_def 1 rbind_simps rbind_eq_Inr by (elim exE conjE) (metis prod_cases3)
  have "st' = st2 \<or> waiter_clear st2 Waitpid_wq p = Inr st'"
    using assms unfolding waitpid_turn_def 1 2 rbind_simps Let_def case_prod_conv by (auto simp: rbind_eq_Inr split: if_splits)
  then show thesis using that[OF 1 2] by blast
qed

lemma waitpid_turn_tree:
  assumes t: "proc_tree st" and p: "running st p" and w: "waitpid_turn st p cp opt a b = Inr (st', x)"
  shows "proc_tree st'"
proof -
  have ps: "state_of st p \<noteq> broken" "state_of st p \<noteq> blank" using p proc_treeD(2)[OF t, of p] by (auto simp: running_def)
  obtain st1 st2 y where s: "waiter_prepare st Waitpid_wq p = Inr st1"
    "(if cp = 0 then reap_any st1 p a b else reap_loop [0..<NPROC] st1 cp a b) = Inr (st2, y)"
    "st' = st2 \<or> waiter_clear st2 Waitpid_wq p = Inr st'" by (rule waitpid_turnD[OF w])
  note q1 = quiet_waiter(1)[OF ps s(1)]
  note t1 = quiet_tree[OF t q1]
  have p1: "Some p \<in> set (k_ptable st1)" "running st1 p" using p quiet_running[OF q1] q1 by (auto simp: running_def quiet_def)
  have "proc_tree st2 \<and> (running st1 p \<longrightarrow> running st2 p)"
  proof (cases "cp = 0")
    case True
    then show ?thesis using reap_any_tree[OF t1 p1(1)] s(2) by simp
  next
    case False
    then have "reap_loop [0..<NPROC] st1 cp a b = Inr (st2, y)" using s(2) by (simp del: upt_rec_numeral)
    then show ?thesis by (intro reap_loop_tree[OF t1]) auto
  qed
  then have t2: "proc_tree st2" "running st2 p" using p1 by auto
  then have "state_of st2 p \<noteq> broken" "state_of st2 p \<noteq> blank" using proc_treeD(2)[OF t2(1), of p] by (auto simp: running_def)
  then show ?thesis using s(3) quiet_waiter(2)[of st2 p Waitpid_wq st'] quiet_tree[OF t2(1)] t2 by blast
qed

text \<open>
  The steps.  Threads other than the main thread neither fork nor start the exit of the process, the main thread ends by
  exiting, and process 1 does not exit: the code does not test this, and \<open>thread_child_unreapable\<close> is what happens otherwise.
\<close>

inductive life_step :: "nat \<Rightarrow> kst \<Rightarrow> kst \<Rightarrow> bool" for ncpu where
  setup_first: "k_procs st n = None \<Longrightarrow> process_setup ncpu st pid (Some n) npt fdt ready = Inr st' \<Longrightarrow> life_step ncpu st st'"
| fork: "running st p \<Longrightarrow> main_thread st p \<Longrightarrow> k_procs st f = None \<Longrightarrow>
    process_fork ncpu st p (Some f) (Some pt) (Some fd) copied = Inr (st', pid) \<Longrightarrow> life_step ncpu st st'"
| fork_fail: "fproc = None \<or> fpt = None \<Longrightarrow> process_fork ncpu st p fproc fpt fdt copied = Inr (st', pid) \<Longrightarrow> life_step ncpu st st'"
| clone: "running st p \<Longrightarrow> k_procs st n = None \<Longrightarrow> k_procs st p = Some pr \<Longrightarrow> main_at (k_ptable st) (pr_true_pid pr) \<Longrightarrow>
    sys_clone ncpu st p (Some n) = Inr (st', pid) \<Longrightarrow> life_step ncpu st st'"
| exit_begin: "running st p \<Longrightarrow> main_thread st p \<Longrightarrow> process_exit_begin st p status = Inr st' \<Longrightarrow> life_step ncpu st st'"
| exit_wait: "exit_predicate st pr = Inr (st', b) \<Longrightarrow> life_step ncpu st st'"
| exit_end: "running st p \<Longrightarrow> main_thread st p \<Longrightarrow> \<not> is_init st p \<Longrightarrow> k_procs st p = Some pr \<Longrightarrow> length (pr_children pr) \<le> fuel \<Longrightarrow>
    process_exit_end fuel st p = Inr st' \<Longrightarrow> life_step ncpu st st'"
| texit: "running st p \<Longrightarrow> \<not> main_thread st p \<Longrightarrow> \<not> is_init st p \<Longrightarrow> texit_thread st p status = Inr st' \<Longrightarrow> life_step ncpu st st'"
| waitpid: "running st p \<Longrightarrow> waitpid_turn st p child_pid options to_reap exit_status = Inr (st', x) \<Longrightarrow> life_step ncpu st st'"
| prepare: "running st p \<Longrightarrow> waiter_prepare st q p = Inr st' \<Longrightarrow> life_step ncpu st st'"
| clear: "running st p \<Longrightarrow> waiter_clear st q p = Inr st' \<Longrightarrow> life_step ncpu st st'"
| wake: "proc_wake st p = Inr st' \<Longrightarrow> life_step ncpu st st'"
| wake_all: "wake_all st q = Inr st' \<Longrightarrow> life_step ncpu st st'"
| tick: "timer_tick st = Inr st' \<Longrightarrow> life_step ncpu st st'"
| schedule: "schedule fuel st c yf = Inr (st', p) \<Longrightarrow> life_step ncpu st st'"

lemma timer_tick_quiet: "timer_tick st = Inr st' \<Longrightarrow> quiet st st'"
  by (auto simp: timer_tick_def Let_def intro: quiet_trans[OF quiet_queues(4) quiet_wake_all] split: if_splits)

lemma runningD:
  assumes "running st p"
  obtains pr where "Some p \<in> set (k_ptable st)" "k_procs st p = Some pr" "pr_state pr \<noteq> broken" "state_of st p \<noteq> broken"
  using assms by (auto simp: running_def state_of_def)

lemma life_step_tree: "life_step ncpu st st' \<Longrightarrow> proc_tree st \<Longrightarrow> proc_tree st'"
proof (induction rule: life_step.induct)
  case (setup_first st n pid npt fdt ready st')
  then show ?case using process_setup_tree by blast
next
  case (fork st p f pt fd copied st' pid)
  obtain pr where pr: "Some p \<in> set (k_ptable st)" "k_procs st p = Some pr" "pr_state pr \<noteq> broken" by (rule runningD[OF fork.hyps(1)])
  then have "pr_true_pid pr = pr_pid pr" using fork.hyps(2) by (simp add: main_thread_def)
  then show ?case using process_fork_tree[OF fork.prems fork.hyps(4,3) pr(1,2)] pr(3) by blast
next
  case (fork_fail fproc fpt st p fdt copied st' pid)
  then show ?case using process_fork_oom_tree by metis
next
  case (clone st p n pr st' pid)
  then show ?case using sys_clone_tree(1)[OF clone.prems clone.hyps(5,2) _ clone.hyps(3,4)] by (auto simp: running_def)
next
  case (exit_begin st p status st')
  then show ?case using quiet_tree quiet_exit_begin by blast
next
  case (exit_wait st pr st' b)
  then show ?case using quiet_tree quiet_exit_predicate by blast
next
  case (exit_end st p pr fuel st')
  have "pr_pid pr \<noteq> 1" "Some p \<in> set (k_ptable st)" using exit_end.hyps by (auto simp: is_init_def running_def)
  then show ?case using process_exit_end_tree[OF exit_end.prems exit_end.hyps(6) _ exit_end.hyps(4) _ exit_end.hyps(5)] by blast
next
  case (texit st p status st')
  obtain pr where pr: "Some p \<in> set (k_ptable st)" "k_procs st p = Some pr" by (rule runningD[OF texit.hyps(1)])
  then have "pr_pid pr \<noteq> 1" "pr_true_pid pr \<noteq> pr_pid pr" using texit.hyps by (auto simp: main_thread_def is_init_def)
  then show ?case using texit_tree[OF texit.prems texit.hyps(4) pr] by blast
next
  case (waitpid st p cp opt a b st' x)
  then show ?case using waitpid_turn_tree by blast
next
  case (prepare st p q st')
  have "state_of st p \<noteq> broken" "state_of st p \<noteq> blank" using prepare proc_treeD(2)[OF prepare.prems, of p] by (auto simp: running_def)
  then show ?case using prepare quiet_tree quiet_waiter(1) by blast
next
  case (clear st p q st')
  have "state_of st p \<noteq> broken" "state_of st p \<noteq> blank" using clear proc_treeD(2)[OF clear.prems, of p] by (auto simp: running_def)
  then show ?case using clear quiet_tree quiet_waiter(2) by blast
next
  case (schedule fuel st c yf st' p)
  then show ?case using quiet_tree quiet_schedule_loop unfolding schedule_def by blast
qed (use quiet_tree quiet_proc_wake quiet_wake_all timer_tick_quiet in blast)+

lemma life_reachable:
  assumes "boot_tables st0" "process_setup ncpu st0 1 (Some n) npt fdt ready = Inr st1" "(life_step ncpu)\<^sup>*\<^sup>* st1 st"
  shows "proc_tree st"
  using assms(3)
proof (induction rule: rtranclp_induct)
  case base
  then show ?case using process_setup_init_tree[OF assms(1,2)] .
next
  case (step y z)
  then show ?case using life_step_tree by blast
qed

section \<open>Properties\<close>

text \<open>Neither waking nor queueing dereferences a null pointer.\<close>

lemma enqueue_not_null: "enqueue st c p \<noteq> Inl Null_Deref"
  by (auto simp: enqueue_def with_proc_def assert_then_def split: option.splits)

lemma wake_list_not_null: "wake_list ws st \<noteq> Inl Null_Deref"
proof (induction ws arbitrary: st)
  case (Cons w ws)
  have "proc_wake st w \<noteq> Inl Null_Deref" using enqueue_not_null by (auto simp: proc_wake_def with_proc_def split: option.splits)
  then show ?case using Cons.IH by (cases "proc_wake st w") auto
qed simp


text \<open>A kernel with process 1 and a second process, both just set up.\<close>

definition boot_kst :: kst where
  "boot_kst = \<lparr>k_procs = (\<lambda>_. None), k_ptable = replicate NPROC None, k_true_ptable = replicate NPROC None,
     k_runq = (\<lambda>_. []), k_current = (\<lambda>_. None), k_idle = (\<lambda>_. 9), k_wq = (\<lambda>_. []), k_ticks = 0\<rparr>"

definition booted :: kst where
  "booted = projr (process_setup 1 boot_kst 1 (Some 100) (Some 200) (Some 300) True)"

definition booted2 :: kst where
  "booted2 = projr (process_setup 1 booted 2 (Some 101) (Some 201) (Some 301) True)"

lemma boot_runs:
  "process_setup 1 boot_kst 1 (Some 100) (Some 200) (Some 300) True = Inr booted"
  "process_setup 1 booted 2 (Some 101) (Some 201) (Some 301) True = Inr booted2"
  by (simp_all add: booted2_def booted_def process_setup_def boot_kst_def table_get_def Let_def with_entry_def with_proc_def set_proc_def
      enqueue_def runq_linked_def list_ex_iff init_user_def new_proc_def)

lemma booted2_run: "(life_step 1)\<^sup>*\<^sup>* booted booted2"
proof -
  have "k_procs booted 101 = None"
    by (simp add: booted_def process_setup_def boot_kst_def table_get_def Let_def with_entry_def with_proc_def set_proc_def
      enqueue_def runq_linked_def list_ex_iff init_user_def new_proc_def)
  then have "life_step 1 booted booted2" using life_step.setup_first boot_runs(2) by blast
  then show ?thesis by simp
qed

lemma booted2_view:
  "table_get (k_ptable booted2) 2 = Inr (Some 101)" "k_ptable booted2 ! 1 = Some 100" "k_wq booted2 = (\<lambda>_. [])"
  "k_procs booted2 = [101 \<mapsto> (init_user new_proc 2 201)\<lparr>pr_fdtable := 301, pr_ppid := 1\<rparr>,
     100 \<mapsto> (init_user new_proc 1 200)\<lparr>pr_fdtable := 300, pr_ppid := 1, pr_children := [101]\<rparr>]"
  by (simp_all add: booted2_def booted_def process_setup_def boot_kst_def table_get_def Let_def with_entry_def with_proc_def set_proc_def
      enqueue_def runq_linked_def list_ex_iff init_user_def new_proc_def fun_eq_iff)


text \<open>The processes of the table are different ones.\<close>

lemma distinct_somes:
  "(\<And>i j. i < length xs \<Longrightarrow> j < length xs \<Longrightarrow> xs ! i = xs ! j \<Longrightarrow> xs ! i \<noteq> None \<Longrightarrow> i = j) \<Longrightarrow>
   distinct (map the (filter (\<lambda>x. x \<noteq> None) xs))"
proof (induction xs)
  case (Cons x xs)
  have "i = j" if "i < length xs" "j < length xs" "xs ! i = xs ! j" "xs ! i \<noteq> None" for i j
    using Cons.prems[of "Suc i" "Suc j"] that by simp
  moreover have "y \<noteq> x" if "y \<in> set xs" "x \<noteq> None" for y
  proof -
    obtain i where "i < length xs" "xs ! i = y" using \<open>y \<in> set xs\<close> by (auto simp: in_set_conv_nth)
    then show ?thesis using Cons.prems[of 0 "Suc i"] that(2) by auto
  qed
  ultimately show ?case using Cons.IH by (cases x) force+
qed simp

lemma distinct_threads:
  assumes t: "proc_tree st"
  shows "distinct (threads st)"
  unfolding threads_def
proof (rule distinct_somes)
  note ok = treeD(1)[OF proc_treeD(1)[OF t]]
  fix i j assume ij: "i < length (k_ptable st)" "j < length (k_ptable st)" "k_ptable st ! i = k_ptable st ! j" "k_ptable st ! i \<noteq> None"
  then obtain p where "k_ptable st ! i = Some p" "k_ptable st ! j = Some p" by auto
  moreover have "length (k_ptable st) = NPROC" using tabs_okD(1)[OF ok] by simp
  ultimately show "i = j" using tabs_okD(3)[OF ok, of i p] tabs_okD(3)[OF ok, of j p] ij by auto
qed

lemma filter_one:
  assumes "distinct xs" "p \<in> set xs" "P p"
  shows "length (filter P xs) = 1 \<longleftrightarrow> (\<forall>q \<in> set xs. q \<noteq> p \<longrightarrow> \<not> P q)"
proof -
  define S where "S = {q \<in> set xs. P q}"
  have pS: "p \<in> S" using assms by (simp add: S_def)
  have "length (filter P xs) = card S" using distinct_length_filter[OF assms(1), of P] by (simp add: S_def Int_def conj_commute)
  also have "\<dots> = 1 \<longleftrightarrow> S = {p}" using pS card_1_singleton_iff[of S] by auto
  also have "\<dots> \<longleftrightarrow> (\<forall>q \<in> set xs. q \<noteq> p \<longrightarrow> \<not> P q)" using assms by (auto simp: S_def)
  finally show ?thesis .
qed

text \<open>
  Reaping a dead process gives its exit status, frees its slot in both tables and its structure, takes it out of the list of its
  parent and nothing else out of any table, keeps the tree, and destroys the descriptors and the memory exactly when no other thread of
  the process is in the table.
\<close>
theorem process_reap_removes:
  assumes t: "proc_tree st" and p: "table_get (k_ptable st) pid = Inr (Some p)" "k_procs st p = Some pr" "pr_state pr = broken" "pid \<noteq> 1"
    and r: "process_reap st pid = Inr (st', s, last_thread)"
  shows "s = pr_exit_status pr \<and> proc_tree st' \<and> k_ptable st' = (k_ptable st)[nat pid := None] \<and> k_true_ptable st' = (k_true_ptable st)[nat pid := None]
    \<and> (\<forall>q. k_procs st' q = None \<longleftrightarrow> q = p \<or> k_procs st q = None)
    \<and> (\<exists>d dr dr'. table_get (k_true_ptable st) (pr_ppid pr) = Inr (Some d) \<and> k_procs st d = Some dr \<and> p \<in> set (pr_children dr)
         \<and> k_procs st' d = Some dr' \<and> pr_children dr' = remove1 p (pr_children dr))
    \<and> (last_thread \<longleftrightarrow> (\<forall>q \<in> set (threads st). q \<noteq> p \<longrightarrow> \<not> same_process st (pr_true_pid pr) q))"
proof -
  note ok = treeD(1)[OF proc_treeD(1)[OF t]]
  have len: "length (k_ptable st) = NPROC" "length (k_true_ptable st) = NPROC" using tabs_okD(1,2)[OF ok] by simp_all
  obtain i d dr where i: "pid = int i" "i < NPROC" "k_ptable st ! i = Some p"
    and d: "k_true_ptable st ! nat (pr_ppid pr) = Some d" "k_procs st d = Some dr" "d \<noteq> p" "p \<in> set (pr_children dr)"
    and e: "process_reap st pid = rbind (wake_all (reaped st i p d) Waitpid_wq) (\<lambda>st3. Inr (st3, pr_exit_status pr,
       length (filter (counted_thread st (pr_true_pid pr)) (threads st)) = 1))" by (rule process_reap_eq[OF t p(1,2,4)])
  have pin: "Some p \<in> set (k_ptable st)" using i len by (metis nth_mem)
  have w: "wake_all (reaped st i p d) Waitpid_wq = Inr st'" and s: "s = pr_exit_status pr"
    and l: "last_thread \<longleftrightarrow> length (filter (counted_thread st (pr_true_pid pr)) (threads st)) = 1" using r unfolding e by (auto simp: rbind_eq_Inr)
  note q = quiet_wake_all[OF w]
  have c: "counted_thread st (pr_true_pid pr) x = same_process st (pr_true_pid pr) x" if "x \<in> set (threads st)" for x
    using proc_treeD(2)[OF t, of x] that pstate.exhaust by (auto simp: counted_thread_def same_process_def state_of_def split: option.splits)
  have "last_thread \<longleftrightarrow> (\<forall>q \<in> set (threads st). q \<noteq> p \<longrightarrow> \<not> counted_thread st (pr_true_pid pr) q)"
    unfolding l by (rule filter_one[OF distinct_threads[OF t]]) (use pin p in \<open>auto simp: counted_thread_def\<close>)
  then have "last_thread \<longleftrightarrow> (\<forall>q \<in> set (threads st). q \<noteq> p \<longrightarrow> \<not> same_process st (pr_true_pid pr) q)" using c by blast
  moreover have "k_procs st' x = None \<longleftrightarrow> k_procs (reaped st i p d) x = None" for x using quiet_view[OF q, of x] by (metis option.map_disc_iff)
  then have "\<forall>x. k_procs st' x = None \<longleftrightarrow> x = p \<or> k_procs st x = None" using d by (auto simp: reaped_def)
  moreover have "k_procs (reaped st i p d) d = Some (dr\<lparr>pr_children := remove1 p (pr_children dr)\<rparr>)" using d by (simp add: reaped_def)
  from quiet_proc[OF q this] obtain dr' where dr': "k_procs st' d = Some dr'" "core_of dr' = core_of (dr\<lparr>pr_children := remove1 p (pr_children dr)\<rparr>)" by blast
  have "pr_children dr' = remove1 p (pr_children dr)" using arg_cong[OF dr'(2), of c_children] by simp
  moreover note dr'(1)
  moreover have "table_get (k_true_ptable st) (pr_ppid pr) = Inr (Some d)"
    using parent_entry[OF t pin p(2)] d(1) len by (metis table_get_def)
  moreover have "k_ptable st' = (k_ptable st)[nat pid := None]" "k_true_ptable st' = (k_true_ptable st)[nat pid := None]"
    using q i by (simp_all add: quiet_def reaped_def)
  ultimately show ?thesis using s process_reap_tree[OF t r p(1,2) _ p(4)] p(3) d by blast
qed

text \<open>The second process of the small kernel exits.\<close>

definition booted_dying :: kst where
  "booted_dying = set_proc booted2 101 ((init_user new_proc 2 201)\<lparr>pr_fdtable := 301, pr_ppid := 1, pr_exit_status := 7\<rparr>)"

definition booted_exit :: kst where
  "booted_exit = set_proc booted_dying 101 ((init_user new_proc 2 201)\<lparr>pr_fdtable := 301, pr_ppid := 1, pr_exit_status := 7, pr_state := broken\<rparr>)"

lemma threads_set_proc [simp]: "threads (set_proc st p pr) = threads st"
  by (simp add: threads_def set_proc_def)

lemma threads_booted: "threads booted2 = [100, 101]"
  by (simp add: threads_def booted2_def booted_def process_setup_def boot_kst_def table_get_def Let_def with_entry_def with_proc_def set_proc_def
      enqueue_def runq_linked_def list_ex_iff init_user_def new_proc_def eval_nat_numeral)

lemma booted_exit_run: "(life_step 1)\<^sup>*\<^sup>* booted booted_exit"
proof -
  have b: "process_exit_begin booted2 101 7 = Inr booted_dying"
  proof -
    have "active_threads booted_dying ((init_user new_proc 2 201)\<lparr>pr_fdtable := 301, pr_ppid := 1, pr_exit_status := 7\<rparr>) = 1"
      unfolding active_threads_def booted_dying_def threads_set_proc threads_booted
      by (simp add: same_process_def set_proc_def booted2_view init_user_def new_proc_def)
    then show ?thesis by (simp add: process_exit_begin_def with_proc_def booted2_view Let_def booted_dying_def)
  qed
  have in2: "Some 101 \<in> set (k_ptable booted2)" using threads_booted in_threads[of 101 booted2] by simp
  have p1: "table_get (k_ptable booted2) 1 = Inr (Some 100)" using booted2_view(1,2) by (simp add: table_get_def split: if_splits)
  have run: "running s 101" "main_thread s 101" "\<not> is_init s 101" if "k_ptable s = k_ptable booted2"
    "k_procs s 101 = Some ((init_user new_proc 2 201)\<lparr>pr_fdtable := 301, pr_ppid := 1, pr_exit_status := x\<rparr>)" for s x
    using that in2 by (simp_all add: running_def main_thread_def is_init_def state_of_def init_user_def new_proc_def)
  have e: "process_exit_end 0 booted_dying 101 = Inr booted_exit"
    using p1 by (simp add: process_exit_end_def interrupt_parent_def booted_dying_def booted_exit_def with_proc_def set_proc_def booted2_view wake_all_def
      init_user_def new_proc_def fun_upd_idem)
  have "life_step 1 booted2 booted_dying"
    by (rule life_step.exit_begin[OF run(1,2)[of booted2 0] b]) (simp_all add: booted2_view init_user_def new_proc_def)
  moreover have "life_step 1 booted_dying booted_exit"
    by (rule life_step.exit_end[OF run[of booted_dying 7] _ _ e]) (simp_all add: booted_dying_def set_proc_def init_user_def new_proc_def)+
  ultimately show ?thesis using booted2_run by (meson rtranclp.rtrancl_into_rtrancl)
qed

theorem process_reap_removes_witness:
  "proc_tree booted_exit \<and> (\<exists>st'. process_reap booted_exit 2 = Inr (st', 7, True) \<and> k_ptable st' = (k_ptable booted_exit)[2 := None] \<and> proc_tree st')"
proof -
  have t: "proc_tree booted_exit" by (rule life_reachable[OF _ boot_runs(1) booted_exit_run]) (simp add: boot_tables_def boot_kst_def)
  have tg: "table_get (k_ptable booted_exit) 2 = Inr (Some 101)" using booted2_view(1) by (simp add: booted_exit_def booted_dying_def set_proc_def)
  obtain pr where pr: "k_procs booted_exit 101 = Some pr" "pr_state pr = broken" "pr_exit_status pr = 7" "pr_true_pid pr = 2"
    by (simp add: booted_exit_def set_proc_def init_user_def)
  have tab: "k_ptable booted_exit = k_ptable booted2" "k_true_ptable booted_exit = k_true_ptable booted2" "k_wq booted_exit = k_wq booted2"
    by (simp_all add: booted_exit_def booted_dying_def set_proc_def)
  have "\<exists>st' l. process_reap booted_exit 2 = Inr (st', 7, l)"
    by (rule process_reap_eq[OF t tg pr(1)]) (use pr(3) tab(3) in \<open>auto simp: wake_all_def reaped_def booted2_view(3)\<close>)
  then obtain st' l where r: "process_reap booted_exit 2 = Inr (st', 7, l)" by blast
  have th: "threads booted_exit = [100, 101]" by (simp add: booted_exit_def booted_dying_def threads_booted)
  have o: "\<not> same_process booted_exit 2 100"
    by (simp add: same_process_def booted_exit_def booted_dying_def set_proc_def booted2_view init_user_def new_proc_def)
  show ?thesis using process_reap_removes[OF t tg pr(1,2) _ r] t r th pr o by auto
qed

text \<open>
  The loop that gives the children of an exiting process to process 1 ends after at most as many turns as the table has slots: then the process
  has no children, process 1 has them at the end of its list, and they have process 1 as their parent.
\<close>
theorem exit_reparents_children:
  assumes t: "proc_tree st" and p: "Some p \<in> set (k_ptable st)" "k_procs st p = Some pr" "pr_pid pr \<noteq> 1" and f: "NPROC \<le> fuel"
  shows "\<exists>st' i ir. reparent_loop fuel st p = Inr st' \<and> proc_tree st' \<and> table_get (k_ptable st) 1 = Inr (Some i) \<and> k_procs st i = Some ir
    \<and> k_procs st' i = Some (ir\<lparr>pr_children := pr_children ir @ pr_children pr\<rparr>) \<and> k_procs st' p = Some (pr\<lparr>pr_children := []\<rparr>)
    \<and> (\<forall>c \<in> set (pr_children pr). map_option pr_ppid (k_procs st' c) = Some 1)"
proof -
  note tr = proc_treeD(1)[OF t]
  note ok = treeD(1)[OF tr]
  have len: "length (k_ptable st) = NPROC" using tabs_okD(1)[OF ok] by simp
  have v: "t_view (ptree_of st) p = Some (core_of pr)" using p by (simp add: view_iff)
  note N = treeD(3)[OF tr v]
  obtain i ic where i: "t_pt (ptree_of st) ! 1 = Some i" "t_view (ptree_of st) i = Some ic" "c_ppid ic = 1" "c_pid ic = 1" by (rule init_proc[OF tr])
  obtain ir where ir: "k_procs st i = Some ir" "pr_pid ir = 1" "pr_ppid ir = 1" using i by (auto simp: view_iff)
  have ne: "i \<noteq> p" using ir p by auto
  have ch: "Some c \<in> set (k_ptable st)" "c \<noteq> p" "c \<noteq> i" "k_procs st c \<noteq> None" if "c \<in> set (pr_children pr)" for c
  proof -
    have "\<exists>d. t_view (ptree_of st) c = Some d \<and> c_ppid d = pr_pid pr \<and> c_pid d \<noteq> 1" using node_okD(3)[OF N, of c] that by simp
    then obtain cr where cr: "Some c \<in> set (k_ptable st)" "k_procs st c = Some cr" "pr_ppid cr = pr_pid pr" by (auto simp: view_iff)
    then show "Some c \<in> set (k_ptable st)" "k_procs st c \<noteq> None" by simp_all
    show "c \<noteq> p" using node_okD(4)[OF N] cr p by auto
    show "c \<noteq> i" using cr ir p by auto
  qed
  have "length (pr_children pr) = card (Some ` set (pr_children pr))"
    using distinct_card[OF node_okD(1)[OF N]] by (simp add: card_image)
  also have "\<dots> \<le> card (set (k_ptable st))" using ch(1) by (intro card_mono) auto
  also have "\<dots> \<le> NPROC" using card_length[of "k_ptable st"] len by simp
  finally have l: "length (pr_children pr) \<le> fuel" using f by simp
  obtain st' where r: "reparent_loop fuel st p = Inr st'" "proc_tree st'" "k_procs st' = reparented st p (pr_children pr) [] i"
    using reparent_loop_tree[OF t p l, of i] i(1) by auto
  have "map_option pr_ppid (k_procs st' c) = Some 1" if "c \<in> set (pr_children pr)" for c
    using ch(2-4)[OF that] that by (auto simp: r(3) reparented_def)
  then show ?thesis using r ne ir p i(1) len by (auto simp: table_get_def reparented_def)
qed

theorem exit_reparents_children_witness:
  "proc_tree booted2 \<and> (\<exists>st'. reparent_loop 16 booted2 101 = Inr st' \<and> proc_tree st')"
proof -
  have t: "proc_tree booted2" by (rule life_reachable[OF _ boot_runs(1) booted2_run]) (simp add: boot_tables_def boot_kst_def)
  have "Some 101 \<in> set (k_ptable booted2)" using threads_booted in_threads[of 101 booted2] by simp
  from exit_reparents_children[OF t this, of "(init_user new_proc 2 201)\<lparr>pr_fdtable := 301, pr_ppid := 1\<rparr>" 16]
  show ?thesis using t by (auto simp: booted2_view init_user_def)
qed


text \<open>The second process of the small kernel starts a thread.\<close>

definition booted_thread :: kst where
  "booted_thread = fst (projr (sys_clone 1 booted2 101 (Some 102)))"

definition booted_fork :: kst where
  "booted_fork = fst (projr (process_fork 1 booted_thread 102 (Some 103) (Some 203) (Some 303) True))"

lemma booted2_tables:
  "k_ptable booted2 = [None, Some 100, Some 101, None, None, None, None, None, None, None, None, None, None, None, None, None]"
  "k_true_ptable booted2 = k_ptable booted2" "k_runq booted2 = (\<lambda>_. [])(0 := [100, 101])" "k_current booted2 = (\<lambda>_. None)"
  by (simp_all add: booted2_def booted_def process_setup_def boot_kst_def table_get_def Let_def with_entry_def with_proc_def set_proc_def
      enqueue_def runq_linked_def list_ex_iff init_user_def new_proc_def eval_nat_numeral fun_eq_iff)

lemma slots: "[Suc 0..<16] = [1, 2, 3, 4, 5, 6, 7, 8, 9, 10, 11, 12, 13, 14, 15]"
  by code_simp

lemma booted_thread_eq: "sys_clone 1 booted2 101 (Some 102) = Inr (booted_thread, 3)"
  by (simp add: booted_thread_def sys_clone_def with_proc_def booted2_view(4) booted2_tables get_proc_slot_def slots slot_free_def Let_def with_entry_def
    table_get_def set_proc_def enqueue_def runq_linked_def list_ex_iff init_user_def new_proc_def)

lemma booted_thread_view:
  "k_ptable booted_thread = (k_ptable booted2)[3 := Some 102]" "k_procs booted_thread 103 = None"
  "k_procs booted_thread 102 = Some (new_proc\<lparr>pr_ppid := 1, pr_true_pid := 2, pr_fdtable := 301, pr_state := runnable, pr_pagetable := 201, pr_pid := 3, pr_resumable := True\<rparr>)"
  "k_procs booted_thread 101 \<noteq> None" "state_of booted_thread 100 = runnable" "state_of booted_thread 101 = runnable"
  "k_runq booted_thread = (\<lambda>_. [])(0 := [100, 101, 102])" "k_current booted_thread = (\<lambda>_. None)"
  by (simp_all add: booted_thread_def sys_clone_def with_proc_def booted2_view(4) booted2_tables get_proc_slot_def slots slot_free_def Let_def with_entry_def
    table_get_def set_proc_def enqueue_def runq_linked_def list_ex_iff init_user_def new_proc_def state_of_def fun_eq_iff)


end
