(* ===== verification/Aspace.thy ===== *)
theory Aspace
  imports Vmiter_Correct
begin

text \<open>
  The low half of an address space as a user process has it: pages of 4096 bytes only, page tables with all permissions on the way to them, and no byte of physical memory at two addresses.
  Mapping pages keeps this.
\<close>

section \<open>Pages and their tables\<close>

abbreviation low :: "u64 \<Rightarrow> bool" where "low a \<equiv> unat a < 2 ^ 47"

definition page :: "u64 \<Rightarrow> nat" where "page a = unat a div 4096"

definition user_links :: "ptmem \<Rightarrow> u64 \<Rightarrow> bool" where
  "user_links m pt \<longleftrightarrow> (\<forall>va d t. low va \<longrightarrow> d < 3 \<longrightarrow> table_at m pt va d = Some t \<longrightarrow>
     m t (pageindex va (3 - d)) AND PTE_P = 0 \<or> vm_table (m t (pageindex va (3 - d))) \<and> m t (pageindex va (3 - d)) AND 7 = 7)"

definition paddr :: "ptmem \<Rightarrow> u64 \<Rightarrow> u64 \<Rightarrow> u64 option" where
  "paddr m pt a = map_option fst (vm_lookup m pt a)"

definition aspace :: "ptmem \<Rightarrow> u64 \<Rightarrow> bool" where
  "aspace m pt \<longleftrightarrow> pt_tree m pt \<and> user_links m pt \<and> (\<forall>a b pa. low a \<longrightarrow> low b \<longrightarrow> paddr m pt a = Some pa \<longrightarrow> paddr m pt b = Some pa \<longrightarrow> a = b)"

definition unmapped :: "ptmem \<Rightarrow> u64 \<Rightarrow> u64 \<Rightarrow> bool" where
  "unmapped m pt n \<longleftrightarrow> n AND PTE_PAMASK = n \<and> (\<forall>a pa. low a \<longrightarrow> paddr m pt a = Some pa \<longrightarrow> pa AND NOT 0xFFF \<noteq> n)"

lemma table_present: "vm_table e \<Longrightarrow> e AND PTE_P \<noteq> 0"
  by (auto simp: vm_table_bits bit_iff_and_push_bit_not_eq_0)

lemma links_perm:
  assumes u: "user_links m pt" "low va"
  shows "e \<le> 3 \<Longrightarrow> table_at m pt va e \<noteq> None \<Longrightarrow> perm_at m pt va e AND 7 = 7"
proof (induction e)
  case (Suc e)
  obtain t where t: "table_at m pt va e = Some t" "vm_table (m t (pageindex va (3 - e)))" using Suc.prems(2) by (auto split: option.splits if_splits)
  have "m t (pageindex va (3 - e)) AND 7 = 7" using u t Suc.prems(1) table_present[OF t(2)] unfolding user_links_def by (metis Suc_le_lessD)
  moreover have "perm_at m pt va e AND 7 = 7" by (rule Suc.IH) (use Suc.prems t in auto)
  ultimately show ?case using t by (simp add: and.assoc)
qed simp

lemma links_walk:
  assumes u: "user_links m pt" "low va"
  shows "vi_perm (vm_walk m pt va) AND 7 = 7" "vi_level (vm_walk m pt va) > 0 \<longrightarrow> \<not> vm_present m (vm_walk m pt va)"
proof -
  obtain d where d: "d \<le> 3" "table_at m pt va d \<noteq> None" "d = 3 \<or> table_at m pt va (Suc d) = None" "vm_walk m pt va = pos_at m pt va d"
    by (rule walk_depth)
  show "vi_perm (vm_walk m pt va) AND 7 = 7" using links_perm[OF u d(1,2)] by (simp add: d(4) pos_at_def)
  obtain t where t: "table_at m pt va d = Some t" using d(2) by blast
  show "vi_level (vm_walk m pt va) > 0 \<longrightarrow> \<not> vm_present m (vm_walk m pt va)"
  proof
    assume "vi_level (vm_walk m pt va) > 0"
    then have d3: "d < 3" by (simp add: d(4) pos_at_def)
    then have "\<not> vm_table (m t (pageindex va (3 - d)))" using d(3) t by (auto split: if_splits)
    then have "m t (pageindex va (3 - d)) AND PTE_P = 0" using u t d3 unfolding user_links_def by metis
    then show "\<not> vm_present m (vm_walk m pt va)" using t by (simp add: vm_present_def vm_entry_def d(4) pos_at_def)
  qed
qed

lemma links_insert:
  assumes u: "user_links m pt" and ins: "pt_insert m pt va d t n"
  shows "user_links (pt_new m va d t n) pt"
  unfolding user_links_def
proof (intro allI impI)
  fix va' e x assume h: "low va'" "e < 3" "table_at (pt_new m va d t n) pt va' e = Some x"
  let ?j = "pageindex va' (3 - e)"
  have e3: "e \<le> 3" using h(2) by simp
  note L = pamask_link[OF pt_insertD(2)[OF ins]]
  have z: "n AND 7 = 0" by (subst pt_insertD(2)[OF ins, symmetric]) (simp add: and.assoc)
  have l: "vm_table (n OR 7)" "(n OR 7) AND 7 = 7" using L(1) z by (simp_all add: bit.conj_disj_distrib2)
  show "pt_new m va d t n x ?j AND PTE_P = 0 \<or> vm_table (pt_new m va d t n x ?j) \<and> pt_new m va d t n x ?j AND 7 = 7"
    by (rule insert_table_cases[OF ins e3 h(3)]) (use u h(1,2) l in \<open>auto simp: pt_link_def user_links_def\<close>)
qed

lemma links_leaf:
  assumes tree: "pt_tree m pt" and l0: "vi_level (vm_walk m pt va) = 0" and u: "user_links m pt"
  shows "user_links (vm_set m (vm_walk m pt va) pe) pt"
  unfolding user_links_def
proof (intro allI impI)
  note lw = leaf_write[OF tree l0, where pe = pe] and t = leaf_table[OF l0]
  fix va' d x assume h: "low va'" "d < 3" "table_at (vm_set m (vm_walk m pt va) pe) pt va' d = Some x"
  have x: "table_at m pt va' d = Some x" using h lw(5)[of d va'] by simp
  have "x \<noteq> vi_page (vm_walk m pt va)" using pt_treeD(1)[OF tree _ _ x, of 3 va] t h(2) by auto
  then show "vm_set m (vm_walk m pt va) pe x (pageindex va' (3 - d)) AND PTE_P = 0 \<or> vm_table (vm_set m (vm_walk m pt va) pe x (pageindex va' (3 - d))) \<and>
      vm_set m (vm_walk m pt va) pe x (pageindex va' (3 - d)) AND 7 = 7"
    using u h(1,2) x by (simp add: vm_set_def user_links_def)
qed

section \<open>Addresses of a page\<close>

lemma page_bits: "page a = page b \<longleftrightarrow> (a XOR b) AND NOT 0xFFF = 0"
proof
  have m: "pageoffmask 0 = 0xFFF" by (simp add: pageoffmask_def)
  show "page a = page b \<Longrightarrow> (a XOR b) AND NOT 0xFFF = 0" using xor_mask_div[of a 0 b] by (simp add: page_def m)
  assume "(a XOR b) AND NOT 0xFFF = 0"
  then have b64: "\<forall>n. 12 \<le> n \<longrightarrow> n < 64 \<longrightarrow> bit a n = bit b n" using xor_mask_zero[of a b 0] by (simp add: m)
  have b: "bit a n = bit b n" if "12 \<le> n" for n
    using b64 that bit_imp_le_length[of a n] bit_imp_le_length[of b n] by (cases "n < 64") auto
  have "drop_bit 12 a = drop_bit 12 b" using b by (auto simp: bit_eq_iff bit_drop_bit_eq)
  then have "unat (drop_bit 12 a) = unat (drop_bit 12 b)" by simp
  then show "page a = page b" by (simp add: page_def drop_bit_eq_div unat_div_distrib)
qed

lemma page_pageindex:
  assumes "low a" "low b" "page a \<noteq> page b"
  shows "\<exists>j\<le>3. pageindex a j \<noteq> pageindex b j"
proof (rule ccontr)
  assume "\<not> (\<exists>j\<le>3. pageindex a j \<noteq> pageindex b j)"
  then have e: "\<And>j. j \<le> 3 \<Longrightarrow> pageindex a j = pageindex b j" by blast
  have "bit a n = bit b n" if n: "12 \<le> n" "n < 64" for n
  proof (cases "n < 48")
    case True
    define j where "j = (n - 12) div 9"
    have j: "j \<le> 3" "12 + j * 9 \<le> n" "n < 21 + j * 9" using n True unfolding j_def by auto
    show ?thesis using e[OF j(1)] j(2,3) unfolding pageindex_eq_iff[OF j(1)] by blast
  next
    case False
    have "\<not> bit x n" if "low x" for x :: u64
    proof
      assume "bit x n"
      then have "bit (unat x) n" using n by (simp add: bit_unsigned_iff)
      then have "2 ^ n \<le> unat x" by (simp add: bit_nat_def) (metis div_less even_zero not_le)
      moreover have "(2 :: nat) ^ 47 \<le> 2 ^ n" by (rule power_increasing) (use False in auto)
      ultimately show False using that by simp
    qed
    then show ?thesis using assms(1,2) by blast
  qed
  then have "(a XOR b) AND NOT (pageoffmask 0) = 0" unfolding xor_mask_zero by simp
  moreover have "pageoffmask 0 = 0xFFF" by (simp add: pageoffmask_def)
  ultimately show False using assms(3) page_bits by simp
qed


lemma and_split: "(a AND NOT k) + (a AND k) = a" for a k :: u64
proof -
  have "(a AND NOT k) + (a AND k) = (a AND NOT k) OR (a AND k)" by (rule disjunctive_add) (auto simp: bit_and_iff bit_not_iff)
  also have "\<dots> = a AND (NOT k OR k)" by (simp only: bit.conj_disj_distrib)
  finally show ?thesis by (simp only: bit.disj_cancel_left and.right_neutral)
qed

lemma xor_and_not: "(a XOR b) AND NOT k = 0 \<longleftrightarrow> a AND NOT k = b AND NOT k" for a b k :: u64
  by (auto simp: bit_eq_iff bit_and_iff bit_xor_iff bit_not_iff)

lemma page_and: "page a = page b \<longleftrightarrow> a AND NOT 0xFFF = b AND NOT 0xFFF"
  unfolding page_bits by (rule xor_and_not)

lemma page_diff: "page a = page b \<Longrightarrow> (b AND 0xFFF) - (a AND 0xFFF) = b - a"
  using and_split[of a "0xFFF"] and_split[of b "0xFFF"] unfolding page_and by (metis add_diff_cancel_left)

lemma page_mod: "unat (a AND 0xFFF) = unat a mod 4096" for a :: u64
proof -
  have "(0xFFF :: u64) = mask 12" by (simp add: mask_eq_exp_minus_1)
  then have "a AND 0xFFF = take_bit 12 a" by (simp add: take_bit_eq_mask)
  then show ?thesis by (simp add: take_bit_eq_mod unat_mod_distrib)
qed

lemma lookup_page:
  assumes u: "user_links m pt" and a: "low a" "vm_lookup m pt a = Some (pa, p)" and b: "page a = page b"
  shows "vm_lookup m pt b = Some (pa + (b - a), p)"
proof -
  let ?it = "vm_walk m pt a"
  have pr: "vm_present m ?it" and p: "vm_pa m ?it = pa" "vm_perm m ?it = p" using a(2) by (auto simp: vm_lookup_def Let_def split: if_splits)
  have l0: "vi_level ?it = 0" using links_walk(2)[OF u a(1)] pr by blast
  have m0: "pageoffmask 0 = 0xFFF" by (simp add: pageoffmask_def)
  have w: "vm_walk m pt b = ?it\<lparr>vi_va := b\<rparr>"
    by (rule vm_walk_region) (use b l0 m0 in \<open>simp add: page_bits\<close>)
  have e: "vm_entry m (?it\<lparr>vi_va := b\<rparr>) = vm_entry m ?it" by (simp add: vm_entry_def)
  have P: "vm_entry m ?it AND PTE_P \<noteq> 0" using pr by (simp add: vm_present_def)
  define c where "c = vm_entry m ?it AND PTE_PAMASK"
  have "pa = c + (a AND 0xFFF)" using p(1) P l0 by (simp add: vm_pa_def m0 c_def)
  moreover have "vm_pa m (?it\<lparr>vi_va := b\<rparr>) = c + (b AND 0xFFF)" using P l0 e by (simp add: vm_pa_def m0 c_def)
  ultimately have "vm_pa m (?it\<lparr>vi_va := b\<rparr>) = pa + (b - a)" using page_diff[OF b] by (simp add: algebra_simps)
  moreover have "vm_perm m (?it\<lparr>vi_va := b\<rparr>) = p" unfolding p(2)[symmetric] vm_perm_def e by simp
  ultimately show ?thesis using w pr e by (simp add: vm_lookup_def Let_def vm_present_def)
qed

lemma lookup_walk: "vm_lookup m pt a = Some (pa, p) \<Longrightarrow> vm_present m (vm_walk m pt a) \<and> vm_pa m (vm_walk m pt a) = pa"
  by (auto simp: vm_lookup_def Let_def split: if_splits)

text \<open>The physical page of a mapped address.\<close>

lemma pamask_low: "n AND PTE_PAMASK = n \<Longrightarrow> n AND 0xFFF = 0" for n :: u64
proof -
  assume n: "n AND PTE_PAMASK = n"
  show "n AND 0xFFF = 0" by (subst n[symmetric]) (simp add: and.assoc)
qed

section \<open>Mapping a page\<close>

lemma page_base:
  fixes pg b k :: u64
  assumes "pg AND k = 0"
  shows "(pg + (b AND k)) AND NOT k = pg" "(pg + (b AND k)) AND k = b AND k"
proof -
  have "\<not> bit (pg AND k) n" for n by (simp add: assms)
  then have d: "bit pg n \<Longrightarrow> bit k n \<Longrightarrow> False" for n by (simp add: bit_and_iff)
  have s: "pg + (b AND k) = pg OR (b AND k)" by (rule disjunctive_add) (use d in \<open>auto simp: bit_and_iff\<close>)
  show "(pg + (b AND k)) AND NOT k = pg" "(pg + (b AND k)) AND k = b AND k"
    unfolding s by (rule bit_eqI, use d in \<open>auto simp: bit_and_iff bit_or_iff bit_not_iff\<close>)+
qed

text \<open>What a new page leaves of the mapping: the page of \<open>va\<close> is at \<open>pg\<close>, everything else is as before.\<close>

definition remapped :: "ptmem \<Rightarrow> ptmem \<Rightarrow> u64 \<Rightarrow> u64 \<Rightarrow> u64 \<Rightarrow> bool" where
  "remapped m m' pt va pg \<longleftrightarrow> (\<forall>a. low a \<longrightarrow> page a \<noteq> page va \<longrightarrow> vm_lookup m' pt a = vm_lookup m pt a)
     \<and> (\<forall>a. low a \<longrightarrow> page a = page va \<longrightarrow> (\<exists>p. vm_lookup m' pt a = Some (pg + (a AND 0xFFF), p) \<and> p AND 7 = 7))"

lemma remapped_paddr:
  assumes "remapped m m' pt va pg" "low a"
  shows "paddr m' pt a = (if page a = page va then Some (pg + (a AND 0xFFF)) else paddr m pt a)"
  using assms unfolding remapped_def paddr_def by (cases "page a = page va") auto

lemma remapped_inj:
  assumes r: "remapped m m' pt va pg" and u: "unmapped m pt pg" and inj: "\<forall>a b pa. low a \<longrightarrow> low b \<longrightarrow> paddr m pt a = Some pa \<longrightarrow> paddr m pt b = Some pa \<longrightarrow> a = b"
    and ab: "low a" "low b" "paddr m' pt a = Some pa" "paddr m' pt b = Some pa"
  shows "a = b"
proof -
  have pg: "pg AND 0xFFF = 0" using u pamask_low by (simp add: unmapped_def)
  note P = remapped_paddr[OF r ab(1)] remapped_paddr[OF r ab(2)]
  have no: False if "paddr m pt x = Some (pg + (y AND 0xFFF))" "low x" for x y
    using u that page_base(1)[OF pg, of y] unfolding unmapped_def by blast
  show ?thesis
  proof (cases "page a = page va"; cases "page b = page va")
    assume h: "page a = page va" "page b = page va"
    then have "a AND 0xFFF = b AND 0xFFF" using P ab(3,4) by simp
    moreover have "a AND NOT 0xFFF = b AND NOT 0xFFF" using h page_and[of a b] by simp
    ultimately show "a = b" using and_split[of a "0xFFF"] and_split[of b "0xFFF"] by metis
  next
    assume "page a = page va" "page b \<noteq> page va"
    then show "a = b" using P ab no[of b a] by simp
  next
    assume "page a \<noteq> page va" "page b = page va"
    then show "a = b" using P ab no[of a b] by simp
  next
    assume "page a \<noteq> page va" "page b \<noteq> page va"
    then have "paddr m pt a = Some pa" "paddr m pt b = Some pa" using P ab(3,4) by simp_all
    then show "a = b" using inj ab(1,2) by blast
  qed
qed

lemma remapped_unmapped:
  assumes r: "remapped m m' pt va pg" and pg: "pg AND 0xFFF = 0" and n: "unmapped m pt n" "n \<noteq> pg"
  shows "unmapped m' pt n"
  unfolding unmapped_def
proof (intro conjI allI impI)
  fix a pa assume a: "low a" "paddr m' pt a = Some pa"
  show "pa AND NOT 0xFFF \<noteq> n"
  proof (cases "page a = page va")
    case True
    then have "pa = pg + (a AND 0xFFF)" using remapped_paddr[OF r a(1)] a(2) by simp
    then show ?thesis using page_base(1)[OF pg, of a] n(2) by simp
  next
    case False
    then show ?thesis using remapped_paddr[OF r a(1)] a n(1) unfolding unmapped_def by simp
  qed
qed (use n in \<open>simp add: unmapped_def\<close>)

lemma aspaceD:
  assumes "aspace m pt"
  shows "pt_tree m pt" "user_links m pt" "low a \<Longrightarrow> low b \<Longrightarrow> paddr m pt a = Some pa \<Longrightarrow> paddr m pt b = Some pa \<Longrightarrow> a = b"
  using assms unfolding aspace_def by blast+

lemma lookup_eq_paddr: "\<forall>a. vm_lookup m' pt a = vm_lookup m pt a \<Longrightarrow> paddr m' pt = paddr m pt"
  by (auto simp: paddr_def fun_eq_iff)

lemma leaf_remapped:
  assumes tree: "pt_tree m pt" and l0: "vi_level (vm_walk m pt va) = 0" and u: "user_links m pt" and va: "low va" "va AND 0xFFF = 0" and pg: "pg AND PTE_PAMASK = pg"
    and q: "7 AND NOT (vi_perm (vm_walk m pt va)) AND 7 = 0"
  defines "m' \<equiv> vm_set m (vm_walk m pt va) (pg OR 7)"
  shows "remapped m m' pt va pg" "user_links m' pt" "pt_tree m' pt" "vm_walk m' pt va = vm_walk m pt va"
proof -
  note lw = leaf_write[OF tree l0, where pe = "pg OR 7", folded m'_def]
  show u': "user_links m' pt" unfolding m'_def by (rule links_leaf[OF tree l0 u])
  show "pt_tree m' pt" "vm_walk m' pt va = vm_walk m pt va" by (fact lw)+
  have "\<exists>p. vm_lookup m' pt va = Some (pg, p) \<and> p AND 7 = 7 AND 7"
    by (rule lookup_mapped[OF lw(2) l0 lw(3) _ va(2) pg]) (use q in simp_all)
  then obtain p where p: "vm_lookup m' pt va = Some (pg, p)" "p AND 7 = 7" by auto
  have "\<exists>p. vm_lookup m' pt a = Some (pg + (a AND 0xFFF), p) \<and> p AND 7 = 7" if "page a = page va" for a
  proof -
    have "a - va = a AND 0xFFF" using page_diff[of va a] that va(2) by simp
    then show ?thesis using lookup_page[OF u' va(1) p(1), of a] that p(2) by simp
  qed
  moreover have "vm_lookup m' pt a = vm_lookup m pt a" if "low a" "page a \<noteq> page va" for a
    by (rule lw(4)) (use page_pageindex[OF va(1) that(1)] that(2) in auto)
  ultimately show "remapped m m' pt va pg" unfolding remapped_def by blast
qed

lemma leaf_fresh:
  assumes "pt_tree m pt" "vi_level (vm_walk m pt va) = 0" "pt_fresh m pt n"
  shows "pt_fresh (vm_set m (vm_walk m pt va) pe) pt n"
  using assms(3) leaf_write(5)[OF assms(1,2), where pe = pe] by (simp add: pt_fresh_def)

lemma aspace_map:
  assumes sp: "aspace m pt" and va: "low va" "va AND 0xFFF = 0" and al: "allocs_ok m pt tabs" and pg: "unmapped m pt pg"
  obtains m' r where "vm_map tabs m (vm_walk m pt va) pg 7 = Inr (m', vm_walk m' pt va, r)" "aspace m' pt"
    "if vi_level (vm_walk m pt va) \<le> length (takeWhile (\<lambda>a. a \<noteq> None) tabs) then r = 0 \<and> remapped m m' pt va pg else r = - 1 \<and> (\<forall>a. vm_lookup m' pt a = vm_lookup m pt a)"
    "\<forall>n. pt_fresh m pt n \<longrightarrow> Some n \<notin> set tabs \<longrightarrow> pt_fresh m' pt n"
proof -
  note S = aspaceD[OF sp]
  have w: "vi_perm (vm_walk m pt va) AND 7 = 7" "vi_level (vm_walk m pt va) > 0 \<longrightarrow> \<not> vm_present m (vm_walk m pt va)" by (rule links_walk[OF S(2) va(1)])+
  have pm: "pg AND PTE_PAMASK = pg" using pg by (simp add: unmapped_def)
  have "7 AND NOT (vi_perm (vm_walk m pt va)) AND 7 = 7 AND NOT (vi_perm (vm_walk m pt va) AND 7)" by (simp add: bit.conj_disj_distrib bit.de_Morgan_conj ac_simps)
  then have q: "7 AND NOT (vi_perm (vm_walk m pt va)) AND 7 = 0" unfolding w(1) by simp
  let ?I = "\<lambda>k. user_links k pt \<and> (\<forall>n. pt_fresh m pt n \<longrightarrow> Some n \<notin> set tabs \<longrightarrow> pt_fresh k pt n)"
  have step: "\<forall>k d t n. ?I k \<longrightarrow> pt_insert k pt va d t n \<longrightarrow> Some n \<in> set tabs \<longrightarrow> ?I (pt_new k va d t n)"
    using links_insert insert_fresh by metis
  have I0: "?I m" using S(2) by blast
  have one: "(7 :: u64) AND PTE_P \<noteq> 0" by simp
  obtain m1 ok where r: "pt_tree m1 pt" "\<forall>va'. vm_lookup m1 pt va' = vm_lookup m pt va'" "ok \<longleftrightarrow> vi_level (vm_walk m1 pt va) = 0"
    "ok \<longleftrightarrow> vi_level (vm_walk m pt va) \<le> length (takeWhile (\<lambda>a. a \<noteq> None) tabs)" "7 AND NOT (vi_perm (vm_walk m1 pt va)) AND 7 = 0" "?I m1"
    "vm_map tabs m (vm_walk m pt va) pg 7 = (if \<not> ok then Inr (m1, vm_walk m1 pt va, - 1) else Inr (vm_set m1 (vm_walk m1 pt va) (pg OR 7), vm_walk m1 pt va, 0))"
    by (rule vm_map_run[where I = ?I, OF S(1) al va(2) pm one q w(2) I0 step])
  have p1: "paddr m1 pt = paddr m pt" by (rule lookup_eq_paddr[OF r(2)])
  show ?thesis
  proof (cases ok)
    case False
    have "aspace m1 pt" using r(1,6) S(3) unfolding aspace_def p1 by blast
    then show ?thesis by (rule that[of m1 "- 1", rotated]) (use False r in simp_all)
  next
    case True
    let ?m = "vm_set m1 (vm_walk m1 pt va) (pg OR 7)"
    have l0: "vi_level (vm_walk m1 pt va) = 0" using r(3) True by simp
    have u1: "user_links m1 pt" using r(6) by blast
    note L = leaf_remapped[OF r(1) l0 u1 va pm r(5)]
    have rm: "remapped m ?m pt va pg" using L(1) r(2) unfolding remapped_def by simp
    have "aspace ?m pt" unfolding aspace_def using L(2,3) remapped_inj[OF rm pg] S(3) by blast
    moreover have "\<forall>n. pt_fresh m pt n \<longrightarrow> Some n \<notin> set tabs \<longrightarrow> pt_fresh ?m pt n" using r(6) leaf_fresh[OF r(1) l0] by blast
    moreover have "vm_map tabs m (vm_walk m pt va) pg 7 = Inr (?m, vm_walk ?m pt va, 0)" using r(7) True L(4) by simp
    ultimately show ?thesis using that[of ?m 0] True r(4) rm by simp
  qed
qed

end
