(* ===== verification/Chkfs.thy ===== *)
theory Chkfs
  imports Kernel_Prelude
begin

text \<open>
  Files of ChickadeeFS: the layout of \<open>chickadeefs.hh\<close>, the block map and the block allocator of \<open>k-chkfs.cc\<close>, the file iterator of
  \<open>k-chkfsiter.cc\<close>, and reading and writing of \<open>k-vfs.cc\<close>.  A block is the 4096 bytes that the buffer cache holds for it, and inodes
  are given by their fields.  \<open>fs_room\<close> says for which blocks the cache has room: \<open>get_disk_entry\<close> returns a null pointer for the others, which \<open>disk_entry\<close> states.
  The functions run under the lock of the inode, so each is one step; the references and write claims that they take on cache entries in between are not part
  of the state.
\<close>

section \<open>Layout\<close>

abbreviation ndirect :: nat where "ndirect \<equiv> 9"
abbreviation nindirect :: nat where "nindirect \<equiv> 1024"
abbreviation inodesperblock :: nat where "inodesperblock \<equiv> 64"
abbreviation maxdirectsize :: nat where "maxdirectsize \<equiv> ndirect * blocksize"
abbreviation chkfs_maxsize :: nat where "chkfs_maxsize \<equiv> (ndirect + nindirect + nindirect * nindirect) * blocksize"

abbreviation E_FBIG :: int where "E_FBIG \<equiv> - 27"
abbreviation E_NOSPC :: int where "E_NOSPC \<equiv> - 28"
abbreviation E_MINERROR :: int where "E_MINERROR \<equiv> - 100"

record superblock =
  sb_magic :: u64
  sb_nblocks :: u32
  sb_nswap :: u32
  sb_ninodes :: int
  sb_njournal :: u32
  sb_swap_bn :: u32
  sb_fbb_bn :: u32
  sb_inode_bn :: u32
  sb_data_bn :: u32
  sb_journal_bn :: u32

record inode =
  ino_type :: u32
  ino_size :: u32
  ino_nlink :: u32
  ino_mlock :: u32
  ino_mref :: u32
  ino_direct :: "u32 list"
  ino_indirect :: u32
  ino_indirect2 :: u32

record chkfs =
  fs_sb :: superblock
  fs_inode :: "nat \<Rightarrow> inode"
  fs_block :: "u32 \<Rightarrow> u8 list"
  fs_room :: "u32 \<Rightarrow> bool"

text \<open>The block numbers in a pointer block, least significant byte first.\<close>

definition ptr_at :: "u8 list \<Rightarrow> nat \<Rightarrow> u32" where
  "ptr_at b i = ucast (b ! (4 * i)) OR push_bit 8 (ucast (b ! (4 * i + 1))) OR push_bit 16 (ucast (b ! (4 * i + 2))) OR push_bit 24 (ucast (b ! (4 * i + 3)))"

definition set_ptr :: "u8 list \<Rightarrow> nat \<Rightarrow> u32 \<Rightarrow> u8 list" where
  "set_ptr b i v = b[4 * i := ucast v, 4 * i + 1 := ucast (drop_bit 8 v), 4 * i + 2 := ucast (drop_bit 16 v), 4 * i + 3 := ucast (drop_bit 24 v)]"

definition set_inode :: "chkfs \<Rightarrow> nat \<Rightarrow> (inode \<Rightarrow> inode) \<Rightarrow> chkfs" where
  "set_inode fs n f = fs\<lparr>fs_inode := (fs_inode fs)(n := f (fs_inode fs n))\<rparr>"

definition set_block :: "chkfs \<Rightarrow> u32 \<Rightarrow> u8 list \<Rightarrow> chkfs" where
  "set_block fs bn b = fs\<lparr>fs_block := (fs_block fs)(bn := b)\<rparr>"

definition disk_entry :: "chkfs \<Rightarrow> u32 \<Rightarrow> u32 option" where
  "disk_entry fs bn = (if fs_room fs bn then Some bn else None)"

text \<open>The places where block numbers stand: the inode, or a pointer block in the cache.\<close>

datatype loc = L_direct nat | L_indirect | L_word u32 nat

definition read_loc :: "chkfs \<Rightarrow> nat \<Rightarrow> loc \<Rightarrow> u32 res" where
  "read_loc fs n l =
     (case l of
        L_direct i \<Rightarrow> if i < ndirect then Inr (ino_direct (fs_inode fs n) ! i) else Inl Out_Of_Bounds
      | L_indirect \<Rightarrow> Inr (ino_indirect (fs_inode fs n))
      | L_word e i \<Rightarrow> if i < nindirect then Inr (ptr_at (fs_block fs e) i) else Inl Out_Of_Bounds)"

definition write_loc :: "chkfs \<Rightarrow> nat \<Rightarrow> loc \<Rightarrow> u32 \<Rightarrow> chkfs res" where
  "write_loc fs n l v =
     (case l of
        L_direct i \<Rightarrow> if i < ndirect then Inr (set_inode fs n (\<lambda>ino. ino\<lparr>ino_direct := (ino_direct ino)[i := v]\<rparr>)) else Inl Out_Of_Bounds
      | L_indirect \<Rightarrow> Inr (set_inode fs n (\<lambda>ino. ino\<lparr>ino_indirect := v\<rparr>))
      | L_word e i \<Rightarrow> if i < nindirect then Inr (set_block fs e (set_ptr (fs_block fs e) i v)) else Inl Out_Of_Bounds)"

definition bi_direct_index :: "nat \<Rightarrow> nat res" where
  "bi_direct_index bi = assert_then (bi < chkfs_maxsize div blocksize) (Inr (if bi < ndirect then bi else (bi - ndirect) mod nindirect))"

definition bi_indirect_index :: "nat \<Rightarrow> nat res" where
  "bi_indirect_index bi = assert_then (ndirect + nindirect \<le> bi \<and> bi < chkfs_maxsize div blocksize) (Inr ((bi - ndirect - nindirect) div nindirect))"

section \<open>The block map\<close>

text \<open>\<open>get_data_block\<close>: the number of the data block that it loads.\<close>

definition get_data_block :: "chkfs \<Rightarrow> nat \<Rightarrow> nat \<Rightarrow> u32 option res" where
  "get_data_block fs n off =
     assert_then (off mod blocksize = 0)
      (let ino = fs_inode fs n; bi = off div blocksize mod 2 ^ 32;
           nonnull = (\<lambda>b. if b \<noteq> 0 then disk_entry fs b else None)
       in rbind (if ndirect + nindirect \<le> bi
                 then (case nonnull (ino_indirect2 ino) of
                         None \<Rightarrow> Inr (Inl ())
                       | Some i2e \<Rightarrow> rbind (bi_indirect_index bi) (\<lambda>k. Inr (Inr (Some (L_word i2e k)))))
                 else if ndirect \<le> bi then Inr (Inr (Some L_indirect)) else Inr (Inr None)) (\<lambda>r.
          case r of
            Inl _ \<Rightarrow> Inr None
          | Inr iptr \<Rightarrow>
              rbind (case iptr of
                       Some l \<Rightarrow> rbind (read_loc fs n l) (\<lambda>v.
                         case nonnull v of
                           None \<Rightarrow> Inr None
                         | Some ie \<Rightarrow> rbind (bi_direct_index bi) (\<lambda>k. Inr (Some (L_word ie k))))
                     | None \<Rightarrow> rbind (bi_direct_index bi) (\<lambda>k. Inr (Some (L_direct k)))) (\<lambda>d.
                case d of None \<Rightarrow> Inr None | Some l \<Rightarrow> rbind (read_loc fs n l) (\<lambda>v. Inr (nonnull v)))))"

section \<open>Free blocks\<close>

text \<open>\<open>allocate_block\<close>: the loop over the free-block bitmap, from block \<open>bn\<close> on; the bitmap is in one block.\<close>

function fbb_search :: "u8 list \<Rightarrow> nat \<Rightarrow> nat \<Rightarrow> nat res" where
  "fbb_search fbb bn nblocks =
     (if bn < nblocks
      then if bn div 8 < length fbb
           then if bit (fbb ! (bn div 8)) (bn mod 8) then Inr bn else fbb_search fbb (bn + 1) nblocks
           else Inl Out_Of_Bounds
      else Inr bn)"
  by pat_completeness auto
termination
  by (relation "measure (\<lambda>(_, bn, n). n - bn)") auto

declare fbb_search.simps [simp del]

definition allocate_block :: "chkfs \<Rightarrow> (chkfs \<times> u32) res" where
  "allocate_block fs =
     assert_then (disk_entry fs 0 \<noteq> None)
      (case disk_entry fs (sb_fbb_bn (fs_sb fs)) of
         None \<Rightarrow> Inl Null_Deref
       | Some e \<Rightarrow>
           let fbb = fs_block fs e; nblocks = unat (sb_nblocks (fs_sb fs))
           in rbind (fbb_search fbb 0 nblocks) (\<lambda>bn.
                if bn < nblocks
                then Inr (set_block fs e (fbb[bn div 8 := unset_bit (bn mod 8) (fbb ! (bn div 8))]), word_of_nat bn)
                else Inr (fs, word_of_int E_NOSPC)))"

definition is_error_bn :: "u32 \<Rightarrow> bool" where
  "is_error_bn bn \<longleftrightarrow> bn \<ge> word_of_int E_MINERROR"

definition allocate_metablock_entry :: "chkfs \<Rightarrow> (chkfs \<times> u32 \<times> u32 option) res" where
  "allocate_metablock_entry fs =
     rbind (allocate_block fs) (\<lambda>(fs1, new_bn).
       if is_error_bn new_bn then Inr (fs1, new_bn, None)
       else case disk_entry fs1 new_bn of
              None \<Rightarrow> Inr (fs1, word_of_int E_NOMEM, None)
            | Some e \<Rightarrow> Inr (set_block fs1 e (replicate blocksize 0), new_bn, Some e))"

section \<open>The file iterator\<close>

record fileiter =
  it_off :: nat
  it_dptr :: "loc option"
  it_indirect2 :: "u32 option"
  it_indirect :: "u32 option"

definition iclass :: "nat \<Rightarrow> nat" where
  "iclass bi = (bi + nindirect - ndirect) div nindirect"

definition get_iptr :: "fileiter \<Rightarrow> nat \<Rightarrow> loc res" where
  "get_iptr it bi =
     (let bi_ix = iclass bi
      in if bi_ix > 1 then (case it_indirect2 it of None \<Rightarrow> Inl Null_Deref | Some e \<Rightarrow> Inr (L_word e (bi_ix - 2)))
         else if bi_ix > 0 then Inr L_indirect else Inl Null_Deref)"

definition get_dptr :: "fileiter \<Rightarrow> nat \<Rightarrow> loc res" where
  "get_dptr it bi =
     (if ndirect \<le> bi
      then (case it_indirect it of None \<Rightarrow> Inl Null_Deref | Some e \<Rightarrow> rbind (bi_direct_index bi) (\<lambda>k. Inr (L_word e k)))
      else Inr (L_direct bi))"

definition fileiter_new :: fileiter where
  "fileiter_new = \<lparr>it_off = 0, it_dptr = Some (L_direct 0), it_indirect2 = None, it_indirect = None\<rparr>"

definition it_blocknum :: "chkfs \<Rightarrow> nat \<Rightarrow> fileiter \<Rightarrow> u32 res" where
  "it_blocknum fs n it = (case it_dptr it of None \<Rightarrow> Inr 0 | Some l \<Rightarrow> read_loc fs n l)"

definition it_present :: "chkfs \<Rightarrow> nat \<Rightarrow> fileiter \<Rightarrow> bool res" where
  "it_present fs n it = (case it_dptr it of None \<Rightarrow> Inr False | Some l \<Rightarrow> rbind (read_loc fs n l) (\<lambda>v. Inr (v \<noteq> 0)))"

definition it_active :: "fileiter \<Rightarrow> bool" where
  "it_active it \<longleftrightarrow> it_off it < chkfs_maxsize"

definition fileiter_find :: "chkfs \<Rightarrow> nat \<Rightarrow> fileiter \<Rightarrow> nat \<Rightarrow> fileiter res" where
  "fileiter_find fs n it off =
     (let bi = min off chkfs_maxsize div blocksize;
          it1 = it\<lparr>it_indirect := (if it_indirect it \<noteq> None \<and> iclass bi \<noteq> iclass (it_off it div blocksize mod 2 ^ 32) then None else it_indirect it),
                   it_off := off, it_dptr := None\<rparr>;
          nonnull = (\<lambda>b. if b \<noteq> 0 then disk_entry fs b else None);
          it2 = (if ndirect + nindirect \<le> bi \<and> it_indirect2 it1 = None
                 then it1\<lparr>it_indirect2 := nonnull (ino_indirect2 (fs_inode fs n))\<rparr> else it1)
      in if ndirect + nindirect \<le> bi \<and> it_indirect2 it2 = None then Inr it2
         else rbind (if ndirect \<le> bi \<and> it_indirect it2 = None
                     then rbind (get_iptr it2 bi) (\<lambda>l. rbind (read_loc fs n l) (\<lambda>v. Inr (it2\<lparr>it_indirect := nonnull v\<rparr>)))
                     else Inr it2) (\<lambda>it3.
                if ndirect \<le> bi \<and> it_indirect it3 = None then Inr it3
                else rbind (get_dptr it3 bi) (\<lambda>d. Inr (it3\<lparr>it_dptr := Some d\<rparr>))))"

primrec fileiter_next :: "nat \<Rightarrow> chkfs \<Rightarrow> nat \<Rightarrow> fileiter \<Rightarrow> fileiter res" where
  "fileiter_next 0 fs n it = Inl No_Return"
| "fileiter_next (Suc fuel) fs n it =
     rbind (if it_off it < chkfs_maxsize then fileiter_find fs n it ((it_off it + 1 + (blocksize - 1)) div blocksize * blocksize) else Inr it) (\<lambda>it1.
     rbind (it_present fs n it1) (\<lambda>present.
       if present \<or> \<not> it_active it1 then Inr it1
       else let biclass = iclass (it_off it1 div blocksize mod 2 ^ 32)
            in fileiter_next fuel fs n
                 (if biclass > 1 \<and> it_indirect2 it1 = None then it1\<lparr>it_off := chkfs_maxsize - 1\<rparr>
                  else if biclass > 0 \<and> it_indirect it1 = None then it1\<lparr>it_off := biclass * nindirect * blocksize + maxdirectsize - 1\<rparr>
                  else it1)))"

text \<open>
  \<open>map\<close>: the two steps that allocate missing pointer blocks return the error number, if any, and the last one stores the block number.
\<close>

definition map_indirect2 :: "chkfs \<Rightarrow> nat \<Rightarrow> fileiter \<Rightarrow> nat \<Rightarrow> (chkfs \<times> fileiter \<times> int option) res" where
  "map_indirect2 fs n it bi =
     (if ndirect + nindirect \<le> bi \<and> it_indirect2 it = None
      then rbind (allocate_metablock_entry fs) (\<lambda>(fs1, i2bn, e).
             if is_error_bn i2bn then Inr (fs1, it\<lparr>it_indirect2 := e\<rparr>, Some (sint i2bn))
             else Inr (set_inode fs1 n (\<lambda>ino. ino\<lparr>ino_indirect2 := i2bn\<rparr>), it\<lparr>it_indirect2 := e\<rparr>, None))
      else Inr (fs, it, None))"

definition map_indirect :: "chkfs \<Rightarrow> nat \<Rightarrow> fileiter \<Rightarrow> nat \<Rightarrow> (chkfs \<times> fileiter \<times> int option) res" where
  "map_indirect fs n it bi =
     (if ndirect \<le> bi \<and> it_indirect it = None
      then rbind (allocate_metablock_entry fs) (\<lambda>(fs1, ibn, e).
             if is_error_bn ibn then Inr (fs1, it\<lparr>it_indirect := e\<rparr>, Some (sint ibn))
             else rbind (get_iptr (it\<lparr>it_indirect := e\<rparr>) bi) (\<lambda>l.
                  rbind (write_loc fs1 n l ibn) (\<lambda>fs2. Inr (fs2, it\<lparr>it_indirect := e\<rparr>, None))))
      else Inr (fs, it, None))"

definition fileiter_map :: "chkfs \<Rightarrow> nat \<Rightarrow> fileiter \<Rightarrow> u32 \<Rightarrow> (chkfs \<times> fileiter \<times> int) res" where
  "fileiter_map fs n it bn =
     assert_then (ino_mlock (fs_inode fs n) = - 1)
      (let bi = it_off it div blocksize mod 2 ^ 32
       in if bn = 0 \<and> it_dptr it = None then Inr (fs, it, 0)
          else if it_off it \<ge> chkfs_maxsize then Inr (fs, it, E_FBIG)
          else rbind (map_indirect2 fs n it bi) (\<lambda>(fs1, it1, err1).
            case err1 of
              Some r \<Rightarrow> Inr (fs1, it1, r)
            | None \<Rightarrow> rbind (map_indirect fs1 n it1 bi) (\<lambda>(fs2, it2, err2).
                case err2 of
                  Some r \<Rightarrow> Inr (fs2, it2, r)
                | None \<Rightarrow> rbind (get_dptr it2 bi) (\<lambda>d. rbind (write_loc fs2 n d bn) (\<lambda>fs3. Inr (fs3, it2\<lparr>it_dptr := Some d\<rparr>, 0))))))"

section \<open>Reading and writing\<close>

text \<open>\<open>vnode_inode::read\<close>: each turn copies a part of one block; the result is the bytes read and the new offset.\<close>

primrec inode_read_loop :: "nat \<Rightarrow> chkfs \<Rightarrow> nat \<Rightarrow> nat \<Rightarrow> nat \<Rightarrow> u8 list \<Rightarrow> (u8 list \<times> nat) res" where
  "inode_read_loop 0 fs n sz off out = (if sz = 0 then Inr (out, off) else Inl No_Return)"
| "inode_read_loop (Suc fuel) fs n sz off out =
     (if sz = 0 then Inr (out, off)
      else let blockoff = off div blocksize * blocksize
           in rbind (get_data_block fs n blockoff) (\<lambda>d.
                case d of
                  None \<Rightarrow> Inr (out, off)
                | Some bn \<Rightarrow>
                    let ncopy1 = (if (off + sz) mod 2 ^ 64 > blockoff + blocksize then blocksize - off mod blocksize else sz);
                        left = (unat (ino_size (fs_inode fs n)) + 2 ^ 64 - off) mod 2 ^ 64;
                        ncopy = (if ncopy1 > left then left else ncopy1)
                    in if ncopy = 0 then Inr (out, off)
                       else if off - blockoff + ncopy > blocksize then Inl Out_Of_Bounds
                       else inode_read_loop fuel fs n (sz - ncopy) (off + ncopy) (out @ take ncopy (drop (off - blockoff) (fs_block fs bn)))))"

definition inode_read :: "chkfs \<Rightarrow> nat \<Rightarrow> nat \<Rightarrow> nat \<Rightarrow> (u8 list \<times> nat) res" where
  "inode_read fs n sz off = inode_read_loop (Suc sz) fs n sz off []"

text \<open>\<open>memcpy\<close> into a block.\<close>

definition copy_into :: "u8 list \<Rightarrow> nat \<Rightarrow> u8 list \<Rightarrow> u8 list" where
  "copy_into b pos data = take pos b @ data @ drop (pos + length data) b"

text \<open>The step of \<open>vnode_inode::write\<close> that allocates the next block of the file.\<close>

definition write_extend :: "chkfs \<Rightarrow> nat \<Rightarrow> fileiter \<Rightarrow> nat \<Rightarrow> (chkfs \<times> fileiter) res" where
  "write_extend fs n it block_end =
     rbind (get_data_block fs n block_end) (\<lambda>d.
       case d of
         Some _ \<Rightarrow> Inr (fs, it)
       | None \<Rightarrow>
           rbind (fileiter_find fs n it block_end) (\<lambda>it1.
           rbind (allocate_block fs) (\<lambda>(fs1, new_b).
             assert_then (new_b \<noteq> word_of_int E_NOSPC)
               (rbind (fileiter_map fs1 n it1 new_b) (\<lambda>(fs2, it2, r). assert_then (r = 0) (Inr (fs2, it2)))))))"

primrec inode_write_loop :: "nat \<Rightarrow> chkfs \<Rightarrow> nat \<Rightarrow> fileiter \<Rightarrow> u8 list \<Rightarrow> nat \<Rightarrow> nat \<Rightarrow> (chkfs \<times> nat \<times> nat) res" where
  "inode_write_loop 0 fs n it data off nwritten = (if data = [] then Inr (fs, off, nwritten) else Inl No_Return)"
| "inode_write_loop (Suc fuel) fs n it data off nwritten =
     (if data = [] then Inr (fs, off, nwritten)
      else let blockoff = off div blocksize * blocksize
           in rbind (get_data_block fs n blockoff) (\<lambda>d.
                case d of
                  None \<Rightarrow> Inr (fs, off, nwritten)
                | Some bn \<Rightarrow>
                    let block_end = blockoff + blocksize; crosses = (off + length data) mod 2 ^ 64 > block_end;
                        ncopy = (if crosses then blocksize - off mod blocksize else length data)
                    in rbind (if crosses then write_extend fs n it block_end else Inr (fs, it)) (\<lambda>(fs1, it1).
                         if off - blockoff + ncopy > blocksize then Inl Out_Of_Bounds
                         else let fs2 = set_block fs1 bn (copy_into (fs_block fs1 bn) (off - blockoff) (take ncopy data));
                             off' = off + ncopy;
                             fs3 = (if off' > unat (ino_size (fs_inode fs2 n)) then set_inode fs2 n (\<lambda>ino. ino\<lparr>ino_size := word_of_nat off'\<rparr>) else fs2)
                         in inode_write_loop fuel fs3 n it1 (drop ncopy data) off' (nwritten + ncopy))))"

text \<open>\<open>lock_write\<close> is reached with the lock free, and sets it to -1.\<close>

definition inode_write :: "chkfs \<Rightarrow> nat \<Rightarrow> u8 list \<Rightarrow> nat \<Rightarrow> (chkfs \<times> nat \<times> nat) res" where
  "inode_write fs n data off =
     (let fs0 = set_inode fs n (\<lambda>ino. ino\<lparr>ino_mlock := - 1\<rparr>)
      in rbind (inode_write_loop (Suc (length data)) fs0 n fileiter_new data off 0) (\<lambda>(fs1, off', nwritten).
           assert_then (ino_mlock (fs_inode fs1 n) = - 1)
             (Inr (set_inode fs1 n (\<lambda>ino. ino\<lparr>ino_mlock := 0\<rparr>), off', nwritten))))"

end
