(* ===== verification/Chkfs_Dir.thy ===== *)
theory Chkfs_Dir
  imports Chkfs
begin

text \<open>
  Files by name: inodes and their locks, directories, the search for free inodes and directory entries (\<open>k-chkfs.cc\<close>), and the part of \<open>SYSCALL_OPEN\<close> that finds or
  creates the inode (\<open>kernel.cc\<close>).  A path is its bytes without the final zero.  The state is that of \<open>Chkfs\<close>; a lock that is not free makes the caller wait for another process,
  so that the call does not return within this step.
\<close>

abbreviation direntsize :: nat where "direntsize \<equiv> 128"
abbreviation maxnamelen :: nat where "maxnamelen \<equiv> 123"
abbreviation type_regular :: u32 where "type_regular \<equiv> 1"
abbreviation OF_WRITE :: u32 where "OF_WRITE \<equiv> 2"
abbreviation OF_CREATE :: u32 where "OF_CREATE \<equiv> 4"
abbreviation OF_TRUNC :: u32 where "OF_TRUNC \<equiv> 8"

section \<open>Locks\<close>

definition lock_read :: "chkfs \<Rightarrow> nat \<Rightarrow> chkfs res" where
  "lock_read fs n =
     (if ino_mlock (fs_inode fs n) = - 1 then Inl No_Return else Inr (set_inode fs n (\<lambda>ino. ino\<lparr>ino_mlock := ino_mlock ino + 1\<rparr>)))"

definition unlock_read :: "chkfs \<Rightarrow> nat \<Rightarrow> chkfs res" where
  "unlock_read fs n =
     assert_then (ino_mlock (fs_inode fs n) \<noteq> 0 \<and> ino_mlock (fs_inode fs n) \<noteq> - 1)
       (Inr (set_inode fs n (\<lambda>ino. ino\<lparr>ino_mlock := ino_mlock ino - 1\<rparr>)))"

definition has_write_lock :: "chkfs \<Rightarrow> nat \<Rightarrow> bool" where
  "has_write_lock fs n \<longleftrightarrow> ino_mlock (fs_inode fs n) = - 1"

definition lock_write :: "chkfs \<Rightarrow> nat \<Rightarrow> chkfs res" where
  "lock_write fs n =
     (if ino_mlock (fs_inode fs n) = 0 then Inr (set_inode fs n (\<lambda>ino. ino\<lparr>ino_mlock := - 1\<rparr>)) else Inl No_Return)"

definition unlock_write :: "chkfs \<Rightarrow> nat \<Rightarrow> chkfs res" where
  "unlock_write fs n = assert_then (has_write_lock fs n) (Inr (set_inode fs n (\<lambda>ino. ino\<lparr>ino_mlock := 0\<rparr>)))"

section \<open>Inodes\<close>

definition inode_block :: "chkfs \<Rightarrow> int \<Rightarrow> u32" where
  "inode_block fs inum = sb_inode_bn (fs_sb fs) + word_of_int (inum div int inodesperblock)"

definition get_inode :: "chkfs \<Rightarrow> int \<Rightarrow> (chkfs \<times> nat option) res" where
  "get_inode fs inum =
     assert_then (disk_entry fs 0 \<noteq> None)
      (if 0 < inum \<and> inum < sb_ninodes (fs_sb fs) \<and> disk_entry fs (inode_block fs inum) \<noteq> None
       then Inr (set_inode fs (nat inum) (\<lambda>ino. ino\<lparr>ino_mref := ino_mref ino + 1\<rparr>), Some (nat inum))
       else Inr (fs, None))"

definition put_inode :: "chkfs \<Rightarrow> nat \<Rightarrow> chkfs" where
  "put_inode fs n = set_inode fs n (\<lambda>ino. ino\<lparr>ino_mref := ino_mref ino - 1\<rparr>)"

text \<open>\<open>find_empty_inode\<close>: inode 0 is not used and inode 1 is the root directory; 0 is returned when there is no empty inode.\<close>

function empty_inode_loop :: "chkfs \<Rightarrow> nat \<Rightarrow> nat \<Rightarrow> nat res" where
  "empty_inode_loop fs inum ninodes =
     (if inum < ninodes
      then if inum mod inodesperblock = 0 \<and> disk_entry fs (inode_block fs (int inum)) = None then Inl Null_Deref
           else if 2 \<le> inum \<and> ino_type (fs_inode fs inum) = 0 then Inr inum
           else empty_inode_loop fs (inum + 1) ninodes
      else Inr 0)"
  by pat_completeness auto
termination
  by (relation "measure (\<lambda>(_, inum, ninodes). ninodes - inum)") auto

declare empty_inode_loop.simps [simp del]

definition find_empty_inode :: "chkfs \<Rightarrow> nat res" where
  "find_empty_inode fs = assert_then (disk_entry fs 0 \<noteq> None) (empty_inode_loop fs 0 (nat (sb_ninodes (fs_sb fs))))"

section \<open>Directories\<close>

text \<open>The inode number of entry \<open>i\<close> of a directory block, and the comparison of the name at \<open>pos\<close> with a path, as \<open>strcmp\<close> does it.\<close>

definition dirent_inum :: "u8 list \<Rightarrow> nat \<Rightarrow> u32" where
  "dirent_inum b i = ptr_at b (direntsize div 4 * i)"

fun name_is :: "u8 list \<Rightarrow> nat \<Rightarrow> u8 list \<Rightarrow> bool res" where
  "name_is b pos [] = (if pos < length b then Inr (b ! pos = 0) else Inl Out_Of_Bounds)"
| "name_is b pos (c # cs) = (if pos < length b then if b ! pos = c then name_is b (pos + 1) cs else Inr False else Inl Out_Of_Bounds)"

function dirent_search :: "u8 list \<Rightarrow> nat \<Rightarrow> nat \<Rightarrow> u8 list \<Rightarrow> u32 res" where
  "dirent_search b i bsz path =
     (if i * direntsize < bsz
      then rbind (if dirent_inum b i \<noteq> 0 then name_is b (i * direntsize + 4) path else Inr False) (\<lambda>eq.
             if eq then Inr (dirent_inum b i) else dirent_search b (i + 1) bsz path)
      else Inr 0)"
  by pat_completeness auto
termination
  by (relation "measure (\<lambda>(_, i, bsz, _). bsz - i * direntsize)") auto

declare dirent_search.simps [simp del]

definition dir_bsz :: "chkfs \<Rightarrow> nat \<Rightarrow> nat \<Rightarrow> nat" where
  "dir_bsz fs n diroff = min ((unat (ino_size (fs_inode fs n)) + 2 ^ 64 - diroff) mod 2 ^ 64) blocksize"

text \<open>One turn of the loops over the blocks of a directory: the position of the iterator and the block, or the end.\<close>

definition dir_block :: "chkfs \<Rightarrow> nat \<Rightarrow> fileiter \<Rightarrow> nat \<Rightarrow> (fileiter \<times> u32 option) res" where
  "dir_block fs n it diroff =
     rbind (fileiter_find fs n it diroff) (\<lambda>it1.
     rbind (it_present fs n it1) (\<lambda>present.
     rbind (it_blocknum fs n it1) (\<lambda>bn. Inr (it1, if present then disk_entry fs bn else None))))"

primrec lookup_loop :: "nat \<Rightarrow> chkfs \<Rightarrow> nat \<Rightarrow> fileiter \<Rightarrow> nat \<Rightarrow> u8 list \<Rightarrow> u32 res" where
  "lookup_loop 0 fs n it diroff path = Inl No_Return"
| "lookup_loop (Suc fuel) fs n it diroff path =
     rbind (dir_block fs n it diroff) (\<lambda>(it1, r).
       case r of
         None \<Rightarrow> Inr 0
       | Some e \<Rightarrow> rbind (dirent_search (fs_block fs e) 0 (dir_bsz fs n diroff) path) (\<lambda>inum.
           if inum \<noteq> 0 then Inr inum else lookup_loop fuel fs n it1 (diroff + blocksize) path))"

abbreviation dir_turns :: nat where "dir_turns \<equiv> chkfs_maxsize div blocksize + 1"

definition lookup_inode :: "chkfs \<Rightarrow> nat \<Rightarrow> u8 list \<Rightarrow> (chkfs \<times> nat option) res" where
  "lookup_inode fs n path = rbind (lookup_loop dir_turns fs n fileiter_new 0 path) (\<lambda>inum. get_inode fs (sint inum))"

function empty_dirent :: "u8 list \<Rightarrow> nat \<Rightarrow> nat \<Rightarrow> nat option" where
  "empty_dirent b i bsz = (if i * direntsize < bsz then if dirent_inum b i = 0 then Some i else empty_dirent b (i + 1) bsz else None)"
  by pat_completeness auto
termination
  by (relation "measure (\<lambda>(_, i, bsz). bsz - i * direntsize)") auto

declare empty_dirent.simps [simp del]

primrec empty_direntry_loop :: "nat \<Rightarrow> chkfs \<Rightarrow> nat \<Rightarrow> fileiter \<Rightarrow> nat \<Rightarrow> (u32 \<times> nat) option res" where
  "empty_direntry_loop 0 fs n it diroff = Inl No_Return"
| "empty_direntry_loop (Suc fuel) fs n it diroff =
     rbind (dir_block fs n it diroff) (\<lambda>(it1, r).
       case r of
         None \<Rightarrow> Inr None
       | Some e \<Rightarrow> (case empty_dirent (fs_block fs e) 0 (dir_bsz fs n diroff) of
           Some i \<Rightarrow> Inr (Some (e, i))
         | None \<Rightarrow> empty_direntry_loop fuel fs n it1 (diroff + blocksize)))"

definition find_empty_direntry :: "chkfs \<Rightarrow> nat \<Rightarrow> (u32 \<times> nat) option res" where
  "find_empty_direntry fs n = empty_direntry_loop dir_turns fs n fileiter_new 0"

section \<open>Reading a file by name\<close>

primrec file_data_loop :: "nat \<Rightarrow> chkfs \<Rightarrow> nat \<Rightarrow> fileiter \<Rightarrow> nat \<Rightarrow> nat \<Rightarrow> u8 list \<Rightarrow> u8 list res" where
  "file_data_loop 0 fs n it sz off out = (if sz = 0 then Inr out else Inl No_Return)"
| "file_data_loop (Suc fuel) fs n it sz off out =
     (if sz = 0 then Inr out
      else rbind (dir_block fs n it off) (\<lambda>(it1, r).
             case r of
               None \<Rightarrow> Inr out
             | Some e \<Rightarrow>
                 let blockoff = off div blocksize * blocksize; bsz = dir_bsz fs n blockoff; boff = off - blockoff;
                     ncopy = (if bsz > boff then min (bsz - boff) sz else 0)
                 in if ncopy = 0 then Inr out
                    else file_data_loop fuel fs n it1 (sz - ncopy) (off + ncopy) (out @ take ncopy (drop boff (fs_block fs e)))))"

definition chickadeefs_read_file_data :: "chkfs \<Rightarrow> u8 list \<Rightarrow> nat \<Rightarrow> nat \<Rightarrow> (chkfs \<times> u8 list) res" where
  "chickadeefs_read_file_data fs path sz off =
     rbind (get_inode fs 1) (\<lambda>(fs1, dirino).
       assert_then (dirino \<noteq> None)
       (rbind (lock_read fs1 1) (\<lambda>fs2.
        rbind (lookup_inode fs2 1 path) (\<lambda>(fs3, ino).
        rbind (unlock_read fs3 1) (\<lambda>fs4.
          case ino of
            None \<Rightarrow> Inr (put_inode fs4 1, [])
          | Some n \<Rightarrow>
              rbind (lock_read (put_inode fs4 1) n) (\<lambda>fs5.
              rbind (file_data_loop (Suc sz) fs5 n fileiter_new sz off []) (\<lambda>out.
              rbind (unlock_read fs5 n) (\<lambda>fs6. Inr (put_inode fs6 n, out)))))))))"

section \<open>Opening\<close>

definition open_create :: "chkfs \<Rightarrow> u8 list \<Rightarrow> (chkfs \<times> nat) res" where
  "open_create fs path =
     rbind (find_empty_inode fs) (\<lambda>ino_num.
     rbind (get_inode fs (int ino_num)) (\<lambda>(fs1, r).
       case r of
         None \<Rightarrow> Inl Assert_Fail
       | Some ino \<Rightarrow>
           rbind (lock_write fs1 ino) (\<lambda>fs2.
           rbind (allocate_block (set_inode fs2 ino (\<lambda>x. x\<lparr>ino_type := type_regular, ino_size := 0, ino_nlink := 1\<rparr>))) (\<lambda>(fs3, data_bn).
           rbind (fileiter_map fs3 ino fileiter_new data_bn) (\<lambda>(fs4, _, _).
           rbind (unlock_write fs4 ino) (\<lambda>fs5.
           rbind (lock_write fs5 1) (\<lambda>fs6.
           rbind (find_empty_direntry fs6 1) (\<lambda>d.
             case d of
               None \<Rightarrow> Inl Null_Deref
             | Some (e, i) \<Rightarrow>
                 rbind (unlock_write (set_block fs6 e (set_ptr (copy_into (fs_block fs6 e) (i * direntsize + 4) path) (direntsize div 4 * i) (word_of_nat ino_num))) 1) (\<lambda>fs7.
                   Inr (put_inode fs7 ino, ino)))))))))) "

definition open_inode :: "chkfs \<Rightarrow> u8 list \<Rightarrow> u32 \<Rightarrow> (chkfs \<times> nat option) res" where
  "open_inode fs path flags =
     rbind (get_inode fs 1) (\<lambda>(fs1, dirino).
       assert_then (dirino \<noteq> None)
       (rbind (lock_read fs1 1) (\<lambda>fs2.
        rbind (lookup_inode fs2 1 path) (\<lambda>(fs3, r).
        rbind (unlock_read fs3 1) (\<lambda>fs4.
          case r of
            Some ino \<Rightarrow> Inr (put_inode fs4 1, Some ino)
          | None \<Rightarrow>
              if flags AND OF_CREATE \<noteq> 0 \<and> flags AND OF_WRITE \<noteq> 0
              then rbind (open_create fs4 path) (\<lambda>(fs5, ino). Inr (put_inode fs5 1, Some ino))
              else Inr (put_inode fs4 1, None))))))"

definition open_truncate :: "chkfs \<Rightarrow> nat \<Rightarrow> u32 \<Rightarrow> chkfs res" where
  "open_truncate fs ino flags =
     (if flags AND OF_TRUNC \<noteq> 0 \<and> flags AND OF_WRITE \<noteq> 0
      then rbind (lock_write fs ino) (\<lambda>fs1. unlock_write (set_inode fs1 ino (\<lambda>x. x\<lparr>ino_size := 0\<rparr>)) ino)
      else Inr fs)"

end
