(* ===== verification/Loader.thy ===== *)
theory Loader
  imports Vmiter Chkfs_Dir
begin

text \<open>
  The program loader: \<open>proc::load\<close> and \<open>proc::load_segment\<close> of \<open>k-proc.cc\<close>, the two sources of program files (a file of the initial file system in memory, and a file on the disk),
  and the lookup in the initial file system (\<open>k-devices.cc\<close>).  A page of the file is the list of its valid bytes.  The memory of the new process is its page tables, the bytes of physical
  memory, and the pages that \<open>kallocpage\<close> will return: for each page of a segment, the page itself and those that \<open>map\<close> takes for page tables.
\<close>

abbreviation E_NOENT :: int where "E_NOENT \<equiv> - 2"
abbreviation E_NOEXEC :: int where "E_NOEXEC \<equiv> - 8"
abbreviation ELF_MAGIC :: u32 where "ELF_MAGIC \<equiv> 0x464C457F"
abbreviation ELF_ET_EXEC :: u16 where "ELF_ET_EXEC \<equiv> 2"
abbreviation ELF_PTYPE_LOAD :: u32 where "ELF_PTYPE_LOAD \<equiv> 1"
abbreviation pagesize :: u64 where "pagesize \<equiv> 4096"
abbreviation sizeof_elf_header :: nat where "sizeof_elf_header \<equiv> 64"
abbreviation sizeof_elf_program :: nat where "sizeof_elf_program \<equiv> 56"
abbreviation sizeof_elf_section :: nat where "sizeof_elf_section \<equiv> 64"

section \<open>Sources of program files\<close>

type_synonym 's get_page = "'s \<Rightarrow> u64 \<Rightarrow> ('s \<times> int \<times> u8 list) res"

record memfile =
  mf_name :: "u8 list"
  mf_data :: "u8 list"

definition mf_empty :: "memfile \<Rightarrow> bool" where
  "mf_empty f \<longleftrightarrow> mf_name f ! 0 = 0"

primrec initfs_lookup :: "memfile list \<Rightarrow> u8 list \<Rightarrow> memfile option res" where
  "initfs_lookup [] name = Inr None"
| "initfs_lookup (f # fs) name =
     (if mf_empty f then initfs_lookup fs name
      else rbind (name_is (mf_name f) 0 name) (\<lambda>eq. if eq then Inr (Some f) else initfs_lookup fs name))"

definition memfile_get_page :: "memfile option get_page" where
  "memfile_get_page mf off =
     (case mf of
        None \<Rightarrow> Inr (mf, E_NOENT, [])
      | Some f \<Rightarrow> if length (mf_data f) \<le> unat off then Inr (mf, 0, [])
                  else Inr (mf, int (length (mf_data f) - unat off), drop (unat off) (mf_data f)))"

text \<open>The disk loader reads into a page of its own; \<open>dl_kalloc\<close> is whether \<open>kalloc\<close> returns one.\<close>

record disk_loader =
  dl_fs :: chkfs
  dl_name :: "u8 list"
  dl_kalloc :: bool

definition disk_get_page :: "disk_loader get_page" where
  "disk_get_page dl off =
     rbind (chickadeefs_read_file_data (dl_fs dl) (dl_name dl) (unat pagesize) (unat off)) (\<lambda>(fs, out).
       if \<not> dl_kalloc dl \<and> out \<noteq> [] then Inl Null_Deref
       else Inr (dl\<lparr>dl_fs := fs\<rparr>, int (length out), out))"

section \<open>Headers\<close>

fun le_nat :: "u8 list \<Rightarrow> nat \<Rightarrow> nat \<Rightarrow> nat" where
  "le_nat b pos 0 = 0"
| "le_nat b pos (Suc n) = unat (b ! pos) + 256 * le_nat b (pos + 1) n"

record elf_header =
  e_magic :: u32
  e_type :: u16
  e_entry :: u64
  e_phoff :: u64
  e_phentsize :: u16
  e_phnum :: u16
  e_shentsize :: u16

record elf_program =
  p_type :: u32
  p_offset :: u64
  p_va :: u64
  p_filesz :: u64
  p_memsz :: u64

definition parse_header :: "u8 list \<Rightarrow> elf_header" where
  "parse_header b =
     \<lparr>e_magic = word_of_nat (le_nat b 0 4), e_type = word_of_nat (le_nat b 0x10 2), e_entry = word_of_nat (le_nat b 0x18 8), e_phoff = word_of_nat (le_nat b 0x20 8),
      e_phentsize = word_of_nat (le_nat b 0x36 2), e_phnum = word_of_nat (le_nat b 0x38 2), e_shentsize = word_of_nat (le_nat b 0x3a 2)\<rparr>"

definition parse_program :: "u8 list \<Rightarrow> nat \<Rightarrow> elf_program" where
  "parse_program b pos =
     \<lparr>p_type = word_of_nat (le_nat b pos 4), p_offset = word_of_nat (le_nat b (pos + 0x08) 8), p_va = word_of_nat (le_nat b (pos + 0x10) 8),
      p_filesz = word_of_nat (le_nat b (pos + 0x20) 8), p_memsz = word_of_nat (le_nat b (pos + 0x28) 8)\<rparr>"

definition read_header :: "u8 list \<Rightarrow> elf_header res" where
  "read_header b = (if length b < sizeof_elf_header then Inl Out_Of_Bounds else Inr (parse_header b))"

definition read_program :: "u8 list \<Rightarrow> nat \<Rightarrow> elf_program res" where
  "read_program b pos = (if length b < pos + sizeof_elf_program then Inl Out_Of_Bounds else Inr (parse_program b pos))"

definition elf_bad :: "elf_header \<Rightarrow> nat \<Rightarrow> bool" where
  "elf_bad eh len \<longleftrightarrow> e_magic eh \<noteq> ELF_MAGIC \<or> e_type eh \<noteq> ELF_ET_EXEC \<or> unat (e_phentsize eh) \<noteq> sizeof_elf_program \<or> unat (e_shentsize eh) \<noteq> sizeof_elf_section
     \<or> unat (e_phoff eh) > unat pagesize \<or> unat (e_phoff eh) > len \<or> e_phnum eh = 0
     \<or> unat (e_phnum eh) > (unat pagesize - unat (e_phoff eh)) div sizeof_elf_program \<or> unat (e_phnum eh) > (len - unat (e_phoff eh)) div sizeof_elf_program"

section \<open>Segments\<close>

record procmem =
  pm_pt :: ptmem
  pm_mem :: "u64 \<Rightarrow> u8"
  pm_kalloc :: "(u64 option \<times> u64 option list) list"

definition rounddown :: "u64 \<Rightarrow> u64" where
  "rounddown a = a - a mod pagesize"

text \<open>Allocating and mapping the pages of a segment.\<close>

primrec segment_alloc :: "nat \<Rightarrow> procmem \<Rightarrow> vmiter \<Rightarrow> u64 \<Rightarrow> (procmem \<times> int) res" where
  "segment_alloc 0 s it end_mem = Inl No_Return"
| "segment_alloc (Suc fuel) s it end_mem =
     (if vi_va it < end_mem
      then case pm_kalloc s of
             [] \<Rightarrow> Inr (s, E_NOMEM)
           | (pg, tables) # ks \<Rightarrow>
               (case pg of
                  None \<Rightarrow> Inr (s\<lparr>pm_kalloc := ks\<rparr>, E_NOMEM)
                | Some pa \<Rightarrow>
                    rbind (vm_map tables (pm_pt s) it pa (PTE_P OR PTE_W OR PTE_U)) (\<lambda>(m1, it1, r).
                      if r < 0 then Inr (s\<lparr>pm_pt := m1, pm_kalloc := ks\<rparr>, E_NOMEM)
                      else segment_alloc fuel (s\<lparr>pm_pt := m1, pm_kalloc := ks\<rparr>) (vm_real_find m1 it1 (vi_va it1 + pagesize)) end_mem))
      else Inr (s, 0))"

definition store_bytes :: "procmem \<Rightarrow> u64 \<Rightarrow> u8 list \<Rightarrow> procmem" where
  "store_bytes s pa bs = s\<lparr>pm_mem := (\<lambda>a. if unat (a - pa) < length bs then bs ! unat (a - pa) else pm_mem s a)\<rparr>"

definition segment_sz :: "vmiter \<Rightarrow> u64 \<Rightarrow> u64" where
  "segment_sz it end1 = min (vm_last_va it) end1 - vi_va it"

text \<open>Copying the bytes of the file.\<close>

primrec segment_copy :: "nat \<Rightarrow> 's get_page \<Rightarrow> 's \<Rightarrow> procmem \<Rightarrow> vmiter \<Rightarrow> u64 \<Rightarrow> u64 \<Rightarrow> ('s \<times> procmem \<times> int) res" where
  "segment_copy 0 get_page ld s it off end_file = Inl No_Return"
| "segment_copy (Suc fuel) get_page ld s it off end_file =
     (if vi_va it < end_file
      then rbind (get_page ld (rounddown off)) (\<lambda>(ld1, r, datapg).
             let last_off = rounddown off + word_of_int r
             in if r < 0 then Inr (ld1, s, r)
                else if last_off \<le> off then Inr (ld1, s, E_NOEXEC)
                else let sz = min (last_off - off) (segment_sz it end_file)
                     in assert_then (vm_present (pm_pt s) it)
                          (if length datapg < unat (off mod pagesize) + unat sz then Inl Out_Of_Bounds
                           else segment_copy fuel get_page ld1 (store_bytes s (vm_pa (pm_pt s) it) (take (unat sz) (drop (unat (off mod pagesize)) datapg)))
                                  (vm_real_find (pm_pt s) it (vi_va it + sz)) (off + sz) end_file))
      else Inr (ld, s, 0))"

text \<open>Clearing the rest.\<close>

primrec segment_zero :: "nat \<Rightarrow> procmem \<Rightarrow> vmiter \<Rightarrow> u64 \<Rightarrow> procmem res" where
  "segment_zero 0 s it end_mem = Inl No_Return"
| "segment_zero (Suc fuel) s it end_mem =
     (if vi_va it < end_mem
      then let sz = segment_sz it end_mem
           in assert_then (vm_present (pm_pt s) it)
                (segment_zero fuel (store_bytes s (vm_pa (pm_pt s) it) (replicate (unat sz) 0)) (vm_real_find (pm_pt s) it (vi_va it + sz)) end_mem)
      else Inr s)"

text \<open>The loops move by at least one byte, so that the size of the segment and a page is a bound for their turns.\<close>

definition load_segment :: "'s get_page \<Rightarrow> 's \<Rightarrow> procmem \<Rightarrow> u64 \<Rightarrow> elf_program \<Rightarrow> ('s \<times> procmem \<times> int) res" where
  "load_segment get_page ld s pt ph =
     (let va = p_va ph; end_file = va + p_filesz ph; end_mem = va + p_memsz ph; fuel = unat (p_memsz ph) + unat pagesize
      in if va > VA_LOWEND \<or> VA_LOWEND - va < p_memsz ph \<or> p_memsz ph < p_filesz ph then Inr (ld, s, E_NOEXEC)
         else rbind (segment_alloc fuel s (vmiter_new (pm_pt s) pt (rounddown va)) end_mem) (\<lambda>(s1, r1).
              if r1 < 0 then Inr (ld, s1, r1)
              else rbind (segment_copy fuel get_page ld s1 (vmiter_new (pm_pt s1) pt va) (p_offset ph) end_file) (\<lambda>(ld1, s2, r2).
                   if r2 < 0 then Inr (ld1, s2, r2)
                   else rbind (segment_zero fuel s2 (vmiter_new (pm_pt s2) pt end_file) end_mem) (\<lambda>s3. Inr (ld1, s3, 0)))))"

section \<open>Programs\<close>

function load_segments :: "'s get_page \<Rightarrow> 's \<Rightarrow> procmem \<Rightarrow> u64 \<Rightarrow> u8 list \<Rightarrow> nat \<Rightarrow> nat \<Rightarrow> nat \<Rightarrow> ('s \<times> procmem \<times> int) res" where
  "load_segments get_page ld s pt headerpg phoff i nph =
     (if i < nph
      then rbind (read_program headerpg (phoff + i * sizeof_elf_program)) (\<lambda>ph.
             if p_type ph = ELF_PTYPE_LOAD
             then rbind (load_segment get_page ld s pt ph) (\<lambda>(ld1, s1, r).
                    if r < 0 then Inr (ld1, s1, r) else load_segments get_page ld1 s1 pt headerpg phoff (i + 1) nph)
             else load_segments get_page ld s pt headerpg phoff (i + 1) nph)
      else Inr (ld, s, 0))"
  by pat_completeness auto
termination
  by (relation "measure (\<lambda>(_, _, _, _, _, _, i, nph). nph - i)") auto

declare load_segments.simps [simp del]

text \<open>The result has the new entry point, which is set once the header has been accepted.\<close>

definition load :: "'s get_page \<Rightarrow> 's \<Rightarrow> procmem \<Rightarrow> u64 \<Rightarrow> ('s \<times> procmem \<times> u64 option \<times> int) res" where
  "load get_page ld s pt =
     rbind (get_page ld 0) (\<lambda>(ld1, r, headerpg).
       if r < 0 then Inr (ld1, s, None, r)
       else if r < int sizeof_elf_header then Inr (ld1, s, None, E_NOEXEC)
       else rbind (read_header headerpg) (\<lambda>eh.
            if elf_bad eh (nat r) then Inr (ld1, s, None, E_NOEXEC)
            else rbind (load_segments get_page ld1 s pt headerpg (unat (e_phoff eh)) 0 (unat (e_phnum eh))) (\<lambda>(ld2, s2, r2).
                 Inr (ld2, s2, Some (e_entry eh), r2))))"

definition proc_load :: "memfile list \<Rightarrow> procmem \<Rightarrow> u64 \<Rightarrow> u8 list \<Rightarrow> u64 \<Rightarrow> (procmem \<times> u64 \<times> int) res" where
  "proc_load initfs s pt binary_name reg_rip =
     rbind (initfs_lookup initfs binary_name) (\<lambda>mf.
     rbind (load memfile_get_page mf s pt) (\<lambda>(_, s1, entry, r).
       Inr (s1, if r \<ge> 0 then (case entry of Some e \<Rightarrow> e | None \<Rightarrow> 0) else reg_rip, r)))"

end
