(* ===== verification/Loader_Segment.thy ===== *)
theory Loader_Segment
  imports Aspace Loader
begin

text \<open>
  Loading one segment: its pages are mapped, the bytes of the file are copied, and the rest is cleared.  The locale \<open>program_file\<close> is what the loader relies on of the source of the
  file; the lemmas on copying are proved in it once for both sources.
\<close>

section \<open>The pages of a segment\<close>

text \<open>The pages that \<open>kallocpage\<close> returns are pages of physical memory that nothing uses.\<close>

definition kpages :: "u64 option \<times> u64 option list \<Rightarrow> u64 list" where
  "kpages k = concat (map (\<lambda>x. case x of None \<Rightarrow> [] | Some n \<Rightarrow> [n]) (fst k # snd k))"

definition kallocs_ok :: "ptmem \<Rightarrow> u64 \<Rightarrow> (u64 option \<times> u64 option list) list \<Rightarrow> bool" where
  "kallocs_ok m pt ks \<longleftrightarrow> distinct (concat (map kpages ks)) \<and> (\<forall>n \<in> set (concat (map kpages ks)). pt_fresh m pt n \<and> unmapped m pt n)"

definition kenough :: "nat \<Rightarrow> (u64 option \<times> u64 option list) list \<Rightarrow> bool" where
  "kenough n ks \<longleftrightarrow> n \<le> length ks \<and> (\<forall>k \<in> set (take n ks). fst k \<noteq> None \<and> 3 \<le> length (takeWhile (\<lambda>a. a \<noteq> None) (snd k)))"

lemma kpages_mem: "n \<in> set (kpages k) \<longleftrightarrow> fst k = Some n \<or> Some n \<in> set (snd k)"
  by (auto simp: kpages_def split: option.splits)

lemma tables_distinct: "distinct (concat (map (\<lambda>x. case x of None \<Rightarrow> [] | Some n \<Rightarrow> [n]) xs)) \<Longrightarrow> distinct (filter (\<lambda>a. a \<noteq> None) xs)"
proof (induction xs)
  case (Cons x xs)
  then show ?case by (cases x) auto
qed simp

lemma kallocs_okD:
  assumes "kallocs_ok m pt ((Some pg, tabs) # ks)"
  shows "allocs_ok m pt tabs" "unmapped m pt pg" "kallocs_ok m pt ks" "n \<in> set (concat (map kpages ks)) \<Longrightarrow> n \<noteq> pg \<and> Some n \<notin> set tabs \<and> pt_fresh m pt n \<and> unmapped m pt n"
proof -
  have d: "distinct (kpages (Some pg, tabs))" "distinct (concat (map kpages ks))" "set (kpages (Some pg, tabs)) \<inter> set (concat (map kpages ks)) = {}"
    and f: "\<forall>n \<in> set (kpages (Some pg, tabs)) \<union> set (concat (map kpages ks)). pt_fresh m pt n \<and> unmapped m pt n"
    using assms by (auto simp: kallocs_ok_def)
  have "distinct (filter (\<lambda>a. a \<noteq> None) tabs)" by (rule tables_distinct) (use d(1) in \<open>simp add: kpages_def\<close>)
  then show "allocs_ok m pt tabs" using f by (auto simp: allocs_ok_def kpages_mem)
  show "unmapped m pt pg" using f by (auto simp: kpages_mem)
  show "kallocs_ok m pt ks" using d(2) f by (auto simp: kallocs_ok_def)
  assume n: "n \<in> set (concat (map kpages ks))"
  then have "n \<notin> set (kpages (Some pg, tabs))" using d(3) by blast
  then show "n \<noteq> pg \<and> Some n \<notin> set tabs \<and> pt_fresh m pt n \<and> unmapped m pt n" using f n by (auto simp: kpages_mem)
qed

lemma kallocs_ok_tl: "kallocs_ok m pt (k # ks) \<Longrightarrow> kallocs_ok m pt ks"
  by (auto simp: kallocs_ok_def)

lemma kallocs_ok_kept:
  assumes ok: "kallocs_ok m pt ((Some pg, tabs) # ks)" and fr: "\<forall>n. pt_fresh m pt n \<longrightarrow> Some n \<notin> set tabs \<longrightarrow> pt_fresh m' pt n"
    and m: "remapped m m' pt va pg \<or> (\<forall>a. vm_lookup m' pt a = vm_lookup m pt a)"
  shows "kallocs_ok m' pt ks"
proof -
  note K = kallocs_okD[OF ok]
  have pg: "pg AND 0xFFF = 0" using K(2) pamask_low by (simp add: unmapped_def)
  have "unmapped m' pt n" if "unmapped m pt n" "n \<noteq> pg" for n
    using m
  proof
    assume "\<forall>a. vm_lookup m' pt a = vm_lookup m pt a"
    then show ?thesis using that(1) lookup_eq_paddr[of m' pt m] by (simp add: unmapped_def)
  qed (rule remapped_unmapped[OF _ pg that])
  then have "\<forall>n \<in> set (concat (map kpages ks)). pt_fresh m' pt n \<and> unmapped m' pt n" using K(4) fr by blast
  then show ?thesis using K(3) by (simp add: kallocs_ok_def)
qed

definition page_end :: "u64 \<Rightarrow> nat" where "page_end e = (unat e + 4095) div 4096"

lemma page_end_less:
  assumes "unat va mod 4096 = 0"
  shows "va < e \<longleftrightarrow> page va < page_end e"
proof -
  have v: "unat va = page va * 4096" using div_mult_mod_eq[of "unat va" 4096] assms by (simp add: page_def)
  have "page va < page_end e \<longleftrightarrow> Suc (page va) \<le> (unat e + 4095) div 4096" by (simp add: page_end_def Suc_le_eq)
  also have "\<dots> \<longleftrightarrow> Suc (page va) * 4096 \<le> unat e + 4095" by (rule less_eq_div_iff_mult_less_eq) simp
  also have "\<dots> \<longleftrightarrow> va < e" unfolding word_less_nat_alt v by simp linarith
  finally show ?thesis ..
qed

lemma page_next:
  assumes "low va" "unat va mod 4096 = 0"
  shows "unat (va + 4096) = unat va + 4096" "unat (va + 4096) mod 4096 = 0" "page (va + 4096) = page va + 1"
proof -
  show u: "unat (va + 4096) = unat va + 4096" using assms(1) by (simp add: unat_word_ariths(1))
  show "unat (va + 4096) mod 4096 = 0" "page (va + 4096) = page va + 1" unfolding page_def u using assms(2) by simp_all
qed

definition seg_mapped :: "ptmem \<Rightarrow> u64 \<Rightarrow> nat \<Rightarrow> nat \<Rightarrow> bool" where
  "seg_mapped m pt lo hi \<longleftrightarrow> (\<forall>a. low a \<longrightarrow> lo \<le> page a \<longrightarrow> page a < hi \<longrightarrow> (\<exists>pa p. vm_lookup m pt a = Some (pa, p) \<and> p AND 7 = 7))"

definition outside_same :: "ptmem \<Rightarrow> ptmem \<Rightarrow> u64 \<Rightarrow> nat \<Rightarrow> nat \<Rightarrow> bool" where
  "outside_same m m' pt lo hi \<longleftrightarrow> (\<forall>a. low a \<longrightarrow> page a < lo \<or> hi \<le> page a \<longrightarrow> vm_lookup m' pt a = vm_lookup m pt a)"

lemma segment_alloc_ok:
  assumes "aspace (pm_pt s) pt" "kallocs_ok (pm_pt s) pt (pm_kalloc s)" "unat va mod 4096 = 0" "unat e \<le> 2 ^ 47" "unat e - unat va < fuel"
  shows "\<exists>s' r. segment_alloc fuel s (vm_walk (pm_pt s) pt va) e = Inr (s', r) \<and> aspace (pm_pt s') pt \<and> kallocs_ok (pm_pt s') pt (pm_kalloc s') \<and> pm_mem s' = pm_mem s
    \<and> (r = 0 \<or> r = E_NOMEM) \<and> outside_same (pm_pt s) (pm_pt s') pt (page va) (page_end e) \<and> (r = 0 \<longrightarrow> seg_mapped (pm_pt s') pt (page va) (page_end e))
    \<and> (kenough (page_end e - page va) (pm_kalloc s) \<longrightarrow> r = 0 \<and> pm_kalloc s' = drop (page_end e - page va) (pm_kalloc s))"
  using assms
proof (induction fuel arbitrary: s va)
  case (Suc fuel)
  note ends = page_end_less[OF Suc.prems(3), of e]
  show ?case
  proof (cases "va < e")
    case False
    then show ?thesis using Suc.prems ends by (simp add: outside_same_def seg_mapped_def)
  next
    case va: True
    have lw: "low va" using va Suc.prems(4) by (simp add: word_less_nat_alt)
    have np: "page_end e - page va = Suc (page_end e - Suc (page va))" using va ends by simp
    show ?thesis
    proof (cases "pm_kalloc s = [] \<or> (\<exists>tabs ks. pm_kalloc s = (None, tabs) # ks)")
      case True
      then show ?thesis using va Suc.prems(1,2) kallocs_ok_tl[of "pm_pt s" pt] by (auto simp: np outside_same_def kenough_def)
    next
      case False
      then obtain pg tabs ks where k: "pm_kalloc s = (Some pg, tabs) # ks" by (metis list.exhaust option.exhaust prod.exhaust)
      note K = kallocs_okD[OF Suc.prems(2)[unfolded k]]
      have al: "va AND 0xFFF = 0" using page_mod[of va] Suc.prems(3) by (simp add: unat_eq_0)
      obtain m' r where m: "vm_map tabs (pm_pt s) (vm_walk (pm_pt s) pt va) pg 7 = Inr (m', vm_walk m' pt va, r)" "aspace m' pt"
        "if vi_level (vm_walk (pm_pt s) pt va) \<le> length (takeWhile (\<lambda>a. a \<noteq> None) tabs) then r = 0 \<and> remapped (pm_pt s) m' pt va pg else r = - 1 \<and> (\<forall>a. vm_lookup m' pt a = vm_lookup (pm_pt s) pt a)"
        "\<forall>n. pt_fresh (pm_pt s) pt n \<longrightarrow> Some n \<notin> set tabs \<longrightarrow> pt_fresh m' pt n"
        by (rule aspace_map[OF Suc.prems(1) lw al K(1,2)])
      have k': "kallocs_ok m' pt ks" by (rule kallocs_ok_kept[OF Suc.prems(2)[unfolded k] m(4)]) (use m(3) in \<open>auto split: if_splits\<close>)
      let ?s = "s\<lparr>pm_pt := m', pm_kalloc := ks\<rparr>"
      show ?thesis
      proof (cases "r = 0")
        case False
        then have r: "r = - 1" "\<forall>a. vm_lookup m' pt a = vm_lookup (pm_pt s) pt a" "\<not> 3 \<le> length (takeWhile (\<lambda>a. a \<noteq> None) tabs)"
          using m(3) vm_walk_level[of "pm_pt s" pt va] by (auto split: if_splits)
        then show ?thesis using va m(1,2) k k' by (simp add: np outside_same_def kenough_def)
      next
        case True
        then have r: "remapped (pm_pt s) m' pt va pg" using m(3) by (auto split: if_splits)
        note N = page_next[OF lw Suc.prems(3)]
        have run: "segment_alloc (Suc fuel) s (vm_walk (pm_pt s) pt va) e = segment_alloc fuel ?s (vm_walk m' pt (va + 4096)) e"
          using va k m(1) True by (simp add: vm_real_find_walk)
        have fu: "unat e - (unat va + 4096) < fuel" using Suc.prems(5) va by (simp add: word_less_nat_alt)
        obtain s' r' where IH: "segment_alloc fuel ?s (vm_walk m' pt (va + 4096)) e = Inr (s', r')" "aspace (pm_pt s') pt" "kallocs_ok (pm_pt s') pt (pm_kalloc s')" "pm_mem s' = pm_mem s"
          "r' = 0 \<or> r' = E_NOMEM" "outside_same m' (pm_pt s') pt (Suc (page va)) (page_end e)" "r' = 0 \<longrightarrow> seg_mapped (pm_pt s') pt (Suc (page va)) (page_end e)"
          "kenough (page_end e - Suc (page va)) ks \<longrightarrow> r' = 0 \<and> pm_kalloc s' = drop (page_end e - Suc (page va)) ks"
          using Suc.IH[of ?s "va + 4096"] m(2) k' N Suc.prems(4) fu by auto
        have "outside_same (pm_pt s) (pm_pt s') pt (page va) (page_end e)" using IH(6) r va ends unfolding outside_same_def remapped_def by auto
        moreover have "seg_mapped (pm_pt s') pt (page va) (page_end e)" if "r' = 0"
          unfolding seg_mapped_def
        proof (intro allI impI)
          fix a assume a: "low a" "page va \<le> page a" "page a < page_end e"
          show "\<exists>pa p. vm_lookup (pm_pt s') pt a = Some (pa, p) \<and> p AND 7 = 7"
          proof (cases "page a = page va")
            case True
            then have "vm_lookup (pm_pt s') pt a = vm_lookup m' pt a" using IH(6) a(1) unfolding outside_same_def by simp
            then show ?thesis using r a(1) True unfolding remapped_def by auto
          qed (use IH(7) that a in \<open>auto simp: seg_mapped_def\<close>)
        qed
        moreover have "kenough (page_end e - page va) (pm_kalloc s) \<longrightarrow> r' = 0 \<and> pm_kalloc s' = drop (page_end e - page va) (pm_kalloc s)"
          using IH(8) unfolding np k by (simp add: kenough_def)
        ultimately show ?thesis using run IH(1-5) by simp
      qed
    qed
  qed
qed simp

section \<open>Storing bytes\<close>

text \<open>The byte at a virtual address.\<close>

definition vbyte :: "procmem \<Rightarrow> u64 \<Rightarrow> u64 \<Rightarrow> u8 option" where
  "vbyte s pt a = map_option (pm_mem s) (paddr (pm_pt s) pt a)"

lemma store_bytes_sel [simp]: "pm_pt (store_bytes s pa bs) = pm_pt s" "pm_kalloc (store_bytes s pa bs) = pm_kalloc s"
  by (simp_all add: store_bytes_def)

lemma u64_plus: "unat a + n < 2 ^ 64 \<Longrightarrow> unat (a + word_of_nat n) = unat a + n" for a :: u64
  by (simp add: unat_word_ariths(1) unat_of_nat take_bit_eq_mod)

lemma unat_diff: "a \<le> b \<Longrightarrow> unat (b - a) = unat b - unat a" for a b :: u64
  by (rule unat_sub)

lemma page_same: "unat a \<le> unat b \<Longrightarrow> unat b < unat a + n \<Longrightarrow> unat a mod 4096 + n \<le> 4096 \<Longrightarrow> page a = page b"
proof -
  assume h: "unat a \<le> unat b" "unat b < unat a + n" "unat a mod 4096 + n \<le> 4096"
  have "unat b = unat a div 4096 * 4096 + (unat a mod 4096 + (unat b - unat a))" using h(1) div_mult_mod_eq[of "unat a" 4096] by linarith
  moreover have "unat a mod 4096 + (unat b - unat a) < 4096" using h by linarith
  ultimately show ?thesis unfolding page_def by (metis div_less div_mult_self3 add.right_neutral zero_neq_numeral)
qed

lemma vbyte_store:
  assumes sp: "aspace (pm_pt s) pt" and va: "low va" "paddr (pm_pt s) pt va = Some pa" and bs: "unat va mod 4096 + length bs \<le> 4096" "unat va + length bs \<le> 2 ^ 47" and a: "low a"
  shows "vbyte (store_bytes s pa bs) pt a = (if unat va \<le> unat a \<and> unat a < unat va + length bs then Some (bs ! (unat a - unat va)) else vbyte s pt a)"
proof -
  note S = aspaceD[OF sp]
  have pg: "paddr (pm_pt s) pt b = Some (pa + (b - va))" if "unat va \<le> unat b" "unat b < unat va + length bs" for b
  proof -
    obtain p where "vm_lookup (pm_pt s) pt va = Some (pa, p)" using va(2) by (auto simp: paddr_def)
    from lookup_page[OF S(2) va(1) this page_same[OF that bs(1)]] show ?thesis by (simp add: paddr_def)
  qed
  show ?thesis
  proof (cases "unat va \<le> unat a \<and> unat a < unat va + length bs")
    case True
    then have "unat (a - va) = unat a - unat va" by (simp add: unat_diff word_le_nat_alt)
    moreover have "pa + (a - va) - pa = a - va" by simp
    moreover have "unat a - unat va < length bs" using True by linarith
    ultimately show ?thesis using True pg[of a] by (simp add: vbyte_def store_bytes_def)
  next
    case False
    have "\<not> unat (x - pa) < length bs" if x: "paddr (pm_pt s) pt a = Some x" for x
    proof
      assume i: "unat (x - pa) < length bs"
      define b where "b = va + (x - pa)"
      have "unat b = unat va + unat (x - pa)" unfolding b_def using i bs(2) by (simp add: unat_word_ariths(1))
      then have b: "unat va \<le> unat b" "unat b < unat va + length bs" "low b" using i bs(2) by simp_all
      have "paddr (pm_pt s) pt b = Some x" using pg[OF b(1,2)] by (simp add: b_def)
      then have "a = b" using S(3)[OF a b(3) x] by simp
      then show False using False b(1,2) by simp
    qed
    then show ?thesis using False by (cases "paddr (pm_pt s) pt a") (auto simp: vbyte_def store_bytes_def)
  qed
qed

lemma seg_mappedD:
  assumes "seg_mapped m pt lo hi" "low va" "lo \<le> page va" "page va < hi" "user_links m pt"
  shows "vm_present m (vm_walk m pt va)" "paddr m pt va = Some (vm_pa m (vm_walk m pt va))" "vi_level (vm_walk m pt va) = 0"
proof -
  obtain pa p where l: "vm_lookup m pt va = Some (pa, p)" using assms unfolding seg_mapped_def by blast
  from lookup_walk[OF l] show "vm_present m (vm_walk m pt va)" "paddr m pt va = Some (vm_pa m (vm_walk m pt va))" using l by (simp_all add: paddr_def)
  then show "vi_level (vm_walk m pt va) = 0" using links_walk(2)[OF assms(5,2)] by blast
qed

lemma segment_sz_unat:
  assumes "low va" "va < e" "unat e \<le> 2 ^ 47" "vi_level (vm_walk m pt va) = 0"
  shows "unat (segment_sz (vm_walk m pt va) e) = min ((page va + 1) * 4096) (unat e) - unat va" "unat va < (page va + 1) * 4096"
proof -
  note r = region_end[OF assms(1), of 0]
  have l: "unat (vm_last_va (vm_walk m pt va)) = (page va + 1) * 4096" using r(1) assms(4) by (simp add: vm_last_va_def page_def)
  show lt: "unat va < (page va + 1) * 4096" using r(2) by (simp add: page_def)
  have "va \<le> min (vm_last_va (vm_walk m pt va)) e" using lt l assms(2) by (simp add: word_le_nat_alt word_less_nat_alt min_def)
  then have "unat (segment_sz (vm_walk m pt va) e) = unat (min (vm_last_va (vm_walk m pt va)) e) - unat va" by (simp add: segment_sz_def unat_diff)
  also have "unat (min (vm_last_va (vm_walk m pt va)) e) = min ((page va + 1) * 4096) (unat e)" using l by (simp add: min_def word_le_nat_alt)
  finally show "unat (segment_sz (vm_walk m pt va) e) = min ((page va + 1) * 4096) (unat e) - unat va" .
qed

lemma page_less_end: "va < e \<Longrightarrow> page va < page_end e"
proof -
  assume "va < e"
  then have "unat va + 4096 \<le> unat e + 4095" by (simp add: word_less_nat_alt)
  then have "(unat va + 4096) div 4096 \<le> (unat e + 4095) div 4096" by (rule div_le_mono)
  then show ?thesis by (simp add: page_def page_end_def)
qed

lemma page_room: "n \<le> (page va + 1) * 4096 - unat va \<Longrightarrow> unat va mod 4096 + n \<le> 4096"
proof -
  have "v = p * 4096 + r \<Longrightarrow> r < 4096 \<Longrightarrow> n \<le> (p + 1) * 4096 - v \<Longrightarrow> r + n \<le> 4096" for v p r n :: nat by simp
  from this[of "unat va" "page va" "unat va mod 4096" n] show "n \<le> (page va + 1) * 4096 - unat va \<Longrightarrow> unat va mod 4096 + n \<le> 4096"
    by (simp add: page_def)
qed

lemma seg_mapped_mono: "seg_mapped m pt lo hi \<Longrightarrow> lo \<le> lo' \<Longrightarrow> seg_mapped m pt lo' hi"
  by (auto simp: seg_mapped_def)

lemma page_mono: "unat a \<le> unat b \<Longrightarrow> page a \<le> page b"
  by (simp add: page_def div_le_mono)

lemma segment_zero_ok:
  assumes "aspace (pm_pt s) pt" "seg_mapped (pm_pt s) pt (page va) (page_end e)" "unat e \<le> 2 ^ 47" "unat e - unat va < fuel"
  shows "\<exists>s'. segment_zero fuel s (vm_walk (pm_pt s) pt va) e = Inr s' \<and> pm_pt s' = pm_pt s \<and> pm_kalloc s' = pm_kalloc s
    \<and> (\<forall>a. low a \<longrightarrow> vbyte s' pt a = (if unat va \<le> unat a \<and> unat a < unat e then Some 0 else vbyte s pt a))"
  using assms
proof (induction fuel arbitrary: s va)
  case (Suc fuel)
  show ?case
  proof (cases "va < e")
    case False
    then show ?thesis by (auto simp: word_less_nat_alt)
  next
    case True
    have lw: "low va" using True Suc.prems(3) by (simp add: word_less_nat_alt)
    let ?it = "vm_walk (pm_pt s) pt va"
    note M = seg_mappedD[OF Suc.prems(2) lw order_refl page_less_end[OF True] aspaceD(2)[OF Suc.prems(1)]]
    note Z = segment_sz_unat[OF lw True Suc.prems(3) M(3)]
    define n where "n = unat (segment_sz ?it e)"
    have n: "n = min ((page va + 1) * 4096) (unat e) - unat va" "0 < n" "unat va + n \<le> unat e" using Z True by (auto simp: n_def word_less_nat_alt)
    have room: "unat va mod 4096 + n \<le> 4096" by (rule page_room) (use n(1) in simp)
    let ?s = "store_bytes s (vm_pa (pm_pt s) ?it) (replicate n 0)" and ?va = "va + segment_sz ?it e"
    have va': "unat ?va = unat va + n" using n(3) Suc.prems(3) by (simp add: unat_word_ariths(1) n_def)
    have run: "segment_zero (Suc fuel) s ?it e = segment_zero fuel ?s (vm_walk (pm_pt s) pt ?va) e"
      using True M(1) by (simp add: Let_def vm_real_find_walk n_def)
    have "seg_mapped (pm_pt s) pt (page ?va) (page_end e)" by (rule seg_mapped_mono[OF Suc.prems(2) page_mono]) (simp add: va')
    moreover have "unat e - unat ?va < fuel" using va' n(2,3) Suc.prems(4) by linarith
    ultimately obtain s' where s': "segment_zero fuel ?s (vm_walk (pm_pt s) pt ?va) e = Inr s'" "pm_pt s' = pm_pt s" "pm_kalloc s' = pm_kalloc s"
      "\<forall>a. low a \<longrightarrow> vbyte s' pt a = (if unat ?va \<le> unat a \<and> unat a < unat e then Some 0 else vbyte ?s pt a)"
      using Suc.IH[of ?s ?va] Suc.prems(1,3) by auto
    have "vbyte s' pt a = (if unat va \<le> unat a \<and> unat a < unat e then Some 0 else vbyte s pt a)" if "low a" for a
      using s'(4) that vbyte_store[OF Suc.prems(1) lw M(2), of "replicate n 0" a] room n(2,3) va' Suc.prems(3) by auto
    then show ?thesis using run s' by auto
  qed
qed simp

section \<open>Program files\<close>

text \<open>
  What the loader relies on: at an offset that is a multiple of the page size, below a limit of the source, \<open>get_page\<close> returns bytes of the file from there on, at least a page of them
  or all that are left.
\<close>

locale program_file =
  fixes get_page :: "'s get_page" and inv :: "'s \<Rightarrow> bool" and data :: "u8 list" and limit :: nat
  assumes get_page: "inv ld \<Longrightarrow> unat off mod 4096 = 0 \<Longrightarrow> unat off < limit \<Longrightarrow>
      \<exists>ld' pg. get_page ld off = Inr (ld', int (length pg), pg) \<and> inv ld' \<and> pg = take (length pg) (drop (unat off) data) \<and> min 4096 (length data - unat off) \<le> length pg"
    and small: "inv ld \<Longrightarrow> length data < 2 ^ 63"
begin

lemma rounddown_unat: "unat (rounddown off) = unat off div 4096 * 4096" "unat (off mod 4096) = unat off mod 4096"
proof -
  show m: "unat (off mod 4096) = unat off mod 4096" by (simp add: unat_mod_distrib)
  then have "off mod 4096 \<le> off" by (simp add: word_le_nat_alt)
  then have "unat (rounddown off) = unat off - unat off mod 4096" using m by (simp add: rounddown_def unat_diff)
  then show "unat (rounddown off) = unat off div 4096 * 4096" by (simp add: minus_mod_eq_div_mult)
qed

text \<open>One page of the file: where it ends, and its bytes from the offset on.\<close>

lemma get_page_at:
  assumes "inv ld" "unat off < limit"
  obtains ld' pg where "get_page ld (rounddown off) = Inr (ld', int (length pg), pg)" "inv ld'"
    "(rounddown off + word_of_nat (length pg) \<le> off) = (length data \<le> unat off)"
    "unat off < length data \<longrightarrow> unat (rounddown off + word_of_nat (length pg) - off) = length pg - unat off mod 4096 \<and> unat off mod 4096 < length pg \<and> unat off + (length pg - unat off mod 4096) \<le> length data"
    "\<forall>k. k \<le> length pg - unat off mod 4096 \<longrightarrow> take k (drop (unat off mod 4096) pg) = take k (drop (unat off) data)"
proof -
  let ?r = "unat off div 4096 * 4096"
  have r: "?r + unat off mod 4096 = unat off" by simp
  have al: "unat (rounddown off) mod 4096 = 0" "unat (rounddown off) < limit" using rounddown_unat(1)[of off] r assms(2) by (simp, linarith)
  obtain ld' pg where g: "get_page ld (rounddown off) = Inr (ld', int (length pg), pg)" "inv ld'" "pg = take (length pg) (drop ?r data)" "min 4096 (length data - ?r) \<le> length pg"
    using get_page[OF assms(1) al] rounddown_unat(1)[of off] by auto
  have le: "length pg \<le> length data - ?r" by (metis g(3) length_take length_drop min.cobounded1 min_def nle_le)
  have m: "unat off mod 4096 < 4096" by simp
  have sum: "unat (rounddown off + word_of_nat (length pg)) = ?r + length pg"
    using u64_plus[of "rounddown off" "length pg"] rounddown_unat(1)[of off] le small[OF assms(1)] u64_bound[of off] r by (cases "pg = []") auto
  have cmp: "(rounddown off + word_of_nat (length pg) \<le> off) = (length data \<le> unat off)"
    unfolding word_le_nat_alt sum using le g(4) m r by linarith
  have more: "unat (rounddown off + word_of_nat (length pg) - off) = length pg - unat off mod 4096 \<and> unat off mod 4096 < length pg \<and> unat off + (length pg - unat off mod 4096) \<le> length data"
    if "unat off < length data"
  proof -
    have "off \<le> rounddown off + word_of_nat (length pg)" using cmp that by simp
    then have "unat (rounddown off + word_of_nat (length pg) - off) = ?r + length pg - unat off" using sum by (simp add: unat_diff)
    then show ?thesis using that le g(4) m r by linarith
  qed
  have "take k (drop (unat off mod 4096) pg) = take k (drop (unat off) data)" if k: "k \<le> length pg - unat off mod 4096" for k
  proof -
    have "take k (drop (unat off mod 4096) pg) = take k (drop (unat off mod 4096) (take (length pg) (drop ?r data)))" using g(3) by simp
    also have "\<dots> = take k (drop (unat off mod 4096) (drop ?r data))" using k by (simp add: drop_take min_def)
    also have "\<dots> = take k (drop (unat off) data)" using r by (simp add: add.commute)
    finally show ?thesis .
  qed
  then show ?thesis by (intro that[OF g(1,2) cmp] impI more allI) blast+
qed

text \<open>One turn of the copy loop inside the file: it moves by some bytes, which are then in memory.\<close>

lemma segment_copy_turn:
  assumes sp: "aspace (pm_pt s) pt" and map: "seg_mapped (pm_pt s) pt (page va) (page_end e)" and e: "unat e \<le> 2 ^ 47" "va < e" and ld: "inv ld" and off: "unat off < limit" "unat off < length data"
  obtains ld1 s1 n where "0 < n" "unat va + n \<le> unat e" "unat off + n \<le> length data" "inv ld1" "pm_pt s1 = pm_pt s" "pm_kalloc s1 = pm_kalloc s"
    "\<forall>fuel. segment_copy (Suc fuel) get_page ld s (vm_walk (pm_pt s) pt va) off e = segment_copy fuel get_page ld1 s1 (vm_walk (pm_pt s) pt (va + word_of_nat n)) (off + word_of_nat n) e"
    "\<forall>a. low a \<longrightarrow> vbyte s1 pt a = (if unat va \<le> unat a \<and> unat a < unat va + n then Some (data ! (unat off + (unat a - unat va))) else vbyte s pt a)"
proof -
  have lw: "low va" and ve: "unat va < unat e" using e by (simp_all add: word_less_nat_alt)
  let ?it = "vm_walk (pm_pt s) pt va"
  obtain ld1 pg where g: "get_page ld (rounddown off) = Inr (ld1, int (length pg), pg)" "inv ld1" "(rounddown off + word_of_nat (length pg) \<le> off) = (length data \<le> unat off)"
    "unat off < length data \<longrightarrow> unat (rounddown off + word_of_nat (length pg) - off) = length pg - unat off mod 4096 \<and> unat off mod 4096 < length pg \<and> unat off + (length pg - unat off mod 4096) \<le> length data"
    "\<forall>k. k \<le> length pg - unat off mod 4096 \<longrightarrow> take k (drop (unat off mod 4096) pg) = take k (drop (unat off) data)"
    by (rule get_page_at[OF ld off(1)])
  have more: "unat (rounddown off + word_of_nat (length pg) - off) = length pg - unat off mod 4096" "unat off mod 4096 < length pg" "unat off + (length pg - unat off mod 4096) \<le> length data"
    using g(4) off(2) by blast+
  note M = seg_mappedD[OF map lw order_refl page_less_end[OF e(2)] aspaceD(2)[OF sp]]
  note Z = segment_sz_unat[OF lw e(2,1) M(3)]
  define sz where "sz = min (rounddown off + word_of_nat (length pg) - off) (segment_sz ?it e)"
  define n where "n = unat sz"
  have n: "n = min (length pg - unat off mod 4096) (min ((page va + 1) * 4096) (unat e) - unat va)" using more(1) Z(1) by (simp add: n_def sz_def min_def word_le_nat_alt)
  have n2: "0 < n" "unat va + n \<le> unat e" "n \<le> length pg - unat off mod 4096" "n \<le> (page va + 1) * 4096 - unat va" using n Z(2) ve more(2) by linarith+
  have szn: "word_of_nat n = sz" by (simp add: n_def)
  define bs where "bs = take n (drop (unat off mod 4096) pg)"
  have bs: "bs = take n (drop (unat off) data)" using g(5) n2(3) by (simp add: bs_def)
  have lbs: "length bs = n" using n2(3) by (simp add: bs_def)
  let ?s = "store_bytes s (vm_pa (pm_pt s) ?it) bs"
  have room2: "\<not> length pg < unat (off mod 4096) + unat sz" using n2(3) more(2) rounddown_unat(2)[of off] by (simp add: n_def)
  have run: "\<forall>fuel. segment_copy (Suc fuel) get_page ld s ?it off e = segment_copy fuel get_page ld1 ?s (vm_walk (pm_pt s) pt (va + word_of_nat n)) (off + word_of_nat n) e"
    unfolding szn using e(2) g(1,3) off(2) M(1) room2 rounddown_unat(2)[of off] by (simp add: Let_def vm_real_find_walk bs_def n_def sz_def)
  have bnd: "unat off + n \<le> length data" "unat va + n \<le> 2 ^ 47" using more(3) n2(2,3) e(1) by linarith+
  have "vbyte ?s pt a = (if unat va \<le> unat a \<and> unat a < unat va + n then Some (data ! (unat off + (unat a - unat va))) else vbyte s pt a)" if "low a" for a
  proof -
    have "bs ! (unat a - unat va) = data ! (unat off + (unat a - unat va))" if "unat va \<le> unat a" "unat a < unat va + n"
    proof -
      have "unat a - unat va < n" using that n2(1) by linarith
      then show ?thesis using bs bnd(1) by simp
    qed
    then show ?thesis using vbyte_store[OF sp lw M(2), of bs, unfolded lbs, OF page_room[OF n2(4)] bnd(2) that] by simp
  qed
  then show ?thesis using that[OF n2(1,2) bnd(1) g(2) _ _ run] by simp
qed

lemma segment_copy_ok:
  assumes "aspace (pm_pt s) pt" "seg_mapped (pm_pt s) pt (page va) (page_end e)" "unat e \<le> 2 ^ 47" "unat e - unat va < fuel" "inv ld" "unat off + (unat e - unat va) \<le> limit"
  shows "\<exists>ld' s' r. segment_copy fuel get_page ld s (vm_walk (pm_pt s) pt va) off e = Inr (ld', s', r) \<and> inv ld' \<and> pm_pt s' = pm_pt s \<and> pm_kalloc s' = pm_kalloc s
    \<and> r = (if e \<le> va \<or> unat off + (unat e - unat va) \<le> length data then 0 else E_NOEXEC)
    \<and> (\<forall>a. low a \<longrightarrow> \<not> (unat va \<le> unat a \<and> unat a < unat e) \<longrightarrow> vbyte s' pt a = vbyte s pt a)
    \<and> (r = 0 \<longrightarrow> (\<forall>a. low a \<longrightarrow> unat va \<le> unat a \<longrightarrow> unat a < unat e \<longrightarrow> vbyte s' pt a = Some (data ! (unat off + (unat a - unat va)))))"
  using assms
proof (induction fuel arbitrary: s va off ld)
  case (Suc fuel)
  consider "\<not> va < e" | "va < e" "length data \<le> unat off" | "va < e" "unat off < length data" by linarith
  then show ?case
  proof cases
    case 1
    then show ?thesis using Suc.prems(5) by (auto simp: word_less_nat_alt word_le_nat_alt not_less)
  next
    case 2
    have ve: "unat va < unat e" using 2 by (simp add: word_less_nat_alt)
    have lim: "unat off < limit" using Suc.prems(6) ve by linarith
    obtain ld1 pg where g: "get_page ld (rounddown off) = Inr (ld1, int (length pg), pg)" "inv ld1" "(rounddown off + word_of_nat (length pg) \<le> off) = (length data \<le> unat off)"
      by (rule get_page_at[OF Suc.prems(5) lim])
    have "\<not> unat off + (unat e - unat va) \<le> length data" "\<not> e \<le> va" using ve 2 by (simp_all add: word_le_nat_alt)
    then show ?thesis using 2 g by (simp add: Let_def)
  next
    case 3
    have ve: "unat va < unat e" using 3 by (simp add: word_less_nat_alt)
    have lim: "unat off < limit" using Suc.prems(6) ve by linarith
    obtain ld1 s1 n where t: "0 < n" "unat va + n \<le> unat e" "unat off + n \<le> length data" "inv ld1" "pm_pt s1 = pm_pt s" "pm_kalloc s1 = pm_kalloc s"
      "\<forall>fuel. segment_copy (Suc fuel) get_page ld s (vm_walk (pm_pt s) pt va) off e = segment_copy fuel get_page ld1 s1 (vm_walk (pm_pt s) pt (va + word_of_nat n)) (off + word_of_nat n) e"
      "\<forall>a. low a \<longrightarrow> vbyte s1 pt a = (if unat va \<le> unat a \<and> unat a < unat va + n then Some (data ! (unat off + (unat a - unat va))) else vbyte s pt a)"
      by (rule segment_copy_turn[OF Suc.prems(1-3) 3(1) Suc.prems(5) lim 3(2)])
    let ?va = "va + word_of_nat n" and ?off = "off + word_of_nat n"
    have va': "unat ?va = unat va + n" by (rule u64_plus) (use t(2) Suc.prems(3) in simp)
    have off': "unat ?off = unat off + n" by (rule u64_plus) (use t(3) small[OF Suc.prems(5)] in simp)
    have eq: "unat ?off + (unat e - unat ?va) = unat off + (unat e - unat va)" using va' off' t(2) by linarith
    have m1: "seg_mapped (pm_pt s1) pt (page ?va) (page_end e)" unfolding t(5) by (rule seg_mapped_mono[OF Suc.prems(2) page_mono]) (simp add: va')
    have f1: "unat e - unat ?va < fuel" using va' t(1,2) Suc.prems(4) by linarith
    have sp1: "aspace (pm_pt s1) pt" using Suc.prems(1) t(5) by simp
    obtain ld' s' r where IH: "segment_copy fuel get_page ld1 s1 (vm_walk (pm_pt s) pt ?va) ?off e = Inr (ld', s', r)" "inv ld'" "pm_pt s' = pm_pt s" "pm_kalloc s' = pm_kalloc s"
      "r = (if e \<le> ?va \<or> unat off + (unat e - unat va) \<le> length data then 0 else E_NOEXEC)" "\<forall>a. low a \<longrightarrow> \<not> (unat va + n \<le> unat a \<and> unat a < unat e) \<longrightarrow> vbyte s' pt a = vbyte s1 pt a"
      "r = 0 \<longrightarrow> (\<forall>a. low a \<longrightarrow> unat va + n \<le> unat a \<longrightarrow> unat a < unat e \<longrightarrow> vbyte s' pt a = Some (data ! (unat off + n + (unat a - (unat va + n)))))"
      using Suc.IH[OF sp1 m1 Suc.prems(3) f1 t(4), of ?off, unfolded eq, OF Suc.prems(6)] unfolding va' off' t(5,6) by (elim exE conjE) (rule that, assumption+)
    have "e \<le> ?va \<Longrightarrow> unat off + (unat e - unat va) \<le> length data" using va' t(2,3) by (simp add: word_le_nat_alt)
    then have r: "r = (if e \<le> va \<or> unat off + (unat e - unat va) \<le> length data then 0 else E_NOEXEC)" using IH(5) ve by (auto simp: word_le_nat_alt)
    have out: "vbyte s' pt a = vbyte s pt a" if "low a" "\<not> (unat va \<le> unat a \<and> unat a < unat e)" for a using IH(6) that t(2,8) by auto
    have "vbyte s' pt a = Some (data ! (unat off + (unat a - unat va)))" if r0: "r = 0" and a: "low a" "unat va \<le> unat a" "unat a < unat e" for a
    proof (cases "unat a < unat va + n")
      case False
      then have "unat off + n + (unat a - (unat va + n)) = unat off + (unat a - unat va)" by linarith
      then show ?thesis using IH(7) r0 a False by simp
    qed (use IH(6) t(8) a in simp)
    then show ?thesis using t(7) IH(1-4) r out by auto
  qed
qed simp

end

section \<open>Segments\<close>

definition seg_bad :: "elf_program \<Rightarrow> bool" where
  "seg_bad ph \<longleftrightarrow> p_va ph > VA_LOWEND \<or> VA_LOWEND - p_va ph < p_memsz ph \<or> p_memsz ph < p_filesz ph"

abbreviation seg_lo :: "elf_program \<Rightarrow> nat" where "seg_lo ph \<equiv> page (p_va ph)"
abbreviation seg_hi :: "elf_program \<Rightarrow> nat" where "seg_hi ph \<equiv> page_end (p_va ph + p_memsz ph)"

text \<open>The segment is in memory: the bytes of the file, zeros after them, and every page can be read and written by the process.\<close>

definition seg_loaded :: "u8 list \<Rightarrow> procmem \<Rightarrow> u64 \<Rightarrow> elf_program \<Rightarrow> bool" where
  "seg_loaded data s pt ph \<longleftrightarrow> (\<forall>a. low a \<longrightarrow> unat (p_va ph) \<le> unat a \<longrightarrow> unat a < unat (p_va ph) + unat (p_memsz ph) \<longrightarrow>
     vbyte s pt a = Some (if unat a - unat (p_va ph) < unat (p_filesz ph) then data ! (unat (p_offset ph) + (unat a - unat (p_va ph))) else 0)
     \<and> (\<exists>pa p. vm_lookup (pm_pt s) pt a = Some (pa, p) \<and> p AND 7 = 7))"

definition seg_untouched :: "procmem \<Rightarrow> procmem \<Rightarrow> u64 \<Rightarrow> elf_program \<Rightarrow> bool" where
  "seg_untouched s s' pt ph \<longleftrightarrow> (\<forall>a. low a \<longrightarrow> page a < seg_lo ph \<or> seg_hi ph \<le> page a \<longrightarrow> vm_lookup (pm_pt s') pt a = vm_lookup (pm_pt s) pt a \<and> vbyte s' pt a = vbyte s pt a)"

lemma seg_good:
  assumes "\<not> seg_bad ph"
  shows "unat (p_va ph + p_memsz ph) = unat (p_va ph) + unat (p_memsz ph)" "unat (p_va ph) + unat (p_memsz ph) \<le> 2 ^ 47" "unat (p_filesz ph) \<le> unat (p_memsz ph)"
    "unat (p_va ph + p_filesz ph) = unat (p_va ph) + unat (p_filesz ph)"
proof -
  have v: "p_va ph \<le> VA_LOWEND" "p_memsz ph \<le> VA_LOWEND - p_va ph" "p_filesz ph \<le> p_memsz ph" using assms by (auto simp: seg_bad_def)
  then show f: "unat (p_filesz ph) \<le> unat (p_memsz ph)" by (simp add: word_le_nat_alt)
  have "unat (VA_LOWEND - p_va ph) = 2 ^ 47 - unat (p_va ph)" using unat_diff[OF v(1)] by simp
  moreover have "unat (p_va ph) \<le> 2 ^ 47" using v(1) by (simp add: word_le_nat_alt)
  ultimately show m: "unat (p_va ph) + unat (p_memsz ph) \<le> 2 ^ 47" using v(2) by (simp add: word_le_nat_alt)
  show "unat (p_va ph + p_memsz ph) = unat (p_va ph) + unat (p_memsz ph)" "unat (p_va ph + p_filesz ph) = unat (p_va ph) + unat (p_filesz ph)"
    using m f by (simp_all add: unat_word_ariths(1))
qed

lemma page_end_mono: "unat a \<le> unat b \<Longrightarrow> page_end a \<le> page_end b"
  by (simp add: page_end_def div_le_mono)

lemma seg_mapped_sub: "seg_mapped m pt lo hi \<Longrightarrow> lo \<le> lo' \<Longrightarrow> hi' \<le> hi \<Longrightarrow> seg_mapped m pt lo' hi'"
  by (auto simp: seg_mapped_def)

context program_file begin

text \<open>The two loops that fill the pages.\<close>

lemma segment_fill_ok:
  assumes good: "\<not> seg_bad ph" and sp: "aspace (pm_pt s) pt" and map: "seg_mapped (pm_pt s) pt (seg_lo ph) (seg_hi ph)" and ld: "inv ld" and lim: "unat (p_offset ph) + unat (p_filesz ph) \<le> limit"
    and fuel: "unat (p_memsz ph) < fuel"
  shows "\<exists>ld' s2 r. segment_copy fuel get_page ld s (vmiter_new (pm_pt s) pt (p_va ph)) (p_offset ph) (p_va ph + p_filesz ph) = Inr (ld', s2, r) \<and> inv ld' \<and> pm_pt s2 = pm_pt s \<and> pm_kalloc s2 = pm_kalloc s
    \<and> r = (if p_filesz ph = 0 \<or> unat (p_offset ph) + unat (p_filesz ph) \<le> length data then 0 else E_NOEXEC)
    \<and> (\<forall>a. low a \<longrightarrow> page a < seg_lo ph \<or> seg_hi ph \<le> page a \<longrightarrow> vbyte s2 pt a = vbyte s pt a)
    \<and> (r = 0 \<longrightarrow> (\<exists>s3. segment_zero fuel s2 (vmiter_new (pm_pt s2) pt (p_va ph + p_filesz ph)) (p_va ph + p_memsz ph) = Inr s3 \<and> pm_pt s3 = pm_pt s \<and> pm_kalloc s3 = pm_kalloc s
        \<and> (\<forall>a. low a \<longrightarrow> page a < seg_lo ph \<or> seg_hi ph \<le> page a \<longrightarrow> vbyte s3 pt a = vbyte s pt a) \<and> seg_loaded data s3 pt ph))"
proof -
  note G = seg_good[OF good]
  let ?va = "p_va ph" and ?ef = "p_va ph + p_filesz ph" and ?em = "p_va ph + p_memsz ph"
  have ef: "unat ?ef \<le> 2 ^ 47" "unat ?em \<le> 2 ^ 47" "unat ?ef \<le> unat ?em" using G by linarith+
  have m1: "seg_mapped (pm_pt s) pt (page ?va) (page_end ?ef)" by (rule seg_mapped_sub[OF map order_refl page_end_mono[OF ef(3)]])
  have m2: "seg_mapped (pm_pt s) pt (page ?ef) (page_end ?em)" by (rule seg_mapped_sub[OF map page_mono order_refl]) (simp add: G(4))
  have d: "unat ?ef - unat ?va = unat (p_filesz ph)" "unat ?em - unat ?ef = unat (p_memsz ph) - unat (p_filesz ph)" using G by linarith+
  have e: "?ef \<le> ?va \<longleftrightarrow> p_filesz ph = 0" using G(4) by (simp add: word_le_nat_alt unat_eq_0[symmetric])
  have f1: "unat ?ef - unat ?va < fuel" and f2: "unat (p_offset ph) + (unat ?ef - unat ?va) \<le> limit" using d(1) fuel G(3) lim by simp_all
  obtain ld' s2 r where c: "segment_copy fuel get_page ld s (vm_walk (pm_pt s) pt ?va) (p_offset ph) ?ef = Inr (ld', s2, r)" "inv ld'" "pm_pt s2 = pm_pt s" "pm_kalloc s2 = pm_kalloc s"
    "r = (if ?ef \<le> ?va \<or> unat (p_offset ph) + (unat ?ef - unat ?va) \<le> length data then 0 else E_NOEXEC)"
    "\<forall>a. low a \<longrightarrow> \<not> (unat ?va \<le> unat a \<and> unat a < unat ?ef) \<longrightarrow> vbyte s2 pt a = vbyte s pt a"
    "r = 0 \<longrightarrow> (\<forall>a. low a \<longrightarrow> unat ?va \<le> unat a \<longrightarrow> unat a < unat ?ef \<longrightarrow> vbyte s2 pt a = Some (data ! (unat (p_offset ph) + (unat a - unat ?va))))"
    using segment_copy_ok[OF sp m1 ef(1) f1 ld f2] by (elim exE conjE) (rule that, assumption+)
  have sp2: "aspace (pm_pt s2) pt" "seg_mapped (pm_pt s2) pt (page ?ef) (page_end ?em)" using sp m2 c(3) by simp_all
  have "unat ?em - unat ?ef < fuel" using d(2) fuel by linarith
  from segment_zero_ok[OF sp2 ef(2) this]
  obtain s3 where z: "segment_zero fuel s2 (vm_walk (pm_pt s2) pt ?ef) ?em = Inr s3" "pm_pt s3 = pm_pt s" "pm_kalloc s3 = pm_kalloc s"
    "\<forall>a. low a \<longrightarrow> vbyte s3 pt a = (if unat ?ef \<le> unat a \<and> unat a < unat ?em then Some 0 else vbyte s2 pt a)" using c(3,4) by auto
  have far: "\<not> (unat ?va \<le> unat a \<and> unat a < unat ?em)" if "page a < page ?va \<or> page_end ?em \<le> page a" for a
    using that page_mono[of ?va a] page_less_end[of a ?em] by (auto simp: word_less_nat_alt)
  have o2: "\<forall>a. low a \<longrightarrow> page a < page ?va \<or> page_end ?em \<le> page a \<longrightarrow> vbyte s2 pt a = vbyte s pt a" using c(6) far ef(3) by fastforce
  have o3: "\<forall>a. low a \<longrightarrow> page a < page ?va \<or> page_end ?em \<le> page a \<longrightarrow> vbyte s3 pt a = vbyte s pt a" using z(4) o2 far G(4) by fastforce
  have "seg_loaded data s3 pt ph" if r0: "r = 0" unfolding seg_loaded_def
  proof (intro allI impI conjI)
    fix a assume a: "low a" "unat ?va \<le> unat a" "unat a < unat ?va + unat (p_memsz ph)"
    have "page ?va \<le> page a" "page a < page_end ?em" using page_mono[OF a(2)] page_less_end[of a ?em] a(3) G(1) by (simp_all add: word_less_nat_alt)
    then show "\<exists>pa p. vm_lookup (pm_pt s3) pt a = Some (pa, p) \<and> p AND 7 = 7" using map a(1) z(2) unfolding seg_mapped_def by simp
    show "vbyte s3 pt a = Some (if unat a - unat ?va < unat (p_filesz ph) then data ! (unat (p_offset ph) + (unat a - unat ?va)) else 0)"
      using z(4) c(7) r0 a G by auto
  qed
  then show ?thesis using c(1-5) z(1-3) o2 o3 d(1) e by (simp add: vmiter_new_walk)
qed

lemma load_segment_ok:
  assumes sp: "aspace (pm_pt s) pt" and ks: "kallocs_ok (pm_pt s) pt (pm_kalloc s)" and ld: "inv ld" and lim: "unat (p_offset ph) + unat (p_filesz ph) \<le> limit"
  shows "\<exists>ld' s' r. load_segment get_page ld s pt ph = Inr (ld', s', r) \<and> inv ld' \<and> aspace (pm_pt s') pt \<and> kallocs_ok (pm_pt s') pt (pm_kalloc s') \<and> r \<in> {0, E_NOMEM, E_NOEXEC}
    \<and> seg_untouched s s' pt ph \<and> (r = 0 \<longrightarrow> seg_loaded data s' pt ph) \<and> (seg_bad ph \<longrightarrow> r = E_NOEXEC)
    \<and> (\<not> seg_bad ph \<longrightarrow> kenough (seg_hi ph - seg_lo ph) (pm_kalloc s) \<longrightarrow>
        r = (if p_filesz ph = 0 \<or> unat (p_offset ph) + unat (p_filesz ph) \<le> length data then 0 else E_NOEXEC) \<and> pm_kalloc s' = drop (seg_hi ph - seg_lo ph) (pm_kalloc s))"
proof (cases "seg_bad ph")
  case True
  then have "load_segment get_page ld s pt ph = Inr (ld, s, E_NOEXEC)" by (auto simp: load_segment_def seg_bad_def Let_def)
  then show ?thesis using True sp ks ld by (simp add: seg_untouched_def)
next
  case good: False
  note G = seg_good[OF good]
  let ?va = "p_va ph" and ?em = "p_va ph + p_memsz ph" and ?f = "unat (p_memsz ph) + unat pagesize"
  have rd: "unat (rounddown ?va) mod 4096 = 0" "page (rounddown ?va) = page ?va" by (simp_all add: rounddown_unat(1) page_def)
  have rl: "unat (rounddown ?va) \<le> unat ?va" "unat ?va < unat (rounddown ?va) + 4096"
    using rounddown_unat(1)[of ?va] div_mult_mod_eq[of "unat ?va" 4096] mod_less_divisor[of 4096 "unat ?va"] by linarith+
  have em: "unat ?em \<le> 2 ^ 47" using G(1,2) by simp
  have fu: "unat ?em - unat (rounddown ?va) < ?f" using G(1) rl by simp
  obtain s1 r1 where a: "segment_alloc ?f s (vm_walk (pm_pt s) pt (rounddown ?va)) ?em = Inr (s1, r1)" "aspace (pm_pt s1) pt" "kallocs_ok (pm_pt s1) pt (pm_kalloc s1)" "pm_mem s1 = pm_mem s"
    "r1 = 0 \<or> r1 = E_NOMEM" "outside_same (pm_pt s) (pm_pt s1) pt (page ?va) (page_end ?em)" "r1 = 0 \<longrightarrow> seg_mapped (pm_pt s1) pt (page ?va) (page_end ?em)"
    "kenough (page_end ?em - page ?va) (pm_kalloc s) \<longrightarrow> r1 = 0 \<and> pm_kalloc s1 = drop (page_end ?em - page ?va) (pm_kalloc s)"
    using segment_alloc_ok[OF sp ks rd(1) em fu] unfolding rd(2) by (elim exE conjE) (rule that, assumption+)
  have o1: "\<forall>a. low a \<longrightarrow> page a < page ?va \<or> page_end ?em \<le> page a \<longrightarrow> vm_lookup (pm_pt s1) pt a = vm_lookup (pm_pt s) pt a \<and> vbyte s1 pt a = vbyte s pt a"
    using a(4,6) by (simp add: outside_same_def vbyte_def paddr_def)
  have un: "\<not> (?va > VA_LOWEND \<or> VA_LOWEND - ?va < p_memsz ph \<or> p_memsz ph < p_filesz ph)" using good by (simp add: seg_bad_def)
  show ?thesis
  proof (cases "r1 = 0")
    case False
    then have "load_segment get_page ld s pt ph = Inr (ld, s1, E_NOMEM)" using a(1,5) un by (auto simp: load_segment_def Let_def vmiter_new_walk)
    then show ?thesis using a(2,3,8) ld o1 good False by (auto simp: seg_untouched_def)
  next
    case True
    have m1: "seg_mapped (pm_pt s1) pt (seg_lo ph) (seg_hi ph)" using a(7) True by simp
    have fm: "unat (p_memsz ph) < ?f" by simp
    obtain ld' s2 r where c: "segment_copy ?f get_page ld s1 (vmiter_new (pm_pt s1) pt ?va) (p_offset ph) (?va + p_filesz ph) = Inr (ld', s2, r)" "inv ld'" "pm_pt s2 = pm_pt s1" "pm_kalloc s2 = pm_kalloc s1"
      "r = (if p_filesz ph = 0 \<or> unat (p_offset ph) + unat (p_filesz ph) \<le> length data then 0 else E_NOEXEC)"
      "\<forall>a. low a \<longrightarrow> page a < seg_lo ph \<or> seg_hi ph \<le> page a \<longrightarrow> vbyte s2 pt a = vbyte s1 pt a"
      "r = 0 \<longrightarrow> (\<exists>s3. segment_zero ?f s2 (vmiter_new (pm_pt s2) pt (?va + p_filesz ph)) ?em = Inr s3 \<and> pm_pt s3 = pm_pt s1 \<and> pm_kalloc s3 = pm_kalloc s1
        \<and> (\<forall>a. low a \<longrightarrow> page a < seg_lo ph \<or> seg_hi ph \<le> page a \<longrightarrow> vbyte s3 pt a = vbyte s1 pt a) \<and> seg_loaded data s3 pt ph)"
      using segment_fill_ok[OF good a(2) m1 ld lim fm] by (elim exE conjE) (rule that, assumption+)
    have run: "load_segment get_page ld s pt ph = (if r < 0 then Inr (ld', s2, r) else rbind (segment_zero ?f s2 (vmiter_new (pm_pt s2) pt (?va + p_filesz ph)) ?em) (\<lambda>s3. Inr (ld', s3, 0)))"
      using a(1) True c(1) un by (simp add: load_segment_def Let_def vmiter_new_walk)
    show ?thesis
    proof (cases "r = 0")
      case r: True
      then obtain s3 where z: "segment_zero ?f s2 (vmiter_new (pm_pt s2) pt (?va + p_filesz ph)) ?em = Inr s3" "pm_pt s3 = pm_pt s1" "pm_kalloc s3 = pm_kalloc s1"
        "\<forall>a. low a \<longrightarrow> page a < seg_lo ph \<or> seg_hi ph \<le> page a \<longrightarrow> vbyte s3 pt a = vbyte s1 pt a" "seg_loaded data s3 pt ph"
        using c(7) by blast
      have "seg_untouched s s3 pt ph" using o1 z(2,4) by (simp add: seg_untouched_def)
      then show ?thesis using run r z a(2,3,8) c(2,5) good by simp
    next
      case False
      then have rE: "r = E_NOEXEC" using c(5) by (simp split: if_splits)
      have "seg_untouched s s2 pt ph" using o1 c(3,6) by (simp add: seg_untouched_def)
      then show ?thesis using run rE a(2,3,8) c(2-5) good by simp
    qed
  qed
qed

end

end
