(* ===== verification/Chkfs_Map.thy ===== *)
theory Chkfs_Map
  imports Chkfs
begin

text \<open>
  The block map of a file as one function, \<open>file_bn\<close>: \<open>get_data_block\<close> and every position of the file iterator agree with it, and a read
  delivers the bytes it selects.  The free-block bitmap and what \<open>allocate_block\<close> does to it.
\<close>


section \<open>The block map\<close>

text \<open>
  The reference: the pointer block of each class of block indices (class 1 hangs off the inode, the others off the doubly-indirect block), and the number
  of each data block, 0 where there is none.
\<close>

abbreviation maxblocks :: nat where "maxblocks \<equiv> ndirect + nindirect + nindirect * nindirect"

definition nonnull :: "chkfs \<Rightarrow> u32 \<Rightarrow> u32 option" where
  "nonnull fs b = (if b \<noteq> 0 then disk_entry fs b else None)"

definition class_bn :: "chkfs \<Rightarrow> nat \<Rightarrow> nat \<Rightarrow> u32" where
  "class_bn fs n c =
     (if c = 0 then 0 else if c = 1 then ino_indirect (fs_inode fs n)
      else case nonnull fs (ino_indirect2 (fs_inode fs n)) of None \<Rightarrow> 0 | Some e \<Rightarrow> ptr_at (fs_block fs e) (c - 2))"

definition file_bn :: "chkfs \<Rightarrow> nat \<Rightarrow> nat \<Rightarrow> u32" where
  "file_bn fs n bi =
     (if bi < ndirect then ino_direct (fs_inode fs n) ! bi
      else case nonnull fs (class_bn fs n (iclass bi)) of None \<Rightarrow> 0 | Some e \<Rightarrow> ptr_at (fs_block fs e) ((bi - ndirect) mod nindirect))"

lemma iclass_cases:
  "bi < ndirect \<Longrightarrow> iclass bi = 0" "ndirect \<le> bi \<Longrightarrow> bi < ndirect + nindirect \<Longrightarrow> iclass bi = 1"
  "ndirect + nindirect \<le> bi \<Longrightarrow> iclass bi = (bi - ndirect - nindirect) div nindirect + 2"
  "ndirect \<le> bi \<Longrightarrow> 0 < iclass bi" "1 < iclass bi \<longleftrightarrow> ndirect + nindirect \<le> bi"
  "bi < maxblocks \<Longrightarrow> iclass bi - 2 < nindirect"
  by (auto simp: iclass_def)

lemma nonnull_0 [simp]: "nonnull fs 0 = None"
  by (simp add: nonnull_def)

lemma read_loc_simps [simp]:
  "i < nindirect \<Longrightarrow> read_loc fs n (L_word e i) = Inr (ptr_at (fs_block fs e) i)"
  "i < ndirect \<Longrightarrow> read_loc fs n (L_direct i) = Inr (ino_direct (fs_inode fs n) ! i)"
  "read_loc fs n L_indirect = Inr (ino_indirect (fs_inode fs n))"
  by (simp_all add: read_loc_def)

lemma bi_index_simps [simp]:
  "bi < maxblocks \<Longrightarrow> bi_direct_index bi = Inr (if bi < ndirect then bi else (bi - ndirect) mod nindirect)"
  "ndirect + nindirect \<le> bi \<Longrightarrow> bi < maxblocks \<Longrightarrow> bi_indirect_index bi = Inr ((bi - ndirect - nindirect) div nindirect)"
  by (simp_all add: bi_direct_index_def bi_indirect_index_def)

lemma get_data_block_eq:
  assumes b: "bi < maxblocks"
  shows "get_data_block fs n (bi * blocksize) = Inr (nonnull fs (file_bn fs n bi))"
proof -
  have m: "bi * blocksize div blocksize mod 2 ^ 32 = bi" using b by simp
  note nn = nonnull_def[of fs, symmetric]
  consider "bi < ndirect" | "ndirect \<le> bi" "bi < ndirect + nindirect" | "ndirect + nindirect \<le> bi" by linarith
  then show ?thesis
  proof cases
    case 1
    then show ?thesis using b unfolding get_data_block_def Let_def m nn by (simp add: file_bn_def)
  next
    case 2
    then have c: "class_bn fs n (iclass bi) = ino_indirect (fs_inode fs n)" using iclass_cases(2)[OF 2] by (simp add: class_bn_def)
    show ?thesis using 2 b unfolding get_data_block_def Let_def m nn by (simp add: file_bn_def c split: option.split)
  next
    case 3
    have i: "iclass bi = (bi - ndirect - nindirect) div nindirect + 2" "(bi - ndirect - nindirect) div nindirect < nindirect"
      using iclass_cases(3)[OF 3] b by auto
    have c: "class_bn fs n (iclass bi) = (case nonnull fs (ino_indirect2 (fs_inode fs n)) of None \<Rightarrow> 0
      | Some e \<Rightarrow> ptr_at (fs_block fs e) ((bi - ndirect - nindirect) div nindirect))"
      unfolding class_bn_def i(1) by (auto split: option.split)
    show ?thesis using 3 b i(2) unfolding get_data_block_def Let_def m nn file_bn_def c by (simp split: option.split)
  qed
qed

section \<open>The iterator\<close>

definition it_ok :: "chkfs \<Rightarrow> nat \<Rightarrow> fileiter \<Rightarrow> bool" where
  "it_ok fs n it \<longleftrightarrow> it_off it < chkfs_maxsize
     \<and> (it_indirect2 it = None \<or> it_indirect2 it = nonnull fs (ino_indirect2 (fs_inode fs n)))
     \<and> (it_indirect it = None \<or> it_indirect it = nonnull fs (class_bn fs n (iclass (it_off it div blocksize))))"

definition it_at :: "chkfs \<Rightarrow> nat \<Rightarrow> nat \<Rightarrow> loc option" where
  "it_at fs n bi = (if bi < ndirect then Some (L_direct bi)
     else map_option (\<lambda>e. L_word e ((bi - ndirect) mod nindirect)) (nonnull fs (class_bn fs n (iclass bi))))"

lemma it_at_read:
  assumes "bi < maxblocks" "it_dptr it = it_at fs n bi"
  shows "it_blocknum fs n it = Inr (file_bn fs n bi)"
  using assms by (auto simp: it_at_def it_blocknum_def file_bn_def split: option.split)

lemma class_bn_0 [simp]: "class_bn fs n 0 = 0"
  by (simp add: class_bn_def)

lemma fileiter_find_correct:
  assumes ok: "it_ok fs n it" and off: "off < chkfs_maxsize"
  obtains it' where "fileiter_find fs n it off = Inr it'" "it_ok fs n it'" "it_off it' = off" "it_dptr it' = it_at fs n (off div blocksize)"
    "ndirect + nindirect \<le> off div blocksize \<Longrightarrow> it_indirect2 it' = nonnull fs (ino_indirect2 (fs_inode fs n))"
    "ndirect \<le> off div blocksize \<Longrightarrow> it_indirect it' = nonnull fs (class_bn fs n (iclass (off div blocksize)))"
proof -
  define bi where "bi = off div blocksize"
  have b: "bi < maxblocks" using off by (auto simp: bi_def)
  have mb: "min off chkfs_maxsize div blocksize = bi" using off by (simp add: bi_def)
  have ob: "it_off it div blocksize mod 2 ^ 32 = it_off it div blocksize" using ok by (auto simp: it_ok_def)
  note nn = nonnull_def[of fs, symmetric]
  define it1 where "it1 = it\<lparr>it_indirect := (if it_indirect it \<noteq> None \<and> iclass bi \<noteq> iclass (it_off it div blocksize) then None else it_indirect it),
                   it_off := off, it_dptr := None\<rparr>"
  define it2 where "it2 = (if ndirect + nindirect \<le> bi \<and> it_indirect2 it1 = None
                 then it1\<lparr>it_indirect2 := nonnull fs (ino_indirect2 (fs_inode fs n))\<rparr> else it1)"
  have F: "fileiter_find fs n it off = (if ndirect + nindirect \<le> bi \<and> it_indirect2 it2 = None then Inr it2
         else rbind (if ndirect \<le> bi \<and> it_indirect it2 = None
                     then rbind (get_iptr it2 bi) (\<lambda>l. rbind (read_loc fs n l) (\<lambda>v. Inr (it2\<lparr>it_indirect := nonnull fs v\<rparr>)))
                     else Inr it2) (\<lambda>it3.
                if ndirect \<le> bi \<and> it_indirect it3 = None then Inr it3
                else rbind (get_dptr it3 bi) (\<lambda>d. Inr (it3\<lparr>it_dptr := Some d\<rparr>))))"
    unfolding fileiter_find_def Let_def mb ob nn it1_def[symmetric] it2_def[symmetric] by (rule refl)
  have i2: "it_indirect2 it2 = None \<or> it_indirect2 it2 = nonnull fs (ino_indirect2 (fs_inode fs n))"
    "ndirect + nindirect \<le> bi \<Longrightarrow> it_indirect2 it2 = nonnull fs (ino_indirect2 (fs_inode fs n))"
    using ok by (auto simp: it2_def it1_def it_ok_def)
  have ind: "it_indirect it2 = None \<or> it_indirect it2 = nonnull fs (class_bn fs n (iclass bi))" and o2: "it_off it2 = off" "it_dptr it2 = None"
    using ok by (auto simp: it2_def it1_def it_ok_def)
  have iptr: "\<exists>l. get_iptr it2 bi = Inr l \<and> read_loc fs n l = Inr (class_bn fs n (iclass bi))" if "ndirect \<le> bi" "\<not> (ndirect + nindirect \<le> bi \<and> it_indirect2 it2 = None)"
  proof (cases "ndirect + nindirect \<le> bi")
    case True
    note h = that
    obtain e where e: "it_indirect2 it2 = Some e" using h(2) True by auto
    then show ?thesis using i2(2)[OF True, symmetric] iclass_cases(6)[OF b] iclass_cases(5)[of bi] True
      by (auto simp: get_iptr_def class_bn_def Let_def)
  next
    case False
    then show ?thesis using that iclass_cases(2)[of bi] by (simp add: get_iptr_def class_bn_def Let_def)
  qed
  have fin: "it_ok fs n it'" if "it_off it' = off" "it_indirect2 it' = it_indirect2 it2" "it_indirect it' = None \<or> it_indirect it' = nonnull fs (class_bn fs n (iclass bi))" for it'
    using that i2(1) off by (simp add: it_ok_def bi_def)
  show thesis
  proof (cases "ndirect + nindirect \<le> bi \<and> it_indirect2 it2 = None")
    case True
    have "nonnull fs (class_bn fs n (iclass bi)) = None" using True i2(2) iclass_cases(5)[of bi] by (simp add: class_bn_def)
    then show thesis using that[of it2] True F fin[of it2] ind o2 i2(2) by (simp add: it_at_def bi_def[symmetric])
  next
    case False
    define it3 where "it3 = (if ndirect \<le> bi \<and> it_indirect it2 = None then it2\<lparr>it_indirect := nonnull fs (class_bn fs n (iclass bi))\<rparr> else it2)"
    have F3: "fileiter_find fs n it off = (if ndirect \<le> bi \<and> it_indirect it3 = None then Inr it3
                else rbind (get_dptr it3 bi) (\<lambda>d. Inr (it3\<lparr>it_dptr := Some d\<rparr>)))"
      using F False iptr by (auto simp: it3_def)
    have e3: "it_off it3 = off" "it_indirect2 it3 = it_indirect2 it2" "it_dptr it3 = None"
      "ndirect \<le> bi \<Longrightarrow> it_indirect it3 = nonnull fs (class_bn fs n (iclass bi))" "it_indirect it3 = None \<or> it_indirect it3 = nonnull fs (class_bn fs n (iclass bi))"
      using o2 ind by (auto simp: it3_def)
    show thesis
    proof (cases "ndirect \<le> bi \<and> it_indirect it3 = None")
      case True
      then show thesis using that[of it3] F3 fin[OF e3(1,2,5)] e3 i2(2) by (simp add: it_at_def bi_def[symmetric])
    next
      case False
      obtain d where d: "get_dptr it3 bi = Inr d" "Some d = it_at fs n bi"
        using False e3(4) b by (cases "bi < ndirect") (auto simp: get_dptr_def it_at_def)
      have "fileiter_find fs n it off = Inr (it3\<lparr>it_dptr := Some d\<rparr>)" using F3 False d by auto
      moreover have "it_ok fs n (it3\<lparr>it_dptr := Some d\<rparr>)" by (rule fin) (use e3 in simp_all)
      ultimately show thesis using that[of "it3\<lparr>it_dptr := Some d\<rparr>"] d(2) e3 i2(2) by (simp add: bi_def[symmetric])
    qed
  qed
qed


text \<open>A sequence of moves of the iterator.\<close>

primrec find_all :: "chkfs \<Rightarrow> nat \<Rightarrow> fileiter \<Rightarrow> nat list \<Rightarrow> fileiter res" where
  "find_all fs n it [] = Inr it"
| "find_all fs n it (off # offs) = rbind (fileiter_find fs n it off) (\<lambda>it1. find_all fs n it1 offs)"

lemma find_all_ok:
  "it_ok fs n it \<Longrightarrow> \<forall>x \<in> set offs. x < chkfs_maxsize \<Longrightarrow> \<exists>it'. find_all fs n it offs = Inr it' \<and> it_ok fs n it'"
proof (induction offs arbitrary: it)
  case (Cons off offs)
  obtain it1 where "fileiter_find fs n it off = Inr it1" "it_ok fs n it1"
    using fileiter_find_correct[OF Cons.prems(1), of off] Cons.prems(2) by auto
  then show ?case using Cons.IH[of it1] Cons.prems(2) by simp
qed simp

lemma find_all_append: "find_all fs n it (xs @ ys) = rbind (find_all fs n it xs) (\<lambda>it1. find_all fs n it1 ys)"
  by (induction xs arbitrary: it) (simp_all add: rbind_assoc)

lemma it_ok_new: "it_ok fs n fileiter_new"
  by (simp add: it_ok_def fileiter_new_def)

text \<open>
  C36: However the file iterator was moved before, it then stands at the block number that the inode and its pointer blocks give for the offset, and
  \<open>get_data_block\<close> loads the same block.
\<close>
theorem fileiter_is_block_map:
  assumes offs: "\<forall>x \<in> set (offs @ [off]). x < chkfs_maxsize"
  shows "\<exists>it bn. find_all fs n fileiter_new (offs @ [off]) = Inr it \<and> it_off it = off \<and> it_blocknum fs n it = Inr bn \<and> bn = file_bn fs n (off div blocksize)
    \<and> get_data_block fs n (off div blocksize * blocksize) = Inr (if bn = 0 then None else disk_entry fs bn)"
proof -
  have o: "off < chkfs_maxsize" "\<forall>x \<in> set offs. x < chkfs_maxsize" using offs by auto
  obtain it1 where it1: "find_all fs n fileiter_new offs = Inr it1" "it_ok fs n it1" using find_all_ok[OF it_ok_new o(2)] by blast
  obtain it2 where it2: "fileiter_find fs n it1 off = Inr it2" "it_off it2 = off" "it_dptr it2 = it_at fs n (off div blocksize)"
    using fileiter_find_correct[OF it1(2) o(1)] by metis
  have b: "off div blocksize < maxblocks" using o(1) by auto
  have "find_all fs n fileiter_new (offs @ [off]) = Inr it2" using it1(1) it2(1) by (simp add: find_all_append)
  moreover note it_at_read[OF b it2(3)] get_data_block_eq[OF b, of fs n]
  ultimately show ?thesis using it2(2) by (auto simp: nonnull_def)
qed

section \<open>Reading\<close>

definition file_byte :: "chkfs \<Rightarrow> nat \<Rightarrow> nat \<Rightarrow> u8" where
  "file_byte fs n i = fs_block fs (file_bn fs n (i div blocksize)) ! (i mod blocksize)"

definition file_bytes :: "chkfs \<Rightarrow> nat \<Rightarrow> nat \<Rightarrow> nat \<Rightarrow> u8 list" where
  "file_bytes fs n off k = map (file_byte fs n) [off..<off + k]"

definition block_here :: "chkfs \<Rightarrow> nat \<Rightarrow> nat \<Rightarrow> bool" where
  "block_here fs n i \<longleftrightarrow> i div blocksize < maxblocks \<and> nonnull fs (file_bn fs n (i div blocksize)) \<noteq> None"

abbreviation file_size :: "chkfs \<Rightarrow> nat \<Rightarrow> nat" where "file_size fs n \<equiv> unat (ino_size (fs_inode fs n))"

lemma block_here_get:
  assumes "block_here fs n i"
  shows "get_data_block fs n (i div blocksize * blocksize) = Inr (Some (file_bn fs n (i div blocksize)))"
  using assms get_data_block_eq[of "i div blocksize" fs n] by (auto simp: block_here_def nonnull_def disk_entry_def split: if_splits)

lemma same_block: "off mod blocksize + j < blocksize \<Longrightarrow> (off + j) div blocksize = off div blocksize \<and> (off + j) mod blocksize = off mod blocksize + j"
proof -
  assume a: "off mod blocksize + j < blocksize"
  have "(off + j) mod blocksize = (off mod blocksize + j) mod blocksize" by (simp add: mod_add_left_eq)
  moreover have "(off + j) div blocksize = off div blocksize" using a by (simp add: div_add1_eq[of off j])
  ultimately show ?thesis using a by simp
qed

lemma file_bytes_block:
  assumes "off mod blocksize + k \<le> blocksize" "length (fs_block fs (file_bn fs n (off div blocksize))) = blocksize"
  shows "take k (drop (off mod blocksize) (fs_block fs (file_bn fs n (off div blocksize)))) = file_bytes fs n off k"
proof (rule nth_equalityI)
  show "length (take k (drop (off mod blocksize) (fs_block fs (file_bn fs n (off div blocksize))))) = length (file_bytes fs n off k)"
    using assms by (simp add: file_bytes_def)
  fix i assume "i < length (take k (drop (off mod blocksize) (fs_block fs (file_bn fs n (off div blocksize)))))"
  then have i: "i < k" by simp
  then have "(off + i) div blocksize = off div blocksize" "(off + i) mod blocksize = off mod blocksize + i" using same_block[of off i] assms(1) by auto
  then show "take k (drop (off mod blocksize) (fs_block fs (file_bn fs n (off div blocksize)))) ! i = file_bytes fs n off k ! i"
    using i assms by (simp add: file_bytes_def file_byte_def)
qed

lemma file_bytes_append: "file_bytes fs n off (j + k) = file_bytes fs n off j @ file_bytes fs n (off + j) k"
  unfolding file_bytes_def by (metis add.assoc le_add1 map_append upt_add_eq_append)

definition fs_blocks_ok :: "chkfs \<Rightarrow> bool" where
  "fs_blocks_ok fs \<longleftrightarrow> (\<forall>b. length (fs_block fs b) = blocksize)"

lemma sub_wrap: "a \<le> s \<Longrightarrow> s < M \<Longrightarrow> (s + M - a) mod M = s - a" for a s M :: nat
proof -
  assume "a \<le> s" "s < M"
  then have e: "s + M - a = (s - a) + M" by simp
  have "(s - a + M) mod M = s - a" using \<open>s < M\<close> by simp
  then show ?thesis by (simp only: e)
qed

lemma inode_read_loop_correct:
  assumes "fs_blocks_ok fs" "off \<le> file_size fs n" "\<forall>i. off \<le> i \<and> i < min (file_size fs n) (off + sz) \<longrightarrow> block_here fs n i" "off + sz < 2 ^ 64" "sz < fuel"
  shows "inode_read_loop fuel fs n sz off out = Inr (out @ file_bytes fs n off (min sz (file_size fs n - off)), off + min sz (file_size fs n - off))"
  using assms
proof (induction fuel arbitrary: sz off out)
  case (Suc fuel)
  let ?s = "file_size fs n" and ?bo = "off div blocksize * blocksize"
  have s32: "?s < 2 ^ 32" by (rule u32_bound)
  have left: "(?s + 2 ^ 64 - off) mod 2 ^ 64 = ?s - off" by (rule sub_wrap[OF Suc.prems(2)]) (use s32 in simp)
  have bo: "?bo + off mod blocksize = off" "off - ?bo = off mod blocksize" "off mod blocksize < blocksize" by (simp_all add: minus_div_mult_eq_mod)
  have ob: "off div blocksize < maxblocks" using Suc.prems(2) s32 by simp
  show ?case
  proof (cases "sz = 0 \<or> off = ?s")
    case True
    note g = get_data_block_eq[OF ob, of fs n]
    show ?thesis
    proof (cases "sz = 0")
      case True
      then show ?thesis by (simp add: file_bytes_def)
    next
      case nz: False
      then have z: "?s - off = 0" using True by simp
      show ?thesis
      proof (cases "nonnull fs (file_bn fs n (off div blocksize))")
        case None
        then show ?thesis using nz g z by (simp add: Let_def file_bytes_def)
      next
        case (Some b)
        have "(unat (ino_size (fs_inode fs n)) + 2 ^ 64 - off) mod 2 ^ 64 = 0" using left z by (simp only:)
        then show ?thesis unfolding inode_read_loop.simps(2) g Some Let_def rbind_simps option.case using nz z by (simp add: file_bytes_def leD)
      qed
    qed
  next
    case False
    then have "off < ?s" "0 < sz" using Suc.prems(2) by auto
    then have h: "block_here fs n off" using Suc.prems(3) by auto
    define nc where "nc = min (min sz (blocksize - off mod blocksize)) (?s - off)"
    have cross: "(off + sz) mod 2 ^ 64 > ?bo + blocksize \<longleftrightarrow> blocksize - off mod blocksize < sz" using Suc.prems(4) bo by auto
    have nc: "0 < nc" "nc \<le> sz" "off mod blocksize + nc \<le> blocksize" "off + nc \<le> ?s" using \<open>off < ?s\<close> \<open>0 < sz\<close> bo(3) by (auto simp: nc_def)
    have nc2: "(let ncopy1 = (if (off + sz) mod 2 ^ 64 > ?bo + blocksize then blocksize - off mod blocksize else sz)
      in if ncopy1 > ?s - off then ?s - off else ncopy1) = nc" unfolding cross nc_def Let_def by auto
    have bl: "length (fs_block fs (file_bn fs n (off div blocksize))) = blocksize" using Suc.prems(1) by (simp add: fs_blocks_ok_def)
    have k: "min sz (?s - off) = nc + min (sz - nc) (?s - (off + nc))" using nc by auto
    have "inode_read_loop (Suc fuel) fs n sz off out = inode_read_loop fuel fs n (sz - nc) (off + nc) (out @ file_bytes fs n off nc)"
      using \<open>0 < sz\<close> nc nc2 block_here_get[OF h] left bo(2) file_bytes_block[OF nc(3) bl] by (simp add: Let_def)
    also have "\<dots> = Inr ((out @ file_bytes fs n off nc) @ file_bytes fs n (off + nc) (min (sz - nc) (?s - (off + nc))), off + nc + min (sz - nc) (?s - (off + nc)))"
      by (rule Suc.IH) (use Suc.prems nc in auto)
    finally show ?thesis using k by (simp add: file_bytes_append add.assoc)
  qed
qed simp

text \<open>
  A read at an offset within the file returns exactly the bytes from there on, as many as asked for or up to the end of the file, and advances
  the offset by their number, when no block of that range is missing and the cache has room for them.
\<close>
theorem inode_read_correct:
  assumes "fs_blocks_ok fs" "off \<le> file_size fs n" "\<forall>i. off \<le> i \<and> i < min (file_size fs n) (off + sz) \<longrightarrow> block_here fs n i" "off + sz < 2 ^ 64"
  shows "inode_read fs n sz off = Inr (file_bytes fs n off (min sz (file_size fs n - off)), off + min sz (file_size fs n - off))"
  using inode_read_loop_correct[OF assms, of "Suc sz" "[]"] by (simp add: inode_read_def)

text \<open>
  C37: A read that starts beyond the end of the file is not stopped there: the subtraction of the offset from the size wraps around, and the
  read delivers the old contents of the block.
\<close>
theorem inode_read_past_end:
  assumes ok: "fs_blocks_ok fs" and off: "file_size fs n < off" "block_here fs n off" and sz: "0 < sz" "off mod blocksize + sz \<le> blocksize"
  shows "inode_read fs n sz off = Inr (file_bytes fs n off sz, off + sz)"
proof -
  let ?s = "file_size fs n" and ?bo = "off div blocksize * blocksize"
  have ob: "off div blocksize < maxblocks" using off(2) by (simp add: block_here_def)
  then have o: "off < chkfs_maxsize" by (simp add: less_mult_imp_div_less div_less_iff_less_mult)
  have bo: "?bo + off mod blocksize = off" "off - ?bo = off mod blocksize" by (simp_all add: minus_div_mult_eq_mod)
  have "(?s + 2 ^ 64 - off) mod 2 ^ 64 = ?s + 2 ^ 64 - off" using off(1) o by simp
  then have left: "sz \<le> (?s + 2 ^ 64 - off) mod 2 ^ 64" using sz o by simp
  have cross: "\<not> (off + sz) mod 2 ^ 64 > ?bo + blocksize"
  proof -
    have "off + sz \<le> ?bo + blocksize" using bo(1) sz(2) by linarith
    moreover have "(off + sz) mod 2 ^ 64 \<le> off + sz" by (rule mod_less_eq_dividend)
    ultimately show ?thesis by linarith
  qed
  have bl: "length (fs_block fs (file_bn fs n (off div blocksize))) = blocksize" using ok by (simp add: fs_blocks_ok_def)
  obtain f where f: "sz = Suc f" using sz(1) by (cases sz) auto
  have "inode_read_loop (Suc sz) fs n sz off [] = inode_read_loop sz fs n 0 (off + sz) (file_bytes fs n off sz)"
    using sz left cross block_here_get[OF off(2)] bo(2) file_bytes_block[OF sz(2) bl] by (simp add: Let_def)
  then show ?thesis by (simp add: inode_read_def f)
qed


section \<open>Pointer blocks\<close>

lemma length_set_ptr [simp]: "length (set_ptr b i v) = length b"
  by (simp add: set_ptr_def)

lemma ptr_bytes: "(ucast (ucast v :: u8) :: u32) OR push_bit 8 (ucast (ucast (drop_bit 8 v) :: u8)) OR push_bit 16 (ucast (ucast (drop_bit 16 v) :: u8))
    OR push_bit 24 (ucast (ucast (drop_bit 24 v) :: u8)) = v"
proof (rule bit_word_eqI)
  fix k assume "k < LENGTH(32)"
  then consider "k < 8" | "8 \<le> k" "k < 16" | "16 \<le> k" "k < 24" | "24 \<le> k" "k < 32" by fastforce
  then show "bit ((ucast (ucast v :: u8) :: u32) OR push_bit 8 (ucast (ucast (drop_bit 8 v) :: u8)) OR push_bit 16 (ucast (ucast (drop_bit 16 v) :: u8))
    OR push_bit 24 (ucast (ucast (drop_bit 24 v) :: u8))) k = bit v k"
    by cases (auto simp: bit_simps dest: bit_imp_le_length)
qed

lemma ptr_at_set_ptr:
  assumes "length b = blocksize" "i < nindirect" "j < nindirect"
  shows "ptr_at (set_ptr b i v) j = (if i = j then v else ptr_at b j)"
proof (cases "i = j")
  case True
  have n: "4 * j < length b" "4 * j + 1 < length b" "4 * j + 2 < length b" "4 * j + 3 < length b" using assms by auto
  show ?thesis using True n ptr_bytes[of v] by (simp add: ptr_at_def set_ptr_def)
next
  case False
  then show ?thesis by (auto simp: ptr_at_def set_ptr_def nth_list_update)
qed

lemma ptr_at_zeros [simp]: "i < nindirect \<Longrightarrow> ptr_at (replicate blocksize 0) i = 0"
  by (simp add: ptr_at_def)

section \<open>Free blocks\<close>

definition free_bit :: "u8 list \<Rightarrow> nat \<Rightarrow> bool" where
  "free_bit fbb j \<longleftrightarrow> bit (fbb ! (j div 8)) (j mod 8)"

definition fs_free :: "chkfs \<Rightarrow> nat set" where
  "fs_free fs = {j. j < unat (sb_nblocks (fs_sb fs)) \<and> free_bit (fs_block fs (sb_fbb_bn (fs_sb fs))) j}"

lemma fbb_search_spec:
  assumes "nblocks \<le> 8 * length fbb"
  shows "\<exists>r. fbb_search fbb bn nblocks = Inr r \<and> (r < nblocks \<longrightarrow> free_bit fbb r) \<and> (\<forall>j. bn \<le> j \<and> j < min r nblocks \<longrightarrow> \<not> free_bit fbb j)"
  using assms
proof (induction fbb bn nblocks rule: fbb_search.induct)
  case (1 fbb bn nblocks)
  show ?case
  proof (cases "bn < nblocks")
    case False
    then show ?thesis by (subst fbb_search.simps) auto
  next
    case True
    then have l: "bn div 8 < length fbb" using 1(2) by auto
    show ?thesis
    proof (cases "bit (fbb ! (bn div 8)) (bn mod 8)")
      case b: True
      then have "fbb_search fbb bn nblocks = Inr bn" using True l by (subst fbb_search.simps) simp
      then show ?thesis using b by (auto simp: free_bit_def)
    next
      case b: False
      then have e: "fbb_search fbb bn nblocks = fbb_search fbb (bn + 1) nblocks" using True l by (subst fbb_search.simps) simp
      obtain r where r: "fbb_search fbb (bn + 1) nblocks = Inr r" "r < nblocks \<longrightarrow> free_bit fbb r" "\<forall>j. bn + 1 \<le> j \<and> j < min r nblocks \<longrightarrow> \<not> free_bit fbb j"
        using 1(1)[OF True l b 1(2)] by blast
      have "\<not> free_bit fbb j" if "bn \<le> j" "j < min r nblocks" for j using r(3) b that by (cases "j = bn") (auto simp: free_bit_def)
      then show ?thesis using r e by auto
    qed
  qed
qed

lemma free_bit_unset:
  assumes "b div 8 < length fbb"
  shows "free_bit (fbb[b div 8 := unset_bit (b mod 8) (fbb ! (b div 8))]) j \<longleftrightarrow> free_bit fbb j \<and> j \<noteq> b"
proof (cases "j div 8 = b div 8")
  case True
  moreover have "j mod 8 = b mod 8 \<longleftrightarrow> j = b" using True by (metis div_mult_mod_eq)
  ultimately show ?thesis using assms by (auto simp: free_bit_def bit_unset_bit_iff)
next
  case False
  then show ?thesis by (auto simp: free_bit_def)
qed

definition bitmap_ok :: "chkfs \<Rightarrow> bool" where
  "bitmap_ok fs \<longleftrightarrow> fs_blocks_ok fs \<and> (\<forall>b. fs_room fs b) \<and> unat (sb_nblocks (fs_sb fs)) \<le> 8 * blocksize"

lemma allocate_block_spec:
  assumes ok: "bitmap_ok fs"
  shows "if fs_free fs = {} then allocate_block fs = Inr (fs, word_of_int E_NOSPC)
    else \<exists>fs' b. allocate_block fs = Inr (fs', b) \<and> unat b = Min (fs_free fs) \<and> fs_free fs' = fs_free fs - {unat b}
      \<and> fs' = set_block fs (sb_fbb_bn (fs_sb fs)) (fs_block fs' (sb_fbb_bn (fs_sb fs))) \<and> length (fs_block fs' (sb_fbb_bn (fs_sb fs))) = blocksize"
proof -
  let ?e = "sb_fbb_bn (fs_sb fs)" and ?n = "unat (sb_nblocks (fs_sb fs))"
  define fbb where "fbb = fs_block fs ?e"
  have len: "length fbb = blocksize" using ok by (simp add: bitmap_ok_def fs_blocks_ok_def fbb_def)
  have n: "?n \<le> 8 * length fbb" using ok len by (simp add: bitmap_ok_def)
  have room: "disk_entry fs b = Some b" for b using ok by (simp add: bitmap_ok_def disk_entry_def)
  obtain r where r: "fbb_search fbb 0 ?n = Inr r" "r < ?n \<longrightarrow> free_bit fbb r" "\<And>j. j < min r ?n \<Longrightarrow> \<not> free_bit fbb j" using fbb_search_spec[OF n, of 0] by auto
  have A: "allocate_block fs = (if r < ?n then Inr (set_block fs ?e (fbb[r div 8 := unset_bit (r mod 8) (fbb ! (r div 8))]), word_of_nat r) else Inr (fs, word_of_int E_NOSPC))"
    using r(1) by (simp add: allocate_block_def room Let_def fbb_def)
  have F: "fs_free fs = {j. j < ?n \<and> free_bit fbb j}" by (simp add: fs_free_def fbb_def)
  show ?thesis
  proof (cases "r < ?n")
    case False
    then have "fs_free fs = {}" using r(3) F by auto
    then show ?thesis using A False by simp
  next
    case True
    have rin: "r \<in> fs_free fs" using True r(2) F by simp
    have mn: "Min (fs_free fs) = r"
    proof (rule Min_eqI)
      show "finite (fs_free fs)" by (simp add: F)
      show "r \<le> y" if "y \<in> fs_free fs" for y using that r(3)[of y] F by (metis (no_types, lifting) linorder_not_le mem_Collect_eq min_less_iff_conj)
    qed (rule rin)
    have ur: "unat (word_of_nat r :: u32) = r" 
    proof -
      have "r < 2 ^ 32" using True u32_bound[of "sb_nblocks (fs_sb fs)"] by linarith
      then show ?thesis by (simp add: unsigned_of_nat take_bit_nat_eq_self)
    qed
    let ?fbb = "fbb[r div 8 := unset_bit (r mod 8) (fbb ! (r div 8))]"
    have "fs_free (set_block fs ?e ?fbb) = fs_free fs - {r}"
      unfolding F using free_bit_unset[of r fbb] True n by (auto simp: fs_free_def set_block_def)
    then show ?thesis using A True rin mn ur len by (auto simp: set_block_def)
  qed
qed

text \<open>
  When the bitmap fits into its block, \<open>allocate_block\<close> returns the lowest free block and marks exactly that block as used, or returns
  \<open>E_NOSPC\<close> and changes nothing when no block is free.
\<close>
theorem allocate_block_correct:
  assumes ok: "bitmap_ok fs"
  shows "if fs_free fs = {} then allocate_block fs = Inr (fs, word_of_int E_NOSPC)
    else \<exists>fs' b. allocate_block fs = Inr (fs', b) \<and> unat b = Min (fs_free fs) \<and> fs_free fs' = fs_free fs - {unat b}
      \<and> fs' = set_block fs (sb_fbb_bn (fs_sb fs)) (fs_block fs' (sb_fbb_bn (fs_sb fs))) \<and> length (fs_block fs' (sb_fbb_bn (fs_sb fs))) = blocksize"
  by (rule allocate_block_spec[OF ok])

end
