(* ===== verification/Chkfs_Alloc.thy ===== *)
theory Chkfs_Alloc
  imports Chkfs_Map
begin

text \<open>
  Well-formed files: no block has two uses, and none in use is free.  Allocating a block, with the pointer blocks it needs, and storing its number with
  \<open>map\<close> keep this, and change the block map at one place only.
\<close>


section \<open>The blocks of a file\<close>

text \<open>
  The places where a file keeps block numbers: its doubly-indirect block, the pointer block of each class, and each data block.
\<close>

datatype place = P_i2 | P_ind nat | P_data nat

fun place_bn :: "chkfs \<Rightarrow> nat \<Rightarrow> place \<Rightarrow> u32" where
  "place_bn fs n P_i2 = ino_indirect2 (fs_inode fs n)"
| "place_bn fs n (P_ind c) = class_bn fs n c"
| "place_bn fs n (P_data bi) = file_bn fs n bi"

fun valid_place :: "place \<Rightarrow> bool" where
  "valid_place P_i2 = True"
| "valid_place (P_ind c) = (1 \<le> c \<and> c < nindirect + 2)"
| "valid_place (P_data bi) = (bi < maxblocks)"

fun is_meta :: "place \<Rightarrow> bool" where
  "is_meta (P_data _) = False"
| "is_meta _ = True"

lemma room_simps:
  assumes "\<forall>b. fs_room fs b"
  shows "nonnull fs b = (if b = 0 then None else Some b)"
    "class_bn fs n c = (if c = 0 then 0 else if c = 1 then ino_indirect (fs_inode fs n)
      else if ino_indirect2 (fs_inode fs n) = 0 then 0 else ptr_at (fs_block fs (ino_indirect2 (fs_inode fs n))) (c - 2))"
    "file_bn fs n bi = (if bi < ndirect then ino_direct (fs_inode fs n) ! bi
      else if class_bn fs n (iclass bi) = 0 then 0 else ptr_at (fs_block fs (class_bn fs n (iclass bi))) ((bi - ndirect) mod nindirect))"
  using assms by (simp_all add: nonnull_def disk_entry_def class_bn_def file_bn_def)

definition chk_wf :: "chkfs \<Rightarrow> nat \<Rightarrow> bool" where
  "chk_wf fs n \<longleftrightarrow> bitmap_ok fs \<and> 0 \<notin> fs_free fs \<and> unat (sb_fbb_bn (fs_sb fs)) \<notin> fs_free fs \<and> length (ino_direct (fs_inode fs n)) = ndirect
     \<and> (\<forall>P. valid_place P \<longrightarrow> place_bn fs n P \<noteq> 0 \<longrightarrow> unat (place_bn fs n P) \<notin> fs_free fs \<and> place_bn fs n P \<noteq> sb_fbb_bn (fs_sb fs))
     \<and> (\<forall>P Q. valid_place P \<longrightarrow> valid_place Q \<longrightarrow> place_bn fs n P \<noteq> 0 \<longrightarrow> place_bn fs n P = place_bn fs n Q \<longrightarrow> P = Q)"

text \<open>A block that no place of the file has and that is not free.\<close>

definition fresh_bn :: "chkfs \<Rightarrow> nat \<Rightarrow> u32 \<Rightarrow> bool" where
  "fresh_bn fs n b \<longleftrightarrow> b \<noteq> 0 \<and> unat b \<notin> fs_free fs \<and> b \<noteq> sb_fbb_bn (fs_sb fs) \<and> (\<forall>P. valid_place P \<longrightarrow> place_bn fs n P \<noteq> b)"

lemma chk_wfD:
  assumes "chk_wf fs n"
  shows "bitmap_ok fs" "\<forall>b. fs_room fs b" "fs_blocks_ok fs" "length (fs_block fs b) = blocksize" "0 \<notin> fs_free fs" "unat (sb_fbb_bn (fs_sb fs)) \<notin> fs_free fs"
    "length (ino_direct (fs_inode fs n)) = ndirect"
    "valid_place P \<Longrightarrow> place_bn fs n P \<noteq> 0 \<Longrightarrow> unat (place_bn fs n P) \<notin> fs_free fs"
    "valid_place P \<Longrightarrow> place_bn fs n P \<noteq> 0 \<Longrightarrow> place_bn fs n P \<noteq> sb_fbb_bn (fs_sb fs)"
    "valid_place P \<Longrightarrow> valid_place Q \<Longrightarrow> place_bn fs n P \<noteq> 0 \<Longrightarrow> place_bn fs n P = place_bn fs n Q \<Longrightarrow> P = Q"
  using assms unfolding chk_wf_def bitmap_ok_def fs_blocks_ok_def by blast+

lemma iclass_valid: "ndirect \<le> bi \<Longrightarrow> bi < maxblocks \<Longrightarrow> valid_place (P_ind (iclass bi))"
  using iclass_cases(4)[of bi] iclass_cases(6)[of bi] by auto

text \<open>The parts of the state that no operation of a file changes.\<close>

definition same_fs :: "chkfs \<Rightarrow> chkfs \<Rightarrow> bool" where
  "same_fs fs fs' \<longleftrightarrow> fs_sb fs' = fs_sb fs \<and> fs_room fs' = fs_room fs"

definition same_ptrs :: "chkfs \<Rightarrow> chkfs \<Rightarrow> nat \<Rightarrow> bool" where
  "same_ptrs fs fs' n \<longleftrightarrow> ino_direct (fs_inode fs' n) = ino_direct (fs_inode fs n) \<and> ino_indirect (fs_inode fs' n) = ino_indirect (fs_inode fs n)
     \<and> ino_indirect2 (fs_inode fs' n) = ino_indirect2 (fs_inode fs n)"

lemma place_frame:
  assumes room: "\<forall>b. fs_room fs b" and s: "same_fs fs fs'" "same_ptrs fs fs' n"
    and b: "\<And>P. is_meta P \<Longrightarrow> valid_place P \<Longrightarrow> place_bn fs n P \<noteq> 0 \<Longrightarrow> fs_block fs' (place_bn fs n P) = fs_block fs (place_bn fs n P)"
    and v: "valid_place Q"
  shows "place_bn fs' n Q = place_bn fs n Q"
proof -
  have room': "\<forall>b. fs_room fs' b" using room s by (simp add: same_fs_def)
  note R = room_simps[OF room] room_simps[OF room']
  have c: "class_bn fs' n c = class_bn fs n c" for c
    using s(2) b[of P_i2] unfolding R(2) R(5) by (auto simp: same_ptrs_def)
  show ?thesis
  proof (cases Q)
    case (P_data bi)
    show ?thesis
    proof (cases "bi < ndirect")
      case True
      then show ?thesis using P_data s(2) by (simp add: R(3) R(6) same_ptrs_def)
    next
      case False
      then have "valid_place (P_ind (iclass bi))" using iclass_valid v P_data by simp
      then show ?thesis using P_data False b[of "P_ind (iclass bi)"] c by (simp add: R(3) R(6))
    qed
  qed (use s(2) c in \<open>simp_all add: same_ptrs_def\<close>)
qed

lemma fs_free_frame: "same_fs fs fs' \<Longrightarrow> fs_block fs' (sb_fbb_bn (fs_sb fs)) = fs_block fs (sb_fbb_bn (fs_sb fs)) \<Longrightarrow> fs_free fs' = fs_free fs"
  by (simp add: fs_free_def same_fs_def)

text \<open>Changing one place keeps the file well formed.\<close>

lemma wf_update:
  assumes wf: "chk_wf fs n" and s: "same_fs fs fs'" "fs_blocks_ok fs'" "fs_free fs' = fs_free fs" "length (ino_direct (fs_inode fs' n)) = ndirect"
    and b: "fresh_bn fs n b" and P: "\<And>Q. valid_place Q \<Longrightarrow> place_bn fs' n Q = (if Q = P then b else place_bn fs n Q)"
  shows "chk_wf fs' n"
proof -
  have "bitmap_ok fs'" using chk_wfD(1)[OF wf] s by (simp add: bitmap_ok_def same_fs_def)
  moreover have "Q = R" if "valid_place Q" "valid_place R" "place_bn fs' n Q \<noteq> 0" "place_bn fs' n Q = place_bn fs' n R" for Q R
    using that P b chk_wfD(10)[OF wf, of Q R] by (auto simp: fresh_bn_def split: if_splits)
  moreover have "unat (place_bn fs' n Q) \<notin> fs_free fs' \<and> place_bn fs' n Q \<noteq> sb_fbb_bn (fs_sb fs')" if "valid_place Q" "place_bn fs' n Q \<noteq> 0" for Q
    using that P[OF that(1)] b chk_wfD(8,9)[OF wf, of Q] s by (auto simp: fresh_bn_def same_fs_def split: if_splits)
  ultimately show ?thesis using chk_wfD(5,6)[OF wf] s unfolding chk_wf_def same_fs_def by metis
qed

text \<open>Changing the contents of a block that is no pointer block, or fields of the inode other than pointers, changes no place.\<close>

lemma wf_same_places:
  assumes wf: "chk_wf fs n" and s: "same_fs fs fs'" "same_ptrs fs fs' n" "fs_blocks_ok fs'" and free: "fs_free fs' \<subseteq> fs_free fs"
    and b: "\<And>P. is_meta P \<Longrightarrow> valid_place P \<Longrightarrow> place_bn fs n P \<noteq> 0 \<Longrightarrow> fs_block fs' (place_bn fs n P) = fs_block fs (place_bn fs n P)"
  shows "chk_wf fs' n" "valid_place Q \<Longrightarrow> place_bn fs' n Q = place_bn fs n Q"
proof -
  note P = place_frame[OF chk_wfD(2)[OF wf] s(1,2) b]
  then show "valid_place Q \<Longrightarrow> place_bn fs' n Q = place_bn fs n Q" .
  have "bitmap_ok fs'" using chk_wfD(1)[OF wf] s by (simp add: bitmap_ok_def same_fs_def)
  moreover have "length (ino_direct (fs_inode fs' n)) = ndirect" using chk_wfD(7)[OF wf] s(2) by (simp add: same_ptrs_def)
  moreover have "Q = R" if "valid_place Q" "valid_place R" "place_bn fs' n Q \<noteq> 0" "place_bn fs' n Q = place_bn fs' n R" for Q R
    using that P chk_wfD(10)[OF wf, of Q R] by auto
  moreover have "unat (place_bn fs' n Q) \<notin> fs_free fs' \<and> place_bn fs' n Q \<noteq> sb_fbb_bn (fs_sb fs')" if "valid_place Q" "place_bn fs' n Q \<noteq> 0" for Q
    using that P[OF _ _ _ that(1)] chk_wfD(8,9)[OF wf, of Q] s(1) free by (auto simp: same_fs_def)
  ultimately show "chk_wf fs' n" using chk_wfD(5,6)[OF wf] s(1) free unfolding chk_wf_def same_fs_def by (metis subsetD)
qed

text \<open>Allocating a block.\<close>

lemma allocate_block_wf:
  assumes wf: "chk_wf fs n" and ne: "fs_free fs \<noteq> {}"
  obtains fs' b where "allocate_block fs = Inr (fs', b)" "chk_wf fs' n" "fresh_bn fs' n b" "fs_free fs' = fs_free fs - {unat b}" "unat b \<in> fs_free fs"
    "same_fs fs fs'" "fs_inode fs' = fs_inode fs" "\<forall>x. x \<noteq> sb_fbb_bn (fs_sb fs) \<longrightarrow> fs_block fs' x = fs_block fs x"
    "\<forall>Q. valid_place Q \<longrightarrow> place_bn fs' n Q = place_bn fs n Q" "\<not> is_error_bn b"
proof -
  let ?e = "sb_fbb_bn (fs_sb fs)"
  obtain fs' b where a: "allocate_block fs = Inr (fs', b)" "unat b = Min (fs_free fs)" "fs_free fs' = fs_free fs - {unat b}"
    "fs' = set_block fs ?e (fs_block fs' ?e)" "length (fs_block fs' ?e) = blocksize" using allocate_block_spec[OF chk_wfD(1)[OF wf]] ne by auto
  have fin: "finite (fs_free fs)" by (simp add: fs_free_def)
  have bin: "unat b \<in> fs_free fs" using Min_in[OF fin ne] a(2) by simp
  have s: "same_fs fs fs'" "same_ptrs fs fs' n" "fs_inode fs' = fs_inode fs" by (subst a(4), simp add: same_fs_def same_ptrs_def set_block_def)+
  have bl: "fs_block fs' x = fs_block fs x" if "x \<noteq> ?e" for x by (subst a(4)) (use that in \<open>simp add: set_block_def\<close>)
  have ok: "fs_blocks_ok fs'" unfolding fs_blocks_ok_def using bl a(5) chk_wfD(4)[OF wf] by metis
  have keep: "fs_block fs' (place_bn fs n P) = fs_block fs (place_bn fs n P)" if "valid_place P" "place_bn fs n P \<noteq> 0" for P
    by (rule bl) (use chk_wfD(9)[OF wf] that in auto)
  have wf': "chk_wf fs' n" by (rule wf_same_places(1)[OF wf s(1,2) ok]) (use a(3) keep in auto)
  have P: "place_bn fs' n Q = place_bn fs n Q" if "valid_place Q" for Q
    by (rule wf_same_places(2)[OF wf s(1,2) ok _ _ that]) (use a(3) keep in auto)
  have "b \<noteq> 0" using bin chk_wfD(5)[OF wf] by auto
  moreover have "b \<noteq> ?e" using bin chk_wfD(6)[OF wf] by auto
  moreover have "place_bn fs n Q \<noteq> b" if "valid_place Q" for Q using chk_wfD(8)[OF wf that] bin \<open>b \<noteq> 0\<close> by auto
  ultimately have fresh: "fresh_bn fs' n b" using a(3) P s(1) unfolding fresh_bn_def same_fs_def by (metis DiffE insertI1)
  have "unat b < 8 * blocksize" using bin chk_wfD(1)[OF wf] by (auto simp: fs_free_def bitmap_ok_def)
  moreover have "unat (word_of_int E_MINERROR :: u32) = 4294967196" by simp
  ultimately have "\<not> is_error_bn b" by (auto simp: is_error_bn_def word_le_nat_alt)
  then show thesis using that[OF a(1) wf' fresh a(3) bin s(1,3)] bl P by blast
qed


lemma iclass_Suc: "ndirect \<le> bi \<Longrightarrow> iclass bi = Suc ((bi - ndirect) div nindirect)"
proof -
  assume "ndirect \<le> bi"
  then have "bi + nindirect - ndirect = (bi - ndirect) + nindirect" by simp
  then show ?thesis unfolding iclass_def by (metis Suc_eq_plus1 div_add_self2 zero_neq_numeral)
qed

lemma allocate_metablock_wf:
  assumes wf: "chk_wf fs n" and ne: "fs_free fs \<noteq> {}"
  obtains fs' b where "allocate_metablock_entry fs = Inr (fs', b, Some b)" "chk_wf fs' n" "fresh_bn fs' n b" "fs_free fs' = fs_free fs - {unat b}" "unat b \<in> fs_free fs"
    "same_fs fs fs'" "fs_inode fs' = fs_inode fs" "\<forall>x. x \<noteq> sb_fbb_bn (fs_sb fs) \<longrightarrow> x \<noteq> b \<longrightarrow> fs_block fs' x = fs_block fs x"
    "\<forall>Q. valid_place Q \<longrightarrow> place_bn fs' n Q = place_bn fs n Q" "\<not> is_error_bn b" "fs_block fs' b = replicate blocksize 0"
proof -
  obtain fs1 b where a: "allocate_block fs = Inr (fs1, b)" "chk_wf fs1 n" "fresh_bn fs1 n b" "fs_free fs1 = fs_free fs - {unat b}" "unat b \<in> fs_free fs"
    "same_fs fs fs1" "fs_inode fs1 = fs_inode fs" "\<forall>x. x \<noteq> sb_fbb_bn (fs_sb fs) \<longrightarrow> fs_block fs1 x = fs_block fs x"
    "\<forall>Q. valid_place Q \<longrightarrow> place_bn fs1 n Q = place_bn fs n Q" "\<not> is_error_bn b" by (rule allocate_block_wf[OF wf ne])
  define fs2 where "fs2 = set_block fs1 b (replicate blocksize 0)"
  have room: "disk_entry fs1 b = Some b" using chk_wfD(2)[OF a(2)] by (simp add: disk_entry_def)
  have e: "allocate_metablock_entry fs = Inr (fs2, b, Some b)" using a(1,10) room by (simp add: allocate_metablock_entry_def fs2_def)
  have s: "same_fs fs1 fs2" "same_ptrs fs1 fs2 n" "fs_inode fs2 = fs_inode fs1" by (simp_all add: fs2_def set_block_def same_fs_def same_ptrs_def)
  have bo: "b \<noteq> sb_fbb_bn (fs_sb fs1)" "\<And>P. valid_place P \<Longrightarrow> place_bn fs1 n P \<noteq> b" using a(3) by (auto simp: fresh_bn_def)
  have ok: "fs_blocks_ok fs2" unfolding fs_blocks_ok_def fs2_def set_block_def using chk_wfD(4)[OF a(2)] by simp
  have fr: "fs_free fs2 = fs_free fs1" by (rule fs_free_frame[OF s(1)]) (use bo in \<open>simp add: fs2_def set_block_def\<close>)
  have keep: "fs_block fs2 (place_bn fs1 n P) = fs_block fs1 (place_bn fs1 n P)" if "valid_place P" for P
    using bo(2)[OF that] by (simp add: fs2_def set_block_def)
  have wf2: "chk_wf fs2 n" by (rule wf_same_places(1)[OF a(2) s(1,2) ok]) (use fr keep in auto)
  have P: "place_bn fs2 n Q = place_bn fs1 n Q" if "valid_place Q" for Q by (rule wf_same_places(2)[OF a(2) s(1,2) ok _ _ that]) (use fr keep in auto)
  have "fresh_bn fs2 n b" using a(3) fr P s(1) unfolding fresh_bn_def same_fs_def by metis
  moreover have "fs_block fs2 x = fs_block fs x" if "x \<noteq> sb_fbb_bn (fs_sb fs)" "x \<noteq> b" for x using a(8) that by (simp add: fs2_def set_block_def)
  moreover have "same_fs fs fs2" using a(6) s(1) by (simp add: same_fs_def)
  ultimately show thesis using that[OF e wf2] fr a s(3) P by (simp add: fs2_def set_block_def)
qed

section \<open>Storing a block number\<close>

text \<open>The location of a place.\<close>

definition place_loc :: "chkfs \<Rightarrow> nat \<Rightarrow> place \<Rightarrow> loc" where
  "place_loc fs n P = (case P of
     P_ind c \<Rightarrow> if c = 1 then L_indirect else L_word (ino_indirect2 (fs_inode fs n)) (c - 2)
   | P_data bi \<Rightarrow> if bi < ndirect then L_direct bi else L_word (class_bn fs n (iclass bi)) ((bi - ndirect) mod nindirect)
   | P_i2 \<Rightarrow> L_indirect)"

lemma write_word_wf:
  assumes wf: "chk_wf fs n" and M: "is_meta M" "valid_place M" "place_bn fs n M = e" "e \<noteq> 0" and i: "i < nindirect"
  obtains fs' where "write_loc fs n (L_word e i) v = Inr fs'" "same_fs fs fs'" "fs_blocks_ok fs'" "fs_free fs' = fs_free fs" "fs_inode fs' = fs_inode fs"
    "\<forall>x. x \<noteq> e \<longrightarrow> fs_block fs' x = fs_block fs x" "\<forall>j. j < nindirect \<longrightarrow> ptr_at (fs_block fs' e) j = (if j = i then v else ptr_at (fs_block fs e) j)"
proof -
  define fs' where "fs' = set_block fs e (set_ptr (fs_block fs e) i v)"
  have s: "same_fs fs fs'" "fs_inode fs' = fs_inode fs" by (simp_all add: fs'_def set_block_def same_fs_def)
  have "e \<noteq> sb_fbb_bn (fs_sb fs)" using chk_wfD(9)[OF wf M(2)] M(3,4) by auto
  then have "fs_free fs' = fs_free fs" by (intro fs_free_frame[OF s(1)]) (simp add: fs'_def set_block_def)
  moreover have "fs_blocks_ok fs'" unfolding fs_blocks_ok_def fs'_def set_block_def using chk_wfD(4)[OF wf] by simp
  moreover have "ptr_at (fs_block fs' e) j = (if j = i then v else ptr_at (fs_block fs e) j)" if "j < nindirect" for j
    using ptr_at_set_ptr[OF chk_wfD(4)[OF wf] i that] by (simp add: fs'_def set_block_def)
  ultimately show thesis using that[of fs'] s i by (simp add: write_loc_def fs'_def set_block_def)
qed

lemma set_i2_places:
  assumes wf: "chk_wf fs n" and z: "ino_indirect2 (fs_inode fs n) = 0" and b: "fresh_bn fs n b" "fs_block fs b = replicate blocksize 0" and v: "valid_place Q"
  defines "fs' \<equiv> set_inode fs n (\<lambda>ino. ino\<lparr>ino_indirect2 := b\<rparr>)"
  shows "place_bn fs' n Q = (if Q = P_i2 then b else place_bn fs n Q)"
proof -
  have room: "\<forall>b. fs_room fs b" "\<forall>b. fs_room fs' b" using chk_wfD(2)[OF wf] by (simp_all add: fs'_def set_inode_def)
  note R = room_simps[OF room(1)] room_simps[OF room(2)]
  have i: "fs_block fs' = fs_block fs" "ino_indirect2 (fs_inode fs' n) = b" "ino_indirect (fs_inode fs' n) = ino_indirect (fs_inode fs n)"
    "ino_direct (fs_inode fs' n) = ino_direct (fs_inode fs n)" by (simp_all add: fs'_def set_inode_def)
  have c: "class_bn fs' n c = class_bn fs n c" if "c < nindirect + 2" for c using that z b i unfolding R(2) R(5) by (auto simp: fresh_bn_def)
  show ?thesis
  proof (cases Q)
    case (P_data bi)
    then have "iclass bi < nindirect + 2" using v iclass_cases(6)[of bi] by auto
    from c[OF this] show ?thesis using P_data i by (simp add: R(3) R(6))
  qed (use i c v in auto)
qed

lemma set_class_places:
  assumes wf: "chk_wf fs n" and c: "valid_place (P_ind c)" "class_bn fs n c = 0" "c = 1 \<or> ino_indirect2 (fs_inode fs n) \<noteq> 0"
    and b: "fresh_bn fs n b" "fs_block fs b = replicate blocksize 0"
  obtains fs' where "write_loc fs n (place_loc fs n (P_ind c)) b = Inr fs'" "same_fs fs fs'" "fs_blocks_ok fs'" "fs_free fs' = fs_free fs"
    "\<forall>Q. valid_place Q \<longrightarrow> place_bn fs' n Q = (if Q = P_ind c then b else place_bn fs n Q)"
    "\<forall>x. (x \<noteq> ino_indirect2 (fs_inode fs n) \<or> x = 0) \<longrightarrow> fs_block fs' x = fs_block fs x"
    "fs_inode fs' = (fs_inode fs)(n := (fs_inode fs n)\<lparr>ino_indirect := ino_indirect (fs_inode fs' n)\<rparr>)"
proof (cases "c = 1")
  case True
  define fs' where "fs' = set_inode fs n (\<lambda>ino. ino\<lparr>ino_indirect := b\<rparr>)"
  have i: "same_fs fs fs'" "fs_block fs' = fs_block fs" "ino_indirect2 (fs_inode fs' n) = ino_indirect2 (fs_inode fs n)" "ino_indirect (fs_inode fs' n) = b"
    "ino_direct (fs_inode fs' n) = ino_direct (fs_inode fs n)" by (simp_all add: fs'_def set_inode_def same_fs_def)
  have room: "\<forall>b. fs_room fs b" "\<forall>b. fs_room fs' b" using chk_wfD(2)[OF wf] by (simp_all add: fs'_def set_inode_def)
  note R = room_simps[OF room(1)] room_simps[OF room(2)]
  have cl: "class_bn fs' n c' = (if c' = 1 then b else class_bn fs n c')" for c' using i unfolding R(2) R(5) by auto
  have fb: "file_bn fs' n bi = file_bn fs n bi" for bi
  proof (cases "bi < ndirect")
    case False
    then show ?thesis using cl[of "iclass bi"] i b c(2) True by (auto simp: R(3) R(6) fresh_bn_def)
  qed (use i in \<open>simp add: R(3) R(6)\<close>)
  have pl: "place_bn fs' n Q = (if Q = P_ind c then b else place_bn fs n Q)" for Q using i cl fb True by (cases Q) auto
  have "write_loc fs n (place_loc fs n (P_ind c)) b = Inr fs'" using True by (simp add: write_loc_def place_loc_def fs'_def)
  moreover have "fs_blocks_ok fs'" using chk_wfD(3)[OF wf] i by (simp add: fs_blocks_ok_def)
  moreover have "fs_free fs' = fs_free fs" using i by (simp add: fs_free_def same_fs_def)
  moreover have "fs_inode fs' = (fs_inode fs)(n := (fs_inode fs n)\<lparr>ino_indirect := ino_indirect (fs_inode fs' n)\<rparr>)" by (simp add: fs'_def set_inode_def)
  ultimately show thesis using that i pl by simp
next
  case False
  let ?e = "ino_indirect2 (fs_inode fs n)"
  have e: "?e \<noteq> 0" "c - 2 < nindirect" "2 \<le> c" using c False by auto
  have pe: "place_bn fs n P_i2 = ?e" by simp
  obtain fs' where w: "write_loc fs n (L_word ?e (c - 2)) b = Inr fs'" "same_fs fs fs'" "fs_blocks_ok fs'" "fs_free fs' = fs_free fs" "fs_inode fs' = fs_inode fs"
    "\<forall>x. x \<noteq> ?e \<longrightarrow> fs_block fs' x = fs_block fs x" "\<forall>j. j < nindirect \<longrightarrow> ptr_at (fs_block fs' ?e) j = (if j = c - 2 then b else ptr_at (fs_block fs ?e) j)"
    by (rule write_word_wf[OF wf _ _ pe e(1,2)]) auto
  have room: "\<forall>b. fs_room fs b" "\<forall>b. fs_room fs' b" using chk_wfD(2)[OF wf] w(2) by (simp_all add: same_fs_def)
  note R = room_simps[OF room(1)] room_simps[OF room(2)]
  have cl: "class_bn fs' n c' = (if c' = c then b else class_bn fs n c')" if "c' < nindirect + 2" for c'
    using w(5) w(7)[rule_format, of "c' - 2"] e that unfolding R(2) R(5) by auto
  have fb: "file_bn fs' n bi = file_bn fs n bi" if bi: "bi < maxblocks" for bi
  proof (cases "bi < ndirect")
    case True
    then show ?thesis using w(5) by (simp add: R(3) R(6))
  next
    case nd: False
    have v: "valid_place (P_ind (iclass bi))" using iclass_valid nd bi by simp
    then have cl': "class_bn fs' n (iclass bi) = (if iclass bi = c then b else class_bn fs n (iclass bi))" using cl by simp
    have m: "(bi - ndirect) mod nindirect < nindirect" by simp
    show ?thesis
    proof (cases "iclass bi = c")
      case True
      have "b \<noteq> ?e" using b(1) by (metis fresh_bn_def place_bn.simps(1) valid_place.simps(1))
      then show ?thesis using nd True cl' c(2) b w(6)[rule_format, of b] m by (simp add: R(3) R(6))
    next
      case False
      have "class_bn fs n (iclass bi) \<noteq> ?e" if "class_bn fs n (iclass bi) \<noteq> 0" using chk_wfD(10)[OF wf v, of P_i2] that by auto
      then show ?thesis using nd False cl' w(6) by (simp add: R(3) R(6))
    qed
  qed
  have pl: "place_bn fs' n Q = (if Q = P_ind c then b else place_bn fs n Q)" if "valid_place Q" for Q using that w(5) cl fb by (cases Q) auto
  have "fs_block fs' x = fs_block fs x" if "x \<noteq> ?e \<or> x = 0" for x using w(6) that e(1) by auto
  moreover have "fs_inode fs' = (fs_inode fs)(n := (fs_inode fs n)\<lparr>ino_indirect := ino_indirect (fs_inode fs' n)\<rparr>)" using w(5) by simp
  moreover have "write_loc fs n (place_loc fs n (P_ind c)) b = Inr fs'" using False w(1) by (simp add: place_loc_def)
  ultimately show thesis using that w pl by blast
qed

lemma set_data_places:
  assumes wf: "chk_wf fs n" and bi: "bi < maxblocks" "ndirect \<le> bi \<Longrightarrow> class_bn fs n (iclass bi) \<noteq> 0"
  obtains fs' where "write_loc fs n (place_loc fs n (P_data bi)) v = Inr fs'" "same_fs fs fs'" "fs_blocks_ok fs'" "fs_free fs' = fs_free fs"
    "\<forall>Q. valid_place Q \<longrightarrow> place_bn fs' n Q = (if Q = P_data bi then v else place_bn fs n Q)"
    "\<forall>x. (\<forall>c. valid_place (P_ind c) \<longrightarrow> class_bn fs n c \<noteq> 0 \<longrightarrow> x \<noteq> class_bn fs n c) \<longrightarrow> fs_block fs' x = fs_block fs x"
    "fs_inode fs' = (fs_inode fs)(n := (fs_inode fs n)\<lparr>ino_direct := ino_direct (fs_inode fs' n)\<rparr>)" "length (ino_direct (fs_inode fs' n)) = ndirect"
proof (cases "bi < ndirect")
  case True
  define fs' where "fs' = set_inode fs n (\<lambda>ino. ino\<lparr>ino_direct := (ino_direct ino)[bi := v]\<rparr>)"
  have i: "same_fs fs fs'" "fs_block fs' = fs_block fs" "ino_indirect2 (fs_inode fs' n) = ino_indirect2 (fs_inode fs n)"
    "ino_indirect (fs_inode fs' n) = ino_indirect (fs_inode fs n)" "ino_direct (fs_inode fs' n) = (ino_direct (fs_inode fs n))[bi := v]"
    by (simp_all add: fs'_def set_inode_def same_fs_def)
  have room: "\<forall>b. fs_room fs b" "\<forall>b. fs_room fs' b" using chk_wfD(2)[OF wf] by (simp_all add: fs'_def set_inode_def)
  note R = room_simps[OF room(1)] room_simps[OF room(2)]
  have cl: "class_bn fs' n c = class_bn fs n c" for c using i unfolding R(2) R(5) by simp
  have pl: "place_bn fs' n Q = (if Q = P_data bi then v else place_bn fs n Q)" for Q
    using i cl True chk_wfD(7)[OF wf] by (cases Q) (auto simp: R(3) R(6))
  have "write_loc fs n (place_loc fs n (P_data bi)) v = Inr fs'" using True by (simp add: write_loc_def place_loc_def fs'_def)
  moreover have "fs_blocks_ok fs'" using chk_wfD(3)[OF wf] i by (simp add: fs_blocks_ok_def)
  moreover have "fs_free fs' = fs_free fs" using i by (simp add: fs_free_def same_fs_def)
  moreover have "fs_inode fs' = (fs_inode fs)(n := (fs_inode fs n)\<lparr>ino_direct := ino_direct (fs_inode fs' n)\<rparr>)" by (simp add: fs'_def set_inode_def)
  ultimately show thesis using that i pl chk_wfD(7)[OF wf] by simp
next
  case False
  let ?c = "iclass bi" and ?i = "(bi - ndirect) mod nindirect"
  let ?e = "class_bn fs n ?c"
  have vc: "valid_place (P_ind ?c)" using iclass_valid False bi by simp
  have pe: "place_bn fs n (P_ind ?c) = ?e" and e: "?e \<noteq> 0" using bi(2) False by simp_all
  obtain fs' where w: "write_loc fs n (L_word ?e ?i) v = Inr fs'" "same_fs fs fs'" "fs_blocks_ok fs'" "fs_free fs' = fs_free fs" "fs_inode fs' = fs_inode fs"
    "\<forall>x. x \<noteq> ?e \<longrightarrow> fs_block fs' x = fs_block fs x" "\<forall>j. j < nindirect \<longrightarrow> ptr_at (fs_block fs' ?e) j = (if j = ?i then v else ptr_at (fs_block fs ?e) j)"
    by (rule write_word_wf[OF wf _ vc pe e, of ?i]) auto
  have room: "\<forall>b. fs_room fs b" "\<forall>b. fs_room fs' b" using chk_wfD(2)[OF wf] w(2) by (simp_all add: same_fs_def)
  note R = room_simps[OF room(1)] room_simps[OF room(2)]
  have i2: "ino_indirect2 (fs_inode fs n) \<noteq> ?e" if "ino_indirect2 (fs_inode fs n) \<noteq> 0" using chk_wfD(10)[OF wf vc, of P_i2] e that by auto
  have cl: "class_bn fs' n c = class_bn fs n c" for c using w(5,6) i2 unfolding R(2) R(5) by auto
  have fb: "file_bn fs' n bj = (if bj = bi then v else file_bn fs n bj)" if bj: "bj < maxblocks" for bj
  proof (cases "bj < ndirect")
    case True
    then show ?thesis using w(5) False by (auto simp: R(3) R(6))
  next
    case nd: False
    have vj: "valid_place (P_ind (iclass bj))" using iclass_valid nd bj by simp
    have m: "(bj - ndirect) mod nindirect < nindirect" by simp
    show ?thesis
    proof (cases "iclass bj = ?c")
      case True
      have "(bj - ndirect) mod nindirect = ?i \<longleftrightarrow> bj = bi"
      proof -
        have "(bj - ndirect) div nindirect = (bi - ndirect) div nindirect" using True nd False iclass_Suc[of bi] iclass_Suc[of bj] by simp
        then have "(bj - ndirect) mod nindirect = ?i \<Longrightarrow> bj - ndirect = bi - ndirect" by (metis div_mult_mod_eq)
        then show ?thesis using nd False by auto
      qed
      then show ?thesis using nd True cl e w(7)[rule_format, OF m] by (simp add: R(3) R(6))
    next
      case ne: False
      then have "bj \<noteq> bi" by auto
      moreover have "class_bn fs n (iclass bj) \<noteq> ?e" if "class_bn fs n (iclass bj) \<noteq> 0" using chk_wfD(10)[OF wf vj vc] that ne by auto
      ultimately show ?thesis using nd cl w(6) by (simp add: R(3) R(6))
    qed
  qed
  have pl: "place_bn fs' n Q = (if Q = P_data bi then v else place_bn fs n Q)" if "valid_place Q" for Q using that w(5) cl fb by (cases Q) auto
  have "fs_block fs' x = fs_block fs x" if "\<forall>c. valid_place (P_ind c) \<longrightarrow> class_bn fs n c \<noteq> 0 \<longrightarrow> x \<noteq> class_bn fs n c" for x using w(6) that vc e by auto
  moreover have "fs_inode fs' = (fs_inode fs)(n := (fs_inode fs n)\<lparr>ino_direct := ino_direct (fs_inode fs' n)\<rparr>)" using w(5) by simp
  moreover have "write_loc fs n (place_loc fs n (P_data bi)) v = Inr fs'" using False w(1) by (simp add: place_loc_def)
  ultimately show thesis using that w pl chk_wfD(7)[OF wf] by simp
qed


section \<open>Mapping a block\<close>

definition data_block :: "chkfs \<Rightarrow> nat \<Rightarrow> u32 \<Rightarrow> bool" where
  "data_block fs n x \<longleftrightarrow> x \<noteq> 0 \<and> (\<exists>bi < maxblocks. file_bn fs n bi = x)"

text \<open>The inodes but for the pointers of one.\<close>

definition same_meta :: "chkfs \<Rightarrow> chkfs \<Rightarrow> nat \<Rightarrow> bool" where
  "same_meta fs fs' n \<longleftrightarrow> (\<forall>m. m \<noteq> n \<longrightarrow> fs_inode fs' m = fs_inode fs m) \<and> ino_size (fs_inode fs' n) = ino_size (fs_inode fs n)
     \<and> ino_mlock (fs_inode fs' n) = ino_mlock (fs_inode fs n)"

text \<open>What the allocation of pointer blocks keeps, while block \<open>bn\<close> waits to be stored.\<close>

definition grown :: "chkfs \<Rightarrow> chkfs \<Rightarrow> nat \<Rightarrow> u32 \<Rightarrow> bool" where
  "grown fs0 fs n bn \<longleftrightarrow> chk_wf fs n \<and> same_fs fs0 fs \<and> same_meta fs0 fs n \<and> fresh_bn fs n bn
     \<and> (\<forall>bi < maxblocks. file_bn fs n bi = file_bn fs0 n bi) \<and> (\<forall>x. data_block fs0 n x \<or> x = bn \<longrightarrow> fs_block fs x = fs_block fs0 x)
     \<and> fs_free fs \<subseteq> fs_free fs0"

lemma grownD:
  assumes "grown fs0 fs n bn"
  shows "chk_wf fs n" "same_fs fs0 fs" "same_meta fs0 fs n" "fresh_bn fs n bn" "bi < maxblocks \<Longrightarrow> file_bn fs n bi = file_bn fs0 n bi"
    "data_block fs0 n x \<or> x = bn \<Longrightarrow> fs_block fs x = fs_block fs0 x" "fs_free fs \<subseteq> fs_free fs0" "data_block fs n x = data_block fs0 n x"
  using assms unfolding grown_def data_block_def by auto

lemma freshD:
  assumes "fresh_bn fs n b"
  shows "b \<noteq> 0" "unat b \<notin> fs_free fs" "b \<noteq> sb_fbb_bn (fs_sb fs)" "valid_place P \<Longrightarrow> place_bn fs n P \<noteq> b"
  using assms unfolding fresh_bn_def by auto

lemma data_blockE:
  assumes "data_block fs n x"
  obtains bi where "bi < maxblocks" "valid_place (P_data bi)" "place_bn fs n (P_data bi) = x" "x \<noteq> 0"
  using assms by (auto simp: data_block_def)

lemma finite_free [simp]: "finite (fs_free fs)"
  by (simp add: fs_free_def)

text \<open>A new pointer block, and the place that gets it.\<close>

lemma grown_metablock:
  assumes g: "grown fs0 fs n bn" and ne: "fs_free fs \<noteq> {}"
  obtains fs1 b where "allocate_metablock_entry fs = Inr (fs1, b, Some b)" "grown fs0 fs1 n bn" "fresh_bn fs1 n b" "b \<noteq> bn" "\<not> is_error_bn b"
    "fs_block fs1 b = replicate blocksize 0" "\<forall>Q. valid_place Q \<longrightarrow> place_bn fs1 n Q = place_bn fs n Q" "fs_inode fs1 = fs_inode fs"
    "card (fs_free fs) = card (fs_free fs1) + 1" "\<not> data_block fs0 n b"
proof -
  note wf = grownD(1)[OF g] and fb = grownD(4)[OF g]
  obtain fs1 b where a: "allocate_metablock_entry fs = Inr (fs1, b, Some b)" "chk_wf fs1 n" "fresh_bn fs1 n b" "fs_free fs1 = fs_free fs - {unat b}" "unat b \<in> fs_free fs"
    "same_fs fs fs1" "fs_inode fs1 = fs_inode fs" "\<forall>x. x \<noteq> sb_fbb_bn (fs_sb fs) \<longrightarrow> x \<noteq> b \<longrightarrow> fs_block fs1 x = fs_block fs x"
    "\<forall>Q. valid_place Q \<longrightarrow> place_bn fs1 n Q = place_bn fs n Q" "\<not> is_error_bn b" "fs_block fs1 b = replicate blocksize 0" by (rule allocate_metablock_wf[OF wf ne])
  have bb: "b \<noteq> bn" using a(5) freshD(2)[OF fb] by auto
  have fr: "fresh_bn fs1 n bn" using fb a(4,6,9) unfolding fresh_bn_def same_fs_def by auto
  have f: "file_bn fs1 n bi = file_bn fs0 n bi" if "bi < maxblocks" for bi using a(9)[rule_format, of "P_data bi"] grownD(5)[OF g that] that by simp
  have nd: "\<not> data_block fs0 n b"
  proof
    assume "data_block fs0 n b"
    then have "data_block fs1 n b" using f by (auto simp: data_block_def)
    then show False using freshD(4)[OF a(3)] by (metis data_blockE)
  qed
  have blk: "fs_block fs1 x = fs_block fs0 x" if x: "data_block fs0 n x \<or> x = bn" for x
  proof -
    have "x \<noteq> sb_fbb_bn (fs_sb fs)" using x freshD(3)[OF fb] chk_wfD(9)[OF wf] grownD(8)[OF g] by (metis data_blockE)
    moreover have "x \<noteq> b" using x nd bb by auto
    ultimately show ?thesis using a(8) grownD(6)[OF g x] by simp
  qed
  have "grown fs0 fs1 n bn" unfolding grown_def
    using a(2) fr f blk grownD(2,3,7)[OF g] a(4,6,7) by (auto simp: same_fs_def same_meta_def)
  moreover have "card (fs_free fs) = card (fs_free fs1) + 1" using a(4,5) by (metis One_nat_def Suc_pred add.right_neutral add_Suc_right card_Diff_singleton card_gt_0_iff empty_iff finite_free)
  ultimately show thesis using that a(1,3) bb a(10,11,9,7) nd by blast
qed

lemma grown_set_place:
  assumes g: "grown fs0 fs n bn" and b: "fresh_bn fs n b" "b \<noteq> bn" and P: "is_meta P"
    and s: "same_fs fs fs'" "same_meta fs fs' n" "fs_blocks_ok fs'" "fs_free fs' = fs_free fs" "length (ino_direct (fs_inode fs' n)) = ndirect"
    and pl: "\<forall>Q. valid_place Q \<longrightarrow> place_bn fs' n Q = (if Q = P then b else place_bn fs n Q)"
    and blk: "\<forall>x. (\<forall>M. is_meta M \<longrightarrow> valid_place M \<longrightarrow> place_bn fs n M \<noteq> 0 \<longrightarrow> x \<noteq> place_bn fs n M) \<longrightarrow> fs_block fs' x = fs_block fs x"
  shows "grown fs0 fs' n bn"
proof -
  note wf = grownD(1)[OF g]
  have "chk_wf fs' n" by (rule wf_update[OF wf s(1,3,4,5) b(1), of P]) (use pl in blast)
  moreover have "fresh_bn fs' n bn" using grownD(4)[OF g] pl b(2) s(1,4) unfolding fresh_bn_def same_fs_def by auto
  moreover have "file_bn fs' n bi = file_bn fs0 n bi" if "bi < maxblocks" for bi
    using pl[rule_format, of "P_data bi"] P grownD(5)[OF g that] that by auto
  moreover have "fs_block fs' x = fs_block fs0 x" if x: "data_block fs0 n x \<or> x = bn" for x
  proof -
    have "x \<noteq> place_bn fs n M" if M: "is_meta M" "valid_place M" "place_bn fs n M \<noteq> 0" for M
    proof (cases "x = bn")
      case True
      then show ?thesis using freshD(4)[OF grownD(4)[OF g] M(2)] by auto
    next
      case False
      then have "data_block fs n x" using x grownD(8)[OF g] by simp
      then obtain bi where bi: "valid_place (P_data bi)" "place_bn fs n (P_data bi) = x" by (rule data_blockE)
      have "M \<noteq> P_data bi" using M(1) by auto
      then have "place_bn fs n M \<noteq> place_bn fs n (P_data bi)" using chk_wfD(10)[OF wf M(2) bi(1) M(3)] by blast
      then show ?thesis unfolding bi(2) by (rule not_sym)
    qed
    then have all: "\<forall>M. is_meta M \<longrightarrow> valid_place M \<longrightarrow> place_bn fs n M \<noteq> 0 \<longrightarrow> x \<noteq> place_bn fs n M" by simp
    have "fs_block fs' x = fs_block fs x" by (rule mp[OF spec[OF blk, of x] all])
    then show ?thesis using grownD(6)[OF g x] by simp
  qed
  ultimately show ?thesis unfolding grown_def using grownD(2,3,7)[OF g] s by (auto simp: same_fs_def same_meta_def)
qed

lemma map_indirect2_ok:
  assumes g: "grown fs0 fs n bn" and ne: "fs_free fs \<noteq> {}" and bi: "bi < maxblocks"
    and it: "ndirect + nindirect \<le> bi \<Longrightarrow> it_indirect2 it = nonnull fs (ino_indirect2 (fs_inode fs n))"
  obtains fs1 it1 where "map_indirect2 fs n it bi = Inr (fs1, it1, None)" "grown fs0 fs1 n bn" "card (fs_free fs) \<le> card (fs_free fs1) + 1"
    "ndirect + nindirect \<le> bi \<longrightarrow> ino_indirect2 (fs_inode fs1 n) \<noteq> 0 \<and> it_indirect2 it1 = Some (ino_indirect2 (fs_inode fs1 n))"
    "\<forall>c. valid_place (P_ind c) \<longrightarrow> class_bn fs1 n c = class_bn fs n c" "it_indirect it1 = it_indirect it" "it_off it1 = it_off it" "bi < ndirect + nindirect \<longrightarrow> fs1 = fs \<and> it1 = it"
proof -
  note wf = grownD(1)[OF g]
  note R = room_simps[OF chk_wfD(2)[OF wf]]
  show thesis
  proof (cases "ndirect + nindirect \<le> bi \<and> it_indirect2 it = None")
    case False
    have i: "ndirect + nindirect \<le> bi \<longrightarrow> ino_indirect2 (fs_inode fs n) \<noteq> 0 \<and> it_indirect2 it = Some (ino_indirect2 (fs_inode fs n))"
      using it False by (auto simp: R(1) split: if_splits)
    have m: "map_indirect2 fs n it bi = Inr (fs, it, None)" using False by (simp only: map_indirect2_def if_False)
    show thesis by (rule that[OF m g _ i]) simp_all
  next
    case True
    then have z: "ino_indirect2 (fs_inode fs n) = 0" using it by (auto simp: R(1) split: if_splits)
    obtain fs1 b where a: "allocate_metablock_entry fs = Inr (fs1, b, Some b)" "grown fs0 fs1 n bn" "fresh_bn fs1 n b" "b \<noteq> bn" "\<not> is_error_bn b"
      "fs_block fs1 b = replicate blocksize 0" "\<forall>Q. valid_place Q \<longrightarrow> place_bn fs1 n Q = place_bn fs n Q" "fs_inode fs1 = fs_inode fs"
      "card (fs_free fs) = card (fs_free fs1) + 1" "\<not> data_block fs0 n b" by (rule grown_metablock[OF g ne])
    define fs2 where "fs2 = set_inode fs1 n (\<lambda>ino. ino\<lparr>ino_indirect2 := b\<rparr>)"
    have z1: "ino_indirect2 (fs_inode fs1 n) = 0" using z a(8) by simp
    have pl: "place_bn fs2 n Q = (if Q = P_i2 then b else place_bn fs1 n Q)" if "valid_place Q" for Q
      unfolding fs2_def by (rule set_i2_places[OF grownD(1)[OF a(2)] z1 a(3,6) that])
    have s: "same_fs fs1 fs2" "same_meta fs1 fs2 n" "fs_block fs2 = fs_block fs1" "ino_direct (fs_inode fs2 n) = ino_direct (fs_inode fs1 n)" "ino_indirect2 (fs_inode fs2 n) = b"
      by (simp_all add: fs2_def set_inode_def same_fs_def same_meta_def)
    have fr: "fs_free fs2 = fs_free fs1" using s by (simp add: fs_free_def same_fs_def)
    have ok: "fs_blocks_ok fs2" using chk_wfD(3)[OF grownD(1)[OF a(2)]] s by (simp add: fs_blocks_ok_def)
    have g2: "grown fs0 fs2 n bn"
      by (rule grown_set_place[OF a(2,3,4), of P_i2 fs2]) (use s fr ok pl chk_wfD(7)[OF grownD(1)[OF a(2)]] in simp_all)
    have "map_indirect2 fs n it bi = Inr (fs2, it\<lparr>it_indirect2 := Some b\<rparr>, None)" using True a(1,5) by (simp add: map_indirect2_def fs2_def)
    moreover have "class_bn fs2 n c = class_bn fs n c" if "valid_place (P_ind c)" for c using pl[OF that] a(7)[rule_format, OF that] by simp
    ultimately show thesis using that[of fs2 "it\<lparr>it_indirect2 := Some b\<rparr>"] g2 a(9) fr s(5) freshD(1)[OF a(3)] True by simp
  qed
qed

lemma map_indirect_ok:
  assumes g: "grown fs0 fs n bn" and ne: "fs_free fs \<noteq> {}" and bi: "bi < maxblocks"
    and it: "ndirect \<le> bi \<Longrightarrow> it_indirect it = nonnull fs (class_bn fs n (iclass bi))"
    and i2: "ndirect + nindirect \<le> bi \<Longrightarrow> ino_indirect2 (fs_inode fs n) \<noteq> 0 \<and> it_indirect2 it = Some (ino_indirect2 (fs_inode fs n))"
  obtains fs1 it1 where "map_indirect fs n it bi = Inr (fs1, it1, None)" "grown fs0 fs1 n bn" "card (fs_free fs) \<le> card (fs_free fs1) + 1"
    "ndirect \<le> bi \<longrightarrow> class_bn fs1 n (iclass bi) \<noteq> 0 \<and> it_indirect it1 = Some (class_bn fs1 n (iclass bi))"
    "ino_indirect2 (fs_inode fs1 n) = ino_indirect2 (fs_inode fs n)" "it_indirect2 it1 = it_indirect2 it" "it_off it1 = it_off it" "bi < ndirect \<longrightarrow> fs1 = fs \<and> it1 = it"
proof -
  note wf = grownD(1)[OF g]
  note R = room_simps[OF chk_wfD(2)[OF wf]]
  show thesis
  proof (cases "ndirect \<le> bi \<and> it_indirect it = None")
    case False
    have i: "ndirect \<le> bi \<longrightarrow> class_bn fs n (iclass bi) \<noteq> 0 \<and> it_indirect it = Some (class_bn fs n (iclass bi))"
      using it False unfolding R(1) by (auto split: if_splits)
    have m: "map_indirect fs n it bi = Inr (fs, it, None)" using False by (simp only: map_indirect_def if_False)
    show thesis by (rule that[OF m g _ i]) simp_all
  next
    case True
    let ?c = "iclass bi"
    have vc: "valid_place (P_ind ?c)" using iclass_valid True bi by simp
    have z: "class_bn fs n ?c = 0" using it True unfolding R(1) by (auto split: if_splits)
    obtain fs1 b where a: "allocate_metablock_entry fs = Inr (fs1, b, Some b)" "grown fs0 fs1 n bn" "fresh_bn fs1 n b" "b \<noteq> bn" "\<not> is_error_bn b"
      "fs_block fs1 b = replicate blocksize 0" "\<forall>Q. valid_place Q \<longrightarrow> place_bn fs1 n Q = place_bn fs n Q" "fs_inode fs1 = fs_inode fs"
      "card (fs_free fs) = card (fs_free fs1) + 1" "\<not> data_block fs0 n b" by (rule grown_metablock[OF g ne])
    have z1: "class_bn fs1 n ?c = 0" using a(7)[rule_format, OF vc] z by simp
    have c1: "?c = 1 \<or> ino_indirect2 (fs_inode fs1 n) \<noteq> 0" using iclass_cases(2,5)[of bi] i2 True a(8) by (cases "ndirect + nindirect \<le> bi") auto
    obtain fs2 where w: "write_loc fs1 n (place_loc fs1 n (P_ind ?c)) b = Inr fs2" "same_fs fs1 fs2" "fs_blocks_ok fs2" "fs_free fs2 = fs_free fs1"
      "\<forall>Q. valid_place Q \<longrightarrow> place_bn fs2 n Q = (if Q = P_ind ?c then b else place_bn fs1 n Q)"
      "\<forall>x. (x \<noteq> ino_indirect2 (fs_inode fs1 n) \<or> x = 0) \<longrightarrow> fs_block fs2 x = fs_block fs1 x"
      "fs_inode fs2 = (fs_inode fs1)(n := (fs_inode fs1 n)\<lparr>ino_indirect := ino_indirect (fs_inode fs2 n)\<rparr>)"
      by (rule set_class_places[OF grownD(1)[OF a(2)] vc z1 c1 a(3,6)])
    have i: "same_meta fs1 fs2 n" "ino_direct (fs_inode fs2 n) = ino_direct (fs_inode fs1 n)" "ino_indirect2 (fs_inode fs2 n) = ino_indirect2 (fs_inode fs1 n)"
      unfolding same_meta_def by (subst w(7), simp)+
    have blk: "fs_block fs2 x = fs_block fs1 x" if "\<forall>M. is_meta M \<longrightarrow> valid_place M \<longrightarrow> place_bn fs1 n M \<noteq> 0 \<longrightarrow> x \<noteq> place_bn fs1 n M" for x
      using w(6) that[rule_format, of P_i2] by (cases "ino_indirect2 (fs_inode fs1 n) = 0") auto
    have g2: "grown fs0 fs2 n bn"
      by (rule grown_set_place[OF a(2,3,4), of "P_ind ?c" fs2]) (use w(2-5) i blk chk_wfD(7)[OF grownD(1)[OF a(2)]] in simp_all)
    have iptr: "get_iptr (it\<lparr>it_indirect := Some b\<rparr>) bi = Inr (place_loc fs1 n (P_ind ?c))"
      using iclass_cases(2,4,5)[of bi] i2 True a(8) by (cases "ndirect + nindirect \<le> bi") (auto simp: get_iptr_def place_loc_def Let_def)
    have "map_indirect fs n it bi = Inr (fs2, it\<lparr>it_indirect := Some b\<rparr>, None)" using True a(1,5) iptr w(1) by (simp add: map_indirect_def)
    moreover have "class_bn fs2 n ?c = b" using w(5)[rule_format, OF vc] by simp
    ultimately show thesis using that[of fs2 "it\<lparr>it_indirect := Some b\<rparr>"] g2 a(8,9) w(4) i(3) freshD(1)[OF a(3)] True by simp
  qed
qed


lemma fileiter_map_ok:
  assumes wf: "chk_wf fs n" and ok: "it_ok fs n it" and bi: "bi = it_off it div blocksize"
    and i2: "ndirect + nindirect \<le> bi \<Longrightarrow> it_indirect2 it = nonnull fs (ino_indirect2 (fs_inode fs n))"
    and i1: "ndirect \<le> bi \<Longrightarrow> it_indirect it = nonnull fs (class_bn fs n (iclass bi))"
    and bn: "fresh_bn fs n bn" and lock: "ino_mlock (fs_inode fs n) = - 1" and free: "2 \<le> card (fs_free fs)"
  obtains fs' it' where "fileiter_map fs n it bn = Inr (fs', it', 0)" "chk_wf fs' n" "same_fs fs fs'" "it_ok fs' n it'" "same_meta fs fs' n"
    "\<forall>bj < maxblocks. file_bn fs' n bj = (if bj = bi then bn else file_bn fs n bj)"
    "\<forall>x. data_block fs n x \<or> x = bn \<longrightarrow> fs_block fs' x = fs_block fs x" "fs_free fs' \<subseteq> fs_free fs" "card (fs_free fs) \<le> card (fs_free fs') + 2"
proof -
  have off: "it_off it < chkfs_maxsize" and bb: "bi < maxblocks" and bm: "it_off it div blocksize mod 2 ^ 32 = bi" using ok bi by (auto simp: it_ok_def)
  have g0: "grown fs fs n bn" unfolding grown_def using wf bn by (simp add: same_fs_def same_meta_def)
  have ne: "fs_free fs \<noteq> {}" using free by auto
  obtain fs1 it1 where 1: "map_indirect2 fs n it bi = Inr (fs1, it1, None)" "grown fs fs1 n bn" "card (fs_free fs) \<le> card (fs_free fs1) + 1"
    "ndirect + nindirect \<le> bi \<longrightarrow> ino_indirect2 (fs_inode fs1 n) \<noteq> 0 \<and> it_indirect2 it1 = Some (ino_indirect2 (fs_inode fs1 n))"
    "\<forall>c. valid_place (P_ind c) \<longrightarrow> class_bn fs1 n c = class_bn fs n c" "it_indirect it1 = it_indirect it" "it_off it1 = it_off it" "bi < ndirect + nindirect \<longrightarrow> fs1 = fs \<and> it1 = it"
    by (rule map_indirect2_ok[OF g0 ne bb i2])
  have ne1: "fs_free fs1 \<noteq> {}" using free 1(3) by auto
  note R1 = room_simps[OF chk_wfD(2)[OF grownD(1)[OF 1(2)]]] and R = room_simps[OF chk_wfD(2)[OF wf]]
  have i1': "it_indirect it1 = nonnull fs1 (class_bn fs1 n (iclass bi))" if "ndirect \<le> bi"
    using i1[OF that] 1(5)[rule_format, OF iclass_valid[OF that bb]] 1(6) unfolding R1(1) R(1) by simp
  have i2': "ino_indirect2 (fs_inode fs1 n) \<noteq> 0 \<and> it_indirect2 it1 = Some (ino_indirect2 (fs_inode fs1 n))" if "ndirect + nindirect \<le> bi" using 1(4) that by blast
  obtain fs2 it2 where 2: "map_indirect fs1 n it1 bi = Inr (fs2, it2, None)" "grown fs fs2 n bn" "card (fs_free fs1) \<le> card (fs_free fs2) + 1"
    "ndirect \<le> bi \<longrightarrow> class_bn fs2 n (iclass bi) \<noteq> 0 \<and> it_indirect it2 = Some (class_bn fs2 n (iclass bi))"
    "ino_indirect2 (fs_inode fs2 n) = ino_indirect2 (fs_inode fs1 n)" "it_indirect2 it2 = it_indirect2 it1" "it_off it2 = it_off it1" "bi < ndirect \<longrightarrow> fs2 = fs1 \<and> it2 = it1"
    by (rule map_indirect_ok[OF 1(2) ne1 bb i1' i2'])
  have c2: "class_bn fs2 n (iclass bi) \<noteq> 0" if "ndirect \<le> bi" using 2(4) that by blast
  obtain fs3 where w: "write_loc fs2 n (place_loc fs2 n (P_data bi)) bn = Inr fs3" "same_fs fs2 fs3" "fs_blocks_ok fs3" "fs_free fs3 = fs_free fs2"
    "\<forall>Q. valid_place Q \<longrightarrow> place_bn fs3 n Q = (if Q = P_data bi then bn else place_bn fs2 n Q)"
    "\<forall>x. (\<forall>c. valid_place (P_ind c) \<longrightarrow> class_bn fs2 n c \<noteq> 0 \<longrightarrow> x \<noteq> class_bn fs2 n c) \<longrightarrow> fs_block fs3 x = fs_block fs2 x"
    "fs_inode fs3 = (fs_inode fs2)(n := (fs_inode fs2 n)\<lparr>ino_direct := ino_direct (fs_inode fs3 n)\<rparr>)" "length (ino_direct (fs_inode fs3 n)) = ndirect"
    by (rule set_data_places[OF grownD(1)[OF 2(2)] bb c2])
  define it3 where "it3 = it2\<lparr>it_dptr := Some (place_loc fs2 n (P_data bi))\<rparr>"
  have d: "get_dptr it2 bi = Inr (place_loc fs2 n (P_data bi))" using 2(4) bb by (auto simp: get_dptr_def place_loc_def)
  have bn0: "bn \<noteq> 0" using freshD(1)[OF bn] .
  have M: "fileiter_map fs n it bn = Inr (fs3, it3, 0)"
    unfolding fileiter_map_def Let_def bm using lock bn0 off 1(1) 2(1) d w(1) by (simp add: it3_def)
  have wf3: "chk_wf fs3 n" by (rule wf_update[OF grownD(1)[OF 2(2)] w(2,3,4,8) grownD(4)[OF 2(2)], of "P_data bi"]) (use w(5) in blast)
  have i3: "same_meta fs2 fs3 n" "ino_indirect2 (fs_inode fs3 n) = ino_indirect2 (fs_inode fs2 n)" unfolding same_meta_def by (subst w(7), simp)+
  have fbn: "file_bn fs3 n bj = (if bj = bi then bn else file_bn fs n bj)" if "bj < maxblocks" for bj
    using w(5)[rule_format, of "P_data bj"] that grownD(5)[OF 2(2) that] by simp
  have cl3: "class_bn fs3 n c = class_bn fs2 n c" if "valid_place (P_ind c)" for c using w(5)[rule_format, OF that] by simp
  have blk: "fs_block fs3 x = fs_block fs x" if x: "data_block fs n x \<or> x = bn" for x
  proof -
    have "x \<noteq> class_bn fs2 n c" if c: "valid_place (P_ind c)" "class_bn fs2 n c \<noteq> 0" for c
    proof (cases "x = bn")
      case True
      then show ?thesis using freshD(4)[OF grownD(4)[OF 2(2)] c(1)] by auto
    next
      case False
      then have "data_block fs2 n x" using x grownD(8)[OF 2(2)] by simp
      then obtain bj where bj: "valid_place (P_data bj)" "place_bn fs2 n (P_data bj) = x" by (rule data_blockE)
      have "place_bn fs2 n (P_ind c) \<noteq> place_bn fs2 n (P_data bj)" using chk_wfD(10)[OF grownD(1)[OF 2(2)] c(1) bj(1)] c(2) by auto
      then show ?thesis using bj(2) by auto
    qed
    then have all: "\<forall>c. valid_place (P_ind c) \<longrightarrow> class_bn fs2 n c \<noteq> 0 \<longrightarrow> x \<noteq> class_bn fs2 n c" by simp
    have "fs_block fs3 x = fs_block fs2 x" by (rule mp[OF spec[OF w(6), of x] all])
    then show ?thesis using grownD(6)[OF 2(2) x] by simp
  qed
  note R3 = room_simps[OF chk_wfD(2)[OF wf3]]
  have "it_ok fs3 n it3"
  proof -
    have "it_indirect2 it2 = None \<or> it_indirect2 it2 = nonnull fs3 (ino_indirect2 (fs_inode fs3 n))"
    proof (cases "ndirect + nindirect \<le> bi")
      case True
      then show ?thesis using 1(4) 2(5,6) i3(2) unfolding R3(1) by auto
    next
      case False
      then have "fs1 = fs" "it1 = it" using 1(8) by auto
      then show ?thesis using ok 2(5,6) i3(2) unfolding R3(1) by (auto simp: it_ok_def R(1) split: if_splits)
    qed
    moreover have "it_indirect it2 = None \<or> it_indirect it2 = nonnull fs3 (class_bn fs3 n (iclass bi))"
    proof (cases "ndirect \<le> bi")
      case True
      then show ?thesis using 2(4) cl3[OF iclass_valid[OF True bb]] unfolding R3(1) by auto
    next
      case False
      then have "it2 = it" using 2(8) 1(8) by auto
      then show ?thesis using ok False iclass_cases(1)[of bi] by (auto simp: it_ok_def bi)
    qed
    ultimately show ?thesis using off 1(7) 2(7) bi by (simp add: it_ok_def it3_def)
  qed
  moreover have "same_fs fs fs3" using grownD(2)[OF 2(2)] w(2) by (simp add: same_fs_def)
  moreover have "same_meta fs fs3 n" using grownD(3)[OF 2(2)] i3(1) by (simp add: same_meta_def)
  moreover have "fs_free fs3 \<subseteq> fs_free fs" "card (fs_free fs) \<le> card (fs_free fs3) + 2" using grownD(7)[OF 2(2)] w(4) 1(3) 2(3) by auto
  ultimately show thesis using that[OF M wf3] fbn blk by blast
qed

text \<open>The step of a write that extends the file.\<close>

lemma write_extend_ok:
  assumes wf: "chk_wf fs n" and ok: "it_ok fs n it" and bi: "bi < maxblocks" and lock: "ino_mlock (fs_inode fs n) = - 1" and free: "3 \<le> card (fs_free fs)"
  obtains fs' it' where "write_extend fs n it (bi * blocksize) = Inr (fs', it')" "chk_wf fs' n" "same_fs fs fs'" "it_ok fs' n it'" "same_meta fs fs' n"
    "file_bn fs' n bi \<noteq> 0" "\<forall>bj < maxblocks. bj \<noteq> bi \<or> file_bn fs n bi \<noteq> 0 \<longrightarrow> file_bn fs' n bj = file_bn fs n bj"
    "\<forall>x. data_block fs n x \<longrightarrow> fs_block fs' x = fs_block fs x" "card (fs_free fs) \<le> card (fs_free fs') + 3"
proof (cases "file_bn fs n bi = 0")
  case False
  then have "nonnull fs (file_bn fs n bi) = Some (file_bn fs n bi)" using room_simps(1)[OF chk_wfD(2)[OF wf]] by simp
  then have "write_extend fs n it (bi * blocksize) = Inr (fs, it)" using get_data_block_eq[OF bi, of fs n] by (simp add: write_extend_def)
  then show thesis using that[of fs it] wf ok False by (simp add: same_fs_def same_meta_def)
next
  case True
  have o: "bi * blocksize < chkfs_maxsize" "bi * blocksize div blocksize = bi" using bi by simp_all
  obtain it1 where it1: "fileiter_find fs n it (bi * blocksize) = Inr it1" "it_ok fs n it1" "it_off it1 = bi * blocksize"
    "ndirect + nindirect \<le> bi \<Longrightarrow> it_indirect2 it1 = nonnull fs (ino_indirect2 (fs_inode fs n))" "ndirect \<le> bi \<Longrightarrow> it_indirect it1 = nonnull fs (class_bn fs n (iclass bi))"
    using fileiter_find_correct[OF ok o(1)] unfolding o(2) by metis
  have ne: "fs_free fs \<noteq> {}" using free by auto
  obtain fs1 b where a: "allocate_block fs = Inr (fs1, b)" "chk_wf fs1 n" "fresh_bn fs1 n b" "fs_free fs1 = fs_free fs - {unat b}" "unat b \<in> fs_free fs"
    "same_fs fs fs1" "fs_inode fs1 = fs_inode fs" "\<forall>x. x \<noteq> sb_fbb_bn (fs_sb fs) \<longrightarrow> fs_block fs1 x = fs_block fs x"
    "\<forall>Q. valid_place Q \<longrightarrow> place_bn fs1 n Q = place_bn fs n Q" "\<not> is_error_bn b" by (rule allocate_block_wf[OF wf ne])
  note R = room_simps[OF chk_wfD(2)[OF wf]] and R1 = room_simps[OF chk_wfD(2)[OF a(2)]]
  have card1: "card (fs_free fs) = card (fs_free fs1) + 1" using a(4,5) by (metis One_nat_def Suc_pred add.right_neutral add_Suc_right card_Diff_singleton card_gt_0_iff empty_iff finite_free)
  have f1: "file_bn fs1 n bj = file_bn fs n bj" if "bj < maxblocks" for bj using a(9)[rule_format, of "P_data bj"] that by simp
  have c1: "class_bn fs1 n c = class_bn fs n c" if "valid_place (P_ind c)" for c using a(9)[rule_format, OF that] by simp
  have off1: "it_off it1 div blocksize = bi" using it1(3) by simp
  have ok1: "it_ok fs1 n it1"
  proof -
    have "class_bn fs1 n (iclass bi) = class_bn fs n (iclass bi)"
    proof (cases "ndirect \<le> bi")
      case True
      show ?thesis by (rule c1[OF iclass_valid[OF True bi]])
    next
      case False
      then show ?thesis using iclass_cases(1)[of bi] by simp
    qed
    moreover have "nonnull fs1 = nonnull fs" by (simp add: fun_eq_iff R(1) R1(1))
    ultimately show ?thesis using it1(2) a(7) unfolding it_ok_def off1 by simp
  qed
  have s2: "it_indirect2 it1 = nonnull fs1 (ino_indirect2 (fs_inode fs1 n))" if "ndirect + nindirect \<le> bi" using it1(4)[OF that] a(7) unfolding R(1) R1(1) by simp
  have s1: "it_indirect it1 = nonnull fs1 (class_bn fs1 n (iclass bi))" if "ndirect \<le> bi" using it1(5)[OF that] c1[OF iclass_valid[OF that bi]] unfolding R(1) R1(1) by simp
  have lock1: "ino_mlock (fs_inode fs1 n) = - 1" and free1: "2 \<le> card (fs_free fs1)" using lock a(7) free card1 by auto
  obtain fs2 it2 where m: "fileiter_map fs1 n it1 b = Inr (fs2, it2, 0)" "chk_wf fs2 n" "same_fs fs1 fs2" "it_ok fs2 n it2" "same_meta fs1 fs2 n"
    "\<forall>bj < maxblocks. file_bn fs2 n bj = (if bj = bi then b else file_bn fs1 n bj)"
    "\<forall>x. data_block fs1 n x \<or> x = b \<longrightarrow> fs_block fs2 x = fs_block fs1 x" "fs_free fs2 \<subseteq> fs_free fs1" "card (fs_free fs1) \<le> card (fs_free fs2) + 2"
    by (rule fileiter_map_ok[OF a(2) ok1 off1[symmetric] s2 s1 a(3) lock1 free1])
  have "b \<noteq> word_of_int E_NOSPC" using a(10) by (auto simp: is_error_bn_def)
  moreover have "get_data_block fs n (bi * blocksize) = Inr None" using get_data_block_eq[OF bi, of fs n] True by simp
  ultimately have w: "write_extend fs n it (bi * blocksize) = Inr (fs2, it2)" using it1(1) a(1) m(1) by (simp add: write_extend_def)
  have blk: "fs_block fs2 x = fs_block fs x" if x: "data_block fs n x" for x
  proof -
    have "data_block fs1 n x" using x f1 by (auto simp: data_block_def)
    moreover have "x \<noteq> sb_fbb_bn (fs_sb fs)" using chk_wfD(9)[OF wf] x by (metis data_blockE)
    ultimately show ?thesis using m(7) a(8) by simp
  qed
  show thesis
  proof (rule that[OF w m(2) _ m(4)])
    show "same_fs fs fs2" "same_meta fs fs2 n" using a(6,7) m(3,5) by (simp_all add: same_fs_def same_meta_def)
    show "file_bn fs2 n bi \<noteq> 0" using m(6) bi freshD(1)[OF a(3)] by simp
    show "\<forall>bj < maxblocks. bj \<noteq> bi \<or> file_bn fs n bi \<noteq> 0 \<longrightarrow> file_bn fs2 n bj = file_bn fs n bj" using m(6) f1 True by simp
    show "\<forall>x. data_block fs n x \<longrightarrow> fs_block fs2 x = fs_block fs x" using blk by simp
    show "card (fs_free fs) \<le> card (fs_free fs2) + 3" using card1 m(9) by simp
  qed
qed

end
