(* ===== verification/Chkfs_Correct.thy ===== *)
theory Chkfs_Correct
  imports Chkfs_Alloc
begin

text \<open>
  Writing a file: the bytes that a write stores are the bytes that a read returns, the other bytes stay, and the file grows block by block.  A small disk on
  which the properties are applied is at the end.
\<close>


section \<open>Writing\<close>

lemma copy_into_nth:
  assumes "pos + length d \<le> length b" "j < length b"
  shows "copy_into b pos d ! j = (if pos \<le> j \<and> j < pos + length d then d ! (j - pos) else b ! j)" "length (copy_into b pos d) = length b"
  using assms by (auto simp: copy_into_def nth_append)

text \<open>Writing bytes into a data block of the file, and the new size.\<close>

lemma write_block_ok:
  assumes wf: "chk_wf fs n" and off: "off div blocksize < maxblocks" "file_bn fs n (off div blocksize) = bn" "bn \<noteq> 0" and d: "off mod blocksize + length d \<le> blocksize"
  defines "fs2 \<equiv> set_block fs bn (copy_into (fs_block fs bn) (off mod blocksize) d)"
  shows "chk_wf fs2 n" "\<forall>Q. valid_place Q \<longrightarrow> place_bn fs2 n Q = place_bn fs n Q"
    "\<forall>i. i div blocksize < maxblocks \<and> file_bn fs n (i div blocksize) \<noteq> 0 \<longrightarrow>
       file_byte fs2 n i = (if off \<le> i \<and> i < off + length d then d ! (i - off) else file_byte fs n i)"
    "fs_free fs2 = fs_free fs"
proof -
  have bnp: "place_bn fs n (P_data (off div blocksize)) = bn" "valid_place (P_data (off div blocksize))" using off by simp_all
  have s: "same_fs fs fs2" "same_ptrs fs fs2 n" by (simp_all add: fs2_def set_block_def same_fs_def same_ptrs_def)
  note C = copy_into_nth[of "off mod blocksize" d "fs_block fs bn", unfolded chk_wfD(4)[OF wf], OF d]
  have ok: "fs_blocks_ok fs2" unfolding fs_blocks_ok_def fs2_def set_block_def using chk_wfD(4)[OF wf] C(2)[of 0] by simp
  have "bn \<noteq> sb_fbb_bn (fs_sb fs)" using chk_wfD(9)[OF wf bnp(2)] bnp(1) off(3) by simp
  then show fr: "fs_free fs2 = fs_free fs" by (intro fs_free_frame[OF s(1)]) (simp add: fs2_def set_block_def)
  have keep: "fs_block fs2 (place_bn fs n P) = fs_block fs (place_bn fs n P)" if P: "is_meta P" "valid_place P" "place_bn fs n P \<noteq> 0" for P
  proof -
    have "P \<noteq> P_data (off div blocksize)" using P(1) by auto
    then have "place_bn fs n P \<noteq> bn" using chk_wfD(10)[OF wf P(2) bnp(2) P(3)] bnp(1) by metis
    then show ?thesis by (simp add: fs2_def set_block_def)
  qed
  have sub: "fs_free fs2 \<subseteq> fs_free fs" using fr by simp
  show "chk_wf fs2 n" by (rule wf_same_places(1)[OF wf s ok sub keep])
  have pl: "place_bn fs2 n Q = place_bn fs n Q" if "valid_place Q" for Q by (rule wf_same_places(2)[OF wf s ok sub keep that])
  then show "\<forall>Q. valid_place Q \<longrightarrow> place_bn fs2 n Q = place_bn fs n Q" by blast
  show "\<forall>i. i div blocksize < maxblocks \<and> file_bn fs n (i div blocksize) \<noteq> 0 \<longrightarrow>
       file_byte fs2 n i = (if off \<le> i \<and> i < off + length d then d ! (i - off) else file_byte fs n i)"
  proof (intro allI impI)
    fix i assume i: "i div blocksize < maxblocks \<and> file_bn fs n (i div blocksize) \<noteq> 0"
    have f: "file_bn fs2 n (i div blocksize) = file_bn fs n (i div blocksize)" using pl[of "P_data (i div blocksize)"] i by simp
    show "file_byte fs2 n i = (if off \<le> i \<and> i < off + length d then d ! (i - off) else file_byte fs n i)"
    proof (cases "i div blocksize = off div blocksize")
      case True
      have e: "off = off div blocksize * blocksize + off mod blocksize" "i = off div blocksize * blocksize + i mod blocksize" using True by (metis div_mult_mod_eq)+
      have r: "off mod blocksize \<le> i mod blocksize \<and> i mod blocksize < off mod blocksize + length d \<longleftrightarrow> off \<le> i \<and> i < off + length d" "i mod blocksize - off mod blocksize = i - off"
        using e by linarith+
      have "i mod blocksize < blocksize" by simp
      then show ?thesis using True off(2) f C(1)[of "i mod blocksize"] r by (simp add: file_byte_def fs2_def set_block_def)
    next
      case False
      have "file_bn fs n (i div blocksize) \<noteq> bn" using chk_wfD(10)[OF wf _ bnp(2), of "P_data (i div blocksize)"] i bnp(1) False by auto
      moreover have "\<not> (off \<le> i \<and> i < off + length d)"
      proof
        assume a: "off \<le> i \<and> i < off + length d"
        then have "off mod blocksize + (i - off) < blocksize" using d by linarith
        then have "(off + (i - off)) div blocksize = off div blocksize" using same_block by blast
        then show False using False a by simp
      qed
      ultimately show ?thesis using f unfolding file_byte_def by (auto simp: fs2_def set_block_def)
    qed
  qed
qed

lemma set_size_ok:
  fixes s :: u32
  assumes wf: "chk_wf fs n"
  defines "fs' \<equiv> set_inode fs n (\<lambda>ino. ino\<lparr>ino_size := s\<rparr>)"
  shows "chk_wf fs' n" "\<forall>Q. valid_place Q \<longrightarrow> place_bn fs' n Q = place_bn fs n Q" "fs_block fs' = fs_block fs" "fs_free fs' = fs_free fs"
proof -
  have s: "same_fs fs fs'" "same_ptrs fs fs' n" "fs_block fs' = fs_block fs" by (simp_all add: fs'_def set_inode_def same_fs_def same_ptrs_def)
  then show "fs_block fs' = fs_block fs" by simp
  show fr: "fs_free fs' = fs_free fs" using s by (simp add: fs_free_def same_fs_def)
  have ok: "fs_blocks_ok fs'" using chk_wfD(3)[OF wf] s by (simp add: fs_blocks_ok_def)
  have sub: "fs_free fs' \<subseteq> fs_free fs" using fr by simp
  show "chk_wf fs' n" by (rule wf_same_places(1)[OF wf s(1,2) ok sub]) (simp add: s)
  show "\<forall>Q. valid_place Q \<longrightarrow> place_bn fs' n Q = place_bn fs n Q" using wf_same_places(2)[OF wf s(1,2) ok sub] s(3) by simp
qed

lemma it_ok_places:
  assumes "it_ok fs n it" "chk_wf fs n" "chk_wf fs' n" "\<forall>Q. valid_place Q \<longrightarrow> place_bn fs' n Q = place_bn fs n Q"
  shows "it_ok fs' n it"
proof -
  have nn: "nonnull fs' = nonnull fs" using room_simps(1)[OF chk_wfD(2)[OF assms(2)]] room_simps(1)[OF chk_wfD(2)[OF assms(3)]] by (simp add: fun_eq_iff)
  have b: "it_off it div blocksize < maxblocks" using assms(1) by (auto simp: it_ok_def)
  have "class_bn fs' n (iclass (it_off it div blocksize)) = class_bn fs n (iclass (it_off it div blocksize))"
  proof (cases "ndirect \<le> it_off it div blocksize")
    case True
    show ?thesis using assms(4)[rule_format, OF iclass_valid[OF True b]] by simp
  next
    case False
    then show ?thesis using iclass_cases(1)[of "it_off it div blocksize"] by simp
  qed
  moreover have "ino_indirect2 (fs_inode fs' n) = ino_indirect2 (fs_inode fs n)" using assms(4)[rule_format, of P_i2] by simp
  ultimately show ?thesis using assms(1) unfolding it_ok_def nn by simp
qed


text \<open>What a write leaves: everything but the file's blocks and size.\<close>

definition others_same :: "chkfs \<Rightarrow> chkfs \<Rightarrow> nat \<Rightarrow> bool" where
  "others_same fs fs' n \<longleftrightarrow> same_fs fs fs' \<and> (\<forall>m. m \<noteq> n \<longrightarrow> fs_inode fs' m = fs_inode fs m) \<and> ino_mlock (fs_inode fs' n) = ino_mlock (fs_inode fs n)"

text \<open>The contents of the file after \<open>data\<close> is written at \<open>off\<close>.\<close>

definition written :: "chkfs \<Rightarrow> chkfs \<Rightarrow> nat \<Rightarrow> nat \<Rightarrow> u8 list \<Rightarrow> bool" where
  "written fs fs' n off data \<longleftrightarrow>
     (\<forall>i. i div blocksize < maxblocks \<longrightarrow> (file_bn fs n (i div blocksize) \<noteq> 0 \<or> (off \<le> i \<and> i < off + length data)) \<longrightarrow>
        file_bn fs' n (i div blocksize) \<noteq> 0 \<and> file_byte fs' n i = (if off \<le> i \<and> i < off + length data then data ! (i - off) else file_byte fs n i))"

definition crossings :: "nat \<Rightarrow> nat \<Rightarrow> nat" where
  "crossings off len = (off + len - 1) div blocksize - off div blocksize"

text \<open>One turn of the loop.\<close>

definition write_step :: "chkfs \<Rightarrow> nat \<Rightarrow> nat \<Rightarrow> u8 list \<Rightarrow> chkfs" where
  "write_step fs n off d =
     (let bn = file_bn fs n (off div blocksize); fs2 = set_block fs bn (copy_into (fs_block fs bn) (off mod blocksize) d); off' = off + length d
      in if off' > file_size fs2 n then set_inode fs2 n (\<lambda>ino. ino\<lparr>ino_size := word_of_nat off'\<rparr>) else fs2)"

lemma unat_u32: "m < 2 ^ 32 \<Longrightarrow> unat (word_of_nat m :: u32) = m"
  by (simp add: unsigned_of_nat take_bit_nat_eq_self)

lemma write_step_ok:
  assumes wf: "chk_wf fs n" and it: "it_ok fs n it" and off: "off div blocksize < maxblocks" "file_bn fs n (off div blocksize) \<noteq> 0"
    and d: "off mod blocksize + length d \<le> blocksize" "off + length d < 2 ^ 32"
  shows "chk_wf (write_step fs n off d) n" "it_ok (write_step fs n off d) n it" "others_same fs (write_step fs n off d) n"
    "file_size (write_step fs n off d) n = max (file_size fs n) (off + length d)" "fs_free (write_step fs n off d) = fs_free fs"
    "bi < maxblocks \<Longrightarrow> file_bn (write_step fs n off d) n bi = file_bn fs n bi"
    "i div blocksize < maxblocks \<Longrightarrow> file_bn fs n (i div blocksize) \<noteq> 0 \<Longrightarrow>
       file_byte (write_step fs n off d) n i = (if off \<le> i \<and> i < off + length d then d ! (i - off) else file_byte fs n i)"
proof -
  let ?bn = "file_bn fs n (off div blocksize)"
  define fs2 where "fs2 = set_block fs ?bn (copy_into (fs_block fs ?bn) (off mod blocksize) d)"
  note W = write_block_ok[OF wf off(1) refl off(2) d(1), folded fs2_def]
  have o2: "same_fs fs fs2" "fs_inode fs2 = fs_inode fs" by (simp_all add: fs2_def set_block_def same_fs_def)
  have ws: "write_step fs n off d = (if off + length d > file_size fs n then set_inode fs2 n (\<lambda>ino. ino\<lparr>ino_size := word_of_nat (off + length d)\<rparr>) else fs2)"
    by (simp add: write_step_def Let_def fs2_def[symmetric] o2(2))
  define fs3 where "fs3 = write_step fs n off d"
  note S = set_size_ok[OF W(1), of "word_of_nat (off + length d)"]
  have wf3: "chk_wf fs3 n" using W(1) S(1) by (simp add: fs3_def ws)
  have pl: "\<forall>Q. valid_place Q \<longrightarrow> place_bn fs3 n Q = place_bn fs n Q" using W(2) S(2) by (simp add: fs3_def ws)
  have bl: "fs_block fs3 = fs_block fs2" using S(3) by (simp add: fs3_def ws)
  have f3: "file_bn fs3 n bi = file_bn fs n bi" if "bi < maxblocks" for bi using pl[rule_format, of "P_data bi"] that by simp
  have f2: "file_bn fs2 n bi = file_bn fs n bi" if "bi < maxblocks" for bi using W(2)[rule_format, of "P_data bi"] that by simp
  show "chk_wf (write_step fs n off d) n" using wf3 by (simp add: fs3_def)
  show "it_ok (write_step fs n off d) n it" using it_ok_places[OF it wf wf3 pl] by (simp add: fs3_def)
  show "bi < maxblocks \<Longrightarrow> file_bn (write_step fs n off d) n bi = file_bn fs n bi" using f3 by (simp add: fs3_def)
  show "others_same fs (write_step fs n off d) n" using o2 by (auto simp: ws others_same_def same_fs_def set_inode_def)
  show "fs_free (write_step fs n off d) = fs_free fs" using W(4) S(4) by (simp add: ws)
  show "file_size (write_step fs n off d) n = max (file_size fs n) (off + length d)"
    using o2(2) unat_u32[OF d(2)] by (simp add: ws set_inode_def del: of_nat_add)
  show "file_byte (write_step fs n off d) n i = (if off \<le> i \<and> i < off + length d then d ! (i - off) else file_byte fs n i)"
    if "i div blocksize < maxblocks" "file_bn fs n (i div blocksize) \<noteq> 0"
  proof -
    have "file_byte fs3 n i = file_byte fs2 n i" unfolding file_byte_def using bl f3 f2 that(1) by simp
    also have "\<dots> = (if off \<le> i \<and> i < off + length d then d ! (i - off) else file_byte fs n i)" using W(3)[rule_format, of i] that by blast
    finally show ?thesis by (simp add: fs3_def)
  qed
qed

lemma next_block: "(off div blocksize + 1) * blocksize = off + (blocksize - off mod blocksize)"
proof -
  have "(q + 1) * b = (q * b + m) + (b - m)" if "m < b" for q b m :: nat using that by (simp add: add_mult_distrib)
  from this[of "off mod blocksize" blocksize "off div blocksize"] show ?thesis unfolding div_mult_mod_eq by simp
qed

lemma inode_write_turn:
  assumes wf: "chk_wf fs n" and off: "off div blocksize < maxblocks" "file_bn fs n (off div blocksize) \<noteq> 0" and data: "data \<noteq> []" "off + length data < 2 ^ 32"
  defines "nc \<equiv> min (length data) (blocksize - off mod blocksize)" and "be \<equiv> (off div blocksize + 1) * blocksize"
  shows "inode_write_loop (Suc fuel) fs n it data off nw =
    rbind (if be < off + length data then write_extend fs n it be else Inr (fs, it)) (\<lambda>(fs1, it1).
      let fs2 = set_block fs1 (file_bn fs n (off div blocksize)) (copy_into (fs_block fs1 (file_bn fs n (off div blocksize))) (off mod blocksize) (take nc data));
          fs3 = (if off + nc > file_size fs2 n then set_inode fs2 n (\<lambda>ino. ino\<lparr>ino_size := word_of_nat (off + nc)\<rparr>) else fs2)
      in inode_write_loop fuel fs3 n it1 (drop nc data) (off + nc) (nw + nc))"
proof -
  have bo: "off div blocksize * blocksize + off mod blocksize = off" "off mod blocksize < blocksize" by simp_all
  have be: "off div blocksize * blocksize + blocksize = be" by (simp add: be_def)
  have m: "(off + length data) mod 2 ^ 64 = off + length data" using data(2) by simp
  have c: "be < off + length data \<longleftrightarrow> blocksize - off mod blocksize < length data" unfolding be_def next_block by (rule nat_add_left_cancel_less)
  have nc: "(if be < off + length data then blocksize - off mod blocksize else length data) = nc" unfolding c nc_def by auto
  have r: "off - off div blocksize * blocksize = off mod blocksize" by (simp add: minus_div_mult_eq_mod)
  have le: "\<not> off mod blocksize + nc > blocksize" using bo(2) by (simp add: nc_def)
  have g: "get_data_block fs n (off div blocksize * blocksize) = Inr (Some (file_bn fs n (off div blocksize)))"
    using get_data_block_eq[OF off(1), of fs n] off(2) room_simps(1)[OF chk_wfD(2)[OF wf]] by simp
  show ?thesis
    unfolding inode_write_loop.simps(2) Let_def g rbind_simps option.case be m nc r using data(1) le by (simp add: case_prod_unfold)
qed

lemma inode_write_loop_correct:
  assumes "chk_wf fs n" "it_ok fs n it" "ino_mlock (fs_inode fs n) = - 1" "data \<noteq> [] \<Longrightarrow> file_bn fs n (off div blocksize) \<noteq> 0" "off + length data < 2 ^ 32"
    "3 * crossings off (length data) \<le> card (fs_free fs)" "length data < fuel"
  shows "\<exists>fs'. inode_write_loop fuel fs n it data off nw = Inr (fs', off + length data, nw + length data) \<and> chk_wf fs' n \<and> others_same fs fs' n
    \<and> (data \<noteq> [] \<longrightarrow> file_size fs' n = max (file_size fs n) (off + length data)) \<and> (data = [] \<longrightarrow> fs' = fs) \<and> written fs fs' n off data"
  using assms
proof (induction fuel arbitrary: fs it data off nw)
  case (Suc fuel)
  note wf = Suc.prems(1) and it = Suc.prems(2) and lock = Suc.prems(3) and lim = Suc.prems(5)
  show ?case
  proof (cases "data = []")
    case True
    then show ?thesis using wf by (auto simp: others_same_def same_fs_def written_def)
  next
    case False
    let ?bi = "off div blocksize" and ?len = "length data"
    define nc where "nc = min ?len (blocksize - off mod blocksize)"
    define be where "be = (?bi + 1) * blocksize"
    have bo: "?bi * blocksize + off mod blocksize = off" "off mod blocksize < blocksize" by simp_all
    have nc: "0 < nc" "nc \<le> ?len" "off mod blocksize + nc \<le> blocksize" using False bo(2) by (auto simp: nc_def)
    have bb: "?bi < maxblocks" using lim by simp
    have here: "file_bn fs n ?bi \<noteq> 0" using Suc.prems(4) False by blast
    have T: "inode_write_loop (Suc fuel) fs n it data off nw =
      rbind (if be < off + ?len then write_extend fs n it be else Inr (fs, it)) (\<lambda>(fs1, it1).
      let fs2 = set_block fs1 (file_bn fs n ?bi) (copy_into (fs_block fs1 (file_bn fs n ?bi)) (off mod blocksize) (take nc data));
          fs3 = (if off + nc > file_size fs2 n then set_inode fs2 n (\<lambda>ino. ino\<lparr>ino_size := word_of_nat (off + nc)\<rparr>) else fs2)
      in inode_write_loop fuel fs3 n it1 (drop nc data) (off + nc) (nw + nc))"
      unfolding nc_def be_def by (rule inode_write_turn[OF wf bb here False lim])
    obtain fs1 it1 where E: "(if be < off + ?len then write_extend fs n it be else Inr (fs, it)) = Inr (fs1, it1)" "chk_wf fs1 n" "same_fs fs fs1" "it_ok fs1 n it1" "same_meta fs fs1 n"
      "be < off + ?len \<Longrightarrow> file_bn fs1 n (?bi + 1) \<noteq> 0" "\<forall>bj < maxblocks. file_bn fs n bj \<noteq> 0 \<longrightarrow> file_bn fs1 n bj = file_bn fs n bj"
      "\<forall>x. data_block fs n x \<longrightarrow> fs_block fs1 x = fs_block fs x" "3 * crossings (off + nc) (?len - nc) \<le> card (fs_free fs1)"
    proof (cases "be < off + ?len")
      case True
      have nceq: "off + nc = be" using True unfolding nc_def be_def next_block by simp
      have bi1: "?bi + 1 < maxblocks" using True lim unfolding be_def by simp
      have cr: "crossings off ?len = crossings (off + nc) (?len - nc) + 1"
      proof -
        have "be div blocksize = ?bi + 1" by (simp add: be_def)
        moreover have "off + nc + (?len - nc) = off + ?len" using nc(2) by simp
        moreover have "be \<le> off + ?len - 1" using True by simp
        then have "?bi + 1 \<le> (off + ?len - 1) div blocksize" unfolding be_def by (simp add: less_eq_div_iff_mult_less_eq)
        ultimately show ?thesis unfolding crossings_def nceq by (simp add: Suc_diff_Suc Suc_le_eq)
      qed
      then have fr: "3 \<le> card (fs_free fs)" using Suc.prems(6) by simp
      obtain fs1 it1 where w: "write_extend fs n it ((?bi + 1) * blocksize) = Inr (fs1, it1)" "chk_wf fs1 n" "same_fs fs fs1" "it_ok fs1 n it1" "same_meta fs fs1 n"
        "file_bn fs1 n (?bi + 1) \<noteq> 0" "\<forall>bj < maxblocks. bj \<noteq> ?bi + 1 \<or> file_bn fs n (?bi + 1) \<noteq> 0 \<longrightarrow> file_bn fs1 n bj = file_bn fs n bj"
        "\<forall>x. data_block fs n x \<longrightarrow> fs_block fs1 x = fs_block fs x" "card (fs_free fs) \<le> card (fs_free fs1) + 3"
        by (rule write_extend_ok[OF wf it bi1 lock fr])
      show ?thesis
      proof (rule that[of fs1 it1])
        show "(if be < off + ?len then write_extend fs n it be else Inr (fs, it)) = Inr (fs1, it1)" using True w(1) by (simp add: be_def)
        show "\<forall>bj < maxblocks. file_bn fs n bj \<noteq> 0 \<longrightarrow> file_bn fs1 n bj = file_bn fs n bj" using w(7) by metis
        show "3 * crossings (off + nc) (?len - nc) \<le> card (fs_free fs1)" using cr Suc.prems(6) w(9) by simp
      qed (use w in simp_all)
    next
      case False
      then have "nc = ?len" unfolding nc_def be_def next_block by simp
      moreover have "crossings (off + ?len) 0 = 0" by (simp add: crossings_def)
      ultimately show ?thesis using that[of fs it] False wf it by (simp add: same_fs_def same_meta_def)
    qed
    have lock1: "ino_mlock (fs_inode fs1 n) = - 1" and size1: "file_size fs1 n = file_size fs n" using E(5) lock by (simp_all add: same_meta_def)
    have here1: "file_bn fs1 n ?bi = file_bn fs n ?bi" using E(7) bb here by blast
    have lenT: "length (take nc data) = nc" using nc(2) by simp
    define fs3 where "fs3 = write_step fs1 n off (take nc data)"
    have F: "inode_write_loop (Suc fuel) fs n it data off nw = inode_write_loop fuel fs3 n it1 (drop nc data) (off + nc) (nw + nc)"
      unfolding T E(1) rbind_simps case_prod_conv fs3_def write_step_def Let_def here1 lenT by (rule refl)
    have W1: "file_bn fs1 n ?bi \<noteq> 0" "off mod blocksize + length (take nc data) \<le> blocksize" "off + length (take nc data) < 2 ^ 32" using here1 here nc lim by simp_all
    note W = write_step_ok[OF E(2,4) bb W1, folded fs3_def, unfolded lenT]
    have o3: "others_same fs1 fs3 n" by (rule W(3))
    have next_here: "file_bn fs3 n ((off + nc) div blocksize) \<noteq> 0" if "drop nc data \<noteq> []"
    proof -
      have lt: "nc < ?len" using that by simp
      then have "off + nc = be" and cross: "be < off + ?len" unfolding nc_def be_def next_block by auto
      then have "(off + nc) div blocksize = ?bi + 1" by (simp add: be_def)
      moreover have "?bi + 1 < maxblocks" using cross lim unfolding be_def by simp
      ultimately show ?thesis using W(6)[of "?bi + 1"] E(6)[OF cross] by simp
    qed
    have "\<exists>fs'. inode_write_loop fuel fs3 n it1 (drop nc data) (off + nc) (nw + nc) = Inr (fs', off + nc + length (drop nc data), nw + nc + length (drop nc data)) \<and> chk_wf fs' n
      \<and> others_same fs3 fs' n \<and> (drop nc data \<noteq> [] \<longrightarrow> file_size fs' n = max (file_size fs3 n) (off + nc + length (drop nc data))) \<and> (drop nc data = [] \<longrightarrow> fs' = fs3)
      \<and> written fs3 fs' n (off + nc) (drop nc data)"
      by (rule Suc.IH[OF W(1,2)]) (use lock1 o3 next_here lim nc E(9) W(5) Suc.prems(7) in \<open>simp_all add: others_same_def\<close>)
    then obtain fs' where I: "inode_write_loop fuel fs3 n it1 (drop nc data) (off + nc) (nw + nc) = Inr (fs', off + ?len, nw + ?len)" "chk_wf fs' n" "others_same fs3 fs' n"
      "drop nc data \<noteq> [] \<longrightarrow> file_size fs' n = max (file_size fs3 n) (off + ?len)" "drop nc data = [] \<longrightarrow> fs' = fs3" "written fs3 fs' n (off + nc) (drop nc data)"
      using nc(2) by auto
    have size: "file_size fs' n = max (file_size fs n) (off + ?len)"
    proof (cases "drop nc data = []")
      case True
      then show ?thesis using I(5) W(4) size1 nc(2) by simp
    next
      case False
      then show ?thesis using I(4) W(4) size1 nc(2) by simp
    qed
    have wr: "written fs fs' n off data" unfolding written_def
    proof (intro allI impI)
      fix i assume i: "i div blocksize < maxblocks" "file_bn fs n (i div blocksize) \<noteq> 0 \<or> off \<le> i \<and> i < off + ?len"
      let ?ib = "i div blocksize"
      have f3: "file_bn fs3 n ?ib = file_bn fs1 n ?ib" by (rule W(6)[OF i(1)])
      show "file_bn fs' n ?ib \<noteq> 0 \<and> file_byte fs' n i = (if off \<le> i \<and> i < off + ?len then data ! (i - off) else file_byte fs n i)"
      proof (cases "off + nc \<le> i \<and> i < off + ?len")
        case True
        then show ?thesis using I(6)[unfolded written_def, rule_format, OF i(1)] nc(2) by (simp add: add.commute)
      next
        case nr: False
        have same: "off \<le> i \<and> i < off + nc \<longleftrightarrow> off \<le> i \<and> i < off + ?len" using nr nc(2) by auto
        have ib: "file_bn fs n ?ib \<noteq> 0"
        proof (cases "off \<le> i \<and> i < off + nc")
          case True
          then have "off mod blocksize + (i - off) < blocksize" using nc(3) by linarith
          then have "(off + (i - off)) div blocksize = ?bi" using same_block by blast
          then show ?thesis using here True by simp
        next
          case False
          then show ?thesis using i(2) same by blast
        qed
        then have ib1: "file_bn fs1 n ?ib = file_bn fs n ?ib" "file_bn fs1 n ?ib \<noteq> 0" using E(7) i(1) by auto
        have "data_block fs n (file_bn fs n ?ib)" using ib i(1) by (auto simp: data_block_def)
        then have byte1: "file_byte fs1 n i = file_byte fs n i" using E(8) ib1 by (simp add: file_byte_def)
        have "file_bn fs' n ?ib \<noteq> 0 \<and> file_byte fs' n i = file_byte fs3 n i"
          using I(6)[unfolded written_def, rule_format, OF i(1)] ib1 f3 nr nc(2) by auto
        moreover have "file_byte fs3 n i = (if off \<le> i \<and> i < off + nc then take nc data ! (i - off) else file_byte fs1 n i)" by (rule W(7)[OF i(1) ib1(2)])
        ultimately show ?thesis using same byte1 nc(2) by auto
      qed
    qed
    have "others_same fs fs' n" using E(3,5) o3 I(3) by (auto simp: others_same_def same_fs_def same_meta_def)
    then show ?thesis using F I(1,2) size wr False by auto
  qed
qed simp

text \<open>Taking and releasing the lock of the inode changes no block.\<close>

lemma set_lock_ok:
  fixes v :: u32
  assumes wf: "chk_wf fs n"
  defines "fs' \<equiv> set_inode fs n (\<lambda>ino. ino\<lparr>ino_mlock := v\<rparr>)"
  shows "chk_wf fs' n" "bi < maxblocks \<Longrightarrow> file_bn fs' n bi = file_bn fs n bi" "fs_block fs' = fs_block fs" "fs_free fs' = fs_free fs" "file_size fs' n = file_size fs n"
proof -
  have s: "same_fs fs fs'" "same_ptrs fs fs' n" "fs_block fs' = fs_block fs" by (simp_all add: fs'_def set_inode_def same_fs_def same_ptrs_def)
  then show "fs_block fs' = fs_block fs" by simp
  show fr: "fs_free fs' = fs_free fs" using s by (simp add: fs_free_def same_fs_def)
  have ok: "fs_blocks_ok fs'" using chk_wfD(3)[OF wf] s by (simp add: fs_blocks_ok_def)
  have sub: "fs_free fs' \<subseteq> fs_free fs" using fr by simp
  show "chk_wf fs' n" by (rule wf_same_places(1)[OF wf s(1,2) ok sub]) (simp add: s)
  show "bi < maxblocks \<Longrightarrow> file_bn fs' n bi = file_bn fs n bi" using wf_same_places(2)[OF wf s(1,2) ok sub, of "P_data bi"] s(3) by simp
  show "file_size fs' n = file_size fs n" by (simp add: fs'_def set_inode_def)
qed

lemma written_bytes:
  assumes w: "written fs fs' n off data" and lim: "off + length data < 2 ^ 32"
  shows "file_bytes fs' n off (length data) = data" "off \<le> i \<Longrightarrow> i < off + length data \<Longrightarrow> file_bn fs' n (i div blocksize) \<noteq> 0"
proof -
  have h: "file_bn fs' n (i div blocksize) \<noteq> 0 \<and> file_byte fs' n i = data ! (i - off)" if "off \<le> i" "i < off + length data" for i
  proof -
    have "i div blocksize < maxblocks" using that lim by simp
    then show ?thesis using w[unfolded written_def, rule_format, of i] that by simp
  qed
  then show "off \<le> i \<Longrightarrow> i < off + length data \<Longrightarrow> file_bn fs' n (i div blocksize) \<noteq> 0" by blast
  show "file_bytes fs' n off (length data) = data"
    by (rule nth_equalityI) (use h in \<open>simp_all add: file_bytes_def\<close>)
qed


text \<open>
  C38: A write that starts at the end of a file whose last block is full writes nothing: the block for the offset is missing, and the code only
  allocates a block when it crosses from a block that is there.
\<close>
theorem inode_write_stuck:
  assumes "off < chkfs_maxsize" "file_bn fs n (off div blocksize) = 0" "data \<noteq> []"
  shows "inode_write fs n data off = Inr (set_inode fs n (\<lambda>ino. ino\<lparr>ino_mlock := 0\<rparr>), off, 0)"
proof -
  define fs0 where "fs0 = set_inode fs n (\<lambda>ino. ino\<lparr>ino_mlock := - 1\<rparr>)"
  have "off div blocksize < maxblocks" using assms(1) by auto
  note g = get_data_block_eq[OF this, of fs0 n]
  have nn: "nonnull fs0 = nonnull fs" by (simp add: fun_eq_iff nonnull_def disk_entry_def fs0_def set_inode_def)
  have f: "fs_block fs0 = fs_block fs" "ino_direct (fs_inode fs0 n) = ino_direct (fs_inode fs n)" "ino_indirect (fs_inode fs0 n) = ino_indirect (fs_inode fs n)"
    "ino_indirect2 (fs_inode fs0 n) = ino_indirect2 (fs_inode fs n)" by (simp_all add: fs0_def set_inode_def)
  have c: "class_bn fs0 n = class_bn fs n" unfolding class_bn_def nn f by (rule refl)
  have "file_bn fs0 n = file_bn fs n" unfolding file_bn_def nn f c by (rule refl)
  then have "file_bn fs0 n (off div blocksize) = 0" using assms(2) by simp
  then have "inode_write_loop (Suc (length data)) fs0 n fileiter_new data off 0 = Inr (fs0, off, 0)" using g assms(3) by (simp add: Let_def)
  then show ?thesis unfolding inode_write_def Let_def fs0_def[symmetric] by (simp add: fs0_def set_inode_def)
qed

section \<open>A small disk\<close>

text \<open>Blocks 8 to 15 are free, the bitmap is in block 1, and inode 5 is a file of ten bytes in block 4.\<close>

definition demo_ino :: inode where
  "demo_ino = \<lparr>ino_type = 1, ino_size = 10, ino_nlink = 1, ino_mlock = 0, ino_mref = 1, ino_direct = [4, 0, 0, 0, 0, 0, 0, 0, 0], ino_indirect = 0, ino_indirect2 = 0\<rparr>"

definition demo_fs :: chkfs where
  "demo_fs = \<lparr>fs_sb = \<lparr>sb_magic = 0xFBBFBB003EE9BEEF, sb_nblocks = 64, sb_nswap = 0, sb_ninodes = 128, sb_njournal = 0, sb_swap_bn = 1,
       sb_fbb_bn = 1, sb_inode_bn = 2, sb_data_bn = 4, sb_journal_bn = 64\<rparr>, fs_inode = (\<lambda>_. demo_ino),
     fs_block = (\<lambda>_. replicate blocksize 0)(1 := (replicate blocksize 0)[1 := 255]), fs_room = (\<lambda>_. True)\<rparr>"

lemma demo_blocks: "fs_blocks_ok demo_fs"
  by (simp add: fs_blocks_ok_def demo_fs_def)

lemma demo_bitmap: "bitmap_ok demo_fs"
  using demo_blocks by (simp add: bitmap_ok_def) (simp add: demo_fs_def)

lemma demo_free: "j \<in> fs_free demo_fs \<longleftrightarrow> 8 \<le> j \<and> j < 16"
proof -
  have "free_bit ((replicate blocksize 0)[1 := 255]) j \<longleftrightarrow> j div 8 = 1" if "j < 64"
  proof (cases "j div 8 = 1")
    case True
    have "bit (255 :: u8) (j mod 8)" using bit_mask_iff[of 8 "j mod 8", where 'a = "8 word"] by (simp add: mask_eq_exp_minus_1)
    then show ?thesis using True by (simp add: free_bit_def)
  next
    case False
    then show ?thesis using that by (simp add: free_bit_def nth_list_update)
  qed
  then show ?thesis by (auto simp: fs_free_def demo_fs_def)
qed

lemma demo_free_set: "fs_free demo_fs = {8..<16}"
  by (rule set_eqI) (simp only: demo_free atLeastLessThan_iff)

lemma demo_bn: "bi < maxblocks \<Longrightarrow> file_bn demo_fs n bi = (if bi = 0 then 4 else 0)" "class_bn demo_fs n c = 0"
proof -
  have r: "\<forall>b. fs_room demo_fs b" by (simp add: demo_fs_def)
  show c: "class_bn demo_fs n c = 0" for c unfolding room_simps(2)[OF r] by (simp add: demo_fs_def demo_ino_def)
  show "bi < maxblocks \<Longrightarrow> file_bn demo_fs n bi = (if bi = 0 then 4 else 0)"
    unfolding room_simps(3)[OF r] c by (auto simp: demo_fs_def demo_ino_def nth_Cons' )
qed

lemma demo_wf: "chk_wf demo_fs n"
proof -
  have p: "place_bn demo_fs n P = (if P = P_data 0 then 4 else 0)" if "valid_place P" for P
    using that demo_bn by (cases P) (auto simp: demo_fs_def demo_ino_def)
  have "unat (place_bn demo_fs n P) \<notin> fs_free demo_fs \<and> place_bn demo_fs n P \<noteq> sb_fbb_bn (fs_sb demo_fs)" if "valid_place P" "place_bn demo_fs n P \<noteq> 0" for P
    using p[OF that(1)] that(2) demo_free by (simp add: demo_fs_def split: if_splits)
  moreover have "P = Q" if "valid_place P" "valid_place Q" "place_bn demo_fs n P \<noteq> 0" "place_bn demo_fs n P = place_bn demo_fs n Q" for P Q
    using p[OF that(1)] p[OF that(2)] that(3,4) by (simp split: if_splits)
  moreover have "0 \<notin> fs_free demo_fs" "unat (sb_fbb_bn (fs_sb demo_fs)) \<notin> fs_free demo_fs" using demo_free by (simp_all) (simp add: demo_fs_def)
  moreover have "length (ino_direct (fs_inode demo_fs n)) = ndirect" by (simp add: demo_fs_def demo_ino_def)
  ultimately show ?thesis using demo_bitmap unfolding chk_wf_def by blast
qed

theorem fileiter_is_block_map_witness:
  "\<exists>it. find_all demo_fs 5 fileiter_new [50000, 7] = Inr it \<and> it_blocknum demo_fs 5 it = Inr 4 \<and> get_data_block demo_fs 5 0 = Inr (Some 4)"
proof -
  have "\<forall>x \<in> set ([50000] @ [7]). x < chkfs_maxsize" by simp
  from fileiter_is_block_map[OF this, of demo_fs 5] show ?thesis using demo_bn(1)[of 0 5] by (auto simp: disk_entry_def) (simp add: demo_fs_def)
qed

theorem allocate_block_correct_witness: "\<exists>fs'. allocate_block demo_fs = Inr (fs', 8) \<and> fs_free fs' = fs_free demo_fs - {8}"
proof -
  note f = demo_free_set
  have m: "Min {8..<16 :: nat} = 8" by (rule Min_eqI) auto
  from allocate_block_correct[OF demo_bitmap] obtain fs' b where a: "allocate_block demo_fs = Inr (fs', b)" "unat b = 8" "fs_free fs' = fs_free demo_fs - {unat b}"
    unfolding f m by auto
  then have "b = 8" by (simp add: word_unat_eq_iff)
  then show ?thesis using a by simp
qed

theorem inode_read_correct_witness:
  "fs_blocks_ok demo_fs \<and> file_size demo_fs 5 = 10 \<and> inode_read demo_fs 5 100 4 = Inr (file_bytes demo_fs 5 4 6, 10)"
proof -
  have s: "file_size demo_fs 5 = 10" by (simp add: demo_fs_def demo_ino_def)
  have "block_here demo_fs 5 i" if "i < 10" for i using that demo_bn(1)[of 0 5] by (simp add: block_here_def nonnull_def disk_entry_def) (simp add: demo_fs_def)
  then show ?thesis using inode_read_correct[OF demo_blocks, of 4 5 100] s demo_blocks by simp
qed

theorem inode_read_past_end_witness:
  "file_size demo_fs 5 < 20 \<and> inode_read demo_fs 5 4 20 = Inr (file_bytes demo_fs 5 20 4, 24)"
proof -
  have s: "file_size demo_fs 5 < 20" by (simp add: demo_fs_def demo_ino_def)
  have b: "block_here demo_fs 5 20" using demo_bn(1)[of 0 5] by (simp add: block_here_def nonnull_def disk_entry_def) (simp add: demo_fs_def)
  show ?thesis using inode_read_past_end[OF demo_blocks s b, of 4] s by simp
qed


theorem inode_write_stuck_witness:
  "file_bn demo_fs 5 1 = 0 \<and> inode_write demo_fs 5 [1] 4096 = Inr (set_inode demo_fs 5 (\<lambda>ino. ino\<lparr>ino_mlock := 0\<rparr>), 4096, 0)"
proof -
  have b: "file_bn demo_fs 5 (4096 div blocksize) = 0" using demo_bn(1)[of 1 5] by simp
  have o: "4096 < chkfs_maxsize" by simp
  show ?thesis using inode_write_stuck[OF o b, of "[1]"] b by simp
qed

end
