(* ===== verification/Chkfs_Dir_Lookup.thy ===== *)
theory Chkfs_Dir_Lookup
  imports Chkfs_Dir Chkfs_Correct
begin

text \<open>
  Directories as lists of entries: what the searches for a name, for an unused entry and for an unused inode return, which parts of the file system the root directory depends on, and what
  storing an entry changes.
\<close>

section \<open>Directory entries\<close>

text \<open>The name that starts at a byte of a block, and the entries of a directory as pairs of name and inode number.\<close>

definition cname :: "u8 list \<Rightarrow> nat \<Rightarrow> u8 list" where
  "cname b pos = takeWhile (\<lambda>x. x \<noteq> 0) (drop pos b)"

definition nents :: "nat \<Rightarrow> nat" where
  "nents bsz = (bsz + (direntsize - 1)) div direntsize"

definition dirent :: "u8 list \<Rightarrow> nat \<Rightarrow> u8 list \<times> u32" where
  "dirent b i = (cname b (i * direntsize + 4), dirent_inum b i)"

definition dir_entries :: "chkfs \<Rightarrow> nat \<Rightarrow> nat \<Rightarrow> (u8 list \<times> u32) list" where
  "dir_entries fs n d = concat (map (\<lambda>bi. map (dirent (fs_block fs (file_bn fs n bi))) [0..<nents (dir_bsz fs n (bi * blocksize))]) [0..<d])"

text \<open>The reference for a lookup: the first entry in use with that name.\<close>

definition named :: "u8 list \<Rightarrow> u8 list \<times> u32 \<Rightarrow> bool" where
  "named path e \<longleftrightarrow> snd e \<noteq> 0 \<and> fst e = path"

definition dir_find :: "u8 list \<Rightarrow> (u8 list \<times> u32) list \<Rightarrow> u32" where
  "dir_find path es = (case List.find (named path) es of None \<Rightarrow> 0 | Some e \<Rightarrow> snd e)"

lemma dir_find_simps [simp]: "dir_find path [] = 0" "dir_find path (e # es) = (if named path e then snd e else dir_find path es)"
  by (simp_all add: dir_find_def)

lemma dir_find_append: "dir_find path (xs @ ys) = (if dir_find path xs \<noteq> 0 then dir_find path xs else dir_find path ys)"
  by (induction xs) (auto simp: named_def)

lemma dir_find_0: "dir_find path es = 0 \<longleftrightarrow> (\<forall>e \<in> set es. \<not> named path e)"
  by (induction es) (auto simp: named_def)

lemma dir_find_only: "\<exists>e \<in> set es. named path e \<Longrightarrow> \<forall>e \<in> set es. named path e \<longrightarrow> snd e = v \<Longrightarrow> dir_find path es = v"
  by (induction es) auto

lemma nents_less: "i * direntsize < bsz \<longleftrightarrow> i < nents bsz"
  by (auto simp: nents_def)

lemma nents_block: "bsz \<le> blocksize \<Longrightarrow> nents bsz \<le> 32"
  by (simp add: nents_def)

lemma dir_bsz_le: "dir_bsz fs n off \<le> blocksize"
  by (simp add: dir_bsz_def)

section \<open>Names\<close>

lemma cname_step: "pos < length b \<Longrightarrow> cname b pos = (if b ! pos = 0 then [] else b ! pos # cname b (pos + 1))"
  by (simp add: cname_def Cons_nth_drop_Suc[symmetric])

lemma name_is_spec:
  assumes "pos + k < length b" "b ! (pos + k) = 0" "0 \<notin> set path"
  shows "name_is b pos path = Inr (cname b pos = path)"
  using assms
proof (induction path arbitrary: pos k)
  case Nil
  then show ?case using cname_step[of pos b] by simp
next
  case (Cons c cs)
  have p: "pos < length b" using Cons.prems(1) by simp
  show ?case
  proof (cases "b ! pos = c")
    case True
    then have "k \<noteq> 0" using Cons.prems(2,3) by (cases k) auto
    then have k: "pos + 1 + (k - 1) < length b" "b ! (pos + 1 + (k - 1)) = 0" using Cons.prems(1,2) by simp_all
    have "name_is b (pos + 1) cs = Inr (cname b (pos + 1) = cs)" by (rule Cons.IH[OF k]) (use Cons.prems(3) in simp)
    then show ?thesis using True p cname_step[OF p] Cons.prems(3) by simp
  next
    case False
    then show ?thesis using p cname_step[OF p] by auto
  qed
qed

lemma cname_eq:
  assumes "pos + length s < length b" "b ! (pos + length s) = 0" "0 \<notin> set s" "\<forall>k < length s. b ! (pos + k) = s ! k"
  shows "cname b pos = s"
  using assms
proof (induction s arbitrary: pos)
  case Nil
  then show ?case using cname_step[of pos b] by simp
next
  case (Cons c s)
  have "b ! pos = c" using Cons.prems(4)[rule_format, of 0] by simp
  moreover have "cname b (pos + 1) = s"
  proof (rule Cons.IH)
    show "\<forall>k < length s. b ! (pos + 1 + k) = s ! k" using Cons.prems(4)[rule_format, of "Suc _"] by simp
  qed (use Cons.prems in simp_all)
  ultimately show ?case using cname_step[of pos b] Cons.prems(1,3) by simp
qed

lemma cname_cong:
  assumes "pos + m \<le> length b" "length b' = length b" "\<forall>k < m. b' ! (pos + k) = b ! (pos + k)" "\<exists>k < m. b ! (pos + k) = 0"
  shows "cname b' pos = cname b pos"
  using assms
proof (induction m arbitrary: pos)
  case (Suc m)
  have p: "pos < length b" "pos < length b'" "b' ! pos = b ! pos" using Suc.prems(1,2) Suc.prems(3)[rule_format, of 0] by simp_all
  show ?case
  proof (cases "b ! pos = 0")
    case True
    then show ?thesis using cname_step[OF p(1)] cname_step[OF p(2)] p(3) by simp
  next
    case False
    obtain k where k: "k < Suc m" "b ! (pos + k) = 0" using Suc.prems(4) by blast
    then have "k \<noteq> 0" using False by (cases k) auto
    have "cname b' (pos + 1) = cname b (pos + 1)"
    proof (rule Suc.IH)
      show "\<forall>k < m. b' ! (pos + 1 + k) = b ! (pos + 1 + k)" using Suc.prems(3)[rule_format, of "Suc _"] by simp
      show "\<exists>k < m. b ! (pos + 1 + k) = 0" using k \<open>k \<noteq> 0\<close> by (intro exI[of _ "k - 1"]) auto
    qed (use Suc.prems in simp_all)
    then show ?thesis using cname_step[OF p(1)] cname_step[OF p(2)] p(3) by simp
  qed
qed simp

section \<open>Searching\<close>

text \<open>Directory blocks have the names of all entries terminated within the entry.\<close>

definition dirblock_ok :: "u8 list \<Rightarrow> bool" where
  "dirblock_ok b \<longleftrightarrow> length b = blocksize \<and> (\<forall>i < 32. \<exists>k < Suc maxnamelen. b ! (i * direntsize + 4 + k) = 0)"

lemma dirent_search_spec:
  assumes ok: "dirblock_ok b" and bsz: "bsz \<le> blocksize" and path: "0 \<notin> set path"
  shows "dirent_search b i bsz path = Inr (dir_find path (map (dirent b) [i..<nents bsz]))"
proof (induction "nents bsz - i" arbitrary: i)
  case 0
  then show ?case using nents_less[of i bsz] by (subst dirent_search.simps) simp
next
  case (Suc m)
  have i: "i < nents bsz" "i * direntsize < bsz" using Suc(2) nents_less[of i bsz] by auto
  have i32: "i < 32" using i(1) nents_block[OF bsz] by simp
  obtain k where k: "k < Suc maxnamelen" "b ! (i * direntsize + 4 + k) = 0" using ok i32 unfolding dirblock_ok_def by blast
  have "i * direntsize + 4 + k < length b" using ok i32 k(1) by (simp add: dirblock_ok_def)
  then have n: "name_is b (i * direntsize + 4) path = Inr (cname b (i * direntsize + 4) = path)" using name_is_spec[OF _ k(2) path] by blast
  have up: "[i..<nents bsz] = i # [i + 1..<nents bsz]" using i(1) by (simp add: upt_conv_Cons)
  have "dirent_search b (i + 1) bsz path = Inr (dir_find path (map (dirent b) [i + 1..<nents bsz]))" by (rule Suc(1)) (use Suc(2) in simp)
  then show ?case using i(2) n up by (subst dirent_search.simps) (simp add: named_def dirent_def)
qed

text \<open>A directory of \<open>d\<close> blocks without holes.\<close>

definition dir_ok :: "chkfs \<Rightarrow> nat \<Rightarrow> nat \<Rightarrow> bool" where
  "dir_ok fs n d \<longleftrightarrow> d < maxblocks \<and> file_bn fs n d = 0 \<and> (\<forall>bi < d. file_bn fs n bi \<noteq> 0 \<and> dirblock_ok (fs_block fs (file_bn fs n bi)))"

lemma dir_block_spec:
  assumes room: "\<forall>b. fs_room fs b" and it: "it_ok fs n it" and off: "off < chkfs_maxsize"
  obtains it' where "dir_block fs n it off = Inr (it', if file_bn fs n (off div blocksize) = 0 then None else Some (file_bn fs n (off div blocksize)))" "it_ok fs n it'"
proof -
  obtain it' where i: "fileiter_find fs n it off = Inr it'" "it_ok fs n it'" "it_dptr it' = it_at fs n (off div blocksize)"
    using fileiter_find_correct[OF it off] by metis
  have b: "off div blocksize < maxblocks" using off by auto
  have bn: "it_blocknum fs n it' = Inr (file_bn fs n (off div blocksize))" by (rule it_at_read[OF b i(3)])
  have "it_present fs n it' = Inr (file_bn fs n (off div blocksize) \<noteq> 0)"
    using bn by (cases "it_dptr it'") (auto simp: it_present_def it_blocknum_def)
  then have "dir_block fs n it off = Inr (it', if file_bn fs n (off div blocksize) = 0 then None else Some (file_bn fs n (off div blocksize)))"
    using i(1) bn room by (simp add: dir_block_def disk_entry_def)
  then show ?thesis using that i(2) by blast
qed

lemma dir_block_turn: "bi < maxblocks \<Longrightarrow> bi * blocksize < chkfs_maxsize \<and> bi * blocksize div blocksize = bi"
  by simp

lemma lookup_loop_spec:
  assumes room: "\<forall>b. fs_room fs b" and dir: "dir_ok fs n d" and path: "0 \<notin> set path"
  shows "it_ok fs n it \<Longrightarrow> bi \<le> d \<Longrightarrow> d - bi < fuel \<Longrightarrow>
    lookup_loop fuel fs n it (bi * blocksize) path = Inr (dir_find path (concat (map (\<lambda>bi. map (dirent (fs_block fs (file_bn fs n bi))) [0..<nents (dir_bsz fs n (bi * blocksize))]) [bi..<d])))"
proof (induction fuel arbitrary: it bi)
  case (Suc fuel)
  have b: "bi < maxblocks" using dir Suc.prems(2) by (simp add: dir_ok_def)
  note t = dir_block_turn[OF b]
  obtain it' where it': "dir_block fs n it (bi * blocksize) = Inr (it', if file_bn fs n bi = 0 then None else Some (file_bn fs n bi))" "it_ok fs n it'"
    using dir_block_spec[OF room Suc.prems(1) conjunct1[OF t]] unfolding conjunct2[OF t] by blast
  show ?case
  proof (cases "bi = d")
    case True
    then show ?thesis using it'(1) dir by (simp add: dir_ok_def)
  next
    case False
    then have l: "bi < d" using Suc.prems(2) by simp
    then have f: "file_bn fs n bi \<noteq> 0" "dirblock_ok (fs_block fs (file_bn fs n bi))" using dir by (simp_all add: dir_ok_def)
    have up: "[bi..<d] = bi # [bi + 1..<d]" using l by (simp add: upt_conv_Cons)
    have nx: "bi * blocksize + blocksize = (bi + 1) * blocksize" by simp
    note s = dirent_search_spec[OF f(2) dir_bsz_le path, of 0 fs n "bi * blocksize"]
    have "lookup_loop fuel fs n it' ((bi + 1) * blocksize) path = Inr (dir_find path (concat (map (\<lambda>bi. map (dirent (fs_block fs (file_bn fs n bi))) [0..<nents (dir_bsz fs n (bi * blocksize))]) [bi + 1..<d])))"
      by (rule Suc.IH[OF it'(2)]) (use l Suc.prems(3) in auto)
    then show ?thesis using it'(1) f(1) s unfolding lookup_loop.simps up nx by (simp add: dir_find_append)
  qed
qed simp

lemma lookup_spec:
  assumes "\<forall>b. fs_room fs b" "dir_ok fs n d" "0 \<notin> set path"
  shows "lookup_inode fs n path = get_inode fs (sint (dir_find path (dir_entries fs n d)))"
proof -
  have d: "d - 0 < dir_turns" using assms(2) by (simp add: dir_ok_def)
  show ?thesis using lookup_loop_spec[OF assms it_ok_new le0 d] by (simp add: lookup_inode_def dir_entries_def)
qed

section \<open>Free entries\<close>

lemma empty_dirent_spec:
  "case empty_dirent b i bsz of None \<Rightarrow> \<forall>j. i \<le> j \<longrightarrow> j < nents bsz \<longrightarrow> dirent_inum b j \<noteq> 0 | Some j \<Rightarrow> j < nents bsz \<and> dirent_inum b j = 0"
proof (induction "nents bsz - i" arbitrary: i)
  case 0
  then show ?case using nents_less[of i bsz] by (subst empty_dirent.simps) simp
next
  case (Suc m)
  have i: "i * direntsize < bsz" using Suc(2) nents_less[of i bsz] by simp
  have IH: "case empty_dirent b (i + 1) bsz of None \<Rightarrow> \<forall>j. i + 1 \<le> j \<longrightarrow> j < nents bsz \<longrightarrow> dirent_inum b j \<noteq> 0 | Some j \<Rightarrow> j < nents bsz \<and> dirent_inum b j = 0"
    by (rule Suc(1)) (use Suc(2) in simp)
  show ?case
  proof (cases "dirent_inum b i = 0")
    case True
    then show ?thesis using i nents_less[of i bsz] by (subst empty_dirent.simps) simp
  next
    case False
    then have "empty_dirent b i bsz = empty_dirent b (i + 1) bsz" using i by (subst empty_dirent.simps) simp
    moreover have "dirent_inum b j \<noteq> 0" if "\<forall>j. i + 1 \<le> j \<longrightarrow> j < nents bsz \<longrightarrow> dirent_inum b j \<noteq> 0" "i \<le> j" "j < nents bsz" for j
      using that False by (cases "j = i") auto
    ultimately show ?thesis using IH by (cases "empty_dirent b (i + 1) bsz") auto
  qed
qed

text \<open>The position of an entry of a directory.\<close>

definition dir_pos :: "chkfs \<Rightarrow> nat \<Rightarrow> nat \<Rightarrow> nat \<Rightarrow> nat \<Rightarrow> bool" where
  "dir_pos fs n d bi i \<longleftrightarrow> bi < d \<and> i < nents (dir_bsz fs n (bi * blocksize))"

lemma empty_direntry_loop_spec:
  assumes room: "\<forall>b. fs_room fs b" and dir: "dir_ok fs n d"
  shows "it_ok fs n it \<Longrightarrow> bi \<le> d \<Longrightarrow> d - bi < fuel \<Longrightarrow>
    \<exists>r. empty_direntry_loop fuel fs n it (bi * blocksize) = Inr r \<and> (r = None \<longrightarrow> (\<forall>bj j. bi \<le> bj \<longrightarrow> dir_pos fs n d bj j \<longrightarrow> dirent_inum (fs_block fs (file_bn fs n bj)) j \<noteq> 0))
      \<and> (\<forall>e j. r = Some (e, j) \<longrightarrow> (\<exists>bj. e = file_bn fs n bj \<and> dir_pos fs n d bj j \<and> dirent_inum (fs_block fs e) j = 0))"
proof (induction fuel arbitrary: it bi)
  case (Suc fuel)
  have b: "bi < maxblocks" using dir Suc.prems(2) by (simp add: dir_ok_def)
  note t = dir_block_turn[OF b]
  obtain it' where it': "dir_block fs n it (bi * blocksize) = Inr (it', if file_bn fs n bi = 0 then None else Some (file_bn fs n bi))" "it_ok fs n it'"
    using dir_block_spec[OF room Suc.prems(1) conjunct1[OF t]] unfolding conjunct2[OF t] by blast
  let ?b = "fs_block fs (file_bn fs n bi)" and ?z = "dir_bsz fs n (bi * blocksize)"
  show ?case
  proof (cases "bi = d")
    case True
    then show ?thesis using it'(1) dir by (simp add: dir_ok_def dir_pos_def)
  next
    case False
    then have l: "bi < d" using Suc.prems(2) by simp
    then have f: "file_bn fs n bi \<noteq> 0" using dir by (simp add: dir_ok_def)
    note s = empty_dirent_spec[where b = ?b and i = 0 and bsz = ?z]
    show ?thesis
    proof (cases "empty_dirent ?b 0 ?z")
      case (Some j)
      have "dir_pos fs n d bi j" "dirent_inum ?b j = 0" using s Some l by (simp_all add: dir_pos_def)
      then show ?thesis using it'(1) f Some by auto
    next
      case None
      have nx: "bi * blocksize + blocksize = (bi + 1) * blocksize" by simp
      have "\<exists>r. empty_direntry_loop fuel fs n it' ((bi + 1) * blocksize) = Inr r \<and> (r = None \<longrightarrow> (\<forall>bj j. bi + 1 \<le> bj \<longrightarrow> dir_pos fs n d bj j \<longrightarrow> dirent_inum (fs_block fs (file_bn fs n bj)) j \<noteq> 0))
        \<and> (\<forall>e j. r = Some (e, j) \<longrightarrow> (\<exists>bj. e = file_bn fs n bj \<and> dir_pos fs n d bj j \<and> dirent_inum (fs_block fs e) j = 0))"
        by (rule Suc.IH[OF it'(2)]) (use l Suc.prems(3) in auto)
      then obtain r where r: "empty_direntry_loop fuel fs n it' ((bi + 1) * blocksize) = Inr r" "r = None \<longrightarrow> (\<forall>bj j. bi + 1 \<le> bj \<longrightarrow> dir_pos fs n d bj j \<longrightarrow> dirent_inum (fs_block fs (file_bn fs n bj)) j \<noteq> 0)"
        "\<forall>e j. r = Some (e, j) \<longrightarrow> (\<exists>bj. e = file_bn fs n bj \<and> dir_pos fs n d bj j \<and> dirent_inum (fs_block fs e) j = 0)" by blast
      have run: "empty_direntry_loop (Suc fuel) fs n it (bi * blocksize) = Inr r" using it'(1) f None r(1) unfolding empty_direntry_loop.simps nx by simp
      have "dirent_inum (fs_block fs (file_bn fs n bj)) j \<noteq> 0" if "r = None" "bi \<le> bj" "dir_pos fs n d bj j" for bj j
      proof (cases "bj = bi")
        case True
        then show ?thesis using s None that(3) by (simp add: dir_pos_def)
      next
        case False
        then show ?thesis using r(2) that by (simp add: Suc_le_eq)
      qed
      then show ?thesis using run r(3) by blast
    qed
  qed
qed simp

lemma find_empty_direntry_spec:
  assumes "\<forall>b. fs_room fs b" "dir_ok fs n d"
  obtains r where "find_empty_direntry fs n = Inr r" "r = None \<longrightarrow> (\<forall>bi i. dir_pos fs n d bi i \<longrightarrow> dirent_inum (fs_block fs (file_bn fs n bi)) i \<noteq> 0)"
    "\<forall>e i. r = Some (e, i) \<longrightarrow> (\<exists>bi. e = file_bn fs n bi \<and> dir_pos fs n d bi i \<and> dirent_inum (fs_block fs e) i = 0)"
proof -
  have d: "d - 0 < dir_turns" using assms(2) by (simp add: dir_ok_def)
  have "\<exists>r. find_empty_direntry fs n = Inr r \<and> (r = None \<longrightarrow> (\<forall>bj j. 0 \<le> bj \<longrightarrow> dir_pos fs n d bj j \<longrightarrow> dirent_inum (fs_block fs (file_bn fs n bj)) j \<noteq> 0))
      \<and> (\<forall>e j. r = Some (e, j) \<longrightarrow> (\<exists>bj. e = file_bn fs n bj \<and> dir_pos fs n d bj j \<and> dirent_inum (fs_block fs e) j = 0))"
    using empty_direntry_loop_spec[OF assms it_ok_new le0 d] by (simp add: find_empty_direntry_def)
  then show ?thesis using that by (elim exE conjE) blast
qed

section \<open>Writing an entry\<close>

definition set_dirent :: "u8 list \<Rightarrow> nat \<Rightarrow> u8 list \<Rightarrow> u32 \<Rightarrow> u8 list" where
  "set_dirent b i path v = set_ptr (copy_into b (i * direntsize + 4) path) (direntsize div 4 * i) v"

lemma set_ptr_nth: "j < 4 * i \<or> 4 * i + 4 \<le> j \<Longrightarrow> set_ptr b i v ! j = b ! j"
  by (auto simp: set_ptr_def)

lemma set_dirent_nth:
  assumes "length b = blocksize" "i < 32" "length path \<le> maxnamelen" "x < blocksize" "\<not> (i * direntsize \<le> x \<and> x < i * direntsize + 4)"
  shows "set_dirent b i path v ! x = (if i * direntsize + 4 \<le> x \<and> x < i * direntsize + 4 + length path then path ! (x - (i * direntsize + 4)) else b ! x)"
proof -
  have "set_dirent b i path v ! x = copy_into b (i * direntsize + 4) path ! x" unfolding set_dirent_def by (rule set_ptr_nth) (use assms(5) in auto)
  moreover have "i * direntsize + 4 + length path \<le> length b" using assms(1-3) by simp
  ultimately show ?thesis using copy_into_nth(1)[of "i * direntsize + 4" path b x] assms(1,4) by simp
qed

lemma length_set_dirent: "length b = blocksize \<Longrightarrow> i < 32 \<Longrightarrow> length path \<le> maxnamelen \<Longrightarrow> length (set_dirent b i path v) = blocksize"
  by (simp add: set_dirent_def copy_into_def)

lemma set_dirent_far:
  assumes len: "length b = blocksize" and i: "i < 32" and path: "length path \<le> maxnamelen" and j: "j < 32" "j \<noteq> i" "k < direntsize"
  shows "set_dirent b i path v ! (j * direntsize + k) = b ! (j * direntsize + k)"
proof -
  have x: "j * direntsize + k < blocksize" using j by simp
  have "j * direntsize + k < i * direntsize \<or> i * direntsize + direntsize \<le> j * direntsize + k"
    using j by (cases "j < i") auto
  then show ?thesis using set_dirent_nth[OF len i path x, of v] path by auto
qed

lemma ptr_at_cong: "\<forall>k < 4. b' ! (4 * i + k) = b ! (4 * i + k) \<Longrightarrow> ptr_at b' i = ptr_at b i"
proof -
  assume a: "\<forall>k < 4. b' ! (4 * i + k) = b ! (4 * i + k)"
  have "b' ! (4 * i) = b ! (4 * i)" "b' ! (4 * i + 1) = b ! (4 * i + 1)" "b' ! (4 * i + 2) = b ! (4 * i + 2)" "b' ! (4 * i + 3) = b ! (4 * i + 3)"
    using a[rule_format, of 0] a[rule_format, of 1] a[rule_format, of 2] a[rule_format, of 3] by simp_all
  then show ?thesis by (simp add: ptr_at_def)
qed

lemma dirblock_name: "dirblock_ok b \<Longrightarrow> i < 32 \<Longrightarrow> \<exists>k. k < Suc maxnamelen \<and> b ! (i * direntsize + 4 + k) = 0"
  by (simp add: dirblock_ok_def)

text \<open>The entry is the new one, and no other changes.\<close>

lemma set_dirent_ok:
  assumes ok: "dirblock_ok b" and i: "i < 32" and path: "length path \<le> maxnamelen" "0 \<notin> set path" and z: "\<forall>k < Suc maxnamelen. b ! (i * direntsize + 4 + k) = 0"
  shows "dirblock_ok (set_dirent b i path v)" "j < 32 \<Longrightarrow> dirent (set_dirent b i path v) j = (if j = i then (path, v) else dirent b j)"
proof -
  let ?b = "set_dirent b i path v"
  have len: "length b = blocksize" using ok by (simp add: dirblock_ok_def)
  note len' = length_set_dirent[OF len i path(1), of v] and nth = set_dirent_nth[OF len i path(1), of _ v]
  note far = set_dirent_far[OF len i path(1), of _ _ v]
  have name: "\<exists>k < Suc maxnamelen. ?b ! (j * direntsize + 4 + k) = 0" if "j < 32" for j
  proof (cases "j = i")
    case True
    have x: "i * direntsize + 4 + length path < blocksize" using i path(1) by simp
    have "?b ! (i * direntsize + 4 + length path) = 0" using nth[OF x] z[rule_format, of "length path"] path(1) by simp
    then show ?thesis using True path(1) by (intro exI[of _ "length path"]) simp
  next
    case False
    from dirblock_name[OF ok that] obtain k where k: "k < Suc maxnamelen" "b ! (j * direntsize + 4 + k) = 0" by (elim exE conjE)
    then show ?thesis using far[OF that False, of "4 + k"] by (intro exI[of _ k]) (simp add: add.assoc)
  qed
  then show "dirblock_ok ?b" using len' by (simp add: dirblock_ok_def)
  show "dirent ?b j = (if j = i then (path, v) else dirent b j)" if j: "j < 32"
  proof (cases "j = i")
    case True
    have x: "i * direntsize + 4 + length path < blocksize" using i path(1) by simp
    have "cname ?b (i * direntsize + 4) = path"
    proof (rule cname_eq)
      show "?b ! (i * direntsize + 4 + length path) = 0" using nth[OF x] z[rule_format, of "length path"] path(1) by simp
      show "\<forall>k < length path. ?b ! (i * direntsize + 4 + k) = path ! k" using nth x by simp
    qed (use x len' path(2) in simp_all)
    moreover have "dirent_inum ?b i = v"
      using ptr_at_set_ptr[of "copy_into b (i * direntsize + 4) path" "32 * i" "32 * i" v] i len path(1) by (simp add: dirent_inum_def set_dirent_def copy_into_def)
    ultimately show ?thesis using True by (simp add: dirent_def)
  next
    case False
    have "cname ?b (j * direntsize + 4) = cname b (j * direntsize + 4)"
    proof (rule cname_cong[where m = "Suc maxnamelen"])
      show "\<forall>k < Suc maxnamelen. ?b ! (j * direntsize + 4 + k) = b ! (j * direntsize + 4 + k)" using far[OF j False, of "4 + _"] by (simp add: add.assoc)
      show "\<exists>k < Suc maxnamelen. b ! (j * direntsize + 4 + k) = 0" using ok j by (simp add: dirblock_ok_def)
    qed (use j len len' in simp_all)
    moreover have "dirent_inum ?b j = dirent_inum b j" unfolding dirent_inum_def
      by (rule ptr_at_cong) (use far[OF j False] in \<open>simp add: mult.commute\<close>)
    ultimately show ?thesis using False by (simp add: dirent_def)
  qed
qed

section \<open>The root directory\<close>

text \<open>What the root directory depends on.\<close>

definition like :: "chkfs \<Rightarrow> chkfs \<Rightarrow> bool" where
  "like fs fs' \<longleftrightarrow> same_fs fs fs' \<and> same_ptrs fs fs' 1 \<and> ino_size (fs_inode fs' 1) = ino_size (fs_inode fs 1) \<and> (\<forall>x. x \<noteq> sb_fbb_bn (fs_sb fs) \<longrightarrow> fs_block fs' x = fs_block fs x)"

lemma like_trans: "like fs fs' \<Longrightarrow> like fs' fs'' \<Longrightarrow> like fs fs''"
  by (simp add: like_def same_fs_def same_ptrs_def)

lemma like_file_bn:
  assumes wf: "chk_wf fs 1" and l: "like fs fs'" and bi: "bi < maxblocks"
  shows "file_bn fs' 1 bi = file_bn fs 1 bi" "file_bn fs 1 bi \<noteq> 0 \<Longrightarrow> fs_block fs' (file_bn fs 1 bi) = fs_block fs (file_bn fs 1 bi)"
proof -
  have s: "same_fs fs fs'" "same_ptrs fs fs' 1" using l by (simp_all add: like_def)
  have b: "fs_block fs' (place_bn fs 1 P) = fs_block fs (place_bn fs 1 P)" if "valid_place P" "place_bn fs 1 P \<noteq> 0" for P
    using l chk_wfD(9)[OF wf that] by (simp add: like_def)
  show "file_bn fs' 1 bi = file_bn fs 1 bi" using place_frame[OF chk_wfD(2)[OF wf] s b, of "P_data bi"] bi by simp
  show "file_bn fs 1 bi \<noteq> 0 \<Longrightarrow> fs_block fs' (file_bn fs 1 bi) = fs_block fs (file_bn fs 1 bi)" using b[of "P_data bi"] bi by simp
qed

lemma like_bsz: "like fs fs' \<Longrightarrow> dir_bsz fs' 1 off = dir_bsz fs 1 off"
  by (simp add: dir_bsz_def like_def)

lemma like_dir:
  assumes wf: "chk_wf fs 1" and l: "like fs fs'" and d: "dir_ok fs 1 d"
  shows "dir_ok fs' 1 d" "dir_entries fs' 1 d = dir_entries fs 1 d" "dir_pos fs' 1 d bi i = dir_pos fs 1 d bi i"
    "bi < d \<Longrightarrow> fs_block fs' (file_bn fs' 1 bi) = fs_block fs (file_bn fs 1 bi)"
proof -
  have dm: "d < maxblocks" using d by (simp add: dir_ok_def)
  have b: "file_bn fs' 1 bi = file_bn fs 1 bi" if "bi \<le> d" for bi using like_file_bn(1)[OF wf l] that dm by simp
  have k: "fs_block fs' (file_bn fs' 1 bi) = fs_block fs (file_bn fs 1 bi)" if "bi < d" for bi
    using like_file_bn[OF wf l, of bi] d that dm by (simp add: dir_ok_def)
  show "dir_ok fs' 1 d" using d b k by (simp add: dir_ok_def)
  show "dir_entries fs' 1 d = dir_entries fs 1 d" unfolding dir_entries_def using k like_bsz[OF l] by (intro arg_cong[of _ _ concat] map_cong) simp_all
  show "dir_pos fs' 1 d bi i = dir_pos fs 1 d bi i" unfolding dir_pos_def like_bsz[OF l] ..
  show "bi < d \<Longrightarrow> fs_block fs' (file_bn fs' 1 bi) = fs_block fs (file_bn fs 1 bi)" by (rule k)
qed

lemma like_wf:
  assumes wf: "chk_wf fs 1" and l: "like fs fs'" "fs_block fs' = fs_block fs"
  shows "chk_wf fs' 1"
proof (rule wf_same_places(1)[OF wf])
  show "same_fs fs fs'" "same_ptrs fs fs' 1" using l(1) by (simp_all add: like_def)
  then have "fs_free fs' = fs_free fs" using fs_free_frame l(2) by metis
  then show "fs_free fs' \<subseteq> fs_free fs" by simp
  show "fs_blocks_ok fs'" using chk_wfD(3)[OF wf] l(2) by (simp add: fs_blocks_ok_def)
qed (use l(2) in simp)

text \<open>Changing an inode: another one, or fields of inode 1 other than pointers and size.\<close>

lemma like_set_inode:
  assumes "m = 1 \<Longrightarrow> ino_direct (f (fs_inode fs 1)) = ino_direct (fs_inode fs 1) \<and> ino_indirect (f (fs_inode fs 1)) = ino_indirect (fs_inode fs 1)
    \<and> ino_indirect2 (f (fs_inode fs 1)) = ino_indirect2 (fs_inode fs 1) \<and> ino_size (f (fs_inode fs 1)) = ino_size (fs_inode fs 1)"
  shows "like fs (set_inode fs m f)" "fs_block (set_inode fs m f) = fs_block fs" "fs_free (set_inode fs m f) = fs_free fs"
  using assms by (cases "m = 1"; auto simp: like_def same_fs_def same_ptrs_def set_inode_def fs_free_def)+

section \<open>Adding an entry\<close>

lemma named_filter: "dir_find p es = dir_find p (filter (named p) es)"
  by (induction es) auto

lemma filter_entries:
  assumes "\<And>i. i < n \<Longrightarrow> (named p (g i) \<longleftrightarrow> named p (h i)) \<and> (named p (g i) \<longrightarrow> g i = h i)"
  shows "filter (named p) (map g [0..<n]) = filter (named p) (map h [0..<n])"
proof -
  have f: "filter (named p \<circ> g) [0..<n] = filter (named p \<circ> h) [0..<n]" by (rule filter_cong) (use assms in auto)
  show ?thesis unfolding filter_map
  proof (rule map_cong[OF f])
    fix i assume "i \<in> set (filter (named p \<circ> h) [0..<n])"
    then have "i < n" "named p (h i)" by simp_all
    then show "g i = h i" using assms[of i] by blast
  qed
qed

lemma dir_find_entries:
  assumes "\<And>bi i. bi < d \<Longrightarrow> i < N bi \<Longrightarrow> (named p (g bi i) \<longleftrightarrow> named p (h bi i)) \<and> (named p (g bi i) \<longrightarrow> g bi i = h bi i)"
  shows "dir_find p (concat (map (\<lambda>bi. map (g bi) [0..<N bi]) [0..<d])) = dir_find p (concat (map (\<lambda>bi. map (h bi) [0..<N bi]) [0..<d]))"
proof -
  have m: "map (\<lambda>bi. filter (named p) (map (g bi) [0..<N bi])) [0..<d] = map (\<lambda>bi. filter (named p) (map (h bi) [0..<N bi])) [0..<d]"
  proof (rule map_cong[OF refl], rule filter_entries)
    fix bi i assume "bi \<in> set [0..<d]" "i < N bi"
    then show "(named p (g bi i) \<longleftrightarrow> named p (h bi i)) \<and> (named p (g bi i) \<longrightarrow> g bi i = h bi i)" by (intro assms) simp_all
  qed
  have "filter (named p) (concat (map (\<lambda>bi. map (g bi) [0..<N bi]) [0..<d])) = filter (named p) (concat (map (\<lambda>bi. map (h bi) [0..<N bi]) [0..<d]))"
    unfolding filter_concat map_map comp_def by (rule arg_cong[OF m])
  then show ?thesis using named_filter[of p "concat (map (\<lambda>bi. map (g bi) [0..<N bi]) [0..<d])"] named_filter[of p "concat (map (\<lambda>bi. map (h bi) [0..<N bi]) [0..<d])"] by presburger
qed

lemma dir_entries_mem: "e \<in> set (dir_entries fs n d) \<longleftrightarrow> (\<exists>bi i. dir_pos fs n d bi i \<and> e = dirent (fs_block fs (file_bn fs n bi)) i)"
  unfolding dir_entries_def dir_pos_def set_concat set_map UN_iff image_iff bex_simps set_upt by (auto simp: image_iff Bex_def)

lemma dir_pos_32: "dir_pos fs n d bi i \<Longrightarrow> i < 32"
  using nents_block[OF dir_bsz_le, of fs n "bi * blocksize"] by (simp add: dir_pos_def)

lemma dir_add:
  assumes wf: "chk_wf fs 1" and dir: "dir_ok fs 1 d" and pos: "dir_pos fs 1 d bi i" and free: "dirent_inum (fs_block fs (file_bn fs 1 bi)) i = 0"
    and z: "\<forall>k < Suc maxnamelen. fs_block fs (file_bn fs 1 bi) ! (i * direntsize + 4 + k) = 0" and path: "length path \<le> maxnamelen" "0 \<notin> set path" and v: "v \<noteq> 0"
  defines "fs' \<equiv> set_block fs (file_bn fs 1 bi) (set_dirent (fs_block fs (file_bn fs 1 bi)) i path v)"
  shows "chk_wf fs' 1" "dir_ok fs' 1 d" "fs_free fs' = fs_free fs" "dir_pos fs' 1 d bj j = dir_pos fs 1 d bj j"
    "bj < d \<Longrightarrow> fs_block fs' (file_bn fs' 1 bj) = (if bj = bi then set_dirent (fs_block fs (file_bn fs 1 bi)) i path v else fs_block fs (file_bn fs 1 bj))"
    "dir_find path (dir_entries fs 1 d) = 0 \<Longrightarrow> dir_find p (dir_entries fs' 1 d) = (if p = path then v else dir_find p (dir_entries fs 1 d))"
proof -
  let ?e = "file_bn fs 1 bi"
  have dm: "d < maxblocks" and bi: "bi < d" using dir pos by (simp_all add: dir_ok_def dir_pos_def)
  have i: "i < 32" by (rule dir_pos_32[OF pos])
  have e: "?e \<noteq> 0" "dirblock_ok (fs_block fs ?e)" using dir bi by (simp_all add: dir_ok_def)
  have vp: "valid_place (P_data bi)" "place_bn fs 1 (P_data bi) = ?e" using bi dm by simp_all
  note sd = set_dirent_ok[OF e(2) i path z, where v = v]
  have s: "same_fs fs fs'" "same_ptrs fs fs' 1" by (simp_all add: fs'_def set_block_def same_fs_def same_ptrs_def)
  have ok: "fs_blocks_ok fs'" using chk_wfD(4)[OF wf] sd(1) by (simp add: fs'_def set_block_def fs_blocks_ok_def dirblock_ok_def)
  have "?e \<noteq> sb_fbb_bn (fs_sb fs)" using chk_wfD(9)[OF wf vp(1)] e(1) by simp
  then show fr: "fs_free fs' = fs_free fs" by (intro fs_free_frame[OF s(1)]) (simp add: fs'_def set_block_def)
  have keep: "fs_block fs' (place_bn fs 1 P) = fs_block fs (place_bn fs 1 P)" if "is_meta P" "valid_place P" "place_bn fs 1 P \<noteq> 0" for P
  proof -
    have "P \<noteq> P_data bi" using that(1) by auto
    then have "place_bn fs 1 P \<noteq> ?e" using chk_wfD(10)[OF wf that(2) vp(1) that(3)] vp(2) by metis
    then show ?thesis by (simp add: fs'_def set_block_def)
  qed
  show wf': "chk_wf fs' 1" by (rule wf_same_places(1)[OF wf s ok]) (use fr keep in auto)
  have bn: "file_bn fs' 1 bj = file_bn fs 1 bj" if "bj < maxblocks" for bj
    using wf_same_places(2)[OF wf s ok _ keep, of "P_data bj"] fr that by simp
  have blk: "fs_block fs' (file_bn fs' 1 bj) = (if bj = bi then set_dirent (fs_block fs ?e) i path v else fs_block fs (file_bn fs 1 bj))" if "bj < d" for bj
  proof (cases "bj = bi")
    case False
    have "file_bn fs 1 bj \<noteq> 0" using dir that by (simp add: dir_ok_def)
    then have "file_bn fs 1 bj \<noteq> ?e" using chk_wfD(10)[OF wf, of "P_data bj" "P_data bi"] that dm vp False by auto
    then show ?thesis using False bn[of bj] that dm by (simp add: fs'_def set_block_def)
  qed (use bn[of bi] bi dm in \<open>simp add: fs'_def set_block_def\<close>)
  show "bj < d \<Longrightarrow> fs_block fs' (file_bn fs' 1 bj) = (if bj = bi then set_dirent (fs_block fs ?e) i path v else fs_block fs (file_bn fs 1 bj))" by (rule blk)
  show "dir_ok fs' 1 d" using dir bn blk sd(1) dm by (simp add: dir_ok_def)
  have bsz: "dir_bsz fs' 1 off = dir_bsz fs 1 off" for off by (simp add: dir_bsz_def fs'_def set_block_def)
  show pos': "dir_pos fs' 1 d bj j = dir_pos fs 1 d bj j" for bj j unfolding dir_pos_def bsz ..
  have ent: "dirent (fs_block fs' (file_bn fs' 1 bj)) j = (if bj = bi \<and> j = i then (path, v) else dirent (fs_block fs (file_bn fs 1 bj)) j)" if "dir_pos fs 1 d bj j" for bj j
  proof (cases "bj = bi")
    case True
    then have "fs_block fs' (file_bn fs' 1 bj) = set_dirent (fs_block fs ?e) i path v" using blk[OF bi] by simp
    then show ?thesis using True sd(2)[OF dir_pos_32[OF that]] by metis
  next
    case False
    then show ?thesis using blk[of bj] that unfolding dir_pos_def by simp
  qed
  assume none: "dir_find path (dir_entries fs 1 d) = 0"
  show "dir_find p (dir_entries fs' 1 d) = (if p = path then v else dir_find p (dir_entries fs 1 d))"
  proof (cases "p = path")
    case True
    have "dir_find path (dir_entries fs' 1 d) = v"
    proof (rule dir_find_only)
      show "\<exists>e \<in> set (dir_entries fs' 1 d). named path e"
      proof (rule bexI[of _ "(path, v)"])
        show "named path (path, v)" using v by (simp add: named_def)
        have "(path, v) = dirent (fs_block fs' (file_bn fs' 1 bi)) i" using ent[OF pos] by simp
        then show "(path, v) \<in> set (dir_entries fs' 1 d)" unfolding dir_entries_mem pos' using pos by blast
      qed
      show "\<forall>e \<in> set (dir_entries fs' 1 d). named path e \<longrightarrow> snd e = v"
      proof (intro ballI impI)
        fix x assume x: "x \<in> set (dir_entries fs' 1 d)" "named path x"
        obtain bj j where j: "dir_pos fs 1 d bj j" "x = dirent (fs_block fs' (file_bn fs' 1 bj)) j" using x(1) unfolding dir_entries_mem pos' by blast
        show "snd x = v"
        proof (cases "bj = bi \<and> j = i")
          case False
          then have "x \<in> set (dir_entries fs 1 d)" unfolding dir_entries_mem using j ent[OF j(1)] by auto
          then show ?thesis using none x(2) unfolding dir_find_0 by blast
        qed (use j ent[OF j(1)] in simp)
      qed
    qed
    then show ?thesis using True by simp
  next
    case False
    have "dir_find p (dir_entries fs' 1 d) = dir_find p (dir_entries fs 1 d)"
      unfolding dir_entries_def bsz
    proof (rule dir_find_entries)
      fix bj j assume "bj < d" "j < nents (dir_bsz fs 1 (bj * blocksize))"
      then have j: "dir_pos fs 1 d bj j" by (simp add: dir_pos_def)
      show "(named p (dirent (fs_block fs' (file_bn fs' 1 bj)) j) \<longleftrightarrow> named p (dirent (fs_block fs (file_bn fs 1 bj)) j))
          \<and> (named p (dirent (fs_block fs' (file_bn fs' 1 bj)) j) \<longrightarrow> dirent (fs_block fs' (file_bn fs' 1 bj)) j = dirent (fs_block fs (file_bn fs 1 bj)) j)"
        using ent[OF j] False free by (cases "bj = bi \<and> j = i") (auto simp: named_def dirent_def)
    qed
    then show ?thesis using False by simp
  qed
qed

section \<open>Free inodes\<close>

lemma empty_inode_loop_spec:
  assumes room: "\<forall>b. fs_room fs b"
  shows "\<exists>r. empty_inode_loop fs i N = Inr r \<and> (r = 0 \<longrightarrow> (\<forall>m. i \<le> m \<longrightarrow> 2 \<le> m \<longrightarrow> m < N \<longrightarrow> ino_type (fs_inode fs m) \<noteq> 0))
    \<and> (r \<noteq> 0 \<longrightarrow> 2 \<le> r \<and> r < N \<and> ino_type (fs_inode fs r) = 0)"
proof (induction "N - i" arbitrary: i)
  case 0
  then show ?case by (subst empty_inode_loop.simps) simp
next
  case (Suc k)
  have i: "i < N" using Suc(2) by simp
  have d: "disk_entry fs b \<noteq> None" for b using room by (simp add: disk_entry_def)
  show ?case
  proof (cases "2 \<le> i \<and> ino_type (fs_inode fs i) = 0")
    case True
    then show ?thesis using i d by (subst empty_inode_loop.simps) auto
  next
    case False
    have "k = N - (i + 1)" using Suc(2) by simp
    from Suc(1)[OF this] obtain r where r: "empty_inode_loop fs (i + 1) N = Inr r" "r = 0 \<longrightarrow> (\<forall>m. i + 1 \<le> m \<longrightarrow> 2 \<le> m \<longrightarrow> m < N \<longrightarrow> ino_type (fs_inode fs m) \<noteq> 0)"
      "r \<noteq> 0 \<longrightarrow> 2 \<le> r \<and> r < N \<and> ino_type (fs_inode fs r) = 0" by blast
    have "empty_inode_loop fs i N = Inr r" using i d False r(1) by (subst empty_inode_loop.simps) auto
    moreover have "ino_type (fs_inode fs m) \<noteq> 0" if "r = 0" "i \<le> m" "2 \<le> m" "m < N" for m
      using r(2) that False by (cases "m = i") auto
    ultimately show ?thesis using r(3) by blast
  qed
qed

end
