(* ===== verification/Chkfs_Open.thy ===== *)
theory Chkfs_Open
  imports Chkfs_Dir_Lookup
begin

text \<open>
  Opening a name of the root directory: the file system at rest, the steps of creating a file, and the three outcomes (the name is there, it is missing, it is created).
\<close>

section \<open>Opening\<close>

text \<open>
  A file system at rest: the root directory is well formed and unlocked, its unused entries are zero, and so are the locks of unused inodes.
\<close>

definition root_ok :: "chkfs \<Rightarrow> nat \<Rightarrow> bool" where
  "root_ok fs d \<longleftrightarrow> chk_wf fs 1 \<and> dir_ok fs 1 d \<and> ino_mlock (fs_inode fs 1) = 0 \<and> 1 < sb_ninodes (fs_sb fs) \<and> sb_ninodes (fs_sb fs) < 2 ^ 31
     \<and> (\<forall>bi i. dir_pos fs 1 d bi i \<longrightarrow> dirent_inum (fs_block fs (file_bn fs 1 bi)) i = 0 \<longrightarrow> (\<forall>k < Suc maxnamelen. fs_block fs (file_bn fs 1 bi) ! (i * direntsize + 4 + k) = 0))
     \<and> (\<forall>m. ino_type (fs_inode fs m) = 0 \<longrightarrow> ino_mlock (fs_inode fs m) = 0 \<and> length (ino_direct (fs_inode fs m)) = ndirect)"

lemma root_okD:
  assumes "root_ok fs d"
  shows "chk_wf fs 1" "dir_ok fs 1 d" "ino_mlock (fs_inode fs 1) = 0" "1 < sb_ninodes (fs_sb fs)" "sb_ninodes (fs_sb fs) < 2 ^ 31" "\<forall>b. fs_room fs b"
    "dir_pos fs 1 d bi i \<Longrightarrow> dirent_inum (fs_block fs (file_bn fs 1 bi)) i = 0 \<Longrightarrow> \<forall>k < Suc maxnamelen. fs_block fs (file_bn fs 1 bi) ! (i * direntsize + 4 + k) = 0"
    "ino_type (fs_inode fs m) = 0 \<Longrightarrow> ino_mlock (fs_inode fs m) = 0 \<and> length (ino_direct (fs_inode fs m)) = ndirect"
proof -
  show "chk_wf fs 1" using assms by (simp add: root_ok_def)
  then show "\<forall>b. fs_room fs b" using chk_wfD(2) by blast
qed (use assms in \<open>unfold root_ok_def, blast+\<close>)

lemma get_inode_room: "\<forall>b. fs_room fs b \<Longrightarrow> get_inode fs inum = (if 0 < inum \<and> inum < sb_ninodes (fs_sb fs) then Inr (set_inode fs (nat inum) (\<lambda>ino. ino\<lparr>ino_mref := ino_mref ino + 1\<rparr>), Some (nat inum)) else Inr (fs, None))"
  by (simp add: get_inode_def disk_entry_def)

lemma set_inode_sel [simp]: "fs_sb (set_inode fs m f) = fs_sb fs" "fs_room (set_inode fs m f) = fs_room fs" "fs_block (set_inode fs m f) = fs_block fs"
    "fs_inode (set_inode fs m f) k = (if k = m then f (fs_inode fs m) else fs_inode fs k)"
    "fs_sb (set_block fs b x) = fs_sb fs" "fs_room (set_block fs b x) = fs_room fs" "fs_inode (set_block fs b x) = fs_inode fs"
  by (simp_all add: set_inode_def set_block_def)

lemma fileiter_map_first:
  assumes "ino_mlock (fs_inode fs n) = - 1" "b \<noteq> 0"
  shows "fileiter_map fs n fileiter_new b = Inr (set_inode fs n (\<lambda>ino. ino\<lparr>ino_direct := (ino_direct ino)[0 := b]\<rparr>), fileiter_new, 0)"
  using assms by (simp add: fileiter_map_def fileiter_new_def map_indirect2_def map_indirect_def get_dptr_def write_loc_def)

lemma fs_free_set_inode [simp]: "fs_free (set_inode fs m f) = fs_free fs"
  by (simp add: fs_free_def)

text \<open>
  What creating a file leaves: the new inode, one block less, the new entry, and everything else of the root directory.  When no block is free the error number is
  stored as the number of the first block.
\<close>

definition created :: "chkfs \<Rightarrow> chkfs \<Rightarrow> nat \<Rightarrow> u8 list \<Rightarrow> nat \<Rightarrow> bool" where
  "created fs fs' d path ino \<longleftrightarrow> 2 \<le> ino \<and> int ino < sb_ninodes (fs_sb fs) \<and> ino_type (fs_inode fs ino) = 0
     \<and> ino_type (fs_inode fs' ino) = type_regular \<and> ino_size (fs_inode fs' ino) = 0 \<and> ino_nlink (fs_inode fs' ino) = 1 \<and> ino_mlock (fs_inode fs' ino) = 0
     \<and> (if fs_free fs = {} then fs_free fs' = {} \<and> file_bn fs' ino 0 = word_of_int E_NOSPC
        else unat (file_bn fs' ino 0) \<in> fs_free fs \<and> fs_free fs' = fs_free fs - {unat (file_bn fs' ino 0)})
     \<and> (\<forall>m. m \<noteq> 1 \<longrightarrow> m \<noteq> ino \<longrightarrow> fs_inode fs' m = fs_inode fs m)
     \<and> (\<forall>p. dir_find p (dir_entries fs' 1 d) = (if p = path then word_of_nat ino else dir_find p (dir_entries fs 1 d)))"

lemma find_empty_inode_ok:
  assumes room: "\<forall>b. fs_room fs b" and ex: "2 \<le> m" "int m < sb_ninodes (fs_sb fs)" "ino_type (fs_inode fs m) = 0"
  obtains ino where "find_empty_inode fs = Inr ino" "2 \<le> ino" "int ino < sb_ninodes (fs_sb fs)" "ino_type (fs_inode fs ino) = 0"
proof -
  obtain r where r: "empty_inode_loop fs 0 (nat (sb_ninodes (fs_sb fs))) = Inr r" "r = 0 \<longrightarrow> (\<forall>m. 0 \<le> m \<longrightarrow> 2 \<le> m \<longrightarrow> m < nat (sb_ninodes (fs_sb fs)) \<longrightarrow> ino_type (fs_inode fs m) \<noteq> 0)"
    "r \<noteq> 0 \<longrightarrow> 2 \<le> r \<and> r < nat (sb_ninodes (fs_sb fs)) \<and> ino_type (fs_inode fs r) = 0"
    using empty_inode_loop_spec[OF room, of 0 "nat (sb_ninodes (fs_sb fs))"] by (elim exE conjE)
  have "m < nat (sb_ninodes (fs_sb fs))" using ex(2) by simp
  then have "r \<noteq> 0" using r(2) ex by (metis le0)
  then show ?thesis using that[of r] r(1,3) room by (simp add: find_empty_inode_def disk_entry_def zless_nat_eq_int_zless)
qed

text \<open>The new inode, up to the point where its first block is mapped.\<close>

lemma new_inode_ok:
  assumes ok: "root_ok fs d" and ino: "2 \<le> ino" "ino_type (fs_inode fs ino) = 0"
  defines "fs2 \<equiv> set_inode (set_inode (set_inode fs ino (\<lambda>x. x\<lparr>ino_mref := ino_mref x + 1\<rparr>)) ino (\<lambda>x. x\<lparr>ino_mlock := - 1\<rparr>)) ino (\<lambda>x. x\<lparr>ino_type := type_regular, ino_size := 0, ino_nlink := 1\<rparr>)"
  obtains fs3 b fs4 where "allocate_block fs2 = Inr (fs3, b)" "fileiter_map fs3 ino fileiter_new b = Inr (fs4, fileiter_new, 0)" "chk_wf fs4 1" "like fs fs4"
    "if fs_free fs = {} then b = word_of_int E_NOSPC \<and> fs_free fs4 = {} else unat b \<in> fs_free fs \<and> fs_free fs4 = fs_free fs - {unat b}"
    "\<forall>m. fs_inode fs4 m = (if m = ino then (fs_inode fs ino)\<lparr>ino_mref := ino_mref (fs_inode fs ino) + 1, ino_mlock := - 1, ino_type := type_regular, ino_size := 0, ino_nlink := 1,
       ino_direct := (ino_direct (fs_inode fs ino))[0 := b]\<rparr> else fs_inode fs m)"
proof -
  have i1: "ino \<noteq> 1" using ino(1) by simp
  have l2: "like fs fs2" "fs_block fs2 = fs_block fs" "fs_free fs2 = fs_free fs" unfolding fs2_def
    by (intro like_trans[OF like_trans[OF like_set_inode(1) like_set_inode(1)] like_set_inode(1)]; use i1 in simp) simp_all
  have wf2: "chk_wf fs2 1" by (rule like_wf[OF root_okD(1)[OF ok] l2(1,2)])
  obtain fs3 b where a: "allocate_block fs2 = Inr (fs3, b)" "chk_wf fs3 1" "b \<noteq> 0" "fs_inode fs3 = fs_inode fs2" "like fs2 fs3"
    "if fs_free fs2 = {} then b = word_of_int E_NOSPC \<and> fs_free fs3 = {} else unat b \<in> fs_free fs2 \<and> fs_free fs3 = fs_free fs2 - {unat b}"
  proof (cases "fs_free fs2 = {}")
    case True
    have "allocate_block fs2 = Inr (fs2, word_of_int E_NOSPC)" using allocate_block_spec[OF chk_wfD(1)[OF wf2]] True by simp
    then show ?thesis by (rule that[OF _ wf2]) (use True in \<open>simp_all add: like_def same_fs_def same_ptrs_def\<close>)
  next
    case False
    obtain s b where s: "allocate_block fs2 = Inr (s, b)" "chk_wf s 1" "fresh_bn s 1 b" "fs_free s = fs_free fs2 - {unat b}" "unat b \<in> fs_free fs2"
      "same_fs fs2 s" "fs_inode s = fs_inode fs2" "\<forall>x. x \<noteq> sb_fbb_bn (fs_sb fs2) \<longrightarrow> fs_block s x = fs_block fs2 x"
      by (rule allocate_block_wf[OF wf2 False]) blast
    show ?thesis by (rule that[OF s(1,2)]) (use False s in \<open>simp_all add: like_def same_ptrs_def fresh_bn_def\<close>)
  qed
  let ?f = "\<lambda>x. x\<lparr>ino_direct := (ino_direct x)[0 := b]\<rparr>"
  have m: "fileiter_map fs3 ino fileiter_new b = Inr (set_inode fs3 ino ?f, fileiter_new, 0)"
    by (rule fileiter_map_first) (use a(3,4) in \<open>simp_all add: fs2_def\<close>)
  have l: "like fs3 (set_inode fs3 ino ?f)" using like_set_inode(1)[of ino ?f fs3] i1 by simp
  have wf4: "chk_wf (set_inode fs3 ino ?f) 1" by (rule like_wf[OF a(2) l]) simp
  show ?thesis
    by (rule that[OF a(1) m wf4 like_trans[OF like_trans[OF l2(1) a(5)] l]]) (use a(4) a(6)[unfolded l2(3)] in \<open>simp_all add: fs2_def\<close>)
qed

lemma dirent_inum_snd: "dirent_inum b i = snd (dirent b i)"
  by (simp add: dirent_def)

text \<open>Adding an entry keeps the unused entries zero.\<close>

lemma dir_add_zero:
  assumes wf: "chk_wf fs 1" and dir: "dir_ok fs 1 d" and pos: "dir_pos fs 1 d bi i" and free: "dirent_inum (fs_block fs (file_bn fs 1 bi)) i = 0"
    and z: "\<forall>bj j. dir_pos fs 1 d bj j \<longrightarrow> dirent_inum (fs_block fs (file_bn fs 1 bj)) j = 0 \<longrightarrow> (\<forall>k < Suc maxnamelen. fs_block fs (file_bn fs 1 bj) ! (j * direntsize + 4 + k) = 0)"
    and path: "length path \<le> maxnamelen" "0 \<notin> set path" and v: "v \<noteq> 0" and j: "dir_pos fs 1 d bj j"
  defines "fs' \<equiv> set_block fs (file_bn fs 1 bi) (set_dirent (fs_block fs (file_bn fs 1 bi)) i path v)"
  assumes e: "dirent_inum (fs_block fs' (file_bn fs' 1 bj)) j = 0" and k: "k < Suc maxnamelen"
  shows "fs_block fs' (file_bn fs' 1 bj) ! (j * direntsize + 4 + k) = 0"
proof -
  have zi: "\<forall>k < Suc maxnamelen. fs_block fs (file_bn fs 1 bi) ! (i * direntsize + 4 + k) = 0" using z pos free by blast
  note add = dir_add[OF wf dir pos free zi path v, folded fs'_def]
  have d: "bj < d" "bi < d" using j pos by (simp_all add: dir_pos_def)
  note i32 = dir_pos_32[OF pos] and j32 = dir_pos_32[OF j] and blk = add(5)[OF d(1)]
  have ok: "dirblock_ok (fs_block fs (file_bn fs 1 bi))" using dir d(2) by (simp add: dir_ok_def)
  then have len: "length (fs_block fs (file_bn fs 1 bi)) = blocksize" by (simp add: dirblock_ok_def)
  note sd = set_dirent_ok(2)[OF ok i32 path zi j32, of v]
  show ?thesis
  proof (cases "bj = bi")
    case True
    have b: "fs_block fs' (file_bn fs' 1 bj) = set_dirent (fs_block fs (file_bn fs 1 bi)) i path v" using blk True by simp
    have ji: "j \<noteq> i" using e v sd unfolding b dirent_inum_snd by (cases "j = i") auto
    have "dirent_inum (fs_block fs (file_bn fs 1 bi)) j = 0" using e sd ji unfolding b dirent_inum_snd by simp
    then have "fs_block fs (file_bn fs 1 bi) ! (j * direntsize + 4 + k) = 0" using z j True k by blast
    moreover have "4 + k < direntsize" using k by simp
    ultimately show ?thesis using set_dirent_far[OF len i32 path(1) j32 ji, of "4 + k" v] unfolding b by (simp add: add.assoc)
  next
    case False
    then have b: "fs_block fs' (file_bn fs' 1 bj) = fs_block fs (file_bn fs 1 bj)" using blk by simp
    show ?thesis using z j e k unfolding b by blast
  qed
qed

text \<open>Everything up to the search for a directory entry: the new inode is complete and the root directory is locked.\<close>

lemma open_create_prefix:
  assumes ok: "root_ok fs d" and m: "2 \<le> m" "int m < sb_ninodes (fs_sb fs)" "ino_type (fs_inode fs m) = 0"
  obtains ino b fs6 where "2 \<le> ino" "int ino < sb_ninodes (fs_sb fs)" "ino_type (fs_inode fs ino) = 0" "chk_wf fs6 1" "like fs fs6"
    "if fs_free fs = {} then b = word_of_int E_NOSPC \<and> fs_free fs6 = {} else unat b \<in> fs_free fs \<and> fs_free fs6 = fs_free fs - {unat b}"
    "\<forall>k. fs_inode fs6 k = (if k = ino then (fs_inode fs ino)\<lparr>ino_mref := ino_mref (fs_inode fs ino) + 1, ino_mlock := 0, ino_type := type_regular, ino_size := 0, ino_nlink := 1,
       ino_direct := (ino_direct (fs_inode fs ino))[0 := b]\<rparr> else if k = 1 then (fs_inode fs 1)\<lparr>ino_mlock := - 1\<rparr> else fs_inode fs k)"
    "\<forall>path. open_create fs path = rbind (find_empty_direntry fs6 1) (\<lambda>d. case d of None \<Rightarrow> Inl Null_Deref
       | Some (e, i) \<Rightarrow> rbind (unlock_write (set_block fs6 e (set_dirent (fs_block fs6 e) i path (word_of_nat ino))) 1) (\<lambda>fs7. Inr (put_inode fs7 ino, ino)))"
proof -
  note R = root_okD[OF ok]
  obtain ino where ino: "find_empty_inode fs = Inr ino" "2 \<le> ino" "int ino < sb_ninodes (fs_sb fs)" "ino_type (fs_inode fs ino) = 0"
    by (rule find_empty_inode_ok[OF R(6) m])
  have i1: "ino \<noteq> 1" "ino \<noteq> 0" using ino(2) by simp_all
  define fs1 where "fs1 = set_inode fs ino (\<lambda>x. x\<lparr>ino_mref := ino_mref x + 1\<rparr>)"
  define fs2 where "fs2 = set_inode fs1 ino (\<lambda>x. x\<lparr>ino_mlock := - 1\<rparr>)"
  have g: "get_inode fs (int ino) = Inr (fs1, Some ino)" using get_inode_room[OF R(6), of "int ino"] ino(2,3) by (simp add: fs1_def)
  have lk: "lock_write fs1 ino = Inr fs2" using R(8)[OF ino(4)] by (simp add: lock_write_def fs1_def fs2_def)
  obtain fs3 b fs4 where n: "allocate_block (set_inode fs2 ino (\<lambda>x. x\<lparr>ino_type := type_regular, ino_size := 0, ino_nlink := 1\<rparr>)) = Inr (fs3, b)" "fileiter_map fs3 ino fileiter_new b = Inr (fs4, fileiter_new, 0)"
    "chk_wf fs4 1" "like fs fs4" "if fs_free fs = {} then b = word_of_int E_NOSPC \<and> fs_free fs4 = {} else unat b \<in> fs_free fs \<and> fs_free fs4 = fs_free fs - {unat b}"
    "\<forall>m. fs_inode fs4 m = (if m = ino then (fs_inode fs ino)\<lparr>ino_mref := ino_mref (fs_inode fs ino) + 1, ino_mlock := - 1, ino_type := type_regular, ino_size := 0, ino_nlink := 1,
       ino_direct := (ino_direct (fs_inode fs ino))[0 := b]\<rparr> else fs_inode fs m)"
    by (rule new_inode_ok[OF ok ino(2,4), folded fs1_def, folded fs2_def])
  define fs5 where "fs5 = set_inode fs4 ino (\<lambda>x. x\<lparr>ino_mlock := 0\<rparr>)"
  define fs6 where "fs6 = set_inode fs5 1 (\<lambda>x. x\<lparr>ino_mlock := - 1\<rparr>)"
  have u5: "unlock_write fs4 ino = Inr fs5" using n(6) by (simp add: unlock_write_def has_write_lock_def fs5_def)
  have l6: "lock_write fs5 1 = Inr fs6" using n(6) R(3) i1 by (simp add: lock_write_def fs5_def fs6_def)
  have k46: "like fs4 fs6" "fs_block fs6 = fs_block fs4" "fs_free fs6 = fs_free fs4"
    unfolding fs6_def fs5_def by (intro like_trans[OF like_set_inode(1) like_set_inode(1)]; use i1 in simp) simp_all
  have run: "open_create fs path = rbind (find_empty_direntry fs6 1) (\<lambda>d. case d of None \<Rightarrow> Inl Null_Deref
       | Some (e, i) \<Rightarrow> rbind (unlock_write (set_block fs6 e (set_dirent (fs_block fs6 e) i path (word_of_nat ino))) 1) (\<lambda>fs7. Inr (put_inode fs7 ino, ino)))" for path
    using ino(1) g lk n(1,2) u5 l6 unfolding set_dirent_def by (simp add: open_create_def cong: option.case_cong)
  have inodes: "\<forall>k. fs_inode fs6 k = (if k = ino then (fs_inode fs ino)\<lparr>ino_mref := ino_mref (fs_inode fs ino) + 1, ino_mlock := 0, ino_type := type_regular, ino_size := 0, ino_nlink := 1,
       ino_direct := (ino_direct (fs_inode fs ino))[0 := b]\<rparr> else if k = 1 then (fs_inode fs 1)\<lparr>ino_mlock := - 1\<rparr> else fs_inode fs k)"
    using n(6) i1 by (simp add: fs6_def fs5_def)
  show ?thesis
    by (rule that[OF ino(2-4) like_wf[OF n(3) k46(1,2)] like_trans[OF n(4) k46(1)] n(5)[folded k46(3)] inodes]) (rule allI, rule run)
qed

lemma find_empty_direntry_like:
  assumes ok: "root_ok fs d" and l: "like fs fs'" and wf: "chk_wf fs' 1"
  obtains r where "find_empty_direntry fs' 1 = Inr r" "r = None \<longleftrightarrow> (\<forall>bi i. dir_pos fs 1 d bi i \<longrightarrow> dirent_inum (fs_block fs (file_bn fs 1 bi)) i \<noteq> 0)"
    "\<forall>e i. r = Some (e, i) \<longrightarrow> (\<exists>bi. e = file_bn fs' 1 bi \<and> dir_pos fs' 1 d bi i \<and> dirent_inum (fs_block fs' e) i = 0)"
proof -
  note R = root_okD[OF ok]
  note D = like_dir[OF R(1) l R(2)]
  have blk: "fs_block fs' (file_bn fs' 1 bj) = fs_block fs (file_bn fs 1 bj)" if "dir_pos fs 1 d bj j" for bj j using D(4)[of bj] that by (simp add: dir_pos_def)
  obtain r where r: "find_empty_direntry fs' 1 = Inr r" "r = None \<longrightarrow> (\<forall>bi i. dir_pos fs' 1 d bi i \<longrightarrow> dirent_inum (fs_block fs' (file_bn fs' 1 bi)) i \<noteq> 0)"
    "\<forall>e i. r = Some (e, i) \<longrightarrow> (\<exists>bi. e = file_bn fs' 1 bi \<and> dir_pos fs' 1 d bi i \<and> dirent_inum (fs_block fs' e) i = 0)"
    by (rule find_empty_direntry_spec[OF chk_wfD(2)[OF wf] D(1)])
  have "r = None \<longleftrightarrow> (\<forall>bi i. dir_pos fs 1 d bi i \<longrightarrow> dirent_inum (fs_block fs (file_bn fs 1 bi)) i \<noteq> 0)"
  proof (cases r)
    case None
    then show ?thesis using r(2) blk unfolding D(3) by simp
  next
    case (Some p)
    obtain e i where ei: "p = (e, i)" by (cases p)
    from r(3) Some ei obtain bi where "e = file_bn fs' 1 bi" "dir_pos fs 1 d bi i" "dirent_inum (fs_block fs' e) i = 0" unfolding D(3) by blast
    then have "dir_pos fs 1 d bi i" "dirent_inum (fs_block fs (file_bn fs 1 bi)) i = 0" using blk by simp_all
    then show ?thesis using Some by blast
  qed
  then show ?thesis using that r(1,3) by blast
qed

lemma open_create_ok:
  assumes ok: "root_ok fs d" and m: "2 \<le> m" "int m < sb_ninodes (fs_sb fs)" "ino_type (fs_inode fs m) = 0"
    and slot: "dir_pos fs 1 d bs js" "dirent_inum (fs_block fs (file_bn fs 1 bs)) js = 0" and path: "length path \<le> maxnamelen" "0 \<notin> set path" and none: "dir_find path (dir_entries fs 1 d) = 0"
  obtains fs' ino where "open_create fs path = Inr (fs', ino)" "root_ok fs' d" "created fs fs' d path ino" "fs_sb fs' = fs_sb fs"
proof -
  note R = root_okD[OF ok]
  obtain ino b fs6 where n: "2 \<le> ino" "int ino < sb_ninodes (fs_sb fs)" "ino_type (fs_inode fs ino) = 0" "chk_wf fs6 1" "like fs fs6"
    "if fs_free fs = {} then b = word_of_int E_NOSPC \<and> fs_free fs6 = {} else unat b \<in> fs_free fs \<and> fs_free fs6 = fs_free fs - {unat b}"
    "\<forall>k. fs_inode fs6 k = (if k = ino then (fs_inode fs ino)\<lparr>ino_mref := ino_mref (fs_inode fs ino) + 1, ino_mlock := 0, ino_type := type_regular, ino_size := 0, ino_nlink := 1,
       ino_direct := (ino_direct (fs_inode fs ino))[0 := b]\<rparr> else if k = 1 then (fs_inode fs 1)\<lparr>ino_mlock := - 1\<rparr> else fs_inode fs k)"
    "\<forall>path. open_create fs path = rbind (find_empty_direntry fs6 1) (\<lambda>d. case d of None \<Rightarrow> Inl Null_Deref
       | Some (e, i) \<Rightarrow> rbind (unlock_write (set_block fs6 e (set_dirent (fs_block fs6 e) i path (word_of_nat ino))) 1) (\<lambda>fs7. Inr (put_inode fs7 ino, ino)))"
    by (rule open_create_prefix[OF ok m])
  have i1: "ino \<noteq> 1" "ino \<noteq> 0" using n(1) by simp_all
  note wf6 = n(4) and D6 = like_dir[OF R(1) n(5) R(2)]
  have blk6: "fs_block fs6 (file_bn fs6 1 bj) = fs_block fs (file_bn fs 1 bj)" if "dir_pos fs 1 d bj j" for bj j using D6(4)[of bj] that by (simp add: dir_pos_def)
  obtain r where r: "find_empty_direntry fs6 1 = Inr r" "r = None \<longleftrightarrow> (\<forall>bi i. dir_pos fs 1 d bi i \<longrightarrow> dirent_inum (fs_block fs (file_bn fs 1 bi)) i \<noteq> 0)"
    "\<forall>e i. r = Some (e, i) \<longrightarrow> (\<exists>bi. e = file_bn fs6 1 bi \<and> dir_pos fs6 1 d bi i \<and> dirent_inum (fs_block fs6 e) i = 0)"
    by (rule find_empty_direntry_like[OF ok n(5) wf6])
  have "r \<noteq> None" using r(2) slot by blast
  then obtain e i where ei: "r = Some (e, i)" by auto
  from r(3) ei obtain bi where bi: "e = file_bn fs6 1 bi" "dir_pos fs6 1 d bi i" "dirent_inum (fs_block fs6 (file_bn fs6 1 bi)) i = 0" by blast
  have z6: "\<forall>bj j. dir_pos fs6 1 d bj j \<longrightarrow> dirent_inum (fs_block fs6 (file_bn fs6 1 bj)) j = 0 \<longrightarrow> (\<forall>k < Suc maxnamelen. fs_block fs6 (file_bn fs6 1 bj) ! (j * direntsize + 4 + k) = 0)"
    using R(7) blk6 unfolding D6(3) by simp
  have zi: "\<forall>k < Suc maxnamelen. fs_block fs6 (file_bn fs6 1 bi) ! (i * direntsize + 4 + k) = 0" using z6 bi(2,3) by blast
  have v: "(word_of_nat ino :: u32) \<noteq> 0"
  proof -
    have "ino < 2 ^ 32" using n(2) R(5) by simp
    then have "unat (word_of_nat ino :: u32) = ino" by (rule unat_u32)
    then show ?thesis using i1(2) by auto
  qed
  let ?fs7 = "set_block fs6 (file_bn fs6 1 bi) (set_dirent (fs_block fs6 (file_bn fs6 1 bi)) i path (word_of_nat ino))"
  note A = dir_add[OF wf6 D6(1) bi(2,3) zi path v] and Z = dir_add_zero[OF wf6 D6(1) bi(2,3) z6 path v]
  define fs' where "fs' = put_inode (set_inode ?fs7 1 (\<lambda>x. x\<lparr>ino_mlock := 0\<rparr>)) ino"
  have u7: "unlock_write ?fs7 1 = Inr (set_inode ?fs7 1 (\<lambda>x. x\<lparr>ino_mlock := 0\<rparr>))" using n(7) i1 by (simp add: unlock_write_def has_write_lock_def)
  have run: "open_create fs path = Inr (fs', ino)"
    using n(8) r(1) ei bi(1) u7 by (simp add: fs'_def)
  have k7: "like ?fs7 fs'" "fs_block fs' = fs_block ?fs7" "fs_free fs' = fs_free ?fs7"
    unfolding fs'_def put_inode_def by (intro like_trans[OF like_set_inode(1) like_set_inode(1)]; use i1 in simp) simp_all
  note D7 = like_dir[OF A(1) k7(1) A(2)]
  have inodes: "fs_inode fs' k = (if k = ino then (fs_inode fs ino)\<lparr>ino_mlock := 0, ino_type := type_regular, ino_size := 0, ino_nlink := 1, ino_direct := (ino_direct (fs_inode fs ino))[0 := b]\<rparr>
      else if k = 1 then (fs_inode fs 1)\<lparr>ino_mlock := 0\<rparr> else fs_inode fs k)" for k
    using n(7) i1 by (simp add: fs'_def put_inode_def)
  have wf': "chk_wf fs' 1" by (rule like_wf[OF A(1) k7(1,2)])
  have sb: "fs_sb fs' = fs_sb fs" using n(5) k7(1) by (simp add: like_def same_fs_def)
  have root: "root_ok fs' d" unfolding root_ok_def
  proof (intro conjI allI impI)
    show "1 < sb_ninodes (fs_sb fs')" "sb_ninodes (fs_sb fs') < 2 ^ 31" using R(4,5) sb by simp_all
    show "ino_mlock (fs_inode fs' 1) = 0" using inodes i1 by simp
  next
    fix bj j k assume p: "dir_pos fs' 1 d bj j" "dirent_inum (fs_block fs' (file_bn fs' 1 bj)) j = 0" "k < Suc maxnamelen"
    have p6: "dir_pos fs6 1 d bj j" using p(1) unfolding D7(3) A(4) .
    have "fs_block fs' (file_bn fs' 1 bj) = fs_block ?fs7 (file_bn ?fs7 1 bj)" using D7(4)[of bj] p6 by (simp add: dir_pos_def)
    then show "fs_block fs' (file_bn fs' 1 bj) ! (j * direntsize + 4 + k) = 0" using Z[OF p6 _ p(3)] p(2) by simp
  next
    fix k assume "ino_type (fs_inode fs' k) = 0"
    then show "ino_mlock (fs_inode fs' k) = 0" "length (ino_direct (fs_inode fs' k)) = ndirect" using R(8)[of k] inodes[of k] by (auto split: if_splits)
  qed (fact wf' D7(1))+
  have "file_bn fs' ino 0 = b" using inodes[of ino] R(8)[OF n(3)] by (simp add: file_bn_def)
  moreover have "if fs_free fs = {} then b = word_of_int E_NOSPC \<and> fs_free fs' = {} else unat b \<in> fs_free fs \<and> fs_free fs' = fs_free fs - {unat b}" using k7(3) A(3) n(6) by simp
  moreover have "dir_find p (dir_entries fs' 1 d) = (if p = path then word_of_nat ino else dir_find p (dir_entries fs 1 d))" for p
    using A(6)[of p] none D6(2) D7(2) by simp
  ultimately have "created fs fs' d path ino" unfolding created_def using n(1-3) inodes i1 by auto
  show ?thesis by (rule that[OF run root _ sb]) fact
qed

text \<open>The lookup in the root directory that an open starts with, under the read lock.\<close>

lemma open_lookup:
  assumes ok: "root_ok fs d" and path: "0 \<notin> set path"
  defines "fs2 \<equiv> set_inode (set_inode fs 1 (\<lambda>x. x\<lparr>ino_mref := ino_mref x + 1\<rparr>)) 1 (\<lambda>x. x\<lparr>ino_mlock := ino_mlock x + 1\<rparr>)" and "v \<equiv> dir_find path (dir_entries fs 1 d)"
  shows "get_inode fs 1 = Inr (set_inode fs 1 (\<lambda>x. x\<lparr>ino_mref := ino_mref x + 1\<rparr>), Some 1)" "lock_read (set_inode fs 1 (\<lambda>x. x\<lparr>ino_mref := ino_mref x + 1\<rparr>)) 1 = Inr fs2"
    "lookup_inode fs2 1 path = (if 0 < sint v \<and> sint v < sb_ninodes (fs_sb fs) then Inr (set_inode fs2 (nat (sint v)) (\<lambda>ino. ino\<lparr>ino_mref := ino_mref ino + 1\<rparr>), Some (nat (sint v))) else Inr (fs2, None))"
proof -
  note R = root_okD[OF ok]
  show "get_inode fs 1 = Inr (set_inode fs 1 (\<lambda>x. x\<lparr>ino_mref := ino_mref x + 1\<rparr>), Some 1)" using get_inode_room[OF R(6), of 1] R(4) by simp
  show "lock_read (set_inode fs 1 (\<lambda>x. x\<lparr>ino_mref := ino_mref x + 1\<rparr>)) 1 = Inr fs2" using R(3) by (simp add: lock_read_def fs2_def)
  have l: "like fs fs2" unfolding fs2_def by (intro like_trans[OF like_set_inode(1) like_set_inode(1)]) simp_all
  have room: "\<forall>b. fs_room fs2 b" using R(6) by (simp add: fs2_def)
  note D = like_dir[OF R(1) l R(2)]
  have "lookup_inode fs2 1 path = get_inode fs2 (sint v)" using lookup_spec[OF room D(1) path] D(2) by (simp add: v_def)
  then show "lookup_inode fs2 1 path = (if 0 < sint v \<and> sint v < sb_ninodes (fs_sb fs) then Inr (set_inode fs2 (nat (sint v)) (\<lambda>ino. ino\<lparr>ino_mref := ino_mref ino + 1\<rparr>), Some (nat (sint v))) else Inr (fs2, None))"
    using get_inode_room[OF room] by (simp add: fs2_def)
qed

text \<open>Changes of the reference counts of inodes only.\<close>

definition refs_only :: "chkfs \<Rightarrow> chkfs \<Rightarrow> bool" where
  "refs_only fs fs' \<longleftrightarrow> fs_sb fs' = fs_sb fs \<and> fs_room fs' = fs_room fs \<and> fs_block fs' = fs_block fs \<and> (\<forall>m. \<exists>r. fs_inode fs' m = (fs_inode fs m)\<lparr>ino_mref := r\<rparr>)"

lemma refs_onlyD:
  assumes "refs_only fs fs'"
  shows "like fs fs'" "fs_block fs' = fs_block fs" "fs_sb fs' = fs_sb fs" "fs_room fs' = fs_room fs" "fs_free fs' = fs_free fs"
    "ino_mlock (fs_inode fs' m) = ino_mlock (fs_inode fs m)" "ino_type (fs_inode fs' m) = ino_type (fs_inode fs m)" "ino_direct (fs_inode fs' m) = ino_direct (fs_inode fs m)"
    "ino_indirect (fs_inode fs' m) = ino_indirect (fs_inode fs m)" "ino_indirect2 (fs_inode fs' m) = ino_indirect2 (fs_inode fs m)" "ino_size (fs_inode fs' m) = ino_size (fs_inode fs m)"
proof -
  have f: "fs_sb fs' = fs_sb fs" "fs_room fs' = fs_room fs" "fs_block fs' = fs_block fs" and m: "\<And>m. \<exists>r. fs_inode fs' m = (fs_inode fs m)\<lparr>ino_mref := r\<rparr>"
    using assms by (simp_all add: refs_only_def)
  show "fs_block fs' = fs_block fs" "fs_sb fs' = fs_sb fs" "fs_room fs' = fs_room fs" "fs_free fs' = fs_free fs" using f by (simp_all add: fs_free_def)
  obtain r where "fs_inode fs' m = (fs_inode fs m)\<lparr>ino_mref := r\<rparr>" using m by blast
  then show "ino_mlock (fs_inode fs' m) = ino_mlock (fs_inode fs m)" "ino_type (fs_inode fs' m) = ino_type (fs_inode fs m)" "ino_direct (fs_inode fs' m) = ino_direct (fs_inode fs m)"
    "ino_indirect (fs_inode fs' m) = ino_indirect (fs_inode fs m)" "ino_indirect2 (fs_inode fs' m) = ino_indirect2 (fs_inode fs m)" "ino_size (fs_inode fs' m) = ino_size (fs_inode fs m)" by simp_all
  obtain r where "fs_inode fs' 1 = (fs_inode fs 1)\<lparr>ino_mref := r\<rparr>" using m by blast
  then show "like fs fs'" using f by (simp add: like_def same_fs_def same_ptrs_def)
qed

lemma refs_only_root:
  assumes ok: "root_ok fs d" and r: "refs_only fs fs'"
  shows "root_ok fs' d" "dir_entries fs' 1 d = dir_entries fs 1 d"
proof -
  note R = root_okD[OF ok] and S = refs_onlyD[OF r]
  note D = like_dir[OF R(1) S(1) R(2)]
  show "dir_entries fs' 1 d = dir_entries fs 1 d" by (rule D(2))
  show "root_ok fs' d" unfolding root_ok_def
  proof (intro conjI allI impI)
    fix bi i k assume p: "dir_pos fs' 1 d bi i" "dirent_inum (fs_block fs' (file_bn fs' 1 bi)) i = 0" "k < Suc maxnamelen"
    have "fs_block fs' (file_bn fs' 1 bi) = fs_block fs (file_bn fs 1 bi)" using D(4)[of bi] p(1) by (simp add: dir_pos_def)
    then show "fs_block fs' (file_bn fs' 1 bi) ! (i * direntsize + 4 + k) = 0" using R(7)[of bi i] p unfolding D(3) by simp
  qed (use like_wf[OF R(1) S(1,2)] D(1) R(3,4,5,8) S(3,6,7,8) in auto)
qed

text \<open>A name that is there is found, and the open changes reference counts only.\<close>

lemma open_found:
  assumes ok: "root_ok fs d" and path: "0 \<notin> set path" and v: "dir_find path (dir_entries fs 1 d) = v" "0 < sint v" "sint v < sb_ninodes (fs_sb fs)"
  shows "\<exists>fs'. open_inode fs path flags = Inr (fs', Some (nat (sint v))) \<and> refs_only fs fs'"
proof -
  note O = open_lookup[OF ok path, unfolded v(1)] and R = root_okD[OF ok]
  let ?fs2 = "set_inode (set_inode fs 1 (\<lambda>x. x\<lparr>ino_mref := ino_mref x + 1\<rparr>)) 1 (\<lambda>x. x\<lparr>ino_mlock := ino_mlock x + 1\<rparr>)"
  let ?fs3 = "set_inode ?fs2 (nat (sint v)) (\<lambda>ino. ino\<lparr>ino_mref := ino_mref ino + 1\<rparr>)"
  have "ino_mlock (fs_inode ?fs3 1) = 1" using R(3) by (cases "nat (sint v) = 1") auto
  then have u: "unlock_read ?fs3 1 = Inr (set_inode ?fs3 1 (\<lambda>x. x\<lparr>ino_mlock := ino_mlock x - 1\<rparr>))" unfolding unlock_read_def by simp
  let ?fs' = "put_inode (set_inode ?fs3 1 (\<lambda>x. x\<lparr>ino_mlock := ino_mlock x - 1\<rparr>)) 1"
  have run: "open_inode fs path flags = Inr (?fs', Some (nat (sint v)))" using O u v(2,3) by (simp add: open_inode_def)
  have "\<exists>r. fs_inode ?fs' m = (fs_inode fs m)\<lparr>ino_mref := r\<rparr>" for m
    using R(3) by (cases "fs_inode fs m") (auto simp: put_inode_def)
  then have "refs_only fs ?fs'" unfolding refs_only_def by (simp add: put_inode_def)
  then show ?thesis using run by blast
qed

text \<open>A name that is not there.\<close>

lemma open_missing:
  assumes ok: "root_ok fs d" and path: "0 \<notin> set path" and v: "dir_find path (dir_entries fs 1 d) = 0"
  obtains fs4 where "refs_only fs fs4" "\<forall>m. m \<noteq> 1 \<longrightarrow> fs_inode fs4 m = fs_inode fs m"
    "open_inode fs path flags = (if flags AND OF_CREATE \<noteq> 0 \<and> flags AND OF_WRITE \<noteq> 0 then rbind (open_create fs4 path) (\<lambda>(fs5, ino). Inr (put_inode fs5 1, Some ino)) else Inr (put_inode fs4 1, None))"
proof -
  note O = open_lookup[OF ok path, unfolded v] and R = root_okD[OF ok]
  let ?fs2 = "set_inode (set_inode fs 1 (\<lambda>x. x\<lparr>ino_mref := ino_mref x + 1\<rparr>)) 1 (\<lambda>x. x\<lparr>ino_mlock := ino_mlock x + 1\<rparr>)"
  let ?fs4 = "set_inode ?fs2 1 (\<lambda>x. x\<lparr>ino_mlock := ino_mlock x - 1\<rparr>)"
  have u: "unlock_read ?fs2 1 = Inr ?fs4" using R(3) by (simp add: unlock_read_def)
  have "open_inode fs path flags = (if flags AND OF_CREATE \<noteq> 0 \<and> flags AND OF_WRITE \<noteq> 0 then rbind (open_create ?fs4 path) (\<lambda>(fs5, ino). Inr (put_inode fs5 1, Some ino)) else Inr (put_inode ?fs4 1, None))"
    using O u by (simp add: open_inode_def)
  moreover have "\<exists>r. fs_inode ?fs4 m = (fs_inode fs m)\<lparr>ino_mref := r\<rparr>" for m
    using R(3) by (cases "fs_inode fs m") auto
  then have "refs_only fs ?fs4" unfolding refs_only_def by simp
  moreover have "\<forall>m. m \<noteq> 1 \<longrightarrow> fs_inode ?fs4 m = fs_inode fs m" by simp
  ultimately show ?thesis using that by blast
qed

text \<open>A new name: reference counts aside, \<open>open_create\<close>.\<close>

lemma created_refs:
  assumes c: "created fs1 fs2 d path ino" and a: "refs_only fs fs1" "dir_entries fs1 1 d = dir_entries fs 1 d" and b: "fs_sb fs' = fs_sb fs2" "fs_room fs' = fs_room fs2" "fs_block fs' = fs_block fs2"
    "dir_entries fs' 1 d = dir_entries fs2 1 d" "\<forall>m. m \<noteq> 1 \<longrightarrow> fs_inode fs' m = fs_inode fs2 m" and m: "\<forall>m. m \<noteq> 1 \<longrightarrow> fs_inode fs1 m = fs_inode fs m"
  shows "created fs fs' d path ino"
proof -
  have i: "ino \<noteq> 1" using c by (auto simp: created_def)
  have bn: "file_bn fs' ino 0 = file_bn fs2 ino 0" using b(5) i by (simp add: file_bn_def)
  have fr: "fs_free fs' = fs_free fs2" using b by (simp add: fs_free_def)
  show ?thesis using c b(5) m i unfolding created_def bn fr a(2)[symmetric] refs_onlyD(3,5)[OF a(1), symmetric] b(4) by simp
qed

lemma open_creates:
  assumes ok: "root_ok fs d" and path: "length path < 64" "0 \<notin> set path" and none: "dir_find path (dir_entries fs 1 d) = 0" and flags: "flags AND OF_CREATE \<noteq> 0" "flags AND OF_WRITE \<noteq> 0"
    and m: "2 \<le> m" "int m < sb_ninodes (fs_sb fs)" "ino_type (fs_inode fs m) = 0" and slot: "dir_pos fs 1 d bs js" "dirent_inum (fs_block fs (file_bn fs 1 bs)) js = 0"
  obtains fs' ino where "open_inode fs path flags = Inr (fs', Some ino)" "root_ok fs' d" "created fs fs' d path ino" "fs_sb fs' = fs_sb fs"
proof -
  note R = root_okD[OF ok]
  obtain fs4 where f: "refs_only fs fs4" "\<forall>m. m \<noteq> 1 \<longrightarrow> fs_inode fs4 m = fs_inode fs m"
    "open_inode fs path flags = (if flags AND OF_CREATE \<noteq> 0 \<and> flags AND OF_WRITE \<noteq> 0 then rbind (open_create fs4 path) (\<lambda>(fs5, ino). Inr (put_inode fs5 1, Some ino)) else Inr (put_inode fs4 1, None))"
    by (rule open_missing[OF ok path(2) none])
  note S = refs_onlyD[OF f(1)] and T = refs_only_root[OF ok f(1)]
  note D = like_dir[OF R(1) S(1) R(2)]
  have p: "length path \<le> maxnamelen" using path(1) by simp
  have sl: "dir_pos fs4 1 d bs js" "dirent_inum (fs_block fs4 (file_bn fs4 1 bs)) js = 0" using slot D(3,4)[of bs] by (simp_all add: dir_pos_def)
  obtain fs5 ino where c: "open_create fs4 path = Inr (fs5, ino)" "root_ok fs5 d" "created fs4 fs5 d path ino" "fs_sb fs5 = fs_sb fs4"
    by (rule open_create_ok[OF T(1) m(1) _ _ sl p path(2)]) (use m none S T in simp_all)
  have "\<exists>r. fs_inode (put_inode fs5 1) k = (fs_inode fs5 k)\<lparr>ino_mref := r\<rparr>" for k
    by (cases "fs_inode fs5 k") (auto simp: put_inode_def)
  then have r: "refs_only fs5 (put_inode fs5 1)" unfolding refs_only_def by (simp add: put_inode_def)
  note U = refs_only_root[OF c(2) r]
  have "created fs (put_inode fs5 1) d path ino" by (rule created_refs[OF c(3) f(1) T(2) _ _ _ U(2) _ f(2)]) (simp_all add: put_inode_def)
  then show ?thesis using that[of "put_inode fs5 1" ino] f(3) flags c(1) U(1) c(4) S(3) by (simp add: put_inode_def)
qed

end
