(* ===== verification/Chkfs_Dir_Correct.thy ===== *)
theory Chkfs_Dir_Correct
  imports Chkfs_Open
begin

text \<open>
  The properties of files by name: reading, creating and finding again, and what happens when an inode, a directory entry or a block is missing.
\<close>

section \<open>Reading by name\<close>

lemma block_copy:
  fixes s off bo r q sz :: nat
  assumes "bo \<le> off" "off < s" "off - bo = r" "r < q" "0 < sz"
  shows "(if min (s - bo) q > off - bo then min (min (s - bo) q - (off - bo)) sz else 0) = min (min (s - off) (q - r)) sz" "0 < min (min (s - off) (q - r)) sz"
proof -
  have r: "r < s - bo" "min (s - bo) q - r = min (s - off) (q - r)" using assms(1-4) by linarith+
  then show "(if min (s - bo) q > off - bo then min (min (s - bo) q - (off - bo)) sz else 0) = min (min (s - off) (q - r)) sz" using assms(3,4) by simp
qed (use assms in simp)

lemma file_data_loop_correct:
  assumes blk: "fs_blocks_ok fs" and room: "\<forall>b. fs_room fs b"
  shows "it_ok fs n it \<Longrightarrow> off \<le> file_size fs n \<Longrightarrow> \<forall>i. off \<le> i \<and> i < min (file_size fs n) (off + sz) \<longrightarrow> block_here fs n i \<Longrightarrow> sz < fuel \<Longrightarrow>
    file_data_loop fuel fs n it sz off out = Inr (out @ file_bytes fs n off (min sz (file_size fs n - off)))"
proof (induction fuel arbitrary: it sz off out)
  case (Suc fuel)
  let ?s = "file_size fs n" and ?bo = "off div blocksize * blocksize" and ?bn = "file_bn fs n (off div blocksize)"
  have s32: "?s < 2 ^ 32" by (rule u32_bound)
  have o: "off < chkfs_maxsize" using Suc.prems(2) s32 by simp
  obtain it' where it': "dir_block fs n it off = Inr (it', if ?bn = 0 then None else Some ?bn)" "it_ok fs n it'" by (rule dir_block_spec[OF room Suc.prems(1) o])
  show ?case
  proof (cases "sz = 0 \<or> off = ?s")
    case True
    have bo: "?bo \<le> off" "off - ?bo = off mod blocksize" by (simp_all add: minus_div_mult_eq_mod)
    have "dir_bsz fs n ?bo \<le> off - ?bo" if "off = ?s"
    proof -
      have "(?s + 2 ^ 64 - ?bo) mod 2 ^ 64 = ?s - ?bo" by (rule sub_wrap) (use that bo s32 in auto)
      then show ?thesis using that by (simp add: dir_bsz_def)
    qed
    then show ?thesis using True it'(1) by (auto simp: file_bytes_def Let_def)
  next
    case False
    then have sz: "0 < sz" and lt: "off < ?s" using Suc.prems(2) by auto
    have "block_here fs n off" using Suc.prems(3) sz lt by auto
    then have bn: "?bn \<noteq> 0" by (auto simp: block_here_def)
    have bo: "?bo \<le> off" "off - ?bo = off mod blocksize" by (simp_all add: minus_div_mult_eq_mod)
    have "(?s + 2 ^ 64 - ?bo) mod 2 ^ 64 = ?s - ?bo" by (rule sub_wrap) (use bo(1) lt s32 in auto)
    then have bsz: "dir_bsz fs n ?bo = min (?s - ?bo) blocksize" by (simp add: dir_bsz_def)
    have m: "off mod blocksize < blocksize" by simp
    define nc where "nc = min (min (?s - off) (blocksize - off mod blocksize)) sz"
    have nc: "(if dir_bsz fs n ?bo > off - ?bo then min (dir_bsz fs n ?bo - (off - ?bo)) sz else 0) = nc" "0 < nc"
      unfolding bsz nc_def by (rule block_copy[OF bo(1) lt bo(2) m sz])+
    have ncb: "nc \<le> sz" "nc \<le> ?s - off" "off mod blocksize + nc \<le> blocksize" using m by (auto simp: nc_def)
    have cp: "take nc (drop (off mod blocksize) (fs_block fs ?bn)) = file_bytes fs n off nc"
      by (rule file_bytes_block[OF ncb(3)]) (use blk in \<open>simp add: fs_blocks_ok_def\<close>)
    have IH: "file_data_loop fuel fs n it' (sz - nc) (off + nc) (out @ file_bytes fs n off nc) = Inr ((out @ file_bytes fs n off nc) @ file_bytes fs n (off + nc) (min (sz - nc) (?s - (off + nc))))"
    proof (rule Suc.IH[OF it'(2)])
      show "\<forall>i. off + nc \<le> i \<and> i < min ?s (off + nc + (sz - nc)) \<longrightarrow> block_here fs n i" using Suc.prems(3) ncb(1) by auto
    qed (use ncb lt nc(2) Suc.prems(4) in auto)
    have "nc + min (sz - nc) (?s - (off + nc)) = min sz (?s - off)" using ncb by auto
    then have app: "file_bytes fs n off nc @ file_bytes fs n (off + nc) (min (sz - nc) (?s - (off + nc))) = file_bytes fs n off (min sz (?s - off))"
      using file_bytes_append[of fs n off nc "min (sz - nc) (?s - (off + nc))"] by simp
    have "file_data_loop (Suc fuel) fs n it sz off out = file_data_loop fuel fs n it' (sz - nc) (off + nc) (out @ file_bytes fs n off nc)"
      using it'(1) bn sz nc cp bo(2) by (simp add: Let_def)
    then show ?thesis using IH app by simp
  qed
qed simp

lemma file_same:
  assumes "fs_block fs' = fs_block fs" "fs_room fs' = fs_room fs" "ino_direct (fs_inode fs' n) = ino_direct (fs_inode fs n)" "ino_indirect (fs_inode fs' n) = ino_indirect (fs_inode fs n)"
    "ino_indirect2 (fs_inode fs' n) = ino_indirect2 (fs_inode fs n)"
  shows "file_bytes fs' n off k = file_bytes fs n off k" "block_here fs' n i = block_here fs n i" "file_bn fs' n i = file_bn fs n i"
proof -
  have nn: "nonnull fs' = nonnull fs" using assms(2) by (simp add: fun_eq_iff nonnull_def disk_entry_def)
  have "class_bn fs' n c = class_bn fs n c" for c by (simp add: class_bn_def nn assms split: option.split)
  then have bn: "file_bn fs' n i = file_bn fs n i" for i by (simp add: file_bn_def nn assms split: option.split)
  then show "file_bn fs' n i = file_bn fs n i" by blast
  show "file_bytes fs' n off k = file_bytes fs n off k" "block_here fs' n i = block_here fs n i"
    using assms(1) by (simp_all add: file_bytes_def file_byte_def block_here_def nn bn)
qed

text \<open>The calls around the loop: the inode that the name has is locked for reading, and only reference counts change in the end.\<close>

lemma read_file_data_run:
  assumes ok: "root_ok fs d" and path: "0 \<notin> set path" and v: "dir_find path (dir_entries fs 1 d) = v" "0 < sint v" "sint v < sb_ninodes (fs_sb fs)"
    and n: "n = nat (sint v)" "ino_mlock (fs_inode fs n) = 0"
  obtains fs5 fs' where "\<forall>sz off. chickadeefs_read_file_data fs path sz off = rbind (file_data_loop (Suc sz) fs5 n fileiter_new sz off []) (\<lambda>out. Inr (fs', out))" "refs_only fs fs'"
    "fs_block fs5 = fs_block fs" "fs_room fs5 = fs_room fs" "ino_direct (fs_inode fs5 n) = ino_direct (fs_inode fs n)" "ino_indirect (fs_inode fs5 n) = ino_indirect (fs_inode fs n)"
    "ino_indirect2 (fs_inode fs5 n) = ino_indirect2 (fs_inode fs n)" "ino_size (fs_inode fs5 n) = ino_size (fs_inode fs n)"
proof -
  note O = open_lookup[OF ok path, unfolded v(1)] and R = root_okD[OF ok]
  let ?fs2 = "set_inode (set_inode fs 1 (\<lambda>x. x\<lparr>ino_mref := ino_mref x + 1\<rparr>)) 1 (\<lambda>x. x\<lparr>ino_mlock := ino_mlock x + 1\<rparr>)"
  define fs3 where "fs3 = set_inode ?fs2 n (\<lambda>ino. ino\<lparr>ino_mref := ino_mref ino + 1\<rparr>)"
  define fs4 where "fs4 = put_inode (set_inode fs3 1 (\<lambda>x. x\<lparr>ino_mlock := ino_mlock x - 1\<rparr>)) 1"
  define fs5 where "fs5 = set_inode fs4 n (\<lambda>x. x\<lparr>ino_mlock := ino_mlock x + 1\<rparr>)"
  have l: "lookup_inode ?fs2 1 path = Inr (fs3, Some n)" using O(3) v(2,3) n(1) by (simp add: fs3_def)
  have "ino_mlock (fs_inode fs3 1) = 1" using R(3) by (cases "n = 1") (auto simp: fs3_def)
  then have u: "unlock_read fs3 1 = Inr (set_inode fs3 1 (\<lambda>x. x\<lparr>ino_mlock := ino_mlock x - 1\<rparr>))" unfolding unlock_read_def by simp
  have m4: "ino_mlock (fs_inode fs4 n) = 0" using R(3) n(2) by (cases "n = 1") (auto simp: fs4_def fs3_def put_inode_def)
  then have l5: "lock_read fs4 n = Inr fs5" unfolding lock_read_def fs5_def by simp
  have m5: "ino_mlock (fs_inode fs5 n) = 1" using m4 by (simp add: fs5_def)
  then have u5: "unlock_read fs5 n = Inr (set_inode fs5 n (\<lambda>x. x\<lparr>ino_mlock := ino_mlock x - 1\<rparr>))" unfolding unlock_read_def by simp
  let ?fs' = "put_inode (set_inode fs5 n (\<lambda>x. x\<lparr>ino_mlock := ino_mlock x - 1\<rparr>)) n"
  have run: "\<forall>sz off. chickadeefs_read_file_data fs path sz off = rbind (file_data_loop (Suc sz) fs5 n fileiter_new sz off []) (\<lambda>out. Inr (?fs', out))"
    using O(1,2) l u l5 u5 by (simp add: chickadeefs_read_file_data_def fs4_def)
  have "\<exists>r. fs_inode ?fs' m = (fs_inode fs m)\<lparr>ino_mref := r\<rparr>" for m
    using R(3) n(2) by (cases "fs_inode fs m") (auto simp: put_inode_def fs5_def fs4_def fs3_def)
  then have "refs_only fs ?fs'" unfolding refs_only_def by (simp add: put_inode_def fs5_def fs4_def fs3_def)
  then show ?thesis by (rule that[OF run]) (simp_all add: fs5_def fs4_def fs3_def put_inode_def)
qed

lemma read_file_data_ok:
  assumes ok: "root_ok fs d" and path: "0 \<notin> set path" and v: "dir_find path (dir_entries fs 1 d) = v" "0 < sint v" "sint v < sb_ninodes (fs_sb fs)"
    and n: "n = nat (sint v)" "ino_mlock (fs_inode fs n) = 0" and off: "off \<le> file_size fs n" and here: "\<forall>i. off \<le> i \<and> i < min (file_size fs n) (off + sz) \<longrightarrow> block_here fs n i"
  shows "\<exists>fs'. chickadeefs_read_file_data fs path sz off = Inr (fs', file_bytes fs n off (min sz (file_size fs n - off))) \<and> refs_only fs fs'"
proof -
  note R = root_okD[OF ok]
  obtain fs5 fs' where f: "\<forall>sz off. chickadeefs_read_file_data fs path sz off = rbind (file_data_loop (Suc sz) fs5 n fileiter_new sz off []) (\<lambda>out. Inr (fs', out))" "refs_only fs fs'"
    and b5: "fs_block fs5 = fs_block fs" "fs_room fs5 = fs_room fs" and p5: "ino_direct (fs_inode fs5 n) = ino_direct (fs_inode fs n)" "ino_indirect (fs_inode fs5 n) = ino_indirect (fs_inode fs n)"
    "ino_indirect2 (fs_inode fs5 n) = ino_indirect2 (fs_inode fs n)" "ino_size (fs_inode fs5 n) = ino_size (fs_inode fs n)"
    by (rule read_file_data_run[OF ok path v n])
  note S = file_same[OF b5 p5(1-3)]
  have loop: "file_data_loop (Suc sz) fs5 n fileiter_new sz off [] = Inr ([] @ file_bytes fs5 n off (min sz (file_size fs5 n - off)))"
    by (rule file_data_loop_correct) (use chk_wfD(3)[OF R(1)] R(6) b5 off here S(2) p5(4) it_ok_new in \<open>auto simp: fs_blocks_ok_def\<close>)
  then show ?thesis using f S(1) p5(4) by simp
qed

text \<open>Past the end of a file that has no block there, nothing is read.\<close>

lemma read_file_data_past:
  assumes ok: "root_ok fs d" and path: "0 \<notin> set path" and v: "dir_find path (dir_entries fs 1 d) = v" "0 < sint v" "sint v < sb_ninodes (fs_sb fs)"
    and n: "n = nat (sint v)" "ino_mlock (fs_inode fs n) = 0" and off: "off < chkfs_maxsize" "file_bn fs n (off div blocksize) = 0"
  shows "\<exists>fs'. chickadeefs_read_file_data fs path sz off = Inr (fs', []) \<and> refs_only fs fs'"
proof -
  obtain fs5 fs' where f: "\<forall>sz off. chickadeefs_read_file_data fs path sz off = rbind (file_data_loop (Suc sz) fs5 n fileiter_new sz off []) (\<lambda>out. Inr (fs', out))" "refs_only fs fs'"
    and b5: "fs_block fs5 = fs_block fs" "fs_room fs5 = fs_room fs" and p5: "ino_direct (fs_inode fs5 n) = ino_direct (fs_inode fs n)" "ino_indirect (fs_inode fs5 n) = ino_indirect (fs_inode fs n)"
    "ino_indirect2 (fs_inode fs5 n) = ino_indirect2 (fs_inode fs n)"
    by (rule read_file_data_run[OF ok path v n])
  have room: "\<forall>b. fs_room fs5 b" using root_okD(6)[OF ok] b5(2) by simp
  have bn: "file_bn fs5 n (off div blocksize) = 0" using file_same(3)[OF b5 p5] off(2) by simp
  obtain it' where "dir_block fs5 n fileiter_new off = Inr (it', None)"
    by (rule dir_block_spec[where n = n, OF room it_ok_new off(1)]) (use bn in simp)
  then have "file_data_loop (Suc sz) fs5 n fileiter_new sz off [] = Inr []" by simp
  then show ?thesis using f by simp
qed

text \<open>
  C18: Reading a file of the root directory by its name returns exactly the bytes of the inode that the first entry with that name has, from the offset on, as many as asked for or
  up to the end of the file; the locks are free again afterwards and nothing but reference counts changes.
\<close>

theorem read_file_data_correct:
  assumes "root_ok fs d" and "0 \<notin> set path" and "dir_find path (dir_entries fs 1 d) = v" "0 < sint v" "sint v < sb_ninodes (fs_sb fs)"
    and "n = nat (sint v)" "ino_mlock (fs_inode fs n) = 0" and "off \<le> file_size fs n" and "\<forall>i. off \<le> i \<and> i < min (file_size fs n) (off + sz) \<longrightarrow> block_here fs n i"
  shows "\<exists>fs'. chickadeefs_read_file_data fs path sz off = Inr (fs', file_bytes fs n off (min sz (file_size fs n - off))) \<and> refs_only fs fs'"
  by (rule read_file_data_ok[OF assms])

section \<open>Creating files\<close>

text \<open>
  C15: Opening a name that the root directory does not have, with \<open>OF_CREATE\<close> and \<open>OF_WRITE\<close>, makes an empty regular file of an unused inode with one block of its own, as long as an
  inode, a block and a directory entry are free.  The file system is well formed again, opening the name once more, with any flags, finds the new inode, and every other name keeps its meaning.
\<close>

theorem open_create_lookup:
  assumes ok: "root_ok fs d" and path: "length path < 64" "0 \<notin> set path" and none: "dir_find path (dir_entries fs 1 d) = 0" and flags: "flags AND OF_CREATE \<noteq> 0" "flags AND OF_WRITE \<noteq> 0"
    and free: "fs_free fs \<noteq> {}" and m: "2 \<le> m" "int m < sb_ninodes (fs_sb fs)" "ino_type (fs_inode fs m) = 0"
    and slot: "dir_pos fs 1 d bs js" "dirent_inum (fs_block fs (file_bn fs 1 bs)) js = 0"
  shows "\<exists>fs' ino. open_inode fs path flags = Inr (fs', Some ino) \<and> root_ok fs' d \<and> created fs fs' d path ino \<and> unat (file_bn fs' ino 0) \<in> fs_free fs
    \<and> (\<forall>flags'. \<exists>fs''. open_inode fs' path flags' = Inr (fs'', Some ino) \<and> refs_only fs' fs'')"
proof -
  obtain fs' ino where c: "open_inode fs path flags = Inr (fs', Some ino)" "root_ok fs' d" "created fs fs' d path ino" "fs_sb fs' = fs_sb fs"
    by (rule open_creates[OF ok path none flags m slot])
  have v: "dir_find path (dir_entries fs' 1 d) = word_of_nat ino" using c(3) by (simp add: created_def)
  have i: "2 \<le> ino" "int ino < sb_ninodes (fs_sb fs)" "unat (file_bn fs' ino 0) \<in> fs_free fs" using c(3) free by (simp_all add: created_def)
  have sb: "fs_sb fs' = fs_sb fs" by (rule c(4))
  have "sint (word_of_nat ino :: u32) = int ino" using i(2) root_okD(5)[OF ok] by (simp add: signed_of_nat signed_take_bit_int_eq_self)
  then have "\<exists>fs''. open_inode fs' path flags' = Inr (fs'', Some ino) \<and> refs_only fs' fs''" for flags'
    using open_found[OF c(2) path(2) v, of flags'] i sb by simp
  then show ?thesis using c(1-3) i(3) by blast
qed

section \<open>When something is missing\<close>

lemma open_create_no_inode:
  assumes ok: "root_ok fs d" and full: "\<forall>m. 2 \<le> m \<longrightarrow> int m < sb_ninodes (fs_sb fs) \<longrightarrow> ino_type (fs_inode fs m) \<noteq> 0"
  shows "open_create fs path = Inl Assert_Fail"
proof -
  note R = root_okD[OF ok]
  obtain r where r: "empty_inode_loop fs 0 (nat (sb_ninodes (fs_sb fs))) = Inr r" "r \<noteq> 0 \<longrightarrow> 2 \<le> r \<and> r < nat (sb_ninodes (fs_sb fs)) \<and> ino_type (fs_inode fs r) = 0"
    using empty_inode_loop_spec[OF R(6), of 0 "nat (sb_ninodes (fs_sb fs))"] by (elim exE conjE)
  have "r = 0" using r(2) full by (metis zless_nat_eq_int_zless)
  then have "find_empty_inode fs = Inr 0" using r(1) R(6) by (simp add: find_empty_inode_def disk_entry_def)
  moreover have "get_inode fs (int 0) = Inr (fs, None)" using get_inode_room[OF R(6), of "int 0"] by simp
  ultimately show ?thesis by (simp add: open_create_def)
qed

lemma open_create_no_slot:
  assumes ok: "root_ok fs d" and m: "2 \<le> m" "int m < sb_ninodes (fs_sb fs)" "ino_type (fs_inode fs m) = 0"
    and full: "\<forall>bi i. dir_pos fs 1 d bi i \<longrightarrow> dirent_inum (fs_block fs (file_bn fs 1 bi)) i \<noteq> 0"
  shows "open_create fs path = Inl Null_Deref"
proof -
  obtain ino b fs6 where n: "chk_wf fs6 1" "like fs fs6"
    "\<forall>path. open_create fs path = rbind (find_empty_direntry fs6 1) (\<lambda>d. case d of None \<Rightarrow> Inl Null_Deref
       | Some (e, i) \<Rightarrow> rbind (unlock_write (set_block fs6 e (set_dirent (fs_block fs6 e) i path (word_of_nat ino))) 1) (\<lambda>fs7. Inr (put_inode fs7 ino, ino)))"
    by (rule open_create_prefix[OF ok m])
  obtain r where r: "find_empty_direntry fs6 1 = Inr r" "r = None \<longleftrightarrow> (\<forall>bi i. dir_pos fs 1 d bi i \<longrightarrow> dirent_inum (fs_block fs (file_bn fs 1 bi)) i \<noteq> 0)"
    by (rule find_empty_direntry_like[OF ok n(2,1)])
  have "r = None" using r(2) full by blast
  then show ?thesis using n(3) r(1) by simp
qed

text \<open>
  C40: What opening a new name does when something it needs is missing.  Without an unused inode the assertion after \<open>get_inode\<close> fails; with an unused inode and no unused entry in
  the root directory, the null pointer that \<open>find_empty_direntry\<close> returns is dereferenced; and when no block is free the open succeeds and the error number of the allocator is stored as the number of the
  first block of the new file.
\<close>

theorem open_create_full:
  assumes ok: "root_ok fs d" and path: "length path < 64" "0 \<notin> set path" and none: "dir_find path (dir_entries fs 1 d) = 0" and flags: "flags AND OF_CREATE \<noteq> 0" "flags AND OF_WRITE \<noteq> 0"
  shows "((\<forall>m. 2 \<le> m \<longrightarrow> int m < sb_ninodes (fs_sb fs) \<longrightarrow> ino_type (fs_inode fs m) \<noteq> 0) \<longrightarrow> open_inode fs path flags = Inl Assert_Fail)
    \<and> ((\<exists>m. 2 \<le> m \<and> int m < sb_ninodes (fs_sb fs) \<and> ino_type (fs_inode fs m) = 0) \<longrightarrow>
        (\<forall>bi i. dir_pos fs 1 d bi i \<longrightarrow> dirent_inum (fs_block fs (file_bn fs 1 bi)) i \<noteq> 0) \<longrightarrow> open_inode fs path flags = Inl Null_Deref)
    \<and> ((\<exists>m. 2 \<le> m \<and> int m < sb_ninodes (fs_sb fs) \<and> ino_type (fs_inode fs m) = 0) \<longrightarrow>
        (\<exists>bi i. dir_pos fs 1 d bi i \<and> dirent_inum (fs_block fs (file_bn fs 1 bi)) i = 0) \<longrightarrow> fs_free fs = {} \<longrightarrow>
        (\<exists>fs' ino. open_inode fs path flags = Inr (fs', Some ino) \<and> file_bn fs' ino 0 = word_of_int E_NOSPC))"
proof (intro conjI impI)
  note R = root_okD[OF ok]
  obtain fs4 where f: "refs_only fs fs4"
    "open_inode fs path flags = (if flags AND OF_CREATE \<noteq> 0 \<and> flags AND OF_WRITE \<noteq> 0 then rbind (open_create fs4 path) (\<lambda>(fs5, ino). Inr (put_inode fs5 1, Some ino)) else Inr (put_inode fs4 1, None))"
    by (rule open_missing[OF ok path(2) none])
  note S = refs_onlyD[OF f(1)] and T = refs_only_root[OF ok f(1)]
  note D = like_dir[OF R(1) S(1) R(2)]
  show "open_inode fs path flags = Inl Assert_Fail" if a: "\<forall>m. 2 \<le> m \<longrightarrow> int m < sb_ninodes (fs_sb fs) \<longrightarrow> ino_type (fs_inode fs m) \<noteq> 0"
    using open_create_no_inode[OF T(1), of path] a S(3,7) f(2) flags by simp
  show "open_inode fs path flags = Inl Null_Deref" if a: "\<exists>m. 2 \<le> m \<and> int m < sb_ninodes (fs_sb fs) \<and> ino_type (fs_inode fs m) = 0"
    and b: "\<forall>bi i. dir_pos fs 1 d bi i \<longrightarrow> dirent_inum (fs_block fs (file_bn fs 1 bi)) i \<noteq> 0"
  proof -
    obtain m where m: "2 \<le> m" "int m < sb_ninodes (fs_sb fs)" "ino_type (fs_inode fs m) = 0" using a by (elim exE conjE)
    have full: "\<forall>bi i. dir_pos fs4 1 d bi i \<longrightarrow> dirent_inum (fs_block fs4 (file_bn fs4 1 bi)) i \<noteq> 0"
    proof (intro allI impI)
      fix bi i assume p: "dir_pos fs4 1 d bi i"
      then have "fs_block fs4 (file_bn fs4 1 bi) = fs_block fs (file_bn fs 1 bi)" using D(4)[of bi] by (simp add: dir_pos_def)
      then show "dirent_inum (fs_block fs4 (file_bn fs4 1 bi)) i \<noteq> 0" using b p unfolding D(3) by simp
    qed
    have "open_create fs4 path = Inl Null_Deref" by (rule open_create_no_slot[OF T(1) m(1) _ _ full]) (use m S(3,7) in simp_all)
    then show ?thesis using f(2) flags by simp
  qed
  show "\<exists>fs' ino. open_inode fs path flags = Inr (fs', Some ino) \<and> file_bn fs' ino 0 = word_of_int E_NOSPC" if a: "\<exists>m. 2 \<le> m \<and> int m < sb_ninodes (fs_sb fs) \<and> ino_type (fs_inode fs m) = 0"
    and b: "\<exists>bi i. dir_pos fs 1 d bi i \<and> dirent_inum (fs_block fs (file_bn fs 1 bi)) i = 0" and c: "fs_free fs = {}"
  proof -
    obtain m where m: "2 \<le> m" "int m < sb_ninodes (fs_sb fs)" "ino_type (fs_inode fs m) = 0" using a by (elim exE conjE)
    obtain bs js where slot: "dir_pos fs 1 d bs js" "dirent_inum (fs_block fs (file_bn fs 1 bs)) js = 0" using b by (elim exE conjE)
    obtain fs' ino where o: "open_inode fs path flags = Inr (fs', Some ino)" "created fs fs' d path ino"
      by (rule open_creates[OF ok path none flags m slot])
    then show ?thesis using c by (auto simp: created_def)
  qed
qed

section \<open>A root directory\<close>

text \<open>The root directory is one empty block, block 4; every other inode is a file of ten bytes in block 5 or, for type 0, unused.\<close>

definition root_fs :: "u32 \<Rightarrow> chkfs" where
  "root_fs t = demo_fs\<lparr>fs_inode := (\<lambda>_. demo_ino\<lparr>ino_type := t, ino_direct := [5, 0, 0, 0, 0, 0, 0, 0, 0]\<rparr>)(1 := demo_ino\<lparr>ino_type := 2, ino_size := 4096\<rparr>)\<rparr>"

lemma root_fs_like: "fs_sb (root_fs t) = fs_sb demo_fs" "fs_block (root_fs t) = fs_block demo_fs" "fs_room (root_fs t) = fs_room demo_fs" "fs_free (root_fs t) = fs_free demo_fs"
  by (simp_all add: root_fs_def fs_free_def)

lemma root_fs_bn: "bi < maxblocks \<Longrightarrow> file_bn (root_fs t) 1 bi = (if bi = 0 then 4 else 0)" "file_bn (root_fs t) 5 0 = 5"
proof -
  have "file_bn (root_fs t) 1 bi = file_bn demo_fs 1 bi"
    by (rule file_same(3)) (simp_all add: root_fs_def, simp_all add: demo_fs_def)
  then show "bi < maxblocks \<Longrightarrow> file_bn (root_fs t) 1 bi = (if bi = 0 then 4 else 0)" using demo_bn(1)[of bi 1] by simp
  show "file_bn (root_fs t) 5 0 = 5" by (simp add: file_bn_def root_fs_def)
qed

lemma root_fs_wf: "chk_wf (root_fs t) 1"
  by (rule wf_same_places(1)[OF demo_wf[of 1]])
     (use root_fs_like[of t] demo_blocks in \<open>simp_all add: same_fs_def same_ptrs_def fs_blocks_ok_def\<close>, simp_all add: root_fs_def, simp_all add: demo_fs_def)

lemma root_fs_block: "fs_block (root_fs t) 4 = replicate blocksize 0"
  unfolding root_fs_like by (simp add: demo_fs_def)

lemma ptr_at_zero: "4 * i + 3 < n \<Longrightarrow> ptr_at (replicate n 0) i = 0"
  by (simp add: ptr_at_def)

lemma root_fs_pos: "dir_pos (root_fs t) 1 1 bi i \<longleftrightarrow> bi = 0 \<and> i < 32"
  by (auto simp: dir_pos_def dir_bsz_def nents_def root_fs_def)

lemma root_fs_empty: "i < 32 \<Longrightarrow> dirent_inum (fs_block (root_fs t) (file_bn (root_fs t) 1 0)) i = 0"
proof -
  have b: "file_bn (root_fs t) 1 0 = 4" using root_fs_bn(1)[of 0 t] by simp
  show "i < 32 \<Longrightarrow> dirent_inum (fs_block (root_fs t) (file_bn (root_fs t) 1 0)) i = 0"
    unfolding b root_fs_block dirent_inum_def by (simp add: ptr_at_zero)
qed

lemma root_fs_ok: "root_ok (root_fs t) 1"
proof -
  have "dirblock_ok (replicate blocksize 0)" unfolding dirblock_ok_def by (intro conjI allI impI exI[of _ 0]) (simp_all)
  then have "dir_ok (root_fs t) 1 1" using root_fs_bn(1)[of 0 t] root_fs_bn(1)[of 1 t] by (simp add: dir_ok_def root_fs_block)
  moreover have "\<forall>k < Suc maxnamelen. fs_block (root_fs t) (file_bn (root_fs t) 1 bi) ! (i * direntsize + 4 + k) = 0" if "dir_pos (root_fs t) 1 1 bi i" for bi i
    using that root_fs_bn(1)[of 0 t] unfolding root_fs_pos by (simp add: root_fs_block)
  moreover have "ino_mlock (fs_inode (root_fs t) m) = 0 \<and> length (ino_direct (fs_inode (root_fs t) m)) = ndirect" for m by (simp add: root_fs_def demo_ino_def)
  moreover have "1 < sb_ninodes (fs_sb (root_fs t))" "sb_ninodes (fs_sb (root_fs t)) < 2 ^ 31" unfolding root_fs_like by (simp_all add: demo_fs_def)
  ultimately show ?thesis using root_fs_wf unfolding root_ok_def by blast
qed

lemma root_fs_find: "dir_find path (dir_entries (root_fs t) 1 1) = 0"
  unfolding dir_find_0
proof
  fix e assume "e \<in> set (dir_entries (root_fs t) 1 1)"
  then obtain bi i where p: "dir_pos (root_fs t) 1 1 bi i" "e = dirent (fs_block (root_fs t) (file_bn (root_fs t) 1 bi)) i" unfolding dir_entries_mem by blast
  then show "\<not> named path e" using root_fs_empty[of i t] unfolding root_fs_pos by (simp add: named_def dirent_def)
qed

text \<open>The same directory with the entry \<open>a\<close> for inode 5 in its first slot.\<close>

definition named_fs :: chkfs where
  "named_fs = set_block (root_fs 1) (file_bn (root_fs 1) 1 0) (set_dirent (fs_block (root_fs 1) (file_bn (root_fs 1) 1 0)) 0 [97] 5)"

lemma named_fs_ok: "root_ok named_fs 1" "dir_find [97] (dir_entries named_fs 1 1) = 5"
proof -
  note R = root_okD[OF root_fs_ok[of 1]]
  have pos: "dir_pos (root_fs 1) 1 1 0 0" unfolding root_fs_pos by simp
  have free: "dirent_inum (fs_block (root_fs 1) (file_bn (root_fs 1) 1 0)) 0 = 0" using root_fs_empty[of 0] by simp
  have z: "\<forall>bj j. dir_pos (root_fs 1) 1 1 bj j \<longrightarrow> dirent_inum (fs_block (root_fs 1) (file_bn (root_fs 1) 1 bj)) j = 0 \<longrightarrow>
      (\<forall>k < Suc maxnamelen. fs_block (root_fs 1) (file_bn (root_fs 1) 1 bj) ! (j * direntsize + 4 + k) = 0)" using R(7) by blast
  have path: "length [97 :: u8] \<le> maxnamelen" "0 \<notin> set [97 :: u8]" and v: "(5 :: u32) \<noteq> 0" by simp_all
  note A = dir_add[OF R(1,2) pos free R(7)[OF pos free] path v, folded named_fs_def] and Z = dir_add_zero[OF R(1,2) pos free z path v, folded named_fs_def]
  show "dir_find [97] (dir_entries named_fs 1 1) = 5" using A(6)[OF root_fs_find, of "[97]"] by simp
  have i: "fs_inode named_fs = fs_inode (root_fs 1)" "fs_sb named_fs = fs_sb (root_fs 1)" by (simp_all add: named_fs_def)
  have zero: "fs_block named_fs (file_bn named_fs 1 bj) ! (j * direntsize + 4 + k) = 0" if "dir_pos named_fs 1 1 bj j" "dirent_inum (fs_block named_fs (file_bn named_fs 1 bj)) j = 0" "k < Suc maxnamelen" for bj j k
    using Z[OF that(1)[unfolded A(4)] that(2,3)] .
  show "root_ok named_fs 1" unfolding root_ok_def i using A(1,2) R(3,4,5,8) zero by blast
qed

theorem read_file_data_correct_witness:
  "root_ok named_fs 1 \<and> (\<exists>fs'. chickadeefs_read_file_data named_fs [97] 100 4 = Inr (fs', file_bytes named_fs 5 4 6) \<and> refs_only named_fs fs')"
proof -
  have i: "fs_inode named_fs = fs_inode (root_fs 1)" by (simp add: named_fs_def)
  have s: "file_size named_fs 5 = 10" unfolding i by (simp add: root_fs_def demo_ino_def)
  have l: "ino_mlock (fs_inode named_fs 5) = 0" unfolding i by (simp add: root_fs_def demo_ino_def)
  have n: "sb_ninodes (fs_sb named_fs) = 128" unfolding named_fs_def by (simp add: root_fs_like) (simp add: demo_fs_def)
  have bn: "file_bn named_fs 5 0 = 5" unfolding file_bn_def i using root_fs_bn(2)[of 1, unfolded file_bn_def] by simp
  have b: "block_here named_fs 5 i" if "i < 10" for i using that bn chk_wfD(2)[OF root_okD(1)[OF named_fs_ok(1)]] by (simp add: block_here_def nonnull_def disk_entry_def)
  have five: "sint (5 :: u32) = 5" "5 = nat (sint (5 :: u32))" by simp_all
  show ?thesis
    using read_file_data_correct[OF named_fs_ok(1) _ named_fs_ok(2) _ _ five(2) l, of 4 100] named_fs_ok(1) s n b five(1) by simp
qed

theorem open_create_lookup_witness:
  "root_ok (root_fs 0) 1 \<and> (\<exists>fs' ino. open_inode (root_fs 0) [97] (OF_CREATE OR OF_WRITE) = Inr (fs', Some ino) \<and> root_ok fs' 1 \<and> created (root_fs 0) fs' 1 [97] ino
    \<and> unat (file_bn fs' ino 0) \<in> fs_free (root_fs 0) \<and> (\<forall>flags'. \<exists>fs''. open_inode fs' [97] flags' = Inr (fs'', Some ino) \<and> refs_only fs' fs''))"
proof -
  have f: "(OF_CREATE OR OF_WRITE) AND OF_CREATE \<noteq> 0" "(OF_CREATE OR OF_WRITE) AND OF_WRITE \<noteq> 0" by simp_all
  have free: "fs_free (root_fs 0) \<noteq> {}" using demo_free_set by (simp add: root_fs_like)
  have m: "int 5 < sb_ninodes (fs_sb (root_fs 0))" "ino_type (fs_inode (root_fs 0) 5) = 0" by (simp add: root_fs_like, simp add: demo_fs_def) (simp add: root_fs_def)
  have slot: "dir_pos (root_fs 0) 1 1 0 0" unfolding root_fs_pos by simp
  show ?thesis
    using open_create_lookup[OF root_fs_ok _ _ root_fs_find f free _ m slot root_fs_empty, of "[97]"] root_fs_ok[of 0] by simp
qed

theorem open_create_full_witness:
  "root_ok (root_fs 1) 1 \<and> open_inode (root_fs 1) [97] (OF_CREATE OR OF_WRITE) = Inl Assert_Fail"
proof -
  have f: "(OF_CREATE OR OF_WRITE) AND OF_CREATE \<noteq> 0" "(OF_CREATE OR OF_WRITE) AND OF_WRITE \<noteq> 0" by simp_all
  have "ino_type (fs_inode (root_fs 1) m) \<noteq> 0" for m by (simp add: root_fs_def)
  then show ?thesis using open_create_full[OF root_fs_ok _ _ root_fs_find f, of "[97]"] root_fs_ok[of 1] by simp
qed

end
