(* ===== verification/Loader_Correct.thy ===== *)
theory Loader_Correct
  imports Loader_Segment Chkfs_Dir_Correct
begin

text \<open>
  Loading a program: the header, all its segments, and the two sources, the initial file system and the disk, as interpretations of \<open>program_file\<close>.
\<close>

section \<open>Programs\<close>

text \<open>The loadable segments of a program, and when two of them share no page.\<close>

definition elf_segments :: "u8 list \<Rightarrow> nat \<Rightarrow> nat \<Rightarrow> nat \<Rightarrow> elf_program list" where
  "elf_segments b phoff i n = filter (\<lambda>ph. p_type ph = ELF_PTYPE_LOAD) (map (\<lambda>k. parse_program b (phoff + k * sizeof_elf_program)) [i..<n])"

definition seg_apart :: "elf_program \<Rightarrow> elf_program \<Rightarrow> bool" where
  "seg_apart ph q \<longleftrightarrow> seg_hi ph \<le> seg_lo q \<or> seg_hi q \<le> seg_lo ph"

definition elf_ok :: "u8 list \<Rightarrow> bool" where
  "elf_ok b \<longleftrightarrow> sizeof_elf_header \<le> length b \<and> \<not> elf_bad (parse_header b) (length b)"

definition program_segments :: "u8 list \<Rightarrow> elf_program list" where
  "program_segments b = elf_segments b (unat (e_phoff (parse_header b))) 0 (unat (e_phnum (parse_header b)))"

lemma seg_loaded_kept:
  assumes l: "seg_loaded data s pt ph" and good: "\<not> seg_bad ph" and u: "seg_untouched s s' pt q" and d: "seg_apart ph q"
  shows "seg_loaded data s' pt ph"
  unfolding seg_loaded_def
proof (intro allI impI)
  fix a assume a: "low a" "unat (p_va ph) \<le> unat a" "unat a < unat (p_va ph) + unat (p_memsz ph)"
  have "seg_lo ph \<le> page a" "page a < seg_hi ph" using page_mono[OF a(2)] page_less_end[of a "p_va ph + p_memsz ph"] a(3) seg_good(1)[OF good] by (simp_all add: word_less_nat_alt)
  then have "page a < seg_lo q \<or> seg_hi q \<le> page a" using d by (auto simp: seg_apart_def)
  then have "vm_lookup (pm_pt s') pt a = vm_lookup (pm_pt s) pt a" "vbyte s' pt a = vbyte s pt a" using u a(1) unfolding seg_untouched_def by blast+
  then show "vbyte s' pt a = Some (if unat a - unat (p_va ph) < unat (p_filesz ph) then data ! (unat (p_offset ph) + (unat a - unat (p_va ph))) else 0)
      \<and> (\<exists>pa p. vm_lookup (pm_pt s') pt a = Some (pa, p) \<and> p AND 7 = 7)" using l a unfolding seg_loaded_def by simp
qed

primrec load_list :: "'s get_page \<Rightarrow> 's \<Rightarrow> procmem \<Rightarrow> u64 \<Rightarrow> elf_program list \<Rightarrow> ('s \<times> procmem \<times> int) res" where
  "load_list get_page ld s pt [] = Inr (ld, s, 0)"
| "load_list get_page ld s pt (ph # phs) = rbind (load_segment get_page ld s pt ph) (\<lambda>(ld1, s1, r). if r < 0 then Inr (ld1, s1, r) else load_list get_page ld1 s1 pt phs)"

lemma load_segments_list:
  assumes "phoff + n * sizeof_elf_program \<le> length b"
  shows "load_segments get_page ld s pt b phoff i n = load_list get_page ld s pt (elf_segments b phoff i n)"
proof (induction "n - i" arbitrary: i ld s)
  case 0
  then show ?case by (subst load_segments.simps) (simp add: elf_segments_def)
next
  case (Suc m)
  then have i: "i < n" "m = n - (i + 1)" by simp_all
  have "i * sizeof_elf_program + sizeof_elf_program \<le> n * sizeof_elf_program" using i(1) by simp
  then have "\<not> length b < phoff + i * sizeof_elf_program + sizeof_elf_program" using assms by linarith
  then have rp: "read_program b (phoff + i * sizeof_elf_program) = Inr (parse_program b (phoff + i * sizeof_elf_program))" by (simp add: read_program_def)
  have sg: "elf_segments b phoff i n = (if p_type (parse_program b (phoff + i * sizeof_elf_program)) = ELF_PTYPE_LOAD then [parse_program b (phoff + i * sizeof_elf_program)] else []) @ elf_segments b phoff (i + 1) n"
    using i(1) by (simp add: elf_segments_def upt_conv_Cons)
  show ?case unfolding sg by (subst load_segments.simps) (use i rp Suc.hyps(1)[OF i(2)] in \<open>simp cong: if_cong\<close>)
qed

context program_file begin

lemma load_list_ok:
  assumes "aspace (pm_pt s) pt" "kallocs_ok (pm_pt s) pt (pm_kalloc s)" "inv ld" "\<forall>ph \<in> set phs. unat (p_offset ph) + unat (p_filesz ph) \<le> limit"
  shows "\<exists>ld' s' r. load_list get_page ld s pt phs = Inr (ld', s', r) \<and> inv ld' \<and> aspace (pm_pt s') pt \<and> kallocs_ok (pm_pt s') pt (pm_kalloc s') \<and> r \<in> {0, E_NOMEM, E_NOEXEC}
    \<and> (r = 0 \<longrightarrow> (\<forall>pre ph post. phs = pre @ ph # post \<longrightarrow> (\<forall>q \<in> set post. seg_apart ph q) \<longrightarrow> seg_loaded data s' pt ph))
    \<and> (\<forall>ph. \<not> seg_bad ph \<longrightarrow> seg_loaded data s pt ph \<longrightarrow> (\<forall>q \<in> set phs. seg_apart ph q) \<longrightarrow> seg_loaded data s' pt ph)
    \<and> ((\<forall>ph \<in> set phs. \<not> seg_bad ph \<and> (p_filesz ph = 0 \<or> unat (p_offset ph) + unat (p_filesz ph) \<le> length data)) \<longrightarrow> kenough (\<Sum>ph \<leftarrow> phs. seg_hi ph - seg_lo ph) (pm_kalloc s) \<longrightarrow> r = 0)"
  using assms
proof (induction phs arbitrary: ld s)
  case Nil
  then show ?case by simp
next
  case (Cons ph phs)
  have lim: "unat (p_offset ph) + unat (p_filesz ph) \<le> limit" using Cons.prems(4) by simp
  obtain ld1 s1 r1 where a: "load_segment get_page ld s pt ph = Inr (ld1, s1, r1)" "inv ld1" "aspace (pm_pt s1) pt" "kallocs_ok (pm_pt s1) pt (pm_kalloc s1)" "r1 \<in> {0, E_NOMEM, E_NOEXEC}"
    "seg_untouched s s1 pt ph" "r1 = 0 \<longrightarrow> seg_loaded data s1 pt ph" "seg_bad ph \<longrightarrow> r1 = E_NOEXEC"
    "\<not> seg_bad ph \<longrightarrow> kenough (seg_hi ph - seg_lo ph) (pm_kalloc s) \<longrightarrow>
        r1 = (if p_filesz ph = 0 \<or> unat (p_offset ph) + unat (p_filesz ph) \<le> length data then 0 else E_NOEXEC) \<and> pm_kalloc s1 = drop (seg_hi ph - seg_lo ph) (pm_kalloc s)"
    using load_segment_ok[OF Cons.prems(1-3) lim] by (elim exE conjE) (rule that, assumption+)
  have keep: "seg_loaded data s1 pt p" if "\<not> seg_bad p" "seg_loaded data s pt p" "seg_apart p ph" for p by (rule seg_loaded_kept[OF that(2,1) a(6) that(3)])
  have en: "kenough (seg_hi ph - seg_lo ph) (pm_kalloc s) \<and> kenough (\<Sum>ph \<leftarrow> phs. seg_hi ph - seg_lo ph) (drop (seg_hi ph - seg_lo ph) (pm_kalloc s))"
    if "kenough (\<Sum>ph \<leftarrow> ph # phs. seg_hi ph - seg_lo ph) (pm_kalloc s)"
    using that unfolding kenough_def by (auto simp: take_add)
  show ?case
  proof (cases "r1 = 0")
    case False
    then have "load_list get_page ld s pt (ph # phs) = Inr (ld1, s1, r1)" using a(1,5) by auto
    then show ?thesis using a(2-5) keep a(9) en False by (intro exI[of _ ld1] exI[of _ s1] exI[of _ r1]) auto
  next
    case True
    then have good: "\<not> seg_bad ph" using a(8) by auto
    obtain ld2 s2 r2 where b: "load_list get_page ld1 s1 pt phs = Inr (ld2, s2, r2)" "inv ld2" "aspace (pm_pt s2) pt" "kallocs_ok (pm_pt s2) pt (pm_kalloc s2)" "r2 \<in> {0, E_NOMEM, E_NOEXEC}"
      "r2 = 0 \<longrightarrow> (\<forall>pre ph post. phs = pre @ ph # post \<longrightarrow> (\<forall>q \<in> set post. seg_apart ph q) \<longrightarrow> seg_loaded data s2 pt ph)"
      "\<forall>ph. \<not> seg_bad ph \<longrightarrow> seg_loaded data s1 pt ph \<longrightarrow> (\<forall>q \<in> set phs. seg_apart ph q) \<longrightarrow> seg_loaded data s2 pt ph"
      "(\<forall>ph \<in> set phs. \<not> seg_bad ph \<and> (p_filesz ph = 0 \<or> unat (p_offset ph) + unat (p_filesz ph) \<le> length data)) \<longrightarrow> kenough (\<Sum>ph \<leftarrow> phs. seg_hi ph - seg_lo ph) (pm_kalloc s1) \<longrightarrow> r2 = 0"
    proof -
      have lims: "\<forall>ph \<in> set phs. unat (p_offset ph) + unat (p_filesz ph) \<le> limit" using Cons.prems(4) by simp
      show ?thesis using Cons.IH[OF a(3,4,2) lims] by (elim exE conjE) (rule that, assumption+)
    qed
    have h1: "seg_loaded data s2 pt p" if "r2 = 0" "ph # phs = pre @ p # post" "\<forall>q \<in> set post. seg_apart p q" for pre p post
    proof (cases pre)
      case Nil
      then show ?thesis using b(7) good a(7) True that by auto
    next
      case (Cons x xs)
      then show ?thesis using b(6) that by auto
    qed
    have run: "load_list get_page ld s pt (ph # phs) = Inr (ld2, s2, r2)" using a(1) True b(1) by simp
    have h2: "seg_loaded data s2 pt p" if "\<not> seg_bad p" "seg_loaded data s pt p" "\<forall>q \<in> set (ph # phs). seg_apart p q" for p using b(7) keep[OF that(1,2)] that by simp
    have h3: "r2 = 0" if "\<forall>p \<in> set (ph # phs). \<not> seg_bad p \<and> (p_filesz p = 0 \<or> unat (p_offset p) + unat (p_filesz p) \<le> length data)" "kenough (\<Sum>ph \<leftarrow> ph # phs. seg_hi ph - seg_lo ph) (pm_kalloc s)"
      using b(8) a(9) good en[OF that(2)] that(1) by simp
    show ?thesis
      by (intro exI[of _ ld2] exI[of _ s2] exI[of _ r2] conjI allI impI; (fact run | fact b(2) | fact b(3) | fact b(4) | fact b(5) | erule h1 | erule h2 | erule h3); assumption)
  qed
qed

end

lemma le_nat_prefix: "pos + n \<le> k \<Longrightarrow> k \<le> length b \<Longrightarrow> le_nat (take k b) pos n = le_nat b pos n"
  by (induction n arbitrary: pos) auto

lemma parse_header_prefix: "sizeof_elf_header \<le> k \<Longrightarrow> k \<le> length b \<Longrightarrow> parse_header (take k b) = parse_header b"
  by (simp add: parse_header_def le_nat_prefix)

lemma parse_program_prefix: "pos + sizeof_elf_program \<le> k \<Longrightarrow> k \<le> length b \<Longrightarrow> parse_program (take k b) pos = parse_program b pos"
  by (simp add: parse_program_def le_nat_prefix)

text \<open>The first page of a file decides whether its header is good.\<close>

lemma elf_bad_prefix:
  assumes "min 4096 n \<le> k" "k \<le> n"
  shows "elf_bad eh k = elf_bad eh n"
proof (cases "n < 4096")
  case True
  then show ?thesis using assms by simp
next
  case False
  then have k: "4096 \<le> k" "4096 \<le> n" using assms by simp_all
  have "elf_bad eh j \<longleftrightarrow> elf_bad eh 4096" if "4096 \<le> j" for j
  proof -
    have "(4096 - unat (e_phoff eh)) div sizeof_elf_program \<le> (j - unat (e_phoff eh)) div sizeof_elf_program" using that by (intro div_le_mono diff_le_mono)
    then have n: "unat (e_phnum eh) > (j - unat (e_phoff eh)) div sizeof_elf_program \<Longrightarrow> unat (e_phnum eh) > (4096 - unat (e_phoff eh)) div sizeof_elf_program" by linarith
    have o: "unat (e_phoff eh) > j \<Longrightarrow> unat (e_phoff eh) > 4096" using that by simp
    have p: "unat pagesize = 4096" by simp
    show ?thesis unfolding elf_bad_def p using n o by blast
  qed
  then show ?thesis using k by blast
qed

lemma elf_good:
  assumes "\<not> elf_bad eh len"
  shows "unat (e_phoff eh) + unat (e_phnum eh) * sizeof_elf_program \<le> len" "unat (e_phoff eh) + unat (e_phnum eh) * sizeof_elf_program \<le> 4096"
proof -
  have h: "unat (e_phoff eh) \<le> len" "unat (e_phoff eh) \<le> 4096" "unat (e_phnum eh) \<le> (4096 - unat (e_phoff eh)) div sizeof_elf_program" "unat (e_phnum eh) \<le> (len - unat (e_phoff eh)) div sizeof_elf_program"
    using assms by (auto simp: elf_bad_def not_less)
  from h(3,4) have "unat (e_phnum eh) * sizeof_elf_program \<le> 4096 - unat (e_phoff eh)" "unat (e_phnum eh) * sizeof_elf_program \<le> len - unat (e_phoff eh)"
    by (simp_all only: less_eq_div_iff_mult_less_eq zero_less_numeral)
  then show "unat (e_phoff eh) + unat (e_phnum eh) * sizeof_elf_program \<le> len" "unat (e_phoff eh) + unat (e_phnum eh) * sizeof_elf_program \<le> 4096" using h(1,2) by linarith+
qed

lemma elf_segments_prefix:
  assumes "phoff + n * sizeof_elf_program \<le> k" "k \<le> length b"
  shows "elf_segments (take k b) phoff 0 n = elf_segments b phoff 0 n"
proof -
  have "parse_program (take k b) (phoff + i * sizeof_elf_program) = parse_program b (phoff + i * sizeof_elf_program)" if "i < n" for i
  proof (rule parse_program_prefix[OF _ assms(2)])
    have "i * sizeof_elf_program + sizeof_elf_program \<le> n * sizeof_elf_program" using that by simp
    then show "phoff + i * sizeof_elf_program + sizeof_elf_program \<le> k" using assms(1) by linarith
  qed
  then show ?thesis unfolding elf_segments_def by (intro arg_cong[where f = "filter _"] map_cong) auto
qed

definition program_loaded :: "u8 list \<Rightarrow> procmem \<Rightarrow> u64 \<Rightarrow> bool" where
  "program_loaded data s pt \<longleftrightarrow> (\<forall>pre ph post. program_segments data = pre @ ph # post \<longrightarrow> (\<forall>q \<in> set post. seg_apart ph q) \<longrightarrow> seg_loaded data s pt ph)"

text \<open>Every segment is inside the address space and the file, and there are pages for all of them.\<close>

definition program_fits :: "u8 list \<Rightarrow> (u64 option \<times> u64 option list) list \<Rightarrow> bool" where
  "program_fits data ks \<longleftrightarrow> elf_ok data \<and> (\<forall>ph \<in> set (program_segments data). \<not> seg_bad ph \<and> (p_filesz ph = 0 \<or> unat (p_offset ph) + unat (p_filesz ph) \<le> length data))
     \<and> kenough (\<Sum>ph \<leftarrow> program_segments data. seg_hi ph - seg_lo ph) ks"

definition load_result :: "u8 list \<Rightarrow> procmem \<Rightarrow> u64 \<Rightarrow> procmem \<Rightarrow> u64 option \<Rightarrow> int \<Rightarrow> bool" where
  "load_result data s pt s' entry r \<longleftrightarrow> aspace (pm_pt s') pt \<and> kallocs_ok (pm_pt s') pt (pm_kalloc s') \<and> r \<in> {0, E_NOMEM, E_NOEXEC} \<and> (\<not> elf_ok data \<longrightarrow> r = E_NOEXEC \<and> s' = s)
     \<and> (r = 0 \<longrightarrow> entry = Some (e_entry (parse_header data)) \<and> program_loaded data s' pt) \<and> (program_fits data (pm_kalloc s) \<longrightarrow> r = 0)"

context program_file begin

lemma load_ok:
  assumes sp: "aspace (pm_pt s) pt" and ks: "kallocs_ok (pm_pt s) pt (pm_kalloc s)" and ld: "inv ld" and lim: "0 < limit" "elf_ok data \<longrightarrow> (\<forall>ph \<in> set (program_segments data). unat (p_offset ph) + unat (p_filesz ph) \<le> limit)"
  shows "\<exists>ld' s' entry r. load get_page ld s pt = Inr (ld', s', entry, r) \<and> inv ld' \<and> load_result data s pt s' entry r"
proof -
  obtain ld1 pg where g: "get_page ld 0 = Inr (ld1, int (length pg), pg)" "inv ld1" "pg = take (length pg) data" "min 4096 (length data) \<le> length pg"
    using get_page[OF ld, of 0] lim(1) by auto
  have le: "length pg \<le> length data" by (metis g(3) length_take min.cobounded1 min_def nle_le)
  show ?thesis
  proof (cases "elf_ok data")
    case False
    have "load get_page ld s pt = Inr (ld1, s, None, E_NOEXEC)"
    proof (cases "length pg < sizeof_elf_header")
      case True
      then show ?thesis using g(1) by (simp add: load_def)
    next
      case big: False
      then have "read_header pg = Inr (parse_header data)" using parse_header_prefix[of "length pg" data] le g(3) by (simp add: read_header_def)
      moreover have "elf_bad (parse_header data) (length pg)" using False big le elf_bad_prefix[OF g(4) le] by (auto simp: elf_ok_def)
      ultimately show ?thesis using g(1) big by (simp add: load_def)
    qed
    then show ?thesis using False sp ks g(2) by (auto simp: load_result_def program_fits_def)
  next
    case True
    let ?eh = "parse_header data"
    have big: "sizeof_elf_header \<le> length data" and nb: "\<not> elf_bad ?eh (length data)" using True by (auto simp: elf_ok_def)
    have k: "sizeof_elf_header \<le> length pg" using big g(4) by simp
    have rh: "read_header pg = Inr ?eh" using parse_header_prefix[OF k le] k g(3) by (simp add: read_header_def)
    have nb1: "\<not> elf_bad ?eh (length pg)" using nb elf_bad_prefix[OF g(4) le] by blast
    note E = elf_good[OF nb1]
    have sg: "elf_segments pg (unat (e_phoff ?eh)) 0 (unat (e_phnum ?eh)) = program_segments data"
      using elf_segments_prefix[OF E(1) le] g(3) by (simp add: program_segments_def)
    obtain ld2 s2 r where b: "load_list get_page ld1 s pt (program_segments data) = Inr (ld2, s2, r)" "inv ld2" "aspace (pm_pt s2) pt" "kallocs_ok (pm_pt s2) pt (pm_kalloc s2)" "r \<in> {0, E_NOMEM, E_NOEXEC}"
      "r = 0 \<longrightarrow> (\<forall>pre ph post. program_segments data = pre @ ph # post \<longrightarrow> (\<forall>q \<in> set post. seg_apart ph q) \<longrightarrow> seg_loaded data s2 pt ph)"
      "(\<forall>ph \<in> set (program_segments data). \<not> seg_bad ph \<and> (p_filesz ph = 0 \<or> unat (p_offset ph) + unat (p_filesz ph) \<le> length data)) \<longrightarrow>
        kenough (\<Sum>ph \<leftarrow> program_segments data. seg_hi ph - seg_lo ph) (pm_kalloc s) \<longrightarrow> r = 0"
      using load_list_ok[OF sp ks g(2) mp[OF lim(2) True]] by (elim exE conjE) (rule that, assumption+)
    have "load get_page ld s pt = Inr (ld2, s2, Some (e_entry ?eh), r)"
      using g(1) k rh nb1 load_segments_list[OF E(1), of get_page ld1 s pt 0] sg b(1) by (simp add: load_def)
    moreover have "load_result data s pt s2 (Some (e_entry ?eh)) r" unfolding load_result_def program_loaded_def program_fits_def using True b(3-7) by blast
    ultimately show ?thesis using b(2) by blast
  qed
qed

end

section \<open>Programs of the initial file system\<close>

definition memfile_source :: "memfile \<Rightarrow> memfile option \<Rightarrow> bool" where
  "memfile_source f mf \<longleftrightarrow> mf = Some f \<and> length (mf_data f) < 2 ^ 63"

interpretation mfl: program_file memfile_get_page "memfile_source f" "mf_data f" "2 ^ 65" for f
proof
  fix ld :: "memfile option" and off :: u64
  assume l: "memfile_source f ld"
  then have s: "ld = Some f" by (simp add: memfile_source_def)
  show "length (mf_data f) < 2 ^ 63" using l by (simp add: memfile_source_def)
  show "\<exists>ld' pg. memfile_get_page ld off = Inr (ld', int (length pg), pg) \<and> memfile_source f ld' \<and> pg = take (length pg) (drop (unat off) (mf_data f))
      \<and> min 4096 (length (mf_data f) - unat off) \<le> length pg"
    by (rule exI[of _ ld], rule exI[of _ "drop (unat off) (mf_data f)"]) (use l s in \<open>simp add: memfile_get_page_def\<close>)
qed

definition is_file :: "u8 list \<Rightarrow> memfile \<Rightarrow> bool" where
  "is_file name f \<longleftrightarrow> \<not> mf_empty f \<and> cname (mf_name f) 0 = name"

definition initfs_ok :: "memfile list \<Rightarrow> bool" where
  "initfs_ok fs \<longleftrightarrow> (\<forall>f \<in> set fs. \<exists>k < length (mf_name f). mf_name f ! k = 0)"

lemma initfs_lookup_spec:
  assumes "initfs_ok fs" "0 \<notin> set name"
  shows "initfs_lookup fs name = Inr (List.find (is_file name) fs)"
  using assms
proof (induction fs)
  case (Cons f fs)
  obtain k where "k < length (mf_name f)" "mf_name f ! k = 0" using Cons.prems(1) by (auto simp: initfs_ok_def)
  then have "name_is (mf_name f) 0 name = Inr (cname (mf_name f) 0 = name)" using name_is_spec[of 0 k "mf_name f" name] Cons.prems(2) by simp
  then show ?case using Cons by (auto simp: is_file_def initfs_ok_def)
qed simp

lemma segment_limit: "unat (p_offset ph) + unat (p_filesz ph) \<le> 2 ^ 65"
  using u64_bound[of "p_offset ph"] u64_bound[of "p_filesz ph"] by simp


section \<open>Programs on the disk\<close>

text \<open>The disk loader has the file \<open>data\<close> open: its inode is unlocked, the file has all its blocks and none after its end, and there is memory for the page buffers.\<close>

definition disk_source :: "nat \<Rightarrow> nat \<Rightarrow> u8 list \<Rightarrow> disk_loader \<Rightarrow> bool" where
  "disk_source d n data dl \<longleftrightarrow> root_ok (dl_fs dl) d \<and> 0 \<notin> set (dl_name dl) \<and> dl_kalloc dl
     \<and> (let v = sint (dir_find (dl_name dl) (dir_entries (dl_fs dl) 1 d)) in 0 < v \<and> v < sb_ninodes (fs_sb (dl_fs dl)) \<and> n = nat v)
     \<and> ino_mlock (fs_inode (dl_fs dl) n) = 0 \<and> file_size (dl_fs dl) n = length data \<and> file_bytes (dl_fs dl) n 0 (length data) = data
     \<and> (\<forall>i < length data. block_here (dl_fs dl) n i) \<and> (\<forall>bi. length data < bi * blocksize \<longrightarrow> bi * blocksize < chkfs_maxsize \<longrightarrow> file_bn (dl_fs dl) n bi = 0)"

lemma disk_source_refs:
  assumes s: "disk_source d n data dl" and r: "refs_only (dl_fs dl) fs'"
  shows "disk_source d n data (dl\<lparr>dl_fs := fs'\<rparr>)"
proof -
  have ok: "root_ok (dl_fs dl) d" using s by (simp add: disk_source_def)
  note R = refs_only_root[OF ok r] and D = refs_onlyD[OF r]
  note F = file_same[OF D(2) D(4) D(8) D(9) D(10)]
  have f: "dl_fs (dl\<lparr>dl_fs := fs'\<rparr>) = fs'" "dl_name (dl\<lparr>dl_fs := fs'\<rparr>) = dl_name dl" "dl_kalloc (dl\<lparr>dl_fs := fs'\<rparr>) = dl_kalloc dl" by simp_all
  show ?thesis using s R(1) unfolding disk_source_def f R(2) D(3) D(6)[of n] D(11)[of n] F by blast
qed

lemma file_bytes_sub: "off + k \<le> m \<Longrightarrow> file_bytes fs n off k = take k (drop off (file_bytes fs n 0 m))"
  by (rule nth_equalityI) (simp_all add: file_bytes_def)

interpretation dkl: program_file disk_get_page "disk_source d n data" data chkfs_maxsize for d n data
proof
  fix ld :: disk_loader and off :: u64
  assume l: "disk_source d n data ld"
  then have sz: "file_size (dl_fs ld) n = length data" by (simp add: disk_source_def)
  then show "length data < 2 ^ 63" using u32_bound[of "ino_size (fs_inode (dl_fs ld) n)"] by simp
  assume off: "unat off mod 4096 = 0" "unat off < chkfs_maxsize"
  let ?fs = "dl_fs ld" and ?v = "dir_find (dl_name ld) (dir_entries (dl_fs ld) 1 d)"
  have S: "root_ok ?fs d" "0 \<notin> set (dl_name ld)" "dl_kalloc ld" "0 < sint ?v" "sint ?v < sb_ninodes (fs_sb ?fs)" "n = nat (sint ?v)" "ino_mlock (fs_inode ?fs n) = 0"
    "file_bytes ?fs n 0 (length data) = data" "\<forall>i < length data. block_here ?fs n i" "\<forall>bi. length data < bi * blocksize \<longrightarrow> bi * blocksize < chkfs_maxsize \<longrightarrow> file_bn ?fs n bi = 0"
    using l by (auto simp: disk_source_def Let_def)
  have run: "\<exists>ld' pg. disk_get_page ld off = Inr (ld', int (length pg), pg) \<and> disk_source d n data ld' \<and> pg = take (length pg) (drop (unat off) data) \<and> min 4096 (length data - unat off) \<le> length pg"
    if "chickadeefs_read_file_data ?fs (dl_name ld) 4096 (unat off) = Inr (fs', pg)" "refs_only ?fs fs'" "pg = take (length pg) (drop (unat off) data)" "min 4096 (length data - unat off) \<le> length pg" for fs' pg
    using that S(3) disk_source_refs[OF l that(2)] by (intro exI[of _ "ld\<lparr>dl_fs := fs'\<rparr>"] exI[of _ pg]) (simp add: disk_get_page_def)
  show "\<exists>ld' pg. disk_get_page ld off = Inr (ld', int (length pg), pg) \<and> disk_source d n data ld' \<and> pg = take (length pg) (drop (unat off) data) \<and> min 4096 (length data - unat off) \<le> length pg"
  proof (cases "unat off \<le> length data")
    case True
    let ?k = "min 4096 (length data - unat off)"
    have "\<exists>fs'. chickadeefs_read_file_data ?fs (dl_name ld) 4096 (unat off) = Inr (fs', file_bytes ?fs n (unat off) ?k) \<and> refs_only ?fs fs'"
      using read_file_data_ok[OF S(1,2) refl S(4-7), of "unat off" 4096] True sz S(9) by simp
    then obtain fs' where r: "chickadeefs_read_file_data ?fs (dl_name ld) 4096 (unat off) = Inr (fs', file_bytes ?fs n (unat off) ?k)" "refs_only ?fs fs'" by blast
    have "unat off + ?k \<le> length data" using True by simp
    then have "file_bytes ?fs n (unat off) ?k = take ?k (drop (unat off) data)" using file_bytes_sub[of "unat off" ?k "length data" ?fs n] S(8) by simp
    then show ?thesis using run[OF r] by simp
  next
    case False
    have bn: "file_bn ?fs n (unat off div blocksize) = 0" using S(10) False off by (metis not_le div_mult_mod_eq add.right_neutral)
    from read_file_data_past[OF S(1,2) refl S(4-7) off(2) bn, of 4096] obtain fs' where r: "chickadeefs_read_file_data ?fs (dl_name ld) 4096 (unat off) = Inr (fs', [])" "refs_only ?fs fs'" by blast
    then show ?thesis using run[OF r] False by simp
  qed
qed


section \<open>A program\<close>

text \<open>A program with one segment of three bytes of the file and five bytes in memory, at address 0x5000.\<close>

definition demo_elf :: "u8 list" where
  "demo_elf = [127, 69, 76, 70, 0, 0, 0, 0, 0, 0, 0, 0, 0, 0, 0, 0, 2, 0, 0, 0, 0, 0, 0, 0, 0, 80, 0, 0, 0, 0, 0, 0, 64, 0, 0, 0, 0, 0, 0, 0, 0, 0, 0, 0, 0, 0, 0, 0, 0, 0, 0, 0, 0, 0, 56, 0, 1, 0, 64, 0, 0, 0, 0, 0, 1, 0, 0, 0, 0, 0, 0, 0, 120, 0, 0, 0, 0, 0, 0, 0, 0, 80, 0, 0, 0, 0, 0, 0, 0, 0, 0, 0, 0, 0, 0, 0, 3, 0, 0, 0, 0, 0, 0, 0, 5, 0, 0, 0, 0, 0, 0, 0, 0, 0, 0, 0, 0, 0, 0, 0, 7, 8, 9]"

definition demo_pm :: procmem where
  "demo_pm = \<lparr>pm_pt = (\<lambda>_ _. 0), pm_mem = (\<lambda>_. 0xAA), pm_kalloc = [(Some 0x8000, [Some 0x2000, Some 0x3000, Some 0x4000])]\<rparr>"

lemma le_nat_add: "le_nat b pos (n + k) = le_nat b pos n + 256 ^ n * le_nat b (pos + n) k"
  by (induction n arbitrary: pos) (simp_all add: algebra_simps)

lemma le_nat_bytes:
  "le_nat b pos 2 = unat (b ! pos) + 256 * unat (b ! (pos + 1))"
  "le_nat b pos 4 = le_nat b pos 2 + 2 ^ 16 * le_nat b (pos + 2) 2"
  "le_nat b pos 8 = le_nat b pos 4 + 2 ^ 32 * le_nat b (pos + 4) 4"
proof -
  have "le_nat b pos (Suc (Suc 0)) = unat (b ! pos) + 256 * unat (b ! (pos + 1))" by simp
  then show "le_nat b pos 2 = unat (b ! pos) + 256 * unat (b ! (pos + 1))" unfolding numeral_2_eq_2 .
qed (use le_nat_add[of b pos 2 2] le_nat_add[of b pos 4 4] in simp_all)

lemma demo_elf_data: "length demo_elf = 123" "demo_elf ! 121 = 8"
  by (simp_all add: demo_elf_def)

lemma demo_header: "parse_header demo_elf = \<lparr>e_magic = ELF_MAGIC, e_type = 2, e_entry = 0x5000, e_phoff = 64, e_phentsize = 56, e_phnum = 1, e_shentsize = 64\<rparr>"
  by (simp add: parse_header_def le_nat_bytes demo_elf_def)

lemma demo_program: "parse_program demo_elf 64 = \<lparr>p_type = 1, p_offset = 120, p_va = 0x5000, p_filesz = 3, p_memsz = 5\<rparr>"
  by (simp add: parse_program_def le_nat_bytes demo_elf_def)

lemma demo_elf_ok: "elf_ok demo_elf" "e_entry (parse_header demo_elf) = 0x5000"
    "program_segments demo_elf = [\<lparr>p_type = 1, p_offset = 120, p_va = 0x5000, p_filesz = 3, p_memsz = 5\<rparr>]"
  by (simp_all add: elf_ok_def elf_bad_def demo_header demo_elf_data program_segments_def elf_segments_def demo_program upt_rec)

lemma empty_aspace: "aspace (\<lambda>_ _. 0) pt"
proof -
  have "pt_tree (\<lambda>_ _. 0) pt" by (auto simp: pt_tree_def table_at_empty same_above_def split: if_splits)
  moreover have "user_links (\<lambda>_ _. 0) pt" by (simp add: user_links_def)
  moreover have "paddr (\<lambda>_ _. 0) pt a = None" for a by (simp add: paddr_def vm_lookup_def Let_def vm_present_def vm_entry_def)
  ultimately show ?thesis by (simp add: aspace_def)
qed

lemma demo_kallocs: "kallocs_ok (pm_pt demo_pm) 0x1000 (pm_kalloc demo_pm)"
proof -
  have "paddr (\<lambda>_ _. 0) pt a = None" for pt a by (simp add: paddr_def vm_lookup_def Let_def vm_present_def vm_entry_def)
  then show ?thesis by (auto simp: demo_pm_def kallocs_ok_def kpages_def pt_fresh_def unmapped_def table_at_empty split: if_splits)
qed

lemma demo_fits: "program_fits demo_elf (pm_kalloc demo_pm)"
  using demo_elf_ok demo_elf_data by (simp add: program_fits_def seg_bad_def kenough_def demo_pm_def page_def page_end_def)


lemma named_file_bn: "0 < bi \<Longrightarrow> bi < maxblocks \<Longrightarrow> file_bn named_fs 5 bi = 0"
proof -
  assume b: "0 < bi" "bi < maxblocks"
  have r: "\<forall>b. fs_room named_fs b" by (simp add: named_fs_def root_fs_like) (simp add: demo_fs_def)
  have c: "class_bn named_fs 5 c = 0" for c unfolding room_simps(2)[OF r] by (simp add: named_fs_def root_fs_def demo_ino_def)
  show ?thesis unfolding room_simps(3)[OF r] c using b by (auto simp: named_fs_def root_fs_def nth_Cons')
qed

lemma named_source: "disk_source 1 5 (replicate 10 0) \<lparr>dl_fs = named_fs, dl_name = [97], dl_kalloc = True\<rparr>"
proof -
  have i: "fs_inode named_fs = fs_inode (root_fs 1)" by (simp add: named_fs_def)
  have s: "file_size named_fs 5 = 10" "ino_mlock (fs_inode named_fs 5) = 0" unfolding i by (simp_all add: root_fs_def demo_ino_def)
  have n: "sb_ninodes (fs_sb named_fs) = 128" unfolding named_fs_def by (simp add: root_fs_like) (simp add: demo_fs_def)
  have bn: "file_bn named_fs 5 0 = 5" unfolding file_bn_def i using root_fs_bn(2)[of 1, unfolded file_bn_def] by simp
  have b: "block_here named_fs 5 k" if "k < 10" for k using that bn chk_wfD(2)[OF root_okD(1)[OF named_fs_ok(1)]] by (simp add: block_here_def nonnull_def disk_entry_def)
  have "fs_block named_fs 5 = replicate blocksize 0"
  proof -
    have "file_bn (root_fs 1) 1 0 = 4" using root_fs_bn(1)[of 0 1] by simp
    then show ?thesis unfolding named_fs_def by (simp add: set_block_def root_fs_like) (simp add: demo_fs_def)
  qed
  then have "file_bytes named_fs 5 0 10 = replicate 10 0" by (intro nth_equalityI) (simp_all add: file_bytes_def file_byte_def bn)
  then show ?thesis using named_fs_ok s n b named_file_bn by (simp add: disk_source_def Let_def)
qed


end
