(* ===== verification/Exec.thy ===== *)
theory Exec
  imports Loader
begin

text \<open>
  The arguments of \<open>execv\<close> (\<open>kernel.cc\<close>): how the strings and the array of pointers to them are laid out at the top of the stack page of the new program.  The strings are given without their
  final zero.  A write outside the page is a fault.
\<close>

abbreviation MEMSIZE_VIRTUAL :: nat where "MEMSIZE_VIRTUAL \<equiv> 30 * 1024 * 1024"

definition argv_len :: "u8 list list \<Rightarrow> nat" where
  "argv_len argv = (\<Sum>s \<leftarrow> argv. length s + 1)"

definition sz_argv_ptrs :: "u8 list list \<Rightarrow> nat" where
  "sz_argv_ptrs argv = 8 * (length argv + 1)"

definition mem_diff :: "u8 list list \<Rightarrow> nat" where
  "mem_diff argv = (if argv_len argv mod 8 \<noteq> 0 then (argv_len argv div 8 + 1) * 8 else argv_len argv) + sz_argv_ptrs argv"

definition le_bytes :: "nat \<Rightarrow> nat \<Rightarrow> u8 list" where
  "le_bytes v n = map (\<lambda>i. word_of_nat (v div 256 ^ i)) [0..<n]"

definition stack_put :: "u8 list \<Rightarrow> int \<Rightarrow> u8 list \<Rightarrow> u8 list res" where
  "stack_put pg pos bs = (if 0 \<le> pos \<and> nat pos + length bs \<le> length pg then Inr (copy_into pg (nat pos) bs) else Inl Out_Of_Bounds)"

primrec exec_copy :: "u8 list list \<Rightarrow> nat \<Rightarrow> nat \<Rightarrow> nat \<Rightarrow> nat \<Rightarrow> u8 list \<Rightarrow> u8 list res" where
  "exec_copy [] md szp i arg_len pg = Inr pg"
| "exec_copy (s # ss) md szp i arg_len pg =
     rbind (stack_put pg (4096 - int md + int szp + int arg_len) (s @ [0])) (\<lambda>pg1.
     rbind (stack_put pg1 (4096 - int md + 8 * int i) (le_bytes ((MEMSIZE_VIRTUAL + 2 ^ 64 - md + szp + arg_len) mod 2 ^ 64) 8)) (\<lambda>pg2.
       exec_copy ss md szp (i + 1) (arg_len + length s + 1) pg2))"

definition exec_args :: "u8 list list \<Rightarrow> u8 list \<Rightarrow> u8 list res" where
  "exec_args argv pg =
     rbind (exec_copy argv (mem_diff argv) (sz_argv_ptrs argv) 0 0 pg) (\<lambda>pg1.
       stack_put pg1 (4096 - int (mem_diff argv) + int (sz_argv_ptrs argv) - 8) (le_bytes 0 8))"

text \<open>The stack pointer below the arguments.\<close>

definition below_argv :: "u8 list list \<Rightarrow> nat" where
  "below_argv argv = (let b = (MEMSIZE_VIRTUAL + 2 ^ 64 - mem_diff argv - 8) mod 2 ^ 64 in if b mod 16 \<noteq> 0 then (b div 16 - 1) * 16 else b)"

end
