(* ===== verification/Exec_Correct.thy ===== *)
theory Exec_Correct
  imports Exec Chkfs_Dir_Lookup
begin

text \<open>
  The argument strings of \<open>execv\<close> and the pointers to them are where the new program looks for them.
\<close>

lemma le_nat_le_bytes:
  assumes "v < 256 ^ n" "\<forall>i < n. b ! (pos + i) = le_bytes v n ! i"
  shows "le_nat b pos n = v"
  using assms
proof (induction n arbitrary: v pos)
  case (Suc n)
  have h: "b ! pos = word_of_nat v" using Suc.prems(2)[rule_format, of 0] by (simp add: le_bytes_def del: upt_Suc)
  have "le_nat b (pos + 1) n = v div 256"
  proof (rule Suc.IH)
    show "v div 256 < 256 ^ n" using Suc.prems(1) by (simp add: less_mult_imp_div_less mult.commute)
    show "\<forall>i < n. b ! (pos + 1 + i) = le_bytes (v div 256) n ! i"
    proof (intro allI impI)
      fix i assume "i < n"
      then show "b ! (pos + 1 + i) = le_bytes (v div 256) n ! i" using Suc.prems(2)[rule_format, of "Suc i"] by (simp add: le_bytes_def div_mult2_eq del: upt_Suc)
    qed
  qed
  moreover have "unat (word_of_nat v :: u8) = v mod 256" by (simp add: unat_of_nat take_bit_eq_mod)
  ultimately show ?case using h by simp
qed simp

lemma length_le_bytes [simp]: "length (le_bytes v n) = n"
  by (simp add: le_bytes_def)

text \<open>A store into the stack page.\<close>

lemma stack_put_ok:
  assumes "length pg = 4096" "pos = int p" "p + length bs \<le> 4096"
  obtains pg' where "stack_put pg pos bs = Inr pg'" "length pg' = 4096" "\<forall>j < 4096. pg' ! j = (if p \<le> j \<and> j < p + length bs then bs ! (j - p) else pg ! j)"
  using assms copy_into_nth(1)[of p bs pg] copy_into_nth(2)[of p bs pg 0] that[of "copy_into pg p bs"] by (auto simp: stack_put_def)

text \<open>The offset of a string among the strings.\<close>

definition arg_off :: "u8 list list \<Rightarrow> nat \<Rightarrow> nat" where
  "arg_off ss k = argv_len (take k ss)"

lemma arg_off_simps [simp]: "arg_off ss 0 = 0" "arg_off (s # ss) (Suc k) = length s + 1 + arg_off ss k"
  by (simp_all add: arg_off_def argv_len_def)

lemma arg_off_bound: "k < length ss \<Longrightarrow> arg_off ss k + length (ss ! k) + 1 \<le> argv_len ss"
proof (induction ss arbitrary: k)
  case (Cons s ss)
  then show ?case by (cases k) (auto simp: argv_len_def)
qed simp

text \<open>
  \<open>arg_at pg base szp arg_len i k s\<close>: the string \<open>s\<close> is at its place in the page and pointer \<open>i\<close> has its address.
\<close>

definition arg_at :: "u8 list \<Rightarrow> nat \<Rightarrow> nat \<Rightarrow> nat \<Rightarrow> nat \<Rightarrow> u8 list \<Rightarrow> bool" where
  "arg_at pg base szp off i s \<longleftrightarrow> le_nat pg (base + 8 * i) 8 = MEMSIZE_VIRTUAL - 4096 + base + szp + off \<and> (\<forall>j \<le> length s. pg ! (base + szp + off + j) = (s @ [0]) ! j)"

lemma le_nat_cong: "\<forall>j. pos \<le> j \<and> j < pos + n \<longrightarrow> b ! j = c ! j \<Longrightarrow> le_nat b pos n = le_nat c pos n"
  by (induction n arbitrary: pos) auto

lemma arg_at_kept:
  assumes "arg_at pg base szp off i s" "\<forall>j. base + 8 * i \<le> j \<and> j < base + 8 * i + 8 \<longrightarrow> pg' ! j = pg ! j" "\<forall>j. base + szp + off \<le> j \<and> j \<le> base + szp + off + length s \<longrightarrow> pg' ! j = pg ! j"
  shows "arg_at pg' base szp off i s"
  using assms le_nat_cong[of "base + 8 * i" 8 pg' pg] by (simp add: arg_at_def)

lemma exec_copy_ok:
  assumes "length pg = 4096" "base = 4096 - md" "md \<le> 4096" "szp = 8 * (argc + 1)" "i + length ss = argc" "szp + arg_len + argv_len ss \<le> md"
  shows "\<exists>pg'. exec_copy ss md szp i arg_len pg = Inr pg' \<and> length pg' = 4096 \<and> (\<forall>k < length ss. arg_at pg' base szp (arg_len + arg_off ss k) (i + k) (ss ! k))
    \<and> (\<forall>j < 4096. \<not> (base + 8 * i \<le> j \<and> j < base + 8 * argc) \<longrightarrow> \<not> (base + szp + arg_len \<le> j) \<longrightarrow> pg' ! j = pg ! j)"
  using assms
proof (induction ss arbitrary: pg i arg_len)
  case (Cons s ss)
  let ?p = "base + szp + arg_len" and ?q = "base + 8 * i"
  have al: "argv_len (s # ss) = length s + 1 + argv_len ss" by (simp add: argv_len_def)
  have lt: "i < argc" "?p + (length s + 1) \<le> 4096" "?q + 8 \<le> base + szp" "?q + 8 \<le> 4096" using Cons.prems al by auto
  have base: "4096 - int md = int base" using Cons.prems(2,3) by simp
  have pp: "4096 - int md + int szp + int arg_len = int ?p" "4096 - int md + 8 * int i = int ?q" unfolding base by simp_all
  have fit: "?p + length (s @ [0]) \<le> 4096" using lt(2) by simp
  obtain pg1 where p1: "stack_put pg (4096 - int md + int szp + int arg_len) (s @ [0]) = Inr pg1" "length pg1 = 4096"
    "\<forall>j < 4096. pg1 ! j = (if ?p \<le> j \<and> j < ?p + length (s @ [0]) then (s @ [0]) ! (j - ?p) else pg ! j)"
    by (rule stack_put_ok[OF Cons.prems(1) pp(1) fit])
  define v where "v = (MEMSIZE_VIRTUAL + 2 ^ 64 - md + szp + arg_len) mod 2 ^ 64"
  have v: "v = MEMSIZE_VIRTUAL - 4096 + base + szp + arg_len"
  proof -
    have "MEMSIZE_VIRTUAL + 2 ^ 64 - md + szp + arg_len = (MEMSIZE_VIRTUAL - 4096 + base + szp + arg_len) + 2 ^ 64" using Cons.prems(2,3) by simp
    moreover have "MEMSIZE_VIRTUAL - 4096 + base + szp + arg_len < 2 ^ 64" using lt(2) by simp
    ultimately show ?thesis unfolding v_def by (simp only: mod_add_self2 mod_less)
  qed
  have v64: "v < 256 ^ 8" by (simp add: v_def)
  have fit2: "?q + length (le_bytes v 8) \<le> 4096" using lt(4) by simp
  obtain pg2 where p2: "stack_put pg1 (4096 - int md + 8 * int i) (le_bytes v 8) = Inr pg2" "length pg2 = 4096"
    "\<forall>j < 4096. pg2 ! j = (if ?q \<le> j \<and> j < ?q + length (le_bytes v 8) then le_bytes v 8 ! (j - ?q) else pg1 ! j)"
    by (rule stack_put_ok[OF p1(2) pp(2) fit2])
  have here: "arg_at pg2 base szp arg_len i s" unfolding arg_at_def
  proof (intro conjI allI impI)
    show "le_nat pg2 ?q 8 = MEMSIZE_VIRTUAL - 4096 + base + szp + arg_len" unfolding v[symmetric]
      by (rule le_nat_le_bytes[OF v64]) (use p2(3) lt(4) in simp)
    fix j assume "j \<le> length s"
    then show "pg2 ! (?p + j) = (s @ [0]) ! j" using p1(3) p2(3) lt(2,3) by simp
  qed
  have c: "(i + 1) + length ss = argc" "szp + (arg_len + length s + 1) + argv_len ss \<le> md" using Cons.prems(5,6) al by simp_all
  obtain pg' where IH: "exec_copy ss md szp (i + 1) (arg_len + length s + 1) pg2 = Inr pg'" "length pg' = 4096"
    "\<forall>k < length ss. arg_at pg' base szp (arg_len + length s + 1 + arg_off ss k) (i + 1 + k) (ss ! k)"
    "\<forall>j < 4096. \<not> (base + 8 * (i + 1) \<le> j \<and> j < base + 8 * argc) \<longrightarrow> \<not> (base + szp + (arg_len + length s + 1) \<le> j) \<longrightarrow> pg' ! j = pg2 ! j"
    using Cons.IH[OF p2(2) Cons.prems(2-4) c] by (elim exE conjE) (rule that, assumption+)
  have here': "arg_at pg' base szp arg_len i s" by (rule arg_at_kept[OF here]) (use IH(4) lt Cons.prems(4) in auto)
  have all: "arg_at pg' base szp (arg_len + arg_off (s # ss) k) (i + k) ((s # ss) ! k)" if "k < length (s # ss)" for k
    using that here' IH(3) by (cases k) (auto simp: add.assoc)
  have far: "pg' ! j = pg ! j" if "j < 4096" "\<not> (?q \<le> j \<and> j < base + 8 * argc)" "\<not> ?p \<le> j" for j
    using that IH(4) p1(3) p2(3) lt by auto
  have run: "exec_copy (s # ss) md szp i arg_len pg = Inr pg'" using p1(1) p2(1) IH(1) by (simp add: v_def)
  show ?case using run IH(2) all far by blast
qed simp

lemma mem_diff_bounds: "sz_argv_ptrs argv + argv_len argv \<le> mem_diff argv" "8 * (length argv + 1) \<le> mem_diff argv"
proof -
  have "x \<le> (if x mod 8 \<noteq> 0 then (x div 8 + 1) * 8 else x)" for x :: nat by (simp add: dividend_less_div_times less_imp_le)
  from this[of "argv_len argv"] show "sz_argv_ptrs argv + argv_len argv \<le> mem_diff argv" unfolding mem_diff_def by linarith
  then show "8 * (length argv + 1) \<le> mem_diff argv" by (simp add: sz_argv_ptrs_def)
qed

lemma below_argv_ok:
  assumes "mem_diff argv \<le> 4096"
  shows "below_argv argv mod 16 = 0" "below_argv argv + 8 + mem_diff argv \<le> MEMSIZE_VIRTUAL" "MEMSIZE_VIRTUAL \<le> below_argv argv + mem_diff argv + 40"
proof -
  define b where "b = MEMSIZE_VIRTUAL - mem_diff argv - 8"
  have "MEMSIZE_VIRTUAL + 2 ^ 64 - mem_diff argv - 8 = b + 2 ^ 64" "b < 2 ^ 64" using assms by (simp_all add: b_def)
  then have "(MEMSIZE_VIRTUAL + 2 ^ 64 - mem_diff argv - 8) mod 2 ^ 64 = b" by (simp only: mod_add_self2 mod_less)
  then have e: "below_argv argv = (if b mod 16 \<noteq> 0 then (b div 16 - 1) * 16 else b)" unfolding below_argv_def by (simp only: Let_def)
  show "below_argv argv mod 16 = 0" unfolding e by simp
  have "(if b mod 16 \<noteq> 0 then (b div 16 - 1) * 16 else b) \<le> b" "b \<le> (if b mod 16 \<noteq> 0 then (b div 16 - 1) * 16 else b) + 31"
    using div_mult_mod_eq[of b 16] mod_less_divisor[of 16 b] by (auto simp: diff_mult_distrib)
  moreover have "b + mem_diff argv + 8 = MEMSIZE_VIRTUAL" using assms by (simp add: b_def)
  ultimately show "below_argv argv + 8 + mem_diff argv \<le> MEMSIZE_VIRTUAL" "MEMSIZE_VIRTUAL \<le> below_argv argv + mem_diff argv + 40" unfolding e by linarith+
qed

text \<open>
  C19: The arguments of \<open>execv\<close>.  When the strings, rounded up to eight bytes, and the pointers fit into a page, every pointer of the argument array is the address, in the new program, of its string
  with the final zero, the array ends with a null pointer, and the stack pointer is a multiple of 16 below it; otherwise \<open>execv\<close> writes outside the stack page.
\<close>

theorem exec_args_correct:
  assumes "length pg = 4096"
  shows "if mem_diff argv \<le> 4096
    then \<exists>pg'. exec_args argv pg = Inr pg' \<and> length pg' = 4096 \<and> le_nat pg' (4096 - mem_diff argv + 8 * length argv) 8 = 0
      \<and> (\<forall>k < length argv. let p = le_nat pg' (4096 - mem_diff argv + 8 * k) 8 in MEMSIZE_VIRTUAL - 4096 \<le> p \<and> p + length (argv ! k) < MEMSIZE_VIRTUAL
           \<and> take (length (argv ! k) + 1) (drop (p - (MEMSIZE_VIRTUAL - 4096)) pg') = argv ! k @ [0])
      \<and> below_argv argv mod 16 = 0 \<and> below_argv argv + 8 + mem_diff argv \<le> MEMSIZE_VIRTUAL
    else exec_args argv pg = Inl Out_Of_Bounds"
proof (cases "mem_diff argv \<le> 4096")
  case True
  note B = mem_diff_bounds[of argv]
  define base where "base = 4096 - mem_diff argv"
  have c: "sz_argv_ptrs argv + 0 + argv_len argv \<le> mem_diff argv" "sz_argv_ptrs argv = 8 * (length argv + 1)" "0 + length argv = length argv" using B by (simp_all add: sz_argv_ptrs_def)
  obtain pg1 where p1: "exec_copy argv (mem_diff argv) (sz_argv_ptrs argv) 0 0 pg = Inr pg1" "length pg1 = 4096"
    "\<forall>k < length argv. arg_at pg1 base (sz_argv_ptrs argv) (0 + arg_off argv k) (0 + k) (argv ! k)"
    using exec_copy_ok[OF assms base_def True c(2,3,1)] by (elim exE conjE) (rule that, assumption+)
  have pos: "4096 - int (mem_diff argv) + int (sz_argv_ptrs argv) - 8 = int (base + 8 * length argv)" using True B(2) by (simp add: base_def sz_argv_ptrs_def)
  have fit: "base + 8 * length argv + length (le_bytes 0 8) \<le> 4096" using True B(2) by (simp add: base_def)
  obtain pg2 where p2: "stack_put pg1 (4096 - int (mem_diff argv) + int (sz_argv_ptrs argv) - 8) (le_bytes 0 8) = Inr pg2" "length pg2 = 4096"
    "\<forall>j < 4096. pg2 ! j = (if base + 8 * length argv \<le> j \<and> j < base + 8 * length argv + length (le_bytes 0 8) then le_bytes 0 8 ! (j - (base + 8 * length argv)) else pg1 ! j)"
    by (rule stack_put_ok[OF p1(2) pos fit])
  have null: "le_nat pg2 (base + 8 * length argv) 8 = 0" by (rule le_nat_le_bytes) (use p2(3) fit in simp_all)
  have arg: "let p = le_nat pg2 (base + 8 * k) 8 in MEMSIZE_VIRTUAL - 4096 \<le> p \<and> p + length (argv ! k) < MEMSIZE_VIRTUAL \<and> take (length (argv ! k) + 1) (drop (p - (MEMSIZE_VIRTUAL - 4096)) pg2) = argv ! k @ [0]"
    if k: "k < length argv" for k
  proof -
    let ?o = "base + sz_argv_ptrs argv + arg_off argv k"
    have bd: "?o + length (argv ! k) + 1 \<le> 4096" using arg_off_bound[OF k] B(1) True by (simp add: base_def)
    have "arg_at pg2 base (sz_argv_ptrs argv) (arg_off argv k) k (argv ! k)"
      by (rule arg_at_kept[of pg1]) (use p1(3) p2(3) k bd fit in \<open>auto simp: sz_argv_ptrs_def\<close>)
    then have a: "le_nat pg2 (base + 8 * k) 8 = MEMSIZE_VIRTUAL - 4096 + ?o" "\<forall>j \<le> length (argv ! k). pg2 ! (?o + j) = (argv ! k @ [0]) ! j" by (simp_all add: arg_at_def add.assoc)
    have "take (length (argv ! k) + 1) (drop ?o pg2) = argv ! k @ [0]" by (rule nth_equalityI) (use a(2) bd p2(2) in simp_all)
    then show ?thesis unfolding a(1) Let_def using bd by simp
  qed
  have run: "exec_args argv pg = Inr pg2" using p1(1) p2(1) by (simp add: exec_args_def)
  show ?thesis unfolding if_P[OF True] base_def[symmetric] by (intro exI[of _ pg2] conjI allI impI) (fact run | fact p2(2) | fact null | (rule arg, assumption) | fact below_argv_ok(1)[OF True] | fact below_argv_ok(2)[OF True])+
next
  case False
  then have "argv \<noteq> []" by (auto simp: mem_diff_def argv_len_def sz_argv_ptrs_def)
  then obtain s ss where a: "argv = s # ss" by (cases argv) auto
  have neg: "\<not> 0 \<le> 4096 - int (mem_diff argv)" using False by simp
  have "exec_copy argv (mem_diff argv) (sz_argv_ptrs argv) 0 0 pg = Inl Out_Of_Bounds"
    unfolding a exec_copy.simps using neg[unfolded a] by (simp add: stack_put_def)
  then show ?thesis using False by (simp add: exec_args_def)
qed

theorem exec_args_correct_witness:
  "\<exists>pg'. exec_args [[108, 115], [45, 108]] (replicate 4096 0) = Inr pg' \<and> le_nat pg' 4080 8 = 0"
proof -
  have "mem_diff [[108, 115], [45, 108]] = 32" by (simp add: mem_diff_def argv_len_def sz_argv_ptrs_def)
  then show ?thesis using exec_args_correct[of "replicate 4096 0" "[[108, 115], [45, 108]]"] by auto
qed

end
