(* ===== verification/Ahci.thy ===== *)
theory Ahci
  imports Kernel_Prelude
begin

text \<open>
  The SATA disk driver of \<open>k-devices.cc\<close>: command slots, the encoding of queued commands, blocking and non-blocking transfers and the interrupt
  handler.  Status variables, physical memory and the disk are part of the state; addresses are physical.  The device finishes the commands in
  its \<open>active\<close> register one by one and in any order: \<open>hd_finish\<close> is what the hardware does with one, and the argument \<open>dev\<close> of the functions that
  wait says which commands it finishes next.
\<close>

abbreviation E_IO :: int where "E_IO \<equiv> - 5"

section \<open>State\<close>

datatype idecommand = cmd_read_fpdma_queued | cmd_write_fpdma_queued

definition ide_code :: "idecommand \<Rightarrow> u32" where
  "ide_code cmd = (case cmd of cmd_read_fpdma_queued \<Rightarrow> 0x60 | cmd_write_fpdma_queued \<Rightarrow> 0x61)"

record bufstate =
  bs_pa :: nat
  bs_maxbyte :: nat

record cmdtable =
  ct_cfis :: "u32 list"
  ct_buf :: "bufstate list"

record cmdheader =
  ch_flags :: u16
  ch_nbuf :: nat
  ch_pos :: nat

record ahcistate =
  hd_ch :: "nat \<Rightarrow> cmdheader"
  hd_ct :: "nat \<Rightarrow> cmdtable"
  hd_active :: u32
  hd_nslots :: nat
  hd_available :: nat
  hd_outstanding :: u32
  hd_status :: "nat \<Rightarrow> nat option"
  hd_stat :: "nat \<Rightarrow> int"
  hd_mem :: "nat \<Rightarrow> u8"
  hd_disk :: "nat \<Rightarrow> u8"

abbreviation sectorsize :: nat where "sectorsize \<equiv> 512"
abbreviation ch_clear_flag :: u16 where "ch_clear_flag \<equiv> 0x400"
abbreviation ch_write_flag :: u16 where "ch_write_flag \<equiv> 0x40"

section \<open>Preparing, issuing and acknowledging commands\<close>

definition hd_clear :: "ahcistate \<Rightarrow> nat \<Rightarrow> ahcistate res" where
  "hd_clear h slot =
     assert_then (slot < hd_nslots h) (Inr (h\<lparr>hd_ch := (hd_ch h)(slot := (hd_ch h slot)\<lparr>ch_nbuf := 0, ch_pos := 0\<rparr>)\<rparr>))"

definition push_buffer :: "ahcistate \<Rightarrow> nat \<Rightarrow> nat \<Rightarrow> nat \<Rightarrow> ahcistate res" where
  "push_buffer h slot pa sz =
     assert_then (even pa \<and> even sz)
     (assert_then (0 < sz \<and> sz \<le> 65536)
     (assert_then (pa \<le> 0x100000000)
     (assert_then (pa XOR (pa + sz - 1) < 65536)
     (assert_then (slot < hd_nslots h)
     (assert_then (ch_nbuf (hd_ch h slot) < 16)
       (let nbuf = ch_nbuf (hd_ch h slot); ct = hd_ct h slot
        in Inr (h\<lparr>hd_ct := (hd_ct h)(slot := ct\<lparr>ct_buf := (ct_buf ct)[nbuf := \<lparr>bs_pa = pa, bs_maxbyte = sz - 1\<rparr>]\<rparr>),
                   hd_ch := (hd_ch h)(slot := (hd_ch h slot)\<lparr>ch_nbuf := nbuf + 1, ch_pos := (ch_pos (hd_ch h slot) + sz) mod 2 ^ 32\<rparr>)\<rparr>)))))))"

definition ncq_cfis :: "idecommand \<Rightarrow> nat \<Rightarrow> u64 \<Rightarrow> u64 \<Rightarrow> bool \<Rightarrow> nat \<Rightarrow> u32 list" where
  "ncq_cfis cmd slot sector nsectors fua priority =
     [0x8027 OR push_bit 16 (ide_code cmd) OR ucast (push_bit 24 (nsectors AND 0xFF)),
      ucast (sector AND 0xFFFFFF) OR (if fua then 0x80000000 else 0) OR 0x40000000,
      ucast (drop_bit 24 sector OR push_bit 16 (nsectors AND 0xFF00)),
      word_of_nat (push_bit 3 slot) OR word_of_nat (push_bit 14 priority)]"

definition issue_ncq :: "ahcistate \<Rightarrow> nat \<Rightarrow> idecommand \<Rightarrow> u64 \<Rightarrow> bool \<Rightarrow> nat \<Rightarrow> ahcistate res" where
  "issue_ncq h slot cmd sector fua priority =
     assert_then (slot < hd_nslots h)
     (assert_then (\<not> bit (hd_outstanding h) slot)
     (assert_then (priority < 3)
     (assert_then (0 < ch_pos (hd_ch h slot))
       (let nsectors = word_of_nat (ch_pos (hd_ch h slot) div sectorsize)
        in Inr (h\<lparr>hd_ct := (hd_ct h)(slot := (hd_ct h slot)\<lparr>ct_cfis := ncq_cfis cmd slot sector nsectors fua priority @ drop 4 (ct_cfis (hd_ct h slot))\<rparr>),
                   hd_ch := (hd_ch h)(slot := (hd_ch h slot)\<lparr>ch_flags := 4 OR ch_clear_flag OR (if cmd = cmd_write_fpdma_queued then ch_write_flag else 0), ch_pos := 0\<rparr>),
                   hd_active := set_bit slot (hd_active h),
                   hd_outstanding := set_bit slot (hd_outstanding h),
                   hd_available := (hd_available h + 2 ^ 32 - 1) mod 2 ^ 32\<rparr>)))))"

definition acknowledge :: "ahcistate \<Rightarrow> nat \<Rightarrow> int \<Rightarrow> ahcistate res" where
  "acknowledge h slot r =
     assert_then (slot < hd_nslots h)
     (assert_then (bit (hd_outstanding h) slot)
       (let hd1 = h\<lparr>hd_outstanding := flip_bit slot (hd_outstanding h), hd_available := (hd_available h + 1) mod 2 ^ 32\<rparr>
        in case hd_status h slot of
             None \<Rightarrow> Inr hd1
           | Some loc \<Rightarrow> Inr (hd1\<lparr>hd_stat := (hd_stat h)(loc := r), hd_status := (hd_status h)(slot := None)\<rparr>)))"

section \<open>The device\<close>

text \<open>The command in a slot as the hardware reads it: direction, buffers with their sizes, and the first byte on the disk.\<close>

definition ncq_lba :: "u32 list \<Rightarrow> nat" where
  "ncq_lba cfis = unat (cfis ! 1 AND 0xFFFFFF) + 2 ^ 24 * unat (cfis ! 2 AND 0xFFFFFF)"

definition ncq_count :: "u32 list \<Rightarrow> nat" where
  "ncq_count cfis = unat (drop_bit 24 (cfis ! 0)) + 256 * unat (drop_bit 24 (cfis ! 2))"

definition cmd_of :: "ahcistate \<Rightarrow> nat \<Rightarrow> bool \<times> (nat \<times> nat) list \<times> nat" where
  "cmd_of h slot =
     (let ct = hd_ct h slot; ch = hd_ch h slot
      in (ch_flags ch AND ch_write_flag \<noteq> 0, map (\<lambda>b. (bs_pa b, bs_maxbyte b + 1)) (take (ch_nbuf ch) (ct_buf ct)), ncq_lba (ct_cfis ct) * sectorsize))"

text \<open>Bytes move between memory and the disk, one buffer after the other.\<close>

definition copy_bytes :: "(nat \<Rightarrow> u8) \<Rightarrow> nat \<Rightarrow> (nat \<Rightarrow> u8) \<Rightarrow> nat \<Rightarrow> nat \<Rightarrow> nat \<Rightarrow> u8" where
  "copy_bytes dst d src s len = (\<lambda>a. if d \<le> a \<and> a < d + len then src (s + (a - d)) else dst a)"

fun dma :: "bool \<Rightarrow> (nat \<times> nat) list \<Rightarrow> nat \<Rightarrow> (nat \<Rightarrow> u8) \<times> (nat \<Rightarrow> u8) \<Rightarrow> (nat \<Rightarrow> u8) \<times> (nat \<Rightarrow> u8)" where
  "dma w [] pos s = s"
| "dma w ((pa, len) # bufs) pos (m, d) =
     dma w bufs (pos + len) (if w then (m, copy_bytes d pos m pa len) else (copy_bytes m pa d pos len, d))"

definition hd_finish :: "ahcistate \<Rightarrow> nat \<Rightarrow> ahcistate" where
  "hd_finish h slot =
     (if bit (hd_active h) slot
      then let (w, bufs, pos) = cmd_of h slot; (m, d) = dma w bufs pos (hd_mem h, hd_disk h)
           in h\<lparr>hd_mem := m, hd_disk := d, hd_active := unset_bit slot (hd_active h)\<rparr>
      else h)"

section \<open>Interrupts\<close>

function ack_loop :: "ahcistate \<Rightarrow> nat \<Rightarrow> u32 \<Rightarrow> ahcistate res" where
  "ack_loop h slot acks =
     (if acks = 0 then Inr h
      else rbind (if bit acks 0 then acknowledge h slot 0 else Inr h) (\<lambda>hd1. ack_loop hd1 (slot + 1) (drop_bit 1 acks)))"
  by pat_completeness auto
termination
proof (relation "measure (\<lambda>(_, _, acks). unat acks)")
  fix acks :: u32
  assume "acks \<noteq> 0"
  then have "unat acks div 2 < unat acks" by (simp add: unat_gt_0)
  then show "((x, slot + 1, drop_bit 1 acks), h, slot, acks) \<in> measure (\<lambda>(_, _, acks). unat acks)" for x h :: ahcistate and slot :: nat
    by (simp add: drop_bit_eq_div unat_div)
qed simp

declare ack_loop.simps [simp del]

fun error_loop :: "ahcistate \<Rightarrow> nat list \<Rightarrow> ahcistate res" where
  "error_loop h [] = Inr h"
| "error_loop h (slot # slots) = rbind (if bit (hd_outstanding h) slot then acknowledge h slot E_IO else Inr h) (\<lambda>hd1. error_loop hd1 slots)"

definition handle_error_interrupt :: "ahcistate \<Rightarrow> ahcistate res" where
  "handle_error_interrupt h = rbind (error_loop h [0..<32]) (\<lambda>_. Inl Panic)"

definition ahci_interrupt :: "ahcistate \<Rightarrow> bool \<Rightarrow> ahcistate res" where
  "ahci_interrupt h is_error =
     rbind (ack_loop h 0 (hd_outstanding h AND NOT (hd_active h))) (\<lambda>hd1. if is_error then handle_error_interrupt hd1 else Inr hd1)"

text \<open>
  A process waits on the disk's queue until its predicate holds: each turn is one interrupt, after the device has finished the commands
  that \<open>dev\<close> names.
\<close>

primrec hd_wait :: "nat \<Rightarrow> (ahcistate \<Rightarrow> nat list) \<Rightarrow> (ahcistate \<Rightarrow> bool) \<Rightarrow> ahcistate \<Rightarrow> ahcistate res" where
  "hd_wait 0 dev P h = (if P h then Inr h else Inl No_Return)"
| "hd_wait (Suc fuel) dev P h =
     (if P h then Inr h else rbind (ahci_interrupt (foldl hd_finish h (dev h)) False) (\<lambda>hd1. hd_wait fuel dev P hd1))"

section \<open>Reading and writing\<close>

function open_slot :: "nat \<Rightarrow> nat \<Rightarrow> u32 \<Rightarrow> nat" where
  "open_slot i n used = (if i < n then if \<not> bit used i then i else open_slot (i + 1) n used else n)"
  by pat_completeness auto
termination
  by (relation "measure (\<lambda>(i, n, _). n - i)") auto

declare open_slot.simps [simp del]

definition send_command :: "ahcistate \<Rightarrow> nat \<Rightarrow> idecommand \<Rightarrow> nat \<Rightarrow> nat \<Rightarrow> nat \<Rightarrow> nat \<Rightarrow> ahcistate res" where
  "send_command h slot cmd buf sz off status =
     rbind (hd_clear (h\<lparr>hd_stat := (hd_stat h)(status := E_AGAIN)\<rparr>) slot) (\<lambda>hd1.
     rbind (push_buffer hd1 slot buf sz) (\<lambda>hd2.
     rbind (issue_ncq hd2 slot cmd (word_of_nat (off div sectorsize)) False 0) (\<lambda>hd3.
       Inr (hd3\<lparr>hd_status := (hd_status hd3)(slot := Some status)\<rparr>))))"

definition read_or_write_nonblocking :: "ahcistate \<Rightarrow> idecommand \<Rightarrow> nat \<Rightarrow> nat \<Rightarrow> nat \<Rightarrow> nat \<Rightarrow> (ahcistate \<times> bool) res" where
  "read_or_write_nonblocking h cmd buf sz off status =
     assert_then (sz mod sectorsize = 0 \<and> off mod sectorsize = 0)
      (let slot = open_slot 0 (hd_nslots h) (hd_outstanding h)
       in if slot = hd_nslots h then Inr (h, False)
          else rbind (send_command h slot cmd buf sz off status) (\<lambda>hd1. Inr (hd1, True)))"

definition read_or_write :: "(ahcistate \<Rightarrow> nat list) \<Rightarrow> ahcistate \<Rightarrow> idecommand \<Rightarrow> nat \<Rightarrow> nat \<Rightarrow> nat \<Rightarrow> nat \<Rightarrow> (ahcistate \<times> int) res" where
  "read_or_write dev h cmd buf sz off status =
     assert_then (sz mod sectorsize = 0 \<and> off mod sectorsize = 0)
      (rbind (hd_wait 33 dev (\<lambda>h. 0 < hd_available h) h) (\<lambda>hd0.
       let slot = open_slot 0 (hd_nslots hd0) (hd_outstanding hd0)
       in assert_then (slot < hd_nslots hd0)
           (rbind (send_command hd0 slot cmd buf sz off status) (\<lambda>hd1.
            rbind (hd_wait 33 dev (\<lambda>h. hd_stat h status \<noteq> E_AGAIN) hd1) (\<lambda>hd2. Inr (hd2, hd_stat hd2 status))))))"

section \<open>Start-up\<close>

text \<open>
  The numbers of sectors and slots that the constructor computes from the words of the IDENTIFY DEVICE answer; the shift of the 16-bit word
  101 is done in a 32-bit \<open>int\<close>, which is then converted to 64 bits.
\<close>

definition identify_nsectors :: "(nat \<Rightarrow> u16) \<Rightarrow> u64 res" where
  "identify_nsectors devid =
     (let lo = scast ((ucast (devid 100) :: u32) OR push_bit 16 (ucast (devid 101))) :: u64;
          n = lo OR push_bit 32 (ucast (devid 102)) OR push_bit 48 (ucast (devid 103))
      in assert_then (n < 0x1000000000000) (Inr n))"

definition identify_nslots :: "u32 \<Rightarrow> (nat \<Rightarrow> u16) \<Rightarrow> nat res" where
  "identify_nslots capabilities devid =
     assert_then (capabilities AND 0x40000000 \<noteq> 0)
      (let n = unat (drop_bit 8 capabilities AND 0x1F) + 1; k = unat (devid 75 AND 0x1F) + 1
       in Inr (if k < n then k else n))"

end
