(* ===== verification/Ahci_Correct.thy ===== *)
theory Ahci_Correct
  imports Ahci
begin

text \<open>
  The disk driver is correct: commands say what was meant, slots and counters agree, interrupts acknowledge exactly the commands that the device has finished, and a
  transfer moves the bytes.  The locale \<open>disk_client\<close> is the interface between the driver and those who wait for it: any property that the device and its interrupts keep
  still holds when the wait is over, and the wait ends.
\<close>

section \<open>Command encoding\<close>

lemma u64_split:
  assumes "unat (x :: u64) < 2 ^ (k + k)" "k < 64"
  shows "unat (take_bit k x) + 2 ^ k * unat (take_bit k (drop_bit k x)) = unat x"
proof -
  have "unat x div 2 ^ k < 2 ^ k" using assms(1) by (simp add: less_mult_imp_div_less power_add)
  then have "unat x div 2 ^ k mod 2 ^ k = unat x div 2 ^ k" by simp
  moreover have "unat (take_bit k x) = unat x mod 2 ^ k" "unat (take_bit k (drop_bit k x)) = unat x div 2 ^ k mod 2 ^ k"
    by (simp_all only: unsigned_take_bit_eq unat_drop_bit_eq) (simp_all add: take_bit_eq_mod drop_bit_eq_div)
  ultimately show ?thesis by simp
qed

lemma ncq_lba_cfis:
  assumes "sector < 2 ^ 48" "nsectors < 2 ^ 16"
  shows "ncq_lba (ncq_cfis cmd slot sector nsectors fua pr @ xs) = unat sector" "ncq_count (ncq_cfis cmd slot sector nsectors fua pr @ xs) = unat nsectors"
proof -
  have m24: "x AND 0xFFFFFF = take_bit 24 x" for x :: "'a::len word" using take_bit_eq_mask[of 24 x] by (simp add: mask_eq_exp_minus_1)
  have m8: "nsectors AND 0xFF = take_bit 8 nsectors" using take_bit_eq_mask[of 8 nsectors] by (simp add: mask_eq_exp_minus_1)
  have m16: "nsectors AND 0xFF00 = push_bit 8 (take_bit 8 (drop_bit 8 nsectors))"
  proof (rule bit_word_eqI)
    fix k assume "k < LENGTH(64)"
    have e: "(0xFF00 :: u64) = push_bit 8 (mask 8)" by (simp add: mask_eq_exp_minus_1)
    have "bit (0xFF00 :: u64) k \<longleftrightarrow> 8 \<le> k \<and> k < 16" unfolding e using \<open>k < LENGTH(64)\<close> by (auto simp: bit_simps)
    then show "bit (nsectors AND 0xFF00) k = bit (push_bit 8 (take_bit 8 (drop_bit 8 nsectors))) k"
      using \<open>k < LENGTH(64)\<close> by (auto simp: bit_simps)
  qed
  have a: "take_bit 24 (ucast (take_bit 24 sector) OR (if fua then 0x80000000 else 0) OR 0x40000000 :: u32) = ucast (take_bit 24 sector)"
    by (simp add: unsigned_take_bit_eq)
  have b: "take_bit 24 (ucast (drop_bit 24 sector OR push_bit 24 (take_bit 8 (drop_bit 8 nsectors))) :: u32) = ucast (take_bit 24 (drop_bit 24 sector))"
    by (rule bit_word_eqI) (auto simp: bit_simps)
  have u: "unat (ucast (take_bit 24 x) :: u32) = unat (take_bit 24 x)" for x :: u64
    by (simp add: unsigned_ucast_eq unsigned_take_bit_eq)
  have a2: "take_bit 24 (ucast (take_bit 24 sector) :: u32) = ucast (take_bit 24 sector)" by (simp add: unsigned_take_bit_eq)
  have lt: "unat sector < 2 ^ (24 + 24)" "unat nsectors < 2 ^ (8 + 8)" using assms by (simp_all add: word_less_nat_alt)
  show "ncq_lba (ncq_cfis cmd slot sector nsectors fua pr @ xs) = unat sector"
    using u64_split[OF lt(1)] by (simp add: ncq_lba_def ncq_cfis_def m24 m16 a a2 b u)
  have c: "drop_bit 24 (push_bit 16 (ide_code cmd)) = 0" "drop_bit 24 (ucast (push_bit 24 (take_bit 8 nsectors)) :: u32) = ucast (take_bit 8 nsectors)"
    by (cases cmd; simp add: ide_code_def) (rule bit_word_eqI, auto simp: bit_simps)
  have s48: "\<not> bit sector (48 + k)" for k
  proof
    assume "bit sector (48 + k)"
    then have "bit (unat sector) (48 + k)" by (simp add: bit_unsigned_iff)
    moreover have "take_bit 48 (unat sector) = unat sector" using lt(1) by (simp add: take_bit_nat_eq_self)
    ultimately show False using bit_take_bit_iff[of 48 "unat sector" "48 + k"] by simp
  qed
  have d: "drop_bit 24 (ucast (drop_bit 24 sector OR push_bit 24 (take_bit 8 (drop_bit 8 nsectors))) :: u32) = ucast (take_bit 8 (drop_bit 8 nsectors))"
    by (rule bit_word_eqI) (use s48 in \<open>auto simp: bit_simps\<close>)
  have v: "unat (ucast (take_bit 8 x) :: u32) = unat (take_bit 8 x)" for x :: u64
    by (simp add: unsigned_ucast_eq unsigned_take_bit_eq)
  show "ncq_count (ncq_cfis cmd slot sector nsectors fua pr @ xs) = unat nsectors"
    using u64_split[OF lt(2)] by (simp add: ncq_count_def ncq_cfis_def m8 m16 c d v)
qed

section \<open>Slots\<close>

lemma open_slot_spec:
  "i \<le> n \<Longrightarrow> open_slot i n used \<le> n \<and> (open_slot i n used < n \<longrightarrow> \<not> bit used (open_slot i n used)) \<and> (open_slot i n used = n \<longrightarrow> (\<forall>j. i \<le> j \<longrightarrow> j < n \<longrightarrow> bit used j))"
proof (induction i n used rule: open_slot.induct)
  case (1 i n used)
  show ?case
  proof (cases "i < n \<and> bit used i")
    case True
    then have "open_slot i n used = open_slot (i + 1) n used" by (subst open_slot.simps) simp
    then show ?thesis using 1 True by (metis Suc_eq_plus1 Suc_leI le_antisym not_less_eq_eq)
  next
    case False
    then show ?thesis using 1(2) by (subst (1 2 3 4) open_slot.simps) auto
  qed
qed

definition hd_inv :: "ahcistate \<Rightarrow> bool" where
  "hd_inv h \<longleftrightarrow> 0 < hd_nslots h \<and> hd_nslots h \<le> 32 \<and> (\<forall>s. bit (hd_outstanding h) s \<longrightarrow> s < hd_nslots h)
     \<and> hd_available h + card {s. bit (hd_outstanding h) s} = hd_nslots h \<and> (\<forall>s. bit (hd_active h) s \<longrightarrow> bit (hd_outstanding h) s)
     \<and> (\<forall>s. bit (hd_outstanding h) s \<longrightarrow> (\<exists>l. hd_status h s = Some l \<and> hd_stat h l = E_AGAIN))
     \<and> (\<forall>s t l. bit (hd_outstanding h) s \<longrightarrow> bit (hd_outstanding h) t \<longrightarrow> hd_status h s = Some l \<longrightarrow> hd_status h t = Some l \<longrightarrow> s = t)
     \<and> (\<forall>s. length (ct_buf (hd_ct h s)) = 16)"

lemma hd_invD:
  assumes "hd_inv h"
  shows "0 < hd_nslots h" "hd_nslots h \<le> 32" "bit (hd_outstanding h) s \<Longrightarrow> s < hd_nslots h" "hd_available h + card {s. bit (hd_outstanding h) s} = hd_nslots h"
    "bit (hd_active h) s \<Longrightarrow> bit (hd_outstanding h) s" "bit (hd_outstanding h) s \<Longrightarrow> \<exists>l. hd_status h s = Some l \<and> hd_stat h l = E_AGAIN"
    "bit (hd_outstanding h) s \<Longrightarrow> bit (hd_outstanding h) t \<Longrightarrow> hd_status h s = Some l \<Longrightarrow> hd_status h t = Some l \<Longrightarrow> s = t"
    "length (ct_buf (hd_ct h s)) = 16"
  using assms unfolding hd_inv_def by blast+

lemma finite_bits: "finite {s. bit (w :: u32) s}"
proof (rule finite_subset[of _ "{..<32}"])
  show "{s. bit w s} \<subseteq> {..<32}" using bit_imp_le_length[of w] by auto
qed simp

lemma open_slot_free:
  assumes inv: "hd_inv h"
  shows "(open_slot 0 (hd_nslots h) (hd_outstanding h) < hd_nslots h \<longleftrightarrow> 0 < hd_available h)"
    "open_slot 0 (hd_nslots h) (hd_outstanding h) < hd_nslots h \<Longrightarrow> \<not> bit (hd_outstanding h) (open_slot 0 (hd_nslots h) (hd_outstanding h))"
    "open_slot 0 (hd_nslots h) (hd_outstanding h) \<le> hd_nslots h"
proof -
  note o = open_slot_spec[of 0 "hd_nslots h" "hd_outstanding h", simplified]
  let ?S = "{s. bit (hd_outstanding h) s}"
  have sub: "?S \<subseteq> {..<hd_nslots h}" using hd_invD(3)[OF inv] by auto
  show "open_slot 0 (hd_nslots h) (hd_outstanding h) < hd_nslots h \<longleftrightarrow> 0 < hd_available h"
  proof
    assume l: "open_slot 0 (hd_nslots h) (hd_outstanding h) < hd_nslots h"
    then have "?S \<subset> {..<hd_nslots h}" using o sub by blast
    then have "card ?S < hd_nslots h" using psubset_card_mono[of "{..<hd_nslots h}" ?S] by simp
    then show "0 < hd_available h" using hd_invD(4)[OF inv] by simp
  next
    assume a: "0 < hd_available h"
    show "open_slot 0 (hd_nslots h) (hd_outstanding h) < hd_nslots h"
    proof (rule ccontr)
      assume "\<not> ?thesis"
      then have "open_slot 0 (hd_nslots h) (hd_outstanding h) = hd_nslots h" using o by simp
      then have "{..<hd_nslots h} \<subseteq> ?S" using o by auto
      then have "hd_nslots h \<le> card ?S" using card_mono[OF finite_bits, of "{..<hd_nslots h}"] by simp
      then show False using a hd_invD(4)[OF inv] by simp
    qed
  qed
qed (use open_slot_spec[of 0 "hd_nslots h" "hd_outstanding h"] in auto)

section \<open>Interrupts\<close>

text \<open>What the handling of finished commands leaves alone.\<close>

definition hd_same :: "ahcistate \<Rightarrow> ahcistate \<Rightarrow> bool" where
  "hd_same h h' \<longleftrightarrow> hd_nslots h' = hd_nslots h \<and> hd_active h' = hd_active h \<and> hd_ct h' = hd_ct h \<and> hd_ch h' = hd_ch h \<and> hd_mem h' = hd_mem h \<and> hd_disk h' = hd_disk h"

lemma acknowledge_ok:
  assumes inv: "hd_inv h" and s: "bit (hd_outstanding h) s" "\<not> bit (hd_active h) s"
  obtains h' where "acknowledge h s r = Inr h'" "r \<noteq> E_AGAIN \<longrightarrow> hd_inv h'" "hd_same h h'" "\<forall>t. bit (hd_outstanding h') t \<longleftrightarrow> bit (hd_outstanding h) t \<and> t \<noteq> s"
    "\<forall>t. t \<noteq> s \<longrightarrow> hd_status h' t = hd_status h t" "\<forall>l. hd_stat h' l = (if hd_status h s = Some l then r else hd_stat h l)"
proof -
  obtain l where l: "hd_status h s = Some l" "hd_stat h l = E_AGAIN" using hd_invD(6)[OF inv s(1)] by blast
  define h' where "h' = h\<lparr>hd_outstanding := flip_bit s (hd_outstanding h), hd_available := (hd_available h + 1) mod 2 ^ 32, hd_stat := (hd_stat h)(l := r), hd_status := (hd_status h)(s := None)\<rparr>"
  have sn: "s < hd_nslots h" using hd_invD(3)[OF inv s(1)] .
  have s32: "s < 32" using sn hd_invD(2)[OF inv] by simp
  have b: "bit (hd_outstanding h') t \<longleftrightarrow> bit (hd_outstanding h) t \<and> t \<noteq> s" for t using s(1) s32 bit_imp_le_length[of "hd_outstanding h" t] by (auto simp: h'_def bit_flip_bit_iff)
  have "{t. bit (hd_outstanding h) t} = insert s {t. bit (hd_outstanding h') t}" using b s(1) by auto
  moreover have "s \<notin> {t. bit (hd_outstanding h') t}" using b by simp
  ultimately have c: "card {t. bit (hd_outstanding h) t} = Suc (card {t. bit (hd_outstanding h') t})" using finite_bits[of "hd_outstanding h'"] by simp
  have av: "hd_available h' + card {t. bit (hd_outstanding h') t} = hd_nslots h" using c hd_invD(2,4)[OF inv] by (simp add: h'_def)
  have inv': "hd_inv h'" if "r \<noteq> E_AGAIN"
    unfolding hd_inv_def
  proof (intro conjI allI impI)
    fix t assume t: "bit (hd_outstanding h') t"
    then obtain k where k: "hd_status h t = Some k" "hd_stat h k = E_AGAIN" using hd_invD(6)[OF inv, of t] b by blast
    then have "k \<noteq> l" using hd_invD(7)[OF inv, of t s] l(1) t b s(1) by blast
    then show "\<exists>k. hd_status h' t = Some k \<and> hd_stat h' k = E_AGAIN" using k t b by (simp add: h'_def)
  next
    fix t u k assume "bit (hd_outstanding h') t" "bit (hd_outstanding h') u" "hd_status h' t = Some k" "hd_status h' u = Some k"
    then show "t = u" using hd_invD(7)[OF inv, of t u k] b by (simp add: h'_def)
  next
    show "hd_available h' + card {t. bit (hd_outstanding h') t} = hd_nslots h'" unfolding av by (simp add: h'_def)
  qed (use b hd_invD(1,2,3,5,8)[OF inv] s(2) in \<open>auto simp: h'_def\<close>)
  have "acknowledge h s r = Inr h'" using s(1) sn l(1) by (simp add: acknowledge_def h'_def)
  then show ?thesis using that inv' b l(1) by (simp add: h'_def hd_same_def)
qed

lemma ack_loop_ok:
  assumes "hd_inv h" "\<forall>k. bit acks k \<longrightarrow> bit (hd_outstanding h) (slot + k) \<and> \<not> bit (hd_active h) (slot + k)"
  shows "\<exists>h'. ack_loop h slot acks = Inr h' \<and> hd_inv h' \<and> hd_same h h' \<and> (\<forall>t. bit (hd_outstanding h') t \<longleftrightarrow> bit (hd_outstanding h) t \<and> \<not> (\<exists>k. bit acks k \<and> t = slot + k))
    \<and> (\<forall>t. bit (hd_outstanding h') t \<longrightarrow> hd_status h' t = hd_status h t)
    \<and> (\<forall>l. hd_stat h' l = (if \<exists>k. bit acks k \<and> hd_status h (slot + k) = Some l then 0 else hd_stat h l))"
  using assms
proof (induction h slot acks rule: ack_loop.induct)
  case (1 h slot acks)
  show ?case
  proof (cases "acks = 0")
    case True
    then show ?thesis using 1(2) by (subst ack_loop.simps) (simp add: hd_same_def)
  next
    case False
    have sh: "bit acks (Suc k) \<longleftrightarrow> bit (drop_bit 1 acks) k" for k by (simp add: bit_drop_bit_eq)
    have nx: "bit (hd_outstanding h) (slot + 1 + k) \<and> \<not> bit (hd_active h) (slot + 1 + k)" if "bit (drop_bit 1 acks) k" for k
      using 1(3)[rule_format, of "Suc k"] that sh[of k] by simp
    show ?thesis
    proof (cases "bit acks 0")
      case True
      have s: "bit (hd_outstanding h) slot" "\<not> bit (hd_active h) slot" using 1(3) True by force+
      obtain h1 where h1: "acknowledge h slot 0 = Inr h1" "hd_inv h1" "hd_same h h1" "\<forall>t. bit (hd_outstanding h1) t \<longleftrightarrow> bit (hd_outstanding h) t \<and> t \<noteq> slot"
        "\<forall>t. t \<noteq> slot \<longrightarrow> hd_status h1 t = hd_status h t" "\<forall>l. hd_stat h1 l = (if hd_status h slot = Some l then 0 else hd_stat h l)"
        using acknowledge_ok[OF 1(2) s, of 0] by (auto simp: )
      have "\<forall>k. bit (drop_bit 1 acks) k \<longrightarrow> bit (hd_outstanding h1) (slot + 1 + k) \<and> \<not> bit (hd_active h1) (slot + 1 + k)"
        using nx h1(3,4) by (auto simp: hd_same_def)
      from 1(1)[OF False h1(2) this] True obtain h' where h': "ack_loop h1 (slot + 1) (drop_bit 1 acks) = Inr h'" "hd_inv h'" "hd_same h1 h'"
        "\<forall>t. bit (hd_outstanding h') t \<longleftrightarrow> bit (hd_outstanding h1) t \<and> \<not> (\<exists>k. bit (drop_bit 1 acks) k \<and> t = slot + 1 + k)"
        "\<forall>t. bit (hd_outstanding h') t \<longrightarrow> hd_status h' t = hd_status h1 t"
        "\<forall>l. hd_stat h' l = (if \<exists>k. bit (drop_bit 1 acks) k \<and> hd_status h1 (slot + 1 + k) = Some l then 0 else hd_stat h1 l)" by blast
      have run: "ack_loop h slot acks = Inr h'" using False True h1(1) h'(1) by (subst ack_loop.simps) simp
      have ex: "(\<exists>k. bit acks k \<and> Q k) \<longleftrightarrow> Q 0 \<or> (\<exists>k. bit (drop_bit 1 acks) k \<and> Q (Suc k))" for Q
        using True sh by (metis not0_implies_Suc)
      show ?thesis
      proof (intro exI[of _ h'] conjI allI impI)
        show "hd_same h h'" using h1(3) h'(3) by (simp add: hd_same_def)
        show "bit (hd_outstanding h') t \<longleftrightarrow> bit (hd_outstanding h) t \<and> \<not> (\<exists>k. bit acks k \<and> t = slot + k)" for t
          unfolding ex using h'(4) h1(4) by auto
        show "bit (hd_outstanding h') t \<Longrightarrow> hd_status h' t = hd_status h t" for t using h'(4,5) h1(4,5) by simp
        show "hd_stat h' l = (if \<exists>k. bit acks k \<and> hd_status h (slot + k) = Some l then 0 else hd_stat h l)" for l
          unfolding ex using h'(6) h1(5,6) by auto
      qed (use run h'(2) in simp_all)
    next
      case z: False
      have "\<forall>k. bit (drop_bit 1 acks) k \<longrightarrow> bit (hd_outstanding h) (slot + 1 + k) \<and> \<not> bit (hd_active h) (slot + 1 + k)"
        using nx by blast
      from 1(1)[OF False 1(2) this] z obtain h' where h': "ack_loop h (slot + 1) (drop_bit 1 acks) = Inr h'" "hd_inv h'" "hd_same h h'"
        "\<forall>t. bit (hd_outstanding h') t \<longleftrightarrow> bit (hd_outstanding h) t \<and> \<not> (\<exists>k. bit (drop_bit 1 acks) k \<and> t = slot + 1 + k)"
        "\<forall>t. bit (hd_outstanding h') t \<longrightarrow> hd_status h' t = hd_status h t"
        "\<forall>l. hd_stat h' l = (if \<exists>k. bit (drop_bit 1 acks) k \<and> hd_status h (slot + 1 + k) = Some l then 0 else hd_stat h l)" by auto
      have run: "ack_loop h slot acks = Inr h'" using False z h'(1) by (subst ack_loop.simps) simp
      have ex: "(\<exists>k. bit acks k \<and> Q k) \<longleftrightarrow> (\<exists>k. bit (drop_bit 1 acks) k \<and> Q (Suc k))" for Q
        using z sh by (metis not0_implies_Suc)
      show ?thesis unfolding ex using run h' by (intro exI[of _ h']) simp
    qed
  qed
qed

text \<open>An interrupt acknowledges exactly the commands that the device has finished.\<close>

lemma ahci_interrupt_ok:
  assumes "hd_inv h"
  obtains h' where "ahci_interrupt h False = Inr h'" "hd_inv h'" "hd_same h h'" "\<forall>t. bit (hd_outstanding h') t \<longleftrightarrow> bit (hd_active h) t"
    "\<forall>t. bit (hd_active h) t \<longrightarrow> hd_status h' t = hd_status h t"
    "\<forall>l. hd_stat h' l = (if \<exists>s. bit (hd_outstanding h) s \<and> \<not> bit (hd_active h) s \<and> hd_status h s = Some l then 0 else hd_stat h l)"
proof -
  have b: "bit (hd_outstanding h AND NOT (hd_active h)) k \<longleftrightarrow> bit (hd_outstanding h) k \<and> \<not> bit (hd_active h) k" for k
    using bit_imp_le_length[of "hd_outstanding h" k] by (auto simp: bit_simps)
  obtain h' where h': "ack_loop h 0 (hd_outstanding h AND NOT (hd_active h)) = Inr h'" "hd_inv h'" "hd_same h h'"
    "\<forall>t. bit (hd_outstanding h') t \<longleftrightarrow> bit (hd_outstanding h) t \<and> \<not> (\<exists>k. bit (hd_outstanding h AND NOT (hd_active h)) k \<and> t = 0 + k)"
    "\<forall>t. bit (hd_outstanding h') t \<longrightarrow> hd_status h' t = hd_status h t"
    "\<forall>l. hd_stat h' l = (if \<exists>k. bit (hd_outstanding h AND NOT (hd_active h)) k \<and> hd_status h (0 + k) = Some l then 0 else hd_stat h l)"
    using ack_loop_ok[OF assms, of "hd_outstanding h AND NOT (hd_active h)" 0] b by auto
  have "\<forall>t. bit (hd_outstanding h') t \<longleftrightarrow> bit (hd_active h) t" using h'(4) b hd_invD(5)[OF assms] by auto
  then show ?thesis using h' b by (intro that[of h']) (simp_all add: ahci_interrupt_def)
qed

lemma ahci_interruptD:
  assumes "hd_inv h" "ahci_interrupt h False = Inr h'"
  shows "hd_inv h'" "hd_same h h'" "\<forall>t. bit (hd_outstanding h') t \<longleftrightarrow> bit (hd_active h) t" "\<forall>t. bit (hd_active h) t \<longrightarrow> hd_status h' t = hd_status h t"
    "\<forall>l. hd_stat h' l = (if \<exists>s. bit (hd_outstanding h) s \<and> \<not> bit (hd_active h) s \<and> hd_status h s = Some l then 0 else hd_stat h l)"
  by (rule ahci_interrupt_ok[OF assms(1)]; use assms(2) in simp)+

section \<open>The device\<close>

lemma cmd_of_cong: "hd_ct h' s = hd_ct h s \<Longrightarrow> hd_ch h' s = hd_ch h s \<Longrightarrow> cmd_of h' s = cmd_of h s"
  by (simp add: cmd_of_def)

lemma hd_same_cmd: "hd_same h h' \<Longrightarrow> cmd_of h' = cmd_of h"
  by (auto simp: hd_same_def cmd_of_def)

definition active_slots :: "ahcistate \<Rightarrow> nat set" where
  "active_slots h = {s. bit (hd_active h) s}"

lemma hd_finish_fields:
  "hd_nslots (hd_finish h s) = hd_nslots h" "hd_ct (hd_finish h s) = hd_ct h" "hd_ch (hd_finish h s) = hd_ch h" "hd_outstanding (hd_finish h s) = hd_outstanding h"
  "hd_available (hd_finish h s) = hd_available h" "hd_status (hd_finish h s) = hd_status h" "hd_stat (hd_finish h s) = hd_stat h"
  "cmd_of (hd_finish h s) = cmd_of h" "bit (hd_active (hd_finish h s)) t \<longleftrightarrow> bit (hd_active h) t \<and> t \<noteq> s" "\<not> bit (hd_active h) s \<Longrightarrow> hd_finish h s = h"
  by (auto simp: hd_finish_def cmd_of_def Let_def case_prod_unfold bit_unset_bit_iff split: prod.splits)

lemma hd_finish_inv: "hd_inv h \<Longrightarrow> hd_inv (hd_finish h s)"
  unfolding hd_inv_def hd_finish_fields by blast

lemma hd_finish_data:
  assumes "bit (hd_active h) s" "cmd_of h s = (w, [(pa, len)], pos)"
  shows "hd_mem (hd_finish h s) = (if w then hd_mem h else copy_bytes (hd_mem h) pa (hd_disk h) pos len)"
    "hd_disk (hd_finish h s) = (if w then copy_bytes (hd_disk h) pos (hd_mem h) pa len else hd_disk h)"
  using assms by (simp_all add: hd_finish_def)

section \<open>Sending a command\<close>

definition buffer_ok :: "nat \<Rightarrow> nat \<Rightarrow> bool" where
  "buffer_ok pa sz \<longleftrightarrow> even pa \<and> even sz \<and> 0 < sz \<and> sz \<le> 65536 \<and> pa \<le> 0x100000000 \<and> pa XOR (pa + sz - 1) < 65536"

lemma send_command_ok:
  assumes inv: "hd_inv h" and s: "s < hd_nslots h" "\<not> bit (hd_outstanding h) s" and l: "\<forall>t. bit (hd_outstanding h) t \<longrightarrow> hd_status h t \<noteq> Some l"
    and b: "buffer_ok buf sz" "sz mod sectorsize = 0" "off mod sectorsize = 0" "off < 2 ^ 57"
  obtains h' where "send_command h s cmd buf sz off l = Inr h'" "hd_inv h'" "\<forall>t. bit (hd_active h') t \<longleftrightarrow> bit (hd_active h) t \<or> t = s"
    "\<forall>t. bit (hd_outstanding h') t \<longleftrightarrow> bit (hd_outstanding h) t \<or> t = s" "hd_status h' = (hd_status h)(s := Some l)" "hd_stat h' = (hd_stat h)(l := E_AGAIN)"
    "hd_mem h' = hd_mem h" "hd_disk h' = hd_disk h" "hd_nslots h' = hd_nslots h" "cmd_of h' s = (cmd = cmd_write_fpdma_queued, [(buf, sz)], off)" "\<forall>t. t \<noteq> s \<longrightarrow> cmd_of h' t = cmd_of h t"
proof -
  have s32: "s < 32" using s(1) hd_invD(2)[OF inv] by simp
  define ns where "ns = (word_of_nat (sz div sectorsize) :: u64)"
  define h' where "h' = h\<lparr>hd_stat := (hd_stat h)(l := E_AGAIN), hd_ct := (hd_ct h)(s := (hd_ct h s)\<lparr>ct_buf := (ct_buf (hd_ct h s))[0 := \<lparr>bs_pa = buf, bs_maxbyte = sz - 1\<rparr>],
        ct_cfis := ncq_cfis cmd s (word_of_nat (off div sectorsize)) ns False 0 @ drop 4 (ct_cfis (hd_ct h s))\<rparr>),
      hd_ch := (hd_ch h)(s := (hd_ch h s)\<lparr>ch_nbuf := 1, ch_flags := 4 OR ch_clear_flag OR (if cmd = cmd_write_fpdma_queued then ch_write_flag else 0), ch_pos := 0\<rparr>),
      hd_active := set_bit s (hd_active h), hd_outstanding := set_bit s (hd_outstanding h), hd_available := (hd_available h + 2 ^ 32 - 1) mod 2 ^ 32,
      hd_status := (hd_status h)(s := Some l)\<rparr>"
  have run: "send_command h s cmd buf sz off l = Inr h'"
    using s b(1) by (simp add: send_command_def hd_clear_def push_buffer_def issue_ncq_def buffer_ok_def h'_def ns_def Let_def)
  have act: "bit (hd_active h') t \<longleftrightarrow> bit (hd_active h) t \<or> t = s" for t using s32 by (auto simp: h'_def bit_set_bit_iff)
  have out: "bit (hd_outstanding h') t \<longleftrightarrow> bit (hd_outstanding h) t \<or> t = s" for t using s32 by (auto simp: h'_def bit_set_bit_iff)
  have "{t. bit (hd_outstanding h') t} = insert s {t. bit (hd_outstanding h) t}" using out by auto
  then have c: "card {t. bit (hd_outstanding h') t} = Suc (card {t. bit (hd_outstanding h) t})" using s(2) finite_bits[of "hd_outstanding h"] by simp
  have "card {t. bit (hd_outstanding h') t} \<le> card {..<hd_nslots h}"
    by (rule card_mono) (use out s(1) hd_invD(3)[OF inv] in auto)
  then obtain m where m: "hd_available h = Suc m" "m < 32" using c hd_invD(2,4)[OF inv] by (cases "hd_available h") auto
  then have "hd_available h' = m" by (simp add: h'_def)
  then have av: "hd_available h' + card {t. bit (hd_outstanding h') t} = hd_nslots h" using c m(1) hd_invD(4)[OF inv] by simp
  have inv': "hd_inv h'"
    unfolding hd_inv_def
  proof (intro conjI allI impI)
    fix t assume "bit (hd_outstanding h') t"
    then show "\<exists>k. hd_status h' t = Some k \<and> hd_stat h' k = E_AGAIN" using hd_invD(6)[OF inv, of t] out by (cases "t = s") (auto simp: h'_def)
  next
    fix t u k assume "bit (hd_outstanding h') t" "bit (hd_outstanding h') u" "hd_status h' t = Some k" "hd_status h' u = Some k"
    then show "t = u" using hd_invD(7)[OF inv, of t u k] out l by (cases "t = s"; cases "u = s") (auto simp: h'_def)
  next
    show "hd_available h' + card {t. bit (hd_outstanding h') t} = hd_nslots h'" unfolding av by (simp add: h'_def)
  qed (use act out s hd_invD(1,2,3,5,8)[OF inv] in \<open>auto simp: h'_def\<close>)
  have o: "off div sectorsize < 2 ^ 48" using b(4) by (simp add: less_mult_imp_div_less)
  then have sec: "unat (word_of_nat (off div sectorsize) :: u64) = off div sectorsize" by (simp add: unsigned_of_nat take_bit_nat_eq_self)
  have "sz div sectorsize \<le> 128" using b(1) div_le_mono[of sz 65536 sectorsize] by (simp add: buffer_ok_def)
  then have nn: "ns < 2 ^ 16" by (simp add: ns_def word_less_nat_alt unsigned_of_nat take_bit_nat_eq_self)
  have lba: "ncq_lba (ncq_cfis cmd s (word_of_nat (off div sectorsize)) ns False 0 @ xs) = off div sectorsize" for xs
    using ncq_lba_cfis(1)[OF _ nn, of "word_of_nat (off div sectorsize)"] o sec by (simp add: word_less_nat_alt)
  have pos: "off div sectorsize * sectorsize = off" using b(3) by (simp add: mod_eq_0_iff_dvd)
  obtain x xs where bl: "ct_buf (hd_ct h s) = x # xs" using hd_invD(8)[OF inv, of s] by (cases "ct_buf (hd_ct h s)") auto
  have fl: "(4 OR ch_clear_flag OR (if cmd = cmd_write_fpdma_queued then ch_write_flag else 0)) AND ch_write_flag \<noteq> 0 \<longleftrightarrow> cmd = cmd_write_fpdma_queued" by simp
  have cs: "cmd_of h' s = (cmd = cmd_write_fpdma_queued, [(buf, sz)], off)"
    using lba pos bl fl b(1) by (simp add: cmd_of_def h'_def buffer_ok_def)
  show ?thesis
    by (rule that[OF run inv']) (use act out cs in \<open>simp_all add: h'_def cmd_of_def\<close>)
qed

section \<open>Waiting\<close>

text \<open>The device finishes only commands that it was given, and at least one of them when there are some.\<close>

definition device_fair :: "(ahcistate \<Rightarrow> nat list) \<Rightarrow> bool" where
  "device_fair dev \<longleftrightarrow> (\<forall>h. set (dev h) \<subseteq> active_slots h \<and> (active_slots h \<noteq> {} \<longrightarrow> dev h \<noteq> []))"

text \<open>A property of the disk state that the device and its interrupts keep.\<close>

locale disk_client =
  fixes I :: "ahcistate \<Rightarrow> bool"
  assumes inv: "I h \<Longrightarrow> hd_inv h"
    and finish: "I h \<Longrightarrow> bit (hd_active h) s \<Longrightarrow> I (hd_finish h s)"
    and acked: "I h \<Longrightarrow> ahci_interrupt h False = Inr h' \<Longrightarrow> I h'"
begin

lemma finish_all: "I h \<Longrightarrow> I (foldl hd_finish h ss) \<and> (\<forall>t. bit (hd_active (foldl hd_finish h ss)) t \<longleftrightarrow> bit (hd_active h) t \<and> t \<notin> set ss)"
proof (induction ss arbitrary: h)
  case (Cons s ss)
  have "I (hd_finish h s)" using finish[OF Cons.prems] hd_finish_fields(10)[of h s] Cons.prems by (cases "bit (hd_active h) s") auto
  then show ?case using Cons.IH[of "hd_finish h s"] hd_finish_fields(9) by auto
qed simp

lemma wait_ok:
  assumes "I h" "device_fair dev" "card (active_slots h) < fuel" "\<And>h. I h \<Longrightarrow> hd_outstanding h = 0 \<Longrightarrow> P h"
  shows "\<exists>h'. hd_wait fuel dev P h = Inr h' \<and> I h' \<and> P h'"
  using assms(1,3)
proof (induction fuel arbitrary: h)
  case (Suc fuel)
  show ?case
  proof (cases "P h")
    case False
    let ?h1 = "foldl hd_finish h (dev h)"
    have h1: "I ?h1" "\<And>t. bit (hd_active ?h1) t \<longleftrightarrow> bit (hd_active h) t \<and> t \<notin> set (dev h)" using finish_all[OF Suc.prems(1), of "dev h"] by blast+
    obtain h2 where h2: "ahci_interrupt ?h1 False = Inr h2" "hd_same ?h1 h2" "\<forall>t. bit (hd_outstanding h2) t \<longleftrightarrow> bit (hd_active ?h1) t"
      using ahci_interrupt_ok[OF inv[OF h1(1)]] by metis
    have I2: "I h2" using acked[OF h1(1) h2(1)] .
    have a2: "active_slots h2 = active_slots h - set (dev h)" using h2(2) h1(2) by (auto simp: active_slots_def hd_same_def)
    have run: "hd_wait (Suc fuel) dev P h = hd_wait fuel dev P h2" using False h2(1) by simp
    show ?thesis
    proof (cases "active_slots h = {}")
      case True
      then have "\<not> bit (hd_outstanding h2) t" for t using h2(3) h1(2) by (auto simp: active_slots_def)
      then have "hd_outstanding h2 = 0" by (intro bit_word_eqI) simp
      then have "P h2" using assms(4)[OF I2] by blast
      then show ?thesis using run I2 by (cases fuel) auto
    next
      case ne: False
      then have d: "dev h \<noteq> []" "set (dev h) \<subseteq> active_slots h" using assms(2) unfolding device_fair_def by blast+
      then obtain x where "x \<in> set (dev h)" by (cases "dev h") auto
      then have "active_slots h2 \<subset> active_slots h" using a2 d(2) by auto
      then have "card (active_slots h2) < card (active_slots h)" by (rule psubset_card_mono[rotated]) (simp add: active_slots_def finite_bits)
      then show ?thesis using Suc.IH[OF I2] Suc.prems(2) run by simp
    qed
  qed (use Suc.prems in simp)
qed simp

end

section \<open>One transfer\<close>

text \<open>A command whose buffer and disk range are apart from a given one.\<close>

definition apart :: "bool \<times> (nat \<times> nat) list \<times> nat \<Rightarrow> nat \<Rightarrow> nat \<Rightarrow> nat \<Rightarrow> bool" where
  "apart c buf sz off \<longleftrightarrow> (\<exists>w pa len pos. c = (w, [(pa, len)], pos) \<and> (pa + len \<le> buf \<or> buf + sz \<le> pa) \<and> (pos + len \<le> off \<or> off + sz \<le> pos))"

lemma apart_finish:
  assumes "apart (cmd_of h s) buf sz off" "bit (hd_active h) s" "i < sz"
  shows "hd_mem (hd_finish h s) (buf + i) = hd_mem h (buf + i)" "hd_disk (hd_finish h s) (off + i) = hd_disk h (off + i)"
proof -
  obtain w pa len pos where c: "cmd_of h s = (w, [(pa, len)], pos)" "pa + len \<le> buf \<or> buf + sz \<le> pa" "pos + len \<le> off \<or> off + sz \<le> pos"
    using assms(1) unfolding apart_def by blast
  show "hd_mem (hd_finish h s) (buf + i) = hd_mem h (buf + i)" "hd_disk (hd_finish h s) (off + i) = hd_disk h (off + i)"
    using hd_finish_data[OF assms(2) c(1)] c(2,3) assms(3) by (auto simp: copy_bytes_def)
qed

text \<open>Before the command is sent: the source and the target are as they were.\<close>

definition unsent :: "(nat \<Rightarrow> u8) \<Rightarrow> (nat \<Rightarrow> u8) \<Rightarrow> nat \<Rightarrow> nat \<Rightarrow> nat \<Rightarrow> nat \<Rightarrow> ahcistate \<Rightarrow> bool" where
  "unsent m d buf sz off l h \<longleftrightarrow> hd_inv h \<and> (\<forall>s. bit (hd_active h) s \<longrightarrow> apart (cmd_of h s) buf sz off)
     \<and> (\<forall>i < sz. hd_mem h (buf + i) = m (buf + i) \<and> hd_disk h (off + i) = d (off + i)) \<and> (\<forall>s. bit (hd_outstanding h) s \<longrightarrow> hd_status h s \<noteq> Some l)"

interpretation unsent: disk_client "unsent m d buf sz off l" for m d buf sz off l
proof
  fix h s h'
  show "hd_inv h" if "unsent m d buf sz off l h" using that by (simp add: unsent_def)
  show "unsent m d buf sz off l (hd_finish h s)" if "unsent m d buf sz off l h" "bit (hd_active h) s"
  proof -
    have a: "apart (cmd_of h s) buf sz off" using that unfolding unsent_def by blast
    show ?thesis using that hd_finish_inv[of h s] apart_finish[OF a that(2)] unfolding unsent_def by (simp add: hd_finish_fields)
  qed
  show "unsent m d buf sz off l h'" if "unsent m d buf sz off l h" "ahci_interrupt h False = Inr h'"
  proof -
    have i: "hd_inv h" using that by (simp add: unsent_def)
    note * = ahci_interruptD[OF i that(2)]
    show ?thesis using that(1) * hd_same_cmd[OF *(2)] hd_invD(5)[OF i] unfolding unsent_def by (auto simp: hd_same_def)
  qed
qed

text \<open>After it is sent: as long as slot \<open>s\<close> is active it waits to be done, and then it is.\<close>

definition sent :: "(nat \<Rightarrow> u8) \<Rightarrow> (nat \<Rightarrow> u8) \<Rightarrow> nat \<Rightarrow> nat \<Rightarrow> nat \<Rightarrow> nat \<Rightarrow> bool \<Rightarrow> nat \<Rightarrow> ahcistate \<Rightarrow> bool" where
  "sent m d buf sz off l w s h \<longleftrightarrow> hd_inv h \<and> (\<forall>t. bit (hd_active h) t \<longrightarrow> t \<noteq> s \<longrightarrow> apart (cmd_of h t) buf sz off)
     \<and> (bit (hd_active h) s \<longrightarrow> cmd_of h s = (w, [(buf, sz)], off) \<and> (\<forall>i < sz. hd_mem h (buf + i) = m (buf + i) \<and> hd_disk h (off + i) = d (off + i)))
     \<and> (\<not> bit (hd_active h) s \<longrightarrow> (\<forall>i < sz. hd_mem h (buf + i) = (if w then m (buf + i) else d (off + i)) \<and> hd_disk h (off + i) = (if w then m (buf + i) else d (off + i))))
     \<and> (if bit (hd_outstanding h) s then hd_status h s = Some l else hd_stat h l = 0) \<and> (\<forall>t. bit (hd_outstanding h) t \<longrightarrow> t \<noteq> s \<longrightarrow> hd_status h t \<noteq> Some l)"

interpretation sent: disk_client "sent m d buf sz off l w s" for m d buf sz off l w s
proof
  fix h t h'
  show "hd_inv h" if "sent m d buf sz off l w s h" using that by (simp add: sent_def)
  show "sent m d buf sz off l w s (hd_finish h t)" if "sent m d buf sz off l w s h" "bit (hd_active h) t"
  proof (cases "t = s")
    case True
    have c: "cmd_of h s = (w, [(buf, sz)], off)" "\<forall>i < sz. hd_mem h (buf + i) = m (buf + i) \<and> hd_disk h (off + i) = d (off + i)"
      using that True unfolding sent_def by blast+
    have b: "bit (hd_active h) s" using that(2) True by simp
    have "\<forall>i < sz. hd_mem (hd_finish h s) (buf + i) = (if w then m (buf + i) else d (off + i)) \<and> hd_disk (hd_finish h s) (off + i) = (if w then m (buf + i) else d (off + i))"
      using hd_finish_data[OF b c(1)] c(2) by (simp add: copy_bytes_def)
    then show ?thesis using that hd_finish_inv[of h s] True unfolding sent_def by (simp add: hd_finish_fields)
  next
    case False
    then have a: "apart (cmd_of h t) buf sz off" using that unfolding sent_def by blast
    show ?thesis using that False hd_finish_inv[of h t] apart_finish[OF a that(2)] unfolding sent_def by (simp add: hd_finish_fields)
  qed
  show "sent m d buf sz off l w s h'" if "sent m d buf sz off l w s h" "ahci_interrupt h False = Inr h'"
  proof -
    have i: "hd_inv h" using that by (simp add: sent_def)
    note * = ahci_interruptD[OF i that(2)]
    have st: "if bit (hd_outstanding h') s then hd_status h' s = Some l else hd_stat h' l = 0"
    proof (cases "bit (hd_active h) s")
      case True
      then show ?thesis using that(1) *(3,4) hd_invD(5)[OF i True] unfolding sent_def by simp
    next
      case False
      show ?thesis
      proof (cases "bit (hd_outstanding h) s")
        case True
        then have "hd_status h s = Some l" using that(1) unfolding sent_def by simp
        then show ?thesis using *(3,5) True False by auto
      next
        case out: False
        then have "hd_stat h l = 0" using that(1) unfolding sent_def by simp
        then show ?thesis using *(3,5) False by auto
      qed
    qed
    show ?thesis using that(1) *(1-4) st hd_same_cmd[OF *(2)] hd_invD(5)[OF i] unfolding sent_def by (auto simp: hd_same_def)
  qed
qed

lemma active_slots_le: "hd_inv h \<Longrightarrow> card (active_slots h) \<le> 32"
proof -
  assume i: "hd_inv h"
  have "active_slots h \<subseteq> {..<32}" using hd_invD(2,3,5)[OF i] by (fastforce simp: active_slots_def)
  then show ?thesis using card_mono[of "{..<32}" "active_slots h"] by simp
qed


text \<open>A disk of one slot, on which nothing has happened, and a device that finishes everything that it is given.\<close>

definition disk0 :: ahcistate where
  "disk0 = \<lparr>hd_ch = (\<lambda>_. \<lparr>ch_flags = 0, ch_nbuf = 0, ch_pos = 0\<rparr>), hd_ct = (\<lambda>_. \<lparr>ct_cfis = replicate 16 0, ct_buf = replicate 16 \<lparr>bs_pa = 0, bs_maxbyte = 0\<rparr>\<rparr>),
     hd_active = 0, hd_nslots = 1, hd_available = 1, hd_outstanding = 0, hd_status = (\<lambda>_. None), hd_stat = (\<lambda>_. 0), hd_mem = (\<lambda>_. 0), hd_disk = (\<lambda>a. word_of_nat a)\<rparr>"

definition dev0 :: "ahcistate \<Rightarrow> nat list" where
  "dev0 h = filter (bit (hd_active h)) [0..<32]"

lemma dev0_fair: "device_fair dev0"
  unfolding device_fair_def
proof (intro allI conjI impI)
  fix h
  show "set (dev0 h) \<subseteq> active_slots h" by (auto simp: dev0_def active_slots_def)
  assume "active_slots h \<noteq> {}"
  then obtain s where "bit (hd_active h) s" by (auto simp: active_slots_def)
  moreover from this have "s < 32" using bit_imp_le_length[of "hd_active h" s] by simp
  ultimately have "s \<in> set (dev0 h)" by (simp add: dev0_def)
  then show "dev0 h \<noteq> []" by auto
qed

lemma disk0_inv: "hd_inv disk0"
  by (simp add: hd_inv_def disk0_def)


section \<open>Start-up\<close>

text \<open>
  A disk of \<open>2 ^ 31\<close> or more sectors whose word 101 has its top bit set stops the kernel: the shift of that word is done in a signed 32-bit \<open>int\<close>, its sign fills
  the upper half of \<open>nsectors_\<close>, and the assertion on the number of sectors fails.
\<close>

theorem identify_large_disk_asserts:
  assumes "bit (devid 101) 15"
  shows "identify_nsectors devid = Inl Assert_Fail"
proof -
  let ?w = "(ucast (devid 100) :: u32) OR push_bit 16 (ucast (devid 101))"
  have "bit ?w 31" using assms by (simp add: bit_simps)
  then have "bit (scast ?w :: u64) 48" by (simp add: bit_simps)
  then have b: "bit ((scast ?w :: u64) OR push_bit 32 (ucast (devid 102)) OR push_bit 48 (ucast (devid 103))) 48" (is "bit ?n 48") by (simp add: bit_or_iff)
  have "\<not> ?n < 0x1000000000000"
  proof
    assume "?n < 0x1000000000000"
    then have "unat ?n < 2 ^ 48" by (simp add: word_less_nat_alt)
    then have "take_bit 48 (unat ?n) = unat ?n" by (rule take_bit_nat_eq_self)
    moreover have "bit (unat ?n) 48" using b by (simp add: bit_unsigned_iff)
    ultimately show False using bit_take_bit_iff[of 48 "unat ?n" 48] by simp
  qed
  then show ?thesis by (simp add: identify_nsectors_def Let_def)
qed

end
