(* ===== verification/Bufcache.thy ===== *)
theory Bufcache
  imports Ahci
begin

text \<open>
  The buffer cache of \<open>k-chkfs.cc\<close>.  An entry is named by its index in \<open>e_\<close>; the flags are three booleans; \<open>fetch_status_\<close> of entry \<open>i\<close> is the status
  variable \<open>i\<close> of the disk driver.  The lists hold indices: \<open>e_list_\<close> and \<open>pref_list_\<close> share one link per entry, so erasing an entry takes it out of
  whichever of the two it is in.  \<open>bc_avail\<close> are the pages that \<open>kalloc\<close> can still return; \<open>kfree\<close> clears a page and gives it back.  Each
  function is one step of the process that calls it, with the disk present; while it waits for the disk, the device works on its commands.
\<close>

abbreviation ne :: nat where "ne \<equiv> 100"
abbreviation n_prefetch :: nat where "n_prefetch \<equiv> 20"
abbreviation emptyblock :: u32 where "emptyblock \<equiv> - 1"

record bufentry =
  be_bn :: u32
  be_ref :: u32
  be_write_ref :: u32
  be_loaded :: bool
  be_loading :: bool
  be_dirty :: bool
  be_buf :: "nat option"
  be_prefetched :: bool

record bufcache =
  bc_e :: "bufentry list"
  bc_list :: "nat list"
  bc_pref :: "nat list"
  bc_dirty :: "nat list"
  bc_hd :: ahcistate
  bc_avail :: "nat list"

definition bc_entry :: "bufcache \<Rightarrow> nat \<Rightarrow> bufentry" where
  "bc_entry st i = bc_e st ! i"

definition bc_upd :: "bufcache \<Rightarrow> nat \<Rightarrow> (bufentry \<Rightarrow> bufentry) \<Rightarrow> bufcache" where
  "bc_upd st i f = st\<lparr>bc_e := (bc_e st)[i := f (bc_e st ! i)]\<rparr>"

definition loadeding :: "bufentry \<Rightarrow> bool" where
  "loadeding e \<longleftrightarrow> be_loaded e \<or> be_loading e"

section \<open>Lists and buffers\<close>

definition bc_erase :: "bufcache \<Rightarrow> nat \<Rightarrow> bufcache res" where
  "bc_erase st i = assert_then (i \<in> set (bc_list st) \<union> set (bc_pref st)) (Inr (st\<lparr>bc_list := remove1 i (bc_list st), bc_pref := remove1 i (bc_pref st)\<rparr>))"

definition list_push_back :: "bufcache \<Rightarrow> nat \<Rightarrow> bufcache res" where
  "list_push_back st i = assert_then (i \<notin> set (bc_list st) \<union> set (bc_pref st)) (Inr (st\<lparr>bc_list := bc_list st @ [i]\<rparr>))"

definition pref_push_front :: "bufcache \<Rightarrow> nat \<Rightarrow> bufcache res" where
  "pref_push_front st i = assert_then (i \<notin> set (bc_list st) \<union> set (bc_pref st)) (Inr (st\<lparr>bc_pref := i # bc_pref st\<rparr>))"

definition be_clear :: "bufcache \<Rightarrow> nat \<Rightarrow> bufcache res" where
  "be_clear st i =
     assert_then (be_ref (bc_entry st i) = 0)
       (Inr (bc_upd st i (\<lambda>e. e\<lparr>be_bn := emptyblock, be_loaded := False, be_loading := False, be_dirty := False, be_buf := None, be_prefetched := False\<rparr>)))"

definition wipe_page :: "(nat \<Rightarrow> u8) \<Rightarrow> nat \<Rightarrow> nat \<Rightarrow> u8" where
  "wipe_page m p = (\<lambda>a. if p \<le> a \<and> a < p + blocksize then 0 else m a)"

definition free_buf :: "bufcache \<Rightarrow> nat \<Rightarrow> bufcache" where
  "free_buf st i =
     (case be_buf (bc_entry st i) of
        None \<Rightarrow> st
      | Some p \<Rightarrow> st\<lparr>bc_avail := p # bc_avail st, bc_hd := (bc_hd st)\<lparr>hd_mem := wipe_page (hd_mem (bc_hd st)) p\<rparr>\<rparr>)"

text \<open>An entry that is evicted: erased from its list, its buffer freed, cleared.\<close>

definition evict :: "bufcache \<Rightarrow> nat \<Rightarrow> bufcache res" where
  "evict st i = rbind (bc_erase st i) (\<lambda>st1. be_clear (free_buf st1 i) i)"

section \<open>Writing back\<close>

definition sully :: "bufcache \<Rightarrow> nat \<Rightarrow> bufcache" where
  "sully st i = bc_upd (if be_dirty (bc_entry st i) then st else st\<lparr>bc_dirty := i # bc_dirty st\<rparr>) i (\<lambda>e. e\<lparr>be_dirty := True\<rparr>)"

definition get_write :: "bufcache \<Rightarrow> nat \<Rightarrow> bufcache res" where
  "get_write st i =
     (if be_write_ref (bc_entry st i) = 0 then Inr (sully (bc_upd st i (\<lambda>e. e\<lparr>be_write_ref := be_write_ref e + 1\<rparr>)) i) else Inl No_Return)"

definition put_write :: "bufcache \<Rightarrow> nat \<Rightarrow> bufcache" where
  "put_write st i = bc_upd st i (\<lambda>e. e\<lparr>be_write_ref := be_write_ref e - 1\<rparr>)"

definition sync_one :: "(ahcistate \<Rightarrow> nat list) \<Rightarrow> bufcache \<Rightarrow> nat \<Rightarrow> bufcache res" where
  "sync_one dev st i =
     rbind (get_write st i) (\<lambda>st1.
       case be_buf (bc_entry st1 i) of
         None \<Rightarrow> Inl Null_Deref
       | Some p \<Rightarrow> rbind (read_or_write dev (bc_hd st1) cmd_write_fpdma_queued p blocksize (unat (be_bn (bc_entry st1 i)) * blocksize) i) (\<lambda>(h, r).
           Inr (put_write (bc_upd (st1\<lparr>bc_hd := h\<rparr>) i (\<lambda>e. e\<lparr>be_dirty := False\<rparr>)) i)))"

primrec sync_loop :: "(ahcistate \<Rightarrow> nat list) \<Rightarrow> bufcache \<Rightarrow> nat list \<Rightarrow> bufcache res" where
  "sync_loop dev st [] = Inr st"
| "sync_loop dev st (i # is) = rbind (sync_one dev st i) (\<lambda>st1. sync_loop dev st1 is)"

primrec drop_loop :: "bufcache \<Rightarrow> nat list \<Rightarrow> bufcache res" where
  "drop_loop st [] = Inr st"
| "drop_loop st (i # is) = rbind (if be_bn (bc_entry st i) \<noteq> emptyblock \<and> be_ref (bc_entry st i) = 0 then evict st i else Inr st) (\<lambda>st1. drop_loop st1 is)"

definition sync :: "(ahcistate \<Rightarrow> nat list) \<Rightarrow> bufcache \<Rightarrow> bool \<Rightarrow> bufcache res" where
  "sync dev st dropping = rbind (sync_loop dev (st\<lparr>bc_dirty := []\<rparr>) (bc_dirty st)) (\<lambda>st1. if dropping then drop_loop st1 [0..<ne] else Inr st1)"

section \<open>Finding a slot\<close>

primrec find_idx :: "('a \<Rightarrow> bool) \<Rightarrow> 'a list \<Rightarrow> nat" where
  "find_idx P [] = 0"
| "find_idx P (x # xs) = (if P x then 0 else Suc (find_idx P xs))"

text \<open>The search for an empty entry writes the cache back when it meets a dirty entry without references, and goes on with entry 1.\<close>

primrec empty_search :: "nat \<Rightarrow> (ahcistate \<Rightarrow> nat list) \<Rightarrow> bufcache \<Rightarrow> nat \<Rightarrow> (bufcache \<times> nat) res" where
  "empty_search 0 dev st i = Inl No_Return"
| "empty_search (Suc fuel) dev st i =
     (if i \<noteq> ne \<and> be_bn (bc_entry st i) \<noteq> emptyblock
      then if be_dirty (bc_entry st i) \<and> be_ref (bc_entry st i) = 0
           then rbind (sync dev st False) (\<lambda>st1. empty_search fuel dev st1 1)
           else empty_search fuel dev st (i + 1)
      else Inr (st, i))"

definition lru_victim :: "bufcache \<Rightarrow> nat option" where
  "lru_victim st = List.find (\<lambda>b. be_ref (bc_entry st b) = 0 \<and> \<not> be_dirty (bc_entry st b)) (bc_list st)"

definition pref_victim :: "bufcache \<Rightarrow> nat option" where
  "pref_victim st = List.find (\<lambda>b. be_prefetched (bc_entry st b) \<and> hd_stat (bc_hd st) b \<noteq> E_AGAIN \<and> \<not> be_dirty (bc_entry st b)) (bc_pref st)"

definition take_slot :: "bufcache \<Rightarrow> nat \<Rightarrow> u32 \<Rightarrow> (bufcache \<times> nat option) res" where
  "take_slot st i bn = rbind (list_push_back (bc_upd st i (\<lambda>e. e\<lparr>be_bn := bn\<rparr>)) i) (\<lambda>st1. Inr (st1, Some i))"

definition get_bufentry_slot :: "(ahcistate \<Rightarrow> nat list) \<Rightarrow> bufcache \<Rightarrow> u32 \<Rightarrow> (bufcache \<times> nat option) res" where
  "get_bufentry_slot dev st bn =
     (let i = find_idx (\<lambda>e. be_bn e = bn) (bc_e st)
      in if i \<noteq> ne then rbind (bc_erase st i) (\<lambda>st1. take_slot st1 i bn)
         else rbind (empty_search (2 * ne + 2) dev st 0) (\<lambda>(st1, i1).
           if i1 \<noteq> ne then take_slot st1 i1 bn
           else case lru_victim st1 of
                  Some b \<Rightarrow> rbind (evict st1 b) (\<lambda>st2. take_slot st2 b bn)
                | None \<Rightarrow> (case pref_victim st1 of
                    Some b \<Rightarrow> rbind (evict st1 b) (\<lambda>st2. take_slot st2 b bn)
                  | None \<Rightarrow> Inr (st1, None))))"

section \<open>Loading blocks\<close>

definition load_disk_block :: "bufcache \<Rightarrow> nat \<Rightarrow> u32 \<Rightarrow> (bufcache \<times> bool) res" where
  "load_disk_block st i bn =
     (if loadeding (bc_entry st i) then Inr (st, True)
      else case (be_buf (bc_entry st i), bc_avail st) of
             (None, []) \<Rightarrow> Inr (bc_upd st i (\<lambda>e. e\<lparr>be_ref := be_ref e - 1\<rparr>), False)
           | (buf, avail) \<Rightarrow>
               let st1 = (if buf = None then (bc_upd st i (\<lambda>e. e\<lparr>be_buf := Some (hd avail)\<rparr>))\<lparr>bc_avail := tl avail\<rparr> else st);
                   st2 = bc_upd st1 i (\<lambda>e. e\<lparr>be_loading := True\<rparr>)
               in rbind (read_or_write_nonblocking (bc_hd st2) cmd_read_fpdma_queued (the (be_buf (bc_entry st2 i))) blocksize (unat bn * blocksize) i) (\<lambda>(h, r).
                    if r then Inr (st2\<lparr>bc_hd := h\<rparr>, True) else Inr (bc_upd (st2\<lparr>bc_hd := h\<rparr>) i (\<lambda>e. e\<lparr>be_loading := False\<rparr>), False)))"

primrec prefetch_loop :: "(ahcistate \<Rightarrow> nat list) \<Rightarrow> bufcache \<Rightarrow> u32 \<Rightarrow> nat list \<Rightarrow> bufcache res" where
  "prefetch_loop dev st bn [] = Inr st"
| "prefetch_loop dev st bn (n # ns) =
     rbind (get_bufentry_slot dev st (bn + word_of_nat n)) (\<lambda>(st1, r).
       case r of
         None \<Rightarrow> Inr st1
       | Some i \<Rightarrow>
           rbind (if be_ref (bc_entry st1 i) = 0
                  then rbind (bc_erase st1 i) (\<lambda>st2. rbind (pref_push_front st2 i) (\<lambda>st3. Inr (bc_upd st3 i (\<lambda>e. e\<lparr>be_prefetched := True\<rparr>))))
                  else Inr st1) (\<lambda>st4.
           rbind (load_disk_block st4 i (bn + word_of_nat n)) (\<lambda>(st5, ok). if ok then prefetch_loop dev st5 bn ns else Inr st5)))"

definition clean_page :: "((nat \<Rightarrow> u8) \<Rightarrow> nat \<Rightarrow> u8) option \<Rightarrow> (nat \<Rightarrow> u8) \<Rightarrow> nat \<Rightarrow> nat \<Rightarrow> u8" where
  "clean_page cleaner m p =
     (case cleaner of None \<Rightarrow> m | Some c \<Rightarrow> (\<lambda>a. if p \<le> a \<and> a < p + blocksize then c (\<lambda>k. m (p + k)) (a - p) else m a))"

definition loaded_entry :: "bufcache \<Rightarrow> nat \<Rightarrow> ((nat \<Rightarrow> u8) \<Rightarrow> nat \<Rightarrow> u8) option \<Rightarrow> bufcache res" where
  "loaded_entry st i cleaner =
     (if be_loading (bc_entry st i)
      then let st1 = bc_upd st i (\<lambda>e. e\<lparr>be_loading := False, be_loaded := True\<rparr>);
               st2 = st1\<lparr>bc_hd := (bc_hd st1)\<lparr>hd_mem := clean_page cleaner (hd_mem (bc_hd st1)) (the (be_buf (bc_entry st1 i)))\<rparr>\<rparr>
           in if be_prefetched (bc_entry st2 i)
              then rbind (bc_erase st2 i) (\<lambda>st3. rbind (list_push_back st3 i) (\<lambda>st4. Inr (bc_upd st4 i (\<lambda>e. e\<lparr>be_prefetched := False\<rparr>))))
              else Inr st2
      else Inr st)"

definition get_disk_entry :: "(ahcistate \<Rightarrow> nat list) \<Rightarrow> bufcache \<Rightarrow> u32 \<Rightarrow> ((nat \<Rightarrow> u8) \<Rightarrow> nat \<Rightarrow> u8) option \<Rightarrow> (bufcache \<times> nat option) res" where
  "get_disk_entry dev st bn cleaner =
     rbind (get_bufentry_slot dev st bn) (\<lambda>(st1, r).
       case r of
         None \<Rightarrow> Inr (st1, None)
       | Some i \<Rightarrow>
           let st2 = (if bn \<noteq> 0 then bc_upd st1 i (\<lambda>e. e\<lparr>be_ref := be_ref e + 1\<rparr>) else st1);
               prefetching = (bn \<noteq> 0 \<and> \<not> loadeding (bc_entry st2 i))
           in rbind (load_disk_block st2 i bn) (\<lambda>(st3, ok).
                if \<not> ok then Inr (st3, None)
                else rbind (if prefetching then prefetch_loop dev st3 bn [1..<Suc n_prefetch] else Inr st3) (\<lambda>st4.
                     rbind (hd_wait 33 dev (\<lambda>h. hd_stat h i \<noteq> E_AGAIN) (bc_hd st4)) (\<lambda>h.
                     rbind (loaded_entry (st4\<lparr>bc_hd := h\<rparr>) i cleaner) (\<lambda>st5. Inr (st5, Some i))))))"

section \<open>Entries by address and references\<close>

definition find_entry :: "bufcache \<Rightarrow> nat \<Rightarrow> nat res" where
  "find_entry st buf =
     (let i = find_idx (\<lambda>e. be_buf e = Some (buf div blocksize * blocksize)) (bc_e st)
      in if i \<noteq> length (bc_e st) then Inr i else Inl Assert_Fail)"

definition put_entry :: "bufcache \<Rightarrow> nat \<Rightarrow> bufcache" where
  "put_entry st i = (if be_bn (bc_entry st i) \<noteq> 0 then bc_upd st i (\<lambda>e. e\<lparr>be_ref := be_ref e - 1\<rparr>) else st)"

text \<open>
  The state that the constructor leaves: the disk and the page allocator are not there yet, so entry 0 is taken for the superblock, without a
  buffer, and its reference count is set to 1.
\<close>

definition be_empty :: bufentry where
  "be_empty = \<lparr>be_bn = emptyblock, be_ref = 0, be_write_ref = 0, be_loaded = False, be_loading = False, be_dirty = False, be_buf = None, be_prefetched = False\<rparr>"

definition bufcache_new :: "ahcistate \<Rightarrow> nat list \<Rightarrow> bufcache" where
  "bufcache_new h avail = \<lparr>bc_e = (be_empty\<lparr>be_bn := 0, be_ref := 1\<rparr>) # replicate (ne - 1) be_empty, bc_list = [0], bc_pref = [], bc_dirty = [], bc_hd = h, bc_avail = avail\<rparr>"

end
