(* ===== verification/Bufcache_Io.thy ===== *)
theory Bufcache_Io
  imports Ahci_Correct Bufcache
begin

text \<open>
  The entries of the buffer cache and the commands that the disk has for them: what is in the queue, which pages and blocks are the same, and that this is kept by the
  device, by interrupts and by the commands that the cache sends.
\<close>

section \<open>Entries and commands\<close>

text \<open>The memory page \<open>p\<close> holds block \<open>bn\<close> of the disk.\<close>

definition same_page :: "ahcistate \<Rightarrow> nat \<Rightarrow> u32 \<Rightarrow> bool" where
  "same_page h p bn \<longleftrightarrow> (\<forall>k < blocksize. hd_mem h (p + k) = hd_disk h (unat bn * blocksize + k))"

definition page_ok :: "nat \<Rightarrow> bool" where
  "page_ok p \<longleftrightarrow> p mod blocksize = 0 \<and> p + blocksize \<le> 2 ^ 32"

text \<open>Entries have different blocks and different pages.\<close>

definition es_ok :: "bufentry list \<Rightarrow> bool" where
  "es_ok es \<longleftrightarrow> length es = ne \<and> (\<forall>i < ne. \<forall>p. be_buf (es ! i) = Some p \<longrightarrow> page_ok p \<and> be_bn (es ! i) \<noteq> emptyblock)
     \<and> (\<forall>i < ne. \<forall>j < ne. be_buf (es ! i) \<noteq> None \<longrightarrow> be_buf (es ! i) = be_buf (es ! j) \<longrightarrow> i = j)
     \<and> (\<forall>i < ne. \<forall>j < ne. be_bn (es ! i) \<noteq> emptyblock \<longrightarrow> be_bn (es ! i) = be_bn (es ! j) \<longrightarrow> i = j)
     \<and> (\<forall>i < ne. loadeding (es ! i) \<longrightarrow> be_buf (es ! i) \<noteq> None) \<and> (\<forall>i < ne. be_loaded (es ! i) \<longrightarrow> \<not> be_loading (es ! i))"

lemma es_okD:
  assumes "es_ok es"
  shows "length es = ne" "i < ne \<Longrightarrow> be_buf (es ! i) = Some p \<Longrightarrow> page_ok p" "i < ne \<Longrightarrow> be_buf (es ! i) = Some p \<Longrightarrow> be_bn (es ! i) \<noteq> emptyblock"
    "i < ne \<Longrightarrow> j < ne \<Longrightarrow> be_buf (es ! i) = Some p \<Longrightarrow> be_buf (es ! j) = Some p \<Longrightarrow> i = j"
    "i < ne \<Longrightarrow> j < ne \<Longrightarrow> be_bn (es ! i) \<noteq> emptyblock \<Longrightarrow> be_bn (es ! i) = be_bn (es ! j) \<Longrightarrow> i = j"
    "i < ne \<Longrightarrow> be_loaded (es ! i) \<Longrightarrow> \<exists>p. be_buf (es ! i) = Some p" "i < ne \<Longrightarrow> be_loading (es ! i) \<Longrightarrow> \<exists>p. be_buf (es ! i) = Some p"
    "i < ne \<Longrightarrow> be_loaded (es ! i) \<Longrightarrow> \<not> be_loading (es ! i)"
proof -
  note e = assms[unfolded es_ok_def loadeding_def]
  show "length es = ne" using e by (elim conjE)
  show "i < ne \<Longrightarrow> be_buf (es ! i) = Some p \<Longrightarrow> page_ok p" "i < ne \<Longrightarrow> be_buf (es ! i) = Some p \<Longrightarrow> be_bn (es ! i) \<noteq> emptyblock" using e by blast+
  show "i < ne \<Longrightarrow> j < ne \<Longrightarrow> be_buf (es ! i) = Some p \<Longrightarrow> be_buf (es ! j) = Some p \<Longrightarrow> i = j" using e by (metis option.distinct(1))
  show "i < ne \<Longrightarrow> j < ne \<Longrightarrow> be_bn (es ! i) \<noteq> emptyblock \<Longrightarrow> be_bn (es ! i) = be_bn (es ! j) \<Longrightarrow> i = j" using e by blast
  show "i < ne \<Longrightarrow> be_loaded (es ! i) \<Longrightarrow> \<exists>p. be_buf (es ! i) = Some p" "i < ne \<Longrightarrow> be_loading (es ! i) \<Longrightarrow> \<exists>p. be_buf (es ! i) = Some p" using e by blast+
  show "i < ne \<Longrightarrow> be_loaded (es ! i) \<Longrightarrow> \<not> be_loading (es ! i)" using e by blast
qed

text \<open>
  The commands in the queue are those of the entries: reads for the loading ones and, for the entry \<open>W\<close>, a write.  \<open>m\<close> is the memory of the
  loaded pages and \<open>d\<close> the disk apart from the block being written.
\<close>

definition cmd_for :: "bufentry list \<Rightarrow> nat option \<Rightarrow> ahcistate \<Rightarrow> nat \<Rightarrow> nat \<Rightarrow> nat \<Rightarrow> bool" where
  "cmd_for es W h s i p \<longleftrightarrow>
     (if bit (hd_active h) s then cmd_of h s = (W = Some i, [(p, blocksize)], unat (be_bn (es ! i)) * blocksize) else same_page h p (be_bn (es ! i)))"

definition io_queue :: "bufentry list \<Rightarrow> nat option \<Rightarrow> ahcistate \<Rightarrow> bool" where
  "io_queue es W h \<longleftrightarrow> (\<forall>s. bit (hd_outstanding h) s \<longrightarrow>
     (\<exists>i < ne. \<exists>p. hd_status h s = Some i \<and> be_buf (es ! i) = Some p \<and> (W = Some i \<or> be_loading (es ! i)) \<and> cmd_for es W h s i p))"

definition io_wait :: "ahcistate \<Rightarrow> bool" where
  "io_wait h \<longleftrightarrow> (\<forall>i < ne. hd_stat h i = E_AGAIN \<longrightarrow> (\<exists>s. bit (hd_outstanding h) s \<and> hd_status h s = Some i))"

definition io_done :: "bufentry list \<Rightarrow> nat option \<Rightarrow> ahcistate \<Rightarrow> bool" where
  "io_done es W h \<longleftrightarrow> (\<forall>i < ne. \<forall>p. be_loading (es ! i) \<or> W = Some i \<longrightarrow> hd_stat h i \<noteq> E_AGAIN \<longrightarrow> be_buf (es ! i) = Some p \<longrightarrow> same_page h p (be_bn (es ! i)))"

definition io_mem :: "bufentry list \<Rightarrow> (nat \<Rightarrow> u8) \<Rightarrow> ahcistate \<Rightarrow> bool" where
  "io_mem es m h \<longleftrightarrow> (\<forall>i < ne. \<forall>p. be_loaded (es ! i) \<longrightarrow> be_buf (es ! i) = Some p \<longrightarrow> (\<forall>k < blocksize. hd_mem h (p + k) = m (p + k)))"

definition io_disk :: "bufentry list \<Rightarrow> nat option \<Rightarrow> (nat \<Rightarrow> u8) \<Rightarrow> ahcistate \<Rightarrow> bool" where
  "io_disk es W d h \<longleftrightarrow> (\<forall>b k. k < blocksize \<longrightarrow> W = None \<or> b \<noteq> be_bn (es ! the W) \<longrightarrow> hd_disk h (unat b * blocksize + k) = d (unat b * blocksize + k))"

definition gio :: "bufentry list \<Rightarrow> nat option \<Rightarrow> (nat \<Rightarrow> u8) \<Rightarrow> (nat \<Rightarrow> u8) \<Rightarrow> ahcistate \<Rightarrow> bool" where
  "gio es W m d h \<longleftrightarrow> es_ok es \<and> hd_inv h \<and> (\<forall>w. W = Some w \<longrightarrow> w < ne \<and> be_loaded (es ! w))
     \<and> io_queue es W h \<and> io_wait h \<and> io_done es W h \<and> io_mem es m h \<and> io_disk es W d h"

lemma gioD:
  assumes "gio es W m d h"
  shows "es_ok es" "hd_inv h" "W = Some w \<Longrightarrow> w < ne \<and> be_loaded (es ! w)"
    "bit (hd_outstanding h) s \<Longrightarrow> \<exists>i < ne. \<exists>p. hd_status h s = Some i \<and> be_buf (es ! i) = Some p \<and> (W = Some i \<or> be_loading (es ! i)) \<and> cmd_for es W h s i p"
    "i < ne \<Longrightarrow> hd_stat h i = E_AGAIN \<Longrightarrow> \<exists>s. bit (hd_outstanding h) s \<and> hd_status h s = Some i"
    "i < ne \<Longrightarrow> be_loading (es ! i) \<or> W = Some i \<Longrightarrow> hd_stat h i \<noteq> E_AGAIN \<Longrightarrow> be_buf (es ! i) = Some p \<Longrightarrow> same_page h p (be_bn (es ! i))"
    "i < ne \<Longrightarrow> be_loaded (es ! i) \<Longrightarrow> be_buf (es ! i) = Some p \<Longrightarrow> k < blocksize \<Longrightarrow> hd_mem h (p + k) = m (p + k)"
    "k < blocksize \<Longrightarrow> W = None \<or> b \<noteq> be_bn (es ! the W) \<Longrightarrow> hd_disk h (unat b * blocksize + k) = d (unat b * blocksize + k)"
proof -
  have g: "es_ok es" "hd_inv h" "\<forall>w. W = Some w \<longrightarrow> w < ne \<and> be_loaded (es ! w)" "io_queue es W h" "io_wait h" "io_done es W h" "io_mem es m h" "io_disk es W d h"
    using assms unfolding gio_def by simp_all
  show "es_ok es" "hd_inv h" "W = Some w \<Longrightarrow> w < ne \<and> be_loaded (es ! w)" using g(1-3) by simp_all
  show "bit (hd_outstanding h) s \<Longrightarrow> \<exists>i < ne. \<exists>p. hd_status h s = Some i \<and> be_buf (es ! i) = Some p \<and> (W = Some i \<or> be_loading (es ! i)) \<and> cmd_for es W h s i p"
    using g(4) unfolding io_queue_def by simp
  show "i < ne \<Longrightarrow> hd_stat h i = E_AGAIN \<Longrightarrow> \<exists>s. bit (hd_outstanding h) s \<and> hd_status h s = Some i" using g(5) unfolding io_wait_def by simp
  show "i < ne \<Longrightarrow> be_loading (es ! i) \<or> W = Some i \<Longrightarrow> hd_stat h i \<noteq> E_AGAIN \<Longrightarrow> be_buf (es ! i) = Some p \<Longrightarrow> same_page h p (be_bn (es ! i))"
    using g(6) unfolding io_done_def by blast
  show "i < ne \<Longrightarrow> be_loaded (es ! i) \<Longrightarrow> be_buf (es ! i) = Some p \<Longrightarrow> k < blocksize \<Longrightarrow> hd_mem h (p + k) = m (p + k)" using g(7) unfolding io_mem_def by simp
  show "k < blocksize \<Longrightarrow> W = None \<or> b \<noteq> be_bn (es ! the W) \<Longrightarrow> hd_disk h (unat b * blocksize + k) = d (unat b * blocksize + k)" using g(8) unfolding io_disk_def by blast
qed

lemmas gio_defs = gio_def io_queue_def io_wait_def io_done_def io_mem_def io_disk_def

lemma pages_apart: "p mod blocksize = 0 \<Longrightarrow> q mod blocksize = 0 \<Longrightarrow> p \<noteq> q \<Longrightarrow> k < blocksize \<Longrightarrow> \<not> (p \<le> q + k \<and> q + k < p + blocksize)"
proof
  assume a: "p mod blocksize = 0" "q mod blocksize = 0" "p \<noteq> q" "k < blocksize" "p \<le> q + k \<and> q + k < p + blocksize"
  obtain x y where "p = x * blocksize" "q = y * blocksize" using a(1,2) by (metis div_mult_mod_eq add_0_right)
  then show False using a(3-5) by (cases "x < y"; cases "y < x") auto
qed

lemma blocks_apart: "a \<noteq> b \<Longrightarrow> k < blocksize \<Longrightarrow> \<not> (unat a * blocksize \<le> unat b * blocksize + k \<and> unat b * blocksize + k < unat a * blocksize + blocksize)" for a b :: u32
  using pages_apart[of "unat a * blocksize" "unat b * blocksize" k] by (simp add: word_unat_eq_iff)

lemma copy_same: "k < n \<Longrightarrow> copy_bytes dst a src b n (a + k) = src (b + k)"
  by (simp add: copy_bytes_def)

lemma copy_other: "\<not> (a \<le> x \<and> x < a + n) \<Longrightarrow> copy_bytes dst a src b n x = dst x"
  unfolding copy_bytes_def by (simp only: if_False)

text \<open>What the device changes when it finishes the command of entry \<open>i\<close>.\<close>

lemma gio_finish_data:
  assumes g: "gio es W m d h" and s: "bit (hd_active h) s" "hd_status h s = Some i" "i < ne" "be_buf (es ! i) = Some p" "cmd_for es W h s i p"
  shows "same_page (hd_finish h s) p (be_bn (es ! i))"
    "j < ne \<Longrightarrow> j \<noteq> i \<Longrightarrow> be_buf (es ! j) = Some q \<Longrightarrow> k < blocksize \<Longrightarrow> hd_mem (hd_finish h s) (q + k) = hd_mem h (q + k)"
    "b \<noteq> be_bn (es ! i) \<Longrightarrow> k < blocksize \<Longrightarrow> hd_disk (hd_finish h s) (unat b * blocksize + k) = hd_disk h (unat b * blocksize + k)"
    "W = Some i \<Longrightarrow> hd_mem (hd_finish h s) = hd_mem h" "W \<noteq> Some i \<Longrightarrow> hd_disk (hd_finish h s) = hd_disk h"
proof -
  note e = es_okD[OF gioD(1)[OF g]]
  have "cmd_of h s = (W = Some i, [(p, blocksize)], unat (be_bn (es ! i)) * blocksize)" using s(1,5) by (simp add: cmd_for_def)
  note data = hd_finish_data[OF s(1) this]
  show "same_page (hd_finish h s) p (be_bn (es ! i))" using data by (simp add: same_page_def copy_same)
  show "hd_mem (hd_finish h s) (q + k) = hd_mem h (q + k)" if j: "j < ne" "j \<noteq> i" "be_buf (es ! j) = Some q" "k < blocksize"
  proof -
    have "p \<noteq> q" using e(4)[OF s(3) j(1) s(4)] j(2,3) by auto
    moreover have "p mod blocksize = 0" "q mod blocksize = 0" using e(2)[OF s(3,4)] e(2)[OF j(1,3)] by (simp_all add: page_ok_def)
    ultimately show ?thesis using data(1) pages_apart[OF _ _ _ j(4)] copy_other by presburger
  qed
  show "hd_disk (hd_finish h s) (unat b * blocksize + k) = hd_disk h (unat b * blocksize + k)" if "b \<noteq> be_bn (es ! i)" "k < blocksize"
    using data(2) copy_other[OF blocks_apart[OF that(1)[symmetric] that(2)]] by presburger
  show "W = Some i \<Longrightarrow> hd_mem (hd_finish h s) = hd_mem h" "W \<noteq> Some i \<Longrightarrow> hd_disk (hd_finish h s) = hd_disk h" using data by simp_all
qed

lemma gio_finish:
  assumes g: "gio es W m d h" and s: "bit (hd_active h) s"
  shows "gio es W m d (hd_finish h s)"
proof -
  note inv = gioD(2)[OF g] and e = es_okD[OF gioD(1)[OF g]]
  obtain i p where i: "i < ne" "hd_status h s = Some i" "be_buf (es ! i) = Some p" "W = Some i \<or> be_loading (es ! i)" "cmd_for es W h s i p"
    using gioD(4)[OF g hd_invD(5)[OF inv s]] by blast
  note data = gio_finish_data[OF g s i(2,1,3,5)]
  have other: "same_page (hd_finish h s) q (be_bn (es ! j))" if "j < ne" "j \<noteq> i" "be_buf (es ! j) = Some q" "same_page h q (be_bn (es ! j))" for j q
  proof -
    have "be_bn (es ! j) \<noteq> be_bn (es ! i)" using e(5)[OF that(1) i(1) e(3)[OF that(1,3)]] that(2) by blast
    then show ?thesis using data(2)[OF that(1-3)] data(3) that(4) by (simp add: same_page_def)
  qed
  show ?thesis
    unfolding gio_defs hd_finish_fields
  proof (intro conjI allI impI)
    show "hd_inv (hd_finish h s)" using hd_finish_inv[OF inv] .
  next
    fix t assume t: "bit (hd_outstanding h) t"
    obtain j q where j: "j < ne" "hd_status h t = Some j" "be_buf (es ! j) = Some q" "W = Some j \<or> be_loading (es ! j)" "cmd_for es W h t j q"
      using gioD(4)[OF g t] by blast
    have "cmd_for es W (hd_finish h s) t j q"
    proof (cases "t = s")
      case True
      then show ?thesis using data(1) i j by (simp add: cmd_for_def hd_finish_fields)
    next
      case False
      then have "j \<noteq> i" using hd_invD(7)[OF inv t hd_invD(5)[OF inv s] j(2)] i(2) by blast
      then show ?thesis using j(5) other[OF j(1) _ j(3)] False unfolding cmd_for_def hd_finish_fields by auto
    qed
    then show "\<exists>i < ne. \<exists>p. hd_status h t = Some i \<and> be_buf (es ! i) = Some p \<and> (W = Some i \<or> be_loading (es ! i)) \<and> cmd_for es W (hd_finish h s) t i p" using j by blast
  next
    fix j q assume j: "j < ne" "be_loading (es ! j) \<or> W = Some j" "hd_stat h j \<noteq> E_AGAIN" "be_buf (es ! j) = Some q"
    show "same_page (hd_finish h s) q (be_bn (es ! j))"
      using data(1) other[OF j(1) _ j(4) gioD(6)[OF g j]] i(3) j(4) by (cases "j = i") auto
  next
    fix j q k assume j: "j < ne" "be_loaded (es ! j)" "be_buf (es ! j) = Some q" "k < blocksize"
    have "hd_mem (hd_finish h s) (q + k) = hd_mem h (q + k)"
    proof (cases "j = i")
      case True
      then have "W = Some i" using i(4) e(8)[OF j(1,2)] by auto
      then show ?thesis using data(4) by simp
    next
      case False
      then show ?thesis using data(2)[OF j(1) False j(3,4)] by simp
    qed
    then show "hd_mem (hd_finish h s) (q + k) = m (q + k)" using gioD(7)[OF g j] by simp
  next
    fix b k assume b: "k < blocksize" "W = None \<or> b \<noteq> be_bn (es ! the W)"
    have "hd_disk (hd_finish h s) (unat b * blocksize + k) = hd_disk h (unat b * blocksize + k)"
    proof (cases "W = Some i")
      case True
      then have "b \<noteq> be_bn (es ! i)" using b(2) by simp
      then show ?thesis using data(3)[OF _ b(1)] by blast
    next
      case False
      then show ?thesis using data(5) by simp
    qed
    then show "hd_disk (hd_finish h s) (unat b * blocksize + k) = d (unat b * blocksize + k)" using gioD(8)[OF g b] by simp
  qed (use gioD(1,3,5)[OF g] in blast)+
qed

lemma gio_acked:
  assumes g: "gio es W m d h" and r: "ahci_interrupt h False = Inr h'"
  shows "gio es W m d h'"
proof -
  note inv = gioD(2)[OF g]
  note * = ahci_interruptD[OF inv r]
  have sp: "same_page h' = same_page h" using *(2) by (auto simp: same_page_def hd_same_def fun_eq_iff)
  have cf: "cmd_for es W h' = cmd_for es W h" unfolding cmd_for_def sp hd_same_cmd[OF *(2)] using *(2) by (simp add: hd_same_def)
  show ?thesis
    unfolding gio_defs sp cf
  proof (intro conjI allI impI)
    fix t assume "bit (hd_outstanding h') t"
    then have "bit (hd_active h) t" using *(3) by blast
    then show "\<exists>i < ne. \<exists>p. hd_status h' t = Some i \<and> be_buf (es ! i) = Some p \<and> (W = Some i \<or> be_loading (es ! i)) \<and> cmd_for es W h t i p"
      using gioD(4)[OF g hd_invD(5)[OF inv]] *(4) by metis
  next
    fix j assume j: "j < ne" "hd_stat h' j = E_AGAIN"
    then have n: "\<not> (\<exists>s. bit (hd_outstanding h) s \<and> \<not> bit (hd_active h) s \<and> hd_status h s = Some j)" "hd_stat h j = E_AGAIN" using *(5) by (auto split: if_splits)
    then show "\<exists>s. bit (hd_outstanding h') s \<and> hd_status h' s = Some j" using gioD(5)[OF g j(1) n(2)] *(3,4) by metis
  next
    fix j q assume j: "j < ne" "be_loading (es ! j) \<or> W = Some j" "hd_stat h' j \<noteq> E_AGAIN" "be_buf (es ! j) = Some q"
    show "same_page h q (be_bn (es ! j))"
    proof (cases "hd_stat h j = E_AGAIN")
      case True
      then obtain s where s: "bit (hd_outstanding h) s" "\<not> bit (hd_active h) s" "hd_status h s = Some j" using *(5) j(3) by (auto split: if_splits)
      then show ?thesis using gioD(4)[OF g s(1)] j(4) by (auto simp: cmd_for_def)
    next
      case False
      then show ?thesis using gioD(6)[OF g j(1,2) _ j(4)] by blast
    qed
  qed (use gioD(1,3,7,8)[OF g] *(1,2) in \<open>auto simp: hd_same_def\<close>)
qed

interpretation cache: disk_client "gio es W m d" for es W m d
  by unfold_locales (auto intro: gioD(2) gio_finish gio_acked)

section \<open>Commands of the cache\<close>

lemma gio_cong:
  assumes g: "gio es None m d h" and e: "length es' = ne" "\<And>i. i < ne \<Longrightarrow> be_buf (es' ! i) = be_buf (es ! i) \<and> be_bn (es' ! i) = be_bn (es ! i) \<and> be_loaded (es' ! i) = be_loaded (es ! i) \<and> be_loading (es' ! i) = be_loading (es ! i)"
  shows "gio es' None m d h"
proof -
  have b: "be_buf (es' ! i) = be_buf (es ! i)" "be_bn (es' ! i) = be_bn (es ! i)" "be_loaded (es' ! i) = be_loaded (es ! i)" "be_loading (es' ! i) = be_loading (es ! i)" if "i < ne" for i
    using e(2)[OF that] by simp_all
  have es: "es_ok es'" using gioD(1)[OF g] e(1) unfolding es_ok_def loadeding_def by (simp add: b) blast
  have q: "io_queue es' None h" unfolding io_queue_def
  proof (intro allI impI)
    fix s assume "bit (hd_outstanding h) s"
    from gioD(4)[OF g this] obtain i p where i: "i < ne" "hd_status h s = Some i" "be_buf (es ! i) = Some p" "be_loading (es ! i)" "cmd_for es None h s i p" by auto
    then show "\<exists>i < ne. \<exists>p. hd_status h s = Some i \<and> be_buf (es' ! i) = Some p \<and> (None = Some i \<or> be_loading (es' ! i)) \<and> cmd_for es' None h s i p"
      using b[OF i(1)] by (auto simp: cmd_for_def)
  qed
  show ?thesis using g es q unfolding gio_def io_done_def io_mem_def io_disk_def by (simp add: b)
qed

lemma gio_self: "gio es None m d h \<Longrightarrow> gio es None (hd_mem h) (hd_disk h) h"
  unfolding gio_def io_mem_def io_disk_def by simp

lemma buffer_ok_page: "page_ok p \<Longrightarrow> buffer_ok p blocksize"
proof -
  assume p: "page_ok p"
  then have "p AND mask 12 = 0" using take_bit_eq_mask[of 12 p] by (simp add: page_ok_def take_bit_eq_mod)
  then have a: "p + mask 12 = p XOR mask 12" by (rule disjunctive_add_eq_xor)
  have "p XOR (p + mask 12) = (p XOR p) XOR mask 12" unfolding a by (simp only: xor.assoc)
  then have "p XOR (p + 4095) = 4095" by (simp add: mask_eq_exp_minus_1)
  moreover have "even p" using p dvd_trans[of 2 blocksize p] by (simp add: page_ok_def mod_eq_0_iff_dvd)
  moreover have "p + blocksize - 1 = p + 4095" by simp
  ultimately show ?thesis using p unfolding buffer_ok_def page_ok_def by (simp only:) simp
qed

lemma block_off: "unat (bn :: u32) * blocksize mod sectorsize = 0" "unat bn * blocksize < 2 ^ 57"
proof -
  have "unat bn * blocksize = unat bn * 8 * sectorsize" by simp
  then show "unat bn * blocksize mod sectorsize = 0" by (simp only: mod_mult_self2_is_0)
  show "unat bn * blocksize < 2 ^ 57" using u32_bound[of bn] by simp
qed

lemma gio_stat_free:
  assumes g: "gio es None m d h" and i: "i < ne" "\<not> be_loading (es ! i)"
  shows "bit (hd_outstanding h) t \<longrightarrow> hd_status h t \<noteq> Some i" "hd_stat h i \<noteq> E_AGAIN"
proof -
  show *: "bit (hd_outstanding h) t \<longrightarrow> hd_status h t \<noteq> Some i" for t using gioD(4)[OF g, of t] i(2) by auto
  show "hd_stat h i \<noteq> E_AGAIN" using gioD(5)[OF g i(1)] * by blast
qed

text \<open>Queueing the read or write of entry \<open>i\<close>.\<close>

lemma gio_send:
  assumes g: "gio es None m d h" and i: "i < ne" "be_buf (es ! i) = Some p" and s: "s < hd_nslots h" "\<not> bit (hd_outstanding h) s"
    and c: "case cmd of cmd_read_fpdma_queued \<Rightarrow> \<not> loadeding (es ! i) \<and> W = None \<and> es' = es[i := (es ! i)\<lparr>be_loading := True\<rparr>] | cmd_write_fpdma_queued \<Rightarrow> be_loaded (es ! i) \<and> W = Some i \<and> es' = es"
  obtains h' where "send_command h s cmd p blocksize (unat (be_bn (es ! i)) * blocksize) i = Inr h'" "gio es' W m d h'" "\<forall>j. j \<noteq> i \<longrightarrow> hd_stat h' j = hd_stat h j"
    "hd_stat h' i = E_AGAIN" "hd_mem h' = hd_mem h" "hd_disk h' = hd_disk h"
proof -
  note e = es_okD[OF gioD(1)[OF g]] and inv = gioD(2)[OF g]
  have nl: "\<not> be_loading (es ! i)" using c e(8)[OF i(1)] by (cases cmd) (auto simp: loadeding_def)
  have free: "\<forall>t. bit (hd_outstanding h) t \<longrightarrow> hd_status h t \<noteq> Some i" using gio_stat_free(1)[OF g i(1) nl] by blast
  obtain h' where h': "send_command h s cmd p blocksize (unat (be_bn (es ! i)) * blocksize) i = Inr h'" "hd_inv h'" "\<forall>t. bit (hd_active h') t \<longleftrightarrow> bit (hd_active h) t \<or> t = s"
    "\<forall>t. bit (hd_outstanding h') t \<longleftrightarrow> bit (hd_outstanding h) t \<or> t = s" "hd_status h' = (hd_status h)(s := Some i)" "hd_stat h' = (hd_stat h)(i := E_AGAIN)"
    "hd_mem h' = hd_mem h" "hd_disk h' = hd_disk h" "cmd_of h' s = (cmd = cmd_write_fpdma_queued, [(p, blocksize)], unat (be_bn (es ! i)) * blocksize)"
    "\<forall>t. t \<noteq> s \<longrightarrow> cmd_of h' t = cmd_of h t"
    by (rule send_command_ok[OF inv s free buffer_ok_page[OF e(2)[OF i]] _ block_off, of cmd]) (simp, blast)
  have len: "length es' = ne" and f: "be_buf (es' ! j) = be_buf (es ! j)" "be_bn (es' ! j) = be_bn (es ! j)" "be_loaded (es' ! j) = be_loaded (es ! j)"
      "be_loading (es' ! j) \<longleftrightarrow> be_loading (es ! j) \<or> (W = None \<and> j = i)" for j
    using c e(1) i(1) by (cases cmd; cases "j = i"; simp add: nth_list_update)+
  have W: "(W = Some i) = (cmd = cmd_write_fpdma_queued)" "W = Some j \<Longrightarrow> j = i" for j using c by (cases cmd; auto)+
  have es: "es_ok es'" using gioD(1)[OF g] len i(2) nl c unfolding es_ok_def loadeding_def f by (cases cmd) (auto simp: loadeding_def)
  have sp: "same_page h' = same_page h" using h'(7,8) by (simp add: same_page_def fun_eq_iff)
  have "io_queue es' W h'" unfolding io_queue_def
  proof (intro allI impI)
    fix t assume t: "bit (hd_outstanding h') t"
    show "\<exists>j < ne. \<exists>q. hd_status h' t = Some j \<and> be_buf (es' ! j) = Some q \<and> (W = Some j \<or> be_loading (es' ! j)) \<and> cmd_for es' W h' t j q"
    proof (cases "t = s")
      case True
      have "W = Some i \<or> be_loading (es' ! i)" using c f(4)[of i] by (cases cmd) auto
      moreover have "cmd_for es' W h' s i p" using h'(3,9) W(1) f(2) by (simp add: cmd_for_def)
      ultimately show ?thesis using True i h'(5) f(1) by auto
    next
      case False
      then have o: "bit (hd_outstanding h) t" using t h'(4) by blast
      from gioD(4)[OF g o] obtain j q where j: "j < ne" "hd_status h t = Some j" "be_buf (es ! j) = Some q" "be_loading (es ! j)" "cmd_for es None h t j q" by auto
      have "j \<noteq> i" using j(4) nl by blast
      then have "W \<noteq> Some j" using W(2) by blast
      then have "cmd_for es' W h' t j q" using j(5) h'(3,10) False f(2) unfolding cmd_for_def sp by simp
      then show ?thesis using j False h'(5) f(1,4) by auto
    qed
  qed
  moreover have "io_wait h'" unfolding io_wait_def
  proof (intro allI impI)
    fix j assume "j < ne" "hd_stat h' j = E_AGAIN"
    then show "\<exists>t. bit (hd_outstanding h') t \<and> hd_status h' t = Some j" using gioD(5)[OF g, of j] h'(4-6) s(2) by (cases "j = i") auto
  qed
  moreover have "io_done es' W h'" unfolding io_done_def f sp h'(6) using gioD(6)[OF g] W(2) by auto
  moreover have "io_mem es' m h'" using gioD(7)[OF g] unfolding io_mem_def f h'(7) by blast
  moreover have "io_disk es' W d h'" using gioD(8)[OF g] unfolding io_disk_def f h'(8) by blast
  moreover have "\<forall>w. W = Some w \<longrightarrow> w < ne \<and> be_loaded (es' ! w)" using c i(1) W f(3) by (cases cmd) auto
  ultimately have "gio es' W m d h'" unfolding gio_def using es h'(2) by blast
  then show ?thesis using that[OF h'(1)] h'(6-8) by simp
qed

lemma gio_wait_stat:
  assumes g: "gio es W m d h" and dev: "device_fair dev" and i: "i < ne"
  shows "\<exists>h'. hd_wait 33 dev (\<lambda>h. hd_stat h i \<noteq> E_AGAIN) h = Inr h' \<and> gio es W m d h' \<and> hd_stat h' i \<noteq> E_AGAIN"
proof (rule cache.wait_ok[OF g dev])
  show "card (active_slots h) < 33" using active_slots_le[OF gioD(2)[OF g]] by simp
  show "hd_stat h i \<noteq> E_AGAIN" if "gio es W m d h" "hd_outstanding h = 0" for h using gioD(5)[OF that(1) i] that(2) by auto
qed

lemma gio_wait_slot:
  assumes g: "gio es W m d h" and dev: "device_fair dev"
  shows "\<exists>h'. hd_wait 33 dev (\<lambda>h. 0 < hd_available h) h = Inr h' \<and> gio es W m d h' \<and> 0 < hd_available h'"
proof (rule cache.wait_ok[OF g dev])
  show "card (active_slots h) < 33" using active_slots_le[OF gioD(2)[OF g]] by simp
  show "0 < hd_available h" if "gio es W m d h" "hd_outstanding h = 0" for h using hd_invD(1,4)[OF gioD(2)[OF that(1)]] that(2) by simp
qed

text \<open>Waiting starts no command.\<close>

lemma hd_wait_stat:
  assumes "hd_inv h" "hd_wait fuel dev P h = Inr h'"
  shows "hd_stat h' l = E_AGAIN \<Longrightarrow> hd_stat h l = E_AGAIN"
  using assms
proof (induction fuel arbitrary: h)
  case (Suc fuel)
  show ?case
  proof (cases "P h")
    case False
    let ?h1 = "foldl hd_finish h (dev h)"
    have h1: "hd_inv ?h1 \<and> hd_stat ?h1 = hd_stat h"
    proof -
      have "hd_inv h \<Longrightarrow> hd_inv (foldl hd_finish h ss) \<and> hd_stat (foldl hd_finish h ss) = hd_stat h" for ss h
        by (induction ss arbitrary: h) (simp_all add: hd_finish_inv hd_finish_fields)
      then show ?thesis using Suc.prems(2) by blast
    qed
    obtain h2 where h2: "ahci_interrupt ?h1 False = Inr h2" "hd_wait fuel dev P h2 = Inr h'" using Suc.prems(3) False by (auto simp: rbind_eq_Inr)
    note i = ahci_interruptD[OF conjunct1[OF h1] h2(1)]
    have "hd_stat h2 l = E_AGAIN" using Suc.IH[OF Suc.prems(1) i(1) h2(2)] .
    then show ?thesis using i(5) h1 by (auto split: if_splits)
  qed (use Suc.prems in simp)
qed (auto split: if_splits)

text \<open>When no entry waits for the disk, it is idle.\<close>

lemma gio_idle:
  assumes g: "gio es None m d h" and q: "\<forall>j < ne. hd_stat h j \<noteq> E_AGAIN"
  shows "hd_outstanding h = 0"
proof -
  have "\<not> bit (hd_outstanding h) s" for s
  proof
    assume s: "bit (hd_outstanding h) s"
    from gioD(4)[OF g s] obtain i where "i < ne" "hd_status h s = Some i" by blast
    then show False using hd_invD(6)[OF gioD(2)[OF g] s] q by auto
  qed
  then show ?thesis by (intro bit_word_eqI) simp
qed

text \<open>Reading a block without waiting, and writing one.\<close>

lemma gio_read_block:
  assumes g: "gio es None m d h" and i: "i < ne" "be_buf (es ! i) = Some p" "\<not> loadeding (es ! i)"
  obtains h' r where "read_or_write_nonblocking h cmd_read_fpdma_queued p blocksize (unat (be_bn (es ! i)) * blocksize) i = Inr (h', r)" "\<not> r \<longrightarrow> h' = h"
    "r \<longrightarrow> gio (es[i := (es ! i)\<lparr>be_loading := True\<rparr>]) None m d h' \<and> (\<forall>j. j \<noteq> i \<longrightarrow> hd_stat h' j = hd_stat h j) \<and> hd_mem h' = hd_mem h \<and> hd_disk h' = hd_disk h"
    "hd_outstanding h = 0 \<longrightarrow> r"
proof -
  define s where "s = open_slot 0 (hd_nslots h) (hd_outstanding h)"
  note o = open_slot_free[OF gioD(2)[OF g], folded s_def] and b = block_off(1)[of "be_bn (es ! i)"]
  show ?thesis
  proof (cases "s = hd_nslots h")
    case True
    then have "hd_available h = 0" using o(1) by simp
    then have "hd_outstanding h \<noteq> 0" using hd_invD(1,4)[OF gioD(2)[OF g]] by (intro notI) simp
    then show ?thesis using True b that[of h False] by (simp add: read_or_write_nonblocking_def s_def[symmetric])
  next
    case False
    then have s: "s < hd_nslots h" "\<not> bit (hd_outstanding h) s" using o by simp_all
    obtain h' where h': "send_command h s cmd_read_fpdma_queued p blocksize (unat (be_bn (es ! i)) * blocksize) i = Inr h'"
      "gio (es[i := (es ! i)\<lparr>be_loading := True\<rparr>]) None m d h'" "\<forall>j. j \<noteq> i \<longrightarrow> hd_stat h' j = hd_stat h j" "hd_mem h' = hd_mem h" "hd_disk h' = hd_disk h"
      by (rule gio_send[OF g i(1,2) s, where cmd = cmd_read_fpdma_queued and W = None and es' = "es[i := (es ! i)\<lparr>be_loading := True\<rparr>]"]) (use i(3) in simp, blast)
    show ?thesis
      by (rule that[of h' True]) (use False b h' in \<open>simp_all add: read_or_write_nonblocking_def s_def[symmetric]\<close>)
  qed
qed

lemma gio_write_block:
  assumes g: "gio es None m d h" and dev: "device_fair dev" and i: "i < ne" "be_buf (es ! i) = Some p" "be_loaded (es ! i)"
  obtains h' where "read_or_write dev h cmd_write_fpdma_queued p blocksize (unat (be_bn (es ! i)) * blocksize) i = Inr (h', hd_stat h' i)" "gio es None m (hd_disk h') h'"
    "same_page h' p (be_bn (es ! i))" "\<forall>b k. b \<noteq> be_bn (es ! i) \<longrightarrow> k < blocksize \<longrightarrow> hd_disk h' (unat b * blocksize + k) = d (unat b * blocksize + k)"
    "\<forall>j. j \<noteq> i \<longrightarrow> hd_stat h' j = E_AGAIN \<longrightarrow> hd_stat h j = E_AGAIN"
proof -
  obtain h0 where h0: "hd_wait 33 dev (\<lambda>h. 0 < hd_available h) h = Inr h0" "gio es None m d h0" "0 < hd_available h0" using gio_wait_slot[OF g dev] by blast
  define s where "s = open_slot 0 (hd_nslots h0) (hd_outstanding h0)"
  have s: "s < hd_nslots h0" "\<not> bit (hd_outstanding h0) s" using open_slot_free(1,2)[OF gioD(2)[OF h0(2)]] h0(3) by (simp_all add: s_def)
  obtain h1 where h1: "send_command h0 s cmd_write_fpdma_queued p blocksize (unat (be_bn (es ! i)) * blocksize) i = Inr h1" "gio es (Some i) m d h1" "\<forall>j. j \<noteq> i \<longrightarrow> hd_stat h1 j = hd_stat h0 j"
    by (rule gio_send[OF h0(2) i(1,2) s, where cmd = cmd_write_fpdma_queued and W = "Some i" and es' = es]) (use i(3) in simp, blast)
  obtain h2 where h2: "hd_wait 33 dev (\<lambda>h. hd_stat h i \<noteq> E_AGAIN) h1 = Inr h2" "gio es (Some i) m d h2" "hd_stat h2 i \<noteq> E_AGAIN" using gio_wait_stat[OF h1(2) dev i(1)] by blast
  have run: "read_or_write dev h cmd_write_fpdma_queued p blocksize (unat (be_bn (es ! i)) * blocksize) i = Inr (h2, hd_stat h2 i)"
    using h0(1) h1(1) h2(1) s(1) block_off(1)[of "be_bn (es ! i)"] by (simp add: read_or_write_def Let_def s_def[symmetric])
  have ni: "hd_status h2 t \<noteq> Some i" if "bit (hd_outstanding h2) t" for t using hd_invD(6)[OF gioD(2)[OF h2(2)] that] h2(3) by auto
  have "io_queue es None h2" unfolding io_queue_def
  proof (intro allI impI)
    fix t assume t: "bit (hd_outstanding h2) t"
    from gioD(4)[OF h2(2) t] obtain j q where j: "j < ne" "hd_status h2 t = Some j" "be_buf (es ! j) = Some q" "Some i = Some j \<or> be_loading (es ! j)" "cmd_for es (Some i) h2 t j q" by blast
    have "j \<noteq> i" using ni[OF t] j(2) by auto
    then show "\<exists>j < ne. \<exists>q. hd_status h2 t = Some j \<and> be_buf (es ! j) = Some q \<and> (None = Some j \<or> be_loading (es ! j)) \<and> cmd_for es None h2 t j q" using j by (auto simp: cmd_for_def)
  qed
  moreover have "io_done es None h2" unfolding io_done_def using gioD(6)[OF h2(2)] by blast
  moreover have "io_mem es m h2" "io_wait h2" "es_ok es" "hd_inv h2" using h2(2) unfolding gio_def by blast+
  ultimately have "gio es None m (hd_disk h2) h2" unfolding gio_def io_disk_def by simp
  moreover have "\<forall>b k. b \<noteq> be_bn (es ! i) \<longrightarrow> k < blocksize \<longrightarrow> hd_disk h2 (unat b * blocksize + k) = d (unat b * blocksize + k)" using gioD(8)[OF h2(2)] by simp
  moreover have "same_page h2 p (be_bn (es ! i))" using gioD(6)[OF h2(2) i(1) _ h2(3) i(2)] by blast
  moreover have "\<forall>j. j \<noteq> i \<longrightarrow> hd_stat h2 j = E_AGAIN \<longrightarrow> hd_stat h j = E_AGAIN"
    using hd_wait_stat[OF gioD(2)[OF h1(2)] h2(1)] hd_wait_stat[OF gioD(2)[OF g] h0(1)] h1(3) by auto
  ultimately show ?thesis using that[OF run] by blast
qed

lemma gio_change:
  assumes g: "gio es None m d h" and es: "es_ok es'"
    and c: "\<forall>j < ne. (\<not> be_loading (es' ! j) \<and> hd_stat h j \<noteq> E_AGAIN) \<or> (be_loading (es' ! j) = be_loading (es ! j) \<and> be_buf (es' ! j) = be_buf (es ! j) \<and> be_bn (es' ! j) = be_bn (es ! j)
      \<and> (\<forall>q k. be_buf (es ! j) = Some q \<longrightarrow> k < blocksize \<longrightarrow> m' (q + k) = hd_mem h (q + k)))"
  shows "gio es' None m' (hd_disk h) (h\<lparr>hd_mem := m'\<rparr>)"
proof -
  let ?h = "h\<lparr>hd_mem := m'\<rparr>"
  have inv: "hd_inv ?h" using gioD(2)[OF g] by (simp add: hd_inv_def)
  have page: "same_page ?h q (be_bn (es' ! j))" if "j < ne" "be_loading (es' ! j) \<or> hd_stat h j = E_AGAIN" "be_buf (es' ! j) = Some q" "same_page h q (be_bn (es ! j))" for j q
    using c[rule_format, OF that(1)] that(2-4) by (auto simp: same_page_def)
  have "io_queue es' None ?h" unfolding io_queue_def
  proof (intro allI impI)
    fix s assume s: "bit (hd_outstanding ?h) s"
    then have o: "bit (hd_outstanding h) s" by simp
    from gioD(4)[OF g o] obtain i p where i: "i < ne" "hd_status h s = Some i" "be_buf (es ! i) = Some p" "be_loading (es ! i)" "cmd_for es None h s i p" by auto
    have st: "hd_stat h i = E_AGAIN" using hd_invD(6)[OF gioD(2)[OF g] o] i(2) by auto
    have e: "be_loading (es' ! i)" "be_buf (es' ! i) = Some p" "be_bn (es' ! i) = be_bn (es ! i)" using c[rule_format, OF i(1)] st i(3,4) by auto
    have "cmd_of ?h = cmd_of h" by (simp add: cmd_of_def fun_eq_iff)
    then have "cmd_for es' None ?h s i p" using i(5) page[OF i(1) _ e(2)] st e(3) by (simp add: cmd_for_def)
    then show "\<exists>i < ne. \<exists>p. hd_status ?h s = Some i \<and> be_buf (es' ! i) = Some p \<and> (None = Some i \<or> be_loading (es' ! i)) \<and> cmd_for es' None ?h s i p" using i(1,2) e by auto
  qed
  moreover have "io_wait ?h" using gioD(5)[OF g] unfolding io_wait_def by simp
  moreover have "io_done es' None ?h" unfolding io_done_def
  proof (intro allI impI)
    fix j q assume j: "j < ne" "be_loading (es' ! j) \<or> None = Some j" "hd_stat ?h j \<noteq> E_AGAIN" "be_buf (es' ! j) = Some q"
    have l: "be_loading (es' ! j)" using j(2) by simp
    have e: "be_loading (es ! j)" "be_buf (es ! j) = Some q" using c[rule_format, OF j(1)] l j(4) by auto
    have "same_page h q (be_bn (es ! j))" by (rule gioD(6)[OF g j(1) _ _ e(2)]) (use e(1) j(3) in simp_all)
    then show "same_page ?h q (be_bn (es' ! j))" using page[OF j(1) _ j(4)] l by blast
  qed
  ultimately show ?thesis using es inv unfolding gio_def io_mem_def io_disk_def by simp
qed

end
