(* ===== verification/Bufcache_Inv.thy ===== *)
theory Bufcache_Inv
  imports Bufcache_Io
begin

text \<open>
  The invariant of the buffer cache, what its blocks hold for the callers, and the steps that take, drop and write back entries.
\<close>

section \<open>The invariant of the cache\<close>

definition avail_ok :: "bufcache \<Rightarrow> bool" where
  "avail_ok st \<longleftrightarrow> distinct (bc_avail st) \<and> (\<forall>p \<in> set (bc_avail st). page_ok p) \<and> (\<forall>i < ne. \<forall>p. be_buf (bc_entry st i) = Some p \<longrightarrow> p \<notin> set (bc_avail st))
     \<and> ne \<le> length (bc_avail st) + card {i. i < ne \<and> be_buf (bc_entry st i) \<noteq> None}"

definition ent_ok :: "u32 set \<Rightarrow> nat set \<Rightarrow> bufcache \<Rightarrow> nat \<Rightarrow> bool" where
  "ent_ok B X st i \<longleftrightarrow> (let e = bc_entry st i in
     (be_bn e = emptyblock \<longrightarrow> be_ref e = 0 \<and> \<not> loadeding e \<and> be_buf e = None \<and> \<not> be_prefetched e) \<and> (be_dirty e \<longrightarrow> be_loaded e) \<and> be_write_ref e = 0
     \<and> (i \<in> set (bc_pref st) \<longrightarrow> be_ref e = 0 \<and> be_prefetched e) \<and> (be_loading e \<longrightarrow> i \<in> set (bc_pref st) \<or> be_ref e \<noteq> 0 \<or> i \<in> X)
     \<and> (be_loaded e \<longrightarrow> \<not> be_dirty e \<longrightarrow> be_bn e \<in> B \<longrightarrow> same_page (bc_hd st) (the (be_buf e)) (be_bn e)))"

text \<open>
  \<open>X\<close> are entries that are between lists in the middle of a call, and \<open>D\<close> the dirty entries that a running \<open>sync\<close> still has to write.  \<open>B\<close> are the blocks that
  are only changed between \<open>get_write\<close> and \<open>put_write\<close>.
\<close>

definition bc_inv :: "u32 set \<Rightarrow> nat set \<Rightarrow> nat set \<Rightarrow> bufcache \<Rightarrow> bool" where
  "bc_inv B X D st \<longleftrightarrow> gio (bc_e st) None (hd_mem (bc_hd st)) (hd_disk (bc_hd st)) (bc_hd st)
     \<and> distinct (bc_list st @ bc_pref st) \<and> distinct (bc_dirty st) \<and> (\<forall>i. i \<in> set (bc_list st) \<union> set (bc_pref st) \<longleftrightarrow> i < ne \<and> be_bn (bc_entry st i) \<noteq> emptyblock)
     \<and> (\<forall>i. i \<in> set (bc_dirty st) \<union> D \<longleftrightarrow> i < ne \<and> be_dirty (bc_entry st i)) \<and> be_bn (bc_entry st 0) = 0 \<and> be_ref (bc_entry st 0) \<noteq> 0
     \<and> (\<forall>i < ne. ent_ok B X st i) \<and> avail_ok st"

lemma bc_invD:
  assumes "bc_inv B X D st"
  shows "gio (bc_e st) None (hd_mem (bc_hd st)) (hd_disk (bc_hd st)) (bc_hd st)" "distinct (bc_list st @ bc_pref st)" "distinct (bc_dirty st)"
    "i \<in> set (bc_list st) \<union> set (bc_pref st) \<longleftrightarrow> i < ne \<and> be_bn (bc_entry st i) \<noteq> emptyblock" "i \<in> set (bc_dirty st) \<union> D \<longleftrightarrow> i < ne \<and> be_dirty (bc_entry st i)"
    "be_bn (bc_entry st 0) = 0" "be_ref (bc_entry st 0) \<noteq> 0" "i < ne \<Longrightarrow> ent_ok B X st i" "avail_ok st" "es_ok (bc_e st)" "length (bc_e st) = ne"
proof -
  show "gio (bc_e st) None (hd_mem (bc_hd st)) (hd_disk (bc_hd st)) (bc_hd st)" "distinct (bc_list st @ bc_pref st)" "distinct (bc_dirty st)" "be_bn (bc_entry st 0) = 0"
    "be_ref (bc_entry st 0) \<noteq> 0" "avail_ok st" using assms unfolding bc_inv_def by simp_all
  then have g: "gio (bc_e st) None (hd_mem (bc_hd st)) (hd_disk (bc_hd st)) (bc_hd st)" by blast
  show "es_ok (bc_e st)" "length (bc_e st) = ne" using gioD(1)[OF g] es_okD(1)[OF gioD(1)[OF g]] by simp_all
  show "i \<in> set (bc_list st) \<union> set (bc_pref st) \<longleftrightarrow> i < ne \<and> be_bn (bc_entry st i) \<noteq> emptyblock" "i \<in> set (bc_dirty st) \<union> D \<longleftrightarrow> i < ne \<and> be_dirty (bc_entry st i)"
    using assms unfolding bc_inv_def by blast+
  show "i < ne \<Longrightarrow> ent_ok B X st i" using assms unfolding bc_inv_def by blast
qed

lemma bc_invI:
  assumes "gio (bc_e st) None (hd_mem (bc_hd st)) (hd_disk (bc_hd st)) (bc_hd st)" "distinct (bc_list st @ bc_pref st)" "distinct (bc_dirty st)"
    "\<And>i. i \<in> set (bc_list st) \<union> set (bc_pref st) \<longleftrightarrow> i < ne \<and> be_bn (bc_entry st i) \<noteq> emptyblock" "\<And>i. i \<in> set (bc_dirty st) \<union> D \<longleftrightarrow> i < ne \<and> be_dirty (bc_entry st i)"
    "be_bn (bc_entry st 0) = 0" "be_ref (bc_entry st 0) \<noteq> 0" "\<And>i. i < ne \<Longrightarrow> ent_ok B X st i" "avail_ok st"
  shows "bc_inv B X D st"
  unfolding bc_inv_def by (intro conjI allI impI) (fact assms)+

lemma ent_okD:
  assumes "ent_ok B X st i"
  shows "be_bn (bc_entry st i) = emptyblock \<Longrightarrow> be_ref (bc_entry st i) = 0 \<and> \<not> loadeding (bc_entry st i) \<and> be_buf (bc_entry st i) = None \<and> \<not> be_prefetched (bc_entry st i)"
    "be_dirty (bc_entry st i) \<Longrightarrow> be_loaded (bc_entry st i)" "be_write_ref (bc_entry st i) = 0" "i \<in> set (bc_pref st) \<Longrightarrow> be_ref (bc_entry st i) = 0 \<and> be_prefetched (bc_entry st i)"
    "be_loading (bc_entry st i) \<Longrightarrow> i \<in> set (bc_pref st) \<or> be_ref (bc_entry st i) \<noteq> 0 \<or> i \<in> X"
    "be_loaded (bc_entry st i) \<Longrightarrow> \<not> be_dirty (bc_entry st i) \<Longrightarrow> be_bn (bc_entry st i) \<in> B \<Longrightarrow> same_page (bc_hd st) (the (be_buf (bc_entry st i))) (be_bn (bc_entry st i))"
  using assms unfolding ent_ok_def Let_def by simp_all

lemma bc_buf_other: "es_ok (bc_e st) \<Longrightarrow> i < ne \<Longrightarrow> j < ne \<Longrightarrow> j \<noteq> i \<Longrightarrow> be_buf (bc_entry st i) = Some p \<Longrightarrow> be_buf (bc_entry st j) \<noteq> Some p"
  using es_okD(4)[of "bc_e st" i j p] unfolding bc_entry_def by blast

lemma bc_bn_other: "es_ok (bc_e st) \<Longrightarrow> i < ne \<Longrightarrow> j < ne \<Longrightarrow> j \<noteq> i \<Longrightarrow> be_bn (bc_entry st i) \<noteq> emptyblock \<Longrightarrow> be_bn (bc_entry st j) \<noteq> be_bn (bc_entry st i)"
  using es_okD(5)[of "bc_e st" i j] unfolding bc_entry_def by metis

section \<open>Contents\<close>

text \<open>The contents of a block: the cached page once it is loaded, else the disk.\<close>

definition content :: "bufcache \<Rightarrow> u32 \<Rightarrow> nat \<Rightarrow> u8" where
  "content st b k =
     (let i = find_idx (\<lambda>e. be_bn e = b) (bc_e st)
      in if i < ne \<and> be_loaded (bc_entry st i) then hd_mem (bc_hd st) (the (be_buf (bc_entry st i)) + k) else hd_disk (bc_hd st) (unat b * blocksize + k))"

lemma find_idx_spec: "find_idx P xs \<le> length xs \<and> (find_idx P xs < length xs \<longrightarrow> P (xs ! find_idx P xs)) \<and> (find_idx P xs = length xs \<longrightarrow> (\<forall>x \<in> set xs. \<not> P x))"
  by (induction xs) auto

lemma content_loaded:
  assumes es: "es_ok (bc_e st)" and i: "i < ne" "be_loaded (bc_entry st i)" "be_bn (bc_entry st i) = b"
  shows "content st b k = hd_mem (bc_hd st) (the (be_buf (bc_entry st i)) + k)"
proof -
  let ?j = "find_idx (\<lambda>e. be_bn e = b) (bc_e st)"
  note e = es_okD[OF es] and f = find_idx_spec[of "\<lambda>e. be_bn e = b" "bc_e st"]
  have "bc_e st ! i \<in> set (bc_e st)" using i(1) e(1) by simp
  then have "?j \<noteq> length (bc_e st)" using f i(3) unfolding bc_entry_def by blast
  then have j: "?j < ne" "be_bn (bc_e st ! ?j) = b" using f e(1) by auto
  obtain p where "be_buf (bc_e st ! i) = Some p" using e(6)[OF i(1)] i(2) by (auto simp: bc_entry_def)
  then have "be_bn (bc_e st ! i) \<noteq> emptyblock" using e(3)[OF i(1)] by blast
  then have "?j = i" using e(5)[OF i(1) j(1)] j(2) i(3) by (simp add: bc_entry_def)
  then show ?thesis using i by (simp add: content_def)
qed

lemma content_disk:
  assumes es: "es_ok (bc_e st)" and n: "\<forall>i < ne. be_bn (bc_entry st i) = b \<longrightarrow> \<not> be_loaded (bc_entry st i)"
  shows "content st b k = hd_disk (bc_hd st) (unat b * blocksize + k)"
  using find_idx_spec[of "\<lambda>e. be_bn e = b" "bc_e st"] es_okD(1)[OF es] n by (auto simp: content_def Let_def bc_entry_def)

text \<open>What the steps of the cache keep: the contents of the blocks, and referenced entries.\<close>

definition keeps :: "u32 set \<Rightarrow> bufcache \<Rightarrow> bufcache \<Rightarrow> bool" where
  "keeps B st st' \<longleftrightarrow> (\<forall>b \<in> B. \<forall>k < blocksize. content st' b k = content st b k)"

definition pinned :: "bufcache \<Rightarrow> bufcache \<Rightarrow> bool" where
  "pinned st st' \<longleftrightarrow> (\<forall>j < ne. be_ref (bc_entry st' j) = be_ref (bc_entry st j)
     \<and> (be_ref (bc_entry st j) \<noteq> 0 \<longrightarrow> be_bn (bc_entry st' j) = be_bn (bc_entry st j) \<and> (loadeding (bc_entry st j) \<longrightarrow> loadeding (bc_entry st' j) \<and> be_buf (bc_entry st' j) = be_buf (bc_entry st j))
       \<and> be_loaded (bc_entry st' j) = be_loaded (bc_entry st j)))"

lemma keeps_refl: "keeps B st st" and keeps_trans: "keeps B st st' \<Longrightarrow> keeps B st' st'' \<Longrightarrow> keeps B st st''"
  by (simp_all add: keeps_def)

lemma pinned_refl: "pinned st st" and pinned_trans: "pinned st st' \<Longrightarrow> pinned st' st'' \<Longrightarrow> pinned st st''"
  by (simp_all add: pinned_def)

lemma pinnedD:
  assumes "pinned st st'" "j < ne"
  shows "be_ref (bc_entry st' j) = be_ref (bc_entry st j)" "be_ref (bc_entry st j) \<noteq> 0 \<Longrightarrow> be_bn (bc_entry st' j) = be_bn (bc_entry st j)"
    "be_ref (bc_entry st j) \<noteq> 0 \<Longrightarrow> loadeding (bc_entry st j) \<Longrightarrow> loadeding (bc_entry st' j)"
  using assms by (simp_all add: pinned_def)

text \<open>Contents are the same when loaded pages stay, and entries are loaded or dropped with the bytes of the disk.\<close>

lemma keepsI:
  assumes es: "es_ok (bc_e st)" "es_ok (bc_e st')"
    and same: "\<And>i k. i < ne \<Longrightarrow> be_loaded (bc_entry st i) \<Longrightarrow> be_bn (bc_entry st i) \<in> B \<Longrightarrow> k < blocksize \<Longrightarrow> content st' (be_bn (bc_entry st i)) k = hd_mem (bc_hd st) (the (be_buf (bc_entry st i)) + k)"
    and disk: "\<And>b k. b \<in> B \<Longrightarrow> k < blocksize \<Longrightarrow> \<forall>i < ne. be_bn (bc_entry st i) = b \<longrightarrow> \<not> be_loaded (bc_entry st i) \<Longrightarrow> content st' b k = hd_disk (bc_hd st) (unat b * blocksize + k)"
  shows "keeps B st st'"
  unfolding keeps_def
proof (intro ballI allI impI)
  fix b k assume b: "b \<in> B" "k < blocksize"
  show "content st' b k = content st b k"
  proof (cases "\<exists>i < ne. be_bn (bc_entry st i) = b \<and> be_loaded (bc_entry st i)")
    case True
    then obtain i where i: "i < ne" "be_bn (bc_entry st i) = b" "be_loaded (bc_entry st i)" by blast
    then show ?thesis using same[OF i(1,3) _ b(2)] content_loaded[OF es(1) i(1,3,2)] b(1) by simp
  next
    case False
    then have n: "\<forall>i < ne. be_bn (bc_entry st i) = b \<longrightarrow> \<not> be_loaded (bc_entry st i)" by blast
    show ?thesis using disk[OF b n] content_disk[OF es(1) n] by simp
  qed
qed

section \<open>Steps that only move entries or change counts\<close>

lemma bc_upd_sel [simp]:
  "bc_list (bc_upd st i f) = bc_list st" "bc_pref (bc_upd st i f) = bc_pref st" "bc_dirty (bc_upd st i f) = bc_dirty st" "bc_hd (bc_upd st i f) = bc_hd st"
  "bc_avail (bc_upd st i f) = bc_avail st" "length (bc_e (bc_upd st i f)) = length (bc_e st)"
  by (simp_all add: bc_upd_def)

lemma bc_entry_upd: "i < length (bc_e st) \<Longrightarrow> bc_entry (bc_upd st i f) j = (if j = i then f (bc_entry st i) else bc_entry st j)"
  by (simp add: bc_upd_def bc_entry_def)

lemma bc_entry_sel [simp]:
  "bc_entry (st\<lparr>bc_list := x\<rparr>) j = bc_entry st j" "bc_entry (st\<lparr>bc_pref := x\<rparr>) j = bc_entry st j" "bc_entry (st\<lparr>bc_dirty := x\<rparr>) j = bc_entry st j"
  "bc_entry (st\<lparr>bc_hd := y\<rparr>) j = bc_entry st j" "bc_entry (st\<lparr>bc_avail := x\<rparr>) j = bc_entry st j"
  by (simp_all add: bc_entry_def)

lemma bc_soft:
  assumes inv: "bc_inv B X D st" and hd: "bc_hd st' = bc_hd st" "bc_avail st' = bc_avail st" "length (bc_e st') = ne"
    and core: "\<And>j. j < ne \<Longrightarrow> be_buf (bc_entry st' j) = be_buf (bc_entry st j) \<and> be_bn (bc_entry st' j) = be_bn (bc_entry st j) \<and> be_loaded (bc_entry st' j) = be_loaded (bc_entry st j) \<and> be_loading (bc_entry st' j) = be_loading (bc_entry st j)"
    and lists: "distinct (bc_list st' @ bc_pref st')" "set (bc_list st' @ bc_pref st') = set (bc_list st @ bc_pref st)"
    and dirty: "distinct (bc_dirty st')" "\<And>j. j \<in> set (bc_dirty st') \<union> D' \<longleftrightarrow> j < ne \<and> be_dirty (bc_entry st' j)" and ref0: "be_ref (bc_entry st' 0) \<noteq> 0"
    and ent: "\<And>j. j < ne \<Longrightarrow> (be_bn (bc_entry st j) = emptyblock \<longrightarrow> be_ref (bc_entry st' j) = 0 \<and> \<not> be_prefetched (bc_entry st' j)) \<and> (be_dirty (bc_entry st' j) \<longrightarrow> be_loaded (bc_entry st j))
      \<and> be_write_ref (bc_entry st' j) = 0 \<and> (j \<in> set (bc_pref st') \<longrightarrow> be_ref (bc_entry st' j) = 0 \<and> be_prefetched (bc_entry st' j))
      \<and> (be_loading (bc_entry st j) \<longrightarrow> j \<in> set (bc_pref st') \<or> be_ref (bc_entry st' j) \<noteq> 0 \<or> j \<in> X') \<and> (be_dirty (bc_entry st j) \<longrightarrow> be_dirty (bc_entry st' j))"
  shows "bc_inv B X' D' st' \<and> keeps A st st'"
proof -
  have c: "be_buf (bc_entry st' j) = be_buf (bc_entry st j)" "be_bn (bc_entry st' j) = be_bn (bc_entry st j)" "be_loaded (bc_entry st' j) = be_loaded (bc_entry st j)"
      "be_loading (bc_entry st' j) = be_loading (bc_entry st j)" if "j < ne" for j
    using core[OF that] by simp_all
  have g: "gio (bc_e st') None (hd_mem (bc_hd st')) (hd_disk (bc_hd st')) (bc_hd st')" unfolding hd(1)
    by (rule gio_cong[OF bc_invD(1)[OF inv] hd(3)]) (use c in \<open>simp add: bc_entry_def\<close>)
  have ents: "ent_ok B X' st' j" if j: "j < ne" for j
    using ent[OF j] ent_okD[OF bc_invD(8)[OF inv j]] c[OF j] unfolding ent_ok_def Let_def loadeding_def hd(1) by auto
  have av: "avail_ok st'"
  proof -
    have "{i. i < ne \<and> be_buf (bc_entry st' i) \<noteq> None} = {i. i < ne \<and> be_buf (bc_entry st i) \<noteq> None}" using c(1) by auto
    then show ?thesis using bc_invD(9)[OF inv] c(1) unfolding avail_ok_def hd(2) by simp
  qed
  have mem: "i \<in> set (bc_list st') \<union> set (bc_pref st') \<longleftrightarrow> i < ne \<and> be_bn (bc_entry st' i) \<noteq> emptyblock" for i
  proof -
    have "set (bc_list st') \<union> set (bc_pref st') = set (bc_list st) \<union> set (bc_pref st)" using lists(2) by simp
    then show ?thesis using bc_invD(4)[OF inv, of i] c(2)[of i] by metis
  qed
  have bn0: "be_bn (bc_entry st' 0) = 0" using bc_invD(6)[OF inv] c(2)[of 0] by simp
  have inv': "bc_inv B X' D' st'" by (rule bc_invI[OF g lists(1) dirty(1) mem dirty(2) bn0 ref0 ents av])
  have "keeps A st st'"
  proof (rule keepsI[OF bc_invD(10)[OF inv] bc_invD(10)[OF inv']])
    fix i k assume i: "i < ne" "be_loaded (bc_entry st i)"
    show "content st' (be_bn (bc_entry st i)) k = hd_mem (bc_hd st) (the (be_buf (bc_entry st i)) + k)"
      using content_loaded[OF bc_invD(10)[OF inv'] i(1)] c[OF i(1)] i(2) hd(1) by simp
  next
    fix b k assume "\<forall>i < ne. be_bn (bc_entry st i) = b \<longrightarrow> \<not> be_loaded (bc_entry st i)"
    then have "\<forall>i < ne. be_bn (bc_entry st' i) = b \<longrightarrow> \<not> be_loaded (bc_entry st' i)" using c by simp
    then show "content st' b k = hd_disk (bc_hd st) (unat b * blocksize + k)" using content_disk[OF bc_invD(10)[OF inv']] hd(1) by simp
  qed
  then show ?thesis using inv' by blast
qed

text \<open>A block that the cache has: its entry moves to the end of the list.\<close>

lemma hit_slot_ok:
  assumes inv: "bc_inv B {} {} st" and i: "i < ne" "be_bn (bc_entry st i) = bn" "bn \<noteq> emptyblock"
  obtains st' where "rbind (bc_erase st i) (\<lambda>st1. take_slot st1 i bn) = Inr (st', Some i)" "bc_inv B {i} {} st'" "keeps B st st'" "\<And>j. bc_entry st' j = bc_entry st j"
    "i \<in> set (bc_list st')" "i \<notin> set (bc_pref st')" "bc_hd st' = bc_hd st"
proof -
  define st' where "st' = st\<lparr>bc_list := remove1 i (bc_list st) @ [i], bc_pref := remove1 i (bc_pref st)\<rparr>"
  have m: "i \<in> set (bc_list st) \<union> set (bc_pref st)" using bc_invD(4)[OF inv, of i] i by simp
  have d: "distinct (bc_list st)" "distinct (bc_pref st)" "set (bc_list st) \<inter> set (bc_pref st) = {}" using bc_invD(2)[OF inv] by auto
  have en: "bc_entry st' j = bc_entry st j" for j by (simp add: st'_def bc_entry_def)
  have "(bc_e st)[i := (bc_e st ! i)\<lparr>be_bn := bn\<rparr>] = bc_e st" using i(2)[symmetric] by (simp add: bc_entry_def)
  then have run: "rbind (bc_erase st i) (\<lambda>st1. take_slot st1 i bn) = Inr (st', Some i)"
    using m d by (simp add: bc_erase_def take_slot_def list_push_back_def bc_upd_def st'_def)
  have soft: "bc_inv B {i} {} st' \<and> keeps B st st'"
  proof (rule bc_soft[OF inv])
    show "set (bc_list st' @ bc_pref st') = set (bc_list st @ bc_pref st)" "distinct (bc_list st' @ bc_pref st')" using m d by (auto simp: st'_def)
    show "distinct (bc_dirty st')" using bc_invD(3)[OF inv] by (simp add: st'_def)
    show "j \<in> set (bc_dirty st') \<union> {} \<longleftrightarrow> j < ne \<and> be_dirty (bc_entry st' j)" for j using bc_invD(5)[OF inv, of j] en by (simp add: st'_def)
    fix j assume j: "j < ne"
    show "(be_bn (bc_entry st j) = emptyblock \<longrightarrow> be_ref (bc_entry st' j) = 0 \<and> \<not> be_prefetched (bc_entry st' j)) \<and> (be_dirty (bc_entry st' j) \<longrightarrow> be_loaded (bc_entry st j))
      \<and> be_write_ref (bc_entry st' j) = 0 \<and> (j \<in> set (bc_pref st') \<longrightarrow> be_ref (bc_entry st' j) = 0 \<and> be_prefetched (bc_entry st' j))
      \<and> (be_loading (bc_entry st j) \<longrightarrow> j \<in> set (bc_pref st') \<or> be_ref (bc_entry st' j) \<noteq> 0 \<or> j \<in> {i}) \<and> (be_dirty (bc_entry st j) \<longrightarrow> be_dirty (bc_entry st' j))"
      using ent_okD[OF bc_invD(8)[OF inv j]] d(2) unfolding en by (auto simp: st'_def)
  qed (use bc_invD(7,11)[OF inv] en in \<open>simp_all add: st'_def\<close>)
  show ?thesis by (rule that[OF run conjunct1[OF soft] conjunct2[OF soft] en]) (use d in \<open>simp_all add: st'_def\<close>)
qed

section \<open>Steps that change one entry\<close>

lemma bc_hard:
  assumes inv: "bc_inv B X D st" and i: "i < ne" and g: "gio (bc_e st') None (hd_mem (bc_hd st')) (hd_disk (bc_hd st')) (bc_hd st')"
    and oth: "\<And>j. j \<noteq> i \<Longrightarrow> bc_entry st' j = bc_entry st j"
    and mem: "\<And>j q k. j < ne \<Longrightarrow> j \<noteq> i \<Longrightarrow> be_loaded (bc_entry st j) \<Longrightarrow> be_buf (bc_entry st j) = Some q \<Longrightarrow> k < blocksize \<Longrightarrow> hd_mem (bc_hd st') (q + k) = hd_mem (bc_hd st) (q + k)"
    and disk: "hd_disk (bc_hd st') = hd_disk (bc_hd st)" and dist: "distinct (bc_list st' @ bc_pref st')"
    and lists: "\<And>j. j \<noteq> i \<Longrightarrow> (j \<in> set (bc_pref st') \<longleftrightarrow> j \<in> set (bc_pref st)) \<and> (j \<in> set (bc_list st') \<union> set (bc_pref st') \<longleftrightarrow> j \<in> set (bc_list st) \<union> set (bc_pref st))"
      "i \<in> set (bc_list st') \<union> set (bc_pref st') \<longleftrightarrow> be_bn (bc_entry st' i) \<noteq> emptyblock"
    and dirty: "bc_dirty st' = bc_dirty st" "be_dirty (bc_entry st' i) = be_dirty (bc_entry st i)"
    and z: "i = 0 \<longrightarrow> be_bn (bc_entry st' i) = 0 \<and> be_ref (bc_entry st' i) \<noteq> 0" and ent: "ent_ok B X' st' i" "X \<subseteq> insert i X'" and av: "avail_ok st'"
    and K1: "\<And>k. be_loaded (bc_entry st i) \<Longrightarrow> be_bn (bc_entry st i) \<in> A \<Longrightarrow> k < blocksize \<Longrightarrow>
      (if be_loaded (bc_entry st' i) \<and> be_bn (bc_entry st' i) = be_bn (bc_entry st i) then hd_mem (bc_hd st') (the (be_buf (bc_entry st' i)) + k)
       else hd_disk (bc_hd st) (unat (be_bn (bc_entry st i)) * blocksize + k)) = hd_mem (bc_hd st) (the (be_buf (bc_entry st i)) + k)"
    and K2: "\<And>k. \<not> be_loaded (bc_entry st i) \<or> be_bn (bc_entry st' i) \<noteq> be_bn (bc_entry st i) \<Longrightarrow> be_loaded (bc_entry st' i) \<Longrightarrow> be_bn (bc_entry st' i) \<in> A \<Longrightarrow> k < blocksize \<Longrightarrow>
      hd_mem (bc_hd st') (the (be_buf (bc_entry st' i)) + k) = hd_disk (bc_hd st) (unat (be_bn (bc_entry st' i)) * blocksize + k)"
  shows "bc_inv B X' D st' \<and> keeps A st st'"
proof -
  note es = bc_invD(10)[OF inv] and es' = gioD(1)[OF g]
  have page: "hd_mem (bc_hd st') (the (be_buf (bc_entry st j)) + k) = hd_mem (bc_hd st) (the (be_buf (bc_entry st j)) + k)" if "j < ne" "j \<noteq> i" "be_loaded (bc_entry st j)" "k < blocksize" for j k
    using es_okD(6)[OF es that(1)] mem[OF that(1-3) _ that(4)] that(3) by (auto simp: bc_entry_def)
  have ents: "ent_ok B X' st' j" if j: "j < ne" for j
  proof (cases "j = i")
    case False
    note o = ent_okD[OF bc_invD(8)[OF inv j]]
    have sp: "be_loaded (bc_entry st j) \<Longrightarrow> \<not> be_dirty (bc_entry st j) \<Longrightarrow> be_bn (bc_entry st j) \<in> B \<Longrightarrow> same_page (bc_hd st') (the (be_buf (bc_entry st j))) (be_bn (bc_entry st j))"
      using o(6) page[OF j False] disk by (simp add: same_page_def)
    have "j \<in> X \<Longrightarrow> j \<in> X'" using ent(2) False by auto
    then show ?thesis using o(1-5) sp lists(1)[OF False] unfolding ent_ok_def Let_def oth[OF False] by auto
  qed (use ent in simp)
  have m: "j \<in> set (bc_list st') \<union> set (bc_pref st') \<longleftrightarrow> j < ne \<and> be_bn (bc_entry st' j) \<noteq> emptyblock" for j
    using lists(1)[of j] lists(2) bc_invD(4)[OF inv, of j] oth[of j] i by (cases "j = i") auto
  have d: "j \<in> set (bc_dirty st') \<union> D \<longleftrightarrow> j < ne \<and> be_dirty (bc_entry st' j)" for j
    using bc_invD(5)[OF inv, of j] dirty oth[of j] by (cases "j = i") auto
  have bn0: "be_bn (bc_entry st' 0) = 0" "be_ref (bc_entry st' 0) \<noteq> 0" using z oth[of 0] bc_invD(6,7)[OF inv] by (cases "i = 0"; simp)+
  have d0: "distinct (bc_dirty st')" using bc_invD(3)[OF inv] dirty(1) by simp
  have inv': "bc_inv B X' D st'" by (rule bc_invI[OF g dist d0 m d bn0 ents av])
  have "keeps A st st'"
  proof (rule keepsI[OF es es'])
    fix j k assume j: "j < ne" "be_loaded (bc_entry st j)" "be_bn (bc_entry st j) \<in> A" "k < blocksize"
    show "content st' (be_bn (bc_entry st j)) k = hd_mem (bc_hd st) (the (be_buf (bc_entry st j)) + k)"
    proof (cases "j = i")
      case False
      then show ?thesis using content_loaded[OF es' j(1), of "be_bn (bc_entry st j)" k] oth[OF False] j(2) page[OF j(1) False j(2,4)] by simp
    next
      case True
      show ?thesis
      proof (cases "be_loaded (bc_entry st' i) \<and> be_bn (bc_entry st' i) = be_bn (bc_entry st i)")
        case c: True
        then show ?thesis using content_loaded[OF es' i, of "be_bn (bc_entry st i)" k] K1[of k] j True by simp
      next
        case c: False
        obtain p where "be_buf (bc_entry st i) = Some p" using es_okD(6)[OF es i] j(2) True by (auto simp: bc_entry_def)
        then have bn: "be_bn (bc_entry st i) \<noteq> emptyblock" using es_okD(3)[OF es i, of p] by (simp add: bc_entry_def)
        have "\<not> be_loaded (bc_entry st' t)" if "t < ne" "be_bn (bc_entry st' t) = be_bn (bc_entry st i)" for t
        proof (cases "t = i")
          case t: False
          then have "be_bn (bc_entry st t) = be_bn (bc_entry st i)" using that(2) oth[OF t] by simp
          then have "i = t" by (intro es_okD(5)[OF es i that(1)]) (use bn in \<open>simp_all add: bc_entry_def\<close>)
          then show ?thesis using t by simp
        qed (use c that in auto)
        then show ?thesis using content_disk[OF es', of "be_bn (bc_entry st i)" k] K1[of k] j True c disk by simp
      qed
    qed
  next
    fix b k assume b: "b \<in> A" "k < blocksize" "\<forall>t < ne. be_bn (bc_entry st t) = b \<longrightarrow> \<not> be_loaded (bc_entry st t)"
    show "content st' b k = hd_disk (bc_hd st) (unat b * blocksize + k)"
    proof (cases "be_loaded (bc_entry st' i) \<and> be_bn (bc_entry st' i) = b")
      case True
      then show ?thesis using content_loaded[OF es' i, of b k] K2[of k] b i by auto
    next
      case False
      have "\<forall>t < ne. be_bn (bc_entry st' t) = b \<longrightarrow> \<not> be_loaded (bc_entry st' t)" using b(3) False oth by metis
      then show ?thesis using content_disk[OF es', of b k] disk by simp
    qed
  qed
  then show ?thesis using inv' by blast
qed

lemma bc_set_entry: "length (bc_e st) = ne \<Longrightarrow> i < ne \<Longrightarrow> bc_e st' = (bc_e st)[i := e] \<Longrightarrow> bc_entry st' j = (if j = i then e else bc_entry st j)"
  by (simp add: bc_entry_def)

text \<open>Entries whose core is new at \<open>i\<close> only.\<close>

lemma es_ok_set:
  assumes es: "es_ok es" and i: "i < ne" and buf: "\<And>p. be_buf e = Some p \<Longrightarrow> page_ok p \<and> be_bn e \<noteq> emptyblock \<and> (\<forall>j < ne. j \<noteq> i \<longrightarrow> be_buf (es ! j) \<noteq> Some p)"
    and bn: "be_bn e \<noteq> emptyblock \<Longrightarrow> \<forall>j < ne. j \<noteq> i \<longrightarrow> be_bn (es ! j) \<noteq> be_bn e" and l: "loadeding e \<Longrightarrow> be_buf e \<noteq> None" "be_loaded e \<Longrightarrow> \<not> be_loading e"
  shows "es_ok (es[i := e])"
proof -
  note o = es_okD[OF es]
  have n: "es[i := e] ! j = (if j = i then e else es ! j)" for j using o(1) i by simp
  show ?thesis
    unfolding es_ok_def n
  proof (intro conjI allI impI)
    fix j p assume "j < ne" "be_buf (if j = i then e else es ! j) = Some p"
    then show "page_ok p" "be_bn (if j = i then e else es ! j) \<noteq> emptyblock" using buf[of p] o(2,3)[of j p] by (auto split: if_splits)
  next
    fix j k assume a: "j < ne" "k < ne" "be_buf (if j = i then e else es ! j) \<noteq> None" "be_buf (if j = i then e else es ! j) = be_buf (if k = i then e else es ! k)"
    then obtain p where p: "be_buf (if j = i then e else es ! j) = Some p" "be_buf (if k = i then e else es ! k) = Some p" by auto
    show "j = k" using p a(1,2) buf[of p] o(4)[OF a(1,2), of p] by (auto split: if_splits)
  next
    fix j k assume a: "j < ne" "k < ne" "be_bn (if j = i then e else es ! j) \<noteq> emptyblock" "be_bn (if j = i then e else es ! j) = be_bn (if k = i then e else es ! k)"
    then show "j = k" using bn o(5)[OF a(1,2)] by (auto split: if_splits)
  next
    fix j assume "j < ne"
    then show "loadeding (if j = i then e else es ! j) \<Longrightarrow> be_buf (if j = i then e else es ! j) \<noteq> None" "be_loaded (if j = i then e else es ! j) \<Longrightarrow> \<not> be_loading (if j = i then e else es ! j)"
      using l o(6,7,8)[of j] by (auto simp: loadeding_def split: if_splits)
  qed (use o(1) in simp)
qed

lemma wipe_page_other: "page_ok p \<Longrightarrow> page_ok q \<Longrightarrow> p \<noteq> q \<Longrightarrow> k < blocksize \<Longrightarrow> wipe_page m p (q + k) = m (q + k)"
  using pages_apart[of p q k] unfolding wipe_page_def page_ok_def by presburger

lemma gio_mem_self: "gio es None m d (h\<lparr>hd_mem := m'\<rparr>) \<Longrightarrow> gio es None (hd_mem (h\<lparr>hd_mem := m'\<rparr>)) (hd_disk (h\<lparr>hd_mem := m'\<rparr>)) (h\<lparr>hd_mem := m'\<rparr>)"
  by (rule gio_self)

lemma evict_ok:
  assumes inv: "bc_inv B {} {} st" and i: "i < ne" "be_bn (bc_entry st i) \<noteq> emptyblock" "be_ref (bc_entry st i) = 0" "\<not> be_dirty (bc_entry st i)" "hd_stat (bc_hd st) i \<noteq> E_AGAIN"
  obtains st' where "evict st i = Inr st'" "bc_inv B {} {} st'" "keeps B st st'" "pinned st st'" "be_bn (bc_entry st' i) = emptyblock" "\<forall>j. j \<noteq> i \<longrightarrow> bc_entry st' j = bc_entry st j"
    "hd_stat (bc_hd st') = hd_stat (bc_hd st)" "hd_outstanding (bc_hd st') = hd_outstanding (bc_hd st)"
proof -
  note es = bc_invD(10)[OF inv] and g = bc_invD(1)[OF inv] and len = bc_invD(11)[OF inv] and ei = ent_okD[OF bc_invD(8)[OF inv i(1)]] and av = bc_invD(9)[OF inv, unfolded avail_ok_def]
  define e where "e = (bc_entry st i)\<lparr>be_bn := emptyblock, be_loaded := False, be_loading := False, be_dirty := False, be_buf := None, be_prefetched := False\<rparr>"
  define m where "m = (case be_buf (bc_entry st i) of None \<Rightarrow> hd_mem (bc_hd st) | Some p \<Rightarrow> wipe_page (hd_mem (bc_hd st)) p)"
  define a where "a = (case be_buf (bc_entry st i) of None \<Rightarrow> bc_avail st | Some p \<Rightarrow> p # bc_avail st)"
  define st' where "st' = \<lparr>bc_e = (bc_e st)[i := e], bc_list = remove1 i (bc_list st), bc_pref = remove1 i (bc_pref st), bc_dirty = bc_dirty st, bc_hd = (bc_hd st)\<lparr>hd_mem := m\<rparr>, bc_avail = a\<rparr>"
  have sel: "bc_e st' = (bc_e st)[i := e]" "bc_list st' = remove1 i (bc_list st)" "bc_pref st' = remove1 i (bc_pref st)" "bc_dirty st' = bc_dirty st" "bc_hd st' = (bc_hd st)\<lparr>hd_mem := m\<rparr>" "bc_avail st' = a"
    by (simp_all add: st'_def)
  have mem: "i \<in> set (bc_list st) \<union> set (bc_pref st)" using bc_invD(4)[OF inv, of i] i by blast
  have run: "evict st i = Inr st'"
    using mem i(3) len i(1) by (cases "be_buf (bc_entry st i)") (simp_all add: evict_def bc_erase_def free_buf_def be_clear_def bc_upd_def st'_def e_def m_def a_def bc_entry_def)
  have d: "distinct (bc_list st)" "distinct (bc_pref st)" "set (bc_list st) \<inter> set (bc_pref st) = {}" using bc_invD(2)[OF inv] by auto
  have en: "bc_entry st' j = (if j = i then e else bc_entry st j)" for j by (rule bc_set_entry[OF len i(1)]) (simp add: sel)
  have page: "m (q + k) = hd_mem (bc_hd st) (q + k)" if "j < ne" "j \<noteq> i" "be_buf (bc_entry st j) = Some q" "k < blocksize" for j q k
  proof (cases "be_buf (bc_entry st i)")
    case (Some p)
    then have "p \<noteq> q" using es_okD(4)[OF es i(1) that(1), of p] that(2,3) by (auto simp: bc_entry_def)
    then show ?thesis using wipe_page_other[of p q k] es_okD(2)[OF es i(1), of p] es_okD(2)[OF es that(1), of q] that(3,4) Some by (simp add: m_def bc_entry_def)
  qed (simp add: m_def)
  have es': "es_ok ((bc_e st)[i := e])" by (rule es_ok_set[OF es i(1)]) (simp_all add: e_def loadeding_def)
  have g': "gio (bc_e st') None (hd_mem (bc_hd st')) (hd_disk (bc_hd st')) (bc_hd st')"
  proof -
    have "gio ((bc_e st)[i := e]) None m (hd_disk (bc_hd st)) ((bc_hd st)\<lparr>hd_mem := m\<rparr>)"
    proof (rule gio_change[OF g es'], intro allI impI)
      fix j assume j: "j < ne"
      show "\<not> be_loading ((bc_e st)[i := e] ! j) \<and> hd_stat (bc_hd st) j \<noteq> E_AGAIN \<or> (be_loading ((bc_e st)[i := e] ! j) = be_loading (bc_e st ! j) \<and> be_buf ((bc_e st)[i := e] ! j) = be_buf (bc_e st ! j) \<and> be_bn ((bc_e st)[i := e] ! j) = be_bn (bc_e st ! j)
        \<and> (\<forall>q k. be_buf (bc_e st ! j) = Some q \<longrightarrow> k < blocksize \<longrightarrow> m (q + k) = hd_mem (bc_hd st) (q + k)))"
        using page[OF j] i(5) len i(1) by (cases "j = i") (simp_all add: e_def bc_entry_def)
    qed
    then show ?thesis by (simp add: sel)
  qed
  have av': "avail_ok st'"
  proof (cases "be_buf (bc_entry st i)")
    case None
    then have "{j. j < ne \<and> be_buf (bc_entry st' j) \<noteq> None} = {j. j < ne \<and> be_buf (bc_entry st j) \<noteq> None}" by (auto simp: en e_def)
    then show ?thesis using av None unfolding avail_ok_def by (auto simp: en e_def a_def sel)
  next
    case (Some p)
    then have "{j. j < ne \<and> be_buf (bc_entry st j) \<noteq> None} = insert i {j. j < ne \<and> be_buf (bc_entry st' j) \<noteq> None}" using i(1) by (auto simp: en e_def)
    moreover have "i \<notin> {j. j < ne \<and> be_buf (bc_entry st' j) \<noteq> None}" by (simp add: en e_def)
    ultimately have c: "card {j. j < ne \<and> be_buf (bc_entry st j) \<noteq> None} = Suc (card {j. j < ne \<and> be_buf (bc_entry st' j) \<noteq> None})" by simp
    have p: "page_ok p" "p \<notin> set (bc_avail st)" using es_okD(2)[OF es i(1), of p] av Some i(1) by (auto simp: bc_entry_def)
    show ?thesis using av c p Some bc_buf_other[OF es i(1) _ _ Some] unfolding avail_ok_def by (auto simp: en e_def a_def sel)
  qed
  have hard: "bc_inv B {} {} st' \<and> keeps B st st'"
  proof (rule bc_hard[OF inv i(1) g'])
    show "distinct (bc_list st' @ bc_pref st')" using d by (auto simp: sel dest: in_set_remove1[THEN iffD1, rotated])
    show "(j \<in> set (bc_pref st') \<longleftrightarrow> j \<in> set (bc_pref st)) \<and> (j \<in> set (bc_list st') \<union> set (bc_pref st') \<longleftrightarrow> j \<in> set (bc_list st) \<union> set (bc_pref st))" if "j \<noteq> i" for j
      using that by (simp add: sel)
    show "i \<in> set (bc_list st') \<union> set (bc_pref st') \<longleftrightarrow> be_bn (bc_entry st' i) \<noteq> emptyblock" using d by (simp add: sel en e_def)
    show "be_dirty (bc_entry st' i) = be_dirty (bc_entry st i)" using i(4) by (simp add: en e_def)
    show "i = 0 \<longrightarrow> be_bn (bc_entry st' i) = 0 \<and> be_ref (bc_entry st' i) \<noteq> 0" using bc_invD(7)[OF inv] i(3) by auto
    show "ent_ok B {} st' i" using d ei(3) i(3) unfolding ent_ok_def Let_def en by (simp add: e_def sel loadeding_def)
    fix k assume l: "be_loaded (bc_entry st i)" "be_bn (bc_entry st i) \<in> B" "k < blocksize"
    show "(if be_loaded (bc_entry st' i) \<and> be_bn (bc_entry st' i) = be_bn (bc_entry st i) then hd_mem (bc_hd st') (the (be_buf (bc_entry st' i)) + k)
       else hd_disk (bc_hd st) (unat (be_bn (bc_entry st i)) * blocksize + k)) = hd_mem (bc_hd st) (the (be_buf (bc_entry st i)) + k)"
      using ei(6)[OF l(1) i(4) l(2)] l(3) by (simp add: en e_def same_page_def)
  qed (use en page av' in \<open>auto simp: e_def sel\<close>)
  have "pinned st st'" using i(3) unfolding pinned_def en by (simp add: e_def)
  then show ?thesis using that[OF run] hard en by (simp add: e_def sel)
qed

lemma bc_inv_mono:
  assumes inv: "bc_inv B X D st" and X: "X \<subseteq> X'"
  shows "bc_inv B X' D st"
proof -
  have "ent_ok B X' st j" if "j < ne" for j using bc_invD(8)[OF inv that] X unfolding ent_ok_def Let_def by blast
  then show ?thesis by (rule bc_invI[OF bc_invD(1,2,3)[OF inv] bc_invD(4,5)[OF inv] bc_invD(6,7)[OF inv] _ bc_invD(9)[OF inv]])
qed

text \<open>An empty entry takes a block that no other has.\<close>

lemma take_empty_ok:
  assumes inv: "bc_inv B {} {} st" and i: "i < ne" "be_bn (bc_entry st i) = emptyblock" and bn: "bn \<noteq> emptyblock" "\<forall>j < ne. be_bn (bc_entry st j) \<noteq> bn"
  obtains st' where "take_slot st i bn = Inr (st', Some i)" "bc_inv B {i} {} st'" "keeps B st st'" "pinned st st'" "\<forall>j. bc_entry st' j = (if j = i then (bc_entry st i)\<lparr>be_bn := bn\<rparr> else bc_entry st j)"
    "i \<in> set (bc_list st')" "i \<notin> set (bc_pref st')" "bc_hd st' = bc_hd st"
proof -
  note es = bc_invD(10)[OF inv] and g = bc_invD(1)[OF inv] and len = bc_invD(11)[OF inv] and ei = ent_okD[OF bc_invD(8)[OF inv i(1)]]
  have empty: "be_ref (bc_entry st i) = 0" "\<not> be_loaded (bc_entry st i)" "\<not> be_loading (bc_entry st i)" "be_buf (bc_entry st i) = None" "\<not> be_dirty (bc_entry st i)"
    using ei(1)[OF i(2)] ei(2) by (auto simp: loadeding_def)
  define st' where "st' = (bc_upd st i (\<lambda>e. e\<lparr>be_bn := bn\<rparr>))\<lparr>bc_list := bc_list st @ [i]\<rparr>"
  have sel: "bc_list st' = bc_list st @ [i]" "bc_pref st' = bc_pref st" "bc_dirty st' = bc_dirty st" "bc_hd st' = bc_hd st" "bc_avail st' = bc_avail st" "bc_e st' = (bc_e st)[i := (bc_entry st i)\<lparr>be_bn := bn\<rparr>]"
    by (simp_all add: st'_def) (simp add: bc_upd_def bc_entry_def)
  have nm: "i \<notin> set (bc_list st) \<union> set (bc_pref st)" using bc_invD(4)[OF inv, of i] i by blast
  have run: "take_slot st i bn = Inr (st', Some i)" using nm by (simp add: take_slot_def list_push_back_def st'_def)
  have en: "bc_entry st' j = (if j = i then (bc_entry st i)\<lparr>be_bn := bn\<rparr> else bc_entry st j)" for j by (rule bc_set_entry[OF len i(1) sel(6)])
  have es': "es_ok (bc_e st')" unfolding sel(6)
    by (rule es_ok_set[OF es i(1)]) (use empty bn in \<open>auto simp: loadeding_def bc_entry_def\<close>)
  have nl: "\<not> be_loading (bc_e st ! i)" using empty(3) by (simp add: bc_entry_def)
  have "gio (bc_e st') None (hd_mem (bc_hd st)) (hd_disk (bc_hd st)) ((bc_hd st)\<lparr>hd_mem := hd_mem (bc_hd st)\<rparr>)"
  proof (rule gio_change[OF g es'], intro allI impI)
    fix j assume "j < ne"
    show "(\<not> be_loading (bc_e st' ! j) \<and> hd_stat (bc_hd st) j \<noteq> E_AGAIN) \<or> (be_loading (bc_e st' ! j) = be_loading (bc_e st ! j) \<and> be_buf (bc_e st' ! j) = be_buf (bc_e st ! j) \<and> be_bn (bc_e st' ! j) = be_bn (bc_e st ! j)
      \<and> (\<forall>q k. be_buf (bc_e st ! j) = Some q \<longrightarrow> k < blocksize \<longrightarrow> hd_mem (bc_hd st) (q + k) = hd_mem (bc_hd st) (q + k)))"
      using gio_stat_free(2)[OF g i(1) nl] empty(3) len i(1) by (cases "j = i") (simp_all add: sel(6))
  qed
  then have g': "gio (bc_e st') None (hd_mem (bc_hd st')) (hd_disk (bc_hd st')) (bc_hd st')" by (simp add: sel(4))
  have bufs: "be_buf (bc_entry st' j) = be_buf (bc_entry st j)" for j by (simp add: en)
  have av: "avail_ok st'" using bc_invD(9)[OF inv] unfolding avail_ok_def bufs sel(5) .
  have "bc_inv B {} {} st' \<and> keeps B st st'"
  proof (rule bc_hard[OF inv i(1) g'])
    show "distinct (bc_list st' @ bc_pref st')" using bc_invD(2)[OF inv] nm by (auto simp: sel)
    show "i = 0 \<longrightarrow> be_bn (bc_entry st' i) = 0 \<and> be_ref (bc_entry st' i) \<noteq> 0" using bc_invD(6)[OF inv] i(2) by auto
    show "ent_ok B {} st' i" using empty ei(3) nm bn(1) unfolding ent_ok_def Let_def en by (simp add: sel)
  qed (use en empty bn(1) av in \<open>auto simp: sel\<close>)
  moreover have "pinned st st'" using empty(1) unfolding pinned_def en by simp
  ultimately show ?thesis using that[OF run] en nm bc_inv_mono[of B "{}" "{}" st' "{i}"] by (simp add: sel)
qed

section \<open>Writing back\<close>

lemma sync_one_ok:
  assumes inv: "bc_inv B {} D st" and dev: "device_fair dev" and i: "i \<in> D" "i \<notin> set (bc_dirty st)"
  obtains st' where "sync_one dev st i = Inr st'" "bc_inv B {} (D - {i}) st'" "keeps B st st'" "\<forall>j. bc_entry st' j = (if j = i then (bc_entry st i)\<lparr>be_dirty := False\<rparr> else bc_entry st j)"
    "bc_dirty st' = bc_dirty st" "\<forall>j < ne. hd_stat (bc_hd st') j = E_AGAIN \<longrightarrow> hd_stat (bc_hd st) j = E_AGAIN"
proof -
  note es = bc_invD(10)[OF inv] and g = bc_invD(1)[OF inv] and len = bc_invD(11)[OF inv]
  have id: "i < ne" "be_dirty (bc_entry st i)" using bc_invD(5)[OF inv, of i] i(1) by auto
  note ei = ent_okD[OF bc_invD(8)[OF inv id(1)]]
  have ld: "be_loaded (bc_entry st i)" using ei(2)[OF id(2)] .
  obtain p where p: "be_buf (bc_entry st i) = Some p" using es_okD(6)[OF es id(1)] ld by (auto simp: bc_entry_def)
  define es1 where "es1 = (bc_e st)[i := (bc_entry st i)\<lparr>be_write_ref := 1, be_dirty := True\<rparr>]"
  have n1: "es1 ! j = (if j = i then (bc_entry st i)\<lparr>be_write_ref := 1, be_dirty := True\<rparr> else bc_e st ! j)" for j using len id(1) by (simp add: es1_def)
  have gw: "get_write st i = Inr (st\<lparr>bc_e := es1\<rparr>)" using ei(3) id len by (simp add: get_write_def sully_def bc_upd_def es1_def bc_entry_def)
  have g1: "gio es1 None (hd_mem (bc_hd st)) (hd_disk (bc_hd st)) (bc_hd st)"
  proof (rule gio_cong[OF g])
    show "length es1 = ne" using len by (simp add: es1_def)
  qed (simp add: n1 bc_entry_def)
  obtain h where h: "read_or_write dev (bc_hd st) cmd_write_fpdma_queued p blocksize (unat (be_bn (es1 ! i)) * blocksize) i = Inr (h, hd_stat h i)" "gio es1 None (hd_mem (bc_hd st)) (hd_disk h) h"
    "same_page h p (be_bn (es1 ! i))" "\<forall>b k. b \<noteq> be_bn (es1 ! i) \<longrightarrow> k < blocksize \<longrightarrow> hd_disk h (unat b * blocksize + k) = hd_disk (bc_hd st) (unat b * blocksize + k)"
    "\<forall>j. j \<noteq> i \<longrightarrow> hd_stat h j = E_AGAIN \<longrightarrow> hd_stat (bc_hd st) j = E_AGAIN"
    by (rule gio_write_block[OF g1 dev id(1), of p]) (use p ld in \<open>auto simp: n1\<close>)
  define e where "e = (bc_entry st i)\<lparr>be_dirty := False\<rparr>"
  define st' where "st' = st\<lparr>bc_hd := h, bc_e := (bc_e st)[i := e]\<rparr>"
  have sel: "bc_list st' = bc_list st" "bc_pref st' = bc_pref st" "bc_dirty st' = bc_dirty st" "bc_hd st' = h" "bc_avail st' = bc_avail st" "bc_e st' = (bc_e st)[i := e]" by (simp_all add: st'_def)
  have "(bc_entry st i)\<lparr>be_dirty := False, be_write_ref := 0\<rparr> = e" using ei(3) by (simp add: e_def)
  then have run: "sync_one dev st i = Inr st'"
    using gw h(1) p len id(1) by (simp add: sync_one_def n1 bc_entry_def put_write_def bc_upd_def st'_def) (simp add: es1_def bc_entry_def)
  have en: "bc_entry st' j = (if j = i then e else bc_entry st j)" for j by (rule bc_set_entry[OF len id(1) sel(6)])
  have "gio (bc_e st') None (hd_mem (bc_hd st)) (hd_disk h) h"
  proof (rule gio_cong[OF h(2)])
    show "length (bc_e st') = ne" using len by (simp add: sel)
  qed (use len id(1) in \<open>simp add: n1 sel(6) e_def bc_entry_def nth_list_update\<close>)
  note g2 = this and g' = gio_self[OF this, folded sel(4)]
  have mem: "hd_mem h (q + k) = hd_mem (bc_hd st) (q + k)" if "j < ne" "be_loaded (bc_entry st j)" "be_buf (bc_entry st j) = Some q" "k < blocksize" for j q k
    by (rule gioD(7)[OF g2 that(1) _ _ that(4)]) (use that en[of j] in \<open>auto simp: bc_entry_def e_def split: if_splits\<close>)
  have bi: "be_bn (es1 ! i) = be_bn (bc_entry st i)" by (simp add: n1)
  have nb: "be_bn (bc_entry st i) \<noteq> emptyblock" using es_okD(3)[OF es id(1), of p] p by (simp add: bc_entry_def)
  have ents: "ent_ok B {} st' j" if j: "j < ne" for j
  proof (cases "j = i")
    case True
    then show ?thesis using ei(2-5) h(3) p nb unfolding ent_ok_def Let_def en by (simp add: e_def sel bi)
  next
    case False
    note o = ent_okD[OF bc_invD(8)[OF inv j]]
    have "same_page h (the (be_buf (bc_entry st j))) (be_bn (bc_entry st j))" if l: "be_loaded (bc_entry st j)" "\<not> be_dirty (bc_entry st j)" "be_bn (bc_entry st j) \<in> B"
    proof -
      obtain q where q: "be_buf (bc_entry st j) = Some q" using es_okD(6)[OF es j] l(1) by (auto simp: bc_entry_def)
      have "be_bn (bc_entry st j) \<noteq> be_bn (bc_entry st i)" using bc_bn_other[OF es id(1) j False nb] .
      then show ?thesis using o(6)[OF l] mem[OF j l(1) q] h(4) bi q by (simp add: same_page_def)
    qed
    then show ?thesis using o(1-5) unfolding ent_ok_def Let_def en by (auto simp: False sel)
  qed
  have bufs: "be_buf (bc_entry st' j) = be_buf (bc_entry st j)" for j by (simp add: en e_def)
  have av: "avail_ok st'" using bc_invD(9)[OF inv] unfolding avail_ok_def bufs sel(5) .
  have inv': "bc_inv B {} (D - {i}) st'"
  proof (rule bc_invI[OF g' _ _ _ _ _ _ ents av])
    show "j \<in> set (bc_list st') \<union> set (bc_pref st') \<longleftrightarrow> j < ne \<and> be_bn (bc_entry st' j) \<noteq> emptyblock" for j using bc_invD(4)[OF inv, of j] by (simp add: sel en e_def)
    show "j \<in> set (bc_dirty st') \<union> (D - {i}) \<longleftrightarrow> j < ne \<and> be_dirty (bc_entry st' j)" for j using bc_invD(5)[OF inv, of j] i(2) by (auto simp: sel en e_def)
  qed (use bc_invD(2,3,6,7)[OF inv] in \<open>simp_all add: sel en e_def\<close>)
  have "keeps B st st'"
  proof (rule keepsI[OF es bc_invD(10)[OF inv']])
    fix j k assume j: "j < ne" "be_loaded (bc_entry st j)" "k < blocksize"
    obtain q where q: "be_buf (bc_entry st j) = Some q" using es_okD(6)[OF es j(1)] j(2) by (auto simp: bc_entry_def)
    have "be_loaded (bc_entry st' j)" "be_bn (bc_entry st' j) = be_bn (bc_entry st j)" using j(2) by (cases "j = i"; simp add: en e_def)+
    then show "content st' (be_bn (bc_entry st j)) k = hd_mem (bc_hd st) (the (be_buf (bc_entry st j)) + k)"
      using content_loaded[OF bc_invD(10)[OF inv'] j(1), of "be_bn (bc_entry st j)" k] mem[OF j(1,2) q j(3)] q by (simp add: sel bufs)
  next
    fix b k assume b: "k < blocksize" "\<forall>j < ne. be_bn (bc_entry st j) = b \<longrightarrow> \<not> be_loaded (bc_entry st j)"
    then have "b \<noteq> be_bn (bc_entry st i)" using id(1) ld by auto
    moreover have "\<forall>j < ne. be_bn (bc_entry st' j) = b \<longrightarrow> \<not> be_loaded (bc_entry st' j)" using b(2) by (simp add: en e_def)
    ultimately show "content st' b k = hd_disk (bc_hd st) (unat b * blocksize + k)"
      using content_disk[OF bc_invD(10)[OF inv']] h(4) bi b(1) by (simp add: sel)
  qed
  moreover have "hd_stat h i \<noteq> E_AGAIN" using gio_stat_free(2)[OF g2 id(1)] es_okD(8)[OF bc_invD(10)[OF inv'] id(1)] ld en[of i] by (simp add: bc_entry_def e_def)
  ultimately show ?thesis using that[OF run inv'] en h(5) by (simp add: e_def sel) metis
qed

end
