(* ===== verification/Bufcache_Correct.thy ===== *)
theory Bufcache_Correct
  imports Bufcache_Inv
begin

text \<open>
  The operations of the buffer cache keep its invariant and the contents of the blocks, and the cache as a whole refines a disk of blocks that are read and stored at once.
\<close>

lemma bufentry_dirty_id: "\<not> be_dirty e \<Longrightarrow> e\<lparr>be_dirty := False\<rparr> = e"
  by simp

lemma sync_loop_ok:
  assumes "bc_inv B {} (set is) st" "device_fair dev" "distinct is" "bc_dirty st = []"
  shows "\<exists>st'. sync_loop dev st is = Inr st' \<and> bc_inv B {} {} st' \<and> keeps B st st' \<and> (\<forall>j. bc_entry st' j = (if j \<in> set is then (bc_entry st j)\<lparr>be_dirty := False\<rparr> else bc_entry st j)) \<and> bc_dirty st' = []
    \<and> (\<forall>j < ne. hd_stat (bc_hd st') j = E_AGAIN \<longrightarrow> hd_stat (bc_hd st) j = E_AGAIN)"
  using assms
proof (induction "is" arbitrary: st)
  case (Cons i "is")
  obtain st1 where st1: "sync_one dev st i = Inr st1" "bc_inv B {} (set (i # is) - {i}) st1" "keeps B st st1" "\<forall>j. bc_entry st1 j = (if j = i then (bc_entry st i)\<lparr>be_dirty := False\<rparr> else bc_entry st j)"
    "bc_dirty st1 = bc_dirty st" "\<forall>j < ne. hd_stat (bc_hd st1) j = E_AGAIN \<longrightarrow> hd_stat (bc_hd st) j = E_AGAIN"
    by (rule sync_one_ok[OF Cons.prems(1,2), of i]) (use Cons.prems(4) in auto)
  have "set (i # is) - {i} = set is" using Cons.prems(3) by auto
  then have s1: "bc_inv B {} (set is) st1" using st1(2) by simp
  obtain st' where "sync_loop dev st1 is = Inr st'" "bc_inv B {} {} st'" "keeps B st1 st'" "\<forall>j. bc_entry st' j = (if j \<in> set is then (bc_entry st1 j)\<lparr>be_dirty := False\<rparr> else bc_entry st1 j)" "bc_dirty st' = []"
    "\<forall>j < ne. hd_stat (bc_hd st') j = E_AGAIN \<longrightarrow> hd_stat (bc_hd st1) j = E_AGAIN"
    using Cons.IH[OF s1 Cons.prems(2)] Cons.prems(3,4) st1(5) by auto
  then show ?case using st1(1,4,6) keeps_trans[OF st1(3)] Cons.prems(3) by (intro exI[of _ st']) auto
qed (simp add: keeps_refl)

lemma sync_ok:
  assumes inv: "bc_inv B {} {} st" and dev: "device_fair dev"
  obtains st' where "sync dev st False = Inr st'" "sync_loop dev (st\<lparr>bc_dirty := []\<rparr>) (bc_dirty st) = Inr st'" "bc_inv B {} {} st'" "keeps B st st'" "pinned st st'"
    "\<forall>j < ne. bc_entry st' j = (bc_entry st j)\<lparr>be_dirty := False\<rparr>" "bc_dirty st' = []"
    "\<forall>j < ne. hd_stat (bc_hd st') j = E_AGAIN \<longrightarrow> hd_stat (bc_hd st) j = E_AGAIN"
proof -
  let ?s = "st\<lparr>bc_dirty := []\<rparr>"
  have es: "bc_e ?s = bc_e st" "bc_hd ?s = bc_hd st" by simp_all
  have ent: "ent_ok B {} ?s j = ent_ok B {} st j" for j by (simp add: ent_ok_def Let_def)
  have av: "avail_ok ?s = avail_ok st" by (simp add: avail_ok_def)
  have "bc_inv B {} (set (bc_dirty st)) ?s"
  proof (rule bc_invI)
    show "j \<in> set (bc_dirty ?s) \<union> set (bc_dirty st) \<longleftrightarrow> j < ne \<and> be_dirty (bc_entry ?s j)" for j using bc_invD(5)[OF inv, of j] by simp
    show "j \<in> set (bc_list ?s) \<union> set (bc_pref ?s) \<longleftrightarrow> j < ne \<and> be_bn (bc_entry ?s j) \<noteq> emptyblock" for j using bc_invD(4)[OF inv, of j] by simp
    show "ent_ok B {} ?s j" if "j < ne" for j using bc_invD(8)[OF inv that] ent by blast
  qed (use bc_invD(1,2,6,7,9)[OF inv] av in simp_all)
  from sync_loop_ok[OF this dev bc_invD(3)[OF inv]] obtain st' where st': "sync_loop dev ?s (bc_dirty st) = Inr st'" "bc_inv B {} {} st'" "keeps B ?s st'"
    "\<forall>j. bc_entry st' j = (if j \<in> set (bc_dirty st) then (bc_entry ?s j)\<lparr>be_dirty := False\<rparr> else bc_entry ?s j)" "bc_dirty st' = []"
    "\<forall>j < ne. hd_stat (bc_hd st') j = E_AGAIN \<longrightarrow> hd_stat (bc_hd st) j = E_AGAIN" by auto
  have en: "\<forall>j < ne. bc_entry st' j = (bc_entry st j)\<lparr>be_dirty := False\<rparr>"
  proof (intro allI impI)
    fix j assume "j < ne"
    then show "bc_entry st' j = (bc_entry st j)\<lparr>be_dirty := False\<rparr>" using st'(4) bc_invD(5)[OF inv, of j] bufentry_dirty_id[of "bc_entry st j"] by auto
  qed
  have "content ?s = content st" by (intro ext) (simp add: content_def Let_def)
  then have k: "keeps B st st'" using st'(3) by (simp add: keeps_def)
  have p: "pinned st st'" using en unfolding pinned_def loadeding_def by simp
  show ?thesis by (rule that[OF _ st'(1,2) k p en st'(5,6)]) (use st'(1) in \<open>simp add: sync_def\<close>)
qed

text \<open>After a write-back the disk has the contents.\<close>

lemma flushed:
  assumes inv: "bc_inv B {} {} st" and c: "\<forall>j < ne. \<not> be_dirty (bc_entry st j)" and b: "b \<in> B" "k < blocksize"
  shows "hd_disk (bc_hd st) (unat b * blocksize + k) = content st b k"
proof (cases "\<exists>i < ne. be_bn (bc_entry st i) = b \<and> be_loaded (bc_entry st i)")
  case True
  then obtain i where i: "i < ne" "be_bn (bc_entry st i) = b" "be_loaded (bc_entry st i)" by blast
  have "same_page (bc_hd st) (the (be_buf (bc_entry st i))) b" using ent_okD(6)[OF bc_invD(8)[OF inv i(1)] i(3)] c i b(1) by auto
  then show ?thesis using content_loaded[OF bc_invD(10)[OF inv] i(1,3,2)] b(2) by (simp add: same_page_def)
next
  case False
  then have "\<forall>i < ne. be_bn (bc_entry st i) = b \<longrightarrow> \<not> be_loaded (bc_entry st i)" by blast
  then show ?thesis using content_disk[OF bc_invD(10)[OF inv]] by simp
qed

section \<open>Slots\<close>

lemma empty_search_clean:
  assumes "\<forall>j < ne. \<not> be_dirty (bc_entry st j)" "i \<le> ne" "ne - i < fuel"
  shows "\<exists>j \<le> ne. empty_search fuel dev st i = Inr (st, j) \<and> (j < ne \<longrightarrow> be_bn (bc_entry st j) = emptyblock) \<and> (j = ne \<longrightarrow> (\<forall>k < ne. i \<le> k \<longrightarrow> be_bn (bc_entry st k) \<noteq> emptyblock))"
  using assms(2,3)
proof (induction fuel arbitrary: i)
  case (Suc fuel)
  then show ?case
  proof (cases "i \<noteq> ne \<and> be_bn (bc_entry st i) \<noteq> emptyblock")
    case True
    then have "i + 1 \<le> ne" "ne - (i + 1) < fuel" using Suc.prems by auto
    from Suc.IH[OF this] obtain j where j: "j \<le> ne" "empty_search fuel dev st (i + 1) = Inr (st, j)" "j < ne \<longrightarrow> be_bn (bc_entry st j) = emptyblock"
      "j = ne \<longrightarrow> (\<forall>k < ne. i + 1 \<le> k \<longrightarrow> be_bn (bc_entry st k) \<noteq> emptyblock)" by blast
    have "j = ne \<longrightarrow> (\<forall>k < ne. i \<le> k \<longrightarrow> be_bn (bc_entry st k) \<noteq> emptyblock)"
      using j(4) True by (metis Suc_eq_plus1 Suc_leI le_eq_less_or_eq)
    then show ?thesis using j True assms(1) Suc.prems(1) by auto
  qed auto
qed simp

text \<open>An entry that the search passes is in use: it has a block, and is not a dirty one without references.\<close>

definition passed :: "bufcache \<Rightarrow> nat \<Rightarrow> bool" where
  "passed st k \<longleftrightarrow> be_bn (bc_entry st k) \<noteq> emptyblock \<and> \<not> (be_dirty (bc_entry st k) \<and> be_ref (bc_entry st k) = 0)"

lemma empty_search_ok:
  assumes inv: "bc_inv B {} {} st" and dev: "device_fair dev" and i: "i \<le> ne" "2 * ne - i < fuel" "\<forall>k < i. passed st k"
  shows "\<exists>st' j. empty_search fuel dev st i = Inr (st', j) \<and> j \<le> ne \<and> (j < ne \<longrightarrow> be_bn (bc_entry st' j) = emptyblock) \<and> bc_inv B {} {} st' \<and> keeps B st st' \<and> pinned st st'
    \<and> (\<forall>k < ne. be_bn (bc_entry st' k) = be_bn (bc_entry st k)) \<and> (j = ne \<longrightarrow> (\<forall>k < ne. passed st' k)) \<and> (\<forall>k < ne. hd_stat (bc_hd st') k = E_AGAIN \<longrightarrow> hd_stat (bc_hd st) k = E_AGAIN)"
  using i
proof (induction fuel arbitrary: i)
  case (Suc fuel)
  show ?case
  proof (cases "i \<noteq> ne \<and> be_bn (bc_entry st i) \<noteq> emptyblock")
    case f: True
    show ?thesis
    proof (cases "be_dirty (bc_entry st i) \<and> be_ref (bc_entry st i) = 0")
      case True
      obtain st1 where st1: "sync dev st False = Inr st1" "bc_inv B {} {} st1" "keeps B st st1" "pinned st st1" "\<forall>j < ne. bc_entry st1 j = (bc_entry st j)\<lparr>be_dirty := False\<rparr>"
        "\<forall>j < ne. hd_stat (bc_hd st1) j = E_AGAIN \<longrightarrow> hd_stat (bc_hd st) j = E_AGAIN"
        by (rule sync_ok[OF inv dev]) blast
      have d1: "\<forall>j < ne. \<not> be_dirty (bc_entry st1 j)" using st1(5) by simp
      have n1: "ne - 1 < fuel" "1 \<le> ne" using Suc.prems f by auto
      obtain j where j: "j \<le> ne" "empty_search fuel dev st1 1 = Inr (st1, j)" "j < ne \<longrightarrow> be_bn (bc_entry st1 j) = emptyblock" "j = ne \<longrightarrow> (\<forall>k < ne. 1 \<le> k \<longrightarrow> be_bn (bc_entry st1 k) \<noteq> emptyblock)"
        using empty_search_clean[OF d1 n1(2,1), of dev] by blast
      have "be_bn (bc_entry st1 0) \<noteq> emptyblock" using bc_invD(6)[OF st1(2)] by simp
      then have "j = ne \<longrightarrow> (\<forall>k < ne. passed st1 k)" using j(4) d1 by (metis less_one not_le passed_def)
      then show ?thesis using st1 j True f by (intro exI[of _ st1] exI[of _ j]) simp
    next
      case False
      have "\<forall>k < i + 1. passed st k" using Suc.prems(3) f False by (auto simp: passed_def less_Suc_eq)
      moreover have "i + 1 \<le> ne" "2 * ne - (i + 1) < fuel" using Suc.prems(1,2) f by auto
      moreover have "empty_search (Suc fuel) dev st i = empty_search fuel dev st (i + 1)" unfolding empty_search.simps using f False by (simp only: if_True if_False simp_thms)
      ultimately show ?thesis using Suc.IH[of "i + 1"] by simp
    qed
  next
    case False
    then show ?thesis using Suc.prems inv keeps_refl pinned_refl by (intro exI[of _ st] exI[of _ i]) auto
  qed
qed simp

text \<open>The slot for a block: the entry that has it, an empty one, or one whose block is dropped.\<close>

lemma get_bufentry_slot_ok:
  assumes inv: "bc_inv B {} {} st" and dev: "device_fair dev" and bn: "bn \<noteq> emptyblock"
  obtains st' r where "get_bufentry_slot dev st bn = Inr (st', r)" "keeps B st st'" "pinned st st'" "r = None \<Longrightarrow> bc_inv B {} {} st'"
    "\<And>i. r = Some i \<Longrightarrow> i < ne \<and> bc_inv B {i} {} st' \<and> be_bn (bc_entry st' i) = bn \<and> i \<in> set (bc_list st') \<and> i \<notin> set (bc_pref st')"
    "\<forall>j < ne. hd_stat (bc_hd st') j = E_AGAIN \<longrightarrow> hd_stat (bc_hd st) j = E_AGAIN"
    "r = None \<longrightarrow> (\<forall>j < ne. be_bn (bc_entry st j) \<noteq> bn \<and> (be_ref (bc_entry st j) \<noteq> 0 \<or> hd_stat (bc_hd st) j = E_AGAIN))"
proof -
  note fin = that
  let ?i = "find_idx (\<lambda>e. be_bn e = bn) (bc_e st)"
  note f = find_idx_spec[of "\<lambda>e. be_bn e = bn" "bc_e st"] and len = bc_invD(11)[OF inv]
  show ?thesis
  proof (cases "?i = ne")
    case False
    then have i: "?i < ne" "be_bn (bc_entry st ?i) = bn" using f len by (auto simp: bc_entry_def)
    obtain st' where st': "rbind (bc_erase st ?i) (\<lambda>st1. take_slot st1 ?i bn) = Inr (st', Some ?i)" "bc_inv B {?i} {} st'" "keeps B st st'" "\<And>j. bc_entry st' j = bc_entry st j"
      "?i \<in> set (bc_list st')" "?i \<notin> set (bc_pref st')" "bc_hd st' = bc_hd st"
      using hit_slot_ok[OF inv i bn] by blast
    show ?thesis
      by (rule fin[of st' "Some ?i"]) (use False st' i in \<open>simp_all add: get_bufentry_slot_def Let_def pinned_def\<close>)
  next
    case True
    have none: "be_bn (bc_entry st j) \<noteq> bn" if "j < ne" for j using f True len that nth_mem[of j "bc_e st"] unfolding bc_entry_def by auto
    have pre: "0 \<le> ne" "2 * ne - 0 < 2 * ne + 2" "\<forall>k < 0. passed st k" by simp_all
    from empty_search_ok[OF inv dev pre] obtain st1 j where s: "empty_search (2 * ne + 2) dev st 0 = Inr (st1, j)" "j \<le> ne" "j < ne \<longrightarrow> be_bn (bc_entry st1 j) = emptyblock" "bc_inv B {} {} st1" "keeps B st st1" "pinned st st1"
      "\<forall>k < ne. be_bn (bc_entry st1 k) = be_bn (bc_entry st k)" "j = ne \<longrightarrow> (\<forall>k < ne. passed st1 k)" "\<forall>k < ne. hd_stat (bc_hd st1) k = E_AGAIN \<longrightarrow> hd_stat (bc_hd st) k = E_AGAIN" by blast
    have none1: "\<forall>k < ne. be_bn (bc_entry st1 k) \<noteq> bn" using none s(7) by simp
    have run: "get_bufentry_slot dev st bn = (if j \<noteq> ne then take_slot st1 j bn else case lru_victim st1 of Some b \<Rightarrow> rbind (evict st1 b) (\<lambda>st2. take_slot st2 b bn)
        | None \<Rightarrow> (case pref_victim st1 of Some b \<Rightarrow> rbind (evict st1 b) (\<lambda>st2. take_slot st2 b bn) | None \<Rightarrow> Inr (st1, None)))"
      unfolding get_bufentry_slot_def Let_def True s(1) rbind_simps by simp
    have evicted: thesis if v: "get_bufentry_slot dev st bn = rbind (evict st1 b) (\<lambda>st2. take_slot st2 b bn)" "b < ne" "be_bn (bc_entry st1 b) \<noteq> emptyblock" "be_ref (bc_entry st1 b) = 0" "\<not> be_dirty (bc_entry st1 b)"
        "hd_stat (bc_hd st1) b \<noteq> E_AGAIN" for b
    proof -
      obtain st2 where st2: "evict st1 b = Inr st2" "bc_inv B {} {} st2" "keeps B st1 st2" "pinned st1 st2" "be_bn (bc_entry st2 b) = emptyblock" "\<forall>j. j \<noteq> b \<longrightarrow> bc_entry st2 j = bc_entry st1 j"
        "hd_stat (bc_hd st2) = hd_stat (bc_hd st1)"
        by (rule evict_ok[OF s(4) v(2-6)]) blast
      have n2: "\<forall>k < ne. be_bn (bc_entry st2 k) \<noteq> bn" using none1 st2(5,6) bn by metis
      obtain st3 where st3: "take_slot st2 b bn = Inr (st3, Some b)" "bc_inv B {b} {} st3" "keeps B st2 st3" "pinned st2 st3"
        "\<forall>j. bc_entry st3 j = (if j = b then (bc_entry st2 b)\<lparr>be_bn := bn\<rparr> else bc_entry st2 j)" "b \<in> set (bc_list st3)" "b \<notin> set (bc_pref st3)" "bc_hd st3 = bc_hd st2"
        by (rule take_empty_ok[OF st2(2) v(2) st2(5) bn n2]) blast
      show thesis
        by (rule fin[of st3 "Some b"])
          (use v(1,2) st2(1,7) st3 s(9) keeps_trans[OF s(5) keeps_trans[OF st2(3) st3(3)]] pinned_trans[OF s(6) pinned_trans[OF st2(4) st3(4)]] in simp_all)
    qed
    show ?thesis
    proof (cases "j = ne")
      case False
      then have j: "j < ne" "be_bn (bc_entry st1 j) = emptyblock" using s(2,3) by simp_all
      obtain st2 where st2: "take_slot st1 j bn = Inr (st2, Some j)" "bc_inv B {j} {} st2" "keeps B st1 st2" "pinned st1 st2"
        "\<forall>k. bc_entry st2 k = (if k = j then (bc_entry st1 j)\<lparr>be_bn := bn\<rparr> else bc_entry st1 k)" "j \<in> set (bc_list st2)" "j \<notin> set (bc_pref st2)" "bc_hd st2 = bc_hd st1"
        by (rule take_empty_ok[OF s(4) j bn none1]) blast
      show ?thesis by (rule fin[of st2 "Some j"]) (use run False j(1) st2 s(9) keeps_trans[OF s(5) st2(3)] pinned_trans[OF s(6) st2(4)] in simp_all)
    next
      case jn: True
      show ?thesis
      proof (cases "lru_victim st1")
        case (Some b)
        then have b: "b \<in> set (bc_list st1)" "be_ref (bc_entry st1 b) = 0" "\<not> be_dirty (bc_entry st1 b)" unfolding lru_victim_def find_Some_iff by auto
        have m: "b < ne" "be_bn (bc_entry st1 b) \<noteq> emptyblock" using bc_invD(4)[OF s(4), of b] b(1) by auto
        have "b \<notin> set (bc_pref st1)" using bc_invD(2)[OF s(4)] b(1) by auto
        then have "\<not> be_loading (bc_e st1 ! b)" using ent_okD(5)[OF bc_invD(8)[OF s(4) m(1)]] b(2) by (auto simp: bc_entry_def)
        then have "hd_stat (bc_hd st1) b \<noteq> E_AGAIN" using gio_stat_free(2)[OF bc_invD(1)[OF s(4)] m(1)] by blast
        then show ?thesis using evicted[of b] run jn Some m b by simp
      next
        case None
        show ?thesis
        proof (cases "pref_victim st1")
          case (Some b)
          then have b: "b \<in> set (bc_pref st1)" "hd_stat (bc_hd st1) b \<noteq> E_AGAIN" "\<not> be_dirty (bc_entry st1 b)" unfolding pref_victim_def find_Some_iff by auto
          have m: "b < ne" "be_bn (bc_entry st1 b) \<noteq> emptyblock" using bc_invD(4)[OF s(4), of b] b(1) by auto
          have "be_ref (bc_entry st1 b) = 0" using ent_okD(4)[OF bc_invD(8)[OF s(4) m(1)]] b(1) by blast
          then show ?thesis using evicted[of b] run jn None Some m b by simp
        next
          case n: None
          have "be_bn (bc_entry st k) \<noteq> bn \<and> (be_ref (bc_entry st k) \<noteq> 0 \<or> hd_stat (bc_hd st) k = E_AGAIN)" if k: "k < ne" for k
          proof -
            have p: "passed st1 k" using s(8) jn k by blast
            have "k \<in> set (bc_list st1) \<union> set (bc_pref st1)" using p k bc_invD(4)[OF s(4), of k] by (simp add: passed_def)
            then have "be_ref (bc_entry st1 k) \<noteq> 0 \<or> hd_stat (bc_hd st1) k = E_AGAIN"
            proof
              assume "k \<in> set (bc_list st1)"
              then show ?thesis using None p unfolding lru_victim_def find_None_iff passed_def by blast
            next
              assume "k \<in> set (bc_pref st1)"
              then show ?thesis using n p ent_okD(4)[OF bc_invD(8)[OF s(4) k]] unfolding pref_victim_def find_None_iff passed_def by blast
            qed
            then show ?thesis using none[OF k] s(9) k pinnedD(1)[OF s(6) k] by auto
          qed
          then show ?thesis by (intro fin[of st1 None]) (use run jn None n s(4-6,9) in simp_all)
        qed
      qed
    qed
  qed
qed

section \<open>Loading\<close>

lemma load_disk_block_ok:
  assumes inv: "bc_inv B {} {} st" and i: "i < ne" "be_bn (bc_entry st i) = bn" "bn \<noteq> emptyblock" and pin: "i \<in> set (bc_pref st) \<or> be_ref (bc_entry st i) \<noteq> 0"
  obtains st' ok where "load_disk_block st i bn = Inr (st', ok)" "bc_inv B {} {} st'" "keeps B st st'" "pinned st st'" "ok \<Longrightarrow> loadeding (bc_entry st' i)"
    "be_bn (bc_entry st' i) = bn" "(\<forall>j < ne. hd_stat (bc_hd st) j \<noteq> E_AGAIN) \<longrightarrow> ok"
proof (cases "loadeding (bc_entry st i)")
  case True
  show ?thesis by (rule that[of st True]) (use True inv i keeps_refl pinned_refl in \<open>simp_all add: load_disk_block_def\<close>)
next
  case nl: False
  note es = bc_invD(10)[OF inv] and g = bc_invD(1)[OF inv] and len = bc_invD(11)[OF inv] and ei = ent_okD[OF bc_invD(8)[OF inv i(1)]] and av = bc_invD(9)[OF inv, unfolded avail_ok_def]
  have l: "\<not> be_loaded (bc_entry st i)" "\<not> be_loading (bc_entry st i)" "\<not> be_dirty (bc_entry st i)" using nl ei(2) by (auto simp: loadeding_def)
  have ne: "bc_avail st \<noteq> []" if n: "be_buf (bc_entry st i) = None"
  proof
    assume "bc_avail st = []"
    then have "ne \<le> card {j. j < ne \<and> be_buf (bc_entry st j) \<noteq> None}" using av by simp
    moreover have "card {j. j < ne \<and> be_buf (bc_entry st j) \<noteq> None} \<le> card ({..<ne} - {i})" by (rule card_mono) (use n in auto)
    ultimately show False using i(1) by simp
  qed
  define p where "p = (case be_buf (bc_entry st i) of None \<Rightarrow> hd (bc_avail st) | Some p \<Rightarrow> p)"
  define a where "a = (case be_buf (bc_entry st i) of None \<Rightarrow> tl (bc_avail st) | Some p \<Rightarrow> bc_avail st)"
  define e1 where "e1 = (bc_entry st i)\<lparr>be_buf := Some p\<rparr>"
  have pin_av: "bc_avail st = p # a" if "be_buf (bc_entry st i) = None" using ne[OF that] that by (simp add: p_def a_def)
  have e1_id: "e1 = bc_entry st i" if "be_buf (bc_entry st i) \<noteq> None" using that by (auto simp: e1_def p_def)
  have p: "page_ok p \<and> (\<forall>j < ne. j \<noteq> i \<longrightarrow> be_buf (bc_entry st j) \<noteq> Some p)"
  proof (cases "be_buf (bc_entry st i)")
    case None
    then show ?thesis using av pin_av by auto
  next
    case (Some q)
    then show ?thesis using es_okD(2)[OF es i(1), of q] bc_buf_other[OF es i(1) _ _ Some] by (auto simp: p_def bc_entry_def)
  qed
  define es1 where "es1 = (bc_e st)[i := e1]"
  have n1: "es1 ! j = (if j = i then e1 else bc_e st ! j)" for j using len i(1) by (simp add: es1_def)
  have es1: "es_ok es1" unfolding es1_def
    by (rule es_ok_set[OF es i(1)]) (use p i l bc_bn_other[OF es i(1)] in \<open>auto simp: e1_def loadeding_def bc_entry_def\<close>)
  have nli: "\<not> be_loading (bc_e st ! i)" using l(2) by (simp add: bc_entry_def)
  have "gio es1 None (hd_mem (bc_hd st)) (hd_disk (bc_hd st)) ((bc_hd st)\<lparr>hd_mem := hd_mem (bc_hd st)\<rparr>)"
  proof (rule gio_change[OF g es1], intro allI impI)
    fix j assume "j < ne"
    show "(\<not> be_loading (es1 ! j) \<and> hd_stat (bc_hd st) j \<noteq> E_AGAIN) \<or> (be_loading (es1 ! j) = be_loading (bc_e st ! j) \<and> be_buf (es1 ! j) = be_buf (bc_e st ! j) \<and> be_bn (es1 ! j) = be_bn (bc_e st ! j)
      \<and> (\<forall>q k. be_buf (bc_e st ! j) = Some q \<longrightarrow> k < blocksize \<longrightarrow> hd_mem (bc_hd st) (q + k) = hd_mem (bc_hd st) (q + k)))"
      using gio_stat_free(2)[OF g i(1) nli] l(2) by (cases "j = i") (simp_all add: n1 e1_def)
  qed
  then have g1: "gio es1 None (hd_mem (bc_hd st)) (hd_disk (bc_hd st)) (bc_hd st)" by simp
  have b1: "be_bn (es1 ! i) = bn" "be_buf (es1 ! i) = Some p" "\<not> loadeding (es1 ! i)" using i(2) nl by (simp_all add: n1 e1_def loadeding_def)
  obtain h r where h: "read_or_write_nonblocking (bc_hd st) cmd_read_fpdma_queued p blocksize (unat bn * blocksize) i = Inr (h, r)" "\<not> r \<longrightarrow> h = bc_hd st"
    "r \<longrightarrow> gio (es1[i := (es1 ! i)\<lparr>be_loading := True\<rparr>]) None (hd_mem (bc_hd st)) (hd_disk (bc_hd st)) h \<and> (\<forall>j. j \<noteq> i \<longrightarrow> hd_stat h j = hd_stat (bc_hd st) j) \<and> hd_mem h = hd_mem (bc_hd st) \<and> hd_disk h = hd_disk (bc_hd st)"
    "hd_outstanding (bc_hd st) = 0 \<longrightarrow> r"
    by (rule gio_read_block[OF g1 i(1) b1(2,3), unfolded b1(1)]) blast
  define e2 where "e2 = (if r then e1\<lparr>be_loading := True\<rparr> else e1)"
  define st' where "st' = st\<lparr>bc_e := (bc_e st)[i := e2], bc_hd := h, bc_avail := a\<rparr>"
  have sel: "bc_list st' = bc_list st" "bc_pref st' = bc_pref st" "bc_dirty st' = bc_dirty st" "bc_hd st' = h" "bc_avail st' = a" "bc_e st' = (bc_e st)[i := e2]" by (simp_all add: st'_def)
  have run: "load_disk_block st i bn = Inr (st', r)"
  proof (cases "be_buf (bc_entry st i)")
    case None
    have "e1\<lparr>be_loading := False\<rparr> = e1" using l(2) by (simp add: e1_def)
    then show ?thesis using nl None pin_av[OF None] h(1) len i(1)
      by (cases r) (simp_all add: load_disk_block_def Let_def bc_upd_def bc_entry_def st'_def e2_def e1_def)
  next
    case (Some q)
    have pa: "p = q" "a = bc_avail st" using Some by (simp_all add: p_def a_def)
    have x: "be_buf (bc_e st ! i) = Some q" "\<not> loadeding (bc_e st ! i)" using Some nl by (simp_all add: bc_entry_def)
    have e2: "e2 = (if r then (bc_e st ! i)\<lparr>be_loading := True\<rparr> else bc_e st ! i)" using e1_id Some by (simp add: e2_def bc_entry_def)
    have bk: "(bc_e st ! i)\<lparr>be_loading := False\<rparr> = bc_e st ! i" using nli by simp
    show ?thesis
      using h(1)[unfolded pa(1)] len i(1) by (cases r) (simp_all add: load_disk_block_def Let_def bc_upd_def bc_entry_def st'_def x e2 pa(2) bk split: list.split)
  qed
  have en: "bc_entry st' j = (if j = i then e2 else bc_entry st j)" for j by (rule bc_set_entry[OF len i(1) sel(6)])
  have g': "gio (bc_e st') None (hd_mem (bc_hd st')) (hd_disk (bc_hd st')) (bc_hd st')"
  proof (cases r)
    case True
    have "es1[i := (es1 ! i)\<lparr>be_loading := True\<rparr>] = bc_e st'" using True len i(1) by (simp add: sel es1_def e2_def)
    then show ?thesis using h(3) True gio_self by (auto simp: sel)
  next
    case False
    then show ?thesis using g1 h(2) by (simp add: sel es1_def e2_def)
  qed
  have mem: "hd_mem h = hd_mem (bc_hd st)" "hd_disk h = hd_disk (bc_hd st)" using h(2,3) by (cases r; simp)+
  have f2: "be_bn e2 = bn" "be_buf e2 = Some p" "be_ref e2 = be_ref (bc_entry st i)" "\<not> be_loaded e2" "\<not> be_dirty e2" "be_prefetched e2 = be_prefetched (bc_entry st i)" "be_write_ref e2 = 0"
    using i(2) l ei(3) by (simp_all add: e2_def e1_def)
  have av': "avail_ok st'"
  proof (cases "be_buf (bc_entry st i)")
    case None
    have "{j. j < ne \<and> be_buf (bc_entry st' j) \<noteq> None} = insert i {j. j < ne \<and> be_buf (bc_entry st j) \<noteq> None}" using i(1) f2(2) by (auto simp: en)
    moreover have "i \<notin> {j. j < ne \<and> be_buf (bc_entry st j) \<noteq> None}" using None by simp
    ultimately have "card {j. j < ne \<and> be_buf (bc_entry st' j) \<noteq> None} = Suc (card {j. j < ne \<and> be_buf (bc_entry st j) \<noteq> None})" by simp
    then show ?thesis using av pin_av[OF None] f2(2) unfolding avail_ok_def by (auto simp: en sel)
  next
    case (Some q)
    then have "be_buf (bc_entry st' j) = be_buf (bc_entry st j)" for j using f2(2) by (simp add: en p_def)
    moreover have "a = bc_avail st" using Some by (simp add: a_def)
    ultimately show ?thesis using bc_invD(9)[OF inv] unfolding avail_ok_def by (simp add: sel)
  qed
  have "bc_inv B {} {} st' \<and> keeps B st st'"
  proof (rule bc_hard[OF inv i(1) g'])
    show "distinct (bc_list st' @ bc_pref st')" using bc_invD(2)[OF inv] by (simp add: sel)
    show "i \<in> set (bc_list st') \<union> set (bc_pref st') \<longleftrightarrow> be_bn (bc_entry st' i) \<noteq> emptyblock" using bc_invD(4)[OF inv, of i] i by (simp add: sel en f2)
    show "i = 0 \<longrightarrow> be_bn (bc_entry st' i) = 0 \<and> be_ref (bc_entry st' i) \<noteq> 0" using bc_invD(6,7)[OF inv] i(2) by (auto simp: en f2)
    show "ent_ok B {} st' i" using ei(4) pin i(3) f2 unfolding ent_ok_def Let_def en by (auto simp: sel)
  qed (use en mem f2 av' l in \<open>auto simp: sel\<close>)
  moreover have "pinned st st'" using f2 i(2) l nl unfolding pinned_def en by auto
  moreover have "r \<Longrightarrow> loadeding (bc_entry st' i)" by (simp add: en e2_def loadeding_def)
  ultimately show ?thesis using that[OF run] f2(1) h(4) gio_idle[OF g] by (simp add: en)
qed

lemma bc_inv_drop:
  assumes inv: "bc_inv B {i} D st" and i: "be_loading (bc_entry st i) \<longrightarrow> i \<in> set (bc_pref st) \<or> be_ref (bc_entry st i) \<noteq> 0"
  shows "bc_inv B {} D st"
proof -
  have "ent_ok B {} st j" if "j < ne" for j using bc_invD(8)[OF inv that] i unfolding ent_ok_def Let_def by auto
  then show ?thesis by (rule bc_invI[OF bc_invD(1,2,3)[OF inv] bc_invD(4,5)[OF inv] bc_invD(6,7)[OF inv] _ bc_invD(9)[OF inv]])
qed

lemma prefetch_move_ok:
  assumes inv: "bc_inv B {i} {} st" and i: "i < ne" "be_bn (bc_entry st i) \<noteq> emptyblock" "be_ref (bc_entry st i) = 0"
  obtains st' where "rbind (bc_erase st i) (\<lambda>st2. rbind (pref_push_front st2 i) (\<lambda>st3. Inr (bc_upd st3 i (\<lambda>e. e\<lparr>be_prefetched := True\<rparr>)))) = Inr st'"
    "bc_inv B {} {} st'" "keeps B st st'" "\<forall>j. bc_entry st' j = (if j = i then (bc_entry st i)\<lparr>be_prefetched := True\<rparr> else bc_entry st j)" "i \<in> set (bc_pref st')"
proof -
  note len = bc_invD(11)[OF inv]
  have m: "i \<in> set (bc_list st) \<union> set (bc_pref st)" using bc_invD(4)[OF inv, of i] i by blast
  have d: "distinct (bc_list st)" "distinct (bc_pref st)" "set (bc_list st) \<inter> set (bc_pref st) = {}" using bc_invD(2)[OF inv] by auto
  define st' where "st' = bc_upd (st\<lparr>bc_list := remove1 i (bc_list st), bc_pref := i # remove1 i (bc_pref st)\<rparr>) i (\<lambda>e. e\<lparr>be_prefetched := True\<rparr>)"
  have sel: "bc_list st' = remove1 i (bc_list st)" "bc_pref st' = i # remove1 i (bc_pref st)" "bc_dirty st' = bc_dirty st" "bc_hd st' = bc_hd st" "bc_avail st' = bc_avail st" "length (bc_e st') = ne"
    using len by (simp_all add: st'_def)
  have en: "bc_entry st' j = (if j = i then (bc_entry st i)\<lparr>be_prefetched := True\<rparr> else bc_entry st j)" for j using len i(1) by (simp add: st'_def bc_upd_def bc_entry_def)
  have run: "rbind (bc_erase st i) (\<lambda>st2. rbind (pref_push_front st2 i) (\<lambda>st3. Inr (bc_upd st3 i (\<lambda>e. e\<lparr>be_prefetched := True\<rparr>)))) = Inr st'"
    using m d by (simp add: bc_erase_def pref_push_front_def st'_def)
  have "bc_inv B {} {} st' \<and> keeps B st st'"
  proof (rule bc_soft[OF inv])
    show "distinct (bc_list st' @ bc_pref st')" "set (bc_list st' @ bc_pref st') = set (bc_list st @ bc_pref st)" using m d by (auto simp: sel)
    show "j \<in> set (bc_dirty st') \<union> {} \<longleftrightarrow> j < ne \<and> be_dirty (bc_entry st' j)" for j using bc_invD(5)[OF inv, of j] by (auto simp: sel en)
    show "be_ref (bc_entry st' 0) \<noteq> 0" using bc_invD(7)[OF inv] by (simp add: en)
    fix j assume j: "j < ne"
    show "(be_bn (bc_entry st j) = emptyblock \<longrightarrow> be_ref (bc_entry st' j) = 0 \<and> \<not> be_prefetched (bc_entry st' j)) \<and> (be_dirty (bc_entry st' j) \<longrightarrow> be_loaded (bc_entry st j))
      \<and> be_write_ref (bc_entry st' j) = 0 \<and> (j \<in> set (bc_pref st') \<longrightarrow> be_ref (bc_entry st' j) = 0 \<and> be_prefetched (bc_entry st' j))
      \<and> (be_loading (bc_entry st j) \<longrightarrow> j \<in> set (bc_pref st') \<or> be_ref (bc_entry st' j) \<noteq> 0 \<or> j \<in> {}) \<and> (be_dirty (bc_entry st j) \<longrightarrow> be_dirty (bc_entry st' j))"
      using ent_okD[OF bc_invD(8)[OF inv j]] i d(2) by (cases "j = i") (auto simp: sel en)
  qed (use bc_invD(3)[OF inv] in \<open>simp_all add: sel en\<close>)
  then show ?thesis using that[OF run] en by (simp add: sel)
qed

lemma prefetch_loop_ok:
  assumes "bc_inv B {} {} st" "device_fair dev" "\<forall>n \<in> set ns. bn + word_of_nat n \<noteq> emptyblock"
  shows "\<exists>st'. prefetch_loop dev st bn ns = Inr st' \<and> bc_inv B {} {} st' \<and> keeps B st st' \<and> pinned st st'"
  using assms
proof (induction ns arbitrary: st)
  case (Cons n ns)
  let ?b = "bn + word_of_nat n"
  have b: "?b \<noteq> emptyblock" using Cons.prems(3) by simp
  obtain st1 r where s1: "get_bufentry_slot dev st ?b = Inr (st1, r)" "keeps B st st1" "pinned st st1" "r = None \<Longrightarrow> bc_inv B {} {} st1"
    "\<And>i. r = Some i \<Longrightarrow> i < ne \<and> bc_inv B {i} {} st1 \<and> be_bn (bc_entry st1 i) = ?b \<and> i \<in> set (bc_list st1) \<and> i \<notin> set (bc_pref st1)"
    by (rule get_bufentry_slot_ok[OF Cons.prems(1,2) b]) blast
  show ?case
  proof (cases r)
    case None
    then show ?thesis using s1(1-4) by simp
  next
    case (Some i)
    have i: "i < ne" "bc_inv B {i} {} st1" "be_bn (bc_entry st1 i) = ?b" using s1(5)[OF Some] by blast+
    have nb: "be_bn (bc_entry st1 i) \<noteq> emptyblock" using b i(3) by simp
    define mv where "mv = (if be_ref (bc_entry st1 i) = 0
        then rbind (bc_erase st1 i) (\<lambda>st2. rbind (pref_push_front st2 i) (\<lambda>st3. Inr (bc_upd st3 i (\<lambda>e. e\<lparr>be_prefetched := True\<rparr>)))) else Inr st1)"
    obtain st4 where s4: "mv = Inr st4" "bc_inv B {} {} st4" "keeps B st1 st4" "pinned st1 st4" "be_bn (bc_entry st4 i) = ?b" "i \<in> set (bc_pref st4) \<or> be_ref (bc_entry st4 i) \<noteq> 0"
    proof (cases "be_ref (bc_entry st1 i) = 0")
      case True
      obtain s where s: "rbind (bc_erase st1 i) (\<lambda>st2. rbind (pref_push_front st2 i) (\<lambda>st3. Inr (bc_upd st3 i (\<lambda>e. e\<lparr>be_prefetched := True\<rparr>)))) = Inr s"
        "bc_inv B {} {} s" "keeps B st1 s" "\<forall>j. bc_entry s j = (if j = i then (bc_entry st1 i)\<lparr>be_prefetched := True\<rparr> else bc_entry st1 j)" "i \<in> set (bc_pref s)"
        by (rule prefetch_move_ok[OF i(2,1) nb True]) blast
      have p: "pinned st1 s" using s(4) by (simp add: pinned_def loadeding_def)
      have m: "mv = Inr s" unfolding mv_def using True s(1) by simp
      have n: "be_bn (bc_entry s i) = ?b" using s(4) i(3) by simp
      show thesis by (rule that[OF m s(2,3) p n]) (use s(5) in blast)
    next
      case False
      then have m: "mv = Inr st1" by (simp add: mv_def)
      show thesis by (rule that[OF m bc_inv_drop[OF i(2)] keeps_refl pinned_refl i(3)]) (use False in blast)+
    qed
    obtain st5 ok where s5: "load_disk_block st4 i ?b = Inr (st5, ok)" "bc_inv B {} {} st5" "keeps B st4 st5" "pinned st4 st5"
      by (rule load_disk_block_ok[OF s4(2) i(1) s4(5) b s4(6)]) blast
    have k: "keeps B st st5" "pinned st st5" using keeps_trans[OF s1(2) keeps_trans[OF s4(3) s5(3)]] pinned_trans[OF s1(3) pinned_trans[OF s4(4) s5(4)]] by simp_all
    have run: "prefetch_loop dev st bn (n # ns) = (if ok then prefetch_loop dev st5 bn ns else Inr st5)"
      using s1(1) Some s4(1) s5(1) by (simp add: mv_def)
    show ?thesis
    proof (cases ok)
      case True
      have "\<forall>m \<in> set ns. bn + word_of_nat m \<noteq> emptyblock" using Cons.prems(3) by simp
      from Cons.IH[OF s5(2) Cons.prems(2) this] obtain st' where "prefetch_loop dev st5 bn ns = Inr st'" "bc_inv B {} {} st'" "keeps B st5 st'" "pinned st5 st'" by blast
      then show ?thesis using run True keeps_trans[OF k(1)] pinned_trans[OF k(2)] by auto
    next
      case False
      then show ?thesis using run s5(2) k by simp
    qed
  qed
qed (simp add: keeps_refl pinned_refl)

section \<open>Waiting for the device\<close>

lemma bc_hd_ok:
  assumes inv: "bc_inv B X D st" and g: "gio (bc_e st) None (hd_mem (bc_hd st)) (hd_disk (bc_hd st)) h"
  shows "bc_inv B X D (st\<lparr>bc_hd := h\<rparr>) \<and> keeps A st (st\<lparr>bc_hd := h\<rparr>)"
proof -
  let ?s = "st\<lparr>bc_hd := h\<rparr>"
  note es = bc_invD(10)[OF inv]
  have disk: "hd_disk h (unat b * blocksize + k) = hd_disk (bc_hd st) (unat b * blocksize + k)" if "k < blocksize" for b :: u32 and k using gioD(8)[OF g that, of b] by simp
  have mem: "hd_mem h (the (be_buf (bc_entry st j)) + k) = hd_mem (bc_hd st) (the (be_buf (bc_entry st j)) + k)" if "j < ne" "be_loaded (bc_entry st j)" "k < blocksize" for j k
    using es_okD(6)[OF es that(1)] gioD(7)[OF g that(1) _ _ that(3)] that(2) by (auto simp: bc_entry_def)
  have "bc_inv B X D ?s"
  proof (rule bc_invI)
    show "gio (bc_e ?s) None (hd_mem (bc_hd ?s)) (hd_disk (bc_hd ?s)) (bc_hd ?s)" using gio_self[OF g] by simp
    show "avail_ok ?s" using bc_invD(9)[OF inv] by (simp add: avail_ok_def)
    show "j \<in> set (bc_list ?s) \<union> set (bc_pref ?s) \<longleftrightarrow> j < ne \<and> be_bn (bc_entry ?s j) \<noteq> emptyblock" for j using bc_invD(4)[OF inv, of j] by simp
    show "j \<in> set (bc_dirty ?s) \<union> D \<longleftrightarrow> j < ne \<and> be_dirty (bc_entry ?s j)" for j using bc_invD(5)[OF inv, of j] by simp
    fix j assume j: "j < ne"
    show "ent_ok B X ?s j" using ent_okD[OF bc_invD(8)[OF inv j]] mem[OF j] disk unfolding ent_ok_def Let_def by (auto simp: same_page_def)
  qed (use bc_invD(2,3,6,7)[OF inv] in simp_all)
  moreover have "keeps A st ?s"
  proof (rule keepsI[OF es])
    show "es_ok (bc_e ?s)" using es by simp
    then have es': "es_ok (bc_e ?s)" .
    show "content ?s (be_bn (bc_entry st j)) k = hd_mem (bc_hd st) (the (be_buf (bc_entry st j)) + k)" if "j < ne" "be_loaded (bc_entry st j)" "k < blocksize" for j k
      using content_loaded[OF es' that(1), of "be_bn (bc_entry st j)" k] that(2) mem[OF that] by simp
    show "content ?s b k = hd_disk (bc_hd st) (unat b * blocksize + k)" if "k < blocksize" "\<forall>i < ne. be_bn (bc_entry st i) = b \<longrightarrow> \<not> be_loaded (bc_entry st i)" for b k
      using content_disk[OF es', of b k] that(2) disk[OF that(1)] by simp
  qed
  ultimately show ?thesis by blast
qed

lemma clean_page_other: "page_ok p \<Longrightarrow> page_ok q \<Longrightarrow> p \<noteq> q \<Longrightarrow> k < blocksize \<Longrightarrow> clean_page c m p (q + k) = m (q + k)"
  using pages_apart[of p q k] unfolding clean_page_def page_ok_def by (cases c) auto

lemma clean_page_at: "k < blocksize \<Longrightarrow> clean_page (Some c) m p (p + k) = c (\<lambda>k. m (p + k)) k"
  by (simp add: clean_page_def)

text \<open>A page of a loaded entry is changed only at that entry.\<close>

lemma clean_page_entries:
  assumes es: "es_ok (bc_e st)" and i: "i < ne" "be_buf (bc_entry st i) = Some p" and j: "j < ne" "j \<noteq> i" "be_buf (bc_entry st j) = Some q" "k < blocksize"
  shows "clean_page c m p (q + k) = m (q + k)"
proof (rule clean_page_other)
  show "page_ok p" "page_ok q" using es_okD(2)[OF es i(1)] es_okD(2)[OF es j(1)] i(2) j(3) by (simp_all add: bc_entry_def)
  show "p \<noteq> q" using bc_buf_other[OF es i(1) j(1,2) i(2)] j(3) by auto
qed (fact j(4))

lemma loaded_entry_ok:
  assumes inv: "bc_inv B {} {} st" and i: "i < ne" "loadeding (bc_entry st i)" "be_ref (bc_entry st i) \<noteq> 0" "hd_stat (bc_hd st) i \<noteq> E_AGAIN" and c: "cleaner = None \<or> be_bn (bc_entry st i) \<notin> B"
  obtains st' where "loaded_entry st i cleaner = Inr st'" "bc_inv B {} {} st'" "keeps B st st'" "be_loaded (bc_entry st' i)"
    "\<forall>j. be_bn (bc_entry st' j) = be_bn (bc_entry st j) \<and> be_ref (bc_entry st' j) = be_ref (bc_entry st j) \<and> be_buf (bc_entry st' j) = be_buf (bc_entry st j) \<and> (be_loaded (bc_entry st j) \<longrightarrow> be_loaded (bc_entry st' j))"
proof (cases "be_loading (bc_entry st i)")
  case False
  then have "be_loaded (bc_entry st i)" using i(2) by (simp add: loadeding_def)
  then show ?thesis by (intro that[of st]) (use False inv keeps_refl in \<open>simp_all add: loaded_entry_def\<close>)
next
  case ld: True
  note es = bc_invD(10)[OF inv] and g = bc_invD(1)[OF inv] and len = bc_invD(11)[OF inv] and ei = ent_okD[OF bc_invD(8)[OF inv i(1)]]
  obtain p where p: "be_buf (bc_entry st i) = Some p" using es_okD(7)[OF es i(1)] ld by (auto simp: bc_entry_def)
  have nb: "be_bn (bc_entry st i) \<noteq> emptyblock" using es_okD(3)[OF es i(1), of p] p by (simp add: bc_entry_def)
  have nl: "\<not> be_loaded (bc_entry st i)" using es_okD(8)[OF es i(1)] ld by (auto simp: bc_entry_def)
  have np: "i \<notin> set (bc_pref st)" using ei(4) i(3) by blast
  have il: "i \<in> set (bc_list st)" using bc_invD(4)[OF inv, of i] i(1) nb np by blast
  have d: "distinct (bc_list st)" "distinct (bc_pref st)" "set (bc_list st) \<inter> set (bc_pref st) = {}" using bc_invD(2)[OF inv] by auto
  define e where "e = (bc_entry st i)\<lparr>be_loading := False, be_loaded := True, be_prefetched := False\<rparr>"
  define m where "m = clean_page cleaner (hd_mem (bc_hd st)) p"
  define l where "l = (if be_prefetched (bc_entry st i) then remove1 i (bc_list st) @ [i] else bc_list st)"
  define st' where "st' = st\<lparr>bc_e := (bc_e st)[i := e], bc_list := l, bc_hd := (bc_hd st)\<lparr>hd_mem := m\<rparr>\<rparr>"
  have sel: "bc_e st' = (bc_e st)[i := e]" "bc_list st' = l" "bc_pref st' = bc_pref st" "bc_dirty st' = bc_dirty st" "bc_hd st' = (bc_hd st)\<lparr>hd_mem := m\<rparr>" "bc_avail st' = bc_avail st"
    by (simp_all add: st'_def)
  have run: "loaded_entry st i cleaner = Inr st'"
  proof (cases "be_prefetched (bc_entry st i)")
    case True
    then show ?thesis using ld p il np d len i(1)
      by (simp add: loaded_entry_def Let_def bc_upd_def bc_entry_def bc_erase_def list_push_back_def remove1_idem st'_def e_def m_def l_def)
  next
    case False
    then have "e = (bc_entry st i)\<lparr>be_loading := False, be_loaded := True\<rparr>" by (simp add: e_def)
    then show ?thesis using False ld p len i(1) by (simp add: loaded_entry_def Let_def bc_upd_def bc_entry_def st'_def m_def l_def)
  qed
  have en: "bc_entry st' j = (if j = i then e else bc_entry st j)" for j by (rule bc_set_entry[OF len i(1) sel(1)])
  have page: "m (q + k) = hd_mem (bc_hd st) (q + k)" if "j < ne" "j \<noteq> i" "be_buf (bc_entry st j) = Some q" "k < blocksize" for j q k
    unfolding m_def by (rule clean_page_entries[OF es i(1) p that])
  have es': "es_ok ((bc_e st)[i := e])"
  proof (rule es_ok_set[OF es i(1)])
    show "page_ok q \<and> be_bn e \<noteq> emptyblock \<and> (\<forall>j < ne. j \<noteq> i \<longrightarrow> be_buf (bc_e st ! j) \<noteq> Some q)" if "be_buf e = Some q" for q
      using that p nb es_okD(2)[OF es i(1), of p] bc_buf_other[OF es i(1) _ _ p] by (auto simp: e_def bc_entry_def)
    show "\<forall>j < ne. j \<noteq> i \<longrightarrow> be_bn (bc_e st ! j) \<noteq> be_bn e" using bc_bn_other[OF es i(1) _ _ nb] by (simp add: e_def bc_entry_def)
  qed (simp_all add: e_def p)
  have "gio ((bc_e st)[i := e]) None m (hd_disk (bc_hd st)) ((bc_hd st)\<lparr>hd_mem := m\<rparr>)"
  proof (rule gio_change[OF g es'], intro allI impI)
    fix j assume j: "j < ne"
    show "\<not> be_loading ((bc_e st)[i := e] ! j) \<and> hd_stat (bc_hd st) j \<noteq> E_AGAIN \<or> (be_loading ((bc_e st)[i := e] ! j) = be_loading (bc_e st ! j) \<and> be_buf ((bc_e st)[i := e] ! j) = be_buf (bc_e st ! j) \<and> be_bn ((bc_e st)[i := e] ! j) = be_bn (bc_e st ! j)
      \<and> (\<forall>q k. be_buf (bc_e st ! j) = Some q \<longrightarrow> k < blocksize \<longrightarrow> m (q + k) = hd_mem (bc_hd st) (q + k)))"
      using page[OF j] i(4) len i(1) by (cases "j = i") (simp_all add: e_def bc_entry_def)
  qed
  then have g': "gio (bc_e st') None (hd_mem (bc_hd st')) (hd_disk (bc_hd st')) (bc_hd st')" by (simp add: sel)
  have f: "be_bn e = be_bn (bc_entry st i)" "be_buf e = Some p" "be_ref e = be_ref (bc_entry st i)" "be_loaded e" "\<not> be_loading e" "be_dirty e = be_dirty (bc_entry st i)" "be_write_ref e = 0"
    using p ei(3) by (simp_all add: e_def)
  have bufs: "be_buf (bc_entry st' j) = be_buf (bc_entry st j)" for j by (simp add: en f p)
  have av: "avail_ok st'" using bc_invD(9)[OF inv] unfolding avail_ok_def bufs sel(6) .
  have "same_page (bc_hd st) p (be_bn (bc_entry st i))" using gioD(6)[OF g i(1) _ i(4), of p] ld p by (simp add: bc_entry_def)
  then have sp: "m (p + k) = hd_disk (bc_hd st) (unat (be_bn (bc_entry st i)) * blocksize + k)" if "be_bn (bc_entry st i) \<in> B" "k < blocksize" for k
    using c that by (auto simp: m_def clean_page_def same_page_def)
  have hard: "bc_inv B {} {} st' \<and> keeps B st st'"
  proof (rule bc_hard[OF inv i(1) g'])
    show "distinct (bc_list st' @ bc_pref st')" using d il by (auto simp: sel l_def)
    show "(j \<in> set (bc_pref st') \<longleftrightarrow> j \<in> set (bc_pref st)) \<and> (j \<in> set (bc_list st') \<union> set (bc_pref st') \<longleftrightarrow> j \<in> set (bc_list st) \<union> set (bc_pref st))" if "j \<noteq> i" for j
      using that by (simp add: sel l_def)
    show "i \<in> set (bc_list st') \<union> set (bc_pref st') \<longleftrightarrow> be_bn (bc_entry st' i) \<noteq> emptyblock" using il nb by (simp add: sel l_def en f)
    show "i = 0 \<longrightarrow> be_bn (bc_entry st' i) = 0 \<and> be_ref (bc_entry st' i) \<noteq> 0" using bc_invD(6,7)[OF inv] by (auto simp: en f)
    show "ent_ok B {} st' i" using nb np sp unfolding ent_ok_def Let_def en by (simp add: f sel same_page_def)
    show "hd_mem (bc_hd st') (the (be_buf (bc_entry st' i)) + k) = hd_disk (bc_hd st) (unat (be_bn (bc_entry st' i)) * blocksize + k)" if "be_bn (bc_entry st' i) \<in> B" "k < blocksize" for k
      using sp that by (simp add: en f sel)
  qed (use en page av nl f in \<open>auto simp: sel\<close>)
  show ?thesis by (rule that[OF run]) (use hard en f p nl in auto)
qed

section \<open>Getting a block\<close>

text \<open>What a caller that holds references relies on: entries with references keep their block, and loaded ones their page.\<close>

definition held :: "bufcache \<Rightarrow> bufcache \<Rightarrow> bool" where
  "held st st' \<longleftrightarrow> (\<forall>j < ne. be_ref (bc_entry st j) \<noteq> 0 \<longrightarrow> be_bn (bc_entry st' j) = be_bn (bc_entry st j)
     \<and> (be_loaded (bc_entry st j) \<longrightarrow> be_loaded (bc_entry st' j) \<and> be_buf (bc_entry st' j) = be_buf (bc_entry st j)))"

lemma pinned_held: "pinned st st' \<Longrightarrow> held st st'"
  by (auto simp: pinned_def held_def loadeding_def)

lemma held_trans:
  assumes "held st st'" "held st' st''" "\<forall>j < ne. be_ref (bc_entry st j) \<noteq> 0 \<longrightarrow> be_ref (bc_entry st' j) \<noteq> 0"
  shows "held st st''"
  using assms by (simp add: held_def)

text \<open>Changing the reference count of an entry.\<close>

lemma set_ref_ok:
  assumes inv: "bc_inv B X {} st" "X \<subseteq> {i}" and i: "i < ne" "be_bn (bc_entry st i) \<noteq> emptyblock" "i \<notin> set (bc_pref st)"
    and r: "i = 0 \<or> be_loading (bc_entry st i) \<longrightarrow> r \<noteq> 0"
  shows "bc_inv B {} {} (bc_upd st i (\<lambda>e. e\<lparr>be_ref := r\<rparr>)) \<and> keeps A st (bc_upd st i (\<lambda>e. e\<lparr>be_ref := r\<rparr>))"
proof -
  let ?s = "bc_upd st i (\<lambda>e. e\<lparr>be_ref := r\<rparr>)"
  note len = bc_invD(11)[OF inv(1)]
  have en: "bc_entry ?s j = (if j = i then (bc_entry st i)\<lparr>be_ref := r\<rparr> else bc_entry st j)" for j using bc_entry_upd[of i st] len i(1) by simp
  show ?thesis
  proof (rule bc_soft[OF inv(1)])
    show "j \<in> set (bc_dirty ?s) \<union> {} \<longleftrightarrow> j < ne \<and> be_dirty (bc_entry ?s j)" for j using bc_invD(5)[OF inv(1), of j] by (simp add: en)
    show "be_ref (bc_entry ?s 0) \<noteq> 0" using bc_invD(7)[OF inv(1)] r by (simp add: en)
    fix j assume j: "j < ne"
    show "(be_bn (bc_entry st j) = emptyblock \<longrightarrow> be_ref (bc_entry ?s j) = 0 \<and> \<not> be_prefetched (bc_entry ?s j)) \<and> (be_dirty (bc_entry ?s j) \<longrightarrow> be_loaded (bc_entry st j))
      \<and> be_write_ref (bc_entry ?s j) = 0 \<and> (j \<in> set (bc_pref ?s) \<longrightarrow> be_ref (bc_entry ?s j) = 0 \<and> be_prefetched (bc_entry ?s j))
      \<and> (be_loading (bc_entry st j) \<longrightarrow> j \<in> set (bc_pref ?s) \<or> be_ref (bc_entry ?s j) \<noteq> 0 \<or> j \<in> {}) \<and> (be_dirty (bc_entry st j) \<longrightarrow> be_dirty (bc_entry ?s j))"
      using ent_okD[OF bc_invD(8)[OF inv(1) j]] i inv(2) r by (cases "j = i") (auto simp: en)
  qed (use bc_invD(2,3)[OF inv(1)] len in \<open>simp_all add: en\<close>)
qed

lemma ref_one_more:
  assumes inv: "bc_inv B {i} {} st" and i: "i < ne" "be_bn (bc_entry st i) = bn" "bn \<noteq> emptyblock" "i \<notin> set (bc_pref st)" and r: "be_ref (bc_entry st i) \<noteq> - 1"
  defines "st' \<equiv> (if bn \<noteq> 0 then bc_upd st i (\<lambda>e. e\<lparr>be_ref := be_ref e + 1\<rparr>) else st)"
  shows "bc_inv B {} {} st'" "keeps B st st'" "be_ref (bc_entry st' i) \<noteq> 0" "bc_entry st' i = (bc_entry st i)\<lparr>be_ref := be_ref (bc_entry st i) + (if bn \<noteq> 0 then 1 else 0)\<rparr>"
    "\<And>j. j \<noteq> i \<Longrightarrow> bc_entry st' j = bc_entry st j"
proof -
  note len = bc_invD(11)[OF inv]
  have r1: "be_ref (bc_entry st i) + 1 \<noteq> 0" using r by (metis add.right_neutral add.assoc add.commute add_eq_0_iff)
  have z: "be_ref (bc_entry st i) \<noteq> 0" if "bn = 0"
  proof -
    have "i = 0" using bc_bn_other[OF bc_invD(10)[OF inv], of 0 i] bc_invD(6)[OF inv] i(1,2) that by auto
    then show ?thesis using bc_invD(7)[OF inv] by simp
  qed
  have eq: "bc_upd st i (\<lambda>e. e\<lparr>be_ref := be_ref e + 1\<rparr>) = bc_upd st i (\<lambda>e. e\<lparr>be_ref := be_ref (bc_entry st i) + 1\<rparr>)" by (simp add: bc_upd_def bc_entry_def)
  have s: "bc_inv B {} {} (bc_upd st i (\<lambda>e. e\<lparr>be_ref := be_ref e + 1\<rparr>)) \<and> keeps B st (bc_upd st i (\<lambda>e. e\<lparr>be_ref := be_ref e + 1\<rparr>))"
    unfolding eq by (rule set_ref_ok[OF inv]) (use i r1 in auto)
  have n: "bc_inv B {} {} st" if "bn = 0" by (rule bc_inv_drop[OF inv]) (use z[OF that] in simp)
  show "bc_inv B {} {} st'" "keeps B st st'" using s n keeps_refl by (simp_all add: st'_def)
  have il: "i < length (bc_e st)" using len i(1) by simp
  show "be_ref (bc_entry st' i) \<noteq> 0" using r1 z by (simp add: st'_def bc_entry_upd[OF il])
  show "bc_entry st' i = (bc_entry st i)\<lparr>be_ref := be_ref (bc_entry st i) + (if bn \<noteq> 0 then 1 else 0)\<rparr>" by (simp add: st'_def bc_entry_upd[OF il])
  show "bc_entry st' j = bc_entry st j" if "j \<noteq> i" for j using that by (simp add: st'_def bc_entry_upd[OF il])
qed

text \<open>The end of \<open>get_disk_entry\<close>: the wait for the device, and the entry made loaded.\<close>

lemma wait_loaded_ok:
  assumes inv: "bc_inv B {} {} st" and dev: "device_fair dev" and i: "i < ne" "loadeding (bc_entry st i)" "be_ref (bc_entry st i) \<noteq> 0" and c: "cleaner = None \<or> be_bn (bc_entry st i) \<notin> B"
  obtains st' where "rbind (hd_wait 33 dev (\<lambda>h. hd_stat h i \<noteq> E_AGAIN) (bc_hd st)) (\<lambda>h. rbind (loaded_entry (st\<lparr>bc_hd := h\<rparr>) i cleaner) (\<lambda>st5. Inr (st5, Some i))) = Inr (st', Some i)"
    "bc_inv B {} {} st'" "keeps B st st'" "be_loaded (bc_entry st' i)"
    "\<forall>j. be_bn (bc_entry st' j) = be_bn (bc_entry st j) \<and> be_ref (bc_entry st' j) = be_ref (bc_entry st j) \<and> be_buf (bc_entry st' j) = be_buf (bc_entry st j) \<and> (be_loaded (bc_entry st j) \<longrightarrow> be_loaded (bc_entry st' j))"
proof -
  obtain h where h: "hd_wait 33 dev (\<lambda>h. hd_stat h i \<noteq> E_AGAIN) (bc_hd st) = Inr h" "gio (bc_e st) None (hd_mem (bc_hd st)) (hd_disk (bc_hd st)) h" "hd_stat h i \<noteq> E_AGAIN"
    using gio_wait_stat[OF bc_invD(1)[OF inv] dev i(1)] by blast
  let ?s = "st\<lparr>bc_hd := h\<rparr>"
  note s = bc_hd_ok[OF inv h(2), of B]
  obtain st' where st': "loaded_entry ?s i cleaner = Inr st'" "bc_inv B {} {} st'" "keeps B ?s st'" "be_loaded (bc_entry st' i)"
    "\<forall>j. be_bn (bc_entry st' j) = be_bn (bc_entry ?s j) \<and> be_ref (bc_entry st' j) = be_ref (bc_entry ?s j) \<and> be_buf (bc_entry st' j) = be_buf (bc_entry ?s j) \<and> (be_loaded (bc_entry ?s j) \<longrightarrow> be_loaded (bc_entry st' j))"
    by (rule loaded_entry_ok[OF conjunct1[OF s] i(1), of cleaner]) (use i h(3) c in auto)
  show ?thesis by (rule that[of st']) (use h(1) st' keeps_trans[OF conjunct2[OF s] st'(3)] in simp_all)
qed

text \<open>Block numbers for which \<open>get_disk_entry\<close> can be called: the blocks that it prefetches have numbers as well.\<close>

definition bn_ok :: "u32 \<Rightarrow> bool" where
  "bn_ok bn \<longleftrightarrow> unat bn + n_prefetch < 2 ^ 32 - 1"

lemma bn_ok_next: "bn_ok bn \<Longrightarrow> n \<le> n_prefetch \<Longrightarrow> bn + word_of_nat n \<noteq> emptyblock"
proof
  assume a: "bn_ok bn" "n \<le> n_prefetch" "bn + word_of_nat n = emptyblock"
  have "unat (bn + word_of_nat n) = unat bn + n" using a(1,2) by (simp add: bn_ok_def unat_word_ariths unsigned_of_nat take_bit_nat_eq_self)
  moreover have "unat (- 1 :: u32) = 2 ^ 32 - 1" by (simp add: unsigned_minus_1_eq_mask mask_eq_exp_minus_1)
  ultimately show False using a unfolding bn_ok_def by simp
qed

text \<open>The part of \<open>get_disk_entry\<close> that runs once the entry is found.\<close>

lemma load_entry_ok:
  assumes inv: "bc_inv B {} {} st" and dev: "device_fair dev" and i: "i < ne" "be_bn (bc_entry st i) = bn" "be_ref (bc_entry st i) \<noteq> 0" and bn: "bn_ok bn" and c: "cleaner = None \<or> bn \<notin> B"
  obtains st' r where "rbind (load_disk_block st i bn) (\<lambda>(st3, ok).
                if \<not> ok then Inr (st3, None)
                else rbind (if p then prefetch_loop dev st3 bn [1..<Suc n_prefetch] else Inr st3) (\<lambda>st4.
                     rbind (hd_wait 33 dev (\<lambda>h. hd_stat h i \<noteq> E_AGAIN) (bc_hd st4)) (\<lambda>h.
                     rbind (loaded_entry (st4\<lparr>bc_hd := h\<rparr>) i cleaner) (\<lambda>st5. Inr (st5, Some i))))) = Inr (st', r)"
    "bc_inv B {} {} st'" "keeps B st st'" "held st st'" "\<forall>j < ne. be_ref (bc_entry st' j) = be_ref (bc_entry st j)" "r = None \<or> r = Some i \<and> be_loaded (bc_entry st' i)"
    "(\<forall>j < ne. hd_stat (bc_hd st) j \<noteq> E_AGAIN) \<longrightarrow> r \<noteq> None"
proof -
  have e: "bn \<noteq> emptyblock" using bn_ok_next[OF bn, of 0] by simp
  obtain st3 ok where s3: "load_disk_block st i bn = Inr (st3, ok)" "bc_inv B {} {} st3" "keeps B st st3" "pinned st st3" "ok \<longrightarrow> loadeding (bc_entry st3 i)"
    "(\<forall>j < ne. hd_stat (bc_hd st) j \<noteq> E_AGAIN) \<longrightarrow> ok"
    by (rule load_disk_block_ok[OF inv i(1,2) e disjI2[OF i(3)]]) blast
  show ?thesis
  proof (cases ok)
    case False
    show ?thesis by (rule that[of st3 None]) (use False s3 pinned_held[OF s3(4)] pinnedD(1)[OF s3(4)] in simp_all)
  next
    case True
    have "\<forall>n \<in> set [1..<Suc n_prefetch]. bn + word_of_nat n \<noteq> emptyblock" using bn_ok_next[OF bn] by auto
    then obtain st4 where s4: "(if p then prefetch_loop dev st3 bn [1..<Suc n_prefetch] else Inr st3) = Inr st4" "bc_inv B {} {} st4" "keeps B st3 st4" "pinned st3 st4"
      using prefetch_loop_ok[OF s3(2) dev, of "[1..<Suc n_prefetch]" bn] s3(2) keeps_refl pinned_refl by (cases p) auto
    have pin: "pinned st st4" using pinned_trans[OF s3(4) s4(4)] .
    have r3: "be_ref (bc_entry st3 i) \<noteq> 0" using pinnedD(1)[OF s3(4) i(1)] i(3) by simp
    have i4: "loadeding (bc_entry st4 i)" "be_ref (bc_entry st4 i) \<noteq> 0" "be_bn (bc_entry st4 i) = bn"
      using pinnedD(3)[OF s4(4) i(1) r3] s3(5) True pinnedD(1,2)[OF pin i(1)] i(2,3) by simp_all
    obtain st' where s': "rbind (hd_wait 33 dev (\<lambda>h. hd_stat h i \<noteq> E_AGAIN) (bc_hd st4)) (\<lambda>h. rbind (loaded_entry (st4\<lparr>bc_hd := h\<rparr>) i cleaner) (\<lambda>st5. Inr (st5, Some i))) = Inr (st', Some i)"
      "bc_inv B {} {} st'" "keeps B st4 st'" "be_loaded (bc_entry st' i)"
      "\<forall>j. be_bn (bc_entry st' j) = be_bn (bc_entry st4 j) \<and> be_ref (bc_entry st' j) = be_ref (bc_entry st4 j) \<and> be_buf (bc_entry st' j) = be_buf (bc_entry st4 j) \<and> (be_loaded (bc_entry st4 j) \<longrightarrow> be_loaded (bc_entry st' j))"
      by (rule wait_loaded_ok[OF s4(2) dev i(1) i4(1,2), of cleaner]) (use c i4(3) in auto)
    have h4: "held st4 st'" using s'(5) by (simp add: held_def)
    have refs: "\<forall>j < ne. be_ref (bc_entry st' j) = be_ref (bc_entry st j)" using s'(5) pinnedD(1)[OF pin] by simp
    have held: "held st st'" by (rule held_trans[OF pinned_held[OF pin] h4]) (use pinnedD(1)[OF pin] in simp)
    show ?thesis
      by (rule that[of st' "Some i", OF _ s'(2) keeps_trans[OF s3(3) keeps_trans[OF s4(3) s'(3)]] held refs]) (use s3(1) True s4(1) s'(1,4) in simp_all)
  qed
qed

lemma get_disk_entry_ok:
  assumes inv: "bc_inv B {} {} st" and dev: "device_fair dev" and bn: "bn_ok bn" and c: "cleaner = None \<or> bn \<notin> B" and ref: "\<forall>j < ne. be_bn (bc_entry st j) = bn \<longrightarrow> be_ref (bc_entry st j) \<noteq> - 1"
  obtains st' r where "get_disk_entry dev st bn cleaner = Inr (st', r)" "bc_inv B {} {} st'" "keeps B st st'" "held st st'"
    "\<forall>i. r = Some i \<longrightarrow> i < ne \<and> be_bn (bc_entry st' i) = bn \<and> be_loaded (bc_entry st' i)
       \<and> (\<forall>j < ne. be_ref (bc_entry st' j) = be_ref (bc_entry st j) + (if j = i \<and> bn \<noteq> 0 then 1 else 0))"
    "(\<forall>j < ne. hd_stat (bc_hd st) j \<noteq> E_AGAIN) \<longrightarrow> (\<exists>j < ne. be_bn (bc_entry st j) = bn \<or> be_ref (bc_entry st j) = 0) \<longrightarrow> r \<noteq> None"
proof -
  have e: "bn \<noteq> emptyblock" using bn_ok_next[OF bn, of 0] by simp
  obtain st1 r1 where s1: "get_bufentry_slot dev st bn = Inr (st1, r1)" "keeps B st st1" "pinned st st1" "r1 = None \<Longrightarrow> bc_inv B {} {} st1"
    "\<And>i. r1 = Some i \<Longrightarrow> i < ne \<and> bc_inv B {i} {} st1 \<and> be_bn (bc_entry st1 i) = bn \<and> i \<in> set (bc_list st1) \<and> i \<notin> set (bc_pref st1)"
    "\<forall>j < ne. hd_stat (bc_hd st1) j = E_AGAIN \<longrightarrow> hd_stat (bc_hd st) j = E_AGAIN"
    "r1 = None \<longrightarrow> (\<forall>j < ne. be_bn (bc_entry st j) \<noteq> bn \<and> (be_ref (bc_entry st j) \<noteq> 0 \<or> hd_stat (bc_hd st) j = E_AGAIN))"
    by (rule get_bufentry_slot_ok[OF inv dev e]) blast
  show ?thesis
  proof (cases r1)
    case None
    show ?thesis by (rule that[of st1 None]) (use None s1(1-4,7) pinned_held in \<open>auto simp: get_disk_entry_def\<close>)
  next
    case (Some i)
    have i: "i < ne" "bc_inv B {i} {} st1" "be_bn (bc_entry st1 i) = bn" "i \<notin> set (bc_pref st1)" using s1(5)[OF Some] by blast+
    have mx: "be_ref (bc_entry st1 i) \<noteq> - 1"
    proof (cases "be_ref (bc_entry st i) = 0")
      case False
      then show ?thesis using pinnedD(1,2)[OF s1(3) i(1)] i(1,3) ref by simp
    qed (use pinnedD(1)[OF s1(3) i(1)] in simp)
    define st2 where "st2 = (if bn \<noteq> 0 then bc_upd st1 i (\<lambda>e. e\<lparr>be_ref := be_ref e + 1\<rparr>) else st1)"
    note s2 = ref_one_more[OF i(2,1,3) e i(4) mx, folded st2_def]
    have b2: "be_bn (bc_entry st2 i) = bn" using s2(4) i(3) by simp
    obtain st' r where s': "rbind (load_disk_block st2 i bn) (\<lambda>(st3, ok).
                if \<not> ok then Inr (st3, None)
                else rbind (if bn \<noteq> 0 \<and> \<not> loadeding (bc_entry st2 i) then prefetch_loop dev st3 bn [1..<Suc n_prefetch] else Inr st3) (\<lambda>st4.
                     rbind (hd_wait 33 dev (\<lambda>h. hd_stat h i \<noteq> E_AGAIN) (bc_hd st4)) (\<lambda>h.
                     rbind (loaded_entry (st4\<lparr>bc_hd := h\<rparr>) i cleaner) (\<lambda>st5. Inr (st5, Some i))))) = Inr (st', r)"
      "bc_inv B {} {} st'" "keeps B st2 st'" "held st2 st'" "\<forall>j < ne. be_ref (bc_entry st' j) = be_ref (bc_entry st2 j)" "r = None \<or> r = Some i \<and> be_loaded (bc_entry st' i)"
      "(\<forall>j < ne. hd_stat (bc_hd st2) j \<noteq> E_AGAIN) \<longrightarrow> r \<noteq> None"
      by (rule load_entry_ok[OF s2(1) dev i(1) b2 s2(3) bn c]) blast
    have run: "get_disk_entry dev st bn cleaner = Inr (st', r)" 
      unfolding get_disk_entry_def s1(1) rbind_simps Some prod.case option.case Let_def st2_def[symmetric] using s'(1) .
    have h12: "held st1 st2" unfolding held_def using s2(4,5) by (metis (no_types, lifting) bufentry.select_convs(1,4,7) bufentry.surjective bufentry.update_convs(2))
    have r12: "\<forall>j < ne. be_ref (bc_entry st1 j) \<noteq> 0 \<longrightarrow> be_ref (bc_entry st2 j) \<noteq> 0" using s2(3,5) by metis
    have r01: "\<forall>j < ne. be_ref (bc_entry st j) \<noteq> 0 \<longrightarrow> be_ref (bc_entry st1 j) \<noteq> 0" using pinnedD(1)[OF s1(3)] by simp
    have held: "held st st'" by (rule held_trans[OF pinned_held[OF s1(3)] held_trans[OF h12 s'(4) r12] r01])
    have refs: "be_ref (bc_entry st' j) = be_ref (bc_entry st j) + (if j = i \<and> bn \<noteq> 0 then 1 else 0)" if "j < ne" for j
      using s'(5) s2(4) s2(5)[of j] pinnedD(1)[OF s1(3) that] that by (cases "j = i") simp_all
    have bi: "be_bn (bc_entry st' i) = bn" using s'(4) s2(3) b2 i(1) unfolding held_def by simp
    have "bc_hd st2 = bc_hd st1" by (simp add: st2_def)
    then have "(\<forall>j < ne. hd_stat (bc_hd st) j \<noteq> E_AGAIN) \<longrightarrow> r \<noteq> None" using s'(7) s1(6) by auto
    then show ?thesis
      by (intro that[OF run s'(2) keeps_trans[OF s1(2) keeps_trans[OF s2(2) s'(3)]] held]) (use s'(6) i(1) bi refs in auto)
  qed
qed

section \<open>Releasing and changing blocks\<close>

lemma put_entry_ok:
  assumes inv: "bc_inv B {} {} st" and i: "i < ne" "be_loaded (bc_entry st i)" "be_ref (bc_entry st i) \<noteq> 0"
  shows "bc_inv B {} {} (put_entry st i)" "keeps B st (put_entry st i)"
proof -
  note es = bc_invD(10)[OF inv]
  obtain p where p: "be_buf (bc_entry st i) = Some p" using es_okD(6)[OF es i(1)] i(2) by (auto simp: bc_entry_def)
  have nb: "be_bn (bc_entry st i) \<noteq> emptyblock" using es_okD(3)[OF es i(1), of p] p by (simp add: bc_entry_def)
  have np: "i \<notin> set (bc_pref st)" using ent_okD(4)[OF bc_invD(8)[OF inv i(1)]] i(3) by blast
  have nl: "\<not> be_loading (bc_entry st i)" using es_okD(8)[OF es i(1)] i(2) by (simp add: bc_entry_def)
  have eq: "put_entry st i = bc_upd st i (\<lambda>e. e\<lparr>be_ref := be_ref (bc_entry st i) - 1\<rparr>)" if "be_bn (bc_entry st i) \<noteq> 0"
    using that by (simp add: put_entry_def bc_upd_def bc_entry_def)
  have "i \<noteq> 0" if "be_bn (bc_entry st i) \<noteq> 0" using that bc_invD(6)[OF inv] by metis
  then have "bc_inv B {} {} (put_entry st i) \<and> keeps B st (put_entry st i)"
    using set_ref_ok[OF inv _ i(1) nb np, of "be_ref (bc_entry st i) - 1" B] eq nl inv keeps_refl
    by (cases "be_bn (bc_entry st i) = 0") (simp_all add: put_entry_def)
  then show "bc_inv B {} {} (put_entry st i)" "keeps B st (put_entry st i)" by simp_all
qed

text \<open>New bytes in the page of an entry, and how the callers store them: between \<open>get_write\<close> and \<open>put_write\<close>.\<close>

definition write_page :: "bufcache \<Rightarrow> nat \<Rightarrow> (nat \<Rightarrow> u8) \<Rightarrow> bufcache" where
  "write_page st i f = st\<lparr>bc_hd := (bc_hd st)\<lparr>hd_mem := clean_page (Some (\<lambda>_. f)) (hd_mem (bc_hd st)) (the (be_buf (bc_entry st i)))\<rparr>\<rparr>"

definition store_block :: "bufcache \<Rightarrow> nat \<Rightarrow> (nat \<Rightarrow> u8) \<Rightarrow> bufcache res" where
  "store_block st i f = rbind (get_write st i) (\<lambda>st1. Inr (put_write (write_page st1 i f) i))"

lemma write_page_sel [simp]:
  "bc_e (write_page st i f) = bc_e st" "bc_list (write_page st i f) = bc_list st" "bc_pref (write_page st i f) = bc_pref st" "bc_dirty (write_page st i f) = bc_dirty st"
  "bc_avail (write_page st i f) = bc_avail st" "bc_entry (write_page st i f) j = bc_entry st j" "hd_disk (bc_hd (write_page st i f)) = hd_disk (bc_hd st)"
  by (simp_all add: write_page_def bc_entry_def)

lemma write_page_ok:
  assumes inv: "bc_inv B {} {} st" and i: "i < ne" "be_loaded (bc_entry st i)" "be_dirty (bc_entry st i) \<or> be_bn (bc_entry st i) \<notin> B"
  shows "bc_inv B {} {} (write_page st i f)" "keeps (B - {be_bn (bc_entry st i)}) st (write_page st i f)" "k < blocksize \<Longrightarrow> content (write_page st i f) (be_bn (bc_entry st i)) k = f k"
proof -
  let ?s = "write_page st i f"
  note es = bc_invD(10)[OF inv] and g = bc_invD(1)[OF inv] and ei = ent_okD[OF bc_invD(8)[OF inv i(1)]]
  obtain p where p: "be_buf (bc_entry st i) = Some p" using es_okD(6)[OF es i(1)] i(2) by (auto simp: bc_entry_def)
  have nl: "\<not> be_loading (bc_e st ! i)" using es_okD(8)[OF es i(1)] i(2) by (simp add: bc_entry_def)
  have hm: "bc_hd ?s = (bc_hd st)\<lparr>hd_mem := clean_page (Some (\<lambda>_. f)) (hd_mem (bc_hd st)) p\<rparr>" using p by (simp add: write_page_def)
  note page = clean_page_entries[OF es i(1) p]
  have "gio (bc_e st) None (clean_page (Some (\<lambda>_. f)) (hd_mem (bc_hd st)) p) (hd_disk (bc_hd st)) (bc_hd ?s)"
    unfolding hm
  proof (rule gio_change[OF g es], intro allI impI)
    fix j assume j: "j < ne"
    show "(\<not> be_loading (bc_e st ! j) \<and> hd_stat (bc_hd st) j \<noteq> E_AGAIN) \<or> (be_loading (bc_e st ! j) = be_loading (bc_e st ! j) \<and> be_buf (bc_e st ! j) = be_buf (bc_e st ! j) \<and> be_bn (bc_e st ! j) = be_bn (bc_e st ! j)
      \<and> (\<forall>q k. be_buf (bc_e st ! j) = Some q \<longrightarrow> k < blocksize \<longrightarrow> clean_page (Some (\<lambda>_. f)) (hd_mem (bc_hd st)) p (q + k) = hd_mem (bc_hd st) (q + k)))"
      using page[OF j] gio_stat_free(2)[OF g i(1) nl] nl by (cases "j = i") (auto simp: bc_entry_def)
  qed
  then have g': "gio (bc_e ?s) None (hd_mem (bc_hd ?s)) (hd_disk (bc_hd ?s)) (bc_hd ?s)" by (simp add: hm)
  have av: "avail_ok ?s" using bc_invD(9)[OF inv] by (simp add: avail_ok_def)
  have hard: "bc_inv B {} {} ?s \<and> keeps (B - {be_bn (bc_entry st i)}) st ?s"
  proof (rule bc_hard[OF inv i(1) g'])
    show "i \<in> set (bc_list ?s) \<union> set (bc_pref ?s) \<longleftrightarrow> be_bn (bc_entry ?s i) \<noteq> emptyblock" using bc_invD(4)[OF inv, of i] i(1) by simp
    show "i = 0 \<longrightarrow> be_bn (bc_entry ?s i) = 0 \<and> be_ref (bc_entry ?s i) \<noteq> 0" using bc_invD(6,7)[OF inv] by auto
    show "ent_ok B {} ?s i" using ei(1-5) i(3) unfolding ent_ok_def Let_def by auto
    show "hd_mem (bc_hd ?s) (q + k) = hd_mem (bc_hd st) (q + k)" if "j < ne" "j \<noteq> i" "be_buf (bc_entry st j) = Some q" "k < blocksize" for j q k
      using page[OF that] by (simp add: hm)
  qed (use bc_invD(2)[OF inv] av i(2) in simp_all)
  then show "bc_inv B {} {} ?s" "keeps (B - {be_bn (bc_entry st i)}) st ?s" by blast+
  show "content ?s (be_bn (bc_entry st i)) k = f k" if "k < blocksize"
    using content_loaded[of ?s i "be_bn (bc_entry st i)" k] es i(1,2) p clean_page_at[OF that] by (simp add: hm)
qed

lemma sully_ok:
  assumes inv: "bc_inv B {} {} st" and i: "i < ne" "be_loaded (bc_entry st i)"
  shows "bc_inv B {} {} (sully st i)" "keeps B st (sully st i)" "bc_entry (sully st i) j = (if j = i then (bc_entry st i)\<lparr>be_dirty := True\<rparr> else bc_entry st j)"
proof -
  note len = bc_invD(11)[OF inv]
  have en: "bc_entry (sully st i) j = (if j = i then (bc_entry st i)\<lparr>be_dirty := True\<rparr> else bc_entry st j)" for j
    using len i(1) by (simp add: sully_def bc_upd_def bc_entry_def)
  have sel: "bc_list (sully st i) = bc_list st" "bc_pref (sully st i) = bc_pref st" "bc_dirty (sully st i) = (if be_dirty (bc_entry st i) then bc_dirty st else i # bc_dirty st)"
    "bc_hd (sully st i) = bc_hd st" "bc_avail (sully st i) = bc_avail st" "length (bc_e (sully st i)) = ne" using len by (simp_all add: sully_def)
  have d: "j \<in> set (bc_dirty st) \<longleftrightarrow> j < ne \<and> be_dirty (bc_entry st j)" for j using bc_invD(5)[OF inv, of j] by simp
  have "bc_inv B {} {} (sully st i) \<and> keeps B st (sully st i)"
  proof (rule bc_soft[OF inv])
    show "distinct (bc_dirty (sully st i))" using bc_invD(3)[OF inv] d[of i] by (simp add: sel)
    show "j \<in> set (bc_dirty (sully st i)) \<union> {} \<longleftrightarrow> j < ne \<and> be_dirty (bc_entry (sully st i) j)" for j using d[of j] i(1) by (auto simp: sel en)
    fix j assume j: "j < ne"
    show "(be_bn (bc_entry st j) = emptyblock \<longrightarrow> be_ref (bc_entry (sully st i) j) = 0 \<and> \<not> be_prefetched (bc_entry (sully st i) j)) \<and> (be_dirty (bc_entry (sully st i) j) \<longrightarrow> be_loaded (bc_entry st j))
      \<and> be_write_ref (bc_entry (sully st i) j) = 0 \<and> (j \<in> set (bc_pref (sully st i)) \<longrightarrow> be_ref (bc_entry (sully st i) j) = 0 \<and> be_prefetched (bc_entry (sully st i) j))
      \<and> (be_loading (bc_entry st j) \<longrightarrow> j \<in> set (bc_pref (sully st i)) \<or> be_ref (bc_entry (sully st i) j) \<noteq> 0 \<or> j \<in> {}) \<and> (be_dirty (bc_entry st j) \<longrightarrow> be_dirty (bc_entry (sully st i) j))"
      using ent_okD[OF bc_invD(8)[OF inv j]] i(2) by (cases "j = i") (simp_all add: en sel)
  qed (use bc_invD(2,7)[OF inv] in \<open>simp_all add: sel en\<close>)
  then show "bc_inv B {} {} (sully st i)" "keeps B st (sully st i)" by simp_all
  show "bc_entry (sully st i) j = (if j = i then (bc_entry st i)\<lparr>be_dirty := True\<rparr> else bc_entry st j)" by (rule en)
qed

lemma store_block_ok:
  assumes inv: "bc_inv B {} {} st" and i: "i < ne" "be_loaded (bc_entry st i)"
  obtains st' where "store_block st i f = Inr st'" "bc_inv B {} {} st'" "keeps (B - {be_bn (bc_entry st i)}) st st'" "\<forall>k < blocksize. content st' (be_bn (bc_entry st i)) k = f k" "held st st'"
    "\<forall>j. be_ref (bc_entry st' j) = be_ref (bc_entry st j)"
proof -
  note s = sully_ok[OF inv i] and len = bc_invD(11)[OF inv]
  let ?s = "write_page (sully st i) i f"
  have w: "be_write_ref (bc_entry st i) = 0" using ent_okD(3)[OF bc_invD(8)[OF inv i(1)]] .
  have "(bc_e st ! i)\<lparr>be_dirty := True, be_write_ref := 0\<rparr> = (bc_e st ! i)\<lparr>be_dirty := True\<rparr>" using w by (simp add: bc_entry_def)
  note wr = this
  have run: "store_block st i f = Inr ?s"
    using w len i(1) by (simp add: wr store_block_def get_write_def put_write_def write_page_def sully_def bc_upd_def bc_entry_def)
  have l: "be_loaded (bc_entry (sully st i) i)" "be_dirty (bc_entry (sully st i) i) \<or> be_bn (bc_entry (sully st i) i) \<notin> B" "be_bn (bc_entry (sully st i) i) = be_bn (bc_entry st i)" using i(2) by (simp_all add: s(3))
  note t = write_page_ok[OF s(1) i(1) l(1,2), where f = f, unfolded l(3)]
  have "keeps (B - {be_bn (bc_entry st i)}) st (sully st i)" using s(2) by (simp add: keeps_def)
  from keeps_trans[OF this t(2)] show ?thesis by (intro that[OF run t(1)]) (use t(3) s(3) in \<open>auto simp: held_def\<close>)
qed

section \<open>Dropping\<close>

lemma drop_loop_ok:
  assumes "bc_inv B {} {} st" "\<forall>j < ne. \<not> be_dirty (bc_entry st j) \<and> hd_stat (bc_hd st) j \<noteq> E_AGAIN" "set is \<subseteq> {..<ne}"
  shows "\<exists>st'. drop_loop st is = Inr st' \<and> bc_inv B {} {} st' \<and> keeps B st st' \<and> pinned st st' \<and> (\<forall>j < ne. \<not> be_dirty (bc_entry st' j))
    \<and> (\<forall>j < ne. be_bn (bc_entry st j) = emptyblock \<longrightarrow> be_bn (bc_entry st' j) = emptyblock) \<and> (\<forall>j \<in> set is. be_ref (bc_entry st' j) = 0 \<longrightarrow> be_bn (bc_entry st' j) = emptyblock)"
  using assms
proof (induction "is" arbitrary: st)
  case (Cons i "is")
  have i: "i < ne" "set is \<subseteq> {..<ne}" using Cons.prems(3) by auto
  obtain st1 where s1: "(if be_bn (bc_entry st i) \<noteq> emptyblock \<and> be_ref (bc_entry st i) = 0 then evict st i else Inr st) = Inr st1" "bc_inv B {} {} st1" "keeps B st st1" "pinned st st1"
    "\<forall>j < ne. \<not> be_dirty (bc_entry st1 j) \<and> hd_stat (bc_hd st1) j \<noteq> E_AGAIN" "\<forall>j < ne. be_bn (bc_entry st j) = emptyblock \<longrightarrow> be_bn (bc_entry st1 j) = emptyblock"
    "be_ref (bc_entry st1 i) = 0 \<longrightarrow> be_bn (bc_entry st1 i) = emptyblock"
  proof (cases "be_bn (bc_entry st i) \<noteq> emptyblock \<and> be_ref (bc_entry st i) = 0")
    case True
    obtain s where s: "evict st i = Inr s" "bc_inv B {} {} s" "keeps B st s" "pinned st s" "be_bn (bc_entry s i) = emptyblock" "\<forall>j. j \<noteq> i \<longrightarrow> bc_entry s j = bc_entry st j" "hd_stat (bc_hd s) = hd_stat (bc_hd st)"
      by (rule evict_ok[OF Cons.prems(1) i(1)]) (use True Cons.prems(2) i(1) in auto)
    have nd: "\<not> be_dirty (bc_entry s i)" using ent_okD(1,2)[OF bc_invD(8)[OF s(2) i(1)]] s(5) by (auto simp: loadeding_def)
    have d: "\<forall>j < ne. \<not> be_dirty (bc_entry s j) \<and> hd_stat (bc_hd s) j \<noteq> E_AGAIN" using Cons.prems(2) s(6,7) nd by metis
    have b: "\<forall>j < ne. be_bn (bc_entry st j) = emptyblock \<longrightarrow> be_bn (bc_entry s j) = emptyblock" using s(5,6) by metis
    show thesis by (rule that[OF _ s(2,3,4) d b]) (use True s(1,5) in simp_all)
  next
    case False
    show thesis by (rule that[OF _ Cons.prems(1) keeps_refl pinned_refl Cons.prems(2)]) (use False in auto)
  qed
  obtain st' where s': "drop_loop st1 is = Inr st'" "bc_inv B {} {} st'" "keeps B st1 st'" "pinned st1 st'" "\<forall>j < ne. \<not> be_dirty (bc_entry st' j)"
    "\<forall>j < ne. be_bn (bc_entry st1 j) = emptyblock \<longrightarrow> be_bn (bc_entry st' j) = emptyblock" "\<forall>j \<in> set is. be_ref (bc_entry st' j) = 0 \<longrightarrow> be_bn (bc_entry st' j) = emptyblock"
    using Cons.IH[OF s1(2,5) i(2)] by blast
  have "be_ref (bc_entry st' i) = 0 \<longrightarrow> be_bn (bc_entry st' i) = emptyblock" using pinnedD(1)[OF s'(4) i(1)] s1(7) s'(6) i(1) by simp
  moreover have "drop_loop st (i # is) = Inr st'" using s1(1) s'(1) by simp
  ultimately show ?case using s' keeps_trans[OF s1(3) s'(3)] pinned_trans[OF s1(4) s'(4)] s1(6) by auto
qed (simp add: keeps_refl pinned_refl)

section \<open>The cache in use\<close>

text \<open>The disk before its first command, and enough pages for all entries.\<close>

definition start_ok :: "ahcistate \<Rightarrow> nat list \<Rightarrow> bool" where
  "start_ok h avail \<longleftrightarrow> hd_inv h \<and> hd_outstanding h = 0 \<and> (\<forall>i < ne. hd_stat h i \<noteq> E_AGAIN) \<and> distinct avail \<and> (\<forall>p \<in> set avail. page_ok p) \<and> ne \<le> length avail"

definition disk_block :: "ahcistate \<Rightarrow> u32 \<Rightarrow> nat \<Rightarrow> u8" where
  "disk_block h b k = hd_disk h (unat b * blocksize + k)"

text \<open>
  The states of the cache together with what its blocks hold for the callers.  \<open>B\<close> are the blocks whose bytes only change between \<open>get_write\<close> and \<open>put_write\<close>;
  the others, such as the inode blocks with their locks, are also written directly and cleaned when they are loaded.  References are taken by
  \<open>get_disk_entry\<close> and put back for loaded entries.  The device and its interrupts come at any time.
\<close>

inductive bc_run :: "u32 set \<Rightarrow> bufcache \<Rightarrow> (u32 \<Rightarrow> nat \<Rightarrow> u8) \<Rightarrow> bool" for B :: "u32 set" where
  start: "start_ok h avail \<Longrightarrow> bc_run B (bufcache_new h avail) (disk_block h)"
| get: "bc_run B st a \<Longrightarrow> device_fair dev \<Longrightarrow> bn_ok bn \<Longrightarrow> cleaner = None \<or> bn \<notin> B \<Longrightarrow> \<forall>j < ne. be_bn (bc_entry st j) = bn \<longrightarrow> be_ref (bc_entry st j) \<noteq> - 1 \<Longrightarrow>
    get_disk_entry dev st bn cleaner = Inr (st', r) \<Longrightarrow> bc_run B st' a"
| put: "bc_run B st a \<Longrightarrow> i < ne \<Longrightarrow> be_loaded (bc_entry st i) \<Longrightarrow> be_ref (bc_entry st i) \<noteq> 0 \<Longrightarrow> bc_run B (put_entry st i) a"
| store: "bc_run B st a \<Longrightarrow> i < ne \<Longrightarrow> be_loaded (bc_entry st i) \<Longrightarrow> be_ref (bc_entry st i) \<noteq> 0 \<Longrightarrow> store_block st i f = Inr st' \<Longrightarrow> bc_run B st' (a(be_bn (bc_entry st i) := f))"
| raw: "bc_run B st a \<Longrightarrow> i < ne \<Longrightarrow> be_loaded (bc_entry st i) \<Longrightarrow> be_ref (bc_entry st i) \<noteq> 0 \<Longrightarrow> be_bn (bc_entry st i) \<notin> B \<Longrightarrow> bc_run B (write_page st i f) a"
| flush: "bc_run B st a \<Longrightarrow> device_fair dev \<Longrightarrow> dropping \<longrightarrow> (\<forall>j < ne. hd_stat (bc_hd st) j \<noteq> E_AGAIN) \<Longrightarrow> sync dev st dropping = Inr st' \<Longrightarrow> bc_run B st' a"
| device: "bc_run B st a \<Longrightarrow> bit (hd_active (bc_hd st)) s \<Longrightarrow> bc_run B (st\<lparr>bc_hd := hd_finish (bc_hd st) s\<rparr>) a"
| irq: "bc_run B st a \<Longrightarrow> ahci_interrupt (bc_hd st) False = Inr h \<Longrightarrow> bc_run B (st\<lparr>bc_hd := h\<rparr>) a"

lemma bufcache_new_entry: "i < ne \<Longrightarrow> bc_entry (bufcache_new h avail) i = (if i = 0 then be_empty\<lparr>be_bn := 0, be_ref := 1\<rparr> else be_empty)"
  by (cases i) (simp_all add: bc_entry_def bufcache_new_def)

lemma bufcache_new_ok:
  assumes "start_ok h avail"
  shows "bc_inv B {} {} (bufcache_new h avail)" "content (bufcache_new h avail) b k = disk_block h b k"
proof -
  let ?s = "bufcache_new h avail"
  have s: "hd_inv h" "hd_outstanding h = 0" "\<forall>i < ne. hd_stat h i \<noteq> E_AGAIN" "distinct avail" "\<forall>p \<in> set avail. page_ok p" "ne \<le> length avail" using assms by (simp_all add: start_ok_def)
  have sel: "bc_list ?s = [0]" "bc_pref ?s = []" "bc_dirty ?s = []" "bc_hd ?s = h" "bc_avail ?s = avail" "length (bc_e ?s) = ne" by (simp_all add: bufcache_new_def)
  have f: "be_buf (bc_entry ?s i) = None" "\<not> be_loaded (bc_entry ?s i)" "\<not> be_loading (bc_entry ?s i)" "\<not> be_dirty (bc_entry ?s i)" "\<not> be_prefetched (bc_entry ?s i)" "be_write_ref (bc_entry ?s i) = 0"
    "be_bn (bc_entry ?s i) = (if i = 0 then 0 else emptyblock)" "be_ref (bc_entry ?s i) = (if i = 0 then 1 else 0)" if "i < ne" for i
    using bufcache_new_entry[OF that, of h avail] by (simp_all add: be_empty_def)
  have es: "es_ok (bc_e ?s)" using f sel(6) unfolding es_ok_def loadeding_def bc_entry_def[symmetric] by simp
  have g: "gio (bc_e ?s) None (hd_mem (bc_hd ?s)) (hd_disk (bc_hd ?s)) (bc_hd ?s)"
    using es s(1-3) f unfolding gio_defs bc_entry_def[symmetric] by (simp add: sel)
  show "bc_inv B {} {} ?s"
  proof (rule bc_invI[OF g])
    show "i \<in> set (bc_list ?s) \<union> set (bc_pref ?s) \<longleftrightarrow> i < ne \<and> be_bn (bc_entry ?s i) \<noteq> emptyblock" for i using f(7)[of i] by (cases "i = 0") (auto simp: sel)
    show "i \<in> set (bc_dirty ?s) \<union> {} \<longleftrightarrow> i < ne \<and> be_dirty (bc_entry ?s i)" for i using f(4)[of i] by (auto simp: sel)
    show "ent_ok B {} ?s i" if "i < ne" for i using f[OF that] by (simp add: ent_ok_def Let_def loadeding_def sel)
    show "avail_ok ?s" using s(4-6) f(1) unfolding avail_ok_def sel by simp
  qed (use f(7,8)[of 0] in \<open>simp_all add: sel\<close>)
  show "content ?s b k = disk_block h b k" using content_disk[OF es, of b k] f(2) by (simp add: disk_block_def sel)
qed

lemma keeps_blocks: "keeps B st st' \<Longrightarrow> \<forall>b \<in> B. \<forall>k < blocksize. content st b k = a b k \<Longrightarrow> \<forall>b \<in> B. \<forall>k < blocksize. content st' b k = a b k"
  by (simp add: keeps_def)

lemma sync_all_ok:
  assumes inv: "bc_inv B {} {} st" and dev: "device_fair dev" and d: "dropping \<longrightarrow> (\<forall>j < ne. hd_stat (bc_hd st) j \<noteq> E_AGAIN)"
  obtains st' where "sync dev st dropping = Inr st'" "bc_inv B {} {} st'" "keeps B st st'" "pinned st st'" "\<forall>j < ne. \<not> be_dirty (bc_entry st' j)"
    "dropping \<longrightarrow> (\<forall>j < ne. be_ref (bc_entry st' j) = 0 \<longrightarrow> be_bn (bc_entry st' j) = emptyblock)"
proof -
  obtain st1 where s: "sync dev st False = Inr st1" "sync_loop dev (st\<lparr>bc_dirty := []\<rparr>) (bc_dirty st) = Inr st1" "bc_inv B {} {} st1" "keeps B st st1" "pinned st st1"
    "\<forall>j < ne. bc_entry st1 j = (bc_entry st j)\<lparr>be_dirty := False\<rparr>" "\<forall>j < ne. hd_stat (bc_hd st1) j = E_AGAIN \<longrightarrow> hd_stat (bc_hd st) j = E_AGAIN"
    by (rule sync_ok[OF inv dev]) blast
  have nd: "\<forall>j < ne. \<not> be_dirty (bc_entry st1 j)" using s(6) by simp
  show ?thesis
  proof (cases dropping)
    case False
    show ?thesis by (rule that[OF _ s(3,4,5) nd]) (use False s(1) in simp_all)
  next
    case True
    have "\<forall>j < ne. \<not> be_dirty (bc_entry st1 j) \<and> hd_stat (bc_hd st1) j \<noteq> E_AGAIN" using nd s(7) d True by blast
    moreover have "set [0..<ne] \<subseteq> {..<ne}" by auto
    ultimately obtain st' where s': "drop_loop st1 [0..<ne] = Inr st'" "bc_inv B {} {} st'" "keeps B st1 st'" "pinned st1 st'" "\<forall>j < ne. \<not> be_dirty (bc_entry st' j)"
      "\<forall>j \<in> set [0..<ne]. be_ref (bc_entry st' j) = 0 \<longrightarrow> be_bn (bc_entry st' j) = emptyblock"
      using drop_loop_ok[OF s(3)] by blast
    have run: "sync dev st dropping = Inr st'" using True s(2) s'(1) by (simp add: sync_def)
    show ?thesis by (rule that[OF run s'(2) keeps_trans[OF s(4) s'(3)] pinned_trans[OF s(5) s'(4)] s'(5)]) (use s'(6) in auto)
  qed
qed

lemma bc_run_ok: "bc_run B st a \<Longrightarrow> bc_inv B {} {} st \<and> (\<forall>b \<in> B. \<forall>k < blocksize. content st b k = a b k)"
proof (induction rule: bc_run.induct)
  case (start h avail)
  then show ?case using bufcache_new_ok by simp
next
  case (get st a dev bn cleaner st' r)
  obtain s q where s: "get_disk_entry dev st bn cleaner = Inr (s, q)" "bc_inv B {} {} s" "keeps B st s"
    by (rule get_disk_entry_ok[OF conjunct1[OF get.IH] get.hyps(2-5)]) blast
  have "s = st'" using s(1) get.hyps(6) by simp
  then show ?case using s(2) keeps_blocks[OF s(3)] get.IH by blast
next
  case (put st a i)
  then show ?case using put_entry_ok[of B st i] keeps_blocks[of B st "put_entry st i" a] by blast
next
  case (store st a i f st')
  obtain s where s: "store_block st i f = Inr s" "bc_inv B {} {} s" "keeps (B - {be_bn (bc_entry st i)}) st s" "\<forall>k < blocksize. content s (be_bn (bc_entry st i)) k = f k"
    by (rule store_block_ok[OF conjunct1[OF store.IH] store.hyps(2,3), of f]) blast
  have "s = st'" using s(1) store by simp
  then show ?case using s store by (auto simp: keeps_def)
next
  case (raw st a i f)
  then show ?case using write_page_ok[of B st i, where f = f] keeps_blocks[of B st "write_page st i f" a] by auto
next
  case (flush st a dev dropping st')
  obtain s where s: "sync dev st dropping = Inr s" "bc_inv B {} {} s" "keeps B st s"
    by (rule sync_all_ok[OF conjunct1[OF flush.IH] flush.hyps(2,3)]) blast
  have "s = st'" using s(1) flush.hyps(4) by simp
  then show ?case using s(2) keeps_blocks[OF s(3)] flush.IH by blast
next
  case (device st a s)
  note i = conjunct1[OF device.IH]
  note d = bc_hd_ok[OF i gio_finish[OF bc_invD(1)[OF i] device.hyps(2)], of B]
  show ?case using d keeps_blocks[OF conjunct2[OF d]] device.IH by blast
next
  case (irq st a h)
  note i = conjunct1[OF irq.IH]
  note d = bc_hd_ok[OF i gio_acked[OF bc_invD(1)[OF i] irq.hyps(2)], of B]
  show ?case using d keeps_blocks[OF conjunct2[OF d]] irq.IH by blast
qed




section \<open>Witnesses\<close>

definition pages0 :: "nat list" where
  "pages0 = map (\<lambda>i. i * blocksize) [1..<101]"

lemma start0: "start_ok disk0 pages0"
proof -
  have "distinct pages0" unfolding pages0_def distinct_map by (simp add: inj_on_def)
  moreover have "\<forall>p \<in> set pages0. page_ok p" by (auto simp: pages0_def page_ok_def)
  ultimately show ?thesis using disk0_inv by (simp add: start_ok_def pages0_def disk0_def)
qed

lemmas run0 = bc_run.start[OF start0, of UNIV]




end
