(* ===== verification/Spec2Isabelle.thy ===== *)
theory Spec2Isabelle
  imports Buddy_Init Pipe Keyboard Journal_Correct Vfs_Correct Vmiter_Correct Process_Correct Loader_Correct Exec_Correct Bufcache_Correct
begin

text \<open>
  \<^bold>\<open>Verification of the PugOS kernel.\<close>

  PugOS is a teaching kernel for x86-64: a buddy allocator of physical pages, page tables, processes with threads, a scheduler with
  wait queues, system calls on files and pipes, a keyboard console, a SATA driver with a buffer cache, and the ChickadeeFS disk format with a journal.  Each
  theory models the C++ code of one part and proves what makes it correct.

  \<^bold>\<open>Modelling.\<close>  A C++ structure is a \<open>record\<close>, an enumeration a \<open>datatype\<close>, an integer of a fixed width a machine word where its
  wrap-around can matter.  A function that changes state takes the state and returns the new one.  A result is of type \<open>'a res\<close>, where
  \<open>Inl\<close> carries a \<open>fault\<close>: a failed assertion, an access outside an array, a null or dangling pointer, an uninitialised
  value, a panic, or the end of the turns of a loop (\<open>No_Return\<close>).  Code that runs under a lock is one step; interleavings are step relations.

  \<^bold>\<open>Theories\<close>
    \<^item> \<open>Kernel_Prelude\<close>: results and faults, error numbers, words, and the lemmas on lists that the components share.
    \<^item> \<open>KList\<close> (\<open>k-list.hh\<close>): the doubly linked intrusive lists on a store of links; they refine lists.  The locale \<open>intrusive_list\<close> is the
      interface that the page allocator uses.
    \<^item> \<open>Memrange\<close> (\<open>k-memrange.hh\<close>): the sorted array of typed physical ranges; \<open>set\<close> is the pointwise update of a function from
      addresses to types.
    \<^item> \<open>Buddy\<close>, \<open>Buddy_Inv\<close>, \<open>Buddy_Correct\<close>, \<open>Buddy_Init\<close> (\<open>k-alloc.cc\<close>): the buddy allocator.  Its invariant says that the blocks tile memory and that
      the free lists hold the free ones; \<open>kalloc\<close> returns a new aligned block, \<open>kfree\<close> removes exactly one, and over any
      sequence of calls live blocks stay disjoint (locale \<open>region_allocator\<close>).  \<open>init_kalloc\<close> establishes the invariant from the memory ranges.
    \<^item> \<open>Pipe\<close> (\<open>k-vfs.cc\<close>): the circular buffer of a pipe as a queue of bytes (locale \<open>byte_queue\<close>).
    \<^item> \<open>Klib\<close>, \<open>Printf\<close> (\<open>lib.cc\<close>): memory and string functions, number parsing, formatted output and the console.
    \<^item> \<open>Crc32c\<close> (\<open>crc32c.cc\<close>): the sliced table algorithm is the bit-serial CRC-32C.
    \<^item> \<open>Journal\<close>, \<open>Journal_Correct\<close> (\<open>journalreplayer.cc\<close>): the analysis of the journal, and replay as the last version of every block.
    \<^item> \<open>Keyboard\<close> (\<open>k-devices.cc\<close>, \<open>k-vfs.cc\<close>): scan codes, the line buffer and the console device.
    \<^item> \<open>Vfs\<close>, \<open>Vfs_Correct\<close> (\<open>k-vfs.cc\<close>, \<open>k-vfs.hh\<close>, \<open>kernel.cc\<close>): descriptors, open files and vnodes with their reference counts, and the
      system calls on them; counts are exact in every reachable state, and no call uses a freed object.
    \<^item> \<open>Vmiter\<close>, \<open>Vmiter_Correct\<close> (\<open>k-vmiter.cc\<close>, \<open>kernel.cc\<close>): the page-table iterator against the page walk of the hardware, mapping, and the
      validation of user addresses.
    \<^item> \<open>Sched\<close>, \<open>Sched_Correct\<close> (\<open>k-cpu.cc\<close>, \<open>k-wait.hh\<close>, \<open>kernel.cc\<close>): run queues, the scheduling loop, waiters, the timing wheel;
      no wakeup is lost.
    \<^item> \<open>Process\<close>, \<open>Process_Tree\<close>, \<open>Process_Correct\<close> (\<open>kernel.cc\<close>, \<open>k-proc.cc\<close>): fork, clone, exit, reaping and waiting refine operations on a
      tree of processes.
    \<^item> \<open>Chkfs\<close>, \<open>Chkfs_Map\<close>, \<open>Chkfs_Alloc\<close>, \<open>Chkfs_Correct\<close> (\<open>k-chkfs.cc\<close>, \<open>k-chkfsiter.cc\<close>, \<open>k-vfs.cc\<close>): the files of ChickadeeFS.  The block map and the
      file iterator agree, reads and writes are a round trip, and no block gets two uses.
    \<^item> \<open>Chkfs_Dir\<close>, \<open>Chkfs_Dir_Lookup\<close>, \<open>Chkfs_Open\<close>, \<open>Chkfs_Dir_Correct\<close> (\<open>k-chkfs.cc\<close>, \<open>kernel.cc\<close>): files by name.  Lookup finds the first entry of a name, reading by name
      returns the bytes of that file, and a file that open creates is found again while every other name keeps its meaning.
    \<^item> \<open>Aspace\<close> (on \<open>Vmiter\<close>), \<open>Loader\<close>, \<open>Loader_Segment\<close>, \<open>Loader_Correct\<close> (\<open>k-proc.cc\<close>, \<open>elf.h\<close>, \<open>k-devices.cc\<close>): address spaces and the program loader.  The locale \<open>program_file\<close> is what the loader needs of the
      source of a program; the initial file system and the disk are its interpretations.  Loading is safe for every file, and what it loads is in memory.
    \<^item> \<open>Exec\<close>, \<open>Exec_Correct\<close> (\<open>kernel.cc\<close>): the argument block that \<open>execv\<close> builds.
    \<^item> \<open>Ahci\<close>, \<open>Ahci_Correct\<close> (\<open>k-devices.cc\<close>): the SATA driver with a device that finishes its commands in any order.  Transfers end and move the right bytes; the locale
      \<open>disk_client\<close> is what those who wait for the disk rely on.
    \<^item> \<open>Bufcache\<close>, \<open>Bufcache_Io\<close>, \<open>Bufcache_Inv\<close>, \<open>Bufcache_Correct\<close> (\<open>k-chkfs.cc\<close>): the buffer cache, with prefetching, eviction and write-back, refines a disk of blocks.  \<open>Bufcache_Io\<close> ties the
      queue of the disk to the entries, \<open>Bufcache_Inv\<close> has the invariant, and \<open>bc_run\<close> in \<open>Bufcache_Correct\<close> is the step relation of the cache and the device.

  \<^bold>\<open>Bounds and fuel.\<close>  A loop whose end is not obvious takes a number of turns, and a theorem shows that the number used is enough: the
  split and merge loops of the allocator take one turn per order, the scheduling loop one per process of the run queue, \<open>check_range\<close> one
  per page, the re-parenting loop of an exit one per slot of the process table, and a read or write of a file one per byte.  A wait for the disk takes 33 turns: the queue has at most 32
  commands and a fair device finishes one per turn.  The search for an empty cache entry takes two turns per entry, because it starts again once, after a write-back.  The loops over a directory
  take one turn per block of the largest file and one more, and the loops of the loader one per byte of a segment and a page more.

  \<^bold>\<open>Not modelled.\<close>  Assembly, the boot loader and the hardware set-up (\<open>boot.cc\<close>, \<open>k-hardware.cc\<close>, \<open>k-init.cc\<close>, \<open>k-apic.hh\<close>, \<open>k-pci.hh\<close>, \<open>k-mpspec.cc\<close>), which only talk to devices, and the start-up of the disk controller; the
  sanitizer runtime and the debugging views; the host tools under \<open>build/\<close>; the user programs (\<open>p-*.cc\<close>); the checks of the
  arguments of \<open>execv\<close>, the registers, and the page tables that \<open>fork\<close> copies; and the atomic instructions of locks, whose regions are single steps here.
\<close>

end
